(* ===== verification/Prelude.thy ===== *)
theory Prelude
  imports Main "HOL-Library.Word" "HOL-Library.AList"
begin

text \<open>
  Shared vocabulary of the development: the machine integers of the servers
  (\<^verbatim>\<open>BYTE\<close>, \<^verbatim>\<open>WORD\<close>, \<^verbatim>\<open>DWORD\<close>, \<^verbatim>\<open>ull\<close>), checked memory access on byte arrays
  (\<^verbatim>\<open>memcpy\<close> with an explicit fault instead of undefined behaviour), the little-endian
  image of an integer in memory, and the lemma collections the component theories use.
\<close>

unbundle bit_operations_syntax

type_synonym u8 = "8 word"
type_synonym u16 = "16 word"
type_synonym u32 = "32 word"
type_synonym u64 = "64 word"

text \<open>The outcome of \<^verbatim>\<open>get\<close> and \<^verbatim>\<open>sync_commit\<close> of the redis client: no entry, its text, or an exception.\<close>

datatype redis_reply = Redis_null | Redis_string "u8 list" | Redis_throws

named_theorems mem_simps
named_theorems wf_simps

section \<open>Checked memory access\<close>

text \<open>
  \<open>mem_read m off n\<close> and \<open>mem_write m off src\<close> are \<^verbatim>\<open>memcpy\<close> out of and into the array
  \<open>m\<close>. \<open>None\<close> is an access outside the array.
\<close>

definition mem_read :: "'a list \<Rightarrow> nat \<Rightarrow> nat \<Rightarrow> 'a list option" where
  "mem_read m off n = (if off + n \<le> length m then Some (take n (drop off m)) else None)"

definition mem_write :: "'a list \<Rightarrow> nat \<Rightarrow> 'a list \<Rightarrow> 'a list option" where
  "mem_write m off src =
     (if off + length src \<le> length m
      then Some (take off m @ src @ drop (off + length src) m) else None)"

lemma mem_read_ok [mem_simps]: "off + n \<le> length m \<Longrightarrow> mem_read m off n = Some (take n (drop off m))"
  by (simp add: mem_read_def)

lemma mem_write_ok [mem_simps]:
  "off + length src \<le> length m \<Longrightarrow>
   mem_write m off src = Some (take off m @ src @ drop (off + length src) m)"
  by (simp add: mem_write_def)

lemma mem_read_SomeD: "mem_read m off n = Some x \<Longrightarrow> off + n \<le> length m \<and> x = take n (drop off m)"
  by (auto simp: mem_read_def split: if_splits)

lemma mem_write_SomeD:
  "mem_write m off src = Some m' \<Longrightarrow>
   off + length src \<le> length m \<and> m' = take off m @ src @ drop (off + length src) m"
  by (auto simp: mem_write_def split: if_splits)

lemma mem_write_length: "mem_write m off src = Some m' \<Longrightarrow> length m' = length m"
  by (auto dest: mem_write_SomeD)

lemma mem_write_Nil [simp]: "off \<le> length m \<Longrightarrow> mem_write m off [] = Some m"
  by (simp add: mem_write_def)

lemma take_drop_split: "a \<le> b \<Longrightarrow> take b xs = take a xs @ take (b - a) (drop a xs)"
  by (metis append_take_drop_id le_add_diff_inverse take_add)

section \<open>Little-endian integers\<close>

primrec le_bytes :: "nat \<Rightarrow> nat \<Rightarrow> u8 list" where
  "le_bytes 0 v = []"
| "le_bytes (Suc n) v = of_nat v # le_bytes n (v div 256)"

lemma le_bytes_numeral [simp]:
  "le_bytes (numeral k) v = of_nat v # le_bytes (pred_numeral k) (v div 256)"
  by (metis le_bytes.simps(2) numeral_eq_Suc)

primrec le_val :: "u8 list \<Rightarrow> nat" where
  "le_val [] = 0"
| "le_val (b # bs) = unat b + 256 * le_val bs"

lemma length_le_bytes [simp]: "length (le_bytes n v) = n"
  by (induction n arbitrary: v) auto

lemma le_val_le_bytes: "le_val (le_bytes n v) = v mod 256 ^ n"
proof (induction n arbitrary: v)
  case 0
  show ?case by simp
next
  case (Suc n)
  have "le_val (le_bytes (Suc n) v) = v mod 256 + 256 * (v div 256 mod 256 ^ n)"
    by (simp add: Suc.IH unat_of_nat)
  also have "\<dots> = v mod 256 ^ Suc n"
    by (simp add: mod_mult2_eq)
  finally show ?case .
qed

lemma le_val_less: "le_val bs < 256 ^ length bs"
proof (induction bs)
  case Nil
  show ?case by simp
next
  case (Cons b bs)
  have "unat b < 256" using unsigned_less [where ?w = b] by simp
  with Cons.IH show ?case by simp
qed

lemma le_bytes_le_val: "le_bytes (length bs) (le_val bs) = bs"
proof (induction bs)
  case Nil
  show ?case by simp
next
  case (Cons b bs)
  have lt: "unat b < 256" using unsigned_less [where ?w = b] by simp
  then have dv: "(unat b + 256 * le_val bs) div 256 = le_val bs" by simp
  have "(of_nat (unat b + 256 * le_val bs) :: u8) = b"
  proof -
    have z: "(256 :: u8) = 0" by simp
    show ?thesis by (simp only: of_nat_add of_nat_mult of_nat_numeral z) simp
  qed
  then show ?case by (simp add: Cons.IH dv)
qed

definition word_bytes :: "nat \<Rightarrow> 'a::len word \<Rightarrow> u8 list" where
  "word_bytes n w = le_bytes n (unat w)"

definition bytes_word :: "u8 list \<Rightarrow> 'a::len word" where
  "bytes_word bs = of_nat (le_val bs)"

lemma length_word_bytes [simp]: "length (word_bytes n w) = n"
  by (simp add: word_bytes_def)

lemma bytes_word_word_bytes:
  fixes w :: "'a::len word"
  assumes "LENGTH('a) \<le> 8 * n"
  shows "bytes_word (word_bytes n w) = w"
proof -
  have "unat w < 2 ^ LENGTH('a)" by (rule unsigned_less)
  also have "(2::nat) ^ LENGTH('a) \<le> 2 ^ (8 * n)" using assms by (rule power_increasing) simp
  also have "(2::nat) ^ (8 * n) = 256 ^ n" by (simp add: power_mult)
  finally have "unat w mod 256 ^ n = unat w" by simp
  then show ?thesis by (simp add: bytes_word_def word_bytes_def le_val_le_bytes)
qed

lemma word_bytes_8 [simp]: "bytes_word (word_bytes (Suc 0) (w::u8)) = w"
  by (rule bytes_word_word_bytes) simp

lemma word_bytes_16 [simp]: "bytes_word (word_bytes 2 (w::u16)) = w"
  by (rule bytes_word_word_bytes) simp

lemma word_bytes_64 [simp]: "bytes_word (word_bytes 8 (w::u64)) = w"
  by (rule bytes_word_word_bytes) simp

lemma word_bytes_one: "word_bytes (Suc 0) (w::u8) = [w]"
  by (simp add: word_bytes_def)

section \<open>Results that may fail\<close>

text \<open>A thrown exception is \<open>Inl\<close>; \<open>err_bind\<close> runs the next statement when there is none.\<close>

definition err_bind :: "'e + 'a \<Rightarrow> ('a \<Rightarrow> 'e + 'b) \<Rightarrow> 'e + 'b" where
  "err_bind r f = (case r of Inl e \<Rightarrow> Inl e | Inr x \<Rightarrow> f x)"

lemma err_bind_simps [simp]: "err_bind (Inl e) f = Inl e" "err_bind (Inr x) f = f x"
  by (simp_all add: err_bind_def)

lemma err_bind_InrE:
  assumes "err_bind r f = Inr y"
  obtains x where "r = Inr x" "f x = Inr y"
  using assms by (cases r) auto

lemma word_bytes_2: "word_bytes 2 (w::u16) = [of_nat (unat w), of_nat (unat w div 256)]"
  by (simp add: word_bytes_def numeral_2_eq_2)

text \<open>Taking a key out of an association list.\<close>

lemma AList_delete_remove:
  "distinct (map fst al) \<Longrightarrow> map_of al k = Some v \<Longrightarrow>
   \<exists>xs ys. al = xs @ (k, v) # ys \<and> AList.delete k al = xs @ ys"
proof (induction al)
  case Nil
  then show ?case by simp
next
  case (Cons a al)
  show ?case
  proof (cases "fst a = k")
    case True
    with Cons.prems have a: "a = (k, v)" by (cases a) auto
    have "k \<notin> fst ` set al" using Cons.prems(1) True by auto
    then have "k \<noteq> fst x" if "x \<in> set al" for x using that by auto
    then have "AList.delete k al = al" unfolding AList.delete_eq by (simp add: filter_id_conv split_beta)
    then show ?thesis using a by (intro exI [of _ "[]"] exI [of _ al]) simp
  next
    case False
    with Cons.prems have "distinct (map fst al)" "map_of al k = Some v" by (auto split: if_splits)
    from Cons.IH [OF this] obtain xs ys where "al = xs @ (k, v) # ys" "AList.delete k al = xs @ ys" by blast
    then show ?thesis using False by (intro exI [of _ "a # xs"] exI [of _ ys]) (cases a, simp)
  qed
qed

end
