(* ===== verification/RingBuffer.thy ===== *)
theory RingBuffer
  imports Prelude
begin

text \<open>
  \<^verbatim>\<open>CRingBuffer\<close> (\<^verbatim>\<open>CNetworkLib/utility/MT_CRingBuffer\<close>): the receive buffer of a session.
  Pointers are offsets from \<^verbatim>\<open>_begin\<close>, so \<^verbatim>\<open>_begin\<close> is 0 and \<^verbatim>\<open>_end\<close> is the length of the
  memory block. A pointer may rest on \<^verbatim>\<open>_end\<close>: \<^verbatim>\<open>MoveFront\<close> and \<^verbatim>\<open>MoveRear\<close> wrap only past
  it. Sizes are \<^verbatim>\<open>LONG64\<close> in the code and \<open>int\<close> here. Copies are checked, \<open>None\<close> is an access
  outside the block.
\<close>

record CRingBuffer =
  rb_mem :: "u8 list"
  rb_front :: nat
  rb_rear :: nat

definition rb_end :: "CRingBuffer \<Rightarrow> nat" where
  "rb_end rb = length (rb_mem rb)"

section \<open>Sizes\<close>

definition GetUseSize_at :: "CRingBuffer \<Rightarrow> nat \<Rightarrow> nat \<Rightarrow> int" where
  "GetUseSize_at rb f r =
     (if f \<le> r then int r - int f else int (rb_end rb) - int f + int r)"

definition GetUseSize :: "CRingBuffer \<Rightarrow> int" where
  "GetUseSize rb = GetUseSize_at rb (rb_front rb) (rb_rear rb)"

definition GetFreeSize_at :: "CRingBuffer \<Rightarrow> nat \<Rightarrow> nat \<Rightarrow> int" where
  "GetFreeSize_at rb f r =
     (if f = 0 \<and> f \<le> r then int (rb_end rb) - int r - 1
      else if f \<le> r then (int (rb_end rb) - int r) + int f - 1
      else int f - int r - 1)"

definition GetFreeSize :: "CRingBuffer \<Rightarrow> int" where
  "GetFreeSize rb = GetFreeSize_at rb (rb_front rb) (rb_rear rb)"

definition DirectEnqueueSize_at :: "CRingBuffer \<Rightarrow> nat \<Rightarrow> nat \<Rightarrow> int" where
  "DirectEnqueueSize_at rb f r =
     (if f \<le> r \<and> f = 0 then int (rb_end rb) - int r - 1
      else if f \<le> r then int (rb_end rb) - int r
      else int f - int r - 1)"

definition DirectEnqueueSize :: "CRingBuffer \<Rightarrow> int" where
  "DirectEnqueueSize rb = DirectEnqueueSize_at rb (rb_front rb) (rb_rear rb)"

definition DirectDequeueSize_at :: "CRingBuffer \<Rightarrow> nat \<Rightarrow> nat \<Rightarrow> int" where
  "DirectDequeueSize_at rb f r =
     (if r < f \<and> r = 0 then int (rb_end rb) - int f - 1
      else if f \<le> r then int r - int f
      else int (rb_end rb) - int f)"

definition DirectDequeueSize :: "CRingBuffer \<Rightarrow> int" where
  "DirectDequeueSize rb = DirectDequeueSize_at rb (rb_front rb) (rb_rear rb)"

section \<open>Operations\<close>

definition ClearBuffer :: "CRingBuffer \<Rightarrow> CRingBuffer" where
  "ClearBuffer rb = rb\<lparr>rb_rear := 0, rb_front := 0\<rparr>"

text \<open>The constructor: \<open>junk\<close> is what \<^verbatim>\<open>malloc\<close> returned, \<open>iBufferSize\<close> bytes of any content.\<close>

definition new_CRingBuffer :: "u8 list \<Rightarrow> CRingBuffer" where
  "new_CRingBuffer junk = ClearBuffer \<lparr>rb_mem = junk, rb_front = 0, rb_rear = 0\<rparr>"

definition MoveRear :: "CRingBuffer \<Rightarrow> nat \<Rightarrow> CRingBuffer" where
  "MoveRear rb iSize =
     (let pChk = rb_rear rb + iSize
      in rb\<lparr>rb_rear := (if rb_end rb < pChk then pChk - rb_end rb else pChk)\<rparr>)"

definition MoveFront :: "CRingBuffer \<Rightarrow> nat \<Rightarrow> CRingBuffer" where
  "MoveFront rb iSize =
     (let pChk = rb_front rb + iSize
      in rb\<lparr>rb_front := (if rb_end rb < pChk then pChk - rb_end rb else pChk)\<rparr>)"

text \<open>
  \<open>Enqueue\<close> returns the number of bytes stored, 0 (\<^verbatim>\<open>false\<close>) when they do not fit. A
  \<^verbatim>\<open>memcpy\<close> with a negative length is a fault.
\<close>

definition ring_store :: "CRingBuffer \<Rightarrow> int \<Rightarrow> u8 list \<Rightarrow> u8 list option" where
  "ring_store rb directEnQSize src =
     (if int (length src) \<le> directEnQSize then mem_write (rb_mem rb) (rb_rear rb) src
      else if directEnQSize < 0 then None
      else Option.bind (mem_write (rb_mem rb) (rb_rear rb) (take (nat directEnQSize) src))
             (\<lambda>m. mem_write m 0 (drop (nat directEnQSize) src)))"

definition Enqueue :: "CRingBuffer \<Rightarrow> u8 list \<Rightarrow> (int \<times> CRingBuffer) option" where
  "Enqueue rb src =
     (let local_size = int (length src);
          directEnQSize = DirectEnqueueSize_at rb (rb_front rb) (rb_rear rb);
          freeSize = GetFreeSize_at rb (rb_front rb) (rb_rear rb)
      in if freeSize < local_size then Some (0, rb)
         else (case ring_store rb directEnQSize src of
                 None \<Rightarrow> None
               | Some m \<Rightarrow> Some (local_size, MoveRear (rb\<lparr>rb_mem := m\<rparr>) (length src))))"

definition ring_load :: "CRingBuffer \<Rightarrow> nat \<Rightarrow> nat \<Rightarrow> nat \<Rightarrow> u8 list option" where
  "ring_load rb f r n =
     (let DirectDeqSize = DirectDequeueSize_at rb f r
      in if int n \<le> DirectDeqSize then mem_read (rb_mem rb) f n
         else if DirectDeqSize < 0 then None
         else Option.bind (mem_read (rb_mem rb) f (nat DirectDeqSize))
                (\<lambda>a. Option.bind (mem_read (rb_mem rb) 0 (n - nat DirectDeqSize))
                        (\<lambda>b. Some (a @ b))))"

text \<open>
  \<open>Dequeue\<close> and \<open>Peek\<close> return the code's result and the bytes written to the destination,
  \<open>[]\<close> where nothing is written.
\<close>

definition Dequeue :: "CRingBuffer \<Rightarrow> nat \<Rightarrow> (int \<times> u8 list \<times> CRingBuffer) option" where
  "Dequeue rb iSize =
     (let f = rb_front rb; r = rb_rear rb; useSize = GetUseSize_at rb f r
      in if useSize < int iSize then Some (0, [], rb)
         else (case ring_load rb f r iSize of
                 None \<Rightarrow> None
               | Some bs \<Rightarrow> Some (int iSize, bs, MoveFront rb iSize)))"

definition Peek_at :: "CRingBuffer \<Rightarrow> nat \<Rightarrow> nat \<Rightarrow> nat \<Rightarrow> (int \<times> u8 list) option" where
  "Peek_at rb iSize f r =
     (let useSize = GetUseSize_at rb f r
      in if useSize < int iSize then Some (useSize, [])
         else (case ring_load rb f r iSize of None \<Rightarrow> None | Some bs \<Rightarrow> Some (int iSize, bs)))"

definition Peek :: "CRingBuffer \<Rightarrow> nat \<Rightarrow> (int \<times> u8 list) option" where
  "Peek rb iSize = Peek_at rb iSize (rb_front rb) (rb_rear rb)"

text \<open>
  The buffers \<^verbatim>\<open>CLanServer::RecvPacket\<close> hands to \<^verbatim>\<open>WSARecv\<close>, as (offset, length) pairs, and
  what the kernel does with them when \<open>data\<close> arrives: it fills them in order. The bytes count
  only when \<open>MoveRear\<close> is called with the number transferred.
\<close>

definition recv_wsabufs :: "CRingBuffer \<Rightarrow> (nat \<times> nat) list" where
  "recv_wsabufs rb =
     (let f = rb_front rb; r = rb_rear rb;
          directEnQsize = DirectEnqueueSize_at rb f r;
          freeSize = GetFreeSize_at rb f r
      in if freeSize \<le> directEnQsize then [(r, nat directEnQsize)]
         else [(r, nat directEnQsize), (0, nat (freeSize - directEnQsize))])"

fun scatter :: "u8 list \<Rightarrow> (nat \<times> nat) list \<Rightarrow> u8 list \<Rightarrow> u8 list option" where
  "scatter m [] src = (if src = [] then Some m else None)"
| "scatter m ((off, len) # bufs) src =
     (case mem_write m off (take len src) of
        None \<Rightarrow> None
      | Some m' \<Rightarrow> (if length src \<le> len then Some m' else scatter m' bufs (drop len src)))"

section \<open>Invariant and abstraction\<close>

definition ring_wf :: "CRingBuffer \<Rightarrow> bool" where
  "ring_wf rb \<longleftrightarrow> rb_front rb \<le> rb_end rb \<and> rb_rear rb \<le> rb_end rb \<and>
     (rb_rear rb = 0 \<longrightarrow> rb_front rb = 0) \<and> (rb_front rb = 0 \<longrightarrow> rb_rear rb < rb_end rb)"

text \<open>The bytes in the buffer, oldest first, and how many it can hold: one less than its block.\<close>

definition ring_list :: "CRingBuffer \<Rightarrow> u8 list" where
  "ring_list rb =
     (if rb_front rb \<le> rb_rear rb
      then drop (rb_front rb) (take (rb_rear rb) (rb_mem rb))
      else drop (rb_front rb) (rb_mem rb) @ take (rb_rear rb) (rb_mem rb))"

definition ring_cap :: "CRingBuffer \<Rightarrow> nat" where
  "ring_cap rb = rb_end rb - 1"

lemmas ring_size_defs =
  GetUseSize_def GetUseSize_at_def GetFreeSize_def GetFreeSize_at_def
  DirectEnqueueSize_def DirectEnqueueSize_at_def
  DirectDequeueSize_def DirectDequeueSize_at_def

lemma ring_list_length: "ring_wf rb \<Longrightarrow> GetUseSize rb = int (length (ring_list rb))"
  by (auto simp: ring_wf_def ring_list_def ring_size_defs rb_end_def)

lemma ring_free_length:
  "ring_wf rb \<Longrightarrow> GetFreeSize rb = int (ring_cap rb) - int (length (ring_list rb))"
  by (auto simp: ring_wf_def ring_list_def ring_size_defs rb_end_def ring_cap_def)

lemma ring_list_le_cap: "ring_wf rb \<Longrightarrow> length (ring_list rb) \<le> ring_cap rb"
  by (auto simp: ring_wf_def ring_list_def rb_end_def ring_cap_def)

lemma new_ring_wf: "junk \<noteq> [] \<Longrightarrow> ring_wf (new_CRingBuffer junk)"
  and new_ring_list [simp]: "ring_list (new_CRingBuffer junk) = []"
  and new_ring_cap [simp]: "ring_cap (new_CRingBuffer junk) = length junk - 1"
  by (auto simp: new_CRingBuffer_def ClearBuffer_def ring_wf_def ring_list_def rb_end_def ring_cap_def)

lemma ClearBuffer_wf: "ring_wf rb \<Longrightarrow> ring_wf (ClearBuffer rb)"
  and ClearBuffer_list [simp]: "ring_list (ClearBuffer rb) = []"
  and ClearBuffer_cap [simp]: "ring_cap (ClearBuffer rb) = ring_cap rb"
  by (auto simp: ClearBuffer_def ring_wf_def ring_list_def rb_end_def ring_cap_def)

section \<open>Where the bytes go\<close>

lemma MoveRear_cases:
  "rb_mem (MoveRear rb n) = rb_mem rb" "rb_front (MoveRear rb n) = rb_front rb"
  "rb_rear (MoveRear rb n) = (if rb_end rb < rb_rear rb + n then rb_rear rb + n - rb_end rb else rb_rear rb + n)"
  by (simp_all add: MoveRear_def Let_def)

lemma MoveFront_cases:
  "rb_mem (MoveFront rb n) = rb_mem rb" "rb_rear (MoveFront rb n) = rb_rear rb"
  "rb_front (MoveFront rb n) = (if rb_end rb < rb_front rb + n then rb_front rb + n - rb_end rb else rb_front rb + n)"
  by (simp_all add: MoveFront_def Let_def)

lemma rb_end_mem [simp]: "rb_end (rb\<lparr>rb_mem := m\<rparr>) = length m"
  by (simp add: rb_end_def)

lemma MoveRear_wf:
  assumes "ring_wf rb" "length (ring_list rb) + n \<le> ring_cap rb"
  shows "ring_wf (MoveRear rb n)"
  using assms
  by (auto simp: ring_wf_def ring_list_def ring_cap_def rb_end_def MoveRear_cases split: if_splits)


lemma append_one_region:
  assumes wf: "ring_wf rb" and fit: "length (ring_list rb) + length src \<le> ring_cap rb"
    and one: "rb_rear rb + length src \<le> rb_end rb"
    and m: "m = take (rb_rear rb) (rb_mem rb) @ src @ drop (rb_rear rb + length src) (rb_mem rb)"
  shows "ring_list (MoveRear (rb\<lparr>rb_mem := m\<rparr>) (length src)) = ring_list rb @ src"
proof -
  have len: "length m = rb_end rb" using one by (simp add: m rb_end_def)
  have r: "rb_rear rb \<le> length (rb_mem rb)" using wf by (simp add: ring_wf_def rb_end_def)
  have fr: "rb_front rb \<le> rb_rear rb \<or> rb_rear rb + length src < rb_front rb" using wf fit
    by (auto simp: ring_list_def ring_wf_def rb_end_def ring_cap_def split: if_splits)
  have f: "rb_front rb \<le> length (rb_mem rb)" using wf by (simp add: ring_wf_def rb_end_def)
  show ?thesis using fr
  proof
    assume fle: "rb_front rb \<le> rb_rear rb"
    have "take (rb_rear rb + length src) m = take (rb_rear rb) (rb_mem rb) @ src"
      using r by (simp add: m)
    with fle r one len show ?thesis
      by (simp add: ring_list_def MoveRear_cases)
  next
    assume lt: "rb_rear rb + length src < rb_front rb"
    have "take (rb_rear rb + length src) m = take (rb_rear rb) (rb_mem rb) @ src"
      using r by (simp add: m)
    moreover have "drop (rb_front rb) m = drop (rb_front rb) (rb_mem rb)"
      using r f lt by (simp add: m)
    ultimately show ?thesis using lt one len
      by (simp add: ring_list_def MoveRear_cases)
  qed
qed

lemma append_two_regions:
  assumes wf: "ring_wf rb" and fit: "length (ring_list rb) + length src \<le> ring_cap rb"
    and two: "rb_end rb < rb_rear rb + length src" and k: "k = rb_end rb - rb_rear rb"
    and m: "m = drop k src @ drop (length src - k) (take (rb_rear rb) (rb_mem rb) @ take k src)"
  shows "rb_front rb \<le> rb_rear rb \<and> 0 < rb_front rb"
    and "ring_list (MoveRear (rb\<lparr>rb_mem := m\<rparr>) (length src)) = ring_list rb @ src"
proof -
  show *: "rb_front rb \<le> rb_rear rb \<and> 0 < rb_front rb" using wf fit two
    by (auto simp: ring_list_def ring_wf_def rb_end_def ring_cap_def split: if_splits)
  have lt: "length src - k < rb_front rb" using wf fit two * k
    by (simp add: ring_list_def ring_wf_def rb_end_def ring_cap_def split: if_splits) linarith
  have r: "rb_rear rb \<le> length (rb_mem rb)" using wf by (simp add: ring_wf_def rb_end_def)
  have rn: "rb_rear rb + length src - rb_end rb = length src - k" "k \<le> length src"
    "rb_rear rb + k = rb_end rb" using k two r by (simp_all add: rb_end_def)
  have len: "length m = rb_end rb" using r rn lt * by (simp add: m min_def)
  have a: "take (length src - k) m = drop k src" using rn by (simp add: m)
  have "drop (rb_front rb) m = drop (rb_front rb) (take (rb_rear rb) (rb_mem rb)) @ take k src"
    using lt r rn * by (simp add: m)
  with a show "ring_list (MoveRear (rb\<lparr>rb_mem := m\<rparr>) (length src)) = ring_list rb @ src"
    using two rn len lt * by (simp add: ring_list_def MoveRear_cases)
qed

lemma MoveRear_cap [simp]: "ring_cap (MoveRear rb n) = ring_cap rb"
  and MoveFront_cap [simp]: "ring_cap (MoveFront rb n) = ring_cap rb"
  by (simp_all add: ring_cap_def rb_end_def MoveRear_cases MoveFront_cases)

lemma ring_cap_mem: "length m = length (rb_mem rb) \<Longrightarrow> ring_cap (rb\<lparr>rb_mem := m\<rparr>) = ring_cap rb"
  by (simp add: ring_cap_def rb_end_def)

lemma MoveRear_mem_wf:
  assumes "ring_wf rb" "length (ring_list rb) + n \<le> ring_cap rb" "length m = length (rb_mem rb)"
  shows "ring_wf (MoveRear (rb\<lparr>rb_mem := m\<rparr>) n)"
proof -
  have "ring_wf (MoveRear rb n)" using assms(1,2) by (rule MoveRear_wf)
  then show ?thesis using assms(3) by (auto simp: ring_wf_def MoveRear_cases rb_end_def split: if_splits)
qed

text \<open>Both ways of filling the free space end in one of the two images of \<open>append\<close>.\<close>

definition ring_filled :: "CRingBuffer \<Rightarrow> u8 list \<Rightarrow> u8 list \<Rightarrow> bool" where
  "ring_filled rb src m \<longleftrightarrow>
     (if rb_rear rb + length src \<le> rb_end rb
      then m = take (rb_rear rb) (rb_mem rb) @ src @ drop (rb_rear rb + length src) (rb_mem rb)
      else m = drop (rb_end rb - rb_rear rb) src @
             drop (length src - (rb_end rb - rb_rear rb))
               (take (rb_rear rb) (rb_mem rb) @ take (rb_end rb - rb_rear rb) src))"

lemma ring_filled_append:
  assumes "ring_wf rb" "length (ring_list rb) + length src \<le> ring_cap rb" "ring_filled rb src m"
  shows "ring_list (MoveRear (rb\<lparr>rb_mem := m\<rparr>) (length src)) = ring_list rb @ src"
proof (cases "rb_rear rb + length src \<le> rb_end rb")
  case True
  then show ?thesis using assms by (intro append_one_region) (auto simp: ring_filled_def)
next
  case False
  then show ?thesis using assms
    by (intro append_two_regions [where k = "rb_end rb - rb_rear rb"]) (auto simp: ring_filled_def)
qed

lemma ring_filled_length:
  assumes "ring_wf rb" "length (ring_list rb) + length src \<le> ring_cap rb" "ring_filled rb src m"
  shows "length m = length (rb_mem rb)"
proof (cases "rb_rear rb + length src \<le> rb_end rb")
  case True
  then show ?thesis using assms by (simp add: ring_filled_def rb_end_def)
next
  case False
  with assms show ?thesis
    by (auto simp: ring_filled_def rb_end_def ring_wf_def ring_list_def ring_cap_def min_def split: if_splits)
qed

lemma DirectEnqueueSize_fit:
  assumes "ring_wf rb" "length (ring_list rb) + n \<le> ring_cap rb"
  shows "int n \<le> DirectEnqueueSize rb \<or>
         (DirectEnqueueSize rb = int (rb_end rb) - int (rb_rear rb) \<and> rb_rear rb \<le> rb_end rb \<and>
          n - (rb_end rb - rb_rear rb) \<le> rb_rear rb)"
  and "int n \<le> DirectEnqueueSize rb \<Longrightarrow> rb_rear rb + n \<le> rb_end rb"
  using assms by (auto simp: ring_wf_def ring_list_def ring_cap_def ring_size_defs rb_end_def split: if_splits)

lemma ring_store_filled:
  assumes wf: "ring_wf rb" and fit: "length (ring_list rb) + length src \<le> ring_cap rb"
  shows "\<exists>m. ring_store rb (DirectEnqueueSize rb) src = Some m \<and> ring_filled rb src m"
proof (cases "int (length src) \<le> DirectEnqueueSize rb")
  case True
  then have "rb_rear rb + length src \<le> rb_end rb" using DirectEnqueueSize_fit [OF wf fit] by simp
  with True show ?thesis by (auto simp: ring_store_def ring_filled_def rb_end_def mem_simps)
next
  case False
  then have *: "DirectEnqueueSize rb = int (rb_end rb) - int (rb_rear rb)" "rb_rear rb \<le> rb_end rb"
    "length src - (rb_end rb - rb_rear rb) \<le> rb_rear rb"
    using DirectEnqueueSize_fit [OF wf fit] by auto
  with False have "\<not> rb_rear rb + length src \<le> rb_end rb" by simp
  with * False show ?thesis
    by (auto simp: ring_store_def ring_filled_def rb_end_def mem_simps nat_diff_distrib' min_def)
qed

lemma Enqueue_fifo:
  assumes wf: "ring_wf rb" and fit: "length (ring_list rb) + length src \<le> ring_cap rb"
  shows "\<exists>rb'. Enqueue rb src = Some (int (length src), rb') \<and> ring_wf rb' \<and>
               ring_list rb' = ring_list rb @ src \<and> ring_cap rb' = ring_cap rb"
proof -
  obtain m where m: "ring_store rb (DirectEnqueueSize rb) src = Some m" "ring_filled rb src m"
    using ring_store_filled [OF wf fit] by blast
  have "\<not> GetFreeSize rb < int (length src)" using ring_free_length [OF wf] fit by simp
  with m(1) have "Enqueue rb src = Some (int (length src), MoveRear (rb\<lparr>rb_mem := m\<rparr>) (length src))"
    by (simp add: Enqueue_def Let_def GetFreeSize_def DirectEnqueueSize_def)
  with ring_filled_append [OF wf fit m(2)] ring_filled_length [OF wf fit m(2)] wf fit
  show ?thesis by (auto simp: MoveRear_mem_wf ring_cap_mem)
qed

lemma Enqueue_full:
  assumes "ring_wf rb" "ring_cap rb < length (ring_list rb) + length src"
  shows "Enqueue rb src = Some (0, rb)"
proof -
  have "GetFreeSize rb < int (length src)" using ring_free_length assms by simp
  then show ?thesis by (simp add: Enqueue_def Let_def GetFreeSize_def)
qed

lemma ring_load_take:
  assumes wf: "ring_wf rb" and n: "n \<le> length (ring_list rb)"
  shows "ring_load rb (rb_front rb) (rb_rear rb) n = Some (take n (ring_list rb))"
proof (cases "rb_front rb \<le> rb_rear rb")
  case True
  with wf n have le: "rb_front rb + n \<le> rb_rear rb" "rb_rear rb \<le> length (rb_mem rb)"
    by (auto simp: ring_list_def ring_wf_def rb_end_def)
  then have "int n \<le> int (rb_rear rb) - int (rb_front rb)" by simp
  with True le show ?thesis
    by (simp add: ring_load_def DirectDequeueSize_at_def ring_list_def mem_simps drop_take min_def Let_def)
next
  case False
  with wf n show ?thesis
    by (auto simp: ring_load_def DirectDequeueSize_at_def ring_list_def ring_wf_def rb_end_def
        mem_simps Let_def nat_diff_distrib' min_def)
qed

lemma Dequeue_fifo:
  assumes wf: "ring_wf rb" and n: "n \<le> length (ring_list rb)"
  shows "\<exists>rb'. Dequeue rb n = Some (int n, take n (ring_list rb), rb') \<and> ring_wf rb' \<and>
               ring_list rb' = drop n (ring_list rb) \<and> ring_cap rb' = ring_cap rb"
proof -
  have "\<not> GetUseSize rb < int n" using ring_list_length [OF wf] n by simp
  then have "Dequeue rb n = Some (int n, take n (ring_list rb), MoveFront rb n)"
    using ring_load_take [OF wf n] by (simp add: Dequeue_def Let_def GetUseSize_def)
  moreover have "ring_wf (MoveFront rb n)"
    using wf n by (auto simp: ring_wf_def ring_list_def MoveFront_cases rb_end_def split: if_splits)
  moreover have "ring_list (MoveFront rb n) = drop n (ring_list rb)"
    using wf n by (auto simp: ring_wf_def ring_list_def MoveFront_cases rb_end_def add.commute split: if_splits)
  ultimately show ?thesis by simp
qed

lemma Dequeue_short:
  assumes "ring_wf rb" "length (ring_list rb) < n"
  shows "Dequeue rb n = Some (0, [], rb)"
  using ring_list_length assms by (simp add: Dequeue_def Let_def GetUseSize_def)

lemma Peek_take:
  assumes "ring_wf rb"
  shows "Peek rb n = Some (if n \<le> length (ring_list rb) then (int n, take n (ring_list rb))
                           else (int (length (ring_list rb)), []))"
  using ring_list_length [OF assms] ring_load_take [OF assms]
  by (auto simp: Peek_def Peek_at_def Let_def GetUseSize_def)

lemma scatter_filled:
  assumes wf: "ring_wf rb" and fit: "length (ring_list rb) + length src \<le> ring_cap rb"
  shows "\<exists>m. scatter (rb_mem rb) (recv_wsabufs rb) src = Some m \<and> ring_filled rb src m"
proof (cases "int (length src) \<le> DirectEnqueueSize rb")
  case True
  then have "rb_rear rb + length src \<le> rb_end rb" using DirectEnqueueSize_fit [OF wf fit] by simp
  with True show ?thesis
    by (auto simp: recv_wsabufs_def Let_def ring_filled_def rb_end_def mem_simps DirectEnqueueSize_def)
next
  case False
  then have *: "DirectEnqueueSize rb = int (rb_end rb) - int (rb_rear rb)" "rb_rear rb \<le> rb_end rb"
    "length src - (rb_end rb - rb_rear rb) \<le> rb_rear rb"
    using DirectEnqueueSize_fit [OF wf fit] by auto
  have free: "int (length src) \<le> GetFreeSize rb" using ring_free_length [OF wf] fit by simp
  from * False have "\<not> rb_rear rb + length src \<le> rb_end rb" by simp
  with * False free show ?thesis
    by (auto simp: recv_wsabufs_def Let_def ring_filled_def rb_end_def mem_simps GetFreeSize_def
        DirectEnqueueSize_def nat_diff_distrib' min_def)
qed

lemma recv_transfer:
  assumes wf: "ring_wf rb" and fit: "length (ring_list rb) + length data \<le> ring_cap rb"
  shows "\<exists>m. scatter (rb_mem rb) (recv_wsabufs rb) data = Some m \<and>
             ring_wf (MoveRear (rb\<lparr>rb_mem := m\<rparr>) (length data)) \<and>
             ring_list (MoveRear (rb\<lparr>rb_mem := m\<rparr>) (length data)) = ring_list rb @ data"
  using scatter_filled [OF wf fit] ring_filled_append [OF wf fit] ring_filled_length [OF wf fit]
    MoveRear_mem_wf [OF wf fit] by blast

section \<open>The interface of a byte queue\<close>

text \<open>
  What the receive path of \<^verbatim>\<open>CLanServer\<close> relies on: a bounded first-in first-out queue of bytes
  that can be inspected and consumed from the front and that reports a failed request with its
  return value. \<open>frame_extract\<close> is the step of \<^verbatim>\<open>RecvComplete\<close>: look at the header, and if the
  whole message has arrived take it out.
\<close>

locale byte_fifo =
  fixes content :: "'r \<Rightarrow> u8 list"
    and wf :: "'r \<Rightarrow> bool"
    and cap :: "'r \<Rightarrow> nat"
    and peek :: "'r \<Rightarrow> nat \<Rightarrow> (int \<times> u8 list) option"
    and deq :: "'r \<Rightarrow> nat \<Rightarrow> (int \<times> u8 list \<times> 'r) option"
    and used :: "'r \<Rightarrow> int"
  assumes used_content: "wf q \<Longrightarrow> used q = int (length (content q))"
    and peek_ok: "wf q \<Longrightarrow> n \<le> length (content q) \<Longrightarrow> peek q n = Some (int n, take n (content q))"
    and peek_short: "wf q \<Longrightarrow> length (content q) < n \<Longrightarrow> peek q n = Some (int (length (content q)), [])"
    and deq_ok: "wf q \<Longrightarrow> n \<le> length (content q) \<Longrightarrow>
      \<exists>q'. deq q n = Some (int n, take n (content q), q') \<and> wf q' \<and>
           content q' = drop n (content q) \<and> cap q' = cap q"
    and content_le_cap: "wf q \<Longrightarrow> length (content q) \<le> cap q"
begin

lemma peek_full_iff:
  "wf q \<Longrightarrow> (\<exists>bs. peek q n = Some (int n, bs)) \<longleftrightarrow> n \<le> length (content q)"
  by (metis linorder_not_le nat_less_le of_nat_eq_iff option.inject peek_ok peek_short prod.inject)

lemma frame_extract:
  assumes "wf q" "h \<le> n" "n \<le> length (content q)"
  shows "\<exists>q'. peek q h = Some (int h, take h (content q)) \<and>
              deq q n = Some (int n, take n (content q), q') \<and>
              take h (take n (content q)) = take h (content q) \<and> wf q' \<and>
              content q' = drop n (content q) \<and> cap q' = cap q"
  using peek_ok [of q h] deq_ok [of q n] assms by (auto simp: min_def)

lemma consumed_shrinks:
  assumes "wf q" "0 < n" "n \<le> length (content q)" "deq q n = Some (k, bs, q')"
  shows "length (content q') < length (content q)"
  using deq_ok [of q n] assms by auto

end

interpretation ring: byte_fifo ring_list ring_wf ring_cap Peek Dequeue GetUseSize
  by unfold_locales (auto simp: ring_list_length Peek_take Dequeue_fifo ring_list_le_cap)

section \<open>Any sequence of operations\<close>

datatype ring_op = REnqueue "u8 list" | RDequeue nat | RPeek nat | RRecv "u8 list" | RClear

text \<open>
  \<open>RRecv data\<close> is a completed \<^verbatim>\<open>WSARecv\<close>: the kernel stores as much of \<open>data\<close> as the
  offered buffers take, and the completion calls \<^verbatim>\<open>MoveRear\<close> with that number.
\<close>

fun ring_step :: "CRingBuffer \<Rightarrow> ring_op \<Rightarrow> ((int \<times> u8 list) \<times> CRingBuffer) option" where
  "ring_step rb (REnqueue src) = map_option (\<lambda>(k, rb'). ((k, []), rb')) (Enqueue rb src)"
| "ring_step rb (RDequeue n) = map_option (\<lambda>(k, bs, rb'). ((k, bs), rb')) (Dequeue rb n)"
| "ring_step rb (RPeek n) = map_option (\<lambda>(k, bs). ((k, bs), rb)) (Peek rb n)"
| "ring_step rb (RRecv data) =
     (let got = take (nat (GetFreeSize rb)) data
      in map_option (\<lambda>m. ((int (length got), []), MoveRear (rb\<lparr>rb_mem := m\<rparr>) (length got)))
           (scatter (rb_mem rb) (recv_wsabufs rb) got))"
| "ring_step rb RClear = Some ((0, []), ClearBuffer rb)"

fun ring_run :: "CRingBuffer \<Rightarrow> ring_op list \<Rightarrow> ((int \<times> u8 list) list \<times> CRingBuffer) option" where
  "ring_run rb [] = Some ([], rb)"
| "ring_run rb (x # xs) =
     (case ring_step rb x of None \<Rightarrow> None
      | Some (out, rb') \<Rightarrow> map_option (\<lambda>(outs, rb''). (out # outs, rb'')) (ring_run rb' xs))"

text \<open>The specification: a list of at most \<open>cap\<close> bytes.\<close>

fun fifo_step :: "nat \<Rightarrow> u8 list \<Rightarrow> ring_op \<Rightarrow> (int \<times> u8 list) \<times> u8 list" where
  "fifo_step cap q (REnqueue src) =
     (if length q + length src \<le> cap then ((int (length src), []), q @ src) else ((0, []), q))"
| "fifo_step cap q (RDequeue n) =
     (if n \<le> length q then ((int n, take n q), drop n q) else ((0, []), q))"
| "fifo_step cap q (RPeek n) =
     (if n \<le> length q then ((int n, take n q), q) else ((int (length q), []), q))"
| "fifo_step cap q (RRecv data) =
     (let got = take (cap - length q) data in ((int (length got), []), q @ got))"
| "fifo_step cap q RClear = ((0, []), [])"

fun fifo_run :: "nat \<Rightarrow> u8 list \<Rightarrow> ring_op list \<Rightarrow> (int \<times> u8 list) list \<times> u8 list" where
  "fifo_run cap q [] = ([], q)"
| "fifo_run cap q (x # xs) =
     (case fifo_step cap q x of (out, q') \<Rightarrow>
        (case fifo_run cap q' xs of (outs, q'') \<Rightarrow> (out # outs, q'')))"

lemma ring_step_refines:
  assumes "ring_wf rb"
  shows "\<exists>out rb'. ring_step rb x = Some (out, rb') \<and> ring_wf rb' \<and> ring_cap rb' = ring_cap rb \<and>
                   fifo_step (ring_cap rb) (ring_list rb) x = (out, ring_list rb')"
proof (cases x)
  case (REnqueue src)
  then show ?thesis using Enqueue_fifo [OF assms, of src] Enqueue_full [OF assms, of src]
    by (cases "length (ring_list rb) + length src \<le> ring_cap rb") (auto simp: assms)
next
  case (RDequeue n)
  then show ?thesis using Dequeue_fifo [OF assms, of n] Dequeue_short [OF assms, of n]
    by (cases "n \<le> length (ring_list rb)") (auto simp: assms)
next
  case (RPeek n)
  then show ?thesis using Peek_take [OF assms, of n] assms by auto
next
  case (RRecv data)
  have free: "nat (GetFreeSize rb) = ring_cap rb - length (ring_list rb)"
    using ring_free_length [OF assms] ring_list_le_cap [OF assms] by simp
  let ?got = "take (ring_cap rb - length (ring_list rb)) data"
  have fit: "length (ring_list rb) + length ?got \<le> ring_cap rb"
    using ring_list_le_cap [OF assms] by simp
  obtain m where m: "scatter (rb_mem rb) (recv_wsabufs rb) ?got = Some m" "ring_filled rb ?got m"
    using scatter_filled [OF assms fit] by blast
  let ?rb' = "MoveRear (rb\<lparr>rb_mem := m\<rparr>) (length ?got)"
  have len: "length m = length (rb_mem rb)" by (rule ring_filled_length [OF assms fit m(2)])
  have "ring_step rb x = Some ((int (length ?got), []), ?rb')"
    using m(1) by (simp only: RRecv ring_step.simps Let_def free option.map)
  moreover have "ring_wf ?rb'" "ring_cap ?rb' = ring_cap rb" "ring_list ?rb' = ring_list rb @ ?got"
    using MoveRear_mem_wf [OF assms fit len] ring_filled_append [OF assms fit m(2)] ring_cap_mem [OF len]
    by simp_all
  moreover have "fifo_step (ring_cap rb) (ring_list rb) x = ((int (length ?got), []), ring_list rb @ ?got)"
    by (simp only: RRecv fifo_step.simps Let_def)
  ultimately show ?thesis by metis
next
  case RClear
  then show ?thesis using assms by (simp add: ClearBuffer_wf)
qed

lemma ring_run_refines:
  assumes "ring_wf rb"
  shows "\<exists>outs rb'. ring_run rb xs = Some (outs, rb') \<and> ring_wf rb' \<and>
                    fifo_run (ring_cap rb) (ring_list rb) xs = (outs, ring_list rb')"
  using assms
proof (induction xs arbitrary: rb)
  case Nil
  then show ?case by simp
next
  case (Cons x xs)
  obtain out rb' where s: "ring_step rb x = Some (out, rb')" "ring_wf rb'" "ring_cap rb' = ring_cap rb"
    "fifo_step (ring_cap rb) (ring_list rb) x = (out, ring_list rb')"
    using ring_step_refines [OF Cons.prems] by blast
  from Cons.IH [OF s(2)] s show ?case by auto
qed

text \<open>
  C8: started from any allocated block of at least one byte, the ring buffer answers every
  sequence of \<^verbatim>\<open>Enqueue\<close>, \<^verbatim>\<open>Dequeue\<close>, \<^verbatim>\<open>Peek\<close>, completed receives and \<^verbatim>\<open>ClearBuffer\<close> exactly as
  a first-in first-out byte queue of capacity one less than the block does, and never touches
  memory outside its block.
\<close>

theorem ring_buffer_refines_fifo:
  assumes "junk \<noteq> []"
  shows "\<exists>outs rb'. ring_run (new_CRingBuffer junk) ops = Some (outs, rb') \<and> ring_wf rb' \<and>
                    fifo_run (length junk - 1) [] ops = (outs, ring_list rb')"
  using ring_run_refines [OF new_ring_wf [OF assms], of ops] by simp

theorem ring_buffer_refines_fifo_witness:
  "\<exists>outs rb'. ring_run (new_CRingBuffer [0, 0, 0, 0]) [REnqueue [1, 2], RDequeue 1, REnqueue [3, 4], RPeek 3]
      = Some (outs, rb') \<and> outs = [(2, []), (1, [1]), (2, []), (3, [2, 3, 4])]"
proof -
  have "([0, 0, 0, 0] :: u8 list) \<noteq> []" by simp
  from ring_buffer_refines_fifo [OF this, of "[REnqueue [1, 2], RDequeue 1, REnqueue [3, 4], RPeek 3]"]
  show ?thesis by auto
qed

text \<open>
  The buffers offered to \<^verbatim>\<open>WSARecv\<close> are exactly the free space: whatever amount up to the
  free size the kernel stores there, moving the rear pointer by that amount appends those bytes
  behind the bytes already queued.
\<close>

theorem wsarecv_appends:
  assumes "ring_wf rb" "int (length data) \<le> GetFreeSize rb"
  shows "\<exists>m. scatter (rb_mem rb) (recv_wsabufs rb) data = Some m \<and>
             ring_wf (MoveRear (rb\<lparr>rb_mem := m\<rparr>) (length data)) \<and>
             ring_list (MoveRear (rb\<lparr>rb_mem := m\<rparr>) (length data)) = ring_list rb @ data"
proof -
  have "length (ring_list rb) + length data \<le> ring_cap rb"
    using assms(2) ring_free_length [OF assms(1)] by simp
  then show ?thesis by (rule recv_transfer [OF assms(1)])
qed

theorem wsarecv_appends_witness:
  "\<exists>m. scatter [1, 2, 3, 4] (recv_wsabufs \<lparr>rb_mem = [1, 2, 3, 4], rb_front = 2, rb_rear = 3\<rparr>) [7, 8] = Some m \<and>
       ring_list (MoveRear (\<lparr>rb_mem = [1, 2, 3, 4], rb_front = 2, rb_rear = 3\<rparr>\<lparr>rb_mem := m\<rparr>) (length [7, 8 :: u8]))
         = [3, 7, 8]"
proof -
  let ?rb = "\<lparr>rb_mem = [1, 2, 3, 4], rb_front = 2, rb_rear = 3\<rparr> :: CRingBuffer"
  have l: "ring_list ?rb = [3]" by (simp add: ring_list_def)
  have "ring_wf ?rb" "int (length [7, 8 :: u8]) \<le> GetFreeSize ?rb"
    by (simp_all add: ring_wf_def rb_end_def ring_size_defs)
  from wsarecv_appends [OF this] show ?thesis unfolding l by (simp only: CRingBuffer.simps) force
qed

end
