(* ===== verification/Message.thy ===== *)
theory Message
  imports Prelude
begin

text \<open>
  \<^verbatim>\<open>CMessage\<close> (\<^verbatim>\<open>CNetworkLib/utility/SerializeBuffer_exception\<close>), the serialization buffer of the
  servers, and its obfuscation \<^verbatim>\<open>EnCoding\<close> / \<^verbatim>\<open>DeCoding\<close>. Pointers are offsets from \<^verbatim>\<open>_begin\<close>;
  \<open>msg_addr\<close> is the address of \<^verbatim>\<open>_begin\<close> itself, which \<^verbatim>\<open>operator<<\<close> looks at. Exceptions are
  values \<open>Inl\<close>; \<open>MemFault\<close> is an access outside the array \<^verbatim>\<open>_begin\<close>, undefined in C++.
  The log dump \<^verbatim>\<open>HexLog\<close> writes a file only and is left out.
\<close>

datatype msg_error = HasNotData | NotEnoughSpace | MemFault

record CMessage =
  msg_mem :: "u8 list"
  msg_size :: nat
  msg_end :: nat
  msg_front :: nat
  msg_rear :: nat
  msg_owner :: u64
  msg_use :: int
  msg_K :: u8
  msg_addr :: nat

definition bufferSize :: nat where "bufferSize = 1000"
definition MaxSize :: nat where "MaxSize = 2000"

section \<open>Construction\<close>

definition new_CMessage :: "nat \<Rightarrow> u64 \<Rightarrow> CMessage" where
  "new_CMessage addr threadId =
     \<lparr>msg_mem = replicate MaxSize 0, msg_size = bufferSize, msg_end = bufferSize,
      msg_front = 0, msg_rear = 0, msg_owner = threadId, msg_use = 0, msg_K = 0x32,
      msg_addr = addr\<rparr>"

definition InitMessage :: "CMessage \<Rightarrow> CMessage" where
  "InitMessage m = m\<lparr>msg_size := bufferSize, msg_front := 0, msg_rear := 0,
                     msg_end := bufferSize, msg_use := 1\<rparr>"

section \<open>Reading and writing\<close>

definition dword_of :: "int \<Rightarrow> nat" where
  "dword_of i = nat (i mod 2 ^ 32)"

definition ReSize :: "CMessage \<Rightarrow> msg_error + CMessage" where
  "ReSize m =
     (let done = (\<lambda>mem UseSize. m\<lparr>msg_mem := mem, msg_size := MaxSize, msg_end := MaxSize,
                                  msg_front := 0, msg_rear := UseSize\<rparr>)
      in if msg_rear m < msg_front m
         then (let UseSize = dword_of (int (msg_rear m) - int (msg_front m))
               in case Option.bind (mem_read (msg_mem m) 0 UseSize) (mem_write (msg_mem m) (msg_end m)) of
                    None \<Rightarrow> Inl MemFault
                  | Some mem \<Rightarrow> Inr (done mem UseSize))
         else Inr (done (msg_mem m) (dword_of (int (msg_front m) - int (msg_rear m)))))"

text \<open>\<^verbatim>\<open>operator<<\<close> of a fundamental value whose bytes in memory are \<open>bs\<close>.\<close>

definition msg_shl :: "CMessage \<Rightarrow> u8 list \<Rightarrow> msg_error + CMessage" where
  "msg_shl m bs =
     (let len = length bs;
          room = (if msg_end m < msg_rear m + len
                  then (if msg_size m = bufferSize \<and> msg_addr m + msg_rear m + len < MaxSize
                        then ReSize m else Inl NotEnoughSpace)
                  else Inr m)
      in case room of
           Inl e \<Rightarrow> Inl e
         | Inr m' \<Rightarrow>
             (case mem_write (msg_mem m') (msg_rear m') bs of
                None \<Rightarrow> Inl MemFault
              | Some mem \<Rightarrow> Inr (m'\<lparr>msg_mem := mem, msg_rear := msg_rear m' + len\<rparr>)))"

text \<open>\<^verbatim>\<open>operator<<(char*)\<close>: the characters of \<open>str\<close> up to its terminator.\<close>

definition msg_shl_str :: "CMessage \<Rightarrow> u8 list \<Rightarrow> msg_error + CMessage" where
  "msg_shl_str m str = msg_shl m (takeWhile (\<lambda>c. c \<noteq> 0) str)"

text \<open>\<^verbatim>\<open>operator>>\<close> of a fundamental type of \<open>len\<close> bytes.\<close>

definition msg_shr :: "CMessage \<Rightarrow> nat \<Rightarrow> msg_error + (u8 list \<times> CMessage)" where
  "msg_shr m len =
     (if msg_rear m < msg_front m + len then Inl HasNotData
      else (case mem_read (msg_mem m) (msg_front m) len of
              None \<Rightarrow> Inl MemFault
            | Some bs \<Rightarrow> Inr (bs, m\<lparr>msg_front := msg_front m + len\<rparr>)))"

text \<open>\<^verbatim>\<open>operator>>(char*)\<close>: everything that is left.\<close>

definition msg_shr_str :: "CMessage \<Rightarrow> msg_error + (u8 list \<times> CMessage)" where
  "msg_shr_str m =
     (if msg_rear m < msg_front m then Inl HasNotData
      else (let len = msg_rear m - msg_front m
            in case mem_read (msg_mem m) (msg_front m) len of
                 None \<Rightarrow> Inl MemFault
               | Some bs \<Rightarrow> Inr (bs, m\<lparr>msg_front := msg_front m + len\<rparr>)))"

definition PutData :: "CMessage \<Rightarrow> u8 list \<Rightarrow> msg_error + CMessage" where
  "PutData m src =
     (if msg_end m < msg_rear m + length src then Inl NotEnoughSpace
      else (case mem_write (msg_mem m) (msg_rear m) src of
              None \<Rightarrow> Inl MemFault
            | Some mem \<Rightarrow> Inr (m\<lparr>msg_mem := mem, msg_rear := msg_rear m + length src\<rparr>)))"

definition GetData :: "CMessage \<Rightarrow> nat \<Rightarrow> msg_error + (u8 list \<times> CMessage)" where
  "GetData m n =
     (if msg_rear m < msg_front m + n then Inl HasNotData
      else (case mem_read (msg_mem m) (msg_front m) n of
              None \<Rightarrow> Inl MemFault
            | Some bs \<Rightarrow> Inr (bs, m\<lparr>msg_front := msg_front m + n\<rparr>)))"

definition msg_Peek :: "CMessage \<Rightarrow> nat \<Rightarrow> msg_error + u8 list" where
  "msg_Peek m n =
     (if msg_rear m < msg_front m + n then Inl HasNotData
      else (case mem_read (msg_mem m) (msg_front m) n of
              None \<Rightarrow> Inl MemFault | Some bs \<Rightarrow> Inr bs))"

section \<open>Obfuscation\<close>

text \<open>
  The loops of \<^verbatim>\<open>EnCoding\<close> and \<^verbatim>\<open>DeCoding\<close> over the bytes from \<^verbatim>\<open>byCheckSum\<close> to \<^verbatim>\<open>_rearPtr\<close>. All
  arithmetic is on \<^verbatim>\<open>BYTE\<close>, \<open>current\<close> counts from 1.
\<close>

primrec enc_loop :: "u8 \<Rightarrow> u8 \<Rightarrow> u8 \<Rightarrow> u8 \<Rightarrow> nat \<Rightarrow> u8 list \<Rightarrow> u8 list" where
  "enc_loop RK K P E current [] = []"
| "enc_loop RK K P E current (D1 # ds) =
     (let b = P + RK + of_nat current;
          P' = D1 XOR b;
          E' = P' XOR (E + K + of_nat current)
      in E' # enc_loop RK K P' E' (Suc current) ds)"

primrec dec_loop :: "u8 \<Rightarrow> u8 \<Rightarrow> u8 \<Rightarrow> u8 \<Rightarrow> nat \<Rightarrow> u8 list \<Rightarrow> u8 list" where
  "dec_loop RK K P1 E1 current [] = []"
| "dec_loop RK K P1 E1 current (E2 # es) =
     (let P2 = E2 XOR (E1 + K + of_nat current);
          D2 = P2 XOR (P1 + RK + of_nat current)
      in D2 # dec_loop RK K P2 E2 (Suc current) es)"

definition checksum :: "u8 list \<Rightarrow> u8" where
  "checksum local_Front = sum_list (tl local_Front)"

text \<open>Offsets in the packed \<^verbatim>\<open>stHeader\<close>: code, 16-bit length, random key, checksum.\<close>

definition off_sDataLen :: nat where "off_sDataLen = 1"
definition off_byRandKey :: nat where "off_byRandKey = 3"
definition off_byCheckSum :: nat where "off_byCheckSum = 4"
definition sizeof_stHeader :: nat where "sizeof_stHeader = 5"

text \<open>
  \<open>RK\<close> is \<^verbatim>\<open>rand() % UCHAR_MAX\<close>. With \<^verbatim>\<open>_rearPtr\<close> in front of the checksum byte the loop never
  meets \<^verbatim>\<open>_rearPtr\<close> and runs off the array.
\<close>

definition EnCoding :: "u8 \<Rightarrow> CMessage \<Rightarrow> msg_error + CMessage" where
  "EnCoding RK m =
     (if msg_rear m < off_byCheckSum \<or> length (msg_mem m) < msg_rear m
         \<or> length (msg_mem m) \<le> off_byCheckSum
      then Inl MemFault
      else (let mem1 = (msg_mem m)[off_byRandKey := RK];
                total = checksum (drop off_byCheckSum (take (msg_rear m) mem1));
                mem2 = mem1[off_byCheckSum := total];
                body = drop off_byCheckSum (take (msg_rear m) mem2)
            in Inr (m\<lparr>msg_mem := take off_byCheckSum mem2 @ enc_loop RK (msg_K m) 0 0 1 body
                                  @ drop (msg_rear m) mem2\<rparr>)))"

definition DeCoding :: "CMessage \<Rightarrow> msg_error + (bool \<times> CMessage)" where
  "DeCoding m =
     (let len = dword_of (int (msg_rear m) - int off_byCheckSum)
      in if length (msg_mem m) \<le> off_byCheckSum then Inl MemFault
         else if msg_size m < len then Inr (False, m)
         else if length (msg_mem m) < msg_rear m then Inl MemFault
         else (let RK = msg_mem m ! off_byRandKey;
                   body = dec_loop RK (msg_K m) 0 0 1 (drop off_byCheckSum (take (msg_rear m) (msg_mem m)));
                   mem = take off_byCheckSum (msg_mem m) @ body @ drop (msg_rear m) (msg_mem m)
               in Inr (mem ! off_byCheckSum = checksum body, m\<lparr>msg_mem := mem\<rparr>)))"

section \<open>Invariant and contents\<close>

text \<open>
  Every message the servers handle satisfies \<open>msg_ok\<close>: the array has its full length, the
  pointers are in order inside it, and it does not lie in the first 2000 bytes of the address
  space (the first pages of a Windows process are never mapped).
\<close>

definition msg_ok :: "CMessage \<Rightarrow> bool" where
  "msg_ok m \<longleftrightarrow> length (msg_mem m) = MaxSize \<and> msg_front m \<le> msg_rear m \<and>
     msg_rear m \<le> MaxSize \<and> msg_end m \<le> MaxSize \<and> MaxSize \<le> msg_addr m"

definition msg_data :: "CMessage \<Rightarrow> u8 list" where
  "msg_data m = drop (msg_front m) (take (msg_rear m) (msg_mem m))"

lemma new_CMessage_ok: "MaxSize \<le> addr \<Longrightarrow> msg_ok (new_CMessage addr tid)"
  by (simp add: msg_ok_def new_CMessage_def MaxSize_def bufferSize_def)

lemma InitMessage_ok: "msg_ok m \<Longrightarrow> msg_ok (InitMessage m)"
  by (simp add: msg_ok_def InitMessage_def MaxSize_def bufferSize_def)

lemma InitMessage_data [simp]: "msg_data (InitMessage m) = []"
  by (simp add: msg_data_def InitMessage_def)

lemma length_msg_data: "msg_ok m \<Longrightarrow> length (msg_data m) = msg_rear m - msg_front m"
  by (simp add: msg_data_def msg_ok_def)

lemma take_write:
  "r + length bs \<le> length xs \<Longrightarrow>
   take (r + length bs) (take r xs @ bs @ drop (r + length bs) xs) = take r xs @ bs"
  by simp

text \<open>The growth branch of \<^verbatim>\<open>operator<<\<close> compares an address with 2000 and is never taken.\<close>

lemma msg_shl_eq:
  assumes "msg_ok m"
  shows "msg_shl m bs =
    (if msg_end m < msg_rear m + length bs then Inl NotEnoughSpace
     else Inr (m\<lparr>msg_mem := take (msg_rear m) (msg_mem m) @ bs @ drop (msg_rear m + length bs) (msg_mem m),
                 msg_rear := msg_rear m + length bs\<rparr>))"
  using assms by (auto simp: msg_shl_def Let_def msg_ok_def mem_write_def)

lemma PutData_eq: "msg_ok m \<Longrightarrow> PutData m bs = msg_shl m bs"
  by (auto simp: msg_shl_eq PutData_def msg_ok_def mem_write_def)

lemma GetData_eq: "GetData m n = msg_shr m n"
  by (simp add: GetData_def msg_shr_def)

lemma msg_shl_ok:
  assumes "msg_ok m" "msg_shl m bs = Inr m'"
  shows "msg_ok m'" "msg_data m' = msg_data m @ bs" "msg_front m' = msg_front m"
    "msg_rear m' = msg_rear m + length bs" "msg_end m' = msg_end m" "msg_size m' = msg_size m"
    "msg_K m' = msg_K m" "msg_use m' = msg_use m" "msg_owner m' = msg_owner m"
proof -
  from assms have le: "msg_rear m + length bs \<le> msg_end m"
    and m': "m' = m\<lparr>msg_mem := take (msg_rear m) (msg_mem m) @ bs @ drop (msg_rear m + length bs) (msg_mem m),
                    msg_rear := msg_rear m + length bs\<rparr>"
    by (auto simp: msg_shl_eq split: if_splits)
  show "msg_ok m'" using assms(1) le by (auto simp: m' msg_ok_def)
  show "msg_data m' = msg_data m @ bs" using assms(1) le by (simp add: m' msg_data_def msg_ok_def)
qed (insert assms, auto simp: msg_shl_eq split: if_splits)

lemma msg_shl_fits: "msg_ok m \<Longrightarrow> msg_rear m + length bs \<le> msg_end m \<Longrightarrow> \<exists>m'. msg_shl m bs = Inr m'"
  by (simp add: msg_shl_eq)

lemma msg_shr_eq:
  assumes "msg_ok m"
  shows "msg_shr m n =
    (if n \<le> length (msg_data m) then Inr (take n (msg_data m), m\<lparr>msg_front := msg_front m + n\<rparr>)
     else Inl HasNotData)"
  using assms by (auto simp: msg_shr_def length_msg_data msg_data_def msg_ok_def mem_read_def drop_take min_def)

lemma msg_shr_ok:
  assumes "msg_ok m" "msg_shr m n = Inr (bs, m')"
  shows "msg_ok m'" "msg_data m' = drop n (msg_data m)" "bs = take n (msg_data m)" "length bs = n"
    "n \<le> length (msg_data m)" "m' = m\<lparr>msg_front := msg_front m + n\<rparr>"
  using assms length_msg_data [OF assms(1)]
  by (auto simp: msg_shr_eq msg_ok_def msg_data_def add.commute split: if_splits)

section \<open>The obfuscation is invertible\<close>

lemma length_enc_loop [simp]: "length (enc_loop RK K P E c ds) = length ds"
  by (induction ds arbitrary: P E c) (auto simp: Let_def)

lemma length_dec_loop [simp]: "length (dec_loop RK K P E c ds) = length ds"
  by (induction ds arbitrary: P E c) (auto simp: Let_def)

lemma xor_cancel [simp]: "(a XOR b) XOR b = (a :: u8)"
  by (simp add: xor.assoc)

lemma dec_enc_loop [simp]: "dec_loop RK K P E c (enc_loop RK K P E c ds) = ds"
  by (induction ds arbitrary: P E c) (auto simp: Let_def)

lemma enc_dec_loop [simp]: "enc_loop RK K P E c (dec_loop RK K P E c es) = es"
  by (induction es arbitrary: P E c) (auto simp: Let_def)

lemma enc_loop_inj: "enc_loop RK K P E c xs = enc_loop RK K P E c ys \<longleftrightarrow> xs = ys"
  by (metis dec_enc_loop)

lemma dec_loop_inj: "dec_loop RK K P E c xs = dec_loop RK K P E c ys \<longleftrightarrow> xs = ys"
  by (metis enc_dec_loop)

lemma dec_loop_prefix: "\<exists>P' E'. \<forall>ys. dec_loop RK K P E c (xs @ ys) =
    dec_loop RK K P E c xs @ dec_loop RK K P' E' (c + length xs) ys"
proof (induction xs arbitrary: P E c)
  case Nil
  show ?case by auto
next
  case (Cons x xs)
  show ?case using Cons.IH [of _ _ "Suc c"] by (simp add: Let_def)
qed

lemma EnCoding_eq:
  assumes ok: "msg_ok m" and rear: "sizeof_stHeader \<le> msg_rear m"
  defines "D \<equiv> drop off_byCheckSum (take (msg_rear m) (msg_mem m))"
  shows "EnCoding RK m = Inr (m\<lparr>msg_mem := take off_byRandKey (msg_mem m) @ [RK] @
           enc_loop RK (msg_K m) 0 0 1 (checksum D # tl D) @ drop (msg_rear m) (msg_mem m)\<rparr>)"
proof -
  have r: "5 \<le> msg_rear m" "msg_rear m \<le> length (msg_mem m)" "length (msg_mem m) = MaxSize"
    using ok rear by (simp_all add: msg_ok_def sizeof_stHeader_def)
  then have "5 \<le> length (msg_mem m)" by simp
  then obtain a b c d e rest where mem: "msg_mem m = a # b # c # d # e # rest"
    by (auto simp: Suc_le_length_iff numeral_eq_Suc)
  obtain n where n: "msg_rear m = Suc (Suc (Suc (Suc (Suc n))))"
    using le_Suc_ex [OF r(1)] by (auto simp: numeral_eq_Suc)
  show ?thesis using r
    by (simp add: EnCoding_def D_def off_byCheckSum_def off_byRandKey_def Let_def mem n checksum_def
        numeral_eq_Suc)
qed


lemma DeCoding_eq:
  assumes ok: "msg_ok m" and rear: "sizeof_stHeader \<le> msg_rear m"
    and fits: "msg_rear m \<le> off_byCheckSum + msg_size m"
    and body: "body = dec_loop (msg_mem m ! off_byRandKey) (msg_K m) 0 0 1
                     (drop off_byCheckSum (take (msg_rear m) (msg_mem m)))"
  shows "DeCoding m = Inr (hd body = checksum body,
           m\<lparr>msg_mem := take off_byCheckSum (msg_mem m) @ body @ drop (msg_rear m) (msg_mem m)\<rparr>)"
proof -
  have r: "5 \<le> msg_rear m" "msg_rear m \<le> 2000" "length (msg_mem m) = 2000"
    using ok rear by (simp_all add: msg_ok_def sizeof_stHeader_def MaxSize_def)
  have "length body = msg_rear m - 4" using r by (simp add: body off_byCheckSum_def)
  then have ne: "body \<noteq> []" using r by auto
  have len: "dword_of (int (msg_rear m) - int off_byCheckSum) = msg_rear m - 4"
    using r by (simp add: dword_of_def off_byCheckSum_def nat_diff_distrib)
  have off: "off_byCheckSum = 4" by (simp add: off_byCheckSum_def)
  have nth: "(take off_byCheckSum (msg_mem m) @ body @ drop (msg_rear m) (msg_mem m)) ! off_byCheckSum = hd body"
    using ne r by (simp add: nth_append hd_conv_nth off)
  have c: "\<not> length (msg_mem m) \<le> off_byCheckSum" "\<not> msg_size m < msg_rear m - 4"
    "\<not> length (msg_mem m) < msg_rear m" using r fits by (simp_all add: off)
  show ?thesis unfolding DeCoding_def Let_def body [symmetric] len nth using c by simp
qed

lemma DeCoding_oversize:
  assumes "msg_ok m" "off_byCheckSum + msg_size m < msg_rear m"
  shows "DeCoding m = Inr (False, m)"
  using assms
  by (auto simp: DeCoding_def Let_def off_byCheckSum_def msg_ok_def MaxSize_def dword_of_def nat_diff_distrib)

lemma encode_decode:
  assumes ok: "msg_ok m" and rear: "sizeof_stHeader \<le> msg_rear m"
    and fits: "msg_rear m \<le> off_byCheckSum + msg_size m"
  shows "\<exists>m'. EnCoding RK m = Inr m' \<and> msg_ok m' \<and>
    DeCoding m' = Inr (True, m\<lparr>msg_mem := (msg_mem m)[off_byRandKey := RK,
      off_byCheckSum := checksum (drop off_byCheckSum (take (msg_rear m) (msg_mem m)))]\<rparr>)"
proof -
  define D where "D = drop off_byCheckSum (take (msg_rear m) (msg_mem m))"
  define m' where "m' = m\<lparr>msg_mem := take off_byRandKey (msg_mem m) @ [RK] @
           enc_loop RK (msg_K m) 0 0 1 (checksum D # tl D) @ drop (msg_rear m) (msg_mem m)\<rparr>"
  have r: "5 \<le> msg_rear m" "msg_rear m \<le> length (msg_mem m)"
    using ok rear by (simp_all add: msg_ok_def sizeof_stHeader_def)
  then have "5 \<le> length (msg_mem m)" by simp
  then obtain a b c d e rest where mem: "msg_mem m = a # b # c # d # e # rest"
    by (auto simp: Suc_le_length_iff numeral_eq_Suc)
  obtain n where n: "msg_rear m = Suc (Suc (Suc (Suc (Suc n))))"
    using le_Suc_ex [OF r(1)] by (auto simp: numeral_eq_Suc)
  have enc: "EnCoding RK m = Inr m'" using EnCoding_eq [OF ok rear] by (simp add: m'_def D_def)
  have D: "D = e # take n rest" using r by (simp add: D_def mem n off_byCheckSum_def numeral_eq_Suc del: enc_loop.simps)
  have len: "length (msg_mem m') = length (msg_mem m)" using r by (simp add: m'_def D mem n off_byRandKey_def numeral_eq_Suc del: enc_loop.simps)
  have ok': "msg_ok m'" using ok len by (simp add: msg_ok_def m'_def)
  have RK: "msg_mem m' ! off_byRandKey = RK"
    by (simp add: m'_def off_byRandKey_def mem numeral_eq_Suc)
  have body: "drop off_byCheckSum (take (msg_rear m) (msg_mem m')) =
      enc_loop RK (msg_K m) 0 0 1 (checksum D # tl D)"
    using r by (simp add: m'_def mem n D off_byRandKey_def off_byCheckSum_def numeral_eq_Suc del: enc_loop.simps)
  have "DeCoding m' = Inr (True, m'\<lparr>msg_mem := take off_byCheckSum (msg_mem m') @ (checksum D # tl D)
          @ drop (msg_rear m) (msg_mem m')\<rparr>)"
    proof -
    have rear': "sizeof_stHeader \<le> msg_rear m'" "msg_rear m' \<le> off_byCheckSum + msg_size m'"
      and sel: "msg_rear m' = msg_rear m" "msg_K m' = msg_K m"
      using rear fits by (simp_all add: m'_def)
    have "checksum D # tl D = dec_loop (msg_mem m' ! off_byRandKey) (msg_K m') 0 0 1
        (drop off_byCheckSum (take (msg_rear m') (msg_mem m')))"
      unfolding sel RK body dec_enc_loop by (rule refl)
    from DeCoding_eq [OF ok' rear' this] show ?thesis by (simp add: sel checksum_def)
  qed
  moreover have "take off_byCheckSum (msg_mem m') @ (checksum D # tl D) @ drop (msg_rear m) (msg_mem m') =
      (msg_mem m)[off_byRandKey := RK, off_byCheckSum := checksum D]"
    using r by (simp add: m'_def mem n D off_byRandKey_def off_byCheckSum_def numeral_eq_Suc del: enc_loop.simps)
  ultimately show ?thesis using enc ok' by (simp add: m'_def D_def [symmetric])
qed

section \<open>Any sequence of reads and writes\<close>

datatype msg_op = MInit | MShl "u8 list" | MShlStr "u8 list" | MPutData "u8 list"
  | MShr nat | MShrStr | MGetData nat | MPeek nat

text \<open>A thrown exception leaves the message as it was; the caller may go on with it.\<close>

definition msg_write_result :: "CMessage \<Rightarrow> msg_error + CMessage \<Rightarrow> (msg_error + u8 list) \<times> CMessage" where
  "msg_write_result m r = (case r of Inl e \<Rightarrow> (Inl e, m) | Inr m' \<Rightarrow> (Inr [], m'))"

definition msg_read_result :: "CMessage \<Rightarrow> msg_error + (u8 list \<times> CMessage) \<Rightarrow> (msg_error + u8 list) \<times> CMessage" where
  "msg_read_result m r = (case r of Inl e \<Rightarrow> (Inl e, m) | Inr (bs, m') \<Rightarrow> (Inr bs, m'))"

fun msg_step :: "CMessage \<Rightarrow> msg_op \<Rightarrow> (msg_error + u8 list) \<times> CMessage" where
  "msg_step m MInit = (Inr [], InitMessage m)"
| "msg_step m (MShl bs) = msg_write_result m (msg_shl m bs)"
| "msg_step m (MShlStr str) = msg_write_result m (msg_shl_str m str)"
| "msg_step m (MPutData bs) = msg_write_result m (PutData m bs)"
| "msg_step m (MShr n) = msg_read_result m (msg_shr m n)"
| "msg_step m MShrStr = msg_read_result m (msg_shr_str m)"
| "msg_step m (MGetData n) = msg_read_result m (GetData m n)"
| "msg_step m (MPeek n) = (case msg_Peek m n of Inl e \<Rightarrow> (Inl e, m) | Inr bs \<Rightarrow> (Inr bs, m))"

fun msg_run :: "CMessage \<Rightarrow> msg_op list \<Rightarrow> (msg_error + u8 list) list \<times> CMessage" where
  "msg_run m [] = ([], m)"
| "msg_run m (x # xs) =
     (case msg_step m x of (out, m') \<Rightarrow> (case msg_run m' xs of (outs, m'') \<Rightarrow> (out # outs, m'')))"

text \<open>
  The specification: the bytes written and not yet read, and how many were written since
  \<^verbatim>\<open>InitMessage\<close>, at most 1000.
\<close>

fun buf_write :: "nat \<times> u8 list \<Rightarrow> u8 list \<Rightarrow> (msg_error + u8 list) \<times> nat \<times> u8 list" where
  "buf_write (written, q) bs =
     (if written + length bs \<le> bufferSize then (Inr [], written + length bs, q @ bs)
      else (Inl NotEnoughSpace, written, q))"

fun buf_read :: "nat \<times> u8 list \<Rightarrow> nat \<Rightarrow> (msg_error + u8 list) \<times> nat \<times> u8 list" where
  "buf_read (written, q) n =
     (if n \<le> length q then (Inr (take n q), written, drop n q) else (Inl HasNotData, written, q))"

fun buf_step :: "nat \<times> u8 list \<Rightarrow> msg_op \<Rightarrow> (msg_error + u8 list) \<times> nat \<times> u8 list" where
  "buf_step s MInit = (Inr [], 0, [])"
| "buf_step s (MShl bs) = buf_write s bs"
| "buf_step s (MShlStr str) = buf_write s (takeWhile (\<lambda>c. c \<noteq> 0) str)"
| "buf_step s (MPutData bs) = buf_write s bs"
| "buf_step s (MShr n) = buf_read s n"
| "buf_step s MShrStr = buf_read s (length (snd s))"
| "buf_step s (MGetData n) = buf_read s n"
| "buf_step s (MPeek n) = (fst (buf_read s n), s)"

fun buf_run :: "nat \<times> u8 list \<Rightarrow> msg_op list \<Rightarrow> (msg_error + u8 list) list \<times> nat \<times> u8 list" where
  "buf_run s [] = ([], s)"
| "buf_run s (x # xs) =
     (case buf_step s x of (out, s') \<Rightarrow> (case buf_run s' xs of (outs, s'') \<Rightarrow> (out # outs, s'')))"

definition msg_abs :: "CMessage \<Rightarrow> nat \<times> u8 list" where
  "msg_abs m = (msg_rear m, msg_data m)"

definition msg_plain :: "CMessage \<Rightarrow> bool" where
  "msg_plain m \<longleftrightarrow> msg_ok m \<and> msg_end m = bufferSize \<and> msg_size m = bufferSize"

lemma msg_write_refines:
  assumes "msg_plain m" "msg_write_result m (msg_shl m bs) = (out, m')"
  shows "msg_plain m' \<and> buf_write (msg_abs m) bs = (out, msg_abs m')"
proof (cases "msg_shl m bs")
  case (Inl e)
  with assms show ?thesis
    by (auto simp: msg_write_result_def msg_plain_def msg_abs_def msg_shl_eq split: if_splits)
next
  case (Inr m2)
  with assms have "m' = m2" "out = Inr []" by (auto simp: msg_write_result_def)
  moreover have "msg_rear m + length bs \<le> bufferSize"
    using Inr assms(1) by (auto simp: msg_plain_def msg_shl_eq split: if_splits)
  moreover have ok: "msg_ok m" using assms(1) by (simp add: msg_plain_def)
  ultimately show ?thesis using assms(1) msg_shl_ok [OF ok Inr]
    by (simp add: msg_plain_def msg_abs_def)
qed

lemma msg_read_refines:
  assumes "msg_plain m" "msg_read_result m (msg_shr m n) = (out, m')"
  shows "msg_plain m' \<and> buf_read (msg_abs m) n = (out, msg_abs m')"
proof (cases "msg_shr m n")
  case (Inl e)
  with assms show ?thesis
    by (auto simp: msg_read_result_def msg_plain_def msg_abs_def msg_shr_eq split: if_splits)
next
  case (Inr p)
  then obtain bs m2 where p: "msg_shr m n = Inr (bs, m2)" by (cases p) auto
  with assms have "m' = m2" "out = Inr bs" by (auto simp: msg_read_result_def)
  moreover have ok: "msg_ok m" using assms(1) by (simp add: msg_plain_def)
  ultimately show ?thesis using assms(1) msg_shr_ok [OF ok p]
    by (simp add: msg_plain_def msg_abs_def)
qed

lemma msg_shr_str_eq: "msg_ok m \<Longrightarrow> msg_shr_str m = msg_shr m (length (msg_data m))"
  by (auto simp add: msg_shr_str_def msg_shr_def length_msg_data Let_def msg_ok_def)

lemma msg_Peek_eq:
  "msg_Peek m n = (case msg_shr m n of Inl e \<Rightarrow> Inl e | Inr (bs, m') \<Rightarrow> Inr bs)"
  by (simp add: msg_Peek_def msg_shr_def split: option.split)

lemma msg_step_refines:
  assumes "msg_plain m" "msg_step m x = (out, m')"
  shows "msg_plain m' \<and> buf_step (msg_abs m) x = (out, msg_abs m')"
proof -
  have ok: "msg_ok m" using assms(1) by (simp add: msg_plain_def)
  show ?thesis
  proof (cases x)
    case MInit
    then show ?thesis using assms InitMessage_ok [OF ok] InitMessage_data [of m]
      by (auto simp: msg_plain_def msg_abs_def) (auto simp: InitMessage_def)
  next
    case MShrStr
    then show ?thesis using assms msg_read_refines [OF assms(1), of "length (msg_data m)" out m']
      by (simp add: msg_shr_str_eq [OF ok]) (simp add: msg_abs_def)
  next
    case (MPeek n)
    obtain out2 m2 where r: "msg_read_result m (msg_shr m n) = (out2, m2)"
      by (cases "msg_read_result m (msg_shr m n)") auto
    have "out = out2" "m' = m" using assms(2) r MPeek
      by (auto simp: msg_Peek_eq msg_read_result_def split: sum.splits prod.splits)
    then show ?thesis using msg_read_refines [OF assms(1) r] MPeek assms(1) by simp
  qed (use assms msg_write_refines [OF assms(1)] msg_read_refines [OF assms(1)] in
      \<open>simp_all add: msg_shl_str_def PutData_eq [OF ok] GetData_eq\<close>)
qed

lemma msg_run_refines:
  "msg_plain m \<Longrightarrow> msg_run m xs = (outs, m') \<Longrightarrow>
   msg_plain m' \<and> buf_run (msg_abs m) xs = (outs, msg_abs m')"
proof (induction xs arbitrary: m outs)
  case Nil
  then show ?case by simp
next
  case (Cons x xs)
  obtain out m1 where s: "msg_step m x = (out, m1)" by (cases "msg_step m x") auto
  obtain outs1 m2 where r: "msg_run m1 xs = (outs1, m2)" by (cases "msg_run m1 xs") auto
  from Cons.IH [OF _ ] msg_step_refines [OF Cons.prems(1) s] s r Cons.prems(2)
  show ?case by fastforce
qed

lemma buf_run_no_fault: "Inl MemFault \<notin> set (fst (buf_run s xs))"
proof (induction xs arbitrary: s)
  case Nil
  then show ?case by simp
next
  case (Cons x xs)
  have "fst (buf_step s x) \<noteq> Inl MemFault" by (cases s; cases x) auto
  with Cons.IH show ?case by (auto simp: split_beta)
qed

text \<open>
  C10: a message allocated outside the first 2000 bytes of the address space behaves, under any
  sequence of initialisations, stream writes, stream reads, block copies and peeks, as a byte
  buffer that takes 1000 bytes: a write that does not fit throws \<^verbatim>\<open>NotEnoughSpace\<close> and
  changes nothing, a read of more than is left throws \<^verbatim>\<open>HasNotData\<close> and changes nothing, every
  other read returns the bytes in the order they were written, and no access leaves the array. In
  particular the buffer never grows to its 2000 bytes.
\<close>

theorem message_refines_buffer:
  assumes "MaxSize \<le> addr" "msg_run (new_CMessage addr tid) ops = (outs, m')"
  shows "buf_run (0, []) ops = (outs, msg_rear m', msg_data m') \<and>
         Inl MemFault \<notin> set outs \<and> msg_end m' = bufferSize"
proof -
  have "msg_plain (new_CMessage addr tid)" "msg_abs (new_CMessage addr tid) = (0, [])"
    using new_CMessage_ok [OF assms(1), of tid]
    by (simp_all add: msg_plain_def msg_abs_def msg_data_def new_CMessage_def)
  from msg_run_refines [OF this(1) assms(2)] this(2) buf_run_no_fault [of "(0, [])" ops]
  show ?thesis by (simp add: msg_abs_def msg_plain_def)
qed

theorem message_refines_buffer_witness:
  "fst (msg_run (new_CMessage 4096 7) [MShl [1, 2], MPutData (replicate 999 9), MShlStr [5, 6, 0, 8], MShr 3, MShr 2])
     = [Inr [], Inl NotEnoughSpace, Inr [], Inr [1, 2, 5], Inl HasNotData]"
proof -
  have a: "MaxSize \<le> 4096" by (simp add: MaxSize_def)
  obtain outs m' where r: "msg_run (new_CMessage 4096 7)
      [MShl [1, 2], MPutData (replicate 999 9), MShlStr [5, 6, 0, 8], MShr 3, MShr 2] = (outs, m')"
    by (metis surj_pair)
  from message_refines_buffer [OF a r] show ?thesis unfolding r by (simp add: bufferSize_def)
qed

section \<open>Transmission\<close>

text \<open>The bytes of a message as they travel: from \<^verbatim>\<open>_begin\<close> to \<^verbatim>\<open>_rearPtr\<close>.\<close>

definition msg_frame :: "CMessage \<Rightarrow> u8 list" where
  "msg_frame m = take (msg_rear m) (msg_mem m)"

lemma msg_frame_length: "msg_ok m \<Longrightarrow> length (msg_frame m) = msg_rear m"
  by (simp add: msg_frame_def msg_ok_def)

text \<open>What \<^verbatim>\<open>DeCoding\<close> makes of a frame, and when it accepts it.\<close>

definition frame_decoded :: "u8 \<Rightarrow> u8 list \<Rightarrow> u8 list" where
  "frame_decoded K fr = take off_byCheckSum fr @ dec_loop (fr ! off_byRandKey) K 0 0 1 (drop off_byCheckSum fr)"

definition frame_accepted :: "u8 \<Rightarrow> u8 list \<Rightarrow> bool" where
  "frame_accepted K fr \<longleftrightarrow> (let body = drop off_byCheckSum (frame_decoded K fr) in hd body = checksum body)"

definition frame_encoded :: "u8 \<Rightarrow> u8 \<Rightarrow> u8 list \<Rightarrow> u8 list" where
  "frame_encoded K RK fr = take off_byRandKey fr @ [RK] @
     (let D = drop off_byCheckSum fr in enc_loop RK K 0 0 1 (checksum D # tl D))"

lemma EnCoding_frame:
  assumes ok: "msg_ok m" and rear: "sizeof_stHeader \<le> msg_rear m"
  shows "\<exists>m'. EnCoding RK m = Inr m' \<and> msg_ok m' \<and> msg_frame m' = frame_encoded (msg_K m) RK (msg_frame m) \<and>
    m' = m\<lparr>msg_mem := msg_frame m' @ drop (msg_rear m) (msg_mem m)\<rparr>"
proof -
  let ?D = "drop off_byCheckSum (msg_frame m)"
  let ?mem = "frame_encoded (msg_K m) RK (msg_frame m) @ drop (msg_rear m) (msg_mem m)"
  have r: "5 \<le> msg_rear m" "msg_rear m \<le> length (msg_mem m)"
    using ok rear by (simp_all add: msg_ok_def sizeof_stHeader_def)
  have "take off_byRandKey (msg_frame m) = take off_byRandKey (msg_mem m)"
    using r by (simp add: msg_frame_def off_byRandKey_def)
  then have e: "EnCoding RK m = Inr (m\<lparr>msg_mem := ?mem\<rparr>)"
    using EnCoding_eq [OF ok rear, of RK]
    by (simp add: frame_encoded_def msg_frame_def Let_def del: enc_loop.simps)
  have len: "length (frame_encoded (msg_K m) RK (msg_frame m)) = msg_rear m"
    using r msg_frame_length [OF ok]
    by (simp add: frame_encoded_def Let_def off_byRandKey_def off_byCheckSum_def del: enc_loop.simps)
  have "msg_frame (m\<lparr>msg_mem := ?mem\<rparr>) = frame_encoded (msg_K m) RK (msg_frame m)"
    using len by (simp add: msg_frame_def)
  moreover have "msg_ok (m\<lparr>msg_mem := ?mem\<rparr>)" using ok r len by (simp add: msg_ok_def)
  ultimately show ?thesis using e by simp
qed

lemma DeCoding_frame:
  assumes ok: "msg_ok m" and rear: "sizeof_stHeader \<le> msg_rear m"
    and fits: "msg_rear m \<le> off_byCheckSum + msg_size m"
  shows "\<exists>m'. DeCoding m = Inr (frame_accepted (msg_K m) (msg_frame m), m') \<and> msg_ok m' \<and>
    msg_frame m' = frame_decoded (msg_K m) (msg_frame m) \<and>
    m' = m\<lparr>msg_mem := msg_frame m' @ drop (msg_rear m) (msg_mem m)\<rparr>"
proof -
  define body where "body = dec_loop (msg_mem m ! off_byRandKey) (msg_K m) 0 0 1
                     (drop off_byCheckSum (take (msg_rear m) (msg_mem m)))"
  let ?m' = "m\<lparr>msg_mem := take off_byCheckSum (msg_mem m) @ body @ drop (msg_rear m) (msg_mem m)\<rparr>"
  have r: "5 \<le> msg_rear m" "msg_rear m \<le> length (msg_mem m)"
    using ok rear by (simp_all add: msg_ok_def sizeof_stHeader_def)
  have t: "take off_byCheckSum (msg_frame m) = take off_byCheckSum (msg_mem m)"
    "msg_frame m ! off_byRandKey = msg_mem m ! off_byRandKey"
    using r by (simp_all add: msg_frame_def off_byRandKey_def off_byCheckSum_def)
  have fd: "frame_decoded (msg_K m) (msg_frame m) = take off_byCheckSum (msg_mem m) @ body"
    unfolding frame_decoded_def t body_def by (simp add: msg_frame_def)
  have off: "length (take off_byCheckSum (msg_mem m)) = off_byCheckSum"
    using r by (simp add: off_byCheckSum_def)
  have fa: "frame_accepted (msg_K m) (msg_frame m) = (hd body = checksum body)"
    unfolding frame_accepted_def fd using off by (simp add: Let_def)
  have len: "length (take off_byCheckSum (msg_mem m) @ body) = msg_rear m"
    using r by (simp add: body_def off_byCheckSum_def)
  have "msg_frame ?m' = take off_byCheckSum (msg_mem m) @ body"
    using len off by (simp add: msg_frame_def)
  moreover have "msg_ok ?m'" using ok r len by (simp add: msg_ok_def)
  ultimately show ?thesis using DeCoding_eq [OF ok rear fits body_def] fa fd by simp
qed

lemma frame_decoded_encoded:
  assumes "sizeof_stHeader \<le> length fr"
  shows "frame_decoded K (frame_encoded K RK fr) =
    fr[off_byRandKey := RK, off_byCheckSum := checksum (drop off_byCheckSum fr)]"
    "frame_accepted K (frame_encoded K RK fr)"
proof -
  from assms obtain a b c d e rest where fr: "fr = a # b # c # d # e # rest"
    by (auto simp: sizeof_stHeader_def Suc_le_length_iff numeral_eq_Suc)
  show *: "frame_decoded K (frame_encoded K RK fr) =
    fr[off_byRandKey := RK, off_byCheckSum := checksum (drop off_byCheckSum fr)]"
    by (simp add: fr frame_decoded_def frame_encoded_def off_byRandKey_def off_byCheckSum_def Let_def numeral_eq_Suc)
  show "frame_accepted K (frame_encoded K RK fr)"
    unfolding frame_accepted_def *
    by (simp add: fr off_byRandKey_def off_byCheckSum_def Let_def numeral_eq_Suc checksum_def)
qed

lemma checksum_last:
  "checksum (xs @ [x]) = checksum (xs @ [y]) \<longleftrightarrow> xs = [] \<or> x = y"
  by (cases xs) (auto simp: checksum_def)

lemma accepted_last_unique:
  assumes "off_byCheckSum \<le> length fr" "frame_accepted K (fr @ [x])" "frame_accepted K (fr @ [y])"
  shows "x = y"
proof -
  let ?b = "drop off_byCheckSum fr"
  have off: "off_byRandKey < length fr" using assms(1) by (simp add: off_byRandKey_def off_byCheckSum_def)
  obtain P E where pe: "\<And>ys. dec_loop (fr ! off_byRandKey) K 0 0 1 (?b @ ys) =
      dec_loop (fr ! off_byRandKey) K 0 0 1 ?b @ dec_loop (fr ! off_byRandKey) K P E (1 + length ?b) ys"
    using dec_loop_prefix by blast
  define ds where "ds = dec_loop (fr ! off_byRandKey) K 0 0 1 ?b"
  define dx where "dx z = hd (dec_loop (fr ! off_byRandKey) K P E (1 + length ?b) [z])" for z
  have body: "drop off_byCheckSum (frame_decoded K (fr @ [z])) = ds @ [dx z]" for z
    using assms(1) off pe [of "[z]"] by (simp add: frame_decoded_def nth_append ds_def dx_def Let_def)
  have "dx x = dx y"
  proof (cases "ds = []")
    case True
    then show ?thesis using assms(2,3) by (simp add: frame_accepted_def body Let_def checksum_def)
  next
    case False
    then have "checksum (ds @ [dx x]) = checksum (ds @ [dx y])"
      using assms(2,3) by (simp add: frame_accepted_def body Let_def)
    then show ?thesis using False by (simp add: checksum_last)
  qed
  then show "x = y" unfolding dx_def Let_def
    by (simp add: Let_def) (metis xor_cancel)
qed

text \<open>
  C9: \<^verbatim>\<open>DeCoding\<close> inverts \<^verbatim>\<open>EnCoding\<close>. For every message whose frame has a full header and
  whose encoded part is at most the buffer size, and for every random key, encoding succeeds
  without leaving the array, and decoding the result succeeds, accepts the checksum and restores
  the message, with the random key and the checksum filled into the header.
\<close>

theorem decode_inverts_encode:
  assumes "msg_ok m" "sizeof_stHeader \<le> msg_rear m" "msg_rear m \<le> off_byCheckSum + msg_size m"
  shows "\<exists>m'. EnCoding RK m = Inr m' \<and> msg_ok m' \<and>
    DeCoding m' = Inr (True, m\<lparr>msg_mem := (msg_mem m)[off_byRandKey := RK,
      off_byCheckSum := checksum (drop off_byCheckSum (take (msg_rear m) (msg_mem m)))]\<rparr>)"
  using assms by (rule encode_decode)

definition sample_msg :: CMessage where
  "sample_msg = (new_CMessage 4096 0)\<lparr>msg_mem := [0x77, 3, 0, 0, 0, 10, 20, 30] @ replicate 1992 0, msg_rear := 8\<rparr>"

lemma sample_msg_ok: "msg_ok sample_msg" "sizeof_stHeader \<le> msg_rear sample_msg"
  "msg_rear sample_msg \<le> off_byCheckSum + msg_size sample_msg"
  by (simp_all add: sample_msg_def msg_ok_def new_CMessage_def MaxSize_def sizeof_stHeader_def
      off_byCheckSum_def bufferSize_def)

theorem decode_inverts_encode_witness:
  "\<exists>m' m''. EnCoding 0x5A sample_msg = Inr m' \<and> DeCoding m' = Inr (True, m'') \<and>
            take 8 (msg_mem m'') = [0x77, 3, 0, 0x5A, 60, 10, 20, 30]"
  using decode_inverts_encode [OF sample_msg_ok, of "0x5A"]
  by (auto simp: sample_msg_def off_byRandKey_def off_byCheckSum_def checksum_def numeral_eq_Suc)

text \<open>
  a change of the last byte of an encoded frame in transit is always detected: whatever other
  value it gets, \<^verbatim>\<open>DeCoding\<close> of the received message returns false.
\<close>

theorem tampered_last_byte_rejected:
  assumes ok: "msg_ok m" and rear: "sizeof_stHeader \<le> msg_rear m"
    and fits: "msg_rear m \<le> off_byCheckSum + msg_size m"
    and enc: "EnCoding RK m = Inr m'" and b: "b \<noteq> msg_mem m' ! (msg_rear m - 1)"
  shows "\<exists>m''. DeCoding (m'\<lparr>msg_mem := (msg_mem m')[msg_rear m - 1 := b]\<rparr>) = Inr (False, m'')"
proof -
  let ?t = "m'\<lparr>msg_mem := (msg_mem m')[msg_rear m - 1 := b]\<rparr>"
  have ok': "msg_ok m'" and fr': "msg_frame m' = frame_encoded (msg_K m) RK (msg_frame m)"
    and eq: "m' = m\<lparr>msg_mem := msg_frame m' @ drop (msg_rear m) (msg_mem m)\<rparr>"
    using EnCoding_frame [OF ok rear, of RK] enc by auto
  have sel: "msg_rear m' = msg_rear m" "msg_K m' = msg_K m" "msg_size m' = msg_size m"
    using arg_cong [OF eq, of msg_rear] arg_cong [OF eq, of msg_K] arg_cong [OF eq, of msg_size]
    by simp_all
  have tok: "msg_ok ?t" using ok' by (simp add: msg_ok_def)
  obtain acc where acc: "\<exists>m''. DeCoding ?t = Inr (frame_accepted (msg_K m) (msg_frame ?t), m'')"
    using DeCoding_frame [OF tok] rear fits sel by auto
  have len: "length (msg_frame m') = msg_rear m" using msg_frame_length [OF ok'] sel by simp
  define fr where "fr = take (msg_rear m - 1) (msg_mem m')"
  have lenm: "msg_rear m \<le> length (msg_mem m')" "5 \<le> msg_rear m"
    using ok' sel rear by (simp_all add: msg_ok_def sizeof_stHeader_def)
  have n: "msg_rear m = Suc (msg_rear m - 1)" using lenm(2) by simp
  have e1: "msg_frame m' = fr @ [msg_mem m' ! (msg_rear m - 1)]"
    unfolding msg_frame_def sel fr_def by (subst n) (rule take_Suc_conv_app_nth, use lenm in simp)
  have e2: "msg_frame ?t = fr @ [b]"
    using lenm sel take_Suc_conv_app_nth [of "msg_rear m - 1" "msg_mem ?t"] n
    by (simp add: msg_frame_def fr_def)
  have off: "off_byCheckSum \<le> length fr" using lenm by (simp add: fr_def off_byCheckSum_def)
  have "frame_accepted (msg_K m) (msg_frame m')"
    unfolding fr' using rear msg_frame_length [OF ok] by (simp add: frame_decoded_encoded)
  then have "\<not> frame_accepted (msg_K m) (msg_frame ?t)"
    using accepted_last_unique [OF off] b unfolding e1 e2 by blast
  with acc show ?thesis by simp
qed

theorem tampered_last_byte_rejected_witness:
  "\<exists>m' m''. EnCoding 1 sample_msg = Inr m' \<and>
     DeCoding (m'\<lparr>msg_mem := (msg_mem m')[7 := msg_mem m' ! 7 + 1]\<rparr>) = Inr (False, m'')"
proof -
  obtain m' where enc: "EnCoding 1 sample_msg = Inr m'"
    using EnCoding_frame [OF sample_msg_ok(1,2), of 1] by auto
  have r: "msg_rear sample_msg - 1 = 7" by (simp add: sample_msg_def)
  have "msg_mem m' ! 7 + 1 \<noteq> msg_mem m' ! (msg_rear sample_msg - 1)" unfolding r by simp
  from tampered_last_byte_rejected [OF sample_msg_ok enc this] enc show ?thesis unfolding r by blast
qed

end
