(* ===== verification/Packet.thy ===== *)
theory Packet
  imports Message
begin

text \<open>
  The protocol of the chatting server (\<^verbatim>\<open>CNetworkLib/RPC\<close>): the packet types of
  \<^verbatim>\<open>CommonProtocol.h\<close>, the builders of \<^verbatim>\<open>Proxy.cpp\<close> and the dispatcher of \<^verbatim>\<open>Stub.cpp\<close>. The
  builders end with \<^verbatim>\<open>SendPacket\<close>, which the theory of the network layer models; here they
  return the finished message.
\<close>

definition en_PACKET_CS_CHAT_REQ_LOGIN :: u16 where "en_PACKET_CS_CHAT_REQ_LOGIN = 1"
definition en_PACKET_CS_CHAT_RES_LOGIN :: u16 where "en_PACKET_CS_CHAT_RES_LOGIN = 2"
definition en_PACKET_CS_CHAT_REQ_SECTOR_MOVE :: u16 where "en_PACKET_CS_CHAT_REQ_SECTOR_MOVE = 3"
definition en_PACKET_CS_CHAT_RES_SECTOR_MOVE :: u16 where "en_PACKET_CS_CHAT_RES_SECTOR_MOVE = 4"
definition en_PACKET_CS_CHAT_REQ_MESSAGE :: u16 where "en_PACKET_CS_CHAT_REQ_MESSAGE = 5"
definition en_PACKET_CS_CHAT_RES_MESSAGE :: u16 where "en_PACKET_CS_CHAT_RES_MESSAGE = 6"
definition en_PACKET_CS_CHAT_HEARTBEAT :: u16 where "en_PACKET_CS_CHAT_HEARTBEAT = 7"

lemmas packet_types =
  en_PACKET_CS_CHAT_REQ_LOGIN_def en_PACKET_CS_CHAT_RES_LOGIN_def
  en_PACKET_CS_CHAT_REQ_SECTOR_MOVE_def en_PACKET_CS_CHAT_RES_SECTOR_MOVE_def
  en_PACKET_CS_CHAT_REQ_MESSAGE_def en_PACKET_CS_CHAT_RES_MESSAGE_def
  en_PACKET_CS_CHAT_HEARTBEAT_def

section \<open>Building responses\<close>

text \<open>
  \<open>headerSize\<close> as the constructor of \<^verbatim>\<open>CLanServer\<close> sets it. Each builder is given what the code
  leaves open: \<open>junk\<close>, the four bytes of the local \<^verbatim>\<open>stHeader\<close> that stay uninitialised, and \<open>RK\<close>,
  the random key.
\<close>

definition headerSize_of :: "bool \<Rightarrow> nat" where
  "headerSize_of bEnCording = (if bEnCording then sizeof_stHeader else off_sDataLen)"

definition begin_packet :: "u8 list \<Rightarrow> CMessage \<Rightarrow> msg_error + CMessage" where
  "begin_packet junk m = PutData (InitMessage m) (0x77 # junk)"

definition end_packet :: "bool \<Rightarrow> u8 \<Rightarrow> CMessage \<Rightarrow> msg_error + CMessage" where
  "end_packet bEnCording RK m =
     (let len = word_of_int (int (msg_rear m) - int (msg_front m) - int (headerSize_of bEnCording)) :: u16
      in case mem_write (msg_mem m) (msg_front m + off_sDataLen) (word_bytes 2 len) of
           None \<Rightarrow> Inl MemFault
         | Some mem \<Rightarrow> (if bEnCording then EnCoding RK (m\<lparr>msg_mem := mem\<rparr>) else Inr (m\<lparr>msg_mem := mem\<rparr>)))"

definition RES_LOGIN :: "bool \<Rightarrow> u8 list \<Rightarrow> u8 \<Rightarrow> CMessage \<Rightarrow> u8 \<Rightarrow> u64 \<Rightarrow> msg_error + CMessage" where
  "RES_LOGIN bEnCording junk RK m Status AccountNo =
     err_bind (begin_packet junk m) (\<lambda>m.
     err_bind (msg_shl m (word_bytes 2 en_PACKET_CS_CHAT_RES_LOGIN)) (\<lambda>m.
     err_bind (msg_shl m (word_bytes 1 Status)) (\<lambda>m.
     err_bind (msg_shl m (word_bytes 8 AccountNo)) (\<lambda>m.
     end_packet bEnCording RK m))))"

definition RES_SECTOR_MOVE :: "bool \<Rightarrow> u8 list \<Rightarrow> u8 \<Rightarrow> CMessage \<Rightarrow> u64 \<Rightarrow> u16 \<Rightarrow> u16 \<Rightarrow> msg_error + CMessage" where
  "RES_SECTOR_MOVE bEnCording junk RK m AccountNo SectorX SectorY =
     err_bind (begin_packet junk m) (\<lambda>m.
     err_bind (msg_shl m (word_bytes 2 en_PACKET_CS_CHAT_RES_SECTOR_MOVE)) (\<lambda>m.
     err_bind (msg_shl m (word_bytes 8 AccountNo)) (\<lambda>m.
     err_bind (msg_shl m (word_bytes 2 SectorX)) (\<lambda>m.
     err_bind (msg_shl m (word_bytes 2 SectorY)) (\<lambda>m.
     end_packet bEnCording RK m)))))"

text \<open>\<open>ID\<close>, \<open>Nickname\<close> and \<open>MessageBuffer\<close> are the memory behind the pointers.\<close>

definition RES_MESSAGE :: "bool \<Rightarrow> u8 list \<Rightarrow> u8 \<Rightarrow> CMessage \<Rightarrow> u64 \<Rightarrow> u8 list \<Rightarrow> u8 list \<Rightarrow> u16 \<Rightarrow> u8 list
    \<Rightarrow> msg_error + CMessage" where
  "RES_MESSAGE bEnCording junk RK m AccountNo ID Nickname MessageLen MessageBuffer =
     err_bind (begin_packet junk m) (\<lambda>m.
     err_bind (msg_shl m (word_bytes 2 en_PACKET_CS_CHAT_RES_MESSAGE)) (\<lambda>m.
     err_bind (msg_shl m (word_bytes 8 AccountNo)) (\<lambda>m.
     err_bind (PutData m (take 40 ID)) (\<lambda>m.
     err_bind (PutData m (take 40 Nickname)) (\<lambda>m.
     err_bind (msg_shl m (word_bytes 2 MessageLen)) (\<lambda>m.
     err_bind (PutData m (take (unat MessageLen) MessageBuffer)) (\<lambda>m.
     end_packet bEnCording RK m)))))))"

definition Proxy_HEARTBEAT :: "bool \<Rightarrow> u8 list \<Rightarrow> u8 \<Rightarrow> CMessage \<Rightarrow> msg_error + CMessage" where
  "Proxy_HEARTBEAT bEnCording junk RK m =
     err_bind (begin_packet junk m) (\<lambda>m.
     err_bind (msg_shl m (word_bytes 2 en_PACKET_CS_CHAT_HEARTBEAT)) (\<lambda>m.
     end_packet bEnCording RK m))"

section \<open>Dispatching requests\<close>

text \<open>The arguments the dispatcher reads for each handler of \<^verbatim>\<open>Stub\<close>.\<close>

datatype request =
    REQ_LOGIN u64 "u8 list" "u8 list" "u8 list"
  | REQ_SECTOR_MOVE u64 u16 u16
  | REQ_MESSAGE u64 u16 "u8 list"
  | HEARTBEAT

definition read_request :: "CMessage \<Rightarrow> u16 \<Rightarrow> msg_error + (request \<times> CMessage) option" where
  "read_request m byType =
     (if byType = en_PACKET_CS_CHAT_REQ_LOGIN then
        err_bind (msg_shr m 8) (\<lambda>(AccountNo, m).
        err_bind (GetData m 40) (\<lambda>(ID, m).
        err_bind (GetData m 40) (\<lambda>(Nickname, m).
        err_bind (GetData m 64) (\<lambda>(SessionKey, m).
        Inr (Some (REQ_LOGIN (bytes_word AccountNo) ID Nickname SessionKey, m))))))
      else if byType = en_PACKET_CS_CHAT_REQ_SECTOR_MOVE then
        err_bind (msg_shr m 8) (\<lambda>(AccountNo, m).
        err_bind (msg_shr m 2) (\<lambda>(SectorX, m).
        err_bind (msg_shr m 2) (\<lambda>(SectorY, m).
        Inr (Some (REQ_SECTOR_MOVE (bytes_word AccountNo) (bytes_word SectorX) (bytes_word SectorY), m)))))
      else if byType = en_PACKET_CS_CHAT_REQ_MESSAGE then
        err_bind (msg_shr m 8) (\<lambda>(AccountNo, m).
        err_bind (msg_shr m 2) (\<lambda>(MessageLen, m).
        let len = bytes_word MessageLen :: u16 in
        err_bind (GetData m (unat len)) (\<lambda>(MessageBuffer, m).
        Inr (Some (REQ_MESSAGE (bytes_word AccountNo) len MessageBuffer, m)))))
      else if byType = en_PACKET_CS_CHAT_HEARTBEAT then Inr (Some (HEARTBEAT, m))
      else Inr None)"

text \<open>
  \<^verbatim>\<open>PacketProc\<close>: \<open>handle\<close> is the virtual handler of the server. It returns the new state and the
  exception that leaves it, if any; the state changes made before the throw stay. The first
  component of the result says whether a \<^verbatim>\<open>MessageException\<close> escapes no further (it never does).
\<close>

definition PacketProc ::
  "('s \<Rightarrow> request \<Rightarrow> CMessage \<Rightarrow> 's \<times> msg_error option) \<Rightarrow> 's \<Rightarrow> CMessage \<Rightarrow> u16 \<Rightarrow> bool \<times> 's" where
  "PacketProc handle s m byType =
     (case read_request m byType of
        Inl e \<Rightarrow> (False, s)
      | Inr None \<Rightarrow> (False, s)
      | Inr (Some (req, m')) \<Rightarrow>
          (case handle s req m' of (s', None) \<Rightarrow> (True, s') | (s', Some e) \<Rightarrow> (False, s')))"

section \<open>The wire format\<close>

fun request_type :: "request \<Rightarrow> u16" where
  "request_type (REQ_LOGIN a i n k) = en_PACKET_CS_CHAT_REQ_LOGIN"
| "request_type (REQ_SECTOR_MOVE a x y) = en_PACKET_CS_CHAT_REQ_SECTOR_MOVE"
| "request_type (REQ_MESSAGE a l b) = en_PACKET_CS_CHAT_REQ_MESSAGE"
| "request_type HEARTBEAT = en_PACKET_CS_CHAT_HEARTBEAT"

fun request_wire :: "request \<Rightarrow> u8 list" where
  "request_wire (REQ_LOGIN a i n k) = word_bytes 8 a @ i @ n @ k"
| "request_wire (REQ_SECTOR_MOVE a x y) = word_bytes 8 a @ word_bytes 2 x @ word_bytes 2 y"
| "request_wire (REQ_MESSAGE a l b) = word_bytes 8 a @ word_bytes 2 l @ b"
| "request_wire HEARTBEAT = []"

fun request_wf :: "request \<Rightarrow> bool" where
  "request_wf (REQ_LOGIN a i n k) \<longleftrightarrow> length i = 40 \<and> length n = 40 \<and> length k = 64"
| "request_wf (REQ_SECTOR_MOVE a x y) \<longleftrightarrow> True"
| "request_wf (REQ_MESSAGE a l b) \<longleftrightarrow> length b = unat l"
| "request_wf HEARTBEAT \<longleftrightarrow> True"

lemma msg_shr_append:
  assumes "msg_ok m" "msg_data m = xs @ ys" "length xs = n"
  shows "\<exists>m'. msg_shr m n = Inr (xs, m') \<and> msg_ok m' \<and> msg_data m' = ys"
proof -
  have e: "msg_shr m n = Inr (xs, m\<lparr>msg_front := msg_front m + n\<rparr>)"
    using assms by (simp add: msg_shr_eq [OF assms(1)])
  note msg_shr_ok(1,2) [OF assms(1) this]
  moreover have "drop n (msg_data m) = ys" using assms(2,3) by simp
  ultimately show ?thesis using e by metis
qed

lemma word_bytes_bytes:
  assumes "length bs = n" "8 * n = LENGTH('a)"
  shows "word_bytes n (bytes_word bs :: 'a::len word) = bs"
proof -
  have "le_val bs < 256 ^ n" using le_val_less [of bs] assms(1) by simp
  also have "(256::nat) ^ n = (2 ^ 8) ^ n" by simp
  also have "\<dots> = 2 ^ LENGTH('a)" unfolding assms(2) [symmetric] by (rule power_mult [symmetric])
  finally have "unat (of_nat (le_val bs) :: 'a word) = le_val bs" by (simp add: unat_of_nat)
  then show ?thesis using assms(1) le_bytes_le_val [of bs] by (simp add: word_bytes_def bytes_word_def)
qed

lemma read_request_wire:
  assumes ok: "msg_ok m" and data: "msg_data m = request_wire r @ extra" and wf: "request_wf r"
  shows "\<exists>m'. read_request m (request_type r) = Inr (Some (r, m')) \<and> msg_ok m' \<and> msg_data m' = extra"
proof (cases r)
  case (REQ_LOGIN a i n k)
  with data have "msg_data m = word_bytes 8 a @ i @ n @ k @ extra" by simp
  from msg_shr_append [OF ok this] obtain m1
    where 1: "msg_shr m 8 = Inr (word_bytes 8 a, m1)" "msg_ok m1" "msg_data m1 = i @ n @ k @ extra" by auto
  from msg_shr_append [OF 1(2,3)] wf REQ_LOGIN obtain m2
    where 2: "msg_shr m1 40 = Inr (i, m2)" "msg_ok m2" "msg_data m2 = n @ k @ extra" by auto
  from msg_shr_append [OF 2(2,3)] wf REQ_LOGIN obtain m3
    where 3: "msg_shr m2 40 = Inr (n, m3)" "msg_ok m3" "msg_data m3 = k @ extra" by auto
  from msg_shr_append [OF 3(2,3)] wf REQ_LOGIN obtain m4
    where 4: "msg_shr m3 64 = Inr (k, m4)" "msg_ok m4" "msg_data m4 = extra" by auto
  from 1 2 3 4 REQ_LOGIN show ?thesis by (simp add: read_request_def GetData_eq)
next
  case (REQ_SECTOR_MOVE a x y)
  with data have "msg_data m = word_bytes 8 a @ word_bytes 2 x @ word_bytes 2 y @ extra" by simp
  from msg_shr_append [OF ok this] obtain m1
    where 1: "msg_shr m 8 = Inr (word_bytes 8 a, m1)" "msg_ok m1"
      "msg_data m1 = word_bytes 2 x @ word_bytes 2 y @ extra" by auto
  from msg_shr_append [OF 1(2,3)] obtain m2
    where 2: "msg_shr m1 2 = Inr (word_bytes 2 x, m2)" "msg_ok m2" "msg_data m2 = word_bytes 2 y @ extra" by auto
  from msg_shr_append [OF 2(2,3)] obtain m3
    where 3: "msg_shr m2 2 = Inr (word_bytes 2 y, m3)" "msg_ok m3" "msg_data m3 = extra" by auto
  from 1 2 3 REQ_SECTOR_MOVE show ?thesis by (simp add: read_request_def packet_types)
next
  case (REQ_MESSAGE a l b)
  with data have "msg_data m = word_bytes 8 a @ word_bytes 2 l @ b @ extra" by simp
  from msg_shr_append [OF ok this] obtain m1
    where 1: "msg_shr m 8 = Inr (word_bytes 8 a, m1)" "msg_ok m1" "msg_data m1 = word_bytes 2 l @ b @ extra" by auto
  from msg_shr_append [OF 1(2,3)] obtain m2
    where 2: "msg_shr m1 2 = Inr (word_bytes 2 l, m2)" "msg_ok m2" "msg_data m2 = b @ extra" by auto
  from msg_shr_append [OF 2(2,3)] wf REQ_MESSAGE obtain m3
    where 3: "msg_shr m2 (unat l) = Inr (b, m3)" "msg_ok m3" "msg_data m3 = extra" by auto
  from 1 2 3 REQ_MESSAGE show ?thesis by (simp add: read_request_def packet_types GetData_eq Let_def)
next
  case HEARTBEAT
  with ok data show ?thesis by (simp add: read_request_def packet_types)
qed

lemma read_request_sound:
  assumes ok: "msg_ok m" and r: "read_request m ty = Inr (Some (r, m'))"
  shows "request_wf r \<and> request_type r = ty \<and> msg_data m = request_wire r @ msg_data m' \<and> msg_ok m'"
proof -
  have step: "msg_ok m2 \<and> bs @ msg_data m2 = msg_data m1 \<and> length bs = n"
    if "msg_ok m1" "msg_shr m1 n = Inr (bs, m2)" for m1 n bs m2
    using msg_shr_ok [OF that] by simp
  have wb: "word_bytes 8 (bytes_word x :: u64) = x" if "length x = 8" for x
    by (rule word_bytes_bytes) (simp_all add: that)
  have wb2: "word_bytes 2 (bytes_word x :: u16) = x" if "length x = 2" for x
    by (rule word_bytes_bytes) (simp_all add: that)
  consider "ty = en_PACKET_CS_CHAT_REQ_LOGIN" | "ty = en_PACKET_CS_CHAT_REQ_SECTOR_MOVE"
    | "ty = en_PACKET_CS_CHAT_REQ_MESSAGE" | "ty = en_PACKET_CS_CHAT_HEARTBEAT"
    using r by (auto simp: read_request_def split: if_splits)
  then show ?thesis
  proof cases
    case 1
    from r obtain a m1 i m2 n m3 k where
      s: "msg_shr m 8 = Inr (a, m1)" "msg_shr m1 40 = Inr (i, m2)" "msg_shr m2 40 = Inr (n, m3)"
      "msg_shr m3 64 = Inr (k, m')" and req: "r = REQ_LOGIN (bytes_word a) i n k"
      unfolding 1 by (auto simp: read_request_def GetData_eq elim!: err_bind_InrE)
    note a = step [OF ok s(1)] note b = step [OF conjunct1 [OF a] s(2)]
    note c = step [OF conjunct1 [OF b] s(3)] note d = step [OF conjunct1 [OF c] s(4)]
    from a b c d show ?thesis by (auto simp: req 1 wb)
  next
    case 2
    from r obtain a m1 x m2 y where
      s: "msg_shr m 8 = Inr (a, m1)" "msg_shr m1 2 = Inr (x, m2)" "msg_shr m2 2 = Inr (y, m')"
      and req: "r = REQ_SECTOR_MOVE (bytes_word a) (bytes_word x) (bytes_word y)"
      unfolding 2 by (auto simp: read_request_def packet_types elim!: err_bind_InrE)
    note a = step [OF ok s(1)] note b = step [OF conjunct1 [OF a] s(2)]
    note c = step [OF conjunct1 [OF b] s(3)]
    from a b c show ?thesis by (auto simp: req 2 wb wb2)
  next
    case 3
    from r obtain a m1 l m2 buf where
      s: "msg_shr m 8 = Inr (a, m1)" "msg_shr m1 2 = Inr (l, m2)"
      "msg_shr m2 (unat (bytes_word l :: u16)) = Inr (buf, m')"
      and req: "r = REQ_MESSAGE (bytes_word a) (bytes_word l) buf"
      unfolding 3 by (auto simp: read_request_def packet_types GetData_eq Let_def elim!: err_bind_InrE)
    note a = step [OF ok s(1)] note b = step [OF conjunct1 [OF a] s(2)]
    note c = step [OF conjunct1 [OF b] s(3)]
    from a b c show ?thesis by (auto simp: req 3 wb wb2)
  next
    case 4
    with r ok show ?thesis by (auto simp: read_request_def packet_types)
  qed
qed

text \<open>
  the dispatcher calls exactly the handler that belongs to the packet type, with exactly the
  fields of the payload, when the payload is long enough for that type (further bytes are
  ignored). An unknown type or a payload that is too short calls no handler, leaves the state
  unchanged and returns false. The result is false also when the handler throws.
\<close>

theorem packet_proc_dispatches:
  assumes ok: "msg_ok m"
  shows "if \<exists>r extra. request_type r = ty \<and> request_wf r \<and> msg_data m = request_wire r @ extra
         then \<exists>r m'. request_type r = ty \<and> request_wf r \<and> msg_data m = request_wire r @ msg_data m' \<and> msg_ok m' \<and>
                PacketProc handle s m ty = (snd (handle s r m') = None, fst (handle s r m'))
         else PacketProc handle s m ty = (False, s)"
proof (cases "\<exists>r extra. request_type r = ty \<and> request_wf r \<and> msg_data m = request_wire r @ extra")
  case True
  then obtain r extra where r: "request_type r = ty" "request_wf r" "msg_data m = request_wire r @ extra" by blast
  obtain m' where m': "read_request m ty = Inr (Some (r, m'))" "msg_ok m'" "msg_data m' = extra"
    using read_request_wire [OF ok r(3,2)] r(1) by blast
  have "PacketProc handle s m ty = (snd (handle s r m') = None, fst (handle s r m'))"
    by (simp add: PacketProc_def m'(1) split: prod.split option.split)
  then have "\<exists>r m'. request_type r = ty \<and> request_wf r \<and> msg_data m = request_wire r @ msg_data m' \<and> msg_ok m' \<and>
                PacketProc handle s m ty = (snd (handle s r m') = None, fst (handle s r m'))"
    using r m' by auto
  then show ?thesis unfolding if_P [OF True] .
next
  case False
  have "read_request m ty \<noteq> Inr (Some p)" for p
    using read_request_sound [OF ok, of ty "fst p" "snd p"] False by auto
  then have "PacketProc handle s m ty = (False, s)"
    by (auto simp: PacketProc_def split: sum.split option.split)
  then show ?thesis unfolding if_not_P [OF False] .
qed

definition sample_request :: CMessage where
  "sample_request = (new_CMessage 4096 0)\<lparr>msg_mem := [1, 0, 0, 0, 0, 0, 0, 0, 2, 0, 7, 8] @ replicate 1988 0, msg_rear := 12\<rparr>"

theorem packet_proc_dispatches_witness:
  "PacketProc (\<lambda>s r m. (r # s, None)) [] sample_request en_PACKET_CS_CHAT_REQ_MESSAGE =
     (True, [REQ_MESSAGE 1 2 [7, 8]])"
proof -
  let ?h = "\<lambda>s r (m :: CMessage). (r # s, None :: msg_error option)"
  have ok: "msg_ok sample_request" by (simp add: sample_request_def new_CMessage_def msg_ok_def MaxSize_def bufferSize_def)
  have d: "msg_data sample_request = [1, 0, 0, 0, 0, 0, 0, 0, 2, 0, 7, 8]"
    by (simp add: sample_request_def new_CMessage_def msg_data_def)
  have w: "request_wire (REQ_MESSAGE 1 2 [7, 8]) @ [] = [1, 0, 0, 0, 0, 0, 0, 0, 2, 0, 7, 8]"
    by (simp add: word_bytes_def)
  have ex: "\<exists>r extra. request_type r = en_PACKET_CS_CHAT_REQ_MESSAGE \<and> request_wf r \<and>
      msg_data sample_request = request_wire r @ extra"
    by (rule exI [of _ "REQ_MESSAGE 1 2 [7, 8]"], rule exI [of _ "[]"]) (simp add: d w [simplified])
  from packet_proc_dispatches [OF ok, of en_PACKET_CS_CHAT_REQ_MESSAGE ?h "[]"] ex
  obtain r m' where r: "request_type r = en_PACKET_CS_CHAT_REQ_MESSAGE" "request_wf r"
      "msg_data sample_request = request_wire r @ msg_data m'"
    and p: "PacketProc ?h [] sample_request en_PACKET_CS_CHAT_REQ_MESSAGE = (True, [r])" by auto
  from r(1) obtain a l b where req: "r = REQ_MESSAGE a l b" by (cases r) (auto simp: packet_types)
  have app: "word_bytes 8 a @ (word_bytes 2 l @ (b @ msg_data m')) = word_bytes 8 (1::u64) @ (word_bytes 2 (2::u16) @ [7, 8])"
    using r(3) w unfolding d req by simp
  then have "word_bytes 8 a = word_bytes 8 (1::u64) \<and> word_bytes 2 l = word_bytes 2 (2::u16) \<and> b @ msg_data m' = [7, 8]"
    by (metis append_eq_append_conv length_word_bytes)
  then have "a = 1" "l = 2" "b @ msg_data m' = [7, 8]"
    by (metis word_bytes_64, metis word_bytes_16, blast)
  moreover have "length b = 2" using r(2) calculation by (simp add: req)
  ultimately have "r = REQ_MESSAGE 1 2 [7, 8]" by (simp add: req append_eq_conv_conj)
  with p show ?thesis by simp
qed

section \<open>What the builders put on the wire\<close>

text \<open>A message under construction that holds the bytes \<open>d\<close>.\<close>

definition building :: "CMessage \<Rightarrow> u8 \<Rightarrow> u8 list \<Rightarrow> bool" where
  "building m K d \<longleftrightarrow> msg_plain m \<and> msg_front m = 0 \<and> msg_K m = K \<and> msg_use m = 1 \<and> msg_data m = d"

lemma building_rear: "building m K d \<Longrightarrow> msg_rear m = length d"
  using length_msg_data [of m] by (simp add: building_def msg_plain_def)

lemma building_InitMessage: "msg_ok m \<Longrightarrow> building (InitMessage m) (msg_K m) []"
  using InitMessage_ok [of m] InitMessage_data [of m]
  by (simp add: building_def msg_plain_def) (simp add: InitMessage_def)

lemma building_shl:
  assumes "building m K d"
  shows "if length d + length bs \<le> bufferSize
         then \<exists>m'. msg_shl m bs = Inr m' \<and> building m' K (d @ bs)
         else msg_shl m bs = Inl NotEnoughSpace"
proof -
  have ok: "msg_ok m" and e: "msg_end m = bufferSize" using assms by (simp_all add: building_def msg_plain_def)
  show ?thesis
  proof (cases "length d + length bs \<le> bufferSize")
    case True
    then obtain m' where m': "msg_shl m bs = Inr m'"
      using msg_shl_fits [OF ok, of bs] building_rear [OF assms] e by auto
    with msg_shl_ok [OF ok this] assms True show ?thesis
      by (simp add: building_def msg_plain_def)
  next
    case False
    then show ?thesis using building_rear [OF assms] e by (simp add: msg_shl_eq [OF ok])
  qed
qed

lemma building_shl_fits:
  "building m K d \<Longrightarrow> length d + length bs \<le> bufferSize \<Longrightarrow>
   \<exists>m'. msg_shl m bs = Inr m' \<and> building m' K (d @ bs)"
  using building_shl [of m K d bs] by simp

lemma building_PutData: "building m K d \<Longrightarrow> PutData m bs = msg_shl m bs"
  by (simp add: building_def msg_plain_def PutData_eq)

lemma building_begin:
  assumes "msg_ok m" "length junk = 4"
  shows "\<exists>m'. begin_packet junk m = Inr m' \<and> building m' (msg_K m) (0x77 # junk)"
  using building_shl_fits [OF building_InitMessage [OF assms(1)], of "0x77 # junk"] assms
    building_PutData [OF building_InitMessage [OF assms(1)]]
  by (simp add: begin_packet_def bufferSize_def)

text \<open>
  The frame of a payload: the code, the payload length, the key and the checksum, and the payload,
  obfuscated from the checksum on.
\<close>

definition wire_frame :: "u8 \<Rightarrow> u8 \<Rightarrow> u8 list \<Rightarrow> u8 list" where
  "wire_frame K RK payload =
     frame_encoded K RK (0x77 # word_bytes 2 (of_nat (length payload) :: u16) @ [0, 0] @ payload)"

lemma length_wire_frame [simp]: "length (wire_frame K RK payload) = sizeof_stHeader + length payload"
  by (simp add: wire_frame_def frame_encoded_def Let_def off_byRandKey_def off_byCheckSum_def
      sizeof_stHeader_def del: enc_loop.simps)

lemma wire_frame_header:
  "length payload < 2 ^ 16 \<Longrightarrow>
   wire_frame K RK payload ! 0 = 0x77 \<and>
   unat (bytes_word (take 2 (drop 1 (wire_frame K RK payload))) :: u16) = length payload"
proof -
  assume len: "length payload < 2 ^ 16"
  let ?w = "of_nat (length payload) :: u16"
  have pre: "wire_frame K RK payload = 0x77 # word_bytes 2 ?w @ drop 3 (wire_frame K RK payload)"
    by (simp add: wire_frame_def frame_encoded_def Let_def off_byRandKey_def off_byCheckSum_def
        word_bytes_def numeral_2_eq_2 numeral_3_eq_3 del: enc_loop.simps)
  have "wire_frame K RK payload ! 0 = 0x77" by (subst pre) simp
  moreover have "take 2 (drop 1 (wire_frame K RK payload)) = word_bytes 2 ?w" by (subst pre) simp
  moreover have "unat ?w = length payload" using len by (simp add: unat_of_nat)
  ultimately show ?thesis by simp
qed

lemma wire_frame_decoded:
  "frame_accepted K (wire_frame K RK payload)"
  "drop sizeof_stHeader (frame_decoded K (wire_frame K RK payload)) = payload"
  unfolding wire_frame_def
  by (subst frame_decoded_encoded | simp add: sizeof_stHeader_def off_byRandKey_def off_byCheckSum_def)+

text \<open>The last step of a builder, whatever the code byte is.\<close>

lemma building_end_code:
  assumes b: "building m K (code # junk @ payload)" and junk: "length junk = 4"
  shows "\<exists>m'. end_packet True RK m = Inr m' \<and> msg_ok m' \<and> msg_frame m' = frame_encoded K RK (code # word_bytes 2 (of_nat (length payload) :: u16) @ [0, 0] @ payload)
    \<and> msg_front m' = 0 \<and> msg_use m' = 1"
proof -
  let ?len = "of_nat (length payload) :: u16"
  have ok: "msg_ok m" and f: "msg_front m = 0" and K: "msg_K m = K" and u: "msg_use m = 1"
    using b by (simp_all add: building_def msg_plain_def)
  have fr: "msg_frame m = code # junk @ payload"
    using b f by (simp add: building_def msg_data_def msg_frame_def)
  have rear: "msg_rear m = sizeof_stHeader + length payload"
    using building_rear [OF b] junk by (simp add: sizeof_stHeader_def)
  let ?mem = "take 1 (msg_mem m) @ word_bytes 2 ?len @ drop 3 (msg_mem m)"
  let ?m1 = "m\<lparr>msg_mem := ?mem\<rparr>"
  have r: "5 \<le> msg_rear m" "msg_rear m \<le> length (msg_mem m)"
    using ok rear by (simp_all add: msg_ok_def sizeof_stHeader_def)
  have len: "word_of_int (int (msg_rear m) - int (msg_front m) - int (headerSize_of True)) = ?len"
    by (simp add: rear f headerSize_of_def)
  have w: "mem_write (msg_mem m) (msg_front m + off_sDataLen) (word_bytes 2 ?len) = Some ?mem"
    using r by (simp add: f off_sDataLen_def mem_write_def eval_nat_numeral)
  have "length ?mem = length (msg_mem m)" using r by simp
  then have ok1: "msg_ok ?m1" using ok by (simp add: msg_ok_def)
  have e: "end_packet True RK m = EnCoding RK ?m1"
    unfolding end_packet_def Let_def len w by simp
  have rear1: "sizeof_stHeader \<le> msg_rear ?m1" by (simp add: rear)
  obtain j0 j1 j2 j3 where j: "junk = [j0, j1, j2, j3]"
    using junk by (auto simp: numeral_eq_Suc length_Suc_conv)
  have "msg_frame ?m1 = take 1 (msg_frame m) @ word_bytes 2 ?len @ drop 3 (msg_frame m)"
    using r by (simp add: msg_frame_def take_Cons' drop_take numeral_3_eq_3)
  then have fr1: "msg_frame ?m1 = code # word_bytes 2 ?len @ [j2, j3] @ payload"
    by (simp add: fr j eval_nat_numeral)
  obtain a b where ab: "word_bytes 2 ?len = [a, b]" by (simp add: word_bytes_2)
  have "frame_encoded K RK (msg_frame ?m1) = frame_encoded K RK (code # word_bytes 2 ?len @ [0, 0] @ payload)"
    unfolding fr1 unfolding ab
    by (simp add: frame_encoded_def off_byRandKey_def off_byCheckSum_def checksum_def Let_def
        del: enc_loop.simps)
  moreover obtain m' where m': "EnCoding RK ?m1 = Inr m'" "msg_ok m'"
      "msg_frame m' = frame_encoded (msg_K ?m1) RK (msg_frame ?m1)"
      "m' = ?m1\<lparr>msg_mem := msg_frame m' @ drop (msg_rear ?m1) (msg_mem ?m1)\<rparr>"
    using EnCoding_frame [OF ok1 rear1, of RK] by blast
  moreover have "msg_front m' = 0" "msg_use m' = 1"
    using f u by (subst m'(4), simp)+
  ultimately show ?thesis unfolding e using K by simp
qed

lemma building_end:
  "building m K (0x77 # junk @ payload) \<Longrightarrow> length junk = 4 \<Longrightarrow>
   \<exists>m'. end_packet True RK m = Inr m' \<and> msg_ok m' \<and> msg_frame m' = wire_frame K RK payload \<and> msg_front m' = 0 \<and> msg_use m' = 1"
  unfolding wire_frame_def by (rule building_end_code)

lemma building_chain:
  assumes "building m K (0x77 # junk @ p)" "length junk = 4" "length p + length bs \<le> 995"
  shows "\<exists>m'. msg_shl m bs = Inr m' \<and> building m' K (0x77 # junk @ (p @ bs))"
  using building_shl_fits [OF assms(1), of bs] assms(2,3) by (simp add: bufferSize_def)

text \<open>The builder returns a message whose frame carries \<open>payload\<close>.\<close>

definition builds :: "CMessage \<Rightarrow> u8 \<Rightarrow> u8 list \<Rightarrow> msg_error + CMessage \<Rightarrow> bool" where
  "builds m RK payload r \<longleftrightarrow>
     (\<exists>m'. r = Inr m' \<and> msg_ok m' \<and> msg_frame m' = wire_frame (msg_K m) RK payload \<and>
           msg_front m' = 0 \<and> msg_use m' = 1)"

lemma builds_end: "building m1 (msg_K m) (0x77 # junk @ p) \<Longrightarrow> length junk = 4 \<Longrightarrow>
    builds m RK p (end_packet True RK m1)"
  unfolding builds_def by (rule building_end)

lemma builds_shl:
  assumes "building m1 (msg_K m) (0x77 # junk @ p)" "length junk = 4" "length p + length bs \<le> 995"
    "\<And>m2. building m2 (msg_K m) (0x77 # junk @ (p @ bs)) \<Longrightarrow> builds m RK q (f m2)"
  shows "builds m RK q (err_bind (msg_shl m1 bs) f)"
  using building_chain [OF assms(1-3)] assms(4) by auto

lemma builds_put:
  assumes "building m1 (msg_K m) (0x77 # junk @ p)" "length junk = 4" "length p + length bs \<le> 995"
    "\<And>m2. building m2 (msg_K m) (0x77 # junk @ (p @ bs)) \<Longrightarrow> builds m RK q (f m2)"
  shows "builds m RK q (err_bind (PutData m1 bs) f)"
  using builds_shl [OF assms] by (simp only: building_PutData [OF assms(1)])

lemma builds_begin:
  assumes "msg_ok m" "length junk = 4"
    "\<And>m2. building m2 (msg_K m) (0x77 # junk @ []) \<Longrightarrow> builds m RK q (f m2)"
  shows "builds m RK q (err_bind (begin_packet junk m) f)"
  using building_begin [OF assms(1,2)] assms(3) by auto

lemma RES_LOGIN_builds:
  assumes ok: "msg_ok m" and junk: "length junk = 4"
  shows "builds m RK (word_bytes 2 en_PACKET_CS_CHAT_RES_LOGIN @ word_bytes 1 st @ word_bytes 8 acc)
           (RES_LOGIN True junk RK m st acc)"
  unfolding RES_LOGIN_def
  by (rule builds_begin [OF ok junk], (erule builds_shl [OF _ junk], simp)+, rule builds_end [OF _ junk], simp)

lemma RES_SECTOR_MOVE_builds:
  assumes ok: "msg_ok m" and junk: "length junk = 4"
  shows "builds m RK (word_bytes 2 en_PACKET_CS_CHAT_RES_SECTOR_MOVE @ word_bytes 8 acc @ word_bytes 2 x @ word_bytes 2 y)
           (RES_SECTOR_MOVE True junk RK m acc x y)"
  unfolding RES_SECTOR_MOVE_def
  by (rule builds_begin [OF ok junk], (erule builds_shl [OF _ junk], simp)+, rule builds_end [OF _ junk], simp)

lemma HEARTBEAT_builds:
  assumes ok: "msg_ok m" and junk: "length junk = 4"
  shows "builds m RK (word_bytes 2 en_PACKET_CS_CHAT_HEARTBEAT) (Proxy_HEARTBEAT True junk RK m)"
  unfolding Proxy_HEARTBEAT_def
  by (rule builds_begin [OF ok junk], (erule builds_shl [OF _ junk], simp)+, rule builds_end [OF _ junk], simp)

lemma RES_MESSAGE_builds:
  assumes ok: "msg_ok m" and junk: "length junk = 4" and "length ID = 40" "length Nick = 40"
    and "unat len \<le> length buf" "unat len \<le> 903"
  shows "builds m RK (word_bytes 2 en_PACKET_CS_CHAT_RES_MESSAGE @ word_bytes 8 acc @ ID @ Nick @ word_bytes 2 len @
             take (unat len) buf) (RES_MESSAGE True junk RK m acc ID Nick len buf)"
  unfolding RES_MESSAGE_def
  by (rule builds_begin [OF ok junk], (erule builds_shl [OF _ junk], simp)+,
      (erule builds_put [OF _ junk], simp add: assms(3,4))+, erule builds_shl [OF _ junk], simp add: assms(3,4),
      erule builds_put [OF _ junk], simp add: assms(3,4) min_def, use assms(5,6) in linarith,
      rule builds_end [OF _ junk], simp add: assms(3,4))

lemma RES_MESSAGE_too_long:
  assumes ok: "msg_ok m" and junk: "length junk = 4" and l: "length ID = 40" "length Nick = 40"
    and "unat len \<le> length buf" "903 < unat len"
  shows "RES_MESSAGE bEnc junk RK m acc ID Nick len buf = Inl NotEnoughSpace"
proof -
  have step: "err_bind (msg_shl m1 bs) f = Inl NotEnoughSpace"
    if "building m1 K (0x77 # junk @ p)" "length p + length bs \<le> 995"
      "\<And>m2. building m2 K (0x77 # junk @ (p @ bs)) \<Longrightarrow> f m2 = Inl NotEnoughSpace" for m1 K p bs f
    using building_chain [OF that(1) junk that(2)] that(3) by auto
  have last: "err_bind (PutData m1 (take (unat len) buf)) f = Inl NotEnoughSpace"
    if "building m1 K (0x77 # junk @ p)" "length p = 92" for m1 K p f
    using building_shl [OF that(1), of "take (unat len) buf"] building_PutData [OF that(1)] that(2) assms
    by (simp add: bufferSize_def)
  obtain m1 where m1: "begin_packet junk m = Inr m1" "building m1 (msg_K m) (0x77 # junk @ [])"
    using building_begin [OF ok junk] by auto
  have put: "err_bind (PutData m1 bs) f = Inl NotEnoughSpace"
    if "building m1 K (0x77 # junk @ p)" "length p + length bs \<le> 995"
      "\<And>m2. building m2 K (0x77 # junk @ (p @ bs)) \<Longrightarrow> f m2 = Inl NotEnoughSpace" for m1 K p bs f
    using step [OF that] by (simp only: building_PutData [OF that(1)])
  show ?thesis unfolding RES_MESSAGE_def m1(1) err_bind_simps using m1(2)
    by (elim step put last; simp add: l)
qed

text \<open>
  C39: every response leaves its builder as the frame of its payload, whatever the pooled message
  and the uninitialised header bytes held before: \<^verbatim>\<open>RES_LOGIN\<close>, \<^verbatim>\<open>RES_SECTOR_MOVE\<close>,
  \<^verbatim>\<open>HEARTBEAT\<close>, and \<^verbatim>\<open>RES_MESSAGE\<close> up to 903 bytes of text. A longer text does not fit the 1000
  bytes of the buffer and the builder throws.
\<close>

theorem response_frames:
  assumes ok: "msg_ok m" and junk: "length junk = 4"
    and l: "length ID = 40" "length Nick = 40" "unat len \<le> length buf"
  shows "builds m RK (word_bytes 2 en_PACKET_CS_CHAT_RES_LOGIN @ word_bytes 1 st @ word_bytes 8 acc)
           (RES_LOGIN True junk RK m st acc) \<and>
         builds m RK (word_bytes 2 en_PACKET_CS_CHAT_RES_SECTOR_MOVE @ word_bytes 8 acc @ word_bytes 2 x @ word_bytes 2 y)
           (RES_SECTOR_MOVE True junk RK m acc x y) \<and>
         builds m RK (word_bytes 2 en_PACKET_CS_CHAT_HEARTBEAT) (Proxy_HEARTBEAT True junk RK m) \<and>
         (if unat len \<le> 903
          then builds m RK (word_bytes 2 en_PACKET_CS_CHAT_RES_MESSAGE @ word_bytes 8 acc @ ID @ Nick @
                 word_bytes 2 len @ take (unat len) buf) (RES_MESSAGE True junk RK m acc ID Nick len buf)
          else RES_MESSAGE True junk RK m acc ID Nick len buf = Inl NotEnoughSpace)"
  using RES_LOGIN_builds [OF ok junk] RES_SECTOR_MOVE_builds [OF ok junk] HEARTBEAT_builds [OF ok junk]
    RES_MESSAGE_builds [OF ok junk l] RES_MESSAGE_too_long [OF ok junk l]
  by simp

theorem response_frames_witness:
  "builds (new_CMessage 4096 0) 9 (word_bytes 2 en_PACKET_CS_CHAT_RES_LOGIN @ word_bytes 1 (1::u8) @ word_bytes 8 (42::u64))
     (RES_LOGIN True [0, 0, 0, 0] 9 (new_CMessage 4096 0) 1 42)"
proof -
  have ok: "msg_ok (new_CMessage 4096 0)" by (rule new_CMessage_ok) (simp add: MaxSize_def)
  have l: "length [0, 0, 0, 0 :: u8] = 4" "length (replicate 40 (0::u8)) = 40" "unat (2::u16) \<le> length [1, 2 :: u8]"
    by simp_all
  show ?thesis by (rule conjunct1 [OF response_frames [OF ok l(1) l(2) l(2) l(3)]])
qed

end
