(* ===== verification/Framing.thy ===== *)
theory Framing
  imports Packet
begin

text \<open>
  What the receive loop of \<^verbatim>\<open>CLanServer\<close> does with a byte stream, as a function on lists: the
  specification that the theory \<open>NetworkRecv\<close> shows the code to implement. Splitting the stream
  differently does not change the messages.
\<close>

text \<open>
  \<open>Waiting rest\<close>: the loop ends with \<open>rest\<close> in the buffer and goes on receiving. \<open>Cut\<close>: the
  session is dropped, for too many messages at once, a length field out of range, or a frame that
  does not decode.
\<close>

datatype frame_end = Waiting "u8 list" | Cut

definition frame_size :: "u8 list \<Rightarrow> nat" where
  "frame_size q = unat (bytes_word (take 2 (drop off_sDataLen q)) :: u16) + sizeof_stHeader"

definition frame_payload :: "u8 \<Rightarrow> u8 list \<Rightarrow> u8 list" where
  "frame_payload K fr = drop sizeof_stHeader (frame_decoded K fr)"

definition frame_good :: "u8 \<Rightarrow> u8 list \<Rightarrow> bool" where
  "frame_good K fr \<longleftrightarrow> length fr \<le> off_byCheckSum + bufferSize \<and> frame_accepted K fr"

function parse_frames :: "u8 \<Rightarrow> int \<Rightarrow> nat \<Rightarrow> u8 list \<Rightarrow> u8 list list \<times> frame_end" where
  "parse_frames K maxLen count q =
     (if length q < sizeof_stHeader then ([], Waiting q)
      else if count + 1 \<ge> 150 then ([], Cut)
      else if int (frame_size q) - int sizeof_stHeader \<ge> maxLen then ([], Cut)
      else if length q < frame_size q then ([], Waiting q)
      else if \<not> frame_good K (take (frame_size q) q) then ([], Cut)
      else (case parse_frames K maxLen (count + 1) (drop (frame_size q) q) of
              (ps, e) \<Rightarrow> (frame_payload K (take (frame_size q) q) # ps, e)))"
  by pat_completeness auto

termination
  by (relation "measure (\<lambda>(_, _, _, q). length q)") (auto simp: frame_size_def sizeof_stHeader_def)

declare parse_frames.simps [simp del]

lemma frame_size_pos: "sizeof_stHeader \<le> frame_size q" "0 < frame_size q"
  by (simp_all add: frame_size_def sizeof_stHeader_def)

lemma frame_size_append: "sizeof_stHeader \<le> length q \<Longrightarrow> frame_size (q @ r) = frame_size q"
  by (simp add: frame_size_def sizeof_stHeader_def off_sDataLen_def)

text \<open>A prefix that ends waiting does not change how the rest is cut into messages.\<close>

lemma parse_frames_append:
  assumes "parse_frames K mx c q1 = (ps1, Waiting r1)"
  shows "parse_frames K mx c (q1 @ q2) =
    (case parse_frames K mx (c + length ps1) (r1 @ q2) of (ps2, e) \<Rightarrow> (ps1 @ ps2, e))"
  using assms
proof (induction K mx c q1 arbitrary: ps1 rule: parse_frames.induct)
  case (1 K mx c q)
  let ?n = "frame_size q"
  show ?case
  proof (cases "sizeof_stHeader \<le> length q \<and> ?n \<le> length q")
    case False
    then have "ps1 = []" "r1 = q" using "1.prems"
      by (auto simp: parse_frames.simps [of K mx c q] split: if_splits)
    then show ?thesis by simp
  next
    case True
    then have sz: "frame_size (q @ q2) = ?n" and t: "take ?n (q @ q2) = take ?n q"
      and d: "drop ?n (q @ q2) = drop ?n q @ q2" by (simp_all add: frame_size_append)
    from True "1.prems" have g: "\<not> c + 1 \<ge> 150" "\<not> int ?n - int sizeof_stHeader \<ge> mx"
      "frame_good K (take ?n q)"
      by (auto simp: parse_frames.simps [of K mx c q] split: if_splits)
    obtain ps e where rec: "parse_frames K mx (c + 1) (drop ?n q) = (ps, e)"
      by (cases "parse_frames K mx (c + 1) (drop ?n q)") auto
    have p: "ps1 = frame_payload K (take ?n q) # ps" "e = Waiting r1"
      using "1.prems" True g rec by (simp_all add: parse_frames.simps [of K mx c q])
    have "parse_frames K mx (c + 1) (drop ?n q @ q2) =
      (case parse_frames K mx (c + 1 + length ps) (r1 @ q2) of (ps2, e) \<Rightarrow> (ps @ ps2, e))"
      using "1.IH" True g rec p by auto
    then show ?thesis using True g sz t d p
      by (subst parse_frames.simps) (auto split: prod.split)
  qed
qed

lemma frame_size_wire:
  assumes "length p < 2 ^ 16"
  shows "frame_size (wire_frame K RK p @ q) = sizeof_stHeader + length p"
proof -
  have "frame_size (wire_frame K RK p @ q) = frame_size (wire_frame K RK p)"
    by (rule frame_size_append) simp
  then show ?thesis using wire_frame_header [OF assms] by (simp add: frame_size_def off_sDataLen_def)
qed

text \<open>A stream of well-formed frames is cut into their payloads.\<close>

lemma parse_frames_wire:
  assumes "c + length xs < 150" "\<forall>(RK, p) \<in> set xs. length p \<le> 999 \<and> int (length p) < mx" "length r < sizeof_stHeader"
  shows "parse_frames K mx c (concat (map (\<lambda>(RK, p). wire_frame K RK p) xs) @ r) = (map snd xs, Waiting r)"
  using assms
proof (induction xs arbitrary: c)
  case Nil
  then show ?case by (simp add: parse_frames.simps)
next
  case (Cons x xs)
  obtain RK p where x: "x = (RK, p)" by (cases x)
  let ?w = "wire_frame K RK p"
  let ?rest = "concat (map (\<lambda>(RK, p). wire_frame K RK p) xs) @ r"
  have len: "length p \<le> 999" "int (length p) < mx" using Cons.prems(2) x by auto
  have sz: "frame_size (?w @ ?rest) = length ?w" using frame_size_wire [of p K RK ?rest] len by simp
  have good: "frame_good K ?w" "frame_payload K ?w = p" using len wire_frame_decoded [of K RK p]
    by (simp_all add: frame_good_def frame_payload_def sizeof_stHeader_def off_byCheckSum_def bufferSize_def)
  have "parse_frames K mx (c + 1) ?rest = (map snd xs, Waiting r)"
    using Cons.prems by (intro Cons.IH) auto
  moreover have "concat (map (\<lambda>(RK, p). wire_frame K RK p) (x # xs)) @ r = ?w @ ?rest" by (simp add: x)
  ultimately show ?case using sz good len Cons.prems(1)
    by (subst parse_frames.simps) (simp add: x)
qed

text \<open>A whole connection: one call of the receive loop per arriving chunk.\<close>

fun parse_chunks :: "u8 \<Rightarrow> int \<Rightarrow> u8 list \<Rightarrow> u8 list list \<Rightarrow> u8 list list \<times> frame_end" where
  "parse_chunks K mx rest [] = ([], Waiting rest)"
| "parse_chunks K mx rest (c # cs) =
     (case parse_frames K mx 0 (rest @ c) of
        (ps, Cut) \<Rightarrow> (ps, Cut)
      | (ps, Waiting rest') \<Rightarrow> (case parse_chunks K mx rest' cs of (qs, e) \<Rightarrow> (ps @ qs, e)))"

lemma parse_frames_count:
  assumes "parse_frames K mx c q = (ps, Waiting r)" "c' \<le> c"
  shows "parse_frames K mx c' q = (ps, Waiting r)"
  using assms
proof (induction K mx c q arbitrary: ps c' rule: parse_frames.induct)
  case (1 K mx c q)
  show ?case
  proof (cases "sizeof_stHeader \<le> length q \<and> frame_size q \<le> length q")
    case False
    with "1.prems"(1) have "ps = []" "r = q" "length q < sizeof_stHeader \<or>
        \<not> c + 1 \<ge> 150 \<and> \<not> int (frame_size q) - int sizeof_stHeader \<ge> mx \<and> length q < frame_size q"
      by (auto simp: parse_frames.simps [of K mx c q] split: if_splits)
    then show ?thesis using "1.prems"(2) by (subst parse_frames.simps) auto
  next
    case True
    with "1.prems" have g: "\<not> c + 1 \<ge> 150" "\<not> int (frame_size q) - int sizeof_stHeader \<ge> mx"
      "frame_good K (take (frame_size q) q)"
      by (auto simp: parse_frames.simps [of K mx c q] split: if_splits)
    obtain ps' e where rec: "parse_frames K mx (c + 1) (drop (frame_size q) q) = (ps', e)"
      by (cases "parse_frames K mx (c + 1) (drop (frame_size q) q)") auto
    have p: "ps = frame_payload K (take (frame_size q) q) # ps'" "e = Waiting r"
      using "1.prems" True g rec by (simp_all add: parse_frames.simps [of K mx c q])
    have "parse_frames K mx (c' + 1) (drop (frame_size q) q) = (ps', Waiting r)"
    proof (rule "1.IH")
      show "parse_frames K mx (c + 1) (drop (frame_size q) q) = (ps', Waiting r)" using rec p by simp
      show "c' + 1 \<le> c + 1" using "1.prems"(2) by simp
    qed (use True g in simp_all)
    then show ?thesis using True g p "1.prems"(2)
      by (subst parse_frames.simps) auto
  qed
qed


lemma parse_frames_rest:
  assumes "parse_frames K mx c q = (ps, Waiting r)"
  shows "parse_frames K mx (c + length ps) r = ([], Waiting r)"
proof -
  obtain ps2 e where 2: "parse_frames K mx (c + length ps) r = (ps2, e)"
    by (cases "parse_frames K mx (c + length ps) r") auto
  with parse_frames_append [OF assms, of "[]"] assms show ?thesis by simp
qed

text \<open>A stream that is cut stays cut when more arrives.\<close>

lemma parse_frames_cut:
  assumes "parse_frames K mx c q = (ps, Cut)"
  shows "parse_frames K mx c (q @ x) = (ps, Cut)"
  using assms
proof (induction K mx c q arbitrary: ps rule: parse_frames.induct)
  case (1 K mx c q)
  let ?n = "frame_size q"
  have long: "sizeof_stHeader \<le> length q" using "1.prems"
    by (auto simp: parse_frames.simps [of K mx c q] split: if_splits)
  then have sz: "frame_size (q @ x) = ?n" by (simp add: frame_size_append)
  consider "c + 1 \<ge> 150 \<or> int ?n - int sizeof_stHeader \<ge> mx" "ps = []"
    | "\<not> c + 1 \<ge> 150" "\<not> int ?n - int sizeof_stHeader \<ge> mx" "?n \<le> length q" "\<not> frame_good K (take ?n q)" "ps = []"
    | ps' where "\<not> c + 1 \<ge> 150" "\<not> int ?n - int sizeof_stHeader \<ge> mx" "?n \<le> length q" "frame_good K (take ?n q)"
      "parse_frames K mx (c + 1) (drop ?n q) = (ps', Cut)" "ps = frame_payload K (take ?n q) # ps'"
    using "1.prems" long
    by (auto simp: parse_frames.simps [of K mx c q] split: if_splits prod.splits)
  then show ?case
  proof cases
    case 1
    with long sz show ?thesis by (subst parse_frames.simps) auto
  next
    case 2
    with long sz show ?thesis by (subst parse_frames.simps) auto
  next
    case 3
    have "parse_frames K mx (c + 1) (drop ?n q @ x) = (ps', Cut)"
      by (rule "1.IH") (use 3 long in simp_all)
    with 3 long sz show ?thesis by (subst parse_frames.simps) simp
  qed
qed

text \<open>
  Segmentation: if a stream is accepted as a whole, then so is every way of splitting it, with the
  same messages and the same bytes left over.
\<close>

lemma parse_chunks_whole:
  assumes "parse_frames K mx 0 (rest @ concat cs) = (ps, Waiting r)" "\<exists>c. parse_frames K mx c rest = ([], Waiting rest)"
  shows "parse_chunks K mx rest cs = (ps, Waiting r)"
  using assms
proof (induction cs arbitrary: rest ps)
  case Nil
  then obtain c where c: "parse_frames K mx c rest = ([], Waiting rest)" by blast
  have "parse_frames K mx 0 rest = ([], Waiting rest)" by (rule parse_frames_count [OF c]) simp
  with Nil.prems(1) show ?case by simp
next
  case (Cons a cs)
  let ?q = "rest @ a"
  obtain ps1 e1 where 1: "parse_frames K mx 0 ?q = (ps1, e1)" by (cases "parse_frames K mx 0 ?q") auto
  have whole: "parse_frames K mx 0 (?q @ concat cs) = (ps, Waiting r)" using Cons.prems(1) by simp
  have "e1 \<noteq> Cut" using parse_frames_cut [of K mx 0 ?q] 1 whole by fastforce
  then obtain r1 where e1: "e1 = Waiting r1" by (cases e1) auto
  obtain ps2 e2 where 2: "parse_frames K mx (0 + length ps1) (r1 @ concat cs) = (ps2, e2)"
    by (cases "parse_frames K mx (0 + length ps1) (r1 @ concat cs)") auto
  have p: "ps = ps1 @ ps2" "e2 = Waiting r"
    using parse_frames_append [OF 1 [unfolded e1], of "concat cs"] whole 2 by auto
  have "parse_frames K mx 0 (r1 @ concat cs) = (ps2, Waiting r)"
    by (rule parse_frames_count [OF 2 [unfolded p]]) simp
  moreover have "parse_frames K mx (0 + length ps1) r1 = ([], Waiting r1)"
    using parse_frames_rest [OF 1 [unfolded e1]] by simp
  ultimately have "parse_chunks K mx r1 cs = (ps2, Waiting r)" using Cons.IH by blast
  then show ?case by (simp add: 1 e1 p)
qed

end
