(* ===== verification/Network.thy ===== *)
theory Network
  imports RingBuffer Message "HOL-Library.Monad_Syntax"
begin

text \<open>
  \<^verbatim>\<open>CLanServer\<close> (\<^verbatim>\<open>CNetworkLib/CNetworkLib.cpp\<close>) and its sessions (\<^verbatim>\<open>utility/clsSession\<close>): one
  definition per member function, run as a whole. The theory \<open>SessionIo\<close> treats the interleavings
  of the I/O count. \<open>None\<close> is a crash: \<^verbatim>\<open>__debugbreak\<close> or an access outside an array.

  What Windows decides is an argument: the result of a \<^verbatim>\<open>WSARecv\<close> or \<^verbatim>\<open>WSASend\<close>, the bytes that
  arrived, the accepted socket. What the code asks of Windows is recorded in \<open>os_log\<close>, and \<open>iocp\<close>
  holds the completions still to come, those of submitted operations and the posted ones. Messages
  are nodes of \<open>heap\<close>, named by their index; \<open>msg_free\<close> are the nodes in the pool, in any order.
  The virtual functions \<^verbatim>\<open>OnAccept\<close>, \<^verbatim>\<open>OnRecv\<close>, \<^verbatim>\<open>OnRelease\<close> are arguments, and the record of
  the server is extended by the server that implements them.
\<close>

section \<open>State\<close>

datatype wsa_result = WsaOk | WsaFail nat

text \<open>\<^verbatim>\<open>Job_Type\<close> of a completion packet, with the index of its session.\<close>

datatype completion = Recv nat | Send nat | ReleasePost nat

datatype os_call =
    WSARecv nat "(nat \<times> nat) list"
  | WSASend nat "u8 list list"
  | CancelRecv nat
  | CancelSend nat
  | closesocket nat
  | SetStopEvent
  | DebugBreak

record clsSession =
  m_sock :: nat
  m_msgs :: "nat list"
  m_sendBuffer :: "nat list"
  m_recvBuffer :: CRingBuffer
  m_SeqID :: u64
  m_ioCount :: u64
  m_blive :: u64
  m_flag :: u64

record CLanServer =
  sessions_vec :: "clsSession list"
  m_SessionIdxStack :: "nat list"
  m_SessionCount :: int
  iDisCounnectCount :: u64
  m_TotalAccept :: u64
  next_session_id :: u64
  m_RecvTPS :: int
  arrTPS :: "int list"
  bEnCording :: bool
  headerSize :: nat
  SendBufferLimit :: nat
  max_MsgLen :: int
  heap :: "CMessage list"
  msg_free :: "nat list"
  iocp :: "completion list"
  os_log :: "os_call list"

definition r_flag :: u64 where "r_flag = push_bit 47 1"

definition slot :: "u64 \<Rightarrow> nat" where "slot SessionID = unat (drop_bit 47 SessionID)"

definition get_session :: "nat \<Rightarrow> 'a CLanServer_scheme \<Rightarrow> clsSession option" where
  "get_session i s = (if i < length (sessions_vec s) then Some (sessions_vec s ! i) else None)"

definition upd_session :: "nat \<Rightarrow> (clsSession \<Rightarrow> clsSession) \<Rightarrow> 'a CLanServer_scheme \<Rightarrow> 'a CLanServer_scheme" where
  "upd_session i f s = s\<lparr>sessions_vec := (sessions_vec s)[i := f (sessions_vec s ! i)]\<rparr>"

definition os :: "os_call \<Rightarrow> 'a CLanServer_scheme \<Rightarrow> 'a CLanServer_scheme" where
  "os c s = s\<lparr>os_log := os_log s @ [c]\<rparr>"

definition post :: "completion \<Rightarrow> 'a CLanServer_scheme \<Rightarrow> 'a CLanServer_scheme" where
  "post c s = s\<lparr>iocp := iocp s @ [c]\<rparr>"

definition io_add :: "nat \<Rightarrow> u64 \<Rightarrow> 'a CLanServer_scheme \<Rightarrow> 'a CLanServer_scheme" where
  "io_add i d = upd_session i (m_ioCount_update (\<lambda>c. c + d))"

section \<open>Message nodes\<close>

text \<open>\<^verbatim>\<open>stTlsObjectPool<CMessage>::Alloc\<close>: a free node or a new one, initialised.\<close>

definition node_addr :: "nat \<Rightarrow> nat" where "node_addr i = 4096 * Suc i"

definition msg_Alloc :: "'a CLanServer_scheme \<Rightarrow> nat \<times> 'a CLanServer_scheme" where
  "msg_Alloc s =
     (case msg_free s of
        n # fr \<Rightarrow> (n, s\<lparr>heap := (heap s)[n := InitMessage (heap s ! n)], msg_free := fr\<rparr>)
      | [] \<Rightarrow> (length (heap s),
               s\<lparr>heap := heap s @ [InitMessage (new_CMessage (node_addr (length (heap s))) 0)]\<rparr>))"

text \<open>
  \<^verbatim>\<open>Release\<close> gives up one use; the last one puts the node back. A release too many takes the count
  below zero and breaks into the debugger: the break is recorded, and the model goes on, so that a
  run that breaks is a run like any other.
\<close>

definition msg_Release :: "nat \<Rightarrow> 'a CLanServer_scheme \<Rightarrow> 'a CLanServer_scheme option" where
  "msg_Release n s =
     (if length (heap s) \<le> n then None
      else let use = msg_use (heap s ! n) - 1;
               s' = s\<lparr>heap := (heap s)[n := (heap s ! n)\<lparr>msg_use := use\<rparr>]\<rparr>
           in if use < 0 then Some (os DebugBreak s')
              else if use \<noteq> 0 then Some s'
              else Some (s'\<lparr>msg_free := n # msg_free s'\<rparr>))"

primrec msg_Release_all :: "nat list \<Rightarrow> 'a CLanServer_scheme \<Rightarrow> 'a CLanServer_scheme option" where
  "msg_Release_all [] s = Some s"
| "msg_Release_all (n # ns) s = Option.bind (msg_Release n s) (msg_Release_all ns)"

definition set_msg :: "nat \<Rightarrow> CMessage \<Rightarrow> 'a CLanServer_scheme \<Rightarrow> 'a CLanServer_scheme" where
  "set_msg n m s = s\<lparr>heap := (heap s)[n := m]\<rparr>"

section \<open>The life of a session\<close>

text \<open>\<^verbatim>\<open>ReleaseSession\<close> posts the release; the callers have won the exchange of 0 for the flag.\<close>

definition ReleaseSession :: "u64 \<Rightarrow> 'a CLanServer_scheme \<Rightarrow> 'a CLanServer_scheme" where
  "ReleaseSession SessionID = post (ReleasePost (slot SessionID))"

definition release_if_zero :: "nat \<Rightarrow> u64 \<Rightarrow> 'a CLanServer_scheme \<Rightarrow> 'a CLanServer_scheme" where
  "release_if_zero i SessionID s =
     (if m_ioCount (sessions_vec s ! i) = 0
      then ReleaseSession SessionID (upd_session i (m_ioCount_update (\<lambda>_. r_flag)) s)
      else s)"

definition SessionLock :: "u64 \<Rightarrow> 'a CLanServer_scheme \<Rightarrow> (bool \<times> 'a CLanServer_scheme) option" where
  "SessionLock SessionID s =
     (let i = slot SessionID in
      if length (sessions_vec s) \<le> i then None
      else let s1 = io_add i 1 s;
               Local_ioCount = m_ioCount (sessions_vec s1 ! i);
               seqID = m_SeqID (sessions_vec s1 ! i)
           in if Local_ioCount AND r_flag \<noteq> 0 then Some (False, s1)
              else if seqID \<noteq> SessionID then Some (False, release_if_zero i seqID (io_add i (-1) s1))
              else if Local_ioCount = 1 then Some (False, release_if_zero i SessionID (io_add i (-1) s1))
              else Some (True, s1))"

definition SessionUnLock :: "u64 \<Rightarrow> 'a CLanServer_scheme \<Rightarrow> 'a CLanServer_scheme option" where
  "SessionUnLock SessionID s =
     (let i = slot SessionID in
      if length (sessions_vec s) \<le> i then None
      else Some (release_if_zero i SessionID (io_add i (-1) s)))"

definition CancelIO_Routine :: "u64 \<Rightarrow> 'a CLanServer_scheme \<Rightarrow> 'a CLanServer_scheme" where
  "CancelIO_Routine SessionID s = os (CancelRecv (slot SessionID)) (os (CancelSend (slot SessionID)) s)"

definition Disconnect :: "u64 \<Rightarrow> 'a CLanServer_scheme \<Rightarrow> (bool \<times> 'a CLanServer_scheme) option" where
  "Disconnect SessionID s =
     (let i = slot SessionID in
      if length (sessions_vec s) \<le> i then None
      else let s1 = io_add i 1 s in
           if m_ioCount (sessions_vec s1 ! i) AND r_flag \<noteq> 0 then Some (False, s1)
           else if SessionID \<noteq> m_SeqID (sessions_vec s1 ! i) then Some (False, io_add i (-1) s1)
           else let retval = m_blive (sessions_vec s1 ! i);
                    s2 = upd_session i (m_blive_update (\<lambda>_. 0)) s1;
                    s3 = (if retval = 1 then s2\<lparr>iDisCounnectCount := iDisCounnectCount s2 + 1\<rparr> else s2);
                    s4 = io_add i (-1) (CancelIO_Routine SessionID s3)
                in Some (True, release_if_zero i SessionID s4))"

definition DecrementIoCountAndMaybeDeleteSession :: "nat \<Rightarrow> 'a CLanServer_scheme \<Rightarrow> 'a CLanServer_scheme" where
  "DecrementIoCountAndMaybeDeleteSession i s =
     (let s1 = io_add i (-1) s in release_if_zero i (m_SeqID (sessions_vec s1 ! i)) s1)"

text \<open>\<^verbatim>\<open>clsSession::Release\<close> and \<^verbatim>\<open>ReleaseComplete\<close>, the handler of the posted release.\<close>

definition Session_Release :: "nat \<Rightarrow> 'a CLanServer_scheme \<Rightarrow> 'a CLanServer_scheme option" where
  "Session_Release i s =
     do { s1 \<leftarrow> msg_Release_all (m_sendBuffer (sessions_vec s ! i)) (upd_session i (m_sendBuffer_update (\<lambda>_. [])) s);
          s2 \<leftarrow> msg_Release_all (m_msgs (sessions_vec s1 ! i)) (upd_session i (m_msgs_update (\<lambda>_. [])) s1);
          Some (upd_session i (m_recvBuffer_update ClearBuffer) s2) }"

definition ReleaseComplete ::
  "(u64 \<Rightarrow> 'a CLanServer_scheme \<Rightarrow> 'a CLanServer_scheme option) \<Rightarrow> nat \<Rightarrow> 'a CLanServer_scheme
   \<Rightarrow> 'a CLanServer_scheme option" where
  "ReleaseComplete OnRelease i s =
     do { s1 \<leftarrow> OnRelease (m_SeqID (sessions_vec s ! i)) s;
          s2 \<leftarrow> Session_Release i s1;
          let s3 = os (closesocket (m_sock (sessions_vec s2 ! i))) s2;
          Some (s3\<lparr>m_SessionIdxStack := slot (m_SeqID (sessions_vec s3 ! i)) # m_SessionIdxStack s3,
                   m_SessionCount := m_SessionCount s3 - 1\<rparr>) }"

section \<open>Submitting I/O\<close>

definition WSA_IO_PENDING :: nat where "WSA_IO_PENDING = 997"

text \<open>
  The error branches: a pending operation completes later; after any other error nothing was
  submitted, the session dies and the count is taken back.
\<close>

definition WSARecvError :: "nat \<Rightarrow> u64 \<Rightarrow> 'a CLanServer_scheme \<Rightarrow> 'a CLanServer_scheme" where
  "WSARecvError LastError SessionID s =
     (let i = slot SessionID in
      if LastError = WSA_IO_PENDING
      then (if m_blive (sessions_vec s ! i) = 0 then os (CancelRecv i) s else s)
      else io_add i (-1) (upd_session i (m_blive_update (\<lambda>_. 0)) s))"

definition WSASendError :: "nat \<Rightarrow> u64 \<Rightarrow> 'a CLanServer_scheme \<Rightarrow> 'a CLanServer_scheme" where
  "WSASendError LastError SessionID s =
     (let i = slot SessionID in
      if LastError = WSA_IO_PENDING
      then (if m_blive (sessions_vec s ! i) = 0 then os (CancelSend i) s else s)
      else io_add i (-1) (upd_session i (m_blive_update (\<lambda>_. 0)) s))"

text \<open>Windows queues a completion for an operation that succeeded or is pending.\<close>

definition submitted :: "wsa_result \<Rightarrow> bool" where
  "submitted r \<longleftrightarrow> (case r of WsaOk \<Rightarrow> True | WsaFail e \<Rightarrow> e = WSA_IO_PENDING)"

definition RecvPacket :: "wsa_result \<Rightarrow> nat \<Rightarrow> 'a CLanServer_scheme \<Rightarrow> 'a CLanServer_scheme" where
  "RecvPacket r i s =
     (let rb = m_recvBuffer (sessions_vec s ! i);
          freeSize = GetFreeSize_at rb (rb_front rb) (rb_rear rb)
      in if freeSize = 0
         then os (CancelSend i) (upd_session i (m_blive_update (\<lambda>_. 0)) s)
         else if m_blive (sessions_vec s ! i) \<noteq> 0
         then let s1 = os (WSARecv i (recv_wsabufs rb)) (io_add i 1 s);
                  s2 = (if submitted r then post (Recv i) s1 else s1)
              in (case r of WsaOk \<Rightarrow> s2
                  | WsaFail e \<Rightarrow> WSARecvError e (m_SeqID (sessions_vec s2 ! i)) s2)
         else s)"

definition SendComplete :: "wsa_result \<Rightarrow> nat \<Rightarrow> nat \<Rightarrow> 'a CLanServer_scheme \<Rightarrow> 'a CLanServer_scheme option" where
  "SendComplete r SendTPSidx i s =
     do { s1 \<leftarrow> msg_Release_all (m_msgs (sessions_vec s ! i)) (upd_session i (m_msgs_update (\<lambda>_. [])) s);
          if m_sendBuffer (sessions_vec s1 ! i) = []
          then Some (if m_flag (sessions_vec s1 ! i) = 1
                     then let s2 = upd_session i (m_flag_update (\<lambda>_. 0)) s1 in
                          if m_sendBuffer (sessions_vec s2 ! i) \<noteq> [] \<and> m_flag (sessions_vec s2 ! i) = 0
                          then post (Send i) (io_add i 1 (upd_session i (m_flag_update (\<lambda>_. 1)) s2))
                          else s2
                     else s1)
          else let batch = take 500 (m_sendBuffer (sessions_vec s1 ! i));
                   s2 = upd_session i (\<lambda>c. c\<lparr>m_sendBuffer := drop 500 (m_sendBuffer c), m_msgs := batch\<rparr>) s1;
                   s3 = s2\<lparr>arrTPS := (arrTPS s2)[SendTPSidx := arrTPS s2 ! SendTPSidx + int (length batch)]\<rparr>
               in if m_blive (sessions_vec s3 ! i) \<noteq> 0
                  then let s4 = os (WSASend i (map (\<lambda>n. msg_data (heap s3 ! n)) batch)) (io_add i 1 s3);
                           s5 = (if submitted r then post (Send i) s4 else s4)
                       in Some (case r of WsaOk \<Rightarrow> s5
                                | WsaFail e \<Rightarrow> WSASendError e (m_SeqID (sessions_vec s5 ! i)) s5)
                  else Some s3 }"

section \<open>Sending\<close>

text \<open>The common tail of \<^verbatim>\<open>Unicast\<close> and of one turn of \<^verbatim>\<open>BroadCast\<close>, with the session locked.\<close>

definition push_and_post :: "u64 \<Rightarrow> nat \<Rightarrow> 'a CLanServer_scheme \<Rightarrow> 'a CLanServer_scheme option" where
  "push_and_post SessionID msg s =
     (let i = slot SessionID;
          s1 = upd_session i (m_sendBuffer_update (\<lambda>q. q @ [msg])) s;
          s2 = (if m_flag (sessions_vec s1 ! i) = 0
                then post (Send i) (io_add i 1 (upd_session i (m_flag_update (\<lambda>_. 1)) s1))
                else s1)
      in do { s3 \<leftarrow> (if SendBufferLimit s2 \<le> length (m_sendBuffer (sessions_vec s2 ! i))
                     then map_option snd (Disconnect SessionID s2) else Some s2);
              SessionUnLock SessionID s3 })"

definition Unicast :: "u64 \<Rightarrow> nat \<Rightarrow> 'a CLanServer_scheme \<Rightarrow> 'a CLanServer_scheme option" where
  "Unicast SessionID msg s =
     do { (ok, s1) \<leftarrow> SessionLock SessionID s;
          if ok then push_and_post SessionID msg s1 else msg_Release msg s1 }"

primrec BroadCast_loop :: "u64 list \<Rightarrow> nat \<Rightarrow> 'a CLanServer_scheme \<Rightarrow> 'a CLanServer_scheme option" where
  "BroadCast_loop [] msg s = Some s"
| "BroadCast_loop (currentSessionID # ids) msg s =
     do { (ok, s1) \<leftarrow> SessionLock currentSessionID s;
          s2 \<leftarrow> (if ok then push_and_post currentSessionID msg s1 else msg_Release msg s1);
          BroadCast_loop ids msg s2 }"

definition BroadCast :: "u64 \<Rightarrow> nat \<Rightarrow> u64 list \<Rightarrow> 'a CLanServer_scheme \<Rightarrow> 'a CLanServer_scheme option" where
  "BroadCast SessionID msg pIDVector s =
     BroadCast_loop pIDVector msg (set_msg msg ((heap s ! msg)\<lparr>msg_use := int (length pIDVector)\<rparr>) s)"

text \<open>\<open>SendType\<close> 0 is one receiver, 1 the receivers of the vector; any other value sends nothing.\<close>

definition SendPacket :: "u64 \<Rightarrow> nat \<Rightarrow> u8 \<Rightarrow> u64 list \<Rightarrow> 'a CLanServer_scheme \<Rightarrow> 'a CLanServer_scheme option" where
  "SendPacket SessionID msg SendType pIDVector s =
     (if SendType = 0 then Unicast SessionID msg s
      else if SendType = 1 then BroadCast SessionID msg pIDVector s
      else Some s)"

section \<open>Receiving\<close>

text \<open>
  \<^verbatim>\<open>CreateMessage\<close>: the frame is dequeued to \<^verbatim>\<open>_frontPtr\<close> of a fresh message. A frame that does
  not fit its array is a crash. The result is \<open>None\<close> (\<^verbatim>\<open>nullptr\<close>) when \<^verbatim>\<open>Dequeue\<close> delivers
  another number of bytes.
\<close>

definition header_sDataLen :: "u8 list \<Rightarrow> nat" where
  "header_sDataLen hdr = unat (bytes_word (take 2 (drop off_sDataLen hdr)) :: u16)"

definition CreateMessage :: "nat \<Rightarrow> u8 list \<Rightarrow> 'a CLanServer_scheme \<Rightarrow> (nat option \<times> 'a CLanServer_scheme) option" where
  "CreateMessage i hdr s =
     (let (n, s1) = msg_Alloc s;
          want = header_sDataLen hdr + headerSize s1
      in do { (deQsize, bs, rb) \<leftarrow> Dequeue (m_recvBuffer (sessions_vec s1 ! i)) want;
              let m = heap s1 ! n;
              mem \<leftarrow> mem_write (msg_mem m) (msg_front m) bs;
              let s2 = set_msg n (m\<lparr>msg_mem := mem, msg_rear := nat (int (msg_front m) + deQsize)\<rparr>)
                         (upd_session i (m_recvBuffer_update (\<lambda>_. rb)) s1);
              Some (if int want \<noteq> deQsize then None else Some n, s2) })"

text \<open>
  The loop of \<^verbatim>\<open>RecvComplete\<close>. \<open>hdr\<close> is the local \<^verbatim>\<open>stHeader\<close>, of which \<^verbatim>\<open>Peek\<close> fills the first
  \<open>headerSize\<close> bytes. The result says whether the loop ended normally, that is, whether the
  function goes on to \<^verbatim>\<open>RecvPacket\<close>.
\<close>

definition load_header :: "nat \<Rightarrow> u8 list \<Rightarrow> u8 list \<Rightarrow> u8 list" where
  "load_header h hdr bs = bs @ drop h hdr"

function RecvComplete_loop ::
  "(u64 \<Rightarrow> nat \<Rightarrow> 'a CLanServer_scheme \<Rightarrow> 'a CLanServer_scheme option) \<Rightarrow> nat \<Rightarrow> u64 \<Rightarrow> nat \<Rightarrow> u8 list
   \<Rightarrow> 'a CLanServer_scheme \<Rightarrow> (bool \<times> 'a CLanServer_scheme) option" where
  "RecvComplete_loop OnRecv i SessionID msgCount hdr s =
     do { (got, bs) \<leftarrow> Peek (m_recvBuffer (sessions_vec s ! i)) (headerSize s);
          if got \<noteq> int (headerSize s) then Some (True, s)
          else if msgCount + 1 \<ge> 150
          then do { (_, s1) \<leftarrow> Disconnect (m_SeqID (sessions_vec s ! i)) s; Some (False, s1) }
          else
            let hdr = load_header (headerSize s) hdr bs in
            if int (header_sDataLen hdr) \<ge> max_MsgLen s
            then do { (_, s1) \<leftarrow> Disconnect (m_SeqID (sessions_vec s ! i)) s; Some (False, s1) }
            else if GetUseSize (m_recvBuffer (sessions_vec s ! i)) < int (header_sDataLen hdr + headerSize s)
            then Some (True, s)
            else do { (created, s1) \<leftarrow> CreateMessage i hdr s;
                      case created of
                        None \<Rightarrow> do { (_, s2) \<leftarrow> Disconnect (m_SeqID (sessions_vec s1 ! i)) s1; Some (False, s2) }
                      | Some n \<Rightarrow>
                          do { (chk, m) \<leftarrow> (if bEnCording s1
                                           then (case DeCoding (heap s1 ! n) of Inl e \<Rightarrow> None | Inr p \<Rightarrow> Some p)
                                           else Some (True, heap s1 ! n));
                               let s2 = set_msg n m s1;
                               if \<not> chk
                               then do { s3 \<leftarrow> msg_Release n
                                               (os (CancelSend i) (upd_session i (m_blive_update (\<lambda>_. 0)) s2));
                                         Some (False, s3) }
                               else do { s3 \<leftarrow> OnRecv SessionID n
                                               (set_msg n (m\<lparr>msg_owner := SessionID,
                                                             msg_front := msg_front m + headerSize s2\<rparr>) s2);
                                         RecvComplete_loop OnRecv i SessionID (msgCount + 1) hdr
                                           (s3\<lparr>m_RecvTPS := m_RecvTPS s3 + 1\<rparr>) } } } }"
  by pat_completeness auto

termination
  by (relation "measure (\<lambda>(_, _, _, msgCount, _, _). 150 - msgCount)") auto

declare RecvComplete_loop.simps [simp del]

definition RecvComplete ::
  "(u64 \<Rightarrow> nat \<Rightarrow> 'a CLanServer_scheme \<Rightarrow> 'a CLanServer_scheme option) \<Rightarrow> u8 list \<Rightarrow> wsa_result \<Rightarrow> nat \<Rightarrow> nat
   \<Rightarrow> 'a CLanServer_scheme \<Rightarrow> 'a CLanServer_scheme option" where
  "RecvComplete OnRecv hdr r i transferred s =
     (let s1 = upd_session i (m_recvBuffer_update (\<lambda>rb. MoveRear rb transferred)) s;
          SessionID = m_SeqID (sessions_vec s1 ! i)
      in do { (go_on, s2) \<leftarrow> RecvComplete_loop OnRecv i SessionID 0 hdr s1;
              Some (if go_on then RecvPacket r i s2 else s2) })"

section \<open>The threads\<close>

text \<open>
  One turn of \<^verbatim>\<open>WorkerThread\<close> for the completion \<open>c\<close>. \<open>data\<close> are the bytes the kernel put into
  the offered buffers of a receive, none for a closed connection. A posted release skips the
  decrement of the I/O count.
\<close>

definition kernel_stores :: "nat \<Rightarrow> u8 list \<Rightarrow> 'a CLanServer_scheme \<Rightarrow> 'a CLanServer_scheme option" where
  "kernel_stores i data s =
     map_option (\<lambda>mem. upd_session i (m_recvBuffer_update (rb_mem_update (\<lambda>_. mem))) s)
       (scatter (rb_mem (m_recvBuffer (sessions_vec s ! i))) (recv_wsabufs (m_recvBuffer (sessions_vec s ! i))) data)"

definition WorkerThread_step ::
  "(u64 \<Rightarrow> nat \<Rightarrow> 'a CLanServer_scheme \<Rightarrow> 'a CLanServer_scheme option) \<Rightarrow>
   (u64 \<Rightarrow> 'a CLanServer_scheme \<Rightarrow> 'a CLanServer_scheme option) \<Rightarrow>
   nat \<Rightarrow> u8 list \<Rightarrow> wsa_result \<Rightarrow> completion \<Rightarrow> u8 list \<Rightarrow> 'a CLanServer_scheme \<Rightarrow> 'a CLanServer_scheme option" where
  "WorkerThread_step OnRecv OnRelease SendTPSidx hdr r c data s =
     (let s0 = s\<lparr>iocp := remove1 c (iocp s)\<rparr> in
      case c of
        Recv i \<Rightarrow>
          do { s1 \<leftarrow> kernel_stores i data s0;
               let s2 = (if data = [] then upd_session i (m_blive_update (\<lambda>_. 0)) s1 else s1);
               s3 \<leftarrow> RecvComplete OnRecv hdr r i (length data) s2;
               Some (DecrementIoCountAndMaybeDeleteSession i s3) }
      | Send i \<Rightarrow>
          do { s1 \<leftarrow> SendComplete r SendTPSidx i s0;
               Some (DecrementIoCountAndMaybeDeleteSession i s1) }
      | ReleasePost i \<Rightarrow> ReleaseComplete OnRelease i s0)"

text \<open>
  One turn of \<^verbatim>\<open>AcceptThread\<close> for the connection \<open>client_sock\<close> from \<open>addr\<close>; \<open>attached\<close> is whether
  \<^verbatim>\<open>CreateIoCompletionPort\<close> succeeded.
\<close>

definition AcceptThread_step ::
  "(u64 \<Rightarrow> 'b \<Rightarrow> 'a CLanServer_scheme \<Rightarrow> (bool \<times> 'a CLanServer_scheme) option) \<Rightarrow> wsa_result \<Rightarrow> bool \<Rightarrow> nat \<Rightarrow> 'b
   \<Rightarrow> 'a CLanServer_scheme \<Rightarrow> 'a CLanServer_scheme option" where
  "AcceptThread_step OnAccept r attached client_sock addr s =
     (let s0 = s\<lparr>arrTPS := (arrTPS s)[0 := arrTPS s ! 0 + 1], m_TotalAccept := m_TotalAccept s + 1\<rparr> in
      case m_SessionIdxStack s0 of
        [] \<Rightarrow> Some ((os (closesocket client_sock) s0)\<lparr>iDisCounnectCount := iDisCounnectCount s0 + 1\<rparr>)
      | idx # rest \<Rightarrow>
          if length (sessions_vec s0) \<le> idx then None
          else
          let SeqID = push_bit 47 (of_nat idx) + next_session_id s0;
              s1 = (upd_session idx (\<lambda>c. c\<lparr>m_sock := client_sock, m_blive := 1, m_flag := 0,
                                             m_SeqID := SeqID, m_ioCount := 1\<rparr>) s0)
                     \<lparr>m_SessionIdxStack := rest, next_session_id := next_session_id s0 + 1,
                      m_SessionCount := m_SessionCount s0 + 1\<rparr>
          in if \<not> attached then Some (os (closesocket client_sock) s1)
             else do { (ok, s2) \<leftarrow> OnAccept (m_SeqID (sessions_vec s1 ! idx)) addr s1;
                       if ok then Some (DecrementIoCountAndMaybeDeleteSession idx (RecvPacket r idx s2))
                       else Some (DecrementIoCountAndMaybeDeleteSession idx s2) })"

section \<open>Start and stop\<close>

definition new_clsSession :: "u8 list \<Rightarrow> clsSession" where
  "new_clsSession junk =
     \<lparr>m_sock = 0, m_msgs = [], m_sendBuffer = [], m_recvBuffer = new_CRingBuffer junk,
      m_SeqID = 0, m_ioCount = 0, m_blive = 0, m_flag = 0\<rparr>"

definition new_CLanServer :: "bool \<Rightarrow> nat \<Rightarrow> int \<Rightarrow> CLanServer" where
  "new_CLanServer enc sendLimit maxLen =
     \<lparr>sessions_vec = [], m_SessionIdxStack = [], m_SessionCount = 0, iDisCounnectCount = 0,
      m_TotalAccept = 0, next_session_id = 0, m_RecvTPS = 0, arrTPS = [], bEnCording = enc,
      headerSize = (if enc then sizeof_stHeader else off_sDataLen), SendBufferLimit = sendLimit,
      max_MsgLen = maxLen, heap = [], msg_free = [], iocp = [], os_log = []\<rparr>"

definition Start :: "u8 list \<Rightarrow> nat \<Rightarrow> nat \<Rightarrow> 'a CLanServer_scheme \<Rightarrow> 'a CLanServer_scheme" where
  "Start junk WorkerCreateCnt MaxSessions s =
     s\<lparr>sessions_vec := replicate MaxSessions (new_clsSession junk),
       m_SessionIdxStack := rev [0..<MaxSessions] @ m_SessionIdxStack s,
       arrTPS := replicate (WorkerCreateCnt + 1) 0\<rparr>"

text \<open>The part of \<^verbatim>\<open>Stop\<close> before it waits: the listening socket is closed and every session cut.\<close>

primrec Disconnect_from :: "nat list \<Rightarrow> 'a CLanServer_scheme \<Rightarrow> 'a CLanServer_scheme option" where
  "Disconnect_from [] s = Some s"
| "Disconnect_from (i # is) s =
     do { (_, s1) \<leftarrow> Disconnect (m_SeqID (sessions_vec s ! i)) s; Disconnect_from is s1 }"

definition Stop :: "nat \<Rightarrow> 'a CLanServer_scheme \<Rightarrow> 'a CLanServer_scheme option" where
  "Stop listen_sock s = Disconnect_from [0..<length (sessions_vec s)] (os (closesocket listen_sock) s)"

definition SignalOnForStop :: "'a CLanServer_scheme \<Rightarrow> 'a CLanServer_scheme" where
  "SignalOnForStop = os SetStopEvent"

text \<open>The counters of the monitor: what was added since the last call, and the new reference value.\<close>

definition to_int32 :: "int \<Rightarrow> int" where
  "to_int32 x = sint (word_of_int x :: 32 word)"

definition getAcceptTPS :: "u64 \<Rightarrow> 'a CLanServer_scheme \<Rightarrow> int \<times> u64" where
  "getAcceptTPS old_AcceptTps s = (to_int32 (uint (m_TotalAccept s - old_AcceptTps)), m_TotalAccept s)"

definition getRecvMessageTPS :: "int \<Rightarrow> 'a CLanServer_scheme \<Rightarrow> int \<times> int" where
  "getRecvMessageTPS old_RecvTps s = (to_int32 (m_RecvTPS s - old_RecvTps), m_RecvTPS s)"

definition getSendMessageTPS :: "int list \<Rightarrow> 'a CLanServer_scheme \<Rightarrow> int \<times> int list" where
  "getSendMessageTPS before_arrTPS s = (to_int32 (sum_list (map2 (-) (arrTPS s) before_arrTPS)), arrTPS s)"

text \<open>The slot in an identifier, and of a new identifier.\<close>

lemma slot_unat: "slot sid = unat sid div 2 ^ 47"
  unfolding slot_def unat_drop_bit_eq by (rule drop_bit_eq_div)

lemma slot_SeqID:
  assumes "idx < 2 ^ 17" and c: "unat c < 2 ^ 47"
  shows "slot (push_bit 47 (of_nat idx) + c) = idx"
proof -
  have i: "unat (of_nat idx :: u64) = idx" using assms(1) by (simp add: unat_of_nat)
  have "idx * 2 ^ 47 < 2 ^ 64" using assms(1) by simp
  then have p: "unat (push_bit 47 (of_nat idx) :: u64) = idx * 2 ^ 47"
    by (simp add: push_bit_eq_mult unat_word_ariths i)
  have "idx * 2 ^ 47 + unat c < 2 ^ 64" using assms(1) c by simp
  then have "unat (push_bit 47 (of_nat idx) + c) = idx * 2 ^ 47 + unat c"
    by (simp add: unat_word_ariths p)
  then show ?thesis using c by (simp add: slot_unat)
qed

end
