(* ===== verification/NetworkRecv.thy ===== *)
theory NetworkRecv
  imports Network Framing
begin

text \<open>
  The receive path: \<^verbatim>\<open>RecvComplete\<close> implements the framing of \<open>Framing\<close> and hands every message to
  \<^verbatim>\<open>OnRecv\<close> in order. What it needs from \<^verbatim>\<open>OnRecv\<close> is the locale \<open>recv_client\<close>.
\<close>

section \<open>The pool\<close>

definition pool_ok :: "'a CLanServer_scheme \<Rightarrow> bool" where
  "pool_ok s \<longleftrightarrow> distinct (msg_free s) \<and> (\<forall>n \<in> set (msg_free s). n < length (heap s)) \<and>
     (\<forall>m \<in> set (heap s). msg_ok m \<and> msg_K m = 0x32)"

lemma pool_ok_nth: "pool_ok s \<Longrightarrow> n < length (heap s) \<Longrightarrow> msg_ok (heap s ! n) \<and> msg_K (heap s ! n) = 0x32"
  by (simp add: pool_ok_def)

lemma InitMessage_K [simp]: "msg_K (InitMessage m) = msg_K m"
  by (simp add: InitMessage_def)

lemma node_addr_large: "MaxSize \<le> node_addr i"
  by (simp add: node_addr_def MaxSize_def)

text \<open>Allocation, whether it takes a free node or makes one.\<close>

lemma msg_Alloc_spec:
  assumes "pool_ok s" "msg_Alloc s = (n, s')"
  shows "pool_ok s'" "n < length (heap s')" "n \<notin> set (msg_free s')"
    "\<exists>m. heap s' ! n = InitMessage m \<and> msg_ok m \<and> msg_K m = 0x32"
    "\<And>k. k < length (heap s) \<Longrightarrow> k \<notin> set (msg_free s) \<Longrightarrow> k \<noteq> n \<and> heap s' ! k = heap s ! k"
    "set (msg_free s') \<subseteq> set (msg_free s)" "length (heap s) \<le> length (heap s')"
    "n \<in> set (msg_free s) \<or> n = length (heap s)"
    "\<exists>h f. s' = s\<lparr>heap := h, msg_free := f\<rparr>"
proof -
  have new: "msg_ok (new_CMessage (node_addr i) 0)" "msg_K (new_CMessage (node_addr i) 0) = 0x32" for i
    using new_CMessage_ok [OF node_addr_large] by (simp_all add: new_CMessage_def)
  note defs = msg_Alloc_def pool_ok_def
  show "pool_ok s'" using assms new
    by (auto simp: defs InitMessage_ok nth_list_update split: list.splits
        dest!: subsetD [OF set_update_subset_insert])
  show "n < length (heap s')" "n \<notin> set (msg_free s')" using assms
    by (auto simp: defs split: list.splits)
  show "\<exists>m. heap s' ! n = InitMessage m \<and> msg_ok m \<and> msg_K m = 0x32"
  proof (cases "msg_free s")
    case Nil
    with assms new show ?thesis by (auto simp: msg_Alloc_def nth_append)
  next
    case (Cons k fr)
    with assms show ?thesis by (auto simp: msg_Alloc_def pool_ok_def intro!: exI [of _ "heap s ! k"])
  qed
  show "k \<noteq> n \<and> heap s' ! k = heap s ! k" if "k < length (heap s)" "k \<notin> set (msg_free s)" for k
    using assms that by (auto simp: defs nth_append split: list.splits)
  show "set (msg_free s') \<subseteq> set (msg_free s)" "length (heap s) \<le> length (heap s')"
    "n \<in> set (msg_free s) \<or> n = length (heap s)"
    using assms by (auto simp: defs split: list.splits)
  show "\<exists>h f. s' = s\<lparr>heap := h, msg_free := f\<rparr>"
  proof (cases "msg_free s")
    case Nil
    with assms have "s' = s\<lparr>heap := heap s', msg_free := []\<rparr>" by (auto simp: msg_Alloc_def)
    then show ?thesis by blast
  next
    case (Cons k fr)
    with assms have "s' = s\<lparr>heap := heap s', msg_free := fr\<rparr>" by (auto simp: msg_Alloc_def)
    then show ?thesis by blast
  qed
qed

lemma set_msg_pool_ok: "pool_ok s \<Longrightarrow> msg_ok m \<Longrightarrow> msg_K m = 0x32 \<Longrightarrow> pool_ok (set_msg n m s)"
  by (auto simp: pool_ok_def set_msg_def dest!: subsetD [OF set_update_subset_insert])

section \<open>One frame\<close>

definition recv_ring :: "nat \<Rightarrow> 'a CLanServer_scheme \<Rightarrow> CRingBuffer" where
  "recv_ring i s = m_recvBuffer (sessions_vec s ! i)"

text \<open>
  A session that can receive: its buffer is well formed and smaller than a message, the server is
  in encoding mode, the session is alive and its I/O count is that of a session in use.
\<close>

definition recv_ready :: "nat \<Rightarrow> 'a CLanServer_scheme \<Rightarrow> bool" where
  "recv_ready i s \<longleftrightarrow> i < length (sessions_vec s) \<and> ring_wf (recv_ring i s) \<and> ring_cap (recv_ring i s) \<le> MaxSize \<and>
     pool_ok s \<and> bEnCording s \<and> headerSize s = sizeof_stHeader \<and>
     slot (m_SeqID (sessions_vec s ! i)) = i \<and> 0 < unat (m_ioCount (sessions_vec s ! i)) \<and>
     unat (m_ioCount (sessions_vec s ! i)) < 2 ^ 46"

lemma CreateMessage_frame:
  assumes rdy: "recv_ready i s" and hd: "header_sDataLen hdr + sizeof_stHeader = w"
    and w: "w \<le> length (ring_list (recv_ring i s))"
  shows "\<exists>n m rb s1 s2. CreateMessage i hdr s = Some (Some n, s2) \<and> msg_Alloc s = (n, s1) \<and>
     s2 = set_msg n m (upd_session i (m_recvBuffer_update (\<lambda>_. rb)) s1) \<and>
     ring_wf rb \<and> ring_list rb = drop w (ring_list (recv_ring i s)) \<and> ring_cap rb = ring_cap (recv_ring i s) \<and>
     msg_ok m \<and> msg_K m = 0x32 \<and> msg_front m = 0 \<and> msg_rear m = w \<and> msg_size m = bufferSize \<and>
     msg_frame m = take w (ring_list (recv_ring i s)) \<and> msg_use m = 1"
proof -
  obtain n s1 where al: "msg_Alloc s = (n, s1)" by (cases "msg_Alloc s")
  have po: "pool_ok s" and wf: "ring_wf (recv_ring i s)" and cap: "ring_cap (recv_ring i s) \<le> MaxSize"
    and hs: "headerSize s = sizeof_stHeader" using rdy by (simp_all add: recv_ready_def)
  obtain h f where s1: "s1 = s\<lparr>heap := h, msg_free := f\<rparr>" using msg_Alloc_spec(9) [OF po al] by blast
  obtain m0 where m0: "heap s1 ! n = InitMessage m0" "msg_ok m0" "msg_K m0 = 0x32"
    using msg_Alloc_spec(4) [OF po al] by blast
  obtain rb where rb: "Dequeue (recv_ring i s) w = Some (int w, take w (ring_list (recv_ring i s)), rb)"
      "ring_wf rb" "ring_list rb = drop w (ring_list (recv_ring i s))" "ring_cap rb = ring_cap (recv_ring i s)"
    using ring.deq_ok [OF wf w] by blast
  have wM: "w \<le> MaxSize" using w cap ring_list_le_cap [OF wf] by simp
  let ?bs = "take w (ring_list (recv_ring i s))"
  have lbs: "length ?bs = w" using w by simp
  have memlen: "length (msg_mem m0) = MaxSize" using m0(2) by (simp add: msg_ok_def)
  let ?mem = "?bs @ drop w (msg_mem m0)"
  have wr: "mem_write (msg_mem (InitMessage m0)) (msg_front (InitMessage m0)) ?bs = Some ?mem"
    using lbs memlen wM by (simp add: InitMessage_def mem_write_def)
  let ?m = "(InitMessage m0)\<lparr>msg_mem := ?mem, msg_rear := w\<rparr>"
  have mok: "msg_ok ?m" using m0(2) InitMessage_ok [OF m0(2)] lbs memlen wM
    by (simp add: msg_ok_def InitMessage_def)
  have props: "msg_K ?m = 0x32" "msg_front ?m = 0" "msg_rear ?m = w" "msg_size ?m = bufferSize" "msg_use ?m = 1"
    "msg_frame ?m = ?bs"
    using m0(3) lbs by (simp_all add: InitMessage_def msg_frame_def)
  have ring1: "m_recvBuffer (sessions_vec s1 ! i) = recv_ring i s" by (simp add: s1 recv_ring_def)
  have hs1: "headerSize s1 = sizeof_stHeader" by (simp add: s1 hs)
  have "CreateMessage i hdr s = Some (Some n, set_msg n ?m (upd_session i (m_recvBuffer_update (\<lambda>_. rb)) s1))"
    unfolding CreateMessage_def al prod.case Let_def ring1 hs1 hd rb(1) m0(1)
    using wr by (simp add: InitMessage_def)
  then show ?thesis using al rb mok props by blast
qed

section \<open>What the extension sees\<close>

lemma more_upd_session [simp]: "CLanServer.more (upd_session i f s) = CLanServer.more s"
  and more_set_msg [simp]: "CLanServer.more (set_msg n m s) = CLanServer.more s"
  and more_os [simp]: "CLanServer.more (os c s) = CLanServer.more s"
  and more_post [simp]: "CLanServer.more (post e s) = CLanServer.more s"
  and more_io_add [simp]: "CLanServer.more (io_add i d s) = CLanServer.more s"
  by (simp_all add: upd_session_def set_msg_def os_def post_def io_add_def)

lemma more_release_if_zero [simp]: "CLanServer.more (release_if_zero i sid s) = CLanServer.more s"
  by (simp add: release_if_zero_def ReleaseSession_def)

text \<open>Sending, locking and allocating leave the extension alone.\<close>

lemma more_msg_Release: "msg_Release n s = Some s' \<Longrightarrow> CLanServer.more s' = CLanServer.more s"
  by (auto simp: msg_Release_def Let_def split: if_splits)

lemma more_Disconnect: "Disconnect sid s = Some (b, s') \<Longrightarrow> CLanServer.more s' = CLanServer.more s"
  by (auto simp: Disconnect_def Let_def CancelIO_Routine_def split: if_splits)

lemma more_SessionLock: "SessionLock sid s = Some (b, s') \<Longrightarrow> CLanServer.more s' = CLanServer.more s"
  by (auto simp: SessionLock_def Let_def split: if_splits)

lemma more_SessionUnLock: "SessionUnLock sid s = Some s' \<Longrightarrow> CLanServer.more s' = CLanServer.more s"
  by (auto simp: SessionUnLock_def Let_def split: if_splits)

lemma more_push_and_post: "push_and_post sid n s = Some s' \<Longrightarrow> CLanServer.more s' = CLanServer.more s"
  by (auto simp: push_and_post_def Let_def bind_eq_Some_conv dest!: more_Disconnect more_SessionUnLock split: if_splits)

lemma more_BroadCast_loop: "BroadCast_loop ids n s = Some s' \<Longrightarrow> CLanServer.more s' = CLanServer.more s"
proof (induction ids arbitrary: s)
  case Nil
  then show ?case by simp
next
  case (Cons i ids)
  then show ?case
    by (auto simp: bind_eq_Some_conv split: if_splits
        dest!: more_SessionLock more_push_and_post more_msg_Release Cons.IH)
qed

lemma more_SendPacket: "SendPacket sid n ty ids s = Some s' \<Longrightarrow> CLanServer.more s' = CLanServer.more s"
  by (auto simp: SendPacket_def Unicast_def BroadCast_def bind_eq_Some_conv split: if_splits
      dest!: more_SessionLock more_push_and_post more_msg_Release more_BroadCast_loop)

lemma more_msg_Alloc: "msg_Alloc s = (n, s') \<Longrightarrow> CLanServer.more s' = CLanServer.more s"
  by (auto simp: msg_Alloc_def split: list.splits)

text \<open>The ways a turn of the receive loop can go.\<close>

lemma RecvComplete_loop_turn:
  assumes "RecvComplete_loop OnRecv i sid cnt hdr s = Some (b, s')"
  obtains (wait) "s' = s"
    | (cut) x c where "Disconnect x s = Some (c, s')"
    | (short) h s1 x c where "CreateMessage i h s = Some (None, s1)" "Disconnect x s1 = Some (c, s')"
    | (bad) h n s1 m where "CreateMessage i h s = Some (Some n, s1)"
        "m = heap s1 ! n \<or> DeCoding (heap s1 ! n) = Inr (False, m)"
        "msg_Release n (os (CancelSend i) (upd_session i (m_blive_update (\<lambda>_. 0)) (set_msg n m s1))) = Some s'"
    | (deliver) h n s1 m s3 where "CreateMessage i h s = Some (Some n, s1)"
        "m = heap s1 ! n \<or> DeCoding (heap s1 ! n) = Inr (True, m)"
        "OnRecv sid n (set_msg n (m\<lparr>msg_owner := sid, msg_front := msg_front m + headerSize (set_msg n m s1)\<rparr>)
           (set_msg n m s1)) = Some s3"
        "RecvComplete_loop OnRecv i sid (cnt + 1) h (s3\<lparr>m_RecvTPS := m_RecvTPS s3 + 1\<rparr>) = Some (b, s')" "cnt + 1 < 150"
proof -
  let ?rb = "m_recvBuffer (sessions_vec s ! i)"
  obtain got bs where pk: "Peek ?rb (headerSize s) = Some (got, bs)"
    using assms by (subst (asm) RecvComplete_loop.simps) (auto simp: bind_eq_Some_conv)
  let ?h = "load_header (headerSize s) hdr bs"
  note eq = assms [unfolded RecvComplete_loop.simps [of OnRecv i sid cnt hdr s] pk Option.bind.simps prod.case Let_def]
  show ?thesis
  proof (cases "got \<noteq> int (headerSize s) \<or> cnt + 1 \<ge> 150 \<or> int (header_sDataLen ?h) \<ge> max_MsgLen s \<or>
      GetUseSize ?rb < int (header_sDataLen ?h + headerSize s)")
    case True
    with eq have "s' = s \<or> (\<exists>x c. Disconnect x s = Some (c, s'))"
      by (auto simp: bind_eq_Some_conv split: if_splits)
    then show ?thesis using wait cut by blast
  next
    case go: False
    then obtain created s1 where c: "CreateMessage i ?h s = Some (created, s1)"
      using eq by (auto simp: bind_eq_Some_conv)
    show ?thesis
    proof (cases created)
      case None
      with eq go c have "\<exists>x c. Disconnect x s1 = Some (c, s')" by (auto simp: bind_eq_Some_conv split: if_splits)
      then show ?thesis using short c None by blast
    next
      case (Some n)
      then obtain chk m where d: "(if bEnCording s1 then (case DeCoding (heap s1 ! n) of Inl e \<Rightarrow> None | Inr p \<Rightarrow> Some p)
          else Some (True, heap s1 ! n)) = Some (chk, m)"
        using eq go c by (auto simp: bind_eq_Some_conv)
      have m: "m = heap s1 ! n \<or> DeCoding (heap s1 ! n) = Inr (chk, m)" using d by (auto split: if_splits sum.splits)
      show ?thesis
      proof (cases chk)
        case False
        then show ?thesis using bad [of ?h n s1 m] eq go c Some d m by (auto simp: bind_eq_Some_conv)
      next
        case True
        then obtain s3 where "OnRecv sid n (set_msg n (m\<lparr>msg_owner := sid, msg_front := msg_front m + headerSize (set_msg n m s1)\<rparr>)
             (set_msg n m s1)) = Some s3"
            "RecvComplete_loop OnRecv i sid (cnt + 1) ?h (s3\<lparr>m_RecvTPS := m_RecvTPS s3 + 1\<rparr>) = Some (b, s')"
          using eq go c Some d by (auto simp: bind_eq_Some_conv)
        then show ?thesis using deliver c Some m True go by simp
      qed
    qed
  qed
qed

text \<open>
  The contract of \<^verbatim>\<open>OnRecv\<close>: it always accepts, leaves the network part alone and appends the
  message to what was received on that session.
\<close>

locale recv_client =
  fixes OnRecv :: "u64 \<Rightarrow> nat \<Rightarrow> 'a CLanServer_scheme \<Rightarrow> 'a CLanServer_scheme option"
    and inbox :: "u64 \<Rightarrow> 'a CLanServer_scheme \<Rightarrow> nat list"
    and client_ok :: "'a CLanServer_scheme \<Rightarrow> bool"
  assumes delivers: "client_ok s \<Longrightarrow>
      \<exists>x. OnRecv sid n s = Some (CLanServer.more_update (\<lambda>_. x) s) \<and>
          client_ok (CLanServer.more_update (\<lambda>_. x) s) \<and>
          inbox sid (CLanServer.more_update (\<lambda>_. x) s) = inbox sid s @ [n]"
    and inbox_ext: "CLanServer.more s = CLanServer.more s' \<Longrightarrow> inbox sid s = inbox sid s'"
    and client_ok_ext: "CLanServer.more s = CLanServer.more s' \<Longrightarrow> client_ok s = client_ok s'"

section \<open>Cutting a session\<close>

lemma r_flag_unat: "unat r_flag = 2 ^ 47"
  by (simp add: r_flag_def push_bit_eq_mult)

lemma AND_r_flag: "c AND r_flag = 0 \<longleftrightarrow> even (unat (c :: u64) div 2 ^ 47)"
proof -
  have "r_flag = 2 ^ 47" by (simp add: r_flag_def push_bit_eq_mult)
  have "c AND r_flag = 0 \<longleftrightarrow> \<not> bit c 47" unfolding \<open>r_flag = 2 ^ 47\<close> by (rule and_exp_eq_0_iff_not_bit)
  also have "bit c 47 \<longleftrightarrow> bit (unat c) 47" by (simp add: bit_unsigned_iff)
  finally show ?thesis by (simp add: bit_iff_odd)
qed

lemma AND_r_flag_small: "unat (c :: u64) < 2 ^ 47 \<Longrightarrow> c AND r_flag = 0"
  by (simp add: AND_r_flag)

lemma unat_plus_one: "unat (c :: u64) < 2 ^ 47 \<Longrightarrow> unat (c + 1) = unat c + 1"
  by (subst unat_word_ariths) simp

lemma upd_session_nth [simp]:
  "i < length (sessions_vec s) \<Longrightarrow> sessions_vec (upd_session i f s) ! i = f (sessions_vec s ! i)"
  by (simp add: upd_session_def)

lemma upd_session_length [simp]: "length (sessions_vec (upd_session i f s)) = length (sessions_vec s)"
  by (simp add: upd_session_def)

lemma ioCount_update_id [simp]:
  "m_ioCount_update ((\<lambda>c. c - 1) \<circ> (\<lambda>c. c + 1)) r = r" "m_ioCount_update (\<lambda>c. c) r = r"
  by (cases r, simp add: comp_def)+

text \<open>
  Disconnecting a session in use clears its life flag, whatever the caller holds of its count, and
  does not release it, since the caller's operation keeps the count positive.
\<close>

lemma Disconnect_in_use:
  assumes i: "i < length (sessions_vec s)" "slot sid = i" "m_SeqID (sessions_vec s ! i) = sid"
    and c: "0 < unat (m_ioCount (sessions_vec s ! i))" "unat (m_ioCount (sessions_vec s ! i)) < 2 ^ 46"
  shows "\<exists>s'. Disconnect sid s = Some (True, s') \<and> m_blive (sessions_vec s' ! i) = 0 \<and>
    sessions_vec s' = (sessions_vec s)[i := (sessions_vec s ! i)\<lparr>m_blive := 0\<rparr>] \<and>
    heap s' = heap s \<and> msg_free s' = msg_free s \<and> CLanServer.more s' = CLanServer.more s \<and> iocp s' = iocp s \<and>
    max_MsgLen s' = max_MsgLen s"
proof -
  let ?c = "m_ioCount (sessions_vec s ! i)"
  have f: "(?c + 1) AND r_flag = 0" using c by (intro AND_r_flag_small) (simp add: unat_plus_one)
  have nz: "?c \<noteq> 0" using c(1) by auto
  show ?thesis using i f nz
    by (simp add: Disconnect_def Let_def io_add_def release_if_zero_def CancelIO_Routine_def)
      (simp add: upd_session_def os_def)
qed

section \<open>The loop\<close>

text \<open>
  What a call of the loop leaves behind: the messages \<open>ns\<close> it delivered have the payloads \<open>ps\<close> and
  were taken from the pool, every message in use before is as it was, and of the sessions only
  session \<open>i\<close> changed.
\<close>

definition loop_frame :: "nat \<Rightarrow> 'a CLanServer_scheme \<Rightarrow> nat list \<Rightarrow> u8 list list \<Rightarrow> 'a CLanServer_scheme \<Rightarrow> bool" where
  "loop_frame i s ns ps s' \<longleftrightarrow>
     map (\<lambda>n. msg_data (heap s' ! n)) ns = ps \<and> distinct ns \<and>
     (\<forall>n \<in> set ns. n < length (heap s') \<and> n \<notin> set (msg_free s') \<and> msg_owner (heap s' ! n) = m_SeqID (sessions_vec s ! i) \<and>
                   (n \<in> set (msg_free s) \<or> length (heap s) \<le> n)) \<and>
     (\<forall>k < length (heap s). k \<notin> set (msg_free s) \<longrightarrow> k \<notin> set (msg_free s') \<and> heap s' ! k = heap s ! k) \<and>
     length (heap s) \<le> length (heap s') \<and> pool_ok s' \<and>
     length (sessions_vec s') = length (sessions_vec s) \<and> max_MsgLen s' = max_MsgLen s \<and> iocp s' = iocp s \<and>
     (\<forall>j < length (sessions_vec s). j \<noteq> i \<longrightarrow> sessions_vec s' ! j = sessions_vec s ! j)"

lemma loop_frame_refl: "pool_ok s \<Longrightarrow> loop_frame i s [] [] s"
  by (simp add: loop_frame_def)

lemma loop_frame_trans:
  assumes "loop_frame i s [n] [p] s1" "loop_frame i s1 ns ps s2" "m_SeqID (sessions_vec s1 ! i) = m_SeqID (sessions_vec s ! i)"
  shows "loop_frame i s (n # ns) (p # ps) s2"
proof -
  have n: "n < length (heap s1)" "n \<notin> set (msg_free s1)" "msg_data (heap s1 ! n) = p"
    "n \<in> set (msg_free s) \<or> length (heap s) \<le> n" "msg_owner (heap s1 ! n) = m_SeqID (sessions_vec s ! i)"
    using assms(1) by (auto simp: loop_frame_def)
  then have "heap s2 ! n = heap s1 ! n" "n \<notin> set (msg_free s2)" "n \<notin> set ns"
    using assms(2) by (auto simp: loop_frame_def)
  moreover have "k \<in> set (msg_free s) \<or> length (heap s) \<le> k" if "k \<in> set ns" for k
  proof (rule ccontr)
    assume "\<not> ?thesis"
    then have k: "k < length (heap s)" "k \<notin> set (msg_free s)" by auto
    then have "k \<notin> set (msg_free s1)" "k < length (heap s1)" using assms(1) by (auto simp: loop_frame_def)
    then show False using that assms(2) by (auto simp: loop_frame_def)
  qed
  moreover have "heap s2 ! k = heap s ! k \<and> k \<notin> set (msg_free s2)" if "k < length (heap s)" "k \<notin> set (msg_free s)" for k
    using that assms(1,2) by (auto simp: loop_frame_def)
  ultimately show ?thesis using assms n unfolding loop_frame_def by auto
qed

text \<open>One turn of the loop that delivers a message.\<close>

definition ring_dropped :: "nat \<Rightarrow> nat \<Rightarrow> 'a CLanServer_scheme \<Rightarrow> 'a CLanServer_scheme \<Rightarrow> bool" where
  "ring_dropped i w s s' \<longleftrightarrow>
     ring_list (recv_ring i s') = drop w (ring_list (recv_ring i s)) \<and>
     ring_cap (recv_ring i s') = ring_cap (recv_ring i s) \<and> ring_wf (recv_ring i s') \<and>
     sessions_vec s' ! i = (sessions_vec s ! i)\<lparr>m_recvBuffer := recv_ring i s'\<rparr>"

text \<open>One turn of the loop that rejects a frame and gives its node back.\<close>

lemma reject_one:
  assumes rdy: "recv_ready i s" and hd: "header_sDataLen hdr + sizeof_stHeader = w"
    and w: "w \<le> length (ring_list (recv_ring i s))"
    and bad: "\<not> frame_good 0x32 (take w (ring_list (recv_ring i s)))"
  shows "\<exists>n s1 m' s3. CreateMessage i hdr s = Some (Some n, s1) \<and> bEnCording s1 \<and>
     DeCoding (heap s1 ! n) = Inr (False, m') \<and>
     msg_Release n (os (CancelSend i) (upd_session i (m_blive_update (\<lambda>_. 0)) (set_msg n m' s1))) = Some s3 \<and>
     loop_frame i s [] [] s3 \<and> m_blive (sessions_vec s3 ! i) = 0 \<and> CLanServer.more s3 = CLanServer.more s"
proof -
  let ?q = "ring_list (recv_ring i s)"
  obtain n m rb s0 s1 where c: "CreateMessage i hdr s = Some (Some n, s1)" "msg_Alloc s = (n, s0)"
    and s1: "s1 = set_msg n m (upd_session i (m_recvBuffer_update (\<lambda>_. rb)) s0)"
    and m: "msg_ok m" "msg_K m = 0x32" "msg_front m = 0" "msg_rear m = w" "msg_size m = bufferSize"
      "msg_frame m = take w ?q" "msg_use m = 1"
    using CreateMessage_frame [OF rdy hd w] by blast
  have po: "pool_ok s" and i: "i < length (sessions_vec s)" using rdy by (simp_all add: recv_ready_def)
  note al = msg_Alloc_spec [OF po c(2)]
  obtain h f where s0: "s0 = s\<lparr>heap := h, msg_free := f\<rparr>" using al(9) by blast
  have len: "length (take w ?q) = w" using w by simp
  obtain m' where d: "DeCoding m = Inr (False, m')" "msg_ok m'" "msg_K m' = 0x32" "msg_use m' = 1"
  proof (cases "msg_rear m \<le> off_byCheckSum + msg_size m")
    case True
    then obtain m' where "DeCoding m = Inr (frame_accepted 0x32 (take w ?q), m')" "msg_ok m'"
        "m' = m\<lparr>msg_mem := msg_frame m' @ drop (msg_rear m) (msg_mem m)\<rparr>"
      using DeCoding_frame [OF m(1)] hd m by auto
    moreover have "\<not> frame_accepted 0x32 (take w ?q)" using bad True len m by (simp add: frame_good_def)
    moreover have "msg_K m' = 0x32" "msg_use m' = 1" using m by (subst calculation(3), simp)+
    ultimately show ?thesis using that by auto
  next
    case False
    then show ?thesis using DeCoding_oversize [OF m(1)] m that by auto
  qed
  have nl: "n < length (heap s0)" by (rule al(2))
  have enc: "bEnCording s1" using rdy by (simp add: s1 s0 set_msg_def upd_session_def recv_ready_def)
  have hn: "heap s1 ! n = m" using nl by (simp add: s1 set_msg_def upd_session_def)
  let ?s2 = "os (CancelSend i) (upd_session i (m_blive_update (\<lambda>_. 0)) (set_msg n m' s1))"
  let ?m3 = "m'\<lparr>msg_use := 0\<rparr>"
  let ?s3 = "?s2\<lparr>heap := (heap ?s2)[n := ?m3], msg_free := n # msg_free ?s2\<rparr>"
  have h2: "heap ?s2 = (heap s0)[n := m']" "msg_free ?s2 = msg_free s0"
    by (simp_all add: os_def upd_session_def set_msg_def s1)
  have rel: "msg_Release n ?s2 = Some ?s3"
    using nl d(4) unfolding msg_Release_def h2 by (simp add: Let_def h2)
  have old: "n \<noteq> k" if "k < length (heap s)" "k \<notin> set (msg_free s)" for k using al(5) [OF that] by simp
  have h3: "heap ?s3 = (heap s0)[n := ?m3]" "msg_free ?s3 = n # msg_free s0" by (simp_all add: h2)
  have sess: "sessions_vec ?s3 = (sessions_vec s)[i := (sessions_vec s ! i)\<lparr>m_recvBuffer := rb, m_blive := 0\<rparr>]"
    using i by (simp add: s1 s0 os_def upd_session_def set_msg_def)
  have m3: "msg_ok ?m3 \<and> msg_K ?m3 = 0x32" using d by (simp add: msg_ok_def)
  have "pool_ok ?s3" using al(1,3) nl m3 unfolding pool_ok_def h3
    by (auto dest!: subsetD [OF set_update_subset_insert])
  then have "loop_frame i s [] [] ?s3" using al nl old i unfolding loop_frame_def h3 sess
    by (auto simp: s1 s0 set_msg_def upd_session_def os_def)
  moreover have "m_blive (sessions_vec ?s3 ! i) = 0" using i unfolding sess by simp
  moreover have "CLanServer.more ?s3 = CLanServer.more s" by (simp add: s1 s0)
  ultimately show ?thesis using c(1) enc hn d(1) rel by blast
qed

lemma recv_TPS [simp]:
  "recv_ring i (s\<lparr>m_RecvTPS := x\<rparr>) = recv_ring i s"
  "recv_ready i (s\<lparr>m_RecvTPS := x\<rparr>) = recv_ready i s"
  "loop_frame i (s\<lparr>m_RecvTPS := x\<rparr>) ns ps s' = loop_frame i s ns ps s'"
  by (simp_all add: recv_ring_def recv_ready_def loop_frame_def pool_ok_def)

context recv_client
begin

lemma deliver_one:
  assumes rdy: "recv_ready i s" and ok: "client_ok s"
    and hd: "header_sDataLen hdr + sizeof_stHeader = w" and w: "w \<le> length (ring_list (recv_ring i s))"
    and good: "frame_good 0x32 (take w (ring_list (recv_ring i s)))" and sid: "sid = m_SeqID (sessions_vec s ! i)"
  shows "\<exists>n s1 m m' s3. CreateMessage i hdr s = Some (Some n, s1) \<and> bEnCording s1 \<and> heap s1 ! n = m \<and>
     DeCoding m = Inr (True, m') \<and>
     OnRecv sid n (set_msg n (m'\<lparr>msg_owner := sid, msg_front := msg_front m' + headerSize (set_msg n m' s1)\<rparr>)
       (set_msg n m' s1)) = Some s3 \<and> client_ok s3 \<and>
     inbox sid s3 = inbox sid s @ [n] \<and>
     loop_frame i s [n] [frame_payload 0x32 (take w (ring_list (recv_ring i s)))] s3 \<and>
     recv_ready i s3 \<and> ring_dropped i w s s3"
proof -
  let ?q = "ring_list (recv_ring i s)"
  obtain n m rb s0 s1 where c: "CreateMessage i hdr s = Some (Some n, s1)" "msg_Alloc s = (n, s0)"
    and s1: "s1 = set_msg n m (upd_session i (m_recvBuffer_update (\<lambda>_. rb)) s0)"
    and rb: "ring_wf rb" "ring_list rb = drop w ?q" "ring_cap rb = ring_cap (recv_ring i s)"
    and m: "msg_ok m" "msg_K m = 0x32" "msg_front m = 0" "msg_rear m = w" "msg_size m = bufferSize"
      "msg_frame m = take w ?q" "msg_use m = 1"
    using CreateMessage_frame [OF rdy hd w] by blast
  have po: "pool_ok s" and i: "i < length (sessions_vec s)" using rdy by (simp_all add: recv_ready_def)
  note al = msg_Alloc_spec [OF po c(2)]
  obtain h f where s0: "s0 = s\<lparr>heap := h, msg_free := f\<rparr>" using al(9) by blast
  have w5: "sizeof_stHeader \<le> w" using hd by simp
  have len: "length (take w ?q) = w" using w by simp
  have fits: "msg_rear m \<le> off_byCheckSum + msg_size m" using good m len by (simp add: frame_good_def)
  obtain m' where d: "DeCoding m = Inr (True, m')" "msg_ok m'"
      "msg_frame m' = frame_decoded 0x32 (take w ?q)" "m' = m\<lparr>msg_mem := msg_frame m' @ drop (msg_rear m) (msg_mem m)\<rparr>"
    using DeCoding_frame [OF m(1) _ fits] w5 m good by (auto simp: frame_good_def)
  have m'sel: "msg_front m' = 0" "msg_rear m' = w" "msg_K m' = 0x32" using m by (subst d(4), simp)+
  let ?m2 = "m'\<lparr>msg_owner := sid, msg_front := sizeof_stHeader\<rparr>"
  let ?s2 = "set_msg n ?m2 (set_msg n m' s1)"
  have hs: "msg_front m' + headerSize (set_msg n m' s1) = sizeof_stHeader"
    using rdy by (simp add: m'sel set_msg_def s1 upd_session_def s0 recv_ready_def)
  have more2: "CLanServer.more ?s2 = CLanServer.more s" by (simp add: s1 s0)
  have "client_ok ?s2" using ok client_ok_ext [OF more2] by simp
  then obtain x
    where x: "OnRecv sid n ?s2 = Some (CLanServer.more_update (\<lambda>_. x) ?s2)"
      "client_ok (CLanServer.more_update (\<lambda>_. x) ?s2)"
      "inbox sid (CLanServer.more_update (\<lambda>_. x) ?s2) = inbox sid s @ [n]"
    using delivers [of ?s2 sid n] inbox_ext [OF more2] by metis
  let ?s3 = "CLanServer.more_update (\<lambda>_. x) ?s2"
  have nl: "n < length (heap s0)" by (rule al(2))
  have enc: "bEnCording s1" using rdy by (simp add: s1 s0 set_msg_def upd_session_def recv_ready_def)
  have hn: "heap s1 ! n = m" using nl by (simp add: s1 set_msg_def upd_session_def)
  have heap3: "heap ?s3 = (heap s0)[n := ?m2]" by (simp add: s1 set_msg_def upd_session_def)
  have free3: "msg_free ?s3 = msg_free s0" by (simp add: s1 set_msg_def upd_session_def)
  have sess3: "sessions_vec ?s3 = (sessions_vec s)[i := (sessions_vec s ! i)\<lparr>m_recvBuffer := rb\<rparr>]"
    by (simp add: s1 s0 set_msg_def upd_session_def)
  have ok2: "msg_ok ?m2" using d(2) w5 m'sel by (simp add: msg_ok_def)
  have data: "msg_data ?m2 = frame_payload 0x32 (take w ?q)"
  proof -
    have "msg_data ?m2 = drop sizeof_stHeader (msg_frame m')" by (simp add: msg_data_def msg_frame_def)
    then show ?thesis by (simp add: d(3) frame_payload_def)
  qed
  have pool3: "pool_ok ?s3"
    using set_msg_pool_ok [OF al(1) ok2, of n] m'sel
    unfolding pool_ok_def heap3 free3 by (simp add: set_msg_def)
  have old: "n \<noteq> k" if "k < length (heap s)" "k \<notin> set (msg_free s)" for k using al(5) [OF that] by simp
  have fr: "loop_frame i s [n] [frame_payload 0x32 (take w ?q)] ?s3"
    using al nl data i pool3 old unfolding loop_frame_def heap3 free3 sess3
    by (auto simp: sid s1 s0 set_msg_def upd_session_def)
  have ring3: "recv_ring i ?s3 = rb" using i by (simp add: recv_ring_def sess3)
  have "recv_ready i ?s3" using rdy rb pool3 i unfolding recv_ready_def ring3 sess3
    by (simp add: s1 s0 set_msg_def upd_session_def)
  moreover have "ring_dropped i w s ?s3" using rb i unfolding ring_dropped_def ring3 sess3 by simp
  moreover have "OnRecv sid n (set_msg n (m'\<lparr>msg_owner := sid, msg_front := msg_front m' + headerSize (set_msg n m' s1)\<rparr>)
       (set_msg n m' s1)) = Some ?s3" unfolding hs by (rule x(1))
  moreover have "client_ok ?s3" "inbox sid ?s3 = inbox sid s @ [n]"
    by (rule x(2), rule x(3))
  ultimately show ?thesis using c(1) enc hn d(1) fr by blast
qed

lemma loop_implements_framing:
  assumes "recv_ready i s" "client_ok s" "sid = m_SeqID (sessions_vec s ! i)"
    "parse_frames 0x32 (max_MsgLen s) cnt (ring_list (recv_ring i s)) = (ps, e)" "length hdr = sizeof_stHeader"
  shows "\<exists>go s' ns. RecvComplete_loop OnRecv i sid cnt hdr s = Some (go, s') \<and>
     inbox sid s' = inbox sid s @ ns \<and> client_ok s' \<and> loop_frame i s ns ps s' \<and>
     (case e of
        Waiting rest \<Rightarrow> go \<and> recv_ready i s' \<and> ring_list (recv_ring i s') = rest \<and>
          ring_cap (recv_ring i s') = ring_cap (recv_ring i s) \<and>
          sessions_vec s' ! i = (sessions_vec s ! i)\<lparr>m_recvBuffer := recv_ring i s'\<rparr>
      | Cut \<Rightarrow> \<not> go \<and> m_blive (sessions_vec s' ! i) = 0)"
  using assms
proof (induction "150 - cnt" arbitrary: cnt s hdr ps rule: less_induct)
  case less
  note rdy = less.prems(1) and ok = less.prems(2) and sid = less.prems(3) and pf = less.prems(4)
  let ?q = "ring_list (recv_ring i s)"
  let ?w = "frame_size ?q"
  have wf: "ring_wf (recv_ring i s)" and hs: "headerSize s = sizeof_stHeader" and i: "i < length (sessions_vec s)"
    and po: "pool_ok s" and sl: "slot sid = i" and c: "0 < unat (m_ioCount (sessions_vec s ! i))"
    "unat (m_ioCount (sessions_vec s ! i)) < 2 ^ 46" using rdy sid by (simp_all add: recv_ready_def)
  have rr: "m_recvBuffer (sessions_vec s ! i) = recv_ring i s" by (simp add: recv_ring_def)
  have use: "GetUseSize (recv_ring i s) = int (length ?q)" using ring.used_content [OF wf] .
  obtain s' where cut: "Disconnect sid s = Some (True, s')" "m_blive (sessions_vec s' ! i) = 0"
      "sessions_vec s' = (sessions_vec s)[i := (sessions_vec s ! i)\<lparr>m_blive := 0\<rparr>]"
      "heap s' = heap s" "msg_free s' = msg_free s" "CLanServer.more s' = CLanServer.more s"
      "iocp s' = iocp s" "max_MsgLen s' = max_MsgLen s"
    using Disconnect_in_use [OF i sl sid [symmetric] c] by blast
  have cutm: "inbox sid s' = inbox sid s" "client_ok s'"
    using inbox_ext [OF cut(6), of sid] client_ok_ext [OF cut(6)] ok by simp_all
  have cutf: "loop_frame i s [] [] s'" using cut po by (auto simp: loop_frame_def pool_ok_def)
  show ?case
  proof (cases "length ?q < sizeof_stHeader")
    case True
    then have "ps = [] \<and> e = Waiting ?q" using pf by (simp add: parse_frames.simps)
    moreover have "RecvComplete_loop OnRecv i sid cnt hdr s = Some (True, s)"
      using True wf by (simp add: RecvComplete_loop.simps [of _ i sid cnt hdr s] rr hs ring.peek_short)
    ultimately show ?thesis using rdy ok loop_frame_refl [OF po] by (auto simp: recv_ring_def)
  next
    case False
    let ?hdr = "load_header sizeof_stHeader hdr (take sizeof_stHeader ?q)"
    have pk: "Peek (recv_ring i s) sizeof_stHeader = Some (int sizeof_stHeader, take sizeof_stHeader ?q)"
      using False by (intro ring.peek_ok [OF wf]) simp
    have h: "?hdr = take sizeof_stHeader ?q" "length ?hdr = sizeof_stHeader"
      using False less.prems(5) by (simp_all add: load_header_def)
    have sz: "header_sDataLen ?hdr + sizeof_stHeader = ?w"
      unfolding h by (simp add: header_sDataLen_def frame_size_def sizeof_stHeader_def off_sDataLen_def drop_take)
    have len: "int (header_sDataLen ?hdr) = int ?w - int sizeof_stHeader" using sz by simp
    note loop = RecvComplete_loop.simps [of OnRecv i sid cnt hdr s, unfolded rr hs pk Option.bind.simps prod.case use
        sid [symmetric] cut(1) Let_def len sz]
    consider (cut) "cnt + 1 \<ge> 150 \<or> int ?w - int sizeof_stHeader \<ge> max_MsgLen s"
      | (wait) "\<not> cnt + 1 \<ge> 150" "\<not> int ?w - int sizeof_stHeader \<ge> max_MsgLen s" "length ?q < ?w"
      | (bad) "\<not> cnt + 1 \<ge> 150" "\<not> int ?w - int sizeof_stHeader \<ge> max_MsgLen s" "?w \<le> length ?q"
          "\<not> frame_good 0x32 (take ?w ?q)"
      | (good) "\<not> cnt + 1 \<ge> 150" "\<not> int ?w - int sizeof_stHeader \<ge> max_MsgLen s" "?w \<le> length ?q"
          "frame_good 0x32 (take ?w ?q)" by linarith
    then show ?thesis
    proof cases
      case cut
      then have "ps = [] \<and> e = Cut" using pf False by (auto simp: parse_frames.simps split: if_splits)
      moreover have "RecvComplete_loop OnRecv i sid cnt hdr s = Some (False, s')"
        using loop cut by auto
      ultimately show ?thesis using cutf ok \<open>m_blive (sessions_vec s' ! i) = 0\<close> cutm by auto
    next
      case wait
      then have "ps = [] \<and> e = Waiting ?q" using pf False by (auto simp: parse_frames.simps split: if_splits)
      moreover have "RecvComplete_loop OnRecv i sid cnt hdr s = Some (True, s)"
        using loop wait by auto
      ultimately show ?thesis using rdy ok loop_frame_refl [OF po] by (auto simp: recv_ring_def)
    next
      case bad
      then have "ps = [] \<and> e = Cut" using pf False by (auto simp: parse_frames.simps split: if_splits)
      moreover obtain n s1 m' s2 where "CreateMessage i ?hdr s = Some (Some n, s1)" "bEnCording s1"
         "DeCoding (heap s1 ! n) = Inr (False, m')"
         "msg_Release n (os (CancelSend i) (upd_session i (m_blive_update (\<lambda>_. 0)) (set_msg n m' s1))) = Some s2"
        and 2: "loop_frame i s [] [] s2" "m_blive (sessions_vec s2 ! i) = 0" "CLanServer.more s2 = CLanServer.more s"
        using reject_one [OF rdy sz bad(3,4)] by blast
      then have "RecvComplete_loop OnRecv i sid cnt hdr s = Some (False, s2)"
        using loop bad by simp
      ultimately show ?thesis using ok 2 inbox_ext [OF 2(3), of sid] client_ok_ext [OF 2(3)] by auto
    next
      case good
      obtain ps' where ps: "parse_frames 0x32 (max_MsgLen s) (cnt + 1) (drop ?w ?q) = (ps', e)"
          "ps = frame_payload 0x32 (take ?w ?q) # ps'"
        using pf False good by (auto simp: parse_frames.simps [of _ _ cnt] split: prod.splits)
      obtain n s1 m m' s3 where d: "CreateMessage i ?hdr s = Some (Some n, s1)" "bEnCording s1" "heap s1 ! n = m"
         "DeCoding m = Inr (True, m')"
         "OnRecv sid n (set_msg n (m'\<lparr>msg_owner := sid, msg_front := msg_front m' + headerSize (set_msg n m' s1)\<rparr>)
            (set_msg n m' s1)) = Some s3" "client_ok s3" "inbox sid s3 = inbox sid s @ [n]"
         "loop_frame i s [n] [frame_payload 0x32 (take ?w ?q)] s3" "recv_ready i s3" "ring_dropped i ?w s s3"
        using deliver_one [OF rdy ok sz good(3,4) sid] by blast
      let ?s4 = "s3\<lparr>m_RecvTPS := m_RecvTPS s3 + 1\<rparr>"
      have ext4: "inbox sid ?s4 = inbox sid s3" "client_ok ?s4"
        using inbox_ext [of ?s4 s3 sid] client_ok_ext [of ?s4 s3] d(6) by simp_all
      have mx: "max_MsgLen ?s4 = max_MsgLen s" using d(8) by (simp add: loop_frame_def)
      have s3i: "sessions_vec s3 ! i = (sessions_vec s ! i)\<lparr>m_recvBuffer := recv_ring i s3\<rparr>"
        and ring3: "ring_list (recv_ring i s3) = drop ?w ?q" "ring_cap (recv_ring i s3) = ring_cap (recv_ring i s)"
        using d(10) by (simp_all add: ring_dropped_def)
      have sid3: "m_SeqID (sessions_vec s3 ! i) = sid" by (simp add: s3i sid)
      have lt: "150 - (cnt + 1) < 150 - cnt" using good(1) by simp
      have IH: "\<exists>go s' ns. RecvComplete_loop OnRecv i sid (cnt + 1) ?hdr ?s4 = Some (go, s') \<and>
         inbox sid s' = inbox sid ?s4 @ ns \<and> client_ok s' \<and> loop_frame i ?s4 ns ps' s' \<and>
         (case e of
            Waiting rest \<Rightarrow> go \<and> recv_ready i s' \<and> ring_list (recv_ring i s') = rest \<and>
              ring_cap (recv_ring i s') = ring_cap (recv_ring i ?s4) \<and>
              sessions_vec s' ! i = (sessions_vec ?s4 ! i)\<lparr>m_recvBuffer := recv_ring i s'\<rparr>
          | Cut \<Rightarrow> \<not> go \<and> m_blive (sessions_vec s' ! i) = 0)"
        by (rule less.hyps [OF lt]) (use ext4(2) d(9) ps(1) h(2) in \<open>simp_all add: sid3 ring3 mx del: One_nat_def\<close>)
      then obtain go s5 ns where r: "RecvComplete_loop OnRecv i sid (cnt + 1) ?hdr ?s4 = Some (go, s5)"
          "inbox sid s5 = inbox sid s3 @ ns" "client_ok s5" "loop_frame i s3 ns ps' s5"
          "case e of
            Waiting rest \<Rightarrow> go \<and> recv_ready i s5 \<and> ring_list (recv_ring i s5) = rest \<and>
              ring_cap (recv_ring i s5) = ring_cap (recv_ring i s3) \<and>
              sessions_vec s5 ! i = (sessions_vec s3 ! i)\<lparr>m_recvBuffer := recv_ring i s5\<rparr>
          | Cut \<Rightarrow> \<not> go \<and> m_blive (sessions_vec s5 ! i) = 0"
        using ext4 by (cases e) auto
      have "RecvComplete_loop OnRecv i sid cnt hdr s = Some (go, s5)"
        using loop good d(1-5) r(1) by (simp add: sid3)
      moreover have "loop_frame i s (n # ns) ps s5"
        unfolding ps(2) by (rule loop_frame_trans [OF d(8) r(4)]) (simp add: sid3 sid)
      moreover have "inbox sid s5 = inbox sid s @ (n # ns)" using d(7) r(2) by simp
      ultimately show ?thesis using r(3,5) ring3(2) s3i by (auto split: frame_end.splits)
    qed
  qed
qed

end

section \<open>A whole receive completion\<close>

lemma heap_simps [simp]:
  "heap (upd_session i f s) = heap s" "heap (os c s) = heap s" "heap (post e s) = heap s" "heap (io_add i d s) = heap s"
  "heap (release_if_zero i sid s) = heap s"
  "max_MsgLen (upd_session i f s) = max_MsgLen s" "max_MsgLen (os c s) = max_MsgLen s"
  "max_MsgLen (post e s) = max_MsgLen s" "max_MsgLen (io_add i d s) = max_MsgLen s"
  "max_MsgLen (release_if_zero i sid s) = max_MsgLen s"
  "msg_free (upd_session i f s) = msg_free s" "msg_free (os c s) = msg_free s" "msg_free (post e s) = msg_free s"
  "msg_free (io_add i d s) = msg_free s" "msg_free (release_if_zero i sid s) = msg_free s"
  by (simp_all add: upd_session_def os_def post_def io_add_def release_if_zero_def ReleaseSession_def)

lemma RecvPacket_frame [simp]:
  "heap (RecvPacket r i s) = heap s" "msg_free (RecvPacket r i s) = msg_free s"
  "max_MsgLen (RecvPacket r i s) = max_MsgLen s" "CLanServer.more (RecvPacket r i s) = CLanServer.more s"
  by (simp_all add: RecvPacket_def WSARecvError_def Let_def split: wsa_result.split)

lemma Decrement_frame [simp]:
  "heap (DecrementIoCountAndMaybeDeleteSession i s) = heap s"
  "msg_free (DecrementIoCountAndMaybeDeleteSession i s) = msg_free s"
  "max_MsgLen (DecrementIoCountAndMaybeDeleteSession i s) = max_MsgLen s"
  "CLanServer.more (DecrementIoCountAndMaybeDeleteSession i s) = CLanServer.more s"
  by (simp_all add: DecrementIoCountAndMaybeDeleteSession_def Let_def)

lemma recvBuffer_update_eq: "m_recvBuffer_update f c = c\<lparr>m_recvBuffer := f (m_recvBuffer c)\<rparr>"
  by (cases c) simp

text \<open>The state after the kernel stored \<open>data\<close> and \<^verbatim>\<open>MoveRear\<close> counted it.\<close>

lemma arrival:
  assumes rdy: "recv_ready i s" and fit: "length (ring_list (recv_ring i s)) + length data \<le> ring_cap (recv_ring i s)"
  shows "\<exists>s1. kernel_stores i data (s\<lparr>iocp := q\<rparr>) = Some s1 \<and>
     (let s2 = upd_session i (m_recvBuffer_update (\<lambda>rb. MoveRear rb (length data))) s1
      in recv_ready i s2 \<and> ring_list (recv_ring i s2) = ring_list (recv_ring i s) @ data \<and>
         ring_cap (recv_ring i s2) = ring_cap (recv_ring i s) \<and>
         s2 = (upd_session i (m_recvBuffer_update (\<lambda>_. recv_ring i s2)) s)\<lparr>iocp := q\<rparr>)"
proof -
  have wf: "ring_wf (recv_ring i s)" and i: "i < length (sessions_vec s)" using rdy by (simp_all add: recv_ready_def)
  obtain m where m: "scatter (rb_mem (recv_ring i s)) (recv_wsabufs (recv_ring i s)) data = Some m"
    "ring_wf (MoveRear ((recv_ring i s)\<lparr>rb_mem := m\<rparr>) (length data))"
    "ring_list (MoveRear ((recv_ring i s)\<lparr>rb_mem := m\<rparr>) (length data)) = ring_list (recv_ring i s) @ data"
    "length m = length (rb_mem (recv_ring i s))"
    using scatter_filled [OF wf fit] ring_filled_append [OF wf fit] ring_filled_length [OF wf fit] MoveRear_mem_wf [OF wf fit]
    by metis
  let ?rb = "MoveRear ((recv_ring i s)\<lparr>rb_mem := m\<rparr>) (length data)"
  have cap: "ring_cap ?rb = ring_cap (recv_ring i s)" using ring_cap_mem [OF m(4)] by simp
  let ?s1 = "upd_session i (m_recvBuffer_update (rb_mem_update (\<lambda>_. m))) (s\<lparr>iocp := q\<rparr>)"
  let ?s2 = "upd_session i (m_recvBuffer_update (\<lambda>rb. MoveRear rb (length data))) ?s1"
  have k: "kernel_stores i data (s\<lparr>iocp := q\<rparr>) = Some ?s1"
    using m(1) by (simp add: kernel_stores_def recv_ring_def)
  have r2: "recv_ring i ?s2 = ?rb" using i by (simp add: recv_ring_def upd_session_def)
  have s2: "?s2 = (upd_session i (m_recvBuffer_update (\<lambda>_. ?rb)) s)\<lparr>iocp := q\<rparr>"
  proof -
    have "(sessions_vec s)[i := m_recvBuffer_update (\<lambda>x. MoveRear (x\<lparr>rb_mem := m\<rparr>) (length data)) (sessions_vec s ! i)] =
        (sessions_vec s)[i := (sessions_vec s ! i)\<lparr>m_recvBuffer := ?rb\<rparr>]"
      unfolding recv_ring_def by (rule arg_cong [OF recvBuffer_update_eq])
    then show ?thesis using i by (simp add: upd_session_def comp_def)
  qed
  have "recv_ready i ?s2" using rdy m(2) cap i unfolding recv_ready_def r2
    by (simp add: s2 upd_session_def pool_ok_def)
  then show ?thesis using k r2 m(3) cap s2 by (auto simp: Let_def)
qed

definition inbox_grows ::
  "(u64 \<Rightarrow> 'a CLanServer_scheme \<Rightarrow> nat list) \<Rightarrow> u64 \<Rightarrow> u8 list list \<Rightarrow> 'a CLanServer_scheme \<Rightarrow> 'a CLanServer_scheme \<Rightarrow> bool" where
  "inbox_grows inbox sid ps s s' \<longleftrightarrow>
     (\<exists>ns. inbox sid s' = inbox sid s @ ns \<and> map (\<lambda>n. msg_data (heap s' ! n)) ns = ps \<and>
           (\<forall>n \<in> set ns. msg_owner (heap s' ! n) = sid \<and> n \<notin> set (msg_free s')))"

context recv_client
begin

lemma recv_completion:
  assumes rdy: "recv_ready i s" and ok: "client_ok s" and data: "data \<noteq> []"
    and fit: "length (ring_list (recv_ring i s)) + length data \<le> ring_cap (recv_ring i s)"
    and sid: "sid = m_SeqID (sessions_vec s ! i)" and hdr: "length hdr = sizeof_stHeader"
    and pf: "parse_frames 0x32 (max_MsgLen s) 0 (ring_list (recv_ring i s) @ data) = (ps, e)"
  shows "\<exists>s' s1 go ns. WorkerThread_step OnRecv OnRelease tps hdr r (Recv i) data s = Some s' \<and> client_ok s' \<and>
     inbox_grows inbox sid ps s s' \<and> max_MsgLen s' = max_MsgLen s \<and>
     s' = DecrementIoCountAndMaybeDeleteSession i (if go then RecvPacket r i s1 else s1) \<and>
     loop_frame i (s\<lparr>iocp := remove1 (Recv i) (iocp s)\<rparr>) ns ps s1 \<and> inbox sid s' = inbox sid s @ ns \<and>
     (case e of
        Waiting rest \<Rightarrow> go \<and> recv_ready i s1 \<and> ring_list (recv_ring i s1) = rest \<and>
          ring_cap (recv_ring i s1) = ring_cap (recv_ring i s) \<and>
          sessions_vec s1 ! i = (sessions_vec s ! i)\<lparr>m_recvBuffer := recv_ring i s1\<rparr>
      | Cut \<Rightarrow> \<not> go \<and> m_blive (sessions_vec s1 ! i) = 0)"
proof -
  obtain s1 where k: "kernel_stores i data (s\<lparr>iocp := remove1 (Recv i) (iocp s)\<rparr>) = Some s1" and
    s2': "let s2 = upd_session i (m_recvBuffer_update (\<lambda>rb. MoveRear rb (length data))) s1
      in recv_ready i s2 \<and> ring_list (recv_ring i s2) = ring_list (recv_ring i s) @ data \<and>
         ring_cap (recv_ring i s2) = ring_cap (recv_ring i s) \<and>
         s2 = (upd_session i (m_recvBuffer_update (\<lambda>_. recv_ring i s2)) s)\<lparr>iocp := remove1 (Recv i) (iocp s)\<rparr>"
    using arrival [OF rdy fit] by blast
  define s2 where "s2 = upd_session i (m_recvBuffer_update (\<lambda>rb. MoveRear rb (length data))) s1"
  have s2: "recv_ready i s2" "ring_list (recv_ring i s2) = ring_list (recv_ring i s) @ data"
     "ring_cap (recv_ring i s2) = ring_cap (recv_ring i s)"
     "s2 = (upd_session i (m_recvBuffer_update (\<lambda>_. recv_ring i s2)) s)\<lparr>iocp := remove1 (Recv i) (iocp s)\<rparr>"
    using s2' unfolding Let_def s2_def [symmetric] by blast+
  have i: "i < length (sessions_vec s)" using rdy by (simp add: recv_ready_def)
  have more2: "CLanServer.more s2 = CLanServer.more s" by (subst s2(4)) simp
  have sid2: "m_SeqID (sessions_vec s2 ! i) = sid" using i by (subst s2(4)) (simp add: sid)
  have heap2: "heap s2 = heap s" "msg_free s2 = msg_free s" "max_MsgLen s2 = max_MsgLen s" by (subst s2(4), simp)+
  have pf2: "parse_frames 0x32 (max_MsgLen s2) 0 (ring_list (recv_ring i s2)) = (ps, e)"
    using pf by (simp add: heap2 s2(2))
  obtain go s3 ns where l: "RecvComplete_loop OnRecv i sid 0 hdr s2 = Some (go, s3)"
     "inbox sid s3 = inbox sid s2 @ ns" "client_ok s3" "loop_frame i s2 ns ps s3"
     "case e of
        Waiting rest \<Rightarrow> go \<and> recv_ready i s3 \<and> ring_list (recv_ring i s3) = rest \<and>
          ring_cap (recv_ring i s3) = ring_cap (recv_ring i s2) \<and>
          sessions_vec s3 ! i = (sessions_vec s2 ! i)\<lparr>m_recvBuffer := recv_ring i s3\<rparr>
      | Cut \<Rightarrow> \<not> go \<and> m_blive (sessions_vec s3 ! i) = 0"
    using loop_implements_framing [OF s2(1) _ sid2 [symmetric] pf2 hdr] client_ok_ext [OF more2] ok by blast
  let ?s4 = "if go then RecvPacket r i s3 else s3"
  let ?s5 = "DecrementIoCountAndMaybeDeleteSession i ?s4"
  have w: "WorkerThread_step OnRecv OnRelease tps hdr r (Recv i) data s = Some ?s5"
    using data k l(1) by (simp add: WorkerThread_step_def RecvComplete_def s2_def [symmetric] sid2)
  have fr: "loop_frame i (s\<lparr>iocp := remove1 (Recv i) (iocp s)\<rparr>) ns ps s3"
  proof -
    have "sessions_vec s2 ! j = sessions_vec s ! j" if "j \<noteq> i" for j
      using that by (subst s2(4)) (simp add: upd_session_def)
    moreover have "length (sessions_vec s2) = length (sessions_vec s)"
      "iocp s2 = remove1 (Recv i) (iocp s)" by (subst s2(4), simp add: upd_session_def)+
    ultimately show ?thesis using l(4) sid sid2 unfolding loop_frame_def heap2 by auto
  qed
  have more5: "CLanServer.more ?s5 = CLanServer.more s3" by simp
  have in5: "inbox sid ?s5 = inbox sid s @ ns"
    using inbox_ext [OF more5] inbox_ext [OF more2] l(2) by simp
  moreover have "client_ok ?s5" using client_ok_ext [OF more5] l(3) by simp
  moreover have "inbox_grows inbox sid ps s ?s5"
    unfolding inbox_grows_def using in5 fr by (auto simp: loop_frame_def sid)
  moreover have "max_MsgLen ?s5 = max_MsgLen s" using fr by (simp add: loop_frame_def)
  moreover have "sessions_vec s2 ! i = (sessions_vec s ! i)\<lparr>m_recvBuffer := recv_ring i s2\<rparr>"
    using i by (subst s2(4)) simp
  then have "case e of
        Waiting rest \<Rightarrow> go \<and> recv_ready i s3 \<and> ring_list (recv_ring i s3) = rest \<and>
          ring_cap (recv_ring i s3) = ring_cap (recv_ring i s) \<and>
          sessions_vec s3 ! i = (sessions_vec s ! i)\<lparr>m_recvBuffer := recv_ring i s3\<rparr>
      | Cut \<Rightarrow> \<not> go \<and> m_blive (sessions_vec s3 ! i) = 0"
    using l(5) s2(3) by (cases e) auto
  ultimately show ?thesis using w fr by blast
qed

end

section \<open>A connection, chunk by chunk\<close>

text \<open>Each chunk completes a receive, which must be pending.\<close>

primrec recv_chunks ::
  "(u64 \<Rightarrow> nat \<Rightarrow> 'a CLanServer_scheme \<Rightarrow> 'a CLanServer_scheme option) \<Rightarrow>
   (u64 \<Rightarrow> 'a CLanServer_scheme \<Rightarrow> 'a CLanServer_scheme option) \<Rightarrow>
   nat \<Rightarrow> u8 list \<Rightarrow> wsa_result \<Rightarrow> nat \<Rightarrow> u8 list list \<Rightarrow> 'a CLanServer_scheme \<Rightarrow> 'a CLanServer_scheme option" where
  "recv_chunks OnRecv OnRelease tps hdr r i [] s = Some s"
| "recv_chunks OnRecv OnRelease tps hdr r i (c # cs) s =
     (if Recv i \<in> set (iocp s)
      then Option.bind (WorkerThread_step OnRecv OnRelease tps hdr r (Recv i) c s) (recv_chunks OnRecv OnRelease tps hdr r i cs)
      else None)"

text \<open>What the kernel guarantees: no chunk is empty or larger than the space offered for it.\<close>

fun chunks_fit :: "int \<Rightarrow> nat \<Rightarrow> u8 list \<Rightarrow> u8 list list \<Rightarrow> bool" where
  "chunks_fit mx cap rest [] \<longleftrightarrow> True"
| "chunks_fit mx cap rest (c # cs) \<longleftrightarrow>
     c \<noteq> [] \<and> length rest + length c \<le> cap \<and>
     (case parse_frames 0x32 mx 0 (rest @ c) of
        (ps, Waiting rest') \<Rightarrow> length rest' < cap \<and> chunks_fit mx cap rest' cs
      | (ps, Cut) \<Rightarrow> True)"

text \<open>
  A session that keeps receiving: it is alive and a receive is pending; \<open>asked\<close>: the last call to Windows asked for
  one, into the free space of its buffer.
\<close>

definition recv_pending :: "nat \<Rightarrow> 'a CLanServer_scheme \<Rightarrow> bool" where
  "recv_pending i s \<longleftrightarrow> m_blive (sessions_vec s ! i) \<noteq> 0 \<and> Recv i \<in> set (iocp s)"

definition recv_asked :: "nat \<Rightarrow> 'a CLanServer_scheme \<Rightarrow> bool" where
  "recv_asked i s \<longleftrightarrow> os_log s \<noteq> [] \<and> last (os_log s) = WSARecv i (recv_wsabufs (recv_ring i s))"

lemma rearm:
  assumes rdy: "recv_ready i s" and live: "m_blive (sessions_vec s ! i) \<noteq> 0"
    and room: "length (ring_list (recv_ring i s)) < ring_cap (recv_ring i s)" and r: "submitted r"
  shows "recv_ready i (DecrementIoCountAndMaybeDeleteSession i (RecvPacket r i s))"
    "recv_ring i (DecrementIoCountAndMaybeDeleteSession i (RecvPacket r i s)) = recv_ring i s"
    "sessions_vec (DecrementIoCountAndMaybeDeleteSession i (RecvPacket r i s)) = sessions_vec s"
    "recv_pending i (DecrementIoCountAndMaybeDeleteSession i (RecvPacket r i s))"
    "recv_asked i (DecrementIoCountAndMaybeDeleteSession i (RecvPacket r i s))"
proof -
  have i: "i < length (sessions_vec s)" "slot (m_SeqID (sessions_vec s ! i)) = i"
    and wf: "ring_wf (recv_ring i s)" and c: "m_ioCount (sessions_vec s ! i) \<noteq> 0"
    using rdy by (auto simp: recv_ready_def)
  let ?rb = "m_recvBuffer (sessions_vec s ! i)"
  have free: "GetFreeSize_at ?rb (rb_front ?rb) (rb_rear ?rb) \<noteq> 0"
    using ring_free_length [OF wf] room by (simp add: recv_ring_def GetFreeSize_def)
  let ?s1 = "post (Recv i) (os (WSARecv i (recv_wsabufs ?rb)) (io_add i 1 s))"
  have s1: "m_blive (sessions_vec ?s1 ! i) \<noteq> 0" "slot (m_SeqID (sessions_vec ?s1 ! i)) = i"
    using i live by (simp_all add: post_def os_def io_add_def)
  have "RecvPacket r i s = ?s1"
    using free live r s1
    by (cases r) (simp_all add: RecvPacket_def Let_def submitted_def WSARecvError_def)
  moreover have "m_ioCount (sessions_vec (io_add i (-1) ?s1) ! i) \<noteq> 0"
    using i c by (simp add: io_add_def post_def os_def upd_session_def)
  moreover have "sessions_vec (io_add i (-1) ?s1) = sessions_vec s"
    using i by (simp add: io_add_def post_def os_def upd_session_def)
  ultimately have e: "DecrementIoCountAndMaybeDeleteSession i (RecvPacket r i s) = io_add i (-1) ?s1"
    by (simp add: DecrementIoCountAndMaybeDeleteSession_def Let_def release_if_zero_def)
  show v: "sessions_vec (DecrementIoCountAndMaybeDeleteSession i (RecvPacket r i s)) = sessions_vec s"
    unfolding e by fact
  show "recv_pending i (DecrementIoCountAndMaybeDeleteSession i (RecvPacket r i s))"
    using v live unfolding recv_pending_def e by (simp add: io_add_def post_def os_def upd_session_def)
  show ri: "recv_ring i (DecrementIoCountAndMaybeDeleteSession i (RecvPacket r i s)) = recv_ring i s"
    using v by (simp add: recv_ring_def)
  show "recv_asked i (DecrementIoCountAndMaybeDeleteSession i (RecvPacket r i s))"
    unfolding recv_asked_def ri unfolding e by (simp add: io_add_def post_def os_def upd_session_def recv_ring_def)
  from ri show "recv_ready i (DecrementIoCountAndMaybeDeleteSession i (RecvPacket r i s))"
    using rdy v unfolding recv_ready_def e by (simp add: pool_ok_def) (simp add: io_add_def post_def os_def upd_session_def)
qed

lemma inbox_grows_trans:
  assumes "inbox sid s1 = inbox sid s @ ns1" "loop_frame i s0 ns1 ps1 s1'" "heap s1 = heap s1'" "msg_free s1 = msg_free s1'"
    "sid = m_SeqID (sessions_vec s0 ! i)"
    "inbox sid s2 = inbox sid s1 @ ns2" "map (\<lambda>n. msg_data (heap s2 ! n)) ns2 = ps2"
    "\<forall>n \<in> set ns2. msg_owner (heap s2 ! n) = sid \<and> n \<notin> set (msg_free s2)"
    "\<forall>k < length (heap s1). k \<notin> set (msg_free s1) \<longrightarrow> k \<notin> set (msg_free s2) \<and> heap s2 ! k = heap s1 ! k"
  shows "inbox_grows inbox sid (ps1 @ ps2) s s2"
proof -
  have n1: "map (\<lambda>n. msg_data (heap s1 ! n)) ns1 = ps1"
    "\<And>n. n \<in> set ns1 \<Longrightarrow> n < length (heap s1) \<and> n \<notin> set (msg_free s1) \<and> msg_owner (heap s1 ! n) = sid"
    using assms(2-5) by (auto simp: loop_frame_def)
  then have "map (\<lambda>n. msg_data (heap s2 ! n)) ns1 = ps1"
    using assms(9) by (metis (no_types, lifting) map_eq_conv)
  moreover have "msg_owner (heap s2 ! n) = sid \<and> n \<notin> set (msg_free s2)" if "n \<in> set ns1" for n
    using n1(2) [OF that] assms(9) by auto
  ultimately show ?thesis using assms(1,6-8) unfolding inbox_grows_def by (intro exI [of _ "ns1 @ ns2"]) auto
qed

context recv_client
begin

lemma recv_stream:
  assumes "recv_ready i s" "client_ok s" "recv_pending i s" "sid = m_SeqID (sessions_vec s ! i)"
    and "chunks_fit (max_MsgLen s) (ring_cap (recv_ring i s)) (ring_list (recv_ring i s)) cs"
    and "parse_chunks 0x32 (max_MsgLen s) (ring_list (recv_ring i s)) cs = (ps, Waiting rest)"
    and r: "submitted r" and hdr: "length hdr = sizeof_stHeader"
  shows "\<exists>s' ns. recv_chunks OnRecv OnRelease tps hdr r i cs s = Some s' \<and> inbox sid s' = inbox sid s @ ns \<and>
     map (\<lambda>n. msg_data (heap s' ! n)) ns = ps \<and>
     (\<forall>n \<in> set ns. msg_owner (heap s' ! n) = sid \<and> n \<notin> set (msg_free s')) \<and>
     (\<forall>k < length (heap s). k \<notin> set (msg_free s) \<longrightarrow> k \<notin> set (msg_free s') \<and> heap s' ! k = heap s ! k) \<and>
     recv_ready i s' \<and> ring_list (recv_ring i s') = rest \<and> recv_pending i s' \<and> (cs \<noteq> [] \<longrightarrow> recv_asked i s')"
  using assms(1-6)
proof (induction cs arbitrary: s ps)
  case Nil
  then show ?case by simp
next
  case (Cons c cs)
  note rdy = Cons.prems(1)
  obtain ps1 e where pf: "parse_frames 0x32 (max_MsgLen s) 0 (ring_list (recv_ring i s) @ c) = (ps1, e)"
    by (cases "parse_frames 0x32 (max_MsgLen s) 0 (ring_list (recv_ring i s) @ c)") auto
  obtain rest1 ps2 where e: "e = Waiting rest1"
    and p2: "parse_chunks 0x32 (max_MsgLen s) rest1 cs = (ps2, Waiting rest)" "ps = ps1 @ ps2"
    using Cons.prems(6) pf by (auto split: frame_end.splits prod.splits)
  have fit: "c \<noteq> []" "length (ring_list (recv_ring i s)) + length c \<le> ring_cap (recv_ring i s)"
    "length rest1 < ring_cap (recv_ring i s)" "chunks_fit (max_MsgLen s) (ring_cap (recv_ring i s)) rest1 cs"
    using Cons.prems(5) pf e by auto
  obtain s2 s1 go ns1 where w: "WorkerThread_step OnRecv OnRelease tps hdr r (Recv i) c s = Some s2" "client_ok s2"
      "max_MsgLen s2 = max_MsgLen s"
      "s2 = DecrementIoCountAndMaybeDeleteSession i (if go then RecvPacket r i s1 else s1)"
      "loop_frame i (s\<lparr>iocp := remove1 (Recv i) (iocp s)\<rparr>) ns1 ps1 s1" "inbox sid s2 = inbox sid s @ ns1"
    and "go" and s1: "recv_ready i s1" "ring_list (recv_ring i s1) = rest1"
      "ring_cap (recv_ring i s1) = ring_cap (recv_ring i s)"
      "sessions_vec s1 ! i = (sessions_vec s ! i)\<lparr>m_recvBuffer := recv_ring i s1\<rparr>"
    using recv_completion [OF rdy Cons.prems(2) fit(1,2) Cons.prems(4) hdr pf, of OnRelease tps r] unfolding e by auto
  have live1: "m_blive (sessions_vec s1 ! i) \<noteq> 0" and pend: "Recv i \<in> set (iocp s)" using Cons.prems(3) by (simp_all add: s1(4) recv_pending_def)
  have room: "length (ring_list (recv_ring i s1)) < ring_cap (recv_ring i s1)" by (simp add: s1 fit)
  have s2: "s2 = DecrementIoCountAndMaybeDeleteSession i (RecvPacket r i s1)" using w(4) \<open>go\<close> by simp
  note re = rearm [OF s1(1) live1 room r, folded s2]
  have "\<exists>s' ns. recv_chunks OnRecv OnRelease tps hdr r i cs s2 = Some s' \<and> inbox sid s' = inbox sid s2 @ ns \<and>
     map (\<lambda>n. msg_data (heap s' ! n)) ns = ps2 \<and>
     (\<forall>n \<in> set ns. msg_owner (heap s' ! n) = sid \<and> n \<notin> set (msg_free s')) \<and>
     (\<forall>k < length (heap s2). k \<notin> set (msg_free s2) \<longrightarrow> k \<notin> set (msg_free s') \<and> heap s' ! k = heap s2 ! k) \<and>
     recv_ready i s' \<and> ring_list (recv_ring i s') = rest \<and> recv_pending i s' \<and> (cs \<noteq> [] \<longrightarrow> recv_asked i s')"
    by (rule Cons.IH)
      (use re(1,4) w(2,3) live1 s1 fit p2 Cons.prems(4) in \<open>simp_all add: re(2,3)\<close>)
  then obtain s' ns where R: "recv_chunks OnRecv OnRelease tps hdr r i cs s2 = Some s'" "inbox sid s' = inbox sid s2 @ ns"
     "map (\<lambda>n. msg_data (heap s' ! n)) ns = ps2"
     "\<forall>n \<in> set ns. msg_owner (heap s' ! n) = sid \<and> n \<notin> set (msg_free s')"
     "\<forall>k < length (heap s2). k \<notin> set (msg_free s2) \<longrightarrow> k \<notin> set (msg_free s') \<and> heap s' ! k = heap s2 ! k"
     "recv_ready i s'" "ring_list (recv_ring i s') = rest" "recv_pending i s'" "cs \<noteq> [] \<longrightarrow> recv_asked i s'" by blast
  have "recv_asked i s'" using R(1,9) re(5) by (cases cs) auto
  have h2: "heap s2 = heap s1" "msg_free s2 = msg_free s1" by (simp_all add: s2)
  have "inbox_grows inbox sid (ps1 @ ps2) s s'"
    by (rule inbox_grows_trans [where inbox = inbox and sid = sid and s = s and ?s1.0 = s2 and ?s2.0 = s', OF w(6,5) h2 _ R(2-5)]) (simp add: Cons.prems(4))
  then obtain ns' where N: "inbox sid s' = inbox sid s @ ns'" "map (\<lambda>n. msg_data (heap s' ! n)) ns' = ps1 @ ps2"
    "\<forall>n \<in> set ns'. msg_owner (heap s' ! n) = sid \<and> n \<notin> set (msg_free s')" unfolding inbox_grows_def by blast
  have "k \<notin> set (msg_free s') \<and> heap s' ! k = heap s ! k" if "k < length (heap s)" "k \<notin> set (msg_free s)" for k
    using that w(5) R(5) unfolding h2 loop_frame_def by auto
  then show ?case using w(1) R(1,6,7,8) N p2(2) pend \<open>recv_asked i s'\<close> by auto
qed

end

end
