(* ===== verification/Sector.thy ===== *)
theory Sector
  imports Prelude
begin

text \<open>
  The sectors of the chat world (\<^verbatim>\<open>Contents/Sector\<close>): \<^verbatim>\<open>st_Sector_Pos\<close> with its order,
  \<^verbatim>\<open>st_Sector_Around\<close> as the increasing list a \<^verbatim>\<open>std::set\<close> iterates over, and the
  \<^verbatim>\<open>stSectorManager\<close> that caches for every sector the sectors around it.
\<close>

datatype st_Sector_Pos = Sector_Pos (iX: int) (iY: int)

instantiation st_Sector_Pos :: linorder
begin

definition less_st_Sector_Pos :: "st_Sector_Pos \<Rightarrow> st_Sector_Pos \<Rightarrow> bool" where
  "less_st_Sector_Pos a b = (if iX a \<noteq> iX b then iX a < iX b else iY a < iY b)"

definition less_eq_st_Sector_Pos :: "st_Sector_Pos \<Rightarrow> st_Sector_Pos \<Rightarrow> bool" where
  "less_eq_st_Sector_Pos a b = (a < b \<or> a = b)"

instance
  by standard
    (auto simp: less_st_Sector_Pos_def less_eq_st_Sector_Pos_def split: if_splits intro: st_Sector_Pos.expand)

end

type_synonym st_Sector_Around = "st_Sector_Pos list"

record stSectorManager =
  cacheSectorAround :: "st_Sector_Around list"
  MaxX :: int
  MaxY :: int

definition new_stSectorManager :: "int \<Rightarrow> int \<Rightarrow> int \<Rightarrow> stSectorManager" where
  "new_stSectorManager maxX maxY sectorSize =
     \<lparr>cacheSectorAround = [], MaxX = maxX div sectorSize, MaxY = maxY div sectorSize\<rparr>"

definition clamp :: "int \<Rightarrow> int \<Rightarrow> int \<Rightarrow> int" where
  "clamp v lo hi = (if v < lo then lo else if hi < v then hi else v)"

definition SetSectorAround :: "stSectorManager \<Rightarrow> int \<Rightarrow> int \<Rightarrow> st_Sector_Around \<Rightarrow> st_Sector_Around" where
  "SetSectorAround mgr x y around =
     fold (\<lambda>row. fold (\<lambda>column. insort_insert
             (Sector_Pos (clamp (x + row) 0 (MaxX mgr - 1)) (clamp (y + column) 0 (MaxY mgr - 1)))) [-1, 0, 1])
       [-1, 0, 1] around"

definition Initalize :: "stSectorManager \<Rightarrow> stSectorManager" where
  "Initalize mgr =
     fold (\<lambda>x. fold (\<lambda>y m. let idx = nat (x + MaxX m * y)
                           in m\<lparr>cacheSectorAround := (cacheSectorAround m)[idx :=
                                  SetSectorAround m x y (cacheSectorAround m ! idx)]\<rparr>)
                 [0..MaxY mgr - 1])
       [0..MaxX mgr - 1] (mgr\<lparr>cacheSectorAround := replicate (nat (MaxX mgr * MaxY mgr)) []\<rparr>)"

text \<open>\<open>None\<close> is an index outside the cache.\<close>

definition GetSectorAround :: "stSectorManager \<Rightarrow> int \<Rightarrow> int \<Rightarrow> st_Sector_Around option" where
  "GetSectorAround mgr x y =
     (let idx = x + MaxX mgr * y
      in if 0 \<le> idx \<and> idx < int (length (cacheSectorAround mgr))
         then Some (cacheSectorAround mgr ! nat idx) else None)"

section \<open>What the cache holds\<close>

definition in_world :: "stSectorManager \<Rightarrow> int \<Rightarrow> int \<Rightarrow> bool" where
  "in_world mgr x y \<longleftrightarrow> 0 \<le> x \<and> x < MaxX mgr \<and> 0 \<le> y \<and> y < MaxY mgr"

text \<open>The specification: the sectors of the world at distance at most one in both directions.\<close>

definition neighbours :: "stSectorManager \<Rightarrow> int \<Rightarrow> int \<Rightarrow> st_Sector_Pos set" where
  "neighbours mgr x y = {Sector_Pos a b | a b. in_world mgr a b \<and> \<bar>a - x\<bar> \<le> 1 \<and> \<bar>b - y\<bar> \<le> 1}"

lemma set_fold_insort: "set (fold (\<lambda>c. insort_insert (f c)) cs xs) = f ` set cs \<union> set xs"
  by (induction cs arbitrary: xs) (auto simp: set_insort_insert)

lemma sorted_fold_insort:
  "sorted xs \<Longrightarrow> distinct xs \<Longrightarrow> sorted (fold (\<lambda>c. insort_insert (f c)) cs xs) \<and> distinct (fold (\<lambda>c. insort_insert (f c)) cs xs)"
  by (induction cs arbitrary: xs) (auto simp: sorted_insort_insert distinct_insort_insert)

lemma SetSectorAround_flat:
  "SetSectorAround mgr x y around =
     fold (\<lambda>(row, column). insort_insert (Sector_Pos (clamp (x + row) 0 (MaxX mgr - 1)) (clamp (y + column) 0 (MaxY mgr - 1))))
       (List.product [-1, 0, 1] [-1, 0, 1]) around"
  by (simp add: SetSectorAround_def)

lemma clamp_near:
  assumes "0 \<le> x" "x < m"
  shows "(\<exists>r \<in> {-1, 0, 1}. a = clamp (x + r) 0 (m - 1)) \<longleftrightarrow> 0 \<le> a \<and> a < m \<and> \<bar>a - x\<bar> \<le> 1"
proof
  assume "0 \<le> a \<and> a < m \<and> \<bar>a - x\<bar> \<le> 1"
  then have "a - x \<in> {-1, 0, 1}" "a = clamp (x + (a - x)) 0 (m - 1)" by (auto simp: clamp_def)
  then show "\<exists>r \<in> {-1, 0, 1}. a = clamp (x + r) 0 (m - 1)" by blast
qed (use assms in \<open>auto simp: clamp_def\<close>)

lemma SetSectorAround_set:
  assumes "in_world mgr x y"
  shows "set (SetSectorAround mgr x y []) = neighbours mgr x y"
proof -
  have "set (SetSectorAround mgr x y []) =
    {Sector_Pos a b | a b. (\<exists>r \<in> {-1, 0, 1}. a = clamp (x + r) 0 (MaxX mgr - 1)) \<and>
                           (\<exists>r \<in> {-1, 0, 1}. b = clamp (y + r) 0 (MaxY mgr - 1))}"
    unfolding SetSectorAround_flat split_beta set_fold_insort by auto
  also have "\<dots> = neighbours mgr x y"
    using assms by (simp only: neighbours_def clamp_near in_world_def) auto
  finally show ?thesis .
qed

lemma SetSectorAround_sorted:
  "sorted (SetSectorAround mgr x y []) \<and> distinct (SetSectorAround mgr x y [])"
  unfolding SetSectorAround_flat split_beta by (rule sorted_fold_insort) simp_all

lemma SetSectorAround_max [simp]:
  "SetSectorAround (mgr\<lparr>cacheSectorAround := c\<rparr>) x y xs = SetSectorAround mgr x y xs"
  by (simp add: SetSectorAround_def)

text \<open>The index of a sector is unique.\<close>

lemma idx_unique:
  fixes m :: int
  assumes "0 \<le> x" "x < m" "0 \<le> x'" "x' < m" "x + m * y = x' + m * y'"
  shows "x = x' \<and> y = y'"
proof -
  have "(x + m * y) div m = (x' + m * y') div m" by (rule arg_cong [OF assms(5)])
  then have "y = y'" using assms(1-4) by simp
  with assms(5) show ?thesis by simp
qed

text \<open>
  The cache after the sectors in \<open>done\<close> have been set: those hold their surroundings, the others
  are empty.
\<close>

definition cache_upto :: "stSectorManager \<Rightarrow> (int \<times> int) set \<Rightarrow> stSectorManager \<Rightarrow> bool" where
  "cache_upto mgr don m \<longleftrightarrow> MaxX m = MaxX mgr \<and> MaxY m = MaxY mgr \<and>
     length (cacheSectorAround m) = nat (MaxX mgr * MaxY mgr) \<and>
     (\<forall>x y. in_world mgr x y \<longrightarrow> cacheSectorAround m ! nat (x + MaxX mgr * y) =
        (if (x, y) \<in> don then SetSectorAround mgr x y [] else []))"

lemma idx_bound: "in_world mgr x y \<Longrightarrow> 0 \<le> x + MaxX mgr * y \<and> x + MaxX mgr * y < MaxX mgr * MaxY mgr"
proof -
  assume w: "in_world mgr x y"
  then have "MaxX mgr * y \<le> MaxX mgr * (MaxY mgr - 1)" by (intro mult_left_mono) (auto simp: in_world_def)
  with w show ?thesis by (simp add: in_world_def right_diff_distrib)
qed

lemma cache_step:
  assumes "cache_upto mgr don m" "in_world mgr x y" "(x, y) \<notin> don"
  shows "cache_upto mgr (insert (x, y) don)
    (let idx = nat (x + MaxX m * y) in m\<lparr>cacheSectorAround := (cacheSectorAround m)[idx :=
        SetSectorAround m x y (cacheSectorAround m ! idx)]\<rparr>)"
proof -
  have mx: "MaxX m = MaxX mgr" "MaxY m = MaxY mgr" and len: "length (cacheSectorAround m) = nat (MaxX mgr * MaxY mgr)"
    and c: "\<And>a b. in_world mgr a b \<Longrightarrow> cacheSectorAround m ! nat (a + MaxX mgr * b) =
        (if (a, b) \<in> don then SetSectorAround mgr a b [] else [])"
    using assms(1) by (auto simp: cache_upto_def)
  have same: "SetSectorAround m = SetSectorAround mgr" by (intro ext) (simp add: SetSectorAround_def mx)
  have lt: "nat (x + MaxX mgr * y) < length (cacheSectorAround m)"
    using idx_bound [OF assms(2)] by (simp add: len nat_less_iff)
  have eq: "nat (a + MaxX mgr * b) = nat (x + MaxX mgr * y) \<longleftrightarrow> a = x \<and> b = y" if "in_world mgr a b" for a b
    using idx_bound [OF that] idx_bound [OF assms(2)] idx_unique [of a "MaxX mgr" x b y] that assms(2)
    by (auto simp: in_world_def nat_eq_iff)
  have "(cacheSectorAround m)[nat (x + MaxX mgr * y) := SetSectorAround mgr x y []] ! nat (a + MaxX mgr * b) =
      (if (a, b) \<in> insert (x, y) don then SetSectorAround mgr a b [] else [])" if "in_world mgr a b" for a b
  proof (cases "a = x \<and> b = y")
    case False
    with eq [OF that] have "nat (x + MaxX mgr * y) \<noteq> nat (a + MaxX mgr * b)" by metis
    then show ?thesis using False c [OF that] by auto
  qed (use lt in auto)
  moreover have "cacheSectorAround m ! nat (x + MaxX mgr * y) = []" using c [OF assms(2)] assms(3) by simp
  ultimately show ?thesis unfolding cache_upto_def Let_def mx same by (simp add: mx len)
qed

lemma cache_column:
  assumes "\<forall>y \<in> set ys. in_world mgr x y \<and> (x, y) \<notin> don" "distinct ys" "cache_upto mgr don m"
  shows "cache_upto mgr (don \<union> {x} \<times> set ys)
    (fold (\<lambda>y m. let idx = nat (x + MaxX m * y) in m\<lparr>cacheSectorAround := (cacheSectorAround m)[idx :=
        SetSectorAround m x y (cacheSectorAround m ! idx)]\<rparr>) ys m)"
  using assms
proof (induction ys arbitrary: m don)
  case Nil
  then show ?case by simp
next
  case (Cons y ys)
  from Cons.prems have "cache_upto mgr (insert (x, y) don) (let idx = nat (x + MaxX m * y) in
      m\<lparr>cacheSectorAround := (cacheSectorAround m)[idx := SetSectorAround m x y (cacheSectorAround m ! idx)]\<rparr>)"
    by (intro cache_step) auto
  from Cons.IH [OF _ _ this] Cons.prems show ?case by (auto simp: insert_Times_insert)
qed

lemma cache_all:
  assumes "\<forall>x \<in> set xs. 0 \<le> x \<and> x < MaxX mgr" "distinct xs" "\<forall>x \<in> set xs. \<forall>y. (x, y) \<notin> don" "cache_upto mgr don m"
  shows "cache_upto mgr (don \<union> set xs \<times> {0..MaxY mgr - 1})
    (fold (\<lambda>x. fold (\<lambda>y m. let idx = nat (x + MaxX m * y) in m\<lparr>cacheSectorAround := (cacheSectorAround m)[idx :=
        SetSectorAround m x y (cacheSectorAround m ! idx)]\<rparr>) [0..MaxY mgr - 1]) xs m)"
  using assms
proof (induction xs arbitrary: m don)
  case Nil
  then show ?case by simp
next
  case (Cons x xs)
  from Cons.prems have "cache_upto mgr (don \<union> {x} \<times> set [0..MaxY mgr - 1])
     (fold (\<lambda>y m. let idx = nat (x + MaxX m * y) in m\<lparr>cacheSectorAround := (cacheSectorAround m)[idx :=
        SetSectorAround m x y (cacheSectorAround m ! idx)]\<rparr>) [0..MaxY mgr - 1] m)"
    by (intro cache_column) (auto simp: in_world_def)
  from Cons.IH [OF _ _ _ this] Cons.prems
  show ?case by (simp add: Un_assoc Sigma_Un_distrib1 [symmetric]) (auto simp: insert_Times_insert)
qed

lemma Initalize_cache: "cache_upto mgr {(x, y). in_world mgr x y} (Initalize mgr)"
proof -
  let ?m = "mgr\<lparr>cacheSectorAround := replicate (nat (MaxX mgr * MaxY mgr)) []\<rparr>"
  have "replicate (nat (MaxX mgr * MaxY mgr)) [] ! nat (x + MaxX mgr * y) = []" if "in_world mgr x y" for x y
    using idx_bound [OF that] by (simp add: nat_less_iff)
  then have "cache_upto mgr {} ?m" unfolding cache_upto_def by (intro conjI allI impI) simp_all
  then have "cache_upto mgr ({} \<union> set [0..MaxX mgr - 1] \<times> {0..MaxY mgr - 1}) (Initalize mgr)"
    unfolding Initalize_def by (intro cache_all) auto
  moreover have "{} \<union> set [0..MaxX mgr - 1] \<times> {0..MaxY mgr - 1} = {(x, y). in_world mgr x y}"
    by (auto simp: in_world_def)
  ultimately show ?thesis by (simp only:)
qed

lemma GetSectorAround_Initalize:
  assumes "in_world mgr x y"
  shows "GetSectorAround (Initalize mgr) x y = Some (SetSectorAround mgr x y [])"
proof -
  have c: "MaxX (Initalize mgr) = MaxX mgr" "length (cacheSectorAround (Initalize mgr)) = nat (MaxX mgr * MaxY mgr)"
    "cacheSectorAround (Initalize mgr) ! nat (x + MaxX mgr * y) = SetSectorAround mgr x y []"
    using Initalize_cache [of mgr] assms by (auto simp: cache_upto_def)
  have "0 \<le> MaxX mgr * MaxY mgr" using idx_bound [OF assms] by linarith
  then show ?thesis using idx_bound [OF assms] by (simp add: GetSectorAround_def Let_def c)
qed

text \<open>
  C40: after \<^verbatim>\<open>Initalize\<close>, \<^verbatim>\<open>GetSectorAround\<close> answers for every sector of the world with exactly the
  sectors at distance at most one that lie in the world, each once and in increasing order.
\<close>

theorem sector_cache_neighbours:
  assumes "0 \<le> x" "x < MaxX mgr" "0 \<le> y" "y < MaxY mgr"
  shows "\<exists>around. GetSectorAround (Initalize mgr) x y = Some around \<and> sorted around \<and> distinct around \<and>
           set around = {Sector_Pos a b | a b. 0 \<le> a \<and> a < MaxX mgr \<and> 0 \<le> b \<and> b < MaxY mgr \<and>
                                               \<bar>a - x\<bar> \<le> 1 \<and> \<bar>b - y\<bar> \<le> 1}"
proof -
  have w: "in_world mgr x y" using assms by (simp add: in_world_def)
  have "neighbours mgr x y = {Sector_Pos a b | a b. 0 \<le> a \<and> a < MaxX mgr \<and> 0 \<le> b \<and> b < MaxY mgr \<and>
                                               \<bar>a - x\<bar> \<le> 1 \<and> \<bar>b - y\<bar> \<le> 1}"
    by (auto simp: neighbours_def in_world_def)
  then show ?thesis
    using GetSectorAround_Initalize [OF w] SetSectorAround_set [OF w] SetSectorAround_sorted by auto
qed

theorem sector_cache_neighbours_witness:
  "\<exists>around. GetSectorAround (Initalize (new_stSectorManager 6400 6400 128)) 0 49 = Some around \<and>
     set around = {Sector_Pos 0 48, Sector_Pos 0 49, Sector_Pos 1 48, Sector_Pos 1 49}"
proof -
  have m: "MaxX (new_stSectorManager 6400 6400 128) = 50" "MaxY (new_stSectorManager 6400 6400 128) = 50"
    by (simp_all add: new_stSectorManager_def)
  have "{Sector_Pos a b | a b. 0 \<le> a \<and> a < (50 :: int) \<and> 0 \<le> b \<and> b < (50 :: int) \<and> \<bar>a - 0\<bar> \<le> 1 \<and> \<bar>b - 49\<bar> \<le> 1} =
      {Sector_Pos 0 48, Sector_Pos 0 49, Sector_Pos 1 48, Sector_Pos 1 49}" by auto
  with sector_cache_neighbours [of 0 "new_stSectorManager 6400 6400 128" 49] show ?thesis by (simp add: m) metis
qed

end
