(* ===== verification/ChatServer.thy ===== *)
theory ChatServer
  imports NetworkRecv Sector "HOL-Library.AList"
begin

text \<open>
  \<^verbatim>\<open>CTestServer\<close> (\<^verbatim>\<open>CMTChattingServer.cpp\<close>), the chatting server on top of \<^verbatim>\<open>CLanServer\<close>: the
  players, the three tables that find them, the sectors, the message queues of the contents threads
  and the handlers. Players are nodes of \<open>players\<close>, named by their index; \<open>player_free\<close> is the
  locked player pool. The hash tables are association lists, iterated in list order; a
  \<^verbatim>\<open>std::set\<close> is an increasing list. As in \<open>Network\<close>, \<open>None\<close> is a crash.

  The balance thread works under the exclusive lock of \<^verbatim>\<open>SessionID_hash\<close>, and the handlers of the
  contents threads under the shared one, so each is one step; but a contents thread holds no lock
  between its own lookup and the handler, and \<^verbatim>\<open>REQ_SECTOR_MOVE\<close> gives the lock back before it uses
  the player. \<open>working\<close> are the messages the contents threads are at: there every access to the
  player or a sector is a step of its own, and any other thread may come between.
\<close>

section \<open>State\<close>

datatype enPlayerState = SessionState | PlayerState | DisConnectState | MaxState

record stPlayer =
  m_ContentsQIdx :: nat
  m_State :: enPlayerState
  m_sessionID :: u64
  m_Timer :: u32
  m_AccountNo :: u64
  m_ID :: "u8 list"
  m_Nickname :: "u8 list"
  m_SessionKey :: "u8 list"
  iSectorX :: int
  iSectorY :: int
  m_ipAddress :: "u8 list"
  m_port :: u16

definition new_stPlayer :: stPlayer where
  "new_stPlayer =
     \<lparr>m_ContentsQIdx = 0, m_State = MaxState, m_sessionID = 0, m_Timer = 0, m_AccountNo = 0,
      m_ID = replicate 40 0, m_Nickname = replicate 40 0, m_SessionKey = replicate 64 0,
      iSectorX = 0, iSectorY = 0, m_ipAddress = replicate 16 0, m_port = 0\<rparr>"

definition stPlayer_Initalize :: "stPlayer \<Rightarrow> stPlayer" where
  "stPlayer_Initalize p =
     p\<lparr>m_State := MaxState, m_sessionID := 0, m_Timer := 0, m_AccountNo := 0,
       iSectorX := 0, iSectorY := 0\<rparr>"

text \<open>Where a contents thread stands: before the handler, or before an access of \<^verbatim>\<open>REQ_SECTOR_MOVE\<close>.\<close>

datatype job_stage = Dispatch | MoveCheckX | MoveCheckY | MoveReadX | MoveReadY | MoveWriteX | MoveWriteY
  | MoveAccount | MoveErase | MoveInsert | MoveAnswer

record contents_job =
  job_queue :: nat
  job_session :: u64
  job_msg :: nat
  job_type :: u16
  job_stage :: job_stage
  mv_account :: u64
  mv_X :: u16
  mv_Y :: u16
  mv_player :: nat
  mv_beforeX :: u16
  mv_beforeY :: u16

record CTestServer = CLanServer +
  m_CotentsQ_vec :: "nat list list"
  balanceVec :: "u32 list"
  m_AllocMsgCount :: int
  m_NetworkMsgCount :: int
  m_AllocLimitCnt :: int
  m_prePlayerCount :: int
  m_TotalPlayers :: int
  players :: "stPlayer list"
  player_free :: "nat list"
  AccountNo_hash :: "(u64 \<times> nat) list"
  SessionID_hash :: "(u64 \<times> nat) list"
  prePlayer_hash :: "(u64 \<times> nat) list"
  g_Sector :: "st_Sector_Pos \<Rightarrow> u64 list"
  m_sectorManager :: stSectorManager
  m_RecvMsgArr :: "int list"
  m_UpdateTPS :: int
  working :: "contents_job list"

text \<open>What a handler takes from outside: the redis table, the clock, the random key and junk.\<close>

record chat_env =
  redis :: "u64 \<Rightarrow> redis_reply"
  now :: u32
  rand_key :: u8
  header_junk :: "u8 list"

definition upd_player :: "nat \<Rightarrow> (stPlayer \<Rightarrow> stPlayer) \<Rightarrow> CTestServer \<Rightarrow> CTestServer" where
  "upd_player p f s = s\<lparr>players := (players s)[p := f (players s ! p)]\<rparr>"

definition count_msg :: "u16 \<Rightarrow> int \<Rightarrow> CTestServer \<Rightarrow> CTestServer" where
  "count_msg ty k s = s\<lparr>m_RecvMsgArr := (m_RecvMsgArr s)[unat ty := m_RecvMsgArr s ! unat ty + k]\<rparr>"

text \<open>The frequent ends of a handler: drop the message and cut the session, in either order.\<close>

definition release_then_disconnect :: "nat \<Rightarrow> u64 \<Rightarrow> CTestServer \<Rightarrow> CTestServer option" where
  "release_then_disconnect n SessionID s =
     do { s1 \<leftarrow> msg_Release n s; (_, s2) \<leftarrow> Disconnect SessionID s1; Some s2 }"

definition disconnect_then_release :: "nat \<Rightarrow> u64 \<Rightarrow> CTestServer \<Rightarrow> CTestServer option" where
  "disconnect_then_release n SessionID s =
     do { (_, s1) \<leftarrow> Disconnect SessionID s; msg_Release n s1 }"

text \<open>
  The handlers return the state and the exception that leaves them. A builder that throws leaves
  the message to the catcher, which only releases it.
\<close>

definition quiet :: "CTestServer option \<Rightarrow> CTestServer option \<times> msg_error option" where
  "quiet r = (r, None)"

definition send_response ::
  "u64 \<Rightarrow> nat \<Rightarrow> msg_error + CMessage \<Rightarrow> u8 \<Rightarrow> u64 list \<Rightarrow> (CTestServer \<Rightarrow> CTestServer) \<Rightarrow> CTestServer
   \<Rightarrow> CTestServer option \<times> msg_error option" where
  "send_response SessionID n built SendType ids after s =
     (case built of
        Inl MemFault \<Rightarrow> (None, None)
      | Inl e \<Rightarrow> (Some s, Some e)
      | Inr m \<Rightarrow> quiet (map_option after (SendPacket SessionID n SendType ids (set_msg n m s))))"

section \<open>Login\<close>

text \<open>The contents queue with the fewest players, the first of them, from queue 1 on.\<close>

fun least_queue :: "u32 list \<Rightarrow> nat \<Rightarrow> u32 \<Rightarrow> nat \<Rightarrow> nat" where
  "least_queue [] i mn idx = idx"
| "least_queue (element # es) i mn idx =
     (if mn > element then least_queue es (Suc i) element i else least_queue es (Suc i) mn idx)"

definition choose_queue :: "u32 list \<Rightarrow> nat" where
  "choose_queue vec = least_queue (tl vec) 1 0x7FFFFFFF 1"

text \<open>
  An exception of redis is no \<^verbatim>\<open>MessageException\<close>: nothing catches it, and the program ends.
  \<open>key_string\<close> is the key as the C string that \<^verbatim>\<open>std::string::compare\<close> sees.
\<close>

definition key_string :: "u8 list \<Rightarrow> u8 list" where
  "key_string SessionKey = takeWhile (\<lambda>c. c \<noteq> 0) (take 64 SessionKey)"

definition REQ_LOGIN_handler ::
  "chat_env \<Rightarrow> u64 \<Rightarrow> nat \<Rightarrow> u64 \<Rightarrow> u8 list \<Rightarrow> u8 list \<Rightarrow> u8 list \<Rightarrow> CTestServer \<Rightarrow> CTestServer option \<times> msg_error option" where
  "REQ_LOGIN_handler env SessionID n AccountNo ID Nickname SessionKey s =
     (case redis env AccountNo of
        Redis_throws \<Rightarrow> (None, None)
      | Redis_null \<Rightarrow> quiet (release_then_disconnect n SessionID s)
      | Redis_string sessionKey \<Rightarrow>
          if sessionKey \<noteq> key_string SessionKey then quiet (release_then_disconnect n SessionID s)
          else case map_of (prePlayer_hash s) SessionID of
            None \<Rightarrow> quiet (release_then_disconnect n SessionID s)
          | Some player \<Rightarrow>
              if m_State (players s ! player) \<noteq> SessionState then quiet (release_then_disconnect n SessionID s)
              else case (case map_of (AccountNo_hash s) AccountNo of
                           Some old \<Rightarrow> map_option snd (Disconnect (m_sessionID (players s ! old)) s)
                         | None \<Rightarrow> Some s) of
                None \<Rightarrow> (None, None)
              | Some s1 \<Rightarrow>
                  let vec = (balanceVec s1)[0 := balanceVec s1 ! 0 - 1];
                      idx = choose_queue vec
                  in if length vec \<le> idx then (None, None)
                     else
                     let s2 = s1\<lparr>balanceVec := vec[idx := vec ! idx + 1]\<rparr>;
                         s3 = upd_player player (\<lambda>p. p\<lparr>m_State := PlayerState, m_AccountNo := AccountNo,
                                m_ID := take 20 ID @ drop 20 (m_ID p),
                                m_Nickname := take 20 Nickname @ drop 20 (m_Nickname p),
                                m_SessionKey := take 64 SessionKey, m_ContentsQIdx := idx\<rparr>) s2;
                         s4 = s3\<lparr>SessionID_hash := AList.update SessionID player (SessionID_hash s3),
                                 AccountNo_hash := AList.update AccountNo player (AccountNo_hash s3),
                                 prePlayer_hash := AList.delete SessionID (prePlayer_hash s3),
                                 m_TotalPlayers := m_TotalPlayers s3 + 1,
                                 m_prePlayerCount := m_prePlayerCount s3 - 1\<rparr>
                     in send_response SessionID n
                          (RES_LOGIN (bEnCording s4) (header_junk env) (rand_key env) (heap s4 ! n) 1 AccountNo) 0 []
                          (\<lambda>s. upd_player player (m_Timer_update (\<lambda>_. now env)) (count_msg en_PACKET_CS_CHAT_RES_LOGIN 1 s)) s4)"

section \<open>Moving\<close>

definition sector_erase :: "int \<Rightarrow> int \<Rightarrow> u64 \<Rightarrow> CTestServer \<Rightarrow> CTestServer" where
  "sector_erase x y sid s =
     s\<lparr>g_Sector := (g_Sector s)(Sector_Pos x y := remove1 sid (g_Sector s (Sector_Pos x y)))\<rparr>"

definition sector_insert :: "int \<Rightarrow> int \<Rightarrow> u64 \<Rightarrow> CTestServer \<Rightarrow> CTestServer" where
  "sector_insert x y sid s =
     s\<lparr>g_Sector := (g_Sector s)(Sector_Pos x y := insort_insert sid (g_Sector s (Sector_Pos x y)))\<rparr>"

text \<open>
  The handler up to the lookup; with a player it goes on in \<open>job_step\<close>. \<open>q\<close> is the queue of its
  thread.
\<close>

definition REQ_SECTOR_MOVE_handler ::
  "nat \<Rightarrow> u64 \<Rightarrow> nat \<Rightarrow> u64 \<Rightarrow> u16 \<Rightarrow> u16 \<Rightarrow> CTestServer \<Rightarrow> CTestServer option \<times> msg_error option" where
  "REQ_SECTOR_MOVE_handler q SessionID n AccountNo SectorX SectorY s =
     (if uint SectorX \<ge> MaxX (m_sectorManager s) \<or> uint SectorY \<ge> MaxY (m_sectorManager s)
      then quiet (disconnect_then_release n SessionID s)
      else case map_of (SessionID_hash s) SessionID of
        None \<Rightarrow> quiet (msg_Release n s)
      | Some player \<Rightarrow>
          quiet (Some (s\<lparr>working :=
            \<lparr>job_queue = q, job_session = SessionID, job_msg = n, job_type = en_PACKET_CS_CHAT_REQ_SECTOR_MOVE,
             job_stage = MoveCheckX, mv_account = AccountNo, mv_X = SectorX, mv_Y = SectorY, mv_player = player,
             mv_beforeX = 0, mv_beforeY = 0\<rparr> # working s\<rparr>)))"

section \<open>Talking\<close>

definition receivers :: "CTestServer \<Rightarrow> st_Sector_Around \<Rightarrow> u64 list" where
  "receivers s around =
     concat (map (\<lambda>pos. filter (\<lambda>id. map_of (SessionID_hash s) id \<noteq> None) (g_Sector s pos)) around)"

definition REQ_MESSAGE_handler ::
  "chat_env \<Rightarrow> u64 \<Rightarrow> nat \<Rightarrow> u64 \<Rightarrow> u16 \<Rightarrow> u8 list \<Rightarrow> CTestServer \<Rightarrow> CTestServer option \<times> msg_error option" where
  "REQ_MESSAGE_handler env SessionID n AccountNo MessageLen MessageBuffer s =
     (case map_of (SessionID_hash s) SessionID of
        None \<Rightarrow> quiet (disconnect_then_release n SessionID s)
      | Some player \<Rightarrow>
          let p = players s ! player in
          if m_AccountNo p \<noteq> AccountNo then quiet (disconnect_then_release n SessionID s)
          else case GetSectorAround (m_sectorManager s) (iSectorX p) (iSectorY p) of
            None \<Rightarrow> (None, None)
          | Some around \<Rightarrow>
              let sendID = receivers s around;
                  s1 = count_msg en_PACKET_CS_CHAT_RES_MESSAGE (int (length sendID)) s
              in send_response SessionID n
                   (RES_MESSAGE (bEnCording s1) (header_junk env) (rand_key env) (heap s1 ! n) AccountNo
                      (m_ID p) (m_Nickname p) MessageLen MessageBuffer) 1 sendID id s1)"

definition HEARTBEAT_handler :: "chat_env \<Rightarrow> u64 \<Rightarrow> nat \<Rightarrow> CTestServer \<Rightarrow> CTestServer option \<times> msg_error option" where
  "HEARTBEAT_handler env SessionID n s =
     (case map_of (SessionID_hash s) SessionID of
        None \<Rightarrow> quiet (release_then_disconnect n SessionID s)
      | Some player \<Rightarrow> quiet (msg_Release n (upd_player player (m_Timer_update (\<lambda>_. now env)) s)))"

text \<open>The dispatcher of \<open>Packet\<close> with these handlers.\<close>

definition handle_request ::
  "chat_env \<Rightarrow> nat \<Rightarrow> u64 \<Rightarrow> nat \<Rightarrow> CTestServer option \<Rightarrow> request \<Rightarrow> CMessage \<Rightarrow> CTestServer option \<times> msg_error option" where
  "handle_request env q SessionID n st req m =
     (case st of
        None \<Rightarrow> (None, None)
      | Some s0 \<Rightarrow>
          let s = set_msg n m s0 in
          case req of
            REQ_LOGIN a i k key \<Rightarrow> REQ_LOGIN_handler env SessionID n a i k key s
          | REQ_SECTOR_MOVE a x y \<Rightarrow> REQ_SECTOR_MOVE_handler q SessionID n a x y s
          | REQ_MESSAGE a len buf \<Rightarrow> REQ_MESSAGE_handler env SessionID n a len buf s
          | HEARTBEAT \<Rightarrow> HEARTBEAT_handler env SessionID n s)"

definition chat_PacketProc :: "chat_env \<Rightarrow> nat \<Rightarrow> u64 \<Rightarrow> nat \<Rightarrow> u16 \<Rightarrow> CTestServer \<Rightarrow> bool \<times> CTestServer option" where
  "chat_PacketProc env q SessionID n wType s =
     PacketProc (handle_request env q SessionID n) (Some s) (heap s ! n) wType"

section \<open>Arrival and departure\<close>

definition en_PACKET_Player_Alloc :: u16 where "en_PACKET_Player_Alloc = 200"
definition en_PACKET_Player_Delete :: u16 where "en_PACKET_Player_Delete = 201"

text \<open>
  \<^verbatim>\<open>AllocPlayer\<close>. The two reads of the address throw \<^verbatim>\<open>HasNotData\<close> on a message that is too
  short; nothing catches it, which ends the program.
\<close>

definition AllocPlayer :: "chat_env \<Rightarrow> nat \<Rightarrow> CTestServer \<Rightarrow> CTestServer option" where
  "AllocPlayer env n s =
     (let s1 = s\<lparr>m_AllocMsgCount := m_AllocMsgCount s - 1\<rparr>;
          SessionID = msg_owner (heap s1 ! n)
      in if map_of (prePlayer_hash s1) SessionID \<noteq> None then release_then_disconnect n SessionID s1
         else case player_free s1 of
           [] \<Rightarrow> release_then_disconnect n SessionID s1
         | player # rest \<Rightarrow>
             case GetData (heap s1 ! n) 16 of
               Inl e \<Rightarrow> None
             | Inr (ip, m1) \<Rightarrow>
               (case msg_shr m1 2 of
                  Inl e \<Rightarrow> None
                | Inr (port, m2) \<Rightarrow>
                    let s2 = set_msg n m2
                          (upd_player player
                             (\<lambda>p. (stPlayer_Initalize p)\<lparr>m_Timer := now env, m_sessionID := SessionID,
                                    m_State := SessionState, m_ipAddress := ip, m_port := bytes_word port\<rparr>)
                             (s1\<lparr>player_free := rest,
                                 prePlayer_hash := AList.update SessionID player (prePlayer_hash s1)\<rparr>));
                        s3 = s2\<lparr>m_prePlayerCount := m_prePlayerCount s2 + 1,
                                balanceVec := (balanceVec s2)[0 := balanceVec s2 ! 0 + 1],
                                m_NetworkMsgCount := m_NetworkMsgCount s2 - 1\<rparr>
                    in msg_Release n s3))"

definition free_player :: "nat \<Rightarrow> CTestServer \<Rightarrow> CTestServer" where
  "free_player player s =
     (upd_player player (m_State_update (\<lambda>_. DisConnectState)) s)\<lparr>player_free := player # player_free s\<rparr>"

text \<open>The tail both branches of \<^verbatim>\<open>DeletePlayer\<close> share.\<close>

definition delete_done :: "nat \<Rightarrow> CTestServer \<Rightarrow> CTestServer option" where
  "delete_done n s = msg_Release n (s\<lparr>m_NetworkMsgCount := m_NetworkMsgCount s - 1\<rparr>)"

definition DeletePlayer :: "nat \<Rightarrow> CTestServer \<Rightarrow> CTestServer option" where
  "DeletePlayer n s =
     (let SessionID = msg_owner (heap s ! n) in
      case map_of (prePlayer_hash s) SessionID of
        Some player \<Rightarrow>
          delete_done n (free_player player
            (s\<lparr>prePlayer_hash := AList.delete SessionID (prePlayer_hash s),
               m_prePlayerCount := m_prePlayerCount s - 1\<rparr>))
      | None \<Rightarrow>
          (case map_of (SessionID_hash s) SessionID of
             None \<Rightarrow> delete_done n s
           | Some player \<Rightarrow>
               let p = players s ! player;
                   s1 = s\<lparr>SessionID_hash := AList.delete SessionID (SessionID_hash s)\<rparr>;
                   s2 = (if map_of (AccountNo_hash s1) (m_AccountNo p) = Some player
                         then s1\<lparr>AccountNo_hash := AList.delete (m_AccountNo p) (AccountNo_hash s1)\<rparr> else s1);
                   s3 = s2\<lparr>m_TotalPlayers := m_TotalPlayers s2 - 1\<rparr>
               in if iSectorX p \<ge> MaxX (m_sectorManager s3) \<or> iSectorY p \<ge> MaxY (m_sectorManager s3)
                  then disconnect_then_release n SessionID s3
                  else delete_done n (free_player player (sector_erase (iSectorX p) (iSectorY p) SessionID s3))))"

section \<open>The queues\<close>

text \<open>Queue 0 belongs to the balance thread, the others to the contents threads.\<close>

definition target_queue :: "u64 \<Rightarrow> CTestServer \<Rightarrow> nat" where
  "target_queue SessionID s =
     (case map_of (SessionID_hash s) SessionID of None \<Rightarrow> 0 | Some player \<Rightarrow> m_ContentsQIdx (players s ! player))"

definition OnRecv :: "u64 \<Rightarrow> nat \<Rightarrow> CTestServer \<Rightarrow> CTestServer option" where
  "OnRecv SessionID n s =
     (let q = target_queue SessionID s
      in if length (m_CotentsQ_vec s) \<le> q then None
         else Some (s\<lparr>m_CotentsQ_vec := (m_CotentsQ_vec s)[q := m_CotentsQ_vec s ! q @ [n]]\<rparr>))"

text \<open>The messages the server sends itself. \<open>addr\<close> is the address text, 16 bytes, and the port.\<close>

definition write_all :: "u8 list list \<Rightarrow> CMessage \<Rightarrow> msg_error + CMessage" where
  "write_all bss m = fold (\<lambda>bs r. err_bind r (\<lambda>m. msg_shl m bs)) bss (Inr m)"

definition post_internal :: "u8 list list \<Rightarrow> u64 \<Rightarrow> CTestServer \<Rightarrow> CTestServer option" where
  "post_internal vals SessionID s =
     (let (n, s1) = msg_Alloc s
      in case write_all vals (heap s1 ! n) of
           Inl e \<Rightarrow> None
         | Inr m \<Rightarrow> do { s2 \<leftarrow> OnRecv SessionID n (set_msg n (m\<lparr>msg_owner := SessionID\<rparr>) s1);
                        Some (s2\<lparr>m_NetworkMsgCount := m_NetworkMsgCount s2 + 1\<rparr>) })"

definition OnAccept :: "u64 \<Rightarrow> u8 list \<times> u16 \<Rightarrow> CTestServer \<Rightarrow> (bool \<times> CTestServer) option" where
  "OnAccept SessionID addr s =
     (if length (sessions_vec s) \<le> slot SessionID then None
      else let s1 = s\<lparr>m_AllocMsgCount := m_AllocMsgCount s + 1\<rparr>
           in if m_AllocMsgCount s1 > m_AllocLimitCnt s1
              then Some (False, s1\<lparr>m_AllocMsgCount := m_AllocMsgCount s1 - 1\<rparr>)
              else map_option (\<lambda>s. (True, s))
                     (post_internal [word_bytes 2 en_PACKET_Player_Alloc, take 16 (fst addr), word_bytes 2 (snd addr)]
                        SessionID s1))"

definition OnRelease :: "u64 \<Rightarrow> CTestServer \<Rightarrow> CTestServer option" where
  "OnRelease SessionID s =
     (let s1 = (case map_of (SessionID_hash s) SessionID of
                  None \<Rightarrow> s
                | Some player \<Rightarrow>
                    let q = m_ContentsQIdx (players s ! player)
                    in upd_player player (m_ContentsQIdx_update (\<lambda>_. 0))
                         (s\<lparr>balanceVec := (balanceVec s)[q := balanceVec s ! q - 1]\<rparr>))
      in post_internal [word_bytes 2 en_PACKET_Player_Delete] SessionID s1)"

section \<open>The threads\<close>

text \<open>Taking the packet type off the front message of a queue.\<close>

definition pop_queue :: "nat \<Rightarrow> CTestServer \<Rightarrow> CTestServer" where
  "pop_queue q s = s\<lparr>m_CotentsQ_vec := (m_CotentsQ_vec s)[q := tl (m_CotentsQ_vec s ! q)]\<rparr>"

text \<open>
  \<^verbatim>\<open>Update\<close>, the work of a contents thread on its queue \<open>q\<close>, up to the lookup of the session.
\<close>

definition Update_one :: "chat_env \<Rightarrow> nat \<Rightarrow> CTestServer \<Rightarrow> CTestServer option" where
  "Update_one env q s0 =
     (let n = hd (m_CotentsQ_vec s0 ! q);
          s = pop_queue q s0;
          l_sessionID = msg_owner (heap s ! n)
      in case msg_shr (heap s ! n) 2 of
           Inl e \<Rightarrow> release_then_disconnect n l_sessionID s
         | Inr (ty, m) \<Rightarrow>
             let wType = bytes_word ty :: u16; s1 = set_msg n m s in
             if wType = en_PACKET_Player_Alloc \<or> wType = en_PACKET_Player_Delete \<or> wType = en_PACKET_CS_CHAT_REQ_LOGIN
             then release_then_disconnect n l_sessionID s1
             else case map_of (SessionID_hash s1) l_sessionID of
               None \<Rightarrow> msg_Release n s1
             | Some player \<Rightarrow>
                 let s2 = upd_player player (m_Timer_update (\<lambda>_. now env)) s1
                 in Some (s2\<lparr>working :=
                      \<lparr>job_queue = q, job_session = l_sessionID, job_msg = n, job_type = wType, job_stage = Dispatch,
                       mv_account = 0, mv_X = 0, mv_Y = 0, mv_player = 0, mv_beforeX = 0, mv_beforeY = 0\<rparr> # working s2\<rparr>))"

text \<open>What follows \<^verbatim>\<open>PacketProc\<close>, by its answer.\<close>

definition Update_done :: "contents_job \<Rightarrow> bool \<Rightarrow> CTestServer \<Rightarrow> CTestServer option" where
  "Update_done j ok s =
     map_option (\<lambda>s. s\<lparr>m_UpdateTPS := m_UpdateTPS s + 1\<rparr>)
       (if ok then Some (count_msg (job_type j) 1 s) else release_then_disconnect (job_msg j) (job_session j) s)"

text \<open>
  One step of the thread that is at the message of \<open>j\<close>: the handler, or the next access of
  \<^verbatim>\<open>REQ_SECTOR_MOVE\<close> to the player it has looked up, whoever has the player by now.
\<close>

definition job_step :: "chat_env \<Rightarrow> contents_job \<Rightarrow> CTestServer \<Rightarrow> CTestServer option" where
  "job_step env j s0 =
     (let s = s0\<lparr>working := remove1 j (working s0)\<rparr>;
          n = job_msg j; SessionID = job_session j; p = players s ! mv_player j;
          goto = (\<lambda>j' s. Some (s\<lparr>working := j' # working s\<rparr>));
          refuse = Option.bind (disconnect_then_release n SessionID s) (Update_done j True)
      in case job_stage j of
           Dispatch \<Rightarrow>
             (case chat_PacketProc env (job_queue j) SessionID n (job_type j) s of
                (_, None) \<Rightarrow> None
              | (ok, Some s1) \<Rightarrow> if n \<in> job_msg ` set (working s1) then Some s1 else Update_done j ok s1)
         | MoveCheckX \<Rightarrow>
             (if iSectorX p \<ge> MaxX (m_sectorManager s) then refuse else goto (j\<lparr>job_stage := MoveCheckY\<rparr>) s)
         | MoveCheckY \<Rightarrow>
             (if iSectorY p \<ge> MaxY (m_sectorManager s) then refuse else goto (j\<lparr>job_stage := MoveReadX\<rparr>) s)
         | MoveReadX \<Rightarrow> goto (j\<lparr>job_stage := MoveReadY, mv_beforeX := of_int (iSectorX p)\<rparr>) s
         | MoveReadY \<Rightarrow> goto (j\<lparr>job_stage := MoveWriteX, mv_beforeY := of_int (iSectorY p)\<rparr>) s
         | MoveWriteX \<Rightarrow>
             goto (j\<lparr>job_stage := MoveWriteY\<rparr>) (upd_player (mv_player j) (iSectorX_update (\<lambda>_. uint (mv_X j))) s)
         | MoveWriteY \<Rightarrow>
             goto (j\<lparr>job_stage := MoveAccount\<rparr>) (upd_player (mv_player j) (iSectorY_update (\<lambda>_. uint (mv_Y j))) s)
         | MoveAccount \<Rightarrow> (if m_AccountNo p \<noteq> mv_account j then refuse else goto (j\<lparr>job_stage := MoveErase\<rparr>) s)
         | MoveErase \<Rightarrow>
             goto (j\<lparr>job_stage := MoveInsert\<rparr>) (sector_erase (uint (mv_beforeX j)) (uint (mv_beforeY j)) SessionID s)
         | MoveInsert \<Rightarrow>
             goto (j\<lparr>job_stage := MoveAnswer\<rparr>) (sector_insert (uint (mv_X j)) (uint (mv_Y j)) SessionID s)
         | MoveAnswer \<Rightarrow>
             (case send_response SessionID n
                     (RES_SECTOR_MOVE (bEnCording s) (header_junk env) (rand_key env) (heap s ! n) (mv_account j) (mv_X j) (mv_Y j))
                     0 [] (count_msg en_PACKET_CS_CHAT_RES_SECTOR_MOVE 1) s of
                (None, e) \<Rightarrow> None
              | (Some s1, e) \<Rightarrow> Update_done j (e = None) s1))"

text \<open>
  The thread alone: it stays at its message until it is done, at most eleven steps, before it
  takes the next. No handler adds to a contents queue, so the loop runs once per message queued.
\<close>

primrec finish_job :: "nat \<Rightarrow> chat_env \<Rightarrow> nat \<Rightarrow> CTestServer \<Rightarrow> CTestServer option" where
  "finish_job 0 env q s = Some s"
| "finish_job (Suc k) env q s =
     (case List.find (\<lambda>j. job_queue j = q) (working s) of
        None \<Rightarrow> Some s
      | Some j \<Rightarrow> Option.bind (job_step env j s) (finish_job k env q))"

primrec Update_n :: "nat \<Rightarrow> chat_env \<Rightarrow> nat \<Rightarrow> CTestServer \<Rightarrow> CTestServer option" where
  "Update_n 0 env q s = Some s"
| "Update_n (Suc k) env q s =
     do { s1 \<leftarrow> Update_one env q s; s2 \<leftarrow> finish_job 11 env q s1; Update_n k env q s2 }"

definition Update :: "chat_env \<Rightarrow> nat \<Rightarrow> CTestServer \<Rightarrow> CTestServer option" where
  "Update env q s = Update_n (length (m_CotentsQ_vec s ! q)) env q s"

text \<open>
  One message of \<^verbatim>\<open>BalanceUpdate\<close>. Its \<^verbatim>\<open>switch\<close> has no default: any other packet is dropped
  without giving its message back.
\<close>

definition BalanceUpdate_one :: "chat_env \<Rightarrow> CTestServer \<Rightarrow> CTestServer option" where
  "BalanceUpdate_one env s0 =
     (let n = hd (m_CotentsQ_vec s0 ! 0);
          s = pop_queue 0 s0;
          l_sessionID = msg_owner (heap s ! n)
      in case msg_shr (heap s ! n) 2 of
           Inl e \<Rightarrow> release_then_disconnect n l_sessionID s
         | Inr (ty, m) \<Rightarrow>
             let wType = bytes_word ty :: u16; s1 = set_msg n m s in
             if wType = en_PACKET_Player_Alloc then AllocPlayer env n s1
             else if wType = en_PACKET_Player_Delete then DeletePlayer n s1
             else if wType = en_PACKET_CS_CHAT_REQ_LOGIN then
               (case chat_PacketProc env 0 l_sessionID n wType s1 of
                  (_, None) \<Rightarrow> None
                | (False, Some s2) \<Rightarrow> release_then_disconnect n l_sessionID s2
                | (True, Some s2) \<Rightarrow> Some s2)
             else Some s1)"

primrec BalanceUpdate_n :: "nat \<Rightarrow> chat_env \<Rightarrow> CTestServer \<Rightarrow> CTestServer option" where
  "BalanceUpdate_n 0 env s = Some s"
| "BalanceUpdate_n (Suc k) env s = Option.bind (BalanceUpdate_one env s) (BalanceUpdate_n k env)"

definition timed_out :: "u32 \<Rightarrow> u32 \<Rightarrow> u32 \<Rightarrow> bool" where
  "timed_out limit currentTime playerTime \<longleftrightarrow> limit \<le> currentTime - playerTime \<and> playerTime < currentTime"

primrec HeartBeat_scan :: "u32 \<Rightarrow> u32 \<Rightarrow> (u64 \<times> nat) list \<Rightarrow> CTestServer \<Rightarrow> CTestServer option" where
  "HeartBeat_scan limit currentTime [] s = Some s"
| "HeartBeat_scan limit currentTime (e # es) s =
     (let player = players s ! snd e
      in if timed_out limit currentTime (m_Timer player)
         then do { (_, s1) \<leftarrow> Disconnect (m_sessionID player) s; HeartBeat_scan limit currentTime es s1 }
         else HeartBeat_scan limit currentTime es s)"

definition HeartBeat :: "chat_env \<Rightarrow> CTestServer \<Rightarrow> CTestServer option" where
  "HeartBeat env s =
     do { s1 \<leftarrow> HeartBeat_scan 15000 (now env) (prePlayer_hash s) s;
          HeartBeat_scan 30000 (now env) (AccountNo_hash s1) s1 }"

definition BalanceUpdate :: "chat_env \<Rightarrow> CTestServer \<Rightarrow> CTestServer option" where
  "BalanceUpdate env s =
     Option.bind (BalanceUpdate_n (length (m_CotentsQ_vec s ! 0)) env s) (HeartBeat env)"

text \<open>
  One turn of \<^verbatim>\<open>BalanceThread\<close>; \<open>off\<close> is whether the wait ended with the server-off event. The
  result says whether the thread ends, which it does when every table and its queue are empty.
\<close>

definition BalanceThread_step :: "chat_env \<Rightarrow> bool \<Rightarrow> CTestServer \<Rightarrow> (bool \<times> CTestServer) option" where
  "BalanceThread_step env off s =
     do { s1 \<leftarrow> BalanceUpdate env s;
          if off \<and> prePlayer_hash s1 = [] \<and> AccountNo_hash s1 = [] \<and> SessionID_hash s1 = [] \<and> m_CotentsQ_vec s1 ! 0 = []
          then Some (True, SignalOnForStop s1) else Some (False, s1) }"

section \<open>Construction\<close>

definition m_maxPlayers :: nat where "m_maxPlayers = 20000"

definition new_CTestServer :: "nat \<Rightarrow> bool \<Rightarrow> nat \<Rightarrow> int \<Rightarrow> CTestServer" where
  "new_CTestServer ContentsThreadCnt iEncording sendLimit maxLen =
     CLanServer.extend (new_CLanServer iEncording sendLimit maxLen)
       \<lparr>m_CotentsQ_vec = replicate (ContentsThreadCnt + 1) [], balanceVec = replicate (ContentsThreadCnt + 1) 0,
        m_AllocMsgCount = 0, m_NetworkMsgCount = 0, m_AllocLimitCnt = 10000, m_prePlayerCount = 0,
        m_TotalPlayers = 0, players = replicate m_maxPlayers new_stPlayer, player_free = rev [0..<m_maxPlayers],
        AccountNo_hash = [], SessionID_hash = [], prePlayer_hash = [], g_Sector = (\<lambda>_. []),
        m_sectorManager = Initalize (new_stSectorManager 6400 6400 128), m_RecvMsgArr = replicate 8 0,
        m_UpdateTPS = 0, working = []\<rparr>"

end
