(* ===== verification/ChatRecv.thy ===== *)
theory ChatRecv
  imports ChatServer
begin

text \<open>
  The receive path of the chatting server: its \<^verbatim>\<open>OnRecv\<close> meets the contract of the network layer,
  so what arrives on a connection ends up in the queue of the thread that serves it.
\<close>

definition chat_inbox :: "u64 \<Rightarrow> CTestServer \<Rightarrow> nat list" where
  "chat_inbox sid s = m_CotentsQ_vec s ! target_queue sid s"

definition queues_ok :: "CTestServer \<Rightarrow> bool" where
  "queues_ok s \<longleftrightarrow> (\<forall>sid. target_queue sid s < length (m_CotentsQ_vec s))"

lemma chat_more:
  assumes "CLanServer.more s = CLanServer.more (s' :: CTestServer)"
  shows "m_CotentsQ_vec s = m_CotentsQ_vec s'" "SessionID_hash s = SessionID_hash s'" "players s = players s'"
  using assms by (cases s; cases s'; simp)+

lemma target_queue_more:
  "CLanServer.more s = CLanServer.more (s' :: CTestServer) \<Longrightarrow> target_queue sid s = target_queue sid s'"
  using chat_more [of s s'] by (simp add: target_queue_def split: option.split)

lemma OnRecv_contract:
  assumes "queues_ok s"
  shows "\<exists>x. OnRecv sid n s = Some (CLanServer.more_update (\<lambda>_. x) s) \<and>
          queues_ok (CLanServer.more_update (\<lambda>_. x) s) \<and>
          chat_inbox sid (CLanServer.more_update (\<lambda>_. x) s) = chat_inbox sid s @ [n]"
proof -
  let ?q = "target_queue sid s"
  let ?s' = "s\<lparr>m_CotentsQ_vec := (m_CotentsQ_vec s)[?q := m_CotentsQ_vec s ! ?q @ [n]]\<rparr>"
  have q: "?q < length (m_CotentsQ_vec s)" using assms by (simp add: queues_ok_def)
  have eq: "CLanServer.more_update (\<lambda>_. CLanServer.more ?s') s = ?s'" by (cases s) simp
  have t: "target_queue x ?s' = target_queue x s" for x by (simp add: target_queue_def split: option.split)
  have "OnRecv sid n s = Some ?s'" using q by (simp add: OnRecv_def Let_def)
  moreover have "queues_ok ?s'" using assms by (simp add: queues_ok_def t)
  moreover have "chat_inbox sid ?s' = chat_inbox sid s @ [n]" using q by (simp add: chat_inbox_def t)
  ultimately show ?thesis by (intro exI [of _ "CLanServer.more ?s'"]) (simp only: eq)
qed

interpretation chat: recv_client OnRecv chat_inbox queues_ok
proof unfold_locales
  show "chat_inbox sid s = chat_inbox sid s'" if "CLanServer.more s = CLanServer.more s'" for sid s s'
    using chat_more [OF that] target_queue_more [OF that] by (simp add: chat_inbox_def)
  show "queues_ok s = queues_ok s'" if "CLanServer.more s = CLanServer.more s'" for s s'
    using chat_more [OF that] target_queue_more [OF that] by (simp add: queues_ok_def)
qed (rule OnRecv_contract)

section \<open>A session to receive on\<close>

definition sample_session :: clsSession where
  "sample_session = (new_clsSession (replicate 1024 0))\<lparr>m_ioCount := 1, m_blive := 1\<rparr>"

definition sample_server :: CTestServer where
  "sample_server = (new_CTestServer 1 True 5000 5000)\<lparr>sessions_vec := [sample_session], iocp := [Recv 0]\<rparr>"

lemma sample_ring:
  "ring_wf (recv_ring 0 sample_server)" "ring_list (recv_ring 0 sample_server) = []"
  "ring_cap (recv_ring 0 sample_server) = 1023"
  using new_ring_wf [of "replicate 1024 (0 :: u8)"]
  by (simp_all add: recv_ring_def sample_server_def sample_session_def new_clsSession_def)

lemma sample_ready: "recv_ready 0 sample_server" "queues_ok sample_server"
  "m_blive (sessions_vec sample_server ! 0) \<noteq> 0" "max_MsgLen sample_server = 5000"
  "m_SeqID (sessions_vec sample_server ! 0) = 0" "chat_inbox 0 sample_server = []"
proof -
  show "recv_ready 0 sample_server" unfolding recv_ready_def using sample_ring
    by (simp add: pool_ok_def MaxSize_def)
      (simp add: sample_server_def sample_session_def new_clsSession_def new_CTestServer_def new_CLanServer_def
        CLanServer.defs slot_def)
qed (simp_all add: sample_server_def sample_session_def new_clsSession_def new_CTestServer_def new_CLanServer_def
        CLanServer.defs queues_ok_def target_queue_def chat_inbox_def)

section \<open>Properties\<close>


definition sample_frame :: "u8 list" where "sample_frame = wire_frame 0x32 9 [7, 0]"

lemma parse_sample: "parse_frames 0x32 5000 0 sample_frame = ([[7, 0]], Waiting [])"
  using parse_frames_wire [where c = 0 and xs = "[(9, [7, 0])]" and mx = 5000 and r = "[]" and K = "0x32"]
  by (simp add: sample_frame_def sizeof_stHeader_def)

lemma sample_length: "length sample_frame = 7"
  using length_wire_frame [where K = "0x32" and RK = 9 and payload = "[7, 0]"]
  by (simp add: sample_frame_def sizeof_stHeader_def)


text \<open>
  C3: a stream of frames survives any segmentation. Fewer than 150 frames, each with a payload of
  at most 999 bytes and below the configured maximum, arrive on a live session with an empty buffer
  and a pending receive, in chunks cut anywhere, as the kernel can deliver them; every chunk needs
  a receive that was asked for. Then the payloads of all frames, in order, are queued for the
  thread that serves the session, the buffer is empty again, and the session is alive with a
  receive pending: the last thing asked of Windows is a \<^verbatim>\<open>WSARecv\<close> into its free space.
\<close>

theorem frames_survive_segmentation:
  assumes "recv_ready i s" "queues_ok s" "recv_pending i s" "sid = m_SeqID (sessions_vec s ! i)"
    and empty: "ring_list (recv_ring i s) = []" and fit: "chunks_fit (max_MsgLen s) (ring_cap (recv_ring i s)) [] cs"
    and r: "submitted r" and hdr: "length hdr = sizeof_stHeader"
    and few: "length xs < 150" and small: "\<forall>(RK, p) \<in> set xs. length p \<le> 999 \<and> int (length p) < max_MsgLen s"
    and stream: "concat cs = concat (map (\<lambda>(RK, p). wire_frame 0x32 RK p) xs)"
  shows "\<exists>s'. recv_chunks OnRecv OnRelease tps hdr r i cs s = Some s' \<and>
     inbox_grows chat_inbox sid (map snd xs) s s' \<and> recv_ready i s' \<and> ring_list (recv_ring i s') = [] \<and>
     m_blive (sessions_vec s' ! i) \<noteq> 0 \<and> Recv i \<in> set (iocp s') \<and>
     (cs \<noteq> [] \<longrightarrow> last (os_log s') = WSARecv i (recv_wsabufs (recv_ring i s')))"
proof -
  have z: "length ([] :: u8 list) < sizeof_stHeader" by (simp add: sizeof_stHeader_def)
  have "parse_frames 0x32 (max_MsgLen s) 0 (concat cs @ []) = (map snd xs, Waiting [])"
    unfolding stream by (rule parse_frames_wire) (use few small z in simp_all)
  then have "parse_chunks 0x32 (max_MsgLen s) [] cs = (map snd xs, Waiting [])"
    by (intro parse_chunks_whole) (auto simp: parse_frames.simps sizeof_stHeader_def)
  then have p: "parse_chunks 0x32 (max_MsgLen s) (ring_list (recv_ring i s)) cs = (map snd xs, Waiting [])"
    by (simp only: empty)
  have f: "chunks_fit (max_MsgLen s) (ring_cap (recv_ring i s)) (ring_list (recv_ring i s)) cs"
    using fit by (simp only: empty)
  from chat.recv_stream [OF assms(1-4) f p r hdr, where OnRelease = OnRelease and tps = tps] show ?thesis
    unfolding inbox_grows_def recv_pending_def recv_asked_def by blast
qed

theorem frames_survive_segmentation_witness:
  "\<exists>s'. recv_chunks OnRecv OnRelease 1 [0, 0, 0, 0, 0] WsaOk 0 [take 3 sample_frame, drop 3 sample_frame] sample_server = Some s' \<and>
     inbox_grows chat_inbox 0 [[7, 0]] sample_server s' \<and>
     m_blive (sessions_vec s' ! 0) \<noteq> 0 \<and> Recv 0 \<in> set (iocp s')"
proof -
  have pend: "recv_pending 0 sample_server" using sample_ready(3) by (simp add: recv_pending_def) (simp add: sample_server_def)
  have "parse_frames 0x32 5000 0 (take 3 sample_frame) = ([], Waiting (take 3 sample_frame))"
    by (subst parse_frames.simps) (simp add: sample_length sizeof_stHeader_def)
  then have fit: "chunks_fit (max_MsgLen sample_server) (ring_cap (recv_ring 0 sample_server)) [] [take 3 sample_frame, drop 3 sample_frame]"
    using sample_length parse_sample unfolding sample_ready sample_ring by auto
  have h: "length [0, 0, 0, 0, 0 :: u8] = sizeof_stHeader" by (simp add: sizeof_stHeader_def)
  have st: "concat [take 3 sample_frame, drop 3 sample_frame] = concat (map (\<lambda>(RK, p). wire_frame 0x32 RK p) [(9, [7, 0])])"
    by (simp add: sample_frame_def)
  have sub: "submitted WsaOk" by (simp add: submitted_def)
  have small: "\<forall>(RK, p) \<in> set [(9 :: u8, [7, 0 :: u8])]. length p \<le> 999 \<and> int (length p) < max_MsgLen sample_server"
    unfolding sample_ready by simp
  have few: "length [(9 :: u8, [7, 0 :: u8])] < 150" by simp
  from frames_survive_segmentation [OF sample_ready(1,2) pend sample_ready(5) [symmetric] sample_ring(2) fit sub h few small st,
      where tps = 1]
  show ?thesis by (auto simp del: recv_chunks.simps)
qed

end
