(* ===== verification/MsgCount.thy ===== *)
theory MsgCount
  imports NetworkRecv "HOL-Library.Multiset"
begin

text \<open>
  Who holds a message. \<^verbatim>\<open>iUseCnt\<close> is never below the number of places that hold the message: the
  send buffers and the messages in flight of all sessions, what the server above holds, and the
  local pointers of the running function. A node of the pool is held by nobody. So no release ever
  takes the count below zero and no node is used after it went back to the pool.
\<close>

section \<open>The account\<close>

definition session_refs :: "clsSession \<Rightarrow> nat list" where
  "session_refs c = m_sendBuffer c @ m_msgs c"

definition net_refs :: "'a CLanServer_scheme \<Rightarrow> nat multiset" where
  "net_refs s = mset (concat (map session_refs (sessions_vec s)))"

text \<open>
  \<open>L\<close> are the local pointers and \<open>Q\<close> what the server above holds. A message held there has
  exactly one holder. No release has broken into the debugger.
\<close>

definition acct :: "nat multiset \<Rightarrow> nat multiset \<Rightarrow> 'a CLanServer_scheme \<Rightarrow> bool" where
  "acct Q L s \<longleftrightarrow> distinct (msg_free s) \<and> (\<forall>n \<in> set (msg_free s). n < length (heap s)) \<and>
     (\<forall>n \<in># net_refs s + (Q + L). n < length (heap s) \<and> n \<notin> set (msg_free s) \<and>
        int (count (net_refs s + (Q + L)) n) \<le> msg_use (heap s ! n)) \<and>
     (\<forall>n \<in># Q. msg_use (heap s ! n) = 1) \<and> DebugBreak \<notin> set (os_log s)"

lemma acct_elem:
  "acct Q L s \<Longrightarrow> k \<in># net_refs s + (Q + L) \<Longrightarrow>
   k < length (heap s) \<and> k \<notin> set (msg_free s) \<and> int (count (net_refs s + (Q + L)) k) \<le> msg_use (heap s ! k)"
  unfolding acct_def by blast

lemma acct_other:
  assumes "acct Q (add_mset n L) s" "k \<in># net_refs s + (Q + L)"
  shows "k < length (heap s) \<and> k \<notin> set (msg_free s) \<and> int (count (net_refs s + (Q + L)) k) \<le> msg_use (heap s ! k)"
proof -
  have "k \<in># net_refs s + (Q + add_mset n L)" using assms(2) by auto
  from acct_elem [OF assms(1) this] show ?thesis by (auto split: if_splits)
qed

lemma acct_weaken: "acct Q (add_mset n L) s \<Longrightarrow> acct Q L s"
  using acct_other [of Q n L s] unfolding acct_def by blast

text \<open>A message with a single holder above is no local pointer's.\<close>

lemma acct_single: "acct Q L s \<Longrightarrow> k \<in># Q \<Longrightarrow> msg_use (heap s ! k) = 1"
  unfolding acct_def by blast

lemma acct_single_local:
  assumes "acct Q (add_mset n L) s"
  shows "n \<notin># Q"
proof
  assume q: "n \<in># Q"
  have "n \<in># net_refs s + (Q + add_mset n L)" by simp
  then have "int (count (net_refs s + (Q + add_mset n L)) n) \<le> msg_use (heap s ! n)"
    using acct_elem [OF assms] by blast
  moreover have "0 < count Q n" using q by simp
  ultimately show False using acct_single [OF assms q] by simp
qed

text \<open>A local message of count one may go to the server above, and back when it has no other holder.\<close>

lemma acct_queue: "acct Q (add_mset n L) s \<Longrightarrow> msg_use (heap s ! n) = 1 \<Longrightarrow> acct (add_mset n Q) L s"
  by (simp add: acct_def)

lemma acct_unqueue:
  assumes "acct (add_mset n Q) L s"
  shows "acct Q (add_mset n L) s" "n \<notin># net_refs s + (Q + L)" "msg_use (heap s ! n) = 1"
proof -
  show "acct Q (add_mset n L) s" using assms by (simp add: acct_def)
  show u: "msg_use (heap s ! n) = 1" using acct_single [OF assms] by simp
  have "int (count (net_refs s + (add_mset n Q + L)) n) \<le> 1" using acct_elem [OF assms, of n] u by simp
  then have "count (net_refs s + (Q + L)) n = 0" by simp
  then show "n \<notin># net_refs s + (Q + L)" unfolding count_eq_zero_iff .
qed

text \<open>The part of the server the account sees.\<close>

definition msg_part :: "'a CLanServer_scheme \<Rightarrow> CMessage list \<times> nat list \<times> nat list list \<times> bool" where
  "msg_part s = (heap s, msg_free s, map session_refs (sessions_vec s), DebugBreak \<in> set (os_log s))"

lemma acct_part: "msg_part s = msg_part s' \<Longrightarrow> acct Q L s = acct Q L s'"
  by (simp add: acct_def msg_part_def net_refs_def)

lemma map_list_update_same: "g (f (xs ! i)) = g (xs ! i) \<Longrightarrow> map g (xs[i := f (xs ! i)]) = map g xs"
  by (cases "i < length xs") (simp_all add: map_update list_update_beyond list_update_same_conv)

lemma msg_part_upd [simp]:
  "(\<And>c. session_refs (f c) = session_refs c) \<Longrightarrow> msg_part (upd_session i f s) = msg_part s"
  by (simp add: msg_part_def upd_session_def map_list_update_same [where f = f])

lemma session_refs_simps [simp]:
  "session_refs (m_ioCount_update a c) = session_refs c" "session_refs (m_blive_update b c) = session_refs c"
  "session_refs (m_flag_update b c) = session_refs c" "session_refs (m_recvBuffer_update d c) = session_refs c"
  "session_refs (m_SeqID_update b c) = session_refs c" "session_refs (m_sock_update e c) = session_refs c"
  by (simp_all add: session_refs_def)

lemma msg_part_simps [simp]:
  "x \<noteq> DebugBreak \<Longrightarrow> msg_part (os x s) = msg_part s" "msg_part (post e s) = msg_part s" "msg_part (io_add i d s) = msg_part s"
  "msg_part (release_if_zero i sid s) = msg_part s" "msg_part (s\<lparr>iDisCounnectCount := a\<rparr>) = msg_part s"
  "msg_part (s\<lparr>m_RecvTPS := t\<rparr>) = msg_part s" "msg_part (s\<lparr>arrTPS := u\<rparr>) = msg_part s"
  "msg_part (s\<lparr>iocp := v\<rparr>) = msg_part s"
  by (simp_all add: msg_part_def os_def post_def io_add_def upd_session_def release_if_zero_def ReleaseSession_def
      map_list_update_same [where f = "m_ioCount_update (\<lambda>c. c + d)"]
      map_list_update_same [where f = "m_ioCount_update (\<lambda>c. r_flag)"])

lemma part_Disconnect: "Disconnect sid s = Some (b, s') \<Longrightarrow> msg_part s' = msg_part s"
  by (auto simp: Disconnect_def Let_def CancelIO_Routine_def split: if_splits)

lemma part_SessionLock: "SessionLock sid s = Some (b, s') \<Longrightarrow> msg_part s' = msg_part s"
  by (auto simp: SessionLock_def Let_def split: if_splits)

lemma part_SessionUnLock: "SessionUnLock sid s = Some s' \<Longrightarrow> msg_part s' = msg_part s"
  by (auto simp: SessionUnLock_def Let_def split: if_splits)

lemma part_Decrement [simp]: "msg_part (DecrementIoCountAndMaybeDeleteSession i s) = msg_part s"
  by (simp add: DecrementIoCountAndMaybeDeleteSession_def Let_def)

lemma part_RecvPacket [simp]: "msg_part (RecvPacket r i s) = msg_part s"
  by (simp add: RecvPacket_def Let_def WSARecvError_def split: wsa_result.split)

lemma part_length: "msg_part s = msg_part s' \<Longrightarrow> length (sessions_vec s) = length (sessions_vec s')"
  by (auto simp: msg_part_def dest: arg_cong [where f = length])

section \<open>Pool operations\<close>

lemma msg_Release_acct:
  assumes "acct Q (add_mset n L) s"
  shows "\<exists>s'. msg_Release n s = Some s' \<and> acct Q L s' \<and> sessions_vec s' = sessions_vec s \<and>
           CLanServer.more s' = CLanServer.more s"
proof -
  let ?use = "msg_use (heap s ! n) - 1"
  have n: "n < length (heap s)" "n \<notin> set (msg_free s)" "int (count (net_refs s + (Q + L)) n) \<le> ?use"
    and fr: "distinct (msg_free s)" "\<forall>k \<in> set (msg_free s). k < length (heap s)" "DebugBreak \<notin> set (os_log s)"
    using assms by (auto simp: acct_def)
  have other: "k < length (heap s) \<and> k \<notin> set (msg_free s) \<and>
        (k \<noteq> n \<longrightarrow> int (count (net_refs s + (Q + L)) k) \<le> msg_use (heap s ! k))" if "k \<in># net_refs s + (Q + L)" for k
    using acct_other [OF assms that] by simp
  let ?h = "(heap s)[n := (heap s ! n)\<lparr>msg_use := ?use\<rparr>]"
  have sgl: "msg_use (?h ! k) = 1" if "k \<in># Q" for k
    using acct_single [OF assms that] acct_single_local [OF assms] that by (cases "n = k") auto
  have refs: "net_refs (s\<lparr>heap := h\<rparr>) = net_refs s" "net_refs (s\<lparr>heap := h, msg_free := f\<rparr>) = net_refs s" for h f
    by (simp_all add: net_refs_def)
  show ?thesis
  proof (cases "?use = 0")
    case True
    then have "count (net_refs s + (Q + L)) n = 0" using n(3) by simp
    then have gone: "n \<notin># net_refs s + (Q + L)" unfolding count_eq_zero_iff .
    have "acct Q L (s\<lparr>heap := ?h, msg_free := n # msg_free s\<rparr>)"
      using fr n(1,2) other gone sgl unfolding acct_def refs by (auto simp: nth_list_update)
    then show ?thesis using True n by (simp add: msg_Release_def Let_def)
  next
    case False
    have "acct Q L (s\<lparr>heap := ?h\<rparr>)"
      using fr n other sgl unfolding acct_def refs by (auto simp: nth_list_update)
    then show ?thesis using False n by (simp add: msg_Release_def Let_def)
  qed
qed

lemma msg_Release_all_acct:
  assumes "acct Q (mset ns + L) s"
  shows "\<exists>s'. msg_Release_all ns s = Some s' \<and> acct Q L s' \<and> sessions_vec s' = sessions_vec s \<and>
           CLanServer.more s' = CLanServer.more s"
  using assms
proof (induction ns arbitrary: s)
  case Nil
  then show ?case by simp
next
  case (Cons n ns)
  then have "acct Q (add_mset n (mset ns + L)) s" by simp
  from msg_Release_acct [OF this] obtain s1 where "msg_Release n s = Some s1" "acct Q (mset ns + L) s1"
    "sessions_vec s1 = sessions_vec s" "CLanServer.more s1 = CLanServer.more s" by blast
  with Cons.IH [of s1] show ?case by auto
qed

lemma msg_Alloc_acct:
  assumes "acct Q L s" "msg_Alloc s = (n, s')"
  shows "acct Q (add_mset n L) s'" "msg_use (heap s' ! n) = 1" "n \<notin># net_refs s' + (Q + L)"
    "sessions_vec s' = sessions_vec s" "n < length (heap s')"
proof -
  have use: "msg_use (InitMessage m) = 1" for m by (simp add: InitMessage_def)
  have refs: "net_refs s' = net_refs s" and ses: "sessions_vec s' = sessions_vec s" and log: "os_log s' = os_log s"
    using assms(2) by (auto simp: msg_Alloc_def net_refs_def split: list.splits)
  have new: "n \<notin># net_refs s + (Q + L)" using assms by (auto simp: acct_def msg_Alloc_def split: list.splits)
  then have z: "count (net_refs s + (Q + L)) n = 0" unfolding count_eq_zero_iff .
  have k: "k < length (heap s') \<and> k \<notin> set (msg_free s') \<and> heap s' ! k = heap s ! k" if "k \<in># net_refs s + (Q + L)" for k
  proof -
    have "k < length (heap s)" "k \<notin> set (msg_free s)" using assms(1) that by (auto simp: acct_def)
    then show ?thesis using assms(2) by (auto simp: msg_Alloc_def nth_append nth_list_update split: list.splits)
  qed
  have n: "n < length (heap s')" "n \<notin> set (msg_free s')" "msg_use (heap s' ! n) = 1"
    "distinct (msg_free s')" "\<forall>k \<in> set (msg_free s'). k < length (heap s')"
    using assms use by (auto simp: acct_def msg_Alloc_def split: list.splits)
  then show "msg_use (heap s' ! n) = 1" "n < length (heap s')" by blast+
  have c: "int (count (net_refs s + (Q + L)) j) \<le> msg_use (heap s' ! j)" if "j \<in># net_refs s + (Q + L)" for j
    using assms(1) that k [OF that] by (simp add: acct_def del: count_union)
  have "int (count (net_refs s' + (Q + add_mset n L)) j) \<le> msg_use (heap s' ! j)" if "j \<in># net_refs s + (Q + add_mset n L)" for j
  proof (cases "j = n")
    case True
    then show ?thesis using z n(3) by (simp add: refs)
  next
    case False
    then show ?thesis using c [of j] that by (simp add: refs)
  qed
  moreover have "msg_use (heap s' ! j) = 1" if "j \<in># Q" for j
    using acct_single [OF assms(1) that] k [of j] that by simp
  moreover have "DebugBreak \<notin> set (os_log s')" using assms(1) log by (simp add: acct_def)
  ultimately show "acct Q (add_mset n L) s'" using n k unfolding acct_def refs by auto
  show "n \<notin># net_refs s' + (Q + L)" using new unfolding refs .
  show "sessions_vec s' = sessions_vec s" by (rule ses)
qed

lemma net_refs_set_msg [simp]: "net_refs (set_msg n m s) = net_refs s"
  by (simp add: net_refs_def set_msg_def)

lemma set_msg_acct:
  assumes "acct Q L s" "msg_use m = msg_use (heap s ! n)"
  shows "acct Q L (set_msg n m s)"
proof -
  have "msg_use ((heap s)[n := m] ! k) = msg_use (heap s ! k)" for k
    using assms(2) by (cases "k = n \<and> n < length (heap s)") (auto simp: nth_list_update list_update_beyond)
  then show ?thesis using assms(1) unfolding acct_def net_refs_set_msg by (simp add: set_msg_def)
qed

text \<open>The sole holder may rewrite the message, its count included.\<close>

lemma set_msg_sole:
  assumes "acct Q (add_mset n L) s" "n \<notin># net_refs s + (Q + L)" "1 \<le> msg_use m"
  shows "acct Q (add_mset n L) (set_msg n m s)"
proof -
  have z: "count (net_refs s + (Q + L)) n = 0" using assms(2) unfolding count_eq_zero_iff .
  have n: "n < length (heap s)" "n \<notin> set (msg_free s)" using assms(1) by (auto simp: acct_def)
  have k: "k < length (heap s) \<and> k \<notin> set (msg_free s) \<and>
      int (count (net_refs s + (Q + add_mset n L)) k) \<le> msg_use ((heap s)[n := m] ! k)"
    if "k \<in># net_refs s + (Q + add_mset n L)" for k
  proof (cases "k = n")
    case True
    then show ?thesis using n z assms(3) by simp
  next
    case False
    then show ?thesis using acct_elem [OF assms(1) that] by simp
  qed
  have sgl: "msg_use ((heap s)[n := m] ! k) = 1" if "k \<in># Q" for k
    using acct_single [OF assms(1) that] acct_single_local [OF assms(1)] that by (cases "n = k") auto
  show ?thesis
    using assms(1) k sgl unfolding acct_def net_refs_set_msg by (simp add: set_msg_def)
qed

section \<open>Session buffers\<close>

text \<open>The references of the other sessions.\<close>

definition others :: "nat \<Rightarrow> 'a CLanServer_scheme \<Rightarrow> nat multiset" where
  "others i s = mset (concat (map session_refs (take i (sessions_vec s) @ drop (Suc i) (sessions_vec s))))"

lemma net_refs_split: "i < length (sessions_vec s) \<Longrightarrow> net_refs s = mset (session_refs (sessions_vec s ! i)) + others i s"
  unfolding net_refs_def others_def by (subst id_take_nth_drop [of i]) simp_all

lemma others_upd [simp]: "others i (upd_session i f s) = others i s"
  by (simp add: others_def upd_session_def)

lemma net_refs_upd:
  "i < length (sessions_vec s) \<Longrightarrow> net_refs (upd_session i f s) = mset (session_refs (f (sessions_vec s ! i))) + others i s"
  by (subst net_refs_split [of i]) simp_all

text \<open>Moving references between a session and the other holders.\<close>

lemma acct_move:
  assumes "acct Q L s" "i < length (sessions_vec s)"
    and "mset (session_refs (f (sessions_vec s ! i))) + L' = mset (session_refs (sessions_vec s ! i)) + L"
  shows "acct Q L' (upd_session i f s)"
proof -
  have "net_refs (upd_session i f s) + L' = (mset (session_refs (f (sessions_vec s ! i))) + L') + others i s"
    using assms(2) by (simp add: net_refs_upd)
  also have "\<dots> = net_refs s + L" using assms(2,3) by (simp add: net_refs_split)
  finally have e: "net_refs (upd_session i f s) + (Q + L') = net_refs s + (Q + L)" by (metis add.assoc add.commute)
  have "heap (upd_session i f s) = heap s" "msg_free (upd_session i f s) = msg_free s"
    "os_log (upd_session i f s) = os_log s" by (simp_all add: upd_session_def)
  then show ?thesis using assms(1) unfolding acct_def e by simp
qed

lemma acct_session [simp]:
  "(\<And>c. session_refs (f c) = session_refs c) \<Longrightarrow> acct Q L (upd_session i f s) = acct Q L s"
  by (rule acct_part) simp

lemma acct_simps [simp]:
  "x \<noteq> DebugBreak \<Longrightarrow> acct Q L (os x s) = acct Q L s" "acct Q L (post e s) = acct Q L s" "acct Q L (io_add i d s) = acct Q L s"
  "acct Q L (release_if_zero i sid s) = acct Q L s" "acct Q L (s\<lparr>iDisCounnectCount := a\<rparr>) = acct Q L s"
  "acct Q L (s\<lparr>m_RecvTPS := t\<rparr>) = acct Q L s" "acct Q L (s\<lparr>arrTPS := u\<rparr>) = acct Q L s" "acct Q L (s\<lparr>iocp := v\<rparr>) = acct Q L s"
  "acct Q L (DecrementIoCountAndMaybeDeleteSession i s) = acct Q L s" "acct Q L (RecvPacket r i s) = acct Q L s"
  by (rule acct_part, simp)+

lemmas acct_cong = acct_part [OF part_Disconnect] acct_part [OF part_SessionLock] acct_part [OF part_SessionUnLock]

section \<open>Sending\<close>

lemma SessionLock_in_range: "SessionLock sid s = Some (b, s') \<Longrightarrow> slot sid < length (sessions_vec s')"
  by (auto simp: SessionLock_def Let_def io_add_def release_if_zero_def ReleaseSession_def post_def split: if_splits)

lemma push_and_post_acct:
  assumes "push_and_post sid n s = Some s'" "acct Q (add_mset n L) s" "slot sid < length (sessions_vec s)"
  shows "acct Q L s'"
proof -
  let ?s1 = "upd_session (slot sid) (m_sendBuffer_update (\<lambda>q. q @ [n])) s"
  have "acct Q L ?s1" by (rule acct_move [OF assms(2,3)]) (simp add: session_refs_def)
  then show ?thesis using assms(1)
    by (auto simp: push_and_post_def Let_def bind_eq_Some_conv acct_cong split: if_splits)
qed

text \<open>One send consumes one reference of its caller, whether the session takes the message or not.\<close>

lemma send_one_acct:
  assumes "do { (ok, s1) \<leftarrow> SessionLock sid s; if ok then push_and_post sid n s1 else msg_Release n s1 } = Some s'"
    and "acct Q (add_mset n L) s"
  shows "acct Q L s'"
proof -
  obtain ok s1 where l: "SessionLock sid s = Some (ok, s1)"
      "(if ok then push_and_post sid n s1 else msg_Release n s1) = Some s'"
    using assms(1) by (auto simp: bind_eq_Some_conv)
  have a: "acct Q (add_mset n L) s1" using assms(2) by (simp add: acct_cong(2) [OF l(1)])
  show ?thesis
  proof (cases ok)
    case True
    then show ?thesis using l(2) push_and_post_acct [OF _ a SessionLock_in_range [OF l(1)]] by simp
  next
    case False
    then show ?thesis using l(2) msg_Release_acct [OF a] by auto
  qed
qed

lemma Unicast_acct: "Unicast sid n s = Some s' \<Longrightarrow> acct Q (add_mset n L) s \<Longrightarrow> acct Q L s'"
  unfolding Unicast_def by (rule send_one_acct)

lemma BroadCast_loop_acct:
  assumes "BroadCast_loop ids n s = Some s'" "acct Q (replicate_mset (length ids) n + L) s"
  shows "acct Q L s'"
  using assms
proof (induction ids arbitrary: s)
  case Nil
  then show ?case by simp
next
  case (Cons i ids)
  then obtain s2 where s2: "do { (ok, s1) \<leftarrow> SessionLock i s; if ok then push_and_post i n s1 else msg_Release n s1 } = Some s2"
      "BroadCast_loop ids n s2 = Some s'"
    by (auto simp: bind_eq_Some_conv split_beta)
  have "acct Q (add_mset n (replicate_mset (length ids) n + L)) s" using Cons.prems(2) by simp
  from Cons.IH [OF s2(2) send_one_acct [OF s2(1) this]] show ?case .
qed

text \<open>\<^verbatim>\<open>BroadCast\<close> resets the count; its caller must be the only holder.\<close>

lemma BroadCast_acct:
  assumes "BroadCast sid n ids s = Some s'" "acct Q (add_mset n L) s" "n \<notin># net_refs s + (Q + L)"
  shows "acct Q L s'"
proof -
  let ?m = "(heap s ! n)\<lparr>msg_use := int (length ids)\<rparr>"
  let ?s1 = "set_msg n ?m s"
  have z: "count (net_refs s + (Q + L)) n = 0" using assms(3) unfolding count_eq_zero_iff .
  have n: "n < length (heap s)" "n \<notin> set (msg_free s)" using assms(2) by (auto simp: acct_def)
  note k = acct_other [OF assms(2)]
  have use: "int (count (net_refs s + (Q + (replicate_mset (length ids) n + L))) j) \<le> msg_use ((heap s)[n := ?m] ! j)"
    if "j \<in># net_refs s + (Q + (replicate_mset (length ids) n + L))" for j
  proof (cases "j = n")
    case True
    then show ?thesis using z n(1) by simp
  next
    case False
    then have "j \<in># net_refs s + (Q + L)" using that by (auto split: if_splits)
    then show ?thesis using k [of j] False by simp
  qed
  have "acct Q (replicate_mset (length ids) n + L) ?s1"
    unfolding acct_def net_refs_set_msg
  proof (intro conjI ballI)
    show "msg_use (heap ?s1 ! k) = 1" if "k \<in># Q" for k
      using acct_single [OF assms(2) that] acct_single_local [OF assms(2)] that by (cases "n = k") (auto simp: set_msg_def)
    show "distinct (msg_free ?s1)" "\<And>j. j \<in> set (msg_free ?s1) \<Longrightarrow> j < length (heap ?s1)"
      using assms(2) by (simp_all add: acct_def set_msg_def)
    show "DebugBreak \<notin> set (os_log ?s1)" using assms(2) by (simp add: acct_def set_msg_def)
    fix j assume j: "j \<in># net_refs s + (Q + (replicate_mset (length ids) n + L))"
    show "int (count (net_refs s + (Q + (replicate_mset (length ids) n + L))) j) \<le> msg_use (heap ?s1 ! j)"
      using use [OF j] by (simp add: set_msg_def)
    have "j < length (heap s) \<and> j \<notin> set (msg_free s)"
    proof (cases "j = n")
      case True
      then show ?thesis using n by simp
    next
      case False
      then have "j \<in># net_refs s + (Q + L)" using j by (auto split: if_splits)
      then show ?thesis using k [of j] by simp
    qed
    then show "j < length (heap ?s1)" "j \<notin> set (msg_free ?s1)" by (simp_all add: set_msg_def)
  qed
  then show ?thesis by (rule BroadCast_loop_acct [OF assms(1) [unfolded BroadCast_def]])
qed

section \<open>Completions\<close>

lemma DeCoding_use: "DeCoding m = Inr (b, m') \<Longrightarrow> msg_use m' = msg_use m"
proof -
  have "case DeCoding m of Inl e \<Rightarrow> True | Inr (b, m') \<Rightarrow> msg_use m' = msg_use m"
    unfolding DeCoding_def Let_def by simp
  then show "DeCoding m = Inr (b, m') \<Longrightarrow> msg_use m' = msg_use m" by simp
qed

lemma CreateMessage_acct:
  assumes "CreateMessage i hdr s = Some (res, s')" "acct Q L s"
  shows "case res of None \<Rightarrow> acct Q L s' | Some n \<Rightarrow> acct Q (add_mset n L) s' \<and> msg_use (heap s' ! n) = 1"
    "length (sessions_vec s') = length (sessions_vec s)" "CLanServer.more s' = CLanServer.more s"
proof -
  obtain n s1 where al: "msg_Alloc s = (n, s1)" by (cases "msg_Alloc s")
  note a = msg_Alloc_acct [OF assms(2) al]
  obtain d rb mem where c: "s' = set_msg n ((heap s1 ! n)\<lparr>msg_mem := mem, msg_rear := d\<rparr>) (upd_session i (m_recvBuffer_update (\<lambda>_. rb)) s1)"
      "res = None \<or> res = Some n"
    using assms(1) al by (auto simp: CreateMessage_def Let_def bind_eq_Some_conv split: if_splits)
  have "acct Q (add_mset n L) (upd_session i (m_recvBuffer_update (\<lambda>_. rb)) s1)" using a(1) by simp
  moreover have u: "msg_use (heap s' ! n) = 1" using a(2,5) by (simp add: c(1) set_msg_def upd_session_def)
  ultimately have "acct Q (add_mset n L) s'" unfolding c(1) by (intro set_msg_acct) (simp_all add: upd_session_def)
  then show "case res of None \<Rightarrow> acct Q L s' | Some n \<Rightarrow> acct Q (add_mset n L) s' \<and> msg_use (heap s' ! n) = 1"
    using c(2) u by (auto intro: acct_weaken)
  show "length (sessions_vec s') = length (sessions_vec s)"
    unfolding c(1) a(4) [symmetric] by (simp add: set_msg_def upd_session_def)
  show "CLanServer.more s' = CLanServer.more s" using more_msg_Alloc [OF al] unfolding c(1) by simp
qed

lemma Session_Release_acct:
  assumes "Session_Release i s = Some s'" "acct Q L s" "i < length (sessions_vec s)"
  shows "acct Q L s'" "CLanServer.more s' = CLanServer.more s" "length (sessions_vec s') = length (sessions_vec s)"
proof -
  let ?s0 = "upd_session i (m_sendBuffer_update (\<lambda>_. [])) s"
  let ?sb = "m_sendBuffer (sessions_vec s ! i)"
  have a0: "acct Q (mset ?sb + L) ?s0" by (rule acct_move [OF assms(2,3)]) (simp add: session_refs_def)
  obtain s1 where s1: "msg_Release_all ?sb ?s0 = Some s1" "acct Q L s1" "sessions_vec s1 = sessions_vec ?s0"
    "CLanServer.more s1 = CLanServer.more ?s0" using msg_Release_all_acct [OF a0] by blast
  let ?t0 = "upd_session i (m_msgs_update (\<lambda>_. [])) s1"
  let ?ms = "m_msgs (sessions_vec s1 ! i)"
  have i1: "i < length (sessions_vec s1)" using assms(3) s1(3) by simp
  have a1: "acct Q (mset ?ms + L) ?t0" by (rule acct_move [OF s1(2) i1]) (simp add: session_refs_def)
  obtain s2 where s2: "msg_Release_all ?ms ?t0 = Some s2" "acct Q L s2" "sessions_vec s2 = sessions_vec ?t0"
    "CLanServer.more s2 = CLanServer.more ?t0" using msg_Release_all_acct [OF a1] by blast
  have "s' = upd_session i (m_recvBuffer_update ClearBuffer) s2"
    using assms(1) s1(1) s2(1) by (simp add: Session_Release_def)
  then show "acct Q L s'" "CLanServer.more s' = CLanServer.more s" "length (sessions_vec s') = length (sessions_vec s)"
    using s2 s1 by simp_all
qed

text \<open>
  A completed send gives back what was in flight and moves up to 500 messages from the send
  buffer into flight.
\<close>

lemma SendComplete_acct:
  assumes "SendComplete r tps i s = Some s'" "acct Q L s" "i < length (sessions_vec s)"
  shows "acct Q L s'"
proof -
  let ?s0 = "upd_session i (m_msgs_update (\<lambda>_. [])) s"
  let ?ms = "m_msgs (sessions_vec s ! i)"
  have a0: "acct Q (mset ?ms + L) ?s0" by (rule acct_move [OF assms(2,3)]) (simp add: session_refs_def)
  obtain s1 where s1: "msg_Release_all ?ms ?s0 = Some s1" "acct Q L s1" "sessions_vec s1 = sessions_vec ?s0"
    using msg_Release_all_acct [OF a0] by blast
  have e: "m_msgs (sessions_vec s1 ! i) = []" and i1: "i < length (sessions_vec s1)" using assms(3) s1(3) by simp_all
  show ?thesis
  proof (cases "m_sendBuffer (sessions_vec s1 ! i) = []")
    case True
    with assms(1) s1 show ?thesis by (auto simp: SendComplete_def Let_def split: if_splits)
  next
    case False
    let ?b = "take 500 (m_sendBuffer (sessions_vec s1 ! i))"
    let ?s2 = "upd_session i (\<lambda>c. c\<lparr>m_sendBuffer := drop 500 (m_sendBuffer c), m_msgs := ?b\<rparr>) s1"
    have "mset (drop 500 xs) + mset (take 500 xs) = mset xs" for xs :: "nat list"
      by (metis append_take_drop_id mset_append add.commute)
    then have a2: "acct Q L ?s2" by (intro acct_move [OF s1(2) i1]) (simp add: session_refs_def e)
    then show ?thesis using assms(1) s1(1) False
      by (auto simp: SendComplete_def Let_def WSASendError_def split: if_splits wsa_result.splits)
  qed
qed

text \<open>What the account needs from the server above.\<close>

locale msg_client =
  fixes OnRecv :: "u64 \<Rightarrow> nat \<Rightarrow> 'a CLanServer_scheme \<Rightarrow> 'a CLanServer_scheme option"
    and OnRelease :: "u64 \<Rightarrow> 'a CLanServer_scheme \<Rightarrow> 'a CLanServer_scheme option"
    and held :: "'a CLanServer_scheme \<Rightarrow> nat multiset"
  assumes held_ext: "CLanServer.more s = CLanServer.more s' \<Longrightarrow> held s = held s'"
    and recv_keeps: "OnRecv sid n s = Some s' \<Longrightarrow> acct (held s) {#n#} s \<Longrightarrow> msg_use (heap s ! n) = 1 \<Longrightarrow> acct (held s') {#} s'"
    and recv_sessions: "OnRecv sid n s = Some s' \<Longrightarrow> sessions_vec s' = sessions_vec s"
    and release_keeps: "OnRelease sid s = Some s' \<Longrightarrow> acct (held s) {#} s \<Longrightarrow> acct (held s') {#} s'"
    and release_sessions: "OnRelease sid s = Some s' \<Longrightarrow> sessions_vec s' = sessions_vec s"
begin

lemma RecvComplete_loop_acct:
  assumes "RecvComplete_loop OnRecv i sid cnt hdr s = Some (b, s')" "acct (held s) {#} s"
  shows "acct (held s') {#} s' \<and> length (sessions_vec s') = length (sessions_vec s)"
  using assms
proof (induction "150 - cnt" arbitrary: cnt hdr s rule: less_induct)
  case less
  have dis: "acct (held t') {#} t' \<and> length (sessions_vec t') = length (sessions_vec t)"
    if "Disconnect x t = Some (c, t')" "acct (held t) {#} t" for x c t t'
    using that part_length [OF part_Disconnect [OF that(1)]] held_ext [OF more_Disconnect [OF that(1)]]
    by (simp add: acct_cong(1) [OF that(1)])
  from less.prems(1) show ?case
  proof (cases rule: RecvComplete_loop_turn)
    case wait
    then show ?thesis using less.prems(2) by simp
  next
    case cut
    then show ?thesis using dis less.prems(2) by blast
  next
    case (short h s1 x c)
    note cm = CreateMessage_acct [OF short(1) less.prems(2)]
    have "held s1 = held s" by (rule held_ext [OF cm(3)])
    with dis [OF short(2)] cm show ?thesis by simp
  next
    case (bad h n s1 m)
    note cm = CreateMessage_acct [OF bad(1) less.prems(2)]
    let ?t = "os (CancelSend i) (upd_session i (m_blive_update (\<lambda>_. 0)) (set_msg n m s1))"
    have "msg_use m = msg_use (heap s1 ! n)" using bad(2) DeCoding_use by auto
    moreover have "acct (held s) {#n#} s1" using cm(1) by simp
    ultimately have "acct (held s) {#n#} ?t" using set_msg_acct [of "held s" "{#n#}" s1 m n] by simp
    from msg_Release_acct [OF this] bad(3) have r: "acct (held s) {#} s'" "sessions_vec s' = sessions_vec ?t"
      "CLanServer.more s' = CLanServer.more ?t" by auto
    have "held s' = held s" by (rule held_ext) (simp add: r(3) cm(3))
    then show ?thesis using r(1,2) cm(2) by (simp add: os_def set_msg_def)
  next
    case (deliver h n s1 m s3)
    note cm = CreateMessage_acct [OF deliver(1) less.prems(2)]
    let ?s2 = "set_msg n m s1"
    let ?t = "set_msg n (m\<lparr>msg_owner := sid, msg_front := msg_front m + headerSize ?s2\<rparr>) ?s2"
    have use: "msg_use m = msg_use (heap s1 ! n)" using deliver(2) DeCoding_use by auto
    have a1: "acct (held s) {#n#} s1" "msg_use (heap s1 ! n) = 1" using cm(1) by simp_all
    have a2: "acct (held s) {#n#} ?s2" by (rule set_msg_acct [OF a1(1) use])
    have n: "n < length (heap ?s2)" using acct_elem [OF a2, of n] by simp
    have "acct (held s) {#n#} ?t"
      by (rule set_msg_acct [OF a2]) (use n in \<open>simp add: set_msg_def\<close>)
    moreover have "held ?t = held s" by (rule held_ext) (simp add: cm(3))
    moreover have "msg_use (heap ?t ! n) = 1" using a1(2) use n by (simp add: set_msg_def)
    ultimately have a3: "acct (held s3) {#} s3" using recv_keeps [OF deliver(3)] by simp
    let ?u = "s3\<lparr>m_RecvTPS := m_RecvTPS s3 + 1\<rparr>"
    have "held ?u = held s3" by (rule held_ext) simp
    then have "acct (held ?u) {#} ?u" using a3 by simp
    moreover have "150 - (cnt + 1) < 150 - cnt" using deliver(5) by arith
    ultimately show ?thesis using less.hyps [OF _ deliver(4)] recv_sessions [OF deliver(3)] cm(2)
      by (simp add: set_msg_def)
  qed
qed

lemma RecvComplete_acct:
  assumes "RecvComplete OnRecv hdr r i k s = Some s'" "acct (held s) {#} s"
  shows "acct (held s') {#} s' \<and> length (sessions_vec s') = length (sessions_vec s)"
proof -
  let ?s1 = "upd_session i (m_recvBuffer_update (\<lambda>rb. MoveRear rb k)) s"
  obtain go s2 where l: "RecvComplete_loop OnRecv i (m_SeqID (sessions_vec ?s1 ! i)) 0 hdr ?s1 = Some (go, s2)"
    and s': "s' = (if go then RecvPacket r i s2 else s2)"
    using assms(1) by (auto simp: RecvComplete_def Let_def bind_eq_Some_conv)
  have h: "held ?s1 = held s" by (rule held_ext) simp
  have "acct (held s2) {#} s2 \<and> length (sessions_vec s2) = length (sessions_vec s)"
    using RecvComplete_loop_acct [OF l] assms(2) h by simp
  moreover have "held (RecvPacket r i s2) = held s2"
    by (rule held_ext) (simp add: RecvPacket_def Let_def WSARecvError_def split: wsa_result.split)
  moreover have "length (sessions_vec (RecvPacket r i s2)) = length (sessions_vec s2)"
    by (rule part_length) simp
  ultimately show ?thesis by (simp add: s')
qed

lemma held_simps [simp]:
  "held (upd_session i f s) = held s" "held (os c s) = held s" "held (post e s) = held s"
  "held (DecrementIoCountAndMaybeDeleteSession i s) = held s" "held (s\<lparr>iocp := a\<rparr>) = held s"
  "held (s\<lparr>m_SessionIdxStack := st\<rparr>) = held s" "held (s\<lparr>m_SessionCount := x\<rparr>) = held s"
  "held (s\<lparr>m_SessionIdxStack := st, m_SessionCount := x\<rparr>) = held s"
  "held (s\<lparr>iDisCounnectCount := y\<rparr>) = held s" "held (s\<lparr>arrTPS := u, m_TotalAccept := v\<rparr>) = held s"
  by (rule held_ext, simp add: DecrementIoCountAndMaybeDeleteSession_def Let_def)+

lemma SendComplete_held: "SendComplete r tps i s = Some s' \<Longrightarrow> acct Q L s \<Longrightarrow> i < length (sessions_vec s) \<Longrightarrow> held s' = held s"
proof (rule held_ext)
  assume c: "SendComplete r tps i s = Some s'" "acct Q L s" "i < length (sessions_vec s)"
  let ?s0 = "upd_session i (m_msgs_update (\<lambda>_. [])) s"
  have "acct Q (mset (m_msgs (sessions_vec s ! i)) + L) ?s0" by (rule acct_move [OF c(2,3)]) (simp add: session_refs_def)
  from msg_Release_all_acct [OF this] obtain s1 where
    "msg_Release_all (m_msgs (sessions_vec s ! i)) ?s0 = Some s1" "CLanServer.more s1 = CLanServer.more s" by auto
  then show "CLanServer.more s' = CLanServer.more s" using c(1)
    by (auto simp: SendComplete_def Let_def WSASendError_def split: if_splits wsa_result.splits)
qed

text \<open>A worker keeps the account, whatever it completes.\<close>

lemma WorkerThread_step_acct:
  assumes "WorkerThread_step OnRecv OnRelease tps hdr r c data s = Some s'" "acct (held s) {#} s"
    and "case c of Recv i \<Rightarrow> True | Send i \<Rightarrow> i < length (sessions_vec s) | ReleasePost i \<Rightarrow> i < length (sessions_vec s)"
  shows "acct (held s') {#} s'"
proof -
  let ?s0 = "s\<lparr>iocp := remove1 c (iocp s)\<rparr>"
  have a0: "acct (held ?s0) {#} ?s0" using assms(2) by simp
  show ?thesis
  proof (cases c)
    case (Recv i)
    then obtain mem s3 where "RecvComplete OnRecv hdr r i (length data)
        (if data = [] then upd_session i (m_blive_update (\<lambda>_. 0)) (upd_session i (m_recvBuffer_update (rb_mem_update (\<lambda>_. mem))) ?s0)
         else upd_session i (m_recvBuffer_update (rb_mem_update (\<lambda>_. mem))) ?s0) = Some s3"
      "s' = DecrementIoCountAndMaybeDeleteSession i s3"
      using assms(1) by (auto simp: WorkerThread_step_def kernel_stores_def Let_def bind_eq_Some_conv)
    with RecvComplete_acct [OF this(1)] a0 show ?thesis by (auto split: if_splits)
  next
    case (Send i)
    then obtain s1 where s1: "SendComplete r tps i ?s0 = Some s1" "s' = DecrementIoCountAndMaybeDeleteSession i s1"
      using assms(1) by (auto simp: WorkerThread_step_def Let_def bind_eq_Some_conv)
    have "i < length (sessions_vec ?s0)" using assms(3) Send by simp
    from SendComplete_acct [OF s1(1) a0 this] SendComplete_held [OF s1(1) a0 this] show ?thesis by (simp add: s1(2))
  next
    case (ReleasePost i)
    then obtain s1 s2 where r: "OnRelease (m_SeqID (sessions_vec ?s0 ! i)) ?s0 = Some s1" "Session_Release i s1 = Some s2"
      and s': "s' = (os (closesocket (m_sock (sessions_vec s2 ! i))) s2)
                 \<lparr>m_SessionIdxStack := slot (m_SeqID (sessions_vec s2 ! i)) # m_SessionIdxStack s2,
                  m_SessionCount := m_SessionCount s2 - 1\<rparr>"
      using assms(1) by (auto simp: WorkerThread_step_def ReleaseComplete_def Let_def bind_eq_Some_conv os_def)
    have "i < length (sessions_vec s1)" using assms(3) ReleasePost release_sessions [OF r(1)] by simp
    note sr = Session_Release_acct [OF r(2) release_keeps [OF r(1) a0] this]
    have "held s2 = held s1" by (rule held_ext [OF sr(2)])
    then have "acct (held s2) {#} s2" using sr(1) by simp
    then show ?thesis unfolding s'
      by (simp add: acct_def net_refs_def os_def [of _ s2]) (simp add: os_def [symmetric])
  qed
qed

end

text \<open>With the third callback, a new session.\<close>

locale msg_server = msg_client OnRecv OnRelease held
  for OnRecv :: "u64 \<Rightarrow> nat \<Rightarrow> 'a CLanServer_scheme \<Rightarrow> 'a CLanServer_scheme option"
    and OnRelease :: "u64 \<Rightarrow> 'a CLanServer_scheme \<Rightarrow> 'a CLanServer_scheme option"
    and held :: "'a CLanServer_scheme \<Rightarrow> nat multiset" +
  fixes OnAccept :: "u64 \<Rightarrow> 'b \<Rightarrow> 'a CLanServer_scheme \<Rightarrow> (bool \<times> 'a CLanServer_scheme) option"
  assumes accept_keeps: "OnAccept sid addr s = Some (ok, s') \<Longrightarrow> acct (held s) {#} s \<Longrightarrow> acct (held s') {#} s'"
begin

lemma AcceptThread_step_acct:
  assumes "AcceptThread_step OnAccept r attached sock addr s = Some s'" "acct (held s) {#} s"
  shows "acct (held s') {#} s'"
proof -
  let ?s0 = "s\<lparr>arrTPS := (arrTPS s)[0 := arrTPS s ! 0 + 1], m_TotalAccept := m_TotalAccept s + 1\<rparr>"
  have part: "msg_part ?s0 = msg_part s" by (simp add: msg_part_def)
  show ?thesis
  proof (cases "m_SessionIdxStack s")
    case Nil
    with assms show ?thesis
      by (auto simp: AcceptThread_step_def Let_def acct_part [OF part])
  next
    case (Cons idx rest)
    let ?SeqID = "push_bit 47 (of_nat idx) + next_session_id s"
    let ?s1 = "(upd_session idx (\<lambda>c. c\<lparr>m_sock := sock, m_blive := 1, m_flag := 0, m_SeqID := ?SeqID, m_ioCount := 1\<rparr>) ?s0)
                \<lparr>m_SessionIdxStack := rest, next_session_id := next_session_id s + 1, m_SessionCount := m_SessionCount s + 1\<rparr>"
    have more: "CLanServer.more ?s1 = CLanServer.more s" by simp
    have "msg_part ?s1 = msg_part (upd_session idx (\<lambda>c. c\<lparr>m_sock := sock, m_blive := 1, m_flag := 0, m_SeqID := ?SeqID, m_ioCount := 1\<rparr>) ?s0)"
      by (simp add: msg_part_def)
    also have "\<dots> = msg_part ?s0" by (rule msg_part_upd) (simp add: session_refs_def)
    finally have part1: "msg_part ?s1 = msg_part s" using part by simp
    have a1: "acct (held ?s1) {#} ?s1" unfolding acct_part [OF part1] held_ext [OF more] by (rule assms(2))
    show ?thesis
    proof (cases "length (sessions_vec s) \<le> idx \<or> \<not> attached")
      case True
      then have "s' = os (closesocket sock) ?s1"
        using assms(1) Cons by (auto simp: AcceptThread_step_def Let_def split: if_splits)
      then show ?thesis using a1 by (simp only: held_simps acct_simps os_call.distinct not_False_eq_True)
    next
      case False
      then obtain ok s2 where s2: "OnAccept (m_SeqID (sessions_vec ?s1 ! idx)) addr ?s1 = Some (ok, s2)"
        and s': "s' = (if ok then DecrementIoCountAndMaybeDeleteSession idx (RecvPacket r idx s2)
                       else DecrementIoCountAndMaybeDeleteSession idx s2)"
        using assms(1) Cons by (auto simp: AcceptThread_step_def Let_def bind_eq_Some_conv split: if_splits)
      have "held (RecvPacket r idx s2) = held s2"
        by (rule held_ext) (simp add: RecvPacket_def Let_def WSARecvError_def split: wsa_result.split)
      with accept_keeps [OF s2 a1] show ?thesis by (simp add: s')
    qed
  qed
qed

end

end
