(* ===== verification/ChatInv.thy ===== *)
theory ChatInv
  imports ChatServer
begin

text \<open>
  The tables of the chatting server: an invariant of the players, the three tables, the sectors and
  the counters, kept by every handler.
\<close>

section \<open>The network layer does not touch the contents part\<close>

lemma more_ends:
  "release_then_disconnect n sid s = Some s' \<Longrightarrow> CLanServer.more s' = CLanServer.more s"
  "disconnect_then_release n sid s = Some s' \<Longrightarrow> CLanServer.more s' = CLanServer.more s"
  by (auto simp: release_then_disconnect_def disconnect_then_release_def bind_eq_Some_conv
      dest!: more_msg_Release more_Disconnect)

lemmas more_network = more_msg_Release more_Disconnect more_SendPacket more_msg_Alloc more_ends

section \<open>The invariant\<close>

text \<open>
  The table of a kind of player: keys are unique and every entry names a player that knows its
  session and its state.
\<close>

definition table_ok :: "enPlayerState \<Rightarrow> (u64 \<times> nat) list \<Rightarrow> stPlayer list \<Rightarrow> bool" where
  "table_ok st tab ps \<longleftrightarrow> distinct (map fst tab) \<and>
     (\<forall>(sid, p) \<in> set tab. p < length ps \<and> m_sessionID (ps ! p) = sid \<and> m_State (ps ! p) = st)"

text \<open>
  Every player is in the pool, waits for its login or is logged in, and only one of these. An
  account belongs to a player that is logged in with it. All players stand in the world, those in
  the pool too: a contents thread may still move a player that has left. Logged-in players have a
  queue. The counters count. A message under way names a player and a sector of the world.
\<close>

definition job_ok :: "CTestServer \<Rightarrow> contents_job \<Rightarrow> bool" where
  "job_ok s j \<longleftrightarrow> mv_player j < length (players s) \<and> in_world (m_sectorManager s) (uint (mv_X j)) (uint (mv_Y j))"

definition chat_inv :: "CTestServer \<Rightarrow> bool" where
  "chat_inv s \<longleftrightarrow>
     table_ok SessionState (prePlayer_hash s) (players s) \<and>
     table_ok PlayerState (SessionID_hash s) (players s) \<and>
     fst ` set (prePlayer_hash s) \<inter> fst ` set (SessionID_hash s) = {} \<and>
     distinct (map snd (prePlayer_hash s) @ map snd (SessionID_hash s) @ player_free s) \<and>
     set (map snd (prePlayer_hash s) @ map snd (SessionID_hash s) @ player_free s) = {..<length (players s)} \<and>
     distinct (map fst (AccountNo_hash s)) \<and>
     (\<forall>(acc, p) \<in> set (AccountNo_hash s). p \<in> snd ` set (SessionID_hash s) \<and> m_AccountNo (players s ! p) = acc) \<and>
     (\<forall>p \<in> snd ` set (SessionID_hash s). m_ContentsQIdx (players s ! p) < length (m_CotentsQ_vec s)) \<and>
     (\<forall>p < length (players s). in_world (m_sectorManager s) (iSectorX (players s ! p)) (iSectorY (players s ! p))) \<and>
     in_world (m_sectorManager s) 0 0 \<and> (\<forall>j \<in> set (working s). job_ok s j) \<and>
     length (balanceVec s) = length (m_CotentsQ_vec s) \<and> 0 < length (m_CotentsQ_vec s) \<and>
     m_prePlayerCount s = int (length (prePlayer_hash s)) \<and> m_TotalPlayers s = int (length (SessionID_hash s))"

lemma chat_ext:
  assumes "CLanServer.more s = CLanServer.more (s' :: CTestServer)"
  shows "m_CotentsQ_vec s = m_CotentsQ_vec s'" "SessionID_hash s = SessionID_hash s'" "players s = players s'"
    "balanceVec s = balanceVec s'" "prePlayer_hash s = prePlayer_hash s'" "AccountNo_hash s = AccountNo_hash s'"
    "player_free s = player_free s'" "g_Sector s = g_Sector s'" "m_sectorManager s = m_sectorManager s'"
    "m_prePlayerCount s = m_prePlayerCount s'" "m_TotalPlayers s = m_TotalPlayers s'"
    "working s = working s'"
  using assms by (cases s; cases s'; simp)+

lemma chat_inv_ext: "CLanServer.more s = CLanServer.more (s' :: CTestServer) \<Longrightarrow> chat_inv s = chat_inv s'"
proof -
  assume e: "CLanServer.more s = CLanServer.more s'"
  show ?thesis unfolding chat_inv_def job_ok_def chat_ext [OF e] ..
qed

text \<open>A handler that gives a player a later timer changes nothing the invariant sees.\<close>

lemma nth_updated: "xs[p := f (xs ! p)] ! k = (if k = p \<and> p < length xs then f (xs ! p) else xs ! k)"
proof (cases "k = p")
  case True
  then show ?thesis by (cases "p < length xs") (simp_all add: list_update_beyond)
next
  case False
  then show ?thesis by (simp add: nth_list_update_neq)
qed

lemma table_ok_timer: "table_ok st tab (ps[p := m_Timer_update f (ps ! p)]) = table_ok st tab ps"
  by (auto simp: table_ok_def nth_updated [where f = "m_Timer_update f"] split_beta)

lemma chat_inv_timer [simp]: "chat_inv (upd_player p (m_Timer_update f) s) = chat_inv s"
  by (auto simp: chat_inv_def job_ok_def upd_player_def table_ok_timer nth_updated [where f = "m_Timer_update f"])

lemma chat_inv_counters [simp]:
  "chat_inv (count_msg ty k s) = chat_inv s"
  "chat_inv (s\<lparr>m_UpdateTPS := a\<rparr>) = chat_inv s"
  "chat_inv (s\<lparr>m_AllocMsgCount := a\<rparr>) = chat_inv s"
  "chat_inv (s\<lparr>m_NetworkMsgCount := a\<rparr>) = chat_inv s"
  "chat_inv (s\<lparr>balanceVec := (balanceVec s)[i := b]\<rparr>) = chat_inv s"
  "chat_inv (s\<lparr>m_CotentsQ_vec := (m_CotentsQ_vec s)[q := x]\<rparr>) = chat_inv s"
  by (simp_all add: chat_inv_def job_ok_def count_msg_def)

lemma chat_inv_network [simp]:
  "chat_inv (set_msg n m s) = chat_inv s" "chat_inv (upd_session i g s) = chat_inv s"
  by (rule chat_inv_ext, simp)+

lemma chat_inv_sectors [simp]:
  "chat_inv (sector_erase x y sid s) = chat_inv s" "chat_inv (sector_insert x y sid s) = chat_inv s"
  by (simp_all add: chat_inv_def job_ok_def sector_erase_def sector_insert_def)

text \<open>Moving any player inside the world.\<close>

lemma chat_inv_position:
  assumes inv: "chat_inv s"
    and f: "\<And>q. m_sessionID (f q) = m_sessionID q" "\<And>q. m_State (f q) = m_State q" "\<And>q. m_AccountNo (f q) = m_AccountNo q"
      "\<And>q. m_ContentsQIdx (f q) = m_ContentsQIdx q"
    and w: "p < length (players s) \<Longrightarrow> in_world (m_sectorManager s) (iSectorX (f (players s ! p))) (iSectorY (f (players s ! p)))"
  shows "chat_inv (upd_player p f s)"
proof -
  have t: "table_ok st tab (players (upd_player p f s)) = table_ok st tab (players s)" for st tab
    using f(1,2) by (auto simp: table_ok_def upd_player_def nth_updated [where f = f] split_beta)
  show ?thesis using inv w f(3,4) unfolding chat_inv_def job_ok_def t
    by (auto simp: upd_player_def nth_updated [where f = f])
qed

text \<open>The messages under way come and go.\<close>

lemma chat_inv_working:
  assumes "chat_inv s" "\<And>j. j \<in> set js \<Longrightarrow> job_ok s j"
  shows "chat_inv (s\<lparr>working := js\<rparr>)"
  using assms by (simp add: chat_inv_def job_ok_def)

lemma chat_inv_job: "chat_inv s \<Longrightarrow> j \<in> set (working s) \<Longrightarrow> job_ok s j"
  by (simp add: chat_inv_def)

section \<open>The handlers\<close>

lemma send_response_inv:
  assumes "fst (send_response sid n built ty ids after s) = Some s'" "chat_inv s"
    "\<And>t. CLanServer.more t = CLanServer.more s \<Longrightarrow> chat_inv (after t)"
  shows "chat_inv s'"
  using assms
  by (auto simp: send_response_def quiet_def split: sum.splits msg_error.splits dest!: more_SendPacket)

lemma release_then_disconnect_inv: "release_then_disconnect n sid s = Some s' \<Longrightarrow> chat_inv s' = chat_inv s"
  and disconnect_then_release_inv: "disconnect_then_release n sid s = Some s' \<Longrightarrow> chat_inv s' = chat_inv s"
  and msg_Release_inv: "msg_Release n s = Some s' \<Longrightarrow> chat_inv s' = chat_inv s"
  and Disconnect_inv: "Disconnect sid s = Some (b, s') \<Longrightarrow> chat_inv s' = chat_inv s"
  by (rule chat_inv_ext, erule more_network)+

lemmas inv_ends = release_then_disconnect_inv disconnect_then_release_inv msg_Release_inv Disconnect_inv

lemma HEARTBEAT_inv: "fst (HEARTBEAT_handler env sid n s) = Some s' \<Longrightarrow> chat_inv s \<Longrightarrow> chat_inv s'"
  by (auto simp: HEARTBEAT_handler_def quiet_def inv_ends split: option.splits)

lemma REQ_MESSAGE_inv: "fst (REQ_MESSAGE_handler env sid n acc len buf s) = Some s' \<Longrightarrow> chat_inv s \<Longrightarrow> chat_inv s'"
  by (auto simp: REQ_MESSAGE_handler_def quiet_def Let_def inv_ends split: option.splits if_splits
      elim!: send_response_inv dest: chat_inv_ext)

lemma REQ_SECTOR_MOVE_inv:
  assumes "fst (REQ_SECTOR_MOVE_handler q sid n acc x y s) = Some s'" "chat_inv s"
  shows "chat_inv s'"
proof (cases "uint x \<ge> MaxX (m_sectorManager s) \<or> uint y \<ge> MaxY (m_sectorManager s)")
  case True
  with assms show ?thesis by (auto simp: REQ_SECTOR_MOVE_handler_def quiet_def inv_ends)
next
  case False
  then have w: "in_world (m_sectorManager s) (uint x) (uint y)" by (simp add: in_world_def)
  show ?thesis
  proof (cases "map_of (SessionID_hash s) sid")
    case None
    with False assms show ?thesis by (auto simp: REQ_SECTOR_MOVE_handler_def quiet_def inv_ends)
  next
    case (Some p)
    then have "p < length (players s)" using map_of_SomeD [OF Some] assms(2) by (auto simp: chat_inv_def table_ok_def)
    with assms(1) False Some w show ?thesis
      using chat_inv_job [OF assms(2)] by (auto simp: REQ_SECTOR_MOVE_handler_def quiet_def job_ok_def intro!: chat_inv_working assms(2))
  qed
qed

section \<open>Login\<close>

lemma AList_update_new: "k \<notin> fst ` set al \<Longrightarrow> AList.update k v al = al @ [(k, v)]"
  by (induction al) auto

lemma AList_update_set:
  assumes "distinct (map fst al)"
  shows "(a, b) \<in> set (AList.update k v al) \<longleftrightarrow> (if a = k then b = v else (a, b) \<in> set al)"
  using map_of_eq_Some_iff [OF assms, of a b] map_of_eq_Some_iff [OF AList.distinct_update [OF assms, of k v], of a b]
  by (auto simp: AList.update_conv')

lemma chat_inv_login:
  assumes inv: "chat_inv s" and pre: "map_of (prePlayer_hash s) sid = Some p" and q: "q < length (m_CotentsQ_vec s)"
    and f: "m_sessionID (f (players s ! p)) = m_sessionID (players s ! p)" "m_State (f (players s ! p)) = PlayerState"
      "m_AccountNo (f (players s ! p)) = acc" "m_ContentsQIdx (f (players s ! p)) = q"
      "iSectorX (f (players s ! p)) = iSectorX (players s ! p)" "iSectorY (f (players s ! p)) = iSectorY (players s ! p)"
  shows "chat_inv ((upd_player p f s)\<lparr>SessionID_hash := AList.update sid p (SessionID_hash s),
            AccountNo_hash := AList.update acc p (AccountNo_hash s),
            prePlayer_hash := AList.delete sid (prePlayer_hash s),
            m_TotalPlayers := m_TotalPlayers s + 1, m_prePlayerCount := m_prePlayerCount s - 1\<rparr>)"
proof -
  have dk: "distinct (map fst (prePlayer_hash s))" using inv by (simp add: chat_inv_def table_ok_def)
  obtain xs ys where al: "prePlayer_hash s = xs @ (sid, p) # ys" "AList.delete sid (prePlayer_hash s) = xs @ ys"
    using AList_delete_remove [OF dk pre] by blast
  have "sid \<notin> fst ` set (SessionID_hash s)" using inv al(1) by (auto simp: chat_inv_def)
  then have up: "AList.update sid p (SessionID_hash s) = SessionID_hash s @ [(sid, p)]" by (rule AList_update_new)
  have pl: "p < length (players s)" "m_sessionID (players s ! p) = sid"
    using inv al(1) by (auto simp: chat_inv_def table_ok_def)
  have dis: "distinct (map snd (xs @ (sid, p) # ys) @ map snd (SessionID_hash s) @ player_free s)"
    using inv al(1) by (simp add: chat_inv_def)
  have old: "p \<notin> snd ` set (SessionID_hash s)" "p \<notin> snd ` set (xs @ ys)" "p \<notin> set (player_free s)"
    using dis by auto
  let ?ps = "(players s)[p := f (players s ! p)]"
  have n: "?ps ! k = (if k = p then f (players s ! p) else players s ! k)" for k using pl by simp
  have t1: "table_ok SessionState (xs @ ys) ?ps"
    using inv al(1) old(2) unfolding chat_inv_def table_ok_def by (auto simp: n split_beta)
  have t2: "table_ok PlayerState (SessionID_hash s @ [(sid, p)]) ?ps"
    using inv \<open>sid \<notin> fst ` set (SessionID_hash s)\<close> old(1) pl f(1,2)
    unfolding chat_inv_def table_ok_def by (auto simp: n split_beta)
  have da: "distinct (map fst (AccountNo_hash s))" using inv by (simp add: chat_inv_def)
  have A: "b \<in> snd ` set (SessionID_hash s @ [(sid, p)]) \<and> m_AccountNo (?ps ! b) = a"
    if "(a, b) \<in> set (AList.update acc p (AccountNo_hash s))" for a b
  proof (cases "a = acc")
    case True
    with that AList_update_set [OF da, of a b acc p] f(3) show ?thesis by (simp add: n)
  next
    case False
    with that AList_update_set [OF da, of a b acc p] have "(a, b) \<in> set (AccountNo_hash s)" by simp
    then have "b \<in> snd ` set (SessionID_hash s)" "m_AccountNo (players s ! b) = a"
      using inv by (auto simp: chat_inv_def)
    with old(1) show ?thesis by (auto simp: n)
  qed
  have W: "m_ContentsQIdx (?ps ! k) < length (m_CotentsQ_vec s)" if "k \<in> snd ` set (SessionID_hash s @ [(sid, p)])" for k
    using that inv f q unfolding chat_inv_def by (auto simp: n)
  have P: "in_world (m_sectorManager s) (iSectorX (?ps ! k)) (iSectorY (?ps ! k))" if "k < length ?ps" for k
    using that inv f unfolding chat_inv_def by (auto simp: n)
  have D: "distinct (map snd (xs @ ys) @ map snd (SessionID_hash s @ [(sid, p)]) @ player_free s)"
    using dis by auto
  have S: "set (map snd (xs @ ys) @ map snd (SessionID_hash s @ [(sid, p)]) @ player_free s) = {..<length ?ps}"
    using inv unfolding chat_inv_def al(1) by auto
  have K: "fst ` set (xs @ ys) \<inter> fst ` set (SessionID_hash s @ [(sid, p)]) = {}"
    using inv dk unfolding chat_inv_def al(1) by auto
  have C: "int (length (prePlayer_hash s)) - 1 = int (length (xs @ ys))" by (simp add: al(1))
  have rest: "in_world (m_sectorManager s) 0 0" "length (balanceVec s) = length (m_CotentsQ_vec s)"
    "0 < length (m_CotentsQ_vec s)" "m_prePlayerCount s = int (length (prePlayer_hash s))"
    "m_TotalPlayers s = int (length (SessionID_hash s))"
    using inv by (simp_all add: chat_inv_def)
  let ?s' = "(upd_player p f s)\<lparr>SessionID_hash := SessionID_hash s @ [(sid, p)],
            AccountNo_hash := AList.update acc p (AccountNo_hash s), prePlayer_hash := xs @ ys,
            m_TotalPlayers := m_TotalPlayers s + 1, m_prePlayerCount := m_prePlayerCount s - 1\<rparr>"
  have sel: "players ?s' = ?ps" "SessionID_hash ?s' = SessionID_hash s @ [(sid, p)]" "prePlayer_hash ?s' = xs @ ys"
    "player_free ?s' = player_free s" "AccountNo_hash ?s' = AList.update acc p (AccountNo_hash s)"
    "m_sectorManager ?s' = m_sectorManager s" "m_CotentsQ_vec ?s' = m_CotentsQ_vec s" "balanceVec ?s' = balanceVec s"
    "m_TotalPlayers ?s' = m_TotalPlayers s + 1" "m_prePlayerCount ?s' = m_prePlayerCount s - 1" "working ?s' = working s"
    by (simp_all add: upd_player_def)
  have J: "job_ok ?s' j" if "j \<in> set (working s)" for j
    using chat_inv_job [OF inv that] unfolding job_ok_def sel by simp
  have "chat_inv ?s'"
    unfolding chat_inv_def sel
    by (intro conjI ballI allI impI t1 t2 K D S P W J rest AList.distinct_update da)
      (use A rest C in auto)
  then show ?thesis unfolding up al(2) .
qed

lemma REQ_LOGIN_inv:
  assumes "fst (REQ_LOGIN_handler env sid n acc ID nick key s) = Some s'" "chat_inv s"
  shows "chat_inv s'"
proof (cases "\<exists>k p. redis env acc = Redis_string k \<and> k = key_string key \<and> map_of (prePlayer_hash s) sid = Some p \<and>
    m_State (players s ! p) = SessionState")
  case False
  with assms show ?thesis
    by (auto simp: REQ_LOGIN_handler_def quiet_def inv_ends split: option.splits if_splits redis_reply.splits)
next
  case True
  then obtain k p where g: "redis env acc = Redis_string k" "k = key_string key" "map_of (prePlayer_hash s) sid = Some p"
    "m_State (players s ! p) = SessionState" by blast
  obtain s1 where s1: "(case map_of (AccountNo_hash s) acc of
        Some old \<Rightarrow> map_option snd (Disconnect (m_sessionID (players s ! old)) s) | None \<Rightarrow> Some s) = Some s1"
    using assms(1) g by (auto simp: REQ_LOGIN_handler_def split: option.splits)
  have more1: "CLanServer.more s1 = CLanServer.more s"
    using s1 by (auto split: option.splits dest: more_Disconnect)
  have inv1: "chat_inv s1" using chat_inv_ext [OF more1] assms(2) by simp
  note e = chat_ext [OF more1]
  let ?vec = "(balanceVec s1)[0 := balanceVec s1 ! 0 - 1]"
  let ?q = "choose_queue ?vec"
  have q: "?q < length (m_CotentsQ_vec s1)"
    using assms(1) g s1 inv1
    by (auto simp: REQ_LOGIN_handler_def Let_def chat_inv_def split: option.splits if_splits)
  let ?f = "\<lambda>p. p\<lparr>m_State := PlayerState, m_AccountNo := acc,
                                m_ID := take 20 ID @ drop 20 (m_ID p),
                                m_Nickname := take 20 nick @ drop 20 (m_Nickname p),
                                m_SessionKey := take 64 key, m_ContentsQIdx := ?q\<rparr>"
  let ?s2 = "s1\<lparr>balanceVec := ?vec[?q := ?vec ! ?q + 1]\<rparr>"
  have inv2: "chat_inv ?s2"
    using inv1 by (simp add: chat_inv_def job_ok_def)
  let ?s4 = "(upd_player p ?f ?s2)\<lparr>SessionID_hash := AList.update sid p (SessionID_hash (upd_player p ?f ?s2)),
            AccountNo_hash := AList.update acc p (AccountNo_hash (upd_player p ?f ?s2)),
            prePlayer_hash := AList.delete sid (prePlayer_hash (upd_player p ?f ?s2)),
            m_TotalPlayers := m_TotalPlayers (upd_player p ?f ?s2) + 1,
            m_prePlayerCount := m_prePlayerCount (upd_player p ?f ?s2) - 1\<rparr>"
  have "chat_inv ((upd_player p ?f ?s2)\<lparr>SessionID_hash := AList.update sid p (SessionID_hash ?s2),
            AccountNo_hash := AList.update acc p (AccountNo_hash ?s2),
            prePlayer_hash := AList.delete sid (prePlayer_hash ?s2),
            m_TotalPlayers := m_TotalPlayers ?s2 + 1, m_prePlayerCount := m_prePlayerCount ?s2 - 1\<rparr>)"
    by (rule chat_inv_login [OF inv2]) (use g(3) q e(5) in simp_all)
  then have inv4: "chat_inv ?s4" by (simp add: upd_player_def)
  have "\<not> length ?vec \<le> ?q" using q inv1 by (simp add: chat_inv_def)
  then have "fst (send_response sid n (RES_LOGIN (bEnCording ?s4) (header_junk env) (rand_key env) (heap ?s4 ! n) 1 acc) 0 []
      (\<lambda>s. upd_player p (m_Timer_update (\<lambda>_. now env)) (count_msg en_PACKET_CS_CHAT_RES_LOGIN 1 s)) ?s4) = Some s'"
    using assms(1) g s1 unfolding REQ_LOGIN_handler_def by (simp add: Let_def)
  then show ?thesis
  proof (rule send_response_inv [OF _ inv4])
    show "chat_inv (upd_player p (m_Timer_update (\<lambda>_. now env)) (count_msg en_PACKET_CS_CHAT_RES_LOGIN 1 t))"
      if "CLanServer.more t = CLanServer.more ?s4" for t
      using chat_inv_ext [OF that] inv4 by simp
  qed
qed

section \<open>Dispatch, arrival and departure\<close>

lemma chat_PacketProc_inv:
  assumes "chat_PacketProc env q sid n ty s = (b, Some s')" "chat_inv s"
  shows "chat_inv s'"
proof -
  have h: "chat_inv t" if "handle_request env q sid n (Some s) req m = (Some t, e)" for req m e t
  proof -
    have "chat_inv (set_msg n m s)" using assms(2) by simp
    moreover have "fst (handle_request env q sid n (Some s) req m) = Some t" using that by simp
    ultimately show ?thesis
      by (cases req) (auto simp: handle_request_def Let_def
        dest: REQ_LOGIN_inv REQ_SECTOR_MOVE_inv REQ_MESSAGE_inv HEARTBEAT_inv)
  qed
  from assms show ?thesis
    by (auto simp: chat_PacketProc_def PacketProc_def split: sum.splits option.splits prod.splits dest: h)
qed

lemma chat_inv_alloc:
  assumes inv: "chat_inv s" and free: "player_free s = p # rest" and new: "map_of (prePlayer_hash s) sid = None"
    and out: "map_of (SessionID_hash s) sid = None"
    and f: "m_sessionID (f (players s ! p)) = sid" "m_State (f (players s ! p)) = SessionState"
      "iSectorX (f (players s ! p)) = 0" "iSectorY (f (players s ! p)) = 0"
  shows "chat_inv ((upd_player p f s)\<lparr>player_free := rest, prePlayer_hash := AList.update sid p (prePlayer_hash s),
            m_prePlayerCount := m_prePlayerCount s + 1\<rparr>)"
proof -
  have "sid \<notin> fst ` set (prePlayer_hash s)" using new by (simp add: map_of_eq_None_iff)
  then have up: "AList.update sid p (prePlayer_hash s) = prePlayer_hash s @ [(sid, p)]" by (rule AList_update_new)
  have dis: "distinct (map snd (prePlayer_hash s) @ map snd (SessionID_hash s) @ p # rest)"
    and S: "set (map snd (prePlayer_hash s) @ map snd (SessionID_hash s) @ p # rest) = {..<length (players s)}"
    using inv by (simp_all add: chat_inv_def free)
  have old: "p \<notin> snd ` set (SessionID_hash s)" "p \<notin> snd ` set (prePlayer_hash s)" using dis by auto
  have pl: "p < length (players s)" using S by auto
  let ?ps = "(players s)[p := f (players s ! p)]"
  have n: "?ps ! k = (if k = p then f (players s ! p) else players s ! k)" for k using pl by simp
  have t1: "table_ok SessionState (prePlayer_hash s @ [(sid, p)]) ?ps"
    using inv \<open>sid \<notin> fst ` set (prePlayer_hash s)\<close> old(2) pl f unfolding chat_inv_def table_ok_def
    by (auto simp: n split_beta)
  have t2: "table_ok PlayerState (SessionID_hash s) ?ps"
    using inv old(1) unfolding chat_inv_def table_ok_def by (auto simp: n split_beta)
  have out': "sid \<notin> fst ` set (SessionID_hash s)" using out by (simp add: map_of_eq_None_iff)
  let ?s' = "(upd_player p f s)\<lparr>player_free := rest, prePlayer_hash := prePlayer_hash s @ [(sid, p)],
            m_prePlayerCount := m_prePlayerCount s + 1\<rparr>"
  have sel: "players ?s' = ?ps" "SessionID_hash ?s' = SessionID_hash s" "prePlayer_hash ?s' = prePlayer_hash s @ [(sid, p)]"
    "player_free ?s' = rest" "AccountNo_hash ?s' = AccountNo_hash s"
    "m_sectorManager ?s' = m_sectorManager s" "m_CotentsQ_vec ?s' = m_CotentsQ_vec s" "balanceVec ?s' = balanceVec s"
    "m_TotalPlayers ?s' = m_TotalPlayers s" "m_prePlayerCount ?s' = m_prePlayerCount s + 1" "working ?s' = working s"
    by (simp_all add: upd_player_def)
  have J: "job_ok ?s' j" if "j \<in> set (working s)" for j
    using chat_inv_job [OF inv that] unfolding job_ok_def sel by simp
  have A: "b \<in> snd ` set (SessionID_hash s) \<and> m_AccountNo (?ps ! b) = a" if "(a, b) \<in> set (AccountNo_hash s)" for a b
    using that inv old(1) unfolding chat_inv_def by (auto simp: n)
  have W: "m_ContentsQIdx (?ps ! k) < length (m_CotentsQ_vec s)" if "k \<in> snd ` set (SessionID_hash s)" for k
    using that inv old(1) unfolding chat_inv_def by (auto simp: n)
  have P: "in_world (m_sectorManager s) (iSectorX (?ps ! k)) (iSectorY (?ps ! k))" if "k < length ?ps" for k
    using that inv f(3,4) unfolding chat_inv_def by (auto simp: n)
  have D: "distinct (map snd (prePlayer_hash s @ [(sid, p)]) @ map snd (SessionID_hash s) @ rest)" using dis by auto
  have S': "set (map snd (prePlayer_hash s @ [(sid, p)]) @ map snd (SessionID_hash s) @ rest) = {..<length ?ps}"
    using S by auto
  have K: "fst ` set (prePlayer_hash s @ [(sid, p)]) \<inter> fst ` set (SessionID_hash s) = {}"
    using inv out' unfolding chat_inv_def by auto
  have rest: "in_world (m_sectorManager s) 0 0" "length (balanceVec s) = length (m_CotentsQ_vec s)"
    "0 < length (m_CotentsQ_vec s)" "m_prePlayerCount s = int (length (prePlayer_hash s))"
    "m_TotalPlayers s = int (length (SessionID_hash s))" "distinct (map fst (AccountNo_hash s))"
    using inv by (simp_all add: chat_inv_def)
  have "chat_inv ?s'"
    unfolding chat_inv_def sel
    by (intro conjI ballI allI impI t1 t2 K D S' P W J rest) (use A rest in auto)
  then show ?thesis unfolding up .
qed

lemma AllocPlayer_inv:
  assumes "AllocPlayer env n s = Some s'" "chat_inv s" "map_of (SessionID_hash s) (msg_owner (heap s ! n)) = None"
  shows "chat_inv s'"
proof -
  let ?sid = "msg_owner (heap s ! n)"
  let ?s1 = "s\<lparr>m_AllocMsgCount := m_AllocMsgCount s - 1\<rparr>"
  have inv1: "chat_inv ?s1" using assms(2) by simp
  show ?thesis
  proof (cases "map_of (prePlayer_hash s) ?sid = None \<and> player_free s \<noteq> []")
    case False
    with assms(1) inv1 show ?thesis
      by (auto simp: AllocPlayer_def Let_def dest!: release_then_disconnect_inv split: if_splits)
  next
    case True
    then obtain p rest where free: "player_free s = p # rest" by (cases "player_free s") auto
    obtain ip m1 port m2 where r: "GetData (heap s ! n) 16 = Inr (ip, m1)" "msg_shr m1 2 = Inr (port, m2)"
      using assms(1) True free by (auto simp: AllocPlayer_def Let_def split: sum.splits)
    let ?f = "\<lambda>p. (stPlayer_Initalize p)\<lparr>m_Timer := now env, m_sessionID := ?sid,
                                    m_State := SessionState, m_ipAddress := ip, m_port := bytes_word port\<rparr>"
    let ?sA = "(upd_player p ?f ?s1)\<lparr>player_free := rest, prePlayer_hash := AList.update ?sid p (prePlayer_hash ?s1),
            m_prePlayerCount := m_prePlayerCount ?s1 + 1\<rparr>"
    have invA: "chat_inv ?sA"
      by (rule chat_inv_alloc [OF inv1]) (use free True assms(3) in \<open>simp_all add: stPlayer_Initalize_def\<close>)
    let ?s2 = "set_msg n m2 (upd_player p ?f (?s1\<lparr>player_free := rest, prePlayer_hash := AList.update ?sid p (prePlayer_hash ?s1)\<rparr>))"
    let ?s3 = "?s2\<lparr>m_prePlayerCount := m_prePlayerCount ?s2 + 1,
                  balanceVec := (balanceVec ?s2)[0 := balanceVec ?s2 ! 0 + 1], m_NetworkMsgCount := m_NetworkMsgCount ?s2 - 1\<rparr>"
    have "chat_inv ?s3" using invA by (simp add: chat_inv_def job_ok_def upd_player_def set_msg_def)
    moreover have "msg_Release n ?s3 = Some s'"
      using assms(1) True free r by (simp add: AllocPlayer_def Let_def)
    ultimately show ?thesis using msg_Release_inv by metis
  qed
qed

lemma free_player_inv:
  assumes t1: "table_ok SessionState pre (players s)" and t2: "table_ok PlayerState ses (players s)"
    and out: "p \<notin> snd ` set pre" "p \<notin> snd ` set ses"
  shows "table_ok SessionState pre (players (free_player p s))" "table_ok PlayerState ses (players (free_player p s))"
  using assms by (auto simp: table_ok_def free_player_def upd_player_def nth_updated [where f = "m_State_update (\<lambda>_. DisConnectState)"] split_beta)

lemma chat_inv_drop_pre:
  assumes inv: "chat_inv s" and pre: "map_of (prePlayer_hash s) sid = Some p"
  shows "chat_inv (free_player p (s\<lparr>prePlayer_hash := AList.delete sid (prePlayer_hash s),
            m_prePlayerCount := m_prePlayerCount s - 1\<rparr>))"
proof -
  have dk: "distinct (map fst (prePlayer_hash s))" using inv by (simp add: chat_inv_def table_ok_def)
  obtain xs ys where al: "prePlayer_hash s = xs @ (sid, p) # ys" "AList.delete sid (prePlayer_hash s) = xs @ ys"
    using AList_delete_remove [OF dk pre] by blast
  have dis: "distinct (map snd (xs @ (sid, p) # ys) @ map snd (SessionID_hash s) @ player_free s)"
    using inv al(1) by (simp add: chat_inv_def)
  have old: "p \<notin> snd ` set (SessionID_hash s)" "p \<notin> snd ` set (xs @ ys)" using dis by auto
  have pl: "p < length (players s)" using inv al(1) by (auto simp: chat_inv_def table_ok_def)
  have t: "table_ok SessionState (xs @ ys) (players s)" "table_ok PlayerState (SessionID_hash s) (players s)"
    using inv al(1) by (auto simp: chat_inv_def table_ok_def)
  let ?s' = "free_player p (s\<lparr>prePlayer_hash := xs @ ys, m_prePlayerCount := m_prePlayerCount s - 1\<rparr>)"
  let ?ps = "(players s)[p := m_State_update (\<lambda>_. DisConnectState) (players s ! p)]"
  have ps: "players ?s' = ?ps" by (simp add: free_player_def upd_player_def)
  have n: "?ps ! k = (if k = p then m_State_update (\<lambda>_. DisConnectState) (players s ! p) else players s ! k)" for k
    using pl by simp
  have t': "table_ok SessionState (xs @ ys) ?ps" "table_ok PlayerState (SessionID_hash s) ?ps"
    using free_player_inv [OF _ _ old(2,1), of "s\<lparr>prePlayer_hash := xs @ ys, m_prePlayerCount := m_prePlayerCount s - 1\<rparr>"] t
    by (simp_all add: ps)
  have sel: "players ?s' = ?ps" "SessionID_hash ?s' = SessionID_hash s" "prePlayer_hash ?s' = xs @ ys"
    "player_free ?s' = p # player_free s" "AccountNo_hash ?s' = AccountNo_hash s" 
    "m_sectorManager ?s' = m_sectorManager s" "m_CotentsQ_vec ?s' = m_CotentsQ_vec s" "balanceVec ?s' = balanceVec s"
    "m_TotalPlayers ?s' = m_TotalPlayers s" "m_prePlayerCount ?s' = m_prePlayerCount s - 1" "working ?s' = working s"
    by (simp_all add: upd_player_def free_player_def)
  have S: "set (map snd (xs @ ys) @ map snd (SessionID_hash s) @ p # player_free s) = {..<length ?ps}"
    using inv unfolding chat_inv_def al(1) by auto
  have inv': "table_ok SessionState (prePlayer_hash s) (players s)" using inv by (simp add: chat_inv_def)
  have "chat_inv ?s'" using inv dis old S t' unfolding chat_inv_def job_ok_def sel al(1) by (auto simp: n)
  then show ?thesis unfolding al(2) .
qed

lemma chat_inv_drop_session:
  assumes inv: "chat_inv s" and ses: "map_of (SessionID_hash s) sid = Some p"
    and A': "A' = (if map_of (AccountNo_hash s) (m_AccountNo (players s ! p)) = Some p
                then AList.delete (m_AccountNo (players s ! p)) (AccountNo_hash s) else AccountNo_hash s)"
  shows "chat_inv (free_player p (s\<lparr>SessionID_hash := AList.delete sid (SessionID_hash s), AccountNo_hash := A',
            m_TotalPlayers := m_TotalPlayers s - 1\<rparr>))"
proof -
  have dk: "distinct (map fst (SessionID_hash s))" using inv by (simp add: chat_inv_def table_ok_def)
  obtain xs ys where al: "SessionID_hash s = xs @ (sid, p) # ys" "AList.delete sid (SessionID_hash s) = xs @ ys"
    using AList_delete_remove [OF dk ses] by blast
  have dis: "distinct (map snd (prePlayer_hash s) @ map snd (xs @ (sid, p) # ys) @ player_free s)"
    using inv al(1) by (simp add: chat_inv_def)
  have old: "p \<notin> snd ` set (prePlayer_hash s)" "p \<notin> snd ` set (xs @ ys)" using dis by auto
  have pl: "p < length (players s)" using inv al(1) by (auto simp: chat_inv_def table_ok_def)
  have t: "table_ok SessionState (prePlayer_hash s) (players s)" "table_ok PlayerState (xs @ ys) (players s)"
    using inv al(1) by (auto simp: chat_inv_def table_ok_def)
  have da: "distinct (map fst (AccountNo_hash s))" using inv by (simp add: chat_inv_def)
  have dA: "distinct (map fst A')" using da by (simp add: A' AList.distinct_delete)
  have A: "b \<in> snd ` set (xs @ ys) \<and> m_AccountNo (players s ! b) = a \<and> b \<noteq> p" if "(a, b) \<in> set A'" for a b
  proof -
    have in0: "(a, b) \<in> set (AccountNo_hash s)" using that A' by (auto simp: AList.delete_eq split: if_splits)
    then have b: "b \<in> snd ` set (SessionID_hash s)" "m_AccountNo (players s ! b) = a" using inv by (auto simp: chat_inv_def)
    have "b \<noteq> p"
    proof
      assume "b = p"
      then have "map_of (AccountNo_hash s) (m_AccountNo (players s ! p)) = Some p" using in0 b da by (simp add: map_of_eq_Some_iff)
      then have "A' = AList.delete a (AccountNo_hash s)" using A' b \<open>b = p\<close> by simp
      with that show False by (auto simp: AList.delete_eq)
    qed
    with b al(1) show ?thesis by auto
  qed
  let ?s' = "free_player p (s\<lparr>SessionID_hash := xs @ ys, AccountNo_hash := A', m_TotalPlayers := m_TotalPlayers s - 1\<rparr>)"
  let ?ps = "(players s)[p := m_State_update (\<lambda>_. DisConnectState) (players s ! p)]"
  have ps: "players ?s' = ?ps" by (simp add: free_player_def upd_player_def)
  have n: "?ps ! k = (if k = p then m_State_update (\<lambda>_. DisConnectState) (players s ! p) else players s ! k)" for k
    using pl by simp
  have t': "table_ok SessionState (prePlayer_hash s) ?ps" "table_ok PlayerState (xs @ ys) ?ps"
    using free_player_inv [OF _ _ old, of "s\<lparr>SessionID_hash := xs @ ys, AccountNo_hash := A', m_TotalPlayers := m_TotalPlayers s - 1\<rparr>"] t
    by (simp_all add: ps)
  have sel: "players ?s' = ?ps" "SessionID_hash ?s' = xs @ ys" "prePlayer_hash ?s' = prePlayer_hash s"
    "player_free ?s' = p # player_free s" "AccountNo_hash ?s' = A'" 
    "m_sectorManager ?s' = m_sectorManager s" "m_CotentsQ_vec ?s' = m_CotentsQ_vec s" "balanceVec ?s' = balanceVec s"
    "m_TotalPlayers ?s' = m_TotalPlayers s - 1" "m_prePlayerCount ?s' = m_prePlayerCount s" "working ?s' = working s"
    by (simp_all add: upd_player_def free_player_def)
  have S: "set (map snd (prePlayer_hash s) @ map snd (xs @ ys) @ p # player_free s) = {..<length ?ps}"
    using inv unfolding chat_inv_def al(1) by auto
  have W: "m_ContentsQIdx (?ps ! k) < length (m_CotentsQ_vec s)" if "k \<in> snd ` set (xs @ ys)" for k
    using that inv old(2) unfolding chat_inv_def al(1) by (auto simp: n)
  have J: "job_ok ?s' j" if "j \<in> set (working s)" for j
    using chat_inv_job [OF inv that] unfolding job_ok_def sel by simp
  have Acc: "case x of (a, b) \<Rightarrow> b \<in> snd ` set (xs @ ys) \<and> m_AccountNo (?ps ! b) = a" if "x \<in> set A'" for x
    using A that by (cases x) (auto simp: n)
  have P: "in_world (m_sectorManager s) (iSectorX (?ps ! k)) (iSectorY (?ps ! k))" if "k < length ?ps" for k
    using that inv unfolding chat_inv_def by (auto simp: n)
  have D: "distinct (map snd (prePlayer_hash s) @ map snd (xs @ ys) @ p # player_free s)" using dis by auto
  have K: "fst ` set (prePlayer_hash s) \<inter> fst ` set (xs @ ys) = {}" using inv unfolding chat_inv_def al(1) by auto
  have rest: "in_world (m_sectorManager s) 0 0" "length (balanceVec s) = length (m_CotentsQ_vec s)"
    "0 < length (m_CotentsQ_vec s)" "m_prePlayerCount s = int (length (prePlayer_hash s))"
    "m_TotalPlayers s - 1 = int (length (xs @ ys))"
    using inv by (simp_all add: chat_inv_def al(1))
  have "chat_inv ?s'" unfolding chat_inv_def sel
    by (intro conjI ballI allI impI t' K D S dA Acc W P J rest)
  then show ?thesis unfolding al(2) .
qed

lemma DeletePlayer_inv:
  assumes "DeletePlayer n s = Some s'" "chat_inv s"
  shows "chat_inv s'"
proof -
  let ?sid = "msg_owner (heap s ! n)"
  have fin: "chat_inv t" if "delete_done n t0 = Some t" "chat_inv t0" for t t0
    using that by (auto simp: delete_done_def dest!: msg_Release_inv)
  show ?thesis
  proof (cases "map_of (prePlayer_hash s) ?sid")
    case (Some p)
    with assms(1) show ?thesis using fin chat_inv_drop_pre [OF assms(2) Some] by (simp add: DeletePlayer_def Let_def)
  next
    case pre: None
    show ?thesis
    proof (cases "map_of (SessionID_hash s) ?sid")
      case None
      with pre assms show ?thesis using fin by (simp add: DeletePlayer_def Let_def)
    next
      case (Some p)
      have "p < length (players s)" using map_of_SomeD [OF Some] assms(2) by (auto simp: chat_inv_def table_ok_def)
      then have w: "in_world (m_sectorManager s) (iSectorX (players s ! p)) (iSectorY (players s ! p))"
        using assms(2) by (auto simp: chat_inv_def)
      let ?A = "if map_of (AccountNo_hash s) (m_AccountNo (players s ! p)) = Some p
                then AList.delete (m_AccountNo (players s ! p)) (AccountNo_hash s) else AccountNo_hash s"
      let ?t = "s\<lparr>SessionID_hash := AList.delete ?sid (SessionID_hash s), AccountNo_hash := ?A, m_TotalPlayers := m_TotalPlayers s - 1\<rparr>"
      have "chat_inv (free_player p ?t)" by (rule chat_inv_drop_session [OF assms(2) Some refl])
      then have "chat_inv (free_player p (sector_erase (iSectorX (players s ! p)) (iSectorY (players s ! p)) ?sid ?t))"
        by (simp add: chat_inv_def job_ok_def free_player_def upd_player_def sector_erase_def)
      with assms(1) pre Some w fin show ?thesis
        by (auto simp: DeletePlayer_def Let_def in_world_def split: if_splits)
    qed
  qed
qed

section \<open>The callbacks of the network layer\<close>

lemma OnRecv_inv: "OnRecv sid n s = Some s' \<Longrightarrow> chat_inv s' = chat_inv s"
  by (auto simp: OnRecv_def Let_def split: if_splits)

lemma msg_Alloc_inv: "msg_Alloc s = (n, s') \<Longrightarrow> chat_inv s' = chat_inv s"
  by (rule chat_inv_ext, erule more_network)

lemma post_internal_inv:
  assumes "post_internal vals sid s = Some s'"
  shows "chat_inv s' = chat_inv s"
proof -
  obtain n s1 where a: "msg_Alloc s = (n, s1)" by (cases "msg_Alloc s")
  with assms show ?thesis
    by (auto simp: post_internal_def bind_eq_Some_conv dest!: OnRecv_inv msg_Alloc_inv split: sum.splits)
qed

lemma OnAccept_inv: "OnAccept sid addr s = Some (b, s') \<Longrightarrow> chat_inv s' = chat_inv s"
  by (auto simp: OnAccept_def Let_def dest!: post_internal_inv split: if_splits)

lemma chat_inv_queue_index:
  assumes inv: "chat_inv s" and p: "p < length (players s)"
  shows "chat_inv (upd_player p (m_ContentsQIdx_update (\<lambda>_. 0)) s)"
proof -
  let ?f = "m_ContentsQIdx_update (\<lambda>_. 0)"
  have t: "table_ok st tab (players (upd_player p ?f s)) = table_ok st tab (players s)" for st tab
    by (auto simp: table_ok_def upd_player_def nth_updated [where f = ?f] split_beta)
  show ?thesis using inv unfolding chat_inv_def job_ok_def t
    by (auto simp: upd_player_def nth_updated [where f = ?f])
qed

lemma OnRelease_inv:
  assumes "OnRelease sid s = Some s'" "chat_inv s"
  shows "chat_inv s'"
proof (cases "map_of (SessionID_hash s) sid")
  case None
  with assms show ?thesis by (auto simp: OnRelease_def dest!: post_internal_inv)
next
  case (Some p)
  let ?q = "m_ContentsQIdx (players s ! p)"
  let ?s1 = "s\<lparr>balanceVec := (balanceVec s)[?q := balanceVec s ! ?q - 1]\<rparr>"
  have "p < length (players ?s1)" using map_of_SomeD [OF Some] assms(2) by (auto simp: chat_inv_def table_ok_def)
  then have "chat_inv (upd_player p (m_ContentsQIdx_update (\<lambda>_. 0)) ?s1)"
    using assms(2) by (intro chat_inv_queue_index) simp_all
  with Some assms(1) show ?thesis by (auto simp: OnRelease_def Let_def dest!: post_internal_inv)
qed

section \<open>The threads\<close>

lemma HeartBeat_scan_more: "HeartBeat_scan lim cur tab s = Some s' \<Longrightarrow> CLanServer.more s' = CLanServer.more s"
proof (induction tab arbitrary: s)
  case Nil
  then show ?case by simp
next
  case (Cons e tab)
  then show ?case
    by (auto simp: Let_def bind_eq_Some_conv split: if_splits dest!: Cons.IH more_Disconnect)
qed

lemma HeartBeat_more: "HeartBeat env s = Some s' \<Longrightarrow> CLanServer.more s' = CLanServer.more s"
  by (auto simp: HeartBeat_def bind_eq_Some_conv dest!: HeartBeat_scan_more)

lemma HeartBeat_inv: "HeartBeat env s = Some s' \<Longrightarrow> chat_inv s' = chat_inv s"
  by (rule chat_inv_ext, erule HeartBeat_more)

lemma chat_inv_pop [simp]: "chat_inv (pop_queue q s) = chat_inv s"
  by (simp add: pop_queue_def)

lemma Update_one_inv:
  assumes "Update_one env q s = Some s'" "chat_inv s"
  shows "chat_inv s'"
proof -
  let ?n = "hd (m_CotentsQ_vec s ! q)"
  have w: "chat_inv (t\<lparr>working := j # working t\<rparr>)" if "chat_inv t" "mv_player j = 0" "mv_X j = 0" "mv_Y j = 0" "0 < length (players t)" for t j
    using that by (intro chat_inv_working) (auto simp: job_ok_def chat_inv_def)
  have p: "0 < length (players t)" if "chat_inv t" "map_of (SessionID_hash t) sid = Some p" for t sid p
    using map_of_SomeD [OF that(2)] that(1) by (fastforce simp: chat_inv_def table_ok_def)
  show ?thesis
  proof (cases "msg_shr (heap (pop_queue q s) ! ?n) 2")
    case (Inl e)
    with assms show ?thesis by (simp add: Update_one_def Let_def inv_ends)
  next
    case (Inr r)
    obtain ty m where r: "r = (ty, m)" by (cases r)
    let ?s1 = "set_msg ?n m (pop_queue q s)"
    have i1: "chat_inv ?s1" using assms(2) by simp
    show ?thesis
    proof (cases "map_of (SessionID_hash ?s1) (msg_owner (heap (pop_queue q s) ! ?n))")
      case None
      with assms(1) Inr r i1 show ?thesis by (auto simp: Update_one_def Let_def inv_ends split: if_splits)
    next
      case (Some p)
      let ?s2 = "upd_player p (m_Timer_update (\<lambda>_. now env)) ?s1"
      have i2: "chat_inv ?s2" using i1 by simp
      have l2: "0 < length (players ?s2)" using p [OF i1 Some] by (simp add: upd_player_def)
      from assms(1) Inr r i1 Some show ?thesis
        by (auto simp: Update_one_def Let_def inv_ends split: if_splits intro!: w [OF i2 _ _ _ l2])
    qed
  qed
qed

lemma Update_done_inv: "Update_done j ok s = Some s' \<Longrightarrow> chat_inv s \<Longrightarrow> chat_inv s'"
  by (auto simp: Update_done_def inv_ends split: if_splits)

lemma job_step_inv:
  assumes r: "job_step env j s0 = Some s'" and inv: "chat_inv s0" and j: "j \<in> set (working s0)"
  shows "chat_inv s'"
proof -
  let ?s = "s0\<lparr>working := remove1 j (working s0)\<rparr>"
  have ok: "mv_player j < length (players s0)" "in_world (m_sectorManager s0) (uint (mv_X j)) (uint (mv_Y j))"
    using chat_inv_job [OF inv j] by (simp_all add: job_ok_def)
  have i: "chat_inv ?s" using chat_inv_job [OF inv] set_remove1_subset [of j "working s0"]
    by (intro chat_inv_working [OF inv]) blast
  have goto: "chat_inv (t\<lparr>working := k # working t\<rparr>)"
    if "chat_inv t" "working t = working ?s" "length (players t) = length (players ?s)" "m_sectorManager t = m_sectorManager ?s"
      "mv_player k = mv_player j" "mv_X k = mv_X j" "mv_Y k = mv_Y j" for t k
  proof (rule chat_inv_working [OF that(1)])
    show "job_ok t x" if "x \<in> set (k # working t)" for x
      using that ok \<open>working t = working ?s\<close> chat_inv_job [OF \<open>chat_inv t\<close>, of x]
        \<open>length (players t) = length (players ?s)\<close> \<open>m_sectorManager t = m_sectorManager ?s\<close>
        \<open>mv_player k = mv_player j\<close> \<open>mv_X k = mv_X j\<close> \<open>mv_Y k = mv_Y j\<close> by (auto simp: job_ok_def)
  qed
  have refuse: "chat_inv s'" if "Option.bind (disconnect_then_release (job_msg j) (job_session j) ?s) (Update_done j True) = Some s'"
    using that i by (auto simp: bind_eq_Some_conv inv_ends dest: Update_done_inv)
  have pos: "in_world (m_sectorManager s0) (iSectorX (players s0 ! mv_player j)) (iSectorY (players s0 ! mv_player j))"
    using inv ok(1) by (simp add: chat_inv_def)
  have x: "chat_inv (upd_player (mv_player j) (iSectorX_update (\<lambda>_. uint (mv_X j))) ?s)"
    by (rule chat_inv_position [OF i]) (use ok pos in \<open>simp_all add: in_world_def\<close>)
  have y: "chat_inv (upd_player (mv_player j) (iSectorY_update (\<lambda>_. uint (mv_Y j))) ?s)"
    by (rule chat_inv_position [OF i]) (use ok pos in \<open>simp_all add: in_world_def\<close>)
  note st = r [unfolded job_step_def Let_def]
  show ?thesis
  proof (cases "job_stage j")
    case Dispatch
    then show ?thesis using st i by (auto split: prod.splits option.splits if_splits dest: chat_PacketProc_inv Update_done_inv)
  next
    case MoveCheckX
    then show ?thesis using st i goto [OF i] refuse by (auto split: if_splits)
  next
    case MoveCheckY
    then show ?thesis using st i goto [OF i] refuse by (auto split: if_splits)
  next
    case MoveReadX
    then show ?thesis using st goto [OF i] by auto
  next
    case MoveReadY
    then show ?thesis using st goto [OF i] by auto
  next
    case MoveWriteX
    then show ?thesis using st goto [OF x] by (auto simp: upd_player_def)
  next
    case MoveWriteY
    then show ?thesis using st goto [OF y] by (auto simp: upd_player_def)
  next
    case MoveAccount
    then show ?thesis using st i goto [OF i] refuse by (auto split: if_splits)
  next
    case MoveErase
    let ?t = "sector_erase (uint (mv_beforeX j)) (uint (mv_beforeY j)) (job_session j) ?s"
    have "chat_inv ?t" using i by simp
    from goto [OF this, of "j\<lparr>job_stage := MoveInsert\<rparr>"] show ?thesis using st MoveErase
      by (simp add: sector_erase_def)
  next
    case MoveInsert
    let ?t = "sector_insert (uint (mv_X j)) (uint (mv_Y j)) (job_session j) ?s"
    have "chat_inv ?t" using i by simp
    from goto [OF this, of "j\<lparr>job_stage := MoveAnswer\<rparr>"] show ?thesis using st MoveInsert
      by (simp add: sector_insert_def)
  next
    case MoveAnswer
    then obtain s1 e where a: "send_response (job_session j) (job_msg j)
        (RES_SECTOR_MOVE (bEnCording ?s) (header_junk env) (rand_key env) (heap ?s ! job_msg j) (mv_account j) (mv_X j) (mv_Y j))
        0 [] (count_msg en_PACKET_CS_CHAT_RES_SECTOR_MOVE 1) ?s = (Some s1, e)" "Update_done j (e = None) s1 = Some s'"
      using st by (auto split: prod.splits option.splits)
    let ?t = "count_msg en_PACKET_CS_CHAT_RES_SECTOR_MOVE 1"
    have "fst (send_response (job_session j) (job_msg j)
        (RES_SECTOR_MOVE (bEnCording ?s) (header_junk env) (rand_key env) (heap ?s ! job_msg j) (mv_account j) (mv_X j) (mv_Y j))
        0 [] ?t ?s) = Some s1" using a(1) by simp
    then have "chat_inv s1"
    proof (rule send_response_inv [OF _ i])
      show "chat_inv (?t t)" if "CLanServer.more t = CLanServer.more ?s" for t using chat_inv_ext [OF that] i by simp
    qed
    then show ?thesis using Update_done_inv a(2) by blast
  qed
qed

text \<open>The packet type that a queued message starts with.\<close>

definition wType :: "CMessage \<Rightarrow> u16 option" where
  "wType m = (case msg_shr m 2 of Inl e \<Rightarrow> None | Inr (ty, m') \<Rightarrow> Some (bytes_word ty))"

lemma msg_shr_owner: "msg_shr m k = Inr (bs, m') \<Longrightarrow> msg_owner m' = msg_owner m"
  by (auto simp: msg_shr_def Let_def split: if_splits option.splits)

lemma BalanceUpdate_one_inv:
  assumes "BalanceUpdate_one env s = Some s'" "chat_inv s"
    and guard: "n = hd (m_CotentsQ_vec s ! 0)" "n < length (heap s)"
      "wType (heap s ! n) = Some en_PACKET_Player_Alloc \<Longrightarrow> map_of (SessionID_hash s) (msg_owner (heap s ! n)) = None"
  shows "chat_inv s'"
proof -
  let ?s = "pop_queue 0 s"
  have h: "heap ?s = heap s" "SessionID_hash ?s = SessionID_hash s" by (simp_all add: pop_queue_def)
  show ?thesis
  proof (cases "msg_shr (heap s ! n) 2")
    case (Inl e)
    with assms(1,2) show ?thesis
      by (simp add: BalanceUpdate_one_def Let_def guard(1) [symmetric] h inv_ends)
  next
    case (Inr x)
    obtain ty m where x: "msg_shr (heap s ! n) 2 = Inr (ty, m)" using Inr by (cases x) auto
    let ?s1 = "set_msg n m ?s"
    have own: "msg_owner (heap ?s1 ! n) = msg_owner (heap s ! n)"
      using guard(2) msg_shr_owner [OF x] by (simp add: set_msg_def h)
    have out: "map_of (SessionID_hash ?s1) (msg_owner (heap ?s1 ! n)) = None"
      if "bytes_word ty = en_PACKET_Player_Alloc"
      using guard(3) that x unfolding own by (simp add: wType_def set_msg_def h)
    have inv1: "chat_inv ?s1" using assms(2) by simp
    show ?thesis using assms(1) x inv1 out
      by (auto simp: BalanceUpdate_one_def Let_def guard(1) [symmetric] h inv_ends
          dest!: chat_PacketProc_inv dest: AllocPlayer_inv DeletePlayer_inv
          split: if_splits option.splits prod.splits bool.splits)
  qed
qed

lemma new_CTestServer_inv: "chat_inv (new_CTestServer k enc lim mx)"
proof -
  have w: "in_world (Initalize (new_stSectorManager 6400 6400 128)) 0 0"
    using Initalize_cache [of "new_stSectorManager 6400 6400 128"]
    by (simp add: in_world_def cache_upto_def new_stSectorManager_def)
  show ?thesis unfolding chat_inv_def
    by (auto simp: new_CTestServer_def new_CLanServer_def CLanServer.defs table_ok_def new_stPlayer_def w)
qed

end
