(* ===== verification/ChatCount.thy ===== *)
theory ChatCount
  imports MsgCount ChatInv
begin

text \<open>
  The account of the messages of the chatting server: its queues and the contents threads hold
  messages too, and every handler gives its message away exactly once.
\<close>

definition queued :: "CTestServer \<Rightarrow> nat multiset" where
  "queued s = mset (concat (m_CotentsQ_vec s)) + mset (map job_msg (working s))"

lemma queued_ext: "CLanServer.more s = CLanServer.more s' \<Longrightarrow> queued s = queued s'"
  using chat_ext(1,12) [of s s'] by (simp add: queued_def)

lemma mset_concat_update:
  "q < length xss \<Longrightarrow> mset (concat (xss[q := ys])) + mset (xss ! q) = mset (concat xss) + mset ys"
proof (induction xss arbitrary: q)
  case Nil
  then show ?case by simp
next
  case (Cons xs xss)
  then show ?case by (cases q) (simp_all add: ac_simps)
qed

lemma queued_push:
  assumes "q < length (m_CotentsQ_vec s)"
  shows "queued (s\<lparr>m_CotentsQ_vec := (m_CotentsQ_vec s)[q := m_CotentsQ_vec s ! q @ [n]]\<rparr>) = add_mset n (queued s)"
  using mset_concat_update [OF assms, of "m_CotentsQ_vec s ! q @ [n]"] by (simp add: queued_def)

lemma queued_pop:
  assumes "q < length (m_CotentsQ_vec s)" "m_CotentsQ_vec s ! q \<noteq> []"
  shows "queued s = add_mset (hd (m_CotentsQ_vec s ! q)) (queued (pop_queue q s))"
proof -
  have "mset (m_CotentsQ_vec s ! q) = add_mset (hd (m_CotentsQ_vec s ! q)) (mset (tl (m_CotentsQ_vec s ! q)))"
    using assms(2) by (cases "m_CotentsQ_vec s ! q") simp_all
  with mset_concat_update [OF assms(1), of "tl (m_CotentsQ_vec s ! q)"] show ?thesis
    by (simp add: queued_def pop_queue_def)
qed

lemma part_chat [simp]:
  "msg_part (s\<lparr>m_CotentsQ_vec := a\<rparr>) = msg_part s" "msg_part (s\<lparr>m_NetworkMsgCount := b\<rparr>) = msg_part s"
  "msg_part (s\<lparr>m_AllocMsgCount := b\<rparr>) = msg_part s" "msg_part (s\<lparr>balanceVec := c\<rparr>) = msg_part s"
  "msg_part (s\<lparr>m_UpdateTPS := b\<rparr>) = msg_part s" "msg_part (upd_player p f s) = msg_part s"
  "msg_part (count_msg ty k s) = msg_part s" "msg_part (pop_queue q s) = msg_part s"
  "msg_part (sector_erase x y sid s) = msg_part s" "msg_part (sector_insert x y sid s) = msg_part s"
  "msg_part (free_player p s) = msg_part s" "msg_part (s\<lparr>SessionID_hash := h\<rparr>) = msg_part s"
  "msg_part (s\<lparr>AccountNo_hash := h\<rparr>) = msg_part s" "msg_part (s\<lparr>prePlayer_hash := h\<rparr>) = msg_part s"
  "msg_part (s\<lparr>m_TotalPlayers := b\<rparr>) = msg_part s" "msg_part (s\<lparr>m_prePlayerCount := b\<rparr>) = msg_part s"
  "msg_part (s\<lparr>player_free := fr\<rparr>) = msg_part s" "msg_part (s\<lparr>working := js\<rparr>) = msg_part s"
  by (simp_all add: msg_part_def upd_player_def count_msg_def pop_queue_def sector_erase_def sector_insert_def free_player_def)

lemma heap_part: "msg_part s = msg_part s' \<Longrightarrow> heap s = heap s'"
  by (simp add: msg_part_def)

lemmas acct_chat [simp] = part_chat [THEN acct_part]
lemmas heap_chat [simp] = part_chat [THEN heap_part]

lemma queued_simps [simp]:
  "queued (s\<lparr>m_NetworkMsgCount := b\<rparr>) = queued s" "queued (s\<lparr>m_AllocMsgCount := b\<rparr>) = queued s"
  "queued (s\<lparr>balanceVec := c\<rparr>) = queued s" "queued (s\<lparr>m_UpdateTPS := b\<rparr>) = queued s"
  "queued (upd_player p f s) = queued s" "queued (count_msg ty k s) = queued s"
  "queued (sector_erase x y sid s) = queued s" "queued (sector_insert x y sid s) = queued s"
  "queued (s\<lparr>SessionID_hash := h\<rparr>) = queued s" "queued (s\<lparr>AccountNo_hash := h\<rparr>) = queued s"
  "queued (s\<lparr>prePlayer_hash := h\<rparr>) = queued s" "queued (s\<lparr>m_TotalPlayers := b\<rparr>) = queued s"
  "queued (s\<lparr>m_prePlayerCount := b\<rparr>) = queued s" "queued (s\<lparr>player_free := fr\<rparr>) = queued s"
  "queued (free_player p s) = queued s" "queued (set_msg n m s) = queued s"
  by (simp_all add: queued_def upd_player_def count_msg_def sector_erase_def sector_insert_def free_player_def set_msg_def)

lemma queued_working:
  "queued (s\<lparr>working := j # js\<rparr>) = add_mset (job_msg j) (queued (s\<lparr>working := js\<rparr>))"
  "j \<in> set (working s) \<Longrightarrow> queued s = add_mset (job_msg j) (queued (s\<lparr>working := remove1 j (working s)\<rparr>))"
  using image_mset_add_mset [of job_msg j "mset (remove1 j (working s))"] by (auto simp: queued_def)

lemma OnRecv_acct:
  assumes "OnRecv sid n s = Some s'" "acct (queued s) {#n#} s" "msg_use (heap s ! n) = 1"
  shows "acct (queued s') {#} s'"
  using assms acct_queue [of "queued s" n "{#}" s] by (auto simp: OnRecv_def Let_def queued_push split: if_splits)

lemma OnRecv_sessions: "OnRecv sid n s = Some s' \<Longrightarrow> sessions_vec s' = sessions_vec s"
  by (auto simp: OnRecv_def Let_def split: if_splits)

text \<open>Reading and writing a message does not touch its count.\<close>

lemma msg_use_ops:
  "msg_shr m k = Inr (bs, m') \<Longrightarrow> msg_use m' = msg_use m"
  "GetData m k = Inr (bs, m') \<Longrightarrow> msg_use m' = msg_use m"
  "msg_shl m bs = Inr m' \<Longrightarrow> msg_use m' = msg_use m"
  "PutData m bs = Inr m' \<Longrightarrow> msg_use m' = msg_use m"
  "end_packet enc RK m = Inr m' \<Longrightarrow> msg_use m' = msg_use m"
  by (auto simp: msg_shr_def GetData_def msg_shl_def PutData_def end_packet_def EnCoding_def ReSize_def Let_def
      split: if_splits option.splits sum.splits)

lemma begin_packet_use: "begin_packet junk m = Inr m' \<Longrightarrow> msg_use m' = 1"
  by (auto simp: begin_packet_def InitMessage_def dest!: msg_use_ops)

lemma builder_use:
  "RES_LOGIN enc junk RK m st acc = Inr m' \<Longrightarrow> msg_use m' = 1"
  "RES_SECTOR_MOVE enc junk RK m acc x y = Inr m' \<Longrightarrow> msg_use m' = 1"
  "RES_MESSAGE enc junk RK m acc ID nick len buf = Inr m' \<Longrightarrow> msg_use m' = 1"
  by (auto simp: RES_LOGIN_def RES_SECTOR_MOVE_def RES_MESSAGE_def elim!: err_bind_InrE dest!: msg_use_ops begin_packet_use)

lemma read_request_use: "read_request m ty = Inr (Some (r, m')) \<Longrightarrow> msg_use m' = msg_use m"
  by (auto simp: read_request_def Let_def elim!: err_bind_InrE split: if_splits dest!: msg_use_ops)

lemma write_all_use: "write_all bss m = Inr m' \<Longrightarrow> msg_use m' = msg_use m"
proof -
  have "fold (\<lambda>bs r. err_bind r (\<lambda>m. msg_shl m bs)) bss r = Inr m' \<Longrightarrow>
      \<exists>m. r = Inr m \<and> msg_use m' = msg_use m" for r
    by (induction bss arbitrary: r) (fastforce elim!: err_bind_InrE dest!: msg_use_ops)+
  then show "write_all bss m = Inr m' \<Longrightarrow> msg_use m' = msg_use m" unfolding write_all_def by blast
qed

lemma post_internal_acct:
  assumes "post_internal vals sid s = Some s'" "acct (queued s) {#} s"
  shows "acct (queued s') {#} s'"
proof -
  obtain n s1 where al: "msg_Alloc s = (n, s1)" by (cases "msg_Alloc s")
  note a = msg_Alloc_acct [OF assms(2) al]
  have q: "queued s1 = queued s" by (rule queued_ext [OF more_msg_Alloc [OF al]])
  obtain m s2 where m: "write_all vals (heap s1 ! n) = Inr m"
    "OnRecv sid n (set_msg n (m\<lparr>msg_owner := sid\<rparr>) s1) = Some s2"
    "s' = s2\<lparr>m_NetworkMsgCount := m_NetworkMsgCount s2 + 1\<rparr>"
    using assms(1) al by (auto simp: post_internal_def bind_eq_Some_conv split: sum.splits)
  have "acct (queued s) {#n#} (set_msg n (m\<lparr>msg_owner := sid\<rparr>) s1)"
    by (rule set_msg_acct [OF a(1)]) (simp add: write_all_use [OF m(1)])
  moreover have q': "queued (set_msg n (m\<lparr>msg_owner := sid\<rparr>) s1) = queued s" by (simp add: q)
  moreover have "msg_use (heap (set_msg n (m\<lparr>msg_owner := sid\<rparr>) s1) ! n) = 1"
    using a(2,5) write_all_use [OF m(1)] by (simp add: set_msg_def)
  ultimately have "acct (queued s2) {#} s2" using OnRecv_acct [OF m(2), unfolded q'] by blast
  then show ?thesis by (simp add: m(3))
qed

lemma post_internal_sessions: "post_internal vals sid s = Some s' \<Longrightarrow> sessions_vec s' = sessions_vec s"
  by (auto simp: post_internal_def bind_eq_Some_conv msg_Alloc_def set_msg_def dest!: OnRecv_sessions
      split: sum.splits list.splits)

text \<open>What \<^verbatim>\<open>OnRelease\<close> does before it posts its message.\<close>

lemma OnRelease_eq:
  "\<exists>s1. OnRelease sid s = post_internal [word_bytes 2 en_PACKET_Player_Delete] sid s1 \<and>
     msg_part s1 = msg_part s \<and> queued s1 = queued s \<and> sessions_vec s1 = sessions_vec s"
proof (cases "map_of (SessionID_hash s) sid")
  case None
  then show ?thesis by (auto simp: OnRelease_def)
next
  case (Some p)
  let ?q = "m_ContentsQIdx (players s ! p)"
  let ?s1 = "upd_player p (m_ContentsQIdx_update (\<lambda>_. 0)) (s\<lparr>balanceVec := (balanceVec s)[?q := balanceVec s ! ?q - 1]\<rparr>)"
  have "OnRelease sid s = post_internal [word_bytes 2 en_PACKET_Player_Delete] sid ?s1"
    using Some by (simp add: OnRelease_def Let_def)
  moreover have "msg_part ?s1 = msg_part s" "queued ?s1 = queued s" by simp_all
  moreover have "sessions_vec ?s1 = sessions_vec s" by (simp add: upd_player_def)
  ultimately show ?thesis by blast
qed

lemma OnRelease_acct: "OnRelease sid s = Some s' \<Longrightarrow> acct (queued s) {#} s \<Longrightarrow> acct (queued s') {#} s'"
  using OnRelease_eq [of sid s] post_internal_acct acct_part by metis

lemma OnRelease_sessions: "OnRelease sid s = Some s' \<Longrightarrow> sessions_vec s' = sessions_vec s"
  using OnRelease_eq [of sid s] post_internal_sessions by metis

lemma OnAccept_acct:
  assumes "OnAccept sid addr s = Some (b, s')" "acct (queued s) {#} s"
  shows "acct (queued s') {#} s'"
  using assms by (auto simp: OnAccept_def Let_def dest!: post_internal_acct(1) split: if_splits)

interpretation chat_msgs: msg_server OnRecv OnRelease queued OnAccept
  by unfold_locales (fact queued_ext OnRecv_acct OnRecv_sessions OnRelease_acct OnRelease_sessions OnAccept_acct)+

section \<open>The handlers\<close>

text \<open>
  What a handler owes: without an exception its message is given away, with one it is still the
  caller's.
\<close>

definition settled :: "nat \<Rightarrow> CTestServer option \<times> msg_error option \<Rightarrow> bool" where
  "settled n r \<longleftrightarrow> (case r of (None, e) \<Rightarrow> True
     | (Some s', None) \<Rightarrow> acct (queued s') {#} s' | (Some s', Some e) \<Rightarrow> acct (queued s') {#n#} s')"

lemma release_acct: "msg_Release n s = Some s' \<Longrightarrow> acct (queued s) {#n#} s \<Longrightarrow> acct (queued s') {#} s'"
  using msg_Release_acct [of "queued s" n "{#}" s] queued_ext [of s' s] by auto

lemma disconnect_acct: "Disconnect sid s = Some (b, s') \<Longrightarrow> acct (queued s') L s' = acct (queued s) L s"
  using acct_part [OF part_Disconnect] queued_ext [OF more_Disconnect] by metis

lemma release_then_disconnect_acct:
  assumes "release_then_disconnect n sid s = Some s'" "acct (queued s) {#n#} s"
  shows "acct (queued s') {#} s'"
  using assms disconnect_acct [of sid _ _ s' "{#}"]
  by (auto simp: release_then_disconnect_def bind_eq_Some_conv dest: release_acct)

lemma disconnect_then_release_acct:
  assumes "disconnect_then_release n sid s = Some s'" "acct (queued s) {#n#} s"
  shows "acct (queued s') {#} s'"
proof -
  obtain b s1 where "Disconnect sid s = Some (b, s1)" "msg_Release n s1 = Some s'"
    using assms(1) by (auto simp: disconnect_then_release_def bind_eq_Some_conv)
  with assms(2) disconnect_acct [of sid s b s1 "{#n#}"] show ?thesis by (auto dest: release_acct)
qed

lemmas ends_acct = release_acct release_then_disconnect_acct disconnect_then_release_acct

lemma SendPacket_acct:
  assumes "SendPacket sid n ty ids s = Some s'" "acct (queued s) {#n#} s" "n \<notin># net_refs s + (queued s + {#})"
    and "ty = 0 \<or> ty = 1"
  shows "acct (queued s') {#} s'"
  using assms(1,4) queued_ext [OF more_SendPacket [OF assms(1)]]
    Unicast_acct [OF _ assms(2)] BroadCast_acct [OF _ assms(2,3)]
  by (auto simp: SendPacket_def)

lemma send_response_settled:
  assumes "acct (queued s) {#n#} s" "n \<notin># net_refs s + (queued s + {#})" "ty = 0 \<or> ty = 1"
    and use: "\<And>m. built = Inr m \<Longrightarrow> msg_use m = 1"
    and "\<And>t. msg_part (after t) = msg_part t" "\<And>t. queued (after t) = queued t"
  shows "settled n (send_response sid n built ty ids after s)"
proof (cases built)
  case (Inl e)
  with assms(1) show ?thesis by (cases e) (simp_all add: send_response_def settled_def)
next
  case (Inr m)
  have "acct (queued s) {#n#} (set_msg n m s)"
    by (rule set_msg_sole [OF assms(1,2)]) (simp add: use [OF Inr])
  then have a: "acct (queued (set_msg n m s)) {#n#} (set_msg n m s)" by simp
  have f: "n \<notin># net_refs (set_msg n m s) + (queued (set_msg n m s) + {#})" using assms(2) by simp
  have "acct (queued (after t)) {#} (after t)" if "SendPacket sid n ty ids (set_msg n m s) = Some t" for t
    using SendPacket_acct [OF that a f assms(3)] acct_part [OF assms(5) [of t]] assms(6) [of t] by simp
  then show ?thesis
    by (cases "SendPacket sid n ty ids (set_msg n m s)") (simp_all add: send_response_def settled_def quiet_def Inr)
qed

lemma settled_quiet: "(\<And>s'. r = Some s' \<Longrightarrow> acct (queued s') {#} s') \<Longrightarrow> settled n (quiet r)"
  by (auto simp: settled_def quiet_def split: option.split)

lemma settled_None [simp]: "settled n (None, e)"
  by (simp add: settled_def)

lemma net_refs_part: "msg_part s = msg_part s' \<Longrightarrow> net_refs s = net_refs s'"
  by (simp add: msg_part_def net_refs_def)

lemmas net_refs_chat [simp] = part_chat [THEN net_refs_part]

lemma HEARTBEAT_settled: "acct (queued s) {#n#} s \<Longrightarrow> settled n (HEARTBEAT_handler env sid n s)"
  by (auto simp: HEARTBEAT_handler_def intro!: settled_quiet split: option.split dest: ends_acct)

lemma REQ_MESSAGE_settled:
  assumes "acct (queued s) {#n#} s" "n \<notin># net_refs s + (queued s + {#})"
  shows "settled n (REQ_MESSAGE_handler env sid n acc len buf s)"
  using assms
  by (auto simp: REQ_MESSAGE_handler_def Let_def intro!: settled_quiet send_response_settled
      split: option.split dest: ends_acct builder_use)

text \<open>A message that waits with a contents thread has been given to that thread.\<close>

lemma acct_goto:
  assumes "acct (queued s) {#n#} s" "msg_use (heap s ! n) = 1" "job_msg j = n"
  shows "acct (queued (s\<lparr>working := j # working s\<rparr>)) {#} (s\<lparr>working := j # working s\<rparr>)"
  using acct_queue [OF assms(1,2)] by (simp add: queued_working(1) assms(3))

lemma REQ_SECTOR_MOVE_settled:
  assumes "acct (queued s) {#n#} s" "msg_use (heap s ! n) = 1"
  shows "settled n (REQ_SECTOR_MOVE_handler q sid n acc x y s)"
  using assms
  by (auto simp: REQ_SECTOR_MOVE_handler_def intro!: settled_quiet acct_goto split: option.split dest: ends_acct)

text \<open>Login: nothing of what it does to players and tables is seen by the account.\<close>

lemma REQ_LOGIN_settled:
  assumes "acct (queued s) {#n#} s" "n \<notin># net_refs s + (queued s + {#})"
  shows "settled n (REQ_LOGIN_handler env sid n acc ID nick key s)"
proof (cases "\<exists>k p. redis env acc = Redis_string k \<and> k = key_string key \<and> map_of (prePlayer_hash s) sid = Some p \<and>
    m_State (players s ! p) = SessionState")
  case False
  then show ?thesis using assms
    by (auto simp: REQ_LOGIN_handler_def intro!: settled_quiet split: option.split redis_reply.split dest: ends_acct)
next
  case True
  then obtain k p where g: "redis env acc = Redis_string k" "k = key_string key" "map_of (prePlayer_hash s) sid = Some p"
    "m_State (players s ! p) = SessionState" by blast
  let ?kick = "case map_of (AccountNo_hash s) acc of
        Some old \<Rightarrow> map_option snd (Disconnect (m_sessionID (players s ! old)) s) | None \<Rightarrow> Some s"
  show ?thesis
  proof (cases ?kick)
    case None
    with g show ?thesis by (simp add: REQ_LOGIN_handler_def)
  next
    case (Some s1)
    have p1: "msg_part s1 = msg_part s" and m1: "CLanServer.more s1 = CLanServer.more s"
      using Some by (auto split: option.splits dest: part_Disconnect more_Disconnect)
    have a1: "acct (queued s1) {#n#} s1" "n \<notin># net_refs s1 + (queued s1 + {#})"
      using assms by (simp_all add: acct_part [OF p1] queued_ext [OF m1] net_refs_part [OF p1])
    with g Some show ?thesis
      by (auto simp: REQ_LOGIN_handler_def Let_def intro!: send_response_settled dest: builder_use)
  qed
qed

lemma handle_request_settled:
  assumes "acct (queued s) {#n#} s" "n \<notin># net_refs s + (queued s + {#})" "msg_use (heap s ! n) = 1"
    and m: "msg_use m = msg_use (heap s ! n)"
  shows "settled n (handle_request env q sid n (Some s) req m)"
proof -
  have "n < length (heap s)" using assms(1) acct_elem [of "queued s" "{#n#}" s n] by simp
  then have "msg_use (heap (set_msg n m s) ! n) = 1" using assms(3) m by (simp add: set_msg_def)
  moreover  have "acct (queued (set_msg n m s)) {#n#} (set_msg n m s)" using set_msg_acct [OF assms(1) m] by simp
  moreover have "n \<notin># net_refs (set_msg n m s) + (queued (set_msg n m s) + {#})" using assms(2) by simp
  ultimately show ?thesis
    by (cases req) (simp_all add: handle_request_def Let_def REQ_LOGIN_settled REQ_SECTOR_MOVE_settled
        REQ_MESSAGE_settled HEARTBEAT_settled)
qed

lemma chat_PacketProc_acct:
  assumes "chat_PacketProc env q sid n ty s = (b, Some s')" "acct (queued s) {#n#} s" "n \<notin># net_refs s + (queued s + {#})"
    "msg_use (heap s ! n) = 1"
  shows "if b then acct (queued s') {#} s' else acct (queued s') {#n#} s'"
proof (cases "read_request (heap s ! n) ty")
  case (Inl e)
  with assms show ?thesis by (auto simp: chat_PacketProc_def PacketProc_def)
next
  case (Inr r)
  show ?thesis
  proof (cases r)
    case None
    with Inr assms show ?thesis by (auto simp: chat_PacketProc_def PacketProc_def)
  next
    case (Some x)
    obtain req m where x: "x = (req, m)" by (cases x)
    have "settled n (handle_request env q sid n (Some s) req m)"
      by (rule handle_request_settled [OF assms(2-4)]) (use Inr Some x read_request_use in blast)
    with Inr Some x assms(1) show ?thesis
      by (auto simp: chat_PacketProc_def PacketProc_def settled_def split: prod.splits option.splits)
  qed
qed

section \<open>The threads\<close>

lemma AllocPlayer_acct:
  assumes "AllocPlayer env n s = Some s'" "acct (queued s) {#n#} s"
  shows "acct (queued s') {#} s'"
proof -
  have u: "msg_use m2 = msg_use (heap s ! n)" if "GetData (heap s ! n) 16 = Inr (ip, m1)" "msg_shr m1 2 = Inr (port, m2)"
    for ip m1 port m2 using msg_use_ops(1) [OF that(2)] msg_use_ops(2) [OF that(1)] by simp
  from assms show ?thesis
    by (auto simp: AllocPlayer_def Let_def split: if_splits list.splits sum.splits
        dest!: release_acct release_then_disconnect_acct intro!: set_msg_acct)
      (rule u, assumption+)
qed

lemma delete_done_acct: "delete_done n s = Some s' \<Longrightarrow> acct (queued s) {#n#} s \<Longrightarrow> acct (queued s') {#} s'"
  by (auto simp: delete_done_def dest!: release_acct)

lemma DeletePlayer_acct:
  assumes "DeletePlayer n s = Some s'" "acct (queued s) {#n#} s"
  shows "acct (queued s') {#} s'"
  using assms
  by (auto simp: DeletePlayer_def Let_def split: if_splits option.splits
      dest!: delete_done_acct disconnect_then_release_acct)

text \<open>Taking the front message of a queue makes the thread its only holder.\<close>

lemma pop_acct:
  assumes "acct (queued s) {#} s" "q < length (m_CotentsQ_vec s)" "m_CotentsQ_vec s ! q \<noteq> []"
    and "n = hd (m_CotentsQ_vec s ! q)"
  shows "acct (queued (pop_queue q s)) {#n#} (pop_queue q s)"
    "n \<notin># net_refs (pop_queue q s) + (queued (pop_queue q s) + {#})" "msg_use (heap s ! n) = 1"
proof -
  have "acct (add_mset n (queued (pop_queue q s))) {#} s"
    using assms(1) queued_pop [OF assms(2,3)] assms(4) by simp
  from acct_unqueue [OF this] show "acct (queued (pop_queue q s)) {#n#} (pop_queue q s)"
    "n \<notin># net_refs (pop_queue q s) + (queued (pop_queue q s) + {#})" "msg_use (heap s ! n) = 1" by simp_all
qed

lemma Update_one_acct:
  assumes "Update_one env q s = Some s'" "acct (queued s) {#} s" "q < length (m_CotentsQ_vec s)" "m_CotentsQ_vec s ! q \<noteq> []"
  shows "acct (queued s') {#} s'"
proof -
  define n where "n = hd (m_CotentsQ_vec s ! q)"
  let ?s = "pop_queue q s"
  note pop = pop_acct [OF assms(2-4) n_def]
  show ?thesis
  proof (cases "msg_shr (heap s ! n) 2")
    case (Inl e)
    with assms(1) pop show ?thesis
      by (auto simp: Update_one_def Let_def n_def [symmetric] dest: release_then_disconnect_acct)
  next
    case (Inr r)
    obtain ty m where r: "msg_shr (heap s ! n) 2 = Inr (ty, m)" using Inr by (cases r) simp
    let ?s1 = "set_msg n m ?s"
    have "n < length (heap s)" using pop(1) acct_elem [of "queued ?s" "{#n#}" ?s n] by simp
    then have "msg_use (heap ?s1 ! n) = 1" using msg_use_ops(1) [OF r] pop(3) by (simp add: set_msg_def)
    then have a1: "acct (queued ?s1) {#n#} ?s1" "n \<notin># net_refs ?s1 + (queued ?s1 + {#})" "msg_use (heap ?s1 ! n) = 1"
      using set_msg_acct [OF pop(1), of m n] msg_use_ops(1) [OF r] pop(2) by simp_all
    have a2: "acct (queued (upd_player p f ?s1)) {#n#} (upd_player p f ?s1)" "msg_use (heap (upd_player p f ?s1) ! n) = 1" for p f
      using a1 by simp_all
    from assms(1) r a1 acct_goto [OF a2] show ?thesis
      by (auto simp: Update_one_def Let_def n_def [symmetric]
          split: if_splits option.splits dest!: release_then_disconnect_acct release_acct)
  qed
qed

lemma Update_done_acct:
  assumes "Update_done j ok s = Some s'" "acct (queued s) (if ok then {#} else {#job_msg j#}) s"
  shows "acct (queued s') {#} s'"
  using assms by (auto simp: Update_done_def split: if_splits dest!: release_then_disconnect_acct)

lemma job_step_acct:
  assumes r: "job_step env j s0 = Some s'" and a0: "acct (queued s0) {#} s0" and j: "j \<in> set (working s0)"
  shows "acct (queued s') {#} s'"
proof -
  let ?s = "s0\<lparr>working := remove1 j (working s0)\<rparr>" and ?n = "job_msg j"
  have "acct (add_mset ?n (queued ?s)) {#} s0" using a0 queued_working(2) [OF j] by simp
  from acct_unqueue [OF this] have a: "acct (queued ?s) {#?n#} ?s" "?n \<notin># net_refs ?s + (queued ?s + {#})"
    "msg_use (heap ?s ! ?n) = 1" by simp_all
  have goto: "acct (queued (t\<lparr>working := k # working t\<rparr>)) {#} (t\<lparr>working := k # working t\<rparr>)"
    if "msg_part t = msg_part ?s" "queued t = queued ?s" "job_msg k = ?n" for t k
    by (rule acct_goto [OF _ _ that(3)]) (use a that(2) acct_part [OF that(1)] heap_part [OF that(1)] in simp_all)
  have refuse: "acct (queued s') {#} s'"
    if "Option.bind (disconnect_then_release ?n (job_session j) ?s) (Update_done j True) = Some s'"
    using that a(1) by (auto simp: bind_eq_Some_conv intro!: Update_done_acct dest: disconnect_then_release_acct)
  note st = r [unfolded job_step_def Let_def]
  show ?thesis
  proof (cases "job_stage j")
    case Dispatch
    then obtain b s1 where p: "chat_PacketProc env (job_queue j) (job_session j) ?n (job_type j) ?s = (b, Some s1)"
      and d: "(if ?n \<in> job_msg ` set (working s1) then Some s1 else Update_done j b s1) = Some s'"
      using st by (auto split: prod.splits option.splits)
    have c: "if b then acct (queued s1) {#} s1 else acct (queued s1) {#?n#} s1" by (rule chat_PacketProc_acct [OF p a])
    then have "acct (queued s1) (if b then {#} else {#?n#}) s1" by simp
    show ?thesis
    proof (cases "?n \<in> job_msg ` set (working s1)")
      case True
      with c d show ?thesis by (auto split: if_splits dest: acct_weaken)
    next
      case False
      with d \<open>acct (queued s1) (if b then {#} else {#?n#}) s1\<close> show ?thesis by (auto intro: Update_done_acct)
    qed
  next
    case MoveAnswer
    then obtain s1 e where b: "send_response (job_session j) ?n
        (RES_SECTOR_MOVE (bEnCording ?s) (header_junk env) (rand_key env) (heap ?s ! ?n) (mv_account j) (mv_X j) (mv_Y j))
        0 [] (count_msg en_PACKET_CS_CHAT_RES_SECTOR_MOVE 1) ?s = (Some s1, e)" "Update_done j (e = None) s1 = Some s'"
      using st by (auto split: prod.splits option.splits)
    have "settled ?n (Some s1, e)" unfolding b(1) [symmetric]
      by (rule send_response_settled [OF a(1,2)]) (auto dest: builder_use)
    then show ?thesis using b(2) by (intro Update_done_acct [OF b(2)]) (auto simp: settled_def split: option.splits)
  next
    case MoveCheckX
    then show ?thesis using st goto [of ?s] refuse by (auto split: if_splits)
  next
    case MoveCheckY
    then show ?thesis using st goto [of ?s] refuse by (auto split: if_splits)
  next
    case MoveReadX
    then show ?thesis using st goto [of ?s] by auto
  next
    case MoveReadY
    then show ?thesis using st goto [of ?s] by auto
  next
    case MoveWriteX
    then show ?thesis using st goto [of "upd_player (mv_player j) (iSectorX_update (\<lambda>_. uint (mv_X j))) ?s"] by auto
  next
    case MoveWriteY
    then show ?thesis using st goto [of "upd_player (mv_player j) (iSectorY_update (\<lambda>_. uint (mv_Y j))) ?s"] by auto
  next
    case MoveAccount
    then show ?thesis using st goto [of ?s] refuse by (auto split: if_splits)
  next
    case MoveErase
    then show ?thesis using st goto [of "sector_erase (uint (mv_beforeX j)) (uint (mv_beforeY j)) (job_session j) ?s"] by auto
  next
    case MoveInsert
    then show ?thesis using st goto [of "sector_insert (uint (mv_X j)) (uint (mv_Y j)) (job_session j) ?s"] by auto
  qed
qed

text \<open>The balance thread loses track of a message it has no case for; the account only gets better.\<close>

lemma BalanceUpdate_one_acct:
  assumes "BalanceUpdate_one env s = Some s'" "acct (queued s) {#} s" "0 < length (m_CotentsQ_vec s)" "m_CotentsQ_vec s ! 0 \<noteq> []"
  shows "acct (queued s') {#} s'"
proof -
  define n where "n = hd (m_CotentsQ_vec s ! 0)"
  let ?s = "pop_queue 0 s"
  note pop = pop_acct [OF assms(2-4) n_def]
  show ?thesis
  proof (cases "msg_shr (heap s ! n) 2")
    case (Inl e)
    with assms(1) pop show ?thesis
      by (auto simp: BalanceUpdate_one_def Let_def n_def [symmetric] dest: release_then_disconnect_acct)
  next
    case (Inr r)
    obtain ty m where r: "msg_shr (heap s ! n) 2 = Inr (ty, m)" using Inr by (cases r) simp
    let ?s1 = "set_msg n m ?s"
    have "n < length (heap s)" using pop(1) acct_elem [of "queued ?s" "{#n#}" ?s n] by simp
    then have "msg_use (heap ?s1 ! n) = 1" using msg_use_ops(1) [OF r] pop(3) by (simp add: set_msg_def)
    then have a1: "acct (queued ?s1) {#n#} ?s1" "n \<notin># net_refs ?s1 + (queued ?s1 + {#})" "msg_use (heap ?s1 ! n) = 1"
      using set_msg_acct [OF pop(1), of m n] msg_use_ops(1) [OF r] pop(2) by simp_all
    from assms(1) r a1 show ?thesis
      by (auto simp: BalanceUpdate_one_def Let_def n_def [symmetric]
          split: if_splits option.splits prod.splits bool.splits
          dest!: release_then_disconnect_acct AllocPlayer_acct DeletePlayer_acct
          dest: chat_PacketProc_acct acct_weaken)
  qed
qed

lemma HeartBeat_acct:
  assumes "HeartBeat env s = Some s'" "acct (queued s) {#} s"
  shows "acct (queued s') {#} s'"
proof -
  have scan: "HeartBeat_scan lim cur tab t = Some t' \<Longrightarrow> msg_part t' = msg_part t" for lim cur tab t t'
    by (induction tab arbitrary: t)
      (auto simp: Let_def bind_eq_Some_conv split: if_splits dest!: part_Disconnect)
  then have "msg_part s' = msg_part s" using assms(1) by (auto simp: HeartBeat_def bind_eq_Some_conv)
  then show ?thesis using assms(2) acct_part queued_ext [OF HeartBeat_more [OF assms(1)]] by metis
qed

lemma new_CTestServer_acct: "acct (queued (new_CTestServer k enc lim mx)) {#} (new_CTestServer k enc lim mx)"
  by (simp add: acct_def queued_def net_refs_def new_CTestServer_def new_CLanServer_def CLanServer.defs)

end
