(* ===== verification/ChatRun.thy ===== *)
theory ChatRun
  imports ChatCount ChatRecv
begin

text \<open>
  The chatting server as a state machine: its threads take steps in any order, and the invariants
  of the network layer, the messages and the tables hold in every state they reach.
\<close>

section \<open>Sessions and completions stay in range\<close>

fun completion_slot :: "completion \<Rightarrow> nat" where
  "completion_slot (Recv i) = i"
| "completion_slot (Send i) = i"
| "completion_slot (ReleasePost i) = i"

definition net_inv :: "nat \<Rightarrow> 'a CLanServer_scheme \<Rightarrow> bool" where
  "net_inv k s \<longleftrightarrow> length (sessions_vec s) = k \<and> (\<forall>c \<in> set (iocp s). completion_slot c < k) \<and>
     (\<forall>c \<in> set (sessions_vec s). slot (m_SeqID c) < k)"

lemma net_inv_upd [simp]:
  assumes "\<And>c. m_SeqID (f c) = m_SeqID c"
  shows "net_inv k (upd_session i f s) = net_inv k s"
proof -
  have "map m_SeqID ((sessions_vec s)[i := f (sessions_vec s ! i)]) = map m_SeqID (sessions_vec s)"
    by (rule map_list_update_same) (simp add: assms)
  then have "m_SeqID ` set ((sessions_vec s)[i := f (sessions_vec s ! i)]) = m_SeqID ` set (sessions_vec s)"
    by (metis list.set_map)
  then have "(\<forall>c \<in> set ((sessions_vec s)[i := f (sessions_vec s ! i)]). slot (m_SeqID c) < k) =
      (\<forall>c \<in> set (sessions_vec s). slot (m_SeqID c) < k)" by (metis (mono_tags, lifting) imageE imageI)
  then show ?thesis by (simp add: net_inv_def upd_session_def)
qed

lemma net_inv_simps [simp]:
  "net_inv k (os x s) = net_inv k s" "net_inv k (io_add i d s) = net_inv k s"
  "net_inv k (post c s) = (net_inv k s \<and> completion_slot c < k)"
  "net_inv k (s\<lparr>iDisCounnectCount := a\<rparr>) = net_inv k s" "net_inv k (s\<lparr>m_RecvTPS := t\<rparr>) = net_inv k s"
  "net_inv k (s\<lparr>arrTPS := u\<rparr>) = net_inv k s" "net_inv k (s\<lparr>heap := h\<rparr>) = net_inv k s"
  "net_inv k (s\<lparr>msg_free := fr\<rparr>) = net_inv k s" "net_inv k (set_msg n m s) = net_inv k s"
  "net_inv k (s\<lparr>m_SessionIdxStack := st\<rparr>) = net_inv k s" "net_inv k (s\<lparr>m_SessionCount := z\<rparr>) = net_inv k s"
  by (auto simp: io_add_def) (auto simp: net_inv_def os_def post_def set_msg_def)

lemma net_inv_remove: "net_inv k s \<Longrightarrow> net_inv k (s\<lparr>iocp := remove1 c (iocp s)\<rparr>)"
  by (auto simp: net_inv_def dest: notin_set_remove1 set_remove1_subset [THEN subsetD])

lemma net_inv_SeqID: "net_inv k s \<Longrightarrow> i < k \<Longrightarrow> slot (m_SeqID (sessions_vec s ! i)) < k"
  by (simp add: net_inv_def)

lemma net_inv_length: "net_inv k s \<Longrightarrow> length (sessions_vec s) = k"
  by (simp add: net_inv_def)

lemma net_inv_release_if_zero: "net_inv k s \<Longrightarrow> slot sid < k \<Longrightarrow> net_inv k (release_if_zero i sid s)"
  by (simp add: release_if_zero_def ReleaseSession_def)

lemma seq_io_add [simp]: "m_SeqID (sessions_vec (io_add i d s) ! j) = m_SeqID (sessions_vec s ! j)"
  by (simp add: io_add_def upd_session_def nth_updated [where f = "m_ioCount_update (\<lambda>c. c + d)"])

lemma net_Disconnect: "Disconnect sid s = Some (b, s') \<Longrightarrow> net_inv k s \<Longrightarrow> net_inv k s'"
  by (auto simp: Disconnect_def Let_def CancelIO_Routine_def net_inv_length
      intro!: net_inv_release_if_zero split: if_splits)

lemma net_SessionLock: "SessionLock sid s = Some (b, s') \<Longrightarrow> net_inv k s \<Longrightarrow> net_inv k s'"
  by (auto simp: SessionLock_def Let_def net_inv_length intro!: net_inv_release_if_zero net_inv_SeqID split: if_splits)

lemma net_SessionUnLock: "SessionUnLock sid s = Some s' \<Longrightarrow> net_inv k s \<Longrightarrow> net_inv k s'"
  by (auto simp: SessionUnLock_def Let_def net_inv_length intro!: net_inv_release_if_zero split: if_splits)

lemma net_msg_Release: "msg_Release n s = Some s' \<Longrightarrow> net_inv k s \<Longrightarrow> net_inv k s'"
  by (auto simp: msg_Release_def Let_def split: if_splits)

lemma net_msg_Release_all: "msg_Release_all ns s = Some s' \<Longrightarrow> net_inv k s \<Longrightarrow> net_inv k s'"
  by (induction ns arbitrary: s) (auto simp: bind_eq_Some_conv dest!: net_msg_Release)

lemma net_msg_Alloc: "msg_Alloc s = (n, s') \<Longrightarrow> net_inv k s \<Longrightarrow> net_inv k s'"
  by (auto simp: msg_Alloc_def split: list.splits)

lemma net_push_and_post:
  "push_and_post sid n s = Some s' \<Longrightarrow> net_inv k s \<Longrightarrow> slot sid < k \<Longrightarrow> net_inv k s'"
  by (auto simp: push_and_post_def Let_def bind_eq_Some_conv dest!: net_Disconnect net_SessionUnLock split: if_splits)

lemma net_send_one:
  assumes "do { (ok, s1) \<leftarrow> SessionLock sid s; if ok then push_and_post sid n s1 else msg_Release n s1 } = Some s'"
    and "net_inv k s"
  shows "net_inv k s'"
proof -
  obtain ok s1 where l: "SessionLock sid s = Some (ok, s1)" "(if ok then push_and_post sid n s1 else msg_Release n s1) = Some s'"
    using assms(1) by (auto simp: bind_eq_Some_conv)
  have n1: "net_inv k s1" by (rule net_SessionLock [OF l(1) assms(2)])
  then show ?thesis using l(2) net_push_and_post [OF _ n1] net_msg_Release [OF _ n1]
      SessionLock_in_range [OF l(1)] net_inv_length [OF n1] by (auto split: if_splits)
qed

lemma net_SendPacket: "SendPacket sid n ty ids s = Some s' \<Longrightarrow> net_inv k s \<Longrightarrow> net_inv k s'"
proof -
  have b: "BroadCast_loop ids n s = Some s' \<Longrightarrow> net_inv k s \<Longrightarrow> net_inv k s'" for ids s
  proof (induction ids arbitrary: s)
    case Nil
    then show ?case by simp
  next
    case (Cons i ids)
    obtain s2 where "do { (ok, s1) \<leftarrow> SessionLock i s; if ok then push_and_post i n s1 else msg_Release n s1 } = Some s2"
      "BroadCast_loop ids n s2 = Some s'" using Cons.prems(1) by (auto simp: bind_eq_Some_conv split_beta)
    with Cons.IH net_send_one Cons.prems(2) show ?case by blast
  qed
  show "SendPacket sid n ty ids s = Some s' \<Longrightarrow> net_inv k s \<Longrightarrow> net_inv k s'"
    unfolding SendPacket_def Unicast_def BroadCast_def
    by (auto split: if_splits simp del: bind_eq_Some_conv dest: net_send_one b)
qed

lemma net_Decrement:
  "net_inv k s \<Longrightarrow> i < k \<Longrightarrow> net_inv k (DecrementIoCountAndMaybeDeleteSession i s)"
  by (auto simp: DecrementIoCountAndMaybeDeleteSession_def Let_def intro!: net_inv_release_if_zero net_inv_SeqID)

lemma net_RecvPacket: "net_inv k s \<Longrightarrow> i < k \<Longrightarrow> net_inv k (RecvPacket r i s)"
  by (auto simp: RecvPacket_def Let_def WSARecvError_def split: wsa_result.split)

lemma net_SendComplete:
  assumes "SendComplete r tps i s = Some s'" "net_inv k s" "i < k"
  shows "net_inv k s'"
proof -
  obtain s1 where s1: "msg_Release_all (m_msgs (sessions_vec s ! i)) (upd_session i (m_msgs_update (\<lambda>_. [])) s) = Some s1"
    using assms(1) by (auto simp: SendComplete_def bind_eq_Some_conv)
  have "net_inv k s1" by (rule net_msg_Release_all [OF s1]) (simp add: assms(2))
  with assms(1,3) s1 show ?thesis
    by (auto simp: SendComplete_def Let_def WSASendError_def split: if_splits wsa_result.splits)
qed

lemma net_CreateMessage: "CreateMessage i hdr s = Some (res, s') \<Longrightarrow> net_inv k s \<Longrightarrow> net_inv k s'"
  by (cases "msg_Alloc s") (auto simp: CreateMessage_def Let_def bind_eq_Some_conv dest!: net_msg_Alloc)

lemma net_Session_Release: "Session_Release i s = Some s' \<Longrightarrow> net_inv k s \<Longrightarrow> net_inv k s'"
  by (auto simp: Session_Release_def bind_eq_Some_conv dest!: net_msg_Release_all)

lemma net_more: "net_inv k (s :: CTestServer) \<Longrightarrow> sessions_vec s' = sessions_vec s \<Longrightarrow> iocp s' = iocp s \<Longrightarrow> net_inv k s'"
  by (simp add: net_inv_def)

lemma net_chat [simp]:
  "net_inv k (s\<lparr>m_CotentsQ_vec := a\<rparr>) = net_inv k s" "net_inv k (s\<lparr>m_NetworkMsgCount := b\<rparr>) = net_inv k s"
  "net_inv k (s\<lparr>m_AllocMsgCount := b\<rparr>) = net_inv k s" "net_inv k (s\<lparr>balanceVec := c\<rparr>) = net_inv k s"
  "net_inv k (s\<lparr>m_UpdateTPS := b\<rparr>) = net_inv k s" "net_inv k (upd_player p f s) = net_inv k s"
  "net_inv k (count_msg ty j s) = net_inv k s" "net_inv k (pop_queue q s) = net_inv k s"
  "net_inv k (sector_erase x y sid s) = net_inv k s" "net_inv k (sector_insert x y sid s) = net_inv k s"
  "net_inv k (free_player p s) = net_inv k s" "net_inv k (s\<lparr>SessionID_hash := h\<rparr>) = net_inv k s"
  "net_inv k (s\<lparr>AccountNo_hash := h\<rparr>) = net_inv k s" "net_inv k (s\<lparr>prePlayer_hash := h\<rparr>) = net_inv k s"
  "net_inv k (s\<lparr>m_TotalPlayers := b\<rparr>) = net_inv k s" "net_inv k (s\<lparr>m_prePlayerCount := b\<rparr>) = net_inv k s"
  "net_inv k (s\<lparr>player_free := fr\<rparr>) = net_inv k s" "net_inv k (s\<lparr>working := js\<rparr>) = net_inv k s"
  by (simp_all add: net_inv_def upd_player_def count_msg_def pop_queue_def sector_erase_def sector_insert_def free_player_def)

lemma net_OnRecv: "OnRecv sid n s = Some s' \<Longrightarrow> net_inv k s \<Longrightarrow> net_inv k s'"
  by (auto simp: OnRecv_def Let_def split: if_splits)

lemma net_post_internal: "post_internal vals sid s = Some s' \<Longrightarrow> net_inv k s \<Longrightarrow> net_inv k s'"
  by (cases "msg_Alloc s") (auto simp: post_internal_def bind_eq_Some_conv dest!: net_msg_Alloc net_OnRecv split: sum.splits)

lemma net_OnRelease: "OnRelease sid s = Some s' \<Longrightarrow> net_inv k s \<Longrightarrow> net_inv k s'"
  by (auto simp: OnRelease_def Let_def dest!: net_post_internal split: option.splits)

lemma net_OnAccept: "OnAccept sid addr s = Some (b, s') \<Longrightarrow> net_inv k s \<Longrightarrow> net_inv k s'"
  by (auto simp: OnAccept_def Let_def dest!: net_post_internal split: if_splits)

lemma net_RecvComplete_loop:
  assumes "RecvComplete_loop OnRecv i sid cnt hdr s = Some (b, s')" "net_inv k s"
  shows "net_inv k s'"
  using assms
proof (induction "150 - cnt" arbitrary: cnt hdr s rule: less_induct)
  case less
  from less.prems(1) show ?case
  proof (cases rule: RecvComplete_loop_turn)
    case (deliver h n s1 m s3)
    then show ?thesis using less.hyps [OF _ deliver(4)] less.prems(2)
      by (auto dest!: net_CreateMessage net_OnRecv)
  qed (use less.prems(2) in \<open>auto dest!: net_CreateMessage net_Disconnect net_msg_Release\<close>)
qed

lemma net_WorkerThread_step:
  assumes "WorkerThread_step OnRecv OnRelease tps hdr r c data s = Some s'" "net_inv k s" "completion_slot c < k"
  shows "net_inv k s'"
proof -
  have n0: "net_inv k (s\<lparr>iocp := remove1 c (iocp s)\<rparr>)" by (rule net_inv_remove [OF assms(2)])
  show ?thesis
  proof (cases c)
    case (Recv i)
    with assms(1,3) n0 show ?thesis
      by (auto simp: WorkerThread_step_def kernel_stores_def RecvComplete_def Let_def bind_eq_Some_conv
          split: if_splits dest!: net_RecvComplete_loop intro!: net_Decrement net_RecvPacket)
  next
    case (Send i)
    with assms(1,3) n0 show ?thesis
      by (auto simp: WorkerThread_step_def Let_def bind_eq_Some_conv dest!: net_SendComplete intro!: net_Decrement)
  next
    case (ReleasePost i)
    with assms(1) n0 show ?thesis
      by (auto simp: WorkerThread_step_def ReleaseComplete_def Let_def bind_eq_Some_conv
          dest!: net_OnRelease net_Session_Release)
  qed
qed

lemma net_AcceptThread_step:
  assumes "AcceptThread_step OnAccept r attached sock addr s = Some s'" "net_inv k s"
    and "unat (next_session_id s) < 2 ^ 47" "k \<le> 2 ^ 17"
  shows "net_inv k s'"
proof (cases "m_SessionIdxStack s")
  case Nil
  with assms show ?thesis by (auto simp: AcceptThread_step_def Let_def net_inv_def os_def)
next
  case (Cons idx rest)
  let ?SeqID = "push_bit 47 (of_nat idx) + next_session_id s"
  let ?s0 = "s\<lparr>arrTPS := (arrTPS s)[0 := arrTPS s ! 0 + 1], m_TotalAccept := m_TotalAccept s + 1\<rparr>"
  let ?s1 = "(upd_session idx (\<lambda>c. c\<lparr>m_sock := sock, m_blive := 1, m_flag := 0, m_SeqID := ?SeqID, m_ioCount := 1\<rparr>) ?s0)
                \<lparr>m_SessionIdxStack := rest, next_session_id := next_session_id s + 1, m_SessionCount := m_SessionCount s + 1\<rparr>"
  show ?thesis
  proof (cases "k \<le> idx")
    case True
    with assms Cons show ?thesis by (auto simp: AcceptThread_step_def Let_def net_inv_def)
  next
    case False
    have "slot ?SeqID = idx" by (rule slot_SeqID) (use assms(3,4) False in simp_all)
    then have n1: "net_inv k ?s1" using assms(2) False
      by (auto simp: net_inv_def upd_session_def dest!: subsetD [OF set_update_subset_insert])
    show ?thesis
    proof (cases attached)
      case False
      then have "s' = os (closesocket sock) ?s1" using assms(1,2) Cons \<open>\<not> k \<le> idx\<close>
        by (auto simp: AcceptThread_step_def Let_def net_inv_def)
      then show ?thesis using n1 by (simp only: net_inv_simps)
    next
      case True
      then obtain ok s2 where s2: "OnAccept (m_SeqID (sessions_vec ?s1 ! idx)) addr ?s1 = Some (ok, s2)"
        and s': "s' = (if ok then DecrementIoCountAndMaybeDeleteSession idx (RecvPacket r idx s2)
                       else DecrementIoCountAndMaybeDeleteSession idx s2)"
        using assms(1,2) Cons False by (auto simp: AcceptThread_step_def Let_def bind_eq_Some_conv net_inv_def split: if_splits)
      then show ?thesis using net_OnAccept [OF s2 n1] False by (auto intro!: net_Decrement net_RecvPacket)
    qed
  qed
qed

lemma net_ends:
  "release_then_disconnect n sid s = Some s' \<Longrightarrow> net_inv k s \<Longrightarrow> net_inv k s'"
  "disconnect_then_release n sid s = Some s' \<Longrightarrow> net_inv k s \<Longrightarrow> net_inv k s'"
  by (auto simp: release_then_disconnect_def disconnect_then_release_def bind_eq_Some_conv
      dest!: net_msg_Release net_Disconnect)

lemma net_send_response:
  assumes "fst (send_response sid n built ty ids after s) = Some s'" "net_inv k s" "\<And>t. net_inv k (after t) = net_inv k t"
  shows "net_inv k s'"
proof (cases built)
  case (Inl e)
  with assms(1,2) show ?thesis by (cases e) (simp_all add: send_response_def)
next
  case (Inr m)
  then obtain t where t: "SendPacket sid n ty ids (set_msg n m s) = Some t" "s' = after t"
    using assms(1) by (auto simp: send_response_def quiet_def)
  have "net_inv k t" by (rule net_SendPacket [OF t(1)]) (simp add: assms(2))
  then show ?thesis by (simp add: t(2) assms(3))
qed

lemma fst_quiet: "fst (quiet r) = r"
  by (simp add: quiet_def)

lemma net_handlers:
  "fst (HEARTBEAT_handler env sid n s) = Some s' \<Longrightarrow> net_inv k s \<Longrightarrow> net_inv k s'"
  "fst (REQ_MESSAGE_handler env sid n acc len buf s) = Some s' \<Longrightarrow> net_inv k s \<Longrightarrow> net_inv k s'"
  "fst (REQ_SECTOR_MOVE_handler q sid n acc x y s) = Some s' \<Longrightarrow> net_inv k s \<Longrightarrow> net_inv k s'"
proof -
  show "fst (HEARTBEAT_handler env sid n s) = Some s' \<Longrightarrow> net_inv k s \<Longrightarrow> net_inv k s'"
    by (auto simp: HEARTBEAT_handler_def fst_quiet dest!: net_ends net_msg_Release split: option.splits)
  show "fst (REQ_MESSAGE_handler env sid n acc len buf s) = Some s' \<Longrightarrow> net_inv k s \<Longrightarrow> net_inv k s'"
    by (auto simp: REQ_MESSAGE_handler_def Let_def fst_quiet dest: net_ends net_msg_Release net_send_response
      split: option.splits if_splits)
  show "fst (REQ_SECTOR_MOVE_handler q sid n acc x y s) = Some s' \<Longrightarrow> net_inv k s \<Longrightarrow> net_inv k s'"
    by (auto simp: REQ_SECTOR_MOVE_handler_def Let_def fst_quiet dest: net_ends net_msg_Release net_send_response
      split: option.splits if_splits)
qed

lemma net_REQ_LOGIN:
  assumes "fst (REQ_LOGIN_handler env sid n acc ID nick key s) = Some s'" "net_inv k s"
  shows "net_inv k s'"
proof (cases "\<exists>c p. redis env acc = Redis_string c \<and> c = key_string key \<and> map_of (prePlayer_hash s) sid = Some p \<and>
    m_State (players s ! p) = SessionState")
  case False
  with assms show ?thesis
    by (auto simp: REQ_LOGIN_handler_def fst_quiet split: option.splits if_splits redis_reply.splits dest: net_ends)
next
  case True
  then obtain c p where g: "redis env acc = Redis_string c" "c = key_string key" "map_of (prePlayer_hash s) sid = Some p"
    "m_State (players s ! p) = SessionState" by blast
  then obtain s1 where s1: "(case map_of (AccountNo_hash s) acc of
        Some old \<Rightarrow> map_option snd (Disconnect (m_sessionID (players s ! old)) s) | None \<Rightarrow> Some s) = Some s1"
    using assms(1) by (auto simp: REQ_LOGIN_handler_def split: option.splits)
  have n1: "net_inv k s1" using s1 assms(2) by (auto split: option.splits dest: net_Disconnect)
  have r: "net_inv k s'"
    if "fst (send_response sid n built 0 [] (\<lambda>s. upd_player p (m_Timer_update (\<lambda>_. now env)) (count_msg en_PACKET_CS_CHAT_RES_LOGIN 1 s)) t) = Some s'"
      "net_inv k t" for built t
    by (rule net_send_response [OF that]) simp
  show ?thesis using g s1 assms(1) n1
    by (auto simp: REQ_LOGIN_handler_def Let_def split: if_splits elim!: r)
qed

lemma net_chat_PacketProc:
  assumes "chat_PacketProc env q sid n ty s = (b, Some s')" "net_inv k s"
  shows "net_inv k s'"
proof -
  have h: "net_inv k t" if "handle_request env q sid n (Some s) req m = (Some t, e)" for req m e t
  proof -
    have "net_inv k (set_msg n m s)" using assms(2) by simp
    moreover have "fst (handle_request env q sid n (Some s) req m) = Some t" using that by simp
    ultimately show ?thesis by (cases req) (auto simp: handle_request_def Let_def dest: net_handlers net_REQ_LOGIN)
  qed
  from assms show ?thesis
    by (auto simp: chat_PacketProc_def PacketProc_def split: sum.splits option.splits prod.splits dest: h)
qed

lemma net_AllocPlayer: "AllocPlayer env n s = Some s' \<Longrightarrow> net_inv k s \<Longrightarrow> net_inv k s'"
  by (auto simp: AllocPlayer_def Let_def split: if_splits list.splits sum.splits dest!: net_ends net_msg_Release)

lemma net_DeletePlayer: "DeletePlayer n s = Some s' \<Longrightarrow> net_inv k s \<Longrightarrow> net_inv k s'"
  by (auto simp: DeletePlayer_def delete_done_def Let_def split: if_splits option.splits dest!: net_ends net_msg_Release)

lemma net_Update_one: "Update_one env q s = Some s' \<Longrightarrow> net_inv k s \<Longrightarrow> net_inv k s'"
  by (auto simp: Update_one_def Let_def split: sum.splits if_splits option.splits prod.splits bool.splits
      dest!: net_ends net_msg_Release)

lemma net_Update_done: "Update_done j ok s = Some s' \<Longrightarrow> net_inv k s \<Longrightarrow> net_inv k s'"
  by (auto simp: Update_done_def split: if_splits dest!: net_ends)

lemma net_job_step:
  assumes r: "job_step env j s0 = Some s'" and i0: "net_inv k s0"
  shows "net_inv k s'"
proof -
  let ?s = "s0\<lparr>working := remove1 j (working s0)\<rparr>" and ?n = "job_msg j"
  have i: "net_inv k ?s" using i0 by simp
  have refuse: "net_inv k s'"
    if "Option.bind (disconnect_then_release ?n (job_session j) ?s) (Update_done j True) = Some s'"
    using that i by (auto simp: bind_eq_Some_conv dest: net_ends net_Update_done)
  note st = r [unfolded job_step_def Let_def]
  show ?thesis
  proof (cases "job_stage j")
    case Dispatch
    with st i show ?thesis
      by (auto split: prod.splits option.splits if_splits dest: net_chat_PacketProc net_Update_done)
  next
    case MoveAnswer
    then obtain s1 e where b: "send_response (job_session j) ?n
        (RES_SECTOR_MOVE (bEnCording ?s) (header_junk env) (rand_key env) (heap ?s ! ?n) (mv_account j) (mv_X j) (mv_Y j))
        0 [] (count_msg en_PACKET_CS_CHAT_RES_SECTOR_MOVE 1) ?s = (Some s1, e)" "Update_done j (e = None) s1 = Some s'"
      using st by (auto split: prod.splits option.splits)
    have "fst (send_response (job_session j) ?n
        (RES_SECTOR_MOVE (bEnCording ?s) (header_junk env) (rand_key env) (heap ?s ! ?n) (mv_account j) (mv_X j) (mv_Y j))
        0 [] (count_msg en_PACKET_CS_CHAT_RES_SECTOR_MOVE 1) ?s) = Some s1" unfolding b(1) by simp
    then have "net_inv k s1" by (rule net_send_response [OF _ i]) simp
    then show ?thesis by (rule net_Update_done [OF b(2)])
  qed (use st i0 refuse in \<open>auto split: if_splits\<close>)
qed

lemma net_BalanceUpdate_one: "BalanceUpdate_one env s = Some s' \<Longrightarrow> net_inv k s \<Longrightarrow> net_inv k s'"
  by (auto simp: BalanceUpdate_one_def Let_def split: sum.splits if_splits option.splits prod.splits bool.splits
      dest!: net_ends net_msg_Release net_chat_PacketProc net_AllocPlayer net_DeletePlayer)

lemma net_HeartBeat: "HeartBeat env s = Some s' \<Longrightarrow> net_inv k s \<Longrightarrow> net_inv k s'"
proof -
  have "HeartBeat_scan lim cur tab t = Some t' \<Longrightarrow> net_inv k t \<Longrightarrow> net_inv k t'" for lim cur tab t t'
    by (induction tab arbitrary: t) (auto simp: Let_def bind_eq_Some_conv split: if_splits dest!: net_Disconnect)
  then show "HeartBeat env s = Some s' \<Longrightarrow> net_inv k s \<Longrightarrow> net_inv k s'"
    by (auto simp: HeartBeat_def bind_eq_Some_conv)
qed

section \<open>The machine\<close>

text \<open>
  Who takes the next step: a worker on a completion and the bytes that came with it, the accept
  thread, the contents thread of a queue on its next message or, at work, by its next access, the
  balance thread on a message, the heart beat.
\<close>

datatype chat_event = Worker completion "u8 list" | Accept | Contents nat | Job nat | Balance | Beat

inductive chat_step :: "chat_event \<Rightarrow> CTestServer \<Rightarrow> CTestServer \<Rightarrow> bool" where
  worker: "c \<in> set (iocp s) \<Longrightarrow> WorkerThread_step OnRecv OnRelease tps hdr r c data s = Some s' \<Longrightarrow>
    chat_step (Worker c data) s s'"
| accept: "unat (next_session_id s) < 2 ^ 47 \<Longrightarrow> AcceptThread_step OnAccept r attached sock addr s = Some s' \<Longrightarrow>
    chat_step Accept s s'"
| contents: "0 < q \<Longrightarrow> q < length (m_CotentsQ_vec s) \<Longrightarrow> m_CotentsQ_vec s ! q \<noteq> [] \<Longrightarrow>
    q \<notin> job_queue ` set (working s) \<Longrightarrow> Update_one env q s = Some s' \<Longrightarrow> chat_step (Contents q) s s'"
| job: "j \<in> set (working s) \<Longrightarrow> job_step env j s = Some s' \<Longrightarrow> chat_step (Job (job_queue j)) s s'"
| balance: "0 < length (m_CotentsQ_vec s) \<Longrightarrow> m_CotentsQ_vec s ! 0 \<noteq> [] \<Longrightarrow> BalanceUpdate_one env s = Some s' \<Longrightarrow> chat_step Balance s s'"
| beat: "HeartBeat env s = Some s' \<Longrightarrow> chat_step Beat s s'"

inductive_cases chat_stepE: "chat_step e s s'"

text \<open>
  The states a server of \<open>N\<close> sessions and \<open>k\<close> contents threads reaches by steps that \<open>ok\<close> allows.
\<close>

inductive chat_reach :: "(chat_event \<Rightarrow> CTestServer \<Rightarrow> bool) \<Rightarrow> nat \<Rightarrow> nat \<Rightarrow> CTestServer \<Rightarrow> bool" for ok N k where
  start: "chat_reach ok N k (Start junk W N (new_CTestServer k enc lim mx))"
| step: "chat_reach ok N k s \<Longrightarrow> chat_step e s s' \<Longrightarrow> ok e s \<Longrightarrow> chat_reach ok N k s'"

lemma queues_more: "CLanServer.more s = CLanServer.more (s' :: CTestServer) \<Longrightarrow> length (m_CotentsQ_vec s) = length (m_CotentsQ_vec s')"
  using chat_ext(1) [of s s'] by simp

definition acct_inv :: "nat \<Rightarrow> CTestServer \<Rightarrow> bool" where
  "acct_inv N s \<longleftrightarrow> acct (queued s) {#} s \<and> net_inv N s"

lemma new_clsSession_refs [simp]: "session_refs (new_clsSession junk) = []" "m_SeqID (new_clsSession junk) = 0"
  by (simp_all add: session_refs_def new_clsSession_def)

lemma acct_inv_start: "acct_inv N (Start junk W N (new_CTestServer k enc lim mx))"
proof -
  let ?s = "Start junk W N (new_CTestServer k enc lim mx)"
  have f: "heap ?s = []" "msg_free ?s = []" "iocp ?s = []" "sessions_vec ?s = replicate N (new_clsSession junk)"
    "m_CotentsQ_vec ?s = replicate (k + 1) []" "working ?s = []" "os_log ?s = []"
    by (simp_all add: Start_def new_CTestServer_def new_CLanServer_def CLanServer.defs)
  have "concat (map session_refs (replicate N (new_clsSession junk))) = []" "concat (replicate (k + 1) []) = []"
    by (simp_all add: concat_eq_Nil_conv)
  then show ?thesis by (simp add: acct_inv_def acct_def net_inv_def f net_refs_def queued_def slot_def)
qed

lemma acct_inv_step:
  assumes "chat_step e s s'" "acct_inv N s" "N \<le> 2 ^ 17"
  shows "acct_inv N s'"
  using assms(1)
proof (cases rule: chat_step.cases)
  case (worker c tps hdr r data)
  have c: "completion_slot c < N" using assms(2) worker(2) by (simp add: acct_inv_def net_inv_def)
  with assms(2) have "case c of Recv i \<Rightarrow> True | Send i \<Rightarrow> i < length (sessions_vec s) | ReleasePost i \<Rightarrow> i < length (sessions_vec s)"
    by (cases c) (simp_all add: acct_inv_def net_inv_def)
  with worker assms(2) c show ?thesis
    using chat_msgs.WorkerThread_step_acct net_WorkerThread_step unfolding acct_inv_def by blast
next
  case accept
  with assms(2,3) show ?thesis
    using chat_msgs.AcceptThread_step_acct net_AcceptThread_step unfolding acct_inv_def by blast
next
  case (contents q env)
  then show ?thesis using assms(2) Update_one_acct [of env q s s'] net_Update_one [of env q s s' N]
    by (simp add: acct_inv_def)
next
  case (job j env)
  then show ?thesis using assms(2) job_step_acct [of env j s s'] net_job_step [of env j s s' N]
    by (simp add: acct_inv_def)
next
  case (balance env)
  then show ?thesis using assms(2) BalanceUpdate_one_acct [of env s s'] net_BalanceUpdate_one [of env s s' N]
    by (simp add: acct_inv_def)
next
  case (beat env)
  then show ?thesis using assms(2) HeartBeat_acct [of env s s'] net_HeartBeat [of env s s' N]
    by (simp add: acct_inv_def)
qed

lemma acct_inv_reach: "chat_reach ok N k s \<Longrightarrow> N \<le> 2 ^ 17 \<Longrightarrow> acct_inv N s"
  by (induction rule: chat_reach.induct) (auto intro: acct_inv_start acct_inv_step)

text \<open>
  When an allocation is at the front of the balance queue, its session is not logged in. The server
  itself posts one allocation per connection, before any request can be queued.
\<close>

definition honest :: "chat_event \<Rightarrow> CTestServer \<Rightarrow> bool" where
  "honest e s \<longleftrightarrow> (let n = hd (m_CotentsQ_vec s ! 0)
     in e = Balance \<and> wType (heap s ! n) = Some en_PACKET_Player_Alloc
        \<longrightarrow> map_of (SessionID_hash s) (msg_owner (heap s ! n)) = None)"

lemma more_RecvPacket: "CLanServer.more (RecvPacket r i s) = CLanServer.more s"
  by (simp add: RecvPacket_def Let_def WSARecvError_def split: wsa_result.split)

lemma more_Decrement: "CLanServer.more (DecrementIoCountAndMaybeDeleteSession i s) = CLanServer.more s"
  by (simp add: DecrementIoCountAndMaybeDeleteSession_def Let_def)

lemma more_msg_Release_all: "msg_Release_all ns s = Some s' \<Longrightarrow> CLanServer.more s' = CLanServer.more s"
  by (induction ns arbitrary: s) (auto simp: bind_eq_Some_conv dest!: more_msg_Release)

lemma more_Session_Release: "Session_Release i s = Some s' \<Longrightarrow> CLanServer.more s' = CLanServer.more s"
  by (auto simp: Session_Release_def bind_eq_Some_conv dest!: more_msg_Release_all)

lemma more_SendComplete:
  assumes "SendComplete r tps i s = Some s'"
  shows "CLanServer.more s' = CLanServer.more s"
proof -
  obtain s1 where s1: "msg_Release_all (m_msgs (sessions_vec s ! i)) (upd_session i (m_msgs_update (\<lambda>_. [])) s) = Some s1"
    using assms by (auto simp: SendComplete_def bind_eq_Some_conv)
  have "CLanServer.more s1 = CLanServer.more s" using more_msg_Release_all [OF s1] by simp
  with assms s1 show ?thesis
    by (auto simp: SendComplete_def Let_def WSASendError_def split: if_splits wsa_result.splits)
qed

lemma more_CreateMessage: "CreateMessage i hdr s = Some (res, s') \<Longrightarrow> CLanServer.more s' = CLanServer.more s"
  by (cases "msg_Alloc s") (auto simp: CreateMessage_def Let_def bind_eq_Some_conv dest!: more_msg_Alloc)

lemma RecvComplete_loop_inv:
  assumes "RecvComplete_loop OnRecv i sid cnt hdr s = Some (b, s')" "chat_inv s"
  shows "chat_inv s'"
  using assms
proof (induction "150 - cnt" arbitrary: cnt hdr s rule: less_induct)
  case less
  from less.prems(1) show ?case
  proof (cases rule: RecvComplete_loop_turn)
    case (deliver h n s1 m s3)
    have "chat_inv s1" using less.prems(2) chat_inv_ext [OF more_CreateMessage [OF deliver(1)]] by simp
    then have "chat_inv s3" using OnRecv_inv [OF deliver(3)] by simp
    moreover have "CLanServer.more (s3\<lparr>m_RecvTPS := m_RecvTPS s3 + 1\<rparr>) = CLanServer.more s3" by simp
    ultimately have "chat_inv (s3\<lparr>m_RecvTPS := m_RecvTPS s3 + 1\<rparr>)" using chat_inv_ext by blast
    moreover have "150 - (cnt + 1) < 150 - cnt" using deliver(5) by arith
    ultimately show ?thesis using less.hyps [OF _ deliver(4)] by blast
  next
    case wait
    then show ?thesis using less.prems(2) by simp
  next
    case cut
    then show ?thesis using less.prems(2) Disconnect_inv by blast
  next
    case short
    then show ?thesis using less.prems(2) Disconnect_inv chat_inv_ext [OF more_CreateMessage [OF short(1)]] by blast
  next
    case (bad h n s1 m)
    have "CLanServer.more s' = CLanServer.more s"
      using more_msg_Release [OF bad(3)] more_CreateMessage [OF bad(1)] by simp
    then show ?thesis using less.prems(2) chat_inv_ext by blast
  qed
qed

lemma RecvComplete_inv:
  assumes "RecvComplete OnRecv hdr r i k s = Some s'" "chat_inv s"
  shows "chat_inv s'"
proof -
  let ?s1 = "upd_session i (m_recvBuffer_update (\<lambda>rb. MoveRear rb k)) s"
  obtain b s2 where l: "RecvComplete_loop OnRecv i (m_SeqID (sessions_vec ?s1 ! i)) 0 hdr ?s1 = Some (b, s2)"
    "s' = (if b then RecvPacket r i s2 else s2)"
    using assms(1) by (auto simp: RecvComplete_def Let_def bind_eq_Some_conv)
  have "chat_inv s2" using RecvComplete_loop_inv [OF l(1)] assms(2) by simp
  moreover have "CLanServer.more s' = CLanServer.more s2" by (simp add: l(2) more_RecvPacket)
  ultimately show ?thesis using chat_inv_ext by blast
qed

lemma WorkerThread_step_inv:
  assumes "WorkerThread_step OnRecv OnRelease tps hdr r c data s = Some s'" "chat_inv s"
  shows "chat_inv s'"
proof (cases c)
  case (Recv i)
  let ?s0 = "s\<lparr>iocp := remove1 c (iocp s)\<rparr>"
  let ?s1 = "\<lambda>mem. upd_session i (m_recvBuffer_update (rb_mem_update (\<lambda>_. mem))) ?s0"
  from Recv obtain mem s3 where t: "RecvComplete OnRecv hdr r i (length data)
        (if data = [] then upd_session i (m_blive_update (\<lambda>_. 0)) (?s1 mem) else ?s1 mem) = Some s3"
      "s' = DecrementIoCountAndMaybeDeleteSession i s3"
    using assms(1) by (auto simp: WorkerThread_step_def kernel_stores_def Let_def bind_eq_Some_conv)
  have "CLanServer.more ?s0 = CLanServer.more s" by simp
  then have "chat_inv ?s0" using chat_inv_ext assms(2) by blast
  then have "chat_inv s3" using RecvComplete_inv [OF t(1)] by simp
  moreover have "CLanServer.more s' = CLanServer.more s3" by (simp add: t(2) more_Decrement)
  ultimately show ?thesis using chat_inv_ext by blast
next
  case (Send i)
  then obtain s1 where s1: "SendComplete r tps i (s\<lparr>iocp := remove1 c (iocp s)\<rparr>) = Some s1"
    "s' = DecrementIoCountAndMaybeDeleteSession i s1"
    using assms(1) by (auto simp: WorkerThread_step_def Let_def bind_eq_Some_conv)
  have "CLanServer.more s' = CLanServer.more s" using more_SendComplete [OF s1(1)] by (simp add: s1(2) more_Decrement)
  then show ?thesis using chat_inv_ext assms(2) by blast
next
  case (ReleasePost i)
  let ?s0 = "s\<lparr>iocp := remove1 c (iocp s)\<rparr>"
  obtain s1 s2 where r: "OnRelease (m_SeqID (sessions_vec ?s0 ! i)) ?s0 = Some s1" "Session_Release i s1 = Some s2"
    "CLanServer.more s' = CLanServer.more s2"
    using assms(1) ReleasePost
    by (auto simp: WorkerThread_step_def ReleaseComplete_def Let_def bind_eq_Some_conv os_def)
  have "CLanServer.more ?s0 = CLanServer.more s" by simp
  then have "chat_inv ?s0" using chat_inv_ext assms(2) by blast
  then have "chat_inv s1" using OnRelease_inv [OF r(1)] by blast
  moreover have "CLanServer.more s' = CLanServer.more s1" using more_Session_Release [OF r(2)] r(3) by simp
  ultimately show ?thesis using chat_inv_ext by blast
qed

lemma AcceptThread_step_inv:
  assumes "AcceptThread_step OnAccept r attached sock addr s = Some s'" "chat_inv s"
  shows "chat_inv s'"
proof -
  have net: "chat_inv (DecrementIoCountAndMaybeDeleteSession i t) = chat_inv t" "chat_inv (RecvPacket r i t) = chat_inv t" for i t
    by (rule chat_inv_ext, simp add: more_Decrement more_RecvPacket)+
  have acc: "chat_inv u" if "OnAccept sid addr t = Some (ok, u)" "CLanServer.more t = CLanServer.more s" for sid t ok u
    using OnAccept_inv [OF that(1)] chat_inv_ext [OF that(2)] assms(2) by simp
  have same: "chat_inv u" if "CLanServer.more u = CLanServer.more s" for u
    using chat_inv_ext [OF that] assms(2) by simp
  from assms(1) show ?thesis
    by (auto simp: AcceptThread_step_def Let_def bind_eq_Some_conv net intro: same dest!: acc split: list.splits if_splits)
qed

lemma chat_inv_step:
  assumes "chat_step e s s'" "chat_inv s" "acct_inv N s" "honest e s"
  shows "chat_inv s'"
  using assms(1)
proof (cases rule: chat_step.cases)
  case worker
  then show ?thesis using WorkerThread_step_inv assms(2) by blast
next
  case accept
  then show ?thesis using AcceptThread_step_inv assms(2) by blast
next
  case contents
  then show ?thesis using Update_one_inv assms(2) by blast
next
  case job
  then show ?thesis using job_step_inv assms(2) by blast
next
  case (balance env)
  let ?n = "hd (m_CotentsQ_vec s ! 0)"
  have "?n \<in># queued s"
    using queued_pop [OF balance(2,3)] by simp
  moreover have "acct (queued s) {#} s" using assms(3) by (simp add: acct_inv_def)
  ultimately have "?n < length (heap s)" using acct_elem [of "queued s" "{#}" s ?n] by simp
  with balance show ?thesis using BalanceUpdate_one_inv [OF balance(4) assms(2) refl] assms(4)
    by (simp add: honest_def Let_def)
next
  case beat
  then show ?thesis using HeartBeat_inv assms(2) by blast
qed

lemma chat_inv_start: "chat_inv (Start junk W N (new_CTestServer k enc lim mx))"
proof -
  have "CLanServer.more (Start junk W N (new_CTestServer k enc lim mx)) = CLanServer.more (new_CTestServer k enc lim mx)"
    by (simp add: Start_def)
  then show ?thesis using chat_inv_ext new_CTestServer_inv by blast
qed

lemma chat_inv_reach: "chat_reach honest N k s \<Longrightarrow> N \<le> 2 ^ 17 \<Longrightarrow> chat_inv s"
  by (induction rule: chat_reach.induct) (auto intro: chat_inv_start chat_inv_step dest: acct_inv_reach)

end
