(* ===== verification/ChatProps.thy ===== *)
theory ChatProps
  imports ChatRun
begin

text \<open>
  Properties of the whole chatting server, over its runs, and the behaviours of the handlers that
  the invariants of the tables exclude.
\<close>

section \<open>Packet types a client may forge\<close>

lemma msg_Release_kept: "msg_Release n s = Some s' \<Longrightarrow> k \<noteq> n \<Longrightarrow> heap s' ! k = heap s ! k"
  by (auto simp: msg_Release_def Let_def split: if_splits)

text \<open>
  The balance thread takes an allocation for the server's own message. One that ends after its type
  throws in \<^verbatim>\<open>AllocPlayer\<close>, where nothing catches.
\<close>

lemma short_alloc_crashes:
  assumes q: "m_CotentsQ_vec s ! 0 = n # rest" and n: "n < length (heap s)" "msg_ok (heap s ! n)"
    and d: "msg_data (heap s ! n) = word_bytes 2 en_PACKET_Player_Alloc"
    and pre: "map_of (prePlayer_hash s) (msg_owner (heap s ! n)) = None" and free: "player_free s \<noteq> []"
  shows "BalanceUpdate_one env s = None"
proof -
  let ?m = "(heap s ! n)\<lparr>msg_front := msg_front (heap s ! n) + 2\<rparr>"
  have r: "msg_shr (heap s ! n) 2 = Inr (word_bytes 2 en_PACKET_Player_Alloc, ?m)"
    unfolding msg_shr_eq [OF n(2)] d by simp
  have "msg_ok ?m" "msg_data ?m = []" using msg_shr_ok(1,2) [OF n(2) r] d by simp_all
  then have g: "GetData ?m 16 = Inl HasNotData" by (simp add: GetData_eq msg_shr_eq)
  have ty: "(bytes_word (word_bytes 2 en_PACKET_Player_Alloc) :: u16) = en_PACKET_Player_Alloc" by simp
  let ?s1 = "set_msg n ?m (pop_queue 0 s)"
  have h: "heap ?s1 ! n = ?m" "prePlayer_hash ?s1 = prePlayer_hash s" "player_free ?s1 = player_free s"
    using n(1) by (simp_all add: set_msg_def pop_queue_def)
  have "AllocPlayer env n ?s1 = None" using pre free g h by (simp add: AllocPlayer_def Let_def split: list.split)
  then show ?thesis using q r ty by (simp add: BalanceUpdate_one_def Let_def pop_queue_def)
qed

text \<open>What a forged departure leaves behind: the session is in no table and a player is in the pool.\<close>

lemma forged_delete:
  assumes q: "m_CotentsQ_vec s ! 0 = [n, k]" and Q: "0 < length (m_CotentsQ_vec s)"
    and n: "n < length (heap s)" "msg_ok (heap s ! n)" and nk: "k \<noteq> n"
    and d: "msg_data (heap s ! n) = word_bytes 2 en_PACKET_Player_Delete"
    and pre: "map_of (prePlayer_hash s) (msg_owner (heap s ! n)) = Some p"
    and r: "BalanceUpdate_one env s = Some s'"
  shows "m_CotentsQ_vec s' ! 0 = [k]" "heap s' ! k = heap s ! k" "length (heap s) \<le> length (heap s')"
    "map_of (prePlayer_hash s') (msg_owner (heap s ! n)) = None" "player_free s' \<noteq> []"
proof -
  let ?sid = "msg_owner (heap s ! n)"
  let ?m = "(heap s ! n)\<lparr>msg_front := msg_front (heap s ! n) + 2\<rparr>"
  have sh: "msg_shr (heap s ! n) 2 = Inr (word_bytes 2 en_PACKET_Player_Delete, ?m)"
    unfolding msg_shr_eq [OF n(2)] d by simp
  have ty: "(bytes_word (word_bytes 2 en_PACKET_Player_Delete) :: u16) = en_PACKET_Player_Delete"
    "en_PACKET_Player_Delete \<noteq> en_PACKET_Player_Alloc" by (simp_all add: en_PACKET_Player_Delete_def en_PACKET_Player_Alloc_def)
  let ?s1 = "set_msg n ?m (pop_queue 0 s)"
  let ?t = "(free_player p (?s1\<lparr>prePlayer_hash := AList.delete ?sid (prePlayer_hash ?s1),
               m_prePlayerCount := m_prePlayerCount ?s1 - 1\<rparr>))"
  have own: "msg_owner (heap ?s1 ! n) = ?sid" using n(1) by (simp add: set_msg_def pop_queue_def)
  have pre1: "map_of (prePlayer_hash ?s1) ?sid = Some p" using pre by (simp add: set_msg_def pop_queue_def)
  have "BalanceUpdate_one env s = DeletePlayer n ?s1"
    using q sh ty by (simp add: BalanceUpdate_one_def Let_def pop_queue_def)
  also have "\<dots> = delete_done n ?t" using own pre1 by (simp add: DeletePlayer_def Let_def)
  finally have rel: "msg_Release n (?t\<lparr>m_NetworkMsgCount := m_NetworkMsgCount ?t - 1\<rparr>) = Some s'"
    using r by (simp add: delete_done_def)
  let ?u = "?t\<lparr>m_NetworkMsgCount := m_NetworkMsgCount ?t - 1\<rparr>"
  note e = chat_ext [OF more_msg_Release [OF rel]]
  show "m_CotentsQ_vec s' ! 0 = [k]" unfolding e using q Q
    by (simp add: free_player_def upd_player_def set_msg_def pop_queue_def)
  show "heap s' ! k = heap s ! k" using msg_Release_kept [OF rel nk] nk
    by (simp add: set_msg_def)
  have "length (heap s') = length (heap ?u)" using rel by (auto simp: msg_Release_def Let_def split: if_splits)
  then show "length (heap s) \<le> length (heap s')" by (simp add: set_msg_def)
  show "map_of (prePlayer_hash s') ?sid = None" unfolding e
    by (simp add: free_player_def upd_player_def AList.delete_conv')
  show "player_free s' \<noteq> []" unfolding e by (simp add: free_player_def)
qed

text \<open>Receiving changes no table.\<close>

definition tables :: "CTestServer \<Rightarrow> (u64 \<times> nat) list \<times> (u64 \<times> nat) list \<times> stPlayer list \<times> nat list \<times> nat" where
  "tables s = (prePlayer_hash s, SessionID_hash s, players s, player_free s, length (m_CotentsQ_vec s))"

lemma tables_more: "CLanServer.more s = CLanServer.more (s' :: CTestServer) \<Longrightarrow> tables s = tables s'"
  using chat_ext [of s s'] by (simp add: tables_def)

lemma RecvComplete_loop_tables:
  assumes "RecvComplete_loop OnRecv i sid cnt hdr s = Some (b, s')"
  shows "tables s' = tables s"
  using assms
proof (induction "150 - cnt" arbitrary: cnt hdr s rule: less_induct)
  case less
  have m: "CLanServer.more t = CLanServer.more s \<Longrightarrow> tables t = tables s" for t by (rule tables_more)
  from less.prems show ?case
  proof (cases rule: RecvComplete_loop_turn)
    case wait
    then show ?thesis by simp
  next
    case cut
    then show ?thesis by (intro m more_Disconnect)
  next
    case (short h s1 x c)
    then show ?thesis using more_Disconnect [OF short(2)] more_CreateMessage [OF short(1)] by (intro m) simp
  next
    case (bad h n s1 x)
    then show ?thesis using more_msg_Release [OF bad(3)] more_CreateMessage [OF bad(1)] by (intro m) simp
  next
    case (deliver h n s1 x s3)
    have "tables s1 = tables s" by (rule m [OF more_CreateMessage [OF deliver(1)]])
    moreover have "tables s3 = tables s1" using deliver(3) tables_more [of "set_msg n x s1" s1]
      by (auto simp: OnRecv_def Let_def tables_def set_msg_def split: if_splits)
    moreover have "tables (s3\<lparr>m_RecvTPS := m_RecvTPS s3 + 1\<rparr>) = tables s3" by (rule tables_more) simp
    moreover have "150 - (cnt + 1) < 150 - cnt" using deliver(5) by arith
    ultimately show ?thesis using less.hyps [OF _ deliver(4)] by simp
  qed
qed

lemma recv_step_tables:
  assumes "WorkerThread_step OnRecv OnRelease tps hdr r (Recv i) data s = Some s'"
  shows "tables s' = tables s"
proof -
  let ?s0 = "s\<lparr>iocp := remove1 (Recv i) (iocp s)\<rparr>"
  let ?s1 = "\<lambda>mem. upd_session i (m_recvBuffer_update (rb_mem_update (\<lambda>_. mem))) ?s0"
  obtain mem s3 where t: "RecvComplete OnRecv hdr r i (length data)
        (if data = [] then upd_session i (m_blive_update (\<lambda>_. 0)) (?s1 mem) else ?s1 mem) = Some s3"
      "s' = DecrementIoCountAndMaybeDeleteSession i s3"
    using assms by (auto simp: WorkerThread_step_def kernel_stores_def Let_def bind_eq_Some_conv)
  let ?u = "upd_session i (m_recvBuffer_update (\<lambda>rb. MoveRear rb (length data)))
     (if data = [] then upd_session i (m_blive_update (\<lambda>_. 0)) (?s1 mem) else ?s1 mem)"
  obtain b s2 where l: "RecvComplete_loop OnRecv i (m_SeqID (sessions_vec ?u ! i)) 0 hdr ?u = Some (b, s2)"
      "s3 = (if b then RecvPacket r i s2 else s2)"
    using t(1) unfolding RecvComplete_def Let_def bind_eq_Some_conv by (elim exE conjE) (simp split: prod.splits)
  have u: "CLanServer.more ?u = CLanServer.more ?s0" by simp
  have "tables s' = tables s2" by (rule tables_more) (simp add: t(2) l(2) more_Decrement more_RecvPacket)
  also have "\<dots> = tables ?u" by (rule RecvComplete_loop_tables [OF l(1)])
  also have "\<dots> = tables ?s0" by (rule tables_more [OF u])
  also have "\<dots> = tables s" by (simp add: tables_def)
  finally show ?thesis .
qed

text \<open>
  C5: a client can end the server. On a connection that has not logged in, one receive delivers two
  frames with the internal packet types \<^verbatim>\<open>Player_Delete\<close> and \<^verbatim>\<open>Player_Alloc\<close> and nothing else. The
  worker queues them like any request, and the next turn of the balance thread dies of the
  exception that \<^verbatim>\<open>AllocPlayer\<close> throws.
\<close>

theorem client_ends_server:
  assumes rdy: "recv_ready i s" and ok: "queues_ok s" and data: "data \<noteq> []"
    and fit: "length (ring_list (recv_ring i s)) + length data \<le> ring_cap (recv_ring i s)"
    and sid: "sid = m_SeqID (sessions_vec s ! i)" and hdr: "length hdr = sizeof_stHeader"
    and frames: "parse_frames 0x32 (max_MsgLen s) 0 (ring_list (recv_ring i s) @ data) =
       ([word_bytes 2 en_PACKET_Player_Delete, word_bytes 2 en_PACKET_Player_Alloc], e)"
    and wait: "map_of (prePlayer_hash s) sid = Some p" "map_of (SessionID_hash s) sid = None"
    and empty: "m_CotentsQ_vec s ! 0 = []"
  shows "\<exists>s'. WorkerThread_step OnRecv OnRelease tps hdr r (Recv i) data s = Some s' \<and> BalanceUpdate env s' = None"
proof -
  let ?D = "word_bytes 2 en_PACKET_Player_Delete" and ?A = "word_bytes 2 en_PACKET_Player_Alloc"
  obtain s' s1 go ns where w: "WorkerThread_step OnRecv OnRelease tps hdr r (Recv i) data s = Some s'" "queues_ok s'"
    and s': "s' = DecrementIoCountAndMaybeDeleteSession i (if go then RecvPacket r i s1 else s1)"
    and lf: "loop_frame i (s\<lparr>iocp := remove1 (Recv i) (iocp s)\<rparr>) ns [?D, ?A] s1"
    and inb: "chat_inbox sid s' = chat_inbox sid s @ ns"
    using chat.recv_completion [OF rdy ok data fit sid hdr frames, where OnRelease = OnRelease and tps = tps and r = r]
    by (elim exE conjE) (rule that)
  have "msg_part s' = msg_part s1" by (simp add: s')
  then have h: "heap s' = heap s1" by (rule heap_part)
  have tab: "prePlayer_hash s' = prePlayer_hash s" "SessionID_hash s' = SessionID_hash s"
    "length (m_CotentsQ_vec s') = length (m_CotentsQ_vec s)"
    using recv_step_tables [OF w(1)] by (simp_all add: tables_def)
  obtain n k where ns: "ns = [n, k]" and nk: "k \<noteq> n" "msg_data (heap s1 ! n) = ?D" "msg_data (heap s1 ! k) = ?A"
    using lf by (auto simp: loop_frame_def map_eq_Cons_conv)
  have in1: "n < length (heap s1)" "k < length (heap s1)" "msg_owner (heap s1 ! n) = sid" "msg_owner (heap s1 ! k) = sid"
    using lf by (auto simp: loop_frame_def ns sid)
  have ok1: "msg_ok (heap s1 ! n)" "msg_ok (heap s1 ! k)"
    using lf in1 by (simp_all add: loop_frame_def pool_ok_def)
  have tq: "target_queue sid t = 0" if "SessionID_hash t = SessionID_hash s" for t :: CTestServer
    using wait(2) by (simp add: target_queue_def that)
  have Q: "0 < length (m_CotentsQ_vec s')" using w(2) tq [OF tab(2)] unfolding queues_ok_def by metis
  have q: "m_CotentsQ_vec s' ! 0 = [n, k]"
    using inb empty unfolding chat_inbox_def tq [OF tab(2)] tq [OF refl] ns by simp
  have pre: "map_of (prePlayer_hash s') (msg_owner (heap s' ! n)) = Some p" using wait(1) in1 by (simp add: tab h)
  have "BalanceUpdate_n 2 env s' = None"
  proof (cases "BalanceUpdate_one env s'")
    case None
    then show ?thesis by (simp add: numeral_2_eq_2)
  next
    case (Some t)
    have n: "n < length (heap s')" "msg_ok (heap s' ! n)" "msg_data (heap s' ! n) = ?D" using in1 ok1 nk by (simp_all add: h)
    note t = forged_delete [OF q Q n(1,2) nk(1) n(3) pre Some]
    have k: "k < length (heap t)" "msg_ok (heap t ! k)" "msg_data (heap t ! k) = ?A"
      "map_of (prePlayer_hash t) (msg_owner (heap t ! k)) = None"
      using in1 ok1 nk t(2-4) by (simp_all add: h)
    have "BalanceUpdate_one env t = None" by (rule short_alloc_crashes [OF t(1) k(1,2,3,4) t(5)])
    then show ?thesis using Some by (simp add: numeral_2_eq_2)
  qed
  moreover have "length (m_CotentsQ_vec s' ! 0) = 2" by (simp add: q)
  ultimately have "BalanceUpdate env s' = None" by (simp only: BalanceUpdate_def Option.bind.simps)
  then show ?thesis using w(1) by blast
qed

definition waiting_server :: CTestServer where
  "waiting_server = sample_server\<lparr>prePlayer_hash := [(0, 0)]\<rparr>"

lemma waiting_ready: "recv_ready 0 waiting_server" "queues_ok waiting_server" "recv_ring 0 waiting_server = recv_ring 0 sample_server"
  "max_MsgLen waiting_server = 5000" "m_SeqID (sessions_vec waiting_server ! 0) = 0"
proof -
  have "target_queue sid waiting_server = target_queue sid sample_server" for sid
    by (simp add: waiting_server_def target_queue_def split: option.split)
  then show "queues_ok waiting_server" using sample_ready(2) by (simp add: queues_ok_def waiting_server_def)
qed (use sample_ready in \<open>simp_all add: waiting_server_def recv_ready_def recv_ring_def pool_ok_def\<close>)

definition sample_env :: chat_env where
  "sample_env = \<lparr>redis = (\<lambda>acc. Redis_null), now = 0, rand_key = 9, header_junk = [0, 0, 0, 0]\<rparr>"

theorem client_ends_server_witness:
  "\<exists>s'. WorkerThread_step OnRecv OnRelease 1 [0, 0, 0, 0, 0] WsaOk (Recv 0)
          (wire_frame 0x32 9 (word_bytes 2 en_PACKET_Player_Delete) @ wire_frame 0x32 9 (word_bytes 2 en_PACKET_Player_Alloc))
          waiting_server = Some s' \<and> BalanceUpdate sample_env s' = None"
proof -
  let ?d = "wire_frame 0x32 9 (word_bytes 2 en_PACKET_Player_Delete) @ wire_frame 0x32 9 (word_bytes 2 en_PACKET_Player_Alloc)"
  have len: "length ?d = 14"
    using length_wire_frame [where K = "0x32" and RK = 9] by (simp add: sizeof_stHeader_def)
  then have d: "?d \<noteq> []" by (metis list.size(3) zero_neq_numeral)
  have pf: "parse_frames 0x32 (max_MsgLen waiting_server) 0 (ring_list (recv_ring 0 waiting_server) @ ?d) =
      ([word_bytes 2 en_PACKET_Player_Delete, word_bytes 2 en_PACKET_Player_Alloc], Waiting [])"
    using parse_frames_wire [where c = 0 and mx = 5000 and r = "[]" and K = "0x32"
        and xs = "[(9, word_bytes 2 en_PACKET_Player_Delete), (9, word_bytes 2 en_PACKET_Player_Alloc)]"]
    unfolding waiting_ready sample_ring by (simp add: sizeof_stHeader_def)
  have fit: "length (ring_list (recv_ring 0 waiting_server)) + length ?d \<le> ring_cap (recv_ring 0 waiting_server)"
    unfolding waiting_ready sample_ring len by simp
  have h: "length [0, 0, 0, 0, 0 :: u8] = sizeof_stHeader" by (simp add: sizeof_stHeader_def)
  have t: "map_of (prePlayer_hash waiting_server) 0 = Some 0" "map_of (SessionID_hash waiting_server) 0 = None"
    "m_CotentsQ_vec waiting_server ! 0 = []"
    by (simp_all add: waiting_server_def sample_server_def new_CTestServer_def CLanServer.defs)
  show ?thesis
    by (rule client_ends_server [OF waiting_ready(1,2) d fit waiting_ready(5) [symmetric] h pf t])
qed

section \<open>Over all runs\<close>

text \<open>
  C1: in every state the server can reach, whatever its clients send and however its threads
  interleave, every message that a send buffer, a send in flight, a queue or a contents thread at
  work holds is a node in use, its count is at least the number of places that hold it, and a message
  in a queue or with a contents thread has no other holder. No release has found the count below one,
  where \<^verbatim>\<open>stTlsObjectPool<CMessage>::Release\<close> breaks into the debugger: no message is released twice.
\<close>

theorem messages_accounted:
  assumes "chat_reach ok N k s" "N \<le> 2 ^ 17"
  shows "distinct (msg_free s) \<and>
    (\<forall>n \<in># net_refs s + queued s. n < length (heap s) \<and> n \<notin> set (msg_free s) \<and>
       int (count (net_refs s + queued s) n) \<le> msg_use (heap s ! n)) \<and>
    (\<forall>n \<in># queued s. msg_use (heap s ! n) = 1) \<and>
    DebugBreak \<notin> set (os_log s)"
  using acct_inv_reach [OF assms] by (simp add: acct_inv_def acct_def)

definition start_server :: CTestServer where
  "start_server = Start [0, 0, 0, 0] 1 1 (new_CTestServer 1 True 10 100)"

definition any_step :: "chat_event \<Rightarrow> CTestServer \<Rightarrow> bool" where
  "any_step e s = True"

lemma write_all_room:
  assumes "msg_ok m" "msg_rear m + sum_list (map length bss) \<le> msg_end m"
  shows "\<exists>m'. write_all bss m = Inr m'"
  using assms
proof (induction bss arbitrary: m)
  case Nil
  then show ?case by (simp add: write_all_def)
next
  case (Cons bs bss)
  then obtain m1 where m1: "msg_shl m bs = Inr m1" using msg_shl_fits [of m bs] by auto
  note ok = msg_shl_ok [OF Cons.prems(1) m1]
  have "\<exists>m'. write_all bss m1 = Inr m'" by (rule Cons.IH [OF ok(1)]) (use Cons.prems(2) ok(4,5) in simp)
  then show ?case by (simp add: write_all_def m1)
qed

lemma accept_one: "\<exists>s'. AcceptThread_step OnAccept WsaOk True 7 (replicate 16 0, 80) start_server = Some s' \<and> queued s' = {#0#}"
proof -
  have e: "msg_Alloc t = (0, t\<lparr>heap := [InitMessage (new_CMessage 4096 0)]\<rparr>)" if "msg_free t = []" "heap t = []" for t :: CTestServer
    using that by (simp add: msg_Alloc_def node_addr_def)
  let ?bss = "[word_bytes 2 en_PACKET_Player_Alloc, replicate 16 0, word_bytes 2 (80 :: u16)]"
  have "msg_ok (InitMessage (new_CMessage 4096 0))" by (intro InitMessage_ok new_CMessage_ok) (simp add: MaxSize_def)
  then obtain m where m: "write_all ?bss (InitMessage (new_CMessage 4096 0)) = Inr m"
    using write_all_room [of "InitMessage (new_CMessage 4096 0)" ?bss]
    by (auto simp: InitMessage_def new_CMessage_def bufferSize_def)
  have q: "queued (DecrementIoCountAndMaybeDeleteSession 0 (RecvPacket WsaOk 0 t)) = queued t" for t :: CTestServer
    by (rule queued_ext) (simp add: more_Decrement more_RecvPacket)
  show ?thesis
    by (simp add: AcceptThread_step_def start_server_def Start_def new_CTestServer_def new_CLanServer_def CLanServer.defs
        OnAccept_def Let_def slot_def upd_session_def post_internal_def e m OnRecv_def target_queue_def set_msg_def q)
      (simp add: queued_def chat_ext(1,12) [OF more_RecvPacket])
qed

lemma start_reach: "chat_reach ok 1 1 start_server"
  unfolding start_server_def by (rule chat_reach.start)

lemma accepted_reach:
  assumes "\<And>s. ok Accept s"
  shows "\<exists>s'. chat_reach ok 1 1 s' \<and> queued s' = {#0#}"
proof -
  obtain s' where s': "AcceptThread_step OnAccept WsaOk True 7 (replicate 16 0, 80) start_server = Some s'" "queued s' = {#0#}"
    using accept_one by blast
  have "unat (next_session_id start_server) < 2 ^ 47"
    by (simp add: start_server_def Start_def new_CTestServer_def new_CLanServer_def CLanServer.defs)
  then have "chat_step Accept start_server s'" by (rule chat_step.accept [OF _ s'(1)])
  then have "chat_reach ok 1 1 s'" by (rule chat_reach.step [OF start_reach]) (rule assms)
  then show ?thesis using s'(2) by blast
qed

theorem messages_accounted_witness:
  "\<exists>s. chat_reach any_step 1 1 s \<and> queued s = {#0#} \<and> 0 < length (heap s) \<and> 0 \<notin> set (msg_free s) \<and> msg_use (heap s ! 0) = 1"
proof -
  obtain s where s: "chat_reach any_step 1 1 s" "queued s = {#0#}"
    using accepted_reach [of any_step] by (auto simp: any_step_def)
  have "(1 :: nat) \<le> 2 ^ 17" by simp
  from messages_accounted [OF s(1) this] s show ?thesis by auto
qed

text \<open>
  C2: as long as the balance thread meets no allocation of a session that is logged in (the server
  posts one per connection, before anything else; only a client that forges the packet type can make
  another), the tables of the server are consistent in every state it reaches, also between the lock-free accesses
  of a contents thread that moves a player: keys are unique, every player is pooled, waiting or logged in and only
  one of these, accounts lead to players logged in with them, every player, pooled or not, stands in the world,
  logged-in players have a queue, and the counters count.
\<close>

theorem tables_consistent:
  assumes "chat_reach honest N k s" "N \<le> 2 ^ 17"
  shows "chat_inv s"
  by (rule chat_inv_reach [OF assms])

theorem tables_consistent_witness: "\<exists>s. chat_reach honest 1 1 s \<and> queued s = {#0#} \<and> chat_inv s"
proof -
  obtain s where s: "chat_reach honest 1 1 s" "queued s = {#0#}"
    using accepted_reach [of honest] by (auto simp: honest_def)
  have "(1 :: nat) \<le> 2 ^ 17" by simp
  with s tables_consistent show ?thesis by blast
qed

end
