(* ===== verification/Pool.thy ===== *)
theory Pool
  imports Network "HOL-Library.Multiset"
begin

text \<open>
  The object pools: \<^verbatim>\<open>CObjectPool_UnSafeMT\<close>, a linked stack of free nodes without locks, and
  \<^verbatim>\<open>stTlsObjectPool\<close> (\<^verbatim>\<open>utility/CTlsObjectPool\<close>), which gives every thread one such pool to take
  from and one to give back to and trades them with a shared manager when they run empty or full.
  Nodes are numbers, \<open>nxt\<close> is the member \<^verbatim>\<open>next\<close> of all nodes, and \<open>None\<close> is the address of the
  dummy of a pool. \<^verbatim>\<open>new\<close> makes the node numbered \<open>made\<close>.
\<close>

section \<open>The plain pool\<close>

record node_heap =
  nxt :: "nat \<Rightarrow> nat option"
  made :: nat

record CObjectPool_UnSafeMT =
  m_Top :: "nat option"
  m_AllocatedCount :: u32
  m_blimite :: bool
  m_size :: int

definition new_CObjectPool_UnSafeMT :: CObjectPool_UnSafeMT where
  "new_CObjectPool_UnSafeMT = \<lparr>m_Top = None, m_AllocatedCount = 0, m_blimite = False, m_size = 0\<rparr>"

definition pool_Release :: "nat \<Rightarrow> node_heap \<Rightarrow> CObjectPool_UnSafeMT \<Rightarrow> node_heap \<times> CObjectPool_UnSafeMT" where
  "pool_Release newNode h p =
     (h\<lparr>nxt := (nxt h)(newNode := m_Top p)\<rparr>,
      p\<lparr>m_Top := Some newNode, m_size := m_size p + 1, m_AllocatedCount := m_AllocatedCount p - 1\<rparr>)"

definition new_stNode :: "node_heap \<Rightarrow> nat \<times> node_heap" where
  "new_stNode h = (made h, h\<lparr>nxt := (nxt h)(made h := None), made := Suc (made h)\<rparr>)"

primrec pool_Initalize :: "nat \<Rightarrow> node_heap \<Rightarrow> CObjectPool_UnSafeMT \<Rightarrow> node_heap \<times> CObjectPool_UnSafeMT" where
  "pool_Initalize 0 h p = (h, p)"
| "pool_Initalize (Suc k) h p =
     (let (n, h1) = new_stNode h; (h2, p2) = pool_Release n h1 p in pool_Initalize k h2 p2)"

definition Limite_Lock :: "CObjectPool_UnSafeMT \<Rightarrow> CObjectPool_UnSafeMT" where
  "Limite_Lock p = p\<lparr>m_blimite := True\<rparr>"

text \<open>The result is \<open>None\<close> (\<^verbatim>\<open>nullptr\<close>) when the pool is empty and limited.\<close>

definition pool_Alloc :: "node_heap \<Rightarrow> CObjectPool_UnSafeMT \<Rightarrow> nat option \<times> node_heap \<times> CObjectPool_UnSafeMT" where
  "pool_Alloc h p =
     (let p1 = p\<lparr>m_AllocatedCount := m_AllocatedCount p + 1\<rparr> in
      case m_Top p1 of
        None \<Rightarrow> (if m_blimite p1 then (None, h, p1) else let (n, h1) = new_stNode h in (Some n, h1, p1))
      | Some oldTop \<Rightarrow> (Some oldTop, h, p1\<lparr>m_Top := nxt h oldTop, m_size := m_size p1 - 1\<rparr>))"

text \<open>The nodes a pool links, from its top.\<close>

fun chain :: "(nat \<Rightarrow> nat option) \<Rightarrow> nat option \<Rightarrow> nat list \<Rightarrow> bool" where
  "chain f t [] \<longleftrightarrow> t = None"
| "chain f t (x # xs) \<longleftrightarrow> t = Some x \<and> chain f (f x) xs"

lemma chain_other: "n \<notin> set xs \<Longrightarrow> chain (f(n := v)) t xs = chain f t xs"
  by (induction xs arbitrary: t) auto

lemma chain_unique: "chain f t xs \<Longrightarrow> chain f t ys \<Longrightarrow> xs = ys"
proof (induction xs arbitrary: t ys)
  case Nil
  then show ?case by (cases ys) auto
next
  case (Cons x xs)
  then show ?case by (cases ys) auto
qed

definition pool_rep :: "node_heap \<Rightarrow> CObjectPool_UnSafeMT \<Rightarrow> nat list \<Rightarrow> bool" where
  "pool_rep h p xs \<longleftrightarrow> chain (nxt h) (m_Top p) xs \<and> distinct xs \<and> (\<forall>x \<in> set xs. x < made h) \<and> m_size p = int (length xs)"

lemma pool_rep_new: "pool_rep h new_CObjectPool_UnSafeMT []"
  by (simp add: pool_rep_def new_CObjectPool_UnSafeMT_def)

lemma pool_Release_rep:
  assumes "pool_rep h p xs" "n \<notin> set xs" "n < made h" "pool_Release n h p = (h', p')"
  shows "pool_rep h' p' (n # xs)" "made h' = made h"
    "pool_rep h q ys \<Longrightarrow> n \<notin> set ys \<Longrightarrow> pool_rep h' q ys"
  using assms by (auto simp: pool_Release_def pool_rep_def chain_other)

lemma new_stNode_rep:
  assumes "new_stNode h = (n, h')"
  shows "n = made h" "made h' = Suc (made h)" "pool_rep h q ys \<Longrightarrow> pool_rep h' q ys"
proof -
  show "n = made h" "made h' = Suc (made h)" using assms by (auto simp: new_stNode_def)
  show "pool_rep h q ys \<Longrightarrow> pool_rep h' q ys"
    using assms chain_other [of "made h" ys "nxt h" None] by (auto simp: new_stNode_def pool_rep_def)
qed

lemma pool_Initalize_rep:
  assumes "pool_rep h p xs" "pool_Initalize k h p = (h', p')"
  shows "pool_rep h' p' (rev [made h..<made h + k] @ xs) \<and> made h' = made h + k \<and>
    (\<forall>q ys. pool_rep h q ys \<longrightarrow> pool_rep h' q ys)"
  using assms
proof (induction k arbitrary: h p xs)
  case 0
  then show ?case by simp
next
  case (Suc k)
  obtain n h1 where n: "new_stNode h = (n, h1)" by (cases "new_stNode h")
  obtain h2 p2 where r: "pool_Release n h1 p = (h2, p2)" by (cases "pool_Release n h1 p")
  note nn = new_stNode_rep [OF n]
  have out: "n \<notin> set ys" if "pool_rep h q ys" for q ys using that by (auto simp: nn(1) pool_rep_def)
  note rr = pool_Release_rep [OF nn(3) [OF Suc.prems(1)] out [OF Suc.prems(1)] _ r]
  have lt: "n < made h1" by (simp add: nn)
  have "pool_Initalize k h2 p2 = (h', p')" using Suc.prems(2) n r by simp
  from Suc.IH [OF rr(1) [OF lt] this] have IH: "pool_rep h' p' (rev [made h2..<made h2 + k] @ n # xs)" "made h' = made h2 + k"
    "\<And>q ys. pool_rep h2 q ys \<Longrightarrow> pool_rep h' q ys" by blast+
  have "[made h..<made h + Suc k] = n # [made h2..<made h2 + k]"
    by (simp add: rr(2) [OF lt] nn upt_conv_Cons)
  then have "pool_rep h' p' (rev [made h..<made h + Suc k] @ xs)" using IH(1) by simp
  moreover have "pool_rep h' q ys" if "pool_rep h q ys" for q ys
    by (rule IH(3) [OF rr(3) [OF lt nn(3) [OF that] out [OF that]]])
  ultimately show ?case using IH(2) by (simp add: rr(2) [OF lt] nn)
qed

lemma pool_Alloc_rep:
  assumes "pool_rep h p xs" "\<not> m_blimite p" "pool_Alloc h p = (res, h', p')"
  shows "\<exists>n. res = Some n \<and> pool_rep h' p' (tl xs) \<and> made h \<le> made h' \<and> m_blimite p' = m_blimite p \<and>
    (\<forall>q ys. pool_rep h q ys \<longrightarrow> pool_rep h' q ys) \<and>
    (case xs of [] \<Rightarrow> n = made h \<and> made h' = Suc (made h) | x # ys \<Rightarrow> n = x \<and> h' = h)"
proof (cases xs)
  case Nil
  obtain n h1 where n: "new_stNode h = (n, h1)" by (cases "new_stNode h")
  note nn = new_stNode_rep [OF n]
  have "pool_rep h1 (p\<lparr>m_AllocatedCount := m_AllocatedCount p + 1\<rparr>) []"
    using nn(3) [OF assms(1)] Nil by (simp add: pool_rep_def)
  then show ?thesis using assms n nn Nil by (auto simp: pool_Alloc_def pool_rep_def)
next
  case (Cons x ys)
  then show ?thesis using assms by (auto simp: pool_Alloc_def pool_rep_def)
qed

section \<open>The thread pools and their manager\<close>

text \<open>
  Every pool object has a number. A stack of the manager is the list of the pools on it, the top
  first; \<open>s_tls t\<close> is what \<^verbatim>\<open>TlsGetValue\<close> returns in thread \<open>t\<close>: its \<^verbatim>\<open>allocPool\<close> and
  \<^verbatim>\<open>releasePool\<close>.
\<close>

record tls_pools =
  nodes :: node_heap
  iUseCnt :: "nat \<Rightarrow> int"
  pool_at :: "nat \<Rightarrow> CObjectPool_UnSafeMT"
  pools_made :: nat
  fullPools :: "nat list"
  emptyPools :: "nat list"
  m_TotalCount :: u64
  s_ActiveNode :: u64
  s_tls :: "nat \<Rightarrow> (nat \<times> nat) option"
  tlsPool_init_Capacity :: nat

definition new_ObjectPool :: "tls_pools \<Rightarrow> nat \<times> tls_pools" where
  "new_ObjectPool s =
     (pools_made s,
      s\<lparr>pool_at := (pool_at s)(pools_made s := new_CObjectPool_UnSafeMT), pools_made := Suc (pools_made s)\<rparr>)"

definition Initalize_at :: "nat \<Rightarrow> nat \<Rightarrow> tls_pools \<Rightarrow> tls_pools" where
  "Initalize_at p k s =
     (let (h, q) = pool_Initalize k (nodes s) (pool_at s p)
      in s\<lparr>nodes := h, pool_at := (pool_at s)(p := q)\<rparr>)"

definition add_TotalCount :: "tls_pools \<Rightarrow> tls_pools" where
  "add_TotalCount s = s\<lparr>m_TotalCount := m_TotalCount s + of_nat (tlsPool_init_Capacity s)\<rparr>"

definition GetFullPool :: "nat \<Rightarrow> tls_pools \<Rightarrow> nat \<times> tls_pools" where
  "GetFullPool emptyStack s =
     (let s1 = s\<lparr>emptyPools := emptyStack # emptyPools s\<rparr> in
      case fullPools s1 of
        p # ps \<Rightarrow> (p, s1\<lparr>fullPools := ps\<rparr>)
      | [] \<Rightarrow>
          (case emptyPools s1 of
             q # qs \<Rightarrow> (q, add_TotalCount (Initalize_at q (tlsPool_init_Capacity s) (s1\<lparr>emptyPools := qs\<rparr>)))
           | [] \<Rightarrow> (let (q, s2) = new_ObjectPool s1
                  in (q, add_TotalCount (Initalize_at q (tlsPool_init_Capacity s) s2)))))"

definition GetEmptyPool :: "nat \<Rightarrow> tls_pools \<Rightarrow> nat \<times> tls_pools" where
  "GetEmptyPool fullStack s =
     (let s1 = s\<lparr>fullPools := fullStack # fullPools s\<rparr> in
      case emptyPools s1 of
        p # ps \<Rightarrow> (p, s1\<lparr>emptyPools := ps\<rparr>)
      | [] \<Rightarrow> new_ObjectPool s1)"

definition new_stTlsObjectPool :: "nat \<Rightarrow> tls_pools \<Rightarrow> (nat \<times> nat) \<times> tls_pools" where
  "new_stTlsObjectPool t s =
     (let (a, s1) = new_ObjectPool s;
          s2 = add_TotalCount (Initalize_at a (tlsPool_init_Capacity s) s1);
          (r, s3) = new_ObjectPool s2;
          s4 = Initalize_at r 0 s3
      in ((a, r), s4\<lparr>s_tls := (s_tls s4)(t := Some (a, r))\<rparr>))"

definition tls_get :: "nat \<Rightarrow> tls_pools \<Rightarrow> (nat \<times> nat) \<times> tls_pools" where
  "tls_get t s = (case s_tls s t of None \<Rightarrow> new_stTlsObjectPool t s | Some ar \<Rightarrow> (ar, s))"

definition tls_refill :: "nat \<Rightarrow> nat \<Rightarrow> nat \<Rightarrow> tls_pools \<Rightarrow> nat \<times> tls_pools" where
  "tls_refill t a r s =
     (if m_size (pool_at s a) = 0
      then let (a', s1) = GetFullPool a s in (a', s1\<lparr>s_tls := (s_tls s1)(t := Some (a', r))\<rparr>)
      else (a, s))"

text \<open>
  \<^verbatim>\<open>Alloc\<close>: the node, with one use (\<^verbatim>\<open>InitMessage\<close>), or \<open>None\<close> for a limited pool that ran empty,
  whose \<^verbatim>\<open>nullptr\<close> the code would dereference.
\<close>

definition tls_Alloc :: "nat \<Rightarrow> tls_pools \<Rightarrow> nat option \<times> tls_pools" where
  "tls_Alloc t s =
     (let ((a, r), s1) = tls_get t s;
          (a', s2) = tls_refill t a r s1;
          (res, h, p) = pool_Alloc (nodes s2) (pool_at s2 a');
          s3 = s2\<lparr>nodes := h, pool_at := (pool_at s2)(a' := p)\<rparr>
      in case res of
           None \<Rightarrow> (None, s3)
         | Some n \<Rightarrow> (Some n, s3\<lparr>iUseCnt := (iUseCnt s3)(n := 1), s_ActiveNode := s_ActiveNode s3 + 1\<rparr>))"

definition tls_give_back :: "nat \<Rightarrow> nat \<Rightarrow> tls_pools \<Rightarrow> tls_pools" where
  "tls_give_back t node s =
     (let ((a, r), s1) = tls_get t s;
          (h, p) = pool_Release node (nodes s1) (pool_at s1 r);
          s2 = s1\<lparr>nodes := h, pool_at := (pool_at s1)(r := p)\<rparr>
      in if m_size p = int (tlsPool_init_Capacity s)
         then let (r', s3) = GetEmptyPool r s2 in s3\<lparr>s_tls := (s_tls s3)(t := Some (a, r'))\<rparr>
         else s2)"

definition tls_Release :: "nat \<Rightarrow> nat \<Rightarrow> tls_pools \<Rightarrow> tls_pools option" where
  "tls_Release t node s =
     (let use = iUseCnt s node - 1; s1 = s\<lparr>iUseCnt := (iUseCnt s)(node := use)\<rparr>
      in if use < 0 then None
         else if use \<noteq> 0 then Some s1
         else Some (tls_give_back t node (s1\<lparr>s_ActiveNode := s_ActiveNode s1 - 1\<rparr>)))"

text \<open>The destructor, for a thread that ends.\<close>

definition delete_stTlsObjectPool :: "nat \<Rightarrow> tls_pools \<Rightarrow> tls_pools" where
  "delete_stTlsObjectPool t s =
     (case s_tls s t of
        None \<Rightarrow> s
      | Some (a, r) \<Rightarrow>
          (let s1 = (if m_size (pool_at s a) \<noteq> 0 then s\<lparr>fullPools := a # fullPools s\<rparr>
                     else s\<lparr>emptyPools := a # emptyPools s\<rparr>);
               s2 = (if m_size (pool_at s1 r) \<noteq> int (tlsPool_init_Capacity s1) then s1\<lparr>emptyPools := r # emptyPools s1\<rparr>
                     else s1\<lparr>fullPools := r # fullPools s1\<rparr>)
           in s2\<lparr>s_tls := (s_tls s2)(t := None)\<rparr>))"

definition new_tls_pools :: "nat \<Rightarrow> tls_pools" where
  "new_tls_pools cap =
     \<lparr>nodes = \<lparr>nxt = \<lambda>_. None, made = 0\<rparr>, iUseCnt = \<lambda>_. 0, pool_at = \<lambda>_. new_CObjectPool_UnSafeMT, pools_made = 0,
      fullPools = [], emptyPools = [], m_TotalCount = 0, s_ActiveNode = 0, s_tls = \<lambda>_. None,
      tlsPool_init_Capacity = cap\<rparr>"

text \<open>
  The invariant. \<open>fr p\<close> are the nodes linked in pool \<open>p\<close>. A pool is at one place: on one of the
  stacks of the manager, or one of the two pools of one thread.
\<close>

definition tls_rep :: "tls_pools \<Rightarrow> (nat \<Rightarrow> nat list) \<Rightarrow> bool" where
  "tls_rep s fr \<longleftrightarrow>
     (\<forall>p. pool_rep (nodes s) (pool_at s p) (fr p)) \<and> (\<forall>p. \<not> m_blimite (pool_at s p)) \<and>
     (\<forall>p \<ge> pools_made s. pool_at s p = new_CObjectPool_UnSafeMT) \<and>
     (\<forall>p q. p \<noteq> q \<longrightarrow> set (fr p) \<inter> set (fr q) = {})"

definition tls_free :: "(nat \<Rightarrow> nat list) \<Rightarrow> nat set" where
  "tls_free fr = (\<Union>p. set (fr p))"

definition places_ok :: "nat \<Rightarrow> nat list \<Rightarrow> (nat \<Rightarrow> (nat \<times> nat) option) \<Rightarrow> bool" where
  "places_ok k ps tls \<longleftrightarrow>
     distinct ps \<and> (\<forall>p \<in> set ps. p < k) \<and>
     (\<forall>t a r. tls t = Some (a, r) \<longrightarrow>
        a \<noteq> r \<and> a < k \<and> r < k \<and> a \<notin> set ps \<and> r \<notin> set ps \<and>
        (\<forall>u b q. u \<noteq> t \<longrightarrow> tls u = Some (b, q) \<longrightarrow> {a, r} \<inter> {b, q} = {}))"

definition tls_places :: "tls_pools \<Rightarrow> bool" where
  "tls_places s \<longleftrightarrow> places_ok (pools_made s) (fullPools s @ emptyPools s) (s_tls s)"

definition tls_full_ok :: "tls_pools \<Rightarrow> bool" where
  "tls_full_ok s \<longleftrightarrow>
     (\<forall>p \<in> set (fullPools s). 0 < m_size (pool_at s p)) \<and> m_TotalCount s = of_nat (made (nodes s))"

lemma tls_repD:
  assumes "tls_rep s fr"
  shows "pool_rep (nodes s) (pool_at s p) (fr p)" "\<not> m_blimite (pool_at s p)"
    "pools_made s \<le> p \<Longrightarrow> pool_at s p = new_CObjectPool_UnSafeMT" "pools_made s \<le> p \<Longrightarrow> fr p = []"
    "n \<in> tls_free fr \<Longrightarrow> n < made (nodes s)"
    "n \<in> set (fr p) \<Longrightarrow> n \<in> set (fr q) \<Longrightarrow> p = q"
proof -
  have a: "pool_rep (nodes s) (pool_at s p) (fr p)" for p
    using assms by (auto simp: tls_rep_def)
  then show "pool_rep (nodes s) (pool_at s p) (fr p)" .
  show "\<not> m_blimite (pool_at s p)" using assms by (auto simp: tls_rep_def)
  show b: "pools_made s \<le> p \<Longrightarrow> pool_at s p = new_CObjectPool_UnSafeMT"
    using assms by (auto simp: tls_rep_def)
  show "n \<in> set (fr p) \<Longrightarrow> n \<in> set (fr q) \<Longrightarrow> p = q"
    using assms unfolding tls_rep_def by (metis IntI empty_iff)
  show "n \<in> tls_free fr \<Longrightarrow> n < made (nodes s)" using a by (auto simp: tls_free_def pool_rep_def)
  show "fr p = []" if "pools_made s \<le> p"
    using a [of p] b [OF that] by (simp add: pool_rep_def new_CObjectPool_UnSafeMT_def)
qed

lemma tls_rep_cong:
  "tls_rep s fr \<Longrightarrow> nodes s' = nodes s \<Longrightarrow> pool_at s' = pool_at s \<Longrightarrow> pools_made s' = pools_made s \<Longrightarrow> tls_rep s' fr"
  by (simp add: tls_rep_def)

lemma tls_rep_put:
  assumes "tls_rep s fr" "p < pools_made s" "pool_rep h q xs" "\<not> m_blimite q"
    "\<And>r. r \<noteq> p \<Longrightarrow> pool_rep h (pool_at s r) (fr r)" "\<And>r. r \<noteq> p \<Longrightarrow> set xs \<inter> set (fr r) = {}"
  shows "tls_rep (s\<lparr>nodes := h, pool_at := (pool_at s)(p := q)\<rparr>) (fr(p := xs))"
  using assms unfolding tls_rep_def by (auto simp: Int_commute)

lemma new_ObjectPool_rep:
  assumes "tls_rep s fr" "new_ObjectPool s = (p, s')"
  shows "tls_rep s' fr" "p = pools_made s" "pools_made s' = Suc (pools_made s)" "nodes s' = nodes s"
    "fr p = []" "pool_at s' = pool_at s"
proof -
  note q = tls_repD [OF assms(1)]
  show p: "p = pools_made s" "pools_made s' = Suc (pools_made s)" "nodes s' = nodes s" and
    "pool_at s' = pool_at s" and "fr p = []"
    using assms(2) q(3) [of p] q(4) [of p] by (auto simp: new_ObjectPool_def)
  then show "tls_rep s' fr" using assms(1) by (auto simp: tls_rep_def)
qed

lemma pool_Initalize_limit: "pool_Initalize k g p = (h, t) \<Longrightarrow> m_blimite t = m_blimite p"
proof (induction k arbitrary: g p)
  case (Suc k)
  obtain n g1 where n: "new_stNode g = (n, g1)" by fastforce
  obtain g2 p2 where r: "pool_Release n g1 p = (g2, p2)" by fastforce
  have "m_blimite t = m_blimite p2" using Suc n r by simp
  then show ?case using r by (auto simp: pool_Release_def)
qed simp

lemma Initalize_at_rep:
  assumes "tls_rep s fr" "p < pools_made s"
  shows "\<exists>xs. tls_rep (Initalize_at p k s) (fr(p := xs @ fr p)) \<and> length xs = k \<and>
    made (nodes (Initalize_at p k s)) = made (nodes s) + k \<and> set xs = {made (nodes s)..<made (nodes s) + k}"
proof -
  note q = tls_repD [OF assms(1)]
  obtain h t where r: "pool_Initalize k (nodes s) (pool_at s p) = (h, t)" by fastforce
  let ?xs = "rev [made (nodes s)..<made (nodes s) + k]"
  from pool_Initalize_rep [OF q(1) r]
  have i: "pool_rep h t (?xs @ fr p)" "made h = made (nodes s) + k" "\<And>u ys. pool_rep (nodes s) u ys \<Longrightarrow> pool_rep h u ys"
    by blast+
  have "tls_rep (s\<lparr>nodes := h, pool_at := (pool_at s)(p := t)\<rparr>) (fr(p := ?xs @ fr p))"
  proof (rule tls_rep_put [OF assms i(1)])
    show "set (?xs @ fr p) \<inter> set (fr u) = {}" if "u \<noteq> p" for u
      using q(5) q(6) [of _ p u] that by (fastforce simp: tls_free_def)
  qed (use pool_Initalize_limit [OF r] q(2) i(3) q(1) in auto)
  then show ?thesis using r i(2) by (intro exI [of _ ?xs]) (simp add: Initalize_at_def)
qed

lemma Initalize_at_frame [simp]:
  "iUseCnt (Initalize_at p k s) = iUseCnt s" "pools_made (Initalize_at p k s) = pools_made s"
  "fullPools (Initalize_at p k s) = fullPools s" "emptyPools (Initalize_at p k s) = emptyPools s"
  "m_TotalCount (Initalize_at p k s) = m_TotalCount s" "s_ActiveNode (Initalize_at p k s) = s_ActiveNode s"
  "s_tls (Initalize_at p k s) = s_tls s" "tlsPool_init_Capacity (Initalize_at p k s) = tlsPool_init_Capacity s"
  by (simp_all add: Initalize_at_def split: prod.splits)

lemma add_TotalCount_frame [simp]:
  "nodes (add_TotalCount s) = nodes s" "iUseCnt (add_TotalCount s) = iUseCnt s" "pool_at (add_TotalCount s) = pool_at s"
  "pools_made (add_TotalCount s) = pools_made s" "fullPools (add_TotalCount s) = fullPools s"
  "emptyPools (add_TotalCount s) = emptyPools s" "s_ActiveNode (add_TotalCount s) = s_ActiveNode s"
  "s_tls (add_TotalCount s) = s_tls s" "tlsPool_init_Capacity (add_TotalCount s) = tlsPool_init_Capacity s"
  "m_TotalCount (add_TotalCount s) = m_TotalCount s + of_nat (tlsPool_init_Capacity s)"
  by (simp_all add: add_TotalCount_def)

lemma pool_size_nonneg: "pool_rep h p xs \<Longrightarrow> m_size p = int (length xs)"
  by (simp add: pool_rep_def)

definition tls_inv :: "tls_pools \<Rightarrow> (nat \<Rightarrow> nat list) \<Rightarrow> bool" where
  "tls_inv s fr \<longleftrightarrow> tls_rep s fr \<and> tls_places s \<and> (0 < tlsPool_init_Capacity s \<longrightarrow> tls_full_ok s)"

definition pools_grow :: "tls_pools \<Rightarrow> (nat \<Rightarrow> nat list) \<Rightarrow> tls_pools \<Rightarrow> (nat \<Rightarrow> nat list) \<Rightarrow> bool" where
  "pools_grow s fr s' fr' \<longleftrightarrow>
     iUseCnt s' = iUseCnt s \<and> tlsPool_init_Capacity s' = tlsPool_init_Capacity s \<and> s_ActiveNode s' = s_ActiveNode s \<and>
     made (nodes s) \<le> made (nodes s') \<and> tls_free fr' = tls_free fr \<union> {made (nodes s)..<made (nodes s')}"

lemma pools_grow_refl: "pools_grow s fr s fr"
  by (simp add: pools_grow_def)

lemma pools_grow_trans: "pools_grow s fr s1 fr1 \<Longrightarrow> pools_grow s1 fr1 s2 fr2 \<Longrightarrow> pools_grow s fr s2 fr2"
  by (auto simp: pools_grow_def)

lemma tls_free_upd: "tls_free (fr(p := xs @ fr p)) = tls_free fr \<union> set xs"
  by (fastforce simp: tls_free_def split: if_splits)

lemma tls_free_split: "tls_free fr = set (fr p) \<union> (\<Union>q \<in> - {p}. set (fr q))"
  by (auto simp: tls_free_def)

text \<open>What takes a pool from the manager or makes one and fills it only grows the state.\<close>

lemma filled_grow:
  assumes "tls_rep s fr" "p < pools_made s"
  shows "\<exists>fr' xs. tls_rep (add_TotalCount (Initalize_at p (tlsPool_init_Capacity s) s)) fr' \<and>
    pools_grow s fr (add_TotalCount (Initalize_at p (tlsPool_init_Capacity s) s)) fr' \<and>
    fr' = fr(p := xs @ fr p) \<and> length xs = tlsPool_init_Capacity s \<and>
    made (nodes (Initalize_at p (tlsPool_init_Capacity s) s)) = made (nodes s) + tlsPool_init_Capacity s"
proof -
  from Initalize_at_rep [OF assms] obtain xs where
    i: "tls_rep (Initalize_at p (tlsPool_init_Capacity s) s) (fr(p := xs @ fr p))" "length xs = tlsPool_init_Capacity s"
      "made (nodes (Initalize_at p (tlsPool_init_Capacity s) s)) = made (nodes s) + tlsPool_init_Capacity s"
      "set xs = {made (nodes s)..<made (nodes s) + tlsPool_init_Capacity s}" by blast
  have "tls_rep (add_TotalCount (Initalize_at p (tlsPool_init_Capacity s) s)) (fr(p := xs @ fr p))"
    by (rule tls_rep_cong [OF i(1)]) simp_all
  then show ?thesis using i by (intro exI conjI) (assumption, auto simp: pools_grow_def tls_free_upd)
qed

lemma filled_full_ok:
  assumes "tls_full_ok s" "tls_rep s fr" "p < pools_made s" "p \<notin> set (fullPools s)"
  shows "tls_full_ok (add_TotalCount (Initalize_at p (tlsPool_init_Capacity s) s))"
proof -
  obtain h t where r: "pool_Initalize (tlsPool_init_Capacity s) (nodes s) (pool_at s p) = (h, t)" by fastforce
  have "made h = made (nodes s) + tlsPool_init_Capacity s"
    using pool_Initalize_rep [OF tls_repD(1) [OF assms(2)] r] by blast
  moreover have "q \<noteq> p" if "q \<in> set (fullPools s)" for q using assms(4) that by blast
  ultimately show ?thesis using assms(1) r
    by (auto simp: tls_full_ok_def add_TotalCount_def Initalize_at_def)
qed

lemma places_okD:
  assumes "places_ok k ps tls"
  shows "distinct ps" "p \<in> set ps \<Longrightarrow> p < k"
    "tls t = Some (a, r) \<Longrightarrow> a \<noteq> r \<and> a < k \<and> r < k \<and> a \<notin> set ps \<and> r \<notin> set ps"
    "tls t = Some (a, r) \<Longrightarrow> tls u = Some (b, q) \<Longrightarrow> u \<noteq> t \<Longrightarrow> a \<noteq> b \<and> a \<noteq> q \<and> r \<noteq> b \<and> r \<noteq> q"
  using assms unfolding places_ok_def by (blast, blast, blast, fast)

lemma places_okI:
  assumes "distinct ps" "\<And>p. p \<in> set ps \<Longrightarrow> p < k"
    "\<And>t a r. tls t = Some (a, r) \<Longrightarrow> a \<noteq> r \<and> a < k \<and> r < k \<and> a \<notin> set ps \<and> r \<notin> set ps"
    "\<And>t a r u b q. tls t = Some (a, r) \<Longrightarrow> tls u = Some (b, q) \<Longrightarrow> u \<noteq> t \<Longrightarrow> a \<noteq> b \<and> a \<noteq> q \<and> r \<noteq> b \<and> r \<noteq> q"
  shows "places_ok k ps tls"
  unfolding places_ok_def using assms(1,2,3) by (auto dest: assms(4))

lemma places_new:
  assumes "places_ok k ps tls" "tls t = None"
  shows "places_ok (Suc (Suc k)) ps (tls(t := Some (k, Suc k)))"
proof (rule places_okI)
  note d = places_okD [OF assms(1)]
  show "distinct ps" by (rule d)
  show "p < Suc (Suc k)" if "p \<in> set ps" for p using d(2) [OF that] by simp
  show "a \<noteq> r \<and> a < Suc (Suc k) \<and> r < Suc (Suc k) \<and> a \<notin> set ps \<and> r \<notin> set ps"
    if "(tls(t := Some (k, Suc k))) u = Some (a, r)" for u a r
    using that d(2) [of k] d(2) [of "Suc k"] d(3) [of u a r] by (auto split: if_splits)
  show "a \<noteq> b \<and> a \<noteq> q \<and> r \<noteq> b \<and> r \<noteq> q"
    if "(tls(t := Some (k, Suc k))) u = Some (a, r)" "(tls(t := Some (k, Suc k))) v = Some (b, q)" "v \<noteq> u" for u v a r b q
    using that d(3) [of u a r] d(3) [of v b q] d(4) [of u a r v b q] by (auto split: if_splits)
qed

text \<open>A thread gives one of its pools to the manager for another one.\<close>

lemma places_trade:
  assumes "places_ok k ps tls" "tls t = Some (a, r)" "mset qs = mset ps - {#x#} + {#y#}" "x \<in> set ps"
    "y = a \<and> new = (x, r) \<or> y = r \<and> new = (a, x)"
  shows "places_ok k qs (tls(t := Some new))"
proof (rule places_okI)
  note d = places_okD [OF assms(1)]
  have ar: "a \<noteq> r" "a < k" "r < k" "a \<notin> set ps" "r \<notin> set ps" using d(3) [OF assms(2)] by blast+
  have x: "x < k" "x \<noteq> a" "x \<noteq> r" using d(2) [OF assms(4)] ar assms(4) by auto
  have y: "y \<notin> set ps" "y < k" using assms(5) ar by auto
  have qs': "mset qs = mset (y # remove1 x ps)" using assms(3) by simp
  then have qs: "set qs = insert y (set ps - {x})" using d(1) by (metis mset_eq_setD list.simps(15) set_remove1_eq)
  have "mset qs = mset (y # remove1 x ps)" by (rule qs')
  moreover have "distinct (y # remove1 x ps)" using d(1) y by (simp add: set_remove1_eq)
  ultimately show "distinct qs" by (metis mset_eq_imp_distinct_iff)
  show "p < k" if "p \<in> set qs" for p using that y d(2) by (auto simp: qs)
  show "b \<noteq> q \<and> b < k \<and> q < k \<and> b \<notin> set qs \<and> q \<notin> set qs" if "(tls(t := Some new)) u = Some (b, q)" for u b q
    using that assms(5) ar x d(3) [of u b q] d(4) [OF assms(2), of u b q] by (cases "u = t") (auto simp: qs)
  show "b \<noteq> e \<and> b \<noteq> g \<and> q \<noteq> e \<and> q \<noteq> g"
    if "(tls(t := Some new)) u = Some (b, q)" "(tls(t := Some new)) v = Some (e, g)" "v \<noteq> u" for u b q v e g
    using that assms(4,5) d(3) [of u b q] d(3) [of v e g] d(4) [OF assms(2), of u b q] d(4) [OF assms(2), of v e g]
      d(4) [of u b q v e g] by (auto split: if_splits)
qed

lemma places_give:
  assumes "places_ok k ps tls" "tls t = Some (a, r)" "qs = r # ps"
  shows "places_ok (Suc k) qs (tls(t := Some (a, k)))"
proof (rule places_okI)
  note d = places_okD [OF assms(1)]
  have ar: "a \<noteq> r" "a < k" "r < k" "a \<notin> set ps" "r \<notin> set ps" using d(3) [OF assms(2)] by blast+
  show "distinct qs" using d(1) ar assms(3) by simp
  show "p < Suc k" if "p \<in> set qs" for p using that ar d(2) [of p] assms(3) by auto
  show "b \<noteq> q \<and> b < Suc k \<and> q < Suc k \<and> b \<notin> set qs \<and> q \<notin> set qs" if "(tls(t := Some (a, k))) u = Some (b, q)" for u b q
    using that ar assms(3) d(2) [of k] d(3) [of u b q] d(4) [OF assms(2), of u b q] by (cases "u = t") auto
  show "b \<noteq> e \<and> b \<noteq> g \<and> q \<noteq> e \<and> q \<noteq> g"
    if "(tls(t := Some (a, k))) u = Some (b, q)" "(tls(t := Some (a, k))) v = Some (e, g)" "v \<noteq> u" for u b q v e g
    using that ar d(3) [of u b q] d(3) [of v e g] d(4) [OF assms(2), of u b q] d(4) [OF assms(2), of v e g]
      d(4) [of u b q v e g] by (auto split: if_splits)
qed

lemma tls_get_inv:
  assumes "tls_inv s fr" "tls_get t s = ((a, r), s')"
  shows "\<exists>fr'. tls_inv s' fr' \<and> s_tls s' t = Some (a, r) \<and> pools_grow s fr s' fr'"
proof (cases "s_tls s t")
  case (Some ar)
  then show ?thesis using assms pools_grow_refl by (fastforce simp: tls_get_def)
next
  case None
  let ?k = "tlsPool_init_Capacity s"
  obtain a0 s1 where s1: "new_ObjectPool s = (a0, s1)" by fastforce
  define s2 where "s2 = add_TotalCount (Initalize_at a0 ?k s1)"
  obtain r0 s3 where s3: "new_ObjectPool s2 = (r0, s3)" by fastforce
  define s4 where "s4 = Initalize_at r0 0 s3"
  have eqs: "a = a0" "r = r0" "s' = s4\<lparr>s_tls := (s_tls s4)(t := Some (a0, r0))\<rparr>"
    using assms(2) None s1 s3 [unfolded s2_def] by (auto simp: tls_get_def new_stTlsObjectPool_def s4_def)
  have rep: "tls_rep s fr" and pl: "tls_places s" using assms(1) by (auto simp: tls_inv_def)
  note n1 = new_ObjectPool_rep [OF rep s1]
  have k1: "tlsPool_init_Capacity s1 = ?k" "fullPools s1 = fullPools s" "emptyPools s1 = emptyPools s" "s_tls s1 = s_tls s"
      "m_TotalCount s1 = m_TotalCount s" "iUseCnt s1 = iUseCnt s" "s_ActiveNode s1 = s_ActiveNode s"
    using s1 by (auto simp: new_ObjectPool_def)
  have a0: "a0 < pools_made s1" by (simp add: n1)
  from filled_grow [OF n1(1) a0] obtain fr2 where
    f2: "tls_rep s2 fr2" "pools_grow s1 fr s2 fr2" "made (nodes s2) = made (nodes s) + ?k"
    by (auto simp: s2_def k1 n1)
  note n3 = new_ObjectPool_rep [OF f2(1) s3]
  have k3: "tlsPool_init_Capacity s3 = ?k" "fullPools s3 = fullPools s" "emptyPools s3 = emptyPools s" "s_tls s3 = s_tls s"
      "m_TotalCount s3 = m_TotalCount s2" "iUseCnt s3 = iUseCnt s2" "s_ActiveNode s3 = s_ActiveNode s2"
    using s3 k1 by (auto simp: new_ObjectPool_def s2_def)
  have r0: "r0 < pools_made s3" by (simp add: n3)
  from Initalize_at_rep [OF n3(1) r0, of 0] have f4: "tls_rep s4 fr2" "made (nodes s4) = made (nodes s2)"
    by (auto simp: s4_def n3 fun_upd_idem)
  have "tls_rep s' fr2" by (rule tls_rep_cong [OF f4(1)]) (simp_all add: eqs)
  moreover have "tls_places s'"
    using places_new [of _ _ _ t] pl None by (simp add: tls_places_def eqs s4_def k3 n3 n1 s2_def)
  moreover have "tls_full_ok s'" if "0 < ?k"
  proof -
    have "tls_full_ok s" using assms(1) that by (simp add: tls_inv_def)
    then have 1: "tls_full_ok s1" by (simp add: tls_full_ok_def k1 n1)
    have "a0 \<notin> set (fullPools s1)" using pl by (auto simp: tls_places_def places_ok_def k1 n1)
    from filled_full_ok [OF 1 n1(1) a0 this] have 2: "tls_full_ok s2" by (simp add: s2_def k1)
    have "r0 \<notin> set (fullPools s)"
      using places_okD(2) [OF pl [unfolded tls_places_def], of r0] by (auto simp: n1 n3 s2_def)
    moreover have "pool_at s4 q = pool_at s2 q" if "q \<noteq> r0" for q
      using that by (simp add: s4_def Initalize_at_def n3 split: prod.split)
    ultimately show ?thesis using 2 f4(2) by (auto simp: tls_full_ok_def eqs s4_def k3) (metis s2_def k1(2) add_TotalCount_frame(5) Initalize_at_frame(3))
  qed
  moreover have "pools_grow s fr s' fr2"
    using f2(2) f4(2) by (auto simp: pools_grow_def eqs s4_def k1 k3 n1 n3)
  ultimately show ?thesis using eqs(1-2) by (intro exI [of _ fr2]) (simp add: tls_inv_def eqs(3) s4_def k3)
qed

lemma tls_refill_inv:
  assumes "tls_inv s fr" "s_tls s t = Some (a, r)" "tls_refill t a r s = (a', s')"
  shows "\<exists>fr'. tls_inv s' fr' \<and> s_tls s' t = Some (a', r) \<and> pools_grow s fr s' fr' \<and>
    (0 < tlsPool_init_Capacity s \<longrightarrow> fr' a' \<noteq> [])"
proof (cases "m_size (pool_at s a) = 0")
  case False
  then have "fr a \<noteq> []" using tls_repD(1) [of s fr a] assms(1) by (auto simp: tls_inv_def pool_rep_def)
  then show ?thesis using False assms pools_grow_refl by (fastforce simp: tls_refill_def)
next
  case True
  have rep: "tls_rep s fr" and pl: "places_ok (pools_made s) (fullPools s @ emptyPools s) (s_tls s)"
    using assms(1) by (auto simp: tls_inv_def tls_places_def)
  show ?thesis
  proof (cases "fullPools s")
    case (Cons p ps)
    have s': "a' = p" "s' = s\<lparr>emptyPools := a # emptyPools s, fullPools := ps, s_tls := (s_tls s)(t := Some (p, r))\<rparr>"
      using assms(3) True Cons by (auto simp: tls_refill_def GetFullPool_def)
    have "places_ok (pools_made s) (ps @ a # emptyPools s) ((s_tls s)(t := Some (p, r)))"
      by (rule places_trade [OF pl assms(2), of _ p a]) (auto simp: Cons)
    then have "tls_inv s' fr"
      using assms(1) Cons by (auto simp: tls_inv_def tls_places_def tls_full_ok_def s' intro: tls_rep_cong [OF rep])
    moreover have "fr p \<noteq> []" if "0 < tlsPool_init_Capacity s"
      using that assms(1) Cons tls_repD(1) [OF rep, of p] by (auto simp: tls_inv_def tls_full_ok_def pool_rep_def)
    ultimately show ?thesis by (intro exI [of _ fr]) (auto simp: s' pools_grow_def)
  next
    case Nil
    have s': "a' = a"
      "s' = (add_TotalCount (Initalize_at a (tlsPool_init_Capacity s) s))\<lparr>s_tls := s_tls s\<rparr>"
      using assms(2,3) True Nil
      by (auto simp: tls_refill_def GetFullPool_def fun_upd_idem Let_def)
    have a: "a < pools_made s" using places_okD(3) [OF pl assms(2)] by blast
    from filled_grow [OF rep a] obtain fr' xs where f: "tls_rep (add_TotalCount (Initalize_at a (tlsPool_init_Capacity s) s)) fr'"
      "pools_grow s fr (add_TotalCount (Initalize_at a (tlsPool_init_Capacity s) s)) fr'" "fr' = fr(a := xs @ fr a)"
      "length xs = tlsPool_init_Capacity s" by blast
    have "tls_full_ok (add_TotalCount (Initalize_at a (tlsPool_init_Capacity s) s))" if "0 < tlsPool_init_Capacity s"
      using filled_full_ok [OF _ rep a] assms(1) that by (simp add: tls_inv_def Nil)
    then have "tls_inv s' fr'" using pl
      by (auto simp: tls_inv_def tls_places_def tls_full_ok_def s' intro: tls_rep_cong [OF f(1)])
    then show ?thesis using f(2-4) assms(2) by (intro exI [of _ fr']) (auto simp: s' pools_grow_def)
  qed
qed

text \<open>
  \<^verbatim>\<open>Alloc\<close> and the last \<^verbatim>\<open>Release\<close> of a node against the set of the nodes that are free in some pool.
\<close>

lemma tls_Alloc_inv:
  assumes "tls_inv s fr" "tls_Alloc t s = (res, s')"
  shows "\<exists>n fr'. res = Some n \<and> tls_inv s' fr' \<and> made (nodes s) \<le> made (nodes s') \<and> n < made (nodes s') \<and>
    (n \<in> tls_free fr \<or> made (nodes s) \<le> n) \<and>
    tls_free fr' = (tls_free fr \<union> {made (nodes s)..<made (nodes s')}) - {n} \<and>
    iUseCnt s' = (iUseCnt s)(n := 1) \<and> s_ActiveNode s' = s_ActiveNode s + 1 \<and> tlsPool_init_Capacity s' = tlsPool_init_Capacity s"
proof -
  obtain a r s1 where g: "tls_get t s = ((a, r), s1)" by (metis surj_pair)
  obtain a' s2 where f: "tls_refill t a r s1 = (a', s2)" by fastforce
  obtain res1 h p where al: "pool_Alloc (nodes s2) (pool_at s2 a') = (res1, h, p)" by (metis surj_pair)
  from tls_get_inv [OF assms(1) g] obtain fr1 where
    i1: "tls_inv s1 fr1" "s_tls s1 t = Some (a, r)" "pools_grow s fr s1 fr1" by blast
  from tls_refill_inv [OF i1(1,2) f] obtain fr2 where
    i2: "tls_inv s2 fr2" "s_tls s2 t = Some (a', r)" "pools_grow s1 fr1 s2 fr2"
      "0 < tlsPool_init_Capacity s1 \<longrightarrow> fr2 a' \<noteq> []" by (elim exE conjE) (rule that)
  have gr: "pools_grow s fr s2 fr2" by (rule pools_grow_trans [OF i1(3) i2(3)])
  have cap: "tlsPool_init_Capacity s1 = tlsPool_init_Capacity s2" using i2(3) by (simp add: pools_grow_def)
  have rep: "tls_rep s2 fr2" and pl: "places_ok (pools_made s2) (fullPools s2 @ emptyPools s2) (s_tls s2)"
    using i2(1) by (auto simp: tls_inv_def tls_places_def)
  note q = tls_repD [OF rep]
  have a': "a' < pools_made s2" "a' \<notin> set (fullPools s2)" using places_okD(3) [OF pl i2(2)] by auto
  from pool_Alloc_rep [OF q(1) q(2) al] obtain n where n: "res1 = Some n" "pool_rep h p (tl (fr2 a'))"
    "made (nodes s2) \<le> made h" "\<not> m_blimite p" "\<And>u ys. pool_rep (nodes s2) u ys \<Longrightarrow> pool_rep h u ys"
    "case fr2 a' of [] \<Rightarrow> n = made (nodes s2) \<and> made h = Suc (made (nodes s2)) | x # ys \<Rightarrow> n = x \<and> h = nodes s2"
    using q(2) by auto
  have res: "res = Some n" and
    s': "s' = s2\<lparr>nodes := h, pool_at := (pool_at s2)(a' := p), iUseCnt := (iUseCnt s2)(n := 1),
      s_ActiveNode := s_ActiveNode s2 + 1\<rparr>"
    using assms(2) g f al n(1) by (auto simp: tls_Alloc_def)
  have "tls_rep (s2\<lparr>nodes := h, pool_at := (pool_at s2)(a' := p)\<rparr>) (fr2(a' := tl (fr2 a')))"
  proof (rule tls_rep_put [OF rep a'(1) n(2,4) n(5) [OF q(1)]])
    show "set (tl (fr2 a')) \<inter> set (fr2 u) = {}" if "u \<noteq> a'" for u
      using q(6) [of _ a' u] that by (cases "fr2 a'") auto
  qed
  then have "tls_rep s' (fr2(a' := tl (fr2 a')))" by (rule tls_rep_cong) (simp_all add: s')
  moreover have "tls_places s'" using pl by (simp add: tls_places_def s')
  moreover have "tls_full_ok s'" if "0 < tlsPool_init_Capacity s2"
    using that i2(1,4) n(6) a'(2) by (auto simp: tls_inv_def tls_full_ok_def s' cap split: list.splits)
  ultimately have inv: "tls_inv s' (fr2(a' := tl (fr2 a')))" by (simp add: tls_inv_def s')
  have x: "x \<notin> set (fr2 u)" if "fr2 a' = x # ys" "u \<noteq> a'" for x ys u using q(6) [of x a' u] that by auto
  have d: "distinct (fr2 a')" using q(1) [of a'] by (simp add: pool_rep_def)
  have fr': "tls_free (fr2(a' := tl (fr2 a'))) = tls_free fr2 - {n}"
  proof (cases "fr2 a'")
    case Nil
    then have "n \<notin> tls_free fr2" using n(6) q(5) [of n] by auto
    then show ?thesis using Nil by (simp add: fun_upd_idem)
  next
    case (Cons y ys)
    have "n = y" "y \<notin> set ys" using n(6) d Cons by auto
    then show ?thesis using x [OF Cons] by (auto simp: tls_free_split [where p = a'] Cons)
  qed
  have nn: "n \<in> tls_free fr2 \<and> h = nodes s2 \<or> n = made (nodes s2) \<and> made h = Suc (made (nodes s2))"
    using n(6) by (cases "fr2 a'") (auto simp: tls_free_def intro: exI [of _ a'])
  have free2: "tls_free fr2 = tls_free fr \<union> {made (nodes s)..<made (nodes s2)}" "made (nodes s) \<le> made (nodes s2)"
    using gr by (auto simp: pools_grow_def)
  have keep: "iUseCnt s2 = iUseCnt s" "s_ActiveNode s2 = s_ActiveNode s" "tlsPool_init_Capacity s2 = tlsPool_init_Capacity s"
    using gr by (auto simp: pools_grow_def)
  have "n < made h \<and> made (nodes s) \<le> made h \<and> (n \<in> tls_free fr \<or> made (nodes s) \<le> n) \<and>
    tls_free fr2 - {n} = (tls_free fr \<union> {made (nodes s)..<made h}) - {n}"
    using nn
  proof (elim disjE conjE)
    assume "n \<in> tls_free fr2" "h = nodes s2"
    then show ?thesis using q(5) [of n] free2 by (auto simp only: Un_iff atLeastLessThan_iff)
  next
    assume "n = made (nodes s2)" "made h = Suc (made (nodes s2))"
    then show ?thesis using free2 by (simp add: atLeastLessThanSuc)
  qed
  then have lt: "n < made h" "made (nodes s) \<le> made h" "n \<in> tls_free fr \<or> made (nodes s) \<le> n"
    "tls_free fr2 - {n} = (tls_free fr \<union> {made (nodes s)..<made h}) - {n}" by blast+
  show ?thesis
  proof (intro exI [of _ n] exI [of _ "fr2(a' := tl (fr2 a'))"] conjI)
    show "tls_free (fr2(a' := tl (fr2 a'))) = (tls_free fr \<union> {made (nodes s)..<made (nodes s')}) - {n}"
      unfolding fr' lt(4) by (simp add: s')
  qed (use res inv lt keep in \<open>simp_all add: s'\<close>)
qed

lemma GetEmptyPool_inv:
  assumes "tls_inv s fr" "s_tls s t = Some (a, r)" "0 < tlsPool_init_Capacity s \<longrightarrow> 0 < m_size (pool_at s r)"
    "GetEmptyPool r s = (r', s1)" "s' = s1\<lparr>s_tls := (s_tls s1)(t := Some (a, r'))\<rparr>"
  shows "tls_inv s' fr" "s_tls s' t = Some (a, r')" "pools_grow s fr s' fr" "nodes s' = nodes s"
proof -
  have rep: "tls_rep s fr" and pl: "places_ok (pools_made s) (fullPools s @ emptyPools s) (s_tls s)"
    using assms(1) by (auto simp: tls_inv_def tls_places_def)
  show n: "s_tls s' t = Some (a, r')" "nodes s' = nodes s" "pools_grow s fr s' fr"
    using assms(4,5)
    by (cases "emptyPools s"; force simp: GetEmptyPool_def new_ObjectPool_def pools_grow_def Let_def)+
  show "tls_inv s' fr"
  proof (cases "emptyPools s")
    case (Cons p ps)
    have s': "r' = p" "s' = s\<lparr>fullPools := r # fullPools s, emptyPools := ps, s_tls := (s_tls s)(t := Some (a, p))\<rparr>"
      using assms(4,5) Cons by (auto simp: GetEmptyPool_def)
    have "places_ok (pools_made s) (r # fullPools s @ ps) ((s_tls s)(t := Some (a, p)))"
      by (rule places_trade [OF pl assms(2), of _ p r]) (auto simp: Cons)
    then show ?thesis
      using assms(1,3) by (auto simp: tls_inv_def tls_places_def tls_full_ok_def s' intro: tls_rep_cong [OF rep])
  next
    case Nil
    have s': "r' = pools_made s"
      "s' = s\<lparr>fullPools := r # fullPools s, pool_at := (pool_at s)(pools_made s := new_CObjectPool_UnSafeMT),
         pools_made := Suc (pools_made s), s_tls := (s_tls s)(t := Some (a, pools_made s))\<rparr>"
      using assms(4,5) Nil by (auto simp: GetEmptyPool_def new_ObjectPool_def)
    have at: "(pool_at s)(pools_made s := new_CObjectPool_UnSafeMT) = pool_at s"
      using tls_repD(3) [OF rep] by (simp add: fun_upd_idem)
    have "tls_rep s' fr" using rep tls_repD(3) [OF rep] by (simp add: tls_rep_def s'(2) at)
    moreover have "places_ok (Suc (pools_made s)) (r # fullPools s) ((s_tls s)(t := Some (a, pools_made s)))"
      using pl assms(2) Nil by (intro places_give) auto
    ultimately show ?thesis
      using assms(1,3) Nil by (auto simp: tls_inv_def tls_places_def tls_full_ok_def s'(2) at)
  qed
qed

lemma tls_give_back_inv:
  assumes "tls_inv s fr" "n \<notin> tls_free fr" "n < made (nodes s)"
  shows "\<exists>fr'. tls_inv (tls_give_back t n s) fr' \<and>
    made (nodes s) \<le> made (nodes (tls_give_back t n s)) \<and>
    tls_free fr' = insert n (tls_free fr \<union> {made (nodes s)..<made (nodes (tls_give_back t n s))}) \<and>
    iUseCnt (tls_give_back t n s) = iUseCnt s \<and> s_ActiveNode (tls_give_back t n s) = s_ActiveNode s \<and>
    tlsPool_init_Capacity (tls_give_back t n s) = tlsPool_init_Capacity s"
proof -
  obtain a r s1 where g: "tls_get t s = ((a, r), s1)" by (metis surj_pair)
  obtain h p where al: "pool_Release n (nodes s1) (pool_at s1 r) = (h, p)" by fastforce
  define s2 where "s2 = s1\<lparr>nodes := h, pool_at := (pool_at s1)(r := p)\<rparr>"
  from tls_get_inv [OF assms(1) g] obtain fr1 where
    i1: "tls_inv s1 fr1" "s_tls s1 t = Some (a, r)" "pools_grow s fr s1 fr1" by blast
  have rep: "tls_rep s1 fr1" and pl: "places_ok (pools_made s1) (fullPools s1 @ emptyPools s1) (s_tls s1)"
    using i1(1) by (auto simp: tls_inv_def tls_places_def)
  note q = tls_repD [OF rep]
  have r: "r < pools_made s1" "r \<notin> set (fullPools s1)" using places_okD(3) [OF pl i1(2)] by auto
  have nf: "n \<notin> tls_free fr1" "n < made (nodes s1)" using assms(2,3) i1(3) by (auto simp: pools_grow_def)
  then have nq: "n \<notin> set (fr1 u)" for u by (auto simp: tls_free_def)
  note rr = pool_Release_rep [OF q(1) nq nf(2) al]
  have lim: "\<not> m_blimite p" using al q(2) by (auto simp: pool_Release_def)
  have rep2: "tls_rep s2 (fr1(r := n # fr1 r))" unfolding s2_def
  proof (rule tls_rep_put [OF rep r(1) rr(1) lim rr(3) [OF q(1) nq]])
    show "set (n # fr1 r) \<inter> set (fr1 u) = {}" if "u \<noteq> r" for u
      using q(6) [of _ r u] nq [of u] that by auto
  qed
  have inv2: "tls_inv s2 (fr1(r := n # fr1 r))"
    using rep2 i1(1) pl r(2) rr(2) by (auto simp: tls_inv_def tls_places_def tls_full_ok_def s2_def)
  have "tls_free (fr1(r := [n] @ fr1 r)) = insert n (tls_free fr1)" by (simp only: tls_free_upd) simp
  then have fr2: "tls_free (fr1(r := n # fr1 r)) = insert n (tls_free fr \<union> {made (nodes s)..<made (nodes s1)})"
    "made (nodes s) \<le> made (nodes s1)"
    using i1(3) by (auto simp: pools_grow_def)
  have sz: "0 < m_size p" using rr(1) by (auto simp: pool_rep_def)
  have keep: "iUseCnt s2 = iUseCnt s" "s_ActiveNode s2 = s_ActiveNode s" "tlsPool_init_Capacity s2 = tlsPool_init_Capacity s"
    "made (nodes s2) = made (nodes s1)" "s_tls s2 t = Some (a, r)" "pool_at s2 r = p"
    using i1(2,3) rr(2) by (auto simp: pools_grow_def s2_def)
  show ?thesis
  proof (cases "m_size p = int (tlsPool_init_Capacity s)")
    case False
    then have "tls_give_back t n s = s2" by (simp add: tls_give_back_def g al s2_def)
    then show ?thesis using inv2 fr2 keep by (intro exI [of _ "fr1(r := n # fr1 r)"]) auto
  next
    case True
    obtain r' s3 where e: "GetEmptyPool r s2 = (r', s3)" by fastforce
    have e': "tls_give_back t n s = s3\<lparr>s_tls := (s_tls s3)(t := Some (a, r'))\<rparr>"
      using True e by (simp add: tls_give_back_def g al s2_def)
    have "0 < tlsPool_init_Capacity s2 \<longrightarrow> 0 < m_size (pool_at s2 r)" using sz by (simp add: keep)
    from GetEmptyPool_inv [OF inv2 keep(5) this e e'] show ?thesis
      using fr2 keep by (intro exI [of _ "fr1(r := n # fr1 r)"]) (auto simp: pools_grow_def)
  qed
qed

section \<open>What a pool promises\<close>

text \<open>
  The clients of a pool take a node, spread its use over \<open>k\<close> holders (\<^verbatim>\<open>BroadCast\<close> stores the number
  of the receivers in \<^verbatim>\<open>iUseCnt\<close>) and give uses back, from any thread.
\<close>

datatype 't pool_event = Take 't | Spread nat nat | Give 't nat

fun pool_run ::
  "('t \<Rightarrow> 's \<Rightarrow> nat option \<times> 's) \<Rightarrow> (nat \<Rightarrow> int \<Rightarrow> 's \<Rightarrow> 's) \<Rightarrow> ('t \<Rightarrow> nat \<Rightarrow> 's \<Rightarrow> 's option) \<Rightarrow>
   't pool_event list \<Rightarrow> 's \<Rightarrow> nat multiset \<Rightarrow> ('s \<times> nat multiset) option" where
  "pool_run al put rel [] s held = Some (s, held)"
| "pool_run al put rel (Take t # es) s held =
     (case al t s of (None, _) \<Rightarrow> None | (Some n, s1) \<Rightarrow> pool_run al put rel es s1 (add_mset n held))"
| "pool_run al put rel (Spread n k # es) s held =
     pool_run al put rel es (put n (int k) s) (held - {#n#} + replicate_mset k n)"
| "pool_run al put rel (Give t n # es) s held =
     (case rel t n s of None \<Rightarrow> None | Some s1 \<Rightarrow> pool_run al put rel es s1 (held - {#n#}))"

text \<open>Clients give back the uses they hold, and spread a node they hold alone over at least one.\<close>

fun pool_honest ::
  "('t \<Rightarrow> 's \<Rightarrow> nat option \<times> 's) \<Rightarrow> (nat \<Rightarrow> int \<Rightarrow> 's \<Rightarrow> 's) \<Rightarrow> ('t \<Rightarrow> nat \<Rightarrow> 's \<Rightarrow> 's option) \<Rightarrow>
   't pool_event list \<Rightarrow> 's \<Rightarrow> nat multiset \<Rightarrow> bool" where
  "pool_honest al put rel [] s held = True"
| "pool_honest al put rel (Take t # es) s held =
     (case al t s of (None, _) \<Rightarrow> True | (Some n, s1) \<Rightarrow> pool_honest al put rel es s1 (add_mset n held))"
| "pool_honest al put rel (Spread n k # es) s held =
     (count held n = 1 \<and> 0 < k \<and>
      pool_honest al put rel es (put n (int k) s) (held - {#n#} + replicate_mset k n))"
| "pool_honest al put rel (Give t n # es) s held =
     (n \<in># held \<and> (case rel t n s of None \<Rightarrow> True | Some s1 \<Rightarrow> pool_honest al put rel es s1 (held - {#n#})))"

locale node_pool =
  fixes inv :: "'s \<Rightarrow> bool" and in_use :: "'s \<Rightarrow> nat set" and uses :: "'s \<Rightarrow> nat \<Rightarrow> int"
    and al :: "'t \<Rightarrow> 's \<Rightarrow> nat option \<times> 's" and put :: "nat \<Rightarrow> int \<Rightarrow> 's \<Rightarrow> 's"
    and rel :: "'t \<Rightarrow> nat \<Rightarrow> 's \<Rightarrow> 's option"
  assumes al_law: "inv s \<Longrightarrow> al t s = (res, s') \<Longrightarrow>
      \<exists>n. res = Some n \<and> inv s' \<and> n \<notin> in_use s \<and> in_use s' = insert n (in_use s) \<and> uses s' = (uses s)(n := 1)"
    and put_law: "inv s \<Longrightarrow> n \<in> in_use s \<Longrightarrow>
      inv (put n k s) \<and> in_use (put n k s) = in_use s \<and> uses (put n k s) = (uses s)(n := k)"
    and rel_law: "inv s \<Longrightarrow> n \<in> in_use s \<Longrightarrow> 0 < uses s n \<Longrightarrow>
      \<exists>s'. rel t n s = Some s' \<and> inv s' \<and> uses s' = (uses s)(n := uses s n - 1) \<and>
        in_use s' = (if uses s n = 1 then in_use s - {n} else in_use s)"
    and idle_law: "inv s \<Longrightarrow> n \<notin> in_use s \<Longrightarrow> uses s n = 0"
begin

definition held_ok :: "'s \<Rightarrow> nat multiset \<Rightarrow> bool" where
  "held_ok s held \<longleftrightarrow> inv s \<and> in_use s = set_mset held \<and> (\<forall>n. uses s n = int (count held n))"

lemma al_fresh:
  assumes "held_ok s held" "al t s = (res, s')"
  shows "\<exists>n. res = Some n \<and> n \<notin># held \<and> held_ok s' (add_mset n held)"
proof -
  have i: "inv s" "in_use s = set_mset held" using assms(1) by (auto simp: held_ok_def)
  from al_law [OF i(1) assms(2)] obtain n where n: "res = Some n" "inv s'" "n \<notin> in_use s"
    "in_use s' = insert n (in_use s)" "uses s' = (uses s)(n := 1)" by blast
  have "count held n = 0" using n(3) i(2) by (simp add: count_eq_zero_iff)
  then show ?thesis using n i assms(1) by (auto simp: held_ok_def)
qed

lemma put_ok:
  assumes "held_ok s held" "count held n = 1" "0 < k"
  shows "held_ok (put n (int k) s) (held - {#n#} + replicate_mset k n)"
proof -
  have i: "inv s" "n \<in> in_use s" using assms by (auto simp: held_ok_def simp flip: count_greater_zero_iff)
  have "set_mset (held - {#n#} + replicate_mset k n) = set_mset held"
  proof (rule set_eqI)
    fix m
    show "m \<in># held - {#n#} + replicate_mset k n \<longleftrightarrow> m \<in># held"
      using assms(2,3) by (cases "m = n") (simp_all flip: count_greater_zero_iff)
  qed
  then show ?thesis using put_law [OF i] assms by (auto simp: held_ok_def)
qed

lemma rel_ok:
  assumes "held_ok s held" "n \<in># held"
  shows "\<exists>s'. rel t n s = Some s' \<and> held_ok s' (held - {#n#})"
proof -
  have i: "inv s" "n \<in> in_use s" "uses s n = int (count held n)" and pos: "0 < uses s n"
    using assms by (auto simp: held_ok_def)
  from rel_law [OF i(1,2) pos] obtain s' where s': "rel t n s = Some s'" "inv s'" "uses s' = (uses s)(n := uses s n - 1)"
    "in_use s' = (if uses s n = 1 then in_use s - {n} else in_use s)" by blast
  have "set_mset (held - {#n#}) = (if count held n = 1 then set_mset held - {n} else set_mset held)"
  proof (rule set_eqI)
    fix m
    show "m \<in># held - {#n#} \<longleftrightarrow> m \<in> (if count held n = 1 then set_mset held - {n} else set_mset held)"
      using assms(2) by (cases "m = n") (auto simp flip: count_greater_zero_iff)
  qed
  then show ?thesis using s' i assms pos by (auto simp: held_ok_def of_nat_diff)
qed

text \<open>An honest run never crashes, and the pool always knows exactly the uses that are held.\<close>

lemma run_ok:
  "held_ok s held \<Longrightarrow> pool_honest al put rel es s held \<Longrightarrow>
   \<exists>s' held'. pool_run al put rel es s held = Some (s', held') \<and> held_ok s' held'"
proof (induction es arbitrary: s held)
  case Nil
  then show ?case by simp
next
  case (Cons e es)
  show ?case
  proof (cases e)
    case (Take t)
    obtain res s1 where a: "al t s = (res, s1)" by fastforce
    from al_fresh [OF Cons.prems(1) a] obtain n where "res = Some n" "held_ok s1 (add_mset n held)" by blast
    then show ?thesis using Cons.IH [of s1 "add_mset n held"] Cons.prems(2) a Take by simp
  next
    case (Spread n k)
    then show ?thesis using Cons.IH [OF put_ok [OF Cons.prems(1)]] Cons.prems(2) by simp
  next
    case (Give t n)
    then have "n \<in># held" using Cons.prems(2) by simp
    from rel_ok [OF Cons.prems(1) this] obtain s1 where "rel t n s = Some s1" "held_ok s1 (held - {#n#})" by blast
    then show ?thesis using Cons.IH [of s1 "held - {#n#}"] Cons.prems(2) Give by simp
  qed
qed

end

subsection \<open>The thread pools keep the promise\<close>

definition tls_linked :: "tls_pools \<Rightarrow> nat set" where
  "tls_linked s = {n. \<exists>p xs. chain (nxt (nodes s)) (m_Top (pool_at s p)) xs \<and> n \<in> set xs}"

definition tls_in_use :: "tls_pools \<Rightarrow> nat set" where
  "tls_in_use s = {..<made (nodes s)} - tls_linked s"

definition tls_ok :: "nat \<Rightarrow> tls_pools \<Rightarrow> bool" where
  "tls_ok cap s \<longleftrightarrow> tlsPool_init_Capacity s = cap \<and> (\<exists>fr. tls_inv s fr) \<and> (\<forall>n. n \<notin> tls_in_use s \<longrightarrow> iUseCnt s n = 0)"

definition tls_put :: "nat \<Rightarrow> int \<Rightarrow> tls_pools \<Rightarrow> tls_pools" where
  "tls_put n k s = s\<lparr>iUseCnt := (iUseCnt s)(n := k)\<rparr>"

lemma tls_linked_free:
  assumes "tls_inv s fr"
  shows "tls_linked s = tls_free fr"
proof -
  have c: "chain (nxt (nodes s)) (m_Top (pool_at s p)) (fr p)" for p
    using assms tls_repD(1) [of s fr p] by (simp add: tls_inv_def pool_rep_def)
  then have "chain (nxt (nodes s)) (m_Top (pool_at s p)) xs \<longleftrightarrow> xs = fr p" for p xs
    using chain_unique by blast
  then show ?thesis by (simp add: tls_linked_def tls_free_def) blast
qed

lemma tls_Alloc_ok:
  assumes "tls_ok cap s" "tls_Alloc t s = (res, s')"
  shows "\<exists>n. res = Some n \<and> tls_ok cap s' \<and> n \<notin> tls_in_use s \<and> tls_in_use s' = insert n (tls_in_use s) \<and>
    iUseCnt s' = (iUseCnt s)(n := 1)"
proof -
  obtain fr where i: "tls_inv s fr" using assms(1) by (auto simp: tls_ok_def)
  from tls_Alloc_inv [OF i assms(2)] obtain n fr' where n: "res = Some n" "tls_inv s' fr'"
    "made (nodes s) \<le> made (nodes s')" "n < made (nodes s')" "n \<in> tls_free fr \<or> made (nodes s) \<le> n"
    "tls_free fr' = (tls_free fr \<union> {made (nodes s)..<made (nodes s')}) - {n}" "iUseCnt s' = (iUseCnt s)(n := 1)"
    "tlsPool_init_Capacity s' = tlsPool_init_Capacity s"
    by (elim exE conjE) (rule that)
  have 1: "n \<notin> tls_in_use s" using n(5) by (auto simp: tls_in_use_def tls_linked_free [OF i])
  have "tls_in_use s' = insert n (tls_in_use s)"
    unfolding tls_in_use_def tls_linked_free [OF i] tls_linked_free [OF n(2)] n(6) using n(3,4) by auto
  moreover from this have "tls_ok cap s'" using assms(1) n(2,7,8) by (auto simp: tls_ok_def)
  ultimately show ?thesis using n(1,7) 1 by blast
qed

lemma tls_inv_uses: "tls_inv s fr \<Longrightarrow> tls_inv (s\<lparr>iUseCnt := u\<rparr>) fr" "tls_inv s fr \<Longrightarrow> tls_inv (s\<lparr>s_ActiveNode := v\<rparr>) fr"
  by (auto simp: tls_inv_def tls_rep_def tls_places_def tls_full_ok_def)

lemma tls_in_use_uses [simp]:
  "tls_in_use (s\<lparr>iUseCnt := u\<rparr>) = tls_in_use s" "tls_in_use (s\<lparr>s_ActiveNode := v\<rparr>) = tls_in_use s"
  by (simp_all add: tls_in_use_def tls_linked_def)

lemma tls_put_ok:
  "tls_ok cap s \<Longrightarrow> n \<in> tls_in_use s \<Longrightarrow>
   tls_ok cap (tls_put n k s) \<and> tls_in_use (tls_put n k s) = tls_in_use s \<and> iUseCnt (tls_put n k s) = (iUseCnt s)(n := k)"
  by (auto simp: tls_ok_def tls_put_def intro: tls_inv_uses(1))

lemma tls_Release_ok:
  assumes "tls_ok cap s" "n \<in> tls_in_use s" "0 < iUseCnt s n"
  shows "\<exists>s'. tls_Release t n s = Some s' \<and> tls_ok cap s' \<and> iUseCnt s' = (iUseCnt s)(n := iUseCnt s n - 1) \<and>
    tls_in_use s' = (if iUseCnt s n = 1 then tls_in_use s - {n} else tls_in_use s)"
proof (cases "iUseCnt s n = 1")
  case False
  then show ?thesis using assms by (auto simp: tls_Release_def Let_def tls_ok_def intro: tls_inv_uses(1))
next
  case True
  obtain fr where i: "tls_inv s fr" using assms(1) by (auto simp: tls_ok_def)
  let ?s1 = "s\<lparr>iUseCnt := (iUseCnt s)(n := 0), s_ActiveNode := s_ActiveNode s - 1\<rparr>"
  let ?s2 = "tls_give_back t n ?s1"
  have r: "tls_Release t n s = Some ?s2" using True by (simp add: tls_Release_def Let_def)
  have i1: "tls_inv ?s1 fr" by (intro tls_inv_uses i)
  have n: "n \<notin> tls_free fr" "n < made (nodes ?s1)" using assms(2) by (auto simp: tls_in_use_def tls_linked_free [OF i])
  from tls_give_back_inv [OF i1 n, of t] obtain fr' where f: "tls_inv ?s2 fr'"
    "made (nodes ?s1) \<le> made (nodes ?s2)" "tls_free fr' = insert n (tls_free fr \<union> {made (nodes ?s1)..<made (nodes ?s2)})"
    "iUseCnt ?s2 = iUseCnt ?s1" "tlsPool_init_Capacity ?s2 = tlsPool_init_Capacity ?s1" by (elim exE conjE) (rule that)
  have u: "tls_in_use ?s2 = tls_in_use s - {n}"
    unfolding tls_in_use_def tls_linked_free [OF i] tls_linked_free [OF f(1)] f(3) using f(2) by auto
  have "tls_ok cap ?s2" using assms(1) f(1,4,5) u by (auto simp: tls_ok_def)
  then show ?thesis using r u f(4) True by simp
qed

interpretation tls: node_pool "tls_ok cap" tls_in_use iUseCnt tls_Alloc tls_put tls_Release for cap
  by (rule node_pool.intro) (erule (1) tls_Alloc_ok tls_put_ok, erule (1) tls_put_ok, erule (2) tls_Release_ok, simp add: tls_ok_def)

lemma tls_free_nil: "tls_free (\<lambda>_. []) = {}"
  by (simp add: tls_free_def)

lemma new_tls_pools_inv: "tls_inv (new_tls_pools cap) (\<lambda>_. [])"
  by (auto simp: tls_inv_def tls_rep_def tls_places_def places_ok_def tls_full_ok_def new_tls_pools_def pool_rep_new)
    (simp add: new_CObjectPool_UnSafeMT_def)

lemma new_tls_pools_held: "tls.held_ok cap (new_tls_pools cap) {#}"
proof -
  have "tls_in_use (new_tls_pools cap) = {}" by (simp add: tls_in_use_def new_tls_pools_def)
  then show ?thesis using new_tls_pools_inv by (auto simp: tls.held_ok_def tls_ok_def) (simp_all add: new_tls_pools_def)
qed

text \<open>The pool of messages in the model of the network library keeps the same promise.\<close>

definition msg_take :: "'t \<Rightarrow> 'a CLanServer_scheme \<Rightarrow> nat option \<times> 'a CLanServer_scheme" where
  "msg_take t s = (let (n, s1) = msg_Alloc s in (Some n, s1))"

definition msg_put :: "nat \<Rightarrow> int \<Rightarrow> 'a CLanServer_scheme \<Rightarrow> 'a CLanServer_scheme" where
  "msg_put n k s = set_msg n ((heap s ! n)\<lparr>msg_use := k\<rparr>) s"

definition msg_uses :: "'a CLanServer_scheme \<Rightarrow> nat \<Rightarrow> int" where
  "msg_uses s n = (if n < length (heap s) then msg_use (heap s ! n) else 0)"

definition msg_in_use :: "'a CLanServer_scheme \<Rightarrow> nat set" where
  "msg_in_use s = {..<length (heap s)} - set (msg_free s)"

definition msg_pool_inv :: "'a CLanServer_scheme \<Rightarrow> bool" where
  "msg_pool_inv s \<longleftrightarrow> distinct (msg_free s) \<and>
     (\<forall>n \<in> set (msg_free s). n < length (heap s) \<and> msg_use (heap s ! n) = 0)"

interpretation msgs: node_pool msg_pool_inv msg_in_use msg_uses msg_take msg_put "\<lambda>_. msg_Release"
proof
  fix s s' :: "'a CLanServer_scheme" and t :: 'b and res n k
  assume i: "msg_pool_inv s"
  show "\<exists>n. res = Some n \<and> msg_pool_inv s' \<and> n \<notin> msg_in_use s \<and> msg_in_use s' = insert n (msg_in_use s) \<and>
      msg_uses s' = (msg_uses s)(n := 1)" if a: "msg_take t s = (res, s')"
  proof (cases "msg_free s")
    case Nil
    let ?n = "length (heap s)"
    have s': "res = Some ?n" "s' = s\<lparr>heap := heap s @ [InitMessage (new_CMessage (node_addr ?n) 0)]\<rparr>"
      using a Nil by (auto simp: msg_take_def msg_Alloc_def)
    have "msg_uses s' = (msg_uses s)(?n := 1)"
      by (rule ext) (simp add: msg_uses_def s'(2) nth_append InitMessage_def)
    then show ?thesis using i Nil s' by (auto simp: msg_pool_inv_def msg_in_use_def)
  next
    case (Cons x fr)
    have s': "res = Some x" "s' = s\<lparr>heap := (heap s)[x := InitMessage (heap s ! x)], msg_free := fr\<rparr>"
      using a Cons by (auto simp: msg_take_def msg_Alloc_def)
    have x: "x < length (heap s)" using i Cons by (simp add: msg_pool_inv_def)
    have "msg_uses s' = (msg_uses s)(x := 1)"
      by (rule ext) (simp add: msg_uses_def s'(2) x nth_list_update InitMessage_def)
    then show ?thesis using i Cons s' x by (auto simp: msg_pool_inv_def msg_in_use_def nth_list_update)
  qed
  show "n \<notin> msg_in_use s \<Longrightarrow> msg_uses s n = 0" using i by (auto simp: msg_pool_inv_def msg_in_use_def msg_uses_def)
  assume n: "n \<in> msg_in_use s"
  have "msg_uses (msg_put n k s) = (msg_uses s)(n := k)"
    using n by (intro ext) (simp add: msg_uses_def msg_put_def set_msg_def nth_list_update msg_in_use_def)
  then show "msg_pool_inv (msg_put n k s) \<and> msg_in_use (msg_put n k s) = msg_in_use s \<and>
      msg_uses (msg_put n k s) = (msg_uses s)(n := k)"
    using i n by (auto simp: msg_pool_inv_def msg_in_use_def msg_put_def set_msg_def nth_list_update)
  assume pos: "0 < msg_uses s n"
  let ?h = "(heap s)[n := (heap s ! n)\<lparr>msg_use := msg_use (heap s ! n) - 1\<rparr>]"
  have nl: "n < length (heap s)" "n \<notin> set (msg_free s)" "msg_uses s n = msg_use (heap s ! n)"
    using n by (auto simp: msg_in_use_def msg_uses_def)
  have r: "msg_Release n s = Some (if msg_uses s n = 1 then s\<lparr>heap := ?h, msg_free := n # msg_free s\<rparr> else s\<lparr>heap := ?h\<rparr>)"
    using nl pos by (auto simp: msg_Release_def)
  have "msg_uses (s\<lparr>heap := ?h\<rparr>) = (msg_uses s)(n := msg_uses s n - 1)"
    "msg_uses (s\<lparr>heap := ?h, msg_free := n # msg_free s\<rparr>) = (msg_uses s)(n := msg_uses s n - 1)"
    using nl by (auto simp: msg_uses_def nth_list_update intro!: ext)
  then show "\<exists>s'. msg_Release n s = Some s' \<and> msg_pool_inv s' \<and> msg_uses s' = (msg_uses s)(n := msg_uses s n - 1) \<and>
      msg_in_use s' = (if msg_uses s n = 1 then msg_in_use s - {n} else msg_in_use s)"
    using r i nl by (auto simp: msg_pool_inv_def msg_in_use_def nth_list_update)
qed

text \<open>A thread that ends leaves its pools to the manager.\<close>

lemma places_retire:
  assumes "places_ok k ps tls" "tls t = Some (a, r)" "mset qs = mset ps + {#a, r#}"
  shows "places_ok k qs (tls(t := None))"
proof (rule places_okI)
  note d = places_okD [OF assms(1)]
  have ar: "a \<noteq> r" "a < k" "r < k" "a \<notin> set ps" "r \<notin> set ps" using d(3) [OF assms(2)] by blast+
  have m: "mset qs = mset (a # r # ps)" using assms(3) by simp
  have qs: "set qs = insert a (insert r (set ps))" using mset_eq_setD [OF m] by simp
  have "distinct (a # r # ps)" using d(1) ar by simp
  then show "distinct qs" using m by (metis mset_eq_imp_distinct_iff)
  show "p < k" if "p \<in> set qs" for p using that ar d(2) [of p] by (auto simp: qs)
  show "b \<noteq> q \<and> b < k \<and> q < k \<and> b \<notin> set qs \<and> q \<notin> set qs" if "(tls(t := None)) u = Some (b, q)" for u b q
    using that d(3) [of u b q] d(4) [OF assms(2), of u b q] by (auto simp: qs split: if_splits)
  show "b \<noteq> e \<and> b \<noteq> g \<and> q \<noteq> e \<and> q \<noteq> g"
    if "(tls(t := None)) u = Some (b, q)" "(tls(t := None)) v = Some (e, g)" "v \<noteq> u" for u b q v e g
    using that d(4) [of u b q v e g] by (auto split: if_splits)
qed

lemma delete_stTlsObjectPool_ok:
  assumes "tls_ok cap s"
  shows "tls_ok cap (delete_stTlsObjectPool t s)" "tls_in_use (delete_stTlsObjectPool t s) = tls_in_use s"
proof -
  let ?s' = "delete_stTlsObjectPool t s"
  have k: "nodes ?s' = nodes s" "pool_at ?s' = pool_at s" "pools_made ?s' = pools_made s" "iUseCnt ?s' = iUseCnt s"
    "tlsPool_init_Capacity ?s' = tlsPool_init_Capacity s" "m_TotalCount ?s' = m_TotalCount s"
    by (auto simp: delete_stTlsObjectPool_def Let_def split: option.split)
  then show u: "tls_in_use ?s' = tls_in_use s" by (simp add: tls_in_use_def tls_linked_def)
  obtain fr where i: "tls_inv s fr" using assms by (auto simp: tls_ok_def)
  have rep: "tls_rep s fr" using i by (simp add: tls_inv_def)
  have "tls_rep ?s' fr" by (rule tls_rep_cong [OF rep k(1-3)])
  moreover have "tls_places ?s'"
  proof (cases "s_tls s t")
    case None
    then show ?thesis using i by (simp add: tls_inv_def delete_stTlsObjectPool_def)
  next
    case (Some ar)
    obtain a r where [simp]: "ar = (a, r)" by fastforce
    have tls': "s_tls ?s' = (s_tls s)(t := None)" "mset (fullPools ?s' @ emptyPools ?s') = mset (fullPools s @ emptyPools s) + {#a, r#}"
      using Some by (auto simp: delete_stTlsObjectPool_def Let_def)
    show ?thesis unfolding tls_places_def k(3) tls'(1)
      using i Some by (intro places_retire [OF _ _ tls'(2)]) (auto simp: tls_inv_def tls_places_def)
  qed
  moreover have "tls_full_ok ?s'" if "0 < cap"
  proof -
    have c: "tlsPool_init_Capacity s = cap" using assms by (simp add: tls_ok_def)
    have f: "tls_full_ok s" using i that c by (simp add: tls_inv_def)
    have "0 < m_size (pool_at s p)" if p: "p \<in> set (fullPools ?s')" for p
    proof -
      have "p \<in> set (fullPools s) \<or> m_size (pool_at s p) \<noteq> 0 \<or> m_size (pool_at s p) = int cap"
        using p c by (auto simp: delete_stTlsObjectPool_def Let_def split: option.splits if_splits)
      then show ?thesis using f \<open>0 < cap\<close> tls_repD(1) [OF rep, of p] by (auto simp: tls_full_ok_def pool_rep_def)
    qed
    then show ?thesis using f by (simp add: tls_full_ok_def k)
  qed
  ultimately have "tls_inv ?s' fr" using assms by (auto simp: tls_inv_def tls_ok_def k)
  then show "tls_ok cap ?s'" using assms u k(4,5) by (auto simp: tls_ok_def)
qed

section \<open>Properties\<close>

text \<open>
  C11: Whatever threads allocate messages, share them and give their uses back in whatever order,
  as long as each gives back only uses it holds, the pools of the threads and their manager never
  break into the debugger, hand out a node only when nobody holds it, keep exactly the nodes that
  are held out of the pools, and count exactly the uses that are held.
\<close>

theorem thread_pools_exclusive:
  assumes "pool_honest tls_Alloc tls_put tls_Release es (new_tls_pools cap) {#}"
  shows "\<exists>s held. pool_run tls_Alloc tls_put tls_Release es (new_tls_pools cap) {#} = Some (s, held) \<and>
    tls_in_use s = set_mset held \<and> (\<forall>n. iUseCnt s n = int (count held n)) \<and>
    (\<forall>t. \<exists>n s'. tls_Alloc t s = (Some n, s') \<and> n \<notin># held)"
proof -
  from tls.run_ok [OF new_tls_pools_held assms] obtain s held where
    r: "pool_run tls_Alloc tls_put tls_Release es (new_tls_pools cap) {#} = Some (s, held)" "tls.held_ok cap s held" by blast
  have "\<exists>n s'. tls_Alloc t s = (Some n, s') \<and> n \<notin># held" for t
    using tls.al_fresh [OF r(2), of t] by (cases "tls_Alloc t s") auto
  then show ?thesis using r by (auto simp: tls.held_ok_def)
qed

text \<open>
  In the same runs no pool is at two places: on one of the manager's stacks or with one thread
  for one purpose, so that the pools need no locks. With a capacity of at least one,
  \<^verbatim>\<open>m_TotalCount\<close> is the number of all nodes ever made: no allocation falls through to the
  uncounted \<^verbatim>\<open>new\<close> of an empty pool.
\<close>

theorem thread_pools_unshared:
  assumes "pool_honest tls_Alloc tls_put tls_Release es (new_tls_pools cap) {#}"
    "pool_run tls_Alloc tls_put tls_Release es (new_tls_pools cap) {#} = Some (s, held)"
  shows "distinct (fullPools s @ emptyPools s) \<and>
    (\<forall>t a r. s_tls s t = Some (a, r) \<longrightarrow>
       a \<noteq> r \<and> {a, r} \<inter> set (fullPools s @ emptyPools s) = {} \<and>
       (\<forall>u b q. u \<noteq> t \<longrightarrow> s_tls s u = Some (b, q) \<longrightarrow> {a, r} \<inter> {b, q} = {})) \<and>
    (0 < cap \<longrightarrow> m_TotalCount s = of_nat (made (nodes s)))"
proof -
  from tls.run_ok [OF new_tls_pools_held assms(1)] assms(2) have "tls_ok cap s" by (auto simp: tls.held_ok_def)
  then obtain fr where i: "tls_inv s fr" "tlsPool_init_Capacity s = cap" by (auto simp: tls_ok_def)
  then have pl: "places_ok (pools_made s) (fullPools s @ emptyPools s) (s_tls s)"
    and tot: "0 < cap \<Longrightarrow> m_TotalCount s = of_nat (made (nodes s))"
    by (simp_all add: tls_inv_def tls_places_def tls_full_ok_def)
  note d = places_okD [OF pl]
  show ?thesis
  proof (intro conjI allI impI)
    show "distinct (fullPools s @ emptyPools s)" by (rule d(1))
    fix t a r
    assume t: "s_tls s t = Some (a, r)"
    show "a \<noteq> r" "{a, r} \<inter> set (fullPools s @ emptyPools s) = {}" using d(3) [OF t] by blast+
    show "{a, r} \<inter> {b, q} = {}" if "u \<noteq> t" "s_tls s u = Some (b, q)" for u b q using d(4) [OF t that(2,1)] by blast
  qed (rule tot)
qed

definition sample_events :: "nat pool_event list" where
  "sample_events = [Take 0, Take 1, Spread 0 2, Give 1 0, Give 0 0, Give 1 1, Take 1]"

lemmas tls_eval = new_tls_pools_def tls_Alloc_def tls_Release_def tls_give_back_def tls_put_def tls_get_def tls_refill_def
  new_stTlsObjectPool_def new_ObjectPool_def Initalize_at_def add_TotalCount_def GetFullPool_def GetEmptyPool_def
  pool_Alloc_def pool_Release_def new_stNode_def new_CObjectPool_UnSafeMT_def Let_def

lemma sample_honest: "pool_honest tls_Alloc tls_put tls_Release sample_events (new_tls_pools 1) {#}"
  by (simp add: sample_events_def tls_eval numeral_2_eq_2)

lemma thread_pools_exclusive_witness:
  "\<exists>s held. pool_run tls_Alloc tls_put tls_Release sample_events (new_tls_pools 1) {#} = Some (s, held) \<and>
    tls_in_use s = set_mset held \<and> (\<forall>n. iUseCnt s n = int (count held n)) \<and>
    (\<forall>t. \<exists>n s'. tls_Alloc t s = (Some n, s') \<and> n \<notin># held)"
  by (rule thread_pools_exclusive [OF sample_honest])

lemma sample_run:
  "\<exists>s held. pool_run tls_Alloc tls_put tls_Release sample_events (new_tls_pools 1) {#} = Some (s, held)"
  using tls.run_ok [OF new_tls_pools_held sample_honest] by blast

lemma thread_pools_unshared_witness:
  "\<exists>s held. pool_run tls_Alloc tls_put tls_Release sample_events (new_tls_pools 1) {#} = Some (s, held) \<and>
    distinct (fullPools s @ emptyPools s) \<and> m_TotalCount s = of_nat (made (nodes s))"
  using sample_run thread_pools_unshared [OF sample_honest] by fastforce

end
