(* ===== verification/Threads.thy ===== *)
theory Threads
  imports Main
begin

text \<open>
  Threads that interleave are a list of program counters. An invariant over all threads is a sum of
  what each thread contributes; a step of thread \<open>i\<close> is seen with its counter taken out of the list,
  replaced by the idle one, which contributes nothing.
\<close>

definition sum_pcs :: "('p \<Rightarrow> 'b::comm_monoid_add) \<Rightarrow> 'p list \<Rightarrow> 'b" where
  "sum_pcs f ths = sum_list (map f ths)"

lemma sum_pcs_put: "i < length ths \<Longrightarrow> ths ! i = z \<Longrightarrow> f z = 0 \<Longrightarrow> sum_pcs f (ths[i := pc]) = f pc + sum_pcs f ths"
  unfolding sum_pcs_def
proof (induction ths arbitrary: i)
  case (Cons a ths)
  then show ?case by (cases i) (auto simp: add.left_commute)
qed simp

lemma set_put:
  assumes "i < length ths" "ths ! i = z"
  shows "insert z (set (ths[i := pc])) = insert pc (set ths)"
proof -
  have "z \<in> set ths" using assms by (metis nth_mem)
  moreover have "set ths \<subseteq> insert z (set (ths[i := pc]))"
  proof
    fix x assume "x \<in> set ths"
    then obtain j where j: "j < length ths" "x = ths ! j" by (auto simp: in_set_conv_nth)
    then show "x \<in> insert z (set (ths[i := pc]))"
      using assms(2) nth_mem [of j "ths[i := pc]"] by (cases "j = i") auto
  qed
  ultimately show ?thesis using set_update_memI [OF assms(1), of pc] set_update_subset_insert [of ths i pc] by blast
qed

lemma sum_pcs_idle: "f z = 0 \<Longrightarrow> \<forall>p \<in> set ths. p = z \<Longrightarrow> sum_pcs f ths = 0"
  unfolding sum_pcs_def by (induction ths) auto

lemma member_sum_pcs_nat:
  fixes f :: "'p \<Rightarrow> nat"
  assumes "p \<in> set ths"
  shows "f p \<le> sum_pcs f ths"
  using assms unfolding sum_pcs_def by (induction ths) auto

text \<open>The counters of all threads but one.\<close>

lemma others_put:
  assumes "i < length ths"
  shows "ths = (ths[i := z])[i := ths ! i]" "i < length (ths[i := z])" "(ths[i := z]) ! i = z"
  using assms by simp_all

end
