(* ===== verification/LockFree.thy ===== *)
theory LockFree
  imports Prelude Threads "HOL-Library.Multiset"
begin

text \<open>
  The lock-free containers: the node pool \<^verbatim>\<open>CObjectPool\<close> (\<^verbatim>\<open>utility/CLockFreeMemoryPool\<close>) and the
  stack \<^verbatim>\<open>CLockFreeStack\<close>. Memory is three functions from 64-bit addresses: the field \<^verbatim>\<open>data\<close>, the
  word behind it, and the field behind that. The stack declares its nodes as \<^verbatim>\<open>data\<close> and \<^verbatim>\<open>next\<close>
  and takes them from a pool that declares them as \<^verbatim>\<open>data\<close>, \<^verbatim>\<open>seqAddr\<close> and \<^verbatim>\<open>next\<close>: for the 8-byte
  elements both servers use, \<^verbatim>\<open>next\<close> of the stack is \<^verbatim>\<open>seqAddr\<close> of the pool. A pointer of the stack
  carries a sequence number above its 47 address bits.
\<close>

section \<open>Tagged pointers\<close>

definition ADDR_MASK :: u64 where "ADDR_MASK = 0x00007FFFFFFFFFFF"

definition ptr_of :: "u64 \<Rightarrow> u64" where "ptr_of w = w AND ADDR_MASK"

definition seq_of :: "u64 \<Rightarrow> u64" where "seq_of w = drop_bit 47 w"

definition tagged :: "u64 \<Rightarrow> u64 \<Rightarrow> u64" where "tagged a sq = a OR push_bit 47 sq"

lemma mask47: "ADDR_MASK = mask 47"
  by (simp add: ADDR_MASK_def mask_eq_exp_minus_1)

lemma take_bit_small: "unat w < 2 ^ n \<Longrightarrow> take_bit n (w :: u64) = w"
  by (simp add: word_unat_eq_iff unsigned_take_bit_eq take_bit_nat_eq_self)

text \<open>An address of user space has 47 bits.\<close>

definition user_addr :: "u64 \<Rightarrow> bool" where "user_addr a \<longleftrightarrow> take_bit 47 a = a"

lemma ptr_of_take_bit: "ptr_of w = take_bit 47 w"
  by (simp add: ptr_of_def mask47 take_bit_eq_mask)

lemma ptr_of_user [simp]: "user_addr a \<Longrightarrow> ptr_of a = a"
  by (simp add: user_addr_def ptr_of_take_bit)

lemma user_addr_bit: "user_addr a \<Longrightarrow> bit a n \<Longrightarrow> n < 47"
  unfolding user_addr_def by (metis bit_take_bit_iff)

lemma seq_of_user [simp]: "user_addr a \<Longrightarrow> seq_of a = 0"
  by (rule bit_word_eqI) (auto simp: seq_of_def bit_simps dest: user_addr_bit)

lemma ptr_of_tagged [simp]: "user_addr a \<Longrightarrow> ptr_of (tagged a q) = a"
  by (rule bit_word_eqI) (auto simp: ptr_of_take_bit tagged_def bit_simps dest: user_addr_bit)

lemma seq_of_tagged:
  assumes "user_addr a" "unat q < 2 ^ 17"
  shows "seq_of (tagged a q) = q"
proof -
  have q: "take_bit 17 q = q" by (rule take_bit_small [OF assms(2)])
  have "bit q n \<Longrightarrow> n < 17" for n using q by (metis bit_take_bit_iff)
  then show ?thesis
    by (intro bit_word_eqI) (auto simp: seq_of_def tagged_def bit_simps dest: user_addr_bit [OF assms(1)])
qed

lemma user_addr_0: "user_addr 0"
  by (simp add: user_addr_def)

text \<open>The address of the node that the \<open>k\<close>-th \<^verbatim>\<open>new\<close> of a pool returns.\<close>

definition lf_addr :: "nat \<Rightarrow> u64" where "lf_addr k = of_nat (64 * (k + 2))"

lemma lf_addr_unat: "k < 2 ^ 40 \<Longrightarrow> unat (lf_addr k) = 64 * (k + 2)"
  by (simp add: lf_addr_def unat_of_nat del: of_nat_mult of_nat_add)

lemma lf_addr_user: "k < 2 ^ 40 \<Longrightarrow> user_addr (lf_addr k)"
proof -
  assume k: "k < 2 ^ 40"
  have "unat (lf_addr k) < 2 ^ 47" using k by (simp add: lf_addr_unat)
  then show ?thesis by (simp add: user_addr_def take_bit_small)
qed

lemma lf_addr_inj: "j < 2 ^ 40 \<Longrightarrow> k < 2 ^ 40 \<Longrightarrow> lf_addr j = lf_addr k \<longleftrightarrow> j = k"
  using lf_addr_unat [of j] lf_addr_unat [of k] by (metis add_right_cancel mult_cancel1 numeral_neq_zero)

section \<open>The pool\<close>

text \<open>
  \<^verbatim>\<open>_top\<close> points to \<^verbatim>\<open>head.seqAddr\<close>: address, 8 bits of a sequence number of the container, 9 bits of
  the running number of the pool. The list of free nodes goes through the third field.
\<close>

record 'a lf_pool =
  node_data :: "u64 \<Rightarrow> 'a"
  seqAddr :: "u64 \<Rightarrow> u64"
  pool_next :: "u64 \<Rightarrow> u64"
  poolidx :: u64
  iNodeCnt :: nat

definition pool_head :: u64 where "pool_head = 64"

definition seqNumber1 :: "u64 \<Rightarrow> u64" where "seqNumber1 w = take_bit 8 (drop_bit 47 w)"

definition stSeqAddr :: "u64 \<Rightarrow> u64 \<Rightarrow> u64 \<Rightarrow> u64" where
  "stSeqAddr a s1 s2 = take_bit 47 a OR push_bit 47 (take_bit 8 s1) OR push_bit 55 (take_bit 9 s2)"

definition new_CObjectPool :: "(u64 \<Rightarrow> 'a) \<Rightarrow> 'a lf_pool" where
  "new_CObjectPool junk =
     \<lparr>node_data = junk, seqAddr = (\<lambda>_. 0)(pool_head := stSeqAddr pool_head 0 0),
      pool_next = (\<lambda>_. 0)(pool_head := pool_head), poolidx = - 1, iNodeCnt = 0\<rparr>"

text \<open>\<^verbatim>\<open>Alloc\<close> and \<^verbatim>\<open>Release\<close> of a thread whose exchange succeeds.\<close>

definition CObjectPool_Alloc :: "('a, 'b) lf_pool_scheme \<Rightarrow> u64 \<times> ('a, 'b) lf_pool_scheme" where
  "CObjectPool_Alloc s =
     (let pid = poolidx s + 1;
          s1 = s\<lparr>poolidx := pid\<rparr>;
          oldTop = ptr_of (seqAddr s1 pool_head)
      in if oldTop = pool_head
         then let newNode = lf_addr (iNodeCnt s1)
              in (newNode, s1\<lparr>seqAddr := (seqAddr s1)(newNode := stSeqAddr newNode 0 pid),
                            pool_next := (pool_next s1)(newNode := 0), iNodeCnt := Suc (iNodeCnt s1)\<rparr>)
         else let newTop = pool_next s1 oldTop
              in (oldTop, s1\<lparr>seqAddr := (seqAddr s1)(pool_head := stSeqAddr newTop (seqNumber1 (seqAddr s1 newTop)) pid)\<rparr>))"

definition CObjectPool_Release :: "u64 \<Rightarrow> ('a, 'b) lf_pool_scheme \<Rightarrow> ('a, 'b) lf_pool_scheme" where
  "CObjectPool_Release newTop s =
     (let pid = poolidx s + 1;
          s1 = s\<lparr>poolidx := pid\<rparr>;
          oldTop = ptr_of (seqAddr s1 pool_head)
      in s1\<lparr>pool_next := (pool_next s1)(newTop := oldTop),
            seqAddr := (seqAddr s1)(pool_head := stSeqAddr newTop (seqNumber1 (seqAddr s1 newTop)) pid)\<rparr>)"

text \<open>The free nodes, from the top: a list linked by \<open>nx\<close> that ends at \<open>e\<close>.\<close>

fun linked :: "(u64 \<Rightarrow> u64) \<Rightarrow> u64 \<Rightarrow> u64 \<Rightarrow> u64 list \<Rightarrow> bool" where
  "linked nx e t [] \<longleftrightarrow> t = e"
| "linked nx e t (x # xs) \<longleftrightarrow> t = x \<and> x \<noteq> e \<and> linked nx e (nx x) xs"

lemma linked_other: "n \<notin> set xs \<Longrightarrow> linked (nx(n := v)) e t xs = linked nx e t xs"
  by (induction xs arbitrary: t) auto

lemma stSeqAddr_ptr: "user_addr a \<Longrightarrow> ptr_of (stSeqAddr a s1 s2) = a"
  by (rule bit_word_eqI) (auto simp: ptr_of_take_bit stSeqAddr_def bit_simps dest: user_addr_bit)

lemma pool_head_user: "user_addr pool_head"
  by (simp add: user_addr_def pool_head_def take_bit_small)

lemma lf_addr_not_head: "k < 2 ^ 40 \<Longrightarrow> lf_addr k \<noteq> pool_head"
proof
  assume k: "k < 2 ^ 40" and "lf_addr k = pool_head"
  then have "64 * (k + 2) = unat pool_head" using lf_addr_unat [OF k] by simp
  then show False by (simp add: pool_head_def)
qed

definition pool_free :: "('a, 'b) lf_pool_scheme \<Rightarrow> u64 list \<Rightarrow> bool" where
  "pool_free s fr \<longleftrightarrow>
     linked (pool_next s) pool_head (ptr_of (seqAddr s pool_head)) fr \<and> distinct fr \<and>
     set fr \<subseteq> lf_addr ` {..<iNodeCnt s}"

lemma new_CObjectPool_free: "pool_free (new_CObjectPool junk) []"
  by (simp add: pool_free_def new_CObjectPool_def stSeqAddr_ptr pool_head_user)

lemma CObjectPool_Alloc_free:
  assumes "pool_free s fr" "iNodeCnt s < 2 ^ 40" "CObjectPool_Alloc s = (n, s')"
  shows "(case fr of [] \<Rightarrow> n = lf_addr (iNodeCnt s) \<and> iNodeCnt s' = Suc (iNodeCnt s) \<and> pool_free s' []
          | x # xs \<Rightarrow> n = x \<and> iNodeCnt s' = iNodeCnt s \<and> pool_free s' xs) \<and>
    (\<forall>a. a \<noteq> pool_head \<longrightarrow> a \<noteq> n \<longrightarrow> seqAddr s' a = seqAddr s a) \<and> node_data s' = node_data s"
proof (cases fr)
  case Nil
  then have "ptr_of (seqAddr s pool_head) = pool_head" using assms(1) by (simp add: pool_free_def)
  then show ?thesis using assms lf_addr_not_head [OF assms(2)] Nil
    by (auto simp: CObjectPool_Alloc_def Let_def pool_free_def)
next
  case (Cons x xs)
  have sub: "set fr \<subseteq> lf_addr ` {..<iNodeCnt s}" and l: "ptr_of (seqAddr s pool_head) = x" "x \<noteq> pool_head"
    "linked (pool_next s) pool_head (pool_next s x) xs" "distinct fr"
    using assms(1) Cons by (auto simp: pool_free_def)
  have u: "user_addr (pool_next s x)"
  proof (cases xs)
    case Nil
    then show ?thesis using l(3) pool_head_user by simp
  next
    case (Cons y ys)
    then have "y \<in> lf_addr ` {..<iNodeCnt s}" using sub \<open>fr = x # xs\<close> by auto
    then show ?thesis using l(3) Cons assms(2) lf_addr_user by auto
  qed
  then show ?thesis using assms(3) l sub Cons by (auto simp: CObjectPool_Alloc_def Let_def pool_free_def stSeqAddr_ptr)
qed

lemma CObjectPool_Release_free:
  assumes "pool_free s fr" "iNodeCnt s < 2 ^ 40" "n \<in> lf_addr ` {..<iNodeCnt s}" "n \<notin> set fr"
  shows "pool_free (CObjectPool_Release n s) (n # fr)" "iNodeCnt (CObjectPool_Release n s) = iNodeCnt s"
    "a \<noteq> pool_head \<Longrightarrow> seqAddr (CObjectPool_Release n s) a = seqAddr s a"
    "node_data (CObjectPool_Release n s) = node_data s"
proof -
  from assms(2,3) obtain k where k: "n = lf_addr k" "k < 2 ^ 40" by auto
  then have "user_addr n" "n \<noteq> pool_head" by (simp_all add: lf_addr_user lf_addr_not_head)
  then show "pool_free (CObjectPool_Release n s) (n # fr)" using assms
    by (auto simp: CObjectPool_Release_def Let_def pool_free_def stSeqAddr_ptr linked_other)
qed (simp_all add: CObjectPool_Release_def Let_def)

section \<open>The stack\<close>

text \<open>
  The threads interleave at every access to shared memory. \<open>lf_pc\<close> is where a thread stands in
  \<^verbatim>\<open>Push\<close> or \<^verbatim>\<open>Pop\<close>, with its local variables: before taking its sequence number, before reading
  \<^verbatim>\<open>m_top\<close>, before writing \<^verbatim>\<open>next\<close>, before the exchange, before counting; the number returned by
  the pool is an address, and \<^verbatim>\<open>outData\<close> is unset until the loop has read an element. The calls of
  the pool are single steps, and the debug records are left out.
\<close>

datatype 'a lf_pc =
    Idle
  | PushSeq u64
  | PushRead u64
  | PushNext u64 u64
  | PushCas u64 u64
  | PushCount
  | PopMiss
  | PopRead "'a option"
  | PopNext u64 "'a option"
  | PopData u64 u64
  | PopCas u64 u64 "'a option"
  | PopFree u64 "'a option"

record 'a lf_stack = "'a lf_pool" +
  m_top :: u64
  dummy :: u64
  m_seqNumber :: u64
  m_size :: int
  threads :: "'a lf_pc list"

datatype 'a lf_call = CallPush 'a | CallPop

datatype 'a lf_event = Pushed 'a | Popped "'a option" | Missed

definition new_CLockFreeStack :: "(u64 \<Rightarrow> 'a) \<Rightarrow> nat \<Rightarrow> 'a lf_stack" where
  "new_CLockFreeStack junk n =
     (let (d, p) = CObjectPool_Alloc (new_CObjectPool junk)
      in lf_pool.extend p (lf_stack.fields d d 0 0 (replicate n Idle)))"

definition set_pc :: "nat \<Rightarrow> 'a lf_pc \<Rightarrow> 'a lf_stack \<Rightarrow> 'a lf_stack" where
  "set_pc i pc s = s\<lparr>threads := (threads s)[i := pc]\<rparr>"

definition Push_begin :: "nat \<Rightarrow> 'a \<Rightarrow> 'a lf_stack \<Rightarrow> 'a lf_stack" where
  "Push_begin i x s =
     (let (n, s1) = CObjectPool_Alloc s
      in set_pc i (PushSeq n) (s1\<lparr>node_data := (node_data s1)(n := x)\<rparr>))"

definition Pop_begin :: "nat \<Rightarrow> 'a lf_stack \<Rightarrow> 'a lf_stack \<times> 'a lf_event option" where
  "Pop_begin i s =
     (let s1 = s\<lparr>m_size := m_size s - 1\<rparr>
      in if m_size s1 < 0 then (set_pc i PopMiss s1, Some Missed) else (set_pc i (PopRead None) s1, None))"

definition Push_step :: "nat \<Rightarrow> 'a lf_stack \<Rightarrow> 'a lf_stack \<times> 'a lf_event option" where
  "Push_step i s =
     (case threads s ! i of
        PushSeq n \<Rightarrow>
          (let q = m_seqNumber s + 1 in (set_pc i (PushRead (tagged n q)) (s\<lparr>m_seqNumber := q\<rparr>), None))
      | PushRead w \<Rightarrow> (set_pc i (PushNext w (m_top s)) s, None)
      | PushNext w oldTop \<Rightarrow>
          (set_pc i (PushCas w oldTop) (s\<lparr>seqAddr := (seqAddr s)(ptr_of w := oldTop)\<rparr>), None)
      | PushCas w oldTop \<Rightarrow>
          (if m_top s = oldTop
           then (set_pc i PushCount (s\<lparr>m_top := w\<rparr>), Some (Pushed (node_data s (ptr_of w))))
           else (set_pc i (PushRead w) s, None))
      | PushCount \<Rightarrow> (set_pc i Idle (s\<lparr>m_size := m_size s + 1\<rparr>), None)
      | _ \<Rightarrow> (s, None))"

definition Pop_step :: "nat \<Rightarrow> 'a lf_stack \<Rightarrow> 'a lf_stack \<times> 'a lf_event option" where
  "Pop_step i s =
     (case threads s ! i of
        PopMiss \<Rightarrow> (set_pc i Idle (s\<lparr>m_size := m_size s + 1\<rparr>), None)
      | PopRead out \<Rightarrow>
          (let oldTop = m_top s
           in (set_pc i (if oldTop = dummy s then PopCas oldTop oldTop out else PopNext oldTop out) s, None))
      | PopNext oldTop out \<Rightarrow> (set_pc i (PopData oldTop (seqAddr s (ptr_of oldTop))) s, None)
      | PopData oldTop newTop \<Rightarrow>
          (set_pc i (PopCas oldTop newTop (Some (node_data s (ptr_of oldTop)))) s, None)
      | PopCas oldTop newTop out \<Rightarrow>
          (if m_top s = oldTop
           then (set_pc i (PopFree (ptr_of oldTop) out) (s\<lparr>m_top := newTop\<rparr>), Some (Popped out))
           else (set_pc i (PopRead out) s, None))
      | PopFree n out \<Rightarrow> (set_pc i Idle (CObjectPool_Release n s), None)
      | _ \<Rightarrow> (s, None))"

definition lf_step :: "nat \<Rightarrow> 'a lf_call \<Rightarrow> 'a lf_stack \<Rightarrow> 'a lf_stack \<times> 'a lf_event option" where
  "lf_step i call s =
     (case threads s ! i of
        Idle \<Rightarrow> (case call of CallPush x \<Rightarrow> (Push_begin i x s, None) | CallPop \<Rightarrow> Pop_begin i s)
      | PushSeq _ \<Rightarrow> Push_step i s
      | PushRead _ \<Rightarrow> Push_step i s
      | PushNext _ _ \<Rightarrow> Push_step i s
      | PushCas _ _ \<Rightarrow> Push_step i s
      | PushCount \<Rightarrow> Push_step i s
      | _ \<Rightarrow> Pop_step i s)"

text \<open>A schedule says which thread moves, and what it calls if it is idle.\<close>

fun lf_run :: "(nat \<times> 'a lf_call) list \<Rightarrow> 'a lf_stack \<Rightarrow> 'a lf_stack \<times> 'a lf_event list" where
  "lf_run [] s = (s, [])"
| "lf_run ((i, call) # sched) s =
     (if length (threads s) \<le> i then lf_run sched s
      else let (s1, ev) = lf_step i call s; (s2, evs) = lf_run sched s1
           in (s2, (case ev of None \<Rightarrow> evs | Some e \<Rightarrow> e # evs)))"

text \<open>The specification: a list, changed at the successful exchanges.\<close>

fun replay :: "'a lf_event list \<Rightarrow> 'a list \<Rightarrow> 'a list option" where
  "replay [] xs = Some xs"
| "replay (Pushed x # es) xs = replay es (x # xs)"
| "replay (Popped out # es) xs = (case xs of [] \<Rightarrow> None | y # ys \<Rightarrow> if out = Some y then replay es ys else None)"
| "replay (Missed # es) xs = replay es xs"

subsection \<open>The invariant\<close>

text \<open>
  \<open>ts\<close> are the tagged pointers on the stack. Every node is at one place: the dummy, the free list,
  the stack, or owned by the thread that is pushing it or giving it back.
\<close>

fun owned :: "'a lf_pc \<Rightarrow> u64 multiset" where
  "owned (PushSeq n) = {#n#}"
| "owned (PushRead w) = {#ptr_of w#}"
| "owned (PushNext w _) = {#ptr_of w#}"
| "owned (PushCas w _) = {#ptr_of w#}"
| "owned (PopFree n _) = {#n#}"
| "owned _ = {#}"

fun pend :: "'a lf_pc \<Rightarrow> u64 set" where
  "pend (PushRead w) = {w}"
| "pend (PushNext w _) = {w}"
| "pend (PushCas w _) = {w}"
| "pend _ = {}"

fun reserved :: "'a lf_pc \<Rightarrow> int" where
  "reserved (PopRead _) = 1"
| "reserved (PopNext _ _) = 1"
| "reserved (PopData _ _) = 1"
| "reserved (PopCas _ _ _) = 1"
| "reserved _ = 0"

fun weight :: "'a lf_pc \<Rightarrow> int" where
  "weight PushCount = 1"
| "weight PopMiss = 1"
| "weight pc = reserved pc"

fun unnumbered :: "'a lf_pc \<Rightarrow> nat" where
  "unnumbered (PushSeq _) = 1"
| "unnumbered _ = 0"

definition stamped :: "'a lf_stack \<Rightarrow> u64 \<Rightarrow> bool" where
  "stamped s w \<longleftrightarrow> 0 < seq_of w \<and> seq_of w \<le> m_seqNumber s"

definition seen :: "'a lf_stack \<Rightarrow> u64 set \<Rightarrow> u64 \<Rightarrow> bool" where
  "seen s P w \<longleftrightarrow> w \<noteq> dummy s \<and> seq_of w \<le> m_seqNumber s \<and> w \<notin> P"

fun pc_ok :: "'a lf_stack \<Rightarrow> u64 list \<Rightarrow> u64 set \<Rightarrow> 'a lf_pc \<Rightarrow> bool" where
  "pc_ok s ts P (PushRead w) \<longleftrightarrow> stamped s w"
| "pc_ok s ts P (PushNext w _) \<longleftrightarrow> stamped s w"
| "pc_ok s ts P (PushCas w oldTop) \<longleftrightarrow> stamped s w \<and> seqAddr s (ptr_of w) = oldTop"
| "pc_ok s ts P (PopNext oldTop _) \<longleftrightarrow> seen s P oldTop"
| "pc_ok s ts P (PopData oldTop newTop) \<longleftrightarrow>
     seen s P oldTop \<and> (oldTop \<in> set ts \<longrightarrow> newTop = seqAddr s (ptr_of oldTop))"
| "pc_ok s ts P (PopCas oldTop newTop out) \<longleftrightarrow>
     seen s P oldTop \<and>
     (oldTop \<in> set ts \<longrightarrow> newTop = seqAddr s (ptr_of oldTop) \<and> out = Some (node_data s (ptr_of oldTop)))"
| "pc_ok s ts P _ \<longleftrightarrow> True"

definition once :: "u64 multiset \<Rightarrow> nat \<Rightarrow> bool" where
  "once M c \<longleftrightarrow> (\<forall>x. count M x \<le> 1) \<and> set_mset M \<subseteq> lf_addr ` {..<c}"

definition places :: "'a lf_stack \<Rightarrow> u64 list \<Rightarrow> u64 list \<Rightarrow> u64 multiset" where
  "places s fr ts = add_mset (dummy s) (mset fr + image_mset ptr_of (mset ts))"

text \<open>The invariant, with the state of thread \<open>i\<close> apart from the others.\<close>

definition lf_inv_at ::
  "nat \<Rightarrow> 'a lf_stack \<Rightarrow> u64 list \<Rightarrow> u64 list \<Rightarrow> 'a lf_pc \<Rightarrow> 'a lf_pc list \<Rightarrow> bool" where
  "lf_inv_at k s fr ts pc others \<longleftrightarrow>
     pool_free s fr \<and> linked (\<lambda>w. seqAddr s (ptr_of w)) (dummy s) (m_top s) ts \<and>
     once (places s fr ts + owned pc + sum_pcs owned others) (iNodeCnt s) \<and>
     (\<forall>w \<in> set ts. stamped s w) \<and>
     (\<forall>p \<in> insert pc (set others). pc_ok s ts (pend pc \<union> \<Union> (pend ` set others)) p) \<and>
     m_size s + weight pc + sum_pcs weight others = int (length ts) \<and>
     reserved pc + sum_pcs reserved others \<le> int (length ts) \<and>
     unat (m_seqNumber s) + unnumbered pc + sum_pcs unnumbered others \<le> k \<and> iNodeCnt s \<le> Suc k"

definition lf_inv :: "nat \<Rightarrow> 'a lf_stack \<Rightarrow> u64 list \<Rightarrow> u64 list \<Rightarrow> bool" where
  "lf_inv k s fr ts \<longleftrightarrow> lf_inv_at k s fr ts Idle (threads s)"

lemma lf_inv_put:
  assumes "threads s = ths[i := pc]" "i < length ths" "ths ! i = Idle"
  shows "lf_inv k s fr ts \<longleftrightarrow> lf_inv_at k s fr ts pc ths"
proof -
  have p: "\<Union> (pend ` set (ths[i := pc])) = pend pc \<union> \<Union> (pend ` set ths)"
    using arg_cong [OF set_put [OF assms(2,3), of pc], of "\<lambda>A. \<Union> (pend ` A)"] by simp
  note t = sum_pcs_put [OF assms(2,3)]
  show ?thesis
    unfolding lf_inv_def lf_inv_at_def assms(1) p set_put [OF assms(2,3)]
    by (simp add: t add.assoc)
qed

lemma lf_inv_at_set_pc [simp]: "lf_inv_at k (set_pc i p s) fr ts pc ths = lf_inv_at k s fr ts pc ths"
proof -
  have "pc_ok (set_pc i p s) ts P q = pc_ok s ts P q" for P q
    by (cases q) (simp_all add: stamped_def seen_def set_pc_def)
  then show ?thesis by (simp add: lf_inv_at_def pool_free_def places_def stamped_def set_pc_def)
qed

lemma once_split: "once (A + B) c \<Longrightarrow> x \<in># A \<Longrightarrow> x \<notin># B"
proof
  assume "once (A + B) c" "x \<in># A" "x \<in># B"
  then have "count A x + count B x \<le> 1" "0 < count A x" "0 < count B x" by (auto simp: once_def)
  then show False by linarith
qed

text \<open>The pool gives out a node that is at no other place.\<close>

lemma CObjectPool_Alloc_once:
  assumes "pool_free s fr" "iNodeCnt s < 2 ^ 40" "once (mset fr + M) (iNodeCnt s)" "CObjectPool_Alloc s = (n, s1)"
  shows "\<exists>fr'. pool_free s1 fr' \<and> iNodeCnt s1 \<le> Suc (iNodeCnt s) \<and> once (add_mset n (mset fr' + M)) (iNodeCnt s1) \<and>
    n \<notin># mset fr' + M \<and> (\<forall>a. a \<noteq> pool_head \<longrightarrow> a \<noteq> n \<longrightarrow> seqAddr s1 a = seqAddr s a) \<and> node_data s1 = node_data s"
proof -
  define c where "c = iNodeCnt s"
  obtain fr' c' where fr': "pool_free s1 fr'" "iNodeCnt s1 = c'" "c' \<le> Suc c"
    "add_mset n (mset fr') = mset fr \<and> c' = c \<or> mset fr' = mset fr \<and> n = lf_addr c \<and> c' = Suc c"
    and sa: "\<forall>a. a \<noteq> pool_head \<longrightarrow> a \<noteq> n \<longrightarrow> seqAddr s1 a = seqAddr s a" and nd: "node_data s1 = node_data s"
    using CObjectPool_Alloc_free [OF assms(1,2,4)] by (cases fr) (auto simp: c_def)
  have M: "once (mset fr + M) c" using assms(3) by (simp add: c_def)
  have "lf_addr c \<notin># mset fr + M"
  proof
    assume "lf_addr c \<in># mset fr + M"
    then obtain j where "lf_addr c = lf_addr j" "j < c" using M unfolding once_def by blast
    then show False using lf_addr_inj [of c j] assms(2) by (simp add: c_def)
  qed
  then have fresh: "count (mset fr + M) (lf_addr c) = 0" by (simp only: not_in_iff)
  have M': "once (add_mset n (mset fr' + M)) c'"
    using fr'(4)
  proof (elim disjE conjE)
    assume "add_mset n (mset fr') = mset fr" "c' = c"
    then show ?thesis using M by (simp flip: \<open>add_mset n (mset fr') = mset fr\<close>)
  next
    assume e: "mset fr' = mset fr" "n = lf_addr c" "c' = Suc c"
    have "count (add_mset n (mset fr + M)) y \<le> 1" for y
      using M fresh e(2) unfolding once_def by (cases "y = n") auto
    then show ?thesis using M e by (auto simp: once_def)
  qed
  then have "once ({#n#} + (mset fr' + M)) c'" by simp
  then have "n \<notin># mset fr' + M" by (rule once_split) simp
  then show ?thesis using fr'(1-3) M' sa nd by (auto simp: c_def)
qed

lemma pend_owned: "w \<in> pend pc \<Longrightarrow> ptr_of w \<in># owned pc"
  by (cases pc) auto

lemma member_sum_pcs:
  assumes "p \<in> set ths" "a \<in># owned p"
  shows "a \<in># sum_pcs owned ths"
  using assms unfolding sum_pcs_def by (induction ths) auto

lemma reserved_nonneg: "0 \<le> sum_pcs reserved ths"
proof -
  have "0 \<le> reserved p" for p :: "'a lf_pc" by (cases p) auto
  then show ?thesis unfolding sum_pcs_def by (induction ths) auto
qed

lemma weight_ge: "reserved p \<le> weight p"
  by (cases p) auto

lemma weight_ge_reserved: "sum_pcs reserved ths \<le> sum_pcs weight ths"
  unfolding sum_pcs_def by (induction ths) (auto intro: add_mono weight_ge)

lemma lf_facts:
  assumes "lf_inv_at k s fr ts pc ths"
  shows "w \<in> set ts \<Longrightarrow> ptr_of w \<notin># owned pc" "w \<in> set ts \<Longrightarrow> ptr_of w \<notin># sum_pcs owned ths"
    "w \<in> set ts \<Longrightarrow> ptr_of w \<notin> set fr" "a \<in># owned pc \<Longrightarrow> a \<notin># sum_pcs owned ths"
    "a \<in># owned pc \<Longrightarrow> a \<notin> set fr" "a \<in> set fr \<Longrightarrow> a \<notin># sum_pcs owned ths"
    "w \<in> set ts \<or> ptr_of w \<in># owned pc \<Longrightarrow> ptr_of w \<in> lf_addr ` {..<iNodeCnt s}"
    "a \<in># owned pc \<Longrightarrow> a \<in> lf_addr ` {..<iNodeCnt s}" "a \<in># sum_pcs owned ths \<Longrightarrow> a \<in> lf_addr ` {..<iNodeCnt s}"
    "w \<in> set ts \<Longrightarrow> w \<in> pend p \<Longrightarrow> p \<in> insert pc (set ths) \<Longrightarrow> False"
    "distinct (map ptr_of ts)" "pool_free s fr"
proof -
  let ?M = "places s fr ts + owned pc + sum_pcs owned ths"
  have o: "once ?M (iNodeCnt s)" and "pool_free s fr" using assms by (auto simp: lf_inv_at_def)
  then show "pool_free s fr" by simp
  have o1: "once (places s fr ts + (owned pc + sum_pcs owned ths)) (iNodeCnt s)" using o by (simp add: add.assoc)
  have o2: "once ((places s fr ts + owned pc) + sum_pcs owned ths) (iNodeCnt s)" using o by simp
  have o3: "once (mset fr + (add_mset (dummy s) (image_mset ptr_of (mset ts)) + owned pc + sum_pcs owned ths)) (iNodeCnt s)"
    using o by (simp add: places_def add_ac)
  show t: "ptr_of w \<notin># owned pc" "ptr_of w \<notin># sum_pcs owned ths" if "w \<in> set ts" for w
    using once_split [OF o1, of "ptr_of w"] that by (auto simp: places_def)
  show "ptr_of w \<notin> set fr" if "w \<in> set ts" using once_split [OF o3, of "ptr_of w"] that by auto
  show "a \<in># owned pc \<Longrightarrow> a \<notin># sum_pcs owned ths" using once_split [OF o2, of a] by auto
  show "a \<in># owned pc \<Longrightarrow> a \<notin> set fr" "a \<in> set fr \<Longrightarrow> a \<notin># sum_pcs owned ths" using once_split [OF o3, of a] by auto
  have sub: "set_mset ?M \<subseteq> lf_addr ` {..<iNodeCnt s}" using o by (simp add: once_def)
  then show "w \<in> set ts \<or> ptr_of w \<in># owned pc \<Longrightarrow> ptr_of w \<in> lf_addr ` {..<iNodeCnt s}"
    "a \<in># owned pc \<Longrightarrow> a \<in> lf_addr ` {..<iNodeCnt s}" "a \<in># sum_pcs owned ths \<Longrightarrow> a \<in> lf_addr ` {..<iNodeCnt s}"
    unfolding places_def by (auto simp: subset_iff)
  show False if "w \<in> set ts" "w \<in> pend p" "p \<in> insert pc (set ths)"
    using t [OF that(1)] pend_owned [OF that(2)] that(3) member_sum_pcs by blast
  have "count (mset (map ptr_of ts)) x \<le> 1" for x
  proof -
    have "count (mset (map ptr_of ts)) x \<le> count ?M x" by (simp add: places_def)
    then show ?thesis using o unfolding once_def by (meson le_trans)
  qed
  then show "distinct (map ptr_of ts)" by (metis distinct_count_atmost_1 One_nat_def count_mset_0_iff le_SucE le_zero_eq)
qed

lemma lf_facts_dummy:
  assumes "lf_inv_at k s fr ts pc ths"
  shows "dummy s \<in> lf_addr ` {..<iNodeCnt s}" "dummy s \<notin># owned pc" "dummy s \<notin># sum_pcs owned ths"
    "dummy s \<notin> set fr" "w \<in> set ts \<Longrightarrow> ptr_of w \<noteq> dummy s"
proof -
  let ?R = "mset fr + image_mset ptr_of (mset ts) + owned pc + sum_pcs owned ths"
  have o: "once ({#dummy s#} + ?R) (iNodeCnt s)" using assms by (simp add: lf_inv_at_def places_def)
  then show "dummy s \<in> lf_addr ` {..<iNodeCnt s}" by (simp add: once_def)
  have "dummy s \<notin># ?R" using once_split [OF o, of "dummy s"] by simp
  then show "dummy s \<notin># owned pc" "dummy s \<notin># sum_pcs owned ths" "dummy s \<notin> set fr" by simp_all
  have "dummy s \<notin> ptr_of ` set ts" using \<open>dummy s \<notin># ?R\<close> by simp
  then show "w \<in> set ts \<Longrightarrow> ptr_of w \<noteq> dummy s" by (metis imageI)
qed

lemma lf_addr_ok: "a \<in> lf_addr ` {..<c} \<Longrightarrow> c < 2 ^ 40 \<Longrightarrow> user_addr a \<and> a \<noteq> pool_head"
  using lf_addr_user lf_addr_not_head by fastforce

lemma lf_addr_nonzero: "a \<in> lf_addr ` {..<c} \<Longrightarrow> c < 2 ^ 40 \<Longrightarrow> a \<noteq> 0"
proof
  assume "a \<in> lf_addr ` {..<c}" "c < 2 ^ 40" "a = 0"
  then obtain k where k: "0 = lf_addr k" "k < 2 ^ 40" by auto
  then have "64 * (k + 2) = unat (0 :: u64)" using lf_addr_unat [OF k(2)] by simp
  then show False by simp
qed

lemma pc_ok_other [simp]:
  "pc_ok (s\<lparr>m_size := v\<rparr>) ts P p = pc_ok s ts P p" "pc_ok (s\<lparr>m_top := w\<rparr>) ts P p = pc_ok s ts P p"
  by (cases p; simp add: stamped_def seen_def)+

lemma lf_bound: "lf_inv_at k s fr ts pc ths \<Longrightarrow> k < 2 ^ 17 \<Longrightarrow> iNodeCnt s < 2 ^ 40"
  by (simp add: lf_inv_at_def)

text \<open>What the other threads know survives a step.\<close>

lemma pc_ok_frame:
  assumes "pc_ok s ts P p" "dummy s' = dummy s" "m_seqNumber s \<le> m_seqNumber s'"
    "\<And>a. a \<in># owned p \<Longrightarrow> seqAddr s' a = seqAddr s a"
    "\<And>w. w \<in> set ts' \<Longrightarrow> w \<in> set ts \<or> w \<in> P"
    "\<And>w. w \<in> set ts \<Longrightarrow> w \<in> set ts' \<Longrightarrow>
       seqAddr s' (ptr_of w) = seqAddr s (ptr_of w) \<and> node_data s' (ptr_of w) = node_data s (ptr_of w)"
    "\<And>w. w \<in> P' \<Longrightarrow> w \<in> P \<or> m_seqNumber s < seq_of w"
  shows "pc_ok s' ts' P' p"
proof -
  have st: "stamped s w \<Longrightarrow> stamped s' w" for w using assms(3) by (auto simp: stamped_def)
  have se: "seen s P w \<Longrightarrow> seen s' P' w" for w
    using assms(2,3) assms(7) [of w] by (auto simp: seen_def)
  have nw: "seen s P w \<Longrightarrow> w \<in> set ts' \<Longrightarrow> w \<in> set ts" for w using assms(5) by (auto simp: seen_def)
  show ?thesis using assms(1,4) st se nw assms(6) by (cases p) auto
qed

lemma linked_cong: "(\<And>w. w \<in> set ts \<Longrightarrow> nx' w = nx w) \<Longrightarrow> linked nx' e t ts = linked nx e t ts"
  by (induction ts arbitrary: t) auto

lemma at_PushSeq:
  assumes "lf_inv_at k s fr ts (PushSeq n) ths" "k < 2 ^ 17"
  shows "lf_inv_at k (s\<lparr>m_seqNumber := m_seqNumber s + 1\<rparr>) fr ts (PushRead (tagged n (m_seqNumber s + 1))) ths"
proof -
  let ?q = "m_seqNumber s + 1" and ?s = "s\<lparr>m_seqNumber := m_seqNumber s + 1\<rparr>"
  have q: "unat (m_seqNumber s) + 1 + sum_pcs unnumbered ths \<le> k" using assms(1) by (simp add: lf_inv_at_def)
  have "Suc (unat (m_seqNumber s)) < 2 ^ 64" using q assms(2) by simp
  then have uq: "unat ?q = Suc (unat (m_seqNumber s))" by (simp add: unat_word_ariths)
  then have lt: "m_seqNumber s < ?q" "0 < ?q" by (simp_all add: word_less_nat_alt)
  have u: "user_addr n" using lf_addr_ok [OF lf_facts(8) [OF assms(1)] lf_bound [OF assms]] by simp
  have sq: "seq_of (tagged n ?q) = ?q" "ptr_of (tagged n ?q) = n"
    using seq_of_tagged [OF u, of ?q] uq q assms(2) u by simp_all
  let ?P = "\<Union> (pend ` set ths)"
  have "pc_ok ?s ts (insert (tagged n ?q) ?P) p" if "p \<in> set ths" for p
    by (rule pc_ok_frame [where s = s and ts = ts and P = ?P])
      (use assms(1) that lt(1) sq in \<open>auto simp: lf_inv_at_def less_imp_le\<close>)
  then show ?thesis using assms(1) lt uq q sq
    by (auto simp: lf_inv_at_def pool_free_def places_def stamped_def)
qed

lemma at_PushRead: "lf_inv_at k s fr ts (PushRead w) ths \<Longrightarrow> lf_inv_at k s fr ts (PushNext w old) ths"
  by (simp add: lf_inv_at_def)

lemma at_PushNext:
  assumes "lf_inv_at k s fr ts (PushNext w old) ths" "k < 2 ^ 17"
  shows "lf_inv_at k (s\<lparr>seqAddr := (seqAddr s)(ptr_of w := old)\<rparr>) fr ts (PushCas w old) ths"
proof -
  let ?s = "s\<lparr>seqAddr := (seqAddr s)(ptr_of w := old)\<rparr>" and ?P = "insert w (\<Union> (pend ` set ths))"
  note f = lf_facts [OF assms(1)]
  have ne: "ptr_of v \<noteq> ptr_of w" if "v \<in> set ts" for v using f(1) [OF that] by simp
  have hd: "ptr_of w \<noteq> pool_head" using lf_addr_ok [OF f(8) lf_bound [OF assms]] by simp
  have nt: "ptr_of w \<notin># sum_pcs owned ths" using f(4) by simp
  have "pc_ok ?s ts ?P p" if "p \<in> set ths" for p
  proof (rule pc_ok_frame [where s = s and ts = ts and P = ?P])
    show "seqAddr ?s a = seqAddr s a" if "a \<in># owned p" for a
      using nt member_sum_pcs [OF \<open>p \<in> set ths\<close> that] by auto
  qed (use assms(1) that ne in \<open>auto simp: lf_inv_at_def\<close>)
  moreover have "linked (\<lambda>v. seqAddr ?s (ptr_of v)) (dummy s) (m_top s) ts"
  proof (subst linked_cong)
    show "seqAddr ?s (ptr_of v) = seqAddr s (ptr_of v)" if "v \<in> set ts" for v using ne [OF that] by simp
  qed (use assms(1) in \<open>simp add: lf_inv_at_def\<close>)
  ultimately show ?thesis using assms(1) hd
    by (simp add: lf_inv_at_def pool_free_def places_def stamped_def)
qed

lemma at_PushCas_hit:
  assumes "lf_inv_at k s fr ts (PushCas w old) ths" "m_top s = old" "k < 2 ^ 17"
  shows "lf_inv_at k (s\<lparr>m_top := w\<rparr>) fr (w # ts) PushCount ths"
proof -
  let ?s = "s\<lparr>m_top := w\<rparr>" and ?P = "\<Union> (pend ` set ths)"
  have "pc_ok ?s (w # ts) ?P p" if "p \<in> set ths" for p
    by (rule pc_ok_frame [where s = s and ts = ts and P = "insert w ?P"])
      (use assms(1) that in \<open>auto simp: lf_inv_at_def\<close>)
  moreover have "w \<noteq> dummy s"
    using lf_facts_dummy(1,2) [OF assms(1)] lf_addr_ok [OF _ lf_bound [OF assms(1,3)], of "dummy s"] by auto
  ultimately show ?thesis using assms
    by (auto simp: lf_inv_at_def pool_free_def places_def stamped_def add_ac)
qed

lemma at_PushCas_miss: "lf_inv_at k s fr ts (PushCas w old) ths \<Longrightarrow> lf_inv_at k s fr ts (PushRead w) ths"
  by (simp add: lf_inv_at_def)

lemma at_count:
  assumes "lf_inv_at k s fr ts pc ths" "pc = PushCount \<or> pc = PopMiss"
  shows "lf_inv_at k (s\<lparr>m_size := m_size s + 1\<rparr>) fr ts Idle ths"
  using assms by (auto simp: lf_inv_at_def pool_free_def places_def stamped_def)

lemma at_PopMiss:
  "lf_inv_at k s fr ts Idle ths \<Longrightarrow> lf_inv_at k (s\<lparr>m_size := m_size s - 1\<rparr>) fr ts PopMiss ths"
  by (auto simp: lf_inv_at_def pool_free_def places_def stamped_def)

text \<open>A \<^verbatim>\<open>Pop\<close> that got a ticket has an element to take.\<close>

lemma at_PopRead:
  assumes "lf_inv_at k s fr ts Idle ths" "0 \<le> m_size s - 1"
  shows "lf_inv_at k (s\<lparr>m_size := m_size s - 1\<rparr>) fr ts (PopRead out) ths"
  using assms weight_ge_reserved [of ths] by (auto simp: lf_inv_at_def pool_free_def places_def stamped_def)

lemma at_PopNext:
  assumes "lf_inv_at k s fr ts (PopRead out) ths"
  shows "m_top s \<noteq> dummy s" "lf_inv_at k s fr ts (PopNext (m_top s) out) ths"
proof -
  have l: "linked (\<lambda>w. seqAddr s (ptr_of w)) (dummy s) (m_top s) ts"
    and "1 + sum_pcs reserved ths \<le> int (length ts)" using assms by (auto simp: lf_inv_at_def)
  then have "ts \<noteq> []" using reserved_nonneg [of ths] by auto
  then obtain w ws where ts: "ts = w # ws" by (cases ts) auto
  then have w: "m_top s = w" "w \<noteq> dummy s" using l by auto
  then show "m_top s \<noteq> dummy s" by simp
  have "w \<notin> \<Union> (pend ` set ths)" using lf_facts(10) [OF assms, of w] ts by auto
  then show "lf_inv_at k s fr ts (PopNext (m_top s) out) ths"
    using assms w ts by (auto simp: lf_inv_at_def seen_def stamped_def)
qed

lemma at_PopData: "lf_inv_at k s fr ts (PopNext old out) ths \<Longrightarrow>
    lf_inv_at k s fr ts (PopData old (seqAddr s (ptr_of old))) ths"
  by (simp add: lf_inv_at_def)

lemma at_PopCas: "lf_inv_at k s fr ts (PopData old new) ths \<Longrightarrow>
    lf_inv_at k s fr ts (PopCas old new (Some (node_data s (ptr_of old)))) ths"
  by (simp add: lf_inv_at_def)

lemma at_PopCas_miss: "lf_inv_at k s fr ts (PopCas old new out) ths \<Longrightarrow> lf_inv_at k s fr ts (PopRead out) ths"
  by (simp add: lf_inv_at_def)

lemma at_PopCas_hit:
  assumes "lf_inv_at k s fr ts (PopCas old new out) ths" "m_top s = old"
  shows "\<exists>ws. ts = old # ws \<and> out = Some (node_data s (ptr_of old)) \<and>
    lf_inv_at k (s\<lparr>m_top := new\<rparr>) fr ws (PopFree (ptr_of old) out) ths"
proof -
  have l: "linked (\<lambda>w. seqAddr s (ptr_of w)) (dummy s) (m_top s) ts" and "seen s (\<Union> (pend ` set ths)) old"
    using assms(1) by (auto simp: lf_inv_at_def)
  then obtain ws where ts: "ts = old # ws" "linked (\<lambda>w. seqAddr s (ptr_of w)) (dummy s) (seqAddr s (ptr_of old)) ws"
    using assms(2) by (cases ts) (auto simp: seen_def)
  have new: "new = seqAddr s (ptr_of old)" "out = Some (node_data s (ptr_of old))"
    using assms(1) ts by (auto simp: lf_inv_at_def)
  let ?P = "\<Union> (pend ` set ths)"
  have "pc_ok s ws ?P p" if "p \<in> set ths" for p
    by (rule pc_ok_frame [where s = s and ts = ts and P = ?P])
      (use assms(1) that ts in \<open>auto simp: lf_inv_at_def\<close>)
  then show ?thesis using assms ts new
    by (auto simp: lf_inv_at_def pool_free_def places_def stamped_def add_ac)
qed

lemma at_PopFree:
  assumes "lf_inv_at k s fr ts (PopFree n out) ths" "k < 2 ^ 17"
  shows "lf_inv_at k (CObjectPool_Release n s) (n # fr) ts Idle ths"
    "w \<in> set ts \<Longrightarrow> node_data (CObjectPool_Release n s) w = node_data s w"
proof -
  note f = lf_facts [OF assms(1)] and b = lf_bound [OF assms]
  have n: "n \<in> lf_addr ` {..<iNodeCnt s}" "n \<notin> set fr" using f(5,8) by auto
  note r = CObjectPool_Release_free [OF f(12) b n]
  show "w \<in> set ts \<Longrightarrow> node_data (CObjectPool_Release n s) w = node_data s w" by (simp add: r)
  have nh: "a \<noteq> pool_head" if "a \<in> lf_addr ` {..<iNodeCnt s}" for a using lf_addr_ok [OF that b] by simp
  have keep: "dummy (CObjectPool_Release n s) = dummy s" "m_top (CObjectPool_Release n s) = m_top s"
    "m_seqNumber (CObjectPool_Release n s) = m_seqNumber s" "m_size (CObjectPool_Release n s) = m_size s"
    by (simp_all add: CObjectPool_Release_def Let_def)
  have sa: "seqAddr (CObjectPool_Release n s) (ptr_of w) = seqAddr s (ptr_of w)" if "w \<in> set ts" for w
    using r(3) nh f(7) that by simp
  let ?P = "\<Union> (pend ` set ths)" and ?s = "CObjectPool_Release n s"
  have "pc_ok ?s ts ?P p" if "p \<in> set ths" for p
  proof (rule pc_ok_frame [where s = s and ts = ts and P = ?P])
    show "seqAddr ?s a = seqAddr s a" if "a \<in># owned p" for a
      using r(3) nh f(9) member_sum_pcs [OF \<open>p \<in> set ths\<close> that] by simp
  qed (use assms(1) that sa in \<open>auto simp: lf_inv_at_def keep r(4)\<close>)
  moreover have "linked (\<lambda>w. seqAddr ?s (ptr_of w)) (dummy s) (m_top s) ts"
    by (subst linked_cong [OF sa]) (use assms(1) in \<open>simp_all add: lf_inv_at_def\<close>)
  ultimately show "lf_inv_at k ?s (n # fr) ts Idle ths" using assms(1) r(1,2)
    by (auto simp: lf_inv_at_def places_def stamped_def keep add_ac)
qed

lemma at_Push_begin:
  assumes "lf_inv_at k s fr ts Idle ths" "k < 2 ^ 17" "CObjectPool_Alloc s = (n, s1)"
  shows "\<exists>fr'. lf_inv_at (Suc k) (s1\<lparr>node_data := (node_data s1)(n := x)\<rparr>) fr' ts (PushSeq n) ths \<and>
    (\<forall>w \<in> set ts. ptr_of w \<noteq> n) \<and> node_data s1 = node_data s"
proof -
  note f = lf_facts [OF assms(1)] and d = lf_facts_dummy [OF assms(1)] and b = lf_bound [OF assms(1,2)]
  let ?M = "image_mset ptr_of (mset ts) + sum_pcs owned ths"
  have "once (mset fr + add_mset (dummy s) ?M) (iNodeCnt s)"
    using assms(1) by (simp add: lf_inv_at_def places_def add.assoc)
  from CObjectPool_Alloc_once [OF f(12) b this assms(3)] obtain fr' where
    fr': "pool_free s1 fr'" "iNodeCnt s1 \<le> Suc (iNodeCnt s)"
    and M': "once (add_mset n (mset fr' + add_mset (dummy s) ?M)) (iNodeCnt s1)"
    and nn: "n \<notin># mset fr' + add_mset (dummy s) ?M"
    and sa: "\<And>a. a \<noteq> pool_head \<Longrightarrow> a \<noteq> n \<Longrightarrow> seqAddr s1 a = seqAddr s a" and nd: "node_data s1 = node_data s"
    by blast
  have keep: "dummy s1 = dummy s" "m_top s1 = m_top s" "m_seqNumber s1 = m_seqNumber s" "m_size s1 = m_size s"
    using assms(3) by (auto simp: CObjectPool_Alloc_def Let_def split: if_splits)
  have ne: "ptr_of w \<noteq> n" if "w \<in> set ts" for w using nn that by (auto dest: imageI [of w _ ptr_of])
  have hd: "ptr_of w \<noteq> pool_head" if "w \<in> set ts" for w using lf_addr_ok [OF f(7) b] that by auto
  let ?s = "s1\<lparr>node_data := (node_data s1)(n := x)\<rparr>" and ?P = "\<Union> (pend ` set ths)"
  have ss: "seqAddr ?s (ptr_of w) = seqAddr s (ptr_of w)" if "w \<in> set ts" for w
    using sa hd ne that by simp
  have "pc_ok ?s ts ?P p" if "p \<in> set ths" for p
  proof (rule pc_ok_frame [where s = s and ts = ts and P = ?P])
    show "seqAddr ?s a = seqAddr s a" if "a \<in># owned p" for a
      using member_sum_pcs [OF \<open>p \<in> set ths\<close> that] nn lf_addr_ok [OF f(9) b, of a] sa by auto
  qed (use assms(1) that ss ne nd in \<open>auto simp: lf_inv_at_def keep\<close>)
  moreover have "linked (\<lambda>w. seqAddr ?s (ptr_of w)) (dummy s) (m_top s) ts"
    by (subst linked_cong [OF ss]) (use assms(1) in \<open>simp_all add: lf_inv_at_def\<close>)
  ultimately have "lf_inv_at (Suc k) ?s fr' ts (PushSeq n) ths"
    using assms(1) fr' M'
    by (auto simp: lf_inv_at_def places_def stamped_def keep pool_free_def add_ac add_mset_commute)
  then show ?thesis using ne nd by blast
qed

subsection \<open>Every interleaving refines the list\<close>

definition contents :: "'a lf_stack \<Rightarrow> u64 list \<Rightarrow> 'a list" where
  "contents s ts = map (\<lambda>w. node_data s (ptr_of w)) ts"

definition is_push :: "'a lf_call \<Rightarrow> bool" where
  "is_push call \<longleftrightarrow> (case call of CallPush _ \<Rightarrow> True | CallPop \<Rightarrow> False)"

text \<open>What an event does to the list.\<close>

fun event_rel :: "'a lf_event option \<Rightarrow> 'a list \<Rightarrow> 'a list \<Rightarrow> bool" where
  "event_rel None xs ys \<longleftrightarrow> ys = xs"
| "event_rel (Some (Pushed x)) xs ys \<longleftrightarrow> ys = x # xs"
| "event_rel (Some (Popped out)) xs ys \<longleftrightarrow> (\<exists>x. out = Some x \<and> xs = x # ys)"
| "event_rel (Some Missed) xs ys \<longleftrightarrow> ys = xs"

lemma lf_step_refines:
  assumes "lf_inv k s fr ts" "i < length (threads s)" "k < 2 ^ 17" "lf_step i call s = (s', ev)"
  shows "\<exists>fr' ts'. lf_inv (if is_push call then Suc k else k) s' fr' ts' \<and>
    length (threads s') = length (threads s) \<and> event_rel ev (contents s ts) (contents s' ts')"
proof -
  define pc where "pc = threads s ! i"
  define ths where "ths = (threads s)[i := Idle]"
  have ths: "threads s = ths[i := pc]" "i < length ths" "ths ! i = Idle"
    using assms(2) by (simp_all add: ths_def pc_def)
  have at: "lf_inv_at k s fr ts pc ths" using assms(1) lf_inv_put [OF ths] by simp
  have up: "lf_inv_at (Suc k) s1 fr1 ts1 p ths1" if "lf_inv_at k s1 fr1 ts1 p ths1" for s1 fr1 ts1 p ths1
    using that by (auto simp: lf_inv_at_def)
  have done1: ?thesis if "s' = set_pc i p s1" "lf_inv_at k s1 fr1 ts1 p ths" "threads s1 = threads s"
    "event_rel ev (contents s ts) (contents s1 ts1)" for p s1 fr1 ts1
  proof -
    have "threads s' = ths[i := p]" using that(1,3) ths by (simp add: set_pc_def)
    then have "lf_inv k' s' fr1 ts1 \<longleftrightarrow> lf_inv_at k' s' fr1 ts1 p ths" for k' using lf_inv_put ths(2,3) by blast
    moreover have "contents s' ts1 = contents s1 ts1" by (simp add: contents_def that(1) set_pc_def)
    ultimately show ?thesis using that up [OF that(2)] \<open>threads s' = ths[i := p]\<close> ths(1)
      by - (rule exI [of _ fr1], rule exI [of _ ts1], auto)
  qed
  note st = assms(4) [unfolded lf_step_def Push_step_def Pop_step_def pc_def [symmetric]]
  show ?thesis
  proof (cases pc)
    case Idle
    show ?thesis
    proof (cases call)
      case (CallPush x)
      obtain n s1 where a: "CObjectPool_Alloc s = (n, s1)" by fastforce
      from at_Push_begin [OF at [unfolded Idle] assms(3) a, of x] obtain fr' where
        b: "lf_inv_at (Suc k) (s1\<lparr>node_data := (node_data s1)(n := x)\<rparr>) fr' ts (PushSeq n) ths"
        "\<forall>w \<in> set ts. ptr_of w \<noteq> n" "node_data s1 = node_data s" by blast
      have s': "s' = set_pc i (PushSeq n) (s1\<lparr>node_data := (node_data s1)(n := x)\<rparr>)" "ev = None"
        using st Idle CallPush a by (auto simp: Push_begin_def)
      have "threads s1 = threads s" using a by (auto simp: CObjectPool_Alloc_def Let_def split: if_splits)
      then have t: "threads s' = ths[i := PushSeq n]" using s' ths by (simp add: set_pc_def)
      have "lf_inv (Suc k) s' fr' ts" using lf_inv_put [OF t ths(2,3)] b(1) s'(1) by simp
      moreover have "contents s' ts = contents s ts" using b(2,3) s'(1) by (auto simp: contents_def set_pc_def)
      ultimately show ?thesis using s'(2) CallPush t ths(1)
        by - (rule exI [of _ fr'], rule exI [of _ ts], simp add: is_push_def)
    next
      case CallPop
      show ?thesis
      proof (cases "m_size s - 1 < 0")
        case True
        then have e: "s' = set_pc i PopMiss (s\<lparr>m_size := m_size s - 1\<rparr>)" "ev = Some Missed"
          using st Idle CallPop by (auto simp: Pop_begin_def)
        show ?thesis by (rule done1 [OF e(1) at_PopMiss [OF at [unfolded Idle]]]) (simp_all add: e(2) contents_def)
      next
        case False
        then have e: "s' = set_pc i (PopRead None) (s\<lparr>m_size := m_size s - 1\<rparr>)" "ev = None" "0 \<le> m_size s - 1"
          using st Idle CallPop by (auto simp: Pop_begin_def)
        show ?thesis by (rule done1 [OF e(1) at_PopRead [OF at [unfolded Idle] e(3)]]) (simp_all add: e(2) contents_def)
      qed
    qed
  next
    case (PushSeq n)
    have e: "s' = set_pc i (PushRead (tagged n (m_seqNumber s + 1))) (s\<lparr>m_seqNumber := m_seqNumber s + 1\<rparr>)" "ev = None"
      using st PushSeq by (auto simp: Let_def)
    show ?thesis by (rule done1 [OF e(1) at_PushSeq [OF at [unfolded PushSeq] assms(3)]]) (simp_all add: e(2) contents_def)
  next
    case (PushRead w)
    have e: "s' = set_pc i (PushNext w (m_top s)) s" "ev = None" using st PushRead by auto
    show ?thesis by (rule done1 [OF e(1) at_PushRead [OF at [unfolded PushRead]]]) (simp_all add: e(2))
  next
    case (PushNext w old)
    have e: "s' = set_pc i (PushCas w old) (s\<lparr>seqAddr := (seqAddr s)(ptr_of w := old)\<rparr>)" "ev = None"
      using st PushNext by auto
    show ?thesis
      by (rule done1 [OF e(1) at_PushNext [OF at [unfolded PushNext] assms(3)]]) (simp_all add: e(2) contents_def)
  next
    case (PushCas w old)
    show ?thesis
    proof (cases "m_top s = old")
      case True
      have e: "s' = set_pc i PushCount (s\<lparr>m_top := w\<rparr>)" "ev = Some (Pushed (node_data s (ptr_of w)))"
        using st PushCas True by auto
      show ?thesis by (rule done1 [OF e(1) at_PushCas_hit [OF at [unfolded PushCas] True assms(3)]])
        (simp_all add: e(2) contents_def)
    next
      case False
      have e: "s' = set_pc i (PushRead w) s" "ev = None" using st PushCas False by auto
      show ?thesis by (rule done1 [OF e(1) at_PushCas_miss [OF at [unfolded PushCas]]]) (simp_all add: e(2))
    qed
  next
    case PushCount
    have e: "s' = set_pc i Idle (s\<lparr>m_size := m_size s + 1\<rparr>)" "ev = None" using st PushCount by auto
    show ?thesis by (rule done1 [OF e(1) at_count [OF at]]) (simp_all add: e(2) contents_def PushCount)
  next
    case PopMiss
    have e: "s' = set_pc i Idle (s\<lparr>m_size := m_size s + 1\<rparr>)" "ev = None" using st PopMiss by auto
    show ?thesis by (rule done1 [OF e(1) at_count [OF at]]) (simp_all add: e(2) contents_def PopMiss)
  next
    case (PopRead out)
    note n = at_PopNext [OF at [unfolded PopRead]]
    have e: "s' = set_pc i (PopNext (m_top s) out) s" "ev = None" using st PopRead n(1) by (auto simp: Let_def)
    show ?thesis by (rule done1 [OF e(1) n(2)]) (simp_all add: e(2))
  next
    case (PopNext old out)
    have e: "s' = set_pc i (PopData old (seqAddr s (ptr_of old))) s" "ev = None" using st PopNext by auto
    show ?thesis by (rule done1 [OF e(1) at_PopData [OF at [unfolded PopNext]]]) (simp_all add: e(2))
  next
    case (PopData old new)
    have e: "s' = set_pc i (PopCas old new (Some (node_data s (ptr_of old)))) s" "ev = None" using st PopData by auto
    show ?thesis by (rule done1 [OF e(1) at_PopCas [OF at [unfolded PopData]]]) (simp_all add: e(2))
  next
    case (PopCas old new out)
    show ?thesis
    proof (cases "m_top s = old")
      case True
      from at_PopCas_hit [OF at [unfolded PopCas] True] obtain ws where
        w: "ts = old # ws" "out = Some (node_data s (ptr_of old))"
          "lf_inv_at k (s\<lparr>m_top := new\<rparr>) fr ws (PopFree (ptr_of old) out) ths" by blast
      have e: "s' = set_pc i (PopFree (ptr_of old) out) (s\<lparr>m_top := new\<rparr>)" "ev = Some (Popped out)"
        using st PopCas True by auto
      show ?thesis by (rule done1 [OF e(1) w(3)]) (simp_all add: e(2) contents_def w(1,2))
    next
      case False
      have e: "s' = set_pc i (PopRead out) s" "ev = None" using st PopCas False by auto
      show ?thesis by (rule done1 [OF e(1) at_PopCas_miss [OF at [unfolded PopCas]]]) (simp_all add: e(2))
    qed
  next
    case (PopFree n out)
    have k: "threads (CObjectPool_Release n s) = threads s" "node_data (CObjectPool_Release n s) = node_data s"
      by (simp_all add: CObjectPool_Release_def Let_def)
    have e: "s' = set_pc i Idle (CObjectPool_Release n s)" "ev = None" using st PopFree by auto
    show ?thesis by (rule done1 [OF e(1) at_PopFree(1) [OF at [unfolded PopFree] assms(3)]])
      (simp_all add: e(2) contents_def k)
  qed
qed

lemma event_rel_replay:
  "event_rel ev xs ys \<Longrightarrow> replay (case ev of None \<Rightarrow> evs | Some e \<Rightarrow> e # evs) xs = replay evs ys"
  by (cases "(ev, xs, ys)" rule: event_rel.cases) auto

definition pushes :: "(nat \<times> 'a lf_call) list \<Rightarrow> nat" where
  "pushes sched = length (filter (is_push \<circ> snd) sched)"

lemma lf_run_refines:
  assumes "lf_inv k s fr ts" "k + pushes sched < 2 ^ 17" "lf_run sched s = (s', evs)"
  shows "\<exists>k' fr' ts'. k' < 2 ^ 17 \<and> lf_inv k' s' fr' ts' \<and> length (threads s') = length (threads s) \<and>
    replay evs (contents s ts) = Some (contents s' ts')"
  using assms
proof (induction sched arbitrary: k s fr ts evs)
  case Nil
  then show ?case by (auto simp: pushes_def)
next
  case (Cons m sched)
  obtain i call where m: "m = (i, call)" by fastforce
  show ?case
  proof (cases "length (threads s) \<le> i")
    case True
    then show ?thesis using Cons.IH [OF Cons.prems(1), of evs] Cons.prems(2,3) m
      by (auto simp: pushes_def split: if_splits)
  next
    case False
    obtain s1 ev where s1: "lf_step i call s = (s1, ev)" by fastforce
    obtain s2 evs2 where s2: "lf_run sched s1 = (s2, evs2)" by fastforce
    have e: "s' = s2" "evs = (case ev of None \<Rightarrow> evs2 | Some e \<Rightarrow> e # evs2)"
      using Cons.prems(3) m False s1 s2 by auto
    have k: "k < 2 ^ 17" "(if is_push call then Suc k else k) + pushes sched < 2 ^ 17"
      using Cons.prems(2) m by (auto simp: pushes_def)
    from lf_step_refines [OF Cons.prems(1) _ k(1) s1] False obtain fr1 ts1 where
      1: "lf_inv (if is_push call then Suc k else k) s1 fr1 ts1" "length (threads s1) = length (threads s)"
      "event_rel ev (contents s ts) (contents s1 ts1)" by auto
    from Cons.IH [OF 1(1) k(2) s2 [folded e(1)]] 1(2) show ?thesis
      unfolding e event_rel_replay [OF 1(3)] by simp
  qed
qed

lemma new_CLockFreeStack_inv:
  "lf_inv 0 (new_CLockFreeStack junk n) [] []" "length (threads (new_CLockFreeStack junk n)) = n"
proof -
  obtain d p where a: "CObjectPool_Alloc (new_CObjectPool junk) = (d, p)" by fastforce
  have c: "iNodeCnt (new_CObjectPool junk) = 0" by (simp add: new_CObjectPool_def)
  from CObjectPool_Alloc_free [OF new_CObjectPool_free _ a] have p: "d = lf_addr 0" "iNodeCnt p = 1" "pool_free p []"
    by (simp_all add: c)
  have s: "new_CLockFreeStack junk n = lf_pool.extend p (lf_stack.fields d d 0 0 (replicate n Idle))"
    using a by (simp add: new_CLockFreeStack_def)
  show "length (threads (new_CLockFreeStack junk n)) = n"
    by (simp add: s lf_pool.defs lf_stack.defs)
  have t: "sum_pcs f (replicate n (Idle :: 'a lf_pc)) = 0" if "f Idle = 0" for f :: "'a lf_pc \<Rightarrow> 'b::comm_monoid_add"
    by (rule sum_pcs_idle [of f Idle]) (use that in auto)
  have pe: "\<Union> (pend ` set (replicate n Idle)) = {}" by auto
  have "once {#d#} 1" by (auto simp: once_def p(1))
  then show "lf_inv 0 (new_CLockFreeStack junk n) [] []"
    using p by (auto simp: lf_inv_def lf_inv_at_def s lf_pool.defs lf_stack.defs t pe places_def pool_free_def)
qed

text \<open>The tag has 17 bits, so the numbers of two pushes 131072 apart give the same pointer.\<close>

lemma tagged_wraps: "tagged a (q + 2 ^ 17) = tagged a q"
proof -
  have "push_bit 47 (q + 2 ^ 17) = push_bit 47 q" by (simp add: push_bit_eq_mult distrib_right)
  then show ?thesis by (simp only: tagged_def)
qed


definition sample_sched :: "(nat \<times> nat lf_call) list" where
  "sample_sched =
     replicate 6 (0, CallPush 5) @ replicate 6 (0, CallPush 6) @ replicate 4 (1, CallPop) @ replicate 6 (0, CallPop) @
     replicate 6 (2, CallPush 7) @ replicate 6 (1, CallPop)"


text \<open>
  A \<^verbatim>\<open>Pop\<close> can report an empty stack although a push has completed before it began and nobody
  popped: another \<^verbatim>\<open>Pop\<close> that found the stack empty has not given its ticket back yet.
\<close>

lemma Pop_misses_element:
  "let (s, evs) = lf_run ((0, CallPop) # replicate 6 (1, CallPush (7::nat)) @ [(2, CallPop)]) (new_CLockFreeStack (\<lambda>_. 0) 3)
   in evs = [Missed, Pushed 7, Missed] \<and> threads s ! 1 = Idle"
  by code_simp

end
