(* ===== verification/LockFreeQueue.thy ===== *)
theory LockFreeQueue
  imports LockFree
begin

text \<open>
  \<^verbatim>\<open>CLockFreeQueue\<close> (\<^verbatim>\<open>utility/CLockFreeQueue\<close>), the queue between the network threads and the
  contents threads, over the memory and the pool of \<^verbatim>\<open>LockFree\<close>: again \<^verbatim>\<open>next\<close> is the word behind
  \<^verbatim>\<open>data\<close>, and threads interleave at every access to shared memory. Run one after another the
  operations are those of a FIFO; interleaved, a push can be overtaken by a later push of the same
  thread.
\<close>

section \<open>The operations, access by access\<close>

datatype 'a lfq_pc =
    QIdle
  | QPushNext u64 'a
  | QPushData u64 'a
  | QPushSeq u64
  | QPushSize u64
  | QPushTail u64
  | QPushTailNext u64 u64
  | QPushHelp u64 u64 u64
  | QPushLink u64 u64
  | QPushSwing u64 u64
  | QPushSwing2 u64 u64
  | QPopMiss
  | QPopHead
  | QPopTail u64
  | QPopLag u64 u64
  | QPopHelp u64 u64 u64
  | QPopNext u64
  | QPopData u64 u64
  | QPopCas u64 u64 'a
  | QPopFree u64 'a

record 'a lf_queue = "'a lf_pool" +
  q_head :: u64
  q_tail :: u64
  q_seqNumber :: u64
  q_size :: int
  q_threads :: "'a lfq_pc list"

datatype 'a lfq_event = Enqueued 'a | Dequeued 'a | QMissed

definition new_CLockFreeQueue :: "(u64 \<Rightarrow> 'a) \<Rightarrow> nat \<Rightarrow> 'a lf_queue" where
  "new_CLockFreeQueue junk n =
     (let (d, p) = CObjectPool_Alloc (new_CObjectPool junk);
          p1 = p\<lparr>seqAddr := (seqAddr p)(d := 0)\<rparr>
      in lf_pool.extend p1 (lf_queue.fields d d 0 0 (replicate n QIdle)))"

definition set_qpc :: "nat \<Rightarrow> 'a lfq_pc \<Rightarrow> 'a lf_queue \<Rightarrow> 'a lf_queue" where
  "set_qpc i pc s = s\<lparr>q_threads := (q_threads s)[i := pc]\<rparr>"

text \<open>The exchanges of \<^verbatim>\<open>_tail\<close>, whose result the code does not use to decide.\<close>

definition cas_tail :: "u64 \<Rightarrow> u64 \<Rightarrow> 'a lf_queue \<Rightarrow> 'a lf_queue" where
  "cas_tail new old s = (if q_tail s = old then s\<lparr>q_tail := new\<rparr> else s)"

definition lfq_push_step :: "nat \<Rightarrow> 'a lf_queue \<Rightarrow> 'a lf_queue \<times> 'a lfq_event option" where
  "lfq_push_step i s =
     (case q_threads s ! i of
        QPushNext n x \<Rightarrow> (set_qpc i (QPushData n x) (s\<lparr>seqAddr := (seqAddr s)(n := 0)\<rparr>), None)
      | QPushData n x \<Rightarrow> (set_qpc i (QPushSeq n) (s\<lparr>node_data := (node_data s)(n := x)\<rparr>), None)
      | QPushSeq n \<Rightarrow>
          (let q = q_seqNumber s + 1 in (set_qpc i (QPushSize (tagged n q)) (s\<lparr>q_seqNumber := q\<rparr>), None))
      | QPushSize w \<Rightarrow> (set_qpc i (QPushTail w) (s\<lparr>q_size := q_size s + 1\<rparr>), None)
      | QPushTail w \<Rightarrow> (set_qpc i (QPushTailNext w (q_tail s)) s, None)
      | QPushTailNext w tail \<Rightarrow>
          (let tailNext = seqAddr s (ptr_of tail)
           in (set_qpc i (if tailNext \<noteq> 0 then QPushHelp w tail tailNext else QPushLink w tail) s, None))
      | QPushHelp w tail tailNext \<Rightarrow> (set_qpc i (QPushTail w) (cas_tail tailNext tail s), None)
      | QPushLink w tail \<Rightarrow>
          (if seqAddr s (ptr_of tail) = 0
           then (set_qpc i (QPushSwing w tail) (s\<lparr>seqAddr := (seqAddr s)(ptr_of tail := w)\<rparr>),
                 Some (Enqueued (node_data s (ptr_of w))))
           else (set_qpc i (QPushTail w) s, None))
      | QPushSwing w tail \<Rightarrow>
          (set_qpc i (if q_tail s = tail then QIdle else QPushSwing2 w tail) (cas_tail w tail s), None)
      | QPushSwing2 w tail \<Rightarrow> (set_qpc i QIdle (cas_tail w tail s), None)
      | _ \<Rightarrow> (s, None))"

definition lfq_pop_step :: "nat \<Rightarrow> 'a lf_queue \<Rightarrow> 'a lf_queue \<times> 'a lfq_event option" where
  "lfq_pop_step i s =
     (case q_threads s ! i of
        QPopMiss \<Rightarrow> (set_qpc i QIdle (s\<lparr>q_size := q_size s + 1\<rparr>), None)
      | QPopHead \<Rightarrow> (set_qpc i (QPopTail (q_head s)) s, None)
      | QPopTail h \<Rightarrow> (set_qpc i (if h = q_tail s then QPopLag h (q_tail s) else QPopNext h) s, None)
      | QPopLag h tail \<Rightarrow>
          (let tailNextNode = seqAddr s (ptr_of tail)
           in (set_qpc i (if tailNextNode = 0 then QPopHead else QPopHelp h tail tailNextNode) s, None))
      | QPopHelp h tail tailNextNode \<Rightarrow> (set_qpc i (QPopNext h) (cas_tail tailNextNode tail s), None)
      | QPopNext h \<Rightarrow>
          (let nextNode = seqAddr s (ptr_of h)
           in (set_qpc i (if nextNode = 0 then QPopHead else QPopData h nextNode) s, None))
      | QPopData h nextNode \<Rightarrow> (set_qpc i (QPopCas h nextNode (node_data s (ptr_of nextNode))) s, None)
      | QPopCas h nextNode x \<Rightarrow>
          (if q_head s = h
           then (set_qpc i (QPopFree (ptr_of h) x) (s\<lparr>q_head := nextNode\<rparr>), Some (Dequeued x))
           else (set_qpc i QPopHead s, None))
      | QPopFree n x \<Rightarrow> (set_qpc i QIdle (CObjectPool_Release n s), None)
      | _ \<Rightarrow> (s, None))"

definition lfq_call :: "nat \<Rightarrow> 'a lf_call \<Rightarrow> 'a lf_queue \<Rightarrow> 'a lf_queue \<times> 'a lfq_event option" where
  "lfq_call i call s =
     (case call of
        CallPush x \<Rightarrow> (let (n, s1) = CObjectPool_Alloc s in (set_qpc i (QPushNext n x) s1, None))
      | CallPop \<Rightarrow>
          (let s1 = s\<lparr>q_size := q_size s - 1\<rparr>
           in if q_size s1 < 0 then (set_qpc i QPopMiss s1, Some QMissed) else (set_qpc i QPopHead s1, None)))"

fun pushing :: "'a lfq_pc \<Rightarrow> bool" where
  "pushing (QPushNext _ _) = True"
| "pushing (QPushData _ _) = True"
| "pushing (QPushSeq _) = True"
| "pushing (QPushSize _) = True"
| "pushing (QPushTail _) = True"
| "pushing (QPushTailNext _ _) = True"
| "pushing (QPushHelp _ _ _) = True"
| "pushing (QPushLink _ _) = True"
| "pushing (QPushSwing _ _) = True"
| "pushing (QPushSwing2 _ _) = True"
| "pushing _ = False"

definition lfq_step :: "nat \<Rightarrow> 'a lf_call \<Rightarrow> 'a lf_queue \<Rightarrow> 'a lf_queue \<times> 'a lfq_event option" where
  "lfq_step i call s =
     (if q_threads s ! i = QIdle then lfq_call i call s
      else if pushing (q_threads s ! i) then lfq_push_step i s else lfq_pop_step i s)"

fun lfq_run :: "(nat \<times> 'a lf_call) list \<Rightarrow> 'a lf_queue \<Rightarrow> 'a lf_queue \<times> 'a lfq_event list" where
  "lfq_run [] s = (s, [])"
| "lfq_run ((i, call) # sched) s =
     (if length (q_threads s) \<le> i then lfq_run sched s
      else let (s1, ev) = lfq_step i call s; (s2, evs) = lfq_run sched s1
           in (s2, (case ev of None \<Rightarrow> evs | Some e \<Rightarrow> e # evs)))"

section \<open>One call after another\<close>

fun lfq_finish :: "nat \<Rightarrow> nat \<Rightarrow> 'a lf_queue \<Rightarrow> 'a lf_queue \<times> 'a lfq_event list" where
  "lfq_finish 0 i s = (s, [])"
| "lfq_finish (Suc k) i s =
     (if q_threads s ! i = QIdle then (s, [])
      else let (s1, ev) = lfq_step i CallPop s; (s2, evs) = lfq_finish k i s1
           in (s2, (case ev of None \<Rightarrow> evs | Some e \<Rightarrow> e # evs)))"

definition lfq_do :: "nat \<Rightarrow> 'a lf_call \<Rightarrow> 'a lf_queue \<Rightarrow> 'a lf_queue \<times> 'a lfq_event list" where
  "lfq_do i call s =
     (let (s1, ev) = lfq_call i call s; (s2, evs) = lfq_finish 9 i s1
      in (s2, (case ev of None \<Rightarrow> evs | Some e \<Rightarrow> e # evs)))"

fun lfq_do_all :: "(nat \<times> 'a lf_call) list \<Rightarrow> 'a lf_queue \<Rightarrow> 'a lf_queue \<times> 'a lfq_event list" where
  "lfq_do_all [] s = (s, [])"
| "lfq_do_all ((i, call) # calls) s =
     (let (s1, evs1) = lfq_do i call s; (s2, evs2) = lfq_do_all calls s1 in (s2, evs1 @ evs2))"

text \<open>The specification.\<close>

fun fifo :: "'a lf_call list \<Rightarrow> 'a list \<Rightarrow> 'a lfq_event list \<times> 'a list" where
  "fifo [] xs = ([], xs)"
| "fifo (CallPush x # cs) xs = (let (es, ys) = fifo cs (xs @ [x]) in (Enqueued x # es, ys))"
| "fifo (CallPop # cs) [] = (let (es, ys) = fifo cs [] in (QMissed # es, ys))"
| "fifo (CallPop # cs) (x # xs) = (let (es, ys) = fifo cs xs in (Dequeued x # es, ys))"

text \<open>\<open>ws\<close> are the pointers behind the dummy at the head; the last \<^verbatim>\<open>next\<close> is null.\<close>

fun qchain :: "(u64 \<Rightarrow> u64) \<Rightarrow> u64 \<Rightarrow> u64 list \<Rightarrow> bool" where
  "qchain nx h [] \<longleftrightarrow> nx h = 0"
| "qchain nx h (w # ws) \<longleftrightarrow> nx h = w \<and> w \<noteq> 0 \<and> qchain nx (ptr_of w) ws"

definition lfq_inv :: "nat \<Rightarrow> 'a lf_queue \<Rightarrow> u64 list \<Rightarrow> u64 list \<Rightarrow> 'a list \<Rightarrow> bool" where
  "lfq_inv k s fr ws xs \<longleftrightarrow>
     pool_free s fr \<and> qchain (seqAddr s) (ptr_of (q_head s)) ws \<and> q_tail s = last (q_head s # ws) \<and>
     q_size s = int (length ws) \<and> xs = map (\<lambda>w. node_data s (ptr_of w)) ws \<and>
     once (mset fr + image_mset ptr_of (mset (q_head s # ws))) (iNodeCnt s) \<and> iNodeCnt s \<le> Suc k \<and>
     (\<forall>p \<in> set (q_threads s). p = QIdle)"

lemma qchain_other: "a \<notin> ptr_of ` set ws \<Longrightarrow> a \<noteq> h \<Longrightarrow> qchain (nx(a := v)) h ws = qchain nx h ws"
  by (induction ws arbitrary: h) auto

lemma qchain_cong: "(\<And>a. a \<in> insert h (ptr_of ` set ws) \<Longrightarrow> nx' a = nx a) \<Longrightarrow> qchain nx' h ws = qchain nx h ws"
  by (induction ws arbitrary: h) auto

lemma qchain_snoc:
  assumes "qchain nx (ptr_of h) ws" "distinct (map ptr_of (h # ws))" "w \<noteq> 0" "nx (ptr_of w) = 0"
    "ptr_of w \<notin> ptr_of ` set (h # ws)"
  shows "qchain (nx(ptr_of (last (h # ws)) := w)) (ptr_of h) (ws @ [w])" "nx (ptr_of (last (h # ws))) = 0"
  using assms
proof (induction ws arbitrary: h)
  case (Cons v ws)
  {
    case 1
    then have q: "qchain (nx(ptr_of (last (v # ws)) := w)) (ptr_of v) (ws @ [w])" by (intro Cons.IH(1)) auto
    have ne: "ptr_of (last (v # ws)) \<noteq> ptr_of h" using 1(2) last_in_set [of "v # ws"]
      by (metis distinct.simps(2) image_eqI list.distinct(1) list.map(2) list.set_map)
    have l: "last (h # v # ws) = last (v # ws)" by simp
    show ?case unfolding l append_Cons qchain.simps using q ne 1(1) by (intro conjI) auto
  next
    case 2
    then show ?case using Cons.IH(2) [of v] by auto
  }
qed auto

lemma once_distinct:
  assumes "once (mset fr + mset as) c"
  shows "distinct as" "a \<in> set as \<Longrightarrow> a \<notin> set fr" "set as \<subseteq> lf_addr ` {..<c}"
proof -
  have "count (mset as) x \<le> 1" for x
  proof -
    have "count (mset as) x \<le> count (mset fr + mset as) x" by simp
    then show ?thesis using assms unfolding once_def by (meson le_trans)
  qed
  then show "distinct as" by (metis distinct_count_atmost_1 One_nat_def count_mset_0_iff le_SucE le_zero_eq)
  show "a \<in> set as \<Longrightarrow> a \<notin> set fr" using once_split [OF assms, of a] by auto
  show "set as \<subseteq> lf_addr ` {..<c}" using assms by (auto simp: once_def)
qed

lemmas lfq_eval = lfq_do_def lfq_call_def lfq_finish.simps lfq_step_def lfq_push_step_def lfq_pop_step_def
  set_qpc_def Let_def cas_tail_def

lemma lfq_invD:
  assumes "lfq_inv k s fr ws xs"
  shows "distinct (map ptr_of (q_head s # ws))" "a \<in> ptr_of ` set (q_head s # ws) \<Longrightarrow> a \<notin> set fr"
    "ptr_of ` set (q_head s # ws) \<subseteq> lf_addr ` {..<iNodeCnt s}"
    "i < length (q_threads s) \<Longrightarrow> q_threads s ! i = QIdle" "pool_free s fr"
proof -
  have "once (mset fr + mset (map ptr_of (q_head s # ws))) (iNodeCnt s)" using assms by (simp add: lfq_inv_def)
  note o = once_distinct [OF this]
  show "distinct (map ptr_of (q_head s # ws))" by (rule o)
  show "a \<in> ptr_of ` set (q_head s # ws) \<Longrightarrow> a \<notin> set fr" using o(2) [of a] by simp
  show "ptr_of ` set (q_head s # ws) \<subseteq> lf_addr ` {..<iNodeCnt s}" using o(3) by simp
qed (use assms in \<open>auto simp: lfq_inv_def\<close>)

lemma lfq_push_alone:
  assumes "lfq_inv k s fr ws xs" "k < 2 ^ 39" "i < length (q_threads s)"
  shows "\<exists>s' fr' ws'. lfq_do i (CallPush x) s = (s', [Enqueued x]) \<and> lfq_inv (Suc k) s' fr' ws' (xs @ [x]) \<and>
    length (q_threads s') = length (q_threads s)"
proof -
  note d = lfq_invD [OF assms(1)]
  have b: "iNodeCnt s < 2 ^ 40" using assms(1,2) by (simp add: lfq_inv_def)
  obtain n s1 where al: "CObjectPool_Alloc s = (n, s1)" by fastforce
  let ?H = "q_head s # ws" and ?i = "q_threads s"
  have "once (mset fr + image_mset ptr_of (mset ?H)) (iNodeCnt s)" using assms(1) by (simp add: lfq_inv_def)
  from CObjectPool_Alloc_once [OF d(5) b this al] obtain fr' where
    fr': "pool_free s1 fr'" "iNodeCnt s1 \<le> Suc (iNodeCnt s)"
    and M': "once (add_mset n (mset fr' + image_mset ptr_of (mset ?H))) (iNodeCnt s1)"
    and nn: "n \<notin># mset fr' + image_mset ptr_of (mset ?H)"
    and sa: "\<forall>a. a \<noteq> pool_head \<longrightarrow> a \<noteq> n \<longrightarrow> seqAddr s1 a = seqAddr s a" and nd: "node_data s1 = node_data s"
    by blast
  have b1: "iNodeCnt s1 < 2 ^ 40" using fr'(2) assms(1,2) by (simp add: lfq_inv_def)
  have nin: "n \<in> lf_addr ` {..<iNodeCnt s1}" using M' by (simp add: once_def)
  have n: "user_addr n" "n \<noteq> pool_head" "n \<noteq> 0" using lf_addr_ok [OF nin b1] lf_addr_nonzero [OF nin b1] by auto
  define w where "w = tagged n (q_seqNumber s + 1)"
  have pw: "ptr_of w = n" using n(1) by (simp add: w_def)
  then have w: "ptr_of w = n" "w \<noteq> 0" using n(3) by (auto simp: ptr_of_def)
  have keep: "q_head s1 = q_head s" "q_tail s1 = q_tail s" "q_seqNumber s1 = q_seqNumber s" "q_size s1 = q_size s"
    "q_threads s1 = q_threads s"
    using al by (auto simp: CObjectPool_Alloc_def Let_def split: if_splits)
  let ?t = "ptr_of (last ?H)"
  have H: "last ?H \<in> set ?H" by simp
  have nh: "a \<noteq> n \<and> a \<noteq> pool_head" if "a \<in> ptr_of ` set ?H" for a
    using nn lf_addr_ok [OF subsetD [OF d(3) that] b] that by auto
  have t: "?t \<noteq> n" "?t \<noteq> pool_head" using nh [OF imageI [OF H]] by auto
  have qc: "qchain (seqAddr s) (ptr_of (q_head s)) ws" using assms(1) by (simp add: lfq_inv_def)
  have "qchain ((seqAddr s1)(n := 0)) (ptr_of (q_head s)) ws = qchain (seqAddr s) (ptr_of (q_head s)) ws"
    by (rule qchain_cong) (use nh sa in auto)
  then have qc1: "qchain ((seqAddr s1)(n := 0)) (ptr_of (q_head s)) ws" using qc by simp
  have nout: "ptr_of w \<notin> ptr_of ` set ?H" using nh w(1) by blast
  have z: "((seqAddr s1)(n := 0)) (ptr_of w) = 0" using w(1) by simp
  note sn = qchain_snoc [OF qc1 d(1) w(2) z nout]
  have nx0: "seqAddr s1 ?t = 0" using sn(2) t by simp
  have tl: "q_tail s = last ?H" using assms(1) by (simp add: lfq_inv_def)
  define s2 where "s2 = s1\<lparr>seqAddr := (seqAddr s1)(n := 0, ?t := w), node_data := (node_data s1)(n := x),
    q_seqNumber := q_seqNumber s + 1, q_size := q_size s + 1, q_tail := w,
    q_threads := (q_threads s)[i := QIdle]\<rparr>"
  have run: "lfq_do i (CallPush x) s = (s2, [Enqueued x])"
    using assms(3) d(4) [OF assms(3)] t w nx0 tl
    by (simp add: lfq_eval al keep eval_nat_numeral w_def [symmetric] s2_def)
  have "lfq_inv (Suc k) s2 fr' (ws @ [w]) (xs @ [x])"
  proof -
    have "map (\<lambda>v. node_data s2 (ptr_of v)) (ws @ [w]) = xs @ [x]"
      using assms(1) nh w(1) by (auto simp: lfq_inv_def s2_def nd)
    moreover have "pool_free s2 fr'" using fr'(1) t n(2) by (simp add: s2_def pool_free_def)
    moreover have "once (mset fr' + image_mset ptr_of (mset (q_head s2 # ws @ [w]))) (iNodeCnt s2)"
      using M' w(1) by (simp add: s2_def keep add_mset_commute)
    moreover have "qchain (seqAddr s2) (ptr_of (q_head s2)) (ws @ [w])"
    proof -
      have f: "seqAddr s2 = (seqAddr s1)(n := 0, ?t := w)" "q_head s2 = q_head s" by (simp_all add: s2_def keep)
      show ?thesis unfolding f by (rule sn(1))
    qed
    moreover have "\<forall>p \<in> set (q_threads s2). p = QIdle"
      using assms(1) by (auto simp: lfq_inv_def s2_def dest!: subsetD [OF set_update_subset_insert])
    ultimately show ?thesis using assms(1) fr'(2) by (simp add: lfq_inv_def s2_def)
  qed
  moreover have "length (q_threads s2) = length (q_threads s)" by (simp add: s2_def)
  ultimately show ?thesis using run by blast
qed

lemma lfq_pop_alone:
  assumes "lfq_inv k s fr ws xs" "k < 2 ^ 39" "i < length (q_threads s)"
  shows "\<exists>s' fr' ws'. lfq_do i CallPop s = (s', [case xs of [] \<Rightarrow> QMissed | x # _ \<Rightarrow> Dequeued x]) \<and>
    lfq_inv k s' fr' ws' (tl xs) \<and> length (q_threads s') = length (q_threads s)"
proof (cases ws)
  case Nil
  have "q_size s = 0" using assms(1) Nil by (simp add: lfq_inv_def)
  then have "lfq_do i CallPop s = (s\<lparr>q_threads := (q_threads s)[i := QIdle]\<rparr>, [QMissed])"
    using assms(3) lfq_invD(4) [OF assms(1,3)] by (simp add: lfq_eval eval_nat_numeral)
  moreover have "lfq_inv k (s\<lparr>q_threads := (q_threads s)[i := QIdle]\<rparr>) fr ws xs"
    using assms(1) by (auto simp: lfq_inv_def pool_free_def dest!: subsetD [OF set_update_subset_insert])
  moreover have "xs = []" using assms(1) Nil by (simp add: lfq_inv_def)
  ultimately show ?thesis by auto
next
  case (Cons w us)
  note d = lfq_invD [OF assms(1)]
  have b: "iNodeCnt s < 2 ^ 40" using assms(1,2) by (simp add: lfq_inv_def)
  have qc: "seqAddr s (ptr_of (q_head s)) = w" "w \<noteq> 0" "qchain (seqAddr s) (ptr_of w) us"
    and xs: "xs = node_data s (ptr_of w) # map (\<lambda>v. node_data s (ptr_of v)) us" and sz: "q_size s = 1 + int (length us)"
    and tl: "q_tail s = last (w # us)"
    using assms(1) Cons by (auto simp: lfq_inv_def)
  have lag: "q_head s \<noteq> q_tail s"
    using d(1) last_in_set [of "w # us"] Cons tl by (metis distinct.simps(2) imageI list.set_map list.simps(9) list.distinct(1))
  let ?h = "ptr_of (q_head s)"
  have hin: "?h \<in> lf_addr ` {..<iNodeCnt s}" "?h \<notin> set fr" using d(2,3) by auto
  have keep: "q_head (CObjectPool_Release n t) = q_head t" "q_tail (CObjectPool_Release n t) = q_tail t"
    "q_size (CObjectPool_Release n t) = q_size t" "q_threads (CObjectPool_Release n t) = q_threads t" for n and t :: "'a lf_queue"
    by (simp_all add: CObjectPool_Release_def Let_def)
  define s1 where "s1 = s\<lparr>q_size := q_size s - 1, q_head := w, q_threads := (q_threads s)[i := QPopFree ?h (node_data s (ptr_of w))]\<rparr>"
  define s2 where "s2 = set_qpc i QIdle (CObjectPool_Release ?h s1)"
  have run: "lfq_do i CallPop s = (s2, [Dequeued (node_data s (ptr_of w))])"
    using assms(3) d(4) [OF assms(3)] qc sz lag by (simp add: lfq_eval eval_nat_numeral s1_def s2_def keep)
  have p1: "pool_free s1 fr" "iNodeCnt s1 = iNodeCnt s" "seqAddr s1 = seqAddr s" "node_data s1 = node_data s"
    using d(5) by (simp_all add: s1_def pool_free_def)
  note r = CObjectPool_Release_free [of s1 fr ?h, unfolded p1(2-4), OF p1(1) b hin]
  have ne: "a \<noteq> pool_head" if "a \<in> ptr_of ` set (q_head s # ws)" for a
    using lf_addr_ok [OF subsetD [OF d(3) that] b] by simp
  have f2: "q_head s2 = w" "q_tail s2 = q_tail s" "q_size s2 = int (length us)" "q_threads s2 = (q_threads s)[i := QIdle]"
    "iNodeCnt s2 = iNodeCnt s" "node_data s2 = node_data s" "seqAddr s2 = seqAddr (CObjectPool_Release ?h s1)"
    using r sz by (simp_all add: s2_def set_qpc_def keep s1_def)
  have "qchain (seqAddr s2) (ptr_of w) us = qchain (seqAddr s) (ptr_of w) us"
    unfolding f2(7) by (rule qchain_cong) (use r(3) ne Cons in auto)
  moreover have "pool_free s2 (?h # fr)" using r(1) by (simp add: s2_def set_qpc_def pool_free_def)
  moreover have "once (mset (?h # fr) + image_mset ptr_of (mset (w # us))) (iNodeCnt s)"
    using assms(1) Cons by (simp add: lfq_inv_def add_mset_commute)
  moreover have "\<forall>p \<in> set (q_threads s2). p = QIdle"
    using assms(1) by (auto simp: lfq_inv_def f2 dest!: subsetD [OF set_update_subset_insert])
  moreover have "tl xs = map (\<lambda>v. node_data s (ptr_of v)) us" "iNodeCnt s \<le> Suc k"
    using assms(1) Cons by (simp_all add: lfq_inv_def)
  ultimately have "lfq_inv k s2 (?h # fr) us (tl xs)"
    using qc(3) tl by (simp add: lfq_inv_def f2)
  then show ?thesis using run f2(4) xs by auto
qed

text \<open>
  Thread 0 is about to link 1 behind the last node when others push 9 and pop it, so that this node
  returns to the pool, and thread 2 takes it for its own push of 3 and clears its \<^verbatim>\<open>next\<close>. The
  exchange of thread 0 succeeds on the node in transit; its push returns; its next push, of 2, goes
  behind the real tail, and 2 comes out first.
\<close>

definition overtaking_sched :: "(nat \<times> nat lf_call) list" where
  "overtaking_sched =
     replicate 7 (0, CallPush 1) @ replicate 9 (1, CallPush 9) @ replicate 7 (1, CallPop) @
     replicate 2 (2, CallPush 3) @ replicate 3 (0, CallPush 1) @ replicate 9 (0, CallPush 2) @
     replicate 7 (1, CallPop)"

lemma push_overtaken:
  "snd (lfq_run overtaking_sched (new_CLockFreeQueue (\<lambda>_. 0) 3)) =
     [Enqueued 9, Dequeued 9, Enqueued 1, Enqueued 2, Dequeued 2]"
  by code_simp

lemma new_CLockFreeQueue_inv:
  "lfq_inv 0 (new_CLockFreeQueue junk n) [] [] []" "length (q_threads (new_CLockFreeQueue junk n)) = n"
proof -
  obtain d p where a: "CObjectPool_Alloc (new_CObjectPool junk) = (d, p)" by fastforce
  have c: "iNodeCnt (new_CObjectPool junk) = 0" by (simp add: new_CObjectPool_def)
  from CObjectPool_Alloc_free [OF new_CObjectPool_free _ a] have p: "d = lf_addr 0" "iNodeCnt p = 1" "pool_free p []"
    by (simp_all add: c)
  have d: "user_addr d" "d \<noteq> pool_head" using lf_addr_user lf_addr_not_head p(1) by simp_all
  have s: "new_CLockFreeQueue junk n =
    lf_pool.extend (p\<lparr>seqAddr := (seqAddr p)(d := 0)\<rparr>) (lf_queue.fields d d 0 0 (replicate n QIdle))"
    using a by (simp add: new_CLockFreeQueue_def)
  show "length (q_threads (new_CLockFreeQueue junk n)) = n"
    by (simp add: s lf_pool.defs lf_queue.defs)
  have "once {#d#} 1" by (auto simp: once_def p(1))
  then show "lfq_inv 0 (new_CLockFreeQueue junk n) [] [] []"
    using p d by (auto simp: lfq_inv_def s lf_pool.defs lf_queue.defs pool_free_def)
qed

lemma lfq_do_all_fifo:
  assumes "lfq_inv k s fr ws xs" "k + length calls < 2 ^ 39" "\<forall>c \<in> set calls. fst c < length (q_threads s)"
  shows "\<exists>s' fr' ws' k'. lfq_do_all calls s = (s', fst (fifo (map snd calls) xs)) \<and>
    lfq_inv k' s' fr' ws' (snd (fifo (map snd calls) xs))"
  using assms
proof (induction calls arbitrary: k s fr ws xs)
  case Nil
  then show ?case by auto
next
  case (Cons c calls)
  obtain i call where c: "c = (i, call)" by fastforce
  have i: "i < length (q_threads s)" and k: "k < 2 ^ 39" using Cons.prems(2,3) c by auto
  show ?case
  proof (cases call)
    case (CallPush x)
    from lfq_push_alone [OF Cons.prems(1) k i, of x] obtain s1 fr1 ws1 where
      1: "lfq_do i (CallPush x) s = (s1, [Enqueued x])" "lfq_inv (Suc k) s1 fr1 ws1 (xs @ [x])"
        "length (q_threads s1) = length (q_threads s)" by blast
    from Cons.IH [OF 1(2)] Cons.prems(2,3) obtain s' fr' ws' k' where
      "lfq_do_all calls s1 = (s', fst (fifo (map snd calls) (xs @ [x])))"
      "lfq_inv k' s' fr' ws' (snd (fifo (map snd calls) (xs @ [x])))" by (auto simp: 1(3))
    moreover from this(1) have "lfq_do_all (c # calls) s = (s', fst (fifo (map snd (c # calls)) xs))"
      "snd (fifo (map snd (c # calls)) xs) = snd (fifo (map snd calls) (xs @ [x]))"
      using 1(1) c CallPush by (auto split: prod.splits)
    ultimately show ?thesis by metis
  next
    case CallPop
    from lfq_pop_alone [OF Cons.prems(1) k i] obtain s1 fr1 ws1 where
      1: "lfq_do i CallPop s = (s1, [case xs of [] \<Rightarrow> QMissed | x # _ \<Rightarrow> Dequeued x])" "lfq_inv k s1 fr1 ws1 (tl xs)"
        "length (q_threads s1) = length (q_threads s)" by blast
    from Cons.IH [OF 1(2)] Cons.prems(2,3) obtain s' fr' ws' k' where
      "lfq_do_all calls s1 = (s', fst (fifo (map snd calls) (tl xs)))"
      "lfq_inv k' s' fr' ws' (snd (fifo (map snd calls) (tl xs)))" by (auto simp: 1(3))
    moreover from this(1) have "lfq_do_all (c # calls) s = (s', fst (fifo (map snd (c # calls)) xs))"
      "snd (fifo (map snd (c # calls)) xs) = snd (fifo (map snd calls) (tl xs))"
      using 1(1) c CallPop by ((cases xs; auto split: prod.splits), (cases xs; auto split: prod.splits))
    ultimately show ?thesis by metis
  qed
qed

text \<open>
  C13: Calls of \<^verbatim>\<open>CLockFreeQueue\<close> that do not overlap in time behave as a FIFO, whatever threads make
  them: every \<^verbatim>\<open>Pop\<close> returns the oldest element, and fails exactly on an empty queue. The nine steps
  that \<open>lfq_do\<close> allows a call are always enough. The bound is on the addresses a pool can make.
\<close>

theorem queue_sequential_fifo:
  assumes "length calls < 2 ^ 39" "\<forall>c \<in> set calls. fst c < n"
  shows "\<exists>s ws. lfq_do_all calls (new_CLockFreeQueue junk n) = (s, fst (fifo (map snd calls) [])) \<and>
    (\<forall>p \<in> set (q_threads s). p = QIdle) \<and> q_size s = int (length (snd (fifo (map snd calls) []))) \<and>
    qchain (seqAddr s) (ptr_of (q_head s)) ws \<and>
    map (\<lambda>w. node_data s (ptr_of w)) ws = snd (fifo (map snd calls) [])"
proof -
  note i = new_CLockFreeQueue_inv [of junk n]
  from lfq_do_all_fifo [OF i(1), of calls] assms obtain s fr ws k where
    "lfq_do_all calls (new_CLockFreeQueue junk n) = (s, fst (fifo (map snd calls) []))"
    "lfq_inv k s fr ws (snd (fifo (map snd calls) []))" by (auto simp: i(2))
  then show ?thesis by (auto simp: lfq_inv_def)
qed

lemma queue_sequential_fifo_witness:
  "fst (fifo (map snd [(0, CallPush (4::nat)), (1, CallPush 5), (0, CallPop), (1, CallPop), (1, CallPop)]) []) =
     [Enqueued 4, Enqueued 5, Dequeued 4, Dequeued 5, QMissed] \<and>
   (\<exists>s. lfq_do_all [(0, CallPush (4::nat)), (1, CallPush 5), (0, CallPop), (1, CallPop), (1, CallPop)]
      (new_CLockFreeQueue (\<lambda>_. 0) 2) = (s, [Enqueued 4, Enqueued 5, Dequeued 4, Dequeued 5, QMissed]))"
  using queue_sequential_fifo [of "[(0, CallPush (4::nat)), (1, CallPush 5), (0, CallPop), (1, CallPop), (1, CallPop)]" 2 "\<lambda>_. 0"]
  by force

end
