(* ===== verification/SessionIo.thy ===== *)
theory SessionIo
  imports Network Threads
begin

text \<open>
  The life of one session slot under interleaving. \<^verbatim>\<open>m_ioCount\<close> of a session counts the threads that
  use it and its pending I/O; bit 47 of it says that a release has been posted. \<^verbatim>\<open>SessionLock\<close>,
  \<^verbatim>\<open>SessionUnLock\<close>, \<^verbatim>\<open>Disconnect\<close>, the decrement of the worker and accept threads,
  \<^verbatim>\<open>ReleaseComplete\<close> and the initialisation in \<^verbatim>\<open>AcceptThread\<close> are taken access by access to shared
  memory. The other slots play no part: an identifier names its slot, and of two identifiers of
  one slot the model keeps the running number.
\<close>

section \<open>The accesses\<close>

datatype io_pc =
    Idle
  | LockSeq nat bool     \<comment> \<open>\<^verbatim>\<open>SessionLock\<close> after the increment; whether the count became 1\<close>
  | BackOut              \<comment> \<open>\<^verbatim>\<open>SessionLock\<close> before the decrement of a failed attempt\<close>
  | Holding nat          \<comment> \<open>between \<^verbatim>\<open>SessionLock\<close> and \<^verbatim>\<open>SessionUnLock\<close>\<close>
  | DiscSeq nat          \<comment> \<open>\<^verbatim>\<open>Disconnect\<close> after the increment\<close>
  | DiscStale            \<comment> \<open>\<^verbatim>\<open>Disconnect\<close> of another identifier, before the decrement\<close>
  | DiscCancel           \<comment> \<open>\<^verbatim>\<open>Disconnect\<close> of the session, before the decrement\<close>
  | Work                 \<comment> \<open>a worker with a completion, or the accept thread with a new session\<close>
  | AccSeq nat           \<comment> \<open>\<^verbatim>\<open>AcceptThread\<close> before it stores \<^verbatim>\<open>m_SeqID\<close>\<close>
  | AccIo nat            \<comment> \<open>\<^verbatim>\<open>AcceptThread\<close> before it stores \<^verbatim>\<open>m_ioCount\<close>\<close>
  | AccPort              \<comment> \<open>\<^verbatim>\<open>AcceptThread\<close> before it associates the socket with the completion port\<close>
  | Cas                  \<comment> \<open>before the exchange of 0 for the flag\<close>
  | PostRel              \<comment> \<open>before \<^verbatim>\<open>ReleaseSession\<close> posts\<close>
  | RelCall              \<comment> \<open>\<^verbatim>\<open>ReleaseComplete\<close> before \<^verbatim>\<open>OnRelease\<close>\<close>
  | RelPush              \<comment> \<open>\<^verbatim>\<open>ReleaseComplete\<close> before the slot is pushed\<close>

text \<open>
  \<open>io_free\<close> counts the slot on \<^verbatim>\<open>m_SessionIdxStack\<close>, \<open>io_pend\<close> is the I/O in flight, \<open>io_posted\<close> the
  posted releases; \<open>io_lost\<close> counts the references the accept thread never gives back, because the
  association with the completion port failed; \<open>accepted\<close> and \<open>released\<close> log the sessions that began and the calls of
  \<^verbatim>\<open>OnRelease\<close>.
\<close>

record io_state =
  io_count :: u64
  io_seq :: nat
  io_free :: nat
  io_pend :: nat
  io_posted :: nat
  io_lost :: nat
  session_id :: nat
  accepted :: "nat list"
  released :: "nat list"
  pcs :: "io_pc list"

definition has_flag :: "u64 \<Rightarrow> bool" where "has_flag c \<longleftrightarrow> c AND r_flag \<noteq> 0"

text \<open>
  What a thread does next: an idle thread starts a call (an accept says how many sessions other
  slots got since), a thread with a reference may post an I/O, \<open>PortFails\<close> is an association that
  fails, and \<open>Go\<close> is the next access.
\<close>

datatype io_act = Lock nat | Disc nat | Complete | Release | Accept nat | PostIo | PortFails | Go

definition at_pc :: "nat \<Rightarrow> io_pc \<Rightarrow> io_state \<Rightarrow> io_state" where
  "at_pc i pc s = s\<lparr>pcs := (pcs s)[i := pc]\<rparr>"

definition io_begin :: "nat \<Rightarrow> io_act \<Rightarrow> io_state \<Rightarrow> io_state option" where
  "io_begin i act s =
     (case act of
        Lock sid \<Rightarrow>
          (let c = io_count s + 1; s1 = s\<lparr>io_count := c\<rparr>
           in Some (if has_flag c then s1 else at_pc i (LockSeq sid (c = 1)) s1))
      | Disc sid \<Rightarrow>
          (let c = io_count s + 1; s1 = s\<lparr>io_count := c\<rparr>
           in Some (if has_flag c then s1 else at_pc i (DiscSeq sid) s1))
      | Complete \<Rightarrow> (if io_pend s = 0 then None else Some (at_pc i Work (s\<lparr>io_pend := io_pend s - 1\<rparr>)))
      | Release \<Rightarrow> (if io_posted s = 0 then None else Some (at_pc i RelCall (s\<lparr>io_posted := io_posted s - 1\<rparr>)))
      | Accept k \<Rightarrow>
          (if io_free s = 0 then None
           else Some (at_pc i (AccSeq (session_id s + k))
                  (s\<lparr>io_free := io_free s - 1, session_id := session_id s + k + 1\<rparr>)))
      | _ \<Rightarrow> None)"

definition post_io :: "io_state \<Rightarrow> io_state" where
  "post_io s = s\<lparr>io_count := io_count s + 1, io_pend := io_pend s + 1\<rparr>"

definition io_step :: "nat \<Rightarrow> io_act \<Rightarrow> io_state \<Rightarrow> io_state option" where
  "io_step i act s =
     (let dec = s\<lparr>io_count := io_count s - 1\<rparr> in
      case pcs s ! i of
        Idle \<Rightarrow> io_begin i act s
      | LockSeq sid first \<Rightarrow> Some (at_pc i (if io_seq s \<noteq> sid \<or> first then BackOut else Holding sid) s)
      | BackOut \<Rightarrow> Some (at_pc i Cas dec)
      | Holding sid \<Rightarrow> Some (if act = PostIo then post_io s else at_pc i Cas dec)
      | DiscSeq sid \<Rightarrow> Some (at_pc i (if io_seq s \<noteq> sid then DiscStale else DiscCancel) s)
      | DiscStale \<Rightarrow> Some (at_pc i Idle dec)
      | DiscCancel \<Rightarrow> Some (at_pc i Cas dec)
      | Work \<Rightarrow> Some (if act = PostIo then post_io s else at_pc i (if io_count dec = 0 then Cas else Idle) dec)
      | AccSeq sid \<Rightarrow> Some (at_pc i (AccIo sid) (s\<lparr>io_seq := sid\<rparr>))
      | AccIo sid \<Rightarrow> Some (at_pc i AccPort (s\<lparr>io_count := 1, accepted := accepted s @ [sid]\<rparr>))
      | AccPort \<Rightarrow> Some (if act = PortFails then at_pc i Idle (s\<lparr>io_lost := io_lost s + 1\<rparr>) else at_pc i Work s)
      | Cas \<Rightarrow> Some (if io_count s = 0 then at_pc i PostRel (s\<lparr>io_count := r_flag\<rparr>) else at_pc i Idle s)
      | PostRel \<Rightarrow> Some (at_pc i Idle (s\<lparr>io_posted := io_posted s + 1\<rparr>))
      | RelCall \<Rightarrow> Some (at_pc i RelPush (s\<lparr>released := released s @ [io_seq s]\<rparr>))
      | RelPush \<Rightarrow> Some (at_pc i Idle (s\<lparr>io_free := io_free s + 1\<rparr>)))"

definition new_io :: "nat \<Rightarrow> io_state" where
  "new_io n =
     \<lparr>io_count = 0, io_seq = 0, io_free = 1, io_pend = 0, io_posted = 0, io_lost = 0, session_id = 0, accepted = [], released = [],
      pcs = replicate n Idle\<rparr>"

text \<open>Callers only use identifiers of sessions that were accepted.\<close>

definition act_ok :: "io_act \<Rightarrow> io_state \<Rightarrow> bool" where
  "act_ok act s \<longleftrightarrow> (case act of Lock sid \<Rightarrow> sid \<in> set (accepted s) | Disc sid \<Rightarrow> sid \<in> set (accepted s) | _ \<Rightarrow> True)"

fun io_run :: "(nat \<times> io_act) list \<Rightarrow> io_state \<Rightarrow> io_state option" where
  "io_run [] s = Some s"
| "io_run ((i, act) # sched) s =
     (if i < length (pcs s) \<and> act_ok act s then Option.bind (io_step i act s) (io_run sched) else None)"

section \<open>The invariant\<close>

text \<open>References that threads hold, threads that are initialising the slot, and releases under way.\<close>

fun refs :: "io_pc \<Rightarrow> nat" where
  "refs (LockSeq _ _) = 1"
| "refs BackOut = 1"
| "refs (Holding _) = 1"
| "refs (DiscSeq _) = 1"
| "refs DiscStale = 1"
| "refs DiscCancel = 1"
| "refs Work = 1"
| "refs AccPort = 1"
| "refs _ = 0"

fun accs :: "io_pc \<Rightarrow> nat" where
  "accs (AccSeq _) = 1"
| "accs (AccIo _) = 1"
| "accs _ = 0"

fun unreleased :: "io_pc \<Rightarrow> nat" where
  "unreleased PostRel = 1"
| "unreleased RelCall = 1"
| "unreleased _ = 0"

fun pushing :: "io_pc \<Rightarrow> nat" where
  "pushing RelPush = 1"
| "pushing _ = 0"

definition dead :: "io_state \<Rightarrow> bool" where
  "dead s \<longleftrightarrow> has_flag (io_count s) \<or> accepted s = []"

text \<open>A count without the flag, or with it and some stale increments.\<close>

definition count_ok :: "nat \<Rightarrow> u64 \<Rightarrow> bool" where
  "count_ok k c \<longleftrightarrow> (if has_flag c then 2 ^ 47 \<le> unat c \<and> unat c \<le> 2 ^ 47 + k else unat c \<le> k)"

fun pc_ok :: "io_state \<Rightarrow> io_pc \<Rightarrow> bool" where
  "pc_ok s (Holding sid) \<longleftrightarrow> sid = io_seq s"
| "pc_ok s (AccSeq sid) \<longleftrightarrow> sid \<notin> set (accepted s) \<and> sid < session_id s"
| "pc_ok s (AccIo sid) \<longleftrightarrow> sid \<notin> set (accepted s) \<and> sid < session_id s \<and> io_seq s = sid"
| "pc_ok s Cas \<longleftrightarrow> accepted s \<noteq> []"
| "pc_ok s _ \<longleftrightarrow> True"

text \<open>
  A slot is on the free list, being initialised, in use, or being released. In use, the count is
  the number of the references; otherwise there are none. The logs: every accepted session has been
  released, but for the one that is in use or whose release has not been told yet.
\<close>

definition slot_ok :: "bool \<Rightarrow> nat \<Rightarrow> nat \<Rightarrow> nat \<Rightarrow> nat \<Rightarrow> nat \<Rightarrow> nat \<Rightarrow> bool" where
  "slot_ok d c R A U P fr \<longleftrightarrow> (if d then R = 0 \<and> fr + A + U + P = 1 else c = R \<and> fr + A + U + P = 0)"

definition log_ok :: "nat list \<Rightarrow> nat list \<Rightarrow> bool \<Rightarrow> nat \<Rightarrow> nat \<Rightarrow> bool" where
  "log_ok acc rel cur sid next \<longleftrightarrow>
     distinct acc \<and> (\<forall>x \<in> set acc. x < next) \<and> acc = rel @ (if cur then [sid] else [])"

text \<open>\<open>k\<close> bounds the increments; \<open>pc\<close> is thread \<open>i\<close> and \<open>ths\<close> are the others.\<close>

definition io_inv_at :: "nat \<Rightarrow> io_state \<Rightarrow> io_pc \<Rightarrow> io_pc list \<Rightarrow> bool" where
  "io_inv_at k s pc ths \<longleftrightarrow>
     slot_ok (dead s) (unat (io_count s)) (io_pend s + io_lost s + refs pc + sum_pcs refs ths) (accs pc + sum_pcs accs ths)
       (io_posted s + unreleased pc + sum_pcs unreleased ths) (pushing pc + sum_pcs pushing ths) (io_free s) \<and>
     count_ok k (io_count s) \<and>
     (accepted s = [] \<longrightarrow> io_count s = 0 \<and> io_posted s + unreleased pc + sum_pcs unreleased ths +
        (pushing pc + sum_pcs pushing ths) = 0) \<and>
     log_ok (accepted s) (released s) (\<not> dead s \<or> 0 < io_posted s + unreleased pc + sum_pcs unreleased ths)
       (io_seq s) (session_id s) \<and>
     (\<forall>p \<in> insert pc (set ths). pc_ok s p)"

definition io_inv :: "nat \<Rightarrow> io_state \<Rightarrow> bool" where
  "io_inv k s \<longleftrightarrow> io_inv_at k s Idle (pcs s)"

lemma io_inv_put:
  assumes "pcs s = ths[i := pc]" "i < length ths" "ths ! i = Idle"
  shows "io_inv k s \<longleftrightarrow> io_inv_at k s pc ths"
  unfolding io_inv_def io_inv_at_def assms(1) set_put [OF assms(2,3)]
  by (simp add: sum_pcs_put [OF assms(2,3)] add.assoc)

lemma has_flag_bit: "has_flag c \<longleftrightarrow> bit c 47"
  by (simp add: has_flag_def r_flag_def bit_iff_and_push_bit_not_eq_0)

lemma has_flag_small: "unat c < 2 ^ 47 \<Longrightarrow> \<not> has_flag c"
  by (simp add: has_flag_bit bit_iff_odd_drop_bit drop_bit_eq_div word_arith_nat_div)

lemma has_flag_large: "2 ^ 47 \<le> unat c \<Longrightarrow> unat c < 2 ^ 48 \<Longrightarrow> has_flag c"
proof -
  assume c: "2 ^ 47 \<le> unat c" "unat c < 2 ^ 48"
  then have "unat c div 2 ^ 47 = 1" by (intro div_nat_eqI) simp_all
  then have "odd (unat c div 2 ^ 47)" by simp
  then show ?thesis unfolding has_flag_bit by (metis bit_iff_odd bit_unsigned_iff bit_imp_le_length not_le unsigned_word_eqI)
qed

lemma r_flag_facts: "unat r_flag = 2 ^ 47" "has_flag r_flag" "r_flag \<noteq> 0"
  by (simp_all add: r_flag_def has_flag_def)

lemma count_inc:
  assumes "count_ok k c" "k < 2 ^ 46"
  shows "unat (c + 1) = Suc (unat c)" "has_flag (c + 1) = has_flag c" "count_ok (Suc k) (c + 1)" "c + 1 \<noteq> 0"
    "c + 1 = 1 \<longleftrightarrow> unat c = 0"
proof -
  have lt: "unat c < 2 ^ 47 + 2 ^ 46" using assms by (auto simp: count_ok_def split: if_splits)
  then have "Suc (unat c) < 2 ^ 64" by simp
  then show u: "unat (c + 1) = Suc (unat c)" by (simp add: unat_word_ariths)
  show f: "has_flag (c + 1) = has_flag c"
    using assms has_flag_small [of "c + 1"] has_flag_large [of "c + 1"] lt u by (auto simp: count_ok_def split: if_splits)
  show "count_ok (Suc k) (c + 1)" using assms(1) u f by (auto simp: count_ok_def)
  show "c + 1 \<noteq> 0" using u by auto
  show "c + 1 = 1 \<longleftrightarrow> unat c = 0" by (simp add: unat_eq_0)
qed

lemma count_dec:
  assumes "count_ok k c" "k < 2 ^ 46" "\<not> has_flag c" "0 < unat c"
  shows "unat (c - 1) = unat c - 1" "\<not> has_flag (c - 1)" "count_ok (Suc k) (c - 1)"
proof -
  show u: "unat (c - 1) = unat c - 1" using assms(4) unat_minus_one [of c] by (cases "c = 0") auto
  show "\<not> has_flag (c - 1)" using assms(1-3) u by (intro has_flag_small) (simp add: count_ok_def)
  then show "count_ok (Suc k) (c - 1)" using assms(1,3) u by (simp add: count_ok_def)
qed

lemma io_pc_ok_frame [simp]:
  "pc_ok (s\<lparr>io_count := c\<rparr>) p = pc_ok s p" "pc_ok (s\<lparr>io_pend := n\<rparr>) p = pc_ok s p"
  "pc_ok (s\<lparr>io_posted := n\<rparr>) p = pc_ok s p" "pc_ok (s\<lparr>io_free := n\<rparr>) p = pc_ok s p"
  "pc_ok (s\<lparr>released := l\<rparr>) p = pc_ok s p" "pc_ok (s\<lparr>io_lost := n\<rparr>) p = pc_ok s p" "pc_ok (s\<lparr>pcs := ps\<rparr>) p = pc_ok s p"
  by (cases p; simp)+

lemma io_inv_at_pc [simp]: "io_inv_at k (at_pc i q s) p ths = io_inv_at k s p ths"
  by (simp add: io_inv_at_def at_pc_def dead_def)

lemma io_inv_at_mono: "io_inv_at k s p ths \<Longrightarrow> io_inv_at (Suc k) s p ths"
proof -
  have "count_ok k c \<Longrightarrow> count_ok (Suc k) c" for c by (simp add: count_ok_def split: if_splits)
  then show "io_inv_at k s p ths \<Longrightarrow> io_inv_at (Suc k) s p ths" unfolding io_inv_at_def by blast
qed

lemma not_dead: "\<not> dead s \<Longrightarrow> \<not> has_flag (io_count s) \<and> accepted s \<noteq> []"
  by (simp add: dead_def)

lemma io_inv_atD:
  assumes "io_inv_at k s pc ths"
  shows "count_ok k (io_count s)" "0 < refs pc \<Longrightarrow> \<not> dead s" "0 < accs pc + unreleased pc + pushing pc \<Longrightarrow> dead s"
    "\<not> dead s \<Longrightarrow> unat (io_count s) = io_pend s + io_lost s + refs pc + sum_pcs refs ths" "pc_ok s pc"
    "p \<in> set ths \<Longrightarrow> pc_ok s p" "dead s \<Longrightarrow> p \<in> set ths \<Longrightarrow> refs p = 0" "dead s \<Longrightarrow> io_pend s + io_lost s = 0"
    "0 < accs pc \<Longrightarrow> p \<in> set ths \<Longrightarrow> accs p = 0" "accepted s = [] \<Longrightarrow> unreleased pc + pushing pc = 0"
    "0 < io_posted s \<Longrightarrow> dead s" "0 < io_free s \<Longrightarrow> dead s"
  using assms member_sum_pcs_nat [of p ths refs] member_sum_pcs_nat [of p ths accs]
  by (simp_all add: io_inv_at_def slot_ok_def split: if_splits)

text \<open>A step that leaves the accepted sessions alone, by its effect on the numbers of thread \<open>i\<close>.\<close>

lemma at_change:
  assumes "io_inv_at k s pc ths"
    and "\<And>R A U P.
      slot_ok (dead s) (unat (io_count s)) (io_pend s + io_lost s + refs pc + R) (accs pc + A) (io_posted s + unreleased pc + U)
        (pushing pc + P) (io_free s) \<Longrightarrow>
      log_ok (accepted s) (released s) (\<not> dead s \<or> 0 < io_posted s + unreleased pc + U) (io_seq s) (session_id s) \<Longrightarrow>
      slot_ok (dead s') (unat (io_count s')) (io_pend s' + io_lost s' + refs pc' + R) (accs pc' + A) (io_posted s' + unreleased pc' + U)
        (pushing pc' + P) (io_free s') \<and>
      log_ok (accepted s') (released s') (\<not> dead s' \<or> 0 < io_posted s' + unreleased pc' + U) (io_seq s') (session_id s')"
    and "count_ok (Suc k) (io_count s')"
    and "accepted s' = accepted s"
    and "accepted s = [] \<Longrightarrow> io_count s' = io_count s \<and>
      io_posted s' + unreleased pc' + pushing pc' \<le> io_posted s + unreleased pc + pushing pc"
    and "pc_ok s' pc'" "\<And>p. p \<in> set ths \<Longrightarrow> pc_ok s p \<Longrightarrow> pc_ok s' p"
  shows "io_inv_at (Suc k) s' pc' ths"
proof -
  have i: "slot_ok (dead s) (unat (io_count s)) (io_pend s + io_lost s + refs pc + sum_pcs refs ths) (accs pc + sum_pcs accs ths)
       (io_posted s + unreleased pc + sum_pcs unreleased ths) (pushing pc + sum_pcs pushing ths) (io_free s)"
    "log_ok (accepted s) (released s) (\<not> dead s \<or> 0 < io_posted s + unreleased pc + sum_pcs unreleased ths)
       (io_seq s) (session_id s)"
    "accepted s = [] \<Longrightarrow> io_count s = 0 \<and> io_posted s + unreleased pc + sum_pcs unreleased ths +
        (pushing pc + sum_pcs pushing ths) = 0" "\<And>p. p \<in> set ths \<Longrightarrow> pc_ok s p"
    using assms(1) unfolding io_inv_at_def by blast+
  show ?thesis
    unfolding io_inv_at_def
  proof (intro conjI impI ballI)
    show "pc_ok s' p" if "p \<in> insert pc' (set ths)" for p using that assms(6,7) i(4) by blast
    show "io_count s' = 0" "io_posted s' + unreleased pc' + sum_pcs unreleased ths + (pushing pc' + sum_pcs pushing ths) = 0"
      if "accepted s' = []" using that i(3) assms(4,5) by auto
  qed (use assms(2) [OF i(1,2)] assms(3) in blast)+
qed

subsection \<open>Every access keeps it\<close>

text \<open>Increments and decrements of a live count.\<close>

lemma at_inc:
  assumes "io_inv_at k s pc ths" "k < 2 ^ 46" "\<not> dead s" "refs pc' + n = Suc (refs pc)"
    "accs pc' = accs pc" "unreleased pc' = unreleased pc" "pushing pc' = pushing pc" "pc_ok s pc'"
  shows "io_inv_at (Suc k) (s\<lparr>io_count := io_count s + 1, io_pend := io_pend s + n\<rparr>) pc' ths" (is "io_inv_at _ ?s _ _")
proof -
  note c = count_inc [OF io_inv_atD(1) [OF assms(1)] assms(2)]
  have "\<not> dead ?s" using not_dead [OF assms(3)] c(2) by (simp add: dead_def)
  then show ?thesis using assms(3-8) c(1,3) not_dead [OF assms(3)]
    by (intro at_change [OF assms(1)]) (simp_all add: slot_ok_def)
qed

lemma at_dec:
  assumes "io_inv_at k s pc ths" "k < 2 ^ 46" "refs pc = Suc (refs pc')"
    "accs pc' = accs pc" "unreleased pc' = unreleased pc" "pushing pc' = pushing pc" "accepted s \<noteq> [] \<Longrightarrow> pc_ok s pc'"
  shows "io_inv_at (Suc k) (s\<lparr>io_count := io_count s - 1\<rparr>) pc' ths" (is "io_inv_at _ ?s _ _")
proof -
  note d = io_inv_atD [OF assms(1)]
  have live: "\<not> dead s" using d(2) assms(3) by simp
  have pos: "0 < unat (io_count s)" using d(4) [OF live] assms(3) by simp
  note n = not_dead [OF live]
  note c = count_dec [OF d(1) assms(2) conjunct1 [OF n] pos]
  have "\<not> dead ?s" using n c(2) by (simp add: dead_def)
  then show ?thesis using assms(3-7) c(1,3) live n
    by (intro at_change [OF assms(1)]) (auto simp: slot_ok_def)
qed

text \<open>An increment of a dead slot changes nothing but the count under the flag.\<close>

lemma at_stale_inc:
  assumes "io_inv_at k s pc ths" "k < 2 ^ 46" "has_flag (io_count s)" "accepted s \<noteq> []"
  shows "io_inv_at (Suc k) (s\<lparr>io_count := io_count s + 1\<rparr>) pc ths" (is "io_inv_at _ ?s _ _")
proof -
  note d = io_inv_atD [OF assms(1)]
  note c = count_inc [OF d(1) assms(2)]
  have "dead s" "dead ?s" using assms(3) c(2) by (simp_all add: dead_def)
  then show ?thesis using assms(4) c(3) d(5)
    by (intro at_change [OF assms(1)]) (simp_all add: slot_ok_def)
qed

lemma at_move:
  assumes "io_inv_at k s pc ths" "refs pc' = refs pc" "accs pc' = accs pc" "unreleased pc' = unreleased pc"
    "pushing pc' = pushing pc" "pc_ok s pc'"
  shows "io_inv_at (Suc k) s pc' ths"
proof -
  have "io_inv_at k s pc' ths" using assms unfolding io_inv_at_def by auto
  then show ?thesis by (rule io_inv_at_mono)
qed

lemma at_complete:
  assumes "io_inv_at k s Idle ths" "io_pend s \<noteq> 0"
  shows "io_inv_at (Suc k) (s\<lparr>io_pend := io_pend s - 1\<rparr>) Work ths" (is "io_inv_at _ ?s _ _")
proof -
  note d = io_inv_atD [OF assms(1)]
  have live: "\<not> dead s" using d(8) assms(2) by auto
  moreover have "dead ?s = dead s" by (simp add: dead_def)
  ultimately show ?thesis using assms(2) io_inv_atD(1) [OF io_inv_at_mono [OF assms(1)]]
    by (intro at_change [OF assms(1)]) (simp_all add: slot_ok_def)
qed

lemma dead_frame [simp]:
  "dead (s\<lparr>io_pend := n\<rparr>) = dead s" "dead (s\<lparr>io_posted := n\<rparr>) = dead s" "dead (s\<lparr>io_free := n\<rparr>) = dead s"
  "dead (s\<lparr>io_lost := n\<rparr>) = dead s" "dead (s\<lparr>released := l\<rparr>) = dead s" "dead (s\<lparr>io_seq := m\<rparr>) = dead s" "dead (s\<lparr>session_id := m\<rparr>) = dead s"
  by (simp_all add: dead_def)

lemma at_release:
  assumes "io_inv_at k s Idle ths" "io_posted s \<noteq> 0"
  shows "io_inv_at (Suc k) (s\<lparr>io_posted := io_posted s - 1\<rparr>) RelCall ths"
  using assms(2) io_inv_atD(1) [OF io_inv_at_mono [OF assms(1)]]
  by (intro at_change [OF assms(1)]) (simp_all add: slot_ok_def)

lemma at_cas_hit:
  assumes "io_inv_at k s Cas ths" "io_count s = 0"
  shows "io_inv_at (Suc k) (s\<lparr>io_count := r_flag\<rparr>) PostRel ths" (is "io_inv_at _ ?s _ _")
proof -
  have a: "accepted s \<noteq> []" using io_inv_atD(5) [OF assms(1)] by simp
  have "\<not> dead s" using a assms(2) by (simp add: dead_def has_flag_def)
  moreover have "dead ?s" by (simp add: dead_def r_flag_facts)
  moreover have "count_ok (Suc k) r_flag" by (simp add: count_ok_def r_flag_facts)
  ultimately show ?thesis using a assms(2)
    by (intro at_change [OF assms(1)]) (simp_all add: slot_ok_def)
qed

lemma at_post_release:
  assumes "io_inv_at k s PostRel ths"
  shows "io_inv_at (Suc k) (s\<lparr>io_posted := io_posted s + 1\<rparr>) Idle ths"
  using io_inv_atD(1) [OF io_inv_at_mono [OF assms(1)]]
  by (intro at_change [OF assms(1)]) (simp_all add: slot_ok_def)

lemma at_release_call:
  assumes "io_inv_at k s RelCall ths"
  shows "io_inv_at (Suc k) (s\<lparr>released := released s @ [io_seq s]\<rparr>) RelPush ths"
proof -
  have d: "dead s" using io_inv_atD(3) [OF assms] by simp
  show ?thesis using io_inv_atD(1) [OF io_inv_at_mono [OF assms]] io_inv_atD(10) [OF assms] d
    by (intro at_change [OF assms]) (auto simp: slot_ok_def log_ok_def)
qed

lemma at_release_push:
  assumes "io_inv_at k s RelPush ths"
  shows "io_inv_at (Suc k) (s\<lparr>io_free := io_free s + 1\<rparr>) Idle ths"
proof -
  have d: "dead s" using io_inv_atD(3) [OF assms] by simp
  show ?thesis using io_inv_atD(1) [OF io_inv_at_mono [OF assms]] d
    by (intro at_change [OF assms]) (simp_all add: slot_ok_def)
qed

text \<open>The accept thread takes the slot, stores the identifier, and starts the count.\<close>

lemma log_ok_mono: "log_ok a r c sid n \<Longrightarrow> n \<le> m \<Longrightarrow> log_ok a r c sid m"
  unfolding log_ok_def by (meson less_le_trans)

lemma log_ok_begin: "log_ok a r False sid n \<Longrightarrow> x \<notin> set a \<Longrightarrow> x < n \<Longrightarrow> log_ok (a @ [x]) r True x n"
  by (auto simp: log_ok_def)

lemma at_accept:
  assumes "io_inv_at k s Idle ths" "io_free s \<noteq> 0"
  shows "io_inv_at (Suc k) (s\<lparr>io_free := io_free s - 1, session_id := session_id s + j + 1\<rparr>) (AccSeq (session_id s + j)) ths"
    (is "io_inv_at _ ?s _ _")
proof (rule at_change [OF assms(1)])
  note d = io_inv_atD [OF assms(1)]
  have dd: "dead s" using d(12) assms(2) by simp
  have "log_ok (accepted s) (released s) (\<not> dead s \<or> 0 < io_posted s + unreleased Idle + sum_pcs unreleased ths)
       (io_seq s) (session_id s)" using assms(1) unfolding io_inv_at_def by blast
  then have lo: "x \<in> set (accepted s) \<Longrightarrow> x < session_id s" for x by (simp add: log_ok_def)
  show "pc_ok ?s (AccSeq (session_id s + j))" using lo by fastforce
  show "pc_ok ?s p" if "pc_ok s p" for p using that by (cases p) auto
  show "slot_ok (dead ?s) (unat (io_count ?s)) (io_pend ?s + io_lost ?s + refs (AccSeq (session_id s + j)) + R) (accs (AccSeq (session_id s + j)) + A)
      (io_posted ?s + unreleased (AccSeq (session_id s + j)) + U) (pushing (AccSeq (session_id s + j)) + P) (io_free ?s) \<and>
    log_ok (accepted ?s) (released ?s) (\<not> dead ?s \<or> 0 < io_posted ?s + unreleased (AccSeq (session_id s + j)) + U) (io_seq ?s) (session_id ?s)"
    if "slot_ok (dead s) (unat (io_count s)) (io_pend s + io_lost s + refs Idle + R) (accs Idle + A) (io_posted s + unreleased Idle + U)
        (pushing Idle + P) (io_free s)"
      "log_ok (accepted s) (released s) (\<not> dead s \<or> 0 < io_posted s + unreleased Idle + U) (io_seq s) (session_id s)" for R A U P
    using that(1) assms(2) dd log_ok_mono [OF that(2), of "session_id s + j + 1"] by (auto simp: slot_ok_def)
qed (use io_inv_atD(1) [OF io_inv_at_mono [OF assms(1)]] in simp_all)

lemma at_acc_seq:
  assumes "io_inv_at k s (AccSeq sid) ths"
  shows "io_inv_at (Suc k) (s\<lparr>io_seq := sid\<rparr>) (AccIo sid) ths"
proof (rule at_change [OF assms])
  note d = io_inv_atD [OF assms]
  have dd: "dead s" using d(3) by simp
  show "pc_ok (s\<lparr>io_seq := sid\<rparr>) (AccIo sid)" using d(5) by simp
  show "pc_ok (s\<lparr>io_seq := sid\<rparr>) p" if "p \<in> set ths" "pc_ok s p" for p
    using that(2) d(7) [OF dd that(1)] d(9) [OF _ that(1)] by (cases p) auto
  show "slot_ok (dead (s\<lparr>io_seq := sid\<rparr>)) (unat (io_count (s\<lparr>io_seq := sid\<rparr>))) (io_pend (s\<lparr>io_seq := sid\<rparr>) + io_lost (s\<lparr>io_seq := sid\<rparr>) + refs (AccIo sid) + R)
      (accs (AccIo sid) + A) (io_posted (s\<lparr>io_seq := sid\<rparr>) + unreleased (AccIo sid) + U) (pushing (AccIo sid) + P) (io_free (s\<lparr>io_seq := sid\<rparr>)) \<and>
    log_ok (accepted (s\<lparr>io_seq := sid\<rparr>)) (released (s\<lparr>io_seq := sid\<rparr>))
      (\<not> dead (s\<lparr>io_seq := sid\<rparr>) \<or> 0 < io_posted (s\<lparr>io_seq := sid\<rparr>) + unreleased (AccIo sid) + U) (io_seq (s\<lparr>io_seq := sid\<rparr>)) (session_id (s\<lparr>io_seq := sid\<rparr>))"
    if "slot_ok (dead s) (unat (io_count s)) (io_pend s + io_lost s + refs (AccSeq sid) + R) (accs (AccSeq sid) + A)
        (io_posted s + unreleased (AccSeq sid) + U) (pushing (AccSeq sid) + P) (io_free s)"
      "log_ok (accepted s) (released s) (\<not> dead s \<or> 0 < io_posted s + unreleased (AccSeq sid) + U) (io_seq s) (session_id s)" for R A U P
    using that dd by (auto simp: slot_ok_def log_ok_def)
qed (use io_inv_atD(1) [OF io_inv_at_mono [OF assms]] in simp_all)

lemma at_acc_io:
  assumes "io_inv_at k s (AccIo sid) ths"
  shows "io_inv_at (Suc k) (s\<lparr>io_count := 1, accepted := accepted s @ [sid]\<rparr>) AccPort ths" (is "io_inv_at _ ?s _ _")
proof -
  note d = io_inv_atD [OF assms]
  have dd: "dead s" using d(3) by simp
  have nf: "\<not> has_flag 1" by (simp add: has_flag_def r_flag_def)
  then have live: "\<not> dead ?s" by (simp add: dead_def)
  have sl: "slot_ok True (unat (io_count s)) (io_pend s + io_lost s + 0 + sum_pcs refs ths) (1 + sum_pcs accs ths)
       (io_posted s + 0 + sum_pcs unreleased ths) (0 + sum_pcs pushing ths) (io_free s)"
    and lg: "log_ok (accepted s) (released s) (0 < io_posted s + sum_pcs unreleased ths) (io_seq s) (session_id s)"
  proof -
    show "slot_ok True (unat (io_count s)) (io_pend s + io_lost s + 0 + sum_pcs refs ths) (1 + sum_pcs accs ths)
       (io_posted s + 0 + sum_pcs unreleased ths) (0 + sum_pcs pushing ths) (io_free s)"
      using assms dd by (simp add: io_inv_at_def)
    have "log_ok (accepted s) (released s) (\<not> dead s \<or> 0 < io_posted s + unreleased (AccIo sid) + sum_pcs unreleased ths)
       (io_seq s) (session_id s)" using assms unfolding io_inv_at_def by blast
    then show "log_ok (accepted s) (released s) (0 < io_posted s + sum_pcs unreleased ths) (io_seq s) (session_id s)"
      using dd by simp
  qed
  have seq: "sid \<notin> set (accepted s)" "sid < session_id s" "io_seq s = sid" using d(5) by simp_all
  show ?thesis
    unfolding io_inv_at_def
  proof (intro conjI impI ballI)
    show "pc_ok ?s p" if "p \<in> insert AccPort (set ths)" for p
      using that d(6) [of p] d(9) [of p] by (cases p) auto
    show "count_ok (Suc k) (io_count ?s)" using nf by (simp add: count_ok_def)
    show "log_ok (accepted ?s) (released ?s) (\<not> dead ?s \<or> 0 < io_posted ?s + unreleased AccPort + sum_pcs unreleased ths) (io_seq ?s) (session_id ?s)"
      using log_ok_begin [of "accepted s" "released s" "io_seq s" "session_id s" sid] lg sl seq live by (simp add: slot_ok_def)
  qed (use sl live in \<open>simp_all add: slot_ok_def\<close>)
qed

lemma at_port_fails:
  assumes "io_inv_at k s AccPort ths"
  shows "io_inv_at (Suc k) (s\<lparr>io_lost := io_lost s + 1\<rparr>) Idle ths"
  using io_inv_atD(1) [OF io_inv_at_mono [OF assms]]
  by (intro at_change [OF assms]) (simp_all add: slot_ok_def)

lemma io_step_inv:
  assumes "io_inv k s" "k < 2 ^ 46" "i < length (pcs s)" "act_ok act s" "io_step i act s = Some s'"
  shows "io_inv (Suc k) s' \<and> length (pcs s') = length (pcs s)"
proof -
  define pc where "pc = pcs s ! i"
  define ths where "ths = (pcs s)[i := Idle]"
  have ths: "pcs s = ths[i := pc]" "i < length ths" "ths ! i = Idle"
    using others_put [OF assms(3)] by (simp_all add: ths_def pc_def)
  have at: "io_inv_at k s pc ths" using assms(1) io_inv_put [OF ths] by simp
  note d = io_inv_atD [OF at]
  have put: ?thesis if "s' = at_pc i q s1" "io_inv_at (Suc k) s1 q ths" "pcs s1 = pcs s" for q s1
  proof -
    have "pcs s' = ths[i := q]" using that(1,3) ths(1) by (simp add: at_pc_def)
    then show ?thesis using that(1,2) io_inv_put [of s' ths i q "Suc k"] ths by simp
  qed
  have stay: ?thesis if "io_inv_at (Suc k) s' pc ths" "pcs s' = pcs s" using that io_inv_put [of s' ths i pc "Suc k"] ths by simp
  note st = assms(5) [unfolded io_step_def Let_def pc_def [symmetric]]
  have calls: ?thesis if pc: "pc = Idle" and s': "(if has_flag (io_count s + 1) then s\<lparr>io_count := io_count s + 1\<rparr>
      else at_pc i q (s\<lparr>io_count := io_count s + 1\<rparr>)) = s'" and q: "refs q = 1" "accs q = 0" "unreleased q = 0" "pushing q = 0" "pc_ok s q"
      and a: "accepted s \<noteq> []" for q
  proof (cases "has_flag (io_count s)")
    case True
    then have "s' = s\<lparr>io_count := io_count s + 1\<rparr>" using s' count_inc(2) [OF d(1) assms(2)] by simp
    then show ?thesis using stay at_stale_inc [OF at assms(2) True a] by simp
  next
    case False
    then have e: "s' = at_pc i q (s\<lparr>io_count := io_count s + 1, io_pend := io_pend s + 0\<rparr>)"
      using s' count_inc(2) [OF d(1) assms(2)] by simp
    have "\<not> dead s" using False a by (simp add: dead_def)
    from put [OF e at_inc [OF at assms(2) this]] show ?thesis using pc q by simp
  qed
  have post: ?thesis if "s' = post_io s" "refs pc = 1" "accs pc = 0" "unreleased pc = 0" "pushing pc = 0"
  proof -
    have "\<not> dead s" using d(2) that(2) by simp
    from at_inc [OF at assms(2) this, of pc 1] show ?thesis using stay that d(5) by (simp add: post_io_def)
  qed
  have dec: ?thesis if "s' = at_pc i q (s\<lparr>io_count := io_count s - 1\<rparr>)" "refs pc = 1" "refs q = 0" "accs pc = 0"
      "unreleased pc = 0" "pushing pc = 0" "q = Idle \<or> q = Cas" for q
    by (rule put [OF that(1) at_dec [OF at assms(2)]]) (use that(2-7) in auto)
  show ?thesis
  proof (cases pc)
    case Idle
    have at': "io_inv_at k s Idle ths" using at Idle by simp
    show ?thesis
    proof (cases act)
      case (Lock sid)
      then have "accepted s \<noteq> []" using assms(4) by (auto simp: act_ok_def)
      then show ?thesis using calls [OF Idle, of "LockSeq sid (io_count s + 1 = 1)"] st Idle Lock by (simp add: io_begin_def Let_def)
    next
      case (Disc sid)
      then have "accepted s \<noteq> []" using assms(4) by (auto simp: act_ok_def)
      then show ?thesis using calls [OF Idle, of "DiscSeq sid"] st Idle Disc by (simp add: io_begin_def Let_def)
    next
      case Complete
      then have c: "io_pend s \<noteq> 0" "s' = at_pc i Work (s\<lparr>io_pend := io_pend s - 1\<rparr>)"
        using st Idle by (auto simp: io_begin_def split: if_splits)
      show ?thesis by (rule put [OF c(2) at_complete [OF at' c(1)]]) simp
    next
      case Release
      then have c: "io_posted s \<noteq> 0" "s' = at_pc i RelCall (s\<lparr>io_posted := io_posted s - 1\<rparr>)"
        using st Idle by (auto simp: io_begin_def split: if_splits)
      show ?thesis by (rule put [OF c(2) at_release [OF at' c(1)]]) simp
    next
      case (Accept j)
      then have c: "io_free s \<noteq> 0" "s' = at_pc i (AccSeq (session_id s + j))
          (s\<lparr>io_free := io_free s - 1, session_id := session_id s + j + 1\<rparr>)"
        using st Idle by (auto simp: io_begin_def split: if_splits)
      show ?thesis by (rule put [OF c(2) at_accept [OF at' c(1)]]) simp
    qed (use st Idle in \<open>auto simp: io_begin_def\<close>)
  next
    case (LockSeq sid one)
    show ?thesis
    proof (cases "io_seq s \<noteq> sid \<or> one")
      case True
      have e: "s' = at_pc i BackOut s" using st LockSeq True by auto
      show ?thesis by (rule put [OF e at_move [OF at]]) (simp_all add: LockSeq)
    next
      case False
      have e: "s' = at_pc i (Holding sid) s" using st LockSeq False by auto
      show ?thesis by (rule put [OF e at_move [OF at]]) (use False in \<open>simp_all add: LockSeq\<close>)
    qed
  next
    case BackOut
    show ?thesis using dec [of Cas] st BackOut by simp
  next
    case (Holding sid)
    show ?thesis using dec [of Cas] post st Holding by (cases "act = PostIo") simp_all
  next
    case (DiscSeq sid)
    show ?thesis
    proof (cases "io_seq s \<noteq> sid")
      case True
      have e: "s' = at_pc i DiscStale s" using st DiscSeq True by auto
      show ?thesis by (rule put [OF e at_move [OF at]]) (simp_all add: DiscSeq)
    next
      case False
      have e: "s' = at_pc i DiscCancel s" using st DiscSeq False by auto
      show ?thesis by (rule put [OF e at_move [OF at]]) (simp_all add: DiscSeq)
    qed
  next
    case DiscStale
    show ?thesis using dec [of Idle] st DiscStale by simp
  next
    case DiscCancel
    show ?thesis using dec [of Cas] st DiscCancel by simp
  next
    case Work
    show ?thesis using dec [of Cas] dec [of Idle] post st Work
      by (cases "act = PostIo"; cases "io_count s - 1 = 0") simp_all
  next
    case (AccSeq sid)
    have e: "s' = at_pc i (AccIo sid) (s\<lparr>io_seq := sid\<rparr>)" using st AccSeq by auto
    show ?thesis by (rule put [OF e at_acc_seq [OF at [unfolded AccSeq]]]) simp
  next
    case (AccIo sid)
    have e: "s' = at_pc i AccPort (s\<lparr>io_count := 1, accepted := accepted s @ [sid]\<rparr>)" using st AccIo by auto
    show ?thesis by (rule put [OF e at_acc_io [OF at [unfolded AccIo]]]) simp
  next
    case AccPort
    show ?thesis
    proof (cases "act = PortFails")
      case True
      have e: "s' = at_pc i Idle (s\<lparr>io_lost := io_lost s + 1\<rparr>)" using st AccPort True by auto
      show ?thesis by (rule put [OF e at_port_fails [OF at [unfolded AccPort]]]) simp
    next
      case False
      have e: "s' = at_pc i Work s" using st AccPort False by auto
      show ?thesis by (rule put [OF e at_move [OF at]]) (simp_all add: AccPort)
    qed
  next
    case Cas
    show ?thesis
    proof (cases "io_count s = 0")
      case True
      have e: "s' = at_pc i PostRel (s\<lparr>io_count := r_flag\<rparr>)" using st Cas True by auto
      show ?thesis by (rule put [OF e at_cas_hit [OF at [unfolded Cas] True]]) simp
    next
      case False
      have e: "s' = at_pc i Idle s" using st Cas False by auto
      show ?thesis by (rule put [OF e at_move [OF at]]) (simp_all add: Cas)
    qed
  next
    case PostRel
    have e: "s' = at_pc i Idle (s\<lparr>io_posted := io_posted s + 1\<rparr>)" using st PostRel by auto
    show ?thesis by (rule put [OF e at_post_release [OF at [unfolded PostRel]]]) simp
  next
    case RelCall
    have e: "s' = at_pc i RelPush (s\<lparr>released := released s @ [io_seq s]\<rparr>)" using st RelCall by auto
    show ?thesis by (rule put [OF e at_release_call [OF at [unfolded RelCall]]]) simp
  next
    case RelPush
    have e: "s' = at_pc i Idle (s\<lparr>io_free := io_free s + 1\<rparr>)" using st RelPush by auto
    show ?thesis by (rule put [OF e at_release_push [OF at [unfolded RelPush]]]) simp
  qed
qed

lemma io_run_inv:
  "io_run sched s = Some s' \<Longrightarrow> io_inv k s \<Longrightarrow> k + length sched \<le> 2 ^ 46 \<Longrightarrow> io_inv (k + length sched) s'"
proof (induction sched arbitrary: s k)
  case Nil
  then show ?case by simp
next
  case (Cons m sched)
  obtain i act where m: "m = (i, act)" by fastforce
  obtain s1 where s1: "i < length (pcs s)" "act_ok act s" "io_step i act s = Some s1" "io_run sched s1 = Some s'"
    using Cons.prems(1) m by (auto split: if_splits bind_splits)
  have "io_inv (Suc k) s1" using io_step_inv [OF Cons.prems(2) _ s1(1-3)] Cons.prems(3) by simp
  from Cons.IH [OF s1(4) this] Cons.prems(3) show ?case by simp
qed

lemma new_io_inv: "io_inv 0 (new_io n)"
proof -
  have z: "sum_pcs f (replicate n Idle) = 0" if "f Idle = 0" for f :: "io_pc \<Rightarrow> nat"
    by (rule sum_pcs_idle [of f Idle]) (use that in auto)
  have d: "dead (new_io n)" by (simp add: dead_def new_io_def)
  show ?thesis
    unfolding io_inv_def io_inv_at_def
    by (simp add: d) (simp add: new_io_def z slot_ok_def count_ok_def has_flag_def log_ok_def)
qed

lemma io_invD:
  assumes "io_inv k s"
  shows "0 < sum_pcs refs (pcs s) + io_pend s + io_lost s \<Longrightarrow> \<not> dead s"
    "\<not> dead s \<Longrightarrow> io_posted s + sum_pcs unreleased (pcs s) + sum_pcs pushing (pcs s) + sum_pcs accs (pcs s) + io_free s = 0"
    "dead s \<Longrightarrow> io_posted s + sum_pcs unreleased (pcs s) + sum_pcs pushing (pcs s) + sum_pcs accs (pcs s) + io_free s = 1"
    "log_ok (accepted s) (released s) (\<not> dead s \<or> 0 < io_posted s + sum_pcs unreleased (pcs s)) (io_seq s) (session_id s)"
    "p \<in> set (pcs s) \<Longrightarrow> pc_ok s p"
    "\<not> dead s \<Longrightarrow> unat (io_count s) = io_pend s + io_lost s + sum_pcs refs (pcs s)"
proof -
  have a: "slot_ok (dead s) (unat (io_count s)) (io_pend s + io_lost s + refs Idle + sum_pcs refs (pcs s)) (accs Idle + sum_pcs accs (pcs s))
       (io_posted s + unreleased Idle + sum_pcs unreleased (pcs s)) (pushing Idle + sum_pcs pushing (pcs s)) (io_free s)"
    "log_ok (accepted s) (released s) (\<not> dead s \<or> 0 < io_posted s + unreleased Idle + sum_pcs unreleased (pcs s)) (io_seq s) (session_id s)"
    "\<forall>p \<in> set (pcs s). pc_ok s p"
    using assms unfolding io_inv_def io_inv_at_def by blast+
  show "0 < sum_pcs refs (pcs s) + io_pend s + io_lost s \<Longrightarrow> \<not> dead s"
    "\<not> dead s \<Longrightarrow> io_posted s + sum_pcs unreleased (pcs s) + sum_pcs pushing (pcs s) + sum_pcs accs (pcs s) + io_free s = 0"
    "dead s \<Longrightarrow> io_posted s + sum_pcs unreleased (pcs s) + sum_pcs pushing (pcs s) + sum_pcs accs (pcs s) + io_free s = 1"
    "\<not> dead s \<Longrightarrow> unat (io_count s) = io_pend s + io_lost s + sum_pcs refs (pcs s)"
    using a(1) by (auto simp: slot_ok_def split: if_splits)
  show "log_ok (accepted s) (released s) (\<not> dead s \<or> 0 < io_posted s + sum_pcs unreleased (pcs s)) (io_seq s) (session_id s)"
    using a(2) by simp
  show "p \<in> set (pcs s) \<Longrightarrow> pc_ok s p" using a(3) by blast
qed

section \<open>Releases\<close>

text \<open>
  C6: However threads interleave, \<^verbatim>\<open>OnRelease\<close> is called at most once for every accepted session, in
  the order of the accepts, and for no other identifier. While a thread is between \<^verbatim>\<open>SessionLock\<close>
  and \<^verbatim>\<open>SessionUnLock\<close> of an identifier, or an I/O is in flight, the slot still belongs to that
  session, it has not been released, and no release is posted or under way.
\<close>

theorem session_released_once:
  assumes "io_run sched (new_io n) = Some s" "length sched \<le> 2 ^ 46"
  shows "distinct (released s) \<and> (accepted s = released s \<or> accepted s = released s @ [io_seq s]) \<and>
    (\<forall>sid. Holding sid \<in> set (pcs s) \<longrightarrow>
       sid = io_seq s \<and> sid \<notin> set (released s) \<and> io_posted s = 0 \<and> set (pcs s) \<inter> {PostRel, RelCall, RelPush} = {}) \<and>
    (0 < io_pend s \<longrightarrow>
       io_seq s \<notin> set (released s) \<and> io_posted s = 0 \<and> set (pcs s) \<inter> {PostRel, RelCall, RelPush} = {})"
proof -
  have inv: "io_inv (length sched) s" using io_run_inv [OF assms(1) new_io_inv] assms(2) by simp
  note d = io_invD [OF inv]
  have l: "distinct (accepted s)" "accepted s = released s @ (if \<not> dead s \<or> 0 < io_posted s + sum_pcs unreleased (pcs s) then [io_seq s] else [])"
    using d(4) unfolding log_ok_def by blast+
  have live: "io_seq s \<notin> set (released s) \<and> io_posted s = 0 \<and> set (pcs s) \<inter> {PostRel, RelCall, RelPush} = {}" if "\<not> dead s"
  proof (intro conjI)
    show "io_seq s \<notin> set (released s)" using l that by simp
    show "io_posted s = 0" using d(2) [OF that] by simp
    have "unreleased p = 0 \<and> pushing p = 0" if "p \<in> set (pcs s)" for p
      using d(2) [OF \<open>\<not> dead s\<close>] member_sum_pcs_nat [OF that, of unreleased] member_sum_pcs_nat [OF that, of pushing] by simp
    then show "set (pcs s) \<inter> {PostRel, RelCall, RelPush} = {}" by fastforce
  qed
  have "\<not> dead s \<and> sid = io_seq s" if "Holding sid \<in> set (pcs s)" for sid
    using d(1,5) that member_sum_pcs_nat [OF that, of refs] by fastforce
  moreover have "\<not> dead s" if "0 < io_pend s" using d(1) that by simp
  moreover have "distinct (released s)" "accepted s = released s \<or> accepted s = released s @ [io_seq s]"
    using l by (auto split: if_splits)
  ultimately show ?thesis using live by blast
qed

definition sample_life :: "(nat \<times> io_act) list" where
  "sample_life = [(0, Accept 0), (0, Go), (0, Go), (0, Go), (1, Lock 0), (1, Go), (0, PostIo), (0, Go), (1, PostIo), (2, Disc 0), (2, Go)]"

lemma sample_life_run:
  "map_option (\<lambda>s. (pcs s, io_pend s)) (io_run sample_life (new_io 3)) = Some ([Idle, Holding 0, DiscCancel], 2)"
  by code_simp

lemma session_released_once_witness:
  "\<exists>s. io_run sample_life (new_io 3) = Some s \<and> 0 \<notin> set (released s) \<and> io_posted s = 0"
proof -
  obtain s where s: "io_run sample_life (new_io 3) = Some s" "pcs s = [Idle, Holding 0, DiscCancel]"
    using sample_life_run by auto
  from session_released_once [OF s(1)] s(2) have "0 \<notin> set (released s) \<and> io_posted s = 0"
    by (simp add: sample_life_def)
  then show ?thesis using s(1) by blast
qed

text \<open>
  A release can be lost: the stale branch of \<^verbatim>\<open>Disconnect\<close> gives its reference back without the
  exchange. \<open>stale_free\<close> are the runs in which no thread takes that step.
\<close>

fun stale_free :: "(nat \<times> io_act) list \<Rightarrow> io_state \<Rightarrow> bool" where
  "stale_free [] s = True"
| "stale_free ((i, act) # sched) s =
     (pcs s ! i \<noteq> DiscStale \<and> (case io_step i act s of None \<Rightarrow> True | Some s1 \<Rightarrow> stale_free sched s1))"

definition not_lost :: "io_state \<Rightarrow> bool" where
  "not_lost s \<longleftrightarrow> (\<not> dead s \<and> io_count s = 0 \<longrightarrow> Cas \<in> set (pcs s))"

lemma keep_member: "x \<in> set xs \<Longrightarrow> xs ! i \<noteq> x \<Longrightarrow> x \<in> set (xs[i := y])"
  by (metis in_set_conv_nth length_list_update nth_list_update_neq)

lemma io_step_not_lost:
  assumes "io_inv k s" "k < 2 ^ 46" "i < length (pcs s)" "not_lost s" "pcs s ! i \<noteq> DiscStale" "io_step i act s = Some s'"
  shows "not_lost s'"
proof -
  have c: "count_ok k (io_count s)" using assms(1) by (simp add: io_inv_def io_inv_at_def)
  note nz = count_inc(4) [OF c assms(2)]
  have moved: ?thesis if "io_count s' = io_count s" "accepted s' = accepted s" "pcs s' = (pcs s)[i := q]" "pcs s ! i \<noteq> Cas" for q
    using that assms(4) keep_member [of Cas "pcs s" i q] by (auto simp: not_lost_def dead_def)
  have own: ?thesis if "Cas = q" "pcs s' = (pcs s)[i := q]" for q
    using that assms(3) by (simp add: not_lost_def set_update_memI)
  have pos: ?thesis if "io_count s' \<noteq> 0 \<or> dead s'" using that by (auto simp: not_lost_def)
  note st = assms(6) [unfolded io_step_def Let_def]
  show ?thesis
  proof (cases "pcs s ! i")
    case Idle
    show ?thesis
    proof (cases act)
      case (Lock sid)
      then show ?thesis using pos st Idle nz by (auto simp: io_begin_def Let_def at_pc_def split: if_splits)
    next
      case (Disc sid)
      then show ?thesis using pos st Idle nz by (auto simp: io_begin_def Let_def at_pc_def split: if_splits)
    qed (use moved st Idle in \<open>auto simp: io_begin_def at_pc_def split: if_splits\<close>)
  next
    case (LockSeq sid one)
    then show ?thesis using moved st by (auto simp: at_pc_def split: if_splits)
  next
    case BackOut
    then show ?thesis using own st by (auto simp: at_pc_def)
  next
    case (Holding sid)
    then show ?thesis using own pos st nz by (cases "act = PostIo") (auto simp: at_pc_def post_io_def)
  next
    case (DiscSeq sid)
    then show ?thesis using moved st by (auto simp: at_pc_def split: if_splits)
  next
    case DiscCancel
    then show ?thesis using own st by (auto simp: at_pc_def)
  next
    case Work
    then show ?thesis using own pos st nz
      by (cases "act = PostIo"; cases "io_count s - 1 = 0") (auto simp: at_pc_def post_io_def)
  next
    case (AccSeq sid)
    then show ?thesis using moved st by (auto simp: at_pc_def)
  next
    case (AccIo sid)
    then show ?thesis using pos st by (auto simp: at_pc_def)
  next
    case AccPort
    then show ?thesis using moved st by (auto simp: at_pc_def split: if_splits)
  next
    case Cas
    then show ?thesis using pos st r_flag_facts by (auto simp: at_pc_def split: if_splits)
  next
    case PostRel
    then show ?thesis using moved st by (auto simp: at_pc_def)
  next
    case RelCall
    then show ?thesis using moved st by (auto simp: at_pc_def)
  next
    case RelPush
    then show ?thesis using moved st by (auto simp: at_pc_def)
  qed (use assms(5) in simp)
qed

lemma io_run_not_lost:
  "io_run sched s = Some s' \<Longrightarrow> stale_free sched s \<Longrightarrow> io_inv k s \<Longrightarrow> k + length sched \<le> 2 ^ 46 \<Longrightarrow> not_lost s \<Longrightarrow> not_lost s'"
proof (induction sched arbitrary: s k)
  case Nil
  then show ?case by simp
next
  case (Cons m sched)
  obtain i act where m: "m = (i, act)" by fastforce
  obtain s1 where s1: "i < length (pcs s)" "act_ok act s" "io_step i act s = Some s1" "io_run sched s1 = Some s'"
    using Cons.prems(1) m by (auto split: if_splits bind_splits)
  have k: "k < 2 ^ 46" using Cons.prems(4) by simp
  have sf: "pcs s ! i \<noteq> DiscStale" "stale_free sched s1" using Cons.prems(2) m s1(3) by auto
  show ?case
    using Cons.IH [OF s1(4) sf(2) conjunct1 [OF io_step_inv [OF Cons.prems(3) k s1(1-3)]]]
      io_step_not_lost [OF Cons.prems(3) k s1(1) Cons.prems(5) sf(1) s1(3)] Cons.prems(4) by simp
qed

text \<open>
  C7: Without a \<^verbatim>\<open>Disconnect\<close> of an identifier whose slot has gone to another session, no release
  is lost but for one defect: when all threads are idle and no I/O is in flight, the slot is free
  again, or its one release waits in the completion port, unless the association of the socket with
  the completion port failed in \<^verbatim>\<open>AcceptThread\<close>. Then the reference of the accept is never given
  back: the slot is neither free nor is a release posted, its count is that reference, and
  \<^verbatim>\<open>OnRelease\<close> has not been called for the session that has it.
\<close>

theorem no_release_lost:
  assumes "io_run sched (new_io n) = Some s" "length sched \<le> 2 ^ 46" "stale_free sched (new_io n)"
    "\<forall>p \<in> set (pcs s). p = Idle" "io_pend s = 0"
  shows "if io_lost s = 0 then io_posted s + io_free s = 1
    else io_posted s = 0 \<and> io_free s = 0 \<and> unat (io_count s) = io_lost s \<and> accepted s = released s @ [io_seq s]"
proof -
  have inv: "io_inv (length sched) s" using io_run_inv [OF assms(1) new_io_inv] assms(2) by simp
  note d = io_invD [OF inv]
  have z: "sum_pcs f (pcs s) = 0" if "f Idle = 0" for f :: "io_pc \<Rightarrow> nat"
    by (rule sum_pcs_idle [of f Idle]) (use that assms(4) in auto)
  have "not_lost (new_io n)" by (simp add: not_lost_def dead_def new_io_def)
  from io_run_not_lost [OF assms(1,3) new_io_inv _ this] assms(2) have nl: "not_lost s" by simp
  show ?thesis
  proof (cases "io_lost s = 0")
    case True
    have "dead s"
    proof (rule ccontr)
      assume l: "\<not> dead s"
      then have "io_count s = 0" using d(6) z [of refs] assms(5) True by (simp add: unat_eq_0)
      then show False using nl l assms(4) by (auto simp: not_lost_def)
    qed
    then show ?thesis using True d(3) z [of unreleased] z [of pushing] z [of accs] by simp
  next
    case False
    then have l: "\<not> dead s" using d(1) by simp
    have "accepted s = released s @ [io_seq s]" using d(4) l by (simp add: log_ok_def)
    moreover have "unat (io_count s) = io_lost s" using d(6) [OF l] z [of refs] assms(5) by simp
    ultimately show ?thesis using False d(2) [OF l] by simp
  qed
qed

definition sample_release :: "(nat \<times> io_act) list" where
  "sample_release = [(0, Accept 0), (0, Go), (0, Go), (0, Go), (1, Lock 0), (1, Go), (0, Go), (1, Go), (1, Go), (1, Go)]"

lemma sample_release_run:
  "map_option (\<lambda>s. (pcs s, io_pend s, io_lost s, io_free s)) (io_run sample_release (new_io 2)) = Some ([Idle, Idle], 0, 0, 0)"
  "stale_free sample_release (new_io 2)"
  by code_simp+

definition sample_port_fails :: "(nat \<times> io_act) list" where
  "sample_port_fails = [(0, Accept 0), (0, Go), (0, Go), (0, PortFails), (1, Lock 0), (1, Go), (1, Go), (1, Go)]"

lemma sample_port_fails_run:
  "map_option (\<lambda>s. (pcs s, io_pend s, io_lost s)) (io_run sample_port_fails (new_io 2)) = Some ([Idle, Idle], 0, 1)"
  "stale_free sample_port_fails (new_io 2)"
  by code_simp+

lemma no_release_lost_witness:
  "(\<exists>s. io_run sample_release (new_io 2) = Some s \<and> io_posted s = 1) \<and>
   (\<exists>s. io_run sample_port_fails (new_io 2) = Some s \<and> io_posted s = 0 \<and> io_free s = 0 \<and> io_count s = 1)"
proof
  obtain s where s: "io_run sample_release (new_io 2) = Some s" "pcs s = [Idle, Idle]" "io_pend s = 0" "io_lost s = 0" "io_free s = 0"
    using sample_release_run(1) by auto
  from no_release_lost [OF s(1) _ sample_release_run(2)] s
  show "\<exists>s. io_run sample_release (new_io 2) = Some s \<and> io_posted s = 1" by (simp add: sample_release_def)
next
  obtain s where s: "io_run sample_port_fails (new_io 2) = Some s" "pcs s = [Idle, Idle]" "io_pend s = 0" "io_lost s = 1"
    using sample_port_fails_run(1) by auto
  from no_release_lost [OF s(1) _ sample_port_fails_run(2)] s
  show "\<exists>s. io_run sample_port_fails (new_io 2) = Some s \<and> io_posted s = 0 \<and> io_free s = 0 \<and> io_count s = 1"
    by (simp add: sample_port_fails_def word_unat_eq_iff)
qed

text \<open>
  The lost release. A first session comes and goes; while a \<^verbatim>\<open>Disconnect\<close> of it is under way, the
  second session of the slot loses its last reference.
\<close>

lemma release_lost:
  "map_option (\<lambda>s. (pcs s, io_count s, io_pend s, io_posted s, io_free s, accepted s, released s))
     (io_run
        [(0, Accept 0), (0, Go), (0, Go), (0, Go), (0, Go), (0, Go), (0, Go), (0, Release), (0, Go), (0, Go),
         (0, Accept 0), (0, Go), (0, Go), (0, Go), (1, Disc 0), (1, Go), (0, Go), (1, Go)] (new_io 2)) =
   Some ([Idle, Idle], 0, 0, 0, 0, [0, 1], [0])"
  by code_simp

section \<open>Slots that were never used\<close>

text \<open>
  A slot that never had a session has the identifier 0, which names slot 0, and a count without the
  flag: \<^verbatim>\<open>Stop\<close> of a server nobody connected to posts a release of slot 0, for which \<^verbatim>\<open>OnRelease\<close> is
  called without an accept before it.
\<close>

lemma Stop_releases_unused_slot:
  "map_option iocp (Stop 5 (Start [] 1 2 (new_CLanServer True 100 5000))) = Some [ReleasePost 0]"
proof -
  have "replicate 2 x = [x, x]" for x :: clsSession by (simp add: numeral_2_eq_2)
  then show ?thesis
    by (simp add: Stop_def Start_def new_CLanServer_def Disconnect_def slot_def io_add_def upd_session_def new_clsSession_def
      upt_rec os_def CancelIO_Routine_def release_if_zero_def ReleaseSession_def post_def r_flag_def Let_def)
qed

end
