(* ===== verification/Parser.thy ===== *)
theory Parser
  imports Prelude
begin

text \<open>
  The configuration parser (\<^verbatim>\<open>utility/Parser/Parser.h\<close>, \<^verbatim>\<open>Parser.cpp\<close>) the servers read
  \<^verbatim>\<open>Config.txt\<close> with. The buffer is the list of \<^verbatim>\<open>WCHAR\<close>s that \<^verbatim>\<open>LoadFile\<close> allocates, with its
  terminator and the memory behind it; a pointer into it is an index. A read outside the allocation
  and an integer operation without a defined result are \<open>None\<close>. The scanning loops are functions
  with a measure; the last section relates them to a grammar of configuration files.
\<close>

section \<open>Characters\<close>

abbreviation (input) tab_ch :: u16 where "tab_ch \<equiv> 9"
abbreviation (input) newline_ch :: u16 where "newline_ch \<equiv> 10"
abbreviation (input) return_ch :: u16 where "return_ch \<equiv> 13"
abbreviation (input) blank_ch :: u16 where "blank_ch \<equiv> 32"
abbreviation (input) quote_ch :: u16 where "quote_ch \<equiv> 34"
abbreviation (input) plus_ch :: u16 where "plus_ch \<equiv> 43"
abbreviation (input) comma_ch :: u16 where "comma_ch \<equiv> 44"
abbreviation (input) minus_ch :: u16 where "minus_ch \<equiv> 45"
abbreviation (input) dot_ch :: u16 where "dot_ch \<equiv> 46"
abbreviation (input) slash_ch :: u16 where "slash_ch \<equiv> 47"
abbreviation (input) zero_ch :: u16 where "zero_ch \<equiv> 48"
abbreviation (input) semicolon_ch :: u16 where "semicolon_ch \<equiv> 59"
abbreviation (input) equals_ch :: u16 where "equals_ch \<equiv> 61"

text \<open>A wide literal.\<close>

definition wide :: "string \<Rightarrow> u16 list" where
  "wide s = map of_char s"

section \<open>The classes\<close>

datatype ESearchType = SucceseSearch | HasNotTag | MissSemicolon | MissEqule | HasNotLineBreak
  | StringValue | HasNotquotation | BufferOverflow

text \<open>
  \<open>buffer\<close> is \<^verbatim>\<open>nullptr\<close> before a file is loaded. A \<^verbatim>\<open>const WCHAR *\<close> tag is its address and its
  text; the static \<^verbatim>\<open>ParserManager::_tags\<close> holds addresses. The log file is the list of the lines
  written to it.
\<close>

record Parser =
  buffer :: "u16 list option"

type_synonym tag_ptr = "nat \<times> u16 list"

record parser_log =
  log_tags :: "nat list"
  log_lines :: "(u16 list \<times> ESearchType) list"

definition existChk :: "parser_log \<Rightarrow> nat \<Rightarrow> bool" where
  "existChk lg target \<longleftrightarrow> target \<in> set (log_tags lg)"

text \<open>\<open>opens\<close> tells whether \<^verbatim>\<open>_wfopen_s\<close> gives a file.\<close>

definition WriteLog :: "bool \<Rightarrow> parser_log \<Rightarrow> ESearchType \<Rightarrow> tag_ptr \<Rightarrow> bool \<times> parser_log" where
  "WriteLog opens lg msg tag =
     (if existChk lg (fst tag) then (True, lg)
      else let lg1 = lg\<lparr>log_tags := log_tags lg @ [fst tag]\<rparr>
           in if opens then (True, lg1\<lparr>log_lines := log_lines lg1 @ [(snd tag, msg)]\<rparr>) else (False, lg1))"

lemma WriteLog_marks: "existChk (snd (WriteLog opens lg msg tag)) (fst tag)"
  by (simp add: WriteLog_def existChk_def Let_def)

text \<open>The macro repeats the call until it succeeds.\<close>

function WRITE_TAGLOG :: "bool \<Rightarrow> parser_log \<Rightarrow> ESearchType \<Rightarrow> tag_ptr \<Rightarrow> parser_log" where
  "WRITE_TAGLOG opens lg msg tag =
     (let (done, lg1) = WriteLog opens lg msg tag in if done then lg1 else WRITE_TAGLOG opens lg1 msg tag)"
  by pat_completeness auto

termination
proof (relation "measure (\<lambda>(opens, lg, msg, tag). if existChk lg (fst tag) then 0 else 1)")
  show "((opens, lg1, msg, tag), (opens, lg, msg, tag))
          \<in> measure (\<lambda>(opens, lg, msg, tag). if existChk lg (fst tag) then 0 else 1)"
    if "x = WriteLog opens lg msg tag" "(d, lg1) = x" "\<not> d" for opens lg msg tag x d lg1
  proof -
    from that have "lg1 = snd (WriteLog opens lg msg tag)" by (metis snd_conv)
    moreover have "\<not> existChk lg (fst tag)" using that by (auto simp: WriteLog_def)
    ultimately show ?thesis by (simp add: WriteLog_marks)
  qed
qed simp

declare WRITE_TAGLOG.simps [simp del]

lemma WRITE_TAGLOG_eq:
  "WRITE_TAGLOG opens lg msg tag =
     (if existChk lg (fst tag) then lg
      else \<lparr>log_tags = log_tags lg @ [fst tag], log_lines = log_lines lg @ (if opens then [(snd tag, msg)] else [])\<rparr>)"
proof -
  have known: "WRITE_TAGLOG opens l msg tag = l" if "existChk l (fst tag)" for l
    using that by (subst WRITE_TAGLOG.simps) (simp add: WriteLog_def)
  show ?thesis
  proof (cases "existChk lg (fst tag)")
    case False
    let ?lg1 = "lg\<lparr>log_tags := log_tags lg @ [fst tag]\<rparr>"
    have "existChk ?lg1 (fst tag)" by (simp add: existChk_def)
    with known False show ?thesis
      by (subst WRITE_TAGLOG.simps) (cases lg; cases opens; simp add: WriteLog_def Let_def)
  qed (simp add: known)
qed

text \<open>
  \<^verbatim>\<open>LoadFile\<close>: \<open>file\<close> is what \<^verbatim>\<open>fread\<close> delivers of the file in text mode (its first character is
  the byte order mark) and the memory of the allocation behind the terminator; \<open>None\<close> when the file
  cannot be opened.
\<close>

definition LoadFile :: "(u16 list \<times> u16 list) option \<Rightarrow> Parser \<Rightarrow> bool \<times> Parser" where
  "LoadFile file p =
     (case file of None \<Rightarrow> (False, p) | Some (text, junk) \<Rightarrow> (True, p\<lparr>buffer := Some (text @ [0] @ junk)\<rparr>))"

section \<open>Scanning\<close>

definition rd :: "u16 list \<Rightarrow> nat \<Rightarrow> u16 option" where
  "rd b i = (if i < length b then Some (b ! i) else None)"

definition wcslen :: "u16 list \<Rightarrow> nat option" where
  "wcslen b = (if 0 \<in> set b then Some (length (takeWhile (\<lambda>c. c \<noteq> 0) b)) else None)"

text \<open>
  The loops that move one pointer up to a character of a kind, or up to the terminator where the
  loop looks for it (\<open>lim\<close>). Where the source tests the character before the end, the order makes no
  difference: the character at \<^verbatim>\<open>pStrend\<close> is the terminator, which no loop stops at.
\<close>

datatype scan_end = Found nat | AtEnd

function scan_for :: "(u16 \<Rightarrow> bool) \<Rightarrow> nat option \<Rightarrow> u16 list \<Rightarrow> nat \<Rightarrow> scan_end option" where
  "scan_for stop lim b i =
     (if lim = Some i then Some AtEnd
      else if length b \<le> i then None
      else if stop (b ! i) then Some (Found i) else scan_for stop lim b (Suc i))"
  by pat_completeness auto
termination by (relation "measure (\<lambda>(stop, lim, b, i). length b - i)") auto

declare scan_for.simps [simp del]

definition tag_blank :: "u16 \<Rightarrow> bool" where
  "tag_blank c \<longleftrightarrow> c = blank_ch \<or> c = comma_ch \<or> c = dot_ch \<or> c = quote_ch \<or> c = tab_ch \<or>
     c = newline_ch \<or> c = return_ch"

definition tag_end :: "u16 \<Rightarrow> bool" where
  "tag_end c \<longleftrightarrow> c = newline_ch \<or> c = blank_ch \<or> c = tab_ch \<or> c = equals_ch"

definition value_blank :: "u16 \<Rightarrow> bool" where
  "value_blank c \<longleftrightarrow> c = blank_ch \<or> c = comma_ch \<or> c = dot_ch \<or> c = tab_ch \<or> c = newline_ch \<or> c = return_ch"

text \<open>The first statement of the loop that looks for the start of a tag: one comment is skipped.\<close>

definition comment_step :: "nat \<Rightarrow> u16 list \<Rightarrow> nat \<Rightarrow> (ESearchType + nat) option" where
  "comment_step e b left =
     (case rd b left of None \<Rightarrow> None
      | Some c \<Rightarrow>
         if c \<noteq> slash_ch then Some (Inr left)
         else case rd b (Suc left) of None \<Rightarrow> None
           | Some d \<Rightarrow>
              if d \<noteq> slash_ch then Some (Inr left)
              else case scan_for (\<lambda>c. c = newline_ch) (Some e) b left of None \<Rightarrow> None
                | Some AtEnd \<Rightarrow> Some (Inl HasNotLineBreak)
                | Some (Found j) \<Rightarrow> Some (Inr (Suc j)))"

lemma scan_for_FoundD:
  assumes "scan_for stop lim b i = Some (Found j)"
  shows "i \<le> j" "j < length b" "stop (b ! j)" "\<And>k. i \<le> k \<Longrightarrow> k < j \<Longrightarrow> \<not> stop (b ! k)" "lim \<noteq> Some j"
proof -
  have "i \<le> j \<and> j < length b \<and> stop (b ! j) \<and> (\<forall>k. i \<le> k \<longrightarrow> k < j \<longrightarrow> \<not> stop (b ! k)) \<and> lim \<noteq> Some j"
    using assms
  proof (induction stop lim b i rule: scan_for.induct)
    case (1 stop lim b i)
    show ?case
    proof (cases "lim = Some i \<or> length b \<le> i \<or> stop (b ! i)")
      case True
      with 1(2) show ?thesis by (auto simp: scan_for.simps [of stop lim b i] split: if_splits)
    next
      case False
      with 1(2) have r: "scan_for stop lim b (Suc i) = Some (Found j)" by (simp add: scan_for.simps [of stop lim b i])
      from False have a: "lim \<noteq> Some i" "\<not> length b \<le> i" "\<not> stop (b ! i)" by simp_all
      from 1(1) [OF a r] a(3) show ?thesis by (metis Suc_leI le_neq_implies_less Suc_leD)
    qed
  qed
  then show "i \<le> j" "j < length b" "stop (b ! j)" "\<And>k. i \<le> k \<Longrightarrow> k < j \<Longrightarrow> \<not> stop (b ! k)" "lim \<noteq> Some j" by blast+
qed

lemma comment_step_mono: "comment_step e b left = Some (Inr l) \<Longrightarrow> left \<le> l \<and> l \<le> length b"
  by (auto simp: comment_step_def rd_def split: if_splits option.splits scan_end.splits dest: scan_for_FoundD(1,2))

function skip_tag :: "nat \<Rightarrow> u16 list \<Rightarrow> nat \<Rightarrow> (ESearchType + nat) option" where
  "skip_tag e b left =
     (case comment_step e b left of None \<Rightarrow> None
      | Some (Inl t) \<Rightarrow> Some (Inl t)
      | Some (Inr l) \<Rightarrow>
         if length b \<le> l then None
         else if tag_blank (b ! l) then skip_tag e b (Suc l)
         else if l = e then Some (Inl HasNotTag) else Some (Inr l))"
  by pat_completeness auto
termination
  by (relation "measure (\<lambda>(e, b, left). length b - left)") (auto dest: comment_step_mono)

declare skip_tag.simps [simp del]

text \<open>
  One turn of the outer loop behind the start of a tag at \<open>left\<close>: the tag is found and ends at
  \<open>right\<close>, or the turn goes on at another place, or the file is exhausted. The comparison is over the
  copy \<^verbatim>\<open>key\<close> of the characters between the two pointers.
\<close>

datatype tag_turn = Tag_found nat | Go_on ESearchType nat | No_tag ESearchType

definition tag_turn :: "nat \<Rightarrow> u16 list \<Rightarrow> u16 list \<Rightarrow> ESearchType \<Rightarrow> nat \<Rightarrow> tag_turn option" where
  "tag_turn e b tag result left =
     (case scan_for tag_end None b left of
        None \<Rightarrow> None
      | Some AtEnd \<Rightarrow> None
      | Some (Found right) \<Rightarrow>
         if right - left \<noteq> length tag then
           (case scan_for (\<lambda>c. c = newline_ch) (Some e) b right of None \<Rightarrow> None
            | Some AtEnd \<Rightarrow> Some (No_tag HasNotTag)
            | Some (Found l) \<Rightarrow> Some (Go_on result (Suc l)))
         else if take (right - left) (drop left b) = tag then Some (Tag_found right)
         else (case scan_for (\<lambda>c. c = newline_ch \<or> c = semicolon_ch) (Some e) b left of None \<Rightarrow> None
               | Some AtEnd \<Rightarrow> Some (Go_on HasNotTag e)
               | Some (Found l) \<Rightarrow> Some (Go_on result (Suc l))))"

lemma scan_for_AtEndD: "scan_for stop lim b i = Some AtEnd \<Longrightarrow> \<exists>e. lim = Some e \<and> i \<le> e"
proof (induction stop lim b i rule: scan_for.induct)
  case (1 stop lim b i)
  then show ?case
    by (cases "lim = Some i") (auto simp: scan_for.simps [of stop lim b i] split: if_splits)
qed

lemma skip_tag_start:
  "skip_tag e b left = Some (Inr l) \<Longrightarrow> left \<le> l \<and> l < length b \<and> l \<noteq> e \<and> \<not> tag_blank (b ! l)"
proof (induction e b left rule: skip_tag.induct)
  case (1 e b left)
  from 1(2) obtain l1 where c: "comment_step e b left = Some (Inr l1)"
    by (simp add: skip_tag.simps [of e b left] split: option.splits sum.splits)
  with 1(2) have r: "(if length b \<le> l1 then None
         else if tag_blank (b ! l1) then skip_tag e b (Suc l1)
         else if l1 = e then Some (Inl HasNotTag) else Some (Inr l1)) = Some (Inr l)"
    by (simp add: skip_tag.simps [of e b left])
  from comment_step_mono [OF c] have m: "left \<le> l1" by simp
  show ?case
  proof (cases "tag_blank (b ! l1)")
    case True
    with r have "skip_tag e b (Suc l1) = Some (Inr l)" "\<not> length b \<le> l1" by (simp_all split: if_splits)
    with 1(1) [OF c refl _ True] m show ?thesis by simp
  next
    case False
    with r m show ?thesis by (simp split: if_splits)
  qed
qed

lemma tag_turn_progress:
  assumes "tag_turn e b tag result left = Some (Go_on r l)" "left \<noteq> e"
  shows "left < l"
  using assms
  by (auto simp: tag_turn_def split: if_splits option.splits scan_end.splits
      dest!: scan_for_FoundD(1) scan_for_AtEndD)

function SearchTag_from :: "nat \<Rightarrow> u16 list \<Rightarrow> u16 list \<Rightarrow> ESearchType \<Rightarrow> nat \<Rightarrow> (ESearchType \<times> nat option) option" where
  "SearchTag_from e b tag result left =
     (case skip_tag e b left of None \<Rightarrow> None
      | Some (Inl t) \<Rightarrow> Some (t, None)
      | Some (Inr l) \<Rightarrow>
         (case tag_turn e b tag result l of None \<Rightarrow> None
          | Some (No_tag t) \<Rightarrow> Some (t, None)
          | Some (Go_on r l2) \<Rightarrow> SearchTag_from e b tag r l2
          | Some (Tag_found right) \<Rightarrow> Some (result, Some (Suc right))))"
  by pat_completeness auto
termination
  by (relation "measure (\<lambda>(e, b, tag, result, left). length b - left)")
    (auto dest!: skip_tag_start tag_turn_progress)

declare SearchTag_from.simps [simp del]

text \<open>The first character of the buffer is the byte order mark.\<close>

definition SearchTag :: "Parser \<Rightarrow> u16 list \<Rightarrow> (ESearchType \<times> nat option) option" where
  "SearchTag p tag =
     (case buffer p of None \<Rightarrow> None
      | Some b \<Rightarrow> (case wcslen b of None \<Rightarrow> None | Some e \<Rightarrow> SearchTag_from e b tag SucceseSearch 1))"

section \<open>Values\<close>

text \<open>
  The first loop of \<^verbatim>\<open>SearchValue\<close>. \<open>Inl\<close> is the return with \<^verbatim>\<open>MissEqule\<close>; both results carry the
  place \<^verbatim>\<open>*left\<close> has reached.
\<close>

function skip_value :: "u16 list \<Rightarrow> nat \<Rightarrow> bool \<Rightarrow> ESearchType \<Rightarrow> (nat + ESearchType \<times> nat) option" where
  "skip_value b left misstakeChk result =
     (if length b \<le> left then None
      else if value_blank (b ! left) then skip_value b (Suc left) misstakeChk result
      else if b ! left = equals_ch then
        skip_value b (Suc left) False (if misstakeChk then result else MissSemicolon)
      else if misstakeChk then Some (Inl left)
      else if b ! left = quote_ch then Some (Inr (StringValue, Suc left))
      else Some (Inr (result, left)))"
  by pat_completeness auto
termination by (relation "measure (\<lambda>(b, left, m, r). length b - left)") auto

declare skip_value.simps [simp del]

text \<open>
  \<open>SearchValue b left len\<close> gives the result code, the new \<^verbatim>\<open>*left\<close> and the new \<^verbatim>\<open>_len\<close>, which the early
  returns leave alone. A value in quotes is scanned on to the semicolon, from which the pointer goes
  back by one.
\<close>

definition SearchValue :: "u16 list \<Rightarrow> nat \<Rightarrow> nat \<Rightarrow> (ESearchType \<times> nat \<times> nat) option" where
  "SearchValue b left len =
     (case wcslen b of None \<Rightarrow> None
      | Some e \<Rightarrow>
        (case skip_value b left True SucceseSearch of None \<Rightarrow> None
         | Some (Inl l) \<Rightarrow> Some (MissEqule, l, len)
         | Some (Inr (result, l)) \<Rightarrow>
           (case (if result = StringValue then scan_for (\<lambda>c. c = quote_ch) (Some e) b l else Some (Found l)) of
              None \<Rightarrow> None
            | Some AtEnd \<Rightarrow> Some (HasNotquotation, l, len)
            | Some (Found right) \<Rightarrow>
              (case scan_for (\<lambda>c. c = semicolon_ch \<or> c = newline_ch) (Some e) b right of
                 None \<Rightarrow> None
               | Some AtEnd \<Rightarrow> Some (HasNotTag, l, e - l)
               | Some (Found r) \<Rightarrow>
                 if b ! r = semicolon_ch
                 then Some (SucceseSearch, l, (if result = StringValue then r - 1 else r) - l)
                 else Some (MissSemicolon, l, r - l)))))"

text \<open>
  \<^verbatim>\<open>StringToNumber\<close> sums the digits from the last one, each multiplied with a power of ten in
  floating point and cast back. \<open>int_fits\<close> is the range in which the cast and the addition on \<^verbatim>\<open>int\<close>
  are defined; the digit products in it are exact in a \<^verbatim>\<open>double\<close>. \<open>widen\<close> is the promotion of \<^verbatim>\<open>out\<close>
  to \<^verbatim>\<open>int\<close>. A length of zero after a sign makes \<^verbatim>\<open>len - 1\<close> wrap and the loop leave the buffer.
\<close>

definition int_fits :: "int \<Rightarrow> bool" where
  "int_fits x \<longleftrightarrow> - (2 ^ 31) \<le> x \<and> x < 2 ^ 31"

primrec add_digits :: "('a::len word \<Rightarrow> int) \<Rightarrow> u16 list \<Rightarrow> nat \<Rightarrow> nat \<Rightarrow> 'a word option" where
  "add_digits widen b fin 0 = Some 0"
| "add_digits widen b fin (Suc i) =
     (case add_digits widen b fin i of None \<Rightarrow> None
      | Some out \<Rightarrow>
        (case (if i \<le> fin then rd b (fin - i) else None) of None \<Rightarrow> None
         | Some c \<Rightarrow>
           let num = (uint c - 48) * 10 ^ i
           in if int_fits num \<and> int_fits (widen out + num) then Some (word_of_int (widen out + num)) else None))"

definition StringToNumber :: "('a::len word \<Rightarrow> int) \<Rightarrow> u16 list \<Rightarrow> nat \<Rightarrow> nat \<Rightarrow> 'a word option" where
  "StringToNumber widen b str len =
     (case rd b str of None \<Rightarrow> None
      | Some c \<Rightarrow>
        let signedChk = (c = minus_ch \<or> c = plus_ch)
        in if signedChk \<and> len = 0 then None
           else case add_digits widen b (str + len - 1) (if signedChk then len - 1 else len) of None \<Rightarrow> None
             | Some out \<Rightarrow>
               if c \<noteq> minus_ch then Some out
               else if int_fits (- widen out) then Some (word_of_int (- widen out)) else None)"

definition StringToNumber_int :: "u16 list \<Rightarrow> nat \<Rightarrow> nat \<Rightarrow> u32 option" where
  "StringToNumber_int = StringToNumber sint"

definition StringToNumber_ushort :: "u16 list \<Rightarrow> nat \<Rightarrow> nat \<Rightarrow> u16 option" where
  "StringToNumber_ushort = StringToNumber uint"

definition StringToNumber_short :: "u16 list \<Rightarrow> nat \<Rightarrow> nat \<Rightarrow> u16 option" where
  "StringToNumber_short = StringToNumber sint"

text \<open>
  The numeric overloads of \<^verbatim>\<open>GetValue\<close> differ in the conversion they call. They give the returned
  flag, the new value of the reference parameter and the log.
\<close>

definition GetValue_number ::
    "(u16 list \<Rightarrow> nat \<Rightarrow> nat \<Rightarrow> 'a::len word option) \<Rightarrow> bool \<Rightarrow> Parser \<Rightarrow> tag_ptr \<Rightarrow> 'a word \<Rightarrow> parser_log \<Rightarrow>
       (bool \<times> 'a word \<times> parser_log) option" where
  "GetValue_number convert opens p tag out lg =
     (case SearchTag p (snd tag) of
        Some (SucceseSearch, Some left) \<Rightarrow>
          (case SearchValue (the (buffer p)) left 0 of None \<Rightarrow> None
           | Some (t, l, len) \<Rightarrow>
             if t \<noteq> SucceseSearch then Some (False, out, WRITE_TAGLOG opens lg t tag)
             else (case convert (the (buffer p)) l len of None \<Rightarrow> None | Some v \<Rightarrow> Some (True, v, lg)))
      | Some (t, _) \<Rightarrow> Some (False, out, WRITE_TAGLOG opens lg t tag)
      | None \<Rightarrow> None)"

definition GetValue_int :: "bool \<Rightarrow> Parser \<Rightarrow> tag_ptr \<Rightarrow> u32 \<Rightarrow> parser_log \<Rightarrow> (bool \<times> u32 \<times> parser_log) option" where
  "GetValue_int = GetValue_number StringToNumber_int"

definition GetValue_ushort :: "bool \<Rightarrow> Parser \<Rightarrow> tag_ptr \<Rightarrow> u16 \<Rightarrow> parser_log \<Rightarrow> (bool \<times> u16 \<times> parser_log) option" where
  "GetValue_ushort = GetValue_number StringToNumber_ushort"

definition GetValue_short :: "bool \<Rightarrow> Parser \<Rightarrow> tag_ptr \<Rightarrow> u16 \<Rightarrow> parser_log \<Rightarrow> (bool \<times> u16 \<times> parser_log) option" where
  "GetValue_short = GetValue_number StringToNumber_short"

definition GetValue_bool :: "Parser \<Rightarrow> tag_ptr \<Rightarrow> bool \<Rightarrow> bool \<times> bool" where
  "GetValue_bool p tag out = (False, out)"

text \<open>
  The overload for text copies into an array of the caller. It looks neither at the result code of
  \<^verbatim>\<open>SearchValue\<close> nor reports the overflow it finds, and prints the array in both cases: \<^verbatim>\<open>wprintf\<close> reads it up to a
  terminator, which after an overflow is whatever the caller left there.
\<close>

definition SubString :: "u16 list \<Rightarrow> nat \<Rightarrow> nat \<Rightarrow> u16 list \<Rightarrow> u16 list option" where
  "SubString b str len out =
     (case mem_read b str len of None \<Rightarrow> None
      | Some cs \<Rightarrow> (case mem_write out 0 cs of None \<Rightarrow> None | Some out1 \<Rightarrow> mem_write out1 len [0]))"

definition GetValue_text ::
    "bool \<Rightarrow> Parser \<Rightarrow> tag_ptr \<Rightarrow> u16 list \<Rightarrow> nat \<Rightarrow> parser_log \<Rightarrow> (bool \<times> u16 list \<times> parser_log) option" where
  "GetValue_text opens p tag out bufferSize lg =
     (case SearchTag p (snd tag) of
        Some (SucceseSearch, Some left) \<Rightarrow>
          (case SearchValue (the (buffer p)) left 0 of None \<Rightarrow> None
           | Some (t, l, len) \<Rightarrow>
             (case (if bufferSize \<le> len + 1 then Some out else SubString (the (buffer p)) l len out) of None \<Rightarrow> None
              | Some out1 \<Rightarrow> (case wcslen out1 of None \<Rightarrow> None | Some n \<Rightarrow> Some (True, out1, lg))))
      | Some (t, _) \<Rightarrow> Some (False, out, WRITE_TAGLOG opens lg t tag)
      | None \<Rightarrow> None)"

end
