(* ===== verification/ConfigText.thy ===== *)
theory ConfigText
  imports Parser
begin

text \<open>
  Configuration files as the servers have them, and what the parser reads from them: entries
  \<^verbatim>\<open>Name = value;\<close> with a number or a text in quotes, remarks and empty lines. The parser finds the
  first entry of a name and reads its value back; on any file whose last line is complete it stays
  inside its buffer.
\<close>

section \<open>The grammar\<close>

datatype setting = Number int | Quoted "u16 list"

datatype config_line =
    Entry "u16 list" "u16 list" "u16 list" setting "u16 list" "u16 list option"
  | Remark "u16 list"
  | Gap "u16 list"

fun decimal :: "nat \<Rightarrow> u16 list" where
  "decimal n = (if n < 10 then [of_nat (48 + n)] else decimal (n div 10) @ [of_nat (48 + n mod 10)])"

declare decimal.simps [simp del]

fun setting_text :: "setting \<Rightarrow> u16 list" where
  "setting_text (Number n) = (if n < 0 then minus_ch # decimal (nat (- n)) else decimal (nat n))"
| "setting_text (Quoted t) = quote_ch # t @ [quote_ch]"

fun remark_text :: "u16 list option \<Rightarrow> u16 list" where
  "remark_text None = []"
| "remark_text (Some t) = slash_ch # slash_ch # t"

text \<open>An entry has a gap before and behind the equals sign, and may have a remark behind its value.\<close>

fun line_text :: "config_line \<Rightarrow> u16 list" where
  "line_text (Entry k g h v w r) =
     k @ g @ [equals_ch] @ h @ setting_text v @ [semicolon_ch] @ w @ remark_text r @ [newline_ch]"
| "line_text (Remark t) = slash_ch # slash_ch # t @ [newline_ch]"
| "line_text (Gap w) = w @ [newline_ch]"

definition config_text :: "config_line list \<Rightarrow> u16 list" where
  "config_text ls = concat (map line_text ls)"

definition name_ok :: "u16 list \<Rightarrow> bool" where
  "name_ok k \<longleftrightarrow> k \<noteq> [] \<and>
     (\<forall>c\<in>set k. \<not> tag_blank c \<and> \<not> tag_end c \<and> c \<noteq> slash_ch \<and> c \<noteq> semicolon_ch \<and> c \<noteq> 0)"

definition space_ok :: "u16 list \<Rightarrow> bool" where
  "space_ok g \<longleftrightarrow> (\<forall>c\<in>set g. c = blank_ch \<or> c = tab_ch)"

fun setting_ok :: "setting \<Rightarrow> bool" where
  "setting_ok (Number n) \<longleftrightarrow> \<bar>n\<bar> < 2 ^ 31"
| "setting_ok (Quoted t) \<longleftrightarrow> (\<forall>c\<in>set t. c \<noteq> quote_ch \<and> c \<noteq> newline_ch \<and> c \<noteq> semicolon_ch \<and> c \<noteq> 0)"

fun remark_ok :: "u16 list option \<Rightarrow> bool" where
  "remark_ok None \<longleftrightarrow> True"
| "remark_ok (Some t) \<longleftrightarrow> (\<forall>c\<in>set t. c \<noteq> newline_ch \<and> c \<noteq> 0)"

fun line_ok :: "config_line \<Rightarrow> bool" where
  "line_ok (Entry k g h v w r) \<longleftrightarrow>
     name_ok k \<and> g \<noteq> [] \<and> space_ok g \<and> space_ok h \<and> setting_ok v \<and> space_ok w \<and> remark_ok r"
| "line_ok (Remark t) \<longleftrightarrow> (\<forall>c\<in>set t. c \<noteq> newline_ch \<and> c \<noteq> semicolon_ch \<and> c \<noteq> 0)"
| "line_ok (Gap w) \<longleftrightarrow> space_ok w"

fun config_lookup :: "config_line list \<Rightarrow> u16 list \<Rightarrow> setting option" where
  "config_lookup (Entry k g h v w r # ls) tag = (if k = tag then Some v else config_lookup ls tag)"
| "config_lookup (_ # ls) tag = config_lookup ls tag"
| "config_lookup [] tag = None"

section \<open>Scanning over known text\<close>

lemma scan_for_hit:
  assumes "b = pre @ mid @ c # post" "\<forall>x\<in>set mid. \<not> stop x" "stop c"
    and "\<forall>k. lim = Some k \<longrightarrow> length pre + length mid < k" "i = length pre"
  shows "scan_for stop lim b i = Some (Found (length pre + length mid))"
  using assms
proof (induction mid arbitrary: pre i)
  case Nil
  then show ?case by (subst scan_for.simps) auto
next
  case (Cons x mid)
  have "scan_for stop lim b (Suc i) = Some (Found (length (pre @ [x]) + length mid))"
    by (rule Cons.IH) (use Cons.prems in auto)
  moreover have "b ! i = x" "i < length b" "lim \<noteq> Some i" using Cons.prems by (auto simp: nth_append)
  ultimately show ?case using Cons.prems by (subst scan_for.simps) simp
qed

lemma comment_step_none:
  "\<lbrakk>left < length b; b ! left \<noteq> slash_ch\<rbrakk> \<Longrightarrow> comment_step e b left = Some (Inr left)"
  by (simp add: comment_step_def rd_def)

lemma comment_step_line:
  assumes "b = pre @ slash_ch # slash_ch # t @ newline_ch # post" "newline_ch \<notin> set t" "length pre + length t + 2 < e"
  shows "comment_step e b (length pre) = Some (Inr (length pre + length t + 3))"
proof -
  have "scan_for (\<lambda>c. c = newline_ch) (Some e) b (length pre) =
      Some (Found (length pre + length (slash_ch # slash_ch # t)))"
    by (rule scan_for_hit [where post = post]) (use assms in auto)
  then show ?thesis using assms(1) by (simp add: comment_step_def rd_def nth_append)
qed

definition skip_rest :: "nat \<Rightarrow> u16 list \<Rightarrow> nat \<Rightarrow> (ESearchType + nat) option" where
  "skip_rest e b l =
     (if length b \<le> l then None else if tag_blank (b ! l) then skip_tag e b (Suc l)
      else if l = e then Some (Inl HasNotTag) else Some (Inr l))"

lemma skip_tag_rest:
  "skip_tag e b left =
     (case comment_step e b left of None \<Rightarrow> None | Some (Inl t) \<Rightarrow> Some (Inl t) | Some (Inr l) \<Rightarrow> skip_rest e b l)"
  by (simp add: skip_tag.simps [of e b left] skip_rest_def split: option.splits sum.splits)

lemma skip_tag_text:
  "\<lbrakk>left < length b; b ! left \<noteq> slash_ch\<rbrakk> \<Longrightarrow> skip_tag e b left = skip_rest e b left"
  by (simp add: skip_tag_rest comment_step_none)

lemma tag_blank_slash [simp]: "\<not> tag_blank slash_ch"
  by (simp add: tag_blank_def)

lemma skip_tag_blanks:
  "\<lbrakk>b = pre @ w @ post; \<forall>c\<in>set w. tag_blank c\<rbrakk> \<Longrightarrow> skip_tag e b (length pre) = skip_tag e b (length pre + length w)"
proof (induction w arbitrary: pre)
  case (Cons c w)
  have c: "length pre < length b" "b ! length pre = c" "tag_blank c" "c \<noteq> slash_ch" using Cons.prems by (auto simp: nth_append)
  then have "skip_tag e b (length pre) = skip_tag e b (length (pre @ [c]))"
    by (simp add: skip_tag_text skip_rest_def)
  also have "\<dots> = skip_tag e b (length (pre @ [c]) + length w)" by (rule Cons.IH) (use Cons.prems in auto)
  finally show ?case by simp
qed simp

section \<open>Finding an entry\<close>

definition after_skip ::
    "nat \<Rightarrow> u16 list \<Rightarrow> u16 list \<Rightarrow> (ESearchType + nat) option \<Rightarrow> (ESearchType \<times> nat option) option" where
  "after_skip e b tag s =
     (case s of None \<Rightarrow> None
      | Some (Inl t) \<Rightarrow> Some (t, None)
      | Some (Inr l) \<Rightarrow>
         (case tag_turn e b tag SucceseSearch l of None \<Rightarrow> None
          | Some (No_tag t) \<Rightarrow> Some (t, None)
          | Some (Go_on r l2) \<Rightarrow> SearchTag_from e b tag r l2
          | Some (Tag_found right) \<Rightarrow> Some (SucceseSearch, Some (Suc right))))"

lemma SearchTag_from_skip: "SearchTag_from e b tag SucceseSearch l = after_skip e b tag (skip_tag e b l)"
  by (subst SearchTag_from.simps) (simp add: after_skip_def)

text \<open>What the search is to find: the place behind the name of the first entry, or no tag.\<close>

definition finds :: "config_line list \<Rightarrow> nat \<Rightarrow> u16 list \<Rightarrow> u16 list \<Rightarrow> (ESearchType \<times> nat option) option \<Rightarrow> bool" where
  "finds ls e b tag r \<longleftrightarrow>
     (case config_lookup ls tag of
        None \<Rightarrow> r = Some (HasNotTag, None)
      | Some v \<Rightarrow> \<exists>pre g h post. r = Some (SucceseSearch, Some (length pre)) \<and> space_ok g \<and> space_ok h \<and>
          b = pre @ g @ equals_ch # h @ setting_text v @ semicolon_ch # post \<and>
          length pre + length g + length h + length (setting_text v) + 1 < e)"

lemma finds_here:
  "\<lbrakk>r = Some (SucceseSearch, Some (length pre)); b = pre @ g @ equals_ch # h @ setting_text v @ semicolon_ch # post;
    config_lookup ls tag = Some v; space_ok g; space_ok h;
    length pre + length g + length h + length (setting_text v) + 1 < e\<rbrakk> \<Longrightarrow> finds ls e b tag r"
  unfolding finds_def by (simp only: option.case) blast

lemma space_blank: "space_ok w \<Longrightarrow> c \<in> set w \<Longrightarrow> tag_blank c \<and> tag_end c \<and> value_blank c"
  by (auto simp: space_ok_def tag_blank_def tag_end_def value_blank_def)

lemma tag_turn_other_length:
  assumes b: "b = pre @ k @ mid @ newline_ch # post" and k: "\<forall>c\<in>set k. \<not> tag_end c"
    and d: "tag_end (hd (mid @ [newline_ch]))" and mid: "newline_ch \<notin> set mid"
    and len: "length k \<noteq> length tag" and e: "length pre + length k + length mid < e"
  shows "tag_turn e b tag r (length pre) = Some (Go_on r (length pre + length k + length mid + 1))"
proof -
  have "b = pre @ k @ hd (mid @ [newline_ch]) # (case mid of [] \<Rightarrow> post | x # xs \<Rightarrow> xs @ newline_ch # post)"
    using b by (cases mid) simp_all
  then have "scan_for tag_end None b (length pre) = Some (Found (length pre + length k))"
    by (rule scan_for_hit) (use k d in auto)
  moreover have "scan_for (\<lambda>c. c = newline_ch) (Some e) b (length (pre @ k)) =
      Some (Found (length (pre @ k) + length mid))"
    by (rule scan_for_hit [where post = post]) (use assms in auto)
  ultimately show ?thesis using len by (simp add: tag_turn_def)
qed

lemma tag_turn_found:
  assumes "b = pre @ tag @ d # post" "\<forall>c\<in>set tag. \<not> tag_end c" "tag_end d"
  shows "tag_turn e b tag r (length pre) = Some (Tag_found (length pre + length tag))"
proof -
  have "scan_for tag_end None b (length pre) = Some (Found (length pre + length tag))"
    by (rule scan_for_hit [where post = post]) (use assms in auto)
  then show ?thesis using assms(1) by (simp add: tag_turn_def)
qed

lemma tag_turn_other_name:
  assumes "b = pre @ k @ d # post" "\<forall>c\<in>set k. \<not> tag_end c" "tag_end d" "length k = length tag" "k \<noteq> tag"
    and "b = pre @ mid @ s # rest" "s = semicolon_ch \<or> s = newline_ch"
    and "newline_ch \<notin> set mid" "semicolon_ch \<notin> set mid" "length pre + length mid < e"
  shows "tag_turn e b tag r (length pre) = Some (Go_on r (length pre + length mid + 1))"
proof -
  have "scan_for tag_end None b (length pre) = Some (Found (length pre + length k))"
    by (rule scan_for_hit [where post = post]) (use assms(1-3) in auto)
  moreover have "scan_for (\<lambda>c. c = newline_ch \<or> c = semicolon_ch) (Some e) b (length pre) =
      Some (Found (length pre + length mid))"
    by (rule scan_for_hit [where post = rest]) (use assms(6-) in auto)
  moreover have "take (length k) (drop (length pre) b) = k" using assms(1) by simp
  ultimately show ?thesis using assms(4,5) by (simp add: tag_turn_def)
qed

text \<open>A remark is skipped also where it is taken for a tag, behind another remark.\<close>

lemma tag_turn_remark:
  assumes b: "b = pre @ (slash_ch # slash_ch # t) @ newline_ch # post"
    and t: "\<forall>c\<in>set t. c \<noteq> newline_ch \<and> c \<noteq> semicolon_ch \<and> c \<noteq> 0"
    and tag: "name_ok tag" and e: "length pre + length t + 2 < e"
  shows "tag_turn e b tag r (length pre) = Some (Go_on r (length pre + length t + 3))"
proof -
  let ?line = "slash_ch # slash_ch # t" and ?out = "\<lambda>c. \<not> tag_end c"
  define k mid where "k = takeWhile ?out ?line" and "mid = dropWhile ?out ?line"
  have line: "?line = k @ mid" by (simp add: k_def mid_def)
  have d: "tag_end (hd (mid @ [newline_ch]))"
  proof (cases mid)
    case (Cons x xs)
    then have "dropWhile ?out ?line \<noteq> []" unfolding mid_def [symmetric] by simp
    from hd_dropWhile [OF this] have "\<not> ?out (hd mid)" unfolding mid_def .
    with Cons show ?thesis by simp
  qed (simp add: tag_end_def)
  have k: "\<forall>c\<in>set k. \<not> tag_end c" by (auto simp: k_def dest: set_takeWhileD)
  have n: "length k + length mid = length t + 2" using arg_cong [OF line, of length] by simp
  have mid: "newline_ch \<notin> set mid"
    using t unfolding mid_def by (auto dest!: set_dropWhileD)
  show ?thesis
  proof (cases "length k = length tag")
    case False
    have "b = pre @ k @ mid @ newline_ch # post" using b line by simp
    from tag_turn_other_length [OF this k d mid False] e n show ?thesis by (simp add: add.assoc)
  next
    case True
    have "hd k = slash_ch" by (simp add: k_def tag_end_def)
    moreover have "hd tag \<noteq> slash_ch" using tag hd_in_set by (auto simp: name_ok_def)
    ultimately have ne: "k \<noteq> tag" by auto
    have "b = pre @ k @ hd (mid @ [newline_ch]) # tl (mid @ newline_ch # post)"
      using b line by (cases mid) simp_all
    from tag_turn_other_name [OF this k d True ne, of ?line newline_ch post] b t e
    show ?thesis by (auto simp: numeral_3_eq_3)
  qed
qed

text \<open>
  An entry of another name is left either at the end of its line or, when the name has the length of
  the tag, behind its semicolon.
\<close>

lemma name_okD:
  assumes "name_ok k"
  shows "k \<noteq> []" "\<forall>c\<in>set k. \<not> tag_end c" "newline_ch \<notin> set k" "semicolon_ch \<notin> set k" "0 \<notin> set k"
    "\<not> tag_blank (hd k)" "hd k \<noteq> slash_ch"
proof -
  from assms show "k \<noteq> []" "\<forall>c\<in>set k. \<not> tag_end c" "newline_ch \<notin> set k" "semicolon_ch \<notin> set k" "0 \<notin> set k"
    by (auto simp: name_ok_def tag_end_def)
  then show "\<not> tag_blank (hd k)" "hd k \<noteq> slash_ch" using assms hd_in_set [of k] by (auto simp: name_ok_def)
qed

lemma space_okD: "space_ok g \<Longrightarrow> newline_ch \<notin> set g \<and> semicolon_ch \<notin> set g \<and> 0 \<notin> set g"
  by (auto simp: space_ok_def)

lemma decimal_digits: "c \<in> set (decimal n) \<Longrightarrow> \<exists>d<10. c = of_nat (48 + d)"
proof (induction n rule: decimal.induct)
  case (1 n)
  then show ?case
    by (subst (asm) (2) decimal.simps) (auto split: if_splits intro: exI [of _ n] exI [of _ "n mod 10"])
qed

lemma digit_plain:
  assumes "d < 10" "c = (of_nat (48 + d) :: u16)"
  shows "c \<noteq> newline_ch \<and> c \<noteq> semicolon_ch \<and> c \<noteq> 0 \<and> c \<noteq> quote_ch \<and> c \<noteq> minus_ch \<and> c \<noteq> plus_ch \<and>
    c \<noteq> equals_ch \<and> \<not> value_blank c"
proof -
  from assms(1) have "d \<in> {0, 1, 2, 3, 4, 5, 6, 7, 8, 9}" by auto
  with assms(2) show ?thesis by (auto simp: value_blank_def)
qed

lemma setting_text_plain:
  assumes "setting_ok v"
  shows "newline_ch \<notin> set (setting_text v)" "semicolon_ch \<notin> set (setting_text v)" "0 \<notin> set (setting_text v)"
  using assms by (cases v; auto dest!: decimal_digits digit_plain [OF _ refl])+

section \<open>The search finds the first entry\<close>

lemma config_text_simps [simp]: "config_text [] = []" "config_text (l # ls) = line_text l @ config_text ls"
  by (simp_all add: config_text_def)

text \<open>The search in the middle of a file: \<open>pre\<close> is in front of the line, \<open>junk\<close> behind the terminator.\<close>

definition at_line :: "config_line list \<Rightarrow> u16 list \<Rightarrow> u16 list \<Rightarrow> u16 list \<Rightarrow> bool" where
  "at_line ls tag pre junk \<longleftrightarrow>
     (let b = pre @ config_text ls @ 0 # junk; e = length pre + length (config_text ls)
      in finds ls e b tag (after_skip e b tag (skip_tag e b (length pre))) \<and>
         finds ls e b tag (after_skip e b tag (skip_rest e b (length pre))))"

lemma finds_skip:
  "config_lookup (l # ls) tag = config_lookup ls tag \<Longrightarrow> finds (l # ls) e b tag r = finds ls e b tag r"
  by (simp add: finds_def)

lemma at_line_end: "at_line [] tag pre junk"
  by (simp add: at_line_def Let_def finds_def after_skip_def skip_tag_rest comment_step_def rd_def skip_rest_def
      tag_blank_def)

lemma at_line_gap:
  assumes "space_ok w" "\<And>pre. at_line ls tag pre junk"
  shows "at_line (Gap w # ls) tag pre junk"
proof -
  let ?b = "pre @ config_text (Gap w # ls) @ 0 # junk" and ?e = "length pre + length (config_text (Gap w # ls))"
  let ?n = "length pre + length w + 1"
  have w: "\<forall>c\<in>set (w @ [newline_ch]). tag_blank c" using assms(1) by (auto dest: space_blank simp: tag_blank_def)
  have s: "skip_tag ?e ?b (length pre) = skip_tag ?e ?b ?n"
    using skip_tag_blanks [of ?b pre "w @ [newline_ch]" "config_text ls @ 0 # junk" ?e] w by simp
  have "?b ! length pre \<in> set (w @ [newline_ch])" by (cases w) (simp_all add: nth_append)
  with w have "tag_blank (?b ! length pre)" by blast
  then have "?b ! length pre \<noteq> slash_ch" by auto
  then have "skip_tag ?e ?b (length pre) = skip_rest ?e ?b (length pre)" by (intro skip_tag_text) simp_all
  moreover have "at_line ls tag (pre @ w @ [newline_ch]) junk" by (rule assms(2))
  ultimately show ?thesis using s by (simp add: at_line_def Let_def finds_skip add.assoc)
qed

lemma at_line_remark:
  assumes t: "\<forall>c\<in>set t. c \<noteq> newline_ch \<and> c \<noteq> semicolon_ch \<and> c \<noteq> 0" and tag: "name_ok tag"
    and rest: "\<And>pre. at_line ls tag pre junk"
  shows "at_line (Remark t # ls) tag pre junk"
proof -
  let ?b = "pre @ config_text (Remark t # ls) @ 0 # junk"
  let ?e = "length pre + length (config_text (Remark t # ls))"
  let ?n = "length pre + length t + 3"
  have n: "newline_ch \<notin> set t" using t by auto
  have c: "comment_step ?e ?b (length pre) = Some (Inr ?n)"
    by (rule comment_step_line [where post = "config_text ls @ 0 # junk"]) (use n in simp_all)
  have "skip_rest ?e ?b (length pre) = Some (Inr (length pre))" by (simp add: skip_rest_def nth_append)
  moreover have "tag_turn ?e ?b tag SucceseSearch (length pre) = Some (Go_on SucceseSearch ?n)"
    by (rule tag_turn_remark [where post = "config_text ls @ 0 # junk"]) (use t tag in simp_all)
  ultimately have "after_skip ?e ?b tag (skip_rest ?e ?b (length pre)) = after_skip ?e ?b tag (skip_tag ?e ?b ?n)"
    by (simp add: after_skip_def SearchTag_from_skip)
  moreover have "skip_tag ?e ?b (length pre) = skip_rest ?e ?b ?n" using c by (simp add: skip_tag_rest)
  moreover have "at_line ls tag (pre @ slash_ch # slash_ch # t @ [newline_ch]) junk" by (rule rest)
  ultimately show ?thesis by (simp add: at_line_def Let_def finds_skip numeral_3_eq_3 add.assoc)
qed

lemma at_line_entry:
  assumes ok: "line_ok (Entry k g h v w r)" and tag: "name_ok tag" and rest: "\<And>pre. at_line ls tag pre junk"
  shows "at_line (Entry k g h v w r # ls) tag pre junk"
proof -
  let ?l = "Entry k g h v w r"
  let ?b = "pre @ config_text (?l # ls) @ 0 # junk" and ?e = "length pre + length (config_text (?l # ls))"
  let ?next = "length pre + length (line_text ?l)" and ?more = "config_text ls @ 0 # junk"
  from ok have k: "name_ok k" and g: "g \<noteq> []" "space_ok g" and h: "space_ok h" and v: "setting_ok v"
    and w: "space_ok w" and r: "remark_ok r" by simp_all
  have next_line: "at_line ls tag (pre @ line_text ?l) junk" by (rule rest)
  let ?A = "after_skip ?e ?b tag (skip_tag ?e ?b ?next)" and ?B = "after_skip ?e ?b tag (skip_rest ?e ?b ?next)"
  have AB: "finds ls ?e ?b tag ?A" "finds ls ?e ?b tag ?B"
    using next_line by (simp_all add: at_line_def Let_def add.assoc)
  from name_okD [OF k] have k1: "k \<noteq> []" "\<forall>c\<in>set k. \<not> tag_end c" "newline_ch \<notin> set k" "semicolon_ch \<notin> set k"
    "\<not> tag_blank (hd k)" "hd k \<noteq> slash_ch" by simp_all
  have hd: "?b ! length pre = hd k" using k1(1) by (cases k) (simp_all add: nth_append)
  have start: "skip_rest ?e ?b (length pre) = Some (Inr (length pre))"
    using k1 hd by (simp add: skip_rest_def)
  have same: "skip_tag ?e ?b (length pre) = skip_rest ?e ?b (length pre)"
    using k1 hd by (intro skip_tag_text) simp_all
  from g obtain d g' where g': "g = d # g'" by (cases g) auto
  with g(2) have d: "tag_end d" "d \<noteq> newline_ch" "space_ok g'" by (auto simp: space_ok_def tag_end_def)
  have r_nl: "newline_ch \<notin> set (remark_text r)" using r by (cases r) auto
  note plain = k1(3,4) space_okD [OF g(2)] space_okD [OF h] space_okD [OF w] setting_text_plain [OF v] r_nl
  have "finds (?l # ls) ?e ?b tag (after_skip ?e ?b tag (Some (Inr (length pre))))"
  proof (cases "k = tag")
    case True
    have "tag_turn ?e ?b tag SucceseSearch (length pre) = Some (Tag_found (length pre + length tag))"
      by (rule tag_turn_found [where d = d and
            post = "g' @ equals_ch # h @ setting_text v @ semicolon_ch # w @ remark_text r @ newline_ch # ?more"])
        (use True k1(2) d(1) g' in simp_all)
    then have "after_skip ?e ?b tag (Some (Inr (length pre))) = Some (SucceseSearch, Some (length (pre @ k @ [d])))"
      using True by (simp add: after_skip_def)
    moreover have "?b = (pre @ k @ [d]) @ g' @ equals_ch # h @ setting_text v @ semicolon_ch #
        (w @ remark_text r @ newline_ch # ?more)" by (simp add: g')
    moreover have "config_lookup (?l # ls) tag = Some v" using True by simp
    moreover have "length (pre @ k @ [d]) + length g' + length h + length (setting_text v) + 1 < ?e" by (simp add: g')
    ultimately show ?thesis using d(3) h by (intro finds_here)
  next
    case other: False
    have "after_skip ?e ?b tag (Some (Inr (length pre))) \<in> {?A, ?B}"
    proof (cases "length k = length tag")
      case False
      let ?mid = "g @ equals_ch # h @ setting_text v @ semicolon_ch # w @ remark_text r"
      have "tag_turn ?e ?b tag SucceseSearch (length pre) =
          Some (Go_on SucceseSearch (length pre + length k + length ?mid + 1))"
        by (rule tag_turn_other_length [where post = ?more]) (use False k1 d g' plain in auto)
      then show ?thesis by (simp add: after_skip_def SearchTag_from_skip add_ac)
    next
      case True
      let ?mid = "k @ g @ equals_ch # h @ setting_text v" and ?tail = "w @ remark_text r @ newline_ch # ?more"
      let ?p = "pre @ ?mid @ [semicolon_ch]"
      have "tag_turn ?e ?b tag SucceseSearch (length pre) = Some (Go_on SucceseSearch (length pre + length ?mid + 1))"
        by (rule tag_turn_other_name [where k = k and d = d and s = semicolon_ch and
              post = "g' @ equals_ch # h @ setting_text v @ semicolon_ch # ?tail" and rest = ?tail])
          (use True other k1 d g' plain in auto)
      then have "after_skip ?e ?b tag (Some (Inr (length pre))) = after_skip ?e ?b tag (skip_tag ?e ?b (length ?p))"
        by (simp add: after_skip_def SearchTag_from_skip)
      also have "skip_tag ?e ?b (length ?p) = skip_tag ?e ?b (length ?p + length w)"
        by (rule skip_tag_blanks [where post = "remark_text r @ newline_ch # ?more"])
          (use w in \<open>auto dest: space_blank\<close>)
      also have "skip_tag ?e ?b (length ?p + length w) = skip_tag ?e ?b (length (?p @ w))" by (simp add: add.assoc)
      finally have go: "after_skip ?e ?b tag (Some (Inr (length pre))) = after_skip ?e ?b tag (skip_tag ?e ?b (length (?p @ w)))" .
      have "skip_tag ?e ?b (length (?p @ w)) \<in> {skip_tag ?e ?b ?next, skip_rest ?e ?b ?next}"
      proof (cases r)
        case None
        have "skip_tag ?e ?b (length (?p @ w)) = skip_tag ?e ?b (length (?p @ w) + length [newline_ch])"
          by (rule skip_tag_blanks [where post = ?more]) (use None in \<open>auto simp: tag_blank_def\<close>)
        with None show ?thesis by (simp add: add.assoc)
      next
        case (Some t)
        have "comment_step ?e ?b (length (?p @ w)) = Some (Inr (length (?p @ w) + length t + 3))"
          by (rule comment_step_line [where post = ?more]) (use Some r in auto)
        then have "skip_tag ?e ?b (length (?p @ w)) = skip_rest ?e ?b (length (?p @ w) + length t + 3)"
          by (simp add: skip_tag_rest)
        with Some show ?thesis by (simp add: add.assoc numeral_3_eq_3)
      qed
      with go show ?thesis by auto
    qed
    then have "after_skip ?e ?b tag (Some (Inr (length pre))) = ?A \<or>
        after_skip ?e ?b tag (Some (Inr (length pre))) = ?B" by blast
    moreover have "finds (?l # ls) ?e ?b tag x = finds ls ?e ?b tag x" for x
      by (rule finds_skip) (use other in simp)
    ultimately show ?thesis using AB by metis
  qed
  with start same show ?thesis by (simp add: at_line_def Let_def)
qed

lemma at_line_all: "\<lbrakk>\<forall>l\<in>set ls. line_ok l; name_ok tag\<rbrakk> \<Longrightarrow> at_line ls tag pre junk"
proof (induction ls arbitrary: pre)
  case Nil
  show ?case by (rule at_line_end)
next
  case (Cons l ls)
  then show ?case by (cases l) (auto intro!: at_line_gap at_line_remark at_line_entry)
qed

section \<open>Reading a value\<close>

lemma wcslen_None [simp]: "wcslen b = None \<longleftrightarrow> 0 \<notin> set b"
  by (simp add: wcslen_def)

lemma wcslen_text: "\<lbrakk>b = t @ 0 # junk; 0 \<notin> set t\<rbrakk> \<Longrightarrow> wcslen b = Some (length t)"
  by (simp add: wcslen_def takeWhile_append)

lemma skip_value_spaces:
  "\<lbrakk>b = pre @ w @ post; space_ok w\<rbrakk> \<Longrightarrow> skip_value b (length pre) m r = skip_value b (length pre + length w) m r"
proof (induction w arbitrary: pre)
  case (Cons c w)
  have c: "length pre < length b" "b ! length pre = c" "value_blank c"
    using Cons.prems by (auto simp: nth_append dest: space_blank)
  then have "skip_value b (length pre) m r = skip_value b (length (pre @ [c])) m r"
    by (subst skip_value.simps) simp
  also have "\<dots> = skip_value b (length (pre @ [c]) + length w) m r"
    by (rule Cons.IH) (use Cons.prems in \<open>auto simp: space_ok_def\<close>)
  finally show ?case by simp
qed simp

lemma skip_value_assignment:
  assumes b: "b = pre @ g @ equals_ch # h @ c # post" and g: "space_ok g" and h: "space_ok h"
    and c: "\<not> value_blank c" "c \<noteq> equals_ch"
  shows "skip_value b (length pre) True r =
    Some (Inr (if c = quote_ch then (StringValue, length (pre @ g @ equals_ch # h @ [c]))
               else (r, length (pre @ g @ equals_ch # h))))"
proof -
  let ?p = "pre @ g" and ?q = "pre @ g @ [equals_ch]" and ?s = "pre @ g @ equals_ch # h"
  have eq: "\<not> value_blank equals_ch" by (simp add: value_blank_def)
  have "skip_value b (length pre) True r = skip_value b (length ?p) True r"
    using skip_value_spaces [OF _ g, of b pre "equals_ch # h @ c # post"] b by simp
  also have "\<dots> = skip_value b (length ?q) False r"
    using b eq by (subst skip_value.simps) (simp add: nth_append)
  also have "\<dots> = skip_value b (length ?s) False r"
    using skip_value_spaces [OF _ h, of b ?q "c # post"] b by (simp add: add.assoc)
  also have "b ! length ?s = c" "length ?s < length b" using b by (simp_all add: nth_append)
  then have "skip_value b (length ?s) False r =
      Some (Inr (if c = quote_ch then (StringValue, Suc (length ?s)) else (r, length ?s)))"
    using c by (subst skip_value.simps) simp
  finally show ?thesis by simp
qed

lemma decimal_not_empty: "decimal n \<noteq> []"
  by (subst decimal.simps) simp

text \<open>The range of the buffer that holds a value: the digits with their sign, the text without its quotes.\<close>

fun value_part :: "setting \<Rightarrow> u16 list" where
  "value_part (Quoted t) = t"
| "value_part v = setting_text v"

lemma number_start:
  obtains c cs where "setting_text (Number n) = c # cs" "\<not> value_blank c" "c \<noteq> equals_ch" "c \<noteq> quote_ch"
proof -
  obtain c cs where d: "decimal (nat (if n < 0 then - n else n)) = c # cs"
    using decimal_not_empty by (meson neq_Nil_conv)
  then have "\<exists>k<10. c = of_nat (48 + k)" by (intro decimal_digits [of c "nat (if n < 0 then - n else n)"]) simp
  then have "\<not> value_blank c \<and> c \<noteq> equals_ch \<and> c \<noteq> quote_ch" by (auto dest: digit_plain [OF _ refl])
  with d that show thesis by (cases "n < 0") (auto simp: value_blank_def)
qed

lemma SearchValue_setting:
  assumes b: "b = pre @ g @ equals_ch # h @ setting_text v @ semicolon_ch # post" and g: "space_ok g" and h: "space_ok h"
    and v: "setting_ok v" and e: "wcslen b = Some e" "length pre + length g + length h + length (setting_text v) + 1 < e"
  obtains p where "SearchValue b (length pre) len = Some (SucceseSearch, length p, length (value_part v))"
    "\<exists>post. b = p @ value_part v @ post"
proof (cases v)
  case (Number n)
  obtain c cs where c: "setting_text v = c # cs" "\<not> value_blank c" "c \<noteq> equals_ch" "c \<noteq> quote_ch"
    using number_start [of n] Number by metis
  let ?s = "pre @ g @ equals_ch # h"
  have sk: "skip_value b (length pre) True SucceseSearch = Some (Inr (SucceseSearch, length ?s))"
    using skip_value_assignment [of b pre g h c "cs @ semicolon_ch # post"] b c g h by simp
  have "scan_for (\<lambda>c. c = semicolon_ch \<or> c = newline_ch) (Some e) b (length ?s) =
      Some (Found (length ?s + length (setting_text v)))"
    by (rule scan_for_hit [where post = post]) (use b e setting_text_plain [OF v] in auto)
  moreover have "b ! (length ?s + length (setting_text v)) = semicolon_ch"
    using b by (simp add: nth_append)
  ultimately have "SearchValue b (length pre) len = Some (SucceseSearch, length ?s, length (setting_text v))"
    using sk e(1) by (simp add: SearchValue_def)
  with that [of ?s] Number b show thesis by simp
next
  case (Quoted t)
  let ?s = "pre @ g @ equals_ch # h @ [quote_ch]"
  have q: "\<not> value_blank quote_ch" "quote_ch \<noteq> equals_ch" by (simp_all add: value_blank_def)
  have b1: "b = ?s @ t @ quote_ch # semicolon_ch # post" using b Quoted by simp
  have t: "\<forall>c\<in>set t. c \<noteq> quote_ch" using v Quoted by simp
  have sk: "skip_value b (length pre) True SucceseSearch = Some (Inr (StringValue, length ?s))"
    using skip_value_assignment [of b pre g h quote_ch "t @ quote_ch # semicolon_ch # post"] b Quoted q g h by simp
  have "scan_for (\<lambda>c. c = quote_ch) (Some e) b (length ?s) = Some (Found (length ?s + length t))"
    by (rule scan_for_hit [OF b1]) (use e Quoted t in auto)
  moreover have "scan_for (\<lambda>c. c = semicolon_ch \<or> c = newline_ch) (Some e) b (length (?s @ t)) =
      Some (Found (length (?s @ t) + length [quote_ch]))"
    by (rule scan_for_hit [where post = post]) (use b1 e Quoted in auto)
  moreover have "b ! (length (?s @ t) + length [quote_ch]) = semicolon_ch"
    using b1 by (simp add: nth_append)
  ultimately have "SearchValue b (length pre) len = Some (SucceseSearch, length ?s, length t)"
    using sk e(1) by (simp add: SearchValue_def add.assoc)
  with that [of ?s] Quoted b1 show thesis by simp
qed

section \<open>Numbers\<close>

lemma decimal_length_pos: "0 < length (decimal n)"
  using decimal_not_empty by simp

lemma decimal_nth:
  "i < length (decimal n) \<Longrightarrow> decimal n ! (length (decimal n) - 1 - i) = of_nat (48 + n div 10 ^ i mod 10)"
proof (induction n arbitrary: i rule: decimal.induct)
  case (1 n)
  show ?case
  proof (cases "n < 10")
    case True
    then have "decimal n = [of_nat (48 + n)]" by (subst decimal.simps) simp
    with 1(2) True show ?thesis by simp
  next
    case False
    then have d: "decimal n = decimal (n div 10) @ [of_nat (48 + n mod 10)]" by (subst decimal.simps) simp
    show ?thesis
    proof (cases i)
      case 0
      with d show ?thesis by simp
    next
      case (Suc j)
      have "j < length (decimal (n div 10))" using 1(2) d Suc by simp
      with 1(1) [OF False this] d Suc show ?thesis by (simp add: nth_append div_mult2_eq)
    qed
  qed
qed

lemma decimal_bound: "n < 10 ^ length (decimal n)"
proof (induction n rule: decimal.induct)
  case (1 n)
  show ?case
  proof (cases "n < 10")
    case True
    then show ?thesis by (subst decimal.simps) simp
  next
    case False
    then have "length (decimal n) = Suc (length (decimal (n div 10)))" by (subst decimal.simps) simp
    moreover have "n div 10 < 10 ^ length (decimal (n div 10))" using 1 False by simp
    ultimately show ?thesis by simp
  qed
qed

text \<open>What the conversions need of the promotion to \<^verbatim>\<open>int\<close>.\<close>

definition promotes :: "('a::len word \<Rightarrow> int) \<Rightarrow> bool" where
  "promotes widen \<longleftrightarrow> (\<forall>w. word_of_int (widen w) = w \<and> - (2 ^ 31) \<le> widen w) \<and>
     (\<forall>x. 0 \<le> x \<longrightarrow> x < 2 ^ 31 \<longrightarrow> - (2 ^ 31) < widen (word_of_int x) \<and> widen (word_of_int x) \<le> x)"

lemma add_digits_decimal:
  assumes b: "b = p @ decimal n @ post" and n: "n < 2 ^ 31" and w: "promotes (widen :: 'a::len word \<Rightarrow> int)"
    and i: "i \<le> length (decimal n)"
  shows "add_digits widen b (length p + length (decimal n) - 1) i = Some (word_of_int (int (n mod 10 ^ i)))"
  using i
proof (induction i)
  case (Suc i)
  let ?L = "length (decimal n)" and ?d = "n div 10 ^ i mod 10" and ?x = "n mod 10 ^ i"
  have i: "i < ?L" using Suc.prems by simp
  have at: "length p + ?L - 1 - i = length p + (?L - 1 - i)" using i by simp
  have "rd b (length p + ?L - 1 - i) = Some (decimal n ! (?L - 1 - i))"
  proof -
    obtain j where j: "j = ?L - 1 - i" by simp
    then have "j < ?L" using i by simp
    then have "rd b (length p + j) = Some (decimal n ! j)" using b by (simp add: rd_def nth_append)
    then show ?thesis using at j by simp
  qed
  then have c: "rd b (length p + ?L - 1 - i) = Some (of_nat (48 + ?d))" using decimal_nth [OF i] by simp
  have d: "?d < 10" by simp
  have u: "uint (of_nat (48 + ?d) :: u16) - 48 = int ?d"
  proof -
    have "uint (of_nat (48 + ?d) :: u16) = int (48 + ?d)"
      unfolding unsigned_of_nat by (rule arg_cong [where f = int], rule take_bit_nat_eq_self) (use d in simp)
    then show ?thesis by simp
  qed
  have split: "n mod 10 ^ Suc i = ?x + ?d * 10 ^ i"
    by (metis add.commute mod_mult2_eq mult.commute power_Suc2)
  have le: "n mod 10 ^ Suc i < 2 ^ 31" using n le_less_trans mod_less_eq_dividend by blast
  define num where "num = int ?d * 10 ^ i"
  have num: "0 \<le> num" "int ?x + num = int (n mod 10 ^ Suc i)"
    unfolding split num_def by simp_all
  moreover have "int (n mod 10 ^ Suc i) < 2 ^ 31" using le by (metis of_nat_less_iff of_nat_numeral of_nat_power)
  ultimately have num: "0 \<le> num" "int ?x + num = int (n mod 10 ^ Suc i)" "int (n mod 10 ^ Suc i) < 2 ^ 31" by blast+
  have "- (2 ^ 31) < widen (word_of_int (int ?x)) \<and> widen (word_of_int (int ?x)) \<le> int ?x"
  proof -
    have "0 \<le> int ?x" "int ?x < 2 ^ 31" using num by linarith+
    then show ?thesis using w unfolding promotes_def by blast
  qed
  then have fits: "int_fits num" "int_fits (widen (word_of_int (int ?x)) + num)"
    using num by (auto simp: int_fits_def)
  have "(word_of_int (widen (word_of_int (int ?x)) + num) :: 'a word) = word_of_int (int ?x + num)"
    using w by (simp add: promotes_def wi_hom_add [symmetric])
  with Suc i c u fits num(2) show ?case by (simp add: Let_def num_def [symmetric])
qed simp

lemma StringToNumber_Number:
  assumes b: "b = p @ setting_text (Number n) @ post" and n: "\<bar>n\<bar> < 2 ^ 31" and w: "promotes (widen :: 'a::len word \<Rightarrow> int)"
  shows "StringToNumber widen b (length p) (length (setting_text (Number n))) = Some (word_of_int n)"
proof (cases "n < 0")
  case False
  let ?d = "decimal (nat n)"
  from decimal_not_empty obtain c cs where c: "?d = c # cs" by (meson neq_Nil_conv)
  then have "\<exists>k<10. c = of_nat (48 + k)" by (intro decimal_digits [of c "nat n"]) simp
  then have "c \<noteq> minus_ch" "c \<noteq> plus_ch" by (auto dest: digit_plain [OF _ refl])
  moreover have "rd b (length p) = Some c" using b c False by (simp add: rd_def)
  moreover have "nat n mod 10 ^ length ?d = nat n" using decimal_bound by simp
  then have "add_digits widen b (length p + length ?d - 1) (length ?d) = Some (word_of_int n)"
    using add_digits_decimal [of b p "nat n" post widen "length ?d"] b n False w by simp
  ultimately show ?thesis using False by (simp add: StringToNumber_def)
next
  case True
  let ?d = "decimal (nat (- n))"
  have "nat (- n) mod 10 ^ length ?d = nat (- n)" using decimal_bound by simp
  then have "add_digits widen b (length (p @ [minus_ch]) + length ?d - 1) (length ?d) = Some (word_of_int (- n))"
    using add_digits_decimal [of b "p @ [minus_ch]" "nat (- n)" post widen "length ?d"] b n True w by simp
  moreover have "rd b (length p) = Some minus_ch" using b True by (simp add: rd_def)
  moreover have "int_fits (- widen (word_of_int (- n)))"
    using w n True unfolding promotes_def int_fits_def by (smt (verit) of_int_minus)
  moreover have "(word_of_int (- widen (word_of_int (- n))) :: 'a word) = word_of_int n"
    using w by (simp add: promotes_def wi_hom_neg [symmetric])
  ultimately show ?thesis using True by (simp add: StringToNumber_def)
qed

lemma promotes_int: "promotes (sint :: u32 \<Rightarrow> int)"
proof -
  have "- (2 ^ 31) \<le> sint w" for w :: u32 using sint_ge [of w] by simp
  moreover have "sint (word_of_int x :: u32) = x" if "0 \<le> x" "x < 2 ^ 31" for x
    using that by (simp add: signed_of_int signed_take_bit_int_eq_self)
  ultimately show ?thesis by (simp add: promotes_def)
qed

lemma promotes_ushort: "promotes (uint :: u16 \<Rightarrow> int)"
proof -
  have "uint (word_of_int x :: u16) \<le> x" if "0 \<le> x" for x
    using that by (simp add: uint_word_of_int zmod_le_nonneg_dividend)
  moreover have "- (2 ^ 31) < uint w" "- (2 ^ 31) \<le> uint w" for w :: u16
    by (rule less_le_trans [of _ 0], simp_all) (rule order_trans [of _ 0], simp_all)
  ultimately show ?thesis by (simp add: promotes_def)
qed

lemma promotes_short: "promotes (sint :: u16 \<Rightarrow> int)"
proof -
  have l: "- (2 ^ 15) \<le> sint w" "sint w < 2 ^ 15" for w :: u16 using sint_ge [of w] sint_lt [of w] by simp_all
  have "sint (word_of_int x :: u16) \<le> x" if "0 \<le> x" for x
  proof (cases "x < 2 ^ 15")
    case True
    with that show ?thesis by (simp add: signed_of_int signed_take_bit_int_eq_self)
  next
    case False
    with l(2) [of "word_of_int x"] show ?thesis by linarith
  qed
  moreover have "- (2 ^ 31) < sint w" "- (2 ^ 31) \<le> sint w" for w :: u16 using l(1) [of w] by simp_all
  ultimately show ?thesis by (simp add: promotes_def)
qed

section \<open>Reading a file back\<close>

lemma text_no_zero: "\<forall>l\<in>set ls. line_ok l \<Longrightarrow> 0 \<notin> set (config_text ls)"
proof (induction ls)
  case (Cons l ls)
  have "0 \<notin> set (line_text l)"
  proof (cases l)
    case (Entry k g h v w r)
    with Cons.prems have "line_ok (Entry k g h v w r)" by simp
    then have "name_ok k" "space_ok g" "space_ok h" "setting_ok v" "space_ok w" "remark_ok r" by simp_all
    then have "0 \<notin> set k" "0 \<notin> set g" "0 \<notin> set h" "0 \<notin> set (setting_text v)" "0 \<notin> set w" "0 \<notin> set (remark_text r)"
      by (auto dest: name_okD space_okD setting_text_plain) (cases r; auto)
    then show ?thesis using Entry by (simp del: setting_text.simps)
  qed (use Cons.prems in \<open>auto dest: space_okD\<close>)
  with Cons show ?case by simp
qed simp

lemma config_loaded:
  assumes "\<forall>l\<in>set ls. line_ok l" "name_ok tag" "bom \<noteq> 0" "p1 = snd (LoadFile (Some (bom # config_text ls, junk)) p)"
  shows "buffer p1 = Some ([bom] @ config_text ls @ 0 # junk)"
    "wcslen ([bom] @ config_text ls @ 0 # junk) = Some (Suc (length (config_text ls)))"
    "finds ls (Suc (length (config_text ls))) ([bom] @ config_text ls @ 0 # junk) tag (SearchTag p1 tag)"
proof -
  show b: "buffer p1 = Some ([bom] @ config_text ls @ 0 # junk)" using assms(4) by (simp add: LoadFile_def)
  show e: "wcslen ([bom] @ config_text ls @ 0 # junk) = Some (Suc (length (config_text ls)))"
    using wcslen_text [of _ "[bom] @ config_text ls" junk] assms(3) text_no_zero [OF assms(1)] by simp
  from at_line_all [OF assms(1,2), of "[bom]" junk]
  show "finds ls (Suc (length (config_text ls))) ([bom] @ config_text ls @ 0 # junk) tag (SearchTag p1 tag)"
    using b e by (simp add: at_line_def Let_def SearchTag_def SearchTag_from_skip)
qed

lemma setting_at:
  assumes "\<forall>l\<in>set ls. line_ok l" "name_ok tag" "bom \<noteq> 0" "p1 = snd (LoadFile (Some (bom # config_text ls, junk)) p)"
    and v: "config_lookup ls tag = Some v"
  obtains left q b where "SearchTag p1 tag = Some (SucceseSearch, Some left)" "buffer p1 = Some b"
    "SearchValue b left 0 = Some (SucceseSearch, length q, length (value_part v))" "\<exists>post. b = q @ value_part v @ post"
proof -
  let ?b = "[bom] @ config_text ls @ 0 # junk"
  note * = config_loaded [OF assms(1-4)]
  from *(3) v obtain pre g h post where t: "SearchTag p1 tag = Some (SucceseSearch, Some (length pre))"
      "space_ok g" "space_ok h" "?b = pre @ g @ equals_ch # h @ setting_text v @ semicolon_ch # post"
      "length pre + length g + length h + length (setting_text v) + 1 < Suc (length (config_text ls))"
    unfolding finds_def by (simp only: option.case) blast
  have ok: "setting_ok v" using assms(1) v
    by (induction ls tag rule: config_lookup.induct) (auto split: if_splits)
  from SearchValue_setting [OF t(4,2,3) ok *(2) t(5), of 0]
  show thesis using that t(1) *(1) by metis
qed

lemma GetValue_number_reads:
  assumes "\<forall>l\<in>set ls. line_ok l" "name_ok (snd tag)" "bom \<noteq> 0"
    and v: "config_lookup ls (snd tag) = Some (Number n)" and w: "promotes (widen :: 'a::len word \<Rightarrow> int)"
  shows "GetValue_number (StringToNumber widen) opens (snd (LoadFile (Some (bom # config_text ls, junk)) p)) tag out lg =
           Some (True, word_of_int n, lg)"
proof -
  let ?p = "snd (LoadFile (Some (bom # config_text ls, junk)) p)"
  obtain left q b where *: "SearchTag ?p (snd tag) = Some (SucceseSearch, Some left)" "buffer ?p = Some b"
      "SearchValue b left 0 = Some (SucceseSearch, length q, length (value_part (Number n)))"
      and b: "\<exists>post. b = q @ value_part (Number n) @ post"
    using setting_at [OF assms(1-3) refl v, of junk p] by metis
  have "\<bar>n\<bar> < 2 ^ 31" using assms(1) v
    by (induction ls "snd tag" rule: config_lookup.induct) (auto split: if_splits)
  with b w have "StringToNumber widen b (length q) (length (setting_text (Number n))) = Some (word_of_int n)"
    by (auto simp del: setting_text.simps intro: StringToNumber_Number)
  with * show ?thesis by (simp add: GetValue_number_def del: setting_text.simps)
qed

text \<open>
  C14: Parsing inverts printing for numbers. For a configuration file of complete entries, remarks
  and empty lines, with any byte order mark and any memory behind the terminator, \<^verbatim>\<open>LoadFile\<close> and then
  \<^verbatim>\<open>GetValue\<close> of a name deliver the number of the first entry with that name, negative numbers
  included: exactly for \<^verbatim>\<open>int\<close>, and reduced to 16 bits, without a report, for \<^verbatim>\<open>short\<close> and
  \<^verbatim>\<open>unsigned short\<close>.
\<close>

theorem config_number_read:
  assumes "\<forall>l\<in>set ls. line_ok l" "name_ok (snd tag)" "bom \<noteq> 0" "config_lookup ls (snd tag) = Some (Number n)"
    and "p1 = snd (LoadFile (Some (bom # config_text ls, junk)) p)"
  shows "(\<exists>v. GetValue_int opens p1 tag i lg = Some (True, v, lg) \<and> sint v = n) \<and>
     GetValue_ushort opens p1 tag us lg = Some (True, word_of_int n, lg) \<and>
     GetValue_short opens p1 tag sh lg = Some (True, word_of_int n, lg)"
proof -
  note read = GetValue_number_reads [OF assms(1-4)]
  have "\<bar>n\<bar> < 2 ^ 31" using assms(1,4)
    by (induction ls "snd tag" rule: config_lookup.induct) (auto split: if_splits)
  then have "sint (word_of_int n :: u32) = n" by (simp add: signed_of_int signed_take_bit_int_eq_self)
  then have "\<exists>v. GetValue_int opens p1 tag i lg = Some (True, v, lg) \<and> sint v = n"
    using read [OF promotes_int] by (simp add: assms(5) GetValue_int_def StringToNumber_int_def)
  moreover have "GetValue_ushort opens p1 tag us lg = Some (True, word_of_int n, lg)"
    using read [OF promotes_ushort] by (simp add: assms(5) GetValue_ushort_def StringToNumber_ushort_def)
  moreover have "GetValue_short opens p1 tag sh lg = Some (True, word_of_int n, lg)"
    using read [OF promotes_short] by (simp add: assms(5) GetValue_short_def StringToNumber_short_def)
  ultimately show ?thesis by blast
qed

definition sample_config :: "config_line list" where
  "sample_config =
     [Remark (wide '' servers''), Remark (wide ''MaxSessions''), Gap [],
      Entry (wide ''ServerAddr'') [tab_ch] [tab_ch] (Quoted (wide ''127.0.0.1'')) [blank_ch] (Some (wide '' text'')),
      Entry (wide ''ServerPort'') [tab_ch] [blank_ch] (Number 70000) [] None,
      Entry (wide ''MaxSessions'') [blank_ch] [] (Number (- 7)) [] None]"

lemma config_number_read_witness:
  "(\<exists>v. GetValue_int True (snd (LoadFile (Some (0xFEFF # config_text sample_config, [1])) \<lparr>buffer = None\<rparr>))
       (8, wide ''ServerPort'') 0 \<lparr>log_tags = [], log_lines = []\<rparr> =
     Some (True, v, \<lparr>log_tags = [], log_lines = []\<rparr>) \<and> sint v = 70000) \<and>
   GetValue_ushort True (snd (LoadFile (Some (0xFEFF # config_text sample_config, [1])) \<lparr>buffer = None\<rparr>))
       (8, wide ''ServerPort'') 0 \<lparr>log_tags = [], log_lines = []\<rparr> =
     Some (True, 4464, \<lparr>log_tags = [], log_lines = []\<rparr>)"
proof -
  have ok: "\<forall>l\<in>set sample_config. line_ok l" "name_ok (snd (8::nat, wide ''ServerPort''))"
      "config_lookup sample_config (snd (8::nat, wide ''ServerPort'')) = Some (Number 70000)"
    by code_simp+
  from config_number_read [OF ok(1,2) _ ok(3) refl, of "0xFEFF"] show ?thesis by simp
qed

text \<open>
  Parsing inverts printing for texts. \<^verbatim>\<open>GetValue\<close> of a name whose first entry holds a text in quotes
  copies the text and a terminator to the front of the array of the caller when more than one place is
  left, and touches nothing behind. When the text with its terminator just fits or does not fit, the
  array keeps what it held and the call still returns \<^verbatim>\<open>true\<close>, if the array has a terminator; else the
  call reads behind it.
\<close>

theorem config_text_read:
  assumes "\<forall>l\<in>set ls. line_ok l" "name_ok (snd tag)" "bom \<noteq> 0" "config_lookup ls (snd tag) = Some (Quoted t)"
    and "p1 = snd (LoadFile (Some (bom # config_text ls, junk)) p)" "length out = bufferSize"
  shows "GetValue_text opens p1 tag out bufferSize lg =
    (if length t + 1 < bufferSize then Some (True, t @ 0 # drop (length t + 1) out, lg)
     else if 0 \<in> set out then Some (True, out, lg) else None)"
proof -
  obtain left q b where *: "SearchTag p1 (snd tag) = Some (SucceseSearch, Some left)" "buffer p1 = Some b"
      "SearchValue b left 0 = Some (SucceseSearch, length q, length t)" and b: "\<exists>post. b = q @ t @ post"
    using setting_at [OF assms(1-3) assms(5,4)] by (metis value_part.simps(1))
  have "SubString b (length q) (length t) out = Some (t @ 0 # drop (length t + 1) out)" if "length t + 1 < bufferSize"
    using b that assms(6) by (auto simp: SubString_def mem_read_def mem_write_def)
  moreover have "0 \<in> set (t @ 0 # drop (length t + 1) out)" by simp
  ultimately show ?thesis using * wcslen_None [of out] wcslen_None [of "t @ 0 # drop (length t + 1) out"]
    by (auto simp: GetValue_text_def not_less not_le simp del: wcslen_None split: option.split)
qed

lemma config_text_read_witness:
  "GetValue_text True (snd (LoadFile (Some (0xFEFF # config_text sample_config, [1])) \<lparr>buffer = None\<rparr>))
      (8, wide ''ServerAddr'') (replicate 16 7) 16 \<lparr>log_tags = [], log_lines = []\<rparr> =
    Some (True, wide ''127.0.0.1'' @ 0 # replicate 6 7, \<lparr>log_tags = [], log_lines = []\<rparr>)"
proof -
  have ok: "\<forall>l\<in>set sample_config. line_ok l" "name_ok (snd (8::nat, wide ''ServerAddr''))"
      "config_lookup sample_config (snd (8::nat, wide ''ServerAddr'')) = Some (Quoted (wide ''127.0.0.1''))"
    by code_simp+
  show ?thesis
    using config_text_read [OF ok(1,2) _ ok(3) refl, of "0xFEFF" "replicate 16 7" 16]
    by (simp add: wide_def)
qed

text \<open>
  A name without an entry. Every overload that parses returns \<^verbatim>\<open>false\<close>, leaves the variable of the
  caller alone and reports the name once: the log gets one line unless the address of the name was
  reported before or the log file cannot be opened.
\<close>

theorem config_missing_name:
  assumes "\<forall>l\<in>set ls. line_ok l" "name_ok (snd tag)" "bom \<noteq> 0" "config_lookup ls (snd tag) = None"
    and "p1 = snd (LoadFile (Some (bom # config_text ls, junk)) p)"
    and "lg1 = (if existChk lg (fst tag) then lg
                else \<lparr>log_tags = log_tags lg @ [fst tag],
                      log_lines = log_lines lg @ (if opens then [(snd tag, HasNotTag)] else [])\<rparr>)"
  shows "GetValue_int opens p1 tag i lg = Some (False, i, lg1) \<and>
     GetValue_ushort opens p1 tag us lg = Some (False, us, lg1) \<and>
     GetValue_short opens p1 tag sh lg = Some (False, sh, lg1) \<and>
     GetValue_text opens p1 tag out bufferSize lg = Some (False, out, lg1)"
proof -
  have t: "SearchTag p1 (snd tag) = Some (HasNotTag, None)"
    using config_loaded(3) [OF assms(1-3) assms(5)] assms(4) by (simp add: finds_def)
  have l: "WRITE_TAGLOG opens lg HasNotTag tag = lg1"
    unfolding assms(6) by (rule WRITE_TAGLOG_eq)
  show ?thesis
    by (simp_all add: GetValue_int_def GetValue_ushort_def GetValue_short_def GetValue_number_def GetValue_text_def t l)
qed

lemma config_missing_name_witness:
  "GetValue_int True (snd (LoadFile (Some (0xFEFF # config_text sample_config, [1])) \<lparr>buffer = None\<rparr>))
      (8, wide ''NoDelay'') 5 \<lparr>log_tags = [], log_lines = []\<rparr> =
    Some (False, 5, \<lparr>log_tags = [8], log_lines = [(wide ''NoDelay'', HasNotTag)]\<rparr>)"
proof -
  have ok: "\<forall>l\<in>set sample_config. line_ok l" "name_ok (snd (8::nat, wide ''NoDelay''))"
      "config_lookup sample_config (snd (8::nat, wide ''NoDelay'')) = None"
    by code_simp+
  show ?thesis
    using config_missing_name [OF ok(1,2) _ ok(3) refl refl, where bom = "0xFEFF" and lg = "\<lparr>log_tags = [], log_lines = []\<rparr>"]
    by (simp add: existChk_def)
qed

section \<open>Staying inside the buffer\<close>

text \<open>A loaded file whose last line is complete.\<close>

definition complete_text :: "u16 list \<Rightarrow> bool" where
  "complete_text t \<longleftrightarrow> t \<noteq> [] \<and> 0 \<notin> set t \<and> last t = newline_ch"

lemma scan_for_limit:
  "\<lbrakk>i \<le> e; e \<le> length b\<rbrakk> \<Longrightarrow>
   \<exists>r. scan_for stop (Some e) b i = Some r \<and> (\<forall>j. r = Found j \<longrightarrow> i \<le> j \<and> j < e \<and> stop (b ! j))"
proof (induction "e - i" arbitrary: i)
  case 0
  then show ?case by (subst scan_for.simps) auto
next
  case (Suc n)
  then have i: "i \<noteq> e" "i < length b" by auto
  have "\<exists>r. scan_for stop (Some e) b (Suc i) = Some r \<and>
      (\<forall>j. r = Found j \<longrightarrow> Suc i \<le> j \<and> j < e \<and> stop (b ! j))"
    using Suc by (intro Suc.hyps(1)) auto
  then show ?case using i Suc.prems(1) by (subst scan_for.simps) auto
qed

lemma scan_for_stops:
  "\<lbrakk>i \<le> k; k < length b; stop (b ! k)\<rbrakk> \<Longrightarrow> \<exists>j. scan_for stop None b i = Some (Found j) \<and> i \<le> j \<and> j \<le> k"
proof (induction "k - i" arbitrary: i)
  case 0
  then show ?case by (subst scan_for.simps) auto
next
  case (Suc n)
  then obtain j where "scan_for stop None b (Suc i) = Some (Found j)" "Suc i \<le> j" "j \<le> k"
  proof -
    have "n = k - Suc i" "Suc i \<le> k" using Suc.hyps(2) by linarith+
    then show thesis using Suc that by blast
  qed
  then show ?case using Suc.prems by (subst scan_for.simps) auto
qed

text \<open>The terminator is where the text ends, and stops the loops that do not look for the end.\<close>

definition ends_at :: "u16 list \<Rightarrow> nat \<Rightarrow> bool" where
  "ends_at b e \<longleftrightarrow> e < length b \<and> b ! e = 0 \<and> (0 < e \<longrightarrow> b ! (e - 1) = newline_ch)"

lemma comment_step_inside:
  "\<lbrakk>ends_at b e; l \<le> e\<rbrakk> \<Longrightarrow> \<exists>r. comment_step e b l = Some r \<and> (\<forall>l1. r = Inr l1 \<longrightarrow> l \<le> l1 \<and> l1 \<le> e)"
proof -
  assume a: "ends_at b e" "l \<le> e"
  then have l: "l < length b" by (simp add: ends_at_def)
  have l1: "Suc l < length b" if "b ! l = slash_ch"
    using that a by (cases "l = e") (auto simp: ends_at_def)
  obtain r where "scan_for (\<lambda>c. c = newline_ch) (Some e) b l = Some r"
      "\<forall>j. r = Found j \<longrightarrow> l \<le> j \<and> j < e \<and> b ! j = newline_ch"
    using scan_for_limit [of l e b "\<lambda>c. c = newline_ch"] a by (auto simp: ends_at_def)
  then show ?thesis using l l1 a(2) by (cases r) (auto simp: comment_step_def rd_def)
qed

lemma skip_tag_inside:
  "\<lbrakk>ends_at b e; l \<le> e\<rbrakk> \<Longrightarrow> \<exists>r. skip_tag e b l = Some r \<and> (\<forall>l1. r = Inr l1 \<longrightarrow> l \<le> l1 \<and> l1 < e)"
proof (induction "e - l" arbitrary: l rule: less_induct)
  case less
  obtain r where r: "comment_step e b l = Some r" "\<forall>l1. r = Inr l1 \<longrightarrow> l \<le> l1 \<and> l1 \<le> e"
    using comment_step_inside less.prems by blast
  show ?case
  proof (cases r)
    case (Inl t)
    with r(1) show ?thesis by (simp add: skip_tag.simps [of e b l])
  next
    case (Inr l1)
    with r(2) have l1: "l \<le> l1" "l1 \<le> e" by simp_all
    then have b: "l1 < length b" using less.prems(1) by (simp add: ends_at_def)
    show ?thesis
    proof (cases "tag_blank (b ! l1)")
      case True
      then have "l1 \<noteq> e" using less.prems(1) by (auto simp: ends_at_def tag_blank_def)
      with l1 have "e - Suc l1 < e - l" "Suc l1 \<le> e" by simp_all
      from less.hyps [OF this(1) less.prems(1) this(2)] True Inr r(1) b l1 show ?thesis
        by (auto simp: skip_tag.simps [of e b l])
    next
      case False
      with Inr r(1) b l1 show ?thesis by (simp add: skip_tag.simps [of e b l])
    qed
  qed
qed

lemma tag_turn_inside:
  assumes "ends_at b e" "l < e"
  shows "\<exists>r. tag_turn e b tag res l = Some r \<and>
    (case r of Tag_found right \<Rightarrow> right < e | Go_on res1 l1 \<Rightarrow> l < l1 \<and> l1 \<le> e | No_tag t \<Rightarrow> True)"
proof -
  have last: "l \<le> e - 1" "e - 1 < length b" "tag_end (b ! (e - 1))"
    using assms by (auto simp: ends_at_def tag_end_def)
  from scan_for_stops [where stop = tag_end, OF this] obtain j where
    j: "scan_for tag_end None b l = Some (Found j)" "l \<le> j" "j \<le> e - 1" by blast
  then have je: "j < e" using assms(2) by linarith
  have e: "e \<le> length b" using assms(1) by (simp add: ends_at_def)
  from scan_for_limit [where stop = "\<lambda>c. c = newline_ch", OF less_imp_le [OF je] e] obtain r1 where
    r1: "scan_for (\<lambda>c. c = newline_ch) (Some e) b j = Some r1" "\<forall>k. r1 = Found k \<longrightarrow> j \<le> k \<and> k < e"
    by blast
  from scan_for_limit [where stop = "\<lambda>c. c = newline_ch \<or> c = semicolon_ch", OF less_imp_le [OF assms(2)] e] obtain r2 where
    r2: "scan_for (\<lambda>c. c = newline_ch \<or> c = semicolon_ch) (Some e) b l = Some r2" "\<forall>k. r2 = Found k \<longrightarrow> l \<le> k \<and> k < e"
    by blast
  show ?thesis using j je r1 r2 assms(2) by (cases r1; cases r2) (auto simp: tag_turn_def)
qed

lemma SearchTag_from_inside:
  "\<lbrakk>ends_at b e; l \<le> e\<rbrakk> \<Longrightarrow>
   \<exists>t pos. SearchTag_from e b tag res l = Some (t, pos) \<and> (\<forall>p. pos = Some p \<longrightarrow> l < p \<and> p \<le> e)"
proof (induction "e - l" arbitrary: l res rule: less_induct)
  case less
  obtain r where r: "skip_tag e b l = Some r" "\<forall>l1. r = Inr l1 \<longrightarrow> l \<le> l1 \<and> l1 < e"
    using skip_tag_inside less.prems by blast
  show ?case
  proof (cases r)
    case (Inl t)
    with r(1) show ?thesis by (simp add: SearchTag_from.simps [of e b tag res l])
  next
    case (Inr l1)
    with r(2) have l1: "l \<le> l1" "l1 < e" by simp_all
    from tag_turn_inside [OF less.prems(1) l1(2)] obtain u where u: "tag_turn e b tag res l1 = Some u"
      "case u of Tag_found right \<Rightarrow> right < e | Go_on res1 l2 \<Rightarrow> l1 < l2 \<and> l2 \<le> e | No_tag t \<Rightarrow> True" by blast
    show ?thesis
    proof (cases u)
      case (Tag_found right)
      then have "l1 \<le> right" using u(1)
        by (auto simp: tag_turn_def split: option.splits scan_end.splits if_splits dest: scan_for_FoundD(1))
      with Tag_found u r(1) Inr l1 show ?thesis by (simp add: SearchTag_from.simps [of e b tag res l])
    next
      case (Go_on res1 l2)
      with u(2) l1 have "e - l2 < e - l" "l2 \<le> e" "l < l2" by auto
      from less.hyps [OF this(1) less.prems(1) this(2), of res1] this(3) Go_on u(1) r(1) Inr show ?thesis
        by (auto simp: SearchTag_from.simps [of e b tag res l])
    next
      case (No_tag t)
      with u r(1) Inr show ?thesis by (simp add: SearchTag_from.simps [of e b tag res l])
    qed
  qed
qed

lemma skip_value_inside:
  "\<lbrakk>ends_at b e; l \<le> e\<rbrakk> \<Longrightarrow>
   \<exists>r. skip_value b l m res = Some r \<and>
     (case r of Inl l1 \<Rightarrow> l1 \<le> e | Inr (t, l1) \<Rightarrow> l1 \<le> e)"
proof (induction "e - l" arbitrary: l m res rule: less_induct)
  case less
  have b: "l < length b" using less.prems by (simp add: ends_at_def)
  show ?case
  proof (cases "value_blank (b ! l) \<or> b ! l = equals_ch")
    case True
    then have "l \<noteq> e" using less.prems by (auto simp: ends_at_def value_blank_def)
    then have "e - Suc l < e - l" "Suc l \<le> e" using less.prems by simp_all
    note IH = less.hyps [OF this(1) less.prems(1) this(2)]
    show ?thesis using b True IH [of m res] IH [of False "if m then res else MissSemicolon"]
      by (auto simp: skip_value.simps [of b l])
  next
    case False
    moreover have "Suc l \<le> e" if "b ! l = quote_ch"
      using that less.prems by (cases "l = e") (auto simp: ends_at_def)
    ultimately show ?thesis using b less.prems by (auto simp: skip_value.simps [of b l])
  qed
qed

lemma SearchValue_inside:
  assumes "ends_at b e" "wcslen b = Some e" "l \<le> e"
  shows "\<exists>t l1 len. SearchValue b l 0 = Some (t, l1, len) \<and> l1 + len \<le> e"
proof -
  obtain r where r: "skip_value b l True SucceseSearch = Some r"
      "case r of Inl l1 \<Rightarrow> l1 \<le> e | Inr (t, l1) \<Rightarrow> l1 \<le> e"
    using skip_value_inside [OF assms(1,3)] by blast
  have e: "e \<le> length b" using assms(1) by (simp add: ends_at_def)
  show ?thesis
  proof (cases r)
    case (Inl l1)
    with r assms(2) show ?thesis by (simp add: SearchValue_def)
  next
    case (Inr x)
    obtain t l1 where x: "x = (t, l1)" by (cases x)
    with r Inr have l1: "l1 \<le> e" by simp
    let ?first = "if t = StringValue then scan_for (\<lambda>c. c = quote_ch) (Some e) b l1 else Some (Found l1)"
    obtain u where u: "?first = Some u" "\<forall>j. u = Found j \<longrightarrow> l1 \<le> j \<and> j \<le> e"
    proof (cases "t = StringValue")
      case True
      with scan_for_limit [where stop = "\<lambda>c. c = quote_ch", OF l1 e] that show thesis by (metis less_imp_le)
    qed (use l1 that in simp)
    show ?thesis
    proof (cases u)
      case AtEnd
      with u r Inr x assms(2) l1 show ?thesis by (simp add: SearchValue_def)
    next
      case (Found j)
      with u(2) have j: "l1 \<le> j" "j \<le> e" by simp_all
      from scan_for_limit [where stop = "\<lambda>c. c = semicolon_ch \<or> c = newline_ch", OF j(2) e] obtain w where
        w: "scan_for (\<lambda>c. c = semicolon_ch \<or> c = newline_ch) (Some e) b j = Some w"
          "\<forall>k. w = Found k \<longrightarrow> j \<le> k \<and> k < e" by blast
      have s: "SearchValue b l 0 = (case w of AtEnd \<Rightarrow> Some (HasNotTag, l1, e - l1)
          | Found k \<Rightarrow> if b ! k = semicolon_ch then Some (SucceseSearch, l1, (if t = StringValue then k - 1 else k) - l1)
              else Some (MissSemicolon, l1, k - l1))"
        using u Found r Inr x assms(2) w(1) by (simp add: SearchValue_def)
      show ?thesis
      proof (cases w)
        case AtEnd
        with s l1 show ?thesis by simp
      next
        case (Found k)
        with w(2) j have "l1 \<le> k" "k < e" by auto
        with s Found show ?thesis by auto
      qed
    qed
  qed
qed

lemma complete_text_ends:
  assumes "complete_text t"
  shows "ends_at (t @ 0 # junk) (length t)" "wcslen (t @ 0 # junk) = Some (length t)" "1 \<le> length t"
proof -
  from assms have t: "t \<noteq> []" "0 \<notin> set t" "t ! (length t - 1) = newline_ch"
    by (auto simp: complete_text_def last_conv_nth)
  then show "ends_at (t @ 0 # junk) (length t)" by (simp add: ends_at_def nth_append)
  from t show "wcslen (t @ 0 # junk) = Some (length t)" "1 \<le> length t"
    by (auto intro: wcslen_text simp: Suc_le_eq)
qed

text \<open>
  C15: The parser stays inside its buffer. For any file content that is not empty and whose last line is
  complete, however malformed its lines are, and for any name, the search for the name ends without
  reading behind the terminator, with a place inside the text; so does the search for the value there,
  whose range ends inside the text. The overload for text writes inside the array of the caller, and
  leaves it in one case only: when it finds a value that does not fit, it copies nothing and prints the
  array all the same, which runs behind an array that has no terminator.
\<close>

theorem parser_in_bounds:
  assumes "complete_text t" "p1 = snd (LoadFile (Some (t, junk)) p)"
  shows "(\<exists>found pos. SearchTag p1 name = Some (found, pos) \<and>
      (\<forall>left. pos = Some left \<longrightarrow> left \<le> length t \<and>
         (\<exists>ty l len. SearchValue (t @ 0 # junk) left 0 = Some (ty, l, len) \<and> l + len \<le> length t))) \<and>
    (GetValue_text opens p1 tag out (length out) lg = None \<longleftrightarrow>
       (\<exists>left ty l len. SearchTag p1 (snd tag) = Some (SucceseSearch, Some left) \<and>
          SearchValue (t @ 0 # junk) left 0 = Some (ty, l, len) \<and> length out \<le> len + 1 \<and> 0 \<notin> set out))"
proof -
  note e = complete_text_ends(1,2) [OF assms(1), where junk = junk] complete_text_ends(3) [OF assms(1)]
  have b: "buffer p1 = Some (t @ 0 # junk)" using assms(2) by (simp add: LoadFile_def)
  have search: "\<exists>found pos. SearchTag p1 name = Some (found, pos) \<and>
      (\<forall>left. pos = Some left \<longrightarrow> left \<le> length t \<and>
         (\<exists>ty l len. SearchValue (t @ 0 # junk) left 0 = Some (ty, l, len) \<and> l + len \<le> length t))" for name
  proof -
    obtain found pos where "SearchTag p1 name = Some (found, pos)" "\<forall>q. pos = Some q \<longrightarrow> q \<le> length t"
      using SearchTag_from_inside [OF e(1,3), of name SucceseSearch] b e(2) by (auto simp: SearchTag_def)
    then show ?thesis using SearchValue_inside [OF e(1,2)] by blast
  qed
  obtain found pos where f: "SearchTag p1 (snd tag) = Some (found, pos)"
      "\<forall>left. pos = Some left \<longrightarrow>
         (\<exists>ty l len. SearchValue (t @ 0 # junk) left 0 = Some (ty, l, len) \<and> l + len \<le> length t)"
    using search [of "snd tag"] by blast
  have "GetValue_text opens p1 tag out (length out) lg = None \<longleftrightarrow>
      (\<exists>left ty l len. SearchTag p1 (snd tag) = Some (SucceseSearch, Some left) \<and>
         SearchValue (t @ 0 # junk) left 0 = Some (ty, l, len) \<and> length out \<le> len + 1 \<and> 0 \<notin> set out)"
  proof (cases "found = SucceseSearch \<and> pos \<noteq> None")
    case False
    with f(1) show ?thesis by (cases found; cases pos) (auto simp: GetValue_text_def)
  next
    case True
    then obtain left where left: "pos = Some left" by blast
    with f(2) obtain ty l len where v: "SearchValue (t @ 0 # junk) left 0 = Some (ty, l, len)" "l + len \<le> length t" by blast
    have "\<exists>out1. SubString (t @ 0 # junk) l len out = Some out1 \<and> 0 \<in> set out1" if "\<not> length out \<le> len + 1"
      using that v(2) by (auto simp: SubString_def mem_read_def mem_write_def)
    then have "GetValue_text opens p1 tag out (length out) lg = None \<longleftrightarrow> length out \<le> len + 1 \<and> 0 \<notin> set out"
      using f(1) True left v b by (cases "length out \<le> len + 1") (auto simp: GetValue_text_def wcslen_def)
    with f(1) True left v show ?thesis by simp
  qed
  with search [of name] show ?thesis by blast
qed

text \<open>A value of one character in an array of two places, with and without a terminator in the array.\<close>

lemma parser_in_bounds_witness:
  "let p = snd (LoadFile (Some (0xFEFF # wide ''Addr = x;\<newline>'', [])) \<lparr>buffer = None\<rparr>); lg = \<lparr>log_tags = [], log_lines = []\<rparr>
   in GetValue_text True p (8, wide ''Addr'') [1, 0] (length [1::u16, 0]) lg \<noteq> None \<and>
      GetValue_text True p (8, wide ''Addr'') [1, 2, 3] (length [1::u16, 2, 3]) lg \<noteq> None \<and>
      GetValue_text True p (8, wide ''Addr'') [1, 2] (length [1::u16, 2]) lg = None"
proof -
  have "complete_text (0xFEFF # wide ''Addr = x;\<newline>'')" by code_simp
  note iff = parser_in_bounds [OF this refl, where tag = "(8, wide ''Addr'')", THEN conjunct2]
  have "SearchTag (snd (LoadFile (Some (0xFEFF # wide ''Addr = x;\<newline>'', [])) \<lparr>buffer = None\<rparr>)) (wide ''Addr'') = Some (SucceseSearch, Some 6)"
      "SearchValue ((0xFEFF # wide ''Addr = x;\<newline>'') @ 0 # []) 6 0 = Some (SucceseSearch, 8, 1)"
    by code_simp+
  then show ?thesis unfolding Let_def iff by simp
qed

section \<open>What the parser does not read\<close>

text \<open>
  A last line without its end makes the search for the end of a tag leave the allocation. The character
  in front of the first one of a value is taken for the equals sign's place: without a gap behind the
  name the assignment is not seen. A blank in front of the semicolon counts as a digit.
\<close>

definition file_of :: "string \<Rightarrow> Parser" where
  "file_of text = snd (LoadFile (Some (0xFEFF # wide text, [])) \<lparr>buffer = None\<rparr>)"

lemma unfinished_line: "SearchTag (file_of ''Port'') (wide ''Port'') = None"
  by code_simp

lemma no_gap_no_value:
  "map_option (\<lambda>(ok, v, lg). (ok, log_lines lg))
     (GetValue_int True (file_of ''Port=6000;\<newline>'') (8, wide ''Port'') 0 \<lparr>log_tags = [], log_lines = []\<rparr>) =
   Some (False, [(wide ''Port'', MissEqule)])"
  by code_simp

lemma blank_is_a_digit:
  "map_option (\<lambda>(ok, v, lg). (ok, v))
     (GetValue_int True (file_of ''Port = 6000 ;\<newline>'') (8, wide ''Port'') 0 \<lparr>log_tags = [], log_lines = []\<rparr>) =
   Some (True, 59984)"
  by code_simp

end
