(* ===== verification/EchoMessage.thy ===== *)
theory EchoMessage
  imports Packet
begin

text \<open>
  The copy of the serialization buffer in the echo game server
  (\<^verbatim>\<open>CGameServer_Echo/CZoneNetworkLib/CNetworkLib/utility/SerializeBuffer_exception\<close>). Its loops over
  the encoded bytes were rewritten with an index; the rest of the class is that of \<open>Message\<close>. The
  rewritten encoder is equal to the one of the other servers. The rewritten decoder is not its inverse.
\<close>

section \<open>The rewritten loops\<close>

text \<open>\<open>lf\<close> is the memory from \<^verbatim>\<open>byCheckSum\<close> on, updated in place.\<close>

function enc_at :: "u8 \<Rightarrow> u8 \<Rightarrow> u8 \<Rightarrow> u8 \<Rightarrow> nat \<Rightarrow> nat \<Rightarrow> u8 list \<Rightarrow> u8 list" where
  "enc_at RK K P E i len lf =
     (if i < len then
        let D1 = lf ! i;
            b = P + (RK + of_nat (i + 1));
            P' = D1 XOR b;
            E' = P' XOR (E + (K + of_nat (i + 1)))
        in enc_at RK K P' E' (i + 1) len (lf[i := E'])
      else lf)"
  by pat_completeness auto
termination by (relation "measure (\<lambda>(RK, K, P, E, i, len, lf). len - i)") auto

declare enc_at.simps [simp del]

definition Echo_EnCoding :: "u8 \<Rightarrow> CMessage \<Rightarrow> msg_error + CMessage" where
  "Echo_EnCoding RK m =
     (if msg_rear m < off_byCheckSum \<or> length (msg_mem m) < msg_rear m \<or> length (msg_mem m) \<le> off_byCheckSum
      then Inl MemFault
      else (let mem1 = (msg_mem m)[off_byRandKey := RK];
                lf = drop off_byCheckSum mem1;
                len = msg_rear m - off_byCheckSum;
                csum = sum_list (map (\<lambda>i. lf ! i) [1..<len])
            in Inr (m\<lparr>msg_mem := take off_byCheckSum mem1 @ enc_at RK (msg_K m) 0 0 0 len (lf[0 := csum])\<rparr>)))"

function dec_at :: "u8 \<Rightarrow> u8 \<Rightarrow> u8 \<Rightarrow> u8 \<Rightarrow> u32 \<Rightarrow> nat \<Rightarrow> nat \<Rightarrow> u8 list \<Rightarrow> u8 list \<times> u32" where
  "dec_at RK K P1 E1 csum i len p =
     (if i < len then
        let x = p ! (i - 1);
            t = K + of_nat i;
            P2 = x XOR (E1 + t);
            D2 = P2 XOR (P1 + (RK + of_nat i))
        in dec_at RK K P2 x (if 2 \<le> i then csum + ucast D2 else csum) (i + 1) len (p[i - 1 := D2])
      else (p, csum))"
  by pat_completeness auto
termination by (relation "measure (\<lambda>(RK, K, P1, E1, csum, i, len, p). len - i)") auto

declare dec_at.simps [simp del]

definition Echo_DeCoding :: "CMessage \<Rightarrow> msg_error + (bool \<times> CMessage)" where
  "Echo_DeCoding m =
     (let lenSigned = int (msg_rear m) - int off_byCheckSum
      in if length (msg_mem m) \<le> off_byRandKey then Inl MemFault
         else if lenSigned \<le> 0 \<or> int (msg_size m) < lenSigned then Inr (False, m)
         else if length (msg_mem m) < msg_rear m then Inl MemFault
         else (let (p, csum) = dec_at (msg_mem m ! off_byRandKey) (msg_K m) 0 0 0 1 (nat lenSigned)
                                (drop off_byCheckSum (msg_mem m))
               in Inr (p ! 0 = ucast csum, m\<lparr>msg_mem := take off_byCheckSum (msg_mem m) @ p\<rparr>)))"

section \<open>The encoder\<close>

lemma enc_at_loop:
  "i \<le> len \<Longrightarrow> len \<le> length lf \<Longrightarrow>
   enc_at RK K P E i len lf = take i lf @ enc_loop RK K P E (i + 1) (drop i (take len lf)) @ drop len lf"
proof (induction RK K P E i len lf rule: enc_at.induct)
  case (1 RK K P E i len lf)
  show ?case
  proof (cases "i < len")
    case False
    with 1(2) show ?thesis by (subst enc_at.simps) simp
  next
    case True
    let ?b = "P + (RK + of_nat (i + 1))"
    let ?P = "lf ! i XOR ?b"
    let ?E = "?P XOR (E + (K + of_nat (i + 1)))"
    have i: "i < length lf" using True 1(3) by simp
    have d: "drop i (take len lf) = lf ! i # drop (Suc i) (take len lf)"
      using True i by (metis Cons_nth_drop_Suc length_take min_less_iff_conj nth_take)
    have "enc_at RK K P E i len lf = enc_at RK K ?P ?E (i + 1) len (lf[i := ?E])"
      using True by (simp add: enc_at.simps [of RK K P E i len lf] Let_def)
    also have "\<dots> = take (i + 1) (lf[i := ?E]) @ enc_loop RK K ?P ?E (i + 2) (drop (i + 1) (take len (lf[i := ?E]))) @
        drop len (lf[i := ?E])"
      using 1(1) [OF True refl refl refl refl] True 1(3) by simp
    also have "take (i + 1) (lf[i := ?E]) = take i lf @ [?E]" using i by (simp add: take_Suc_conv_app_nth)
    also have "drop (i + 1) (take len (lf[i := ?E])) = drop (Suc i) (take len lf)"
      by (simp add: drop_take)
    also have "drop len (lf[i := ?E]) = drop len lf" using True by simp
    finally show ?thesis unfolding d by (simp add: Let_def add.assoc add.commute add.left_commute)
  qed
qed

lemma Echo_EnCoding_eq: "Echo_EnCoding RK m = EnCoding RK m"
proof (cases "msg_rear m < off_byCheckSum \<or> length (msg_mem m) < msg_rear m \<or> length (msg_mem m) \<le> off_byCheckSum")
  case True
  then show ?thesis by (simp add: Echo_EnCoding_def EnCoding_def)
next
  case False
  define mem1 where "mem1 = (msg_mem m)[off_byRandKey := RK]"
  define lf where "lf = drop off_byCheckSum mem1"
  let ?len = "msg_rear m - off_byCheckSum" and ?D = "drop off_byCheckSum (take (msg_rear m) mem1)"
  let ?csum = "sum_list (map (\<lambda>i. lf ! i) [1..<?len])"
  from False have bounds: "off_byCheckSum \<le> msg_rear m" "msg_rear m \<le> length mem1" "off_byCheckSum < length mem1"
    by (auto simp: mem1_def)
  then have lf: "?len \<le> length lf" "0 < length lf" by (auto simp: lf_def)
  have D: "?D = take ?len lf" by (simp add: lf_def drop_take)
  have "tl (take ?len lf) = map (\<lambda>i. lf ! i) [1..<?len]"
    using lf by (intro nth_equalityI) (auto simp: nth_tl)
  then have csum: "checksum ?D = ?csum" by (simp add: D checksum_def)
  have "enc_at RK (msg_K m) 0 0 0 ?len (lf[0 := ?csum]) =
      enc_loop RK (msg_K m) 0 0 1 (take ?len (lf[0 := ?csum])) @ drop ?len (lf[0 := ?csum])"
    using enc_at_loop [of 0 ?len "lf[0 := ?csum]"] lf by simp
  moreover have "take off_byCheckSum mem1 = take off_byCheckSum (mem1[off_byCheckSum := ?csum])" by simp
  moreover have "lf[0 := ?csum] = drop off_byCheckSum (mem1[off_byCheckSum := ?csum])"
    using bounds by (simp add: lf_def drop_update_swap)
  ultimately show ?thesis
    using False csum bounds
    by (simp add: Echo_EnCoding_def EnCoding_def mem1_def [symmetric] lf_def [symmetric] Let_def drop_take)
qed

text \<open>
  C16: The encoder of the echo server, which sums and encodes with an index in place, computes on every
  message and with every key the same bytes, and fails on the same messages, as the encoder of the other
  servers.
\<close>

theorem Echo_EnCoding_equiv: "Echo_EnCoding RK m = EnCoding RK m"
  by (rule Echo_EnCoding_eq)

section \<open>The decoder\<close>

lemma dec_loop_butlast: "butlast (dec_loop RK K P E c es) = dec_loop RK K P E c (butlast es)"
proof (cases es rule: rev_cases)
  case (snoc xs x)
  obtain P' E' where "\<forall>ys. dec_loop RK K P E c (xs @ ys) = dec_loop RK K P E c xs @ dec_loop RK K P' E' (c + length xs) ys"
    using dec_loop_prefix by blast
  with snoc show ?thesis by (simp add: butlast_append Let_def)
qed simp

text \<open>The loop decodes all bytes but the last one, and sums the decoded ones behind the first.\<close>

lemma take_drop_step: "\<lbrakk>Suc j < len; len \<le> length p\<rbrakk> \<Longrightarrow>
    take (len - Suc j) (drop j p) = p ! j # take (len - Suc (Suc j)) (drop (Suc j) p)"
  by (simp add: Cons_nth_drop_Suc [symmetric] Suc_diff_Suc [symmetric] take_Suc_Cons)

lemma dec_at_loop:
  assumes "j < len" "len \<le> length p"
  shows "dec_at RK K P E acc (Suc j) len p =
    (let ds = dec_loop RK K P E (Suc j) (take (len - Suc j) (drop j p))
     in (take j p @ ds @ drop (len - 1) p, acc + sum_list (map ucast (if j = 0 then tl ds else ds))))"
  using assms
proof (induction "len - j" arbitrary: P E acc j p)
  case (Suc n)
  show ?case
  proof (cases "Suc j < len")
    case False
    with Suc.prems have "len = Suc j" by simp
    then show ?thesis by (subst dec_at.simps) (simp add: Let_def)
  next
    case True
    define x where "x = p ! j"
    define P2 where "P2 = x XOR (E + (K + of_nat (Suc j)))"
    define D2 where "D2 = P2 XOR (P + (RK + of_nat (Suc j)))"
    define p2 where "p2 = p[j := D2]"
    define ds where "ds = dec_loop RK K P2 x (Suc (Suc j)) (take (len - Suc (Suc j)) (drop (Suc j) p))"
    have j: "j < length p" using Suc.prems by simp
    have "dec_at RK K P E acc (Suc j) len p = dec_at RK K P2 x (if j = 0 then acc else acc + ucast D2) (Suc (Suc j)) len p2"
      using True by (subst dec_at.simps) (simp add: Let_def x_def P2_def D2_def p2_def)
    also have "\<dots> = (let ds = dec_loop RK K P2 x (Suc (Suc j)) (take (len - Suc (Suc j)) (drop (Suc j) p2))
        in (take (Suc j) p2 @ ds @ drop (len - 1) p2,
            (if j = 0 then acc else acc + ucast D2) + sum_list (map ucast (if Suc j = 0 then tl ds else ds))))"
      by (rule Suc.hyps(1)) (use Suc True in \<open>auto simp: p2_def\<close>)
    also have "drop (Suc j) p2 = drop (Suc j) p" by (simp add: p2_def)
    also have "drop (len - 1) p2 = drop (len - 1) p" using True by (simp add: p2_def)
    also have "take (Suc j) p2 = take j p @ [D2]" using j by (simp add: p2_def take_Suc_conv_app_nth)
    finally have "dec_at RK K P E acc (Suc j) len p =
        (take j p @ D2 # ds @ drop (len - 1) p, (if j = 0 then acc else acc + ucast D2) + sum_list (map ucast ds))"
      by (simp add: ds_def [symmetric] Let_def)
    moreover have "dec_loop RK K P E (Suc j) (take (len - Suc j) (drop j p)) = D2 # ds"
      unfolding take_drop_step [OF True Suc.prems(2)] dec_loop.simps Let_def
      by (simp add: ds_def D2_def P2_def x_def add.assoc)
    ultimately show ?thesis by (simp add: Let_def add.assoc)
  qed
qed simp

lemma ucast_sum_list: "(ucast (sum_list (map ucast xs) :: u32) :: u8) = sum_list xs" for xs :: "u8 list"
proof (induction xs)
  case (Cons x xs)
  have "take_bit 8 (take_bit 32 a + take_bit 32 b) = take_bit 8 (a + b)" for a b :: int
  proof -
    have "take_bit 8 (take_bit 32 a + take_bit 32 b) = take_bit 8 (take_bit 8 (take_bit 32 a) + take_bit 8 (take_bit 32 b))"
      by (simp only: take_bit_add)
    also have "\<dots> = take_bit 8 (take_bit 8 a + take_bit 8 b)" by simp
    finally show ?thesis by (simp only: take_bit_add)
  qed
  then have "(ucast (a + b :: u32) :: u8) = ucast a + ucast b" for a b by transfer simp
  moreover have "(ucast (ucast x :: u32) :: u8) = x" by transfer simp
  ultimately show ?case using Cons by simp
qed simp

lemma Echo_DeCoding_eq:
  assumes "msg_ok m" "sizeof_stHeader \<le> msg_rear m" "msg_rear m \<le> off_byCheckSum + msg_size m"
    and body: "body = dec_loop (msg_mem m ! off_byRandKey) (msg_K m) 0 0 1
                     (drop off_byCheckSum (take (msg_rear m - 1) (msg_mem m)))"
  shows "Echo_DeCoding m = Inr ((if body = [] then msg_mem m ! off_byCheckSum else hd body) = checksum body,
      m\<lparr>msg_mem := take off_byCheckSum (msg_mem m) @ body @ drop (msg_rear m - 1) (msg_mem m)\<rparr>)"
proof -
  have r: "5 \<le> msg_rear m" "msg_rear m \<le> 2000" "length (msg_mem m) = 2000"
    using assms(1,2) by (simp_all add: msg_ok_def sizeof_stHeader_def MaxSize_def)
  let ?len = "msg_rear m - 4" and ?p = "drop off_byCheckSum (msg_mem m)"
  have t: "take (?len - 1) ?p = drop off_byCheckSum (take (msg_rear m - 1) (msg_mem m))"
    using r by (simp add: off_byCheckSum_def drop_take)
  have d: "drop (?len - 1) ?p = drop (msg_rear m - 1) (msg_mem m)"
    using r by (simp add: off_byCheckSum_def)
  have "dec_at (msg_mem m ! off_byRandKey) (msg_K m) 0 0 0 (Suc 0) ?len ?p =
      (body @ drop (msg_rear m - 1) (msg_mem m), sum_list (map ucast (tl body)))"
    using dec_at_loop [of 0 ?len ?p] r t d body by (simp add: off_byCheckSum_def Let_def)
  moreover have "nat (int (msg_rear m) - int off_byCheckSum) = ?len" using r by (simp add: off_byCheckSum_def)
  moreover have "(body @ drop (msg_rear m - 1) (msg_mem m)) ! 0 = (if body = [] then msg_mem m ! off_byCheckSum else hd body)"
  proof (cases "body = []")
    case True
    moreover have "length body = msg_rear m - 5" using r by (simp add: body off_byCheckSum_def)
    ultimately have "msg_rear m = 5" using r by simp
    with True r show ?thesis by (simp add: off_byCheckSum_def)
  qed (simp add: nth_append hd_conv_nth)
  ultimately show ?thesis
    using r assms(3) by (simp add: Echo_DeCoding_def Let_def off_byCheckSum_def off_byRandKey_def checksum_def ucast_sum_list)
qed

lemma Echo_DeCoding_last_byte_aux:
  assumes "msg_ok m" "sizeof_stHeader < msg_rear m" "msg_rear m \<le> off_byCheckSum + msg_size m"
  shows "\<exists>m1 m2. EnCoding RK m = Inr m1 \<and>
    Echo_DeCoding m1 = Inr (msg_mem m ! (msg_rear m - 1) = 0, m2) \<and>
    m2 = m\<lparr>msg_mem := (msg_mem m)[off_byRandKey := RK,
      off_byCheckSum := checksum (drop off_byCheckSum (take (msg_rear m) (msg_mem m))),
      msg_rear m - 1 := msg_mem m1 ! (msg_rear m - 1)]\<rparr>"
proof -
  define mem where "mem = msg_mem m"
  define h where "h = take 3 mem"
  define mid where "mid = take (msg_rear m - 6) (drop 5 mem)"
  define post where "post = drop (msg_rear m) mem"
  let ?l = "mem ! (msg_rear m - 1)"
  have r: "6 \<le> msg_rear m" "msg_rear m \<le> 2000" "length mem = 2000"
    using assms(1,2) by (simp_all add: msg_ok_def sizeof_stHeader_def MaxSize_def mem_def)
  then have len: "length h = 3" "length mid = msg_rear m - 6" by (simp_all add: h_def mid_def)
  obtain d e where mem: "mem = h @ d # e # mid @ ?l # post"
  proof -
    have "drop 3 mem = mem ! 3 # mem ! 4 # drop 5 mem"
      using r Cons_nth_drop_Suc [of 3 mem] Cons_nth_drop_Suc [of 4 mem] by simp
    moreover have "drop 5 mem = mid @ drop (msg_rear m - 6) (drop 5 mem)" by (simp only: mid_def append_take_drop_id)
    moreover have "drop (msg_rear m - 6) (drop 5 mem) = ?l # post"
      using r Cons_nth_drop_Suc [of "msg_rear m - 1" mem] by (simp add: post_def)
    ultimately have "mem = h @ mem ! 3 # mem ! 4 # mid @ ?l # post"
      by (metis append_take_drop_id h_def)
    then show thesis by (rule that)
  qed
  define cs where "cs = checksum (drop off_byCheckSum (take (msg_rear m) mem))"
  have D: "drop off_byCheckSum (take (msg_rear m) mem) = e # mid @ [?l]"
  proof -
    have "take (msg_rear m) mem = h @ d # e # mid @ [?l]"
      using arg_cong [OF mem, of "take (msg_rear m)"] r len by (simp add: take_Cons')
    then show ?thesis using len by (simp add: off_byCheckSum_def)
  qed
  then have cs: "cs = sum_list mid + ?l" by (simp add: cs_def checksum_def)
  define enc where "enc = enc_loop RK (msg_K m) 0 0 1 (cs # mid @ [?l])"
  obtain X y where enc: "enc = X @ [y]" "length X = msg_rear m - 5"
  proof -
    have "length enc = Suc (msg_rear m - 5)" using r len by (simp add: enc_def Let_def)
    then show thesis using that by (cases enc rule: rev_cases) auto
  qed
  let ?m1 = "m\<lparr>msg_mem := h @ RK # X @ y # post\<rparr>"
  have "enc_loop RK (msg_K m) 0 0 1 (checksum (e # mid @ [?l]) # tl (e # mid @ [?l])) = X @ [y]"
    using enc(1) D by (simp add: enc_def cs_def del: enc_loop.simps)
  then have E: "EnCoding RK m = Inr ?m1"
    using EnCoding_eq [OF assms(1), of RK] assms(2) D
    by (simp add: mem_def [symmetric] h_def [symmetric] post_def [symmetric] off_byRandKey_def del: enc_loop.simps)
  have "length (h @ RK # X @ y # post) = MaxSize"
    using assms(1) arg_cong [OF mem, of length] len enc(2) r by (simp add: msg_ok_def mem_def [symmetric]) arith
  then have ok: "msg_ok ?m1" using assms(1) by (simp add: msg_ok_def)
  have at: "msg_mem ?m1 ! off_byRandKey = RK" "msg_mem ?m1 ! (msg_rear m - 1) = y"
  proof -
    show "msg_mem ?m1 ! off_byRandKey = RK" using len by (simp add: off_byRandKey_def nth_append)
    have "length (h @ RK # X) = msg_rear m - 1" using len enc(2) r by simp
    then show "msg_mem ?m1 ! (msg_rear m - 1) = y" using nth_append_length [of "h @ RK # X" y post] by simp
  qed
  have "drop off_byCheckSum (take (msg_rear ?m1 - 1) (msg_mem ?m1)) = X"
    using len enc(2) r by (simp add: off_byCheckSum_def take_Cons' drop_Cons')
  moreover have "dec_loop RK (msg_K m) 0 0 1 X = cs # mid"
  proof -
    have "dec_loop RK (msg_K m) 0 0 1 X = dec_loop RK (msg_K m) 0 0 1 (butlast enc)" by (simp add: enc(1))
    also have "\<dots> = butlast (dec_loop RK (msg_K m) 0 0 1 enc)" by (rule dec_loop_butlast [symmetric])
    also have "dec_loop RK (msg_K m) 0 0 1 enc = cs # mid @ [?l]" unfolding enc_def by (rule dec_enc_loop)
    finally show ?thesis by (simp add: butlast_append)
  qed
  moreover have "take off_byCheckSum (msg_mem ?m1) = h @ [RK]" "drop (msg_rear ?m1 - 1) (msg_mem ?m1) = y # post"
    using len enc(2) r by (simp_all add: off_byCheckSum_def take_Cons' drop_Cons')
  ultimately have "Echo_DeCoding ?m1 = Inr (cs = checksum (cs # mid), m\<lparr>msg_mem := (h @ [RK]) @ (cs # mid) @ y # post\<rparr>)"
    using Echo_DeCoding_eq [OF ok _ _ refl] assms(2,3) at(1) by simp
  moreover have "cs = checksum (cs # mid) \<longleftrightarrow> ?l = 0" by (simp add: cs checksum_def)
  moreover have "mem[off_byRandKey := RK, off_byCheckSum := cs, msg_rear m - 1 := y] = (h @ [RK]) @ (cs # mid) @ y # post"
  proof -
    have "mem[off_byRandKey := RK] = (h @ [RK]) @ e # mid @ ?l # post"
      using list_update_length [of h d "e # mid @ ?l # post" RK] mem len by (simp add: off_byRandKey_def)
    then have "mem[off_byRandKey := RK, off_byCheckSum := cs] = (h @ RK # cs # mid) @ ?l # post"
      using list_update_length [of "h @ [RK]" e "mid @ ?l # post" cs] len by (simp add: off_byCheckSum_def)
    moreover have "length (h @ RK # cs # mid) = msg_rear m - 1" using len r by simp
    ultimately show ?thesis using list_update_length [of "h @ RK # cs # mid" ?l post y] by simp
  qed
  ultimately show ?thesis using E at(2) by (auto simp: mem_def cs_def)
qed

text \<open>
  C17: The rewritten decoder stops one byte early. Of a frame that a correct sender encoded, with at
  least one byte of payload, it leaves the last byte encoded and out of the sum: the frame is accepted
  exactly when the last byte of the payload was zero, and everything in front of that byte is restored.
\<close>

theorem Echo_DeCoding_last_byte:
  assumes "msg_ok m" "sizeof_stHeader < msg_rear m" "msg_rear m \<le> off_byCheckSum + msg_size m"
  shows "\<exists>m1 m2. EnCoding RK m = Inr m1 \<and>
    Echo_DeCoding m1 = Inr (msg_mem m ! (msg_rear m - 1) = 0, m2) \<and>
    m2 = m\<lparr>msg_mem := (msg_mem m)[off_byRandKey := RK,
      off_byCheckSum := checksum (drop off_byCheckSum (take (msg_rear m) (msg_mem m))),
      msg_rear m - 1 := msg_mem m1 ! (msg_rear m - 1)]\<rparr>"
  using assms by (rule Echo_DeCoding_last_byte_aux)

lemma Echo_DeCoding_last_byte_witness:
  "\<exists>m1 m2. EnCoding 5 sample_msg = Inr m1 \<and> Echo_DeCoding m1 = Inr (False, m2)"
proof -
  have "msg_mem sample_msg ! (msg_rear sample_msg - 1) = 30" by (simp add: sample_msg_def)
  moreover have "sizeof_stHeader < msg_rear sample_msg" by (simp add: sample_msg_def sizeof_stHeader_def)
  ultimately show ?thesis
    using Echo_DeCoding_last_byte [of sample_msg 5] sample_msg_ok(1,3) by fastforce
qed

text \<open>
  In particular no heartbeat of a correct client is accepted: its payload is the packet type 5002, whose
  second byte is not zero.
\<close>

lemma heartbeat_rejected:
  assumes "msg_ok m" "msg_rear m = sizeof_stHeader + 2" "msg_rear m \<le> off_byCheckSum + msg_size m"
    and "drop sizeof_stHeader (msg_frame m) = word_bytes 2 (5002 :: u16)"
  shows "\<exists>m1 m2. EnCoding RK m = Inr m1 \<and> Echo_DeCoding m1 = Inr (False, m2)"
proof -
  have "msg_frame m ! (msg_rear m - 1) = drop sizeof_stHeader (msg_frame m) ! 1"
    using assms(1,2) by (simp add: msg_frame_def msg_ok_def MaxSize_def sizeof_stHeader_def)
  also have "\<dots> = 0x13" by (simp add: assms(4) word_bytes_2)
  finally have "msg_mem m ! (msg_rear m - 1) = 0x13" using assms(2) by (simp add: msg_frame_def sizeof_stHeader_def)
  then show ?thesis using Echo_DeCoding_last_byte_aux [OF assms(1) _ assms(3), of RK] assms(2) by auto
qed

end
