(* ===== verification/Zone.thy ===== *)
theory Zone
  imports EchoMessage Network "HOL-Library.AList"
begin

text \<open>
  The zones of the echo game server: \<^verbatim>\<open>CZoneServer\<close> and \<^verbatim>\<open>ZoneSet\<close> of the zone network library
  (\<^verbatim>\<open>CZoneNetworkLib.h\<close>, \<^verbatim>\<open>CZoneNetworkLib.cpp\<close>, \<^verbatim>\<open>utility/clsSession.cpp\<close>) with the two zones
  \<^verbatim>\<open>clsLoginZone\<close> and \<^verbatim>\<open>clsEchoZone\<close>. Each zone has a thread; \<open>ZoneThread\<close> is one step of it, and a
  thread gives way to others between two steps. Pointers are positions: of a session in
  \<^verbatim>\<open>sessions_vec\<close>, of a zone in \<open>zones\<close> (the login zone is 0), of a player in the array of its pool.
  \<^verbatim>\<open>__debugbreak\<close>, an uncaught exception and an access outside a message are \<open>None\<close>.
\<close>

section \<open>State\<close>

record zone_stPlayer =
  pl_AccountNo :: u64
  pl_SessionID :: u64
  pl_lastRecvTime :: u32

text \<open>
  Of a session the fields the zones use: \<open>zs_alive\<close> is bit 63 of \<^verbatim>\<open>m_ReleaseAndDBReQuest\<close>, whose other
  bits stay zero, \<open>zs_zone\<close> is \<^verbatim>\<open>m_zoneSet\<close>.
\<close>

record zone_session =
  zs_SeqID :: u64
  zs_alive :: bool
  zs_blive :: bool
  zs_zone :: nat
  zs_buffer :: "CMessage list"
  zs_pPlayer :: "nat option"

text \<open>Where a zone thread stands; the two loops over the list of sessions keep the place of their iterator.\<close>

datatype zone_pc = Z_enter | Z_recv nat | Z_update | Z_sweep nat

text \<open>A zone with its queue; the last three fields are those of \<^verbatim>\<open>clsEchoZone\<close>.\<close>

record ZoneSet =
  z_q :: "u64 list"
  z_sessions :: "nat list"
  z_count :: int
  z_pc :: zone_pc
  echo_hash :: "(u64 \<times> nat) list"
  echo_msgTypeCnt :: "nat \<times> nat \<times> nat"
  z_totalPacketCnt :: nat

record clsLoginZone =
  prePlayer_hash :: "(u64 \<times> nat) list"
  SessionID_hash :: "(u64 \<times> nat) list"
  Account_hash :: "(u64 \<times> nat) list"
  Auth_SessionCnt :: nat
  User_SessionCnt :: nat
  AcceptTps :: nat
  login_msgTypeCnt :: nat
  players :: "zone_stPlayer list"
  player_free :: "nat list"
  bRedisOnce :: bool

text \<open>
  What the zones ask of the network library and of the message pool, and the accept thread of the system, in
  order: \<open>ZRefuse\<close> closes the socket of a connection without a session, \<open>ZRecvPacket\<close> asks for the first receive.
\<close>

datatype zone_call = ZDisconnect u64 | ZSend u64 CMessage | ZFree CMessage | ZAlloc | ZClose nat | ZRefuse | ZRecvPacket nat

text \<open>
  \<open>zv_lost\<close> is not in the code, and nothing reads it: the slots that the accept thread took from the stack for a
  connection it could not associate with the completion port.
\<close>

record CZoneServer =
  zv_encode :: bool
  zv_sessions :: "zone_session list"
  zv_stack :: "nat list"
  zv_next :: u64
  zv_zones :: "ZoneSet list"
  zv_login :: clsLoginZone
  zv_calls :: "zone_call list"
  zv_lost :: "nat list"

text \<open>
  What a step takes from outside: the clock, whether redis can be reached, its answers, the bytes of a local header that stay
  uninitialised, the random key, a message and a player of the pools, and whether \<^verbatim>\<open>OnRelease\<close> clears
  the bit between the two reads of a sweep. \<open>Redis_throws\<close> is an exception of \<^verbatim>\<open>get\<close>, \<^verbatim>\<open>sync_commit\<close> or \<^verbatim>\<open>as_string\<close>,
  which is no \<^verbatim>\<open>MessageException\<close>.
\<close>

record zone_input =
  zi_now :: u32
  zi_connect :: bool
  zi_redis :: "u64 \<Rightarrow> redis_reply"
  zi_junk :: "u8 list"
  zi_RK :: u8
  zi_msg :: CMessage
  zi_player :: zone_stPlayer
  zi_late :: bool

definition zsession :: "nat \<Rightarrow> CZoneServer \<Rightarrow> zone_session" where
  "zsession i s = zv_sessions s ! i"

definition upd_zs :: "nat \<Rightarrow> (zone_session \<Rightarrow> zone_session) \<Rightarrow> CZoneServer \<Rightarrow> CZoneServer" where
  "upd_zs i f s = s\<lparr>zv_sessions := (zv_sessions s)[i := f (zv_sessions s ! i)]\<rparr>"

definition upd_zone :: "nat \<Rightarrow> (ZoneSet \<Rightarrow> ZoneSet) \<Rightarrow> CZoneServer \<Rightarrow> CZoneServer" where
  "upd_zone z f s = s\<lparr>zv_zones := (zv_zones s)[z := f (zv_zones s ! z)]\<rparr>"

definition upd_login :: "(clsLoginZone \<Rightarrow> clsLoginZone) \<Rightarrow> CZoneServer \<Rightarrow> CZoneServer" where
  "upd_login f s = s\<lparr>zv_login := f (zv_login s)\<rparr>"

definition zcall :: "zone_call \<Rightarrow> CZoneServer \<Rightarrow> CZoneServer" where
  "zcall c s = s\<lparr>zv_calls := zv_calls s @ [c]\<rparr>"

definition upd_zplayer :: "nat \<Rightarrow> (zone_stPlayer \<Rightarrow> zone_stPlayer) \<Rightarrow> CZoneServer \<Rightarrow> CZoneServer" where
  "upd_zplayer p f s = upd_login (\<lambda>l. l\<lparr>players := (players l)[p := f (players l ! p)]\<rparr>) s"

text \<open>\<^verbatim>\<open>unordered_map::insert\<close> keeps an entry that is there.\<close>

definition hash_insert :: "'k \<Rightarrow> 'v \<Rightarrow> ('k \<times> 'v) list \<Rightarrow> ('k \<times> 'v) list" where
  "hash_insert k v xs = (if map_of xs k = None then (k, v) # xs else xs)"

section \<open>The server\<close>

definition new_ZoneSet :: ZoneSet where
  "new_ZoneSet = \<lparr>z_q = [], z_sessions = [], z_count = 0, z_pc = Z_enter, echo_hash = [],
     echo_msgTypeCnt = (0, 0, 0), z_totalPacketCnt = 0\<rparr>"

definition new_clsLoginZone :: clsLoginZone where
  "new_clsLoginZone = \<lparr>prePlayer_hash = [], SessionID_hash = [], Account_hash = [], Auth_SessionCnt = 0,
     User_SessionCnt = 0, AcceptTps = 0, login_msgTypeCnt = 0, players = [], player_free = [], bRedisOnce = False\<rparr>"

definition new_zone_session :: zone_session where
  "new_zone_session = \<lparr>zs_SeqID = 0, zs_alive = False, zs_blive = False, zs_zone = 0, zs_buffer = [], zs_pPlayer = None\<rparr>"

text \<open>\<^verbatim>\<open>RegisterZone\<close> for a further echo zone.\<close>

definition ReQuestCreateZone :: "CZoneServer \<Rightarrow> CZoneServer" where
  "ReQuestCreateZone s = s\<lparr>zv_zones := zv_zones s @ [new_ZoneSet]\<rparr>"

text \<open>The constructor of \<^verbatim>\<open>CTestServer\<close> registers the login zone and one echo zone; \<^verbatim>\<open>Start\<close> makes the sessions.\<close>

definition new_CZoneServer :: "bool \<Rightarrow> nat \<Rightarrow> CZoneServer" where
  "new_CZoneServer iEncording MaxSessions =
     ReQuestCreateZone \<lparr>zv_encode = iEncording, zv_sessions = replicate MaxSessions new_zone_session,
       zv_stack = rev [0..<MaxSessions], zv_next = 0, zv_zones = [new_ZoneSet], zv_login = new_clsLoginZone, zv_calls = [], zv_lost = []\<rparr>"

definition EchoMaxUser :: int where "EchoMaxUser = 750"

text \<open>The choice of the emptiest echo zone, \<open>i\<close> being the loop variable.\<close>

fun pick_zone :: "int \<Rightarrow> nat \<Rightarrow> nat \<Rightarrow> ZoneSet list \<Rightarrow> nat" where
  "pick_zone userMin targetIdx i [] = targetIdx"
| "pick_zone userMin targetIdx i (v # vec) =
     (if z_count v < userMin then pick_zone (z_count v) i (Suc i) vec else pick_zone userMin targetIdx (Suc i) vec)"

definition RequeseMoveZone :: "u64 \<Rightarrow> nat \<Rightarrow> nat \<Rightarrow> CZoneServer \<Rightarrow> CZoneServer option" where
  "RequeseMoveZone SessionID targetZone pPlayer s =
     (let i = slot SessionID
      in if SessionID \<noteq> zs_SeqID (zsession i s) then None
         else let s1 = upd_zs i (\<lambda>x. x\<lparr>zs_pPlayer := Some pPlayer\<rparr>) s
           in if targetZone = 0 then Some (upd_zs i (\<lambda>x. x\<lparr>zs_zone := 0\<rparr>) s1)
              else if targetZone = 1 then
                (if tl (zv_zones s1) = [] then None
                 else let t = Suc (pick_zone EchoMaxUser 0 0 (tl (zv_zones s1)));
                          s2 = upd_zs i (\<lambda>x. x\<lparr>zs_zone := t\<rparr>) s1;
                          s3 = upd_zone t (\<lambda>Z. Z\<lparr>z_count := z_count Z + 1\<rparr>) s2
                      in Some (if EchoMaxUser \<le> z_count (zv_zones s3 ! t) then ReQuestCreateZone s3 else s3))
              else Some s1)"

section \<open>The login zone\<close>

definition en_PACKET_CS_GAME_REQ_LOGIN :: u16 where "en_PACKET_CS_GAME_REQ_LOGIN = 1001"
definition en_PACKET_CS_GAME_RES_LOGIN :: u16 where "en_PACKET_CS_GAME_RES_LOGIN = 1002"
definition en_PACKET_CS_GAME_REQ_ECHO :: u16 where "en_PACKET_CS_GAME_REQ_ECHO = 5000"
definition en_PACKET_CS_GAME_RES_ECHO :: u16 where "en_PACKET_CS_GAME_RES_ECHO = 5001"
definition en_PACKET_CS_GAME_REQ_HEARTBEAT :: u16 where "en_PACKET_CS_GAME_REQ_HEARTBEAT = 5002"

text \<open>\<^verbatim>\<open>player_pool\<close> is used by the thread of the login zone alone; it hands out the player freed last.\<close>

definition player_Alloc :: "zone_stPlayer \<Rightarrow> clsLoginZone \<Rightarrow> nat \<times> clsLoginZone" where
  "player_Alloc fresh l =
     (case player_free l of
        [] \<Rightarrow> (length (players l), l\<lparr>players := players l @ [fresh]\<rparr>)
      | p # ps \<Rightarrow> (p, l\<lparr>player_free := ps\<rparr>))"

text \<open>The connection to redis, once for the thread; an exception of \<^verbatim>\<open>connect\<close> is caught nowhere.\<close>

definition Login_connect :: "zone_input \<Rightarrow> CZoneServer \<Rightarrow> CZoneServer option" where
  "Login_connect inp s =
     (if bRedisOnce (zv_login s) then Some s
      else if zi_connect inp then Some (upd_login (\<lambda>l. l\<lparr>bRedisOnce := True\<rparr>) s)
      else None)"

definition Login_register :: "zone_input \<Rightarrow> u64 \<Rightarrow> nat option \<Rightarrow> CZoneServer \<Rightarrow> CZoneServer option" where
  "Login_register inp SessionID pPlayer s =
     (let l = zv_login s
      in case pPlayer of
        Some player \<Rightarrow>
          if map_of (prePlayer_hash l) SessionID \<noteq> None \<or> map_of (SessionID_hash l) SessionID = None then None
          else let pre = hash_insert SessionID player (prePlayer_hash l)
            in Some (upd_zplayer player (\<lambda>p. p\<lparr>pl_lastRecvTime := zi_now inp\<rparr>)
                 (upd_login (\<lambda>l. l\<lparr>prePlayer_hash := pre, Auth_SessionCnt := length pre\<rparr>) s))
      | None \<Rightarrow>
          if map_of (prePlayer_hash l) SessionID \<noteq> None \<or> map_of (SessionID_hash l) SessionID \<noteq> None then None
          else let (player, l1) = player_Alloc (zi_player inp) l;
                   pre = hash_insert SessionID player (prePlayer_hash l1)
            in Some (upd_zplayer player (\<lambda>p. p\<lparr>pl_SessionID := SessionID, pl_lastRecvTime := zi_now inp\<rparr>)
                 (s\<lparr>zv_login := l1\<lparr>prePlayer_hash := pre, Auth_SessionCnt := length pre, AcceptTps := AcceptTps l1 + 1\<rparr>\<rparr>)))"

definition Login_OnEnterWorld :: "zone_input \<Rightarrow> u64 \<Rightarrow> nat option \<Rightarrow> CZoneServer \<Rightarrow> CZoneServer option" where
  "Login_OnEnterWorld inp SessionID pPlayer s =
     (case Login_connect inp s of None \<Rightarrow> None | Some s1 \<Rightarrow> Login_register inp SessionID pPlayer s1)"

text \<open>
  The token check: an account redis does not know passes. The key of the packet is compared as a string
  that ends at its first zero. \<^verbatim>\<open>PacketProc\<close> catches the exceptions of the message only, so one of redis ends the
  thread.
\<close>

definition token_ok :: "zone_input \<Rightarrow> u64 \<Rightarrow> u8 list \<Rightarrow> bool" where
  "token_ok inp AccountNo SessionKey =
     (case zi_redis inp AccountNo of Redis_null \<Rightarrow> True | Redis_string key \<Rightarrow> key = takeWhile (\<lambda>c. c \<noteq> 0) SessionKey | Redis_throws \<Rightarrow> False)"

definition Login_REQ_LOGIN ::
    "zone_input \<Rightarrow> u64 \<Rightarrow> CMessage \<Rightarrow> u64 \<Rightarrow> u8 list \<Rightarrow> CZoneServer \<Rightarrow> CZoneServer option" where
  "Login_REQ_LOGIN inp SessionID msg AccountNo SessionKey s =
     (let s1 = zcall (ZFree msg) s
      in if zi_redis inp AccountNo = Redis_throws then None
         else if \<not> token_ok inp AccountNo SessionKey then Some (zcall (ZDisconnect SessionID) s1)
         else
          let s2 = (case map_of (Account_hash (zv_login s1)) AccountNo of
                      None \<Rightarrow> s1
                    | Some player \<Rightarrow>
                        upd_login (\<lambda>l. let acc = AList.delete AccountNo (Account_hash l)
                                       in l\<lparr>Account_hash := acc, User_SessionCnt := length acc\<rparr>)
                          (zcall (ZDisconnect (pl_SessionID (players (zv_login s1) ! player))) s1))
          in case map_of (prePlayer_hash (zv_login s2)) SessionID of
               None \<Rightarrow> None
             | Some player \<Rightarrow>
                 let s3 = upd_zplayer player (\<lambda>p. p\<lparr>pl_AccountNo := AccountNo\<rparr>) s2
                 in if map_of (SessionID_hash (zv_login s3)) SessionID \<noteq> None then None
                    else RequeseMoveZone SessionID 1 player
                      (upd_login (\<lambda>l. let acc = hash_insert AccountNo player (Account_hash l)
                                      in l\<lparr>SessionID_hash := hash_insert SessionID player (SessionID_hash l),
                                           Account_hash := acc, User_SessionCnt := length acc\<rparr>) s3))"

text \<open>A caught \<^verbatim>\<open>MessageException\<close> gives \<^verbatim>\<open>false\<close>; a read outside the array is undefined.\<close>

definition caught :: "msg_error \<Rightarrow> 's \<Rightarrow> (bool \<times> 's) option" where
  "caught e s = (if e = MemFault then None else Some (False, s))"

definition Login_PacketProc :: "zone_input \<Rightarrow> u64 \<Rightarrow> CMessage \<Rightarrow> CZoneServer \<Rightarrow> (bool \<times> CZoneServer) option" where
  "Login_PacketProc inp SessionID msg s =
     (case msg_shr msg 2 of
        Inl e \<Rightarrow> caught e s
      | Inr (wType, m1) \<Rightarrow>
          if bytes_word wType \<noteq> en_PACKET_CS_GAME_REQ_LOGIN then Some (False, s)
          else (case msg_shr m1 8 of
                  Inl e \<Rightarrow> caught e s
                | Inr (AccountNo, m2) \<Rightarrow>
                    (case GetData m2 64 of
                       Inl e \<Rightarrow> caught e s
                     | Inr (SessionKey, m3) \<Rightarrow>
                         (case Login_REQ_LOGIN inp SessionID m3 (bytes_word AccountNo) SessionKey s of
                            None \<Rightarrow> None
                          | Some s1 \<Rightarrow>
                              Some (True, upd_login (\<lambda>l. l\<lparr>login_msgTypeCnt := login_msgTypeCnt l + 1\<rparr>) s1)))))"

definition release_and_cut :: "CMessage \<Rightarrow> u64 \<Rightarrow> CZoneServer \<Rightarrow> CZoneServer" where
  "release_and_cut msg SessionID s = zcall (ZDisconnect SessionID) (zcall (ZFree msg) s)"

definition Login_OnRecv :: "zone_input \<Rightarrow> u64 \<Rightarrow> CMessage \<Rightarrow> CZoneServer \<Rightarrow> CZoneServer option" where
  "Login_OnRecv inp SessionID msg s =
     (case map_of (prePlayer_hash (zv_login s)) SessionID of
        None \<Rightarrow> Some (release_and_cut msg SessionID s)
      | Some player \<Rightarrow>
          (case Login_PacketProc inp SessionID msg s of
             None \<Rightarrow> None
           | Some (False, s1) \<Rightarrow> Some (release_and_cut msg SessionID s1)
           | Some (True, s1) \<Rightarrow>
               Some (upd_zone 0 (\<lambda>Z. Z\<lparr>z_totalPacketCnt := z_totalPacketCnt Z + 1\<rparr>)
                      (upd_zplayer player (\<lambda>p. p\<lparr>pl_lastRecvTime := zi_now inp\<rparr>) s1))))"

text \<open>The players whose last packet is \<open>timeout\<close> or more milliseconds old are disconnected.\<close>

definition cut_idle :: "u32 \<Rightarrow> u32 \<Rightarrow> (u64 \<times> nat) list \<Rightarrow> CZoneServer \<Rightarrow> CZoneServer" where
  "cut_idle timeout now hash s =
     s\<lparr>zv_calls := zv_calls s @ map (\<lambda>(_, p). ZDisconnect (pl_SessionID (players (zv_login s) ! p)))
        (filter (\<lambda>(_, p). timeout \<le> now - pl_lastRecvTime (players (zv_login s) ! p)) hash)\<rparr>"

definition Login_OnUpdate :: "zone_input \<Rightarrow> CZoneServer \<Rightarrow> CZoneServer" where
  "Login_OnUpdate inp s = cut_idle 10000 (zi_now inp) (prePlayer_hash (zv_login s)) s"

definition Login_OnLeaveWorld :: "u64 \<Rightarrow> CZoneServer \<Rightarrow> CZoneServer option" where
  "Login_OnLeaveWorld SessionID s =
     (if map_of (prePlayer_hash (zv_login s)) SessionID = None then None
      else Some (upd_login (\<lambda>l. let pre = AList.delete SessionID (prePlayer_hash l)
                                in l\<lparr>prePlayer_hash := pre, Auth_SessionCnt := length pre\<rparr>) s))"

definition Login_OnDisConnect :: "u64 \<Rightarrow> CZoneServer \<Rightarrow> CZoneServer option" where
  "Login_OnDisConnect SessionID s =
     (case map_of (prePlayer_hash (zv_login s)) SessionID of
        None \<Rightarrow> None
      | Some player \<Rightarrow>
          let AccountNo = pl_AccountNo (players (zv_login s) ! player);
              l1 = (let l = zv_login s; pre = AList.delete SessionID (prePlayer_hash l)
                    in if pl_SessionID (players l ! player) = SessionID
                       then l\<lparr>prePlayer_hash := pre, Auth_SessionCnt := length pre\<rparr> else l);
              l2 = (if map_of (SessionID_hash l1) SessionID = None then l1
                    else let l = l1\<lparr>SessionID_hash := AList.delete SessionID (SessionID_hash l1)\<rparr>
                      in case map_of (Account_hash l) AccountNo of
                           None \<Rightarrow> l
                         | Some other \<Rightarrow>
                             if SessionID = pl_SessionID (players l ! other)
                             then let acc = AList.delete AccountNo (Account_hash l)
                                  in l\<lparr>Account_hash := acc, User_SessionCnt := length acc\<rparr>
                             else l)
          in Some (s\<lparr>zv_login := l2\<lparr>players := (players l2)[player := (players l2 ! player)
                       \<lparr>pl_SessionID := 0, pl_AccountNo := 0\<rparr>], player_free := player # player_free l2\<rparr>\<rparr>))"

section \<open>The echo zone\<close>

text \<open>The header, the payload and the length field of a response, and its encoding.\<close>

definition Echo_response :: "bool \<Rightarrow> zone_input \<Rightarrow> u8 list list \<Rightarrow> CMessage \<Rightarrow> msg_error + CMessage" where
  "Echo_response encode inp parts msg =
     err_bind (begin_packet (zi_junk inp) msg) (\<lambda>m.
     err_bind (foldl (\<lambda>r bs. err_bind r (\<lambda>m. msg_shl m bs)) (Inr m) parts) (\<lambda>m.
     let len = word_of_int (int (msg_rear m) - int (msg_front m) - int (headerSize_of encode)) :: u16
     in case mem_write (msg_mem m) (msg_front m + off_sDataLen) (word_bytes 2 len) of
          None \<Rightarrow> Inl MemFault
        | Some mem \<Rightarrow>
            (if encode then Echo_EnCoding (zi_RK inp) (m\<lparr>msg_mem := mem\<rparr>) else Inr (m\<lparr>msg_mem := mem\<rparr>))))"

definition Echo_RES_LOGIN :: "zone_input \<Rightarrow> u64 \<Rightarrow> CMessage \<Rightarrow> u8 \<Rightarrow> u64 \<Rightarrow> CZoneServer \<Rightarrow> msg_error + CZoneServer" where
  "Echo_RES_LOGIN inp SessionID msg Status AccountNo s =
     err_bind (Echo_response (zv_encode s) inp
        [word_bytes 2 en_PACKET_CS_GAME_RES_LOGIN, word_bytes 1 Status, word_bytes 8 AccountNo] msg)
       (\<lambda>m. Inr (zcall (ZSend SessionID m) s))"

definition Echo_RES_ECHO :: "zone_input \<Rightarrow> u64 \<Rightarrow> CMessage \<Rightarrow> u64 \<Rightarrow> u64 \<Rightarrow> CZoneServer \<Rightarrow> msg_error + CZoneServer" where
  "Echo_RES_ECHO inp SessionID msg AccountNo SendTick s =
     err_bind (Echo_response (zv_encode s) inp
        [word_bytes 2 en_PACKET_CS_GAME_RES_ECHO, word_bytes 8 AccountNo, word_bytes 8 SendTick] msg)
       (\<lambda>m. Inr (zcall (ZSend SessionID m) s))"

definition Echo_REQ_ECHO :: "zone_input \<Rightarrow> u64 \<Rightarrow> CMessage \<Rightarrow> u64 \<Rightarrow> u64 \<Rightarrow> CZoneServer \<Rightarrow> msg_error + CZoneServer" where
  "Echo_REQ_ECHO inp SessionID msg AccountNo SendTick s = Echo_RES_ECHO inp SessionID msg AccountNo SendTick s"

definition Echo_RES_HEARTBEAT :: "zone_input \<Rightarrow> u64 \<Rightarrow> CMessage \<Rightarrow> CZoneServer \<Rightarrow> msg_error + CZoneServer" where
  "Echo_RES_HEARTBEAT inp SessionID msg s =
     err_bind (Echo_response (zv_encode s) inp [word_bytes 2 en_PACKET_CS_GAME_REQ_HEARTBEAT] msg)
       (\<lambda>m. Inr (zcall (ZSend SessionID m) s))"

definition Echo_REQ_HEARTBEAT :: "zone_input \<Rightarrow> u64 \<Rightarrow> CMessage \<Rightarrow> CZoneServer \<Rightarrow> msg_error + CZoneServer" where
  "Echo_REQ_HEARTBEAT inp SessionID msg s = Echo_RES_HEARTBEAT inp SessionID msg s"

definition count_echo :: "nat \<Rightarrow> (nat \<times> nat \<times> nat \<Rightarrow> nat \<times> nat \<times> nat) \<Rightarrow> CZoneServer \<Rightarrow> CZoneServer" where
  "count_echo z f s = upd_zone z (\<lambda>Z. Z\<lparr>echo_msgTypeCnt := f (echo_msgTypeCnt Z)\<rparr>) s"

text \<open>An exception that leaves \<^verbatim>\<open>OnEnterWorld\<close> ends the thread.\<close>

definition Echo_OnEnterWorld :: "nat \<Rightarrow> zone_input \<Rightarrow> u64 \<Rightarrow> nat option \<Rightarrow> CZoneServer \<Rightarrow> CZoneServer option" where
  "Echo_OnEnterWorld z inp SessionID pPlayer s =
     (case pPlayer of
        None \<Rightarrow> None
      | Some player \<Rightarrow>
          let s1 = upd_zone z (\<lambda>Z. Z\<lparr>echo_hash := hash_insert SessionID player (echo_hash Z)\<rparr>) s
          in (case Echo_RES_LOGIN inp SessionID (zi_msg inp) 1 (pl_AccountNo (players (zv_login s1) ! player)) (zcall ZAlloc s1) of
                Inl e \<Rightarrow> None
              | Inr s2 \<Rightarrow>
                  Some (upd_zplayer player (\<lambda>p. p\<lparr>pl_lastRecvTime := zi_now inp\<rparr>)
                    (count_echo z (\<lambda>(a, b, c). (a + 1, b, c)) s2))))"

text \<open>A state change of a handler that throws is lost with nothing done: the builders throw before they send.\<close>

definition handled :: "msg_error + CZoneServer \<Rightarrow> CZoneServer \<Rightarrow> (CZoneServer \<Rightarrow> CZoneServer) \<Rightarrow> (bool \<times> CZoneServer) option" where
  "handled r s f = (case r of Inl e \<Rightarrow> caught e s | Inr s1 \<Rightarrow> Some (True, f s1))"

definition Echo_PacketProc :: "nat \<Rightarrow> zone_input \<Rightarrow> u64 \<Rightarrow> CMessage \<Rightarrow> CZoneServer \<Rightarrow> (bool \<times> CZoneServer) option" where
  "Echo_PacketProc z inp SessionID msg s =
     (case msg_shr msg 2 of
        Inl e \<Rightarrow> caught e s
      | Inr (w, m1) \<Rightarrow>
          let wType = bytes_word w :: u16
          in if wType = en_PACKET_CS_GAME_REQ_ECHO then
               (case msg_shr m1 8 of
                  Inl e \<Rightarrow> caught e s
                | Inr (AccountNo, m2) \<Rightarrow>
                    (case msg_shr m2 8 of
                       Inl e \<Rightarrow> caught e s
                     | Inr (SendTick, m3) \<Rightarrow>
                         handled (Echo_REQ_ECHO inp SessionID m3 (bytes_word AccountNo) (bytes_word SendTick) s) s
                           (count_echo z (\<lambda>(a, b, c). (a, b + 1, c)))))
             else if wType = en_PACKET_CS_GAME_REQ_HEARTBEAT then
               handled (Echo_REQ_HEARTBEAT inp SessionID m1 s) s (count_echo z (\<lambda>(a, b, c). (a, b, c + 1)))
             else Some (False, s))"

definition Echo_OnRecv :: "nat \<Rightarrow> zone_input \<Rightarrow> u64 \<Rightarrow> CMessage \<Rightarrow> CZoneServer \<Rightarrow> CZoneServer option" where
  "Echo_OnRecv z inp SessionID msg s =
     (case map_of (echo_hash (zv_zones s ! z)) SessionID of
        None \<Rightarrow> Some (release_and_cut msg SessionID s)
      | Some player \<Rightarrow>
          (case Echo_PacketProc z inp SessionID msg s of
             None \<Rightarrow> None
           | Some (False, s1) \<Rightarrow> Some (release_and_cut msg SessionID s1)
           | Some (True, s1) \<Rightarrow>
               Some (upd_zone z (\<lambda>Z. Z\<lparr>z_totalPacketCnt := z_totalPacketCnt Z + 1\<rparr>)
                      (upd_zplayer player (\<lambda>p. p\<lparr>pl_lastRecvTime := zi_now inp\<rparr>) s1))))"

definition Echo_OnUpdate :: "nat \<Rightarrow> zone_input \<Rightarrow> CZoneServer \<Rightarrow> CZoneServer" where
  "Echo_OnUpdate z inp s = cut_idle 60000 (zi_now inp) (echo_hash (zv_zones s ! z)) s"

definition Echo_OnLeaveWorld :: "nat \<Rightarrow> u64 \<Rightarrow> CZoneServer \<Rightarrow> CZoneServer option" where
  "Echo_OnLeaveWorld z SessionID s =
     (if map_of (echo_hash (zv_zones s ! z)) SessionID = None then None
      else Some (upd_zone z (\<lambda>Z. Z\<lparr>echo_hash := AList.delete SessionID (echo_hash Z)\<rparr>) s))"

definition Echo_OnDisConnect :: "nat \<Rightarrow> u64 \<Rightarrow> CZoneServer \<Rightarrow> CZoneServer option" where
  "Echo_OnDisConnect z SessionID s =
     (case map_of (echo_hash (zv_zones s ! z)) SessionID of
        None \<Rightarrow> None
      | Some player \<Rightarrow>
          RequeseMoveZone SessionID 0 player
            (upd_zone z (\<lambda>Z. Z\<lparr>echo_hash := AList.delete SessionID (echo_hash Z)\<rparr>) s))"

section \<open>The thread of a zone\<close>

text \<open>The virtual calls of \<^verbatim>\<open>IZone\<close>: zone 0 is the login zone.\<close>

definition OnEnterWorld :: "nat \<Rightarrow> zone_input \<Rightarrow> u64 \<Rightarrow> nat option \<Rightarrow> CZoneServer \<Rightarrow> CZoneServer option" where
  "OnEnterWorld z = (if z = 0 then Login_OnEnterWorld else Echo_OnEnterWorld z)"

definition zone_OnRecv :: "nat \<Rightarrow> zone_input \<Rightarrow> u64 \<Rightarrow> CMessage \<Rightarrow> CZoneServer \<Rightarrow> CZoneServer option" where
  "zone_OnRecv z = (if z = 0 then Login_OnRecv else Echo_OnRecv z)"

definition OnUpdate :: "nat \<Rightarrow> zone_input \<Rightarrow> CZoneServer \<Rightarrow> CZoneServer" where
  "OnUpdate z = (if z = 0 then Login_OnUpdate else Echo_OnUpdate z)"

definition OnLeaveWorld :: "nat \<Rightarrow> u64 \<Rightarrow> CZoneServer \<Rightarrow> CZoneServer option" where
  "OnLeaveWorld z = (if z = 0 then Login_OnLeaveWorld else Echo_OnLeaveWorld z)"

definition OnDisConnect :: "nat \<Rightarrow> u64 \<Rightarrow> CZoneServer \<Rightarrow> CZoneServer option" where
  "OnDisConnect z = (if z = 0 then Login_OnDisConnect else Echo_OnDisConnect z)"

definition zone_goto :: "nat \<Rightarrow> zone_pc \<Rightarrow> CZoneServer \<Rightarrow> CZoneServer" where
  "zone_goto z pc s = upd_zone z (\<lambda>Z. Z\<lparr>z_pc := pc\<rparr>) s"

definition zone_Push :: "nat \<Rightarrow> u64 \<Rightarrow> CZoneServer \<Rightarrow> CZoneServer" where
  "zone_Push z SessionID s = upd_zone z (\<lambda>Z. Z\<lparr>z_q := z_q Z @ [SessionID]\<rparr>) s"

definition erase_session :: "nat \<Rightarrow> nat \<Rightarrow> CZoneServer \<Rightarrow> CZoneServer" where
  "erase_session z n s = upd_zone z (\<lambda>Z. Z\<lparr>z_sessions := take n (z_sessions Z) @ drop (Suc n) (z_sessions Z)\<rparr>) s"

text \<open>The messages a session still holds are given back.\<close>

definition drain_ZoneBuffer :: "nat \<Rightarrow> CZoneServer \<Rightarrow> CZoneServer" where
  "drain_ZoneBuffer i s =
     upd_zs i (\<lambda>x. x\<lparr>zs_buffer := []\<rparr>) (s\<lparr>zv_calls := zv_calls s @ map ZFree (zs_buffer (zsession i s))\<rparr>)"

text \<open>\<^verbatim>\<open>ReleaseSession\<close> with the part of \<^verbatim>\<open>clsSession::Release\<close> that concerns the zones.\<close>

definition zone_ReleaseSession :: "nat \<Rightarrow> CZoneServer \<Rightarrow> CZoneServer" where
  "zone_ReleaseSession i s =
     (let s1 = zcall (ZClose i) (upd_zs i (\<lambda>x. x\<lparr>zs_pPlayer := None\<rparr>) (drain_ZoneBuffer i s))
      in s1\<lparr>zv_stack := slot (zs_SeqID (zsession i s1)) # zv_stack s1\<rparr>)"

definition zone_enter :: "nat \<Rightarrow> zone_input \<Rightarrow> CZoneServer \<Rightarrow> CZoneServer option" where
  "zone_enter z inp s =
     (case z_q (zv_zones s ! z) of
        [] \<Rightarrow> Some (zone_goto z (Z_recv 0) s)
      | SessionId # q \<Rightarrow>
          let i = slot SessionId;
              s1 = upd_zone z (\<lambda>Z. Z\<lparr>z_q := q, z_sessions := z_sessions Z @ [i]\<rparr>) s
          in OnEnterWorld z inp SessionId (zs_pPlayer (zsession i s1)) s1)"

definition zone_recv :: "nat \<Rightarrow> nat \<Rightarrow> zone_input \<Rightarrow> CZoneServer \<Rightarrow> CZoneServer option" where
  "zone_recv z n inp s =
     (if length (z_sessions (zv_zones s ! z)) \<le> n then Some (zone_goto z Z_update s)
      else let i = z_sessions (zv_zones s ! z) ! n
        in case zs_buffer (zsession i s) of
             [] \<Rightarrow> Some (zone_goto z (Z_recv (Suc n)) s)
           | msg # ms \<Rightarrow>
               let s1 = upd_zs i (\<lambda>x. x\<lparr>zs_buffer := ms\<rparr>) s;
                   deliver = (\<lambda>m. zone_OnRecv z inp (zs_SeqID (zsession i s1))
                                    (m\<lparr>msg_front := msg_front m + headerSize_of (zv_encode s1)\<rparr>) s1)
               in if zv_encode s1 then
                    (case Echo_DeCoding msg of
                       Inl e \<Rightarrow> None
                     | Inr (True, m) \<Rightarrow> deliver m
                     | Inr (False, m) \<Rightarrow>
                         Some (zone_goto z (Z_recv (Suc n)) (zcall (ZFree m) (upd_zs i (\<lambda>x. x\<lparr>zs_blive := False\<rparr>) s1))))
                  else deliver msg)"

text \<open>
  A sweep reads the target of a released session before \<^verbatim>\<open>OnDisConnect\<close>, which changes it.
\<close>

definition zone_sweep :: "nat \<Rightarrow> nat \<Rightarrow> zone_input \<Rightarrow> CZoneServer \<Rightarrow> CZoneServer option" where
  "zone_sweep z n inp s =
     (if length (z_sessions (zv_zones s ! z)) \<le> n then Some (zone_goto z Z_enter s)
      else let i = z_sessions (zv_zones s ! z) ! n;
               SessionID = zs_SeqID (zsession i s);
               targetZone = zs_zone (zsession i s);
               decrement = upd_zone z (\<lambda>Z. Z\<lparr>z_count := z_count Z - 1\<rparr>)
        in if \<not> zs_alive (zsession i s) then
             (case OnDisConnect z SessionID s of
                None \<Rightarrow> None
              | Some s1 \<Rightarrow>
                  let s2 = decrement (erase_session z n s1)
                  in Some (if z \<noteq> 0 then zone_Push targetZone SessionID s2 else zone_ReleaseSession i s2))
           else if targetZone \<noteq> z then
             (if zi_late inp then Some (zone_goto z (Z_sweep (Suc n)) (upd_zs i (\<lambda>x. x\<lparr>zs_alive := False\<rparr>) s))
              else case OnLeaveWorld z SessionID (erase_session z n (drain_ZoneBuffer i s)) of
                     None \<Rightarrow> None
                   | Some s1 \<Rightarrow> Some (decrement (zone_Push targetZone SessionID s1)))
           else Some (zone_goto z (Z_sweep (Suc n)) s))"

definition ZoneThread :: "nat \<Rightarrow> zone_input \<Rightarrow> CZoneServer \<Rightarrow> CZoneServer option" where
  "ZoneThread z inp s =
     (case z_pc (zv_zones s ! z) of
        Z_enter \<Rightarrow> zone_enter z inp s
      | Z_recv n \<Rightarrow> zone_recv z n inp s
      | Z_update \<Rightarrow> Some (zone_goto z (Z_sweep 0) (OnUpdate z inp s))
      | Z_sweep n \<Rightarrow> zone_sweep z n inp s)"

section \<open>The network threads\<close>

text \<open>
  The accept thread with \<^verbatim>\<open>CZoneServer::OnAccept\<close>. Without a free slot the connection is closed; a send buffer that
  is not empty is a trap. A connection that cannot be associated with the completion port is closed, and its
  session, which is set up by then, stays as it is. The count of operations that the last lines lower is left to
  \<open>SessionIo\<close>.
\<close>

record zone_accepting =
  za_dirty :: bool
  za_assoc :: bool

definition zone_OnAccept :: "u64 \<Rightarrow> CZoneServer \<Rightarrow> bool \<times> CZoneServer" where
  "zone_OnAccept SessionID s = (True, zone_Push 0 SessionID (upd_zs (slot SessionID) (\<lambda>x. x\<lparr>zs_zone := 0\<rparr>) s))"

definition zone_accept :: "zone_accepting \<Rightarrow> CZoneServer \<Rightarrow> CZoneServer option" where
  "zone_accept a s =
     (case zv_stack s of
        [] \<Rightarrow> Some (zcall ZRefuse s)
      | idx # stack \<Rightarrow>
          if za_dirty a then None
          else let SeqID = push_bit 47 (of_nat idx) + zv_next s;
                   s1 = upd_zs idx (\<lambda>x. x\<lparr>zs_SeqID := SeqID, zs_alive := True, zs_blive := True\<rparr>)
                          (s\<lparr>zv_stack := stack, zv_next := zv_next s + 1\<rparr>)
            in if za_assoc a then (case zone_OnAccept SeqID s1 of (ok, s2) \<Rightarrow> Some (if ok then zcall (ZRecvPacket idx) s2 else s2))
               else Some (zcall ZRefuse (s1\<lparr>zv_lost := idx # zv_lost s1\<rparr>)))"

text \<open>\<^verbatim>\<open>CZoneServer::OnRecv\<close> and \<^verbatim>\<open>CZoneServer::OnRelease\<close>.\<close>

definition zone_message :: "u64 \<Rightarrow> CMessage \<Rightarrow> CZoneServer \<Rightarrow> CZoneServer" where
  "zone_message SessionID msg s = upd_zs (slot SessionID) (\<lambda>x. x\<lparr>zs_buffer := zs_buffer x @ [msg]\<rparr>) s"

definition zone_OnRelease :: "u64 \<Rightarrow> CZoneServer \<Rightarrow> CZoneServer" where
  "zone_OnRelease SessionID s = upd_zs (slot SessionID) (\<lambda>x. x\<lparr>zs_alive := False\<rparr>) s"

end
