(* ===== verification/ZoneAbs.thy ===== *)
theory ZoneAbs
  imports Network
begin

text \<open>
  What the zones of the echo game server do with their sessions and players, as a transition system of its
  own. A state keeps the places of the session slots (the stack of free slots, and the queue and the list
  of each zone, and the slots lost by a failed association), of each session its identifier, player and target zone, the tables of the login zone and
  of the echo zones as maps, and the players. Zone 0 is the login zone.
\<close>

section \<open>States and moves\<close>

record zview =
  v_n :: nat
  v_Z :: nat
  v_stack :: "nat list"
  v_q :: "nat \<Rightarrow> u64 list"
  v_l :: "nat \<Rightarrow> nat list"
  v_sid :: "nat \<Rightarrow> u64"
  v_ply :: "nat \<Rightarrow> nat option"
  v_tgt :: "nat \<Rightarrow> nat"
  v_alive :: "nat \<Rightarrow> bool"
  v_pre :: "u64 \<Rightarrow> nat option"
  v_sh :: "u64 \<Rightarrow> nat option"
  v_acc :: "u64 \<Rightarrow> nat option"
  v_ech :: "nat \<Rightarrow> u64 \<Rightarrow> nat option"
  v_np :: nat
  v_psid :: "nat \<Rightarrow> u64"
  v_pacc :: "nat \<Rightarrow> u64"
  v_free :: "nat list"
  v_lost :: "nat list"

definition cut_nth :: "nat \<Rightarrow> 'a list \<Rightarrow> 'a list" where
  "cut_nth n xs = take n xs @ drop (Suc n) xs"

text \<open>The account of a player that leaves is forgotten unless a later session took it over.\<close>

definition drop_account :: "zview \<Rightarrow> u64 \<Rightarrow> nat \<Rightarrow> u64 \<Rightarrow> nat option" where
  "drop_account v k p =
     (if v_sh v k \<noteq> None \<and> (\<exists>o'. v_acc v (v_pacc v p) = Some o' \<and> v_psid v o' = k)
      then (v_acc v)(v_pacc v p := None) else v_acc v)"

inductive zmove :: "zview \<Rightarrow> zview \<Rightarrow> bool" where
  stay: "zmove v v"
| accept: "\<lbrakk>v_stack v = i # st; slot k = i; i < v_n v\<rbrakk> \<Longrightarrow>
    zmove v (v\<lparr>v_stack := st, v_q := (v_q v)(0 := v_q v 0 @ [k]), v_sid := (v_sid v)(i := k),
      v_tgt := (v_tgt v)(i := 0), v_alive := (v_alive v)(i := True)\<rparr>)"
| lose: "\<lbrakk>v_stack v = i # st; slot k = i; i < v_n v\<rbrakk> \<Longrightarrow>
    zmove v (v\<lparr>v_stack := st, v_sid := (v_sid v)(i := k), v_alive := (v_alive v)(i := True), v_lost := i # v_lost v\<rparr>)"
| die: "zmove v (v\<lparr>v_alive := (v_alive v)(i := False)\<rparr>)"
| enter_new: "\<lbrakk>v_q v 0 = k # q; v_pre v k = None; v_sh v k = None; v_ply v (slot k) = None;
      v_free v = p # fr \<and> np = v_np v \<or> v_free v = [] \<and> fr = [] \<and> p = v_np v \<and> np = Suc p\<rbrakk> \<Longrightarrow>
    zmove v (v\<lparr>v_q := (v_q v)(0 := q), v_l := (v_l v)(0 := v_l v 0 @ [slot k]), v_pre := (v_pre v)(k \<mapsto> p),
      v_np := np, v_psid := (v_psid v)(p := k), v_pacc := (v_pacc v)(p := a), v_free := fr\<rparr>)"
| enter_back: "\<lbrakk>v_q v 0 = k # q; v_pre v k = None; v_ply v (slot k) = Some p\<rbrakk> \<Longrightarrow>
    zmove v (v\<lparr>v_q := (v_q v)(0 := q), v_l := (v_l v)(0 := v_l v 0 @ [slot k]), v_pre := (v_pre v)(k \<mapsto> p)\<rparr>)"
| login: "\<lbrakk>i \<in> set (v_l v 0); k = v_sid v i; v_pre v k = Some p; v_sh v k = None; 0 < t; t < v_Z v; v_Z v \<le> Z;
      \<forall>z. v_Z v \<le> z \<and> z < Z \<longrightarrow> v_q v z = [] \<and> v_l v z = []\<rbrakk> \<Longrightarrow>
    zmove v (v\<lparr>v_Z := Z, v_ply := (v_ply v)(i \<mapsto> p), v_tgt := (v_tgt v)(i := t), v_sh := (v_sh v)(k \<mapsto> p),
      v_acc := (v_acc v)(a \<mapsto> p), v_pacc := (v_pacc v)(p := a)\<rparr>)"
| leave: "\<lbrakk>n < length (v_l v 0); i = v_l v 0 ! n; k = v_sid v i; v_alive v i; v_tgt v i \<noteq> 0\<rbrakk> \<Longrightarrow>
    zmove v (v\<lparr>v_l := (v_l v)(0 := cut_nth n (v_l v 0)), v_q := (v_q v)(v_tgt v i := v_q v (v_tgt v i) @ [k]),
      v_pre := (v_pre v)(k := None)\<rparr>)"
| quit: "\<lbrakk>n < length (v_l v 0); i = v_l v 0 ! n; k = v_sid v i; \<not> v_alive v i; v_pre v k = Some p\<rbrakk> \<Longrightarrow>
    zmove v (v\<lparr>v_stack := i # v_stack v, v_l := (v_l v)(0 := cut_nth n (v_l v 0)), v_ply := (v_ply v)(i := None),
      v_pre := (v_pre v)(k := None), v_sh := (v_sh v)(k := None), v_acc := drop_account v k p,
      v_psid := (v_psid v)(p := 0), v_pacc := (v_pacc v)(p := 0), v_free := p # v_free v\<rparr>)"
| echo_in: "\<lbrakk>0 < z; z < v_Z v; v_q v z = k # q; v_ply v (slot k) = Some p\<rbrakk> \<Longrightarrow>
    zmove v (v\<lparr>v_q := (v_q v)(z := q), v_l := (v_l v)(z := v_l v z @ [slot k]),
      v_ech := (v_ech v)(z := (v_ech v z)(k \<mapsto> p))\<rparr>)"
| echo_out: "\<lbrakk>0 < z; z < v_Z v; n < length (v_l v z); i = v_l v z ! n; k = v_sid v i; \<not> v_alive v i; v_ech v z k = Some p\<rbrakk> \<Longrightarrow>
    zmove v (v\<lparr>v_l := (v_l v)(z := cut_nth n (v_l v z)), v_q := (v_q v)(v_tgt v i := v_q v (v_tgt v i) @ [k]),
      v_ply := (v_ply v)(i \<mapsto> p), v_tgt := (v_tgt v)(i := 0), v_ech := (v_ech v)(z := (v_ech v z)(k := None))\<rparr>)"

section \<open>The invariant\<close>

datatype place = Free | Queued nat | Listed nat | Lost

text \<open>Every slot has one place, and the identifiers in the queues are those of the slots.\<close>

definition queue_ok :: "(nat \<Rightarrow> place) \<Rightarrow> nat \<Rightarrow> (nat \<Rightarrow> u64) \<Rightarrow> nat \<Rightarrow> u64 list \<Rightarrow> bool" where
  "queue_ok loc n sid z ks \<longleftrightarrow>
     distinct (map slot ks) \<and> slot ` set ks = {i. i < n \<and> loc i = Queued z} \<and> (\<forall>k\<in>set ks. sid (slot k) = k)"

definition list_ok :: "(nat \<Rightarrow> place) \<Rightarrow> nat \<Rightarrow> nat \<Rightarrow> nat list \<Rightarrow> bool" where
  "list_ok loc n z is \<longleftrightarrow> distinct is \<and> set is = {i. i < n \<and> loc i = Listed z}"

definition zplaces_ok :: "(nat \<Rightarrow> place) \<Rightarrow> nat \<Rightarrow> nat \<Rightarrow> nat list \<Rightarrow> (nat \<Rightarrow> u64 list) \<Rightarrow> (nat \<Rightarrow> nat list) \<Rightarrow> (nat \<Rightarrow> u64) \<Rightarrow> bool" where
  "zplaces_ok loc n Z stack q l sid \<longleftrightarrow>
     distinct stack \<and> set stack = {i. i < n \<and> loc i = Free} \<and>
     (\<forall>z<Z. queue_ok loc n sid z (q z)) \<and> (\<forall>z<Z. list_ok loc n z (l z)) \<and>
     (\<forall>i<n. \<forall>z. loc i = Queued z \<or> loc i = Listed z \<longrightarrow> z < Z) \<and>
     (\<forall>i<n. loc i \<noteq> Free \<longrightarrow> slot (sid i) = i)"

definition session_ok :: "nat \<Rightarrow> place \<Rightarrow> nat option \<Rightarrow> nat \<Rightarrow> bool \<Rightarrow> bool" where
  "session_ok Z pl ply tgt alive \<longleftrightarrow>
     (case pl of
        Free \<Rightarrow> ply = None
      | Lost \<Rightarrow> ply = None
      | Queued z \<Rightarrow> if z = 0 then tgt = 0 else ply \<noteq> None \<and> (tgt = z \<or> tgt = 0 \<and> \<not> alive)
      | Listed z \<Rightarrow> if z = 0 then tgt < Z \<and> (tgt \<noteq> 0 \<longrightarrow> ply \<noteq> None) else ply \<noteq> None \<and> (tgt = z \<or> tgt = 0 \<and> \<not> alive))"

definition key_ok :: "(nat \<Rightarrow> place) \<Rightarrow> nat \<Rightarrow> (nat \<Rightarrow> u64) \<Rightarrow> u64 \<Rightarrow> bool" where
  "key_ok loc n sid k \<longleftrightarrow> slot k < n \<and> sid (slot k) = k \<and> loc (slot k) \<noteq> Free"

text \<open>The tables hold the sessions of their place, with the players the sessions point to.\<close>

definition tables_ok :: "(nat \<Rightarrow> place) \<Rightarrow> nat \<Rightarrow> nat \<Rightarrow> (nat \<Rightarrow> u64) \<Rightarrow> (nat \<Rightarrow> nat option) \<Rightarrow>
    (u64 \<Rightarrow> nat option) \<Rightarrow> (u64 \<Rightarrow> nat option) \<Rightarrow> (nat \<Rightarrow> u64 \<Rightarrow> nat option) \<Rightarrow> bool" where
  "tables_ok loc n Z sid ply pre sh ech \<longleftrightarrow>
     (\<forall>k. pre k \<noteq> None \<longleftrightarrow> key_ok loc n sid k \<and> loc (slot k) = Listed 0) \<and>
     (\<forall>k. sh k = (if key_ok loc n sid k then ply (slot k) else None)) \<and>
     (\<forall>z k. 0 < z \<longrightarrow> ech z k = (if key_ok loc n sid k \<and> loc (slot k) = Listed z then ply (slot k) else None))"

definition players_ok :: "nat \<Rightarrow> nat list \<Rightarrow> (nat \<Rightarrow> u64) \<Rightarrow> (u64 \<Rightarrow> nat option) \<Rightarrow> (u64 \<Rightarrow> nat option) \<Rightarrow> bool" where
  "players_ok np fr psid pre sh \<longleftrightarrow>
     distinct fr \<and> (\<forall>p\<in>set fr. p < np) \<and>
     (\<forall>k p. pre k = Some p \<or> sh k = Some p \<longrightarrow> p < np \<and> p \<notin> set fr \<and> psid p = k) \<and>
     (\<forall>k p q. pre k = Some p \<and> sh k = Some q \<longrightarrow> p = q)"

definition accounts_ok :: "(u64 \<Rightarrow> nat option) \<Rightarrow> (nat \<Rightarrow> u64) \<Rightarrow> (u64 \<Rightarrow> nat option) \<Rightarrow> bool" where
  "accounts_ok acc pacc sh \<longleftrightarrow> (\<forall>a p. acc a = Some p \<longrightarrow> pacc p = a \<and> (\<exists>k. sh k = Some p))"

definition lost_ok :: "(nat \<Rightarrow> place) \<Rightarrow> nat \<Rightarrow> nat list \<Rightarrow> bool" where
  "lost_ok loc n is \<longleftrightarrow> distinct is \<and> set is = {i. i < n \<and> loc i = Lost}"

lemma lost_same [simp]: "\<lbrakk>loc i \<noteq> Lost; pl \<noteq> Lost\<rbrakk> \<Longrightarrow> lost_ok (loc(i := pl)) n is = lost_ok loc n is"
  by (auto simp: lost_ok_def)

definition zinv_at :: "(nat \<Rightarrow> place) \<Rightarrow> zview \<Rightarrow> bool" where
  "zinv_at loc v \<longleftrightarrow>
     zplaces_ok loc (v_n v) (v_Z v) (v_stack v) (v_q v) (v_l v) (v_sid v) \<and>
     (\<forall>i<v_n v. session_ok (v_Z v) (loc i) (v_ply v i) (v_tgt v i) (v_alive v i)) \<and>
     tables_ok loc (v_n v) (v_Z v) (v_sid v) (v_ply v) (v_pre v) (v_sh v) (v_ech v) \<and>
     players_ok (v_np v) (v_free v) (v_psid v) (v_pre v) (v_sh v) \<and>
     accounts_ok (v_acc v) (v_pacc v) (v_sh v) \<and>
     2 \<le> v_Z v \<and> lost_ok loc (v_n v) (v_lost v)"

definition zinv :: "zview \<Rightarrow> bool" where
  "zinv v \<longleftrightarrow> (\<exists>loc. zinv_at loc v)"

section \<open>Places\<close>

lemma set_cut_nth:
  assumes "distinct xs" "n < length xs"
  shows "set (cut_nth n xs) = set xs - {xs ! n}"
proof -
  obtain us x ws where "xs = us @ x # ws" "n = length us"
    using id_take_nth_drop [OF assms(2)] assms(2) by (metis length_take min.absorb4)
  with assms(1) show ?thesis by (auto simp: cut_nth_def)
qed

lemma distinct_cut_nth: "distinct xs \<Longrightarrow> distinct (cut_nth n xs)"
  unfolding cut_nth_def using set_take_disj_set_drop_if_distinct [of xs n "Suc n"] by simp

lemma queue_same: "\<lbrakk>queue_ok loc n sid z ks; loc i \<noteq> Queued z; pl \<noteq> Queued z\<rbrakk> \<Longrightarrow> queue_ok (loc(i := pl)) n sid z ks"
  by (auto simp: queue_ok_def)

lemma queue_push:
  "\<lbrakk>queue_ok loc n sid z ks; loc i \<noteq> Queued z; slot k = i; sid i = k; i < n\<rbrakk> \<Longrightarrow> queue_ok (loc(i := Queued z)) n sid z (ks @ [k])"
  by (auto simp: queue_ok_def)

lemma queue_pop:
  assumes "queue_ok loc n sid z (k # ks)" "pl \<noteq> Queued z"
  shows "queue_ok (loc(slot k := pl)) n sid z ks"
proof -
  have "slot ` set ks = {i. i < n \<and> loc i = Queued z} - {slot k}"
  proof -
    have "slot k \<notin> slot ` set ks" "insert (slot k) (slot ` set ks) = {i. i < n \<and> loc i = Queued z}"
      using assms(1) by (simp_all add: queue_ok_def)
    then show ?thesis by blast
  qed
  also have "\<dots> = {i. i < n \<and> (loc(slot k := pl)) i = Queued z}" using assms(2) by auto
  finally show ?thesis using assms(1) by (simp add: queue_ok_def)
qed

lemma queue_head: "queue_ok loc n sid z (k # ks) \<Longrightarrow> slot k < n \<and> loc (slot k) = Queued z \<and> sid (slot k) = k"
  by (auto simp: queue_ok_def)

lemma queue_sid: "\<lbrakk>queue_ok loc n sid z ks; loc i \<noteq> Queued z\<rbrakk> \<Longrightarrow> queue_ok loc n (sid(i := k)) z ks"
  by (auto simp: queue_ok_def)

lemma list_same: "\<lbrakk>list_ok loc n z is; loc i \<noteq> Listed z; pl \<noteq> Listed z\<rbrakk> \<Longrightarrow> list_ok (loc(i := pl)) n z is"
  by (auto simp: list_ok_def)

lemma list_push: "\<lbrakk>list_ok loc n z is; loc i \<noteq> Listed z; i < n\<rbrakk> \<Longrightarrow> list_ok (loc(i := Listed z)) n z (is @ [i])"
  by (auto simp: list_ok_def)

lemma list_cut: "\<lbrakk>list_ok loc n z is; m < length is; i = is ! m; pl \<noteq> Listed z\<rbrakk> \<Longrightarrow> list_ok (loc(i := pl)) n z (cut_nth m is)"
  by (auto simp: list_ok_def distinct_cut_nth set_cut_nth)

lemma list_at: "\<lbrakk>list_ok loc n z is; i \<in> set is\<rbrakk> \<Longrightarrow> i < n \<and> loc i = Listed z"
  by (auto simp: list_ok_def)

lemmas place_parts = queue_same queue_push queue_pop queue_sid list_same list_push list_cut

lemma zplaces_okD:
  assumes "zplaces_ok loc n Z st q l sid"
  shows "z < Z \<Longrightarrow> queue_ok loc n sid z (q z)" "z < Z \<Longrightarrow> list_ok loc n z (l z)"
    "\<lbrakk>i < n; loc i \<noteq> Free\<rbrakk> \<Longrightarrow> slot (sid i) = i" "\<lbrakk>i < n; loc i = Queued z \<or> loc i = Listed z\<rbrakk> \<Longrightarrow> z < Z"
    "distinct st" "set st = {i. i < n \<and> loc i = Free}"
  using assms by (auto simp: zplaces_ok_def)

lemma zplaces_okI:
  assumes "distinct st" "set st = {i. i < n \<and> loc i = Free}"
    "\<And>z. z < Z \<Longrightarrow> queue_ok loc n sid z (q z)" "\<And>z. z < Z \<Longrightarrow> list_ok loc n z (l z)"
    "\<And>i z. \<lbrakk>i < n; loc i = Queued z \<or> loc i = Listed z\<rbrakk> \<Longrightarrow> z < Z"
    "\<And>i. \<lbrakk>i < n; loc i \<noteq> Free\<rbrakk> \<Longrightarrow> slot (sid i) = i"
  shows "zplaces_ok loc n Z st q l sid"
  using assms by (simp add: zplaces_ok_def)

text \<open>The four ways in which a slot changes its place.\<close>

lemma zplaces_ok_enter:
  assumes P: "zplaces_ok loc n Z st q l sid" and q: "q z = k # ks" and z: "z < Z"
  shows "zplaces_ok (loc(slot k := Listed z)) n Z st (q(z := ks)) (l(z := l z @ [slot k])) sid"
proof (rule zplaces_okI)
  note D = zplaces_okD [OF P]
  have k: "slot k < n" "loc (slot k) = Queued z" using queue_head D(1) [OF z] q by metis+
  show "queue_ok (loc(slot k := Listed z)) n sid w ((q(z := ks)) w)" if "w < Z" for w
    using D(1) [OF that] q k by (cases "w = z") (simp_all add: queue_pop queue_same)
  show "list_ok (loc(slot k := Listed z)) n w ((l(z := l z @ [slot k])) w)" if "w < Z" for w
    using D(2) [OF that] k by (cases "w = z") (simp_all add: list_push list_same)
qed (use P z q queue_head [of loc n sid z k ks] in \<open>auto simp: zplaces_ok_def split: if_splits\<close>)

lemma zplaces_ok_move:
  assumes P: "zplaces_ok loc n Z st q l sid" and m: "m < length (l z)" "i = l z ! m" and z: "z < Z" "t < Z"
  shows "zplaces_ok (loc(i := Queued t)) n Z st (q(t := q t @ [sid i])) (l(z := cut_nth m (l z))) sid"
proof (rule zplaces_okI)
  note D = zplaces_okD [OF P]
  have i: "i < n" "loc i = Listed z" using list_at D(2) [OF z(1)] m nth_mem by metis+
  show "queue_ok (loc(i := Queued t)) n sid w ((q(t := q t @ [sid i])) w)" if "w < Z" for w
    using D(1) [OF that] i D(3) [OF i(1)] by (cases "w = t") (simp_all add: queue_push queue_same)
  show "list_ok (loc(i := Queued t)) n w ((l(z := cut_nth m (l z))) w)" if "w < Z" for w
    using D(2) [OF that] i m by (cases "w = z") (simp_all add: list_cut list_same)
qed (use P z m list_at [of loc n z "l z" i] in \<open>auto simp: zplaces_ok_def split: if_splits\<close>)

lemma zplaces_ok_free:
  assumes P: "zplaces_ok loc n Z st q l sid" and m: "m < length (l z)" "i = l z ! m" and z: "z < Z"
  shows "zplaces_ok (loc(i := Free)) n Z (i # st) q (l(z := cut_nth m (l z))) sid"
proof (rule zplaces_okI)
  note D = zplaces_okD [OF P]
  have i: "i < n" "loc i = Listed z" using list_at D(2) [OF z(1)] m nth_mem by metis+
  show "queue_ok (loc(i := Free)) n sid w (q w)" if "w < Z" for w
    using D(1) [OF that] i by (simp add: queue_same)
  show "list_ok (loc(i := Free)) n w ((l(z := cut_nth m (l z))) w)" if "w < Z" for w
    using D(2) [OF that] i m by (cases "w = z") (simp_all add: list_cut list_same)
  show "distinct (i # st)" "set (i # st) = {j. j < n \<and> (loc(i := Free)) j = Free}" using D(5,6) i by auto
qed (use P z in \<open>auto simp: zplaces_ok_def split: if_splits\<close>)

lemma zplaces_ok_accept:
  assumes P: "zplaces_ok loc n Z (i # st) q l sid" and k: "slot k = i" and z: "0 < Z"
  shows "zplaces_ok (loc(i := Queued 0)) n Z st (q(0 := q 0 @ [k])) l (sid(i := k))"
proof (rule zplaces_okI)
  note D = zplaces_okD [OF P]
  have i: "i < n" "loc i = Free" using D(6) by auto
  show "queue_ok (loc(i := Queued 0)) n (sid(i := k)) w ((q(0 := q 0 @ [k])) w)" if "w < Z" for w
    using queue_sid [OF D(1) [OF that], of i k] i k by (cases "w = 0") (simp_all add: queue_push queue_same)
  show "list_ok (loc(i := Queued 0)) n w (l w)" if "w < Z" for w
    using D(2) [OF that] i by (simp add: list_same)
  show "distinct st" "set st = {j. j < n \<and> (loc(i := Queued 0)) j = Free}" using D(5,6) i by auto
qed (use P z k in \<open>auto simp: zplaces_ok_def split: if_splits\<close>)

lemma zplaces_ok_lose:
  assumes P: "zplaces_ok loc n Z (i # st) q l sid" and k: "slot k = i"
  shows "zplaces_ok (loc(i := Lost)) n Z st q l (sid(i := k))"
proof (rule zplaces_okI)
  note D = zplaces_okD [OF P]
  have i: "i < n" "loc i = Free" using D(6) by auto
  show "queue_ok (loc(i := Lost)) n (sid(i := k)) w (q w)" if "w < Z" for w
    using queue_sid [OF D(1) [OF that], of i k] i by (simp add: queue_same)
  show "list_ok (loc(i := Lost)) n w (l w)" if "w < Z" for w
    using D(2) [OF that] i by (simp add: list_same)
  show "distinct st" "set st = {j. j < n \<and> (loc(i := Lost)) j = Free}" using D(5,6) i by auto
qed (use P k in \<open>auto simp: zplaces_ok_def split: if_splits\<close>)

section \<open>Tables\<close>

lemma tables_change:
  assumes T: "tables_ok loc n Z sid ply pre sh ech" and i: "i < n" "loc i \<noteq> Free" "slot (sid i) = i"
    and pre: "\<And>k. k \<noteq> sid i \<Longrightarrow> pre' k = pre k" "pre' (sid i) \<noteq> None \<longleftrightarrow> pl = Listed 0"
    and sh: "\<And>k. k \<noteq> sid i \<Longrightarrow> sh' k = sh k" "sh' (sid i) = (if pl = Free then None else x)"
    and ech: "\<And>z k. \<lbrakk>0 < z; k \<noteq> sid i\<rbrakk> \<Longrightarrow> ech' z k = ech z k"
      "\<And>z. 0 < z \<Longrightarrow> ech' z (sid i) = (if pl = Listed z then x else None)"
  shows "tables_ok (loc(i := pl)) n Z' sid (ply(i := x)) pre' sh' ech'"
proof -
  let ?loc = "loc(i := pl)" and ?ply = "ply(i := x)"
  have here: "key_ok ?loc n sid (sid i) \<longleftrightarrow> pl \<noteq> Free" using i by (simp add: key_ok_def)
  have there: "key_ok ?loc n sid k \<longleftrightarrow> key_ok loc n sid k" "key_ok loc n sid k \<Longrightarrow> slot k \<noteq> i" if "k \<noteq> sid i" for k
    using that by (auto simp: key_ok_def)
  have "(pre' k \<noteq> None) = (key_ok ?loc n sid k \<and> ?loc (slot k) = Listed 0)" for k
    using T i(3) pre there(1) [of k] there(2) [of k] here by (cases "k = sid i") (auto simp: tables_ok_def)
  moreover have "sh' k = (if key_ok ?loc n sid k then ?ply (slot k) else None)" for k
    using T i(3) sh there(1) [of k] there(2) [of k] here by (cases "k = sid i") (auto simp: tables_ok_def)
  moreover have "ech' z k = (if key_ok ?loc n sid k \<and> ?loc (slot k) = Listed z then ?ply (slot k) else None)" if "0 < z" for z k
    using T i(3) ech [OF that] there(1) [of k] there(2) [of k] here that by (cases "k = sid i") (auto simp: tables_ok_def)
  ultimately show ?thesis by (simp add: tables_ok_def)
qed

lemma tables_accept:
  assumes T: "tables_ok loc n Z sid ply pre sh ech" and i: "i < n" "loc i = Free" "ply i = None" and k: "slot k = i" and pl: "pl = Queued 0 \<or> pl = Lost"
  shows "tables_ok (loc(i := pl)) n Z (sid(i := k)) ply pre sh ech"
proof -
  let ?loc = "loc(i := pl)" and ?sid = "sid(i := k)"
  have here: "key_ok ?loc n ?sid k" using i k pl by (auto simp: key_ok_def)
  have there: "slot j = i \<Longrightarrow> \<not> key_ok loc n sid j" "j \<noteq> k \<Longrightarrow> key_ok ?loc n ?sid j \<longleftrightarrow> key_ok loc n sid j" for j
    using i k by (auto simp: key_ok_def)
  have none: "pre k = None" "sh k = None" "0 < z \<Longrightarrow> ech z k = None" for z
  proof -
    show "pre k = None" using T there(1) [of k] k unfolding tables_ok_def by blast
  qed (use T there(1) [of k] k in \<open>simp_all add: tables_ok_def\<close>)
  have "(pre j \<noteq> None) = (key_ok ?loc n ?sid j \<and> ?loc (slot j) = Listed 0)" for j
    using T there [of j] none(1) here pl k by (cases "j = k") (auto simp: tables_ok_def)
  moreover have "sh j = (if key_ok ?loc n ?sid j then ply (slot j) else None)" for j
    using T there [of j] none(2) here i(3) k by (cases "j = k") (auto simp: tables_ok_def)
  moreover have "ech z j = (if key_ok ?loc n ?sid j \<and> ?loc (slot j) = Listed z then ply (slot j) else None)" if "0 < z" for z j
    using T there [of j] none(3) [OF that] here pl k that by (cases "j = k") (auto simp: tables_ok_def)
  ultimately show ?thesis by (simp add: tables_ok_def)
qed

text \<open>Of a session in its place.\<close>

lemma tables_at:
  assumes "tables_ok loc n Z sid ply pre sh ech" "i < n" "loc i \<noteq> Free" "slot (sid i) = i"
  shows "pre (sid i) \<noteq> None \<longleftrightarrow> loc i = Listed 0" "sh (sid i) = ply i"
    "0 < z \<Longrightarrow> ech z (sid i) = (if loc i = Listed z then ply i else None)"
proof -
  have "key_ok loc n sid (sid i)" using assms(2-4) by (simp add: key_ok_def)
  then show "pre (sid i) \<noteq> None \<longleftrightarrow> loc i = Listed 0" "sh (sid i) = ply i"
    "0 < z \<Longrightarrow> ech z (sid i) = (if loc i = Listed z then ply i else None)"
    using assms by (simp_all add: tables_ok_def)
qed

section \<open>The invariant is kept\<close>

lemma zinv_atD:
  assumes "zinv_at loc v"
  shows "zplaces_ok loc (v_n v) (v_Z v) (v_stack v) (v_q v) (v_l v) (v_sid v)"
    "i < v_n v \<Longrightarrow> session_ok (v_Z v) (loc i) (v_ply v i) (v_tgt v i) (v_alive v i)"
    "tables_ok loc (v_n v) (v_Z v) (v_sid v) (v_ply v) (v_pre v) (v_sh v) (v_ech v)"
    "players_ok (v_np v) (v_free v) (v_psid v) (v_pre v) (v_sh v)"
    "accounts_ok (v_acc v) (v_pacc v) (v_sh v)" "2 \<le> v_Z v" "lost_ok loc (v_n v) (v_lost v)"
  using assms by (simp_all add: zinv_at_def)

text \<open>The first session of a queue, and a session of a list.\<close>

lemma zinv_head:
  assumes I: "zinv_at loc v" and q: "v_q v z = k # ks" and z: "z < v_Z v"
  shows "slot k < v_n v" "loc (slot k) = Queued z" "v_sid v (slot k) = k" "v_pre v k = None" "v_sh v k = v_ply v (slot k)"
    "0 < w \<Longrightarrow> v_ech v w k = None"
proof -
  have "queue_ok loc (v_n v) (v_sid v) z (k # ks)" using zplaces_okD(1) [OF zinv_atD(1) [OF I] z] q by simp
  from queue_head [OF this] show k: "slot k < v_n v" "loc (slot k) = Queued z" "v_sid v (slot k) = k" by auto
  have l: "loc (slot k) \<noteq> Free" "slot (v_sid v (slot k)) = slot k" using k by simp_all
  from tables_at [OF zinv_atD(3) [OF I] k(1) l]
  show "v_pre v k = None" "v_sh v k = v_ply v (slot k)" "0 < w \<Longrightarrow> v_ech v w k = None" by (simp_all add: k)
qed

lemma zinv_member:
  assumes I: "zinv_at loc v" and i: "i \<in> set (v_l v z)" and z: "z < v_Z v"
  shows "i < v_n v" "loc i = Listed z" "slot (v_sid v i) = i" "v_pre v (v_sid v i) \<noteq> None \<longleftrightarrow> z = 0"
    "v_sh v (v_sid v i) = v_ply v i" "0 < w \<Longrightarrow> v_ech v w (v_sid v i) = (if w = z then v_ply v i else None)"
proof -
  from list_at [OF zplaces_okD(2) [OF zinv_atD(1) [OF I] z] i] show l: "i < v_n v" "loc i = Listed z" by auto
  then have f: "loc i \<noteq> Free" by simp
  show s: "slot (v_sid v i) = i" by (rule zplaces_okD(3) [OF zinv_atD(1) [OF I] l(1) f])
  from tables_at [OF zinv_atD(3) [OF I] l(1) f s] l(2)
  show "v_pre v (v_sid v i) \<noteq> None \<longleftrightarrow> z = 0" "v_sh v (v_sid v i) = v_ply v i"
    "0 < w \<Longrightarrow> v_ech v w (v_sid v i) = (if w = z then v_ply v i else None)" by auto
qed

text \<open>Of the sessions only that of one slot changes.\<close>

lemma sessions_change:
  assumes "zinv_at loc v" "v_Z v \<le> Z" "session_ok Z pl x t b"
  shows "\<forall>j<v_n v. session_ok Z ((loc(i := pl)) j) (((v_ply v)(i := x)) j) (((v_tgt v)(i := t)) j) (((v_alive v)(i := b)) j)"
proof -
  have "session_ok Z pl' x' t' b'" if "session_ok (v_Z v) pl' x' t' b'" for pl' x' t' b'
    using that assms(2) by (auto simp: session_ok_def split: place.splits)
  then show ?thesis using zinv_atD(2) [OF assms(1)] assms(3) by simp
qed

lemma zmove_accept:
  assumes I: "zinv_at loc v" and "v_stack v = i # st" "slot k = i" "i < v_n v"
  shows "zinv (v\<lparr>v_stack := st, v_q := (v_q v)(0 := v_q v 0 @ [k]), v_sid := (v_sid v)(i := k),
      v_tgt := (v_tgt v)(i := 0), v_alive := (v_alive v)(i := True)\<rparr>)"
proof -
  note D = zinv_atD [OF I]
  have l: "loc i = Free" using zplaces_okD(6) [OF D(1)] assms(2) by auto
  then have p: "v_ply v i = None" using D(2) [OF assms(4)] by (simp add: session_ok_def)
  have "zplaces_ok (loc(i := Queued 0)) (v_n v) (v_Z v) st ((v_q v)(0 := v_q v 0 @ [k])) (v_l v) ((v_sid v)(i := k))"
    using zplaces_ok_accept [of loc _ _ i st] D(1,6) assms(2,3) by simp
  moreover have "\<forall>j<v_n v. session_ok (v_Z v) ((loc(i := Queued 0)) j) (v_ply v j) (((v_tgt v)(i := 0)) j) (((v_alive v)(i := True)) j)"
    using sessions_change [OF I order_refl, of "Queued 0" "v_ply v i" 0 True i] by (simp add: session_ok_def)
  moreover have "tables_ok (loc(i := Queued 0)) (v_n v) (v_Z v) ((v_sid v)(i := k)) (v_ply v) (v_pre v) (v_sh v) (v_ech v)"
    by (rule tables_accept [OF D(3) assms(4) l p assms(3)]) simp
  ultimately show ?thesis unfolding zinv_def zinv_at_def using D(4-7) l by (auto intro!: exI [of _ "loc(i := Queued 0)"])
qed

lemma zmove_lose:
  assumes I: "zinv_at loc v" and "v_stack v = i # st" "slot k = i" "i < v_n v"
  shows "zinv (v\<lparr>v_stack := st, v_sid := (v_sid v)(i := k), v_alive := (v_alive v)(i := True), v_lost := i # v_lost v\<rparr>)"
proof -
  note D = zinv_atD [OF I]
  have l: "loc i = Free" using zplaces_okD(6) [OF D(1)] assms(2) by auto
  then have p: "v_ply v i = None" using D(2) [OF assms(4)] by (simp add: session_ok_def)
  have "zplaces_ok (loc(i := Lost)) (v_n v) (v_Z v) st (v_q v) (v_l v) ((v_sid v)(i := k))"
    using zplaces_ok_lose [of loc _ _ i st] D(1) assms(2,3) by simp
  moreover have "\<forall>j<v_n v. session_ok (v_Z v) ((loc(i := Lost)) j) (v_ply v j) (v_tgt v j) (((v_alive v)(i := True)) j)"
  proof -
    have "session_ok (v_Z v) Lost (v_ply v i) (v_tgt v i) True" using p by (simp add: session_ok_def)
    from sessions_change [OF I order_refl this, of i] show ?thesis by simp
  qed
  moreover have "tables_ok (loc(i := Lost)) (v_n v) (v_Z v) ((v_sid v)(i := k)) (v_ply v) (v_pre v) (v_sh v) (v_ech v)"
    by (rule tables_accept [OF D(3) assms(4) l p assms(3)]) simp
  moreover have "lost_ok (loc(i := Lost)) (v_n v) (i # v_lost v)" using D(7) l assms(4) by (auto simp: lost_ok_def)
  ultimately show ?thesis unfolding zinv_def zinv_at_def using D(4-6) by (auto intro!: exI [of _ "loc(i := Lost)"])
qed

lemma zmove_die:
  assumes I: "zinv_at loc v"
  shows "zinv (v\<lparr>v_alive := (v_alive v)(i := False)\<rparr>)"
proof -
  have "session_ok Z pl x t False" if "session_ok Z pl x t b" for Z pl x t b
    using that by (auto simp: session_ok_def split: place.splits if_splits)
  then show ?thesis using I unfolding zinv_def zinv_at_def by (auto intro!: exI [of _ loc])
qed

lemma zmove_enter:
  assumes I: "zinv_at loc v" and q: "v_q v 0 = k # q"
    and pl: "players_ok np fr psid ((v_pre v)(k \<mapsto> p)) (v_sh v)" and ac: "accounts_ok (v_acc v) pacc (v_sh v)"
  shows "zinv (v\<lparr>v_q := (v_q v)(0 := q), v_l := (v_l v)(0 := v_l v 0 @ [slot k]), v_pre := (v_pre v)(k \<mapsto> p),
      v_np := np, v_psid := psid, v_pacc := pacc, v_free := fr\<rparr>)"
proof -
  note D = zinv_atD [OF I]
  have z: "0 < v_Z v" using D(6) by simp
  note k = zinv_head [OF I q z]
  let ?loc = "loc(slot k := Listed 0)"
  have "zplaces_ok ?loc (v_n v) (v_Z v) (v_stack v) ((v_q v)(0 := q)) ((v_l v)(0 := v_l v 0 @ [slot k])) (v_sid v)"
    by (rule zplaces_ok_enter [OF D(1) q z])
  moreover have "\<forall>j<v_n v. session_ok (v_Z v) (?loc j) (v_ply v j) (v_tgt v j) (v_alive v j)"
  proof -
    have "session_ok (v_Z v) (Listed 0) (v_ply v (slot k)) (v_tgt v (slot k)) (v_alive v (slot k))"
      using D(2) [OF k(1)] k(2) z by (simp add: session_ok_def)
    from sessions_change [OF I order_refl this, of "slot k"] show ?thesis by simp
  qed
  moreover have "tables_ok ?loc (v_n v) (v_Z v) (v_sid v) (v_ply v) ((v_pre v)(k \<mapsto> p)) (v_sh v) (v_ech v)"
    using tables_change [OF D(3) k(1), of "(v_pre v)(k \<mapsto> p)" "Listed 0" "v_sh v" "v_ply v (slot k)" "v_ech v" "v_Z v"] k by simp
  ultimately show ?thesis unfolding zinv_def zinv_at_def using D(6,7) k(2) pl ac by (auto intro!: exI [of _ ?loc])
qed

lemma zmove_enter_new:
  assumes I: "zinv_at loc v" and q: "v_q v 0 = k # q" "v_ply v (slot k) = None"
    and p: "v_free v = p # fr \<and> np = v_np v \<or> v_free v = [] \<and> fr = [] \<and> p = v_np v \<and> np = Suc p"
  shows "zinv (v\<lparr>v_q := (v_q v)(0 := q), v_l := (v_l v)(0 := v_l v 0 @ [slot k]), v_pre := (v_pre v)(k \<mapsto> p),
      v_np := np, v_psid := (v_psid v)(p := k), v_pacc := (v_pacc v)(p := a), v_free := fr\<rparr>)"
proof (rule zmove_enter [OF I q(1)])
  note D = zinv_atD [OF I]
  have k: "v_pre v k = None" "v_sh v k = None" using zinv_head(4,5) [OF I q(1)] D(6) q(2) by simp_all
  have fresh: "v_pre v j \<noteq> Some p" "v_sh v j \<noteq> Some p" for j
  proof -
    have "p \<in> set (v_free v) \<or> \<not> p < v_np v" using p by auto
    then show "v_pre v j \<noteq> Some p" "v_sh v j \<noteq> Some p" using D(4) unfolding players_ok_def by blast+
  qed
  show "players_ok np fr ((v_psid v)(p := k)) ((v_pre v)(k \<mapsto> p)) (v_sh v)"
    using D(4) p k fresh by (fastforce simp: players_ok_def)
  show "accounts_ok (v_acc v) ((v_pacc v)(p := a)) (v_sh v)"
    using D(5) fresh by (fastforce simp: accounts_ok_def)
qed

lemma zmove_enter_back:
  assumes I: "zinv_at loc v" and q: "v_q v 0 = k # q" "v_ply v (slot k) = Some p"
  shows "zinv (v\<lparr>v_q := (v_q v)(0 := q), v_l := (v_l v)(0 := v_l v 0 @ [slot k]), v_pre := (v_pre v)(k \<mapsto> p)\<rparr>)"
proof -
  note D = zinv_atD [OF I]
  have k: "v_pre v k = None" "v_sh v k = Some p" using zinv_head(4,5) [OF I q(1)] D(6) q(2) by simp_all
  then have "players_ok (v_np v) (v_free v) (v_psid v) ((v_pre v)(k \<mapsto> p)) (v_sh v)"
    using D(4) by (fastforce simp: players_ok_def)
  from zmove_enter [OF I q(1) this D(5)] show ?thesis by simp
qed

lemma zmove_login:
  assumes I: "zinv_at loc v" and i: "i \<in> set (v_l v 0)" and k: "k = v_sid v i"
    and p: "v_pre v k = Some p" "v_sh v k = None" and t: "0 < t" "t < v_Z v" "v_Z v \<le> Z"
    and new: "\<And>z. \<lbrakk>v_Z v \<le> z; z < Z\<rbrakk> \<Longrightarrow> v_q v z = [] \<and> v_l v z = []"
  shows "zinv (v\<lparr>v_Z := Z, v_ply := (v_ply v)(i \<mapsto> p), v_tgt := (v_tgt v)(i := t), v_sh := (v_sh v)(k \<mapsto> p),
      v_acc := (v_acc v)(a \<mapsto> p), v_pacc := (v_pacc v)(p := a)\<rparr>)"
proof -
  note D = zinv_atD [OF I]
  have z: "0 < v_Z v" using D(6) by simp
  note m = zinv_member [OF I i z]
  have fr: "loc i \<noteq> Free" using m(2) by simp
  have "zplaces_ok loc (v_n v) Z (v_stack v) (v_q v) (v_l v) (v_sid v)"
  proof (rule zplaces_okI)
    note P = zplaces_okD [OF D(1)]
    have far: "loc j \<noteq> Queued w \<and> loc j \<noteq> Listed w" if "j < v_n v" "\<not> w < v_Z v" for j w using P(4) [OF that(1)] that(2) by blast
    show "queue_ok loc (v_n v) (v_sid v) w (v_q v w)" if "w < Z" for w
      using P(1) [of w] new [of w] that far [of _ w] by (cases "w < v_Z v") (auto simp: queue_ok_def)
    show "list_ok loc (v_n v) w (v_l v w)" if "w < Z" for w
      using P(2) [of w] new [of w] that far [of _ w] by (cases "w < v_Z v") (auto simp: list_ok_def)
    show "w < Z" if "j < v_n v" "loc j = Queued w \<or> loc j = Listed w" for j w using P(4) [OF that] t(3) by simp
  qed (use zplaces_okD [OF D(1)] in auto)
  moreover have "\<forall>j<v_n v. session_ok Z (loc j) (((v_ply v)(i \<mapsto> p)) j) (((v_tgt v)(i := t)) j) (v_alive v j)"
  proof -
    have "session_ok Z (loc i) (Some p) t (v_alive v i)" using m(2) t by (simp add: session_ok_def)
    from sessions_change [OF I t(3) this, of i] show ?thesis by (simp add: fun_upd_idem)
  qed
  moreover have "tables_ok loc (v_n v) Z (v_sid v) ((v_ply v)(i \<mapsto> p)) (v_pre v) ((v_sh v)(k \<mapsto> p)) (v_ech v)"
    using tables_change [OF D(3) m(1) fr m(3), of "v_pre v" "loc i" "(v_sh v)(k \<mapsto> p)" "Some p" "v_ech v" Z] m k p
      fun_upd_idem [of loc i "loc i"] by simp
  moreover have "players_ok (v_np v) (v_free v) (v_psid v) (v_pre v) ((v_sh v)(k \<mapsto> p))"
    using D(4) p by (fastforce simp: players_ok_def)
  moreover have "accounts_ok ((v_acc v)(a \<mapsto> p)) ((v_pacc v)(p := a)) ((v_sh v)(k \<mapsto> p))"
  proof -
    have "v_sh v j \<noteq> Some p" for j using D(4) p unfolding players_ok_def by (metis option.distinct(1))
    moreover have "v_pacc v q = b \<and> (\<exists>j. v_sh v j = Some q \<and> j \<noteq> k)" if "v_acc v b = Some q" for b q
      using that D(5) p(2) unfolding accounts_ok_def by (metis option.distinct(1))
    moreover have "p \<noteq> q" if "v_acc v b = Some q" for b q
      using that calculation by blast
    ultimately show ?thesis unfolding accounts_ok_def by (simp add: fun_upd_def) blast
  qed
  ultimately show ?thesis unfolding zinv_def zinv_at_def using D(6,7) t(3) by (auto intro!: exI [of _ loc])
qed

lemma zmove_leave:
  assumes I: "zinv_at loc v" and n: "n < length (v_l v 0)" "i = v_l v 0 ! n" and k: "k = v_sid v i" and t: "v_alive v i" "v_tgt v i \<noteq> 0"
  shows "zinv (v\<lparr>v_l := (v_l v)(0 := cut_nth n (v_l v 0)), v_q := (v_q v)(v_tgt v i := v_q v (v_tgt v i) @ [k]),
      v_pre := (v_pre v)(k := None)\<rparr>)"
proof -
  note D = zinv_atD [OF I]
  have z: "0 < v_Z v" using D(6) by simp
  have i: "i \<in> set (v_l v 0)" using n by simp
  note m = zinv_member [OF I i z]
  let ?t = "v_tgt v i" let ?loc = "loc(i := Queued ?t)"
  have s: "?t < v_Z v" "v_ply v i \<noteq> None" using D(2) [OF m(1)] m(2) t by (simp_all add: session_ok_def)
  have "zplaces_ok ?loc (v_n v) (v_Z v) (v_stack v) ((v_q v)(?t := v_q v ?t @ [k])) ((v_l v)(0 := cut_nth n (v_l v 0))) (v_sid v)"
    unfolding k by (rule zplaces_ok_move [OF D(1) n z s(1)])
  moreover have "\<forall>j<v_n v. session_ok (v_Z v) (?loc j) (v_ply v j) (v_tgt v j) (v_alive v j)"
  proof -
    have "session_ok (v_Z v) (Queued ?t) (v_ply v i) ?t (v_alive v i)" using s t by (simp add: session_ok_def)
    from sessions_change [OF I order_refl this, of i] show ?thesis by simp
  qed
  moreover have "tables_ok ?loc (v_n v) (v_Z v) (v_sid v) (v_ply v) ((v_pre v)(k := None)) (v_sh v) (v_ech v)"
    using tables_change [OF D(3) m(1) _ m(3), of "(v_pre v)(k := None)" "Queued ?t" "v_sh v" "v_ply v i" "v_ech v" "v_Z v"] m k by simp
  moreover have "players_ok (v_np v) (v_free v) (v_psid v) ((v_pre v)(k := None)) (v_sh v)"
    using D(4) by (auto simp: players_ok_def split: if_splits)
  ultimately show ?thesis unfolding zinv_def zinv_at_def using D(5-7) m(2) by (auto intro!: exI [of _ ?loc])
qed

lemma zmove_quit:
  assumes I: "zinv_at loc v" and n: "n < length (v_l v 0)" "i = v_l v 0 ! n" and k: "k = v_sid v i" and p: "v_pre v k = Some p"
  shows "zinv (v\<lparr>v_stack := i # v_stack v, v_l := (v_l v)(0 := cut_nth n (v_l v 0)), v_ply := (v_ply v)(i := None),
      v_pre := (v_pre v)(k := None), v_sh := (v_sh v)(k := None), v_acc := drop_account v k p,
      v_psid := (v_psid v)(p := 0), v_pacc := (v_pacc v)(p := 0), v_free := p # v_free v\<rparr>)"
proof -
  note D = zinv_atD [OF I]
  have z: "0 < v_Z v" using D(6) by simp
  have i: "i \<in> set (v_l v 0)" using n by simp
  note m = zinv_member [OF I i z]
  let ?loc = "loc(i := Free)"
  have "zplaces_ok ?loc (v_n v) (v_Z v) (i # v_stack v) (v_q v) ((v_l v)(0 := cut_nth n (v_l v 0))) (v_sid v)"
    by (rule zplaces_ok_free [OF D(1) n z])
  moreover have "\<forall>j<v_n v. session_ok (v_Z v) (?loc j) (((v_ply v)(i := None)) j) (v_tgt v j) (v_alive v j)"
  proof -
    have "session_ok (v_Z v) Free None (v_tgt v i) (v_alive v i)" by (simp add: session_ok_def)
    from sessions_change [OF I order_refl this, of i] show ?thesis by simp
  qed
  moreover have "tables_ok ?loc (v_n v) (v_Z v) (v_sid v) ((v_ply v)(i := None)) ((v_pre v)(k := None)) ((v_sh v)(k := None)) (v_ech v)"
    using tables_change [OF D(3) m(1) _ m(3), of "(v_pre v)(k := None)" Free "(v_sh v)(k := None)" None "v_ech v" "v_Z v"] m k by simp
  moreover have unique: "v_pre v j = Some p \<or> v_sh v j = Some p \<Longrightarrow> j = k" for j
    using D(4) p unfolding players_ok_def by metis
  moreover have "players_ok (v_np v) (p # v_free v) ((v_psid v)(p := 0)) ((v_pre v)(k := None)) ((v_sh v)(k := None))"
  proof -
    have "p < v_np v \<and> p \<notin> set (v_free v)" using D(4) p unfolding players_ok_def by blast
    moreover have "q < v_np v \<and> q \<noteq> p \<and> q \<notin> set (v_free v) \<and> v_psid v q = j"
      if "((v_pre v)(k := None)) j = Some q \<or> ((v_sh v)(k := None)) j = Some q" for j q
    proof -
      from that have j: "j \<noteq> k" "v_pre v j = Some q \<or> v_sh v j = Some q" by (auto split: if_splits)
      then have "q \<noteq> p" using unique by blast
      with j(2) D(4) show ?thesis unfolding players_ok_def by blast
    qed
    moreover have "q = r" if "((v_pre v)(k := None)) j = Some q" "((v_sh v)(k := None)) j = Some r" for j q r
      using that D(4) unfolding players_ok_def by (metis fun_upd_def option.distinct(1))
    ultimately show ?thesis using D(4) unfolding players_ok_def by auto
  qed
  moreover have "accounts_ok (drop_account v k p) ((v_pacc v)(p := 0)) ((v_sh v)(k := None))"
    unfolding accounts_ok_def
  proof (intro allI impI)
    fix a q assume a: "drop_account v k p a = Some q"
    then have acc: "v_acc v a = Some q" by (simp add: drop_account_def split: if_splits)
    then obtain j where j: "v_pacc v q = a" "v_sh v j = Some q" using D(5) by (auto simp: accounts_ok_def)
    have "j \<noteq> k"
    proof
      assume "j = k"
      with j(2) D(4) p have "q = p" "v_psid v q = k" unfolding players_ok_def by (metis, blast)
      with a acc j \<open>j = k\<close> show False by (simp add: drop_account_def)
    qed
    moreover from this have "q \<noteq> p" using unique j(2) by blast
    ultimately show "((v_pacc v)(p := 0)) q = a \<and> (\<exists>k'. ((v_sh v)(k := None)) k' = Some q)" using j by auto
  qed
  ultimately show ?thesis unfolding zinv_def zinv_at_def using D(6,7) m(2) by (auto intro!: exI [of _ ?loc])
qed

lemma zmove_echo_in:
  assumes I: "zinv_at loc v" and z: "0 < z" "z < v_Z v" and q: "v_q v z = k # q" "v_ply v (slot k) = Some p"
  shows "zinv (v\<lparr>v_q := (v_q v)(z := q), v_l := (v_l v)(z := v_l v z @ [slot k]),
      v_ech := (v_ech v)(z := (v_ech v z)(k \<mapsto> p))\<rparr>)"
proof -
  note D = zinv_atD [OF I]
  note k = zinv_head [OF I q(1) z(2)]
  let ?loc = "loc(slot k := Listed z)"
  have "zplaces_ok ?loc (v_n v) (v_Z v) (v_stack v) ((v_q v)(z := q)) ((v_l v)(z := v_l v z @ [slot k])) (v_sid v)"
    by (rule zplaces_ok_enter [OF D(1) q(1) z(2)])
  moreover have "\<forall>j<v_n v. session_ok (v_Z v) (?loc j) (v_ply v j) (v_tgt v j) (v_alive v j)"
  proof -
    have "session_ok (v_Z v) (Listed z) (v_ply v (slot k)) (v_tgt v (slot k)) (v_alive v (slot k))"
      using D(2) [OF k(1)] k(2) z by (simp add: session_ok_def)
    from sessions_change [OF I order_refl this, of "slot k"] show ?thesis by simp
  qed
  moreover have "tables_ok ?loc (v_n v) (v_Z v) (v_sid v) (v_ply v) (v_pre v) (v_sh v) ((v_ech v)(z := (v_ech v z)(k \<mapsto> p)))"
    using tables_change [OF D(3) k(1), of "v_pre v" "Listed z" "v_sh v" "v_ply v (slot k)" "(v_ech v)(z := (v_ech v z)(k \<mapsto> p))" "v_Z v"]
      k z q(2) fun_upd_idem [of "v_ply v" "slot k" "Some p"] by simp
  ultimately show ?thesis unfolding zinv_def zinv_at_def using D(4-7) k(2) by (auto intro!: exI [of _ ?loc])
qed

lemma zmove_echo_out:
  assumes I: "zinv_at loc v" and z: "0 < z" "z < v_Z v" and n: "n < length (v_l v z)" "i = v_l v z ! n"
    and k: "k = v_sid v i" and p: "\<not> v_alive v i" "v_ech v z k = Some p"
  shows "zinv (v\<lparr>v_l := (v_l v)(z := cut_nth n (v_l v z)), v_q := (v_q v)(v_tgt v i := v_q v (v_tgt v i) @ [k]),
      v_ply := (v_ply v)(i \<mapsto> p), v_tgt := (v_tgt v)(i := 0), v_ech := (v_ech v)(z := (v_ech v z)(k := None))\<rparr>)"
proof -
  note D = zinv_atD [OF I]
  have i: "i \<in> set (v_l v z)" using n by simp
  note m = zinv_member [OF I i z(2)]
  let ?t = "v_tgt v i" let ?loc = "loc(i := Queued ?t)"
  have ply: "v_ply v i = Some p" using m(6) [OF z(1)] p(2) k by simp
  have s: "?t < v_Z v" using D(2) [OF m(1)] m(2) z by (auto simp: session_ok_def)
  have "zplaces_ok ?loc (v_n v) (v_Z v) (v_stack v) ((v_q v)(?t := v_q v ?t @ [k])) ((v_l v)(z := cut_nth n (v_l v z))) (v_sid v)"
    unfolding k by (rule zplaces_ok_move [OF D(1) n z(2) s])
  moreover have "\<forall>j<v_n v. session_ok (v_Z v) (?loc j) (((v_ply v)(i \<mapsto> p)) j) (((v_tgt v)(i := 0)) j) (v_alive v j)"
  proof -
    have "session_ok (v_Z v) (Queued ?t) (Some p) 0 (v_alive v i)" using p(1) by (simp add: session_ok_def)
    from sessions_change [OF I order_refl this, of i] show ?thesis by simp
  qed
  moreover have "tables_ok ?loc (v_n v) (v_Z v) (v_sid v) ((v_ply v)(i \<mapsto> p)) (v_pre v) (v_sh v) ((v_ech v)(z := (v_ech v z)(k := None)))"
    using tables_change [OF D(3) m(1) _ m(3), of "v_pre v" "Queued ?t" "v_sh v" "Some p" "(v_ech v)(z := (v_ech v z)(k := None))" "v_Z v"]
      m z k ply by simp
  ultimately show ?thesis unfolding zinv_def zinv_at_def using D(4-7) m(2) by (auto intro!: exI [of _ ?loc])
qed

lemma zmove_zinv: "\<lbrakk>zmove v w; zinv v\<rbrakk> \<Longrightarrow> zinv w"
proof (induction rule: zmove.induct)
  case (accept v i st k)
  then show ?case by (auto simp: zinv_def [of v] intro: zmove_accept)
next
  case (lose v i st k)
  then show ?case by (auto simp: zinv_def [of v] intro: zmove_lose)
next
  case (die v i)
  then show ?case by (auto simp: zinv_def [of v] intro: zmove_die)
next
  case (enter_new v k q p fr np a)
  then show ?case using zmove_enter_new [of _ v k q p fr np a] by (auto simp: zinv_def [of v])
next
  case (enter_back v k q p)
  then show ?case by (auto simp: zinv_def [of v] intro: zmove_enter_back)
next
  case (login i v k p t Z a)
  then show ?case using zmove_login [of _ v i k p t Z a] by (auto simp: zinv_def [of v])
next
  case (leave n v i k)
  then show ?case using zmove_leave [of _ v n i k] by (auto simp: zinv_def [of v])
next
  case (quit n v i k p)
  then show ?case using zmove_quit [of _ v n i k p] by (auto simp: zinv_def [of v])
next
  case (echo_in z v k q p)
  then show ?case using zmove_echo_in [of _ v z k q p] by (auto simp: zinv_def [of v])
next
  case (echo_out z v n i k p)
  then show ?case using zmove_echo_out [of _ v z n i k p] by (auto simp: zinv_def [of v])
qed simp

end
