(* ===== verification/ZoneRef.thy ===== *)
theory ZoneRef
  imports Zone ZoneAbs
begin

text \<open>
  The zone server implements the transition system of \<^verbatim>\<open>ZoneAbs\<close>: each step of a zone thread is one move
  of it, or the thread stops at one of its own traps, and that happens for one reason only, a login request
  of a session that has logged in.
\<close>

section \<open>The abstraction\<close>

definition player_id :: "zone_stPlayer list \<Rightarrow> nat \<Rightarrow> u64" where
  "player_id ps p = (if p < length ps then pl_SessionID (ps ! p) else 0)"

definition player_acc :: "zone_stPlayer list \<Rightarrow> nat \<Rightarrow> u64" where
  "player_acc ps p = (if p < length ps then pl_AccountNo (ps ! p) else 0)"

lemma player_upd:
  "p < length ps \<Longrightarrow> player_id (ps[p := x]) = (player_id ps)(p := pl_SessionID x)"
  "p < length ps \<Longrightarrow> player_acc (ps[p := x]) = (player_acc ps)(p := pl_AccountNo x)"
  "(player_id (ps @ [y]))(length ps := k) = (player_id ps)(length ps := k)"
  "(player_acc (ps @ [y]))(length ps := k) = (player_acc ps)(length ps := k)"
  by (auto simp: player_id_def player_acc_def fun_eq_iff nth_list_update nth_append)

definition zview_of :: "CZoneServer \<Rightarrow> zview" where
  "zview_of s =
     (let l = zv_login s; zs = zv_zones s; ps = players l
      in \<lparr>v_n = length (zv_sessions s), v_Z = length zs, v_stack = zv_stack s,
          v_q = (\<lambda>z. if z < length zs then z_q (zs ! z) else []),
          v_l = (\<lambda>z. if z < length zs then z_sessions (zs ! z) else []),
          v_sid = (\<lambda>i. zs_SeqID (zsession i s)), v_ply = (\<lambda>i. zs_pPlayer (zsession i s)),
          v_tgt = (\<lambda>i. zs_zone (zsession i s)), v_alive = (\<lambda>i. zs_alive (zsession i s)),
          v_pre = map_of (prePlayer_hash l), v_sh = map_of (SessionID_hash l), v_acc = map_of (Account_hash l),
          v_ech = (\<lambda>z. if z < length zs then map_of (echo_hash (zs ! z)) else Map.empty),
          v_np = length ps, v_psid = player_id ps,
          v_pacc = player_acc ps, v_free = player_free l, v_lost = zv_lost s\<rparr>)"

lemma zview_of_simps:
  "v_n (zview_of s) = length (zv_sessions s)" "v_Z (zview_of s) = length (zv_zones s)" "v_stack (zview_of s) = zv_stack s"
  "v_q (zview_of s) z = (if z < length (zv_zones s) then z_q (zv_zones s ! z) else [])"
  "v_l (zview_of s) z = (if z < length (zv_zones s) then z_sessions (zv_zones s ! z) else [])"
  "v_sid (zview_of s) i = zs_SeqID (zsession i s)" "v_ply (zview_of s) i = zs_pPlayer (zsession i s)"
  "v_tgt (zview_of s) i = zs_zone (zsession i s)" "v_alive (zview_of s) i = zs_alive (zsession i s)"
  "v_pre (zview_of s) = map_of (prePlayer_hash (zv_login s))" "v_sh (zview_of s) = map_of (SessionID_hash (zv_login s))"
  "v_acc (zview_of s) = map_of (Account_hash (zv_login s))"
  "v_ech (zview_of s) z = (if z < length (zv_zones s) then map_of (echo_hash (zv_zones s ! z)) else Map.empty)"
  "v_np (zview_of s) = length (players (zv_login s))"
  "v_psid (zview_of s) = player_id (players (zv_login s))"
  "v_pacc (zview_of s) = player_acc (players (zv_login s))"
  "v_free (zview_of s) = player_free (zv_login s)" "v_lost (zview_of s) = zv_lost s"
  by (simp_all add: zview_of_def Let_def)

lemmas zone_updates = upd_zs_def upd_zone_def upd_login_def upd_zplayer_def zcall_def zsession_def

named_theorems zone_view

lemma view_zs [zone_view]: "i < length (zv_sessions s) \<Longrightarrow> zview_of (upd_zs i f s) = (let x = f (zsession i s); v = zview_of s in
    v\<lparr>v_sid := (v_sid v)(i := zs_SeqID x), v_ply := (v_ply v)(i := zs_pPlayer x), v_tgt := (v_tgt v)(i := zs_zone x),
      v_alive := (v_alive v)(i := zs_alive x)\<rparr>)"
  by (auto simp: zview_of_def zone_updates fun_eq_iff nth_list_update Let_def)

lemma view_zone [zone_view]: "z < length (zv_zones s) \<Longrightarrow> zview_of (upd_zone z f s) = (let x = f (zv_zones s ! z); v = zview_of s in
    v\<lparr>v_q := (v_q v)(z := z_q x), v_l := (v_l v)(z := z_sessions x), v_ech := (v_ech v)(z := map_of (echo_hash x))\<rparr>)"
  by (auto simp: zview_of_def zone_updates fun_eq_iff nth_list_update Let_def)

lemma view_player [zone_view]: "p < length (players (zv_login s)) \<Longrightarrow> zview_of (upd_zplayer p f s) = (let x = f (players (zv_login s) ! p); v = zview_of s in
    v\<lparr>v_psid := (v_psid v)(p := pl_SessionID x), v_pacc := (v_pacc v)(p := pl_AccountNo x)\<rparr>)"
  by (simp add: zview_of_def zone_updates Let_def player_upd)

lemma view_call [zone_view]: "zview_of (zcall c s) = zview_of s"
  by (simp add: zview_of_def zone_updates Let_def)

text \<open>Updates that do not show.\<close>

lemma view_zone_same:
  "(\<And>x. z_q (f x) = z_q x \<and> z_sessions (f x) = z_sessions x \<and> echo_hash (f x) = echo_hash x) \<Longrightarrow> zview_of (upd_zone z f s) = zview_of s"
  by (cases "z < length (zv_zones s)")
    (auto simp: zview_of_def zone_updates fun_eq_iff nth_list_update Let_def list_update_beyond)

lemma view_zs_same:
  "(\<And>x. zs_SeqID (f x) = zs_SeqID x \<and> zs_pPlayer (f x) = zs_pPlayer x \<and> zs_zone (f x) = zs_zone x \<and> zs_alive (f x) = zs_alive x)
    \<Longrightarrow> zview_of (upd_zs i f s) = zview_of s"
  by (cases "i < length (zv_sessions s)")
    (auto simp: zview_of_def zone_updates fun_eq_iff nth_list_update Let_def list_update_beyond)

lemma view_player_same:
  "(\<And>x. pl_SessionID (f x) = pl_SessionID x \<and> pl_AccountNo (f x) = pl_AccountNo x) \<Longrightarrow> zview_of (upd_zplayer p f s) = zview_of s"
  by (cases "p < length (players (zv_login s))")
    (auto simp: zview_of_def zone_updates Let_def list_update_beyond player_upd player_id_def player_acc_def fun_eq_iff nth_list_update)

lemma view_calls: "zview_of (s\<lparr>zv_calls := cs\<rparr>) = zview_of s"
  by (simp add: zview_of_def zsession_def Let_def)

lemma map_of_hash_insert: "map_of (hash_insert k v xs) = (case map_of xs k of None \<Rightarrow> (map_of xs)(k \<mapsto> v) | Some _ \<Rightarrow> map_of xs)"
  by (auto simp: hash_insert_def split: option.splits)

text \<open>The rest of the state: the encoding, the sessions and the messages they hold.\<close>

definition keeps :: "CZoneServer \<Rightarrow> CZoneServer \<Rightarrow> bool" where
  "keeps s s' \<longleftrightarrow> zv_encode s' = zv_encode s \<and> zv_lost s' = zv_lost s \<and> length (zv_sessions s') = length (zv_sessions s) \<and>
     (\<forall>i<length (zv_sessions s). set (zs_buffer (zsession i s')) \<subseteq> set (zs_buffer (zsession i s)))"

lemma keeps_refl: "keeps s s"
  by (simp add: keeps_def)

lemma keeps_trans: "\<lbrakk>keeps s s1; keeps s1 s2\<rbrakk> \<Longrightarrow> keeps s s2"
  by (fastforce simp: keeps_def)

lemma keeps_upd:
  "keeps s (upd_zone z f s)" "keeps s (upd_login g s)" "keeps s (upd_zplayer p h s)" "keeps s (zcall c s)"
  "keeps s (s\<lparr>zv_calls := cs\<rparr>)" "keeps s (s\<lparr>zv_login := l\<rparr>)" "keeps s (s\<lparr>zv_zones := zs\<rparr>)" "keeps s (s\<lparr>zv_stack := st\<rparr>)"
  "(\<And>x. set (zs_buffer (k x)) \<subseteq> set (zs_buffer x)) \<Longrightarrow> keeps s (upd_zs i k s)"
proof -
  show "keeps s (upd_zs i k s)" if "\<And>x. set (zs_buffer (k x)) \<subseteq> set (zs_buffer x)"
  proof (cases "i < length (zv_sessions s)")
    case True
    then show ?thesis using that by (simp add: keeps_def zone_updates nth_list_update)
  next
    case False
    then show ?thesis by (simp add: keeps_def zone_updates list_update_beyond)
  qed
qed (simp_all add: keeps_def zone_updates)

lemma keeps_step:
  "keeps s t \<Longrightarrow> keeps s (upd_zone z f t)" "keeps s t \<Longrightarrow> keeps s (upd_login g t)" "keeps s t \<Longrightarrow> keeps s (upd_zplayer p h t)"
  "keeps s t \<Longrightarrow> keeps s (zcall c t)" "keeps s t \<Longrightarrow> keeps s (t\<lparr>zv_calls := cs\<rparr>)" "keeps s t \<Longrightarrow> keeps s (t\<lparr>zv_login := l\<rparr>)"
  "keeps s t \<Longrightarrow> keeps s (t\<lparr>zv_zones := zs\<rparr>)" "keeps s t \<Longrightarrow> keeps s (t\<lparr>zv_stack := st\<rparr>)"
  "\<lbrakk>keeps s t; \<And>x. set (zs_buffer (k x)) \<subseteq> set (zs_buffer x)\<rbrakk> \<Longrightarrow> keeps s (upd_zs i k t)"
  by (erule keeps_trans, rule keeps_upd, assumption?)+

section \<open>Entering a zone\<close>

lemma Login_register_enter:
  assumes I: "zinv (zview_of s)" and q: "z_q (zv_zones s ! 0) = k # q"
  shows "\<exists>s'. Login_register inp k (zs_pPlayer (zsession (slot k) s))
      (upd_zone 0 (\<lambda>Z. Z\<lparr>z_q := q, z_sessions := z_sessions Z @ [slot k]\<rparr>) s) = Some s' \<and>
    zmove (zview_of s) (zview_of s') \<and> keeps s s'"
proof -
  obtain loc where loc: "zinv_at loc (zview_of s)" using I by (auto simp: zinv_def)
  note D = zinv_atD [OF loc]
  have Z: "0 < length (zv_zones s)" using D(6) by (auto simp: zview_of_simps)
  let ?s1 = "upd_zone 0 (\<lambda>Z. Z\<lparr>z_q := q, z_sessions := z_sessions Z @ [slot k]\<rparr>) s"
  have q': "v_q (zview_of s) 0 = k # q" using q Z by (simp add: zview_of_simps)
  note h = zinv_head [OF loc q']
  have pre: "map_of (prePlayer_hash (zv_login s)) k = None" and sh: "map_of (SessionID_hash (zv_login s)) k = zs_pPlayer (zsession (slot k) s)"
    using h(4,5) Z by (simp_all add: zview_of_simps)
  have same: "zv_login ?s1 = zv_login s" "zsession i ?s1 = zsession i s" for i by (simp_all add: zone_updates)
  show ?thesis
  proof (cases "zs_pPlayer (zsession (slot k) s)")
    case (Some p)
    let ?s' = "upd_zplayer p (\<lambda>p. p\<lparr>pl_lastRecvTime := zi_now inp\<rparr>)
        (upd_login (\<lambda>l. l\<lparr>prePlayer_hash := hash_insert k p (prePlayer_hash (zv_login s)),
           Auth_SessionCnt := length (hash_insert k p (prePlayer_hash (zv_login s)))\<rparr>) ?s1)"
    have step: "Login_register inp k (zs_pPlayer (zsession (slot k) s)) ?s1 = Some ?s'"
      using pre sh Some by (simp add: Login_register_def Let_def same)
    have "zview_of ?s' = (let v = zview_of s in v\<lparr>v_q := (v_q v)(0 := q), v_l := (v_l v)(0 := v_l v 0 @ [slot k]), v_pre := (v_pre v)(k \<mapsto> p)\<rparr>)"
      using Z pre by (subst view_player_same)
        (auto simp: zview_of_def zone_updates Let_def fun_eq_iff nth_list_update map_of_hash_insert)
    moreover have "zmove (zview_of s) (let v = zview_of s in v\<lparr>v_q := (v_q v)(0 := q), v_l := (v_l v)(0 := v_l v 0 @ [slot k]), v_pre := (v_pre v)(k \<mapsto> p)\<rparr>)"
      unfolding Let_def by (rule zmove.enter_back [OF q']) (simp_all add: zview_of_simps pre Some)
    ultimately show ?thesis unfolding step by (auto intro!: keeps_step keeps_refl)
  next
    case None
    obtain p l1 where al: "player_Alloc (zi_player inp) (zv_login s) = (p, l1)" by fastforce
    let ?pre = "hash_insert k p (prePlayer_hash (zv_login s))"
    let ?s' = "upd_zplayer p (\<lambda>p. p\<lparr>pl_SessionID := k, pl_lastRecvTime := zi_now inp\<rparr>)
                 (?s1\<lparr>zv_login := l1\<lparr>prePlayer_hash := ?pre, Auth_SessionCnt := length ?pre, AcceptTps := AcceptTps l1 + 1\<rparr>\<rparr>)"
    have l1: "prePlayer_hash l1 = prePlayer_hash (zv_login s)" using al by (auto simp: player_Alloc_def split: list.splits)
    have step: "Login_register inp k (zs_pPlayer (zsession (slot k) s)) ?s1 = Some ?s'"
      using pre sh None al by (simp add: Login_register_def Let_def same l1)
    let ?np = "length (players l1)" and ?a = "pl_AccountNo (players l1 ! p)"
    let ?v = "let v = zview_of s in v\<lparr>v_q := (v_q v)(0 := q), v_l := (v_l v)(0 := v_l v 0 @ [slot k]), v_pre := (v_pre v)(k \<mapsto> p),
      v_np := ?np, v_psid := (v_psid v)(p := k), v_pacc := (v_pacc v)(p := ?a), v_free := player_free l1\<rparr>"
    have alloc: "v_free (zview_of s) = p # player_free l1 \<and> ?np = v_np (zview_of s) \<or>
        v_free (zview_of s) = [] \<and> player_free l1 = [] \<and> p = v_np (zview_of s) \<and> ?np = Suc p"
      using al by (auto simp: player_Alloc_def zview_of_simps split: list.splits)
    then have p: "p < ?np" using D(4) by (auto simp: players_ok_def)
    have rest: "SessionID_hash l1 = SessionID_hash (zv_login s)" "Account_hash l1 = Account_hash (zv_login s)"
      "player_id ((players l1)[p := x]) = (player_id (players (zv_login s)))(p := pl_SessionID x)"
      "player_acc ((players l1)[p := x]) = (player_acc (players (zv_login s)))(p := pl_AccountNo x)" for x
      using al p by (auto simp: player_Alloc_def player_upd split: list.splits)
    have "zview_of ?s' = ?v"
      using Z pre p by (auto simp: zview_of_def zone_updates Let_def fun_eq_iff nth_list_update map_of_hash_insert l1 rest)
    moreover have "zmove (zview_of s) ?v"
      unfolding Let_def by (rule zmove.enter_new [OF q' _ _ _ alloc]) (simp_all add: zview_of_simps pre sh None)
    ultimately show ?thesis unfolding step by (auto intro!: keeps_step keeps_refl)
  qed
qed

text \<open>The connection does not show.\<close>

lemma connect_same:
  assumes "Login_connect inp s = Some s1"
  shows "zview_of s1 = zview_of s" "keeps s s1" "zv_zones s1 = zv_zones s" "zsession i s1 = zsession i s"
  using assms by (auto simp: Login_connect_def zview_of_def zone_updates Let_def intro!: keeps_refl keeps_upd split: if_splits)

lemma connect_zone: "Login_connect inp (upd_zone z f s) = map_option (upd_zone z f) (Login_connect inp s)"
  by (simp add: Login_connect_def zone_updates)

lemma Login_enter:
  assumes I: "zinv (zview_of s)" and q: "z_q (zv_zones s ! 0) = k # q" and c: "bRedisOnce (zv_login s) \<or> zi_connect inp"
  shows "\<exists>s'. zone_enter 0 inp s = Some s' \<and> zmove (zview_of s) (zview_of s') \<and> keeps s s'"
proof -
  obtain s1 where s1: "Login_connect inp s = Some s1" using c by (cases "bRedisOnce (zv_login s)") (auto simp: Login_connect_def)
  note same = connect_same [OF s1]
  obtain s' where "Login_register inp k (zs_pPlayer (zsession (slot k) s1))
      (upd_zone 0 (\<lambda>Z. Z\<lparr>z_q := q, z_sessions := z_sessions Z @ [slot k]\<rparr>) s1) = Some s'"
    "zmove (zview_of s1) (zview_of s')" "keeps s1 s'"
    using Login_register_enter [of s1 k q inp] I q same by auto
  moreover have "zsession i (upd_zone z f s) = zsession i s" for i z f by (simp add: zone_updates)
  ultimately show ?thesis using q same s1 keeps_trans
    by (auto simp: zone_enter_def OnEnterWorld_def Login_OnEnterWorld_def connect_zone Let_def)
qed

section \<open>Changing the zone\<close>

lemma pick_zone_bound: "0 < length vec \<Longrightarrow> pick_zone m 0 0 vec < length vec"
proof -
  have "pick_zone m t i vec < i + length vec" if "t < i + length vec" for m t i using that
  proof (induction m t i vec rule: pick_zone.induct)
    case (2 userMin targetIdx i v vec)
    then show ?case by (cases "z_count v < userMin") (auto simp: not_less)
  qed simp
  from this [of 0 0] show "0 < length vec \<Longrightarrow> pick_zone m 0 0 vec < length vec" by simp
qed

lemma view_create: "zview_of (ReQuestCreateZone s) = (zview_of s)\<lparr>v_Z := Suc (v_Z (zview_of s))\<rparr>"
  by (auto simp: zview_of_def ReQuestCreateZone_def zsession_def Let_def fun_eq_iff nth_append new_ZoneSet_def less_Suc_eq)

lemma keeps_create: "keeps s t \<Longrightarrow> keeps s (ReQuestCreateZone t)"
  unfolding ReQuestCreateZone_def by (rule keeps_step)

lemma move_to_echo:
  assumes "zs_SeqID (zsession (slot k) s) = k" "slot k < length (zv_sessions s)" "2 \<le> length (zv_zones s)"
  shows "\<exists>s' t Z. RequeseMoveZone k 1 p s = Some s' \<and> 0 < t \<and> t < length (zv_zones s) \<and> (Z = length (zv_zones s) \<or> Z = Suc (length (zv_zones s))) \<and>
    zview_of s' = (let v = zview_of s in v\<lparr>v_Z := Z, v_ply := (v_ply v)(slot k \<mapsto> p), v_tgt := (v_tgt v)(slot k := t)\<rparr>) \<and> keeps s s'"
proof -
  let ?i = "slot k"
  let ?t = "Suc (pick_zone EchoMaxUser 0 0 (tl (zv_zones s)))"
  let ?s2 = "upd_zs ?i (\<lambda>x. x\<lparr>zs_zone := ?t\<rparr>) (upd_zs ?i (\<lambda>x. x\<lparr>zs_pPlayer := Some p\<rparr>) s)"
  let ?s3 = "upd_zone ?t (\<lambda>Z. Z\<lparr>z_count := z_count Z + 1\<rparr>) ?s2"
  have t: "?t < length (zv_zones s)" using pick_zone_bound [of "tl (zv_zones s)" EchoMaxUser] assms(3) by auto
  have tl: "tl (zv_zones s) \<noteq> []" using assms(3) by (cases "zv_zones s") auto
  have zs: "zv_zones (upd_zs ?i f s) = zv_zones s" for f by (simp add: upd_zs_def)
  have step: "RequeseMoveZone k 1 p s = Some (if EchoMaxUser \<le> z_count (zv_zones ?s3 ! ?t) then ReQuestCreateZone ?s3 else ?s3)"
    using assms(1) tl by (simp add: RequeseMoveZone_def Let_def zs)
  have v2: "zview_of ?s2 = (let v = zview_of s in v\<lparr>v_ply := (v_ply v)(?i \<mapsto> p), v_tgt := (v_tgt v)(?i := ?t)\<rparr>)"
    using assms(2) by (auto simp: zview_of_def zone_updates Let_def fun_eq_iff nth_list_update)
  have v3: "zview_of ?s3 = zview_of ?s2" by (rule view_zone_same) simp
  have n: "v_Z (zview_of s) = length (zv_zones s)" by (simp add: zview_of_simps)
  have k: "keeps s ?s3" by (intro keeps_step keeps_refl) simp_all
  show ?thesis
  proof (cases "EchoMaxUser \<le> z_count (zv_zones ?s3 ! ?t)")
    case True
    have "zview_of (ReQuestCreateZone ?s3) = (let v = zview_of s in v\<lparr>v_Z := Suc (length (zv_zones s)), v_ply := (v_ply v)(?i \<mapsto> p), v_tgt := (v_tgt v)(?i := ?t)\<rparr>)"
      unfolding view_create v3 v2 by (simp add: Let_def n)
    then show ?thesis using step True t k by (intro exI [of _ "ReQuestCreateZone ?s3"] exI [of _ ?t] exI [of _ "Suc (length (zv_zones s))"]) (simp add: keeps_create)
  next
    case False
    have "zview_of ?s3 = (let v = zview_of s in v\<lparr>v_Z := length (zv_zones s), v_ply := (v_ply v)(?i \<mapsto> p), v_tgt := (v_tgt v)(?i := ?t)\<rparr>)"
      unfolding v3 v2 by (simp add: Let_def n [symmetric])
    then show ?thesis using step False t k by (intro exI [of _ ?s3] exI [of _ ?t] exI [of _ "length (zv_zones s)"]) simp
  qed
qed

lemma move_to_login:
  assumes "zs_SeqID (zsession (slot k) s) = k" "slot k < length (zv_sessions s)"
  shows "\<exists>s'. RequeseMoveZone k 0 p s = Some s' \<and>
    zview_of s' = (let v = zview_of s in v\<lparr>v_ply := (v_ply v)(slot k \<mapsto> p), v_tgt := (v_tgt v)(slot k := 0)\<rparr>) \<and> keeps s s' \<and> zv_zones s' = zv_zones s"
proof -
  let ?s' = "upd_zs (slot k) (\<lambda>x. x\<lparr>zs_zone := 0\<rparr>) (upd_zs (slot k) (\<lambda>x. x\<lparr>zs_pPlayer := Some p\<rparr>) s)"
  have "zview_of ?s' = (let v = zview_of s in v\<lparr>v_ply := (v_ply v)(slot k \<mapsto> p), v_tgt := (v_tgt v)(slot k := 0)\<rparr>)"
    using assms(2) by (auto simp: zview_of_def zone_updates Let_def fun_eq_iff nth_list_update)
  moreover have "keeps s ?s'" by (intro keeps_step keeps_refl) simp_all
  ultimately show ?thesis using assms(1) by (auto simp: RequeseMoveZone_def Let_def upd_zs_def)
qed

section \<open>Packets in the login zone\<close>

text \<open>A session in the list of a zone.\<close>

lemma session_at:
  assumes "zinv_at loc (zview_of s)" "i \<in> set (z_sessions (zv_zones s ! z))" "z < length (zv_zones s)"
  shows "i < length (zv_sessions s)" "slot (zs_SeqID (zsession i s)) = i" "i \<in> set (v_l (zview_of s) z)"
proof -
  show i: "i \<in> set (v_l (zview_of s) z)" using assms(2,3) by (simp add: zview_of_simps)
  from zinv_member(1,3) [OF assms(1) i] assms(3)
  show "i < length (zv_sessions s)" "slot (zs_SeqID (zsession i s)) = i" by (simp_all add: zview_of_simps)
qed

lemma Login_request:
  assumes I: "zinv_at loc (zview_of s)" and i: "i \<in> set (z_sessions (zv_zones s ! 0))" and k: "k = zs_SeqID (zsession i s)"
    and p: "map_of (prePlayer_hash (zv_login s)) k = Some p"
  shows "case Login_REQ_LOGIN inp k msg A key s of
           None \<Rightarrow> zi_redis inp A = Redis_throws \<or> token_ok inp A key \<and> map_of (SessionID_hash (zv_login s)) k \<noteq> None
         | Some s' \<Rightarrow> zmove (zview_of s) (zview_of s') \<and> keeps s s'"
proof (cases "token_ok inp A key")
  case False
  then show ?thesis by (simp add: Login_REQ_LOGIN_def Let_def zone_view zmove.stay keeps_step keeps_refl)
next
  case True
  then have answer: "zi_redis inp A \<noteq> Redis_throws" by (auto simp: token_ok_def)
  note D = zinv_atD [OF I]
  have Z: "2 \<le> length (zv_zones s)" using D(6) by (simp add: zview_of_simps)
  then have Z0: "0 < length (zv_zones s)" by linarith
  note m = session_at [OF I i Z0]
  define s1 where "s1 = zcall (ZFree msg) s"
  define s2 where "s2 = (case map_of (Account_hash (zv_login s1)) A of
                      None \<Rightarrow> s1
                    | Some player \<Rightarrow>
                        upd_login (\<lambda>l. let acc = AList.delete A (Account_hash l)
                                       in l\<lparr>Account_hash := acc, User_SessionCnt := length acc\<rparr>)
                          (zcall (ZDisconnect (pl_SessionID (players (zv_login s1) ! player))) s1))"
  have v2: "zview_of s2 = (zview_of s)\<lparr>v_acc := (v_acc (zview_of s))(A := None)\<rparr>"
    by (auto simp: s2_def s1_def zview_of_def zone_updates Let_def fun_eq_iff delete_conv split: option.splits)
  have same: "prePlayer_hash (zv_login s2) = prePlayer_hash (zv_login s)" "SessionID_hash (zv_login s2) = SessionID_hash (zv_login s)"
    "players (zv_login s2) = players (zv_login s)" "player_free (zv_login s2) = player_free (zv_login s)" "zv_lost s2 = zv_lost s" "zv_stack s2 = zv_stack s" "zv_sessions s2 = zv_sessions s" "zv_zones s2 = zv_zones s"
    by (simp_all add: s2_def s1_def zone_updates Let_def split: option.splits)
  have k2: "keeps s s2" by (auto simp: s2_def s1_def intro!: keeps_step keeps_refl split: option.splits)
  define s3 where "s3 = upd_zplayer p (\<lambda>p. p\<lparr>pl_AccountNo := A\<rparr>) s2"
  have np: "p < length (players (zv_login s))" using D(4) p by (auto simp: players_ok_def zview_of_simps)
  have same3: "SessionID_hash (zv_login s3) = SessionID_hash (zv_login s)" by (simp add: s3_def zone_updates same)
  define s4 where "s4 = upd_login (\<lambda>l. let acc = hash_insert A p (Account_hash l)
                                      in l\<lparr>SessionID_hash := hash_insert k p (SessionID_hash l),
                                           Account_hash := acc, User_SessionCnt := length acc\<rparr>) s3"
  have "map_of (prePlayer_hash (zv_login s2)) k = Some p" using p by (simp add: same)
  then have unf: "Login_REQ_LOGIN inp k msg A key s =
      (if map_of (SessionID_hash (zv_login s3)) k \<noteq> None then None else RequeseMoveZone k 1 p s4)"
    using True answer unfolding Login_REQ_LOGIN_def s4_def s3_def s2_def s1_def Let_def by simp
  show ?thesis
  proof (cases "map_of (SessionID_hash (zv_login s)) k")
    case (Some r)
    then show ?thesis using True unf same3 by simp
  next
    case None
    have step: "Login_REQ_LOGIN inp k msg A key s = RequeseMoveZone k 1 p s4" using unf same3 None by simp
    have acc2: "map_of (Account_hash (zv_login s2)) = (map_of (Account_hash (zv_login s)))(A := None)"
      using v2 by (simp add: zview_of_def Let_def)
    have v4: "zview_of s4 = (let v = zview_of s in v\<lparr>v_sh := (v_sh v)(k \<mapsto> p), v_acc := (v_acc v)(A \<mapsto> p), v_pacc := (v_pacc v)(p := A)\<rparr>)"
      using np None by (simp add: zview_of_def s4_def s3_def zone_updates Let_def same map_of_hash_insert acc2 player_upd)
        (auto simp: fun_eq_iff player_id_def player_acc_def nth_list_update)
    have zs4: "zv_sessions s4 = zv_sessions s" "zv_zones s4 = zv_zones s" by (simp_all add: s4_def s3_def zone_updates same)
    have k4: "keeps s s4" unfolding s4_def s3_def by (intro keeps_step k2)
    have "zs_SeqID (zsession (slot k) s4) = k" "slot k < length (zv_sessions s4)" "2 \<le> length (zv_zones s4)"
      using m k Z zs4 by (simp_all add: zsession_def)
    from move_to_echo [OF this, of p] obtain s' t Z where s': "RequeseMoveZone k 1 p s4 = Some s'"
      "0 < t" "t < length (zv_zones s)" "Z = length (zv_zones s) \<or> Z = Suc (length (zv_zones s))"
      "zview_of s' = (let v = zview_of s4 in v\<lparr>v_Z := Z, v_ply := (v_ply v)(slot k \<mapsto> p), v_tgt := (v_tgt v)(slot k := t)\<rparr>)"
      "keeps s4 s'" by (auto simp: zs4)
    have "zmove (zview_of s) (let v = zview_of s in v\<lparr>v_Z := Z, v_ply := (v_ply v)(i \<mapsto> p), v_tgt := (v_tgt v)(i := t),
        v_sh := (v_sh v)(k \<mapsto> p), v_acc := (v_acc v)(A \<mapsto> p), v_pacc := (v_pacc v)(p := A)\<rparr>)"
      unfolding Let_def
      by (rule zmove.login) (use m(3) s'(2-4) k p None in \<open>auto simp: zview_of_simps\<close>)
    moreover have "zview_of s' = (let v = zview_of s in v\<lparr>v_Z := Z, v_ply := (v_ply v)(i \<mapsto> p), v_tgt := (v_tgt v)(i := t),
        v_sh := (v_sh v)(k \<mapsto> p), v_acc := (v_acc v)(A \<mapsto> p), v_pacc := (v_pacc v)(p := A)\<rparr>)"
      using s'(5) v4 m(2) k by (simp add: Let_def)
    ultimately show ?thesis using step s'(1,6) k4 by (auto intro: keeps_trans)
  qed
qed

text \<open>A message the login zone takes for a login with a valid token.\<close>

definition login_request :: "zone_input \<Rightarrow> CMessage \<Rightarrow> bool" where
  "login_request inp m =
     (case msg_shr m 2 of
        Inl e \<Rightarrow> False
      | Inr (w, m1) \<Rightarrow> bytes_word w = en_PACKET_CS_GAME_REQ_LOGIN \<and>
          (case msg_shr m1 8 of
             Inl e \<Rightarrow> False
           | Inr (a, m2) \<Rightarrow>
               (case GetData m2 64 of Inl e \<Rightarrow> False | Inr (key, m3) \<Rightarrow> token_ok inp (bytes_word a) key)))"

text \<open>One of an account redis cannot be asked about.\<close>

definition redis_request :: "zone_input \<Rightarrow> CMessage \<Rightarrow> bool" where
  "redis_request inp m =
     (case msg_shr m 2 of
        Inl e \<Rightarrow> False
      | Inr (w, m1) \<Rightarrow> bytes_word w = en_PACKET_CS_GAME_REQ_LOGIN \<and>
          (case msg_shr m1 8 of
             Inl e \<Rightarrow> False
           | Inr (a, m2) \<Rightarrow>
               (case GetData m2 64 of Inl e \<Rightarrow> False | Inr (key, m3) \<Rightarrow> zi_redis inp (bytes_word a) = Redis_throws)))"

lemma msg_shr_cases:
  assumes "msg_ok m"
  obtains "msg_shr m n = Inl HasNotData" | bs m' where "msg_shr m n = Inr (bs, m')" "msg_ok m'"
  using assms msg_shr_eq [OF assms, of n] msg_shr_ok(1) [OF assms] by (metis (no_types))

lemma caught_has_not_data: "caught HasNotData s = Some (False, s)"
  by (simp add: caught_def)

lemma Login_recv:
  assumes I: "zinv_at loc (zview_of s)" and i: "i \<in> set (z_sessions (zv_zones s ! 0))" and k: "k = zs_SeqID (zsession i s)"
    and m: "msg_ok msg"
  shows "case Login_OnRecv inp k msg s of
           None \<Rightarrow> redis_request inp msg \<or> login_request inp msg \<and> map_of (SessionID_hash (zv_login s)) k \<noteq> None
         | Some s' \<Rightarrow> zmove (zview_of s) (zview_of s') \<and> keeps s s'"
proof (cases "map_of (prePlayer_hash (zv_login s)) k")
  case None
  then show ?thesis by (simp add: Login_OnRecv_def release_and_cut_def zone_view zmove.stay keeps_step keeps_refl)
next
  case (Some p)
  have cut: ?thesis if "Login_PacketProc inp k msg s = Some (False, s)"
    using that Some by (simp add: Login_OnRecv_def release_and_cut_def zone_view zmove.stay keeps_step keeps_refl)
  show ?thesis
  proof (rule msg_shr_cases [OF m, of 2])
    assume "msg_shr msg 2 = Inl HasNotData"
    then show ?thesis by (intro cut) (simp add: Login_PacketProc_def caught_def)
  next
    fix w m1 assume w: "msg_shr msg 2 = Inr (w, m1)" "msg_ok m1"
    show ?thesis
    proof (cases "bytes_word w = en_PACKET_CS_GAME_REQ_LOGIN")
      case False
      then show ?thesis using w by (intro cut) (simp add: Login_PacketProc_def)
    next
      case ty: True
      show ?thesis
      proof (rule msg_shr_cases [OF w(2), of 8])
        assume "msg_shr m1 8 = Inl HasNotData"
        then show ?thesis using w ty by (intro cut) (simp add: Login_PacketProc_def caught_def)
      next
        fix a m2 assume a: "msg_shr m1 8 = Inr (a, m2)" "msg_ok m2"
        show ?thesis
        proof (rule msg_shr_cases [OF a(2), of 64])
          assume "msg_shr m2 64 = Inl HasNotData"
          then show ?thesis using w ty a by (intro cut) (simp add: Login_PacketProc_def caught_def GetData_eq)
        next
          fix key m3 assume b: "msg_shr m2 64 = Inr (key, m3)" "msg_ok m3"
          let ?r = "Login_REQ_LOGIN inp k m3 (bytes_word a) key s"
          have proc: "Login_PacketProc inp k msg s = map_option (\<lambda>s1. (True, upd_login (\<lambda>l. l\<lparr>login_msgTypeCnt := login_msgTypeCnt l + 1\<rparr>) s1)) ?r"
            using w ty a b by (simp add: Login_PacketProc_def GetData_eq map_option_case split: option.split)
          note r = Login_request [OF I i k Some, where inp = inp and msg = m3 and A = "bytes_word a" and key = key]
          show ?thesis
          proof (cases ?r)
            case None
            with r proc Some w ty a b show ?thesis by (auto simp: Login_OnRecv_def login_request_def redis_request_def GetData_eq)
          next
            case (Some s1)
            let ?s2 = "upd_login (\<lambda>l. l\<lparr>login_msgTypeCnt := login_msgTypeCnt l + 1\<rparr>) s1"
            let ?s3 = "upd_zone 0 (\<lambda>Z. Z\<lparr>z_totalPacketCnt := z_totalPacketCnt Z + 1\<rparr>)
                      (upd_zplayer p (\<lambda>p. p\<lparr>pl_lastRecvTime := zi_now inp\<rparr>) ?s2)"
            have "Login_OnRecv inp k msg s = Some ?s3"
              using Some proc \<open>map_of (prePlayer_hash (zv_login s)) k = Some p\<close> by (simp add: Login_OnRecv_def)
            moreover have "zview_of ?s3 = zview_of s1"
            proof -
              have "zview_of ?s3 = zview_of ?s2" by (subst view_zone_same, simp, rule view_player_same, simp)
              then show ?thesis by (simp add: zview_of_def zone_updates Let_def)
            qed
            moreover have "keeps s ?s3" using r Some by (intro keeps_step) simp
            ultimately show ?thesis using r Some by simp
          qed
        qed
      qed
    qed
  qed
qed

section \<open>Packets in an echo zone\<close>

lemma shl_parts:
  assumes "msg_ok m" "msg_rear m + sum_list (map length parts) \<le> msg_end m"
  shows "\<exists>m'. foldl (\<lambda>r bs. err_bind r (\<lambda>m. msg_shl m bs)) (Inr m) parts = Inr m' \<and> msg_ok m' \<and>
    msg_rear m' = msg_rear m + sum_list (map length parts) \<and> msg_front m' = msg_front m"
  using assms
proof (induction parts arbitrary: m)
  case (Cons bs parts)
  from Cons.prems have "msg_rear m + length bs \<le> msg_end m" by simp
  then obtain m1 where m1: "msg_shl m bs = Inr m1" using msg_shl_fits [OF Cons.prems(1)] by blast
  note ok = msg_shl_ok [OF Cons.prems(1) m1]
  have "msg_rear m1 + sum_list (map length parts) \<le> msg_end m1" using Cons.prems ok by simp
  from Cons.IH [OF ok(1) this] m1 ok show ?case by (simp add: add.assoc)
qed simp

text \<open>The uninitialised bytes of a header, and a message of the pool.\<close>

definition input_ok :: "zone_input \<Rightarrow> bool" where
  "input_ok inp \<longleftrightarrow> length (zi_junk inp) = 4 \<and> msg_ok (zi_msg inp)"

lemma Echo_response_ok:
  assumes "msg_ok m" "input_ok inp" "sum_list (map length parts) \<le> 100"
  shows "\<exists>m'. Echo_response encode inp parts m = Inr m'"
proof -
  have h: "headerSize_of encode = (if encode then 5 else 1)"
    by (simp add: headerSize_of_def sizeof_stHeader_def off_sDataLen_def)
  let ?m0 = "InitMessage m"
  have ok0: "msg_ok ?m0" by (rule InitMessage_ok [OF assms(1)])
  have "msg_rear ?m0 + length (0x77 # zi_junk inp) \<le> msg_end ?m0"
    using assms(2) h by (simp add: InitMessage_def input_ok_def bufferSize_def)
  then obtain m1 where m1: "msg_shl ?m0 (0x77 # zi_junk inp) = Inr m1" using msg_shl_fits [OF ok0] by blast
  note ok1 = msg_shl_ok [OF ok0 m1]
  have r1: "msg_rear m1 = 5" "msg_end m1 = 1000" "msg_front m1 = 0"
    using ok1 assms(2) by (simp_all add: InitMessage_def input_ok_def bufferSize_def)
  have "msg_rear m1 + sum_list (map length parts) \<le> msg_end m1" using r1 h assms(3) by simp
  from shl_parts [OF ok1(1) this] obtain m2 where m2: "foldl (\<lambda>r bs. err_bind r (\<lambda>m. msg_shl m bs)) (Inr m1) parts = Inr m2"
    "msg_ok m2" "msg_rear m2 = msg_rear m1 + sum_list (map length parts)" "msg_front m2 = 0" by (auto simp: r1)
  let ?len = "word_bytes 2 (word_of_int (int (msg_rear m2) - int (msg_front m2) - int (headerSize_of encode)) :: u16)"
  have "mem_write (msg_mem m2) (msg_front m2 + off_sDataLen) ?len \<noteq> None"
    using m2(2,4) by (simp add: mem_write_def msg_ok_def MaxSize_def off_sDataLen_def)
  then obtain mem where mem: "mem_write (msg_mem m2) (msg_front m2 + off_sDataLen) ?len = Some mem" by blast
  then have len: "length mem = 2000" using m2(2) by (auto simp: mem_write_def msg_ok_def MaxSize_def split: if_splits)
  have "\<exists>m'. Echo_EnCoding (zi_RK inp) (m2\<lparr>msg_mem := mem\<rparr>) = Inr m'" if encode
    using that len m2 r1 h assms(3) by (simp add: Echo_EnCoding_def off_byCheckSum_def Let_def)
  then show ?thesis
    unfolding Echo_response_def begin_packet_def PutData_eq [OF ok0] m1 err_bind_simps m2(1) Let_def mem by simp
qed

lemma Echo_handlers:
  assumes "msg_ok m" "input_ok inp"
  shows "\<exists>m'. Echo_RES_LOGIN inp k m st a s = Inr (zcall (ZSend k m') s)"
    "\<exists>m'. Echo_REQ_ECHO inp k m a t s = Inr (zcall (ZSend k m') s)"
    "\<exists>m'. Echo_REQ_HEARTBEAT inp k m s = Inr (zcall (ZSend k m') s)"
proof -
  let ?l = "[word_bytes 2 en_PACKET_CS_GAME_RES_LOGIN, word_bytes 1 st, word_bytes 8 a]"
  let ?e = "[word_bytes 2 en_PACKET_CS_GAME_RES_ECHO, word_bytes 8 a, word_bytes 8 t]"
  let ?h = "[word_bytes 2 en_PACKET_CS_GAME_REQ_HEARTBEAT]"
  obtain m1 m2 m3 where "Echo_response (zv_encode s) inp ?l m = Inr m1" "Echo_response (zv_encode s) inp ?e m = Inr m2"
    "Echo_response (zv_encode s) inp ?h m = Inr m3"
    using Echo_response_ok [OF assms, where encode = "zv_encode s" and parts = ?l] Echo_response_ok [OF assms, where encode = "zv_encode s" and parts = ?e] Echo_response_ok [OF assms, where encode = "zv_encode s" and parts = ?h]
    by (auto simp del: length_0_conv)
  then show "\<exists>m'. Echo_RES_LOGIN inp k m st a s = Inr (zcall (ZSend k m') s)"
    "\<exists>m'. Echo_REQ_ECHO inp k m a t s = Inr (zcall (ZSend k m') s)"
    "\<exists>m'. Echo_REQ_HEARTBEAT inp k m s = Inr (zcall (ZSend k m') s)"
    by (auto simp: Echo_RES_LOGIN_def Echo_REQ_ECHO_def Echo_RES_ECHO_def Echo_REQ_HEARTBEAT_def Echo_RES_HEARTBEAT_def)
qed

lemma Echo_recv:
  assumes m: "msg_ok msg" and inp: "input_ok inp"
  shows "\<exists>s'. Echo_OnRecv z inp k msg s = Some s' \<and> zview_of s' = zview_of s \<and> keeps s s'"
proof (cases "map_of (echo_hash (zv_zones s ! z)) k")
  case None
  then show ?thesis by (simp add: Echo_OnRecv_def release_and_cut_def zone_view keeps_step keeps_refl)
next
  case (Some p)
  have cut: ?thesis if "Echo_PacketProc z inp k msg s = Some (False, s)"
    using that Some by (simp add: Echo_OnRecv_def release_and_cut_def zone_view keeps_step keeps_refl)
  have sent: ?thesis if "Echo_PacketProc z inp k msg s = Some (True, count_echo z f (zcall c s))" for f c
  proof -
    let ?s1 = "count_echo z f (zcall c s)"
    let ?s3 = "upd_zone z (\<lambda>Z. Z\<lparr>z_totalPacketCnt := z_totalPacketCnt Z + 1\<rparr>)
                      (upd_zplayer p (\<lambda>p. p\<lparr>pl_lastRecvTime := zi_now inp\<rparr>) ?s1)"
    have "zview_of ?s3 = zview_of ?s1" by (subst view_zone_same, simp, rule view_player_same, simp)
    also have "\<dots> = zview_of s" unfolding count_echo_def by (subst view_zone_same) (simp_all add: view_call)
    finally show ?thesis using that Some by (auto simp: Echo_OnRecv_def count_echo_def intro!: keeps_step keeps_refl)
  qed
  show ?thesis
  proof (rule msg_shr_cases [OF m, of 2])
    assume "msg_shr msg 2 = Inl HasNotData"
    then show ?thesis by (intro cut) (simp add: Echo_PacketProc_def caught_def)
  next
    fix w m1 assume w: "msg_shr msg 2 = Inr (w, m1)" "msg_ok m1"
    consider "bytes_word w = en_PACKET_CS_GAME_REQ_ECHO"
      | "bytes_word w \<noteq> en_PACKET_CS_GAME_REQ_ECHO" "bytes_word w = en_PACKET_CS_GAME_REQ_HEARTBEAT"
      | "bytes_word w \<noteq> en_PACKET_CS_GAME_REQ_ECHO" "bytes_word w \<noteq> en_PACKET_CS_GAME_REQ_HEARTBEAT" by blast
    then show ?thesis
    proof cases
      case 1
      show ?thesis
      proof (rule msg_shr_cases [OF w(2), of 8])
        assume "msg_shr m1 8 = Inl HasNotData"
        then show ?thesis using w 1 by (intro cut) (simp add: Echo_PacketProc_def caught_def)
      next
        fix a m2 assume a: "msg_shr m1 8 = Inr (a, m2)" "msg_ok m2"
        show ?thesis
        proof (rule msg_shr_cases [OF a(2), of 8])
          assume "msg_shr m2 8 = Inl HasNotData"
          then show ?thesis using w 1 a by (intro cut) (simp add: Echo_PacketProc_def caught_def)
        next
          fix t m3 assume t: "msg_shr m2 8 = Inr (t, m3)" "msg_ok m3"
          from Echo_handlers(2) [OF t(2) inp] obtain m' where
            "Echo_REQ_ECHO inp k m3 (bytes_word a) (bytes_word t) s = Inr (zcall (ZSend k m') s)" by blast
          then show ?thesis using w 1 a t by (intro sent) (simp add: Echo_PacketProc_def handled_def)
        qed
      qed
    next
      case 2
      from Echo_handlers(3) [OF w(2) inp] obtain m' where "Echo_REQ_HEARTBEAT inp k m1 s = Inr (zcall (ZSend k m') s)" by blast
      then show ?thesis using w 2 by (intro sent) (simp add: Echo_PacketProc_def handled_def)
    next
      case 3
      then show ?thesis using w by (intro cut) (simp add: Echo_PacketProc_def)
    qed
  qed
qed

lemma Echo_enter:
  assumes I: "zinv (zview_of s)" and q: "z_q (zv_zones s ! z) = k # q" and z: "0 < z" "z < length (zv_zones s)"
    and inp: "input_ok inp"
  shows "\<exists>s'. zone_enter z inp s = Some s' \<and> zmove (zview_of s) (zview_of s') \<and> keeps s s'"
proof -
  obtain loc where loc: "zinv_at loc (zview_of s)" using I by (auto simp: zinv_def)
  have q': "v_q (zview_of s) z = k # q" using q z by (simp add: zview_of_simps)
  have Z: "z < v_Z (zview_of s)" using z by (simp add: zview_of_simps)
  note h = zinv_head [OF loc q' Z]
  have none: "map_of (echo_hash (zv_zones s ! z)) k = None" using h(6) [OF z(1)] z(2) by (simp add: zview_of_simps)
  have "session_ok (v_Z (zview_of s)) (Queued z) (v_ply (zview_of s) (slot k)) (v_tgt (zview_of s) (slot k)) (v_alive (zview_of s) (slot k))"
    using zinv_atD(2) [OF loc h(1)] h(2) by simp
  then obtain p where p: "zs_pPlayer (zsession (slot k) s) = Some p" using z by (auto simp: session_ok_def zview_of_simps)
  let ?s1 = "upd_zone z (\<lambda>Z. Z\<lparr>z_q := q, z_sessions := z_sessions Z @ [slot k]\<rparr>) s"
  let ?s2 = "upd_zone z (\<lambda>Z. Z\<lparr>echo_hash := hash_insert k p (echo_hash Z)\<rparr>) ?s1"
  have same: "zsession i ?s1 = zsession i s" "zv_encode (zcall ZAlloc ?s2) = zv_encode s" for i by (simp_all add: zone_updates)
  have "msg_ok (zi_msg inp)" using inp by (simp add: input_ok_def)
  from Echo_handlers(1) [OF this inp, where s = "zcall ZAlloc ?s2" and k = k and st = 1 and a = "pl_AccountNo (players (zv_login ?s2) ! p)"]
  obtain m' where r: "Echo_RES_LOGIN inp k (zi_msg inp) 1 (pl_AccountNo (players (zv_login ?s2) ! p)) (zcall ZAlloc ?s2) =
      Inr (zcall (ZSend k m') (zcall ZAlloc ?s2))" by auto
  let ?s' = "upd_zplayer p (\<lambda>p. p\<lparr>pl_lastRecvTime := zi_now inp\<rparr>)
      (count_echo z (\<lambda>(a, b, c). (a + 1, b, c)) (zcall (ZSend k m') (zcall ZAlloc ?s2)))"
  have step: "zone_enter z inp s = Some ?s'"
    using q p r z by (simp add: zone_enter_def OnEnterWorld_def Echo_OnEnterWorld_def Let_def same)
  have "zview_of ?s' = zview_of ?s2"
    by (subst view_player_same, simp, unfold count_echo_def, subst view_zone_same, simp, simp add: view_call)
  also have "\<dots> = (let v = zview_of s in v\<lparr>v_q := (v_q v)(z := q), v_l := (v_l v)(z := v_l v z @ [slot k]),
      v_ech := (v_ech v)(z := (v_ech v z)(k \<mapsto> p))\<rparr>)"
    using z none by (auto simp: zview_of_def zone_updates Let_def fun_eq_iff nth_list_update map_of_hash_insert)
  finally have v: "zview_of ?s' = \<dots>" .
  have "zmove (zview_of s) (zview_of ?s')"
    unfolding v Let_def by (rule zmove.echo_in [OF z(1) Z q']) (simp add: zview_of_simps p)
  then show ?thesis unfolding step count_echo_def by (auto intro!: keeps_step keeps_refl)
qed

section \<open>The loop over the messages\<close>

lemma length_dec_at: "length (fst (dec_at RK K P E c i len p)) = length p"
proof (induction RK K P E c i len p rule: dec_at.induct)
  case (1 RK K P1 E1 csum i len p)
  then show ?case by (subst dec_at.simps) (simp add: Let_def)
qed

lemma Echo_DeCoding_total:
  assumes "msg_ok m"
  shows "\<exists>b m'. Echo_DeCoding m = Inr (b, m') \<and> msg_ok m' \<and> msg_front m' = msg_front m \<and> msg_rear m' = msg_rear m"
proof -
  have len: "length (msg_mem m) = 2000" "msg_rear m \<le> 2000" using assms by (simp_all add: msg_ok_def MaxSize_def)
  show ?thesis
  proof (cases "int (msg_rear m) - int off_byCheckSum \<le> 0 \<or> int (msg_size m) < int (msg_rear m) - int off_byCheckSum")
    case True
    then show ?thesis using assms len by (auto simp: Echo_DeCoding_def Let_def off_byRandKey_def)
  next
    case False
    let ?n = "nat (int (msg_rear m) - int off_byCheckSum)"
    obtain p c where d: "dec_at (msg_mem m ! off_byRandKey) (msg_K m) 0 0 0 1 ?n (drop off_byCheckSum (msg_mem m)) = (p, c)" by fastforce
    then have "length p = 1996" using length_dec_at [of "msg_mem m ! off_byRandKey" "msg_K m" 0 0 0 1 ?n "drop off_byCheckSum (msg_mem m)"] len
      by (simp add: off_byCheckSum_def)
    moreover have "Echo_DeCoding m = Inr (p ! 0 = ucast c, m\<lparr>msg_mem := take off_byCheckSum (msg_mem m) @ p\<rparr>)"
      using False len d by (simp add: Echo_DeCoding_def Let_def off_byRandKey_def)
    ultimately show ?thesis using assms len by (simp add: msg_ok_def MaxSize_def off_byCheckSum_def)
  qed
qed

text \<open>A message as the network library delivers it.\<close>

definition recv_msg :: "bool \<Rightarrow> CMessage \<Rightarrow> bool" where
  "recv_msg encode m \<longleftrightarrow> msg_ok m \<and> msg_front m = 0 \<and> headerSize_of encode \<le> msg_rear m"

definition buffers_ok :: "CZoneServer \<Rightarrow> bool" where
  "buffers_ok s \<longleftrightarrow> (\<forall>i<length (zv_sessions s). \<forall>m\<in>set (zs_buffer (zsession i s)). recv_msg (zv_encode s) m)"

lemma keeps_buffers: "\<lbrakk>keeps s s'; buffers_ok s\<rbrakk> \<Longrightarrow> buffers_ok s'"
  by (fastforce simp: keeps_def buffers_ok_def)

text \<open>What the packet handlers see of the first message of a session.\<close>

definition next_message :: "bool \<Rightarrow> CMessage list \<Rightarrow> CMessage option" where
  "next_message encode ms =
     (case ms of
        [] \<Rightarrow> None
      | m # _ \<Rightarrow>
          if encode then (case Echo_DeCoding m of
                            Inr (True, m') \<Rightarrow> Some (m'\<lparr>msg_front := msg_front m' + headerSize_of encode\<rparr>)
                          | _ \<Rightarrow> None)
          else Some (m\<lparr>msg_front := msg_front m + headerSize_of encode\<rparr>))"

text \<open>The login zone is about to take a login with a valid token from a session that has logged in.\<close>

definition second_login :: "nat \<Rightarrow> zone_input \<Rightarrow> CZoneServer \<Rightarrow> bool" where
  "second_login z inp s \<longleftrightarrow>
     z = 0 \<and>
     (case z_pc (zv_zones s ! z) of
        Z_recv n \<Rightarrow>
          n < length (z_sessions (zv_zones s ! z)) \<and>
          (let x = zsession (z_sessions (zv_zones s ! z) ! n) s
           in map_of (SessionID_hash (zv_login s)) (zs_SeqID x) \<noteq> None \<and>
              (case next_message (zv_encode s) (zs_buffer x) of None \<Rightarrow> False | Some m \<Rightarrow> login_request inp m))
      | _ \<Rightarrow> False)"

text \<open>
  The login zone is about to take its first session and redis cannot be reached, or it is about to take a login
  that redis gives no answer to.
\<close>

definition redis_fails :: "nat \<Rightarrow> zone_input \<Rightarrow> CZoneServer \<Rightarrow> bool" where
  "redis_fails z inp s \<longleftrightarrow>
     z = 0 \<and>
     (case z_pc (zv_zones s ! z) of
        Z_enter \<Rightarrow> z_q (zv_zones s ! z) \<noteq> [] \<and> \<not> bRedisOnce (zv_login s) \<and> \<not> zi_connect inp
      | Z_recv n \<Rightarrow>
          n < length (z_sessions (zv_zones s ! z)) \<and>
          (case next_message (zv_encode s) (zs_buffer (zsession (z_sessions (zv_zones s ! z) ! n) s)) of
             None \<Rightarrow> False | Some m \<Rightarrow> redis_request inp m)
      | _ \<Rightarrow> False)"

lemma goto_same: "zview_of (zone_goto z pc s) = zview_of s" "keeps s t \<Longrightarrow> keeps s (zone_goto z pc t)"
  by (simp_all add: zone_goto_def view_zone_same keeps_step)

lemma encode_upd_zs: "zv_encode (upd_zs i f s) = zv_encode s"
  by (simp add: upd_zs_def)

lemma recv_step:
  assumes I: "zinv (zview_of s)" and B: "buffers_ok s" and inp: "input_ok inp" and z: "z < length (zv_zones s)"
    and pc: "z_pc (zv_zones s ! z) = Z_recv n"
  shows "case zone_recv z n inp s of
           None \<Rightarrow> second_login z inp s \<or> redis_fails z inp s
         | Some s' \<Rightarrow> zmove (zview_of s) (zview_of s') \<and> keeps s s'"
proof (cases "length (z_sessions (zv_zones s ! z)) \<le> n")
  case True
  then show ?thesis by (simp add: zone_recv_def goto_same zmove.stay keeps_refl)
next
  case n: False
  obtain loc where loc: "zinv_at loc (zview_of s)" using I by (auto simp: zinv_def)
  let ?i = "z_sessions (zv_zones s ! z) ! n"
  have i: "?i \<in> set (z_sessions (zv_zones s ! z))" using n by simp
  note at = session_at [OF loc i z]
  show ?thesis
  proof (cases "zs_buffer (zsession ?i s)")
    case Nil
    then show ?thesis using n by (simp add: zone_recv_def Let_def goto_same zmove.stay keeps_refl)
  next
    case (Cons msg ms)
    let ?s1 = "upd_zs ?i (\<lambda>x. x\<lparr>zs_buffer := ms\<rparr>) s"
    let ?k = "zs_SeqID (zsession ?i ?s1)"
    have v1: "zview_of ?s1 = zview_of s" by (rule view_zs_same) simp
    have k1: "keeps s ?s1" using Cons at(1) by (auto simp: keeps_def zone_updates nth_list_update)
    have same: "zv_login ?s1 = zv_login s" "zv_zones ?s1 = zv_zones s" "zv_encode ?s1 = zv_encode s"
      "?k = zs_SeqID (zsession ?i s)" "length (zv_sessions ?s1) = length (zv_sessions s)"
      using at(1) by (simp_all add: zone_updates nth_list_update)
    have msg: "recv_msg (zv_encode s) msg" using B at(1) Cons by (simp add: buffers_ok_def)
    define dl where "dl = (\<lambda>m. zone_OnRecv z inp ?k (m\<lparr>msg_front := msg_front m + headerSize_of (zv_encode ?s1)\<rparr>) ?s1)"
    have deliver: ?thesis
      if m: "msg_ok m" "msg_front m = 0" "headerSize_of (zv_encode s) \<le> msg_rear m"
        and step: "zone_recv z n inp s = dl m"
        and next_m: "next_message (zv_encode s) (zs_buffer (zsession ?i s)) = Some (m\<lparr>msg_front := msg_front m + headerSize_of (zv_encode s)\<rparr>)" for m
    proof -
      let ?m = "m\<lparr>msg_front := msg_front m + headerSize_of (zv_encode s)\<rparr>"
      have ok: "msg_ok ?m" using m by (simp add: msg_ok_def)
      show ?thesis
      proof (cases "z = 0")
        case True
        have "case Login_OnRecv inp ?k ?m ?s1 of
           None \<Rightarrow> redis_request inp ?m \<or> login_request inp ?m \<and> map_of (SessionID_hash (zv_login ?s1)) ?k \<noteq> None
         | Some s' \<Rightarrow> zmove (zview_of ?s1) (zview_of s') \<and> keeps ?s1 s'"
          by (rule Login_recv [of loc ?s1 ?i]) (use loc v1 i True ok same in simp_all)
        moreover have "zone_recv z n inp s = Login_OnRecv inp ?k ?m ?s1" using step True by (simp add: dl_def zone_OnRecv_def encode_upd_zs)
        ultimately show ?thesis
          using n pc True next_m v1 k1 same(1,4)
          by (auto simp: second_login_def redis_fails_def Let_def simp del: not_None_eq intro: keeps_trans split: option.splits)
      next
        case False
        have "input_ok inp" using inp by (simp only: same)
        from Echo_recv [OF ok this, of z ?k] obtain s' where
          "Echo_OnRecv z inp ?k ?m ?s1 = Some s'" "zview_of s' = zview_of ?s1" "keeps ?s1 s'" by blast
        then show ?thesis using step False v1 k1 by (auto simp: dl_def zone_OnRecv_def same zmove.stay intro: keeps_trans)
      qed
    qed
    show ?thesis
    proof (cases "zv_encode s")
      case False
      then show ?thesis using deliver [of msg] msg n Cons
        by (simp add: zone_recv_def Let_def dl_def [symmetric] recv_msg_def next_message_def same dl_def)
    next
      case enc: True
      have "msg_ok msg" using msg by (simp add: recv_msg_def)
      from Echo_DeCoding_total [OF this] obtain b m where d: "Echo_DeCoding msg = Inr (b, m)" "msg_ok m" "msg_front m = msg_front msg" "msg_rear m = msg_rear msg"
        by blast
      show ?thesis
      proof (cases b)
        case True
        then show ?thesis using deliver [of m] msg n Cons enc d
          by (simp add: zone_recv_def Let_def recv_msg_def next_message_def same dl_def)
      next
        case False
        let ?s2 = "upd_zs ?i (\<lambda>x. x\<lparr>zs_blive := False\<rparr>) ?s1"
        have "zone_recv z n inp s = Some (zone_goto z (Z_recv (Suc n)) (zcall (ZFree m) ?s2))"
          using n Cons enc d False by (simp add: zone_recv_def Let_def same)
        moreover have "zview_of ?s2 = zview_of s" by (subst view_zs_same) (simp_all add: v1)
        moreover have "keeps s (zcall (ZFree m) ?s2)" by (rule keeps_step(4), rule keeps_step(9) [OF k1]) simp
        ultimately show ?thesis by (simp add: goto_same view_call zmove.stay)
      qed
    qed
  qed
qed

section \<open>Leaving a zone\<close>

lemma Login_quit:
  assumes I: "zinv_at loc (zview_of s)" and n: "n < length (z_sessions (zv_zones s ! 0))" "i = z_sessions (zv_zones s ! 0) ! n"
    and dead: "\<not> zs_alive (zsession i s)"
  shows "\<exists>s'. zone_sweep 0 n inp s = Some s' \<and> zmove (zview_of s) (zview_of s') \<and> keeps s s'"
proof -
  note D = zinv_atD [OF I]
  have Z: "0 < length (zv_zones s)" using D(6) by (auto simp: zview_of_simps)
  have i: "i \<in> set (z_sessions (zv_zones s ! 0))" using n by simp
  note at = session_at [OF I i Z]
  let ?k = "zs_SeqID (zsession i s)" and ?l = "zv_login s"
  have "v_pre (zview_of s) (v_sid (zview_of s) i) \<noteq> None" using zinv_member(4) [OF I at(3)] Z by (simp add: zview_of_simps)
  then obtain p where p: "map_of (prePlayer_hash ?l) ?k = Some p" by (auto simp: zview_of_simps)
  have np: "p < length (players ?l)" and id: "pl_SessionID (players ?l ! p) = ?k"
  proof -
    have "p < length (players ?l) \<and> player_id (players ?l) p = ?k"
      using D(4) p unfolding players_ok_def zview_of_simps by blast
    then show "p < length (players ?l)" "pl_SessionID (players ?l ! p) = ?k" by (auto simp: player_id_def split: if_splits)
  qed
  have accp: "o' < length (players ?l)" if "map_of (Account_hash ?l) a = Some o'" for a o'
    using D(4,5) that unfolding players_ok_def accounts_ok_def zview_of_simps by blast
  let ?A = "pl_AccountNo (players ?l ! p)"
  let ?dup = "map_of (SessionID_hash ?l) ?k \<noteq> None \<and>
      (\<exists>o'. map_of (Account_hash ?l) ?A = Some o' \<and> ?k = pl_SessionID (players ?l ! o'))"
  define l1 where "l1 = ?l\<lparr>prePlayer_hash := AList.delete ?k (prePlayer_hash ?l), Auth_SessionCnt := length (AList.delete ?k (prePlayer_hash ?l))\<rparr>"
  define l2 where "l2 = (if map_of (SessionID_hash l1) ?k = None then l1
                    else let l = l1\<lparr>SessionID_hash := AList.delete ?k (SessionID_hash l1)\<rparr>
                      in case map_of (Account_hash l) ?A of
                           None \<Rightarrow> l
                         | Some other \<Rightarrow>
                             if ?k = pl_SessionID (players l ! other)
                             then let acc = AList.delete ?A (Account_hash l)
                                  in l\<lparr>Account_hash := acc, User_SessionCnt := length acc\<rparr>
                             else l)"
  let ?s1 = "s\<lparr>zv_login := l2\<lparr>players := (players l2)[p := (players l2 ! p)\<lparr>pl_SessionID := 0, pl_AccountNo := 0\<rparr>],
      player_free := p # player_free l2\<rparr>\<rparr>"
  have dis: "OnDisConnect 0 ?k s = Some ?s1"
    unfolding OnDisConnect_def Login_OnDisConnect_def l2_def l1_def Let_def using p id by simp
  have l2: "map_of (prePlayer_hash l2) = (map_of (prePlayer_hash ?l))(?k := None)"
    "map_of (SessionID_hash l2) = (map_of (SessionID_hash ?l))(?k := None)"
    "players l2 = players ?l" "player_free l2 = player_free ?l"
    "map_of (Account_hash l2) = (if ?dup then (map_of (Account_hash ?l))(?A := None) else map_of (Account_hash ?l))"
    by (auto simp: l2_def l1_def Let_def delete_conv split: option.splits)
  let ?s2 = "upd_zone 0 (\<lambda>Z. Z\<lparr>z_count := z_count Z - 1\<rparr>) (erase_session 0 n ?s1)"
  have step: "zone_sweep 0 n inp s = Some (zone_ReleaseSession i ?s2)"
    using n dead dis by (simp add: zone_sweep_def Let_def)
  have drop: "drop_account (zview_of s) ?k p = map_of (Account_hash l2)"
  proof -
    have "?dup \<longleftrightarrow> v_sh (zview_of s) ?k \<noteq> None \<and>
        (\<exists>o'. v_acc (zview_of s) (v_pacc (zview_of s) p) = Some o' \<and> v_psid (zview_of s) o' = ?k)"
      using accp np by (auto simp: zview_of_simps player_id_def player_acc_def)
    then show ?thesis using np by (auto simp: drop_account_def l2(5) zview_of_simps player_acc_def)
  qed
  have "zview_of (zone_ReleaseSession i ?s2) = (let v = zview_of s in
      v\<lparr>v_stack := i # v_stack v, v_l := (v_l v)(0 := cut_nth n (v_l v 0)), v_ply := (v_ply v)(i := None),
      v_pre := (v_pre v)(?k := None), v_sh := (v_sh v)(?k := None), v_acc := drop_account v ?k p,
      v_psid := (v_psid v)(p := 0), v_pacc := (v_pacc v)(p := 0), v_free := p # v_free v\<rparr>)"
    unfolding drop Let_def using at Z np
    by (auto simp: zview_of_def zone_updates zone_ReleaseSession_def drain_ZoneBuffer_def erase_session_def Let_def
      fun_eq_iff nth_list_update l2(1-4) player_upd cut_nth_def)
  moreover have "zmove (zview_of s) \<dots>"
    unfolding Let_def by (rule zmove.quit) (use n dead Z p in \<open>simp_all add: zview_of_simps\<close>)
  moreover have "keeps s (zone_ReleaseSession i ?s2)"
    by (auto simp: zone_ReleaseSession_def drain_ZoneBuffer_def erase_session_def Let_def intro!: keeps_step keeps_refl)
  ultimately show ?thesis unfolding step by simp
qed

lemma Login_leave:
  assumes I: "zinv_at loc (zview_of s)" and n: "n < length (z_sessions (zv_zones s ! 0))" "i = z_sessions (zv_zones s ! 0) ! n"
    and alive: "zs_alive (zsession i s)" "zs_zone (zsession i s) \<noteq> 0" "\<not> zi_late inp"
  shows "\<exists>s'. zone_sweep 0 n inp s = Some s' \<and> zmove (zview_of s) (zview_of s') \<and> keeps s s'"
proof -
  note D = zinv_atD [OF I]
  have Z: "0 < length (zv_zones s)" using D(6) by (auto simp: zview_of_simps)
  have i: "i \<in> set (z_sessions (zv_zones s ! 0))" using n by simp
  note at = session_at [OF I i Z]
  let ?k = "zs_SeqID (zsession i s)" and ?l = "zv_login s" and ?t = "zs_zone (zsession i s)"
  have m: "v_pre (zview_of s) (v_sid (zview_of s) i) \<noteq> None" "loc i = Listed 0" using zinv_member(2,4) [OF I at(3)] Z by (simp_all add: zview_of_simps)
  then have p: "map_of (prePlayer_hash ?l) ?k \<noteq> None" by (simp add: zview_of_simps)
  have t: "?t < length (zv_zones s)" using D(2) [of i] at(1) m(2) by (simp add: session_ok_def zview_of_simps)
  let ?s1 = "erase_session 0 n (drain_ZoneBuffer i s)"
  let ?s2 = "upd_login (\<lambda>l. let pre = AList.delete ?k (prePlayer_hash l) in l\<lparr>prePlayer_hash := pre, Auth_SessionCnt := length pre\<rparr>) ?s1"
  let ?s' = "upd_zone 0 (\<lambda>Z. Z\<lparr>z_count := z_count Z - 1\<rparr>) (zone_Push ?t ?k ?s2)"
  have same: "zv_login (erase_session 0 n (drain_ZoneBuffer j s)) = ?l" for j by (simp add: erase_session_def drain_ZoneBuffer_def zone_updates)
  have step: "zone_sweep 0 n inp s = Some ?s'"
    using n alive p by (simp add: zone_sweep_def Let_def OnLeaveWorld_def Login_OnLeaveWorld_def same)
  have "zview_of ?s' = zview_of (zone_Push ?t ?k ?s2)" by (rule view_zone_same) simp
  also have "\<dots> = (let v = zview_of s in v\<lparr>v_l := (v_l v)(0 := cut_nth n (v_l v 0)), v_q := (v_q v)(v_tgt v i := v_q v (v_tgt v i) @ [?k]),
      v_pre := (v_pre v)(?k := None)\<rparr>)"
    using at Z t alive by (auto simp: zview_of_def zone_updates drain_ZoneBuffer_def erase_session_def zone_Push_def Let_def
      fun_eq_iff nth_list_update cut_nth_def delete_conv)
  finally have v: "zview_of ?s' = \<dots>" .
  have "zmove (zview_of s) (zview_of ?s')"
    unfolding v unfolding Let_def by (rule zmove.leave) (use n alive Z in \<open>simp_all add: zview_of_simps\<close>)
  moreover have "keeps s ?s'"
    by (auto simp: drain_ZoneBuffer_def erase_session_def zone_Push_def Let_def intro!: keeps_step keeps_refl)
  ultimately show ?thesis unfolding step by simp
qed

lemma Echo_quit:
  assumes I: "zinv_at loc (zview_of s)" and z: "0 < z" "z < length (zv_zones s)"
    and n: "n < length (z_sessions (zv_zones s ! z))" "i = z_sessions (zv_zones s ! z) ! n"
    and dead: "\<not> zs_alive (zsession i s)"
  shows "\<exists>s'. zone_sweep z n inp s = Some s' \<and> zmove (zview_of s) (zview_of s') \<and> keeps s s'"
proof -
  note D = zinv_atD [OF I]
  have i: "i \<in> set (z_sessions (zv_zones s ! z))" using n by simp
  note at = session_at [OF I i z(2)]
  let ?k = "zs_SeqID (zsession i s)" and ?t = "zs_zone (zsession i s)"
  have Z: "z < v_Z (zview_of s)" using z by (simp add: zview_of_simps)
  have m: "loc i = Listed z" "map_of (echo_hash (zv_zones s ! z)) ?k = zs_pPlayer (zsession i s)"
    using zinv_member(2) [OF I at(3) Z] zinv_member(6) [OF I at(3) Z z(1)] z by (simp_all add: zview_of_simps)
  have "session_ok (v_Z (zview_of s)) (Listed z) (zs_pPlayer (zsession i s)) ?t (zs_alive (zsession i s))"
    using D(2) [of i] at(1) m(1) by (simp add: zview_of_simps)
  then have t: "?t < length (zv_zones s)" and "zs_pPlayer (zsession i s) \<noteq> None"
    using z by (auto simp: session_ok_def)
  then obtain p where p: "zs_pPlayer (zsession i s) = Some p" by blast
  let ?s1 = "upd_zone z (\<lambda>Z. Z\<lparr>echo_hash := AList.delete ?k (echo_hash Z)\<rparr>) s"
  have same: "zsession j ?s1 = zsession j s" "length (zv_sessions ?s1) = length (zv_sessions s)" "length (zv_zones ?s1) = length (zv_zones s)"
    for j by (simp_all add: zone_updates)
  have "zs_SeqID (zsession (slot ?k) ?s1) = ?k" "slot ?k < length (zv_sessions ?s1)" using at(1,2) same by simp_all
  from move_to_login [OF this, of p] obtain s2 where s2: "RequeseMoveZone ?k 0 p ?s1 = Some s2"
    "zview_of s2 = (let v = zview_of ?s1 in v\<lparr>v_ply := (v_ply v)(slot ?k \<mapsto> p), v_tgt := (v_tgt v)(slot ?k := 0)\<rparr>)"
    "keeps ?s1 s2" "zv_zones s2 = zv_zones ?s1" by blast
  let ?s' = "zone_Push ?t ?k (upd_zone z (\<lambda>Z. Z\<lparr>z_count := z_count Z - 1\<rparr>) (erase_session z n s2))"
  have step: "zone_sweep z n inp s = Some ?s'"
    using n dead z m(2) p s2(1) by (simp add: zone_sweep_def Let_def OnDisConnect_def Echo_OnDisConnect_def)
  have len: "length (zv_zones s2) = length (zv_zones s)" by (simp add: s2(4) zone_updates)
  have z2: "z_sessions (zv_zones s2 ! z) = z_sessions (zv_zones s ! z)" "echo_hash (zv_zones s2 ! z) = AList.delete ?k (echo_hash (zv_zones s ! z))"
    "z_q (zv_zones s2 ! j) = z_q (zv_zones s ! j)" for j
    using z(2) by (auto simp: s2(4) zone_updates nth_list_update)
  have "zview_of ?s' = (let v = zview_of s2 in v\<lparr>v_l := (v_l v)(z := cut_nth n (z_sessions (zv_zones s ! z))),
      v_q := (v_q v)(?t := z_q (zv_zones s ! ?t) @ [?k])\<rparr>)"
    using t z len z2 by (auto simp: zview_of_def zone_updates erase_session_def zone_Push_def Let_def fun_eq_iff nth_list_update cut_nth_def)
  also have "\<dots> = (let v = zview_of s in v\<lparr>v_l := (v_l v)(z := cut_nth n (v_l v z)), v_q := (v_q v)(v_tgt v i := v_q v (v_tgt v i) @ [?k]),
      v_ply := (v_ply v)(i \<mapsto> p), v_tgt := (v_tgt v)(i := 0), v_ech := (v_ech v)(z := (v_ech v z)(?k := None))\<rparr>)"
    unfolding s2(2) using at t z by (auto simp: zview_of_def zone_updates Let_def fun_eq_iff nth_list_update delete_conv)
  finally have v: "zview_of ?s' = \<dots>" .
  have "zmove (zview_of s) (zview_of ?s')"
    unfolding v Let_def by (rule zmove.echo_out [OF z(1) Z]) (use n dead z m(2) p in \<open>simp_all add: zview_of_simps\<close>)
  moreover have "keeps s ?s'"
    unfolding zone_Push_def erase_session_def by (intro keeps_step) (rule keeps_trans [OF _ s2(3)], rule keeps_upd)
  ultimately show ?thesis unfolding step by simp
qed

section \<open>A step of a zone thread\<close>

lemma sweep_step:
  assumes I: "zinv (zview_of s)" and z: "z < length (zv_zones s)" and pc: "z_pc (zv_zones s ! z) = Z_sweep n"
  shows "\<exists>s'. zone_sweep z n inp s = Some s' \<and> zmove (zview_of s) (zview_of s') \<and> keeps s s'"
proof -
  obtain loc where loc: "zinv_at loc (zview_of s)" using I by (auto simp: zinv_def)
  let ?i = "z_sessions (zv_zones s ! z) ! n"
  consider "length (z_sessions (zv_zones s ! z)) \<le> n" | "n < length (z_sessions (zv_zones s ! z))" by linarith
  then show ?thesis
  proof cases
    case 1
    then show ?thesis by (auto simp: zone_sweep_def goto_same keeps_refl intro: zmove.stay)
  next
    case n: 2
    then have i: "?i \<in> set (z_sessions (zv_zones s ! z))" by simp
    note at = session_at [OF loc i z]
    have l: "loc ?i = Listed z" using zinv_member(2) [OF loc at(3)] z by (simp add: zview_of_simps)
    have ok: "session_ok (v_Z (zview_of s)) (Listed z) (zs_pPlayer (zsession ?i s)) (zs_zone (zsession ?i s)) (zs_alive (zsession ?i s))"
      using zinv_atD(2) [OF loc, of ?i] at(1) l by (simp add: zview_of_simps)
    consider "\<not> zs_alive (zsession ?i s)" "z = 0" | "\<not> zs_alive (zsession ?i s)" "0 < z"
      | "zs_alive (zsession ?i s)" "zs_zone (zsession ?i s) = z"
      | "zs_alive (zsession ?i s)" "zs_zone (zsession ?i s) \<noteq> z" "zi_late inp"
      | "zs_alive (zsession ?i s)" "zs_zone (zsession ?i s) \<noteq> z" "\<not> zi_late inp" by blast
    then show ?thesis
    proof cases
      case 1
      then show ?thesis using Login_quit [OF loc _ refl, of n inp] n by (auto intro: zmove.stay)
    next
      case 2
      then show ?thesis using Echo_quit [OF loc _ z n refl, of inp] by (auto intro: zmove.stay)
    next
      case 3
      then show ?thesis using n by (auto simp: zone_sweep_def Let_def goto_same keeps_refl intro: zmove.stay)
    next
      case 4
      let ?s1 = "upd_zs ?i (\<lambda>x. x\<lparr>zs_alive := False\<rparr>) s"
      have "zview_of ?s1 = (zview_of s)\<lparr>v_alive := (v_alive (zview_of s))(?i := False)\<rparr>"
        using at(1) by (auto simp: zview_of_def zone_updates Let_def fun_eq_iff nth_list_update)
      then have "zmove (zview_of s) (zview_of ?s1)" using zmove.die by simp
      moreover have "keeps s ?s1" by (rule keeps_upd) simp
      ultimately show ?thesis using 4 n by (auto simp: zone_sweep_def Let_def goto_same intro: zmove.stay)
    next
      case 5
      with ok have "z = 0" by (auto simp: session_ok_def split: if_splits)
      then show ?thesis using Login_leave [OF loc _ refl, of n inp] n 5 by (auto intro: zmove.stay)
    qed
  qed
qed

lemma zone_turn:
  assumes I: "zinv (zview_of s)" and B: "buffers_ok s" and inp: "input_ok inp" and z: "z < length (zv_zones s)"
  shows "case ZoneThread z inp s of
           None \<Rightarrow> second_login z inp s \<or> redis_fails z inp s
         | Some s' \<Rightarrow> zmove (zview_of s) (zview_of s') \<and> keeps s s'"
proof -
  have done_: ?thesis if "ZoneThread z inp s = Some s'" "zmove (zview_of s) (zview_of s')" "keeps s s'" for s'
    using that by simp
  show ?thesis
  proof (cases "z_pc (zv_zones s ! z)")
    case Z_enter
    show ?thesis
    proof (cases "z_q (zv_zones s ! z)")
      case Nil
      then show ?thesis by (intro done_ [of "zone_goto z (Z_recv 0) s"]) (simp_all add: ZoneThread_def zone_enter_def Z_enter goto_same keeps_refl zmove.stay)
    next
      case (Cons k q)
      have "(\<exists>s'. zone_enter z inp s = Some s' \<and> zmove (zview_of s) (zview_of s') \<and> keeps s s') \<or> redis_fails z inp s"
        using Login_enter [OF I, of k q inp] Echo_enter [OF I Cons _ z inp] Cons Z_enter by (cases "z = 0") (auto simp: redis_fails_def)
      then consider "redis_fails z inp s" | s' where "zone_enter z inp s = Some s'" "zmove (zview_of s) (zview_of s')" "keeps s s'" by blast
      then show ?thesis
      proof cases
        case 1
        then have z0: "z = 0" and c: "\<not> bRedisOnce (zv_login s)" "\<not> zi_connect inp" by (simp_all add: redis_fails_def Z_enter)
        have "ZoneThread z inp s = None"
          using z0 c Cons Z_enter by (simp add: ZoneThread_def zone_enter_def OnEnterWorld_def Login_OnEnterWorld_def Login_connect_def zone_updates Let_def)
        with 1 show ?thesis by simp
      qed (intro done_, simp_all add: ZoneThread_def Z_enter)
    qed
  next
    case (Z_recv n)
    have r: "case zone_recv z n inp s of None \<Rightarrow> second_login z inp s \<or> redis_fails z inp s | Some s' \<Rightarrow> zmove (zview_of s) (zview_of s') \<and> keeps s s'"
      by (rule recv_step [OF I B inp z Z_recv])
    have e: "ZoneThread z inp s = zone_recv z n inp s" by (simp add: ZoneThread_def Z_recv)
    show ?thesis
    proof (cases "zone_recv z n inp s")
      case None
      then show ?thesis using r e by simp
    next
      case (Some s')
      then show ?thesis using r e done_ [of s'] by auto
    qed
  next
    case Z_update
    let ?s1 = "OnUpdate z inp s"
    have "zview_of ?s1 = zview_of s" "keeps s ?s1"
      by (simp_all add: OnUpdate_def Login_OnUpdate_def Echo_OnUpdate_def cut_idle_def view_calls keeps_upd)
    then show ?thesis by (intro done_ [of "zone_goto z (Z_sweep 0) ?s1"]) (simp_all add: ZoneThread_def Z_update goto_same zmove.stay)
  next
    case (Z_sweep n)
    from sweep_step [OF I z Z_sweep, of inp] obtain s' where "zone_sweep z n inp s = Some s'"
      "zmove (zview_of s) (zview_of s')" "keeps s s'" by blast
    then show ?thesis by (intro done_ [of s']) (simp_all add: ZoneThread_def Z_sweep)
  qed
qed

end
