(* ===== verification/ZoneProps.thy ===== *)
theory ZoneProps
  imports ZoneRef
begin

text \<open>
  What holds of every reachable state of the zone server of the echo game, and two runs that show what
  its traps and counters do.
\<close>

section \<open>Runs\<close>

datatype zone_event = Z_accept zone_accepting | Z_message u64 CMessage | Z_release u64 | Z_turn nat zone_input

fun zone_step :: "zone_event \<Rightarrow> CZoneServer \<Rightarrow> CZoneServer option" where
  "zone_step (Z_accept a) s = zone_accept a s"
| "zone_step (Z_message k m) s = Some (zone_message k m s)"
| "zone_step (Z_release k) s = Some (zone_OnRelease k s)"
| "zone_step (Z_turn z inp) s = ZoneThread z inp s"

text \<open>
  What may happen: the counter of identifiers has not wrapped, the network library delivers whole frames
  to slots that exist, and a thread belongs to a zone.
\<close>

fun event_ok :: "zone_event \<Rightarrow> CZoneServer \<Rightarrow> bool" where
  "event_ok (Z_accept a) s = (unat (zv_next s) < 2 ^ 47)"
| "event_ok (Z_message k m) s = (slot k < length (zv_sessions s) \<and> recv_msg (zv_encode s) m)"
| "event_ok (Z_release k) s = (slot k < length (zv_sessions s))"
| "event_ok (Z_turn z inp) s = (z < length (zv_zones s) \<and> input_ok inp)"

inductive zone_reaches :: "bool \<Rightarrow> nat \<Rightarrow> CZoneServer \<Rightarrow> bool" for enc n where
  start: "n \<le> 2 ^ 17 \<Longrightarrow> zone_reaches enc n (new_CZoneServer enc n)"
| step: "\<lbrakk>zone_reaches enc n s; event_ok e s; zone_step e s = Some s'\<rbrakk> \<Longrightarrow> zone_reaches enc n s'"

fun zone_run :: "zone_event list \<Rightarrow> CZoneServer \<Rightarrow> CZoneServer option" where
  "zone_run [] s = Some s"
| "zone_run (e # es) s =
     (if event_ok e s then (case zone_step e s of None \<Rightarrow> None | Some s' \<Rightarrow> zone_run es s') else None)"

lemma zone_run_reaches: "\<lbrakk>zone_reaches enc n s; zone_run es s = Some s'\<rbrakk> \<Longrightarrow> zone_reaches enc n s'"
proof (induction es arbitrary: s)
  case (Cons e es)
  then show ?case by (auto split: if_splits option.splits intro: zone_reaches.step)
qed simp

section \<open>The invariant\<close>

lemma start_inv:
  shows "zinv (zview_of (new_CZoneServer enc n))" and "buffers_ok (new_CZoneServer enc n)"
proof -
  let ?s = "new_CZoneServer enc n" and ?loc = "\<lambda>_. Free"
  have v: "zview_of ?s = \<lparr>v_n = n, v_Z = 2, v_stack = rev [0..<n], v_q = \<lambda>_. [], v_l = \<lambda>_. [],
     v_sid = \<lambda>i. zs_SeqID (zsession i ?s), v_ply = \<lambda>i. zs_pPlayer (zsession i ?s), v_tgt = \<lambda>i. zs_zone (zsession i ?s),
     v_alive = \<lambda>i. zs_alive (zsession i ?s), v_pre = Map.empty, v_sh = Map.empty, v_acc = Map.empty,
     v_ech = \<lambda>_. Map.empty, v_np = 0, v_psid = player_id [], v_pacc = player_acc [], v_free = [], v_lost = []\<rparr>"
    by (auto simp: zview_of_def new_CZoneServer_def ReQuestCreateZone_def new_clsLoginZone_def new_ZoneSet_def fun_eq_iff less_Suc_eq Let_def zsession_def)
  have ply: "zs_pPlayer (zsession i ?s) = None" "zs_buffer (zsession i ?s) = []" if "i < n" for i
    using that by (simp_all add: new_CZoneServer_def ReQuestCreateZone_def zsession_def new_zone_session_def)
  show "buffers_ok ?s" using ply(2) by (simp add: buffers_ok_def new_CZoneServer_def ReQuestCreateZone_def zsession_def new_zone_session_def)
  have "zinv_at ?loc (zview_of ?s)"
    unfolding zinv_at_def v by (auto simp: zplaces_ok_def queue_ok_def list_ok_def session_ok_def tables_ok_def key_ok_def players_ok_def accounts_ok_def lost_ok_def ply)
  then show "zinv (zview_of ?s)" by (auto simp: zinv_def)
qed

lemma accept_step:
  assumes "zinv (zview_of s)" "length (zv_sessions s) \<le> 2 ^ 17" "unat (zv_next s) < 2 ^ 47" and acc: "zone_accept a s = Some s'"
  shows "zmove (zview_of s) (zview_of s') \<and> keeps (s\<lparr>zv_lost := zv_lost s'\<rparr>) s'"
proof (cases "zv_stack s")
  case Nil
  then have s': "s' = zcall ZRefuse s" using acc by (simp add: zone_accept_def)
  moreover have "s\<lparr>zv_lost := zv_lost s'\<rparr> = s" by (simp add: s' zcall_def)
  ultimately show ?thesis using keeps_upd(4) by (simp add: view_call zmove.stay)
next
  case (Cons i st)
  obtain loc where loc: "zinv_at loc (zview_of s)" using assms(1) by (auto simp: zinv_def)
  have i: "i < length (zv_sessions s)" and Z: "0 < length (zv_zones s)"
  proof -
    have "i \<in> set (v_stack (zview_of s))" by (simp add: zview_of_simps Cons)
    then show "i < length (zv_sessions s)" unfolding zplaces_okD(6) [OF zinv_atD(1) [OF loc]] by (simp add: zview_of_simps)
    show "0 < length (zv_zones s)" using zinv_atD(6) [OF loc] by (auto simp: zview_of_simps)
  qed
  let ?k = "push_bit 47 (of_nat i) + zv_next s"
  have k: "slot ?k = i" using slot_SeqID [of i "zv_next s"] i assms(2,3) by simp
  have keep: "keeps (s\<lparr>zv_lost := zv_lost s'\<rparr>) s'"
    using acc Cons i k by (auto simp: keeps_def zone_accept_def zone_OnAccept_def zone_Push_def zone_updates Let_def nth_list_update split: if_splits)
  show ?thesis
  proof (cases "za_assoc a")
    case True
    then have "zview_of s' = (let v = zview_of s in v\<lparr>v_stack := st, v_q := (v_q v)(0 := v_q v 0 @ [?k]), v_sid := (v_sid v)(i := ?k),
        v_tgt := (v_tgt v)(i := 0), v_alive := (v_alive v)(i := True)\<rparr>)"
      using acc Cons i Z k
      by (auto simp: zone_accept_def zone_OnAccept_def zone_Push_def zview_of_def zone_updates Let_def fun_eq_iff nth_list_update split: if_splits)
    moreover have "zmove (zview_of s) \<dots>"
      unfolding Let_def by (rule zmove.accept) (use Cons k i in \<open>simp_all add: zview_of_simps\<close>)
    ultimately show ?thesis using keep by simp
  next
    case False
    then have "zview_of s' = (let v = zview_of s in v\<lparr>v_stack := st, v_sid := (v_sid v)(i := ?k), v_alive := (v_alive v)(i := True),
        v_lost := i # v_lost v\<rparr>)"
      using acc Cons i by (auto simp: zone_accept_def zview_of_def zone_updates Let_def fun_eq_iff nth_list_update split: if_splits)
    moreover have "zmove (zview_of s) \<dots>"
      unfolding Let_def by (rule zmove.lose) (use Cons k i in \<open>simp_all add: zview_of_simps\<close>)
    ultimately show ?thesis using keep by simp
  qed
qed

lemma event_step:
  assumes I: "zinv (zview_of s)" "buffers_ok s" "length (zv_sessions s) \<le> 2 ^ 17" and e: "event_ok e s" "zone_step e s = Some s'"
  shows "zmove (zview_of s) (zview_of s')" "buffers_ok s'" "length (zv_sessions s') = length (zv_sessions s)" "zv_encode s' = zv_encode s"
proof -
  have "zmove (zview_of s) (zview_of s') \<and> buffers_ok s' \<and> length (zv_sessions s') = length (zv_sessions s) \<and> zv_encode s' = zv_encode s"
  proof (cases e)
    case (Z_accept a)
    then show ?thesis using accept_step [OF I(1,3), of a s'] e keeps_buffers [of "s\<lparr>zv_lost := zv_lost s'\<rparr>" s'] I(2)
      by (auto simp: keeps_def buffers_ok_def zsession_def)
  next
    case (Z_message k m)
    have "zview_of s' = zview_of s" using e Z_message by (auto simp: zone_message_def view_zs_same)
    moreover have "buffers_ok s'"
      using I(2) e Z_message
      by (auto simp: buffers_ok_def zone_message_def zone_updates nth_list_update split: if_splits)
    ultimately show ?thesis using e Z_message by (auto simp: zone_message_def upd_zs_def zmove.stay)
  next
    case (Z_release k)
    then have "zview_of s' = (zview_of s)\<lparr>v_alive := (v_alive (zview_of s))(slot k := False)\<rparr>"
      using e by (auto simp: zone_OnRelease_def zview_of_def zone_updates Let_def fun_eq_iff nth_list_update)
    moreover have "keeps s s'" using e Z_release by (auto simp: zone_OnRelease_def intro!: keeps_upd)
    ultimately show ?thesis using keeps_buffers [OF _ I(2)] zmove.die by (auto simp: keeps_def)
  next
    case (Z_turn z inp)
    from zone_turn [OF I(1,2), of inp z] e Z_turn keeps_buffers [OF _ I(2), of s'] show ?thesis by (auto simp: keeps_def)
  qed
  then show "zmove (zview_of s) (zview_of s')" "buffers_ok s'" "length (zv_sessions s') = length (zv_sessions s)" "zv_encode s' = zv_encode s"
    by auto
qed

lemma reaches_inv:
  assumes "zone_reaches enc n s"
  shows "zinv (zview_of s) \<and> buffers_ok s \<and> length (zv_sessions s) \<le> 2 ^ 17 \<and> zv_encode s = enc \<and> length (zv_sessions s) = n"
  using assms
proof induction
  case start
  then show ?case using start_inv by (simp add: new_CZoneServer_def ReQuestCreateZone_def)
next
  case (step s e s')
  then show ?case using event_step [of s e s'] zmove_zinv by metis
qed

section \<open>The zone threads\<close>

lemma second_login_stops:
  assumes "zone_reaches enc n s" "z < length (zv_zones s)" and L: "second_login z inp s"
  shows "ZoneThread z inp s = None"
proof -
  note R = reaches_inv [OF assms(1)]
  then have I: "zinv (zview_of s)" by auto
  show ?thesis
  proof (cases "z_pc (zv_zones s ! z)")
    case (Z_recv m)
    let ?i = "z_sessions (zv_zones s ! z) ! m"
    let ?x = "zsession ?i s"
    from L Z_recv obtain msg where z: "z = 0" and m: "m < length (z_sessions (zv_zones s ! z))"
      and sh: "map_of (SessionID_hash (zv_login s)) (zs_SeqID ?x) \<noteq> None"
      and next_m: "next_message (zv_encode s) (zs_buffer ?x) = Some msg" and req: "login_request inp msg"
      by (auto simp: second_login_def Let_def simp del: not_None_eq split: option.splits)
    obtain loc where loc: "zinv_at loc (zview_of s)" using I by (auto simp: zinv_def)
    have i: "?i \<in> set (z_sessions (zv_zones s ! 0))" using m z by simp
    have Z: "0 < length (zv_zones s)" using assms(2) by linarith
    note at = session_at [OF loc i Z]
    have "v_pre (zview_of s) (v_sid (zview_of s) ?i) \<noteq> None" using zinv_member(4) [OF loc at(3)] Z by (simp add: zview_of_simps)
    then obtain p where p: "map_of (prePlayer_hash (zv_login s)) (zs_SeqID ?x) = Some p" by (auto simp: zview_of_simps)
    from next_m obtain m0 ms where b: "zs_buffer ?x = m0 # ms" by (cases "zs_buffer ?x") (auto simp: next_message_def)
    let ?s1 = "upd_zs ?i (\<lambda>x. x\<lparr>zs_buffer := ms\<rparr>) s"
    have same: "zv_login ?s1 = zv_login s" "zs_SeqID (zsession ?i ?s1) = zs_SeqID ?x"
      using at(1) z by (simp_all add: zone_updates nth_list_update)
    have "Login_OnRecv inp (zs_SeqID ?x) msg ?s1 = None"
    proof -
      from req obtain w m1 a m2 key m3 where r: "msg_shr msg 2 = Inr (w, m1)" "bytes_word w = en_PACKET_CS_GAME_REQ_LOGIN"
        "msg_shr m1 8 = Inr (a, m2)" "GetData m2 64 = Inr (key, m3)" "token_ok inp (bytes_word a) key"
      proof -
        obtain w m1 where 1: "msg_shr msg 2 = Inr (w, m1)" using req by (cases "msg_shr msg 2") (auto simp: login_request_def)
        obtain a m2 where 2: "msg_shr m1 8 = Inr (a, m2)" using req 1 by (cases "msg_shr m1 8") (auto simp: login_request_def)
        obtain key m3 where 3: "GetData m2 64 = Inr (key, m3)" using req 1 2 by (cases "GetData m2 64") (auto simp: login_request_def)
        show ?thesis using req 1 2 3 by (intro that) (auto simp: login_request_def)
      qed
      have "Login_REQ_LOGIN inp (zs_SeqID ?x) m3 (bytes_word a) key ?s1 = None"
        using p sh r(5) by (auto simp: Login_REQ_LOGIN_def Let_def same zone_updates simp del: not_None_eq split: option.splits)
      then show ?thesis using r p by (simp add: Login_OnRecv_def Login_PacketProc_def same)
    qed
    then have "zone_recv z m inp s = None"
      using next_m b m z same encode_upd_zs
      by (auto simp: zone_recv_def next_message_def zone_OnRecv_def Let_def split: sum.splits bool.splits)
    then show ?thesis by (simp add: ZoneThread_def Z_recv)
  qed (use L in \<open>simp_all add: second_login_def\<close>)
qed

text \<open>An answer redis does not give stops the login zone.\<close>

lemma redis_fails_stops:
  assumes "zone_reaches enc n s" "z < length (zv_zones s)" and L: "redis_fails z inp s"
  shows "ZoneThread z inp s = None"
proof -
  have I: "zinv (zview_of s)" using reaches_inv [OF assms(1)] by auto
  show ?thesis
  proof (cases "z_pc (zv_zones s ! z)")
    case Z_enter
    with L obtain k q where "z = 0" "z_q (zv_zones s ! z) = k # q" "\<not> bRedisOnce (zv_login s)" "\<not> zi_connect inp"
      by (cases "z_q (zv_zones s ! z)") (auto simp: redis_fails_def)
    with Z_enter show ?thesis
      by (simp add: ZoneThread_def zone_enter_def OnEnterWorld_def Login_OnEnterWorld_def Login_connect_def zone_updates Let_def)
  next
    case (Z_recv m)
    let ?i = "z_sessions (zv_zones s ! z) ! m"
    let ?x = "zsession ?i s"
    from L Z_recv obtain msg where z: "z = 0" and m: "m < length (z_sessions (zv_zones s ! z))"
      and next_m: "next_message (zv_encode s) (zs_buffer ?x) = Some msg" and req: "redis_request inp msg"
      by (auto simp: redis_fails_def Let_def split: option.splits)
    obtain loc where loc: "zinv_at loc (zview_of s)" using I by (auto simp: zinv_def)
    have i: "?i \<in> set (z_sessions (zv_zones s ! 0))" using m z by simp
    have Z: "0 < length (zv_zones s)" using assms(2) by linarith
    note at = session_at [OF loc i Z]
    have "v_pre (zview_of s) (v_sid (zview_of s) ?i) \<noteq> None" using zinv_member(4) [OF loc at(3)] Z by (simp add: zview_of_simps)
    then obtain p where p: "map_of (prePlayer_hash (zv_login s)) (zs_SeqID ?x) = Some p" by (auto simp: zview_of_simps)
    from next_m obtain m0 ms where b: "zs_buffer ?x = m0 # ms" by (cases "zs_buffer ?x") (auto simp: next_message_def)
    let ?s1 = "upd_zs ?i (\<lambda>x. x\<lparr>zs_buffer := ms\<rparr>) s"
    have same: "zv_login ?s1 = zv_login s" "zs_SeqID (zsession ?i ?s1) = zs_SeqID ?x"
      using at(1) z by (simp_all add: zone_updates nth_list_update)
    have "Login_OnRecv inp (zs_SeqID ?x) msg ?s1 = None"
    proof -
      obtain w m1 where 1: "msg_shr msg 2 = Inr (w, m1)" using req by (cases "msg_shr msg 2") (auto simp: redis_request_def)
      obtain a m2 where 2: "msg_shr m1 8 = Inr (a, m2)" using req 1 by (cases "msg_shr m1 8") (auto simp: redis_request_def)
      obtain key m3 where 3: "GetData m2 64 = Inr (key, m3)" using req 1 2 by (cases "GetData m2 64") (auto simp: redis_request_def)
      show ?thesis using req p 1 2 3
        by (simp add: redis_request_def Login_OnRecv_def Login_PacketProc_def Login_REQ_LOGIN_def Let_def same)
    qed
    then have "zone_recv z m inp s = None"
      using next_m b m z same encode_upd_zs
      by (auto simp: zone_recv_def next_message_def zone_OnRecv_def Let_def split: sum.splits bool.splits)
    then show ?thesis by (simp add: ZoneThread_def Z_recv)
  qed (use L in \<open>simp_all add: redis_fails_def\<close>)
qed

text \<open>
  C18: In every reachable state the thread of a zone stops, at a trap, an uncaught exception or an access
  outside a message, exactly when it is the thread of the login zone and either redis throws, because it cannot be
  reached for the first session or has no answer for a login, or the next message is a login request, with a valid
  token, of a session that has logged in. All the other traps of the zones are out of reach, and no message makes an
  echo zone stop.
\<close>

theorem zone_stops_iff:
  assumes "zone_reaches enc n s" "z < length (zv_zones s)" "input_ok inp"
  shows "ZoneThread z inp s = None \<longleftrightarrow> second_login z inp s \<or> redis_fails z inp s"
proof
  from reaches_inv [OF assms(1)] assms(3) have "zinv (zview_of s)" "buffers_ok s" "input_ok inp" by auto
  from zone_turn [OF this assms(2)] show "second_login z inp s \<or> redis_fails z inp s" if "ZoneThread z inp s = None" using that by simp
qed (use second_login_stops [OF assms(1,2)] redis_fails_stops [OF assms(1,2)] in blast)

text \<open>
  C19: The zone server implements the transition system of the places and tables: whatever happens in a
  reachable state, a connection that is accepted, refused or cannot be associated with the completion port, a
  message, a released session or a step of a zone thread, is a move of it.
\<close>

theorem zone_server_refines:
  assumes "zone_reaches enc n s" "event_ok e s" "zone_step e s = Some s'"
  shows "zmove (zview_of s) (zview_of s')"
  using reaches_inv [OF assms(1)] event_step(1) [of s e s'] assms(2,3) by blast

section \<open>Places and tables\<close>

definition zone_slots :: "ZoneSet \<Rightarrow> nat list" where
  "zone_slots Z = map slot (z_q Z) @ z_sessions Z"

definition all_slots :: "CZoneServer \<Rightarrow> nat list" where
  "all_slots s = zv_stack s @ concat (map zone_slots (zv_zones s)) @ zv_lost s"

text \<open>Only a failed association loses a slot, and a lost slot stays lost.\<close>

definition loses :: "zone_event \<Rightarrow> CZoneServer \<Rightarrow> bool" where
  "loses e s \<longleftrightarrow> (case e of Z_accept a \<Rightarrow> \<not> za_assoc a \<and> zv_stack s \<noteq> [] | _ \<Rightarrow> False)"

lemma loses_iff:
  assumes "zone_reaches enc n s" "event_ok e s" "zone_step e s = Some s'"
  shows "if loses e s then zv_stack s = hd (zv_stack s) # zv_stack s' \<and> zv_lost s' = hd (zv_stack s) # zv_lost s
    else zv_lost s' = zv_lost s"
proof (cases e)
  case (Z_accept a)
  then show ?thesis using assms(3)
    by (cases "zv_stack s") (auto simp: loses_def zone_accept_def zone_OnAccept_def zone_Push_def Let_def upd_zs_def upd_zone_def zcall_def split: if_splits)
next
  case (Z_turn z inp)
  note R = reaches_inv [OF assms(1)]
  from zone_turn [of s inp z] R Z_turn assms(2,3) have "keeps s s'" by auto
  then show ?thesis using Z_turn by (simp add: loses_def keeps_def)
qed (use assms(3) in \<open>auto simp: loses_def zone_message_def zone_OnRelease_def upd_zs_def\<close>)

lemma distinct_concat_map:
  assumes "\<And>z. z < length xs \<Longrightarrow> distinct (f (xs ! z))"
    and "\<And>z w. \<lbrakk>z < w; w < length xs\<rbrakk> \<Longrightarrow> set (f (xs ! z)) \<inter> set (f (xs ! w)) = {}"
  shows "distinct (concat (map f xs))"
  using assms
proof (induction xs)
  case (Cons x xs)
  have "distinct (concat (map f xs))"
    by (rule Cons.IH) (use Cons.prems(1) [of "Suc _"] Cons.prems(2) [of "Suc _" "Suc _"] in auto)
  moreover have "set (f x) \<inter> set (f y) = {}" if "y \<in> set xs" for y
    using that Cons.prems(2) [of 0 "Suc _"] by (auto simp: in_set_conv_nth)
  moreover have "distinct (f x)" using Cons.prems(1) [of 0] by simp
  ultimately show ?case by auto
qed simp

text \<open>
  C20: No slot of the server is used twice, and one is lost in one way only: in every reachable state each slot occurs
  exactly once in the stack of free slots, the queues and the lists of the zones, and the slots that a failed
  association has left; a failed association takes the first free slot there, where nothing brings it back, and nothing
  else does.
\<close>

theorem zone_slots_once:
  assumes "zone_reaches enc n s"
  shows "distinct (all_slots s) \<and> set (all_slots s) = {..<n} \<and>
    (\<forall>e s'. event_ok e s \<and> zone_step e s = Some s' \<longrightarrow>
      (if loses e s then zv_stack s = hd (zv_stack s) # zv_stack s' \<and> zv_lost s' = hd (zv_stack s) # zv_lost s
       else zv_lost s' = zv_lost s))"
proof -
  note R = reaches_inv [OF assms]
  obtain loc where loc: "zinv_at loc (zview_of s)" using R by (auto simp: zinv_def)
  note P = zplaces_okD [OF zinv_atD(1) [OF loc]]
  have n: "v_n (zview_of s) = n" using R by (simp add: zview_of_simps)
  let ?z = "\<lambda>z. zone_slots (zv_zones s ! z)"
  have set_z: "set (?z z) = {i. i < n \<and> (loc i = Queued z \<or> loc i = Listed z)}" and dist_z: "distinct (?z z)"
    if "z < length (zv_zones s)" for z
  proof -
    have "queue_ok loc n (v_sid (zview_of s)) z (z_q (zv_zones s ! z))" "list_ok loc n z (z_sessions (zv_zones s ! z))"
      using P(1,2) [of z] that n by (simp_all add: zview_of_simps)
    then show "set (?z z) = {i. i < n \<and> (loc i = Queued z \<or> loc i = Listed z)}" "distinct (?z z)"
      by (auto simp: queue_ok_def list_ok_def zone_slots_def)
  qed
  have stack: "set (zv_stack s) = {i. i < n \<and> loc i = Free}" "distinct (zv_stack s)"
    using P(5,6) n by (simp_all add: zview_of_simps)
  have zones: "set (concat (map zone_slots (zv_zones s))) = {i. i < n \<and> loc i \<noteq> Free \<and> loc i \<noteq> Lost}"
  proof -
    have "i \<in> set (concat (map zone_slots (zv_zones s))) \<longleftrightarrow> (\<exists>z<length (zv_zones s). i \<in> set (?z z))" for i
      by simp (metis in_set_conv_nth)
    also have "\<dots> i \<longleftrightarrow> i < n \<and> loc i \<noteq> Free \<and> loc i \<noteq> Lost" for i
    proof
      assume "i < n \<and> loc i \<noteq> Free \<and> loc i \<noteq> Lost"
      then obtain z where "loc i = Queued z \<or> loc i = Listed z" "z < length (zv_zones s)" "i < n"
        using P(4) [of i] n by (cases "loc i") (auto simp: zview_of_simps)
      then show "\<exists>z<length (zv_zones s). i \<in> set (?z z)" using set_z by blast
    qed (use set_z in auto)
    finally show ?thesis by blast
  qed
  have "distinct (concat (map zone_slots (zv_zones s)))"
    by (rule distinct_concat_map) (use set_z dist_z in auto)
  moreover have "set (zv_lost s) = {i. i < n \<and> loc i = Lost}" "distinct (zv_lost s)"
    using zinv_atD(7) [OF loc] n by (simp_all add: lost_ok_def zview_of_simps)
  ultimately show ?thesis using stack zones loses_iff [OF assms] by (auto simp: all_slots_def)
qed

text \<open>
  C21: The tables of the zones agree. In every reachable state a session in the list of an echo zone has a
  player, which the zone and the login zone both know under its identifier, and which is in use and bears
  that identifier; the players in use are told apart by the identifiers they bear; and the player
  registered for an account is that of a logged in session and bears that account.
\<close>

theorem zone_tables_agree:
  assumes "zone_reaches enc n s"
  shows "(\<forall>z i. 0 < z \<and> z < length (zv_zones s) \<and> i \<in> set (z_sessions (zv_zones s ! z)) \<longrightarrow>
      (\<exists>p. zs_pPlayer (zsession i s) = Some p \<and> map_of (echo_hash (zv_zones s ! z)) (zs_SeqID (zsession i s)) = Some p \<and>
           map_of (SessionID_hash (zv_login s)) (zs_SeqID (zsession i s)) = Some p)) \<and>
    (\<forall>k p. map_of (prePlayer_hash (zv_login s)) k = Some p \<or> map_of (SessionID_hash (zv_login s)) k = Some p \<longrightarrow>
      p < length (players (zv_login s)) \<and> p \<notin> set (player_free (zv_login s)) \<and> pl_SessionID (players (zv_login s) ! p) = k) \<and>
    (\<forall>a p. map_of (Account_hash (zv_login s)) a = Some p \<longrightarrow>
      pl_AccountNo (players (zv_login s) ! p) = a \<and> (\<exists>k. map_of (SessionID_hash (zv_login s)) k = Some p))"
proof -
  obtain loc where loc: "zinv_at loc (zview_of s)" using reaches_inv [OF assms] by (auto simp: zinv_def)
  note D = zinv_atD [OF loc]
  have players: "p < length (players (zv_login s)) \<and> p \<notin> set (player_free (zv_login s)) \<and> pl_SessionID (players (zv_login s) ! p) = k"
    if "map_of (prePlayer_hash (zv_login s)) k = Some p \<or> map_of (SessionID_hash (zv_login s)) k = Some p" for k p
  proof -
    have "p < length (players (zv_login s)) \<and> p \<notin> set (player_free (zv_login s)) \<and> player_id (players (zv_login s)) p = k"
      using D(4) that unfolding players_ok_def zview_of_simps by blast
    then show ?thesis by (auto simp: player_id_def split: if_splits)
  qed
  have accounts: "pl_AccountNo (players (zv_login s) ! p) = a \<and> (\<exists>k. map_of (SessionID_hash (zv_login s)) k = Some p)"
    if "map_of (Account_hash (zv_login s)) a = Some p" for a p
  proof -
    have "player_acc (players (zv_login s)) p = a \<and> (\<exists>k. map_of (SessionID_hash (zv_login s)) k = Some p)"
      using D(5) that unfolding accounts_ok_def zview_of_simps by blast
    moreover from this players have "p < length (players (zv_login s))" by blast
    ultimately show ?thesis by (auto simp: player_acc_def)
  qed
  have echo: "\<exists>p. zs_pPlayer (zsession i s) = Some p \<and> map_of (echo_hash (zv_zones s ! z)) (zs_SeqID (zsession i s)) = Some p \<and>
           map_of (SessionID_hash (zv_login s)) (zs_SeqID (zsession i s)) = Some p"
    if z: "0 < z" "z < length (zv_zones s)" and i: "i \<in> set (z_sessions (zv_zones s ! z))" for z i
  proof -
    note at = session_at [OF loc i z(2)]
    have Z: "z < v_Z (zview_of s)" using z(2) by (simp add: zview_of_simps)
    note m = zinv_member [OF loc at(3) Z]
    have "zs_pPlayer (zsession i s) \<noteq> None"
      using D(2) [OF m(1)] m(2) z(1) by (simp add: session_ok_def zview_of_simps)
    then show ?thesis using m(5) zinv_member(6) [OF loc at(3) Z z(1)] z by (auto simp: zview_of_simps)
  qed
  show ?thesis using players accounts echo by blast
qed

section \<open>A client that logs in twice\<close>

definition sample_zone_input :: zone_input where
  "sample_zone_input = \<lparr>zi_now = 5, zi_connect = True, zi_redis = (\<lambda>a. Redis_null), zi_junk = [1, 2, 3, 4], zi_RK = 9, zi_msg = new_CMessage 4096 0,
     zi_player = \<lparr>pl_AccountNo = 0, pl_SessionID = 0, pl_lastRecvTime = 0\<rparr>, zi_late = False\<rparr>"

definition sample_login :: CMessage where
  "sample_login = (new_CMessage 4096 0)\<lparr>msg_mem := 0x77 # word_bytes 2 en_PACKET_CS_GAME_REQ_LOGIN @ word_bytes 8 (7 :: u64) @ replicate 1989 0,
     msg_rear := 75\<rparr>"

text \<open>An accepted connection that can be associated.\<close>

definition good_accept :: zone_event where
  "good_accept = Z_accept \<lparr>za_dirty = False, za_assoc = True\<rparr>"

text \<open>One client that sends its login packet twice.\<close>

definition login_twice :: "zone_event list" where
  "login_twice = [good_accept, Z_message 0 sample_login, Z_message 0 sample_login,
     Z_turn 0 sample_zone_input, Z_turn 0 sample_zone_input, Z_turn 0 sample_zone_input]"

lemma sample_login:
  "recv_msg False sample_login" "msg_front sample_login = 0" "input_ok sample_zone_input"
  "msg_shr (sample_login\<lparr>msg_front := Suc 0\<rparr>) 2 = Inr (word_bytes 2 en_PACKET_CS_GAME_REQ_LOGIN, sample_login\<lparr>msg_front := 3\<rparr>)"
  "msg_shr (sample_login\<lparr>msg_front := 3\<rparr>) 8 = Inr (word_bytes 8 (7 :: u64), sample_login\<lparr>msg_front := 11\<rparr>)"
  "GetData (sample_login\<lparr>msg_front := 11\<rparr>) 64 = Inr (replicate 64 0, sample_login\<lparr>msg_front := 75\<rparr>)"
proof -
  have len: "length (word_bytes 2 en_PACKET_CS_GAME_REQ_LOGIN) = 2" "length (word_bytes 8 (7 :: u64)) = 8"
    by simp_all
  have h: "headerSize_of False = 1" by (simp add: headerSize_of_def off_sDataLen_def)
  show "recv_msg False sample_login" "msg_front sample_login = 0" "input_ok sample_zone_input"
    by (simp_all add: recv_msg_def sample_login_def msg_ok_def new_CMessage_def MaxSize_def bufferSize_def h input_ok_def sample_zone_input_def)
  show "msg_shr (sample_login\<lparr>msg_front := Suc 0\<rparr>) 2 = Inr (word_bytes 2 en_PACKET_CS_GAME_REQ_LOGIN, sample_login\<lparr>msg_front := 3\<rparr>)"
    by (simp add: sample_login_def msg_shr_def mem_read_def)
  show "msg_shr (sample_login\<lparr>msg_front := 3\<rparr>) 8 = Inr (word_bytes 8 (7 :: u64), sample_login\<lparr>msg_front := 11\<rparr>)"
    by (simp add: sample_login_def msg_shr_def mem_read_def drop_Cons')
  show "GetData (sample_login\<lparr>msg_front := 11\<rparr>) 64 = Inr (replicate 64 0, sample_login\<lparr>msg_front := 75\<rparr>)"
    by (simp add: sample_login_def GetData_def mem_read_def drop_Cons')
qed


lemma sample_proc:
  "Login_PacketProc sample_zone_input k (sample_login\<lparr>msg_front := Suc 0\<rparr>) s =
    (case Login_REQ_LOGIN sample_zone_input k (sample_login\<lparr>msg_front := 75\<rparr>) 7 (replicate 64 0) s of
       None \<Rightarrow> None | Some s1 \<Rightarrow> Some (True, upd_login (\<lambda>l. l\<lparr>login_msgTypeCnt := login_msgTypeCnt l + 1\<rparr>) s1))"
  by (simp add: Login_PacketProc_def sample_login)

lemma sample_token: "token_ok sample_zone_input a key" "zi_redis sample_zone_input a = Redis_null" "zi_connect sample_zone_input"
  by (simp_all add: token_ok_def sample_zone_input_def)


lemmas zone_start = new_CZoneServer_def ReQuestCreateZone_def new_zone_session_def new_ZoneSet_def new_clsLoginZone_def

lemma sample_not_late: "\<not> zi_late sample_zone_input" by (simp add: sample_zone_input_def)

text \<open>What evaluates a run of the sample client.\<close>

lemmas zone_eval = zone_start good_accept_def zone_accept_def zone_OnAccept_def zone_Push_def zone_message_def zone_OnRelease_def zone_updates slot_def Let_def
  ZoneThread_def zone_enter_def OnEnterWorld_def Login_OnEnterWorld_def Login_connect_def Login_register_def player_Alloc_def hash_insert_def
  zone_goto_def zone_recv_def zone_OnRecv_def Login_OnRecv_def Login_REQ_LOGIN_def headerSize_of_def off_sDataLen_def
  RequeseMoveZone_def EchoMaxUser_def OnUpdate_def Login_OnUpdate_def cut_idle_def zone_sweep_def drain_ZoneBuffer_def erase_session_def
  OnLeaveWorld_def Login_OnLeaveWorld_def sample_login sample_proc sample_token Echo_OnEnterWorld_def count_echo_def
  Echo_OnUpdate_def sample_not_late OnDisConnect_def Echo_OnDisConnect_def Login_OnDisConnect_def zone_ReleaseSession_def

definition logged_in :: CZoneServer where
  "logged_in = the (zone_run login_twice (new_CZoneServer False 1))"

lemma logged_in:
  "zone_run login_twice (new_CZoneServer False 1) = Some logged_in \<and> second_login 0 sample_zone_input logged_in \<and>
   length (zv_zones logged_in) = 2 \<and> SessionID_hash (zv_login logged_in) = [(0, 0)] \<and> Account_hash (zv_login logged_in) = [(7, 0)]"
proof -
  have "\<exists>s. zone_run login_twice (new_CZoneServer False 1) = Some s \<and> second_login 0 sample_zone_input s \<and>
    length (zv_zones s) = 2 \<and> SessionID_hash (zv_login s) = [(0, 0)] \<and> Account_hash (zv_login s) = [(7, 0)]"
    by (simp add: login_twice_def zone_eval second_login_def next_message_def login_request_def)
  then show ?thesis by (auto simp: logged_in_def)
qed

lemma logged_in_reached: "zone_reaches False 1 logged_in"
  using zone_run_reaches [OF zone_reaches.start] logged_in by auto

text \<open>
  A client that sends its login packet twice at once stops the login zone, and with it the server:
  the first packet logs the session in, and the second, which the loop reads before the sweep has moved
  the session, runs into the trap.
\<close>

theorem login_twice_stops:
  "\<exists>s. zone_run login_twice (new_CZoneServer False 1) = Some s \<and> ZoneThread 0 sample_zone_input s = None"
  using logged_in second_login_stops [OF logged_in_reached, of 0 sample_zone_input] by (intro exI [of _ logged_in]) simp

theorem zone_stops_iff_witness:
  "(ZoneThread 0 sample_zone_input logged_in = None \<longleftrightarrow> second_login 0 sample_zone_input logged_in \<or> redis_fails 0 sample_zone_input logged_in) \<and>
   second_login 0 sample_zone_input logged_in"
  by (intro conjI zone_stops_iff [OF logged_in_reached]) (use logged_in sample_login in simp_all)

theorem zone_server_refines_witness: "zmove (zview_of logged_in) (zview_of (zone_OnRelease 0 logged_in))"
proof -
  have "length (zv_sessions logged_in) = 1" using reaches_inv [OF logged_in_reached] by simp
  then have "event_ok (Z_release 0) logged_in" by (simp add: slot_def)
  then show ?thesis by (rule zone_server_refines [OF logged_in_reached]) simp
qed

text \<open>The only slot of a server goes to a connection that cannot be associated.\<close>

theorem zone_slots_once_witness:
  "distinct (all_slots logged_in) \<and> set (all_slots logged_in) = {0} \<and>
   (\<exists>s. zone_step (Z_accept \<lparr>za_dirty = False, za_assoc = False\<rparr>) (new_CZoneServer False 1) = Some s \<and> zv_stack s = [] \<and> zv_lost s = [0])"
proof -
  let ?e = "Z_accept \<lparr>za_dirty = False, za_assoc = False\<rparr>" and ?n = "new_CZoneServer False 1"
  have e: "event_ok ?e ?n" "loses ?e ?n" "zv_stack ?n = [0]" "zv_lost ?n = []" "zone_step ?e ?n \<noteq> None"
    by (simp_all add: zone_start loses_def zone_accept_def Let_def)
  then obtain s where s: "zone_step ?e ?n = Some s" by blast
  have r: "zone_reaches False 1 ?n" by (rule zone_reaches.start) simp
  note zone_slots_once [OF r, THEN conjunct2, THEN conjunct2, rule_format, OF conjI [OF e(1) s]]
  then have "zv_stack s = []" "zv_lost s = [0]" using e(2-4) by simp_all
  moreover have "distinct (all_slots logged_in)" "set (all_slots logged_in) = {0}"
    using zone_slots_once [OF logged_in_reached] by (simp_all add: lessThan_Suc)
  ultimately show ?thesis using s by blast
qed

theorem zone_tables_agree_witness:
  "pl_SessionID (players (zv_login logged_in) ! 0) = 0 \<and> pl_AccountNo (players (zv_login logged_in) ! 0) = 7"
  using zone_tables_agree [OF logged_in_reached] logged_in by auto

end
