(* ===== verification/EchoZone.thy ===== *)
theory EchoZone
  imports ZoneProps
begin

text \<open>What an echo zone answers, and how a session whose connection has closed leaves it.\<close>

section \<open>Responses\<close>

lemma Echo_response_eq:
  "Echo_response encode inp parts m =
     err_bind (begin_packet (zi_junk inp) m) (\<lambda>m.
     err_bind (foldl (\<lambda>r bs. err_bind r (\<lambda>m. msg_shl m bs)) (Inr m) parts) (end_packet encode (zi_RK inp)))"
  unfolding Echo_response_def end_packet_def [abs_def] Echo_EnCoding_eq Let_def by (rule refl)

lemma foldl_Inl: "foldl (\<lambda>r bs. err_bind r (\<lambda>m. msg_shl m bs)) (Inl e) parts = Inl e"
  by (induction parts) simp_all

lemma builds_parts:
  assumes "building m1 (msg_K m) (0x77 # junk @ p)" "length junk = 4" "length p + sum_list (map length parts) \<le> 995"
  shows "builds m RK (p @ concat parts) (err_bind (foldl (\<lambda>r bs. err_bind r (\<lambda>m. msg_shl m bs)) (Inr m1) parts) (end_packet True RK))"
  using assms(1,3)
proof (induction parts arbitrary: m1 p)
  case Nil
  then show ?case using builds_end [OF Nil(1) assms(2)] by simp
next
  case (Cons bs parts)
  from Cons.prems building_chain [OF Cons.prems(1) assms(2), of bs] obtain m2 where
    m2: "msg_shl m1 bs = Inr m2" "building m2 (msg_K m) (0x77 # junk @ (p @ bs))" by auto
  from Cons.IH [OF m2(2)] Cons.prems(2) m2(1) show ?case by simp
qed

lemma Echo_response_builds:
  assumes "msg_ok m" "length (zi_junk inp) = 4" "sum_list (map length parts) \<le> 995"
  shows "builds m (zi_RK inp) (concat parts) (Echo_response True inp parts m)"
  unfolding Echo_response_eq
  by (rule builds_begin [OF assms(1,2)], drule builds_parts [OF _ assms(2), of _ _ _ parts]) (use assms(3) in simp_all)

lemma msg_shr_word:
  assumes "msg_ok m" "msg_data m = bs @ rest"
  shows "\<exists>m'. msg_shr m (length bs) = Inr (bs, m') \<and> msg_ok m' \<and> msg_data m' = rest \<and> msg_K m' = msg_K m"
proof -
  have "msg_shr m (length bs) = Inr (bs, m\<lparr>msg_front := msg_front m + length bs\<rparr>)" using assms by (simp add: msg_shr_eq)
  moreover note msg_shr_ok [OF assms(1) this]
  ultimately show ?thesis using assms(2) by simp
qed

text \<open>The packets of the echo zone that have an answer, and their answers.\<close>

definition echo_request :: "u64 \<Rightarrow> u64 \<Rightarrow> u8 list" where
  "echo_request AccountNo SendTick = word_bytes 2 en_PACKET_CS_GAME_REQ_ECHO @ word_bytes 8 AccountNo @ word_bytes 8 SendTick"

definition echo_answer :: "u64 \<Rightarrow> u64 \<Rightarrow> u8 list" where
  "echo_answer AccountNo SendTick = word_bytes 2 en_PACKET_CS_GAME_RES_ECHO @ word_bytes 8 AccountNo @ word_bytes 8 SendTick"

text \<open>
  An echo zone answers an echo request of a session it knows with one frame, which carries the account
  and the tick of the request, and notes the time; the request may have anything behind it. The message of
  the request is used for the answer.
\<close>

theorem echo_answered:
  assumes "map_of (echo_hash (zv_zones s ! z)) k = Some p" "zv_encode s" "input_ok inp"
    and "msg_ok msg" "msg_data msg = echo_request a t @ rest"
  shows "\<exists>m s'. Echo_OnRecv z inp k msg s = Some s' \<and> zv_calls s' = zv_calls s @ [ZSend k m] \<and>
    msg_frame m = wire_frame (msg_K msg) (zi_RK inp) (echo_answer a t) \<and>
    players (zv_login s') = (players (zv_login s))[p := (players (zv_login s) ! p)\<lparr>pl_lastRecvTime := zi_now inp\<rparr>]"
proof -
  have "msg_data msg = word_bytes 2 en_PACKET_CS_GAME_REQ_ECHO @ (word_bytes 8 a @ (word_bytes 8 t @ rest))"
    using assms(5) by (simp add: echo_request_def)
  from msg_shr_word [OF assms(4) this] obtain m1 where
    m1: "msg_shr msg 2 = Inr (word_bytes 2 en_PACKET_CS_GAME_REQ_ECHO, m1)" "msg_ok m1" "msg_data m1 = word_bytes 8 a @ (word_bytes 8 t @ rest)"
      "msg_K m1 = msg_K msg" by auto
  from msg_shr_word [OF m1(2,3)] obtain m2 where
    m2: "msg_shr m1 8 = Inr (word_bytes 8 a, m2)" "msg_ok m2" "msg_data m2 = word_bytes 8 t @ rest" "msg_K m2 = msg_K m1" by auto
  from msg_shr_word [OF m2(2,3)] obtain m3 where
    m3: "msg_shr m2 8 = Inr (word_bytes 8 t, m3)" "msg_ok m3" "msg_K m3 = msg_K m2" by auto
  let ?parts = "[word_bytes 2 en_PACKET_CS_GAME_RES_ECHO, word_bytes 8 a, word_bytes 8 t]"
  have junk: "length (zi_junk inp) = 4" using assms(3) by (simp add: input_ok_def)
  from Echo_response_builds [OF m3(2) junk, of ?parts] obtain m where
    m: "Echo_response True inp ?parts m3 = Inr m" "msg_frame m = wire_frame (msg_K msg) (zi_RK inp) (echo_answer a t)"
    by (auto simp: builds_def echo_answer_def m1(4) m2(4) m3(3))
  let ?s1 = "count_echo z (\<lambda>(a, b, c). (a, b + 1, c)) (zcall (ZSend k m) s)"
  have "Echo_PacketProc z inp k msg s = Some (True, ?s1)"
    using m1(1) m2(1) m3(1) m(1) assms(2) by (simp add: Echo_PacketProc_def handled_def Echo_REQ_ECHO_def Echo_RES_ECHO_def)
  then have "Echo_OnRecv z inp k msg s = Some (upd_zone z (\<lambda>Z. Z\<lparr>z_totalPacketCnt := z_totalPacketCnt Z + 1\<rparr>)
                      (upd_zplayer p (\<lambda>p. p\<lparr>pl_lastRecvTime := zi_now inp\<rparr>) ?s1))"
    using assms(1) by (simp add: Echo_OnRecv_def)
  with m(2) show ?thesis by (intro exI [of _ m]) (simp add: zone_updates count_echo_def)
qed

section \<open>Leaving an echo zone\<close>

text \<open>
  A session whose connection has closed does not leave an echo zone at once. The sweep reads the
  target of the session before it sets the target to the login zone, so the first sweep puts the session
  back into the queue of the echo zone it is in, which will answer its login a second time, and only a
  second sweep hands it to the login zone. Each of the two takes one off the number of sessions of the
  zone, which one login has raised by one.
\<close>

theorem dead_session_goes_round:
  assumes "zone_reaches enc n s" and z: "0 < z" "z < length (zv_zones s)" and pc: "z_pc (zv_zones s ! z) = Z_sweep m"
    and m: "m < length (z_sessions (zv_zones s ! z))" "i = z_sessions (zv_zones s ! z) ! m" and dead: "\<not> zs_alive (zsession i s)"
  shows "\<exists>s'. ZoneThread z inp s = Some s' \<and> zs_zone (zsession i s') = 0 \<and> z_count (zv_zones s' ! z) = z_count (zv_zones s ! z) - 1 \<and>
    zs_zone (zsession i s) \<in> {z, 0} \<and>
    z_q (zv_zones s' ! zs_zone (zsession i s)) = z_q (zv_zones s ! zs_zone (zsession i s)) @ [zs_SeqID (zsession i s)]"
proof -
  obtain loc where loc: "zinv_at loc (zview_of s)" using reaches_inv [OF assms(1)] by (auto simp: zinv_def)
  have i: "i \<in> set (z_sessions (zv_zones s ! z))" using m by simp
  note at = session_at [OF loc i z(2)]
  let ?k = "zs_SeqID (zsession i s)" and ?t = "zs_zone (zsession i s)"
  have Z: "z < v_Z (zview_of s)" using z by (simp add: zview_of_simps)
  have l: "loc i = Listed z" "map_of (echo_hash (zv_zones s ! z)) ?k = zs_pPlayer (zsession i s)"
    using zinv_member(2) [OF loc at(3) Z] zinv_member(6) [OF loc at(3) Z z(1)] z by (simp_all add: zview_of_simps)
  have "session_ok (v_Z (zview_of s)) (Listed z) (zs_pPlayer (zsession i s)) ?t (zs_alive (zsession i s))"
    using zinv_atD(2) [OF loc, of i] at(1) l(1) by (simp add: zview_of_simps)
  then have t: "?t = z \<or> ?t = 0" and "zs_pPlayer (zsession i s) \<noteq> None" using z by (auto simp: session_ok_def)
  then obtain p where p: "zs_pPlayer (zsession i s) = Some p" by blast
  have Z0: "0 < length (zv_zones s)" using z by linarith
  let ?s1 = "upd_zone z (\<lambda>Z. Z\<lparr>echo_hash := AList.delete ?k (echo_hash Z)\<rparr>) s"
  let ?s2 = "upd_zs i (\<lambda>x. x\<lparr>zs_zone := 0\<rparr>) (upd_zs i (\<lambda>x. x\<lparr>zs_pPlayer := Some p\<rparr>) ?s1)"
  let ?s' = "zone_Push ?t ?k (upd_zone z (\<lambda>Z. Z\<lparr>z_count := z_count Z - 1\<rparr>) (erase_session z m ?s2))"
  have "RequeseMoveZone ?k 0 p ?s1 = Some ?s2"
    using at(2) by (simp add: RequeseMoveZone_def Let_def zone_updates)
  then have "ZoneThread z inp s = Some ?s'"
    using m dead z l(2) p pc by (simp add: ZoneThread_def zone_sweep_def Let_def OnDisConnect_def Echo_OnDisConnect_def)
  moreover have "zs_zone (zsession i ?s') = 0" using at(1) by (simp add: zone_Push_def erase_session_def zone_updates nth_list_update)
  moreover have "z_count (zv_zones ?s' ! z) = z_count (zv_zones s ! z) - 1"
    using z by (simp add: zone_Push_def erase_session_def zone_updates nth_list_update)
  moreover have "z_q (zv_zones ?s' ! ?t) = z_q (zv_zones s ! ?t) @ [?k]"
    using t z Z0 by (auto simp: zone_Push_def erase_session_def zone_updates nth_list_update)
  ultimately show ?thesis using t by auto
qed

section \<open>One client\<close>

text \<open>A client logs in, is moved to the echo zone and closes its connection; and what follows.\<close>

definition login_and_close :: "zone_event list" where
  "login_and_close =
     (let t = Z_turn 0 sample_zone_input; u = Z_turn 1 sample_zone_input
      in [good_accept, Z_message 0 sample_login, t, t, t, t, t, t, t, u, Z_release 0, u, u, u, u])"

definition and_gone :: "zone_event list" where
  "and_gone =
     (let t = Z_turn 0 sample_zone_input; u = Z_turn 1 sample_zone_input
      in [u, u, u, u, u, u, u, u, t, t, t, t, t, t, t])"

definition login_response :: CMessage where
  "login_response = (case Echo_response False sample_zone_input
      [word_bytes 2 en_PACKET_CS_GAME_RES_LOGIN, word_bytes 1 (1 :: u8), word_bytes 8 (7 :: u64)] (zi_msg sample_zone_input) of Inr m \<Rightarrow> m)"

lemma login_response: "Echo_RES_LOGIN sample_zone_input k (zi_msg sample_zone_input) 1 7 s = Inr (zcall (ZSend k login_response) s)" if "\<not> zv_encode s"
proof -
  have "msg_ok (zi_msg sample_zone_input)" using sample_login(3) by (simp add: input_ok_def)
  from Echo_response_ok [OF this sample_login(3), where encode = "zv_encode s" and parts = "[word_bytes 2 en_PACKET_CS_GAME_RES_LOGIN, word_bytes 1 (1 :: u8), word_bytes 8 (7 :: u64)]"]
  show ?thesis using that by (auto simp: Echo_RES_LOGIN_def login_response_def)
qed

text \<open>
  After one client has come, logged in, and gone, its slot and its player are free again and the tables
  and queues are empty, but its login has been answered twice, and the numbers of sessions that the login
  zone balances the echo zones by are wrong: below zero for each zone it went through.
\<close>

theorem one_client_leaves_counts:
  "\<exists>s. zone_run (login_and_close @ and_gone) (new_CZoneServer False 1) = Some s \<and> zv_stack s = [0] \<and>
    map z_q (zv_zones s) = [[], []] \<and> map z_sessions (zv_zones s) = [[], []] \<and> SessionID_hash (zv_login s) = [] \<and>
    Account_hash (zv_login s) = [] \<and> player_free (zv_login s) = [0] \<and> map z_count (zv_zones s) = [-2, -1] \<and>
    filter (\<lambda>c. case c of ZSend _ _ \<Rightarrow> True | _ \<Rightarrow> False) (zv_calls s) = [ZSend 0 login_response, ZSend 0 login_response]"
  by (simp add: login_and_close_def and_gone_def zone_eval login_response)

lemma closed_client:
  "\<exists>s. zone_run login_and_close (new_CZoneServer False 1) = Some s \<and> length (zv_zones s) = 2 \<and> z_pc (zv_zones s ! 1) = Z_sweep 0 \<and>
   z_sessions (zv_zones s ! 1) = [0] \<and> \<not> zs_alive (zsession 0 s) \<and> zs_zone (zsession 0 s) = 1 \<and>
   zs_SeqID (zsession 0 s) = 0 \<and> z_q (zv_zones s ! 1) = [] \<and> z_count (zv_zones s ! 1) = 1"
  by (simp add: login_and_close_def zone_eval login_response)

theorem dead_session_goes_round_witness:
  "\<exists>s s'. zone_reaches False 1 s \<and> ZoneThread 1 sample_zone_input s = Some s' \<and> z_q (zv_zones s' ! 1) = [0] \<and> z_count (zv_zones s' ! 1) = 0"
proof -
  obtain s where s: "zone_run login_and_close (new_CZoneServer False 1) = Some s" "length (zv_zones s) = 2" "z_pc (zv_zones s ! 1) = Z_sweep 0"
    "z_sessions (zv_zones s ! 1) = [0]" "\<not> zs_alive (zsession 0 s)" "zs_zone (zsession 0 s) = 1" "zs_SeqID (zsession 0 s) = 0"
    "z_q (zv_zones s ! 1) = []" "z_count (zv_zones s ! 1) = 1"
    using closed_client by blast
  have r: "zone_reaches False 1 s" using zone_run_reaches [OF zone_reaches.start s(1)] by simp
  from dead_session_goes_round [OF r _ _ s(3), of 0 sample_zone_input] s r show ?thesis by auto
qed

definition sample_echo :: CMessage where
  "sample_echo = (new_CMessage 4096 0)\<lparr>msg_mem := echo_request 7 9 @ replicate 1982 0, msg_rear := 18\<rparr>"

theorem echo_answered_witness:
  "\<exists>m s'. Echo_OnRecv 1 (sample_zone_input\<lparr>zi_junk := [1, 2, 3, 4]\<rparr>) 5 sample_echo
      ((new_CZoneServer True 1)\<lparr>zv_zones := [new_ZoneSet, new_ZoneSet\<lparr>echo_hash := [(5, 0)]\<rparr>]\<rparr>) = Some s' \<and>
    zv_calls s' = [ZSend 5 m] \<and> msg_frame m = wire_frame (msg_K sample_echo) 9 (echo_answer 7 9)"
proof -
  let ?inp = "sample_zone_input\<lparr>zi_junk := [1, 2, 3, 4]\<rparr>"
  let ?s = "(new_CZoneServer True 1)\<lparr>zv_zones := [new_ZoneSet, new_ZoneSet\<lparr>echo_hash := [(5, 0)]\<rparr>]\<rparr>"
  have inp: "input_ok ?inp"
    using sample_login(3) by (simp add: input_ok_def)
  have m: "msg_ok sample_echo" "msg_data sample_echo = echo_request 7 9 @ []"
    by (simp_all add: sample_echo_def msg_ok_def msg_data_def echo_request_def new_CMessage_def MaxSize_def bufferSize_def)
  have k: "map_of (echo_hash (zv_zones ?s ! 1)) 5 = Some 0" "zv_encode ?s" by (simp_all add: zone_start)
  from echo_answered [OF k inp m] show ?thesis
    by (auto simp: zone_start sample_zone_input_def)
qed

end
