(* ===== verification/ZoneLap.thy ===== *)
theory ZoneLap
  imports ZoneProps
begin

text \<open>
  A lap of a zone thread, from where it stands to the end of its sweep, takes a bounded number of steps
  when nothing new arrives meanwhile.
\<close>

section \<open>What the callbacks of a zone leave alone\<close>

text \<open>The queue, the list and the place of the zone's thread, and the messages the sessions hold.\<close>

definition lap_same :: "nat \<Rightarrow> CZoneServer \<Rightarrow> CZoneServer \<Rightarrow> bool" where
  "lap_same z s s' \<longleftrightarrow> length (zv_zones s) \<le> length (zv_zones s') \<and>
     (z < length (zv_zones s) \<longrightarrow> z_q (zv_zones s' ! z) = z_q (zv_zones s ! z) \<and>
        z_sessions (zv_zones s' ! z) = z_sessions (zv_zones s ! z) \<and> z_pc (zv_zones s' ! z) = z_pc (zv_zones s ! z)) \<and>
     (\<forall>i. zs_buffer (zsession i s') = zs_buffer (zsession i s))"

lemma lap_same_refl: "lap_same z s s"
  by (simp add: lap_same_def)

lemma lap_same_trans: "lap_same z s s1 \<Longrightarrow> lap_same z s1 s2 \<Longrightarrow> lap_same z s s2"
  by (auto simp: lap_same_def)

lemma update_keeps: "g (f (xs ! w)) = g (xs ! w) \<Longrightarrow> g (xs[w := f (xs ! w)] ! z) = g (xs ! z)"
  by (cases "w < length xs") (auto simp: nth_list_update list_update_beyond)

lemma lap_same_zone:
  assumes "\<And>Z. z_q (f Z) = z_q Z \<and> z_sessions (f Z) = z_sessions Z \<and> z_pc (f Z) = z_pc Z" "lap_same z s t"
  shows "lap_same z s (upd_zone w f t)"
  using assms by (simp add: lap_same_def upd_zone_def zsession_def update_keeps)

lemma lap_same_zs: "(\<And>x. zs_buffer (f x) = zs_buffer x) \<Longrightarrow> lap_same z s t \<Longrightarrow> lap_same z s (upd_zs i f t)"
  by (simp add: lap_same_def upd_zs_def zsession_def update_keeps)

lemma lap_same_rest:
  "lap_same z s t \<Longrightarrow> lap_same z s (upd_login g t)" "lap_same z s t \<Longrightarrow> lap_same z s (zcall c t)"
  "lap_same z s t \<Longrightarrow> lap_same z s (upd_zplayer p h t)" "lap_same z s t \<Longrightarrow> lap_same z s (t\<lparr>zv_login := l\<rparr>)"
  "lap_same z s t \<Longrightarrow> lap_same z s (t\<lparr>zv_calls := cs\<rparr>)" "lap_same z s t \<Longrightarrow> lap_same z s (ReQuestCreateZone t)"
  by (auto simp: lap_same_def upd_login_def zcall_def upd_zplayer_def zsession_def ReQuestCreateZone_def nth_append)

lemmas lap_same_intros = lap_same_rest lap_same_zone lap_same_zs

lemma lap_same_move: "RequeseMoveZone k t p s1 = Some s' \<Longrightarrow> lap_same z s s1 \<Longrightarrow> lap_same z s s'"
  by (auto simp: RequeseMoveZone_def Let_def split: if_splits intro!: lap_same_intros)

lemma lap_same_login_request:
  "Login_REQ_LOGIN inp k m a key s1 = Some s' \<Longrightarrow> lap_same z s s1 \<Longrightarrow> lap_same z s s'"
  by (auto simp: Login_REQ_LOGIN_def Let_def split: if_splits option.splits intro!: lap_same_intros elim!: lap_same_move)

lemma lap_same_Login_recv:
  assumes "Login_OnRecv inp k m s = Some s'"
  shows "lap_same z s s'"
proof -
  have proc: "lap_same z s s1" if "Login_PacketProc inp k m s = Some (b, s1)" for b s1
    using that
    by (auto simp: Login_PacketProc_def caught_def split: if_splits sum.splits prod.splits option.splits
        intro!: lap_same_intros lap_same_refl elim!: lap_same_login_request)
  show ?thesis
    using assms
    by (auto simp: Login_OnRecv_def release_and_cut_def split: option.splits prod.splits bool.splits intro!: lap_same_intros lap_same_refl elim!: proc)
qed

lemma lap_same_Echo_handlers:
  "Echo_RES_LOGIN inp k m st a t = Inr s' \<Longrightarrow> lap_same z s t \<Longrightarrow> lap_same z s s'"
  "Echo_RES_ECHO inp k m a tick t = Inr s' \<Longrightarrow> lap_same z s t \<Longrightarrow> lap_same z s s'"
  "Echo_RES_HEARTBEAT inp k m t = Inr s' \<Longrightarrow> lap_same z s t \<Longrightarrow> lap_same z s s'"
  by (auto simp: Echo_RES_LOGIN_def Echo_RES_ECHO_def Echo_RES_HEARTBEAT_def elim!: err_bind_InrE intro!: lap_same_intros)

lemma lap_same_Echo_recv:
  assumes "Echo_OnRecv w inp k m s = Some s'"
  shows "lap_same z s s'"
proof -
  have h: "lap_same z s s1" if "handled r s f = Some (b, s1)" "\<And>t. r = Inr t \<Longrightarrow> lap_same z s (f t)" for r f b s1
    using that by (auto simp: handled_def caught_def lap_same_refl split: sum.splits if_splits)
  have echo: "lap_same z s (count_echo w g t)" if "Echo_RES_ECHO inp k m' a tick s = Inr t \<or> Echo_RES_HEARTBEAT inp k m' s = Inr t" for m' a tick t g
    unfolding count_echo_def using that lap_same_Echo_handlers(2,3) [OF _ lap_same_refl] by (auto intro!: lap_same_intros)
  have proc: "lap_same z s s1" if "Echo_PacketProc w inp k m s = Some (b, s1)" for b s1
    using that
    by (auto simp: Echo_PacketProc_def Let_def caught_def Echo_REQ_ECHO_def Echo_REQ_HEARTBEAT_def lap_same_refl
        split: if_splits sum.splits prod.splits elim!: h intro: echo)
  show ?thesis
    using assms
    by (auto simp: Echo_OnRecv_def release_and_cut_def split: option.splits prod.splits bool.splits intro!: lap_same_intros lap_same_refl elim!: proc)
qed

lemma lap_same_enter: "OnEnterWorld w inp k p s = Some s' \<Longrightarrow> lap_same z s s'"
  by (auto simp: OnEnterWorld_def Login_OnEnterWorld_def Login_connect_def Login_register_def Echo_OnEnterWorld_def count_echo_def Let_def
      split: if_splits option.splits sum.splits prod.splits intro!: lap_same_intros lap_same_refl elim!: lap_same_Echo_handlers(1))

lemma lap_same_recv: "zone_OnRecv w inp k m s = Some s' \<Longrightarrow> lap_same z s s'"
  using lap_same_Login_recv lap_same_Echo_recv by (auto simp: zone_OnRecv_def split: if_splits)

lemma lap_same_update: "lap_same z s (OnUpdate w inp s)"
  by (auto simp: OnUpdate_def Login_OnUpdate_def Echo_OnUpdate_def cut_idle_def intro!: lap_same_intros lap_same_refl)

lemma lap_same_leave: "OnLeaveWorld w k s = Some s' \<Longrightarrow> lap_same z s s'"
  by (auto simp: OnLeaveWorld_def Login_OnLeaveWorld_def Echo_OnLeaveWorld_def split: if_splits intro!: lap_same_intros lap_same_refl)

lemma lap_same_quit: "OnDisConnect w k s = Some s' \<Longrightarrow> lap_same z s s'"
  by (auto simp: OnDisConnect_def Login_OnDisConnect_def Echo_OnDisConnect_def Let_def split: if_splits option.splits
      intro!: lap_same_intros lap_same_refl elim!: lap_same_move)

section \<open>The work that is left\<close>

definition held_messages :: "nat \<Rightarrow> CZoneServer \<Rightarrow> nat" where
  "held_messages z s =
     sum_list (map (\<lambda>i. length (zs_buffer (zsession i s))) (z_sessions (zv_zones s ! z) @ map slot (z_q (zv_zones s ! z))))"

text \<open>The steps from where the thread stands to the end of its sweep, at most.\<close>

definition zone_work :: "nat \<Rightarrow> CZoneServer \<Rightarrow> nat" where
  "zone_work z s =
     (let L = length (z_sessions (zv_zones s ! z))
      in case z_pc (zv_zones s ! z) of
           Z_enter \<Rightarrow> 3 * length (z_q (zv_zones s ! z)) + 2 * L + held_messages z s + 4
         | Z_recv n \<Rightarrow> (L - n) + L + held_messages z s + 3
         | Z_update \<Rightarrow> L + 2
         | Z_sweep n \<Rightarrow> (L - n) + 1)"

definition lap_ends :: "nat \<Rightarrow> CZoneServer \<Rightarrow> CZoneServer \<Rightarrow> bool" where
  "lap_ends z s s' \<longleftrightarrow> (case z_pc (zv_zones s ! z) of Z_sweep n \<Rightarrow> z_pc (zv_zones s' ! z) = Z_enter | _ \<Rightarrow> False)"

lemma lap_same_work:
  assumes "lap_same z s s'" "z < length (zv_zones s)"
  shows "held_messages z s' = held_messages z s" "zone_work z s' = zone_work z s"
    "z_q (zv_zones s' ! z) = z_q (zv_zones s ! z)" "z_sessions (zv_zones s' ! z) = z_sessions (zv_zones s ! z)"
    "z_pc (zv_zones s' ! z) = z_pc (zv_zones s ! z)" "z < length (zv_zones s')"
proof -
  show held: "held_messages z s' = held_messages z s" using assms by (simp add: lap_same_def held_messages_def)
  show "z_q (zv_zones s' ! z) = z_q (zv_zones s ! z)" "z_sessions (zv_zones s' ! z) = z_sessions (zv_zones s ! z)"
    "z_pc (zv_zones s' ! z) = z_pc (zv_zones s ! z)" "z < length (zv_zones s')"
    using assms by (simp_all add: lap_same_def)
  then show "zone_work z s' = zone_work z s" by (simp add: zone_work_def held Let_def split: zone_pc.split)
qed

lemma sum_list_drops:
  fixes f g :: "nat \<Rightarrow> nat"
  assumes "i \<in> set xs" "\<And>j. g j \<le> f j" "g i < f i"
  shows "sum_list (map g xs) < sum_list (map f xs)"
  using assms(1)
proof (induction xs)
  case (Cons x xs)
  have le: "sum_list (map g xs) \<le> sum_list (map f xs)" using assms(2) by (rule sum_list_mono)
  show ?case using Cons le assms(2) [of x] assms(3) by (cases "i = x") (auto simp: add_less_le_mono add_le_less_mono)
qed simp

lemma goto_zone:
  "z < length (zv_zones s) \<Longrightarrow> zv_zones (zone_goto z pc s) ! z = (zv_zones s ! z)\<lparr>z_pc := pc\<rparr>"
  "held_messages z (zone_goto z pc s) = held_messages z s"
  "length (zv_zones (zone_goto z pc s)) = length (zv_zones s)"
  by (cases "z < length (zv_zones s)"; simp add: zone_goto_def upd_zone_def held_messages_def zsession_def list_update_beyond)+

lemma enter_work:
  assumes "z < length (zv_zones s)" "z_pc (zv_zones s ! z) = Z_enter" "zone_enter z inp s = Some s'"
  shows "zone_work z s' < zone_work z s"
proof (cases "z_q (zv_zones s ! z)")
  case Nil
  then show ?thesis using assms by (auto simp: zone_enter_def zone_work_def goto_zone)
next
  case (Cons k q)
  let ?s1 = "upd_zone z (\<lambda>Z. Z\<lparr>z_q := q, z_sessions := z_sessions Z @ [slot k]\<rparr>) s"
  have "lap_same z ?s1 s'" using assms(3) Cons lap_same_enter by (auto simp: zone_enter_def Let_def)
  then have "zone_work z s' = zone_work z ?s1" using assms(1) by (intro lap_same_work(2)) (simp_all add: upd_zone_def)
  also have "\<dots> < zone_work z s"
    using assms(1,2) Cons by (simp add: zone_work_def upd_zone_def held_messages_def zsession_def)
  finally show ?thesis .
qed

lemma take_message:
  assumes "i \<in> set (z_sessions (zv_zones s ! z))" "i < length (zv_sessions s)" "zs_buffer (zsession i s) = m # ms"
  shows "held_messages z (upd_zs i (\<lambda>x. x\<lparr>zs_buffer := ms\<rparr>) s) < held_messages z s"
  unfolding held_messages_def
  by (rule order_less_le_trans [OF sum_list_drops [where i = i and f = "\<lambda>i. length (zs_buffer (zsession i s))"]])
    (use assms in \<open>auto simp: upd_zs_def zsession_def nth_list_update\<close>)

lemma recv_work:
  assumes z: "z < length (zv_zones s)" "z_pc (zv_zones s ! z) = Z_recv n" and r: "zone_recv z n inp s = Some s'"
    and slots: "\<forall>i \<in> set (z_sessions (zv_zones s ! z)). i < length (zv_sessions s)"
  shows "zone_work z s' < zone_work z s"
proof (cases "length (z_sessions (zv_zones s ! z)) \<le> n")
  case True
  then show ?thesis using z r by (auto simp: zone_recv_def zone_work_def goto_zone)
next
  case False
  let ?i = "z_sessions (zv_zones s ! z) ! n"
  show ?thesis
  proof (cases "zs_buffer (zsession ?i s)")
    case Nil
    then show ?thesis using z r False by (auto simp: zone_recv_def zone_work_def goto_zone)
  next
    case (Cons msg ms)
    let ?s1 = "upd_zs ?i (\<lambda>x. x\<lparr>zs_buffer := ms\<rparr>) s"
    have i: "?i \<in> set (z_sessions (zv_zones s ! z))" "?i < length (zv_sessions s)" using False slots by auto
    have less: "held_messages z ?s1 < held_messages z s" by (rule take_message [OF i Cons])
    have zone: "zv_zones ?s1 = zv_zones s" by (simp add: upd_zs_def)
    have deliver: "zone_work z s' < zone_work z s" if "zone_OnRecv z inp k m ?s1 = Some s'" for k m
    proof -
      have "zone_work z s' = zone_work z ?s1" using lap_same_recv [OF that] z(1) by (intro lap_same_work(2)) (simp_all add: zone)
      also have "\<dots> < zone_work z s" using less z(2) by (simp add: zone_work_def zone Let_def)
      finally show ?thesis .
    qed
    have skip: "zone_work z (zone_goto z (Z_recv (Suc n)) t) < zone_work z s" if "lap_same z ?s1 t" for t
    proof -
      note w = lap_same_work [OF that] 
      have "z < length (zv_zones ?s1)" using z(1) by (simp add: zone)
      note w = w [OF this]
      show ?thesis using less z(2) False w(1,3,4,6) by (simp add: zone_work_def goto_zone zone)
    qed
    have dead: "lap_same z ?s1 (zcall (ZFree m) (upd_zs ?i (\<lambda>x. x\<lparr>zs_blive := False\<rparr>) ?s1))" for m
      by (intro lap_same_intros lap_same_refl) simp
    show ?thesis
      using r False Cons deliver skip [OF dead] by (auto simp: zone_recv_def Let_def split: if_splits sum.splits bool.splits)
  qed
qed

lemma zone_fields:
  "z_sessions (zv_zones (zone_Push w k s) ! z) = z_sessions (zv_zones s ! z)" "z_pc (zv_zones (zone_Push w k s) ! z) = z_pc (zv_zones s ! z)"
  "length (zv_zones (zone_Push w k s)) = length (zv_zones s)"
  "z_sessions (zv_zones (upd_zone w (\<lambda>Z. Z\<lparr>z_count := g Z\<rparr>) s) ! z) = z_sessions (zv_zones s ! z)"
  "z_pc (zv_zones (upd_zone w (\<lambda>Z. Z\<lparr>z_count := g Z\<rparr>) s) ! z) = z_pc (zv_zones s ! z)"
  "zv_zones (zone_ReleaseSession i s) = zv_zones s" "zv_zones (drain_ZoneBuffer i s) = zv_zones s" "zv_zones (upd_zs i f s) = zv_zones s"
  by (simp_all add: zone_Push_def upd_zone_def zone_ReleaseSession_def drain_ZoneBuffer_def zcall_def upd_zs_def Let_def update_keeps)

lemma erase_zone:
  assumes "z < length (zv_zones s)"
  shows "zv_zones (erase_session z n s) ! z = (zv_zones s ! z)\<lparr>z_sessions := take n (z_sessions (zv_zones s ! z)) @ drop (Suc n) (z_sessions (zv_zones s ! z))\<rparr>"
    "length (zv_zones (erase_session z n s)) = length (zv_zones s)"
  using assms by (simp_all add: erase_session_def upd_zone_def)

text \<open>A step of the sweep ends the lap or has one session less to look at.\<close>

lemma sweep_work:
  assumes z: "z < length (zv_zones s)" "z_pc (zv_zones s ! z) = Z_sweep n" and w: "zone_sweep z n inp s = Some s'"
  shows "lap_ends z s s' \<or> zone_work z s' < zone_work z s"
proof (cases "length (z_sessions (zv_zones s ! z)) \<le> n")
  case True
  then show ?thesis using z w by (auto simp: zone_sweep_def lap_ends_def goto_zone)
next
  case False
  let ?L = "z_sessions (zv_zones s ! z)"
  let ?i = "?L ! n"
  have cut: "zone_work z t < zone_work z s"
    if "z_pc (zv_zones t ! z) = Z_sweep n" "z_sessions (zv_zones t ! z) = take n ?L @ drop (Suc n) ?L" for t
    using that z False by (simp add: zone_work_def)
  have next_one: "zone_work z (zone_goto z (Z_sweep (Suc n)) t) < zone_work z s" if "zv_zones t = zv_zones s" for t
    using that z False by (simp add: zone_work_def goto_zone)
  show ?thesis
  proof (cases "zs_alive (zsession ?i s)")
    case False
    then obtain s1 where s1: "OnDisConnect z (zs_SeqID (zsession ?i s)) s = Some s1"
      using w \<open>\<not> length ?L \<le> n\<close> by (auto simp: zone_sweep_def Let_def split: option.splits)
    note same = lap_same_work [OF lap_same_quit [OF s1, of z] z(1)]
    show ?thesis
      using w False \<open>\<not> length ?L \<le> n\<close> s1 same z(2) by (auto simp: zone_sweep_def Let_def zone_fields erase_zone intro!: cut)
  next
    case True
    show ?thesis
    proof (cases "zs_zone (zsession ?i s) = z \<or> zi_late inp")
      case True
      then show ?thesis
        using w False \<open>zs_alive (zsession ?i s)\<close> by (auto simp: zone_sweep_def Let_def zone_fields intro!: next_one split: if_splits)
    next
      case False
      let ?e = "erase_session z n (drain_ZoneBuffer ?i s)"
      obtain s1 where s1: "OnLeaveWorld z (zs_SeqID (zsession ?i s)) ?e = Some s1"
        using w \<open>\<not> length ?L \<le> n\<close> False True by (auto simp: zone_sweep_def Let_def split: option.splits)
      have "z < length (zv_zones ?e)" using z(1) by (simp add: erase_zone(2) zone_fields)
      note same = lap_same_work [OF lap_same_leave [OF s1, of z] this]
      show ?thesis
        using w False True \<open>\<not> length ?L \<le> n\<close> s1 same z by (auto simp: zone_sweep_def Let_def zone_fields erase_zone intro!: cut)
    qed
  qed
qed

lemma turn_work:
  assumes I: "zinv (zview_of s)" and z: "z < length (zv_zones s)" and e: "ZoneThread z inp s = Some s'"
  shows "lap_ends z s s' \<or> zone_work z s' < zone_work z s"
proof (cases "z_pc (zv_zones s ! z)")
  case Z_enter
  then show ?thesis using enter_work [OF z] e by (simp add: ZoneThread_def)
next
  case (Z_recv n)
  obtain loc where loc: "zinv_at loc (zview_of s)" using I by (auto simp: zinv_def)
  have "\<forall>i \<in> set (z_sessions (zv_zones s ! z)). i < length (zv_sessions s)" using session_at(1) [OF loc _ z] by blast
  then show ?thesis using recv_work [OF z Z_recv] e Z_recv by (simp add: ZoneThread_def)
next
  case Z_update
  then have s': "s' = zone_goto z (Z_sweep 0) (OnUpdate z inp s)" using e by (simp add: ZoneThread_def)
  note same = lap_same_work [OF lap_same_update [of z s z inp] z]
  show ?thesis using Z_update same by (simp add: s' zone_work_def goto_zone)
next
  case (Z_sweep n)
  then show ?thesis using sweep_work [OF z Z_sweep] e by (simp add: ZoneThread_def)
qed

section \<open>A lap\<close>

text \<open>
  The thread of a zone runs alone, one input for a step: None if it stops, otherwise whether it has finished
  the lap before the inputs are used up.
\<close>

fun zone_lap :: "nat \<Rightarrow> zone_input list \<Rightarrow> CZoneServer \<Rightarrow> (bool \<times> CZoneServer) option" where
  "zone_lap z [] s = Some (False, s)"
| "zone_lap z (inp # inps) s =
     (case ZoneThread z inp s of
        None \<Rightarrow> None
      | Some s1 \<Rightarrow> if lap_ends z s s1 then Some (True, s1) else zone_lap z inps s1)"

lemma zmove_zones: "zmove v v' \<Longrightarrow> v_Z v \<le> v_Z v'"
  by (induction rule: zmove.induct) simp_all

lemma zone_lap_ends:
  assumes "zone_reaches enc n s" "z < length (zv_zones s)" "\<forall>inp \<in> set inps. input_ok inp" "zone_work z s \<le> length inps"
  shows "case zone_lap z inps s of None \<Rightarrow> z = 0 | Some (ended, s') \<Rightarrow> ended \<and> zone_reaches enc n s'"
  using assms
proof (induction inps arbitrary: s)
  case Nil
  have "0 < zone_work z s" by (simp add: zone_work_def Let_def split: zone_pc.split)
  then show ?case using Nil by simp
next
  case (Cons inp inps)
  note R = reaches_inv [OF Cons.prems(1)]
  have inp: "input_ok inp" using Cons.prems(3) by simp
  show ?case
  proof (cases "ZoneThread z inp s")
    case None
    then have "second_login z inp s \<or> redis_fails z inp s" using zone_turn [of s inp z] R inp Cons.prems(2) by auto
    then have "z = 0" by (auto simp: second_login_def redis_fails_def)
    then show ?thesis using None by simp
  next
    case (Some s1)
    have r1: "zone_reaches enc n s1"
      by (rule zone_reaches.step [OF Cons.prems(1), of "Z_turn z inp"]) (use Some inp Cons.prems(2) in simp_all)
    show ?thesis
    proof (cases "lap_ends z s s1")
      case True
      then show ?thesis using Some r1 by simp
    next
      case False
      then have "zone_work z s1 < zone_work z s" using turn_work [OF _ Cons.prems(2) Some] R by blast
      moreover have "z < length (zv_zones s1)"
        using zone_turn [of s inp z] R inp Cons.prems(2) Some zmove_zones [of "zview_of s" "zview_of s1"] by (auto simp: zview_of_simps)
      ultimately show ?thesis using Cons.IH [OF r1] Cons.prems(3,4) Some False by simp
    qed
  qed
qed

text \<open>
  C22: In every reachable state the thread of a zone, when nothing new arrives, finishes its lap: it takes the
  sessions of its queue, gives its sessions' messages to the zone, and ends its sweep within three steps for a
  session in the queue, two for a session in the list, one for a message and four. An echo zone always does;
  the login zone does unless it stops on the way, at a trap or because redis throws.
\<close>

theorem zone_lap_terminates:
  assumes "zone_reaches enc n s" "z < length (zv_zones s)" "\<forall>inp \<in> set inps. input_ok inp"
    "3 * length (z_q (zv_zones s ! z)) + 2 * length (z_sessions (zv_zones s ! z)) + held_messages z s + 4 \<le> length inps"
  shows "(\<exists>s'. zone_lap z inps s = Some (True, s') \<and> zone_reaches enc n s') \<or> (z = 0 \<and> zone_lap z inps s = None)"
proof -
  have "zone_work z s \<le> 3 * length (z_q (zv_zones s ! z)) + 2 * length (z_sessions (zv_zones s ! z)) + held_messages z s + 4"
    by (cases "z_pc (zv_zones s ! z)") (simp_all add: zone_work_def Let_def)
  then have "zone_work z s \<le> length inps" using assms(4) by linarith
  from zone_lap_ends [OF assms(1-3) this] show ?thesis by (auto split: option.splits)
qed

theorem zone_lap_terminates_witness:
  "\<exists>s s'. zone_run [good_accept] (new_CZoneServer False 1) = Some s \<and> length (z_q (zv_zones s ! 0)) = 1 \<and>
     zone_lap 1 (replicate 4 sample_zone_input) s = Some (True, s')"
proof -
  let ?s0 = "new_CZoneServer False 1"
  let ?s1 = "the (zone_accept \<lparr>za_dirty = False, za_assoc = True\<rparr> ?s0)"
  have ok: "event_ok good_accept ?s0" by (simp add: good_accept_def new_CZoneServer_def ReQuestCreateZone_def)
  have r: "zone_run [good_accept] ?s0 = Some ?s1" using ok by (simp add: good_accept_def zone_start zone_accept_def zone_OnAccept_def Let_def)
  note reach = zone_run_reaches [OF zone_reaches.start [of 1 False] r]
  have st: "length (zv_zones ?s1) = 2" "z_q (zv_zones ?s1 ! 1) = []"
    "z_sessions (zv_zones ?s1 ! 1) = []" "length (z_q (zv_zones ?s1 ! 0)) = 1"
    by (simp_all add: new_CZoneServer_def ReQuestCreateZone_def zone_accept_def zone_OnAccept_def zone_Push_def zone_updates new_ZoneSet_def)
  have "\<forall>inp \<in> set (replicate 4 sample_zone_input). input_ok inp" using sample_login(3) by simp
  from zone_lap_terminates [OF reach _ this, of 1] show ?thesis
    using r st by (auto simp: held_messages_def)
qed

end
