(* ===== verification/Monitor.thy ===== *)
theory Monitor
  imports Complex_Main Packet "HOL-Library.AList"
begin

text \<open>
  The monitor server (\<^verbatim>\<open>MonitorServer/CTestServer.cpp\<close>): servers log in with a number and report values,
  tools log in with a key and receive them, and a thread writes them to a database. Every handler holds
  \<^verbatim>\<open>SessionID_hash_Lock\<close> or \<^verbatim>\<open>waitLogin_hash_Lock\<close> where it reads and writes a table and is one step. Players
  are positions in the array of their pool. A read outside a message and an exception that nothing catches
  are \<open>None\<close>. The database, the time zone and the network library are outside: what is asked of them is
  kept in order.
\<close>

section \<open>State\<close>

datatype enClientType = LoginServer | ChatServer | GameServer | MonitorClient | enClientType_Max

text \<open>\<open>mp_ipAddress\<close> is the text up to its terminator.\<close>

record mon_player =
  mp_type :: enClientType
  mp_ServerNo :: u32
  mp_sessionID :: u64
  mp_Timer :: u32
  mp_ipAddress :: string
  mp_port :: u16

text \<open>
  The statistics of a value. The code keeps them in \<^verbatim>\<open>double\<close>; sums, minima and maxima of integers are
  exact there up to 53 bits, the rounding of the average is not modelled.
\<close>

record stDBStat =
  st_sum :: int
  st_avg :: rat
  st_min :: int
  st_max :: int
  st_count :: int

record stDBinfo =
  in_DataType :: u8
  in_DataValue :: u32
  in_TimeStamp :: u32
  in_avg :: rat
  in_min :: int
  in_max :: int

record stDBinfoSet =
  infos :: "stDBinfo list"
  db_stats :: "(u8 \<times> stDBStat) list"

text \<open>A job of the database thread, a statement for the database, and a call of the network library or the pool.\<close>

datatype db_job = DBPost CMessage | DBStore

datatype db_sql = CreateTable string | InsertRows string u8 "stDBinfo list"

datatype mon_call = MDisconnect u64 | MFree CMessage | MAlloc | MSend u64 CMessage | MBroad CMessage "u64 list"

record MonitorServer =
  mon_encode :: bool
  mon_wait :: "(u64 \<times> nat) list"
  mon_session :: "(u64 \<times> nat) list"
  mon_server :: "(u32 \<times> nat) list"
  mon_players :: "mon_player list"
  mon_free :: "nat list"
  mon_calls :: "mon_call list"
  mon_dbq :: "db_job list"
  m_DBMessageCnt :: int
  dbinfoSet_hash :: "(u8 \<times> stDBinfoSet) list"
  rowCount :: nat
  mon_sql :: "db_sql list"

text \<open>The clock, the bytes of a local header that stay uninitialised, the random key and a message of the pool.\<close>

record mon_input =
  mi_now :: u32
  mi_junk :: "u8 list"
  mi_RK :: u8
  mi_msg :: CMessage

definition new_mon_player :: mon_player where
  "new_mon_player = \<lparr>mp_type = enClientType_Max, mp_ServerNo = 0, mp_sessionID = 0, mp_Timer = 0, mp_ipAddress = [], mp_port = 0\<rparr>"

definition new_MonitorServer :: "bool \<Rightarrow> MonitorServer" where
  "new_MonitorServer encode = \<lparr>mon_encode = encode, mon_wait = [], mon_session = [], mon_server = [], mon_players = [],
     mon_free = [], mon_calls = [], mon_dbq = [], m_DBMessageCnt = 0, dbinfoSet_hash = [], rowCount = 0, mon_sql = []\<rparr>"

definition mcall :: "mon_call \<Rightarrow> MonitorServer \<Rightarrow> MonitorServer" where
  "mcall c s = s\<lparr>mon_calls := mon_calls s @ [c]\<rparr>"

definition upd_mp :: "nat \<Rightarrow> (mon_player \<Rightarrow> mon_player) \<Rightarrow> MonitorServer \<Rightarrow> MonitorServer" where
  "upd_mp p f s = s\<lparr>mon_players := (mon_players s)[p := f (mon_players s ! p)]\<rparr>"

text \<open>\<^verbatim>\<open>player_pool\<close> has no limit.\<close>

definition mon_Alloc :: "MonitorServer \<Rightarrow> nat \<times> MonitorServer" where
  "mon_Alloc s =
     (case mon_free s of
        [] \<Rightarrow> (length (mon_players s), s\<lparr>mon_players := mon_players s @ [new_mon_player]\<rparr>)
      | p # ps \<Rightarrow> (p, s\<lparr>mon_free := ps\<rparr>))"

definition mon_cut :: "u64 \<Rightarrow> CMessage \<Rightarrow> MonitorServer \<Rightarrow> MonitorServer" where
  "mon_cut SessionID msg s = mcall (MDisconnect SessionID) (mcall (MFree msg) s)"

section \<open>Packets to the clients\<close>

definition en_PACKET_SS_MONITOR_LOGIN :: u16 where "en_PACKET_SS_MONITOR_LOGIN = 20001"
definition en_PACKET_SS_MONITOR_DATA_UPDATE :: u16 where "en_PACKET_SS_MONITOR_DATA_UPDATE = 20002"
definition en_PACKET_CS_MONITOR_TOOL_REQ_LOGIN :: u16 where "en_PACKET_CS_MONITOR_TOOL_REQ_LOGIN = 25001"
definition en_PACKET_CS_MONITOR_TOOL_RES_LOGIN :: u16 where "en_PACKET_CS_MONITOR_TOOL_RES_LOGIN = 25002"
definition en_PACKET_CS_MONITOR_TOOL_DATA_UPDATE :: u16 where "en_PACKET_CS_MONITOR_TOOL_DATA_UPDATE = 25003"

definition RES_MONITOR_UPDATE :: "bool \<Rightarrow> mon_input \<Rightarrow> CMessage \<Rightarrow> u8 \<Rightarrow> u8 \<Rightarrow> u32 \<Rightarrow> u32 \<Rightarrow> msg_error + CMessage" where
  "RES_MONITOR_UPDATE encode inp msg ServerNo DataType DataValue TimeStamp =
     err_bind (PutData (InitMessage msg) (109 # mi_junk inp)) (\<lambda>m.
     err_bind (msg_shl m (word_bytes 2 en_PACKET_CS_MONITOR_TOOL_DATA_UPDATE)) (\<lambda>m.
     err_bind (msg_shl m (word_bytes 1 ServerNo)) (\<lambda>m.
     err_bind (msg_shl m (word_bytes 1 DataType)) (\<lambda>m.
     err_bind (msg_shl m (word_bytes 4 DataValue)) (\<lambda>m.
     err_bind (msg_shl m (word_bytes 4 TimeStamp)) (\<lambda>m.
     end_packet encode (mi_RK inp) m))))))"

definition RES_MONITOR_TOOL_LOGIN :: "bool \<Rightarrow> mon_input \<Rightarrow> CMessage \<Rightarrow> u8 \<Rightarrow> msg_error + CMessage" where
  "RES_MONITOR_TOOL_LOGIN encode inp msg Status =
     err_bind (PutData (InitMessage msg) (109 # mi_junk inp)) (\<lambda>m.
     err_bind (msg_shl m (word_bytes 2 en_PACKET_CS_MONITOR_TOOL_RES_LOGIN)) (\<lambda>m.
     err_bind (msg_shl m (word_bytes 1 Status)) (\<lambda>m.
     end_packet encode (mi_RK inp) m)))"

section \<open>Connections\<close>

definition mon_OnAccept :: "mon_input \<Rightarrow> u64 \<Rightarrow> string \<Rightarrow> u16 \<Rightarrow> MonitorServer \<Rightarrow> bool \<times> MonitorServer" where
  "mon_OnAccept inp SessionID ip port s =
     (if map_of (mon_session s) SessionID \<noteq> None then (False, s)
      else if map_of (mon_wait s) SessionID \<noteq> None then (False, s)
      else let (p, s1) = mon_Alloc s;
               s2 = s1\<lparr>mon_wait := (SessionID, p) # mon_wait s1\<rparr>
        in (True, upd_mp p (\<lambda>x. x\<lparr>mp_type := enClientType_Max, mp_Timer := mi_now inp, mp_sessionID := SessionID,
              mp_ServerNo := 0, mp_ipAddress := ip, mp_port := port\<rparr>) s2))"

definition mon_OnRelease :: "u64 \<Rightarrow> MonitorServer \<Rightarrow> MonitorServer" where
  "mon_OnRelease SessionID s =
     (case map_of (mon_session s) SessionID of
        Some p \<Rightarrow>
          let x = mon_players s ! p;
              s1 = s\<lparr>mon_session := AList.delete SessionID (mon_session s)\<rparr>;
              s2 = (if mp_type x \<in> {ChatServer, LoginServer, GameServer}
                    then s1\<lparr>mon_server := AList.delete (mp_ServerNo x) (mon_server s1)\<rparr> else s1)
          in s2\<lparr>mon_free := p # mon_free s2\<rparr>
      | None \<Rightarrow>
          (case map_of (mon_wait s) SessionID of
             Some p \<Rightarrow> s\<lparr>mon_wait := AList.delete SessionID (mon_wait s), mon_free := p # mon_free s\<rparr>
           | None \<Rightarrow> s))"

section \<open>Requests\<close>

text \<open>\<^verbatim>\<open>compare\<close> is zero on equal texts; the second comparison is not compared with zero.\<close>

definition LanIP :: "string list" where
  "LanIP = [''127.0.0.1'', ''10.0.1.2'', ''10.0.2.2'']"

definition lan_check :: "string \<Rightarrow> bool" where
  "lan_check ip \<longleftrightarrow> LanIP ! 0 = ip \<or> LanIP ! 1 \<noteq> ip \<or> LanIP ! 2 = ip"

definition server_type :: "u32 \<Rightarrow> enClientType" where
  "server_type ServerNo = (if sint ServerNo < 10 then LoginServer else if sint ServerNo < 20 then ChatServer else GameServer)"

definition REQ_MONITOR_LOGIN :: "u64 \<Rightarrow> CMessage \<Rightarrow> u32 \<Rightarrow> MonitorServer \<Rightarrow> MonitorServer" where
  "REQ_MONITOR_LOGIN SessionID msg ServerNo s =
     (if 50 \<le> sint ServerNo then mon_cut SessionID msg s
      else case map_of (mon_server s) ServerNo of
        Some q \<Rightarrow> mcall (MDisconnect SessionID) (mcall (MDisconnect (mp_sessionID (mon_players s ! q))) (mcall (MFree msg) s))
      | None \<Rightarrow>
          (case map_of (mon_wait s) SessionID of
             None \<Rightarrow> mon_cut SessionID msg s
           | Some p \<Rightarrow>
               if lan_check (mp_ipAddress (mon_players s ! p)) then
                 let s1 = s\<lparr>mon_wait := AList.delete SessionID (mon_wait s), mon_server := (ServerNo, p) # mon_server s\<rparr>;
                     s2 = upd_mp p (\<lambda>x. x\<lparr>mp_type := server_type ServerNo, mp_ServerNo := ServerNo\<rparr>) s1
                 in if map_of (mon_session s2) SessionID = None then s2\<lparr>mon_session := (SessionID, p) # mon_session s2\<rparr> else s2
               else mon_cut SessionID msg s))"

text \<open>
  The report for the database travels in a message of the pool. A handler that throws keeps what it has
  changed so far.
\<close>

definition DB_LogPost :: "mon_input \<Rightarrow> u8 \<Rightarrow> u8 \<Rightarrow> u32 \<Rightarrow> u32 \<Rightarrow> MonitorServer \<Rightarrow> msg_error option \<times> MonitorServer" where
  "DB_LogPost inp ServerNo DataType DataValue TimeStamp s =
     (let s1 = mcall MAlloc s
      in case err_bind (msg_shl (InitMessage (mi_msg inp)) (word_bytes 1 ServerNo)) (\<lambda>m.
              err_bind (msg_shl m (word_bytes 1 DataType)) (\<lambda>m.
              err_bind (msg_shl m (word_bytes 4 DataValue)) (\<lambda>m.
              msg_shl m (word_bytes 4 TimeStamp)))) of
           Inl e \<Rightarrow> (Some e, s1)
         | Inr m \<Rightarrow> (None, s1\<lparr>mon_dbq := mon_dbq s1 @ [DBPost m], m_DBMessageCnt := m_DBMessageCnt s1 + 1\<rparr>))"

definition mon_tools :: "MonitorServer \<Rightarrow> u64 list" where
  "mon_tools s = map fst (filter (\<lambda>(k, p). mp_type (mon_players s ! p) = MonitorClient) (mon_session s))"

definition REQ_MONITOR_UPDATE :: "mon_input \<Rightarrow> u64 \<Rightarrow> CMessage \<Rightarrow> u8 \<Rightarrow> u32 \<Rightarrow> u32 \<Rightarrow> MonitorServer \<Rightarrow> msg_error option \<times> MonitorServer" where
  "REQ_MONITOR_UPDATE inp SessionID msg DataType DataValue TimeStamp s =
     (case map_of (mon_session s) SessionID of
        None \<Rightarrow> (None, mon_cut SessionID msg s)
      | Some p \<Rightarrow>
          let x = mon_players s ! p; no = ucast (mp_ServerNo x)
          in if mp_type x = MonitorClient then (None, mon_cut SessionID msg s)
             else (case DB_LogPost inp no DataType DataValue TimeStamp s of
                 (Some e, s1) \<Rightarrow> (Some e, s1)
               | (None, s1) \<Rightarrow>
                   let stamped = upd_mp p (\<lambda>x. x\<lparr>mp_Timer := mi_now inp\<rparr>)
                   in if mon_tools s = [] then (None, stamped (mcall (MFree msg) s1))
                      else (case RES_MONITOR_UPDATE (mon_encode s1) inp msg no DataType DataValue TimeStamp of
                          Inl e \<Rightarrow> (Some e, s1)
                        | Inr m \<Rightarrow> (None, stamped (mcall (MBroad m (mon_tools s)) s1)))))"

definition gLoginKey :: "u8 list" where
  "gLoginKey = map (\<lambda>c. of_nat (of_char c)) ''ajfw@!cv980dSZ[fje#@fdj123948djf''"

definition REQ_MONITOR_TOOL_LOGIN :: "mon_input \<Rightarrow> u64 \<Rightarrow> CMessage \<Rightarrow> u8 list \<Rightarrow> MonitorServer \<Rightarrow> msg_error option \<times> MonitorServer" where
  "REQ_MONITOR_TOOL_LOGIN inp SessionID msg LoginSessionKey s =
     (if gLoginKey \<noteq> takeWhile (\<lambda>c. c \<noteq> 0) LoginSessionKey then (None, mon_cut SessionID msg s)
      else if map_of (mon_session s) SessionID \<noteq> None then (None, mon_cut SessionID msg s)
      else case map_of (mon_wait s) SessionID of
        None \<Rightarrow> (None, mon_cut SessionID msg s)
      | Some p \<Rightarrow>
          let s1 = upd_mp p (\<lambda>x. x\<lparr>mp_type := MonitorClient\<rparr>) s;
              s2 = (if lan_check (mp_ipAddress (mon_players s1 ! p))
                    then s1\<lparr>mon_wait := AList.delete SessionID (mon_wait s1), mon_session := (SessionID, p) # mon_session s1\<rparr>
                    else s1)
          in case RES_MONITOR_TOOL_LOGIN (mon_encode s2) inp msg 1 of
               Inl e \<Rightarrow> (Some e, s2)
             | Inr m \<Rightarrow> (None, mcall (MSend SessionID m) s2))"

text \<open>\<^verbatim>\<open>Stub::PacketProc\<close>. A handler that throws is reported as a bad packet.\<close>

definition mon_caught :: "msg_error \<Rightarrow> MonitorServer \<Rightarrow> (bool \<times> MonitorServer) option" where
  "mon_caught e s = (if e = MemFault then None else Some (False, s))"

definition mon_handled :: "msg_error option \<times> MonitorServer \<Rightarrow> (bool \<times> MonitorServer) option" where
  "mon_handled r = (case r of (Some e, s) \<Rightarrow> mon_caught e s | (None, s) \<Rightarrow> Some (True, s))"

definition mon_echo_update :: "mon_input \<Rightarrow> u64 \<Rightarrow> CMessage \<Rightarrow> u8 list list \<Rightarrow> MonitorServer \<Rightarrow> msg_error option \<times> MonitorServer" where
  "mon_echo_update inp SessionID msg fs s =
     (case RES_MONITOR_UPDATE (mon_encode s) inp msg (bytes_word (fs ! 0)) (bytes_word (fs ! 1)) (bytes_word (fs ! 2)) (bytes_word (fs ! 3)) of
        Inl e \<Rightarrow> (Some e, s)
      | Inr m \<Rightarrow> (None, mcall (MSend SessionID m) s))"

fun read_fields :: "nat list \<Rightarrow> CMessage \<Rightarrow> msg_error + (u8 list list \<times> CMessage)" where
  "read_fields [] m = Inr ([], m)"
| "read_fields (n # ns) m =
     err_bind (msg_shr m n) (\<lambda>(bs, m1). err_bind (read_fields ns m1) (\<lambda>(bss, m2). Inr (bs # bss, m2)))"

definition mon_PacketProc :: "mon_input \<Rightarrow> u64 \<Rightarrow> CMessage \<Rightarrow> u16 \<Rightarrow> MonitorServer \<Rightarrow> (bool \<times> MonitorServer) option" where
  "mon_PacketProc inp SessionID msg byType s =
     (if byType = en_PACKET_SS_MONITOR_LOGIN then
        (case msg_shr msg 4 of
           Inl e \<Rightarrow> mon_caught e s
         | Inr (ServerNo, m) \<Rightarrow> Some (True, REQ_MONITOR_LOGIN SessionID m (bytes_word ServerNo) s))
      else if byType = en_PACKET_SS_MONITOR_DATA_UPDATE then
        (case read_fields [1, 4, 4] msg of
           Inl e \<Rightarrow> mon_caught e s
         | Inr (fs, m) \<Rightarrow>
             mon_handled (REQ_MONITOR_UPDATE inp SessionID m (bytes_word (fs ! 0)) (bytes_word (fs ! 1)) (bytes_word (fs ! 2)) s))
      else if byType = en_PACKET_CS_MONITOR_TOOL_DATA_UPDATE then
        (case read_fields [1, 1, 4, 4] msg of
           Inl e \<Rightarrow> mon_caught e s
         | Inr (fs, m) \<Rightarrow> mon_handled (mon_echo_update inp SessionID m fs s))
      else if byType = en_PACKET_CS_MONITOR_TOOL_REQ_LOGIN then
        (case GetData msg 32 of
           Inl e \<Rightarrow> mon_caught e s
         | Inr (key, m) \<Rightarrow> mon_handled (REQ_MONITOR_TOOL_LOGIN inp SessionID m key s))
      else Some (False, s))"

definition mon_OnRecv :: "mon_input \<Rightarrow> u64 \<Rightarrow> CMessage \<Rightarrow> MonitorServer \<Rightarrow> MonitorServer option" where
  "mon_OnRecv inp SessionID msg s =
     (case msg_shr msg 2 of
        Inl e \<Rightarrow> (if e = MemFault then None else Some (mon_cut SessionID msg s))
      | Inr (w, m) \<Rightarrow>
          (case mon_PacketProc inp SessionID m (bytes_word w) s of
             None \<Rightarrow> None
           | Some (True, s1) \<Rightarrow> Some s1
           | Some (False, s1) \<Rightarrow> Some (mon_cut SessionID msg s1)))"

text \<open>\<^verbatim>\<open>HeartBeatThread\<close>, one round.\<close>

definition mon_idle :: "u32 \<Rightarrow> MonitorServer \<Rightarrow> (u64 \<times> nat) list \<Rightarrow> u64 list" where
  "mon_idle now s hash = map fst (filter (\<lambda>(k, p). 7000 \<le> now - mp_Timer (mon_players s ! p)) hash)"

definition mon_HeartBeat :: "mon_input \<Rightarrow> MonitorServer \<Rightarrow> MonitorServer" where
  "mon_HeartBeat inp s =
     (let servers = filter (\<lambda>(k, p). mp_type (mon_players s ! p) \<noteq> MonitorClient) (mon_session s)
      in s\<lparr>mon_calls := mon_calls s @ map MDisconnect (mon_idle (mi_now inp) s (mon_wait s) @ mon_idle (mi_now inp) s servers)\<rparr>)"

section \<open>The database thread\<close>

definition new_stDBStat :: stDBStat where
  "new_stDBStat = \<lparr>st_sum = 0, st_avg = 0, st_min = 2147483647, st_max = -2147483648, st_count = 0\<rparr>"

definition new_stDBinfoSet :: stDBinfoSet where
  "new_stDBinfoSet = \<lparr>infos = [], db_stats = []\<rparr>"

text \<open>\<^verbatim>\<open>operator[]\<close> of a map, which makes a missing entry.\<close>

definition at_key :: "'v \<Rightarrow> ('k \<times> 'v) list \<Rightarrow> 'k \<Rightarrow> 'v" where
  "at_key v0 xs k = (case map_of xs k of None \<Rightarrow> v0 | Some v \<Rightarrow> v)"

definition InitInfoSet :: "stDBinfoSet \<Rightarrow> stDBinfoSet" where
  "InitInfoSet S = S\<lparr>infos := [], db_stats := map (\<lambda>(t, x). (t, new_stDBStat)) (db_stats S)\<rparr>"

definition add_stat :: "int \<Rightarrow> stDBStat \<Rightarrow> stDBStat" where
  "add_stat v x =
     (let n = st_count x + 1; t = st_sum x + v
      in x\<lparr>st_count := n, st_sum := t, st_min := min (st_min x) v, st_max := max (st_max x) v,
           st_avg := of_int t / of_int n\<rparr>)"

definition HandleDBLogPost :: "CMessage \<Rightarrow> MonitorServer \<Rightarrow> MonitorServer option" where
  "HandleDBLogPost msg s =
     (case read_fields [1, 1, 4, 4] msg of
        Inl e \<Rightarrow> None
      | Inr (fs, m) \<Rightarrow>
          let ServerNo = bytes_word (fs ! 0);
              DataType = bytes_word (fs ! 1);
              DataValue = bytes_word (fs ! 2) :: u32;
              TimeStamp = bytes_word (fs ! 3);
              S = at_key new_stDBinfoSet (dbinfoSet_hash s) ServerNo;
              x = add_stat (sint DataValue) (at_key new_stDBStat (db_stats S) DataType);
              row = \<lparr>in_DataType = DataType, in_DataValue = DataValue, in_TimeStamp = TimeStamp, in_avg = st_avg x, in_min = st_min x, in_max = st_max x\<rparr>;
              S1 = S\<lparr>db_stats := AList.update DataType x (db_stats S), infos := infos S @ [row]\<rparr>
          in Some (mcall (MFree m) (s\<lparr>dbinfoSet_hash := AList.update ServerNo S1 (dbinfoSet_hash s)\<rparr>)))"

definition DB_StoreRequest :: "MonitorServer \<Rightarrow> MonitorServer" where
  "DB_StoreRequest s = s\<lparr>mon_dbq := mon_dbq s @ [DBStore]\<rparr>"

text \<open>
  The statements for the rows of one server. \<open>cur\<close> is \<^verbatim>\<open>curYYYYMM\<close>, empty at first, and \<open>rows\<close> what the open
  statement holds; \<open>month\<close> is \<^verbatim>\<open>MakeYYYYMM_FromEpochSec\<close>, which depends on the time zone.
\<close>

definition flushCurrentInsert :: "u8 \<Rightarrow> string \<Rightarrow> stDBinfo list option \<Rightarrow> db_sql list" where
  "flushCurrentInsert serverNo cur rows =
     (case rows of None \<Rightarrow> [] | Some rs \<Rightarrow> if rs = [] then [] else [InsertRows cur serverNo rs])"

fun insert_rows :: "(u32 \<Rightarrow> string) \<Rightarrow> u8 \<Rightarrow> string \<Rightarrow> stDBinfo list option \<Rightarrow> stDBinfo list \<Rightarrow> db_sql list" where
  "insert_rows month serverNo cur rows [] = flushCurrentInsert serverNo cur rows"
| "insert_rows month serverNo cur rows (i # is) =
     (let yyyymm = month (in_TimeStamp i);
          (before, cur1, rows1) =
            (if cur = [] then ([CreateTable yyyymm], yyyymm, rows)
             else if cur \<noteq> yyyymm then (flushCurrentInsert serverNo cur rows @ [CreateTable yyyymm], yyyymm, None)
             else ([], cur, rows));
          open_rows = (case rows1 of None \<Rightarrow> [] | Some rs \<Rightarrow> rs)
      in before @ insert_rows month serverNo cur1 (Some (open_rows @ [i])) is)"

definition HandleDBLogInsert :: "(u32 \<Rightarrow> string) \<Rightarrow> MonitorServer \<Rightarrow> MonitorServer" where
  "HandleDBLogInsert month s =
     s\<lparr>mon_sql := mon_sql s @ concat (map (\<lambda>(no, S). if infos S = [] then [] else insert_rows month no [] None (infos S)) (dbinfoSet_hash s)),
       rowCount := rowCount s + sum_list (map (\<lambda>(no, S). length (infos S)) (dbinfoSet_hash s)),
       dbinfoSet_hash := map (\<lambda>(no, S). (no, if infos S = [] then S else InitInfoSet S)) (dbinfoSet_hash s)\<rparr>"

definition DBWorkerThread_step :: "(u32 \<Rightarrow> string) \<Rightarrow> MonitorServer \<Rightarrow> MonitorServer option" where
  "DBWorkerThread_step month s =
     (case mon_dbq s of
        [] \<Rightarrow> Some s
      | job # jobs \<Rightarrow>
          let s1 = s\<lparr>mon_dbq := jobs, m_DBMessageCnt := m_DBMessageCnt s - 1\<rparr>
          in (case job of DBPost msg \<Rightarrow> HandleDBLogPost msg s1 | DBStore \<Rightarrow> Some (HandleDBLogInsert month s1)))"

end
