(* ===== verification/MonitorInv.thy ===== *)
theory MonitorInv
  imports Monitor
begin

text \<open>
  What the tables of the monitor server keep in every reachable state, and what its requests do to its
  clients. An event is one call of a handler by the network library, a round of the heartbeat thread, a tick
  of the timer or a job of the database thread; \<open>month\<close> is the time zone's month of a second.
\<close>

datatype mon_event = MonAccept mon_input u64 string u16 | MonRecv mon_input u64 CMessage | MonRelease u64
  | MonHeartBeat mon_input | MonTimer | MonDB

fun mon_do :: "(u32 \<Rightarrow> string) \<Rightarrow> mon_event \<Rightarrow> MonitorServer \<Rightarrow> MonitorServer option" where
  "mon_do month (MonAccept inp k ip port) s = Some (snd (mon_OnAccept inp k ip port s))"
| "mon_do month (MonRecv inp k m) s = mon_OnRecv inp k m s"
| "mon_do month (MonRelease k) s = Some (mon_OnRelease k s)"
| "mon_do month (MonHeartBeat inp) s = Some (mon_HeartBeat inp s)"
| "mon_do month MonTimer s = Some (DB_StoreRequest s)"
| "mon_do month MonDB s = DBWorkerThread_step month s"

fun mon_run :: "(u32 \<Rightarrow> string) \<Rightarrow> mon_event list \<Rightarrow> MonitorServer \<Rightarrow> MonitorServer option" where
  "mon_run month [] s = Some s"
| "mon_run month (e # es) s = (case mon_do month e s of None \<Rightarrow> None | Some s1 \<Rightarrow> mon_run month es s1)"

lemma mon_run_induct [consumes 2, case_names step]:
  assumes "mon_run month es s = Some s'" "I s"
    and step: "\<And>e s s'. e \<in> set es \<Longrightarrow> I s \<Longrightarrow> mon_do month e s = Some s' \<Longrightarrow> I s'"
  shows "I s'"
  using assms
proof (induction es arbitrary: s)
  case (Cons e es)
  then obtain s1 where s1: "mon_do month e s = Some s1" "mon_run month es s1 = Some s'"
    by (auto split: option.splits)
  show ?case
  proof (rule Cons.IH [OF s1(2)])
    show "I s1" using Cons.prems(2,3) s1(1) by auto
  qed (use Cons.prems(3) in auto)
qed simp

section \<open>Invariant\<close>

definition keys_ok :: "(u64 \<times> nat) list \<Rightarrow> (u64 \<times> nat) list \<Rightarrow> bool" where
  "keys_ok wait ses \<longleftrightarrow> distinct (map fst (wait @ ses))"

definition places_ok :: "(u64 \<times> nat) list \<Rightarrow> (u64 \<times> nat) list \<Rightarrow> nat list \<Rightarrow> mon_player list \<Rightarrow> bool" where
  "places_ok wait ses free ps \<longleftrightarrow>
     distinct (map snd (wait @ ses) @ free) \<and> (\<forall>p \<in> set (map snd (wait @ ses) @ free). p < length ps)"

definition owners_ok :: "(u64 \<times> nat) list \<Rightarrow> (u64 \<times> nat) list \<Rightarrow> mon_player list \<Rightarrow> bool" where
  "owners_ok wait ses ps \<longleftrightarrow> (\<forall>(k, p) \<in> set (wait @ ses). mp_sessionID (ps ! p) = k)"

definition logged_in :: "mon_player \<Rightarrow> bool" where
  "logged_in x \<longleftrightarrow> mp_type x = MonitorClient \<or> (mp_type x = server_type (mp_ServerNo x) \<and> sint (mp_ServerNo x) < 50)"

definition servers_ok :: "(u64 \<times> nat) list \<Rightarrow> (u32 \<times> nat) list \<Rightarrow> mon_player list \<Rightarrow> bool" where
  "servers_ok ses srv ps \<longleftrightarrow>
     (\<forall>n p. map_of srv n = Some p \<longleftrightarrow>
        (\<exists>k. (k, p) \<in> set ses) \<and> mp_type (ps ! p) \<noteq> MonitorClient \<and> mp_ServerNo (ps ! p) = n)"

definition types_ok :: "(u64 \<times> nat) list \<Rightarrow> mon_player list \<Rightarrow> bool" where
  "types_ok ses ps \<longleftrightarrow> (\<forall>(k, p) \<in> set ses. logged_in (ps ! p))"

definition mon_ok :: "MonitorServer \<Rightarrow> bool" where
  "mon_ok s \<longleftrightarrow> keys_ok (mon_wait s) (mon_session s) \<and>
     places_ok (mon_wait s) (mon_session s) (mon_free s) (mon_players s) \<and>
     owners_ok (mon_wait s) (mon_session s) (mon_players s) \<and>
     types_ok (mon_session s) (mon_players s) \<and>
     servers_ok (mon_session s) (mon_server s) (mon_players s)"

lemmas mon_ok_defs = mon_ok_def keys_ok_def places_ok_def owners_ok_def types_ok_def servers_ok_def

lemma new_MonitorServer_ok: "mon_ok (new_MonitorServer encode)"
  by (simp add: mon_ok_defs new_MonitorServer_def)

text \<open>Each part depends on the players in use only.\<close>

lemma owners_ok_cong:
  "(\<And>x. x \<in> set (wait @ ses) \<Longrightarrow> qs ! snd x = ps ! snd x) \<Longrightarrow> owners_ok wait ses qs = owners_ok wait ses ps"
  by (simp only: owners_ok_def case_prod_unfold cong: ball_cong)

lemma types_ok_cong:
  "(\<And>x. x \<in> set ses \<Longrightarrow> qs ! snd x = ps ! snd x) \<Longrightarrow> types_ok ses qs = types_ok ses ps"
  by (simp add: types_ok_def case_prod_unfold cong: ball_cong)

lemma servers_ok_cong:
  assumes "\<And>x. x \<in> set ses \<Longrightarrow> qs ! snd x = ps ! snd x"
  shows "servers_ok ses srv qs = servers_ok ses srv ps"
proof -
  have "((\<exists>k. (k, q) \<in> set ses) \<and> mp_type (qs ! q) \<noteq> MonitorClient \<and> mp_ServerNo (qs ! q) = n) =
    ((\<exists>k. (k, q) \<in> set ses) \<and> mp_type (ps ! q) \<noteq> MonitorClient \<and> mp_ServerNo (ps ! q) = n)" for n q
    using assms by fastforce
  then show ?thesis by (simp add: servers_ok_def)
qed

lemma unused_place: "p \<notin> set (map snd xs) \<Longrightarrow> x \<in> set xs \<Longrightarrow> ps[p := y] ! snd x = ps ! snd x"
  by (metis image_eqI list.set_map nth_list_update_neq)

lemma unused_ok:
  assumes "p \<notin> set (map snd (wait @ ses))"
  shows "owners_ok wait ses (ps[p := y]) = owners_ok wait ses ps" "types_ok ses (ps[p := y]) = types_ok ses ps"
    "servers_ok ses srv (ps[p := y]) = servers_ok ses srv ps"
  using unused_place [OF assms, of _ ps y]
  by (auto intro!: owners_ok_cong types_ok_cong servers_ok_cong)

text \<open>The state the tables are in.\<close>

definition same_tables :: "MonitorServer \<Rightarrow> MonitorServer \<Rightarrow> bool" where
  "same_tables s s' \<longleftrightarrow> mon_wait s' = mon_wait s \<and> mon_session s' = mon_session s \<and> mon_server s' = mon_server s \<and>
     mon_free s' = mon_free s \<and> length (mon_players s') = length (mon_players s) \<and>
     (\<forall>p. mp_type (mon_players s' ! p) = mp_type (mon_players s ! p) \<and>
          mp_ServerNo (mon_players s' ! p) = mp_ServerNo (mon_players s ! p) \<and>
          mp_ipAddress (mon_players s' ! p) = mp_ipAddress (mon_players s ! p) \<and>
          mp_sessionID (mon_players s' ! p) = mp_sessionID (mon_players s ! p))"

lemma same_tables_refl [simp]: "same_tables s s"
  by (simp add: same_tables_def)

lemma same_tables_trans: "same_tables s s1 \<Longrightarrow> same_tables s1 s2 \<Longrightarrow> same_tables s s2"
  by (simp add: same_tables_def)

lemma same_tables_ok: "same_tables s s' \<Longrightarrow> mon_ok s \<Longrightarrow> mon_ok s'"
  by (auto simp: same_tables_def mon_ok_defs logged_in_def)

lemma same_tables_calls [simp]:
  "same_tables s (mcall c s') = same_tables s s'" "same_tables s (mon_cut k m s') = same_tables s s'"
  by (simp_all add: same_tables_def mcall_def mon_cut_def)

lemma same_tables_db [simp]:
  "same_tables s (s'\<lparr>mon_dbq := q, m_DBMessageCnt := n\<rparr>) = same_tables s s'"
  "same_tables s (s'\<lparr>dbinfoSet_hash := h\<rparr>) = same_tables s s'"
  "same_tables s (s'\<lparr>mon_dbq := q\<rparr>) = same_tables s s'"
  "same_tables s (s'\<lparr>mon_sql := l, rowCount := r, dbinfoSet_hash := h\<rparr>) = same_tables s s'"
  "same_tables s (s'\<lparr>mon_calls := c\<rparr>) = same_tables s s'"
  "same_tables s (s'\<lparr>mon_sql := l\<rparr>) = same_tables s s'" "same_tables s (s'\<lparr>rowCount := r\<rparr>) = same_tables s s'"
  "same_tables s (s'\<lparr>m_DBMessageCnt := n\<rparr>) = same_tables s s'"
  by (simp_all add: same_tables_def)

lemma same_tables_stamp [simp]: "same_tables s (upd_mp p (\<lambda>x. x\<lparr>mp_Timer := t\<rparr>) s') = same_tables s s'"
proof -
  have "\<forall>q. mp_type ((mon_players s')[p := (mon_players s' ! p)\<lparr>mp_Timer := t\<rparr>] ! q) = mp_type (mon_players s' ! q) \<and>
    mp_ServerNo ((mon_players s')[p := (mon_players s' ! p)\<lparr>mp_Timer := t\<rparr>] ! q) = mp_ServerNo (mon_players s' ! q) \<and>
    mp_ipAddress ((mon_players s')[p := (mon_players s' ! p)\<lparr>mp_Timer := t\<rparr>] ! q) = mp_ipAddress (mon_players s' ! q) \<and>
    mp_sessionID ((mon_players s')[p := (mon_players s' ! p)\<lparr>mp_Timer := t\<rparr>] ! q) = mp_sessionID (mon_players s' ! q)"
    by (cases "p < length (mon_players s')") (auto simp: nth_list_update list_update_beyond)
  then show ?thesis by (simp add: same_tables_def upd_mp_def)
qed

lemma upd_mp_fields [simp]:
  "mon_wait (upd_mp p f s) = mon_wait s" "mon_session (upd_mp p f s) = mon_session s"
  "mon_server (upd_mp p f s) = mon_server s" "mon_free (upd_mp p f s) = mon_free s"
  "mon_calls (upd_mp p f s) = mon_calls s" "mon_dbq (upd_mp p f s) = mon_dbq s"
  "m_DBMessageCnt (upd_mp p f s) = m_DBMessageCnt s" "dbinfoSet_hash (upd_mp p f s) = dbinfoSet_hash s"
  "mon_sql (upd_mp p f s) = mon_sql s" "mon_players (upd_mp p f s) = (mon_players s)[p := f (mon_players s ! p)]"
  by (simp_all add: upd_mp_def)

lemma mcall_fields [simp]:
  "mon_wait (mcall c s) = mon_wait s" "mon_session (mcall c s) = mon_session s"
  "mon_server (mcall c s) = mon_server s" "mon_free (mcall c s) = mon_free s"
  "mon_calls (mcall c s) = mon_calls s @ [c]" "mon_dbq (mcall c s) = mon_dbq s"
  "m_DBMessageCnt (mcall c s) = m_DBMessageCnt s" "dbinfoSet_hash (mcall c s) = dbinfoSet_hash s"
  "mon_sql (mcall c s) = mon_sql s" "mon_players (mcall c s) = mon_players s"
  by (simp_all add: mcall_def)

lemma mon_ok_mcall [simp]: "mon_ok (mcall c s) = mon_ok s" "mon_ok (mon_cut k m s) = mon_ok s"
  by (simp_all add: mon_ok_def mcall_def mon_cut_def)

lemma mon_Alloc_facts:
  assumes ok: "mon_ok s" and a: "mon_Alloc s = (p, s1)"
  shows "mon_ok s1" "p \<notin> set (map snd (mon_wait s1 @ mon_session s1) @ mon_free s1)" "p < length (mon_players s1)"
    "mon_wait s1 = mon_wait s" "mon_session s1 = mon_session s" "mon_server s1 = mon_server s"
    "\<And>q. q < length (mon_players s) \<Longrightarrow> mon_players s1 ! q = mon_players s ! q"
proof (atomize (full), goal_cases)
  case 1
  show ?case
  proof (cases "mon_free s")
    case Nil
    have lt: "q < length (mon_players s)" if "q \<in> set (map snd (mon_wait s @ mon_session s) @ mon_free s)" for q
      using ok that unfolding mon_ok_def places_ok_def by blast
    have s1: "p = length (mon_players s)" "s1 = s\<lparr>mon_players := mon_players s @ [new_mon_player]\<rparr>"
      using a by (auto simp: mon_Alloc_def Nil)
    have eq: "mon_players s1 ! snd x = mon_players s ! snd x" if "x \<in> set (mon_wait s @ mon_session s)" for x
      using lt [of "snd x"] that by (auto simp: nth_append s1)
    have "owners_ok (mon_wait s) (mon_session s) (mon_players s1)" "types_ok (mon_session s) (mon_players s1)"
      "servers_ok (mon_session s) (mon_server s) (mon_players s1)"
      using ok owners_ok_cong [OF eq] types_ok_cong [of _ "mon_players s1" "mon_players s"] servers_ok_cong [of _ "mon_players s1" "mon_players s"] eq
      by (simp_all add: mon_ok_def)
    moreover have "places_ok (mon_wait s) (mon_session s) (mon_free s) (mon_players s1)"
      using ok less_SucI [OF lt] by (simp only: mon_ok_def places_ok_def s1) simp
    ultimately show ?thesis using ok lt by (fastforce simp: mon_ok_def s1 nth_append Nil)
  next
    case (Cons q ps)
    then have s1: "p = q" "s1 = s\<lparr>mon_free := ps\<rparr>" using a by (auto simp: mon_Alloc_def)
    then show ?thesis using ok Cons by (auto simp: mon_ok_def places_ok_def)
  qed
qed

lemma mon_OnAccept_ok:
  assumes "mon_ok s"
  shows "mon_ok (snd (mon_OnAccept inp k ip port s))"
proof (cases "map_of (mon_session s) k = None \<and> map_of (mon_wait s) k = None")
  case True
  obtain p s1 where a: "mon_Alloc s = (p, s1)" by (cases "mon_Alloc s")
  note f = mon_Alloc_facts [OF assms a]
  have fresh: "p \<notin> set (map snd (mon_wait s1 @ mon_session s1))" "p \<notin> set (mon_free s1)" "p \<notin> set (map snd (mon_session s1))"
    using f(2) by auto
  have k: "k \<notin> set (map fst (mon_wait s1 @ mon_session s1))"
    using True f(4,5) by (simp add: map_of_eq_None_iff image_Un)
  let ?x = "(mon_players s1 ! p)\<lparr>mp_type := enClientType_Max, mp_Timer := mi_now inp, mp_sessionID := k, mp_ServerNo := 0, mp_ipAddress := ip, mp_port := port\<rparr>"
  have s': "snd (mon_OnAccept inp k ip port s) = upd_mp p (\<lambda>_. ?x) (s1\<lparr>mon_wait := (k, p) # mon_wait s1\<rparr>)"
    using True by (simp add: mon_OnAccept_def a upd_mp_def)
  have ok: "keys_ok (mon_wait s1) (mon_session s1)" "places_ok (mon_wait s1) (mon_session s1) (mon_free s1) (mon_players s1)"
    "owners_ok (mon_wait s1) (mon_session s1) (mon_players s1)" "types_ok (mon_session s1) (mon_players s1)"
    "servers_ok (mon_session s1) (mon_server s1) (mon_players s1)"
    using f(1) by (simp_all add: mon_ok_def)
  have "keys_ok ((k, p) # mon_wait s1) (mon_session s1)" using ok(1) k by (simp add: keys_ok_def)
  moreover have "places_ok ((k, p) # mon_wait s1) (mon_session s1) (mon_free s1) ((mon_players s1)[p := ?x])"
    using ok(2) fresh f(3) by (auto simp: places_ok_def)
  moreover have "owners_ok ((k, p) # mon_wait s1) (mon_session s1) ((mon_players s1)[p := ?x])"
    using ok(3) unused_ok(1) [OF fresh(1), of "mon_players s1" ?x] f(3) by (simp add: owners_ok_def)
  ultimately show ?thesis using ok unused_ok(2,3) [OF fresh(1)] by (simp add: s' mon_ok_def)
qed (use assms in \<open>auto simp: mon_OnAccept_def\<close>)

lemma taken_out:
  assumes "distinct (map fst xs)" "map_of xs k = Some p"
  obtains us vs where "xs = us @ (k, p) # vs" "AList.delete k xs = us @ vs"
proof -
  obtain us vs where xs: "xs = us @ (k, p) # vs"
    using split_list [OF map_of_SomeD [OF assms(2)]] by blast
  then have "(k, q) \<notin> set (us @ vs)" for q using assms(1) by force
  then have "filter (\<lambda>(k', _). k \<noteq> k') us = us" "filter (\<lambda>(k', _). k \<noteq> k') vs = vs"
    by (auto simp: filter_id_conv)
  then have "AList.delete k xs = us @ vs" by (simp add: xs AList.delete_eq)
  with xs show ?thesis by (rule that)
qed

lemma server_type_not_client [simp]: "server_type n \<noteq> MonitorClient" "server_type n \<in> {ChatServer, LoginServer, GameServer}"
  by (simp_all add: server_type_def)

lemma server_kinds: "logged_in x \<Longrightarrow> (mp_type x \<in> {ChatServer, LoginServer, GameServer}) = (mp_type x \<noteq> MonitorClient)"
  using server_type_not_client(2) [of "mp_ServerNo x"] by (auto simp: logged_in_def)

lemma servers_ok_release:
  assumes srv: "servers_ok (us @ (k, p) # vs) srv ps" and p: "p \<notin> set (map snd (us @ vs))"
  shows "servers_ok (us @ vs) (if mp_type (ps ! p) \<noteq> MonitorClient then AList.delete (mp_ServerNo (ps ! p)) srv else srv) ps"
proof -
  let ?srv = "if mp_type (ps ! p) \<noteq> MonitorClient then AList.delete (mp_ServerNo (ps ! p)) srv else srv"
  define U where "U q \<longleftrightarrow> (\<exists>k'. (k', q) \<in> set (us @ vs))" for q
  have "(\<exists>k'. (k', q) \<in> set (us @ (k, p) # vs)) \<longleftrightarrow> q = p \<or> U q" for q
    by (auto simp: U_def)
  then have S: "map_of srv n = Some q \<longleftrightarrow> (q = p \<or> U q) \<and> mp_type (ps ! q) \<noteq> MonitorClient \<and> mp_ServerNo (ps ! q) = n" for n q
    using srv by (simp only: servers_ok_def)
  have not_p: "\<not> U p" using p by (force simp: U_def)
  have "map_of ?srv n = Some q \<longleftrightarrow> U q \<and> mp_type (ps ! q) \<noteq> MonitorClient \<and> mp_ServerNo (ps ! q) = n" for n q
  proof (cases "mp_type (ps ! p) \<noteq> MonitorClient")
    case True
    then have "map_of srv (mp_ServerNo (ps ! p)) = Some p" using S by blast
    then have "U q \<Longrightarrow> mp_type (ps ! q) \<noteq> MonitorClient \<Longrightarrow> mp_ServerNo (ps ! q) \<noteq> mp_ServerNo (ps ! p)" for q
      using S [of "mp_ServerNo (ps ! p)" q] not_p by auto
    moreover have "map_of ?srv n = (if n = mp_ServerNo (ps ! p) then None else map_of srv n)"
      using True by (simp add: AList.delete_conv')
    ultimately show ?thesis using S [of n q] by auto
  next
    case False
    then show ?thesis using not_p by (auto simp: S)
  qed
  then show ?thesis unfolding servers_ok_def U_def by blast
qed

text \<open>An entry leaves one of the two tables and its place becomes free.\<close>

lemma keys_ok_out:
  "keys_ok (us @ (k, p) # vs) ses \<Longrightarrow> keys_ok (us @ vs) ses \<and> k \<notin> set (map fst (us @ vs @ ses))"
  "keys_ok wait (us @ (k, p) # vs) \<Longrightarrow> keys_ok wait (us @ vs) \<and> k \<notin> set (map fst (wait @ us @ vs))"
  unfolding keys_ok_def by auto

lemma places_ok_out:
  "places_ok (us @ (k, p) # vs) ses free ps \<Longrightarrow>
   p < length ps \<and> p \<notin> set (map snd (us @ vs @ ses) @ free) \<and> places_ok (us @ vs) ses free ps \<and> places_ok (us @ vs) ses (p # free) ps"
  "places_ok wait (us @ (k, p) # vs) free ps \<Longrightarrow>
   p < length ps \<and> p \<notin> set (map snd (wait @ us @ vs) @ free) \<and> places_ok wait (us @ vs) free ps \<and> places_ok wait (us @ vs) (p # free) ps"
proof -
  have perm: "distinct (xs @ x # ys) \<longleftrightarrow> x \<notin> set (xs @ ys) \<and> distinct (xs @ ys)" for x :: nat and xs ys
    by auto
  show "places_ok (us @ (k, p) # vs) ses free ps \<Longrightarrow>
    p < length ps \<and> p \<notin> set (map snd (us @ vs @ ses) @ free) \<and> places_ok (us @ vs) ses free ps \<and> places_ok (us @ vs) ses (p # free) ps"
    using perm [of "map snd us" p "map snd vs @ map snd ses @ free"] perm [of "map snd us @ map snd vs @ map snd ses" p free]
    by (simp add: places_ok_def del: distinct_append)
  show "places_ok wait (us @ (k, p) # vs) free ps \<Longrightarrow>
    p < length ps \<and> p \<notin> set (map snd (wait @ us @ vs) @ free) \<and> places_ok wait (us @ vs) free ps \<and> places_ok wait (us @ vs) (p # free) ps"
    using perm [of "map snd wait @ map snd us" p "map snd vs @ free"] perm [of "map snd wait @ map snd us @ map snd vs" p free]
    by (simp add: places_ok_def del: distinct_append)
qed

lemma owners_ok_out:
  "owners_ok (us @ (k, p) # vs) ses ps \<Longrightarrow> owners_ok (us @ vs) ses ps \<and> mp_sessionID (ps ! p) = k"
  "owners_ok wait (us @ (k, p) # vs) ps \<Longrightarrow> owners_ok wait (us @ vs) ps \<and> mp_sessionID (ps ! p) = k"
  by (simp_all add: owners_ok_def)

lemma mon_OnRelease_ok:
  assumes ok: "mon_ok s"
  shows "mon_ok (mon_OnRelease k s)"
proof -
  have parts: "keys_ok (mon_wait s) (mon_session s)" "places_ok (mon_wait s) (mon_session s) (mon_free s) (mon_players s)"
    "owners_ok (mon_wait s) (mon_session s) (mon_players s)" "types_ok (mon_session s) (mon_players s)"
    "servers_ok (mon_session s) (mon_server s) (mon_players s)"
    using ok by (simp_all add: mon_ok_def)
  have keys: "distinct (map fst (mon_wait s))" "distinct (map fst (mon_session s))"
    using parts(1) by (simp_all add: keys_ok_def)
  show ?thesis
  proof (cases "map_of (mon_session s) k")
    case (Some p)
    obtain us vs where ses: "mon_session s = us @ (k, p) # vs" and del: "AList.delete k (mon_session s) = us @ vs"
      using taken_out [OF keys(2) Some] by blast
    have in_ses: "logged_in (mon_players s ! p)" "types_ok (us @ vs) (mon_players s)"
      using parts(4) by (simp_all add: types_ok_def ses)
    have kind: "(mp_type (mon_players s ! p) \<in> {ChatServer, LoginServer, GameServer}) = (mp_type (mon_players s ! p) \<noteq> MonitorClient)"
      by (rule server_kinds [OF in_ses(1)])
    note places = places_ok_out(2) [OF parts(2) [unfolded ses]]
    then have "p \<notin> set (map snd (us @ vs))" by simp
    note srv = servers_ok_release [OF parts(5) [unfolded ses] this]
    have s': "mon_OnRelease k s = s\<lparr>mon_session := us @ vs,
        mon_server := (if mp_type (mon_players s ! p) \<noteq> MonitorClient then AList.delete (mp_ServerNo (mon_players s ! p)) (mon_server s) else mon_server s),
        mon_free := p # mon_free s\<rparr>"
      unfolding mon_OnRelease_def Some option.case Let_def kind del by simp
    show ?thesis
      using keys_ok_out(2) [OF parts(1) [unfolded ses]] owners_ok_out(2) [OF parts(3) [unfolded ses]] places in_ses(2) srv
      unfolding s' mon_ok_def by simp
  next
    case None
    note ses = None
    show ?thesis
    proof (cases "map_of (mon_wait s) k")
      case (Some p)
      obtain us vs where w: "mon_wait s = us @ (k, p) # vs" and del: "AList.delete k (mon_wait s) = us @ vs"
        using taken_out [OF keys(1) Some] by blast
      have s': "mon_OnRelease k s = s\<lparr>mon_wait := us @ vs, mon_free := p # mon_free s\<rparr>"
        by (simp add: mon_OnRelease_def ses Some del)
      show ?thesis
        using keys_ok_out(1) [OF parts(1) [unfolded w]] owners_ok_out(1) [OF parts(3) [unfolded w]]
          places_ok_out(1) [OF parts(2) [unfolded w]] parts(4,5)
        unfolding s' mon_ok_def by simp
    qed (simp add: mon_OnRelease_def ses ok)
  qed
qed

text \<open>The player of a client that waits moves to the table of the clients that are logged in.\<close>

lemma owners_ok_same:
  "owners_ok wait ses ps \<Longrightarrow> mp_sessionID y = mp_sessionID (ps ! p) \<Longrightarrow> owners_ok wait ses (ps[p := y])"
  unfolding owners_ok_def by (cases "p < length ps") (auto simp: nth_list_update list_update_beyond)

lemma servers_ok_login:
  assumes srv: "servers_ok ses srv ps" and p: "p \<notin> set (map snd ses)" "p < length ps"
    and x: "mp_type x \<noteq> MonitorClient" "map_of srv (mp_ServerNo x) = None"
  shows "servers_ok ((k, p) # ses) ((mp_ServerNo x, p) # srv) (ps[p := x])"
proof -
  define U where "U q \<longleftrightarrow> (\<exists>k'. (k', q) \<in> set ses)" for q
  have S: "map_of srv n = Some q \<longleftrightarrow> U q \<and> mp_type (ps ! q) \<noteq> MonitorClient \<and> mp_ServerNo (ps ! q) = n" for n q
    using srv by (simp only: servers_ok_def U_def)
  have "U q \<Longrightarrow> q \<noteq> p" for q using p by (force simp: U_def)
  then have "map_of ((mp_ServerNo x, p) # srv) n = Some q \<longleftrightarrow>
      (q = p \<or> U q) \<and> mp_type (ps[p := x] ! q) \<noteq> MonitorClient \<and> mp_ServerNo (ps[p := x] ! q) = n" for n q
    using p(2) x S [of n q] by (cases "q = p") (auto simp: nth_list_update)
  moreover have "(q = p \<or> U q) \<longleftrightarrow> (\<exists>k'. (k', q) \<in> set ((k, p) # ses))" for q
    by (auto simp: U_def)
  ultimately show ?thesis unfolding servers_ok_def by simp
qed

lemma servers_ok_tool:
  assumes srv: "servers_ok ses srv ps" and p: "p \<notin> set (map snd ses)" "p < length ps" and x: "mp_type x = MonitorClient"
  shows "servers_ok ((k, p) # ses) srv (ps[p := x])"
proof -
  have "servers_ok ses srv (ps[p := x])" using srv unused_ok(3) [of p "[]" ses srv ps x] p(1) by simp
  moreover have "ps[p := x] ! p = x" using p(2) by simp
  ultimately show ?thesis using x by (auto simp: servers_ok_def)
qed

lemma types_ok_login:
  assumes "types_ok ses ps" "p \<notin> set (map snd ses)" "p < length ps" "logged_in x"
  shows "types_ok ((k, p) # ses) (ps[p := x])"
  using assms unused_ok(2) [of p "[]" ses ps x] by (simp add: types_ok_def)

lemma mon_ok_login:
  assumes ok: "mon_ok s" and k: "map_of (mon_wait s) k = Some p"
    and x: "mp_sessionID x = mp_sessionID (mon_players s ! p)" "logged_in x"
    and srv: "servers_ok ((k, p) # mon_session s) srv ((mon_players s)[p := x])"
  shows "mon_ok (s\<lparr>mon_wait := AList.delete k (mon_wait s), mon_session := (k, p) # mon_session s,
            mon_server := srv, mon_players := (mon_players s)[p := x]\<rparr>)"
proof -
  have parts: "keys_ok (mon_wait s) (mon_session s)" "places_ok (mon_wait s) (mon_session s) (mon_free s) (mon_players s)"
    "owners_ok (mon_wait s) (mon_session s) (mon_players s)" "types_ok (mon_session s) (mon_players s)"
    using ok by (simp_all add: mon_ok_def)
  obtain us vs where w: "mon_wait s = us @ (k, p) # vs" and del: "AList.delete k (mon_wait s) = us @ vs"
    using taken_out [OF _ k] parts(1) by (auto simp: keys_ok_def)
  note key = keys_ok_out(1) [OF parts(1) [unfolded w]]
  note place = places_ok_out(1) [OF parts(2) [unfolded w]]
  note owner = owners_ok_out(1) [OF parts(3) [unfolded w]]
  have "keys_ok (us @ vs) ((k, p) # mon_session s)"
    using key by (simp add: keys_ok_def)
  moreover have "places_ok (us @ vs) ((k, p) # mon_session s) (mon_free s) ((mon_players s)[p := x])"
    using place by (simp add: places_ok_def)
  moreover have "owners_ok (us @ vs) ((k, p) # mon_session s) ((mon_players s)[p := x])"
    using owners_ok_same [of "us @ vs" "mon_session s" "mon_players s" x p] owner place x(1) by (simp add: owners_ok_def)
  moreover have "types_ok ((k, p) # mon_session s) ((mon_players s)[p := x])"
    by (rule types_ok_login [OF parts(4)]) (use place x(2) in simp_all)
  ultimately show ?thesis using srv by (simp add: mon_ok_def del)
qed

lemma waiting_place:
  assumes "mon_ok s" "map_of (mon_wait s) k = Some p"
  shows "p < length (mon_players s)" "p \<notin> set (map snd (mon_session s))" "map_of (mon_session s) k = None"
proof -
  obtain us vs where w: "mon_wait s = us @ (k, p) # vs"
    using split_list [OF map_of_SomeD [OF assms(2)]] by blast
  have parts: "keys_ok (us @ (k, p) # vs) (mon_session s)" "places_ok (us @ (k, p) # vs) (mon_session s) (mon_free s) (mon_players s)"
    using assms(1) by (simp_all add: mon_ok_def w)
  show "p < length (mon_players s)" "p \<notin> set (map snd (mon_session s))"
    using places_ok_out(1) [OF parts(2)] by simp_all
  show "map_of (mon_session s) k = None"
    using keys_ok_out(1) [OF parts(1)] by (simp add: map_of_eq_None_iff)
qed

lemma REQ_MONITOR_LOGIN_done:
  assumes "map_of (mon_wait s) k = Some p" "map_of (mon_session s) k = None" "map_of (mon_server s) no = None"
    "sint no < 50" "lan_check (mp_ipAddress (mon_players s ! p))"
  shows "REQ_MONITOR_LOGIN k m no s = s\<lparr>mon_wait := AList.delete k (mon_wait s), mon_session := (k, p) # mon_session s,
    mon_server := (no, p) # mon_server s, mon_players := (mon_players s)[p := (mon_players s ! p)\<lparr>mp_type := server_type no, mp_ServerNo := no\<rparr>]\<rparr>"
  by (rule MonitorServer.equality) (use assms in \<open>simp_all add: REQ_MONITOR_LOGIN_def upd_mp_def\<close>)

lemma REQ_MONITOR_LOGIN_ok:
  assumes ok: "mon_ok s"
  shows "mon_ok (REQ_MONITOR_LOGIN k m no s)"
proof (cases "sint no < 50 \<and> map_of (mon_server s) no = None \<and> (\<exists>p. map_of (mon_wait s) k = Some p \<and> lan_check (mp_ipAddress (mon_players s ! p)))")
  case True
  then obtain p where p: "map_of (mon_wait s) k = Some p" "lan_check (mp_ipAddress (mon_players s ! p))" "sint no < 50" "map_of (mon_server s) no = None"
    by blast
  let ?x = "(mon_players s ! p)\<lparr>mp_type := server_type no, mp_ServerNo := no\<rparr>"
  note w = waiting_place [OF ok p(1)]
  have "servers_ok ((k, p) # mon_session s) ((no, p) # mon_server s) ((mon_players s)[p := ?x])"
    using servers_ok_login [of "mon_session s" "mon_server s" "mon_players s" p ?x k] ok w p(4) by (simp add: mon_ok_def)
  then have "mon_ok (s\<lparr>mon_wait := AList.delete k (mon_wait s), mon_session := (k, p) # mon_session s,
            mon_server := (no, p) # mon_server s, mon_players := (mon_players s)[p := ?x]\<rparr>)"
    by (intro mon_ok_login [OF ok p(1)]) (use p in \<open>simp_all add: logged_in_def\<close>)
  then show ?thesis unfolding REQ_MONITOR_LOGIN_done [OF p(1) w(3) p(4,3,2)] .
qed (use ok in \<open>auto simp: REQ_MONITOR_LOGIN_def split: option.splits\<close>)

lemma mon_ok_upd_waiting:
  assumes ok: "mon_ok s" and p: "map_of (mon_wait s) k = Some p" and x: "mp_sessionID x = mp_sessionID (mon_players s ! p)"
  shows "mon_ok (s\<lparr>mon_players := (mon_players s)[p := x]\<rparr>)"
proof -
  have "p \<notin> set (map snd ([] @ mon_session s))" using waiting_place [OF ok p] by simp
  from unused_ok(2,3) [OF this] owners_ok_same [of _ _ "mon_players s" x p] show ?thesis
    using ok x by (simp add: mon_ok_def places_ok_def)
qed

lemma REQ_MONITOR_TOOL_LOGIN_ok:
  assumes ok: "mon_ok s"
  shows "mon_ok (snd (REQ_MONITOR_TOOL_LOGIN inp k m key s))"
proof (cases "gLoginKey = takeWhile (\<lambda>c. c \<noteq> 0) key \<and> map_of (mon_session s) k = None \<and> (\<exists>p. map_of (mon_wait s) k = Some p)")
  case True
  then obtain p where p: "gLoginKey = takeWhile (\<lambda>c. c \<noteq> 0) key" "map_of (mon_session s) k = None" "map_of (mon_wait s) k = Some p" by blast
  let ?x = "(mon_players s ! p)\<lparr>mp_type := MonitorClient\<rparr>"
  note w = waiting_place [OF ok p(3)]
  have "servers_ok ((k, p) # mon_session s) (mon_server s) ((mon_players s)[p := ?x])"
    by (rule servers_ok_tool) (use ok w in \<open>simp_all add: mon_ok_def\<close>)
  then have 1: "mon_ok (s\<lparr>mon_wait := AList.delete k (mon_wait s), mon_session := (k, p) # mon_session s,
            mon_server := mon_server s, mon_players := (mon_players s)[p := ?x]\<rparr>)"
    by (intro mon_ok_login [OF ok p(3)]) (simp_all add: logged_in_def)
  have 2: "mon_ok (s\<lparr>mon_players := (mon_players s)[p := ?x]\<rparr>)"
    by (rule mon_ok_upd_waiting [OF ok p(3)]) simp
  show ?thesis
    using p w(1,3) 1 2
    by (cases "lan_check (mp_ipAddress (mon_players s ! p))")
      (simp_all add: REQ_MONITOR_TOOL_LOGIN_def upd_mp_def Let_def mon_ok_def split: sum.split)
next
  case False
  then have "REQ_MONITOR_TOOL_LOGIN inp k m key s = (None, mon_cut k m s)"
    by (cases "map_of (mon_wait s) k") (simp_all add: REQ_MONITOR_TOOL_LOGIN_def)
  then show ?thesis using ok by simp
qed

section \<open>Requests and events\<close>

lemma mon_handled_state: "mon_handled r = Some (b, s1) \<Longrightarrow> s1 = snd r"
  by (cases r) (auto simp: mon_handled_def mon_caught_def split: option.splits if_splits)

lemma DB_LogPost_tables: "same_tables s (snd (DB_LogPost inp no t v ts s))"
  by (simp add: DB_LogPost_def Let_def split: sum.split)

lemma REQ_MONITOR_UPDATE_tables: "same_tables s (snd (REQ_MONITOR_UPDATE inp k m t v ts s))"
proof (cases "map_of (mon_session s) k")
  case (Some p)
  obtain eo s1 where d: "DB_LogPost inp (ucast (mp_ServerNo (mon_players s ! p))) t v ts s = (eo, s1)"
    by (cases "DB_LogPost inp (ucast (mp_ServerNo (mon_players s ! p))) t v ts s")
  have "same_tables s s1" using DB_LogPost_tables [of s inp "ucast (mp_ServerNo (mon_players s ! p))" t v ts] by (simp add: d)
  then show ?thesis
    by (cases eo) (simp_all add: REQ_MONITOR_UPDATE_def Some d Let_def split: sum.split)
qed (simp add: REQ_MONITOR_UPDATE_def)

lemma mon_echo_update_tables: "same_tables s (snd (mon_echo_update inp k m fs s))"
  by (simp add: mon_echo_update_def split: sum.split)

lemma mon_HeartBeat_tables: "same_tables s (mon_HeartBeat inp s)"
  by (simp add: mon_HeartBeat_def Let_def)

lemma DB_StoreRequest_tables: "same_tables s (DB_StoreRequest s)"
  by (simp add: DB_StoreRequest_def)

lemma DB_step_tables: "DBWorkerThread_step month s = Some s' \<Longrightarrow> same_tables s s'"
  by (auto simp: DBWorkerThread_step_def HandleDBLogPost_def HandleDBLogInsert_def Let_def
      split: list.splits db_job.splits sum.splits prod.splits)

text \<open>What a request does: a server's login, a tool's login, or nothing to the tables.\<close>

lemma mon_PacketProc_cases:
  assumes "mon_PacketProc inp k m w s = Some (b, s1)"
  obtains (server) no m1 where "w = en_PACKET_SS_MONITOR_LOGIN" "msg_shr m 4 = Inr (no, m1)" "b"
      "s1 = REQ_MONITOR_LOGIN k m1 (bytes_word no) s"
    | (tool) key m1 where "w = en_PACKET_CS_MONITOR_TOOL_REQ_LOGIN" "GetData m 32 = Inr (key, m1)"
      "mon_handled (REQ_MONITOR_TOOL_LOGIN inp k m1 key s) = Some (b, s1)"
    | (no_server) e where "w = en_PACKET_SS_MONITOR_LOGIN" "msg_shr m 4 = Inl e" "\<not> b" "s1 = s"
    | (no_tool) e where "w = en_PACKET_CS_MONITOR_TOOL_REQ_LOGIN" "GetData m 32 = Inl e" "\<not> b" "s1 = s"
    | (update) "w \<noteq> en_PACKET_SS_MONITOR_LOGIN" "w \<noteq> en_PACKET_CS_MONITOR_TOOL_REQ_LOGIN" "same_tables s s1"
proof (cases "w = en_PACKET_SS_MONITOR_LOGIN")
  case True
  show ?thesis
  proof (cases "msg_shr m 4")
    case (Inl e)
    then show ?thesis using no_server assms True by (auto simp: mon_PacketProc_def mon_caught_def split: if_splits)
  next
    case (Inr r)
    then show ?thesis using server assms True by (cases r) (simp add: mon_PacketProc_def)
  qed
next
  case False
  note not_server = False
  show ?thesis
  proof (cases "w = en_PACKET_CS_MONITOR_TOOL_REQ_LOGIN")
    case True
    then have w: "w \<noteq> en_PACKET_SS_MONITOR_DATA_UPDATE" "w \<noteq> en_PACKET_CS_MONITOR_TOOL_DATA_UPDATE"
      by (simp_all add: en_PACKET_CS_MONITOR_TOOL_REQ_LOGIN_def en_PACKET_SS_MONITOR_DATA_UPDATE_def en_PACKET_CS_MONITOR_TOOL_DATA_UPDATE_def)
    show ?thesis
    proof (cases "GetData m 32")
      case (Inl e)
      then show ?thesis using no_tool assms True w not_server by (auto simp: mon_PacketProc_def mon_caught_def split: if_splits)
    next
      case (Inr r)
      then show ?thesis using tool assms True w not_server by (cases r) (simp add: mon_PacketProc_def)
    qed
  next
    case False
    have "same_tables s s1"
      using assms not_server False REQ_MONITOR_UPDATE_tables mon_echo_update_tables
      by (auto simp: mon_PacketProc_def mon_caught_def split: if_splits sum.splits prod.splits dest!: mon_handled_state)
    with not_server False show ?thesis by (rule update)
  qed
qed

lemma mon_PacketProc_ok:
  assumes "mon_ok s" "mon_PacketProc inp k m w s = Some (b, s1)"
  shows "mon_ok s1"
  using assms(2) by (cases rule: mon_PacketProc_cases)
    (use assms(1) REQ_MONITOR_LOGIN_ok REQ_MONITOR_TOOL_LOGIN_ok same_tables_ok in \<open>auto dest!: mon_handled_state\<close>)

lemma mon_OnRecv_cases:
  assumes "mon_OnRecv inp k m s = Some s'"
  obtains (bad) e where "msg_shr m 2 = Inl e" "s' = mon_cut k m s"
    | (good) w m1 s1 where "msg_shr m 2 = Inr (w, m1)" "mon_PacketProc inp k m1 (bytes_word w) s = Some (True, s1)" "s' = s1"
    | (refused) w m1 s1 where "msg_shr m 2 = Inr (w, m1)" "mon_PacketProc inp k m1 (bytes_word w) s = Some (False, s1)" "s' = mon_cut k m s1"
  using assms by (auto simp: mon_OnRecv_def split: sum.splits prod.splits option.splits bool.splits if_splits)

lemma mon_OnRecv_ok: "mon_ok s \<Longrightarrow> mon_OnRecv inp k m s = Some s' \<Longrightarrow> mon_ok s'"
  by (erule mon_OnRecv_cases) (auto dest: mon_PacketProc_ok)

lemma mon_do_ok: "mon_ok s \<Longrightarrow> mon_do month e s = Some s' \<Longrightarrow> mon_ok s'"
  by (cases e) (auto simp: mon_OnAccept_ok mon_OnRelease_ok
      dest: mon_OnRecv_ok same_tables_ok [OF DB_step_tables]
      intro: same_tables_ok [OF mon_HeartBeat_tables] same_tables_ok [OF DB_StoreRequest_tables])

lemma mon_run_ok: "mon_ok s \<Longrightarrow> mon_run month es s = Some s' \<Longrightarrow> mon_ok s'"
  by (erule mon_run_induct) (auto intro: mon_do_ok)

section \<open>Clients\<close>

text \<open>What the tables say of a session identifier.\<close>

datatype mon_client = Waiting string | Server u32 | Tool

definition mon_client_of :: "MonitorServer \<Rightarrow> u64 \<Rightarrow> mon_client option" where
  "mon_client_of s k =
     (case map_of (mon_session s) k of
        Some p \<Rightarrow> (let x = mon_players s ! p in Some (if mp_type x = MonitorClient then Tool else Server (mp_ServerNo x)))
      | None \<Rightarrow> (case map_of (mon_wait s) k of Some p \<Rightarrow> Some (Waiting (mp_ipAddress (mon_players s ! p))) | None \<Rightarrow> None))"

type_synonym mon_clients = "u64 \<Rightarrow> mon_client option"

definition spec_login :: "u64 \<Rightarrow> u32 \<Rightarrow> mon_clients \<Rightarrow> mon_clients" where
  "spec_login k no a =
     (case a k of
        Some (Waiting ip) \<Rightarrow> if sint no < 50 \<and> ip \<noteq> ''10.0.1.2'' \<and> Some (Server no) \<notin> range a then a(k \<mapsto> Server no) else a
      | _ \<Rightarrow> a)"

definition spec_tool :: "u64 \<Rightarrow> u8 list \<Rightarrow> mon_clients \<Rightarrow> mon_clients" where
  "spec_tool k key a =
     (case a k of
        Some (Waiting ip) \<Rightarrow> if gLoginKey = takeWhile (\<lambda>c. c \<noteq> 0) key \<and> ip \<noteq> ''10.0.1.2'' then a(k \<mapsto> Tool) else a
      | _ \<Rightarrow> a)"

definition spec_request :: "u64 \<Rightarrow> CMessage \<Rightarrow> mon_clients \<Rightarrow> mon_clients" where
  "spec_request k m a =
     (case msg_shr m 2 of
        Inl e \<Rightarrow> a
      | Inr (w, m1) \<Rightarrow>
          if bytes_word w = en_PACKET_SS_MONITOR_LOGIN
          then (case msg_shr m1 4 of Inl e \<Rightarrow> a | Inr (no, m2) \<Rightarrow> spec_login k (bytes_word no) a)
          else if bytes_word w = en_PACKET_CS_MONITOR_TOOL_REQ_LOGIN
          then (case GetData m1 32 of Inl e \<Rightarrow> a | Inr (key, m2) \<Rightarrow> spec_tool k key a)
          else a)"

fun mon_spec :: "mon_event \<Rightarrow> mon_clients \<Rightarrow> mon_clients" where
  "mon_spec (MonAccept inp k ip port) a = (if a k = None then a(k \<mapsto> Waiting ip) else a)"
| "mon_spec (MonRecv inp k m) a = spec_request k m a"
| "mon_spec (MonRelease k) a = a(k := None)"
| "mon_spec e a = a"

lemma lan_check_eq: "lan_check ip \<longleftrightarrow> ip \<noteq> ''10.0.1.2''"
  by (auto simp: lan_check_def LanIP_def numeral_2_eq_2)

lemma same_tables_clients: "same_tables s s' \<Longrightarrow> mon_client_of s' = mon_client_of s"
  by (rule ext) (simp add: mon_client_of_def same_tables_def Let_def split: option.split)

lemma mon_client_of_call [simp]: "mon_client_of (mcall c s) = mon_client_of s" "mon_client_of (mon_cut k m s) = mon_client_of s"
  by (rule same_tables_clients, simp)+

lemma mon_client_of_None: "mon_client_of s k = None \<longleftrightarrow> map_of (mon_session s) k = None \<and> map_of (mon_wait s) k = None"
  by (simp add: mon_client_of_def Let_def split: option.split)

lemma mon_client_of_Waiting:
  "mon_client_of s k = Some (Waiting ip) \<longleftrightarrow>
     map_of (mon_session s) k = None \<and> (\<exists>p. map_of (mon_wait s) k = Some p \<and> mp_ipAddress (mon_players s ! p) = ip)"
  by (auto simp: mon_client_of_def Let_def split: option.split)

text \<open>The client's place in use is not another client's.\<close>

lemma other_place:
  assumes ok: "mon_ok s" and k: "(k, p) \<in> set (mon_wait s @ mon_session s)" and j: "j \<noteq> k"
  shows "map_of (mon_session s) j \<noteq> Some p" "map_of (mon_wait s) j \<noteq> Some p"
proof -
  have "distinct (map snd (mon_wait s @ mon_session s))" using ok by (simp add: mon_ok_def places_ok_def) blast
  then have "inj_on snd (set (mon_wait s @ mon_session s))" by (simp only: distinct_map)
  then have "(j, p) \<notin> set (mon_wait s @ mon_session s)" using k j by (metis fst_conv inj_onD snd_conv)
  then show "map_of (mon_session s) j \<noteq> Some p" "map_of (mon_wait s) j \<noteq> Some p" by (auto dest: map_of_SomeD)
qed

lemma server_number_taken:
  assumes "mon_ok s"
  shows "Some (Server no) \<in> range (mon_client_of s) \<longleftrightarrow> map_of (mon_server s) no \<noteq> None"
proof -
  have keys: "distinct (map fst (mon_session s))" using assms by (simp add: mon_ok_def keys_ok_def)
  have "Some (Server no) \<in> range (mon_client_of s) \<longleftrightarrow>
    (\<exists>k p. map_of (mon_session s) k = Some p \<and> mp_type (mon_players s ! p) \<noteq> MonitorClient \<and> mp_ServerNo (mon_players s ! p) = no)"
    by (force simp: mon_client_of_def Let_def split: option.splits if_splits)
  also have "\<dots> \<longleftrightarrow> (\<exists>p. map_of (mon_server s) no = Some p)"
    using assms keys by (auto simp: mon_ok_def servers_ok_def)
  finally show ?thesis by (simp only: not_None_eq)
qed

lemma server_number_client:
  assumes ok: "mon_ok s" and no: "map_of (mon_server s) no = Some p"
  shows "(\<exists>k. {j. mon_client_of s j = Some (Server no)} = {k} \<and> map_of (mon_session s) k = Some p) \<and>
    mp_type (mon_players s ! p) = server_type no \<and> sint no < 50"
proof -
  have keys: "distinct (map fst (mon_session s))" using ok by (simp add: mon_ok_def keys_ok_def)
  have "servers_ok (mon_session s) (mon_server s) (mon_players s)" using ok by (simp only: mon_ok_def)
  then have S: "map_of (mon_server s) no = Some q \<longleftrightarrow>
      (\<exists>k. (k, q) \<in> set (mon_session s)) \<and> mp_type (mon_players s ! q) \<noteq> MonitorClient \<and> mp_ServerNo (mon_players s ! q) = no" for q
    by (simp only: servers_ok_def)
  obtain k where k: "(k, p) \<in> set (mon_session s)" "mp_type (mon_players s ! p) \<noteq> MonitorClient" "mp_ServerNo (mon_players s ! p) = no"
    using no S by blast
  have m: "map_of (mon_session s) k = Some p" using k(1) keys by simp
  have "logged_in (mon_players s ! p)" using ok k(1) by (auto simp: mon_ok_def types_ok_def)
  then have x: "mp_type (mon_players s ! p) = server_type no" "sint no < 50" using k(2,3) by (auto simp: logged_in_def)
  have "j = k" if j: "mon_client_of s j = Some (Server no)" for j
  proof (rule ccontr)
    assume neq: "j \<noteq> k"
    obtain q where q: "map_of (mon_session s) j = Some q" "mp_type (mon_players s ! q) \<noteq> MonitorClient" "mp_ServerNo (mon_players s ! q) = no"
      using j by (auto simp: mon_client_of_def Let_def split: option.splits if_splits)
    have "(j, q) \<in> set (mon_session s)" using q(1) by (rule map_of_SomeD)
    then have "map_of (mon_server s) no = Some q" using S q(2,3) by blast
    then have "q = p" using no by simp
    then show False using other_place(1) [OF ok _ neq, of p] k(1) q(1) by auto
  qed
  moreover have "mon_client_of s k = Some (Server no)" using m k(2,3) by (simp add: mon_client_of_def)
  ultimately have "{j. mon_client_of s j = Some (Server no)} = {k}" by blast
  then show ?thesis using x m by blast
qed

lemma mon_client_of_cong:
  assumes "map_of (mon_session s') j = map_of (mon_session s) j" "map_of (mon_wait s') j = map_of (mon_wait s) j"
    "\<And>q. map_of (mon_session s) j = Some q \<or> map_of (mon_wait s) j = Some q \<Longrightarrow> mon_players s' ! q = mon_players s ! q"
  shows "mon_client_of s' j = mon_client_of s j"
  using assms by (auto simp: mon_client_of_def Let_def split: option.split)

lemma mon_OnAccept_clients:
  assumes ok: "mon_ok s"
  shows "mon_client_of (snd (mon_OnAccept inp k ip port s)) =
    (if mon_client_of s k = None then (mon_client_of s)(k \<mapsto> Waiting ip) else mon_client_of s)"
proof (cases "mon_client_of s k = None")
  case True
  then have none: "map_of (mon_session s) k = None" "map_of (mon_wait s) k = None" by (simp_all add: mon_client_of_None)
  obtain p s1 where a: "mon_Alloc s = (p, s1)" by (cases "mon_Alloc s")
  note f = mon_Alloc_facts [OF ok a]
  let ?s = "snd (mon_OnAccept inp k ip port s)"
  let ?x = "(mon_players s1 ! p)\<lparr>mp_type := enClientType_Max, mp_Timer := mi_now inp, mp_sessionID := k, mp_ServerNo := 0, mp_ipAddress := ip, mp_port := port\<rparr>"
  have s': "?s = upd_mp p (\<lambda>_. ?x) (s1\<lparr>mon_wait := (k, p) # mon_wait s1\<rparr>)"
    using none by (simp add: mon_OnAccept_def a upd_mp_def)
  have "mon_client_of ?s k = Some (Waiting ip)"
    using none f by (simp add: s' mon_client_of_def)
  moreover have "mon_client_of ?s j = mon_client_of s j" if j: "j \<noteq> k" for j
  proof (rule mon_client_of_cong)
    fix q assume "map_of (mon_session s) j = Some q \<or> map_of (mon_wait s) j = Some q"
    then have q: "q \<in> set (map snd (mon_wait s @ mon_session s))" by (auto dest!: map_of_SomeD simp: image_iff) force+
    moreover have "p \<notin> set (map snd (mon_wait s @ mon_session s))" using f(2,4,5) by simp
    ultimately have "q \<noteq> p" by blast
    moreover have "q < length (mon_players s)" using ok q by (simp add: mon_ok_def places_ok_def) blast
    ultimately show "mon_players ?s ! q = mon_players s ! q" using f(7) by (simp add: s')
  qed (use j f in \<open>simp_all add: s'\<close>)
  ultimately show ?thesis using True by (auto simp: fun_eq_iff)
qed (auto simp: mon_OnAccept_def mon_client_of_None)

lemma mon_OnRelease_clients:
  assumes ok: "mon_ok s"
  shows "mon_client_of (mon_OnRelease k s) = (mon_client_of s)(k := None)"
proof
  have keys: "map_of (mon_wait s) k = None \<or> map_of (mon_session s) k = None"
    using waiting_place(3) [OF ok] by (cases "map_of (mon_wait s) k") auto
  have players: "mon_players (mon_OnRelease k s) = mon_players s"
    by (simp add: mon_OnRelease_def Let_def split: option.split)
  have del: "map_of (AList.delete k xs) j = (if j = k then None else map_of xs j)" for xs :: "(u64 \<times> nat) list" and j
    by (simp add: AList.delete_conv')
  have same: "map_of xs k = None \<Longrightarrow> AList.delete k xs = xs" for xs :: "(u64 \<times> nat) list"
    by (simp add: map_of_eq_None_iff)
  have gone: "mon_session (mon_OnRelease k s) = AList.delete k (mon_session s) \<and> mon_wait (mon_OnRelease k s) = AList.delete k (mon_wait s)"
  proof (cases "map_of (mon_session s) k")
    case None
    then show ?thesis using same by (cases "map_of (mon_wait s) k") (simp_all add: mon_OnRelease_def)
  next
    case (Some p)
    then have "AList.delete k (mon_wait s) = mon_wait s" using keys same by simp
    then show ?thesis using Some by (simp add: mon_OnRelease_def Let_def)
  qed
  have tables: "map_of (mon_session (mon_OnRelease k s)) j = (if j = k then None else map_of (mon_session s) j)"
      "map_of (mon_wait (mon_OnRelease k s)) j = (if j = k then None else map_of (mon_wait s) j)" for j
    by (simp_all add: gone del)
  show "mon_client_of (mon_OnRelease k s) j = ((mon_client_of s)(k := None)) j" for j
  proof (cases "j = k")
    case True
    then have "mon_client_of (mon_OnRelease k s) j = None" by (simp only: mon_client_of_None tables) simp
    then show ?thesis using True by simp
  next
    case False
    have "mon_client_of (mon_OnRelease k s) j = mon_client_of s j"
      by (rule mon_client_of_cong) (simp_all only: tables players False if_False)
    then show ?thesis using False by simp
  qed
qed

lemma mon_client_of_login:
  assumes ok: "mon_ok s" and k: "map_of (mon_wait s) k = Some p"
  shows "mon_client_of (s\<lparr>mon_wait := AList.delete k (mon_wait s), mon_session := (k, p) # mon_session s,
            mon_server := srv, mon_players := (mon_players s)[p := x]\<rparr>) =
         (mon_client_of s)(k \<mapsto> if mp_type x = MonitorClient then Tool else Server (mp_ServerNo x))" (is "mon_client_of ?s = _")
proof
  fix j
  show "mon_client_of ?s j = ((mon_client_of s)(k \<mapsto> if mp_type x = MonitorClient then Tool else Server (mp_ServerNo x))) j"
  proof (cases "j = k")
    case True
    then show ?thesis using waiting_place(1) [OF ok k] by (simp add: mon_client_of_def)
  next
    case False
    have "(k, p) \<in> set (mon_wait s @ mon_session s)" using map_of_SomeD [OF k] by simp
    note other = other_place [OF ok this False]
    have "mon_client_of ?s j = mon_client_of s j"
      by (rule mon_client_of_cong) (use False other in \<open>auto simp: AList.delete_conv' nth_list_update_neq\<close>)
    then show ?thesis using False by simp
  qed
qed

lemma REQ_MONITOR_LOGIN_clients:
  assumes ok: "mon_ok s"
  shows "mon_client_of (REQ_MONITOR_LOGIN k m no s) = spec_login k no (mon_client_of s)"
proof -
  have num: "Some (Server no) \<notin> range (mon_client_of s) \<longleftrightarrow> map_of (mon_server s) no = None"
    using server_number_taken [OF ok] by simp
  show ?thesis
  proof (cases "\<exists>p. map_of (mon_wait s) k = Some p")
    case True
    then obtain p where p: "map_of (mon_wait s) k = Some p" by blast
    note w = waiting_place [OF ok p]
    have a: "mon_client_of s k = Some (Waiting (mp_ipAddress (mon_players s ! p)))"
      using p w(3) by (simp add: mon_client_of_Waiting)
    show ?thesis
    proof (cases "sint no < 50 \<and> map_of (mon_server s) no = None \<and> mp_ipAddress (mon_players s ! p) \<noteq> ''10.0.1.2''")
      case True
      then have "REQ_MONITOR_LOGIN k m no s = s\<lparr>mon_wait := AList.delete k (mon_wait s), mon_session := (k, p) # mon_session s,
        mon_server := (no, p) # mon_server s, mon_players := (mon_players s)[p := (mon_players s ! p)\<lparr>mp_type := server_type no, mp_ServerNo := no\<rparr>]\<rparr>"
        by (intro REQ_MONITOR_LOGIN_done [OF p w(3)]) (simp_all add: lan_check_eq)
      then have "mon_client_of (REQ_MONITOR_LOGIN k m no s) = (mon_client_of s)(k \<mapsto> Server no)"
        by (simp only: mon_client_of_login [OF ok p]) simp
      then show ?thesis using True by (simp add: spec_login_def a num)
    next
      case False
      then have "mon_client_of (REQ_MONITOR_LOGIN k m no s) = mon_client_of s"
        by (auto simp: REQ_MONITOR_LOGIN_def lan_check_eq p split: option.split)
      then show ?thesis using False by (auto simp: spec_login_def a num)
    qed
  next
    case False
    then have none: "map_of (mon_wait s) k = None" by simp
    then have "\<nexists>ip. mon_client_of s k = Some (Waiting ip)" by (auto simp: mon_client_of_Waiting)
    then have "spec_login k no (mon_client_of s) = mon_client_of s"
      by (auto simp: spec_login_def split: option.split mon_client.split)
    then show ?thesis by (auto simp: REQ_MONITOR_LOGIN_def none split: option.split)
  qed
qed

lemma REQ_MONITOR_TOOL_LOGIN_done:
  assumes "gLoginKey = takeWhile (\<lambda>c. c \<noteq> 0) key" "map_of (mon_wait s) k = Some p" "map_of (mon_session s) k = None"
  defines "x \<equiv> (mon_players s ! p)\<lparr>mp_type := MonitorClient\<rparr>"
  shows "p < length (mon_players s) \<Longrightarrow> same_tables
    (if lan_check (mp_ipAddress (mon_players s ! p))
     then s\<lparr>mon_wait := AList.delete k (mon_wait s), mon_session := (k, p) # mon_session s,
            mon_server := mon_server s, mon_players := (mon_players s)[p := x]\<rparr>
     else s\<lparr>mon_players := (mon_players s)[p := x]\<rparr>) (snd (REQ_MONITOR_TOOL_LOGIN inp k m key s))"
  using assms(1-3) by (cases "lan_check (mp_ipAddress (mon_players s ! p))")
    (simp_all add: REQ_MONITOR_TOOL_LOGIN_def upd_mp_def Let_def x_def same_tables_def mcall_def split: sum.split)

lemma REQ_MONITOR_TOOL_LOGIN_clients:
  assumes ok: "mon_ok s"
  shows "mon_client_of (snd (REQ_MONITOR_TOOL_LOGIN inp k m key s)) = spec_tool k key (mon_client_of s)"
proof (cases "\<exists>p. map_of (mon_wait s) k = Some p")
  case True
  then obtain p where p: "map_of (mon_wait s) k = Some p" by blast
  note w = waiting_place [OF ok p]
  have a: "mon_client_of s k = Some (Waiting (mp_ipAddress (mon_players s ! p)))"
    using p w(3) by (simp add: mon_client_of_Waiting)
  let ?x = "(mon_players s ! p)\<lparr>mp_type := MonitorClient\<rparr>"
  show ?thesis
  proof (cases "gLoginKey = takeWhile (\<lambda>c. c \<noteq> 0) key")
    case True
    note same = same_tables_clients [OF REQ_MONITOR_TOOL_LOGIN_done [OF True p w(3,1), of inp m]]
    show ?thesis
    proof (cases "mp_ipAddress (mon_players s ! p) = ''10.0.1.2''")
      case False
      then show ?thesis using same mon_client_of_login [OF ok p, where srv = "mon_server s" and x = ?x] True
        by (simp add: lan_check_eq spec_tool_def a)
    next
      case lan: True
      have "mon_client_of (s\<lparr>mon_players := (mon_players s)[p := ?x]\<rparr>) j = mon_client_of s j" for j
      proof (cases "j = k")
        case True
        then show ?thesis using w p by (simp add: a mon_client_of_def nth_list_update)
      next
        case False
        have "(k, p) \<in> set (mon_wait s @ mon_session s)" using map_of_SomeD [OF p] by simp
        note other = other_place [OF ok this False]
        show ?thesis by (rule mon_client_of_cong) (use other in \<open>auto simp: nth_list_update_neq\<close>)
      qed
      then show ?thesis using same lan by (simp add: lan_check_eq spec_tool_def a fun_eq_iff)
    qed
  next
    case False
    then have "REQ_MONITOR_TOOL_LOGIN inp k m key s = (None, mon_cut k m s)"
      by (simp add: REQ_MONITOR_TOOL_LOGIN_def)
    then show ?thesis using False by (simp add: spec_tool_def a)
  qed
next
  case False
  then have none: "map_of (mon_wait s) k = None" by simp
  then have "\<nexists>ip. mon_client_of s k = Some (Waiting ip)" by (auto simp: mon_client_of_Waiting)
  then have "spec_tool k key (mon_client_of s) = mon_client_of s"
    by (auto simp: spec_tool_def split: option.split mon_client.split)
  moreover have "REQ_MONITOR_TOOL_LOGIN inp k m key s = (None, mon_cut k m s)"
    by (simp add: REQ_MONITOR_TOOL_LOGIN_def none)
  ultimately show ?thesis by simp
qed

lemma mon_PacketProc_clients:
  assumes ok: "mon_ok s" and m: "msg_shr m 2 = Inr (w, m1)" and p: "mon_PacketProc inp k m1 (bytes_word w) s = Some (b, s1)"
  shows "mon_client_of s1 = spec_request k m (mon_client_of s)"
proof -
  have diff: "en_PACKET_CS_MONITOR_TOOL_REQ_LOGIN \<noteq> en_PACKET_SS_MONITOR_LOGIN"
    by (simp add: en_PACKET_CS_MONITOR_TOOL_REQ_LOGIN_def en_PACKET_SS_MONITOR_LOGIN_def)
  from p show ?thesis
    by (cases rule: mon_PacketProc_cases)
      (use diff in \<open>auto simp: spec_request_def m REQ_MONITOR_LOGIN_clients [OF ok] same_tables_clients
        REQ_MONITOR_TOOL_LOGIN_clients [OF ok] dest!: mon_handled_state\<close>)
qed

lemma mon_OnRecv_clients:
  assumes ok: "mon_ok s" and r: "mon_OnRecv inp k m s = Some s'"
  shows "mon_client_of s' = spec_request k m (mon_client_of s)"
  using r
proof (cases rule: mon_OnRecv_cases)
  case (bad e)
  then show ?thesis by (simp add: spec_request_def)
qed (simp_all add: mon_PacketProc_clients [OF ok])

lemma mon_do_clients:
  assumes ok: "mon_ok s" and e: "mon_do month e s = Some s'"
  shows "mon_client_of s' = mon_spec e (mon_client_of s)"
proof (cases e)
  case (MonAccept inp k ip port)
  then show ?thesis using mon_OnAccept_clients [OF ok, of inp k ip port] e by auto
next
  case (MonRecv inp k m)
  then show ?thesis using mon_OnRecv_clients [OF ok] e by simp
next
  case (MonRelease k)
  then show ?thesis using mon_OnRelease_clients [OF ok, of k] e by auto
qed (use e in \<open>auto simp: same_tables_clients [OF DB_step_tables] same_tables_clients [OF DB_StoreRequest_tables]
    same_tables_clients [OF mon_HeartBeat_tables]\<close>)

lemma mon_run_clients:
  "mon_ok s \<Longrightarrow> mon_run month es s = Some s' \<Longrightarrow> mon_client_of s' = fold mon_spec es (mon_client_of s)"
proof (induction es arbitrary: s)
  case (Cons e es)
  then obtain s1 where s1: "mon_do month e s = Some s1" "mon_run month es s1 = Some s'" by (auto split: option.splits)
  show ?case using Cons.IH [OF mon_do_ok [OF Cons.prems(1) s1(1)] s1(2)] mon_do_clients [OF Cons.prems(1) s1(1)] by simp
qed simp

end
