(* ===== verification/MonitorProps.thy ===== *)
theory MonitorProps
  imports MonitorInv
begin

text \<open>
  The monitor server: its tables agree in every reachable state, its clients follow the abstract table,
  who may log in, and what becomes of the message of a request.
\<close>

section \<open>The message of a request\<close>

text \<open>Calls that give a message back to the pool or to the network library.\<close>

fun disposal :: "mon_call \<Rightarrow> bool" where
  "disposal (MFree m) = True"
| "disposal (MSend k m) = True"
| "disposal (MBroad m ks) = True"
| "disposal (MDisconnect k) = False"
| "disposal MAlloc = False"

definition disposes :: "nat \<Rightarrow> MonitorServer \<Rightarrow> MonitorServer \<Rightarrow> bool" where
  "disposes n s s' \<longleftrightarrow> (\<exists>cs. mon_calls s' = mon_calls s @ cs \<and> length (filter disposal cs) = n)"

lemma disposes_refl [simp]: "disposes 0 s s"
  by (simp add: disposes_def)

lemma disposes_call: "disposes n s s' \<Longrightarrow> disposal c \<Longrightarrow> disposes (Suc n) s (mcall c s')"
  unfolding disposes_def by (fastforce intro: exI [of _ "_ @ [c]"])

lemma disposes_other: "disposes n s s' \<Longrightarrow> \<not> disposal c \<Longrightarrow> disposes n s (mcall c s')"
  unfolding disposes_def by (fastforce intro: exI [of _ "_ @ [c]"])

lemma disposes_cut: "disposes n s s' \<Longrightarrow> disposes (Suc n) s (mon_cut k m s')"
  unfolding mon_cut_def by (intro disposes_other disposes_call) simp_all

lemma disposes_same: "disposes n s s' \<Longrightarrow> mon_calls s'' = mon_calls s' \<Longrightarrow> disposes n s s''"
  by (simp add: disposes_def)

lemma disposes_fields [simp]:
  "disposes n s (upd_mp p f s') = disposes n s s'"
  "disposes n s (s'\<lparr>mon_wait := w\<rparr>) = disposes n s s'" "disposes n s (s'\<lparr>mon_session := h\<rparr>) = disposes n s s'"
  by (simp_all add: disposes_def upd_mp_def)

lemmas disposes_intros = disposes_call disposes_other disposes_cut

lemma DB_LogPost_disposes: "disposes 0 s (snd (DB_LogPost inp no t v ts s))"
proof -
  have "disposes 0 s (mcall MAlloc s)" by (intro disposes_other) simp_all
  then show ?thesis by (rule disposes_same) (simp add: DB_LogPost_def Let_def split: sum.split)
qed

lemma REQ_MONITOR_UPDATE_disposes:
  "disposes (if fst (REQ_MONITOR_UPDATE inp k m t v ts s) = None then 1 else 0) s (snd (REQ_MONITOR_UPDATE inp k m t v ts s))"
proof (cases "map_of (mon_session s) k")
  case None
  then show ?thesis using disposes_cut [OF disposes_refl, of s k m] by (simp add: REQ_MONITOR_UPDATE_def)
next
  case (Some p)
  obtain eo s1 where d: "DB_LogPost inp (ucast (mp_ServerNo (mon_players s ! p))) t v ts s = (eo, s1)"
    by (cases "DB_LogPost inp (ucast (mp_ServerNo (mon_players s ! p))) t v ts s")
  have s1: "disposes 0 s s1" using DB_LogPost_disposes [of s inp "ucast (mp_ServerNo (mon_players s ! p))" t v ts] by (simp add: d)
  have "disposes 1 s (mcall (MFree m) s1)" "disposes 1 s (mcall (MBroad m' ks) s1)" for m' ks
    using disposes_call [OF s1] by simp_all
  then show ?thesis using s1 disposes_cut [OF disposes_refl, of s k m]
    by (cases eo) (auto simp: REQ_MONITOR_UPDATE_def Some d Let_def intro: disposes_same split: sum.split)
qed

lemma REQ_MONITOR_TOOL_LOGIN_disposes:
  "disposes (if fst (REQ_MONITOR_TOOL_LOGIN inp k m key s) = None then 1 else 0) s (snd (REQ_MONITOR_TOOL_LOGIN inp k m key s))"
proof (cases "gLoginKey = takeWhile (\<lambda>c. c \<noteq> 0) key \<and> map_of (mon_session s) k = None \<and> map_of (mon_wait s) k \<noteq> None")
  case False
  then have "REQ_MONITOR_TOOL_LOGIN inp k m key s = (None, mon_cut k m s)"
    by (cases "map_of (mon_wait s) k") (simp_all add: REQ_MONITOR_TOOL_LOGIN_def)
  then show ?thesis using disposes_cut [OF disposes_refl, of s k m] by simp
next
  case True
  have calls: "mon_calls s1 = mon_calls s \<Longrightarrow> disposes 1 s (mcall (MSend k m1) s1)" for s1 m1
    using disposes_call [OF disposes_same [OF disposes_refl, of s1 s]] by simp
  obtain p where p: "map_of (mon_wait s) k = Some p" using True by blast
  define s1 where "s1 = upd_mp p (\<lambda>x. x\<lparr>mp_type := MonitorClient\<rparr>) s"
  define s2 where "s2 = (if lan_check (mp_ipAddress (mon_players s1 ! p))
    then s1\<lparr>mon_wait := AList.delete k (mon_wait s1), mon_session := (k, p) # mon_session s1\<rparr> else s1)"
  have "mon_calls s2 = mon_calls s" by (simp add: s2_def s1_def)
  moreover have "REQ_MONITOR_TOOL_LOGIN inp k m key s =
      (case RES_MONITOR_TOOL_LOGIN (mon_encode s2) inp m 1 of Inl e \<Rightarrow> (Some e, s2) | Inr m1 \<Rightarrow> (None, mcall (MSend k m1) s2))"
    using True p unfolding s1_def s2_def by (simp add: REQ_MONITOR_TOOL_LOGIN_def Let_def)
  ultimately show ?thesis using calls by (auto intro: disposes_same [OF disposes_refl] split: sum.split)
qed

lemma mon_echo_update_disposes:
  "disposes (if fst (mon_echo_update inp k m fs s) = None then 1 else 0) s (snd (mon_echo_update inp k m fs s))"
  using disposes_call [OF disposes_refl [of s], of "MSend k m1" for m1] by (auto simp: mon_echo_update_def split: sum.split)

lemma REQ_MONITOR_LOGIN_disposes:
  assumes ok: "mon_ok s"
  shows "disposes (if spec_login k no (mon_client_of s) = mon_client_of s then 1 else 0) s (REQ_MONITOR_LOGIN k m no s)"
proof (cases "sint no < 50 \<and> map_of (mon_server s) no = None \<and> (\<exists>p. map_of (mon_wait s) k = Some p \<and> lan_check (mp_ipAddress (mon_players s ! p)))")
  case True
  then obtain p where p: "map_of (mon_wait s) k = Some p" "lan_check (mp_ipAddress (mon_players s ! p))" "sint no < 50" "map_of (mon_server s) no = None"
    by blast
  note w = waiting_place [OF ok p(1)]
  note finished = REQ_MONITOR_LOGIN_done [OF p(1) w(3) p(4,3,2), of m]
  have "mon_client_of s k = Some (Waiting (mp_ipAddress (mon_players s ! p)))"
    using p w(3) by (simp add: mon_client_of_Waiting)
  moreover have "spec_login k no (mon_client_of s) k = Some (Server no)"
    unfolding REQ_MONITOR_LOGIN_clients [OF ok, of k m no, symmetric] finished mon_client_of_login [OF ok p(1)] by simp
  ultimately have "spec_login k no (mon_client_of s) \<noteq> mon_client_of s" by (metis mon_client.distinct(1) option.inject)
  then show ?thesis unfolding finished by (simp add: disposes_def)
next
  case False
  then have "disposes 1 s (REQ_MONITOR_LOGIN k m no s) \<and> same_tables s (REQ_MONITOR_LOGIN k m no s)"
    using disposes_cut [OF disposes_refl, of s k m] disposes_other [OF disposes_other [OF disposes_call [OF disposes_refl, of "MFree m" s]]]
    by (auto simp: REQ_MONITOR_LOGIN_def split: option.split)
  then show ?thesis
    using same_tables_clients [of s "REQ_MONITOR_LOGIN k m no s"] REQ_MONITOR_LOGIN_clients [OF ok, of k m no] by simp
qed

definition server_enters :: "u64 \<Rightarrow> MonitorServer \<Rightarrow> MonitorServer \<Rightarrow> bool" where
  "server_enters k s s' \<longleftrightarrow> (case (mon_client_of s k, mon_client_of s' k) of (Some (Waiting ip), Some (Server no)) \<Rightarrow> True | _ \<Rightarrow> False)"

lemma spec_login_cases: "spec_login k no a = a \<or> (\<exists>ip. a k = Some (Waiting ip) \<and> spec_login k no a = a(k \<mapsto> Server no))"
  by (auto simp: spec_login_def split: option.splits mon_client.splits)

lemma spec_tool_cases: "spec_tool k key a = a \<or> (\<exists>ip. a k = Some (Waiting ip) \<and> spec_tool k key a = a(k \<mapsto> Tool))"
  by (auto simp: spec_tool_def split: option.splits mon_client.splits)

lemma server_enters_login:
  assumes c: "mon_client_of s' = spec_login k no (mon_client_of s)"
  shows "server_enters k s s' \<longleftrightarrow> mon_client_of s' \<noteq> mon_client_of s"
proof (cases "mon_client_of s' = mon_client_of s")
  case True
  then show ?thesis by (auto simp: server_enters_def split: option.split mon_client.split)
next
  case False
  then obtain ip where "mon_client_of s k = Some (Waiting ip)" "mon_client_of s' k = Some (Server no)"
    using c spec_login_cases [of k no "mon_client_of s"] by auto
  then show ?thesis using False by (simp add: server_enters_def)
qed

lemma not_server_enters: "\<not> server_enters k s s'" if "mon_client_of s' = mon_client_of s \<or> mon_client_of s' = spec_tool k key (mon_client_of s)"
  using that spec_tool_cases [of k key "mon_client_of s"] by (auto simp: server_enters_def split: option.split mon_client.split)

lemma mon_PacketProc_disposes:
  assumes ok: "mon_ok s" and p: "mon_PacketProc inp k m w s = Some (b, s1)"
  shows "disposes (if b \<and> \<not> server_enters k s s1 then 1 else 0) s s1"
proof -
  have handled: "disposes (if b then 1 else 0) s s1"
    if "mon_handled r = Some (b, s1)" "disposes (if fst r = None then 1 else 0) s (snd r)" for r
    using that by (cases r) (auto simp: mon_handled_def mon_caught_def split: option.splits if_splits)
  have upd: "disposes (if b then 1 else 0) s s1 \<and> same_tables s s1"
    if "w \<noteq> en_PACKET_SS_MONITOR_LOGIN" "w \<noteq> en_PACKET_CS_MONITOR_TOOL_REQ_LOGIN"
  proof -
    have "disposes (if b then 1 else 0) s s1"
      using p that handled [OF _ REQ_MONITOR_UPDATE_disposes] handled [OF _ mon_echo_update_disposes]
      by (auto simp: mon_PacketProc_def mon_caught_def split: if_splits sum.splits prod.splits)
    moreover have "same_tables s s1"
      using p by (cases rule: mon_PacketProc_cases) (use that in auto)
    ultimately show ?thesis ..
  qed
  from p show ?thesis
  proof (cases rule: mon_PacketProc_cases)
    case (server no m1)
    have c: "mon_client_of s1 = spec_login k (bytes_word no) (mon_client_of s)"
      by (simp add: server REQ_MONITOR_LOGIN_clients [OF ok])
    show ?thesis using REQ_MONITOR_LOGIN_disposes [OF ok, of k "bytes_word no" m1] server server_enters_login [OF c] c
      by (auto split: if_splits)
  next
    case (tool key m1)
    have "mon_client_of s1 = spec_tool k key (mon_client_of s)"
      using mon_handled_state [OF tool(3)] REQ_MONITOR_TOOL_LOGIN_clients [OF ok] by simp
    then have "\<not> server_enters k s s1" using not_server_enters by metis
    then show ?thesis using handled [OF tool(3) REQ_MONITOR_TOOL_LOGIN_disposes] by simp
  next
    case update
    then show ?thesis using upd not_server_enters [of s1 s] same_tables_clients by auto
  qed (use not_server_enters in simp_all)
qed

lemma server_enters_calls [simp]: "server_enters k s (mon_cut k' m s') = server_enters k s s'"
  by (simp add: server_enters_def)

lemma mon_OnRecv_disposes:
  assumes ok: "mon_ok s" and r: "mon_OnRecv inp k m s = Some s'"
  shows "disposes (if server_enters k s s' then 0 else 1) s s'"
  using r
proof (cases rule: mon_OnRecv_cases)
  case (bad e)
  then show ?thesis using disposes_cut [OF disposes_refl, of s k m] not_server_enters [of s s k] by simp
next
  case (good w m1 s1)
  then show ?thesis using mon_PacketProc_disposes [OF ok good(2)] by (auto split: if_splits)
next
  case (refused w m1 s1)
  have "\<not> server_enters k s s1"
    using refused(2)
  proof (cases rule: mon_PacketProc_cases)
    case (tool key m2)
    then show ?thesis using mon_handled_state [OF tool(3)] REQ_MONITOR_TOOL_LOGIN_clients [OF ok] not_server_enters by metis
  qed (use not_server_enters same_tables_clients in auto)
  then show ?thesis using disposes_cut [OF mon_PacketProc_disposes [OF ok refused(2)], of k m] refused(3) by simp
qed

section \<open>A run\<close>

definition sample_mon_input :: mon_input where
  "sample_mon_input = \<lparr>mi_now = 5, mi_junk = [1, 2, 3, 4], mi_RK = 9, mi_msg = new_CMessage 4096 0\<rparr>"

definition sample_server_login :: "u32 \<Rightarrow> CMessage" where
  "sample_server_login no = (new_CMessage 4096 0)\<lparr>msg_mem := word_bytes 2 en_PACKET_SS_MONITOR_LOGIN @ word_bytes 4 no @ replicate 1994 0,
     msg_rear := 6\<rparr>"

lemma sample_server_login:
  "msg_shr (sample_server_login no) 2 = Inr (word_bytes 2 en_PACKET_SS_MONITOR_LOGIN, (sample_server_login no)\<lparr>msg_front := 2\<rparr>)"
  "msg_shr ((sample_server_login no)\<lparr>msg_front := 2\<rparr>) 4 = Inr (word_bytes 4 no, (sample_server_login no)\<lparr>msg_front := 6\<rparr>)"
  by (simp_all add: sample_server_login_def msg_shr_def mem_read_def new_CMessage_def)

text \<open>Three clients come; the two that ask for number 3 are cut off, the first of them logged in before.\<close>

definition sample_mon_events :: "mon_event list" where
  "sample_mon_events = [MonAccept sample_mon_input 7 ''10.0.2.2'' 5000, MonAccept sample_mon_input 8 ''10.0.1.2'' 5001,
     MonAccept sample_mon_input 9 ''127.0.0.1'' 5002, MonRecv sample_mon_input 7 (sample_server_login 3),
     MonRecv sample_mon_input 9 (sample_server_login 3), MonRelease 9, MonHeartBeat sample_mon_input, MonTimer, MonDB]"

lemma sample_mon_proc:
  "mon_PacketProc inp k ((sample_server_login no)\<lparr>msg_front := 2\<rparr>) en_PACKET_SS_MONITOR_LOGIN s =
     Some (True, REQ_MONITOR_LOGIN k ((sample_server_login no)\<lparr>msg_front := 6\<rparr>) no s)"
  by (simp add: mon_PacketProc_def sample_server_login bytes_word_word_bytes)

lemma sample_mon_recv:
  "mon_OnRecv inp k (sample_server_login no) s = Some (REQ_MONITOR_LOGIN k ((sample_server_login no)\<lparr>msg_front := 6\<rparr>) no s)"
  by (simp add: mon_OnRecv_def sample_server_login sample_mon_proc)

lemma sample_mon_run:
  "\<exists>s. mon_run month sample_mon_events (new_MonitorServer True) = Some s \<and> mon_client_of s 7 = Some (Server 3) \<and>
     mon_client_of s 8 = Some (Waiting ''10.0.1.2'') \<and> mon_client_of s 9 = None \<and> (\<forall>j. j \<noteq> 7 \<longrightarrow> mon_client_of s j \<noteq> Some (Server 3))
     \<and> (\<forall>j. mon_client_of s j \<noteq> Some (Server 4))"
  unfolding sample_mon_events_def
  by (simp add: new_MonitorServer_def mon_OnAccept_def mon_Alloc_def upd_mp_def sample_mon_recv REQ_MONITOR_LOGIN_def
      lan_check_eq mcall_def mon_OnRelease_def mon_HeartBeat_def mon_idle_def DB_StoreRequest_def DBWorkerThread_step_def
      HandleDBLogInsert_def mon_client_of_def new_mon_player_def server_type_def)

section \<open>Properties\<close>





text \<open>
  the check that a server comes from the local network lets every address in and refuses one of the three
  addresses of its list: a client that waits at \<^verbatim>\<open>10.0.1.2\<close> is cut off, from any other address it is logged in.
\<close>

theorem monitor_login_by_address:
  assumes "mon_run month es (new_MonitorServer encode) = Some s" "mon_client_of s k = Some (Waiting ip)"
    "\<forall>j. mon_client_of s j \<noteq> Some (Server no)" "sint no < 50"
  shows "mon_client_of (REQ_MONITOR_LOGIN k m no s) k = Some (if ip = ''10.0.1.2'' then Waiting ip else Server no) \<and>
         mon_calls (REQ_MONITOR_LOGIN k m no s) = mon_calls s @ (if ip = ''10.0.1.2'' then [MFree m, MDisconnect k] else [])"
proof -
  have ok: "mon_ok s" using mon_run_ok [OF new_MonitorServer_ok assms(1)] .
  have free: "Some (Server no) \<notin> range (mon_client_of s)" using assms(3) by (metis rangeE)
  then have "map_of (mon_server s) no = None" using server_number_taken [OF ok] by simp
  moreover obtain p where "map_of (mon_wait s) k = Some p" "mp_ipAddress (mon_players s ! p) = ip" "map_of (mon_session s) k = None"
    using assms(2) by (auto simp: mon_client_of_Waiting)
  ultimately have "mon_calls (REQ_MONITOR_LOGIN k m no s) = mon_calls s @ (if ip = ''10.0.1.2'' then [MFree m, MDisconnect k] else [])"
    using assms(4) by (simp add: REQ_MONITOR_LOGIN_def lan_check_eq mon_cut_def)
  then show ?thesis using assms(2,4) free by (simp add: REQ_MONITOR_LOGIN_clients [OF ok] spec_login_def)
qed

theorem monitor_login_by_address_witness:
  "\<exists>s. mon_client_of s 8 = Some (Waiting ''10.0.1.2'') \<and>
     mon_client_of (REQ_MONITOR_LOGIN 8 (sample_server_login 4) 4 s) 8 = Some (Waiting ''10.0.1.2'')"
proof -
  obtain s where s: "mon_run (\<lambda>_. []) sample_mon_events (new_MonitorServer True) = Some s"
      "mon_client_of s 8 = Some (Waiting ''10.0.1.2'')" "\<forall>j. mon_client_of s j \<noteq> Some (Server 4)"
    using sample_mon_run by blast
  then show ?thesis using monitor_login_by_address [OF s, of "sample_server_login 4"] by auto
qed

text \<open>
  C27: a request's message goes back to the pool or to the network library exactly once, except that the
  message of a server's successful login goes nowhere and is lost.
\<close>

theorem monitor_message_disposed:
  assumes "mon_run month es (new_MonitorServer encode) = Some s" "mon_OnRecv inp k m s = Some s'"
  shows "\<exists>cs. mon_calls s' = mon_calls s @ cs \<and> length (filter disposal cs) = (if server_enters k s s' then 0 else 1)"
  using mon_OnRecv_disposes [OF mon_run_ok [OF new_MonitorServer_ok assms(1)] assms(2)] by (simp add: disposes_def)

theorem monitor_message_disposed_witness:
  "\<exists>s cs. mon_calls (REQ_MONITOR_LOGIN 8 ((sample_server_login 4)\<lparr>msg_front := 6\<rparr>) 4 s) = mon_calls s @ cs \<and>
     length (filter disposal cs) = 1"
proof -
  obtain s where s: "mon_run (\<lambda>_. []) sample_mon_events (new_MonitorServer True) = Some s"
      "mon_client_of s 8 = Some (Waiting ''10.0.1.2'')"
    using sample_mon_run by blast
  let ?s = "REQ_MONITOR_LOGIN 8 ((sample_server_login 4)\<lparr>msg_front := 6\<rparr>) 4 s"
  have ok: "mon_ok s" using mon_run_ok [OF new_MonitorServer_ok s(1)] .
  have "mon_client_of ?s 8 = Some (Waiting ''10.0.1.2'')"
    using s(2) by (simp add: REQ_MONITOR_LOGIN_clients [OF ok] spec_login_def)
  then have "\<not> server_enters 8 s ?s" using s(2) by (simp add: server_enters_def)
  then show ?thesis using monitor_message_disposed [OF s(1) sample_mon_recv [of sample_mon_input 8 4]] by auto
qed

end
