(* ===== verification/MonitorDB.thy ===== *)
theory MonitorDB
  imports MonitorProps
begin

text \<open>
  The way of a report from a server's request to the database: through the queue of the database thread and
  the rows held for the server into the statements. And what the statistics of a row are.
\<close>

section \<open>Reports\<close>

text \<open>A data type, a value and a time.\<close>

type_synonym db_row = "u8 \<times> u32 \<times> u32"

fun fields_report :: "u8 list list \<Rightarrow> u8 \<times> db_row" where
  "fields_report fs = (bytes_word (fs ! 0), bytes_word (fs ! 1), bytes_word (fs ! 2), bytes_word (fs ! 3))"

fun job_report :: "db_job \<Rightarrow> (u8 \<times> db_row) list" where
  "job_report DBStore = []"
| "job_report (DBPost m) = (case read_fields [1, 1, 4, 4] m of Inl e \<Rightarrow> [] | Inr (fs, m1) \<Rightarrow> [fields_report fs])"

text \<open>What an event reports: a data update of a client that is logged in as a server.\<close>

fun mon_report :: "mon_event \<Rightarrow> MonitorServer \<Rightarrow> (u8 \<times> db_row) list" where
  "mon_report (MonRecv inp k m) s =
     (case msg_shr m 2 of
        Inl e \<Rightarrow> []
      | Inr (w, m1) \<Rightarrow>
          if bytes_word w = en_PACKET_SS_MONITOR_DATA_UPDATE
          then (case (read_fields [1, 4, 4] m1, mon_client_of s k) of
                  (Inr (fs, m2), Some (Server no)) \<Rightarrow> [(ucast no, bytes_word (fs ! 0), bytes_word (fs ! 1), bytes_word (fs ! 2))]
                | _ \<Rightarrow> [])
          else [])"
| "mon_report e s = []"

fun mon_reports :: "(u32 \<Rightarrow> string) \<Rightarrow> mon_event list \<Rightarrow> MonitorServer \<Rightarrow> (u8 \<times> db_row) list" where
  "mon_reports month [] s = []"
| "mon_reports month (e # es) s =
     mon_report e s @ (case mon_do month e s of None \<Rightarrow> [] | Some s1 \<Rightarrow> mon_reports month es s1)"

definition rows_of :: "u8 \<Rightarrow> (u8 \<times> db_row) list \<Rightarrow> db_row list" where
  "rows_of n rs = map snd (filter (\<lambda>r. fst r = n) rs)"

lemma rows_of_append [simp]: "rows_of n (xs @ ys) = rows_of n xs @ rows_of n ys" "rows_of n [] = []"
  by (simp_all add: rows_of_def)

fun info_row :: "stDBinfo \<Rightarrow> db_row" where
  "info_row i = (in_DataType i, in_DataValue i, in_TimeStamp i)"

fun sql_rows :: "u8 \<Rightarrow> db_sql \<Rightarrow> db_row list" where
  "sql_rows n (CreateTable y) = []"
| "sql_rows n (InsertRows y no rows) = (if no = n then map info_row rows else [])"

definition inserted :: "u8 \<Rightarrow> MonitorServer \<Rightarrow> db_row list" where
  "inserted n s = concat (map (sql_rows n) (mon_sql s))"

definition held :: "u8 \<Rightarrow> MonitorServer \<Rightarrow> db_row list" where
  "held n s = map info_row (infos (at_key new_stDBinfoSet (dbinfoSet_hash s) n))"

definition queued :: "u8 \<Rightarrow> MonitorServer \<Rightarrow> db_row list" where
  "queued n s = rows_of n (concat (map job_report (mon_dbq s)))"

definition pipeline :: "u8 \<Rightarrow> MonitorServer \<Rightarrow> db_row list" where
  "pipeline n s = inserted n s @ held n s @ queued n s"

definition hash_ok :: "MonitorServer \<Rightarrow> bool" where
  "hash_ok s \<longleftrightarrow> distinct (map fst (dbinfoSet_hash s))"

text \<open>The part of the state the database has.\<close>

definition db_part :: "MonitorServer \<Rightarrow> db_job list \<times> int \<times> (u8 \<times> stDBinfoSet) list \<times> db_sql list" where
  "db_part s = (mon_dbq s, m_DBMessageCnt s, dbinfoSet_hash s, mon_sql s)"

lemma db_part_pipeline: "db_part s' = db_part s \<Longrightarrow> pipeline n s' = pipeline n s \<and> hash_ok s' = hash_ok s"
  by (simp add: db_part_def pipeline_def inserted_def held_def queued_def hash_ok_def)

lemma db_part_simps [simp]:
  "db_part (mcall c s) = db_part s" "db_part (mon_cut k m s) = db_part s" "db_part (upd_mp p f s) = db_part s"
  "db_part (s\<lparr>mon_wait := w\<rparr>) = db_part s" "db_part (s\<lparr>mon_session := w\<rparr>) = db_part s"
  "db_part (s\<lparr>mon_server := h\<rparr>) = db_part s" "db_part (s\<lparr>mon_free := h'\<rparr>) = db_part s"
  "db_part (s\<lparr>mon_players := ps\<rparr>) = db_part s" "db_part (s\<lparr>mon_calls := cs\<rparr>) = db_part s"
  by (simp_all add: db_part_def mcall_def mon_cut_def upd_mp_def)

lemma db_part_clients:
  "db_part (snd (mon_OnAccept inp k ip port s)) = db_part s" "db_part (mon_OnRelease k s) = db_part s"
  "db_part (REQ_MONITOR_LOGIN k m no s) = db_part s" "db_part (snd (REQ_MONITOR_TOOL_LOGIN inp k m key s)) = db_part s"
  "db_part (mon_HeartBeat inp s) = db_part s" "db_part (snd (mon_echo_update inp k m fs s)) = db_part s"
  by (auto simp: mon_OnAccept_def mon_Alloc_def mon_OnRelease_def REQ_MONITOR_LOGIN_def REQ_MONITOR_TOOL_LOGIN_def
      mon_HeartBeat_def mon_echo_update_def Let_def split: option.split list.split sum.split)

section \<open>The message of a report\<close>

lemma read_fields_append:
  "msg_ok m \<Longrightarrow> msg_data m = concat bss @ ys \<Longrightarrow> \<exists>m'. read_fields (map length bss) m = Inr (bss, m')"
proof (induction bss arbitrary: m)
  case (Cons bs bss)
  then obtain m1 where "msg_shr m (length bs) = Inr (bs, m1)" "msg_ok m1" "msg_data m1 = concat bss @ ys"
    using msg_shr_append [of m bs "concat bss @ ys"] by auto
  then show ?case using Cons.IH [of m1] by auto
qed simp

declare read_fields.simps [simp del]

lemma DB_LogPost_done:
  assumes "msg_ok (mi_msg inp)"
  obtains m m' where "\<And>s. DB_LogPost inp no t v ts s =
      (None, (mcall MAlloc s)\<lparr>mon_dbq := mon_dbq s @ [DBPost m], m_DBMessageCnt := m_DBMessageCnt s + 1\<rparr>)"
    "read_fields [1, 1, 4, 4] m = Inr ([word_bytes 1 no, word_bytes 1 t, word_bytes 4 v, word_bytes 4 ts], m')"
    "job_report (DBPost m) = [(no, t, v, ts)]"
proof -
  let ?K = "msg_K (mi_msg inp)"
  obtain m1 where m1: "msg_shl (InitMessage (mi_msg inp)) (word_bytes 1 no) = Inr m1" "building m1 ?K (word_bytes 1 no)"
    using building_shl_fits [OF building_InitMessage [OF assms], of "word_bytes 1 no"] by (auto simp: bufferSize_def)
  obtain m2 where m2: "msg_shl m1 (word_bytes 1 t) = Inr m2" "building m2 ?K (word_bytes 1 no @ word_bytes 1 t)"
    using building_shl_fits [OF m1(2), of "word_bytes 1 t"] by (auto simp: bufferSize_def)
  obtain m3 where m3: "msg_shl m2 (word_bytes 4 v) = Inr m3" "building m3 ?K (word_bytes 1 no @ word_bytes 1 t @ word_bytes 4 v)"
    using building_shl_fits [OF m2(2), of "word_bytes 4 v"] by (auto simp: bufferSize_def)
  obtain m4 where m4: "msg_shl m3 (word_bytes 4 ts) = Inr m4" "building m4 ?K (word_bytes 1 no @ word_bytes 1 t @ word_bytes 4 v @ word_bytes 4 ts)"
    using building_shl_fits [OF m3(2), of "word_bytes 4 ts"] by (auto simp: bufferSize_def)
  let ?bss = "[word_bytes 1 no, word_bytes 1 t, word_bytes 4 v, word_bytes 4 ts]"
  have "msg_ok m4" "msg_data m4 = concat ?bss @ []" using m4(2) by (simp_all add: building_def msg_plain_def)
  then obtain m5 where "read_fields [1, 1, 4, 4] m4 = Inr (?bss, m5)"
    using read_fields_append [of m4 ?bss "[]"] by auto
  moreover from this have "job_report (DBPost m4) = [(no, t, v, ts)]"
    by (simp add: bytes_word_word_bytes)
  moreover have "DB_LogPost inp no t v ts s =
      (None, (mcall MAlloc s)\<lparr>mon_dbq := mon_dbq s @ [DBPost m4], m_DBMessageCnt := m_DBMessageCnt s + 1\<rparr>)" for s
    using m1(1) m2(1) m3(1) m4(1) by (simp add: DB_LogPost_def)
  ultimately show ?thesis using that by blast
qed

section \<open>Requests\<close>

text \<open>A report joins the queue, and nothing else of the database's part changes.\<close>

definition posted :: "(u8 \<times> db_row) list \<Rightarrow> MonitorServer \<Rightarrow> MonitorServer \<Rightarrow> bool" where
  "posted rs s s' \<longleftrightarrow> (\<exists>jobs. concat (map job_report jobs) = rs \<and> length jobs = length rs \<and>
     db_part s' = (mon_dbq s @ jobs, m_DBMessageCnt s + int (length jobs), dbinfoSet_hash s, mon_sql s))"

lemma posted_none: "db_part s' = db_part s \<Longrightarrow> posted [] s s'"
  unfolding posted_def by (rule exI [of _ "[]"]) (simp add: db_part_def)

lemma posted_part: "posted rs s s' \<Longrightarrow> db_part s'' = db_part s' \<Longrightarrow> posted rs s s''"
  by (simp add: posted_def)

lemma REQ_MONITOR_UPDATE_posted:
  assumes ok: "mon_ok s" and pool: "msg_ok (mi_msg inp)"
  shows "posted (case mon_client_of s k of Some (Server no) \<Rightarrow> [(ucast no, t, v, ts)] | _ \<Rightarrow> []) s
    (snd (REQ_MONITOR_UPDATE inp k m t v ts s))"
proof (cases "map_of (mon_session s) k")
  case None
  then have "\<forall>no. mon_client_of s k \<noteq> Some (Server no)" by (simp add: mon_client_of_def split: option.split)
  then show ?thesis using None by (auto simp: REQ_MONITOR_UPDATE_def intro!: posted_none split: option.split mon_client.split)
next
  case (Some p)
  let ?x = "mon_players s ! p"
  show ?thesis
  proof (cases "mp_type ?x = MonitorClient")
    case True
    then show ?thesis using Some by (simp add: REQ_MONITOR_UPDATE_def mon_client_of_def posted_none)
  next
    case False
    obtain m1 where m1: "DB_LogPost inp (ucast (mp_ServerNo ?x)) t v ts s =
        (None, (mcall MAlloc s)\<lparr>mon_dbq := mon_dbq s @ [DBPost m1], m_DBMessageCnt := m_DBMessageCnt s + 1\<rparr>)"
      "job_report (DBPost m1) = [(ucast (mp_ServerNo ?x), t, v, ts)]"
      using DB_LogPost_done [OF pool] by metis
    let ?s1 = "(mcall MAlloc s)\<lparr>mon_dbq := mon_dbq s @ [DBPost m1], m_DBMessageCnt := m_DBMessageCnt s + 1\<rparr>"
    have "posted [(ucast (mp_ServerNo ?x), t, v, ts)] s ?s1"
      unfolding posted_def by (rule exI [of _ "[DBPost m1]"]) (use m1(2) in \<open>simp add: db_part_def\<close>)
    moreover have "db_part (snd (REQ_MONITOR_UPDATE inp k m t v ts s)) = db_part ?s1"
      using Some False by (simp add: REQ_MONITOR_UPDATE_def m1(1) Let_def split: sum.split)
    ultimately show ?thesis using Some False by (simp add: mon_client_of_def posted_part)
  qed
qed

lemma mon_OnRecv_posted:
  assumes ok: "mon_ok s" and pool: "msg_ok (mi_msg inp)" and r: "mon_OnRecv inp k m s = Some s'"
  shows "posted (mon_report (MonRecv inp k m) s) s s'"
proof -
  have proc: "posted (mon_report (MonRecv inp k m) s) s s1"
    if m: "msg_shr m 2 = Inr (w, m1)" and p: "mon_PacketProc inp k m1 (bytes_word w) s = Some (b, s1)" for w m1 b s1
  proof (cases "bytes_word w = en_PACKET_SS_MONITOR_DATA_UPDATE")
    case True
    then have "bytes_word w \<noteq> en_PACKET_SS_MONITOR_LOGIN"
      by (simp add: en_PACKET_SS_MONITOR_LOGIN_def en_PACKET_SS_MONITOR_DATA_UPDATE_def)
    then show ?thesis
    proof (cases "read_fields [1, 4, 4] m1")
      case (Inl e)
      then have "s1 = s" using p True \<open>bytes_word w \<noteq> en_PACKET_SS_MONITOR_LOGIN\<close>
        by (auto simp: mon_PacketProc_def mon_caught_def split: if_splits)
      then show ?thesis using m Inl by (auto intro: posted_none split: if_splits)
    next
      case (Inr r)
      obtain fs m2 where r: "r = (fs, m2)" by (cases r)
      have "mon_handled (REQ_MONITOR_UPDATE inp k m2 (bytes_word (fs ! 0)) (bytes_word (fs ! 1)) (bytes_word (fs ! 2)) s) = Some (b, s1)"
        using p True Inr r \<open>bytes_word w \<noteq> en_PACKET_SS_MONITOR_LOGIN\<close> by (simp add: mon_PacketProc_def)
      note s1 = mon_handled_state [OF this]
      show ?thesis
        using REQ_MONITOR_UPDATE_posted [OF ok pool, where k = k and t = "bytes_word (fs ! 0)" and v = "bytes_word (fs ! 1)" and ts = "bytes_word (fs ! 2)" and m = m2]
          m True Inr r s1 by (simp split: option.split mon_client.split)
    qed
  next
    case False
    have "db_part s1 = db_part s"
      using p False
      by (auto simp: mon_PacketProc_def mon_caught_def db_part_clients split: if_splits sum.splits prod.splits dest!: mon_handled_state)
    then show ?thesis using m False by (simp add: posted_none)
  qed
  show ?thesis
    using r
  proof (cases rule: mon_OnRecv_cases)
    case (bad e)
    then show ?thesis by (simp add: posted_none)
  next
    case (good w m1 s1)
    then show ?thesis using proc by blast
  next
    case (refused w m1 s1)
    then show ?thesis using posted_part [OF proc [OF refused(1,2)], of "mon_cut k m s1"] by simp
  qed
qed

section \<open>The statements of a store\<close>

fun stmt_infos :: "db_sql \<Rightarrow> stDBinfo list" where
  "stmt_infos (CreateTable y) = []"
| "stmt_infos (InsertRows y no rows) = rows"

definition open_rows :: "stDBinfo list option \<Rightarrow> stDBinfo list" where
  "open_rows rows = (case rows of None \<Rightarrow> [] | Some rs \<Rightarrow> rs)"

lemma flush_rows: "concat (map stmt_infos (flushCurrentInsert no cur rows)) = open_rows rows"
  by (simp add: flushCurrentInsert_def open_rows_def split: option.split)

lemma insert_rows_infos: "concat (map stmt_infos (insert_rows month no cur rows is)) = open_rows rows @ is"
proof (induction "is" arbitrary: cur rows)
  case (Cons i "is")
  show ?case by (simp add: Let_def Cons.IH flush_rows split: option.split) (simp add: open_rows_def split: option.split)
qed (simp add: flush_rows)

definition stmt_server :: "u8 \<Rightarrow> db_sql \<Rightarrow> bool" where
  "stmt_server no x = (case x of CreateTable y \<Rightarrow> True | InsertRows y n rows \<Rightarrow> n = no)"

lemma insert_rows_server: "x \<in> set (insert_rows month no cur rows is) \<Longrightarrow> stmt_server no x"
  by (induction "is" arbitrary: cur rows)
    (auto simp: flushCurrentInsert_def stmt_server_def Let_def split: option.splits if_splits)

lemma sql_rows_server:
  assumes "\<forall>x \<in> set xs. stmt_server no x"
  shows "concat (map (sql_rows n) xs) = (if n = no then map info_row (concat (map stmt_infos xs)) else [])"
proof -
  have "sql_rows n x = (if n = no then map info_row (stmt_infos x) else [])" if "x \<in> set xs" for x
    using assms that by (cases x) (auto simp: stmt_server_def)
  then have "map (sql_rows n) xs = map (\<lambda>x. if n = no then map info_row (stmt_infos x) else []) xs"
    by (intro map_cong refl)
  then show ?thesis by (cases "n = no") (simp_all only: if_True if_False map_concat map_map comp_def, induction xs, auto)
qed

lemma insert_rows_sql:
  "concat (map (sql_rows n) (insert_rows month no cur rows is)) = (if n = no then map info_row (open_rows rows @ is) else [])"
  using sql_rows_server [of "insert_rows month no cur rows is" no n] insert_rows_server
  by (simp add: insert_rows_infos)

text \<open>A statement holds rows, all of the month of its table, and its table has been made before.\<close>

fun tables_created :: "(u32 \<Rightarrow> string) \<Rightarrow> string set \<Rightarrow> db_sql list \<Rightarrow> bool" where
  "tables_created month A [] \<longleftrightarrow> True"
| "tables_created month A (CreateTable y # xs) \<longleftrightarrow> tables_created month (insert y A) xs"
| "tables_created month A (InsertRows y no rows # xs) \<longleftrightarrow>
     y \<in> A \<and> rows \<noteq> [] \<and> (\<forall>i \<in> set rows. month (in_TimeStamp i) = y) \<and> tables_created month A xs"

lemma tables_created_mono: "tables_created month A xs \<Longrightarrow> A \<subseteq> B \<Longrightarrow> tables_created month B xs"
proof (induction xs arbitrary: A B)
  case (Cons x xs)
  have "A \<subseteq> B \<Longrightarrow> insert y A \<subseteq> insert y B" for y by auto
  then show ?case using Cons by (cases x) auto
qed simp

lemma tables_created_append:
  "tables_created month A xs \<Longrightarrow> tables_created month A ys \<Longrightarrow> tables_created month A (xs @ ys)"
proof (induction xs arbitrary: A)
  case (Cons x xs)
  then show ?case by (cases x) (auto dest: tables_created_mono [where B = "insert _ A"])
qed simp

lemma flush_created:
  assumes "cur \<in> A" "\<forall>i \<in> set (open_rows rows). month (in_TimeStamp i) = cur"
  shows "tables_created month A (flushCurrentInsert no cur rows)"
  using assms by (auto simp: flushCurrentInsert_def open_rows_def split: option.split)

lemma insert_rows_created:
  assumes "\<forall>t. month t \<noteq> []" "cur = [] \<longrightarrow> open_rows rows = []" "cur \<noteq> [] \<longrightarrow> cur \<in> A"
    "\<forall>i \<in> set (open_rows rows). month (in_TimeStamp i) = cur"
  shows "tables_created month A (insert_rows month no cur rows is)"
  using assms(2-)
proof (induction "is" arbitrary: cur rows A)
  case Nil
  then show ?case by (cases "cur = []") (auto simp: flush_created, simp add: flushCurrentInsert_def open_rows_def split: option.splits)
next
  case (Cons i "is")
  let ?y = "month (in_TimeStamp i)"
  have y: "?y \<noteq> []" using assms(1) by blast
  show ?case
  proof (cases "cur = ?y")
    case True
    have e: "insert_rows month no cur rows (i # is) = insert_rows month no ?y (Some (open_rows rows @ [i])) is"
      using y True by (auto simp: Let_def open_rows_def)
    show ?thesis unfolding e by (rule Cons.IH) (use y True Cons.prems in \<open>auto simp: open_rows_def\<close>)
  next
    case False
    have "tables_created month (insert ?y A) (insert_rows month no ?y (Some [i]) is)"
      by (rule Cons.IH) (use y in \<open>simp_all add: open_rows_def\<close>)
    moreover have "tables_created month A (flushCurrentInsert no cur rows)" if "cur \<noteq> []"
      using flush_created Cons.prems that by simp
    moreover have "insert_rows month no cur rows (i # is) =
      (if cur = [] then [] else flushCurrentInsert no cur rows) @ CreateTable ?y # insert_rows month no ?y (Some [i]) is"
      using False Cons.prems(1) by (auto simp: Let_def open_rows_def split: option.splits)
    ultimately show ?thesis by (simp add: tables_created_append)
  qed
qed

section \<open>The database thread\<close>

lemma at_key_update: "at_key v0 (AList.update k v xs) j = (if j = k then v else at_key v0 xs j)"
  by (simp add: at_key_def update_conv')

lemma HandleDBLogPost_pipeline:
  assumes "HandleDBLogPost m s = Some s'"
  shows "held n s' = held n s @ rows_of n (job_report (DBPost m))" "mon_dbq s' = mon_dbq s" "mon_sql s' = mon_sql s"
    "m_DBMessageCnt s' = m_DBMessageCnt s" "hash_ok s \<Longrightarrow> hash_ok s'"
proof (atomize (full), goal_cases)
  case 1
  obtain fs m1 where r: "read_fields [1, 1, 4, 4] m = Inr (fs, m1)"
    using assms by (auto simp: HandleDBLogPost_def split: sum.splits)
  have job: "job_report (DBPost m) = [fields_report fs]" by (simp only: job_report.simps r sum.case prod.case)
  have "mon_dbq s' = mon_dbq s \<and> mon_sql s' = mon_sql s \<and> m_DBMessageCnt s' = m_DBMessageCnt s \<and>
    (\<exists>S. dbinfoSet_hash s' = AList.update (bytes_word (fs ! 0)) S (dbinfoSet_hash s) \<and>
      map info_row (infos S) = map info_row (infos (at_key new_stDBinfoSet (dbinfoSet_hash s) (bytes_word (fs ! 0)))) @ [snd (fields_report fs)])"
    using assms unfolding HandleDBLogPost_def r by (auto simp: Let_def)
  then show ?case unfolding job by (auto simp: held_def at_key_update rows_of_def hash_ok_def distinct_update)
qed

definition store_sql :: "(u32 \<Rightarrow> string) \<Rightarrow> (u8 \<times> stDBinfoSet) list \<Rightarrow> db_sql list" where
  "store_sql month h = concat (map (\<lambda>(no, S). if infos S = [] then [] else insert_rows month no [] None (infos S)) h)"

lemma store_sql_rows:
  "distinct (map fst h) \<Longrightarrow> concat (map (sql_rows n) (store_sql month h)) = map info_row (infos (at_key new_stDBinfoSet h n))"
proof (induction h)
  case (Cons x h)
  obtain no S where x: "x = (no, S)" by (cases x)
  have this_server: "concat (map (sql_rows n) (if infos S = [] then [] else insert_rows month no [] None (infos S)))
      = (if n = no then map info_row (infos S) else [])"
    by (cases "infos S = []") (simp, simp only: if_False insert_rows_sql, simp add: open_rows_def)
  have "at_key new_stDBinfoSet h n = new_stDBinfoSet" if "n = no"
    using Cons.prems that x by (auto simp: at_key_def map_of_eq_None_iff[THEN iffD2])
  then show ?case
    using Cons this_server by (auto simp: store_sql_def x at_key_def new_stDBinfoSet_def split: option.splits)
qed (simp add: store_sql_def at_key_def new_stDBinfoSet_def)

lemma store_sql_created:
  assumes "\<forall>t. month t \<noteq> []"
  shows "tables_created month A (store_sql month h)"
proof (induction h)
  case (Cons x h)
  obtain no S where x: "x = (no, S)" by (cases x)
  have "tables_created month A (insert_rows month no [] None (infos S))"
    by (rule insert_rows_created [OF assms]) (simp_all add: open_rows_def)
  then show ?case using Cons.IH by (simp add: store_sql_def x tables_created_append)
qed (simp add: store_sql_def)

lemma HandleDBLogInsert_pipeline:
  shows "mon_sql (HandleDBLogInsert month s) = mon_sql s @ store_sql month (dbinfoSet_hash s)"
    "held n (HandleDBLogInsert month s) = []" "mon_dbq (HandleDBLogInsert month s) = mon_dbq s"
    "m_DBMessageCnt (HandleDBLogInsert month s) = m_DBMessageCnt s"
    "hash_ok (HandleDBLogInsert month s) = hash_ok s"
proof -
  have "infos (at_key new_stDBinfoSet (map (\<lambda>(no, S). (no, if infos S = [] then S else InitInfoSet S)) h) n) = []" for h
    by (induction h) (auto simp: at_key_def new_stDBinfoSet_def InitInfoSet_def split: option.splits)
  then show "held n (HandleDBLogInsert month s) = []" by (simp add: held_def HandleDBLogInsert_def)
  show "hash_ok (HandleDBLogInsert month s) = hash_ok s"
    by (simp add: hash_ok_def HandleDBLogInsert_def comp_def case_prod_unfold)
qed (simp_all add: HandleDBLogInsert_def store_sql_def)

definition ticks :: "mon_event list \<Rightarrow> nat" where
  "ticks es = length (filter (\<lambda>e. e = MonTimer) es)"

text \<open>What a step of the database's part keeps: reports in order, and a counter that never sees the ticks.\<close>

definition moves :: "(u32 \<Rightarrow> string) \<Rightarrow> (u8 \<times> db_row) list \<Rightarrow> int \<Rightarrow> MonitorServer \<Rightarrow> MonitorServer \<Rightarrow> bool" where
  "moves month rs t s s' \<longleftrightarrow>
     (hash_ok s \<longrightarrow> hash_ok s' \<and> (\<forall>n. pipeline n s' = pipeline n s @ rows_of n rs)) \<and>
     m_DBMessageCnt s' - int (length (mon_dbq s')) = m_DBMessageCnt s - int (length (mon_dbq s)) - t \<and>
     ((\<forall>t. month t \<noteq> []) \<longrightarrow> tables_created month {} (mon_sql s) \<longrightarrow> tables_created month {} (mon_sql s'))"

lemma moves_trans:
  "moves month rs t s s1 \<Longrightarrow> moves month rs' t' s1 s2 \<Longrightarrow> moves month (rs @ rs') (t + t') s s2"
  by (auto simp: moves_def)

lemma moves_same: "db_part s' = db_part s \<Longrightarrow> moves month [] 0 s s'"
  using db_part_pipeline [of s' s] by (simp add: moves_def db_part_def)

lemma posted_moves: "posted rs s s' \<Longrightarrow> moves month rs 0 s s'"
  by (auto simp: posted_def moves_def db_part_def pipeline_def inserted_def held_def queued_def hash_ok_def)

lemma DB_step_moves:
  assumes "DBWorkerThread_step month s = Some s'" "mon_dbq s \<noteq> []"
  shows "moves month [] 0 s s'"
proof -
  obtain job jobs where q: "mon_dbq s = job # jobs" using assms(2) by (cases "mon_dbq s") auto
  let ?s1 = "s\<lparr>mon_dbq := jobs, m_DBMessageCnt := m_DBMessageCnt s - 1\<rparr>"
  have h1: "held n ?s1 = held n s" "hash_ok ?s1 = hash_ok s" for n by (simp_all add: held_def hash_ok_def)
  show ?thesis
  proof (cases job)
    case (DBPost m)
    then have p: "HandleDBLogPost m ?s1 = Some s'" using assms(1) by (simp add: DBWorkerThread_step_def q)
    note f = HandleDBLogPost_pipeline [OF p, unfolded h1]
    show ?thesis using f by (auto simp: moves_def pipeline_def inserted_def queued_def q DBPost)
  next
    case DBStore
    then have s': "s' = HandleDBLogInsert month ?s1" using assms(1) by (simp add: DBWorkerThread_step_def q)
    have "concat (map (sql_rows n) (store_sql month (dbinfoSet_hash s))) = held n s" if "hash_ok s" for n
      using store_sql_rows that by (simp add: hash_ok_def held_def)
    then show ?thesis
      unfolding moves_def s' HandleDBLogInsert_pipeline h1
      by (auto simp: pipeline_def HandleDBLogInsert_pipeline inserted_def queued_def q DBStore tables_created_append store_sql_created)
  qed
qed

section \<open>Statistics\<close>

definition vals :: "u8 \<Rightarrow> stDBinfo list \<Rightarrow> int list" where
  "vals t is = map (\<lambda>i. sint (in_DataValue i)) (filter (\<lambda>i. in_DataType i = t) is)"

lemma vals_append [simp]: "vals t (xs @ ys) = vals t xs @ vals t ys" "vals t [] = []"
  by (simp_all add: vals_def)

lemma fold_add_stat:
  "vs \<noteq> [] \<Longrightarrow> fold add_stat vs x =
     \<lparr>st_sum = st_sum x + sum_list vs,
      st_avg = of_int (st_sum x + sum_list vs) / of_int (st_count x + int (length vs)),
      st_min = Min (insert (st_min x) (set vs)), st_max = Max (insert (st_max x) (set vs)),
      st_count = st_count x + int (length vs)\<rparr>"
proof (induction vs arbitrary: x)
  case (Cons v vs)
  show ?case
  proof (cases "vs = []")
    case True
    then show ?thesis by (simp add: add_stat_def Let_def)
  next
    case False
    have "Min (insert (min (st_min x) v) (set vs)) = Min (insert (st_min x) (insert v (set vs)))"
      "Max (insert (max (st_max x) v) (set vs)) = Max (insert (st_max x) (insert v (set vs)))"
      using False by (simp_all add: min.assoc max.assoc)
    then show ?thesis using Cons.IH [OF False, of "add_stat v x"] by (simp add: add_stat_def Let_def algebra_simps)
  qed
qed simp

lemma stat_of_values:
  assumes "vs \<noteq> []" "\<forall>v \<in> set vs. - 2147483648 \<le> v \<and> v \<le> 2147483647"
  defines "x \<equiv> fold add_stat vs new_stDBStat"
  shows "st_avg x = of_int (sum_list vs) / of_nat (length vs)" "st_min x = Min (set vs)" "st_max x = Max (set vs)"
proof -
  have s: "finite (set vs)" "set vs \<noteq> {}" using assms(1) by simp_all
  have "Min (set vs) \<le> 2147483647" "- 2147483648 \<le> Max (set vs)"
    using Min_in [OF s] Max_in [OF s] assms(2) by blast+
  then have "Min (insert 2147483647 (set vs)) = Min (set vs)" "Max (insert (- 2147483648) (set vs)) = Max (set vs)"
    by (simp_all only: Min_insert [OF s] Max_insert [OF s] min_absorb2 max_absorb2)
  then show "st_avg x = of_int (sum_list vs) / of_nat (length vs)" "st_min x = Min (set vs)" "st_max x = Max (set vs)"
    unfolding x_def fold_add_stat [OF assms(1)] by (simp_all add: new_stDBStat_def)
qed

definition row_stats :: "stDBinfo \<Rightarrow> stDBStat \<Rightarrow> bool" where
  "row_stats i x \<longleftrightarrow> in_avg i = st_avg x \<and> in_min i = st_min x \<and> in_max i = st_max x"

definition set_ok :: "stDBinfoSet \<Rightarrow> bool" where
  "set_ok S \<longleftrightarrow> (\<forall>t. at_key new_stDBStat (db_stats S) t = fold add_stat (vals t (infos S)) new_stDBStat) \<and>
     (\<forall>us i vs. infos S = us @ i # vs \<longrightarrow> row_stats i (fold add_stat (vals (in_DataType i) (us @ [i])) new_stDBStat))"

definition stats_ok :: "MonitorServer \<Rightarrow> bool" where
  "stats_ok s \<longleftrightarrow> (\<forall>n. set_ok (at_key new_stDBinfoSet (dbinfoSet_hash s) n))"

lemma new_set_ok [simp]: "set_ok new_stDBinfoSet"
  by (simp add: set_ok_def new_stDBinfoSet_def at_key_def)

lemma InitInfoSet_ok [simp]: "set_ok (InitInfoSet S)"
proof -
  have "at_key new_stDBStat (map (\<lambda>(t, x). (t, new_stDBStat)) xs) t = new_stDBStat" for xs :: "(u8 \<times> stDBStat) list" and t
    by (induction xs) (auto simp: at_key_def split: option.split)
  then show ?thesis by (simp add: set_ok_def InitInfoSet_def)
qed

lemma set_ok_add:
  assumes ok: "set_ok S" and x: "x = add_stat (sint (in_DataValue i)) (at_key new_stDBStat (db_stats S) (in_DataType i))"
    and i: "row_stats i x"
  shows "set_ok (S\<lparr>db_stats := AList.update (in_DataType i) x (db_stats S), infos := infos S @ [i]\<rparr>)"
proof -
  have x': "x = fold add_stat (vals (in_DataType i) (infos S @ [i])) new_stDBStat"
    using ok x by (simp add: set_ok_def vals_def)
  have "row_stats j (fold add_stat (vals (in_DataType j) (us @ [j])) new_stDBStat)" if "infos S @ [i] = us @ j # vs" for us j vs
  proof (cases vs rule: rev_cases)
    case Nil
    then show ?thesis using that i x' by simp
  next
    case (snoc ws y)
    then show ?thesis using that ok by (simp add: set_ok_def)
  qed
  moreover have "at_key new_stDBStat (AList.update (in_DataType i) x (db_stats S)) t = fold add_stat (vals t (infos S @ [i])) new_stDBStat" for t
    using ok x' by (auto simp: at_key_update set_ok_def vals_def)
  ultimately show ?thesis unfolding set_ok_def by simp
qed

lemma HandleDBLogPost_stats: "stats_ok s \<Longrightarrow> HandleDBLogPost m s = Some s' \<Longrightarrow> stats_ok s'"
  by (auto simp: HandleDBLogPost_def Let_def stats_ok_def at_key_update row_stats_def split: sum.splits prod.splits
      intro!: set_ok_add [where i = "\<lparr>in_DataType = t, in_DataValue = v, in_TimeStamp = ts, in_avg = a, in_min = l, in_max = h\<rparr>" for t v ts a l h, simplified])

lemma HandleDBLogInsert_stats:
  assumes "stats_ok s"
  shows "stats_ok (HandleDBLogInsert month s)"
proof -
  have "set_ok (at_key new_stDBinfoSet (map (\<lambda>(no, S). (no, if infos S = [] then S else InitInfoSet S)) (dbinfoSet_hash s)) n)" for n
    using assms [unfolded stats_ok_def, THEN spec, of n] by (auto simp: at_key_def map_of_map split: option.splits)
  then show ?thesis by (simp add: stats_ok_def HandleDBLogInsert_def)
qed

lemma stats_ok_part: "db_part s' = db_part s \<Longrightarrow> stats_ok s' = stats_ok s"
  by (simp add: db_part_def stats_ok_def)

lemma posted_stats: "posted rs s s' \<Longrightarrow> stats_ok s' = stats_ok s"
  by (auto simp: posted_def db_part_def stats_ok_def)

lemma DB_step_stats: "stats_ok s \<Longrightarrow> DBWorkerThread_step month s = Some s' \<Longrightarrow> stats_ok s'"
proof -
  have drop: "stats_ok (s\<lparr>mon_dbq := jobs, m_DBMessageCnt := n\<rparr>) = stats_ok s" for s jobs n by (simp add: stats_ok_def)
  show "stats_ok s \<Longrightarrow> DBWorkerThread_step month s = Some s' \<Longrightarrow> stats_ok s'"
    using HandleDBLogPost_stats [OF iffD2 [OF drop]] HandleDBLogInsert_stats [OF iffD2 [OF drop]]
    by (auto simp: DBWorkerThread_step_def Let_def split: list.splits db_job.splits)
qed

section \<open>Events\<close>

text \<open>The messages of the pool that handlers take are whole.\<close>

definition pool_ok :: "mon_event \<Rightarrow> bool" where
  "pool_ok e = (case e of MonRecv inp k m \<Rightarrow> msg_ok (mi_msg inp) | _ \<Rightarrow> True)"

lemma mon_do_moves:
  assumes ok: "mon_ok s" and pool: "pool_ok e" and e: "mon_do month e s = Some s'"
  shows "moves month (mon_report e s) (if e = MonTimer then 1 else 0) s s' \<and> (stats_ok s \<longrightarrow> stats_ok s')"
proof -
  have same: "moves month [] 0 s s' \<and> (stats_ok s \<longrightarrow> stats_ok s')" if "db_part s' = db_part s"
    using moves_same [OF that] stats_ok_part [OF that] by simp
  show ?thesis
  proof (cases e)
    case (MonRecv inp k m)
    have "posted (mon_report e s) s s'"
      unfolding MonRecv by (rule mon_OnRecv_posted [OF ok]) (use MonRecv pool e in \<open>simp_all add: pool_ok_def\<close>)
    then show ?thesis using posted_moves posted_stats MonRecv by auto
  next
    case MonTimer
    have "moves month [] 1 s (DB_StoreRequest s)"
      by (simp add: moves_def DB_StoreRequest_def pipeline_def inserted_def held_def queued_def hash_ok_def)
    moreover have "stats_ok s \<longrightarrow> stats_ok (DB_StoreRequest s)" by (simp add: stats_ok_def DB_StoreRequest_def)
    ultimately show ?thesis using MonTimer e by auto
  next
    case MonDB
    have "moves month [] 0 s s'"
    proof (cases "mon_dbq s = []")
      case True
      then show ?thesis using MonDB e by (auto simp: DBWorkerThread_step_def moves_same)
  next
      case False
      then show ?thesis using MonDB e DB_step_moves by simp
  qed
    then show ?thesis using MonDB e DB_step_stats by auto
  next
    case (MonAccept inp k ip port)
    then show ?thesis using same e by (auto simp: db_part_clients)
  next
    case (MonRelease k)
    then show ?thesis using same e by (auto simp: db_part_clients)
  next
    case (MonHeartBeat inp)
    then show ?thesis using same e by (auto simp: db_part_clients)
  qed
qed

lemma mon_run_moves:
  assumes "mon_ok s" "\<forall>e \<in> set es. pool_ok e" "mon_run month es s = Some s'"
  shows "moves month (mon_reports month es s) (int (ticks es)) s s' \<and> (stats_ok s \<longrightarrow> stats_ok s')"
  using assms
proof (induction es arbitrary: s)
  case Nil
  then show ?case by (simp add: ticks_def moves_same)
next
  case (Cons e es)
  then obtain s1 where s1: "mon_do month e s = Some s1" "mon_run month es s1 = Some s'"
    by (auto split: option.splits)
  have e: "pool_ok e" using Cons.prems(2) by simp
  note step = mon_do_moves [OF Cons.prems(1) e s1(1)]
  have rest: "moves month (mon_reports month es s1) (int (ticks es)) s1 s' \<and> (stats_ok s1 \<longrightarrow> stats_ok s')"
    by (rule Cons.IH [OF mon_do_ok [OF Cons.prems(1) s1(1)] _ s1(2)]) (use Cons.prems(2) in simp)
  have "int (ticks (e # es)) = (if e = MonTimer then 1 else 0) + int (ticks es)" by (simp add: ticks_def)
  then show ?case using moves_trans [OF conjunct1 [OF step] conjunct1 [OF rest]] step rest s1(1) by simp
qed

section \<open>A run with a report\<close>

definition sample_update :: CMessage where
  "sample_update = (new_CMessage 4096 0)\<lparr>msg_mem := word_bytes 2 en_PACKET_SS_MONITOR_DATA_UPDATE @ word_bytes 1 (1 :: u8) @
     word_bytes 4 (100 :: u32) @ word_bytes 4 (0 :: u32) @ replicate 1989 0, msg_rear := 11\<rparr>"

lemma sample_update:
  "msg_shr sample_update 2 = Inr (word_bytes 2 en_PACKET_SS_MONITOR_DATA_UPDATE, sample_update\<lparr>msg_front := 2\<rparr>)"
  "read_fields [1, 4, 4] (sample_update\<lparr>msg_front := 2\<rparr>) =
     Inr ([word_bytes 1 (1 :: u8), word_bytes 4 (100 :: u32), word_bytes 4 (0 :: u32)], sample_update\<lparr>msg_front := 11\<rparr>)"
  by (simp_all add: sample_update_def msg_shr_def mem_read_def new_CMessage_def read_fields.simps)

lemma sample_update_recv:
  assumes "map_of (mon_session s) k = Some p" "mp_type (mon_players s ! p) \<noteq> MonitorClient" "mon_tools s = []"
    "ucast (mp_ServerNo (mon_players s ! p)) = no" "\<And>s. DB_LogPost inp no 1 100 0 s = (None, f s)"
  shows "mon_OnRecv inp k sample_update s =
    Some (upd_mp p (\<lambda>x. x\<lparr>mp_Timer := mi_now inp\<rparr>) (mcall (MFree (sample_update\<lparr>msg_front := 11\<rparr>)) (f s)))"
proof -
  have w: "(en_PACKET_SS_MONITOR_DATA_UPDATE = en_PACKET_SS_MONITOR_LOGIN) = False"
    by (simp add: en_PACKET_SS_MONITOR_LOGIN_def en_PACKET_SS_MONITOR_DATA_UPDATE_def)
  have "REQ_MONITOR_UPDATE inp k (sample_update\<lparr>msg_front := 11\<rparr>) 1 100 0 s =
    (None, upd_mp p (\<lambda>x. x\<lparr>mp_Timer := mi_now inp\<rparr>) (mcall (MFree (sample_update\<lparr>msg_front := 11\<rparr>)) (f s)))"
    using assms by (simp add: REQ_MONITOR_UPDATE_def Let_def)
  then show ?thesis
    by (simp add: mon_OnRecv_def sample_update mon_PacketProc_def w mon_handled_def bytes_word_word_bytes del: One_nat_def)
qed

definition sample_reported :: "mon_event list" where
  "sample_reported = [MonAccept sample_mon_input 7 ''10.0.2.2'' 5000, MonRecv sample_mon_input 7 (sample_server_login 3),
     MonRecv sample_mon_input 7 sample_update, MonTimer, MonDB]"

lemma sample_reported_run:
  "\<exists>s i. mon_run (\<lambda>_. ''202501'') sample_reported (new_MonitorServer True) = Some s \<and> m_DBMessageCnt s = 0 \<and> mon_dbq s = [DBStore] \<and>
     dbinfoSet_hash s = [(3, \<lparr>infos = [i], db_stats = [(1, add_stat 100 new_stDBStat)]\<rparr>)] \<and> in_DataType i = 1 \<and> in_DataValue i = 100 \<and> in_TimeStamp i = 0"
proof -
  have pool: "msg_ok (mi_msg sample_mon_input)"
    by (simp add: sample_mon_input_def new_CMessage_ok MaxSize_def)
  obtain m m' where post: "\<And>s. DB_LogPost sample_mon_input 3 1 100 0 s =
        (None, (mcall MAlloc s)\<lparr>mon_dbq := mon_dbq s @ [DBPost m], m_DBMessageCnt := m_DBMessageCnt s + 1\<rparr>)"
      and m: "read_fields [1, 1, 4, 4] m = Inr ([word_bytes 1 (3::u8), word_bytes 1 (1::u8), word_bytes 4 (100::u32), word_bytes 4 (0::u32)], m')"
    using DB_LogPost_done [OF pool, of 3 1 100 0] by metis
  have handle: "HandleDBLogPost m s = Some (mcall (MFree m') (s\<lparr>dbinfoSet_hash := [(3, \<lparr>infos = [\<lparr>in_DataType = 1, in_DataValue = 100,
      in_TimeStamp = 0, in_avg = st_avg (add_stat 100 new_stDBStat), in_min = st_min (add_stat 100 new_stDBStat),
      in_max = st_max (add_stat 100 new_stDBStat)\<rparr>], db_stats = [(1, add_stat 100 new_stDBStat)]\<rparr>)]\<rparr>))"
    if "dbinfoSet_hash s = []" for s
    unfolding HandleDBLogPost_def m using that
    by (simp add: Let_def bytes_word_word_bytes at_key_def new_stDBinfoSet_def del: One_nat_def)
  show ?thesis
    unfolding sample_reported_def
    by (simp add: new_MonitorServer_def mon_OnAccept_def mon_Alloc_def upd_mp_def sample_mon_recv REQ_MONITOR_LOGIN_def
      lan_check_eq mcall_def new_mon_player_def server_type_def sample_update_recv [OF _ _ _ _ post] mon_tools_def
      DB_StoreRequest_def DBWorkerThread_step_def handle)
qed

lemma sample_reported_pool: "\<forall>e \<in> set sample_reported. pool_ok e"
  by (simp add: sample_reported_def pool_ok_def sample_mon_input_def new_CMessage_ok MaxSize_def)

section \<open>Properties\<close>

text \<open>
  C25: no report is lost, repeated or reordered on its way to the database: for each server number, the rows of
  the statements, the rows held and the reports in the queue are together the reports of that server so far, in
  order. Every statement has rows, all of the month of its table, and that table has been made before. The
  count of waiting jobs is the length of the queue less the ticks of the timer so far, since a tick queues a job
  without counting it.
\<close>

theorem monitor_reports_kept:
  assumes "mon_run month es (new_MonitorServer encode) = Some s" "\<forall>e \<in> set es. pool_ok e" "\<forall>t. month t \<noteq> []"
  shows "(\<forall>n. inserted n s @ held n s @ queued n s = rows_of n (mon_reports month es (new_MonitorServer encode))) \<and>
         tables_created month {} (mon_sql s) \<and>
         m_DBMessageCnt s = int (length (mon_dbq s)) - int (ticks es)"
proof -
  have "hash_ok (new_MonitorServer encode)" "pipeline n (new_MonitorServer encode) = []" "mon_sql (new_MonitorServer encode) = []"
    "mon_dbq (new_MonitorServer encode) = []" "m_DBMessageCnt (new_MonitorServer encode) = 0" for n
    by (simp_all add: new_MonitorServer_def hash_ok_def pipeline_def inserted_def held_def queued_def at_key_def new_stDBinfoSet_def)
  then show ?thesis
    using conjunct1 [OF mon_run_moves [OF new_MonitorServer_ok assms(2,1)]] assms(3) by (simp add: moves_def pipeline_def)
qed

theorem monitor_reports_kept_witness:
  "\<exists>s. mon_run (\<lambda>_. ''202501'') sample_reported (new_MonitorServer True) = Some s \<and> held 3 s = [(1, 100, 0)] \<and>
     inserted 3 s @ held 3 s @ queued 3 s = rows_of 3 (mon_reports (\<lambda>_. ''202501'') sample_reported (new_MonitorServer True)) \<and>
     m_DBMessageCnt s = int (length (mon_dbq s)) - 1"
proof -
  obtain s i where s: "mon_run (\<lambda>_. ''202501'') sample_reported (new_MonitorServer True) = Some s"
    "dbinfoSet_hash s = [(3, \<lparr>infos = [i], db_stats = [(1, add_stat 100 new_stDBStat)]\<rparr>)]"
    "in_DataType i = 1" "in_DataValue i = 100" "in_TimeStamp i = 0"
    using sample_reported_run by blast
  have "held 3 s = [(1, 100, 0)]" by (simp add: held_def s(2-) at_key_def)
  moreover have "\<forall>t :: u32. (\<lambda>_. ''202501'') t \<noteq> []" by simp
  note kept = monitor_reports_kept [OF s(1) sample_reported_pool this]
  have "ticks sample_reported = 1" by (simp add: ticks_def sample_reported_def)
  then have "m_DBMessageCnt s = int (length (mon_dbq s)) - 1" using kept by simp
  ultimately show ?thesis using kept s(1) by blast
qed

text \<open>
  C26: a row that waits for the database carries the mean, the least and the greatest value of the reports of its
  server and type since the last store, itself included, and a store turns exactly the held rows into rows of
  statements, in order.
\<close>

theorem monitor_row_statistics:
  assumes "mon_run month es (new_MonitorServer encode) = Some s" "\<forall>e \<in> set es. pool_ok e"
    and S: "S = at_key new_stDBinfoSet (dbinfoSet_hash s) n" "infos S = us @ i # vs"
  shows "(let ws = vals (in_DataType i) (us @ [i])
          in in_avg i = of_int (sum_list ws) / of_nat (length ws) \<and> in_min i = Min (set ws) \<and> in_max i = Max (set ws)) \<and>
         concat (map stmt_infos (insert_rows month n [] None (infos S))) = infos S"
proof -
  let ?ws = "vals (in_DataType i) (us @ [i])"
  have "stats_ok (new_MonitorServer encode)" by (simp add: stats_ok_def new_MonitorServer_def at_key_def)
  then have "set_ok S" using mon_run_moves [OF new_MonitorServer_ok assms(2,1)] by (simp add: stats_ok_def S(1))
  then have row: "row_stats i (fold add_stat ?ws new_stDBStat)" using S(2) by (simp add: set_ok_def)
  have ne: "?ws \<noteq> []" by (simp add: vals_def)
  have "- 2147483648 \<le> sint w \<and> sint w \<le> 2147483647" for w :: u32
    using sint_ge [of w] sint_lt [of w] by simp
  then have "\<forall>v \<in> set ?ws. - 2147483648 \<le> v \<and> v \<le> 2147483647" by (auto simp: vals_def)
  from stat_of_values [OF ne this] row show ?thesis
    unfolding Let_def row_stats_def insert_rows_infos by (simp add: open_rows_def)
qed

theorem monitor_row_statistics_witness:
  "\<exists>s i. mon_run (\<lambda>_. ''202501'') sample_reported (new_MonitorServer True) = Some s \<and>
     infos (at_key new_stDBinfoSet (dbinfoSet_hash s) 3) = [i] \<and> in_avg i = 100 \<and> in_min i = 100 \<and> in_max i = 100"
proof -
  obtain s i where s: "mon_run (\<lambda>_. ''202501'') sample_reported (new_MonitorServer True) = Some s"
    "dbinfoSet_hash s = [(3, \<lparr>infos = [i], db_stats = [(1, add_stat 100 new_stDBStat)]\<rparr>)]"
    "in_DataType i = 1" "in_DataValue i = 100"
    using sample_reported_run by blast
  let ?S = "at_key new_stDBinfoSet (dbinfoSet_hash s) 3"
  have S: "infos ?S = [] @ i # []" by (simp add: s(2) at_key_def)
  show ?thesis
    using monitor_row_statistics [OF s(1) sample_reported_pool refl S] s S by (auto simp: vals_def)
qed

end
