(* ===== verification/Login.thy ===== *)
theory Login
  imports Packet
begin

text \<open>
  The login server (\<^verbatim>\<open>LoginServer_Project/LoginServer.cpp\<close>): a client asks with its account and a session key,
  a thread looks the account up in the database, leaves the key in redis for the game server and answers with
  the addresses to go on to. Every handler holds \<^verbatim>\<open>SessionID_hash_Lock\<close> and is one step; a job of a database
  thread is one step too. An exception that nothing catches, a trap and a read outside a message are \<open>None\<close>.
  The database, redis and the network library are outside: the answer of the database is an input, what is asked
  of the others is kept in order.
\<close>

section \<open>State\<close>

datatype en_State = en_None | en_LoginWait | en_Max

record login_player =
  lp_State :: en_State
  lp_sessionID :: u64
  lp_Timer :: u32
  lp_AccountNo :: u64
  lp_ipAddress :: string
  lp_port :: u16

datatype login_call = LDisconnect u64 | LSend u64 CMessage

text \<open>The addresses of the other servers, as the configuration gives them: sixteen wide characters each.\<close>

record login_config =
  GameServerIP :: "u8 list"
  GameServerPort :: u16
  ChatServerIP :: "u8 list"
  Dummy1_ChatServerIP :: "u8 list"
  Dummy2_ChatServerIP :: "u8 list"
  ChatServerPort :: u16

record login_server =
  ls_encode :: bool
  ls_config :: login_config
  ls_session :: "(u64 \<times> nat) list"
  ls_account :: "(u64 \<times> nat) list"
  ls_players :: "login_player list"
  ls_free :: "nat list"
  ls_jobs :: "CMessage list"
  ls_DBMessageCnt :: int
  ls_UpdateTPS :: int
  ls_redis :: "(u64 \<times> u8 list) list"
  ls_calls :: "login_call list"

text \<open>
  The clock, the answer of the database for an account (the session keys of its rows, or a failed query), the
  bytes of locals that stay uninitialised (those of the header, and the 40 bytes of \<^verbatim>\<open>ID\<close> and of \<^verbatim>\<open>Nickname\<close>) and
  the random key.
\<close>

record login_input =
  li_now :: u32
  li_db :: "u64 \<Rightarrow> u8 list list option"
  li_junk :: "u8 list"
  li_ID :: "u8 list"
  li_Nickname :: "u8 list"
  li_RK :: u8

definition new_login_player :: login_player where
  "new_login_player = \<lparr>lp_State = en_None, lp_sessionID = 0, lp_Timer = 0, lp_AccountNo = 0, lp_ipAddress = [], lp_port = 0\<rparr>"

text \<open>\<^verbatim>\<open>m_DBMessageCnt\<close> has no initial value.\<close>

definition new_login_server :: "bool \<Rightarrow> login_config \<Rightarrow> int \<Rightarrow> login_server" where
  "new_login_server encode config count = \<lparr>ls_encode = encode, ls_config = config, ls_session = [], ls_account = [], ls_players = [],
     ls_free = [], ls_jobs = [], ls_DBMessageCnt = count, ls_UpdateTPS = 0, ls_redis = [], ls_calls = []\<rparr>"

definition lcall :: "login_call \<Rightarrow> login_server \<Rightarrow> login_server" where
  "lcall c s = s\<lparr>ls_calls := ls_calls s @ [c]\<rparr>"

definition upd_lp :: "nat \<Rightarrow> (login_player \<Rightarrow> login_player) \<Rightarrow> login_server \<Rightarrow> login_server" where
  "upd_lp p f s = s\<lparr>ls_players := (ls_players s)[p := f (ls_players s ! p)]\<rparr>"

definition login_Alloc :: "login_server \<Rightarrow> nat \<times> login_server" where
  "login_Alloc s =
     (case ls_free s of
        [] \<Rightarrow> (length (ls_players s), s\<lparr>ls_players := ls_players s @ [new_login_player]\<rparr>)
      | p # ps \<Rightarrow> (p, s\<lparr>ls_free := ps\<rparr>))"

section \<open>Connections\<close>

text \<open>A player of the pool keeps the account of the session that had it before.\<close>

definition login_OnAccept :: "login_input \<Rightarrow> u64 \<Rightarrow> string \<Rightarrow> u16 \<Rightarrow> login_server \<Rightarrow> bool \<times> login_server" where
  "login_OnAccept inp SessionID ip port s =
     (if map_of (ls_session s) SessionID \<noteq> None then (False, s)
      else let (p, s1) = login_Alloc s;
               s2 = s1\<lparr>ls_session := (SessionID, p) # ls_session s1\<rparr>
        in (True, upd_lp p (\<lambda>x. x\<lparr>lp_State := en_None, lp_Timer := li_now inp, lp_sessionID := SessionID,
              lp_ipAddress := ip, lp_port := port\<rparr>) s2))"

definition login_OnRelease :: "u64 \<Rightarrow> login_server \<Rightarrow> login_server option" where
  "login_OnRelease SessionID s =
     (case map_of (ls_session s) SessionID of
        None \<Rightarrow> None
      | Some p \<Rightarrow>
          let a = lp_AccountNo (ls_players s ! p);
              s1 = s\<lparr>ls_session := AList.delete SessionID (ls_session s)\<rparr>;
              s2 = (if map_of (ls_account s1) a = Some p then s1\<lparr>ls_account := AList.delete a (ls_account s1)\<rparr> else s1)
          in Some (s2\<lparr>ls_free := p # ls_free s2\<rparr>))"

text \<open>\<^verbatim>\<open>Update\<close> does not look at a player whose time is past the clock, as it is after the clock has wrapped.\<close>

definition login_Update :: "login_input \<Rightarrow> login_server \<Rightarrow> login_server" where
  "login_Update inp s =
     (let late = filter (\<lambda>(k, p). let t = lp_Timer (ls_players s ! p) in t \<le> li_now inp \<and> 15000 < li_now inp - t) (ls_session s)
      in s\<lparr>ls_calls := ls_calls s @ map (\<lambda>(k, p). LDisconnect k) late\<rparr>)"

section \<open>A request to log in\<close>

definition en_PACKET_CS_LOGIN_REQ_LOGIN :: u16 where "en_PACKET_CS_LOGIN_REQ_LOGIN = 101"
definition en_PACKET_CS_LOGIN_RES_LOGIN :: u16 where "en_PACKET_CS_LOGIN_RES_LOGIN = 102"

text \<open>The job for the database threads travels in the message of the request.\<close>

definition login_job :: "CMessage \<Rightarrow> u64 \<Rightarrow> u64 \<Rightarrow> u8 list \<Rightarrow> msg_error + CMessage" where
  "login_job msg AccountNo SessionID SessionKey =
     err_bind (msg_shl (InitMessage msg) (word_bytes 8 AccountNo)) (\<lambda>m.
     err_bind (msg_shl m (word_bytes 8 SessionID)) (\<lambda>m.
     PutData m SessionKey))"

text \<open>
  The account's entry goes to this session's player, and the session that had it is cut off, before the key is
  looked at and before the player's state tells whether the session has asked before. The paths that end
  early keep the message.
\<close>

definition login_REQ_LOGIN :: "u64 \<Rightarrow> CMessage \<Rightarrow> u64 \<Rightarrow> u8 list \<Rightarrow> login_server \<Rightarrow> msg_error option \<times> login_server" where
  "login_REQ_LOGIN SessionID msg AccountNo SessionKey s =
     (case map_of (ls_session s) SessionID of
        None \<Rightarrow> (None, s)
      | Some p \<Rightarrow>
          let s1 = (case map_of (ls_account s) AccountNo of
                      None \<Rightarrow> s
                    | Some q \<Rightarrow> (lcall (LDisconnect (lp_sessionID (ls_players s ! q))) s)
                        \<lparr>ls_account := AList.delete AccountNo (ls_account s)\<rparr>);
              s2 = s1\<lparr>ls_account := (AccountNo, p) # ls_account s1\<rparr>
          in if lp_State (ls_players s2 ! p) \<noteq> en_None then (None, lcall (LDisconnect SessionID) s2)
             else let s3 = upd_lp p (\<lambda>x. x\<lparr>lp_State := en_LoginWait, lp_AccountNo := AccountNo\<rparr>) s2
               in case login_job msg AccountNo SessionID SessionKey of
                    Inl e \<Rightarrow> (Some e, s3)
                  | Inr m \<Rightarrow> (None, s3\<lparr>ls_jobs := ls_jobs s3 @ [m], ls_DBMessageCnt := ls_DBMessageCnt s3 + 1\<rparr>))"

definition login_caught :: "msg_error \<Rightarrow> u64 \<Rightarrow> login_server \<Rightarrow> login_server option" where
  "login_caught e SessionID s = (if e = MemFault then None else Some (lcall (LDisconnect SessionID) s))"

definition login_PacketProc :: "u64 \<Rightarrow> CMessage \<Rightarrow> u16 \<Rightarrow> login_server \<Rightarrow> login_server option" where
  "login_PacketProc SessionID msg byType s =
     (if byType = en_PACKET_CS_LOGIN_REQ_LOGIN then
        (case msg_shr msg 8 of
           Inl e \<Rightarrow> login_caught e SessionID s
         | Inr (AccountNo, m1) \<Rightarrow>
             (case GetData m1 64 of
                Inl e \<Rightarrow> login_caught e SessionID s
              | Inr (SessionKey, m2) \<Rightarrow>
                  (case login_REQ_LOGIN SessionID m2 (bytes_word AccountNo) SessionKey s of
                     (Some e, s1) \<Rightarrow> login_caught e SessionID s1
                   | (None, s1) \<Rightarrow> Some s1)))
      else Some (lcall (LDisconnect SessionID) s))"

text \<open>\<^verbatim>\<open>OnRecv\<close> reads the type outside any \<^verbatim>\<open>try\<close>.\<close>

definition login_OnRecv :: "u64 \<Rightarrow> CMessage \<Rightarrow> login_server \<Rightarrow> login_server option" where
  "login_OnRecv SessionID msg s =
     (case msg_shr msg 2 of
        Inl e \<Rightarrow> None
      | Inr (w, m) \<Rightarrow> login_PacketProc SessionID m (bytes_word w) s)"

section \<open>The database threads\<close>

definition dfLOGIN_STATUS_OK :: u8 where "dfLOGIN_STATUS_OK = 1"
definition dfLOGIN_STATUS_SESSION_MISS :: u8 where "dfLOGIN_STATUS_SESSION_MISS = 4"

text \<open>The first row decides; its session key is read and compared with nothing.\<close>

definition WaitDB :: "login_input \<Rightarrow> u64 \<Rightarrow> u8 list \<Rightarrow> login_server \<Rightarrow> u8 \<times> login_server" where
  "WaitDB inp AccountNo SessionKey s =
     (case li_db inp AccountNo of
        None \<Rightarrow> (dfLOGIN_STATUS_SESSION_MISS, s)
      | Some [] \<Rightarrow> (dfLOGIN_STATUS_SESSION_MISS, s)
      | Some (token # rows) \<Rightarrow>
          (dfLOGIN_STATUS_OK, s\<lparr>ls_redis := ls_redis s @ [(AccountNo, takeWhile (\<lambda>c. c \<noteq> 0) SessionKey)]\<rparr>))"

definition login_RES_LOGIN ::
    "bool \<Rightarrow> login_input \<Rightarrow> CMessage \<Rightarrow> u64 \<Rightarrow> u8 \<Rightarrow> u8 list \<Rightarrow> u16 \<Rightarrow> u8 list \<Rightarrow> u16 \<Rightarrow> msg_error + CMessage" where
  "login_RES_LOGIN encode inp msg AccountNo Status GameIP GamePort ChatIP ChatPort =
     err_bind (begin_packet (li_junk inp) msg) (\<lambda>m.
     err_bind (msg_shl m (word_bytes 2 en_PACKET_CS_LOGIN_RES_LOGIN)) (\<lambda>m.
     err_bind (msg_shl m (word_bytes 8 AccountNo)) (\<lambda>m.
     err_bind (msg_shl m (word_bytes 1 Status)) (\<lambda>m.
     err_bind (PutData m (li_ID inp)) (\<lambda>m.
     err_bind (PutData m (li_Nickname inp)) (\<lambda>m.
     err_bind (PutData m GameIP) (\<lambda>m.
     err_bind (msg_shl m (word_bytes 2 GamePort)) (\<lambda>m.
     err_bind (PutData m ChatIP) (\<lambda>m.
     err_bind (msg_shl m (word_bytes 2 ChatPort)) (\<lambda>m.
     end_packet encode (li_RK inp) m))))))))))"

text \<open>The chatting server a client is sent to depends on its address.\<close>

definition chat_server_for :: "u64 \<Rightarrow> login_server \<Rightarrow> u8 list" where
  "chat_server_for SessionID s =
     (case map_of (ls_session s) SessionID of
        None \<Rightarrow> ChatServerIP (ls_config s)
      | Some p \<Rightarrow>
          if lp_ipAddress (ls_players s ! p) = ''10.0.1.2'' then Dummy1_ChatServerIP (ls_config s)
          else if lp_ipAddress (ls_players s ! p) = ''10.0.2.2'' then Dummy2_ChatServerIP (ls_config s)
          else ChatServerIP (ls_config s))"

text \<open>Nothing catches the exceptions of a database thread. A refused client's message is not given back.\<close>

definition DB_VerifySession :: "login_input \<Rightarrow> CMessage \<Rightarrow> login_server \<Rightarrow> login_server option" where
  "DB_VerifySession inp msg s =
     (case msg_shr msg 8 of
        Inl e \<Rightarrow> None
      | Inr (a, m1) \<Rightarrow>
          (case msg_shr m1 8 of
             Inl e \<Rightarrow> None
           | Inr (k, m2) \<Rightarrow>
               (case GetData m2 64 of
                  Inl e \<Rightarrow> None
                | Inr (SessionKey, m3) \<Rightarrow>
                    let (AccountNo, SessionID) = (bytes_word a, bytes_word k);
                        (retval, s1) = WaitDB inp AccountNo SessionKey s
                    in if retval \<noteq> dfLOGIN_STATUS_OK then Some (lcall (LDisconnect SessionID) s1)
                       else (case login_RES_LOGIN (ls_encode s1) inp m3 AccountNo retval (GameServerIP (ls_config s1))
                                    (GameServerPort (ls_config s1)) (chat_server_for SessionID s1) (ChatServerPort (ls_config s1)) of
                               Inl e \<Rightarrow> None
                             | Inr m4 \<Rightarrow> Some (lcall (LSend SessionID m4) s1)))))"

text \<open>The threads take the jobs in order; \<open>n\<close> is the job whose thread comes to its end.\<close>

definition DBworkerThread_step :: "login_input \<Rightarrow> nat \<Rightarrow> login_server \<Rightarrow> login_server option" where
  "DBworkerThread_step inp n s =
     (if length (ls_jobs s) \<le> n then Some s
      else let s1 = s\<lparr>ls_jobs := take n (ls_jobs s) @ drop (Suc n) (ls_jobs s), ls_DBMessageCnt := ls_DBMessageCnt s - 1\<rparr>
        in case DB_VerifySession inp (ls_jobs s ! n) s1 of
             None \<Rightarrow> None
           | Some s2 \<Rightarrow> Some (s2\<lparr>ls_UpdateTPS := ls_UpdateTPS s2 + 1\<rparr>))"

end
