(* ===== verification/LoginInv.thy ===== *)
theory LoginInv
  imports Login
begin

text \<open>
  Runs of the login server and their invariant: the sessions have players of their own, and a session is answered
  at most once, counting the jobs that still wait for a database thread.
\<close>

section \<open>Runs\<close>

datatype login_event = LogAccept login_input u64 string u16 | LogRecv u64 CMessage | LogRelease u64
  | LogUpdate login_input | LogDB login_input nat

fun login_do :: "login_event \<Rightarrow> login_server \<Rightarrow> login_server option" where
  "login_do (LogAccept inp k ip port) s = Some (snd (login_OnAccept inp k ip port s))"
| "login_do (LogRecv k m) s = login_OnRecv k m s"
| "login_do (LogRelease k) s = login_OnRelease k s"
| "login_do (LogUpdate inp) s = Some (login_Update inp s)"
| "login_do (LogDB inp n) s = DBworkerThread_step inp n s"

fun login_run :: "login_event list \<Rightarrow> login_server \<Rightarrow> login_server option" where
  "login_run [] s = Some s"
| "login_run (e # es) s = (case login_do e s of None \<Rightarrow> None | Some s1 \<Rightarrow> login_run es s1)"

text \<open>The identifiers of the connections, which the network library never uses twice, and whole messages.\<close>

definition accepted :: "login_event list \<Rightarrow> u64 list" where
  "accepted es = concat (map (\<lambda>e. case e of LogAccept inp k ip port \<Rightarrow> [k] | _ \<Rightarrow> []) es)"

definition messages_ok :: "login_event list \<Rightarrow> bool" where
  "messages_ok es \<longleftrightarrow> (\<forall>k m. LogRecv k m \<in> set es \<longrightarrow> msg_ok m)"

section \<open>Jobs\<close>

definition job_of :: "CMessage \<Rightarrow> (u64 \<times> u64 \<times> u8 list) option" where
  "job_of m =
     (case msg_shr m 8 of
        Inl e \<Rightarrow> None
      | Inr (a, m1) \<Rightarrow>
          (case msg_shr m1 8 of
             Inl e \<Rightarrow> None
           | Inr (k, m2) \<Rightarrow> (case GetData m2 64 of Inl e \<Rightarrow> None | Inr (key, m3) \<Rightarrow> Some (bytes_word a, bytes_word k, key))))"

lemma login_job_done:
  assumes ok: "msg_ok msg" and key: "length key = 64"
  obtains m where "login_job msg a k key = Inr m" "job_of m = Some (a, k, key)" "msg_ok m" "msg_K m = msg_K msg"
proof -
  let ?K = "msg_K msg"
  obtain m1 where m1: "msg_shl (InitMessage msg) (word_bytes 8 a) = Inr m1" "building m1 ?K (word_bytes 8 a)"
    using building_shl_fits [OF building_InitMessage [OF ok], of "word_bytes 8 a"] by (auto simp: bufferSize_def)
  obtain m2 where m2: "msg_shl m1 (word_bytes 8 k) = Inr m2" "building m2 ?K (word_bytes 8 a @ word_bytes 8 k)"
    using building_shl_fits [OF m1(2), of "word_bytes 8 k"] by (auto simp: bufferSize_def)
  obtain m3 where m3: "msg_shl m2 key = Inr m3" "building m3 ?K ((word_bytes 8 a @ word_bytes 8 k) @ key)"
    using building_shl_fits [OF m2(2), of key] key by (auto simp: bufferSize_def)
  have made: "login_job msg a k key = Inr m3"
    using m1(1) m2(1) m3(1) building_PutData [OF m2(2), of key] by (simp add: login_job_def)
  have ok3: "msg_ok m3" and d: "msg_data m3 = word_bytes 8 a @ word_bytes 8 k @ key"
    using m3(2) by (simp_all add: building_def msg_plain_def)
  obtain m4 where m4: "msg_shr m3 8 = Inr (word_bytes 8 a, m4)" "msg_ok m4" "msg_data m4 = word_bytes 8 k @ key"
    using msg_shr_append [OF ok3 d] by auto
  obtain m5 where m5: "msg_shr m4 8 = Inr (word_bytes 8 k, m5)" "msg_ok m5" "msg_data m5 = key @ []"
    using msg_shr_append [OF m4(2,3)] by auto
  obtain m6 where m6: "msg_shr m5 64 = Inr (key, m6)" using msg_shr_append [OF m5(2,3) key] by auto
  have "job_of m3 = Some (a, k, key)" by (simp add: job_of_def m4(1) m5(1) m6 GetData_eq)
  moreover have "msg_K m3 = msg_K msg" using m3(2) by (simp add: building_def)
  ultimately show ?thesis using made ok3 by (intro that)
qed

definition job_session :: "CMessage \<Rightarrow> u64 option" where
  "job_session m = (case job_of m of None \<Rightarrow> None | Some (a, k, key) \<Rightarrow> Some k)"

definition answer_to :: "u64 \<Rightarrow> login_call \<Rightarrow> bool" where
  "answer_to k c = (case c of LSend j m \<Rightarrow> j = k | _ \<Rightarrow> False)"

text \<open>The answers to a session, sent or still to come.\<close>

definition answers :: "u64 \<Rightarrow> login_server \<Rightarrow> nat" where
  "answers k s = length (filter (answer_to k) (ls_calls s)) + length (filter (\<lambda>m. job_session m = Some k) (ls_jobs s))"

section \<open>Invariant\<close>

definition login_ok :: "u64 set \<Rightarrow> login_server \<Rightarrow> bool" where
  "login_ok A s \<longleftrightarrow> distinct (map fst (ls_session s)) \<and> set (map fst (ls_session s)) \<subseteq> A \<and>
     distinct (map snd (ls_session s) @ ls_free s) \<and>
     (\<forall>p \<in> set (map snd (ls_session s) @ ls_free s). p < length (ls_players s)) \<and>
     (\<forall>(k, p) \<in> set (ls_session s). lp_sessionID (ls_players s ! p) = k)"

definition once_ok :: "u64 set \<Rightarrow> login_server \<Rightarrow> bool" where
  "once_ok A s \<longleftrightarrow> (\<forall>k. answers k s \<le> 1 \<and> (k \<notin> A \<longrightarrow> answers k s = 0) \<and>
     (\<forall>p. map_of (ls_session s) k = Some p \<longrightarrow> lp_State (ls_players s ! p) = en_None \<longrightarrow> answers k s = 0))"

lemma answers_simps [simp]:
  "answers k (lcall (LDisconnect j) s) = answers k s" "answers k (upd_lp p f s) = answers k s"
  "answers k (s\<lparr>ls_session := h\<rparr>) = answers k s" "answers k (s\<lparr>ls_account := h\<rparr>) = answers k s"
  "answers k (s\<lparr>ls_free := fr\<rparr>) = answers k s" "answers k (s\<lparr>ls_players := ps\<rparr>) = answers k s"
  "answers k (s\<lparr>ls_UpdateTPS := n\<rparr>) = answers k s" "answers k (s\<lparr>ls_redis := r\<rparr>) = answers k s"
  by (simp_all add: answers_def lcall_def upd_lp_def answer_to_def)

lemma login_fields [simp]:
  "ls_session (lcall c s) = ls_session s" "ls_players (lcall c s) = ls_players s" "ls_free (lcall c s) = ls_free s"
  "ls_account (lcall c s) = ls_account s" "ls_jobs (lcall c s) = ls_jobs s" "ls_calls (lcall c s) = ls_calls s @ [c]"
  "ls_session (upd_lp p f s) = ls_session s" "ls_free (upd_lp p f s) = ls_free s" "ls_account (upd_lp p f s) = ls_account s"
  "ls_players (upd_lp p f s) = (ls_players s)[p := f (ls_players s ! p)]" "ls_jobs (upd_lp p f s) = ls_jobs s"
  "ls_calls (upd_lp p f s) = ls_calls s"
  by (simp_all add: lcall_def upd_lp_def)

definition login_inv :: "u64 set \<Rightarrow> login_server \<Rightarrow> bool" where
  "login_inv A s \<longleftrightarrow> login_ok A s \<and> once_ok A s"

text \<open>What the invariant looks at.\<close>

lemma login_inv_cong:
  assumes "login_inv A s" "ls_session s' = ls_session s" "ls_free s' = ls_free s" "ls_players s' = ls_players s"
    "\<And>k. answers k s' \<le> answers k s"
  shows "login_inv A s'"
proof -
  have "answers k s = 0 \<Longrightarrow> answers k s' = 0" "answers k s \<le> 1 \<Longrightarrow> answers k s' \<le> 1" for k
    using assms(5) [of k] by simp_all
  then show ?thesis using assms(1-4) by (simp add: login_inv_def login_ok_def once_ok_def)
qed

lemma session_place:
  assumes "login_inv A s" "map_of (ls_session s) k = Some p"
  shows "p < length (ls_players s)" "p \<notin> set (ls_free s)" "k \<in> A" "\<And>j. map_of (ls_session s) j = Some p \<Longrightarrow> j = k"
proof -
  obtain us vs where w: "ls_session s = us @ (k, p) # vs" using split_list [OF map_of_SomeD [OF assms(2)]] by blast
  have ok: "distinct (map snd (us @ (k, p) # vs) @ ls_free s)" "\<forall>p \<in> set (map snd (us @ (k, p) # vs) @ ls_free s). p < length (ls_players s)"
    "set (map fst (us @ (k, p) # vs)) \<subseteq> A"
    using assms(1) unfolding login_inv_def login_ok_def w by blast+
  show "p < length (ls_players s)" using ok(2) by simp
  show "p \<notin> set (ls_free s)" using ok(1) by auto
  show "k \<in> A" using ok(3) by simp
  fix j assume "map_of (ls_session s) j = Some p"
  then have "(j, p) \<in> set (us @ (k, p) # vs)" using map_of_SomeD w by metis
  moreover have "p \<notin> set (map snd us) \<union> set (map snd vs)" using ok(1) by auto
  ultimately show "j = k" by force
qed

lemma login_OnAccept_inv:
  assumes inv: "login_inv A s" and k: "k \<notin> A"
  shows "login_inv (insert k A) (snd (login_OnAccept inp k ip port s))"
proof -
  have ok: "distinct (map fst (ls_session s))" "set (map fst (ls_session s)) \<subseteq> A" "distinct (map snd (ls_session s) @ ls_free s)"
    "\<forall>p \<in> set (map snd (ls_session s) @ ls_free s). p < length (ls_players s)"
    "\<forall>(k, p) \<in> set (ls_session s). lp_sessionID (ls_players s ! p) = k"
    using inv unfolding login_inv_def login_ok_def by blast+
  have none: "map_of (ls_session s) k = None" using ok(2) k by (auto simp: map_of_eq_None_iff)
  obtain p s1 where a: "login_Alloc s = (p, s1)" by (cases "login_Alloc s")
  have b: "\<And>j q. (j, q) \<in> set (ls_session s) \<Longrightarrow> q < length (ls_players s)" "\<And>q. q \<in> set (ls_free s) \<Longrightarrow> q < length (ls_players s)"
    using ok(4) by force+
  have s1: "ls_session s1 = ls_session s" "p \<notin> set (map snd (ls_session s))" "p < length (ls_players s1)"
    "distinct (map snd (ls_session s) @ p # ls_free s1)" "\<forall>q \<in> set (map snd (ls_session s) @ ls_free s1). q < length (ls_players s1)"
    "\<And>q. q < length (ls_players s) \<Longrightarrow> ls_players s1 ! q = ls_players s ! q" "\<And>k. answers k s1 = answers k s"
    using a ok(3) b by (auto simp: login_Alloc_def nth_append answers_def less_Suc_eq dest: b(1) split: list.splits)
  let ?s = "snd (login_OnAccept inp k ip port s)"
  let ?x = "(ls_players s1 ! p)\<lparr>lp_State := en_None, lp_Timer := li_now inp, lp_sessionID := k, lp_ipAddress := ip, lp_port := port\<rparr>"
  have s': "?s = upd_lp p (\<lambda>_. ?x) (s1\<lparr>ls_session := (k, p) # ls_session s\<rparr>)"
    using none by (simp add: login_OnAccept_def a s1(1) upd_lp_def)
  have old: "ls_players ?s ! q = ls_players s ! q" if "(j, q) \<in> set (ls_session s)" for j q
  proof -
    have q: "q \<in> set (map snd (ls_session s))" using that by force
    then have "q \<noteq> p" "q < length (ls_players s)" using s1(2) ok(4) by auto
    then show ?thesis using s1(6) by (simp add: s')
  qed
  have "\<forall>(j, q) \<in> set (ls_session s). lp_sessionID (ls_players ?s ! q) = j" using ok(5) old by fastforce
  then have "login_ok (insert k A) ?s"
    using ok(1,2) none s1(3-5) by (auto simp: login_ok_def s' map_of_eq_None_iff)
  moreover have "once_ok (insert k A) ?s"
  proof -
    have ans: "answers j ?s = answers j s" for j by (simp add: s' s1(7))
    have "answers k s = 0" using inv k by (simp add: login_inv_def once_ok_def)
    moreover have "lp_State (ls_players s ! q) = en_None \<Longrightarrow> answers j s = 0" if "map_of (ls_session s) j = Some q" for j q
      using inv that by (auto simp: login_inv_def once_ok_def)
    ultimately show ?thesis
      using inv old [OF map_of_SomeD] by (auto simp: once_ok_def s1(7) login_inv_def s' split: if_splits)
  qed
  ultimately show ?thesis by (simp add: login_inv_def)
qed

lemma login_OnRelease_inv:
  assumes inv: "login_inv A s" and r: "login_OnRelease k s = Some s'"
  shows "login_inv A s'"
proof -
  have ok: "distinct (map fst (ls_session s))" "set (map fst (ls_session s)) \<subseteq> A" "distinct (map snd (ls_session s) @ ls_free s)"
    "\<forall>p \<in> set (map snd (ls_session s) @ ls_free s). p < length (ls_players s)"
    "\<forall>(k, p) \<in> set (ls_session s). lp_sessionID (ls_players s ! p) = k" "once_ok A s"
    using inv unfolding login_inv_def login_ok_def by blast+
  obtain p where p: "map_of (ls_session s) k = Some p" using r by (auto simp: login_OnRelease_def split: option.splits)
  obtain us vs where w: "ls_session s = us @ (k, p) # vs" "AList.delete k (ls_session s) = us @ vs"
    using AList_delete_remove [OF ok(1) p] by blast
  have s': "ls_session s' = us @ vs" "ls_free s' = p # ls_free s" "ls_players s' = ls_players s" "\<And>j. answers j s' = answers j s"
    using r p w(2) by (auto simp: login_OnRelease_def Let_def)
  have "login_ok A s'" using ok(1-5) unfolding login_ok_def s' w(1) by auto
  moreover have "map_of (us @ vs) j = Some q \<Longrightarrow> map_of (ls_session s) j = Some q" for j q
  proof -
    assume "map_of (us @ vs) j = Some q"
    then have "(j, q) \<in> set (ls_session s)" using map_of_SomeD [of "us @ vs" j q] by (auto simp: w(1))
    then show ?thesis using ok(1) by (simp add: map_of_is_SomeI)
  qed
  then have "once_ok A s'" using ok(6) unfolding once_ok_def s' by blast
  ultimately show ?thesis by (simp add: login_inv_def)
qed

lemma login_Update_inv:
  assumes "login_inv A s"
  shows "login_inv A (login_Update inp s)"
proof (rule login_inv_cong [OF assms])
  have "filter (answer_to k) (map (\<lambda>(k, p). LDisconnect k) xs) = []" for k and xs :: "(u64 \<times> nat) list"
    by (induction xs) (auto simp: answer_to_def)
  then show "answers k (login_Update inp s) \<le> answers k s" for k by (simp add: login_Update_def Let_def answers_def)
qed (simp_all add: login_Update_def Let_def)

text \<open>A request changes one player, and a job is made only for a session that has not asked before.\<close>

lemma login_REQ_LOGIN_inv:
  assumes inv: "login_inv A s" and msg: "msg_ok msg" "length key = 64"
  shows "fst (login_REQ_LOGIN k msg a key s) = None \<and> login_inv A (snd (login_REQ_LOGIN k msg a key s))"
proof (cases "map_of (ls_session s) k")
  case None
  then show ?thesis using inv by (simp add: login_REQ_LOGIN_def)
next
  case (Some p)
  define s1 where "s1 = (case map_of (ls_account s) a of None \<Rightarrow> s
      | Some q \<Rightarrow> (lcall (LDisconnect (lp_sessionID (ls_players s ! q))) s)\<lparr>ls_account := AList.delete a (ls_account s)\<rparr>)"
  define s2 where "s2 = s1\<lparr>ls_account := (a, p) # ls_account s1\<rparr>"
  have same: "ls_session s2 = ls_session s" "ls_free s2 = ls_free s" "ls_players s2 = ls_players s" "\<And>j. answers j s2 = answers j s"
    by (simp_all add: s2_def s1_def split: option.split)
  have inv2: "login_inv A s2" by (rule login_inv_cong [OF inv same(1-3)]) (simp add: same(4))
  show ?thesis
  proof (cases "lp_State (ls_players s ! p) = en_None")
    case False
    then have "lp_State (ls_players s2 ! p) \<noteq> en_None" by (simp only: same(3) not_False_eq_True)
    then have r: "login_REQ_LOGIN k msg a key s = (None, lcall (LDisconnect k) s2)"
      unfolding login_REQ_LOGIN_def Some s1_def [symmetric] Let_def option.case s2_def [symmetric] by (simp only: if_True not_False_eq_True)
    have "login_inv A (lcall (LDisconnect k) s2)" by (rule login_inv_cong [OF inv2]) simp_all
    then show ?thesis by (simp add: r)
  next
    case True
    obtain m where m: "login_job msg a k key = Inr m" "job_of m = Some (a, k, key)" using login_job_done [OF msg] by metis
    define s3 where "s3 = upd_lp p (\<lambda>x. x\<lparr>lp_State := en_LoginWait, lp_AccountNo := a\<rparr>) s2"
    define s4 where "s4 = s3\<lparr>ls_jobs := ls_jobs s3 @ [m], ls_DBMessageCnt := ls_DBMessageCnt s3 + 1\<rparr>"
    have "\<not> lp_State (ls_players s2 ! p) \<noteq> en_None" using True by (simp only: same(3) not_not)
    then have r: "login_REQ_LOGIN k msg a key s = (None, s4)"
      unfolding login_REQ_LOGIN_def Some s1_def [symmetric] Let_def option.case s2_def [symmetric] s3_def [symmetric] m(1)
      by (simp only: if_False s4_def sum.case)
    have ok: "login_ok A s" and once: "once_ok A s" using inv by (simp_all add: login_inv_def)
    have place: "p < length (ls_players s)" "k \<in> A" "\<And>j. map_of (ls_session s) j = Some p \<Longrightarrow> j = k"
      using session_place [OF inv Some] by blast+
    have s4: "ls_session s4 = ls_session s" "ls_free s4 = ls_free s"
      "ls_players s4 = (ls_players s)[p := (ls_players s ! p)\<lparr>lp_State := en_LoginWait, lp_AccountNo := a\<rparr>]"
      by (simp_all add: s4_def s3_def same)
    have ans: "answers j s4 = answers j s + (if j = k then 1 else 0)" for j
    proof -
      have "answers j s4 = answers j s3 + (if j = k then 1 else 0)" using m(2) by (simp add: answers_def s4_def job_session_def)
      then show ?thesis by (simp add: s3_def same(4))
    qed
    have zero: "answers k s = 0" using once Some True by (auto simp: once_ok_def)
    have ids: "lp_sessionID (ls_players s4 ! q) = lp_sessionID (ls_players s ! q)" for q
      using place(1) by (cases "q = p") (simp_all add: s4(3))
    have "login_ok A s4" using ok unfolding login_ok_def s4(1,2) ids by (simp add: s4(3))
    moreover have "once_ok A s4"
      unfolding once_ok_def s4(1)
    proof (intro allI conjI impI)
      fix j
      show "answers j s4 \<le> 1" using once zero by (simp add: ans once_ok_def)
      show "j \<notin> A \<Longrightarrow> answers j s4 = 0" using once place(2) by (auto simp: ans once_ok_def)
      fix q assume j: "map_of (ls_session s) j = Some q" and st: "lp_State (ls_players s4 ! q) = en_None"
      then have "q \<noteq> p" using place(1) by (auto simp: s4(3))
      then have "j \<noteq> k" "lp_State (ls_players s ! q) = en_None" using j st Some by (auto simp: s4(3))
      then show "answers j s4 = 0" using once j by (simp add: ans once_ok_def)
    qed
    ultimately show ?thesis by (simp add: r login_inv_def)
  qed
qed

lemma login_caught_inv:
  assumes "login_inv A s" "login_caught e k s = Some s'"
  shows "login_inv A s'"
  by (rule login_inv_cong [OF assms(1)]) (use assms(2) in \<open>auto simp: login_caught_def split: if_splits\<close>)

lemma login_OnRecv_inv:
  assumes inv: "login_inv A s" and m: "msg_ok m" and r: "login_OnRecv k m s = Some s'"
  shows "login_inv A s'"
proof -
  obtain w m1 where t: "msg_shr m 2 = Inr (w, m1)" "login_PacketProc k m1 (bytes_word w) s = Some s'"
    using r by (auto simp: login_OnRecv_def split: sum.splits)
  have ok1: "msg_ok m1" by (rule msg_shr_ok(1) [OF m t(1)])
  have refused: "login_inv A (lcall (LDisconnect k) s)" by (rule login_inv_cong [OF inv]) simp_all
  have "login_inv A s'" if a: "msg_shr m1 8 = Inr (a, m2)" and b: "GetData m2 64 = Inr (key, m3)"
    and ty: "bytes_word w = en_PACKET_CS_LOGIN_REQ_LOGIN" for a m2 key m3
  proof -
    have "msg_ok m2" by (rule msg_shr_ok(1) [OF ok1 a])
    then have "msg_ok m3" "length key = 64" using msg_shr_ok(1,4) [OF _ b [unfolded GetData_eq]] by blast+
    from login_REQ_LOGIN_inv [OF inv this] obtain s1 where "login_REQ_LOGIN k m3 (bytes_word a) key s = (None, s1)" "login_inv A s1"
      by (metis prod.collapse)
    then show ?thesis using t(2) a b ty by (auto simp: login_PacketProc_def)
  qed
  then show ?thesis using t(2) refused login_caught_inv [OF inv]
    by (auto simp: login_PacketProc_def split: if_splits sum.splits)
qed

text \<open>A database thread takes a job away and answers its session with at most one message.\<close>

lemma DB_VerifySession_answers:
  assumes "DB_VerifySession inp m s = Some s'"
  shows "ls_session s' = ls_session s" "ls_free s' = ls_free s" "ls_players s' = ls_players s"
    "answers k s' \<le> answers k s + (if job_session m = Some k then 1 else 0)"
proof -
  obtain a m1 j m2 key m3 where b: "msg_shr m 8 = Inr (a, m1)" "msg_shr m1 8 = Inr (j, m2)" "GetData m2 64 = Inr (key, m3)"
    using assms by (auto simp: DB_VerifySession_def split: sum.splits)
  obtain st s1 where w: "WaitDB inp (bytes_word a) key s = (st, s1)" by (cases "WaitDB inp (bytes_word a) key s")
  have s1: "ls_session s1 = ls_session s" "ls_free s1 = ls_free s" "ls_players s1 = ls_players s" "\<And>k. answers k s1 = answers k s"
    using w by (auto simp: WaitDB_def split: option.splits list.splits)
  have job: "job_session m = Some (bytes_word j)" by (simp add: job_session_def job_of_def b)
  have s': "s' = lcall (LDisconnect (bytes_word j)) s1 \<or> (\<exists>m4. s' = lcall (LSend (bytes_word j) m4) s1)"
    using assms by (auto simp: DB_VerifySession_def b w split: if_splits sum.splits)
  then show "ls_session s' = ls_session s" "ls_free s' = ls_free s" "ls_players s' = ls_players s" using s1 by auto
  have "answers k (lcall (LSend (bytes_word j) m4) s1) = answers k s1 + (if job_session m = Some k then 1 else 0)" for m4
    by (simp add: answers_def job lcall_def answer_to_def)
  then show "answers k s' \<le> answers k s + (if job_session m = Some k then 1 else 0)" using s' s1(4) by auto
qed

lemma DBworkerThread_step_inv:
  assumes inv: "login_inv A s" and r: "DBworkerThread_step inp n s = Some s'"
  shows "login_inv A s'"
proof (cases "n < length (ls_jobs s)")
  case False
  then show ?thesis using inv r by (simp add: DBworkerThread_step_def)
next
  case True
  let ?s1 = "s\<lparr>ls_jobs := take n (ls_jobs s) @ drop (Suc n) (ls_jobs s), ls_DBMessageCnt := ls_DBMessageCnt s - 1\<rparr>"
  obtain s2 where s2: "DB_VerifySession inp (ls_jobs s ! n) ?s1 = Some s2" "s' = s2\<lparr>ls_UpdateTPS := ls_UpdateTPS s2 + 1\<rparr>"
    using r True by (auto simp: DBworkerThread_step_def Let_def split: option.splits)
  note d = DB_VerifySession_answers [OF s2(1)]
  have "answers k ?s1 + (if job_session (ls_jobs s ! n) = Some k then 1 else 0) = answers k s" for k
    unfolding answers_def by (subst (4) id_take_nth_drop [OF True]) simp
  then have "answers k s' \<le> answers k s" for k using d(4) [of k] by (simp add: s2(2) add.commute)
  then show ?thesis using d(1-3) by (intro login_inv_cong [OF inv]) (simp_all add: s2(2))
qed

section \<open>Runs keep it\<close>

lemma login_do_inv:
  assumes "login_inv A s" "login_do e s = Some s'" "messages_ok [e]" "set (accepted [e]) \<inter> A = {}"
  shows "login_inv (set (accepted [e]) \<union> A) s'"
proof (cases e)
  case (LogAccept inp k ip port)
  then show ?thesis using assms login_OnAccept_inv [OF assms(1), of k] by (auto simp: accepted_def)
next
  case (LogRecv k m)
  then show ?thesis using assms login_OnRecv_inv [OF assms(1)] by (auto simp: accepted_def messages_ok_def)
next
  case (LogRelease k)
  then show ?thesis using assms login_OnRelease_inv [OF assms(1)] by (auto simp: accepted_def)
next
  case (LogUpdate inp)
  then show ?thesis using assms login_Update_inv [OF assms(1)] by (auto simp: accepted_def)
next
  case (LogDB inp n)
  then show ?thesis using assms DBworkerThread_step_inv [OF assms(1)] by (auto simp: accepted_def)
qed

lemma accepted_Cons: "accepted (e # es) = accepted [e] @ accepted es"
  by (simp add: accepted_def)

lemma login_run_inv:
  "login_run es s = Some s' \<Longrightarrow> login_inv A s \<Longrightarrow> messages_ok es \<Longrightarrow> distinct (accepted es) \<Longrightarrow>
   set (accepted es) \<inter> A = {} \<Longrightarrow> login_inv (set (accepted es) \<union> A) s'"
proof (induction es arbitrary: s A)
  case Nil
  then show ?case by (simp add: accepted_def)
next
  case (Cons e es)
  obtain s1 where s1: "login_do e s = Some s1" "login_run es s1 = Some s'" using Cons.prems(1) by (auto split: option.splits)
  have ok: "messages_ok [e]" "messages_ok es" using Cons.prems(3) by (auto simp: messages_ok_def)
  have d: "distinct (accepted es)" "set (accepted [e]) \<inter> A = {}" "set (accepted es) \<inter> (set (accepted [e]) \<union> A) = {}"
    using Cons.prems(4,5) unfolding accepted_Cons [of e es] by auto
  have "login_inv (set (accepted es) \<union> (set (accepted [e]) \<union> A)) s'"
    by (rule Cons.IH [OF s1(2) login_do_inv [OF Cons.prems(2) s1(1) ok(1) d(2)] ok(2) d(1,3)])
  then show ?case unfolding accepted_Cons [of e es] by (simp add: Un_ac)
qed

lemma new_login_server_inv: "login_inv {} (new_login_server encode config count)"
  by (simp add: login_inv_def login_ok_def once_ok_def new_login_server_def answers_def)

end
