(* ===== verification/LoginProps.thy ===== *)
theory LoginProps
  imports LoginInv
begin

text \<open>
  The login server: a session is answered at most once, what the answer to a request is, and the entry of an
  account that outlives its session.
\<close>

section \<open>One answer\<close>

text \<open>
  C28: As long as the network library does not use an identifier twice, a session of the login server gets at most
  one answer, whatever its client sends: the answers sent and the jobs that will bring one are together at most one,
  and there is none for a session that was never accepted. The sessions have players of their own, and the player of
  a session carries its identifier.
\<close>

theorem login_answered_once:
  assumes "login_run es (new_login_server encode config count) = Some s" "messages_ok es" "distinct (accepted es)"
  shows "length (filter (answer_to k) (ls_calls s)) + length (filter (\<lambda>m. job_session m = Some k) (ls_jobs s))
           \<le> (if k \<in> set (accepted es) then 1 else 0) \<and>
         distinct (map snd (ls_session s) @ ls_free s) \<and>
         (map_of (ls_session s) k = Some p \<longrightarrow> k \<in> set (accepted es) \<and> lp_sessionID (ls_players s ! p) = k)"
proof -
  have inv: "login_inv (set (accepted es)) s"
    using login_run_inv [OF assms(1) new_login_server_inv assms(2,3)] by simp
  then have "login_ok (set (accepted es)) s" "once_ok (set (accepted es)) s" by (simp_all add: login_inv_def)
  then have "answers k s \<le> (if k \<in> set (accepted es) then 1 else 0)" "distinct (map snd (ls_session s) @ ls_free s)"
    "map_of (ls_session s) k = Some p \<Longrightarrow> lp_sessionID (ls_players s ! p) = k"
    by (simp add: once_ok_def, simp add: login_ok_def, auto simp: login_ok_def dest: map_of_SomeD)
  then show ?thesis using session_place(3) [OF inv] unfolding answers_def by blast
qed

section \<open>A request and its answer\<close>

text \<open>A whole request: what the handler does when nothing is missing from the message.\<close>

definition login_asked :: "u64 \<Rightarrow> u64 \<Rightarrow> CMessage \<Rightarrow> login_server \<Rightarrow> login_server" where
  "login_asked k a job s =
     (case map_of (ls_session s) k of
        None \<Rightarrow> s
      | Some p \<Rightarrow>
          let s1 = (case map_of (ls_account s) a of
                      None \<Rightarrow> s
                    | Some q \<Rightarrow> (lcall (LDisconnect (lp_sessionID (ls_players s ! q))) s)\<lparr>ls_account := AList.delete a (ls_account s)\<rparr>);
              s2 = s1\<lparr>ls_account := (a, p) # ls_account s1\<rparr>
          in if lp_State (ls_players s2 ! p) \<noteq> en_None then lcall (LDisconnect k) s2
             else let s3 = upd_lp p (\<lambda>x. x\<lparr>lp_State := en_LoginWait, lp_AccountNo := a\<rparr>) s2
               in s3\<lparr>ls_jobs := ls_jobs s3 @ [job], ls_DBMessageCnt := ls_DBMessageCnt s3 + 1\<rparr>)"

lemma login_OnRecv_request:
  assumes ok: "msg_ok msg" and d: "msg_data msg = word_bytes 2 en_PACKET_CS_LOGIN_REQ_LOGIN @ word_bytes 8 a @ key @ extra"
    and key: "length key = 64"
  obtains job where "job_of job = Some (a, k, key)" "msg_ok job" "\<And>s. login_OnRecv k msg s = Some (login_asked k a job s)"
proof -
  obtain m1 where m1: "msg_shr msg 2 = Inr (word_bytes 2 en_PACKET_CS_LOGIN_REQ_LOGIN, m1)" "msg_ok m1" "msg_data m1 = word_bytes 8 a @ key @ extra"
    using msg_shr_append [OF ok d] by auto
  obtain m2 where m2: "msg_shr m1 8 = Inr (word_bytes 8 a, m2)" "msg_ok m2" "msg_data m2 = key @ extra"
    using msg_shr_append [OF m1(2,3)] by auto
  obtain m3 where m3: "msg_shr m2 64 = Inr (key, m3)" "msg_ok m3" using msg_shr_append [OF m2(2,3) key] by auto
  obtain job where job: "login_job m3 a k key = Inr job" "job_of job = Some (a, k, key)" "msg_ok job"
    using login_job_done [OF m3(2) key, of a k] by metis
  have "login_REQ_LOGIN k m3 a key s = (None, login_asked k a job s)" for s
    by (simp add: login_REQ_LOGIN_def login_asked_def job(1) Let_def split: option.split)
  then have "login_OnRecv k msg s = Some (login_asked k a job s)" for s
    by (simp add: login_OnRecv_def login_PacketProc_def m1(1) m2(1) m3(1) GetData_eq)
  then show ?thesis using job(2,3) that by blast
qed

lemma login_RES_LOGIN_builds:
  assumes ok: "msg_ok m" and junk: "length (li_junk inp) = 4" and l: "length (li_ID inp) = 40" "length (li_Nickname inp) = 40"
    "length gip = 32" "length cip = 32"
  shows "builds m (li_RK inp) (word_bytes 2 en_PACKET_CS_LOGIN_RES_LOGIN @ word_bytes 8 a @ word_bytes 1 st @ li_ID inp @ li_Nickname inp @
           gip @ word_bytes 2 gport @ cip @ word_bytes 2 cport) (login_RES_LOGIN True inp m a st gip gport cip cport)"
  unfolding login_RES_LOGIN_def
  by (rule builds_begin [OF ok junk], (erule builds_shl [OF _ junk], simp)+, (erule builds_put [OF _ junk], simp add: l)+,
      erule builds_shl [OF _ junk], simp add: l, erule builds_put [OF _ junk], simp add: l, erule builds_shl [OF _ junk], simp add: l,
      rule builds_end [OF _ junk], simp add: l)

lemma job_of_reads:
  assumes "job_of m = Some (a, k, key)" "msg_ok m"
  obtains x y m1 m2 m3 where "msg_shr m 8 = Inr (x, m1)" "msg_shr m1 8 = Inr (y, m2)" "GetData m2 64 = Inr (key, m3)"
    "bytes_word x = a" "bytes_word y = k" "msg_ok m3" "length key = 64" "msg_K m3 = msg_K m"
proof -
  obtain x m1 y m2 m3 where r: "msg_shr m 8 = Inr (x, m1)" "msg_shr m1 8 = Inr (y, m2)" "GetData m2 64 = Inr (key, m3)"
      "bytes_word x = a" "bytes_word y = k"
    using assms(1) by (auto simp: job_of_def split: sum.splits)
  note r1 = msg_shr_ok [OF assms(2) r(1)]
  note r2 = msg_shr_ok [OF r1(1) r(2)]
  note r3 = msg_shr_ok [OF r2(1) r(3) [unfolded GetData_eq]]
  have "msg_K m3 = msg_K m" by (simp add: r1(6) r2(6) r3(6))
  then show ?thesis by (rule that [OF r r3(1,4)])
qed

text \<open>The bytes of the answer, as they go on the wire with the encoding switched on.\<close>

definition login_payload :: "login_input \<Rightarrow> u64 \<Rightarrow> u8 list \<Rightarrow> login_config \<Rightarrow> u8 list" where
  "login_payload inp a chat c = word_bytes 2 en_PACKET_CS_LOGIN_RES_LOGIN @ word_bytes 8 a @ word_bytes 1 dfLOGIN_STATUS_OK @
     li_ID inp @ li_Nickname inp @ GameServerIP c @ word_bytes 2 (GameServerPort c) @ chat @ word_bytes 2 (ChatServerPort c)"

definition login_input_ok :: "login_input \<Rightarrow> login_config \<Rightarrow> bool" where
  "login_input_ok inp c \<longleftrightarrow> length (li_junk inp) = 4 \<and> length (li_ID inp) = 40 \<and> length (li_Nickname inp) = 40 \<and>
     (\<forall>x \<in> {GameServerIP c, ChatServerIP c, Dummy1_ChatServerIP c, Dummy2_ChatServerIP c}. length x = 32)"

lemma chat_server_length: "login_input_ok inp (ls_config s) \<Longrightarrow> length (chat_server_for k s) = 32"
  by (auto simp: chat_server_for_def login_input_ok_def split: option.split)

lemma chat_server_for_cong:
  assumes "ls_session s' = ls_session s" "ls_config s' = ls_config s"
    "\<And>q. lp_ipAddress (ls_players s' ! q) = lp_ipAddress (ls_players s ! q)"
  shows "chat_server_for k s' = chat_server_for k s"
  by (simp add: chat_server_for_def assms split: option.split)

lemma DB_VerifySession_answer:
  assumes job: "job_of m = Some (a, k, key)" "msg_ok m" and inp: "login_input_ok inp (ls_config s)" "ls_encode s"
  shows "if li_db inp a \<in> {None, Some []} then DB_VerifySession inp m s = Some (lcall (LDisconnect k) s)
         else \<exists>m'. DB_VerifySession inp m s = Some (lcall (LSend k m') (s\<lparr>ls_redis := ls_redis s @ [(a, takeWhile (\<lambda>c. c \<noteq> 0) key)]\<rparr>)) \<and>
           msg_frame m' = wire_frame (msg_K m) (li_RK inp) (login_payload inp a (chat_server_for k s) (ls_config s))"
proof -
  obtain x y m1 m2 m3 where r: "msg_shr m 8 = Inr (x, m1)" "msg_shr m1 8 = Inr (y, m2)" "GetData m2 64 = Inr (key, m3)"
    "bytes_word x = a" "bytes_word y = k" "msg_ok m3" "msg_K m3 = msg_K m"
    using job_of_reads [OF job] by metis
  have b: "builds m3 (li_RK inp) (login_payload inp a (chat_server_for k s) (ls_config s))
      (login_RES_LOGIN True inp m3 a dfLOGIN_STATUS_OK (GameServerIP (ls_config s)) (GameServerPort (ls_config s))
         (chat_server_for k s) (ChatServerPort (ls_config s)))"
    unfolding login_payload_def using r(6) inp(1) chat_server_length [OF inp(1)]
    by (intro login_RES_LOGIN_builds) (simp_all add: login_input_ok_def)
  have chat: "chat_server_for k (s\<lparr>ls_redis := rs\<rparr>) = chat_server_for k s" for rs by (rule chat_server_for_cong) simp_all
  from b obtain m4 where "login_RES_LOGIN True inp m3 a dfLOGIN_STATUS_OK (GameServerIP (ls_config s)) (GameServerPort (ls_config s))
         (chat_server_for k s) (ChatServerPort (ls_config s)) = Inr m4"
      "msg_frame m4 = wire_frame (msg_K m) (li_RK inp) (login_payload inp a (chat_server_for k s) (ls_config s))"
    by (auto simp: builds_def r(7))
  then show ?thesis
    using inp(2) by (auto simp: DB_VerifySession_def r(1-5) WaitDB_def dfLOGIN_STATUS_OK_def dfLOGIN_STATUS_SESSION_MISS_def chat neq_Nil_conv
      intro!: exI [of _ m4])
qed

text \<open>
  C29: A session of the login server that asks for an account nobody is logged in with, while no job waits, is
  answered by the next turn of a database thread. When the database has a row for the account, the answer carries the
  account, the status for success, the bytes of the two names, and the addresses of the game server and of the
  chatting server for the client's own address, and redis gets the key the client sent, whatever key the row holds:
  the client's key is compared with nothing. Without a row, or when the query fails, the session is cut off.
\<close>

theorem login_request_answered:
  assumes session: "map_of (ls_session s) k = Some p" "lp_State (ls_players s ! p) = en_None"
    and account: "map_of (ls_account s) a = None" and jobs: "ls_jobs s = []" and enc: "ls_encode s"
    and msg: "msg_ok msg" "msg_data msg = word_bytes 2 en_PACKET_CS_LOGIN_REQ_LOGIN @ word_bytes 8 a @ key @ extra" "length key = 64"
    and inp: "login_input_ok inp (ls_config s)"
  shows "\<exists>s'. login_run [LogRecv k msg, LogDB inp 0] s = Some s' \<and> ls_jobs s' = [] \<and> map_of (ls_account s') a = Some p \<and>
    (if li_db inp a \<in> {None, Some []} then ls_calls s' = ls_calls s @ [LDisconnect k] \<and> ls_redis s' = ls_redis s
     else ls_redis s' = ls_redis s @ [(a, takeWhile (\<lambda>c. c \<noteq> 0) key)] \<and>
       (\<exists>m K. ls_calls s' = ls_calls s @ [LSend k m] \<and>
         msg_frame m = wire_frame K (li_RK inp) (login_payload inp a (chat_server_for k s) (ls_config s))))"
proof -
  obtain job where job: "job_of job = Some (a, k, key)" "msg_ok job" "\<And>s. login_OnRecv k msg s = Some (login_asked k a job s)"
    using login_OnRecv_request [OF msg] by metis
  let ?s1 = "upd_lp p (\<lambda>x. x\<lparr>lp_State := en_LoginWait, lp_AccountNo := a\<rparr>) (s\<lparr>ls_account := (a, p) # ls_account s\<rparr>)"
  let ?s2 = "?s1\<lparr>ls_jobs := [job], ls_DBMessageCnt := ls_DBMessageCnt ?s1 + 1\<rparr>"
  let ?s3 = "?s2\<lparr>ls_jobs := [], ls_DBMessageCnt := ls_DBMessageCnt ?s2 - 1\<rparr>"
  have asked: "login_asked k a job s = ?s2"
    by (simp add: login_asked_def session account jobs Let_def)
  have step: "DBworkerThread_step inp 0 ?s2 =
      (case DB_VerifySession inp job ?s3 of None \<Rightarrow> None | Some t \<Rightarrow> Some (t\<lparr>ls_UpdateTPS := ls_UpdateTPS t + 1\<rparr>))"
    by (simp add: DBworkerThread_step_def Let_def)
  have run: "login_run [LogRecv k msg, LogDB inp 0] s =
      (case DB_VerifySession inp job ?s3 of None \<Rightarrow> None | Some t \<Rightarrow> Some (t\<lparr>ls_UpdateTPS := ls_UpdateTPS t + 1\<rparr>))"
    by (simp only: login_run.simps login_do.simps job(3) asked option.case step) (simp split: option.split)
  have addr: "lp_ipAddress (ls_players ?s3 ! q) = lp_ipAddress (ls_players s ! q)" for q
    by (cases "p = q"; cases "p < length (ls_players s)") (simp_all add: not_less list_update_beyond)
  then have chat: "chat_server_for k ?s3 = chat_server_for k s"
    by (intro chat_server_for_cong addr) (simp_all add: upd_lp_def)
  have cfg: "login_input_ok inp (ls_config ?s3)" "ls_encode ?s3" using inp enc by (simp_all add: upd_lp_def)
  show ?thesis
  proof (cases "li_db inp a \<in> {None, Some []}")
    case True
    then show ?thesis using DB_VerifySession_answer [OF job(1,2) cfg] unfolding run by (simp add: lcall_def upd_lp_def)
  next
    case False
    then obtain m where "DB_VerifySession inp job ?s3 = Some (lcall (LSend k m) (?s3\<lparr>ls_redis := ls_redis ?s3 @ [(a, takeWhile (\<lambda>c. c \<noteq> 0) key)]\<rparr>))"
      "msg_frame m = wire_frame (msg_K job) (li_RK inp) (login_payload inp a (chat_server_for k s) (ls_config ?s3))"
      using DB_VerifySession_answer [OF job(1,2) cfg] unfolding chat by auto
    moreover have "ls_config ?s3 = ls_config s" by (simp add: upd_lp_def)
    ultimately show ?thesis using False unfolding run by (auto simp: lcall_def upd_lp_def)
  qed
qed

section \<open>Sample messages\<close>

definition login_sample :: "u64 \<Rightarrow> CMessage" where
  "login_sample a = (new_CMessage 4096 0)\<lparr>msg_mem := (word_bytes 2 en_PACKET_CS_LOGIN_REQ_LOGIN @ word_bytes 8 a @ replicate 64 7) @ replicate 1926 0,
     msg_rear := 74\<rparr>"

lemma login_sample_ok:
  "msg_ok (login_sample a)"
  "msg_data (login_sample a) = word_bytes 2 en_PACKET_CS_LOGIN_REQ_LOGIN @ word_bytes 8 a @ replicate 64 7 @ []"
  by (simp_all add: login_sample_def new_CMessage_def msg_ok_def msg_data_def MaxSize_def bufferSize_def)

definition sample_login_config :: login_config where
  "sample_login_config = \<lparr>GameServerIP = replicate 32 1, GameServerPort = 6001, ChatServerIP = replicate 32 2,
     Dummy1_ChatServerIP = replicate 32 3, Dummy2_ChatServerIP = replicate 32 4, ChatServerPort = 6000\<rparr>"

definition sample_login_input :: login_input where
  "sample_login_input = \<lparr>li_now = 0, li_db = (\<lambda>a. if a = 10 then Some [replicate 64 9] else None), li_junk = [0, 0, 0, 0],
     li_ID = replicate 40 0, li_Nickname = replicate 40 0, li_RK = 5\<rparr>"

definition login_server_with :: "u64 \<Rightarrow> login_server" where
  "login_server_with k = snd (login_OnAccept sample_login_input k ''10.0.1.2'' 4000 (new_login_server True sample_login_config 0))"

lemma login_server_with_fields:
  "map_of (ls_session (login_server_with k)) k = Some 0" "lp_State (ls_players (login_server_with k) ! 0) = en_None"
  "map_of (ls_account (login_server_with k)) a = None" "ls_jobs (login_server_with k) = []" "ls_encode (login_server_with k)"
  "login_input_ok sample_login_input (ls_config (login_server_with k))" "chat_server_for k (login_server_with k) = replicate 32 3"
  "ls_calls (login_server_with k) = []" "ls_redis (login_server_with k) = []"
  by (simp_all add: login_server_with_def login_OnAccept_def new_login_server_def login_Alloc_def upd_lp_def new_login_player_def Let_def
      sample_login_config_def sample_login_input_def login_input_ok_def chat_server_for_def)

theorem login_request_answered_witness:
  "\<exists>s' m K. login_run [LogRecv 3 (login_sample 10), LogDB sample_login_input 0] (login_server_with 3) = Some s' \<and>
     ls_redis s' = [(10, replicate 64 7)] \<and> ls_calls s' = [LSend 3 m] \<and>
     msg_frame m = wire_frame K 5 (login_payload sample_login_input 10 (replicate 32 3) (ls_config (login_server_with 3)))"
proof -
  have "takeWhile (\<lambda>c. c \<noteq> 0) (replicate 64 (7 :: u8)) = replicate 64 7" by simp
  then show ?thesis
    using login_request_answered [where k = 3 and a = 10 and inp = sample_login_input, OF login_server_with_fields(1-5) login_sample_ok]
      login_server_with_fields(6-) by (auto simp: sample_login_input_def)
qed

text \<open>Three requests of one session, and the run of a connection that is accepted, asks once and is answered.\<close>

theorem login_answered_once_witness:
  "\<exists>s. login_run [LogAccept sample_login_input 3 ''10.0.1.2'' 4000, LogRecv 3 (login_sample 10), LogRecv 3 (login_sample 10)]
      (new_login_server True sample_login_config 0) = Some s \<and> map_of (ls_session s) 3 = Some 0 \<and>
     length (filter (answer_to 3) (ls_calls s)) + length (filter (\<lambda>m. job_session m = Some 3) (ls_jobs s)) \<le> 1 \<and>
     lp_sessionID (ls_players s ! 0) = 3"
proof -
  obtain job where job: "\<And>s. login_OnRecv 3 (login_sample 10) s = Some (login_asked 3 10 job s)"
    using login_OnRecv_request [OF login_sample_ok] by (metis length_replicate)
  let ?es = "[LogAccept sample_login_input 3 ''10.0.1.2'' 4000, LogRecv 3 (login_sample 10), LogRecv 3 (login_sample 10)]"
  let ?s = "login_asked 3 10 job (login_asked 3 10 job (login_server_with 3))"
  have run: "login_run ?es (new_login_server True sample_login_config 0) = Some ?s"
    by (simp add: job login_server_with_def)
  have ok: "messages_ok ?es" "distinct (accepted ?es)" "set (accepted ?es) = {3}"
    by (auto simp: messages_ok_def login_sample_ok(1) accepted_def)
  have "map_of (ls_session (login_asked k a job s)) j = map_of (ls_session s) j" for k a s j
    by (simp add: login_asked_def Let_def split: option.split)
  then have "map_of (ls_session ?s) 3 = Some 0" by (simp add: login_server_with_fields(1))
  then show ?thesis using login_answered_once [OF run ok(1,2), where k = 3 and p = 0] run by (auto simp: ok(3))
qed

section \<open>An entry that outlives its session\<close>

text \<open>
  A second request of a session, for another account, is refused, but leaves an entry of that account for the
  session's player. When the session is gone and the next connection has got the player, a third client that logs in
  with the account has that connection, which never asked for it, cut off.
\<close>

theorem stale_account_cuts_stranger:
  "\<exists>s. login_run [LogAccept inp 1 ip port, LogRecv 1 (login_sample 10), LogRecv 1 (login_sample 20), LogRelease 1,
                  LogAccept inp 2 ip2 port2, LogAccept inp 3 ip3 port3, LogRecv 3 (login_sample 20)]
     (new_login_server encode config count) = Some s \<and> ls_calls s = [LDisconnect 1, LDisconnect 2] \<and>
     (\<forall>m. LogRecv 2 m \<notin> set [LogAccept inp 1 ip port, LogRecv 1 (login_sample 10), LogRecv 1 (login_sample 20), LogRelease 1,
                  LogAccept inp 2 ip2 port2, LogAccept inp 3 ip3 port3, LogRecv 3 (login_sample 20)])"
proof -
  have "\<exists>job. \<forall>s. login_OnRecv k (login_sample a) s = Some (login_asked k a job s)" for k a
    using login_OnRecv_request [OF login_sample_ok, of a k] by (metis length_replicate)
  then obtain job where job: "\<And>k a s. login_OnRecv k (login_sample a) s = Some (login_asked k a (job k a) s)" by metis
  show ?thesis
    by (simp add: job login_asked_def login_OnAccept_def login_OnRelease_def login_Alloc_def new_login_server_def new_login_player_def
        upd_lp_def lcall_def Let_def)
qed

end
