(* ===== verification/LanClient.thy ===== *)
theory LanClient
  imports Network Packet
begin

text \<open>
  \<^verbatim>\<open>CLanClient\<close> (\<^verbatim>\<open>CLanClient/CLanClient.cpp\<close>), the client side of the network library, with its one session, and
  \<^verbatim>\<open>CTestClient\<close> (\<^verbatim>\<open>CTestClient.cpp\<close>), by which the chatting server reports to the monitor server. As in \<open>Network\<close> a
  member function is one step, Windows is an argument, what is asked of it is recorded, and \<open>None\<close> is a crash:
  \<^verbatim>\<open>__debugbreak\<close>, an exception nothing catches, an access outside an array, the use of the end of a table, and also
  the retries of a connection that never comes about. The session is that of \<open>Network\<close>: the two classes have the
  same members. Messages are nodes of \<open>cl_heap\<close>, players nodes of \<open>cl_players\<close>.
\<close>

section \<open>State\<close>

datatype cl_completion = ClRecv | ClSend | ClReleasePost | ClPost nat

datatype cl_call =
    ClConnect nat
  | ClWSARecv "(nat \<times> nat) list"
  | ClWSASend "u8 list list"
  | ClCancelRecv
  | ClCancelSend
  | ClClose nat
  | ClDisconnect u64

text \<open>What the timer thread has still to report in this tick: a value of the server with its stamp, or the number of a value of the machine.\<close>

datatype tick_item = TickData u8 u32 u32 | TickTotal nat

text \<open>
  \<open>cl_port\<close> is whether \<^verbatim>\<open>_hIOCP\<close> exists, \<open>cl_conn\<close> where \<^verbatim>\<open>Connect\<close> stands, with its \<^verbatim>\<open>local_SeqID\<close>. \<open>cl_tick\<close> is where the timer thread stands: the identifier it has read and
  the reports of this tick it has still to post.
\<close>

datatype connecting = NotConnecting | Published u64 | Received u64

record lan_client =
  cl_session :: clsSession
  cl_seqID :: u64
  cl_conn :: connecting
  cl_port :: bool
  cl_encode :: bool
  cl_heap :: "CMessage list"
  cl_free :: "nat list"
  cl_iocp :: "cl_completion list"
  cl_log :: "cl_call list"
  cl_hash :: "(u64 \<times> nat) list"
  cl_players :: "u64 list"
  cl_player_free :: "nat list"
  cl_tick :: "u64 \<times> tick_item list"

text \<open>
  What Windows decides in one step: the new socket, the failed attempts before a connection, the results of the
  \<open>n\<close>-th request, and the uninitialised bytes and random keys of the headers.
\<close>

record cl_input =
  ci_sock :: "nat option"
  ci_tries :: "nat option"
  ci_wsa :: "nat \<Rightarrow> wsa_result"
  ci_hdr :: "u8 list"
  ci_junk :: "nat \<Rightarrow> u8 list"
  ci_RK :: "nat \<Rightarrow> u8"

definition wsa_now :: "cl_input \<Rightarrow> lan_client \<Rightarrow> wsa_result" where
  "wsa_now inp s = ci_wsa inp (length (cl_log s))"

definition cl_headerSize :: "lan_client \<Rightarrow> nat" where
  "cl_headerSize s = headerSize_of (cl_encode s)"

definition new_lan_client :: "bool \<Rightarrow> u8 list \<Rightarrow> lan_client" where
  "new_lan_client encode junk =
     \<lparr>cl_session = new_clsSession junk, cl_seqID = 0, cl_conn = NotConnecting, cl_port = False, cl_encode = encode, cl_heap = [], cl_free = [],
      cl_iocp = [], cl_log = [], cl_hash = [], cl_players = [], cl_player_free = [], cl_tick = (0, [])\<rparr>"

definition upd_cs :: "(clsSession \<Rightarrow> clsSession) \<Rightarrow> lan_client \<Rightarrow> lan_client" where
  "upd_cs f s = s\<lparr>cl_session := f (cl_session s)\<rparr>"

definition cl_io :: "u64 \<Rightarrow> lan_client \<Rightarrow> lan_client" where
  "cl_io d = upd_cs (m_ioCount_update (\<lambda>c. c + d))"

definition cl_os :: "cl_call \<Rightarrow> lan_client \<Rightarrow> lan_client" where
  "cl_os c s = s\<lparr>cl_log := cl_log s @ [c]\<rparr>"

text \<open>\<^verbatim>\<open>PostQueuedCompletionStatus\<close> does nothing before the completion port exists.\<close>

definition cl_post :: "cl_completion \<Rightarrow> lan_client \<Rightarrow> lan_client" where
  "cl_post c s = (if cl_port s then s\<lparr>cl_iocp := cl_iocp s @ [c]\<rparr> else s)"

section \<open>Messages\<close>

text \<open>\<^verbatim>\<open>CClientMessage\<close> is \<^verbatim>\<open>CMessage\<close> with another fixed key.\<close>

definition new_CClientMessage :: "nat \<Rightarrow> CMessage" where
  "new_CClientMessage addr = (new_CMessage addr 0)\<lparr>msg_K := 30\<rparr>"

definition cl_Alloc :: "lan_client \<Rightarrow> nat \<times> lan_client" where
  "cl_Alloc s =
     (case cl_free s of
        n # fr \<Rightarrow> (n, s\<lparr>cl_heap := (cl_heap s)[n := InitMessage (cl_heap s ! n)], cl_free := fr\<rparr>)
      | [] \<Rightarrow> (length (cl_heap s), s\<lparr>cl_heap := cl_heap s @ [InitMessage (new_CClientMessage (node_addr (length (cl_heap s))))]\<rparr>))"

definition cl_Release :: "nat \<Rightarrow> lan_client \<Rightarrow> lan_client option" where
  "cl_Release n s =
     (if length (cl_heap s) \<le> n then None
      else let use = msg_use (cl_heap s ! n) - 1;
               s' = s\<lparr>cl_heap := (cl_heap s)[n := (cl_heap s ! n)\<lparr>msg_use := use\<rparr>]\<rparr>
           in if use < 0 then None
              else if use \<noteq> 0 then Some s'
              else Some (s'\<lparr>cl_free := n # cl_free s'\<rparr>))"

primrec cl_Release_all :: "nat list \<Rightarrow> lan_client \<Rightarrow> lan_client option" where
  "cl_Release_all [] s = Some s"
| "cl_Release_all (n # ns) s = Option.bind (cl_Release n s) (cl_Release_all ns)"

definition cl_set_msg :: "nat \<Rightarrow> CMessage \<Rightarrow> lan_client \<Rightarrow> lan_client" where
  "cl_set_msg n m s = s\<lparr>cl_heap := (cl_heap s)[n := m]\<rparr>"

section \<open>The life of the session\<close>

definition cl_ReleaseSession :: "u64 \<Rightarrow> lan_client \<Rightarrow> lan_client option" where
  "cl_ReleaseSession SessionID s =
     (if m_SeqID (cl_session s) \<noteq> SessionID then None else Some (cl_post ClReleasePost s))"

definition cl_release_if_zero :: "u64 \<Rightarrow> lan_client \<Rightarrow> lan_client option" where
  "cl_release_if_zero SessionID s =
     (if m_ioCount (cl_session s) = 0
      then cl_ReleaseSession SessionID (upd_cs (m_ioCount_update (\<lambda>_. r_flag)) s)
      else Some s)"

definition cl_SessionLock :: "u64 \<Rightarrow> lan_client \<Rightarrow> (bool \<times> lan_client) option" where
  "cl_SessionLock SessionID s =
     (let s1 = cl_io 1 s;
          Local_ioCount = m_ioCount (cl_session s1);
          seqID = m_SeqID (cl_session s1)
      in if Local_ioCount AND r_flag \<noteq> 0 then Some (False, s1)
         else if seqID \<noteq> SessionID \<or> Local_ioCount = 1
         then do { s2 \<leftarrow> cl_release_if_zero SessionID (cl_io (-1) s1); Some (False, s2) }
         else Some (True, s1))"

definition cl_SessionUnLock :: "u64 \<Rightarrow> lan_client \<Rightarrow> lan_client option" where
  "cl_SessionUnLock SessionID s = cl_release_if_zero SessionID (cl_io (-1) s)"

text \<open>\<^verbatim>\<open>clsClientSession::Release\<close>: \<^verbatim>\<open>m_flag\<close> keeps its value.\<close>

definition cl_Session_Release :: "lan_client \<Rightarrow> lan_client option" where
  "cl_Session_Release s =
     do { s1 \<leftarrow> cl_Release_all (m_sendBuffer (cl_session s)) (upd_cs (m_sendBuffer_update (\<lambda>_. [])) s);
          s2 \<leftarrow> cl_Release_all (m_msgs (cl_session s1)) (upd_cs (m_msgs_update (\<lambda>_. [])) s1);
          Some (upd_cs (m_recvBuffer_update ClearBuffer) s2) }"

section \<open>Submitting I/O\<close>

definition cl_WSARecvError :: "nat \<Rightarrow> lan_client \<Rightarrow> lan_client" where
  "cl_WSARecvError LastError s =
     (if LastError = WSA_IO_PENDING
      then (if m_blive (cl_session s) = 0 then cl_os ClCancelRecv s else s)
      else cl_io (-1) (upd_cs (m_blive_update (\<lambda>_. 0)) s))"

definition cl_WSASendError :: "nat \<Rightarrow> lan_client \<Rightarrow> lan_client" where
  "cl_WSASendError LastError s =
     (if LastError = WSA_IO_PENDING
      then (if m_blive (cl_session s) = 0 then cl_os ClCancelSend s else s)
      else cl_io (-1) (upd_cs (m_blive_update (\<lambda>_. 0)) s))"

definition cl_RecvPacket :: "cl_input \<Rightarrow> lan_client \<Rightarrow> lan_client" where
  "cl_RecvPacket inp s =
     (let rb = m_recvBuffer (cl_session s);
          freeSize = GetFreeSize_at rb (rb_front rb) (rb_rear rb)
      in if freeSize = 0
         then cl_os ClCancelSend (upd_cs (m_blive_update (\<lambda>_. 0)) s)
         else if m_blive (cl_session s) \<noteq> 0
         then let r = wsa_now inp s;
                  s1 = cl_os (ClWSARecv (recv_wsabufs rb)) (cl_io 1 s);
                  s2 = (if submitted r then cl_post ClRecv s1 else s1)
              in (case r of WsaOk \<Rightarrow> s2 | WsaFail e \<Rightarrow> cl_WSARecvError e s2)
         else s)"

definition cl_SendComplete :: "cl_input \<Rightarrow> lan_client \<Rightarrow> lan_client option" where
  "cl_SendComplete inp s =
     do { s1 \<leftarrow> cl_Release_all (m_msgs (cl_session s)) (upd_cs (m_msgs_update (\<lambda>_. [])) s);
          if m_sendBuffer (cl_session s1) = []
          then Some (if m_flag (cl_session s1) = 1
                     then let s2 = upd_cs (m_flag_update (\<lambda>_. 0)) s1 in
                          if m_sendBuffer (cl_session s2) \<noteq> [] \<and> m_flag (cl_session s2) = 0
                          then cl_post ClSend (cl_io 1 (upd_cs (m_flag_update (\<lambda>_. 1)) s2))
                          else s2
                     else s1)
          else let batch = take 500 (m_sendBuffer (cl_session s1));
                   s2 = upd_cs (\<lambda>c. c\<lparr>m_sendBuffer := drop 500 (m_sendBuffer c), m_msgs := batch\<rparr>) s1
               in if m_blive (cl_session s2) \<noteq> 0
                  then let r = wsa_now inp s2;
                           s3 = cl_os (ClWSASend (map (\<lambda>n. msg_data (cl_heap s2 ! n)) batch)) (cl_io 1 s2);
                           s4 = (if submitted r then cl_post ClSend s3 else s3)
                       in Some (case r of WsaOk \<Rightarrow> s4 | WsaFail e \<Rightarrow> cl_WSASendError e s4)
                  else Some s2 }"

section \<open>Sending and posting\<close>

text \<open>\<^verbatim>\<open>Unicast\<close> keeps the message of a session it cannot lock. \<^verbatim>\<open>SendPacket\<close> is \<^verbatim>\<open>Unicast\<close>.\<close>

definition cl_Unicast :: "u64 \<Rightarrow> nat \<Rightarrow> lan_client \<Rightarrow> lan_client option" where
  "cl_Unicast SessionID msg s =
     do { (ok, s1) \<leftarrow> cl_SessionLock SessionID s;
          if \<not> ok then Some s1
          else let s2 = upd_cs (m_sendBuffer_update (\<lambda>q. q @ [msg])) s1;
                   s3 = (if m_flag (cl_session s2) = 0
                         then cl_post ClSend (cl_io 1 (upd_cs (m_flag_update (\<lambda>_. 1)) s2))
                         else s2)
               in cl_SessionUnLock SessionID s3 }"

definition cl_SendPacket :: "u64 \<Rightarrow> nat \<Rightarrow> lan_client \<Rightarrow> lan_client option" where
  "cl_SendPacket SessionID msg s = cl_Unicast SessionID msg s"

definition cl_PostReQuest_iocp :: "u64 \<Rightarrow> nat \<Rightarrow> lan_client \<Rightarrow> lan_client option" where
  "cl_PostReQuest_iocp SessionID msg s =
     do { (ok, s1) \<leftarrow> cl_SessionLock SessionID s;
          if \<not> ok then cl_Release msg s1
          else cl_SessionUnLock SessionID
                 (cl_post (ClPost msg) (cl_io 1 (cl_set_msg msg ((cl_heap s1 ! msg)\<lparr>msg_owner := SessionID\<rparr>) s1))) }"

section \<open>Reports\<close>

text \<open>A message for the worker thread: allocated, owned by \<open>SessionID\<close>, filled and posted.\<close>

definition cl_en_PACKET_SS_MONITOR_LOGIN :: u16 where "cl_en_PACKET_SS_MONITOR_LOGIN = 20001"
definition cl_en_PACKET_SS_MONITOR_DATA_UPDATE :: u16 where "cl_en_PACKET_SS_MONITOR_DATA_UPDATE = 20002"

primrec msg_shl_all :: "u8 list list \<Rightarrow> CMessage \<Rightarrow> msg_error + CMessage" where
  "msg_shl_all [] m = Inr m"
| "msg_shl_all (bs # bss) m = err_bind (msg_shl m bs) (msg_shl_all bss)"

definition cl_post_message :: "u64 \<Rightarrow> u8 list list \<Rightarrow> lan_client \<Rightarrow> lan_client option" where
  "cl_post_message SessionID parts s =
     (let (n, s1) = cl_Alloc s
      in case msg_shl_all parts ((cl_heap s1 ! n)\<lparr>msg_owner := SessionID\<rparr>) of
           Inl e \<Rightarrow> None
         | Inr m \<Rightarrow> cl_PostReQuest_iocp SessionID n (cl_set_msg n m s1))"

definition report_fields :: "u8 \<times> u32 \<times> u32 \<Rightarrow> u8 list list" where
  "report_fields r = (case r of (DataType, DataValue, TimeStamp) \<Rightarrow>
     [word_bytes 2 cl_en_PACKET_SS_MONITOR_DATA_UPDATE, word_bytes 1 DataType, word_bytes 4 DataValue, word_bytes 4 TimeStamp])"

text \<open>
  \<^verbatim>\<open>CTestClient::TimerThread\<close>: the nine values of the server are copied when the tick begins, those of the machine, \<open>totals\<close>
  by their index, are read one by one.
\<close>

definition tick_items :: "u32 list \<Rightarrow> tick_item list" where
  "tick_items data = map (\<lambda>i. TickData (of_nat (30 + i - 1)) (data ! i) (data ! 0)) [1..<9] @ map TickTotal [40..<45]"

definition tick_report :: "(nat \<Rightarrow> u32) \<Rightarrow> tick_item \<Rightarrow> u8 \<times> u32 \<times> u32" where
  "tick_report totals i = (case i of TickData t v stamp \<Rightarrow> (t, v, stamp) | TickTotal i \<Rightarrow> (of_nat i, totals i, totals 0))"

definition TimerThread_step :: "u32 list \<Rightarrow> (nat \<Rightarrow> u32) \<Rightarrow> lan_client \<Rightarrow> lan_client option" where
  "TimerThread_step data totals s =
     (case cl_tick s of
        (SessionID, []) \<Rightarrow> Some (s\<lparr>cl_tick := (m_SeqID (cl_session s), tick_items data)\<rparr>)
      | (SessionID, r # rs) \<Rightarrow> cl_post_message SessionID (report_fields (tick_report totals r)) (s\<lparr>cl_tick := (SessionID, rs)\<rparr>))"

section \<open>Connecting\<close>

text \<open>\<^verbatim>\<open>CTestClient::OnEnterJoinServer\<close>; \<^verbatim>\<open>insert\<close> keeps an entry that is there.\<close>

definition cl_player_Alloc :: "u64 \<Rightarrow> lan_client \<Rightarrow> nat \<times> lan_client" where
  "cl_player_Alloc SessionID s =
     (case cl_player_free s of
        [] \<Rightarrow> (length (cl_players s), s\<lparr>cl_players := cl_players s @ [SessionID]\<rparr>)
      | p # ps \<Rightarrow> (p, s\<lparr>cl_players := (cl_players s)[p := SessionID], cl_player_free := ps\<rparr>))"

definition OnEnterJoinServer :: "u64 \<Rightarrow> lan_client \<Rightarrow> lan_client option" where
  "OnEnterJoinServer SessionID s =
     (let (p, s1) = cl_player_Alloc SessionID s;
          s2 = (if map_of (cl_hash s1) SessionID = None then s1\<lparr>cl_hash := (SessionID, p) # cl_hash s1\<rparr> else s1)
      in cl_post_message SessionID [word_bytes 2 cl_en_PACKET_SS_MONITOR_LOGIN, word_bytes 4 (11 :: u32)] s2)"

text \<open>
  \<^verbatim>\<open>Connect\<close> runs in the main thread while the timer thread is there since the client was constructed, and the worker
  threads since \<^verbatim>\<open>Connect\<close> has made them. It is therefore cut where another thread can tell: the completion port and
  the worker threads; the connection, up to the new identifier and its count of 0, which the timer thread may use from
  then on; the receive, which counts; the entry of the session into the table and the login.
\<close>

definition Connect_port :: "lan_client \<Rightarrow> lan_client" where
  "Connect_port s = s\<lparr>cl_port := True\<rparr>"

definition Connect_open :: "cl_input \<Rightarrow> lan_client \<Rightarrow> lan_client option" where
  "Connect_open inp s =
     do { sock \<leftarrow> ci_sock inp;
          tries \<leftarrow> ci_tries inp;
          if tries \<noteq> 0 then None
          else let s1 = upd_cs (\<lambda>c. c\<lparr>m_sock := sock, m_blive := 1\<rparr>) (cl_os (ClConnect sock) s);
                   local_SeqID = cl_seqID s1 + 1
               in Some (upd_cs (\<lambda>c. c\<lparr>m_SeqID := local_SeqID, m_ioCount := 0\<rparr>)
                         (s1\<lparr>cl_seqID := local_SeqID, cl_conn := Published local_SeqID\<rparr>)) }"

definition Connect_receive :: "cl_input \<Rightarrow> lan_client \<Rightarrow> lan_client" where
  "Connect_receive inp s =
     (case cl_conn s of Published k \<Rightarrow> cl_RecvPacket inp (s\<lparr>cl_conn := Received k\<rparr>) | _ \<Rightarrow> s)"

definition Connect_enter :: "lan_client \<Rightarrow> lan_client option" where
  "Connect_enter s =
     (case cl_conn s of Received k \<Rightarrow> OnEnterJoinServer k (s\<lparr>cl_conn := NotConnecting\<rparr>) | _ \<Rightarrow> Some s)"

text \<open>The whole of it, when no other thread comes between.\<close>

definition Connect :: "cl_input \<Rightarrow> lan_client \<Rightarrow> lan_client option" where
  "Connect inp s = do { s1 \<leftarrow> Connect_open inp s; Connect_enter (Connect_receive inp s1) }"

text \<open>
  \<^verbatim>\<open>ReConnect\<close> starts with a count of 1, and the old count has the release flag until then: the other threads cannot
  use the session before it counts.
\<close>

definition ReConnect :: "cl_input \<Rightarrow> lan_client \<Rightarrow> lan_client option" where
  "ReConnect inp s =
     do { sock \<leftarrow> ci_sock inp;
          tries \<leftarrow> ci_tries inp;
          let s1 = upd_cs (\<lambda>c. c\<lparr>m_sock := sock, m_blive := 1\<rparr>) (cl_os (ClConnect sock) s);
          let local_SeqID = cl_seqID s1 + 1;
          let s2 = upd_cs (\<lambda>c. c\<lparr>m_SeqID := local_SeqID, m_ioCount := 1\<rparr>) (s1\<lparr>cl_seqID := local_SeqID\<rparr>);
          s3 \<leftarrow> OnEnterJoinServer local_SeqID (cl_RecvPacket inp s2);
          Some (cl_io (-1) s3) }"

text \<open>\<^verbatim>\<open>CTestClient::OnLeaveServer\<close> goes through the end of the table when the session is not in it.\<close>

definition OnLeaveServer :: "cl_input \<Rightarrow> lan_client \<Rightarrow> lan_client option" where
  "OnLeaveServer inp s =
     (let SessionID = m_SeqID (cl_session s)
      in case map_of (cl_hash s) SessionID of
           None \<Rightarrow> None
         | Some p \<Rightarrow> ReConnect inp (s\<lparr>cl_hash := AList.delete SessionID (cl_hash s), cl_player_free := p # cl_player_free s\<rparr>))"

definition cl_Disconnect :: "cl_input \<Rightarrow> u64 \<Rightarrow> lan_client \<Rightarrow> lan_client option" where
  "cl_Disconnect inp SessionID s =
     (if m_SeqID (cl_session s) = SessionID
      then OnLeaveServer inp (cl_os (ClClose (m_sock (cl_session s))) (cl_os (ClDisconnect SessionID) s))
      else Some s)"

definition cl_ReleaseComplete :: "cl_input \<Rightarrow> lan_client \<Rightarrow> lan_client option" where
  "cl_ReleaseComplete inp s =
     do { s1 \<leftarrow> cl_Session_Release s;
          OnLeaveServer inp (cl_os (ClClose (m_sock (cl_session s1))) s1) }"

section \<open>Packets\<close>

definition cl_begin :: "u8 list \<Rightarrow> CMessage \<Rightarrow> msg_error + CMessage" where
  "cl_begin junk m = PutData (InitMessage m) (109 # junk)"

definition cl_RES_MONITOR_LOGIN :: "bool \<Rightarrow> u8 list \<Rightarrow> u8 \<Rightarrow> CMessage \<Rightarrow> u32 \<Rightarrow> msg_error + CMessage" where
  "cl_RES_MONITOR_LOGIN encode junk RK msg ServerNo =
     err_bind (cl_begin junk msg) (\<lambda>m.
     err_bind (msg_shl_all [word_bytes 2 cl_en_PACKET_SS_MONITOR_LOGIN, word_bytes 4 ServerNo] m) (\<lambda>m.
     end_packet encode RK m))"

definition cl_RES_MONITOR_UPDATE :: "bool \<Rightarrow> u8 list \<Rightarrow> u8 \<Rightarrow> CMessage \<Rightarrow> u8 \<Rightarrow> u32 \<Rightarrow> u32 \<Rightarrow> msg_error + CMessage" where
  "cl_RES_MONITOR_UPDATE encode junk RK msg DataType DataValue TimeStamp =
     err_bind (cl_begin junk msg) (\<lambda>m.
     err_bind (msg_shl_all (report_fields (DataType, DataValue, TimeStamp)) m) (\<lambda>m.
     end_packet encode RK m))"

text \<open>An exception in a handler refuses the packet; \<open>MemFault\<close> is no exception.\<close>

definition cl_answer :: "u64 \<Rightarrow> nat \<Rightarrow> msg_error + CMessage \<Rightarrow> lan_client \<Rightarrow> (bool \<times> lan_client) option" where
  "cl_answer SessionID n r s =
     (case r of
        Inl e \<Rightarrow> (if e = MemFault then None else Some (False, s))
      | Inr m \<Rightarrow> map_option (Pair True) (cl_SendPacket SessionID n (cl_set_msg n m s)))"

primrec cl_read_fields :: "nat list \<Rightarrow> CMessage \<Rightarrow> msg_error + (u8 list list \<times> CMessage)" where
  "cl_read_fields [] m = Inr ([], m)"
| "cl_read_fields (k # ks) m =
     err_bind (msg_shr m k) (\<lambda>(bs, m1). err_bind (cl_read_fields ks m1) (\<lambda>(bss, m2). Inr (bs # bss, m2)))"

definition cl_PacketProc :: "cl_input \<Rightarrow> u64 \<Rightarrow> nat \<Rightarrow> u16 \<Rightarrow> lan_client \<Rightarrow> (bool \<times> lan_client) option" where
  "cl_PacketProc inp SessionID n byType s =
     (if byType = cl_en_PACKET_SS_MONITOR_LOGIN then
        cl_answer SessionID n
          (err_bind (cl_read_fields [4] (cl_heap s ! n)) (\<lambda>(fs, m).
             cl_RES_MONITOR_LOGIN (cl_encode s) (ci_junk inp n) (ci_RK inp n) m (bytes_word (fs ! 0)))) s
      else if byType = cl_en_PACKET_SS_MONITOR_DATA_UPDATE then
        cl_answer SessionID n
          (err_bind (cl_read_fields [1, 4, 4] (cl_heap s ! n)) (\<lambda>(fs, m).
             cl_RES_MONITOR_UPDATE (cl_encode s) (ci_junk inp n) (ci_RK inp n) m (bytes_word (fs ! 0)) (bytes_word (fs ! 1))
               (bytes_word (fs ! 2)))) s
      else Some (False, s))"

text \<open>\<^verbatim>\<open>CTestClient::OnRecv\<close> reads the type outside any \<^verbatim>\<open>try\<close>.\<close>

definition cl_OnRecv :: "cl_input \<Rightarrow> u64 \<Rightarrow> nat \<Rightarrow> lan_client \<Rightarrow> lan_client option" where
  "cl_OnRecv inp SessionID n s =
     (case msg_shr (cl_heap s ! n) 2 of
        Inl e \<Rightarrow> None
      | Inr (w, m) \<Rightarrow>
          let s1 = cl_set_msg n m s
          in if SessionID \<noteq> msg_owner m then cl_Release n s1
             else do { (ok, s2) \<leftarrow> cl_PacketProc inp SessionID n (bytes_word w) s1;
                       if ok then Some s2
                       else do { s3 \<leftarrow> cl_Release n s2; cl_Disconnect inp SessionID s3 } })"

section \<open>Receiving\<close>

definition cl_CreateMessage :: "u8 list \<Rightarrow> lan_client \<Rightarrow> (nat option \<times> lan_client) option" where
  "cl_CreateMessage hdr s =
     (let (n, s1) = cl_Alloc s;
          want = header_sDataLen hdr + cl_headerSize s1
      in do { (deQsize, bs, rb) \<leftarrow> Dequeue (m_recvBuffer (cl_session s1)) want;
              let m = cl_heap s1 ! n;
              mem \<leftarrow> mem_write (msg_mem m) (msg_front m) bs;
              let s2 = cl_set_msg n (m\<lparr>msg_mem := mem, msg_rear := nat (int (msg_front m) + deQsize)\<rparr>)
                         (upd_cs (m_recvBuffer_update (\<lambda>_. rb)) s1);
              Some (if int want \<noteq> deQsize then None else Some n, s2) })"

text \<open>
  The loop of \<^verbatim>\<open>RecvComplete\<close>; unlike the server's it bounds neither the length field nor the number of messages.
  Each turn takes at least a header from the receive buffer, so \<open>fuel\<close> above the bytes in it is enough.
\<close>

fun cl_RecvComplete_loop :: "nat \<Rightarrow> cl_input \<Rightarrow> u64 \<Rightarrow> u8 list \<Rightarrow> lan_client \<Rightarrow> (bool \<times> lan_client) option" where
  "cl_RecvComplete_loop 0 inp SessionID hdr s = None"
| "cl_RecvComplete_loop (Suc fuel) inp SessionID hdr s =
     do { (got, bs) \<leftarrow> Peek (m_recvBuffer (cl_session s)) (cl_headerSize s);
          if got \<noteq> int (cl_headerSize s) then Some (True, s)
          else
            let hdr = load_header (cl_headerSize s) hdr bs in
            if GetUseSize (m_recvBuffer (cl_session s)) < int (header_sDataLen hdr + cl_headerSize s)
            then Some (True, s)
            else do { (created, s1) \<leftarrow> cl_CreateMessage hdr s;
                      case created of
                        None \<Rightarrow> Some (True, s1)
                      | Some n \<Rightarrow>
                          do { (chk, m) \<leftarrow> (if cl_encode s1
                                           then (case DeCoding (cl_heap s1 ! n) of Inl e \<Rightarrow> None | Inr p \<Rightarrow> Some p)
                                           else Some (True, cl_heap s1 ! n));
                               let s2 = cl_set_msg n m s1;
                               if \<not> chk
                               then do { s3 \<leftarrow> cl_Release n (cl_os ClCancelSend (upd_cs (m_blive_update (\<lambda>_. 0)) s2));
                                         Some (False, s3) }
                               else do { s3 \<leftarrow> cl_OnRecv inp SessionID n
                                               (cl_set_msg n (m\<lparr>msg_owner := SessionID, msg_front := msg_front m + cl_headerSize s2\<rparr>) s2);
                                         cl_RecvComplete_loop fuel inp SessionID hdr s3 } } } }"

declare cl_RecvComplete_loop.simps [simp del]

definition cl_RecvComplete :: "cl_input \<Rightarrow> nat \<Rightarrow> lan_client \<Rightarrow> lan_client option" where
  "cl_RecvComplete inp transferred s =
     (let s1 = upd_cs (m_recvBuffer_update (\<lambda>rb. MoveRear rb transferred)) s;
          SessionID = m_SeqID (cl_session s1);
          fuel = Suc (nat (GetUseSize (m_recvBuffer (cl_session s1))))
      in do { (go_on, s2) \<leftarrow> cl_RecvComplete_loop fuel inp SessionID (ci_hdr inp) s1;
              Some (if go_on then cl_RecvPacket inp s2 else s2) })"

definition cl_PostComplete :: "cl_input \<Rightarrow> nat \<Rightarrow> lan_client \<Rightarrow> lan_client option" where
  "cl_PostComplete inp n s = cl_OnRecv inp (msg_owner (cl_heap s ! n)) n s"

section \<open>The worker thread\<close>

definition cl_kernel_stores :: "u8 list \<Rightarrow> lan_client \<Rightarrow> lan_client option" where
  "cl_kernel_stores data s =
     map_option (\<lambda>mem. upd_cs (m_recvBuffer_update (rb_mem_update (\<lambda>_. mem))) s)
       (scatter (rb_mem (m_recvBuffer (cl_session s))) (recv_wsabufs (m_recvBuffer (cl_session s))) data)"

definition cl_io_done :: "lan_client \<Rightarrow> lan_client option" where
  "cl_io_done s = (let s1 = cl_io (-1) s in cl_release_if_zero (m_SeqID (cl_session s1)) s1)"

definition cl_WorkerThread_step :: "cl_input \<Rightarrow> cl_completion \<Rightarrow> u8 list \<Rightarrow> lan_client \<Rightarrow> lan_client option" where
  "cl_WorkerThread_step inp c data s =
     (let s0 = s\<lparr>cl_iocp := remove1 c (cl_iocp s)\<rparr> in
      case c of
        ClRecv \<Rightarrow>
          do { s1 \<leftarrow> cl_kernel_stores data s0;
               let s2 = (if data = [] then upd_cs (m_blive_update (\<lambda>_. 0)) s1 else s1);
               s3 \<leftarrow> cl_RecvComplete inp (length data) s2;
               cl_io_done s3 }
      | ClSend \<Rightarrow> do { s1 \<leftarrow> cl_SendComplete inp s0; cl_io_done s1 }
      | ClReleasePost \<Rightarrow> cl_ReleaseComplete inp s0
      | ClPost n \<Rightarrow> do { s1 \<leftarrow> cl_PostComplete inp n s0; cl_io_done s1 })"

end
