(* ===== verification/LanClientInv.thy ===== *)
theory LanClientInv
  imports LanClient
begin

text \<open>
  Runs of the client, and what every member function keeps: the record of calls only grows, and a client whose send
  flag is set while no send is pending never asks for one again.
\<close>

section \<open>Runs\<close>

datatype cl_event = CliPort | CliOpen cl_input | CliReceive cl_input | CliEnter | CliTimer "u32 list" "nat \<Rightarrow> u32" | CliWork cl_input cl_completion "u8 list"

text \<open>A worker thread takes a completion that is there.\<close>

fun cl_do :: "cl_event \<Rightarrow> lan_client \<Rightarrow> lan_client option" where
  "cl_do CliPort s = Some (Connect_port s)"
| "cl_do (CliOpen inp) s = (if cl_conn s = NotConnecting then Connect_open inp s else Some s)"
| "cl_do (CliReceive inp) s = Some (Connect_receive inp s)"
| "cl_do CliEnter s = Connect_enter s"
| "cl_do (CliTimer data totals) s = TimerThread_step data totals s"
| "cl_do (CliWork inp c data) s = (if c \<in> set (cl_iocp s) then cl_WorkerThread_step inp c data s else Some s)"

fun cl_run :: "cl_event list \<Rightarrow> lan_client \<Rightarrow> lan_client option" where
  "cl_run [] s = Some s"
| "cl_run (e # es) s = Option.bind (cl_do e s) (cl_run es)"

section \<open>Calls and the send flag\<close>

definition sends :: "lan_client \<Rightarrow> cl_call list" where
  "sends s = filter (\<lambda>c. case c of ClWSASend bs \<Rightarrow> True | _ \<Rightarrow> False) (cl_log s)"

definition muted :: "lan_client \<Rightarrow> bool" where
  "muted s \<longleftrightarrow> m_flag (cl_session s) = 1 \<and> ClSend \<notin> set (cl_iocp s)"

definition quiet :: "lan_client \<Rightarrow> lan_client \<Rightarrow> bool" where
  "quiet s s' \<longleftrightarrow> set (cl_log s) \<subseteq> set (cl_log s') \<and> (muted s \<longrightarrow> muted s' \<and> sends s' = sends s)"

lemma quiet_refl [simp]: "quiet s s"
  by (simp add: quiet_def)

lemma quiet_trans: "quiet s s1 \<Longrightarrow> quiet s1 s2 \<Longrightarrow> quiet s s2"
  by (auto simp: quiet_def)

lemmas client_defs = upd_cs_def cl_io_def cl_os_def cl_post_def cl_set_msg_def

lemma quiet_upd:
  assumes "\<And>c. m_flag c = 1 \<Longrightarrow> m_flag (f c) = 1"
  shows "quiet s (upd_cs f s)"
  using assms by (simp add: quiet_def muted_def sends_def upd_cs_def)

lemma quiet_simple [simp]:
  "quiet s (cl_io d s)" "quiet s (cl_set_msg n m s)" "quiet s (s\<lparr>cl_tick := t\<rparr>)"
  "quiet s (s\<lparr>cl_heap := h\<rparr>)" "quiet s (s\<lparr>cl_free := fr\<rparr>)" "quiet s (s\<lparr>cl_hash := hs\<rparr>)"
  "quiet s (s\<lparr>cl_players := ps\<rparr>)" "quiet s (s\<lparr>cl_player_free := pf\<rparr>)" "quiet s (s\<lparr>cl_seqID := i\<rparr>)" "quiet s (Connect_port s)" "quiet s (s\<lparr>cl_conn := co\<rparr>)"
  by (simp_all add: quiet_def muted_def sends_def client_defs Connect_port_def)

lemma quiet_os: "(\<And>bs. c \<noteq> ClWSASend bs) \<Longrightarrow> quiet s (cl_os c s)"
  by (auto simp: quiet_def muted_def sends_def cl_os_def split: cl_call.splits)

lemma quiet_post: "c \<noteq> ClSend \<Longrightarrow> quiet s (cl_post c s)"
  by (auto simp: quiet_def muted_def sends_def cl_post_def)

lemma quiet_done: "quiet s (s\<lparr>cl_iocp := remove1 c (cl_iocp s)\<rparr>)"
  using notin_set_remove1 [of ClSend] by (auto simp: quiet_def muted_def sends_def)

lemma cl_Alloc_quiet: "cl_Alloc s = (n, s') \<Longrightarrow> quiet s s'"
  by (auto simp: cl_Alloc_def quiet_def muted_def sends_def split: list.splits)

lemma cl_Release_quiet: "cl_Release n s = Some s' \<Longrightarrow> quiet s s'"
  by (auto simp: cl_Release_def Let_def quiet_def muted_def sends_def split: if_splits)

lemma cl_Release_all_quiet: "cl_Release_all ns s = Some s' \<Longrightarrow> quiet s s'"
proof (induction ns arbitrary: s)
  case (Cons n ns)
  then obtain s1 where "cl_Release n s = Some s1" "cl_Release_all ns s1 = Some s'" by (auto simp: bind_eq_Some_conv)
  then show ?case using cl_Release_quiet Cons.IH quiet_trans by metis
qed simp

lemma cl_release_if_zero_quiet: "cl_release_if_zero i s = Some s' \<Longrightarrow> quiet s s'"
  by (auto simp: cl_release_if_zero_def cl_ReleaseSession_def split: if_splits
      intro!: quiet_trans [OF quiet_upd quiet_post])

lemma cl_SessionLock_quiet: "cl_SessionLock i s = Some (b, s') \<Longrightarrow> quiet s s'"
  by (auto simp: cl_SessionLock_def Let_def bind_eq_Some_conv split: if_splits dest!: cl_release_if_zero_quiet
      intro: quiet_trans [OF quiet_trans [OF quiet_simple(1) quiet_simple(1)]])

lemma cl_SessionUnLock_quiet: "cl_SessionUnLock i s = Some s' \<Longrightarrow> quiet s s'"
  unfolding cl_SessionUnLock_def by (metis cl_release_if_zero_quiet quiet_simple(1) quiet_trans)

lemma cl_Session_Release_quiet:
  assumes "cl_Session_Release s = Some s'"
  shows "quiet s s'"
proof -
  obtain s1 s2 where "cl_Release_all (m_sendBuffer (cl_session s)) (upd_cs (m_sendBuffer_update (\<lambda>_. [])) s) = Some s1"
    "cl_Release_all (m_msgs (cl_session s1)) (upd_cs (m_msgs_update (\<lambda>_. [])) s1) = Some s2"
    and s': "s' = upd_cs (m_recvBuffer_update ClearBuffer) s2"
    using assms by (auto simp: cl_Session_Release_def bind_eq_Some_conv)
  moreover have "quiet s (upd_cs (m_sendBuffer_update (\<lambda>_. [])) s)" "quiet s1 (upd_cs (m_msgs_update (\<lambda>_. [])) s1)" "quiet s2 s'"
    unfolding s' by (simp_all add: quiet_upd)
  ultimately show ?thesis using cl_Release_all_quiet quiet_trans by metis
qed

lemma cl_RecvPacket_quiet: "quiet s (cl_RecvPacket inp s)"
  unfolding cl_RecvPacket_def Let_def cl_WSARecvError_def
  by (auto simp: quiet_def muted_def sends_def client_defs split: wsa_result.split)

lemma cl_Unicast_quiet:
  assumes "cl_Unicast i n s = Some s'"
  shows "quiet s s'"
proof -
  obtain b s1 where l: "cl_SessionLock i s = Some (b, s1)" using assms by (auto simp: cl_Unicast_def bind_eq_Some_conv)
  show ?thesis
  proof (cases b)
    case False
    then show ?thesis using assms l cl_SessionLock_quiet by (auto simp: cl_Unicast_def)
  next
    case True
    define s2 where "s2 = upd_cs (m_sendBuffer_update (\<lambda>q. q @ [n])) s1"
    define s3 where "s3 = (if m_flag (cl_session s2) = 0 then cl_post ClSend (cl_io 1 (upd_cs (m_flag_update (\<lambda>_. 1)) s2)) else s2)"
    have u: "cl_SessionUnLock i s3 = Some s'" using assms unfolding cl_Unicast_def l Option.bind.simps prod.case Let_def s2_def [symmetric] s3_def [symmetric]
      using True by (simp only: not_True_eq_False if_False)
    have "quiet s1 s3" by (auto simp: s3_def s2_def quiet_def muted_def sends_def client_defs)
    then show ?thesis using cl_SessionLock_quiet [OF l] cl_SessionUnLock_quiet [OF u] quiet_trans by metis
  qed
qed

lemma cl_PostReQuest_quiet:
  assumes "cl_PostReQuest_iocp i n s = Some s'"
  shows "quiet s s'"
proof -
  obtain b s1 where l: "cl_SessionLock i s = Some (b, s1)" using assms by (auto simp: cl_PostReQuest_iocp_def bind_eq_Some_conv)
  note q = cl_SessionLock_quiet [OF l]
  show ?thesis
  proof (cases b)
    case False
    then show ?thesis using assms l cl_Release_quiet quiet_trans [OF q] by (auto simp: cl_PostReQuest_iocp_def)
  next
    case True
    let ?s3 = "cl_post (ClPost n) (cl_io 1 (cl_set_msg n ((cl_heap s1 ! n)\<lparr>msg_owner := i\<rparr>) s1))"
    have "cl_SessionUnLock i ?s3 = Some s'" using assms l True by (simp add: cl_PostReQuest_iocp_def)
    moreover have "quiet s1 ?s3" by (intro quiet_trans [OF quiet_trans [OF quiet_simple(2) quiet_simple(1)] quiet_post]) simp
    ultimately show ?thesis using quiet_trans [OF q] cl_SessionUnLock_quiet quiet_trans by metis
  qed
qed

lemma cl_post_message_quiet:
  assumes "cl_post_message i parts s = Some s'"
  shows "quiet s s'"
proof -
  obtain n s1 where a: "cl_Alloc s = (n, s1)" by (cases "cl_Alloc s")
  then obtain m where "cl_PostReQuest_iocp i n (cl_set_msg n m s1) = Some s'"
    using assms by (auto simp: cl_post_message_def split: sum.splits)
  then show ?thesis using cl_Alloc_quiet [OF a] cl_PostReQuest_quiet quiet_trans [OF quiet_simple(2)] quiet_trans by metis
qed

lemma OnEnterJoinServer_quiet:
  assumes "OnEnterJoinServer i s = Some s'"
  shows "quiet s s'"
proof -
  obtain p s1 where p: "cl_player_Alloc i s = (p, s1)" by (cases "cl_player_Alloc i s")
  have "quiet s s1" using p by (auto simp: cl_player_Alloc_def quiet_def muted_def sends_def split: list.splits)
  moreover define s2 where "s2 = (if map_of (cl_hash s1) i = None then s1\<lparr>cl_hash := (i, p) # cl_hash s1\<rparr> else s1)"
  then have "quiet s1 s2" by simp
  moreover have "cl_post_message i [word_bytes 2 cl_en_PACKET_SS_MONITOR_LOGIN, word_bytes 4 (11 :: u32)] s2 = Some s'"
    using assms unfolding OnEnterJoinServer_def p prod.case Let_def s2_def .
  from cl_post_message_quiet [OF this] have "quiet s2 s'" .
  ultimately show ?thesis using quiet_trans by blast
qed

lemma quiet_connected:
  "quiet s (upd_cs (\<lambda>c. c\<lparr>m_SeqID := i, m_ioCount := d\<rparr>) ((upd_cs (\<lambda>c. c\<lparr>m_sock := k, m_blive := 1\<rparr>) (cl_os (ClConnect k) s))\<lparr>cl_seqID := j\<rparr>))"
  by (auto simp: quiet_def muted_def sends_def client_defs)

text \<open>The state of a new connection, whose count starts with \<open>d\<close>.\<close>

definition session_open :: "nat \<Rightarrow> u64 \<Rightarrow> lan_client \<Rightarrow> lan_client" where
  "session_open sock d s = upd_cs (\<lambda>c. c\<lparr>m_SeqID := cl_seqID s + 1, m_ioCount := d\<rparr>)
     ((upd_cs (\<lambda>c. c\<lparr>m_sock := sock, m_blive := 1\<rparr>) (cl_os (ClConnect sock) s))\<lparr>cl_seqID := cl_seqID s + 1\<rparr>)"

lemma seqID_connecting [simp]: "cl_seqID (upd_cs f (cl_os c s)) = cl_seqID s"
  by (simp add: client_defs)

lemma cl_RecvPacket_conn: "cl_RecvPacket inp (s\<lparr>cl_conn := co\<rparr>) = (cl_RecvPacket inp s)\<lparr>cl_conn := co\<rparr>"
  by (auto simp: cl_RecvPacket_def Let_def wsa_now_def cl_WSARecvError_def client_defs split: wsa_result.split)

lemma cl_RecvPacket_conn_kept [simp]: "cl_conn (cl_RecvPacket inp s) = cl_conn s"
  by (auto simp: cl_RecvPacket_def Let_def cl_WSARecvError_def client_defs split: wsa_result.split)

lemma Connect_open_opened:
  "Connect_open inp s = Some s' \<Longrightarrow> \<exists>sock. ci_sock inp = Some sock \<and> ci_tries inp = Some 0 \<and>
     s' = (session_open sock 0 s)\<lparr>cl_conn := Published (cl_seqID s + 1)\<rparr>"
  unfolding Connect_open_def session_open_def by (auto simp: Let_def bind_eq_Some_conv client_defs split: if_splits)

lemma Connect_steps:
  "cl_conn s = NotConnecting \<Longrightarrow> cl_run (CliOpen inp # CliReceive inp # CliEnter # es) s = Option.bind (Connect inp s) (cl_run es)"
  unfolding Connect_def by (cases "Connect_open inp s") simp_all

lemma Connect_connected:
  assumes "Connect inp s = Some s'" "cl_conn s = NotConnecting"
  shows "\<exists>sock. ci_sock inp = Some sock \<and> ci_tries inp = Some 0 \<and>
     OnEnterJoinServer (cl_seqID s + 1) (cl_RecvPacket inp (session_open sock 0 s)) = Some s'"
proof -
  obtain sock where o: "ci_sock inp = Some sock" "ci_tries inp = Some 0"
    and e: "Connect_enter (Connect_receive inp ((session_open sock 0 s)\<lparr>cl_conn := Published (cl_seqID s + 1)\<rparr>)) = Some s'"
    using assms(1) Connect_open_opened unfolding Connect_def by (fastforce simp: bind_eq_Some_conv)
  have "cl_conn (session_open sock 0 s) = NotConnecting" using assms(2) by (simp add: session_open_def client_defs)
  then have "(cl_RecvPacket inp (session_open sock 0 s))\<lparr>cl_conn := NotConnecting\<rparr> = cl_RecvPacket inp (session_open sock 0 s)"
    using cl_RecvPacket_conn_kept [of inp "session_open sock 0 s"] by simp
  then show ?thesis using o e by (simp add: Connect_receive_def Connect_enter_def cl_RecvPacket_conn)
qed

lemma ReConnect_connected:
  "ReConnect inp s = Some s' \<Longrightarrow> \<exists>sock s1. ci_sock inp = Some sock \<and>
     OnEnterJoinServer (cl_seqID s + 1) (cl_RecvPacket inp (session_open sock 1 s)) = Some s1 \<and> s' = cl_io (-1) s1"
  unfolding ReConnect_def session_open_def by (auto simp: Let_def bind_eq_Some_conv)

lemma OnEnterJoinServer_RecvPacket_quiet:
  assumes "OnEnterJoinServer i (cl_RecvPacket inp (session_open sock d s)) = Some s'"
  shows "quiet s s'"
proof -
  have "quiet s (session_open sock d s)" unfolding session_open_def by (rule quiet_connected)
  then show ?thesis using OnEnterJoinServer_quiet [OF assms] cl_RecvPacket_quiet quiet_trans by metis
qed

lemma Connect_open_quiet: "Connect_open inp s = Some s' \<Longrightarrow> quiet s s'"
  by (auto simp: session_open_def dest!: Connect_open_opened intro!: quiet_trans [OF quiet_connected quiet_simple(11)])

lemma Connect_receive_quiet: "quiet s (Connect_receive inp s)"
  using quiet_trans [OF quiet_simple(11) cl_RecvPacket_quiet] by (auto simp: Connect_receive_def split: connecting.split)

lemma Connect_enter_quiet: "Connect_enter s = Some s' \<Longrightarrow> quiet s s'"
  using quiet_trans [OF quiet_simple(11) OnEnterJoinServer_quiet] by (auto simp: Connect_enter_def split: connecting.splits)

lemma ReConnect_quiet: "ReConnect inp s = Some s' \<Longrightarrow> quiet s s'"
  by (auto dest!: ReConnect_connected OnEnterJoinServer_RecvPacket_quiet intro: quiet_trans [OF _ quiet_simple(1)])

lemma OnLeaveServer_quiet: "OnLeaveServer inp s = Some s' \<Longrightarrow> quiet s s'"
  by (auto simp: OnLeaveServer_def Let_def split: option.splits dest!: ReConnect_quiet
      intro: quiet_trans [OF quiet_trans [OF quiet_simple(6) quiet_simple(8)]])

lemma cl_Disconnect_quiet: "cl_Disconnect inp i s = Some s' \<Longrightarrow> quiet s s'"
  by (auto simp: cl_Disconnect_def split: if_splits dest!: OnLeaveServer_quiet
      intro: quiet_trans [OF quiet_trans [OF quiet_os quiet_os]])

lemma cl_ReleaseComplete_quiet: "cl_ReleaseComplete inp s = Some s' \<Longrightarrow> quiet s s'"
  by (auto simp: cl_ReleaseComplete_def bind_eq_Some_conv dest!: OnLeaveServer_quiet cl_Session_Release_quiet
      intro: quiet_trans [OF quiet_trans [OF _ quiet_os]])

lemma cl_answer_quiet: "cl_answer i n r s = Some (b, s') \<Longrightarrow> quiet s s'"
  by (auto simp: cl_answer_def cl_SendPacket_def split: sum.splits if_splits dest!: cl_Unicast_quiet
      intro: quiet_trans [OF quiet_simple(2)])

lemma cl_PacketProc_quiet: "cl_PacketProc inp i n t s = Some (b, s') \<Longrightarrow> quiet s s'"
  by (auto simp: cl_PacketProc_def split: if_splits dest!: cl_answer_quiet)

lemma cl_OnRecv_quiet:
  assumes "cl_OnRecv inp i n s = Some s'"
  shows "quiet s s'"
proof -
  obtain w m where w: "msg_shr (cl_heap s ! n) 2 = Inr (w, m)" using assms by (auto simp: cl_OnRecv_def split: sum.splits)
  have q: "quiet s (cl_set_msg n m s)" by simp
  show ?thesis
  proof (cases "i = msg_owner m")
    case False
    then show ?thesis using assms w cl_Release_quiet quiet_trans [OF q] by (auto simp: cl_OnRecv_def)
  next
    case True
    then obtain ok s2 where "cl_PacketProc inp i n (bytes_word w) (cl_set_msg n m s) = Some (ok, s2)"
      "if ok then s' = s2 else \<exists>s3. cl_Release n s2 = Some s3 \<and> cl_Disconnect inp i s3 = Some s'"
      using assms w by (auto simp: cl_OnRecv_def Let_def bind_eq_Some_conv split: if_splits)
    then show ?thesis
      using q cl_PacketProc_quiet cl_Release_quiet cl_Disconnect_quiet quiet_trans by (metis (no_types))
  qed
qed

lemma cl_CreateMessage_quiet: "cl_CreateMessage hdr s = Some (r, s') \<Longrightarrow> quiet s s'"
  unfolding cl_CreateMessage_def
  by (cases "cl_Alloc s")
    (auto simp: Let_def bind_eq_Some_conv dest!: cl_Alloc_quiet
      intro!: quiet_trans [OF quiet_trans [OF _ quiet_upd] quiet_simple(2)])

text \<open>One turn of the receive loop, taken apart.\<close>

lemma cl_RecvComplete_loop_cases:
  assumes "cl_RecvComplete_loop (Suc fuel) inp i hdr s = Some (b, s')"
  obtains (stop) "b" "s' = s"
  | (partial) hdr1 where "b" "cl_CreateMessage hdr1 s = Some (None, s')"
  | (bad) hdr1 n s1 m where "\<not> b" "cl_CreateMessage hdr1 s = Some (Some n, s1)"
      "cl_Release n (cl_os ClCancelSend (upd_cs (m_blive_update (\<lambda>_. 0)) (cl_set_msg n m s1))) = Some s'"
  | (turn) hdr1 n s1 m m' s3 where "cl_CreateMessage hdr1 s = Some (Some n, s1)"
      "cl_OnRecv inp i n (cl_set_msg n m' (cl_set_msg n m s1)) = Some s3" "cl_RecvComplete_loop fuel inp i hdr1 s3 = Some (b, s')"
proof -
  obtain got bs where p: "Peek (m_recvBuffer (cl_session s)) (cl_headerSize s) = Some (got, bs)"
    using assms by (auto simp: cl_RecvComplete_loop.simps(2) bind_eq_Some_conv)
  define hdr1 where "hdr1 = load_header (cl_headerSize s) hdr bs"
  note e = assms [unfolded cl_RecvComplete_loop.simps(2) p Option.bind.simps prod.case Let_def, folded hdr1_def]
  show thesis
  proof (cases "got \<noteq> int (cl_headerSize s) \<or> GetUseSize (m_recvBuffer (cl_session s)) < int (header_sDataLen hdr1 + cl_headerSize s)")
    case True
    then show ?thesis using e stop by (auto split: if_splits)
  next
    case False
    then obtain c s1 where c: "cl_CreateMessage hdr1 s = Some (c, s1)"
      and r: "(case c of None \<Rightarrow> Some (True, s1)
        | Some n \<Rightarrow> Option.bind (if cl_encode s1 then (case DeCoding (cl_heap s1 ! n) of Inl e \<Rightarrow> None | Inr p \<Rightarrow> Some p) else Some (True, cl_heap s1 ! n))
          (\<lambda>(chk, m). if \<not> chk
             then Option.bind (cl_Release n (cl_os ClCancelSend (upd_cs (m_blive_update (\<lambda>_. 0)) (cl_set_msg n m s1)))) (\<lambda>s3. Some (False, s3))
             else Option.bind (cl_OnRecv inp i n (cl_set_msg n (m\<lparr>msg_owner := i, msg_front := msg_front m + cl_headerSize (cl_set_msg n m s1)\<rparr>) (cl_set_msg n m s1)))
               (cl_RecvComplete_loop fuel inp i hdr1))) = Some (b, s')"
      using e by (auto simp: bind_eq_Some_conv)
    show ?thesis
    proof (cases c)
      case None
      then show ?thesis using c r partial by simp
    next
      case (Some n)
      then obtain chk m where "if chk
          then \<exists>s3. cl_OnRecv inp i n (cl_set_msg n (m\<lparr>msg_owner := i, msg_front := msg_front m + cl_headerSize (cl_set_msg n m s1)\<rparr>) (cl_set_msg n m s1)) = Some s3 \<and>
            cl_RecvComplete_loop fuel inp i hdr1 s3 = Some (b, s')
          else cl_Release n (cl_os ClCancelSend (upd_cs (m_blive_update (\<lambda>_. 0)) (cl_set_msg n m s1))) = Some s' \<and> \<not> b"
        using r by (fastforce simp: bind_eq_Some_conv split: if_splits)
      then show ?thesis using c Some bad turn by (cases chk) auto
    qed
  qed
qed

lemma cl_RecvComplete_loop_quiet: "cl_RecvComplete_loop fuel inp i hdr s = Some (b, s') \<Longrightarrow> quiet s s'"
proof (induction fuel arbitrary: hdr s)
  case 0
  then show ?case by (simp add: cl_RecvComplete_loop.simps)
next
  case (Suc fuel)
  from Suc.prems show ?case
  proof (cases rule: cl_RecvComplete_loop_cases)
    case stop
    then show ?thesis by simp
  next
    case (partial hdr1)
    then show ?thesis using cl_CreateMessage_quiet by blast
  next
    case (bad hdr1 n s1 m)
    have "quiet s1 (cl_os ClCancelSend (upd_cs (m_blive_update (\<lambda>_. 0)) (cl_set_msg n m s1)))"
      by (intro quiet_trans [OF quiet_trans [OF quiet_simple(2) quiet_upd] quiet_os]) simp_all
    then show ?thesis using cl_CreateMessage_quiet [OF bad(2)] cl_Release_quiet [OF bad(3)] quiet_trans by metis
  next
    case (turn hdr1 n s1 m m' s3)
    have "quiet s1 s3" using cl_OnRecv_quiet [OF turn(2)] quiet_simple(2) quiet_trans by metis
    then show ?thesis using cl_CreateMessage_quiet [OF turn(1)] Suc.IH [OF turn(3)] quiet_trans by metis
  qed
qed

lemma cl_RecvComplete_loop_step:
  assumes "cl_RecvComplete inp k s = Some s'"
  obtains fuel b s2 where
    "cl_RecvComplete_loop fuel inp (m_SeqID (cl_session s)) (ci_hdr inp) (upd_cs (m_recvBuffer_update (\<lambda>rb. MoveRear rb k)) s) = Some (b, s2)"
    "s' = (if b then cl_RecvPacket inp s2 else s2)"
proof -
  have "m_SeqID (cl_session (upd_cs (m_recvBuffer_update (\<lambda>rb. MoveRear rb k)) s)) = m_SeqID (cl_session s)" by (simp add: upd_cs_def)
  then show ?thesis using assms that unfolding cl_RecvComplete_def Let_def by (auto simp: bind_eq_Some_conv simp del: One_nat_def)
qed

lemma cl_RecvComplete_quiet:
  assumes "cl_RecvComplete inp k s = Some s'"
  shows "quiet s s'"
  using assms
proof (rule cl_RecvComplete_loop_step)
  fix fuel b s2
  assume l: "cl_RecvComplete_loop fuel inp (m_SeqID (cl_session s)) (ci_hdr inp) (upd_cs (m_recvBuffer_update (\<lambda>rb. MoveRear rb k)) s) = Some (b, s2)"
    and s': "s' = (if b then cl_RecvPacket inp s2 else s2)"
  have "quiet s (upd_cs (m_recvBuffer_update (\<lambda>rb. MoveRear rb k)) s)" by (simp add: quiet_upd)
  moreover have "quiet s2 s'" by (simp add: s' cl_RecvPacket_quiet)
  ultimately show "quiet s s'" using cl_RecvComplete_loop_quiet [OF l] quiet_trans by metis
qed

text \<open>\<^verbatim>\<open>SendComplete\<close>, taken apart: the old messages go back, then the flag is cleared or the next messages are sent.\<close>

lemma cl_SendComplete_cases:
  assumes "cl_SendComplete inp s = Some s'"
  obtains s1 where "cl_Release_all (m_msgs (cl_session s)) (upd_cs (m_msgs_update (\<lambda>_. [])) s) = Some s1"
    "m_sendBuffer (cl_session s1) = [] \<Longrightarrow> s' = (if m_flag (cl_session s1) = 1 then upd_cs (m_flag_update (\<lambda>_. 0)) s1 else s1)"
    "m_sendBuffer (cl_session s1) \<noteq> [] \<Longrightarrow> \<exists>f bs. (\<forall>c. m_flag (f c) = m_flag c \<and> m_ioCount (f c) = m_ioCount c \<and> m_SeqID (f c) = m_SeqID c) \<and>
       (s' = upd_cs f s1 \<or>
        s' = cl_post ClSend (cl_os (ClWSASend bs) (cl_io 1 (upd_cs f s1))) \<or>
        s' = cl_os ClCancelSend (cl_post ClSend (cl_os (ClWSASend bs) (cl_io 1 (upd_cs f s1)))) \<or>
        s' = cl_os (ClWSASend bs) (cl_io (-1) (cl_io 1 (upd_cs f s1))))"
proof -
  obtain s1 where s1: "cl_Release_all (m_msgs (cl_session s)) (upd_cs (m_msgs_update (\<lambda>_. [])) s) = Some s1"
    using assms by (auto simp: cl_SendComplete_def bind_eq_Some_conv)
  note e = assms [unfolded cl_SendComplete_def s1 Option.bind.simps]
  show thesis
  proof (rule that [OF s1])
    assume "m_sendBuffer (cl_session s1) = []"
    then show "s' = (if m_flag (cl_session s1) = 1 then upd_cs (m_flag_update (\<lambda>_. 0)) s1 else s1)"
      using e by (auto simp: Let_def upd_cs_def split: if_splits)
  next
    assume ne: "m_sendBuffer (cl_session s1) \<noteq> []"
    let ?batch = "take 500 (m_sendBuffer (cl_session s1))"
    let ?f = "\<lambda>c. c\<lparr>m_sendBuffer := drop 500 (m_sendBuffer c), m_msgs := ?batch\<rparr>"
    let ?g = "\<lambda>c. (?f c)\<lparr>m_blive := 0\<rparr>"
    let ?bs = "map (\<lambda>n. msg_data (cl_heap (upd_cs ?f s1) ! n)) ?batch"
    have "s' = upd_cs ?f s1 \<or> s' = cl_post ClSend (cl_os (ClWSASend ?bs) (cl_io 1 (upd_cs ?f s1))) \<or>
        s' = cl_os ClCancelSend (cl_post ClSend (cl_os (ClWSASend ?bs) (cl_io 1 (upd_cs ?f s1)))) \<or>
        s' = cl_os (ClWSASend ?bs) (cl_io (-1) (cl_io 1 (upd_cs ?g s1)))"
      using e ne by (auto simp: Let_def submitted_def cl_WSASendError_def client_defs split: if_splits wsa_result.splits)
    then show "\<exists>f bs. (\<forall>c. m_flag (f c) = m_flag c \<and> m_ioCount (f c) = m_ioCount c \<and> m_SeqID (f c) = m_SeqID c) \<and>
       (s' = upd_cs f s1 \<or>
        s' = cl_post ClSend (cl_os (ClWSASend bs) (cl_io 1 (upd_cs f s1))) \<or>
        s' = cl_os ClCancelSend (cl_post ClSend (cl_os (ClWSASend bs) (cl_io 1 (upd_cs f s1)))) \<or>
        s' = cl_os (ClWSASend bs) (cl_io (-1) (cl_io 1 (upd_cs f s1))))"
      by (elim disjE) ((rule exI [of _ ?f], rule exI [of _ ?bs], simp; fail) | (rule exI [of _ ?g], rule exI [of _ ?bs], simp))+
  qed
qed

lemma log_simps [simp]: "cl_log (upd_cs f s) = cl_log s" "cl_log (cl_io d s) = cl_log s" "cl_log (cl_post c s) = cl_log s"
  "cl_log (cl_os a s) = cl_log s @ [a]"
  by (simp_all add: client_defs)

lemma cl_SendComplete_log:
  assumes "cl_SendComplete inp s = Some s'"
  shows "set (cl_log s) \<subseteq> set (cl_log s')"
  using assms
proof (rule cl_SendComplete_cases)
  fix s1
  assume r: "cl_Release_all (m_msgs (cl_session s)) (upd_cs (m_msgs_update (\<lambda>_. [])) s) = Some s1"
    and e: "m_sendBuffer (cl_session s1) = [] \<Longrightarrow> s' = (if m_flag (cl_session s1) = 1 then upd_cs (m_flag_update (\<lambda>_. 0)) s1 else s1)"
    and ne: "m_sendBuffer (cl_session s1) \<noteq> [] \<Longrightarrow> \<exists>f bs. (\<forall>c. m_flag (f c) = m_flag c \<and> m_ioCount (f c) = m_ioCount c \<and> m_SeqID (f c) = m_SeqID c) \<and>
       (s' = upd_cs f s1 \<or>
        s' = cl_post ClSend (cl_os (ClWSASend bs) (cl_io 1 (upd_cs f s1))) \<or>
        s' = cl_os ClCancelSend (cl_post ClSend (cl_os (ClWSASend bs) (cl_io 1 (upd_cs f s1)))) \<or>
        s' = cl_os (ClWSASend bs) (cl_io (-1) (cl_io 1 (upd_cs f s1))))"
  have "set (cl_log s1) \<subseteq> set (cl_log s')"
    by (cases "m_sendBuffer (cl_session s1) = []") (auto dest!: e ne)
  moreover have "set (cl_log s) \<subseteq> set (cl_log s1)" using cl_Release_all_quiet [OF r] by (simp add: quiet_def)
  ultimately show ?thesis by (rule subset_trans [rotated])
qed

lemma cl_io_done_quiet: "cl_io_done s = Some s' \<Longrightarrow> quiet s s'"
  unfolding cl_io_done_def Let_def by (metis cl_release_if_zero_quiet quiet_simple(1) quiet_trans)

lemma cl_kernel_stores_quiet: "cl_kernel_stores data s = Some s' \<Longrightarrow> quiet s s'"
  by (auto simp: cl_kernel_stores_def intro!: quiet_upd)

lemma cl_WorkerThread_step_quiet:
  assumes r: "cl_WorkerThread_step inp c data s = Some s'" and c: "c \<in> set (cl_iocp s)"
  shows "quiet s s'"
proof -
  let ?s0 = "s\<lparr>cl_iocp := remove1 c (cl_iocp s)\<rparr>"
  have q: "quiet s ?s0" by (rule quiet_done)
  show ?thesis
  proof (cases c)
    case ClRecv
    then obtain s1 s2 s3 where st: "cl_kernel_stores data ?s0 = Some s1" "cl_io_done s3 = Some s'"
      "cl_RecvComplete inp (length data) s2 = Some s3" "s2 = (if data = [] then upd_cs (m_blive_update (\<lambda>_. 0)) s1 else s1)"
      using r by (auto simp: cl_WorkerThread_step_def Let_def bind_eq_Some_conv)
    have "quiet s1 s2" by (simp add: st(4) quiet_upd)
    from quiet_trans [OF quiet_trans [OF q cl_kernel_stores_quiet [OF st(1)]] this]
    show ?thesis using cl_RecvComplete_quiet [OF st(3)] cl_io_done_quiet [OF st(2)] quiet_trans by metis
  next
    case ClSend
    then obtain s1 where "cl_SendComplete inp ?s0 = Some s1" "cl_io_done s1 = Some s'"
      using r by (auto simp: cl_WorkerThread_step_def Let_def bind_eq_Some_conv)
    then have "set (cl_log ?s0) \<subseteq> set (cl_log s')" using cl_SendComplete_log cl_io_done_quiet unfolding quiet_def by blast
    moreover have "\<not> muted s" using c ClSend by (simp add: muted_def)
    ultimately show ?thesis by (simp add: quiet_def)
  next
    case ClReleasePost
    then show ?thesis using r q cl_ReleaseComplete_quiet quiet_trans by (auto simp: cl_WorkerThread_step_def Let_def)
  next
    case (ClPost n)
    then obtain s1 where "cl_PostComplete inp n ?s0 = Some s1" "cl_io_done s1 = Some s'"
      using r by (auto simp: cl_WorkerThread_step_def Let_def bind_eq_Some_conv)
    then show ?thesis using q cl_OnRecv_quiet cl_io_done_quiet quiet_trans unfolding cl_PostComplete_def by metis
  qed
qed

lemma TimerThread_step_quiet: "TimerThread_step data totals s = Some s' \<Longrightarrow> quiet s s'"
  by (auto simp: TimerThread_step_def split: prod.splits list.splits dest!: cl_post_message_quiet
      intro: quiet_trans [OF quiet_simple(3)])

lemma cl_do_quiet: "cl_do e s = Some s' \<Longrightarrow> quiet s s'"
  by (cases e) (auto dest: Connect_open_quiet Connect_enter_quiet TimerThread_step_quiet cl_WorkerThread_step_quiet
      intro: Connect_receive_quiet split: if_splits)

lemma cl_run_quiet: "cl_run es s = Some s' \<Longrightarrow> quiet s s'"
proof (induction es arbitrary: s)
  case (Cons e es)
  then obtain s1 where "cl_do e s = Some s1" "cl_run es s1 = Some s'" by (auto simp: bind_eq_Some_conv)
  then show ?case using cl_do_quiet Cons.IH quiet_trans by metis
qed simp

end
