(* ===== verification/LanClientCount.thy ===== *)
theory LanClientCount
  imports LanClientInv NetworkRecv
begin

text \<open>
  The count of the client's session. As long as no packet is refused it is the number of completions to come plus the
  references that a running function holds; when it has reached zero there is one posted release and nothing else.
\<close>

section \<open>Live and released\<close>

definition posts :: "lan_client \<Rightarrow> nat" where
  "posts s = length (filter (\<lambda>c. case c of ClPost n \<Rightarrow> True | _ \<Rightarrow> False) (cl_iocp s))"

text \<open>
  \<open>live N d h k s\<close>: the session \<open>k\<close> with \<open>d\<close> references held, at most \<open>N\<close> posted messages, one receive and one send;
  \<open>h\<close> are the sessions in the table.
\<close>

definition live :: "nat \<Rightarrow> nat \<Rightarrow> u64 list \<Rightarrow> u64 \<Rightarrow> lan_client \<Rightarrow> bool" where
  "live N d h k s \<longleftrightarrow> cl_port s \<and> map fst (cl_hash s) = h \<and> m_SeqID (cl_session s) = k \<and> ClReleasePost \<notin> set (cl_iocp s) \<and>
     m_ioCount (cl_session s) = of_nat (length (cl_iocp s) + d) \<and>
     count_list (cl_iocp s) ClRecv \<le> 1 \<and> count_list (cl_iocp s) ClSend \<le> 1 \<and>
     (ClSend \<in> set (cl_iocp s) \<longrightarrow> m_flag (cl_session s) \<noteq> 0) \<and> posts s \<le> N \<and> N + d + 2 < 2 ^ 46"

definition dead :: "nat \<Rightarrow> u64 \<Rightarrow> lan_client \<Rightarrow> bool" where
  "dead N k s \<longleftrightarrow> cl_port s \<and> map fst (cl_hash s) = [k] \<and> m_SeqID (cl_session s) = k \<and> cl_iocp s = [ClReleasePost] \<and>
     (\<exists>j \<le> N. m_ioCount (cl_session s) = r_flag + of_nat j) \<and> N < 2 ^ 46"

definition io_view where
  "io_view s = (cl_port s, cl_hash s, cl_iocp s, m_SeqID (cl_session s), m_ioCount (cl_session s), m_flag (cl_session s))"

lemma live_cong: "io_view s' = io_view s \<Longrightarrow> live N d h k s' = live N d h k s"
  by (simp add: io_view_def live_def posts_def)

lemma io_view_iocp: "io_view s' = io_view s \<Longrightarrow> cl_iocp s' = cl_iocp s"
  by (simp add: io_view_def)

lemma dead_cong: "io_view s' = io_view s \<Longrightarrow> dead N k s' = dead N k s"
  by (simp add: io_view_def dead_def)

lemma io_view_simps [simp]:
  "io_view (cl_set_msg n m s) = io_view s" "io_view (cl_os c s) = io_view s" "io_view (s\<lparr>cl_tick := t\<rparr>) = io_view s"
  "io_view (s\<lparr>cl_heap := hp\<rparr>) = io_view s" "io_view (s\<lparr>cl_free := fr\<rparr>) = io_view s"
  "io_view (s\<lparr>cl_players := ps\<rparr>) = io_view s" "io_view (s\<lparr>cl_player_free := pf\<rparr>) = io_view s"
  by (simp_all add: io_view_def client_defs)

lemma io_view_upd:
  "(\<And>c. m_SeqID (f c) = m_SeqID c \<and> m_ioCount (f c) = m_ioCount c \<and> m_flag (f c) = m_flag c) \<Longrightarrow> io_view (upd_cs f s) = io_view s"
  by (simp add: io_view_def upd_cs_def)

lemma cl_Alloc_view: "cl_Alloc s = (n, s') \<Longrightarrow> io_view s' = io_view s"
  by (auto simp: cl_Alloc_def io_view_def split: list.splits)

lemma cl_Release_view: "cl_Release n s = Some s' \<Longrightarrow> io_view s' = io_view s"
  by (auto simp: cl_Release_def Let_def io_view_def split: if_splits)

lemma cl_Release_all_view: "cl_Release_all ns s = Some s' \<Longrightarrow> io_view s' = io_view s"
  by (induction ns arbitrary: s) (auto simp: bind_eq_Some_conv dest!: cl_Release_view)

lemma cl_Session_Release_view: "cl_Session_Release s = Some s' \<Longrightarrow> io_view s' = io_view s"
  by (auto simp: cl_Session_Release_def bind_eq_Some_conv io_view_upd dest!: cl_Release_all_view)

lemma cl_CreateMessage_view: "cl_CreateMessage hdr s = Some (r, s') \<Longrightarrow> io_view s' = io_view s"
  unfolding cl_CreateMessage_def
  by (cases "cl_Alloc s") (auto simp: Let_def bind_eq_Some_conv io_view_upd dest!: cl_Alloc_view)

lemma count_list_remove1: "count_list (remove1 a xs) b = count_list xs b - (if a = b then 1 else 0)"
proof (induction xs)
  case (Cons x xs)
  have "a \<in> set xs \<or> count_list xs a = 0" by (metis count_notin)
  then show ?case using Cons.IH by (auto simp: count_list_0_iff)
qed simp

text \<open>How many completions there can be.\<close>

lemma iocp_length: "length cs = length (filter (\<lambda>c. case c of ClPost n \<Rightarrow> True | _ \<Rightarrow> False) cs) +
    count_list cs ClRecv + count_list cs ClSend + count_list cs ClReleasePost"
  by (induction cs) (auto split: cl_completion.split)

lemma live_length: "live N d h k s \<Longrightarrow> length (cl_iocp s) + d \<le> N + d + 2 \<and> N + d + 2 < 2 ^ 46"
  using iocp_length [of "cl_iocp s"] by (auto simp: live_def posts_def count_list_0_iff)

lemma live_count: "live N d h k s \<Longrightarrow> unat (m_ioCount (cl_session s)) = length (cl_iocp s) + d"
proof -
  assume l: "live N d h k s"
  have "unat (of_nat (length (cl_iocp s) + d) :: u64) = length (cl_iocp s) + d" using live_length [OF l] by (subst unat_of_nat) simp
  then show ?thesis using l unfolding live_def by metis
qed

lemma live_no_flag: "live N d h k s \<Longrightarrow> m_ioCount (cl_session s) AND r_flag = 0"
  using live_count live_length by (intro AND_r_flag_small) fastforce

lemma live_positive: "live N d h k s \<Longrightarrow> 0 < length (cl_iocp s) + d \<Longrightarrow> m_ioCount (cl_session s) \<noteq> 0"
  using live_count by (metis less_irrefl unat_0)

lemma dead_flag:
  assumes "dead N k s"
  shows "(m_ioCount (cl_session s) + 1) AND r_flag \<noteq> 0"
proof -
  obtain j where j: "j \<le> N" "m_ioCount (cl_session s) = r_flag + of_nat j" "N < 2 ^ 46" using assms by (auto simp: dead_def)
  define x :: u64 where "x = of_nat (Suc j)"
  have x: "unat x = Suc j" unfolding x_def using j by (subst unat_of_nat) simp
  have "unat (r_flag + x) = unat r_flag + unat x" using j x r_flag_unat by (subst unat_add_lem [symmetric]) simp
  then have "unat (r_flag + x) div 2 ^ 47 = 1" using j x r_flag_unat by simp
  moreover have "m_ioCount (cl_session s) + 1 = r_flag + x" by (simp add: j(2) x_def)
  ultimately show ?thesis by (simp add: AND_r_flag)
qed

section \<open>Locks\<close>

lemma live_io: "live N (Suc d) h k (cl_io 1 s) = (live N d h k s \<and> N + d + 3 < 2 ^ 46)"
  by (auto simp: live_def client_defs posts_def)

lemma io_back [simp]: "cl_io (-1) (cl_io 1 s) = s"
  by (simp add: client_defs)

lemma live_lock:
  assumes "live N d h k s" "0 < length (cl_iocp s) + d" "N + d + 3 < 2 ^ 46"
  shows "cl_SessionLock i s = Some (i = k, if i = k then cl_io 1 s else s)"
proof -
  have l: "live N (Suc d) h k (cl_io 1 s)" using assms live_io by simp
  have "m_ioCount (cl_session (cl_io 1 s)) \<noteq> 1" using live_count [OF l] assms(2) by (auto simp: client_defs)
  moreover have "cl_release_if_zero i s = Some s" using live_positive [OF assms(1,2)] by (simp add: cl_release_if_zero_def)
  moreover have "m_SeqID (cl_session (cl_io 1 s)) = k" using l by (simp add: live_def)
  ultimately show ?thesis using live_no_flag [OF l] by (auto simp: cl_SessionLock_def Let_def)
qed

lemma live_unlock:
  assumes "live N (Suc d) h k s" "0 < length (cl_iocp s) + d"
  shows "cl_SessionUnLock i s = Some (cl_io (-1) s)" "live N d h k (cl_io (-1) s)"
proof -
  show l: "live N d h k (cl_io (-1) s)" using assms(1) by (auto simp: live_def client_defs posts_def)
  have "0 < length (cl_iocp (cl_io (-1) s)) + d" using assms(2) by (simp add: client_defs)
  then show "cl_SessionUnLock i s = Some (cl_io (-1) s)"
    using live_positive [OF l] by (simp add: cl_SessionUnLock_def cl_release_if_zero_def)
qed

lemma dead_lock:
  assumes "dead N k s" "N + 2 < 2 ^ 46"
  shows "cl_SessionLock i s = Some (False, cl_io 1 s)" "dead (Suc N) k (cl_io 1 s)"
proof -
  have "m_ioCount (cl_session (cl_io 1 s)) = m_ioCount (cl_session s) + 1" by (simp add: client_defs)
  then show "cl_SessionLock i s = Some (False, cl_io 1 s)" using dead_flag [OF assms(1)] by (simp add: cl_SessionLock_def Let_def)
  obtain j where "j \<le> N" "m_ioCount (cl_session s) = r_flag + of_nat j" using assms(1) by (auto simp: dead_def)
  then have "\<exists>j \<le> Suc N. m_ioCount (cl_session s) + 1 = r_flag + of_nat j" by (intro exI [of _ "Suc j"]) simp
  then show "dead (Suc N) k (cl_io 1 s)" using assms by (simp add: dead_def client_defs)
qed

section \<open>Posting\<close>

lemma live_post_send:
  assumes "live N d h k s" "m_flag (cl_session s) = 0"
  shows "live N d h k (cl_post ClSend (cl_io 1 (upd_cs (m_flag_update (\<lambda>_. 1)) s)))"
  using assms by (auto simp: live_def client_defs posts_def count_list_0_iff)

lemma live_post_message:
  assumes "live N d h k s" "N + d + 3 < 2 ^ 46"
  shows "live (Suc N) d h k (cl_post (ClPost n) (cl_io 1 s))"
  using assms by (auto simp: live_def client_defs posts_def)

lemma live_mono: "live N d h k s \<Longrightarrow> N \<le> M \<Longrightarrow> M + d + 2 < 2 ^ 46 \<Longrightarrow> live M d h k s"
  by (auto simp: live_def)

lemma live_Unicast:
  assumes l: "live N d h k s" "0 < length (cl_iocp s) + d" "N + d + 4 < 2 ^ 46" and r: "cl_Unicast i n s = Some s'"
  shows "live N d h k s'"
proof (cases "i = k")
  case False
  then show ?thesis using live_lock [OF l(1,2)] l r by (simp add: cl_Unicast_def)
next
  case True
  let ?s2 = "upd_cs (m_sendBuffer_update (\<lambda>q. q @ [n])) (cl_io 1 s)"
  let ?s3 = "if m_flag (cl_session ?s2) = 0 then cl_post ClSend (cl_io 1 (upd_cs (m_flag_update (\<lambda>_. 1)) ?s2)) else ?s2"
  have "live N (Suc d) h k (cl_io 1 s)" using l live_io by simp
  then have l2: "live N (Suc d) h k ?s2" using live_cong [OF io_view_upd] by simp
  then have l3: "live N (Suc d) h k ?s3" using live_post_send [OF l2] by simp
  have "0 < length (cl_iocp ?s3) + d" using l(2) by (simp add: client_defs)
  moreover have "cl_SessionUnLock i ?s3 = Some s'"
    using r live_lock [OF l(1,2)] l(3) True by (simp add: cl_Unicast_def Let_def)
  ultimately show ?thesis using live_unlock [OF l3] by simp
qed

lemma live_PostReQuest:
  assumes l: "live N d h k s" "0 < length (cl_iocp s) + d" "N + d + 4 < 2 ^ 46" and r: "cl_PostReQuest_iocp i n s = Some s'"
  shows "live (Suc N) d h k s'" "cl_iocp s \<noteq> [] \<or> i = k \<Longrightarrow> cl_iocp s' \<noteq> []"
proof -
  have "live (Suc N) d h k s' \<and> (cl_iocp s \<noteq> [] \<or> i = k \<longrightarrow> cl_iocp s' \<noteq> [])"
  proof (cases "i = k")
    case False
    then have "cl_Release n s = Some s'" using live_lock [OF l(1,2)] l(3) r by (simp add: cl_PostReQuest_iocp_def)
    then have v: "io_view s' = io_view s" by (rule cl_Release_view)
    have "live (Suc N) d h k s" using live_mono [OF l(1), of "Suc N"] l(3) by simp
    then show ?thesis using False live_cong [OF v] io_view_iocp [OF v] by simp
  next
    case True
    let ?s2 = "cl_set_msg n ((cl_heap (cl_io 1 s) ! n)\<lparr>msg_owner := i\<rparr>) (cl_io 1 s)"
    let ?s3 = "cl_post (ClPost n) (cl_io 1 ?s2)"
    have "live N (Suc d) h k (cl_io 1 s)" using l live_io by simp
    then have l2: "live N (Suc d) h k ?s2" using live_cong [OF io_view_simps(1)] by blast
    have l3: "live (Suc N) (Suc d) h k ?s3" using live_post_message [OF l2] l(3) by simp
    have ne: "cl_iocp ?s3 \<noteq> []" using l3 l(1) by (simp add: live_def client_defs)
    have "cl_SessionUnLock i ?s3 = Some s'"
      using r live_lock [OF l(1,2)] l(3) True by (simp add: cl_PostReQuest_iocp_def Let_def)
    then have "s' = cl_io (-1) ?s3" "live (Suc N) d h k s'" using live_unlock [OF l3] ne by auto
    then show ?thesis using ne by (simp add: client_defs)
  qed
  then show "live (Suc N) d h k s'" "cl_iocp s \<noteq> [] \<or> i = k \<Longrightarrow> cl_iocp s' \<noteq> []" by blast+
qed

text \<open>A message for a released session goes back to the pool.\<close>

lemma dead_PostReQuest:
  assumes "dead N k s" "N + 2 < 2 ^ 46" "cl_PostReQuest_iocp i n s = Some s'"
  shows "dead (Suc N) k s'"
  using dead_lock [OF assms(1,2)] assms(3) dead_cong [OF cl_Release_view] by (auto simp: cl_PostReQuest_iocp_def)

lemma cl_post_message_posts:
  assumes "cl_post_message i parts s = Some s'"
  obtains n s1 where "io_view s1 = io_view s" "cl_PostReQuest_iocp i n s1 = Some s'"
proof -
  obtain n s1 where a: "cl_Alloc s = (n, s1)" by (cases "cl_Alloc s")
  then obtain m where "cl_PostReQuest_iocp i n (cl_set_msg n m s1) = Some s'"
    using assms by (auto simp: cl_post_message_def split: sum.splits)
  moreover have "io_view (cl_set_msg n m s1) = io_view s" using cl_Alloc_view [OF a] by simp
  ultimately show ?thesis by (rule that [rotated])
qed

lemma live_post:
  assumes l: "live N d h k s" "0 < length (cl_iocp s) + d" "N + d + 4 < 2 ^ 46" and r: "cl_post_message i parts s = Some s'"
  shows "live (Suc N) d h k s'" "cl_iocp s \<noteq> [] \<or> i = k \<Longrightarrow> cl_iocp s' \<noteq> []"
proof -
  obtain n s1 where s1: "io_view s1 = io_view s" "cl_PostReQuest_iocp i n s1 = Some s'" using cl_post_message_posts [OF r] by blast
  have "live N d h k s1" "0 < length (cl_iocp s1) + d" using l live_cong [OF s1(1)] io_view_iocp [OF s1(1)] by auto
  from live_PostReQuest [OF this l(3) s1(2)]
  show "live (Suc N) d h k s'" "cl_iocp s \<noteq> [] \<or> i = k \<Longrightarrow> cl_iocp s' \<noteq> []" unfolding io_view_iocp [OF s1(1)] .
qed

lemma dead_post:
  assumes "dead N k s" "N + 2 < 2 ^ 46" "cl_post_message i parts s = Some s'"
  shows "dead (Suc N) k s'"
proof -
  obtain n s1 where s1: "io_view s1 = io_view s" "cl_PostReQuest_iocp i n s1 = Some s'" using cl_post_message_posts [OF assms(3)] by blast
  then show ?thesis using dead_PostReQuest [OF _ assms(2) s1(2)] assms(1) dead_cong [OF s1(1)] by simp
qed

section \<open>Receiving and sending\<close>

lemma live_wsa:
  assumes "live N d h k s" "c = ClRecv \<or> c = ClSend \<and> m_flag (cl_session s) \<noteq> 0" "c \<notin> set (cl_iocp s)"
  shows "live N d h k (cl_post c (cl_os a (cl_io 1 s)))"
  using assms by (auto simp: live_def client_defs posts_def count_list_0_iff)

lemma live_RecvPacket:
  assumes "live N d h k s" "ClRecv \<notin> set (cl_iocp s)"
  shows "live N d h k (cl_RecvPacket inp s)"
proof -
  let ?f = "m_blive_update (\<lambda>_. 0)"
  have v: "io_view (upd_cs ?f s) = io_view s" for s by (rule io_view_upd) simp
  have "live N d h k (cl_post ClRecv (cl_os a (cl_io 1 s)))" for a using live_wsa assms by simp
  moreover have "cl_io (-1) (upd_cs ?f (cl_os a (cl_io 1 s))) = upd_cs ?f (cl_os a s)" for a by (simp add: client_defs)
  ultimately show ?thesis
    using assms(1) by (auto simp: cl_RecvPacket_def Let_def cl_WSARecvError_def submitted_def live_cong [OF v] live_cong [OF io_view_simps(2)]
        split: wsa_result.split)
qed

lemma live_SendComplete:
  assumes l: "live N d h k s" "ClSend \<notin> set (cl_iocp s)" "m_flag (cl_session s) \<noteq> 0" and r: "cl_SendComplete inp s = Some s'"
  shows "live N d h k s'"
  using r
proof (rule cl_SendComplete_cases)
  fix s1
  assume rel: "cl_Release_all (m_msgs (cl_session s)) (upd_cs (m_msgs_update (\<lambda>_. [])) s) = Some s1"
    and e: "m_sendBuffer (cl_session s1) = [] \<Longrightarrow> s' = (if m_flag (cl_session s1) = 1 then upd_cs (m_flag_update (\<lambda>_. 0)) s1 else s1)"
    and ne: "m_sendBuffer (cl_session s1) \<noteq> [] \<Longrightarrow> \<exists>f bs. (\<forall>c. m_flag (f c) = m_flag c \<and> m_ioCount (f c) = m_ioCount c \<and> m_SeqID (f c) = m_SeqID c) \<and>
       (s' = upd_cs f s1 \<or>
        s' = cl_post ClSend (cl_os (ClWSASend bs) (cl_io 1 (upd_cs f s1))) \<or>
        s' = cl_os ClCancelSend (cl_post ClSend (cl_os (ClWSASend bs) (cl_io 1 (upd_cs f s1)))) \<or>
        s' = cl_os (ClWSASend bs) (cl_io (-1) (cl_io 1 (upd_cs f s1))))"
  have v: "io_view s1 = io_view s" using cl_Release_all_view [OF rel] io_view_upd [of "m_msgs_update (\<lambda>_. [])"] by simp
  then have l1: "live N d h k s1" "ClSend \<notin> set (cl_iocp s1)" "m_flag (cl_session s1) \<noteq> 0"
    using l live_cong [OF v] by (simp_all add: io_view_def)
  show "live N d h k s'"
  proof (cases "m_sendBuffer (cl_session s1) = []")
    case True
    moreover have "live N d h k (upd_cs (m_flag_update (\<lambda>_. 0)) s1)" using l1(1,2) by (simp add: live_def client_defs posts_def)
    ultimately show ?thesis using e l1(1) by simp
  next
    case False
    then obtain f bs where f: "\<And>c. m_flag (f c) = m_flag c \<and> m_ioCount (f c) = m_ioCount c \<and> m_SeqID (f c) = m_SeqID c"
      and s': "s' = upd_cs f s1 \<or> s' = cl_post ClSend (cl_os (ClWSASend bs) (cl_io 1 (upd_cs f s1))) \<or>
        s' = cl_os ClCancelSend (cl_post ClSend (cl_os (ClWSASend bs) (cl_io 1 (upd_cs f s1)))) \<or>
        s' = cl_os (ClWSASend bs) (cl_io (-1) (cl_io 1 (upd_cs f s1)))" using ne by blast
    have vf: "io_view (upd_cs f s1) = io_view s1" using f by (intro io_view_upd) blast
    then have lf: "live N d h k (upd_cs f s1)" "ClSend \<notin> set (cl_iocp (upd_cs f s1))" "m_flag (cl_session (upd_cs f s1)) \<noteq> 0"
      using l1 live_cong [OF vf] by (simp_all add: io_view_def)
    have "live N d h k (cl_post ClSend (cl_os (ClWSASend bs) (cl_io 1 (upd_cs f s1))))" by (rule live_wsa [OF lf(1) _ lf(2)]) (use lf(3) in simp)
    then show ?thesis using s' lf(1) live_cong [OF io_view_simps(2)] by auto
  qed
qed

section \<open>Packets\<close>

text \<open>A packet that is not refused leaves the session live. \<open>packet_refused\<close> is whether one was refused.\<close>

definition packet_refused :: "lan_client \<Rightarrow> bool" where
  "packet_refused s \<longleftrightarrow> (\<exists>i. ClDisconnect i \<in> set (cl_log s))"

lemma quiet_refused: "quiet s s' \<Longrightarrow> packet_refused s \<Longrightarrow> packet_refused s'"
  by (auto simp: quiet_def packet_refused_def)

lemma cl_Disconnect_uncut:
  assumes "cl_Disconnect inp i s = Some s'" "\<not> packet_refused s'"
  shows "s' = s"
proof (cases "m_SeqID (cl_session s) = i")
  case True
  let ?s1 = "cl_os (ClClose (m_sock (cl_session s))) (cl_os (ClDisconnect i) s)"
  have "OnLeaveServer inp ?s1 = Some s'" using assms(1) True by (simp add: cl_Disconnect_def)
  then have "quiet ?s1 s'" by (rule OnLeaveServer_quiet)
  moreover have "packet_refused ?s1" by (auto simp: packet_refused_def)
  ultimately show ?thesis using assms(2) quiet_refused by blast
qed (use assms in \<open>simp add: cl_Disconnect_def\<close>)

lemma live_answer:
  assumes "live N d h k s" "0 < length (cl_iocp s) + d" "N + d + 4 < 2 ^ 46" "cl_answer i n r s = Some (b, s')"
  shows "live N d h k s'"
proof (cases r)
  case (Inl e)
  then show ?thesis using assms by (simp add: cl_answer_def split: if_splits)
next
  case (Inr m)
  then have "cl_Unicast i n (cl_set_msg n m s) = Some s'" using assms(4) by (auto simp: cl_answer_def cl_SendPacket_def)
  moreover have "live N d h k (cl_set_msg n m s)" "0 < length (cl_iocp (cl_set_msg n m s)) + d"
    using assms live_cong [OF io_view_simps(1)] by (auto simp: client_defs)
  ultimately show ?thesis using live_Unicast assms(3) by blast
qed

lemma live_OnRecv:
  assumes l: "live N (Suc d) h k s" "N + d + 5 < 2 ^ 46" and r: "cl_OnRecv inp i n s = Some s'" and u: "\<not> packet_refused s'"
  shows "live N (Suc d) h k s'"
proof -
  obtain w m where w: "msg_shr (cl_heap s ! n) 2 = Inr (w, m)" using r by (auto simp: cl_OnRecv_def split: sum.splits)
  let ?s1 = "cl_set_msg n m s"
  have l1: "live N (Suc d) h k ?s1" using l(1) live_cong [OF io_view_simps(1)] by blast
  show ?thesis
  proof (cases "i = msg_owner m")
    case False
    then have "cl_Release n ?s1 = Some s'" using r w by (simp add: cl_OnRecv_def)
    then show ?thesis using l1 live_cong [OF cl_Release_view] by blast
  next
    case True
    then obtain ok s2 where p: "cl_PacketProc inp i n (bytes_word w) ?s1 = Some (ok, s2)"
      "if ok then s' = s2 else \<exists>s3. cl_Release n s2 = Some s3 \<and> cl_Disconnect inp i s3 = Some s'"
      using r w by (auto simp: cl_OnRecv_def Let_def bind_eq_Some_conv split: if_splits)
    have "live N (Suc d) h k s2"
      using p(1) l1 l(2) live_answer [OF l1, of i n _ ok s2] by (auto simp: cl_PacketProc_def split: if_splits)
    moreover have "s' = s2 \<or> cl_Release n s2 = Some s'" using p(2) u cl_Disconnect_uncut by (cases ok) auto
    ultimately show ?thesis using live_cong [OF cl_Release_view] by blast
  qed
qed

text \<open>Handling a packet asks for no receive.\<close>

definition recvs :: "lan_client \<Rightarrow> nat" where
  "recvs s = count_list (cl_iocp s) ClRecv"

lemma recvs_simps [simp]: "recvs (upd_cs f s) = recvs s" "recvs (cl_io d s) = recvs s" "recvs (cl_os a s) = recvs s"
  "recvs (cl_set_msg n m s) = recvs s" "c \<noteq> ClRecv \<Longrightarrow> recvs (cl_post c s) = recvs s"
  by (simp_all add: recvs_def client_defs)

lemma recvs_view: "io_view s' = io_view s \<Longrightarrow> recvs s' = recvs s"
  by (simp add: io_view_def recvs_def)

lemma cl_release_if_zero_recvs: "cl_release_if_zero i s = Some s' \<Longrightarrow> recvs s' = recvs s"
  by (auto simp: cl_release_if_zero_def cl_ReleaseSession_def split: if_splits)

lemma cl_Unicast_recvs: "cl_Unicast i n s = Some s' \<Longrightarrow> recvs s' = recvs s"
  by (auto simp: cl_Unicast_def cl_SessionLock_def cl_SessionUnLock_def Let_def bind_eq_Some_conv split: if_splits
      dest!: cl_release_if_zero_recvs)

lemma cl_OnRecv_recvs:
  assumes r: "cl_OnRecv inp i n s = Some s'" and u: "\<not> packet_refused s'"
  shows "recvs s' = recvs s"
proof -
  obtain w m where w: "msg_shr (cl_heap s ! n) 2 = Inr (w, m)" using r by (auto simp: cl_OnRecv_def split: sum.splits)
  show ?thesis
  proof (cases "i = msg_owner m")
    case False
    then show ?thesis using r w recvs_view [OF cl_Release_view] by (auto simp: cl_OnRecv_def)
  next
    case True
    then obtain ok s2 where p: "cl_PacketProc inp i n (bytes_word w) (cl_set_msg n m s) = Some (ok, s2)"
      "if ok then s' = s2 else \<exists>s3. cl_Release n s2 = Some s3 \<and> cl_Disconnect inp i s3 = Some s'"
      using r w by (auto simp: cl_OnRecv_def Let_def bind_eq_Some_conv split: if_splits)
    have "recvs s2 = recvs s"
      using p(1) cl_Unicast_recvs by (auto simp: cl_PacketProc_def cl_answer_def cl_SendPacket_def split: if_splits sum.splits)
    moreover have "s' = s2 \<or> cl_Release n s2 = Some s'" using p(2) u cl_Disconnect_uncut by (cases ok) auto
    ultimately show ?thesis using recvs_view [OF cl_Release_view] by auto
  qed
qed

lemma live_RecvComplete_loop:
  "cl_RecvComplete_loop fuel inp i hdr s = Some (b, s') \<Longrightarrow> live N (Suc d) h k s \<Longrightarrow> N + d + 5 < 2 ^ 46 \<Longrightarrow> \<not> packet_refused s' \<Longrightarrow>
   live N (Suc d) h k s' \<and> recvs s' = recvs s"
proof (induction fuel arbitrary: hdr s)
  case 0
  then show ?case by (simp add: cl_RecvComplete_loop.simps)
next
  case (Suc fuel)
  from Suc.prems(1) show ?case
  proof (cases rule: cl_RecvComplete_loop_cases)
    case stop
    then show ?thesis using Suc.prems(2) by simp
  next
    case (partial hdr1)
    then have "io_view s' = io_view s" using cl_CreateMessage_view by blast
    then show ?thesis using Suc.prems(2) live_cong recvs_view by blast
  next
    case (bad hdr1 n s1 m)
    have "io_view (upd_cs (m_blive_update (\<lambda>_. 0)) (cl_set_msg n m s1)) = io_view (cl_set_msg n m s1)" by (rule io_view_upd) simp
    then have "io_view s' = io_view s" using cl_Release_view [OF bad(3)] cl_CreateMessage_view [OF bad(2)] by simp
    then show ?thesis using Suc.prems(2) live_cong recvs_view by blast
  next
    case (turn hdr1 n s1 m m' s3)
    let ?s2 = "cl_set_msg n m' (cl_set_msg n m s1)"
    have v: "io_view ?s2 = io_view s" using cl_CreateMessage_view [OF turn(1)] by simp
    then have l2: "live N (Suc d) h k ?s2" using Suc.prems(2) live_cong by blast
    have u: "\<not> packet_refused s3" using cl_RecvComplete_loop_quiet [OF turn(3)] quiet_refused Suc.prems(4) by blast
    have "recvs s3 = recvs s" using cl_OnRecv_recvs [OF turn(2) u] recvs_view [OF v] by simp
    then show ?thesis using Suc.IH [OF turn(3) live_OnRecv [OF l2 Suc.prems(3) turn(2) u] Suc.prems(3,4)] by simp
  qed
qed

lemma live_RecvComplete:
  assumes l: "live N (Suc d) h k s" "N + d + 5 < 2 ^ 46" and r: "cl_RecvComplete inp n s = Some s'" and u: "\<not> packet_refused s'"
    and none: "ClRecv \<notin> set (cl_iocp s)"
  shows "live N (Suc d) h k s'"
  using r
proof (rule cl_RecvComplete_loop_step)
  fix fuel b s2
  assume lp: "cl_RecvComplete_loop fuel inp (m_SeqID (cl_session s)) (ci_hdr inp) (upd_cs (m_recvBuffer_update (\<lambda>rb. MoveRear rb n)) s) = Some (b, s2)"
    and s': "s' = (if b then cl_RecvPacket inp s2 else s2)"
  have v: "io_view (upd_cs (m_recvBuffer_update (\<lambda>rb. MoveRear rb n)) s) = io_view s" by (rule io_view_upd) simp
  have "\<not> packet_refused s2" using u quiet_refused [OF cl_RecvPacket_quiet] by (auto simp: s' split: if_splits)
  then have "live N (Suc d) h k s2" "recvs s2 = recvs s"
    using live_RecvComplete_loop [OF lp _ l(2)] l(1) live_cong [OF v] recvs_view [OF v] by simp_all
  moreover have "ClRecv \<notin> set (cl_iocp s2)" using none \<open>recvs s2 = recvs s\<close> by (simp add: recvs_def count_list_0_iff [symmetric])
  ultimately show "live N (Suc d) h k s'" using live_RecvPacket by (simp add: s')
qed

section \<open>Connections\<close>

lemma connected_live:
  assumes "cl_port s" "cl_iocp s = []" "map fst (cl_hash s) = h" "N + d + 2 < 2 ^ 46"
  shows "live N d h (cl_seqID s + 1) (session_open sock (of_nat d) s)"
  using assms by (simp add: live_def session_open_def client_defs posts_def)

text \<open>\<^verbatim>\<open>OnEnterJoinServer\<close> up to its request: the session is entered into the table.\<close>

lemma OnEnterJoinServer_entered:
  assumes l: "live N d [] k s" and r: "OnEnterJoinServer k s = Some s'"
  obtains s2 where "live N d [k] k s2" "cl_iocp s2 = cl_iocp s"
    "cl_post_message k [word_bytes 2 cl_en_PACKET_SS_MONITOR_LOGIN, word_bytes 4 (11 :: u32)] s2 = Some s'"
proof -
  obtain p s1 where p: "cl_player_Alloc k s = (p, s1)" by (cases "cl_player_Alloc k s")
  then have v: "io_view s1 = io_view s" by (auto simp: cl_player_Alloc_def io_view_def split: list.splits)
  then have l1: "live N d [] k s1" using l live_cong [OF v] by simp
  then have h: "cl_hash s1 = []" by (simp add: live_def)
  let ?s2 = "s1\<lparr>cl_hash := [(k, p)]\<rparr>"
  have "live N d [k] k ?s2" using l1 by (simp add: live_def posts_def)
  moreover have "cl_post_message k [word_bytes 2 cl_en_PACKET_SS_MONITOR_LOGIN, word_bytes 4 (11 :: u32)] ?s2 = Some s'"
    using r p h by (simp add: OnEnterJoinServer_def)
  moreover have "cl_iocp ?s2 = cl_iocp s" using io_view_iocp [OF v] by simp
  ultimately show ?thesis by (intro that) 
qed

lemma dead_posted:
  assumes "cl_port s" "map fst (cl_hash s) = [k]" "m_SeqID (cl_session s) = k" "cl_iocp s = []" "N < 2 ^ 46"
  shows "dead N k (cl_post ClReleasePost (upd_cs (m_ioCount_update (\<lambda>_. r_flag)) s))"
proof -
  have "\<exists>j \<le> N. r_flag = r_flag + of_nat j" by (rule exI [of _ 0]) simp
  then show ?thesis using assms unfolding dead_def by (simp add: client_defs)
qed

definition up :: "nat \<Rightarrow> lan_client \<Rightarrow> bool" where
  "up N s \<longleftrightarrow> (\<exists>k. live N 0 [k] k s \<and> cl_iocp s \<noteq> [] \<or> dead N k s)"

lemma up_leave:
  assumes "cl_port s" "cl_iocp s = []" "map fst (cl_hash s) = [m_SeqID (cl_session s)]" "N + 6 < 2 ^ 46"
    and r: "OnLeaveServer inp s = Some s'"
  shows "up (Suc N) s'"
proof -
  obtain p where h: "cl_hash s = [(m_SeqID (cl_session s), p)]" using assms(3) by auto
  let ?s0 = "s\<lparr>cl_hash := [], cl_player_free := p # cl_player_free s\<rparr>"
  let ?k = "cl_seqID ?s0 + 1"
  obtain sock s1 where s1: "OnEnterJoinServer ?k (cl_RecvPacket inp (session_open sock 1 ?s0)) = Some s1" "s' = cl_io (-1) s1"
    using r h ReConnect_connected by (fastforce simp: OnLeaveServer_def Let_def)
  have "live N 1 [] ?k (session_open sock (of_nat 1) ?s0)" by (rule connected_live) (use assms in simp_all)
  moreover have "ClRecv \<notin> set (cl_iocp (session_open sock 1 ?s0))" using assms(2) by (simp add: session_open_def client_defs)
  ultimately have "live N 1 [] ?k (cl_RecvPacket inp (session_open sock 1 ?s0))" using live_RecvPacket by simp
  from OnEnterJoinServer_entered [OF this s1(1)] obtain s2 where s2: "live N 1 [?k] ?k s2"
    "cl_post_message ?k [word_bytes 2 cl_en_PACKET_SS_MONITOR_LOGIN, word_bytes 4 (11 :: u32)] s2 = Some s1" by metis
  have l1: "live (Suc N) 1 [?k] ?k s1" "cl_iocp s1 \<noteq> []" using live_post [OF s2(1) _ _ s2(2)] assms(4) by simp_all
  have "live (Suc N) 0 [?k] ?k s'" unfolding s1(2) by (rule live_unlock(2)) (use l1 in simp_all)
  moreover have "cl_iocp s' \<noteq> []" using l1(2) by (simp add: s1(2) client_defs)
  ultimately show ?thesis by (auto simp: up_def)
qed

lemma up_Connect:
  assumes "Connect inp (Connect_port (new_lan_client encode junk)) = Some s'"
  shows "up 1 s'"
proof -
  let ?s0 = "Connect_port (new_lan_client encode junk)"
  let ?k = "cl_seqID ?s0 + 1"
  obtain sock where s1: "OnEnterJoinServer ?k (cl_RecvPacket inp (session_open sock 0 ?s0)) = Some s'"
    using Connect_connected [OF assms] by (auto simp: Connect_port_def new_lan_client_def)
  have "live 0 0 [] ?k (session_open sock (of_nat 0) ?s0)" by (rule connected_live) (simp_all add: Connect_port_def new_lan_client_def)
  moreover have "ClRecv \<notin> set (cl_iocp (session_open sock 0 ?s0))" by (simp add: session_open_def client_defs Connect_port_def new_lan_client_def)
  ultimately have "live 0 0 [] ?k (cl_RecvPacket inp (session_open sock 0 ?s0))" using live_RecvPacket by simp
  from OnEnterJoinServer_entered [OF this s1] obtain s2 where s2: "live 0 0 [?k] ?k s2"
    "cl_post_message ?k [word_bytes 2 cl_en_PACKET_SS_MONITOR_LOGIN, word_bytes 4 (11 :: u32)] s2 = Some s'" by metis
  show ?thesis
  proof (cases "cl_iocp s2 = []")
    case False
    then show ?thesis using live_post [OF s2(1) _ _ s2(2)] by (auto simp: up_def)
  next
    case True
    obtain n s3 where s3: "io_view s3 = io_view s2" "cl_PostReQuest_iocp ?k n s3 = Some s'" using cl_post_message_posts [OF s2(2)] by blast
    have l3: "cl_port s3" "map fst (cl_hash s3) = [?k]" "m_SeqID (cl_session s3) = ?k" "m_ioCount (cl_session s3) = 0" "cl_iocp s3 = []"
    proof -
      have "live 0 0 [?k] ?k s3" using s2(1) live_cong [OF s3(1)] by blast
      moreover show "cl_iocp s3 = []" using True io_view_iocp [OF s3(1)] by simp
      ultimately show "cl_port s3" "map fst (cl_hash s3) = [?k]" "m_SeqID (cl_session s3) = ?k" "m_ioCount (cl_session s3) = 0"
        unfolding live_def by simp_all
    qed
    let ?s4 = "cl_post ClReleasePost (upd_cs (m_ioCount_update (\<lambda>_. r_flag)) s3)"
    have "cl_SessionLock ?k s3 = Some (False, ?s4)"
      using l3 AND_r_flag_small [of 1]
      by (simp add: cl_SessionLock_def Let_def cl_release_if_zero_def cl_ReleaseSession_def client_defs)
    then have "cl_Release n ?s4 = Some s'" using s3(2) by (simp add: cl_PostReQuest_iocp_def)
    then have v: "io_view s' = io_view ?s4" by (rule cl_Release_view)
    have "dead 1 ?k ?s4" by (rule dead_posted [OF l3(1-3,5)]) simp
    then show ?thesis using dead_cong [OF v] by (auto simp: up_def)
  qed
qed

section \<open>Steps\<close>

lemma up_done:
  assumes l: "live N 1 [k] k s" and r: "cl_io_done s = Some s'"
  shows "up N s'"
proof -
  let ?s1 = "cl_io (-1) s"
  have l1: "live N 0 [k] k ?s1" using l by (auto simp: live_def client_defs posts_def)
  show ?thesis
  proof (cases "cl_iocp ?s1 = []")
    case False
    then have "m_ioCount (cl_session ?s1) \<noteq> 0" using live_positive [OF l1] by simp
    then have "s' = ?s1" using r by (simp add: cl_io_done_def Let_def cl_release_if_zero_def)
    then show ?thesis using l1 False by (auto simp: up_def)
  next
    case True
    then have "m_ioCount (cl_session ?s1) = 0" using l1 by (simp add: live_def)
    then have "s' = cl_post ClReleasePost (upd_cs (m_ioCount_update (\<lambda>_. r_flag)) ?s1)"
      using r by (simp add: cl_io_done_def Let_def cl_release_if_zero_def cl_ReleaseSession_def upd_cs_def)
    moreover have "cl_port ?s1" "map fst (cl_hash ?s1) = [k]" "m_SeqID (cl_session ?s1) = k" "N < 2 ^ 46" using l1 by (simp_all add: live_def)
    ultimately have "dead N k s'" using dead_posted [OF _ _ _ True] by simp
    then show ?thesis by (auto simp: up_def)
  qed
qed

text \<open>A completion that is taken becomes a reference of the thread.\<close>

lemma live_taken:
  assumes l: "live N 0 h k s" "N + 4 < 2 ^ 46" and c: "c \<in> set (cl_iocp s)"
  shows "live N 1 h k (s\<lparr>cl_iocp := remove1 c (cl_iocp s)\<rparr>)"
    "c = ClRecv \<or> c = ClSend \<Longrightarrow> c \<notin> set (remove1 c (cl_iocp s))"
proof -
  let ?cs = "remove1 c (cl_iocp s)"
  have len: "length (cl_iocp s) = length ?cs + 1" using c by (simp add: length_remove1 Suc_diff_le length_greater_0_conv [symmetric] del: length_greater_0_conv) (metis Suc_pred length_pos_if_in_set)
  have f: "length (filter P ?cs) \<le> length (filter P (cl_iocp s))" for P by (simp add: filter_remove1 length_remove1)
  show "live N 1 h k (s\<lparr>cl_iocp := ?cs\<rparr>)"
    using l f len notin_set_remove1 set_remove1_subset [of c "cl_iocp s"] by (auto simp: live_def posts_def count_list_remove1 intro: le_trans)
  show "c \<notin> set ?cs" if "c = ClRecv \<or> c = ClSend"
  proof -
    have "count_list (cl_iocp s) c \<le> 1" using l(1) that by (auto simp: live_def)
    then have "count_list ?cs c = 0" by (simp only: count_list_remove1) simp
    then show ?thesis by (rule iffD1 [OF count_list_0_iff])
  qed
qed

lemma up_mono: "up N s \<Longrightarrow> N \<le> M \<Longrightarrow> M + 2 < 2 ^ 46 \<Longrightarrow> up M s"
  unfolding up_def
proof (elim exE disjE conjE)
  fix k assume "live N 0 [k] k s" "cl_iocp s \<noteq> []" "N \<le> M" "M + 2 < 2 ^ 46"
  then show "\<exists>k. live M 0 [k] k s \<and> cl_iocp s \<noteq> [] \<or> dead M k s" using live_mono [of N 0 "[k]" k s M] by auto
next
  fix k assume d: "dead N k s" "N \<le> M" "M + 2 < 2 ^ 46"
  then have "dead M k s" unfolding dead_def by (meson add_lessD1 le_trans)
  then show "\<exists>k. live M 0 [k] k s \<and> cl_iocp s \<noteq> [] \<or> dead M k s" by blast
qed

lemma up_WorkerThread_step:
  assumes l: "live N 0 [k] k s" "N + 6 < 2 ^ 46" and c: "c \<in> set (cl_iocp s)" and r: "cl_WorkerThread_step inp c data s = Some s'"
    and u: "\<not> packet_refused s'"
  shows "up N s'"
proof -
  let ?s0 = "s\<lparr>cl_iocp := remove1 c (cl_iocp s)\<rparr>"
  note t = live_taken [OF l(1) _ c]
  have l0: "live N 1 [k] k ?s0" using t(1) l(2) by simp
  have done_uncut: "\<not> packet_refused s1" if "cl_io_done s1 = Some s'" for s1 using quiet_refused [OF cl_io_done_quiet [OF that]] u by blast
  show ?thesis
  proof (cases c)
    case ClRecv
    then obtain s1 s2 s3 where st: "cl_kernel_stores data ?s0 = Some s1" "cl_io_done s3 = Some s'"
      "cl_RecvComplete inp (length data) s2 = Some s3" "s2 = (if data = [] then upd_cs (m_blive_update (\<lambda>_. 0)) s1 else s1)"
      using r by (auto simp: cl_WorkerThread_step_def Let_def bind_eq_Some_conv)
    have "io_view s1 = io_view ?s0" using st(1) by (auto simp: cl_kernel_stores_def intro!: io_view_upd)
    then have v: "io_view s2 = io_view ?s0" using io_view_upd [of "m_blive_update (\<lambda>_. 0)" s1] by (simp add: st(4))
    have "live N 1 [k] k s2" "ClRecv \<notin> set (cl_iocp s2)" using l0 live_cong [OF v] t(2) l(2) io_view_iocp [OF v] ClRecv by simp_all
    then have "live N 1 [k] k s3" using live_RecvComplete [where d = 0] l(2) st(3) done_uncut [OF st(2)] by simp
    then show ?thesis using up_done st(2) by blast
  next
    case ClSend
    then obtain s1 where st: "cl_SendComplete inp ?s0 = Some s1" "cl_io_done s1 = Some s'"
      using r by (auto simp: cl_WorkerThread_step_def Let_def bind_eq_Some_conv)
    have "m_flag (cl_session s) \<noteq> 0" using l(1) c ClSend by (auto simp: live_def)
    then have "live N 1 [k] k s1" using live_SendComplete [OF l0 _ _ st(1)] t(2) l(2) ClSend by simp
    then show ?thesis using up_done st(2) by blast
  next
    case ClReleasePost
    then show ?thesis using l(1) c by (simp add: live_def)
  next
    case (ClPost n)
    then obtain s1 where st: "cl_OnRecv inp (msg_owner (cl_heap ?s0 ! n)) n ?s0 = Some s1" "cl_io_done s1 = Some s'"
      using r by (auto simp: cl_WorkerThread_step_def cl_PostComplete_def Let_def bind_eq_Some_conv)
    have "live N 1 [k] k s1" using live_OnRecv [where d = 0, OF _ _ st(1) done_uncut [OF st(2)]] l0 l(2) by simp
    then show ?thesis using up_done st(2) by blast
  qed
qed

lemma up_release:
  assumes "dead N k s" "N + 6 < 2 ^ 46" "cl_WorkerThread_step inp ClReleasePost data s = Some s'"
  shows "up (Suc N) s'"
proof -
  let ?s0 = "s\<lparr>cl_iocp := []\<rparr>"
  have iocp: "remove1 ClReleasePost (cl_iocp s) = []" using assms(1) by (simp add: dead_def)
  obtain s1 where s1: "cl_Session_Release ?s0 = Some s1" "OnLeaveServer inp (cl_os (ClClose (m_sock (cl_session s1))) s1) = Some s'"
    using assms(3) by (auto simp: cl_WorkerThread_step_def iocp cl_ReleaseComplete_def bind_eq_Some_conv)
  have v: "io_view (cl_os (ClClose (m_sock (cl_session s1))) s1) = io_view ?s0" using cl_Session_Release_view [OF s1(1)] by simp
  then show ?thesis using assms(1,2) by (intro up_leave [OF _ _ _ _ s1(2)]) (auto simp: io_view_def dead_def)
qed

fun working :: "cl_event \<Rightarrow> bool" where
  "working (CliTimer data totals) = True"
| "working (CliWork inp c data) = True"
| "working e = False"

lemma up_step:
  assumes "up N s" "N + 6 < 2 ^ 46" "working e" "cl_do e s = Some s'" "\<not> packet_refused s'"
  shows "up (Suc N) s'"
proof (cases e)
  case (CliTimer data totals)
  have v: "io_view (s\<lparr>cl_tick := t\<rparr>) = io_view s" for t by simp
  have "up (Suc N) (s\<lparr>cl_tick := t\<rparr>)" for t
    using up_mono [OF assms(1), of "Suc N"] assms(2) live_cong [OF v] dead_cong [OF v] by (simp add: up_def)
  moreover have "up (Suc N) s'" if "cl_post_message i parts (s\<lparr>cl_tick := t\<rparr>) = Some s'" for i parts t
    using assms(1) unfolding up_def
  proof (elim exE disjE conjE)
    fix k assume "live N 0 [k] k s" "cl_iocp s \<noteq> []"
    then have "live N 0 [k] k (s\<lparr>cl_tick := t\<rparr>)" "cl_iocp (s\<lparr>cl_tick := t\<rparr>) \<noteq> []" using live_cong [OF v] by simp_all
    then have "live (Suc N) 0 [k] k s' \<and> cl_iocp s' \<noteq> []" using live_post [OF _ _ _ that, of N 0 "[k]" k] assms(2) by simp
    then show "\<exists>k. live (Suc N) 0 [k] k s' \<and> cl_iocp s' \<noteq> [] \<or> dead (Suc N) k s'" by blast
  next
    fix k assume "dead N k s"
    then have "dead (Suc N) k s'" using dead_post [OF _ _ that] dead_cong [OF v] assms(2) by simp
    then show "\<exists>k. live (Suc N) 0 [k] k s' \<and> cl_iocp s' \<noteq> [] \<or> dead (Suc N) k s'" by blast
  qed
  ultimately show ?thesis using assms(4) CliTimer by (auto simp: TimerThread_step_def split: prod.splits list.splits)
next
  case (CliWork inp c data)
  show ?thesis
  proof (cases "c \<in> set (cl_iocp s)")
    case False
    then show ?thesis using assms CliWork up_mono [of N s "Suc N"] by simp
  next
    case True
    then have w: "cl_WorkerThread_step inp c data s = Some s'" using assms(4) CliWork by simp
    from assms(1) show ?thesis unfolding up_def [of N]
    proof (elim exE disjE conjE)
      fix k assume "live N 0 [k] k s"
      then have "up N s'" using up_WorkerThread_step [OF _ assms(2) True w assms(5)] by blast
      then show ?thesis using up_mono [of N s' "Suc N"] assms(2) by simp
    next
      fix k assume d: "dead N k s"
      then have "c = ClReleasePost" using True by (simp add: dead_def)
      then show ?thesis using up_release [OF d assms(2)] w by blast
    qed
  qed
qed (use assms in simp_all)

end
