(* ===== verification/LanClientReport.thy ===== *)
theory LanClientReport
  imports LanClientCount MonitorDB
begin

text \<open>
  The messages of the client: what \<open>cl_post_message\<close> posts, and that a value the timer thread reports arrives at the
  handler of the monitor server (\<open>Monitor\<close>) as it was read.
\<close>

section \<open>Posted messages\<close>

lemma msg_shl_all_building:
  "building m K d \<Longrightarrow> length d + length (concat bss) \<le> bufferSize \<Longrightarrow>
   \<exists>m'. msg_shl_all bss m = Inr m' \<and> building m' K (d @ concat bss)"
proof (induction bss arbitrary: m d)
  case (Cons bs bss)
  then obtain m1 where "msg_shl m bs = Inr m1" "building m1 K (d @ bs)" using building_shl_fits [OF Cons.prems(1), of bs] by auto
  then show ?case using Cons.IH [of m1 "d @ bs"] Cons.prems(2) by simp
qed simp

lemma building_owner: "building (m\<lparr>msg_owner := i\<rparr>) K d = building m K d"
  by (simp add: building_def msg_plain_def msg_ok_def msg_data_def)

text \<open>Every node of the pool is a message with the key of the client.\<close>

definition cl_pool_ok :: "lan_client \<Rightarrow> bool" where
  "cl_pool_ok s \<longleftrightarrow> (\<forall>m \<in> set (cl_heap s). msg_ok m \<and> msg_K m = 30) \<and> (\<forall>n \<in> set (cl_free s). n < length (cl_heap s))"

lemma new_CClientMessage_ok: "msg_ok (new_CClientMessage (node_addr i)) \<and> msg_K (new_CClientMessage (node_addr i)) = 30"
  using new_CMessage_ok [OF node_addr_large, of i 0] by (simp add: new_CClientMessage_def msg_ok_def)

lemma cl_Alloc_spec:
  assumes "cl_pool_ok s" "cl_Alloc s = (n, s')"
  shows "n < length (cl_heap s')" "building (cl_heap s' ! n) 30 []" "cl_pool_ok s'"
proof -
  have "building (InitMessage m) 30 []" if "msg_ok m \<and> msg_K m = 30" for m using building_InitMessage [of m] that by simp
  then show "n < length (cl_heap s')" "building (cl_heap s' ! n) 30 []" "cl_pool_ok s'"
    using assms new_CClientMessage_ok
    by (auto simp: cl_Alloc_def cl_pool_ok_def nth_append InitMessage_ok split: list.splits dest!: subsetD [OF set_update_subset_insert])
qed

text \<open>What is posted is a node with the fields one after another.\<close>

lemma cl_post_message_spec:
  assumes p: "cl_pool_ok s" and fits: "length (concat parts) \<le> bufferSize"
  obtains n s1 m where "io_view s1 = io_view s" "cl_post_message i parts s = cl_PostReQuest_iocp i n s1"
    "n < length (cl_heap s1)" "cl_heap s1 ! n = m" "building m 30 (concat parts)"
    "cl_session s1 = cl_session s" "cl_encode s1 = cl_encode s" "cl_pool_ok s1" "cl_log s1 = cl_log s" "cl_conn s1 = cl_conn s"
proof -
  obtain n s0 where a: "cl_Alloc s = (n, s0)" by (cases "cl_Alloc s")
  note sp = cl_Alloc_spec [OF p a]
  obtain m where m: "msg_shl_all parts ((cl_heap s0 ! n)\<lparr>msg_owner := i\<rparr>) = Inr m" "building m 30 (concat parts)"
    using msg_shl_all_building [of "(cl_heap s0 ! n)\<lparr>msg_owner := i\<rparr>" 30 "[]" parts] sp(2) fits by (auto simp: building_owner)
  let ?s1 = "cl_set_msg n m s0"
  have "cl_post_message i parts s = cl_PostReQuest_iocp i n ?s1" using a m(1) by (simp add: cl_post_message_def)
  moreover have "io_view ?s1 = io_view s" using cl_Alloc_view [OF a] by simp
  moreover have "cl_session s0 = cl_session s" "cl_encode s0 = cl_encode s" "cl_log s0 = cl_log s" "cl_conn s0 = cl_conn s" using a by (auto simp: cl_Alloc_def split: list.splits)
  moreover have "cl_pool_ok ?s1" using sp(3) m(2)
    by (auto simp: cl_pool_ok_def cl_set_msg_def building_def msg_plain_def dest!: subsetD [OF set_update_subset_insert])
  ultimately show ?thesis using that [of ?s1 n m] m(2) sp(1) by (simp add: cl_set_msg_def)
qed

lemma cl_PostReQuest_posts:
  assumes "m_SeqID (cl_session s) = k" "0 < unat (m_ioCount (cl_session s))" "unat (m_ioCount (cl_session s)) < 2 ^ 46"
  shows "cl_PostReQuest_iocp k n s =
    Some (cl_post (ClPost n) (cl_io 1 (cl_set_msg n ((cl_heap s ! n)\<lparr>msg_owner := k\<rparr>) s)))"
proof -
  let ?c = "m_ioCount (cl_session s)"
  have u: "unat (?c + 1) = unat ?c + 1" using assms(3) by (subst iffD1 [OF unat_add_lem]) simp_all
  have "(?c + 1) AND r_flag = 0" using u assms(3) by (intro AND_r_flag_small) simp
  moreover have "?c + 1 \<noteq> 1" "?c + 1 \<noteq> 0" using u assms(2) by (metis add.left_neutral less_irrefl unat_0 unat_1 add_right_cancel, metis add_is_0 one_neq_zero unat_0)
  moreover have "cl_io (-1) (cl_post c (cl_io 1 (cl_set_msg n m (cl_io 1 s)))) = cl_post c (cl_io 1 (cl_set_msg n m s))" for c m
    by (simp add: client_defs)
  moreover have "m_ioCount (cl_session (cl_post c (cl_io 1 (cl_set_msg n m s)))) = ?c + 1" for c m by (simp add: client_defs)
  ultimately show ?thesis using assms(1)
    by (simp add: cl_PostReQuest_iocp_def cl_SessionLock_def Let_def cl_SessionUnLock_def cl_release_if_zero_def)
      (simp add: client_defs)
qed

section \<open>The frame of a report\<close>

definition report_payload :: "u8 \<times> u32 \<times> u32 \<Rightarrow> u8 list" where
  "report_payload r = concat (report_fields r)"

definition report_frame :: "u8 \<Rightarrow> u8 \<times> u32 \<times> u32 \<Rightarrow> u8 list" where
  "report_frame RK r = frame_encoded 30 RK (109 # word_bytes 2 (of_nat (length (report_payload r)) :: u16) @ [0, 0] @ report_payload r)"

lemma report_payload_length: "length (report_payload r) = 11"
  by (cases r) (simp add: report_payload_def report_fields_def)

text \<open>The proxy writes the frame over the message it is given.\<close>

lemma cl_RES_MONITOR_UPDATE_frame:
  assumes "msg_ok m" "msg_K m = 30" "length junk = 4"
  shows "\<exists>m'. cl_RES_MONITOR_UPDATE True junk RK m t v ts = Inr m' \<and> msg_front m' = 0 \<and> msg_frame m' = report_frame RK (t, v, ts)"
proof -
  let ?P = "report_payload (t, v, ts)"
  have b0: "building (InitMessage m) 30 []" using building_InitMessage [OF assms(1)] assms(2) by simp
  obtain m1 where m1: "cl_begin junk m = Inr m1" "building m1 30 (109 # junk)"
    using building_shl_fits [OF b0, of "109 # junk"] assms(3) by (auto simp: cl_begin_def building_PutData [OF b0] bufferSize_def)
  obtain m2 where m2: "msg_shl_all (report_fields (t, v, ts)) m1 = Inr m2" "building m2 30 (109 # junk @ ?P)"
    using msg_shl_all_building [OF m1(2), of "report_fields (t, v, ts)"] assms(3) report_payload_length [of "(t, v, ts)"]
    by (auto simp: report_payload_def bufferSize_def)
  show ?thesis
    using building_end_code [OF m2(2) assms(3), of RK] unfolding cl_RES_MONITOR_UPDATE_def report_frame_def m1(1)
    by (auto simp: m2(1))
qed

text \<open>The three fields, as both servers read them.\<close>

lemma read_report:
  assumes "msg_ok m" "msg_data m = report_payload (t, v, ts)"
  obtains m1 m2 where "msg_shr m 2 = Inr (word_bytes 2 cl_en_PACKET_SS_MONITOR_DATA_UPDATE, m1)" "msg_ok m1" "msg_data m1 = concat [word_bytes 1 t, word_bytes 4 v, word_bytes 4 ts]"
    "read_fields [1, 4, 4] m1 = Inr ([word_bytes 1 t, word_bytes 4 v, word_bytes 4 ts], m2)"
proof -
  let ?bss = "[word_bytes 1 t, word_bytes 4 v, word_bytes 4 ts]"
  obtain m1 where m1: "msg_shr m 2 = Inr (word_bytes 2 cl_en_PACKET_SS_MONITOR_DATA_UPDATE, m1)" "msg_ok m1" "msg_data m1 = concat ?bss @ []"
    using msg_shr_append [OF assms(1), of "word_bytes 2 cl_en_PACKET_SS_MONITOR_DATA_UPDATE" "concat ?bss" 2] assms(2)
    by (auto simp: report_payload_def report_fields_def)
  obtain m2 where "read_fields [1, 4, 4] m1 = Inr (?bss, m2)" using read_fields_append [OF m1(2,3)] by auto
  then show ?thesis using that m1 by simp
qed

lemma cl_read_fields_eq: "cl_read_fields ks m = read_fields ks m"
  by (induction ks arbitrary: m) (simp_all add: read_fields.simps)

lemma read_fields_kept: "read_fields ks m = Inr (bss, m') \<Longrightarrow> msg_ok m \<Longrightarrow> msg_ok m' \<and> msg_K m' = msg_K m"
proof (induction ks arbitrary: m bss)
  case (Cons k ks)
  then obtain bs m1 bss1 where st: "msg_shr m k = Inr (bs, m1)" "read_fields ks m1 = Inr (bss1, m')"
    by (auto simp: read_fields.simps err_bind_def split: sum.splits)
  have "msg_ok m1 \<and> msg_K m1 = msg_K m" using st(1) Cons.prems(2) by (auto simp: msg_shr_eq msg_ok_def length_msg_data split: if_splits)
  then show ?case using Cons.IH [OF st(2)] by simp
qed (simp add: read_fields.simps)

text \<open>The monitor server decodes the frame and hands the three values to its handler.\<close>

lemma monitor_takes_report:
  assumes "msg_ok mm" "msg_K mm = 30" "msg_front mm = 0" "msg_size mm = bufferSize" "msg_frame mm = report_frame RK (t, v, ts)"
  shows "\<exists>mm1 mm2 mm3. DeCoding mm = Inr (True, mm1) \<and>
    msg_shr (mm1\<lparr>msg_front := sizeof_stHeader\<rparr>) 2 = Inr (word_bytes 2 en_PACKET_SS_MONITOR_DATA_UPDATE, mm2) \<and>
    (\<forall>inp i s. mon_PacketProc inp i mm2 en_PACKET_SS_MONITOR_DATA_UPDATE s = mon_handled (REQ_MONITOR_UPDATE inp i mm3 t v ts s))"
proof -
  let ?P = "report_payload (t, v, ts)"
  let ?fr = "109 # word_bytes 2 (of_nat (length ?P) :: u16) @ [0, 0] @ ?P"
  have fr: "msg_frame mm = frame_encoded (msg_K mm) RK ?fr" using assms(2,5) by (simp add: report_frame_def)
  have len: "length ?fr = 16" by (simp add: report_payload_length)
  have "length (msg_frame mm) = msg_rear mm" using msg_frame_length [OF assms(1)] .
  moreover have "length (msg_frame mm) = length ?fr" unfolding fr by (simp add: frame_encoded_def Let_def off_byRandKey_def off_byCheckSum_def del: enc_loop.simps)
  ultimately have rear: "msg_rear mm = 16" using len by simp
  obtain mm1 where mm1: "DeCoding mm = Inr (frame_accepted 30 (msg_frame mm), mm1)" "msg_ok mm1"
      "msg_frame mm1 = frame_decoded 30 (msg_frame mm)" "mm1 = mm\<lparr>msg_mem := msg_frame mm1 @ drop (msg_rear mm) (msg_mem mm)\<rparr>"
    using DeCoding_frame [OF assms(1)] rear assms(2,4) by (auto simp: sizeof_stHeader_def bufferSize_def)
  have acc: "frame_accepted 30 (msg_frame mm)" "msg_frame mm1 = ?fr[off_byRandKey := RK, off_byCheckSum := checksum (drop off_byCheckSum ?fr)]"
  proof -
    have le: "sizeof_stHeader \<le> length ?fr" unfolding len by (simp add: sizeof_stHeader_def)
    have fr30: "msg_frame mm = frame_encoded 30 RK ?fr" using fr unfolding assms(2) .
    show "frame_accepted 30 (msg_frame mm)" "msg_frame mm1 = ?fr[off_byRandKey := RK, off_byCheckSum := checksum (drop off_byCheckSum ?fr)]"
      unfolding mm1(3) fr30 by (rule frame_decoded_encoded [OF le])+
  qed
  have sel: "msg_rear mm1 = 16" "msg_K mm1 = 30" using rear assms(2) by (subst mm1(4), simp)+
  have d: "msg_data (mm1\<lparr>msg_front := sizeof_stHeader\<rparr>) = drop 5 (msg_frame mm1)"
    by (simp add: msg_data_def msg_frame_def sizeof_stHeader_def)
  have "drop 5 (msg_frame mm1) = ?P" unfolding acc(2)
    by (simp add: off_byRandKey_def off_byCheckSum_def)
  moreover have ok: "msg_ok (mm1\<lparr>msg_front := sizeof_stHeader\<rparr>)" using mm1(2) sel by (simp add: msg_ok_def sizeof_stHeader_def)
  ultimately obtain m1 m2 where "msg_shr (mm1\<lparr>msg_front := sizeof_stHeader\<rparr>) 2 = Inr (word_bytes 2 cl_en_PACKET_SS_MONITOR_DATA_UPDATE, m1)"
      "read_fields [1, 4, 4] m1 = Inr ([word_bytes 1 t, word_bytes 4 v, word_bytes 4 ts], m2)"
    using read_report [OF ok] d by metis
  moreover have "cl_en_PACKET_SS_MONITOR_DATA_UPDATE = en_PACKET_SS_MONITOR_DATA_UPDATE"
    by (simp add: cl_en_PACKET_SS_MONITOR_DATA_UPDATE_def en_PACKET_SS_MONITOR_DATA_UPDATE_def)
  moreover have "en_PACKET_SS_MONITOR_DATA_UPDATE \<noteq> en_PACKET_SS_MONITOR_LOGIN"
    by (simp add: en_PACKET_SS_MONITOR_DATA_UPDATE_def en_PACKET_SS_MONITOR_LOGIN_def)
  ultimately show ?thesis using mm1(1) acc(1)
    by (intro exI [of _ mm1] exI [of _ m1] exI [of _ m2]) (simp add: mon_PacketProc_def bytes_word_word_bytes)
qed

section \<open>Queueing the frame\<close>

text \<open>What queueing keeps, and the send that is asked for when none is pending.\<close>

definition cl_queued :: "nat \<Rightarrow> lan_client \<Rightarrow> lan_client \<Rightarrow> bool" where
  "cl_queued n s s' \<longleftrightarrow> m_sendBuffer (cl_session s') = m_sendBuffer (cl_session s) @ [n] \<and> cl_log s' = cl_log s \<and>
     m_msgs (cl_session s') = m_msgs (cl_session s) \<and> m_blive (cl_session s') = m_blive (cl_session s) \<and>
     (m_flag (cl_session s) = 0 \<or> ClSend \<in> set (cl_iocp s) \<longrightarrow> ClSend \<in> set (cl_iocp s'))"

lemma cl_Unicast_queues:
  assumes "m_SeqID (cl_session s) = k" "0 < unat (m_ioCount (cl_session s))" "unat (m_ioCount (cl_session s)) < 2 ^ 46" "cl_port s"
  shows "\<exists>s'. cl_Unicast k n s = Some s' \<and> cl_queued n s s' \<and> cl_heap s' = cl_heap s"
proof -
  let ?c = "m_ioCount (cl_session s)"
  have u: "unat (?c + 1) = unat ?c + 1" using assms(3) by (subst iffD1 [OF unat_add_lem]) simp_all
  have "(?c + 1) AND r_flag = 0" using u assms(3) by (intro AND_r_flag_small) simp
  moreover have ne: "?c + 1 \<noteq> 1" "?c + 1 \<noteq> 0" "?c \<noteq> 0" using u assms(2) by (metis add.left_neutral less_irrefl unat_0 unat_1 add_right_cancel, metis add_is_0 one_neq_zero unat_0, auto)
  moreover have "1 + ?c \<noteq> 0" using ne(2) by (simp add: add.commute)
  ultimately show ?thesis using assms(1,4)
    by (auto simp: cl_Unicast_def cl_SessionLock_def Let_def cl_SessionUnLock_def cl_release_if_zero_def client_defs cl_queued_def)
qed

lemma cl_PacketProc_report:
  assumes "n < length (cl_heap s)" "msg_ok (cl_heap s ! n)" "msg_K (cl_heap s ! n) = 30" "cl_encode s" "length (ci_junk inp n) = 4"
    "read_fields [1, 4, 4] (cl_heap s ! n) = Inr ([word_bytes 1 t, word_bytes 4 v, word_bytes 4 ts], m2)"
    and c: "m_SeqID (cl_session s) = k" "0 < unat (m_ioCount (cl_session s))" "unat (m_ioCount (cl_session s)) < 2 ^ 46" "cl_port s"
  shows "\<exists>s'. cl_PacketProc inp k n cl_en_PACKET_SS_MONITOR_DATA_UPDATE s = Some (True, s') \<and>
    cl_queued n s s' \<and> msg_data (cl_heap s' ! n) = report_frame (ci_RK inp n) (t, v, ts)"
proof -
  have "msg_ok m2 \<and> msg_K m2 = 30" using read_fields_kept [OF assms(6,2)] assms(3) by simp
  then obtain m' where m': "cl_RES_MONITOR_UPDATE True (ci_junk inp n) (ci_RK inp n) m2 t v ts = Inr m'" "msg_front m' = 0"
      "msg_frame m' = report_frame (ci_RK inp n) (t, v, ts)"
    using cl_RES_MONITOR_UPDATE_frame [of m2 "ci_junk inp n"] assms(5) by blast
  let ?s = "cl_set_msg n m' s"
  obtain s' where s': "cl_Unicast k n ?s = Some s'" "cl_queued n ?s s'" "cl_heap s' = cl_heap ?s"
    using cl_Unicast_queues [of ?s k n] c by (auto simp: cl_set_msg_def)
  have "cl_queued n s s'" using s'(2) by (simp add: cl_queued_def cl_set_msg_def)
  moreover have "msg_data m' = msg_frame m'" using m'(2) by (simp add: msg_data_def msg_frame_def)
  moreover have "cl_en_PACKET_SS_MONITOR_DATA_UPDATE \<noteq> cl_en_PACKET_SS_MONITOR_LOGIN"
    by (simp add: cl_en_PACKET_SS_MONITOR_DATA_UPDATE_def cl_en_PACKET_SS_MONITOR_LOGIN_def)
  ultimately show ?thesis using assms(1,4,6) m'(1,3) s'(1,3)
    by (simp add: cl_PacketProc_def cl_read_fields_eq cl_answer_def cl_SendPacket_def bytes_word_word_bytes) (simp add: cl_set_msg_def)
qed

text \<open>A completion ends for the session it finds: that never stops, and leaves everything but the count and the release.\<close>

lemma cl_io_done_spec:
  "\<exists>s'. cl_io_done s = Some s' \<and> cl_log s' = cl_log s \<and> cl_heap s' = cl_heap s \<and> m_sendBuffer (cl_session s') = m_sendBuffer (cl_session s) \<and>
     m_msgs (cl_session s') = m_msgs (cl_session s) \<and> m_blive (cl_session s') = m_blive (cl_session s) \<and> set (cl_iocp s) \<subseteq> set (cl_iocp s')"
  by (auto simp: cl_io_done_def Let_def cl_release_if_zero_def cl_ReleaseSession_def client_defs)

text \<open>The worker thread that takes the send completion asks for one send of everything that is queued, up to 500 messages.\<close>

lemma send_completion_sends:
  assumes "m_sendBuffer (cl_session s) \<noteq> []" "length (m_sendBuffer (cl_session s)) \<le> 500" "m_msgs (cl_session s) = []"
    "m_blive (cl_session s) \<noteq> 0"
  shows "\<exists>s'. cl_WorkerThread_step inp ClSend [] s = Some s' \<and>
    cl_log s' = cl_log s @ [ClWSASend (map (\<lambda>n. msg_data (cl_heap s ! n)) (m_sendBuffer (cl_session s)))]"
proof -
  let ?s0 = "s\<lparr>cl_iocp := remove1 ClSend (cl_iocp s)\<rparr>"
  obtain s1 where s1: "cl_SendComplete inp ?s0 = Some s1"
      "cl_log s1 = cl_log s @ [ClWSASend (map (\<lambda>n. msg_data (cl_heap s ! n)) (m_sendBuffer (cl_session s)))]"
    using assms by (auto simp: cl_SendComplete_def Let_def client_defs cl_WSASendError_def split: wsa_result.split)
  then show ?thesis using cl_io_done_spec [of s1] by (auto simp: cl_WorkerThread_step_def)
qed

section \<open>From the timer to the monitor\<close>

text \<open>
  C31: A value that the timer thread reports for the connected session is posted to the worker thread, which queues one
  frame for it behind what is queued. When the send flag is clear, or set with a send pending, as it is unless a send
  has failed, a send is pending afterwards. If no earlier send is in flight, the connection is alive and fewer than 500
  messages wait, the thread that takes it makes one \<^verbatim>\<open>WSASend\<close> of the queue, whose last buffer is this frame. A monitor
  server that receives the frame accepts it and calls its handler with the type, the value and the time the timer
  thread read.
\<close>

theorem report_reaches_monitor:
  assumes "cl_pool_ok s" "cl_encode s" "cl_port s" "\<And>n. length (ci_junk inp n) = 4"
    and k: "m_SeqID (cl_session s) = k" "0 < unat (m_ioCount (cl_session s))" "unat (m_ioCount (cl_session s)) + 1 < 2 ^ 46"
    and t: "cl_tick s = (k, r # rs)" "tick_report totals r = (t, v, ts)"
    and f: "m_flag (cl_session s) = 0 \<or> ClSend \<in> set (cl_iocp s)"
    and a: "m_msgs (cl_session s) = []" "m_blive (cl_session s) \<noteq> 0" "length (m_sendBuffer (cl_session s)) < 500"
  shows "\<exists>n s1 s2 s3 fr bss. TimerThread_step data totals s = Some s1 \<and> cl_iocp s1 = cl_iocp s @ [ClPost n] \<and>
    cl_WorkerThread_step inp (ClPost n) [] s1 = Some s2 \<and>
    m_sendBuffer (cl_session s2) = m_sendBuffer (cl_session s) @ [n] \<and> msg_data (cl_heap s2 ! n) = fr \<and> ClSend \<in> set (cl_iocp s2) \<and>
    cl_WorkerThread_step inp2 ClSend [] s2 = Some s3 \<and> length bss = length (m_sendBuffer (cl_session s)) \<and>
    cl_log s3 = cl_log s @ [ClWSASend (bss @ [fr])] \<and>
    (\<forall>mm. msg_ok mm \<and> msg_K mm = 30 \<and> msg_front mm = 0 \<and> msg_size mm = bufferSize \<and> msg_frame mm = fr \<longrightarrow>
      (\<exists>mm1 mm2 mm3. DeCoding mm = Inr (True, mm1) \<and>
        msg_shr (mm1\<lparr>msg_front := sizeof_stHeader\<rparr>) 2 = Inr (word_bytes 2 en_PACKET_SS_MONITOR_DATA_UPDATE, mm2) \<and>
        (\<forall>minp i ms. mon_PacketProc minp i mm2 en_PACKET_SS_MONITOR_DATA_UPDATE ms = mon_handled (REQ_MONITOR_UPDATE minp i mm3 t v ts ms))))"
proof -
  let ?s0 = "s\<lparr>cl_tick := (k, rs)\<rparr>"
  have fits: "length (concat (report_fields (t, v, ts))) \<le> bufferSize" using report_payload_length [of "(t, v, ts)"] by (simp add: report_payload_def bufferSize_def)
  have "cl_pool_ok ?s0" using assms(1) by (simp add: cl_pool_ok_def)
  then obtain n s0 m where p: "io_view s0 = io_view ?s0" "cl_post_message k (report_fields (t, v, ts)) ?s0 = cl_PostReQuest_iocp k n s0"
      "n < length (cl_heap s0)" "cl_heap s0 ! n = m" "building m 30 (concat (report_fields (t, v, ts)))"
      "cl_session s0 = cl_session ?s0" "cl_encode s0 = cl_encode ?s0" "cl_log s0 = cl_log ?s0"
    using cl_post_message_spec [OF _ fits] by metis
  let ?c = "m_ioCount (cl_session s)" and ?m = "m\<lparr>msg_owner := k\<rparr>"
  let ?s1 = "cl_post (ClPost n) (cl_io 1 (cl_set_msg n ?m s0))"
  have step: "TimerThread_step data totals s = Some ?s1"
    using t p(2,4,6) cl_PostReQuest_posts [of s0 k n] k by (simp add: TimerThread_step_def)
  have port: "cl_port s0" using p(1) assms(3) by (simp add: io_view_def)
  have s1: "cl_iocp ?s1 = cl_iocp s @ [ClPost n]" "m_SeqID (cl_session ?s1) = k" "m_ioCount (cl_session ?s1) = ?c + 1"
      "m_sendBuffer (cl_session ?s1) = m_sendBuffer (cl_session s)" "cl_heap ?s1 ! n = ?m" "n < length (cl_heap ?s1)" "cl_encode ?s1"
      "cl_log ?s1 = cl_log s" "cl_port ?s1"
    using p(1,3,6,7,8) k(1) assms(2,3) port by (auto simp: client_defs io_view_def)
  have s1s: "m_flag (cl_session ?s1) = m_flag (cl_session s)" "m_msgs (cl_session ?s1) = m_msgs (cl_session s)"
      "m_blive (cl_session ?s1) = m_blive (cl_session s)"
    using p(6) by (simp_all add: client_defs)
  have u: "unat (?c + 1) = unat ?c + 1" using k(3) by (subst iffD1 [OF unat_add_lem]) simp_all
  have ok: "msg_ok ?m" "msg_K ?m = 30" "msg_data ?m = report_payload (t, v, ts)"
    using p(5) building_owner [of k m] by (auto simp: building_def msg_plain_def report_payload_def)
  obtain m1 m2 where rd: "msg_shr ?m 2 = Inr (word_bytes 2 cl_en_PACKET_SS_MONITOR_DATA_UPDATE, m1)" "msg_ok m1"
      "read_fields [1, 4, 4] m1 = Inr ([word_bytes 1 t, word_bytes 4 v, word_bytes 4 ts], m2)"
    using read_report [OF ok(1,3)] by metis
  have K: "msg_K m1 = 30" "msg_owner m1 = k" using msg_shr_eq [OF ok(1)] rd(1) ok(2) by (auto split: if_splits)
  let ?t = "?s1\<lparr>cl_iocp := remove1 (ClPost n) (cl_iocp ?s1)\<rparr>"
  let ?s2 = "cl_set_msg n m1 ?t"
  have s2: "n < length (cl_heap ?s2)" "cl_heap ?s2 ! n = m1" "cl_encode ?s2" "m_SeqID (cl_session ?s2) = k"
      "m_ioCount (cl_session ?s2) = ?c + 1" "m_sendBuffer (cl_session ?s2) = m_sendBuffer (cl_session s)" "cl_port ?s2" "cl_log ?s2 = cl_log s"
      "m_flag (cl_session ?s2) = m_flag (cl_session s)" "m_msgs (cl_session ?s2) = m_msgs (cl_session s)" "m_blive (cl_session ?s2) = m_blive (cl_session s)"
    using s1 s1s by (simp_all add: cl_set_msg_def)
  have pend: "m_flag (cl_session ?s2) = 0 \<or> ClSend \<in> set (cl_iocp ?s2)"
    using f s2(9) s1(1) by (auto simp: cl_set_msg_def)
  obtain s3 where s3: "cl_PacketProc inp k n cl_en_PACKET_SS_MONITOR_DATA_UPDATE ?s2 = Some (True, s3)"
      "cl_queued n ?s2 s3" "msg_data (cl_heap s3 ! n) = report_frame (ci_RK inp n) (t, v, ts)"
    using cl_PacketProc_report [of n ?s2 inp t v ts m2 k] s2(1-5,7) rd(2,3) K(1) assms(4) u k(3) by auto
  have "cl_heap ?t ! n = ?m" using s1(5) by simp
  then have "cl_PostComplete inp n ?t = Some s3" using rd(1) K(2) s3(1)
    by (simp add: cl_PostComplete_def cl_OnRecv_def)
  moreover obtain s4 where s4: "cl_io_done s3 = Some s4" "cl_log s4 = cl_log s3" "cl_heap s4 = cl_heap s3"
      "m_sendBuffer (cl_session s4) = m_sendBuffer (cl_session s3)" "m_msgs (cl_session s4) = m_msgs (cl_session s3)"
      "m_blive (cl_session s4) = m_blive (cl_session s3)" "set (cl_iocp s3) \<subseteq> set (cl_iocp s4)"
    using cl_io_done_spec [of s3] by blast
  ultimately have w: "cl_WorkerThread_step inp (ClPost n) [] ?s1 = Some s4" by (simp add: cl_WorkerThread_step_def)
  have q: "m_sendBuffer (cl_session s4) = m_sendBuffer (cl_session s) @ [n]" "cl_log s4 = cl_log s" "m_msgs (cl_session s4) = []"
      "m_blive (cl_session s4) \<noteq> 0" "ClSend \<in> set (cl_iocp s4)" "msg_data (cl_heap s4 ! n) = report_frame (ci_RK inp n) (t, v, ts)"
    using s3(2,3) s4(2-7) s2(6,8-11) pend a by (auto simp: cl_queued_def)
  obtain s5 where s5: "cl_WorkerThread_step inp2 ClSend [] s4 = Some s5"
      "cl_log s5 = cl_log s4 @ [ClWSASend (map (\<lambda>n. msg_data (cl_heap s4 ! n)) (m_sendBuffer (cl_session s4)))]"
    using send_completion_sends [of s4 inp2] q a(3) by auto
  have "cl_log s5 = cl_log s @ [ClWSASend (map (\<lambda>n. msg_data (cl_heap s4 ! n)) (m_sendBuffer (cl_session s)) @ [report_frame (ci_RK inp n) (t, v, ts)])]"
    unfolding s5(2) q(1,2) by (simp add: q(6))
  moreover have "\<forall>mm. msg_ok mm \<and> msg_K mm = 30 \<and> msg_front mm = 0 \<and> msg_size mm = bufferSize \<and> msg_frame mm = report_frame (ci_RK inp n) (t, v, ts) \<longrightarrow>
      (\<exists>mm1 mm2 mm3. DeCoding mm = Inr (True, mm1) \<and>
        msg_shr (mm1\<lparr>msg_front := sizeof_stHeader\<rparr>) 2 = Inr (word_bytes 2 en_PACKET_SS_MONITOR_DATA_UPDATE, mm2) \<and>
        (\<forall>minp i ms. mon_PacketProc minp i mm2 en_PACKET_SS_MONITOR_DATA_UPDATE ms = mon_handled (REQ_MONITOR_UPDATE minp i mm3 t v ts ms)))"
    using monitor_takes_report by blast
  ultimately show ?thesis using step s1(1) w q(1,5,6) s5(1) length_map by blast
qed

definition sample_cl_input :: cl_input where
  "sample_cl_input = \<lparr>ci_sock = Some 7, ci_tries = Some 0, ci_wsa = (\<lambda>i. WsaOk), ci_hdr = [], ci_junk = (\<lambda>n. [1, 2, 3, 4]), ci_RK = (\<lambda>n. 9)\<rparr>"

definition reporting_client :: lan_client where
  "reporting_client = (new_lan_client True [])\<lparr>cl_port := True, cl_tick := (1, [TickTotal 40]),
     cl_session := (new_clsSession [])\<lparr>m_SeqID := 1, m_ioCount := 1, m_blive := 1\<rparr>\<rparr>"

theorem report_reaches_monitor_witness:
  "\<exists>n s1 s2 s3 fr. TimerThread_step [] (\<lambda>i. of_nat i + 7) reporting_client = Some s1 \<and> cl_iocp s1 = [ClPost n] \<and>
    cl_WorkerThread_step sample_cl_input (ClPost n) [] s1 = Some s2 \<and> cl_WorkerThread_step sample_cl_input ClSend [] s2 = Some s3 \<and>
    cl_log s3 = [ClWSASend [fr]] \<and>
    (\<forall>mm. msg_ok mm \<and> msg_K mm = 30 \<and> msg_front mm = 0 \<and> msg_size mm = bufferSize \<and> msg_frame mm = fr \<longrightarrow>
      (\<exists>mm1 mm2 mm3. DeCoding mm = Inr (True, mm1) \<and>
        msg_shr (mm1\<lparr>msg_front := sizeof_stHeader\<rparr>) 2 = Inr (word_bytes 2 en_PACKET_SS_MONITOR_DATA_UPDATE, mm2) \<and>
        (\<forall>minp i ms. mon_PacketProc minp i mm2 en_PACKET_SS_MONITOR_DATA_UPDATE ms = mon_handled (REQ_MONITOR_UPDATE minp i mm3 40 47 7 ms))))"
proof -
  have s: "cl_pool_ok reporting_client" "cl_encode reporting_client" "cl_port reporting_client"
    "m_SeqID (cl_session reporting_client) = 1" "m_ioCount (cl_session reporting_client) = 1"
    "cl_tick reporting_client = (1, [TickTotal 40])" "cl_iocp reporting_client = []" "m_sendBuffer (cl_session reporting_client) = []"
    "m_flag (cl_session reporting_client) = 0" "m_msgs (cl_session reporting_client) = []" "m_blive (cl_session reporting_client) \<noteq> 0"
    "cl_log reporting_client = []"
    by (simp_all add: reporting_client_def new_lan_client_def new_clsSession_def cl_pool_ok_def)
  have t: "tick_report (\<lambda>i. of_nat i + 7) (TickTotal 40) = (40, 47, 7)" by (simp add: tick_report_def)
  have i: "length (ci_junk sample_cl_input n) = 4" for n by (simp add: sample_cl_input_def)
  from report_reaches_monitor [OF s(1-3) i s(4) _ _ s(6) t _ s(10,11), of "[]" sample_cl_input] show ?thesis
    unfolding s(5,7,8,12) using s(9) by fastforce
qed

end
