(* ===== verification/LanClientProps.thy ===== *)
theory LanClientProps
  imports LanClientReport
begin

text \<open>
  The client of the network library: the count of its session is exact as long as no packet is refused, and a refused
  one spoils it; a failed send mutes it for good; a tick before the connection ends the process.
\<close>

section \<open>The count of the session\<close>

lemma up_run:
  "cl_run es s = Some s' \<Longrightarrow> up N s \<Longrightarrow> N + length es + 6 < 2 ^ 46 \<Longrightarrow> list_all working es \<Longrightarrow> \<not> packet_refused s' \<Longrightarrow> up (N + length es) s'"
proof (induction es arbitrary: s N)
  case (Cons e es)
  then obtain s1 where s1: "cl_do e s = Some s1" "cl_run es s1 = Some s'" by (auto simp: bind_eq_Some_conv)
  have "\<not> packet_refused s1" using quiet_refused [OF cl_run_quiet [OF s1(2)]] Cons.prems(5) by blast
  then have "up (Suc N) s1" using up_step [OF Cons.prems(2) _ _ s1(1)] Cons.prems(3,4) by simp
  then show ?case using Cons.IH [OF s1(2), of "Suc N"] Cons.prems by simp
qed simp

lemma cl_run_append: "cl_run (es @ fs) s = Option.bind (cl_run es s) (cl_run fs)"
proof (induction es arbitrary: s)
  case (Cons e es)
  then show ?case by (cases "cl_do e s") simp_all
qed simp

lemma cl_run_then: "cl_run es s = Some s1 \<Longrightarrow> cl_run fs s1 = r \<Longrightarrow> cl_run (es @ fs) s = r"
  by (simp add: cl_run_append)

lemma cl_run_step: "cl_do e s = Some s1 \<Longrightarrow> cl_run es s1 = r \<Longrightarrow> cl_run (e # es) s = r"
  by simp

text \<open>A client that has connected: its receive and the login of the monitor are under way.\<close>

definition logging_in :: "lan_client \<Rightarrow> bool" where
  "logging_in s \<longleftrightarrow> (\<exists>junk m call. 2 \<le> length junk \<and> building m 30 (word_bytes 2 cl_en_PACKET_SS_MONITOR_LOGIN @ word_bytes 4 (11 :: u32)) \<and>
     msg_owner m = 1 \<and>
     s = \<lparr>cl_session = (new_clsSession junk)\<lparr>m_sock := 7, m_SeqID := 1, m_ioCount := 2, m_blive := 1\<rparr>, cl_seqID = 1, cl_conn = NotConnecting, cl_port = True,
          cl_encode = True, cl_heap = [m], cl_free = [], cl_iocp = [ClRecv, ClPost 0], cl_log = [ClConnect 7, ClWSARecv call],
          cl_hash = [(1, 0)], cl_players = [1], cl_player_free = [], cl_tick = (0, [])\<rparr>)"

lemma sample_connects:
  assumes "2 \<le> length junk"
  shows "\<exists>s. cl_run [CliPort, CliOpen sample_cl_input, CliReceive sample_cl_input, CliEnter] (new_lan_client True junk) = Some s \<and> logging_in s"
proof -
  let ?parts = "[word_bytes 2 cl_en_PACKET_SS_MONITOR_LOGIN, word_bytes 4 (11 :: u32)]"
  let ?m0 = "InitMessage (new_CClientMessage (node_addr 0))"
  have b0: "building (?m0\<lparr>msg_owner := 1\<rparr>) 30 []"
    using building_InitMessage [of "new_CClientMessage (node_addr 0)"] new_CClientMessage_ok [of 0] by (simp add: building_owner)
  obtain m where m: "msg_shl_all ?parts (?m0\<lparr>msg_owner := 1\<rparr>) = Inr m" "building m 30 (concat ?parts)"
    using msg_shl_all_building [OF b0, of ?parts] by (auto simp: bufferSize_def)
  have a: "(2 :: u64) AND r_flag = 0" by (rule AND_r_flag_small) simp
  have free: "GetFreeSize_at (new_CRingBuffer junk) 0 0 \<noteq> 0" using assms by (simp add: GetFreeSize_at_def new_CRingBuffer_def ClearBuffer_def rb_end_def)
  have rf: "rb_front (new_CRingBuffer junk) = 0" "rb_rear (new_CRingBuffer junk) = 0" by (simp_all add: new_CRingBuffer_def ClearBuffer_def)
  show ?thesis
    using assms m a free rf
    by (simp add: Connect_open_def Connect_receive_def Connect_enter_def sample_cl_input_def Connect_port_def new_lan_client_def new_clsSession_def cl_RecvPacket_def Let_def
        client_defs wsa_now_def submitted_def OnEnterJoinServer_def cl_player_Alloc_def cl_post_message_def cl_Alloc_def
        cl_PostReQuest_iocp_def cl_SessionLock_def cl_SessionUnLock_def cl_release_if_zero_def logging_in_def building_owner)
      (use assms in blast)
qed

text \<open>The worker thread has made the login packet and queued it.\<close>

definition login_queued :: "lan_client \<Rightarrow> bool" where
  "login_queued s \<longleftrightarrow> (\<exists>junk m call. 2 \<le> length junk \<and> msg_use m = 1 \<and> msg_ok m \<and>
     s = \<lparr>cl_session = (new_clsSession junk)\<lparr>m_sock := 7, m_SeqID := 1, m_ioCount := 2, m_blive := 1, m_flag := 1, m_sendBuffer := [0]\<rparr>,
          cl_seqID = 1, cl_conn = NotConnecting, cl_port = True,
          cl_encode = True, cl_heap = [m], cl_free = [], cl_iocp = [ClRecv, ClSend], cl_log = [ClConnect 7, ClWSARecv call],
          cl_hash = [(1, 0)], cl_players = [1], cl_player_free = [], cl_tick = (0, [])\<rparr>)"

lemma cl_RES_MONITOR_LOGIN_made:
  assumes "msg_ok m" "msg_K m = 30" "length junk = 4"
  shows "\<exists>m'. cl_RES_MONITOR_LOGIN True junk RK m no = Inr m' \<and> msg_use m' = 1 \<and> msg_ok m'"
proof -
  have b0: "building (InitMessage m) 30 []" using building_InitMessage [OF assms(1)] assms(2) by simp
  obtain m1 where m1: "cl_begin junk m = Inr m1" "building m1 30 (109 # junk)"
    using building_shl_fits [OF b0, of "109 # junk"] assms(3) by (auto simp: cl_begin_def building_PutData [OF b0] bufferSize_def)
  let ?P = "[word_bytes 2 cl_en_PACKET_SS_MONITOR_LOGIN, word_bytes 4 no]"
  obtain m2 where m2: "msg_shl_all ?P m1 = Inr m2" "building m2 30 (109 # junk @ concat ?P)"
    using msg_shl_all_building [OF m1(2), of ?P] assms(3) by (auto simp: bufferSize_def)
  show ?thesis
    using building_end_code [OF m2(2) assms(3), of RK] by (auto simp: cl_RES_MONITOR_LOGIN_def m1(1) m2(1) simp del: msg_shl_all.simps)
qed

lemma sample_client_login:
  assumes "logging_in s"
  shows "\<exists>s'. cl_do (CliWork sample_cl_input (ClPost 0) []) s = Some s' \<and> login_queued s'"
proof -
  obtain junk m call where j: "2 \<le> length junk" "building m 30 (word_bytes 2 cl_en_PACKET_SS_MONITOR_LOGIN @ word_bytes 4 (11 :: u32))" "msg_owner m = 1"
    and s: "s = \<lparr>cl_session = (new_clsSession junk)\<lparr>m_sock := 7, m_SeqID := 1, m_ioCount := 2, m_blive := 1\<rparr>, cl_seqID = 1, cl_conn = NotConnecting, cl_port = True,
          cl_encode = True, cl_heap = [m], cl_free = [], cl_iocp = [ClRecv, ClPost 0], cl_log = [ClConnect 7, ClWSARecv call],
          cl_hash = [(1, 0)], cl_players = [1], cl_player_free = [], cl_tick = (0, [])\<rparr>"
    using assms unfolding logging_in_def by blast
  have m: "msg_ok m" "msg_K m = 30" "msg_data m = word_bytes 2 cl_en_PACKET_SS_MONITOR_LOGIN @ word_bytes 4 (11 :: u32)"
    using j(2) by (simp_all add: building_def msg_plain_def)
  obtain m1 where m1: "msg_shr m 2 = Inr (word_bytes 2 cl_en_PACKET_SS_MONITOR_LOGIN, m1)" "msg_ok m1" "msg_data m1 = word_bytes 4 (11 :: u32)"
    using msg_shr_append [OF m(1,3)] by auto
  have K1: "msg_K m1 = 30" "msg_owner m1 = 1" using msg_shr_eq [OF m(1)] m1(1) m(2) j(3) by (auto split: if_splits)
  obtain m2 where m2: "cl_read_fields [4] m1 = Inr ([word_bytes 4 (11 :: u32)], m2)"
    using read_fields_append [OF m1(2), of "[word_bytes 4 (11 :: u32)]" "[]"] m1(3) by (auto simp: cl_read_fields_eq)
  have "msg_ok m2 \<and> msg_K m2 = 30" using read_fields_kept [of "[4]" m1] m2 m1(2) K1(1) by (simp add: cl_read_fields_eq)
  then obtain m3 where m3: "cl_RES_MONITOR_LOGIN True [1, 2, 3, 4] 9 m2 11 = Inr m3" "msg_use m3 = 1" "msg_ok m3"
    using cl_RES_MONITOR_LOGIN_made [of m2 "[1, 2, 3, 4]"] by auto
  have a: "(3 :: u64) AND r_flag = 0" by (rule AND_r_flag_small) simp
  show ?thesis
    using m1(1) K1 m2 m3 a j(1,3)
    by (simp add: s cl_WorkerThread_step_def cl_PostComplete_def cl_OnRecv_def cl_PacketProc_def cl_answer_def cl_SendPacket_def
        cl_Unicast_def cl_SessionLock_def cl_SessionUnLock_def cl_release_if_zero_def cl_io_done_def Let_def client_defs sample_cl_input_def
        new_clsSession_def bytes_word_word_bytes login_queued_def del: cl_read_fields.simps)
      blast
qed

text \<open>The send of the login packet has failed.\<close>

definition failed_cl_input :: cl_input where
  "failed_cl_input = sample_cl_input\<lparr>ci_wsa := (\<lambda>i. WsaFail 10054)\<rparr>"

definition send_failed :: "lan_client \<Rightarrow> bool" where
  "send_failed s \<longleftrightarrow> (\<exists>junk m call bs. 2 \<le> length junk \<and> msg_use m = 1 \<and> msg_ok m \<and>
     s = \<lparr>cl_session = (new_clsSession junk)\<lparr>m_sock := 7, m_SeqID := 1, m_ioCount := 1, m_flag := 1, m_msgs := [0]\<rparr>,
          cl_seqID = 1, cl_conn = NotConnecting, cl_port = True,
          cl_encode = True, cl_heap = [m], cl_free = [], cl_iocp = [ClRecv], cl_log = [ClConnect 7, ClWSARecv call, ClWSASend bs],
          cl_hash = [(1, 0)], cl_players = [1], cl_player_free = [], cl_tick = (0, [])\<rparr>)"

lemma sample_send_fails:
  assumes "login_queued s"
  shows "\<exists>s'. cl_do (CliWork failed_cl_input ClSend []) s = Some s' \<and> send_failed s'"
  using assms unfolding login_queued_def
  by (auto simp: cl_WorkerThread_step_def cl_SendComplete_def new_clsSession_def Let_def client_defs wsa_now_def failed_cl_input_def
      submitted_def WSA_IO_PENDING_def cl_WSASendError_def cl_io_done_def cl_release_if_zero_def send_failed_def)

text \<open>The other side closes: the receive ends with nothing, and the session is released.\<close>

definition released :: "lan_client \<Rightarrow> bool" where
  "released s \<longleftrightarrow> (\<exists>junk m call bs. 2 \<le> length junk \<and> msg_use m = 1 \<and> msg_ok m \<and>
     s = \<lparr>cl_session = (new_clsSession junk)\<lparr>m_sock := 7, m_SeqID := 1, m_ioCount := r_flag, m_flag := 1, m_msgs := [0]\<rparr>,
          cl_seqID = 1, cl_conn = NotConnecting, cl_port = True,
          cl_encode = True, cl_heap = [m], cl_free = [], cl_iocp = [ClReleasePost], cl_log = [ClConnect 7, ClWSARecv call, ClWSASend bs],
          cl_hash = [(1, 0)], cl_players = [1], cl_player_free = [], cl_tick = (0, [])\<rparr>)"

lemma new_ring: "rb_front (new_CRingBuffer junk) = 0" "rb_rear (new_CRingBuffer junk) = 0" "rb_mem (new_CRingBuffer junk) = junk"
  "new_CRingBuffer junk\<lparr>rb_mem := junk\<rparr> = new_CRingBuffer junk" "ClearBuffer (new_CRingBuffer junk) = new_CRingBuffer junk"
  by (simp_all add: new_CRingBuffer_def ClearBuffer_def)

lemma nothing_received:
  "scatter junk (recv_wsabufs (new_CRingBuffer junk)) [] = Some junk" "MoveRear (new_CRingBuffer junk) 0 = new_CRingBuffer junk"
  "Peek (new_CRingBuffer junk) 5 = Some (0, [])" "GetUseSize (new_CRingBuffer junk) = 0"
  "2 \<le> length junk \<Longrightarrow> GetFreeSize_at (new_CRingBuffer junk) 0 0 \<noteq> 0"
  by (simp_all add: recv_wsabufs_def new_ring Let_def mem_write_def MoveRear_def Peek_def Peek_at_def GetUseSize_def GetUseSize_at_def
      GetFreeSize_at_def rb_end_def)

lemma sample_closed:
  assumes "send_failed s"
  shows "\<exists>s'. cl_do (CliWork sample_cl_input ClRecv []) s = Some s' \<and> released s'"
  using assms unfolding send_failed_def
  by (auto simp: cl_WorkerThread_step_def cl_kernel_stores_def new_clsSession_def Let_def client_defs cl_RecvComplete_def
      cl_RecvComplete_loop.simps cl_headerSize_def headerSize_of_def sizeof_stHeader_def nothing_received new_ring cl_RecvPacket_def
      cl_io_done_def cl_release_if_zero_def cl_ReleaseSession_def released_def)

lemma sample_reconnects:
  assumes "released s"
  shows "\<exists>s'. cl_do (CliWork sample_cl_input ClReleasePost []) s = Some s' \<and> cl_iocp s' = [ClRecv, ClPost 0]"
proof -
  obtain junk m call bs where j: "2 \<le> length junk" "msg_use m = 1" "msg_ok m"
    and s: "s = \<lparr>cl_session = (new_clsSession junk)\<lparr>m_sock := 7, m_SeqID := 1, m_ioCount := r_flag, m_flag := 1, m_msgs := [0]\<rparr>,
          cl_seqID = 1, cl_conn = NotConnecting, cl_port = True,
          cl_encode = True, cl_heap = [m], cl_free = [], cl_iocp = [ClReleasePost], cl_log = [ClConnect 7, ClWSARecv call, ClWSASend bs],
          cl_hash = [(1, 0)], cl_players = [1], cl_player_free = [], cl_tick = (0, [])\<rparr>"
    using assms unfolding released_def by blast
  let ?parts = "[word_bytes 2 cl_en_PACKET_SS_MONITOR_LOGIN, word_bytes 4 (11 :: u32)]"
  let ?m0 = "InitMessage (m\<lparr>msg_use := 0\<rparr>)"
  have "msg_ok (m\<lparr>msg_use := 0\<rparr>)" using j(3) by (simp add: msg_ok_def)
  then have b0: "building (?m0\<lparr>msg_owner := 2\<rparr>) (msg_K m) []" using building_InitMessage [of "m\<lparr>msg_use := 0\<rparr>"] by (simp add: building_owner)
  obtain m1 where m1: "msg_shl_all ?parts (?m0\<lparr>msg_owner := 2\<rparr>) = Inr m1"
    using msg_shl_all_building [OF b0, of ?parts] by (auto simp: bufferSize_def simp del: msg_shl_all.simps)
  have a: "(3 :: u64) AND r_flag = 0" by (rule AND_r_flag_small) simp
  show ?thesis using j m1 a nothing_received(5) [OF j(1)]
    by (simp add: s cl_WorkerThread_step_def cl_ReleaseComplete_def cl_Session_Release_def cl_Release_def OnLeaveServer_def ReConnect_def
        new_clsSession_def new_ring sample_cl_input_def cl_RecvPacket_def Let_def client_defs wsa_now_def submitted_def OnEnterJoinServer_def
        cl_player_Alloc_def cl_post_message_def cl_Alloc_def cl_PostReQuest_iocp_def cl_SessionLock_def cl_SessionUnLock_def
        cl_release_if_zero_def del: msg_shl_all.simps)
qed

lemma send_failed_muted: "send_failed s \<Longrightarrow> m_flag (cl_session s) = 1 \<and> ClSend \<notin> set (cl_iocp s)"
  by (auto simp: send_failed_def)

text \<open>
  C30: The session of the client, from its connection on and through any number of reconnections, as long as no packet
  is refused and no other thread runs inside \<^verbatim>\<open>Connect\<close>, between the new identifier and the entry into the table
  (\<open>tick_inside_connection\<close> is what happens otherwise). While no release is posted, the count of the session is the
  number of completions still to come, of which there is at least one; a release is posted when the last one is done,
  and then there is no other completion. There is never a second receive or a second send, and the table of the
  monitor client holds the session and no other.
\<close>

theorem client_count_exact:
  assumes "cl_run (CliPort # CliOpen inp # CliReceive inp # CliEnter # es) (new_lan_client encode junk) = Some s"
    and "list_all working es" "length es < 2 ^ 40" "\<not> packet_refused s"
  shows "map fst (cl_hash s) = [m_SeqID (cl_session s)] \<and>
    count_list (cl_iocp s) ClRecv \<le> 1 \<and> count_list (cl_iocp s) ClSend \<le> 1 \<and>
    (if ClReleasePost \<in> set (cl_iocp s)
     then cl_iocp s = [ClReleasePost] \<and> 2 ^ 47 \<le> unat (m_ioCount (cl_session s))
     else cl_iocp s \<noteq> [] \<and> unat (m_ioCount (cl_session s)) = length (cl_iocp s))"
proof -
  have c: "cl_conn (Connect_port (new_lan_client encode junk)) = NotConnecting" by (simp add: Connect_port_def new_lan_client_def)
  have "Option.bind (Connect inp (Connect_port (new_lan_client encode junk))) (cl_run es) = Some s"
    using assms(1) unfolding cl_run.simps(2) [of CliPort] cl_do.simps(1) Option.bind.simps Connect_steps [OF c] .
  then obtain s1 where s1: "Connect inp (Connect_port (new_lan_client encode junk)) = Some s1" "cl_run es s1 = Some s"
    by (auto simp: bind_eq_Some_conv)
  have "up (1 + length es) s" using up_run [OF s1(2) up_Connect [OF s1(1)] _ assms(2,4)] assms(3) by simp
  then obtain k where "live (1 + length es) 0 [k] k s \<and> cl_iocp s \<noteq> [] \<or> dead (1 + length es) k s" by (auto simp: up_def)
  then show ?thesis
  proof (elim disjE conjE)
    assume l: "live (1 + length es) 0 [k] k s" and "cl_iocp s \<noteq> []"
    then show ?thesis using live_count [OF l] by (auto simp: live_def)
  next
    assume d: "dead (1 + length es) k s"
    then obtain j where j: "j \<le> 1 + length es" "m_ioCount (cl_session s) = r_flag + of_nat j" by (auto simp: dead_def)
    have x: "unat (of_nat j :: u64) = j" using j assms(3) by (subst unat_of_nat) simp
    then have "unat (r_flag + of_nat j) = 2 ^ 47 + j" using j assms(3) r_flag_unat by (subst iffD1 [OF unat_add_lem]) simp_all
    then show ?thesis using d j(2) by (simp add: dead_def)
  qed
qed

theorem client_count_exact_witness:
  "\<exists>s. cl_run [CliPort, CliOpen sample_cl_input, CliReceive sample_cl_input, CliEnter, CliWork sample_cl_input (ClPost 0) []] (new_lan_client True [0, 0, 0, 0]) = Some s \<and>
    map fst (cl_hash s) = [m_SeqID (cl_session s)] \<and>
    count_list (cl_iocp s) ClRecv \<le> 1 \<and> count_list (cl_iocp s) ClSend \<le> 1 \<and>
    (if ClReleasePost \<in> set (cl_iocp s)
     then cl_iocp s = [ClReleasePost] \<and> 2 ^ 47 \<le> unat (m_ioCount (cl_session s))
     else cl_iocp s \<noteq> [] \<and> unat (m_ioCount (cl_session s)) = length (cl_iocp s))"
proof -
  obtain s1 where s1: "cl_run [CliPort, CliOpen sample_cl_input, CliReceive sample_cl_input, CliEnter] (new_lan_client True [0, 0, 0, 0]) = Some s1" "logging_in s1"
    using sample_connects [of "[0, 0, 0, 0]"] by auto
  obtain s2 where s2: "cl_do (CliWork sample_cl_input (ClPost 0) []) s1 = Some s2" "login_queued s2" using sample_client_login [OF s1(2)] by blast
  have r: "cl_run [CliPort, CliOpen sample_cl_input, CliReceive sample_cl_input, CliEnter, CliWork sample_cl_input (ClPost 0) []] (new_lan_client True [0, 0, 0, 0]) = Some s2"
    using cl_run_then [OF s1(1) cl_run_step [OF s2(1) cl_run.simps(1)]] by (simp only: append.simps)
  have n: "\<not> packet_refused s2" using s2(2) by (auto simp: login_queued_def packet_refused_def)
  have "list_all working [CliWork sample_cl_input (ClPost 0) []]" "length [CliWork sample_cl_input (ClPost 0) []] < 2 ^ 40" by simp_all
  note c = client_count_exact [OF r this n]
  show ?thesis by (rule exI [of _ s2], rule conjI [OF r c])
qed

section \<open>A client that has fallen silent\<close>

text \<open>
  C32: When the send flag of the session is set and no send is pending, whatever happens next, the flag stays set and the
  client never asks for a send again: neither the release of the session nor a new connection clears the flag.
\<close>

theorem client_mute_forever:
  assumes "m_flag (cl_session s) = 1" "ClSend \<notin> set (cl_iocp s)" "cl_run es s = Some s'"
  shows "m_flag (cl_session s') = 1 \<and> ClSend \<notin> set (cl_iocp s') \<and> sends s' = sends s"
  using cl_run_quiet [OF assms(3)] assms(1,2) by (simp add: quiet_def muted_def)

text \<open>A client whose first send has failed; the other side closes, and the client connects again.\<close>

theorem client_mute_forever_witness:
  "\<exists>s s'. cl_run [CliPort, CliOpen sample_cl_input, CliReceive sample_cl_input, CliEnter, CliWork sample_cl_input (ClPost 0) [], CliWork failed_cl_input ClSend []]
      (new_lan_client True [0, 0, 0, 0]) = Some s \<and>
    cl_run [CliWork sample_cl_input ClRecv [], CliWork sample_cl_input ClReleasePost []] s = Some s' \<and>
    m_flag (cl_session s') = 1 \<and> ClSend \<notin> set (cl_iocp s') \<and> sends s' = sends s"
proof -
  obtain s1 where s1: "cl_run [CliPort, CliOpen sample_cl_input, CliReceive sample_cl_input, CliEnter] (new_lan_client True [0, 0, 0, 0]) = Some s1" "logging_in s1"
    using sample_connects [of "[0, 0, 0, 0]"] by auto
  obtain s2 where s2: "cl_do (CliWork sample_cl_input (ClPost 0) []) s1 = Some s2" "login_queued s2" using sample_client_login [OF s1(2)] by blast
  obtain s3 where s3: "cl_do (CliWork failed_cl_input ClSend []) s2 = Some s3" "send_failed s3" using sample_send_fails [OF s2(2)] by blast
  obtain s4 where s4: "cl_do (CliWork sample_cl_input ClRecv []) s3 = Some s4" "released s4" using sample_closed [OF s3(2)] by blast
  obtain s5 where s5: "cl_do (CliWork sample_cl_input ClReleasePost []) s4 = Some s5" using sample_reconnects [OF s4(2)] by blast
  have "cl_run [CliPort, CliOpen sample_cl_input, CliReceive sample_cl_input, CliEnter, CliWork sample_cl_input (ClPost 0) [], CliWork failed_cl_input ClSend []]
      (new_lan_client True [0, 0, 0, 0]) = Some s3"
    using cl_run_then [OF s1(1) cl_run_step [OF s2(1) cl_run_step [OF s3(1) cl_run.simps(1)]]] by (simp only: append.simps)
  moreover have "cl_run [CliWork sample_cl_input ClRecv [], CliWork sample_cl_input ClReleasePost []] s3 = Some s5"
    by (rule cl_run_step [OF s4(1) cl_run_step [OF s5 cl_run.simps(1)]])
  moreover note client_mute_forever [OF _ _ this]
  ultimately show ?thesis using send_failed_muted [OF s3(2)] by blast
qed

section \<open>A refused packet\<close>

text \<open>A connection made while a thread still works for the old one: its receive, and one of two messages more to come.\<close>

lemma reconnected:
  assumes p: "cl_port s" and r: "ReConnect inp s = Some s'"
  obtains new where "cl_iocp s' = cl_iocp s @ new" "1 \<le> length new" "length new \<le> 2" "unat (m_ioCount (cl_session s')) = length new"
    "cl_port s'"
proof -
  let ?k = "cl_seqID s + 1"
  obtain sock s1 where s1: "OnEnterJoinServer ?k (cl_RecvPacket inp (session_open sock 1 s)) = Some s1" "s' = cl_io (-1) s1"
    using ReConnect_connected [OF r] by blast
  let ?c = "session_open sock 1 s" and ?r = "cl_RecvPacket inp (session_open sock 1 s)"
  have c: "cl_port ?c" "cl_iocp ?c = cl_iocp s" "m_ioCount (cl_session ?c) = 1" "m_SeqID (cl_session ?c) = ?k"
    using p(1) by (simp_all add: session_open_def client_defs)
  have rp: "cl_port ?r \<and> m_SeqID (cl_session ?r) = ?k \<and>
      (cl_iocp ?r = cl_iocp s \<and> m_ioCount (cl_session ?r) = 1 \<or> cl_iocp ?r = cl_iocp s @ [ClRecv] \<and> m_ioCount (cl_session ?r) = 2)"
    using c by (auto simp: cl_RecvPacket_def Let_def cl_WSARecvError_def submitted_def client_defs split: wsa_result.split)
  obtain p s0 where a: "cl_player_Alloc ?k ?r = (p, s0)" by (cases "cl_player_Alloc ?k ?r")
  let ?s2 = "if map_of (cl_hash s0) ?k = None then s0\<lparr>cl_hash := (?k, p) # cl_hash s0\<rparr> else s0"
  have v0: "cl_port s0 = cl_port ?r" "cl_session s0 = cl_session ?r" "cl_iocp s0 = cl_iocp ?r"
    using a by (auto simp: cl_player_Alloc_def split: list.splits)
  then have v: "cl_port ?s2 = cl_port ?r" "cl_session ?s2 = cl_session ?r" "cl_iocp ?s2 = cl_iocp ?r" by simp_all
  have m: "cl_post_message ?k [word_bytes 2 cl_en_PACKET_SS_MONITOR_LOGIN, word_bytes 4 (11 :: u32)] ?s2 = Some s1"
    using s1(1) unfolding OnEnterJoinServer_def a by simp
  obtain n s3 where s3: "io_view s3 = io_view ?s2" "cl_PostReQuest_iocp ?k n s3 = Some s1" using cl_post_message_posts [OF m] by blast
  have k3: "m_SeqID (cl_session s3) = ?k" "cl_iocp s3 = cl_iocp ?r" "m_ioCount (cl_session s3) = m_ioCount (cl_session ?r)" "cl_port s3"
    using s3(1) v rp by (simp_all add: io_view_def)
  have "s1 = cl_post (ClPost n) (cl_io 1 (cl_set_msg n ((cl_heap s3 ! n)\<lparr>msg_owner := ?k\<rparr>) s3))"
    using cl_PostReQuest_posts [of s3 ?k n] s3(2) k3 rp by auto
  then have "cl_iocp s' = cl_iocp ?r @ [ClPost n]" "m_ioCount (cl_session s') = m_ioCount (cl_session ?r)" "cl_port s'"
    using s1(2) k3 by (simp_all add: client_defs)
  then show ?thesis using rp that [of "[ClPost n]"] that [of "[ClRecv, ClPost n]"] by auto
qed

text \<open>
  C33: When \<^verbatim>\<open>Disconnect\<close> is called for the session by a thread that handles one of its packets, it connects again at
  once, and the count starts anew: it is the number of the new connection's completions, one or two, while those of the
  old connection are still to come and the thread still holds its reference. With one, the end of this very completion
  posts the release, although at least that one is to come.
\<close>

theorem refused_packet_miscounts:
  assumes "live N (Suc d) [k] k s" "cl_Disconnect inp k s = Some s'"
  shows "\<exists>new. cl_iocp s' = cl_iocp s @ new \<and> 1 \<le> length new \<and> length new \<le> 2 \<and> unat (m_ioCount (cl_session s')) = length new \<and>
    (length new = 1 \<longrightarrow> (\<exists>s''. cl_io_done s' = Some s'' \<and> cl_iocp s'' = cl_iocp s @ new @ [ClReleasePost]))"
proof -
  have l: "cl_port s" "map fst (cl_hash s) = [k]" "m_SeqID (cl_session s) = k" using assms(1) by (simp_all add: live_def)
  then obtain p where h: "cl_hash s = [(k, p)]" by auto
  let ?s1 = "cl_os (ClClose (m_sock (cl_session s))) (cl_os (ClDisconnect k) s)"
  have "ReConnect inp (?s1\<lparr>cl_hash := [], cl_player_free := p # cl_player_free s\<rparr>) = Some s'"
    using assms(2) l(3) h by (simp add: cl_Disconnect_def OnLeaveServer_def client_defs)
  from reconnected [OF _ this] obtain new where new: "cl_iocp s' = cl_iocp s @ new" "1 \<le> length new" "length new \<le> 2"
      "unat (m_ioCount (cl_session s')) = length new" "cl_port s'"
    using l(1) by (auto simp: client_defs)
  have "\<exists>s''. cl_io_done s' = Some s'' \<and> cl_iocp s'' = cl_iocp s @ new @ [ClReleasePost]" if "length new = 1"
  proof -
    have "m_ioCount (cl_session s') = 1" using new(4) that by (simp add: word_unat_eq_iff)
    then show ?thesis using new(1,5)
      by (simp add: cl_io_done_def Let_def cl_release_if_zero_def cl_ReleaseSession_def client_defs)
  qed
  then show ?thesis using new by blast
qed

text \<open>The login of the monitor is handled while the receive is pending, and the packet is refused.\<close>

definition handling_client :: lan_client where
  "handling_client =
     (new_lan_client True [0, 0, 0, 0])\<lparr>cl_port := True, cl_seqID := 1, cl_iocp := [ClRecv], cl_hash := [(1, 0)], cl_players := [1],
        cl_session := (new_clsSession [0, 0, 0, 0])\<lparr>m_sock := 7, m_SeqID := 1, m_ioCount := 2, m_blive := 1\<rparr>\<rparr>"

theorem refused_packet_miscounts_witness:
  "\<exists>new s'. cl_Disconnect sample_cl_input 1 handling_client = Some s' \<and> cl_iocp s' = ClRecv # new \<and>
    1 \<le> length new \<and> length new \<le> 2 \<and> unat (m_ioCount (cl_session s')) = length new \<and>
    (length new = 1 \<longrightarrow> (\<exists>s''. cl_io_done s' = Some s'' \<and> cl_iocp s'' = [ClRecv] @ new @ [ClReleasePost]))"
proof -
  have l: "live 0 (Suc 0) [1] 1 handling_client"
    by (simp add: live_def handling_client_def new_lan_client_def posts_def)
  let ?parts = "[word_bytes 2 cl_en_PACKET_SS_MONITOR_LOGIN, word_bytes 4 (11 :: u32)]"
  let ?m0 = "InitMessage (new_CClientMessage (node_addr 0))"
  have b0: "building (?m0\<lparr>msg_owner := 2\<rparr>) 30 []"
    using building_InitMessage [of "new_CClientMessage (node_addr 0)"] new_CClientMessage_ok [of 0] by (simp add: building_owner)
  obtain m1 where m1: "msg_shl_all ?parts (?m0\<lparr>msg_owner := 2\<rparr>) = Inr m1"
    using msg_shl_all_building [OF b0, of ?parts] by (auto simp: bufferSize_def simp del: msg_shl_all.simps)
  have a: "(3 :: u64) AND r_flag = 0" by (rule AND_r_flag_small) simp
  obtain s' where "cl_Disconnect sample_cl_input 1 handling_client = Some s'"
    using m1 a nothing_received(5) [of "[0, 0, 0, 0]"]
    by (simp add: handling_client_def cl_Disconnect_def new_lan_client_def OnLeaveServer_def ReConnect_def
        new_clsSession_def new_ring sample_cl_input_def cl_RecvPacket_def Let_def client_defs wsa_now_def submitted_def OnEnterJoinServer_def
        cl_player_Alloc_def cl_post_message_def cl_Alloc_def cl_PostReQuest_iocp_def cl_SessionLock_def cl_SessionUnLock_def
        cl_release_if_zero_def del: msg_shl_all.simps)
  moreover have "cl_iocp handling_client = [ClRecv]" by (simp add: handling_client_def)
  ultimately show ?thesis using refused_packet_miscounts [OF l, of sample_cl_input s'] by auto
qed

section \<open>A tick too early\<close>

text \<open>
  The timer thread starts with the client. A report it makes while the count is zero takes the count from zero to one
  and back, and posts the release of the session.
\<close>

lemma tick_at_zero:
  assumes z: "cl_pool_ok s" "cl_port s" "cl_iocp s = []" "m_ioCount (cl_session s) = 0" "snd (cl_tick s) = []"
  shows "\<exists>s'. cl_run [CliTimer data totals, CliTimer data totals] s = Some s' \<and> cl_iocp s' = [ClReleasePost] \<and> cl_hash s' = cl_hash s \<and>
    cl_session s' = (cl_session s)\<lparr>m_ioCount := r_flag\<rparr> \<and> cl_conn s' = cl_conn s \<and> cl_port s'"
proof -
  let ?i = "tick_items data" and ?k = "m_SeqID (cl_session s)"
  obtain r rs where items: "?i = r # rs" by (cases ?i) (simp_all add: tick_items_def)
  let ?s1 = "s\<lparr>cl_tick := (?k, rs)\<rparr>"
  have fits: "length (concat (report_fields (tick_report totals r))) \<le> bufferSize"
    using report_payload_length by (simp add: report_payload_def bufferSize_def)
  have "cl_pool_ok ?s1" using z(1) by (simp add: cl_pool_ok_def)
  then obtain n s0 m where p: "io_view s0 = io_view ?s1" "cl_post_message ?k (report_fields (tick_report totals r)) ?s1 = cl_PostReQuest_iocp ?k n s0"
      "n < length (cl_heap s0)" "cl_heap s0 ! n = m" "building m 30 (concat (report_fields (tick_report totals r)))"
      "cl_session s0 = cl_session ?s1" "cl_conn s0 = cl_conn ?s1"
    using cl_post_message_spec [OF _ fits] by metis
  let ?s2 = "cl_post ClReleasePost (upd_cs (m_ioCount_update (\<lambda>_. r_flag)) s0)"
  have port: "cl_port s0" "cl_iocp s0 = []" "cl_hash s0 = cl_hash s" "m_ioCount (cl_session s0) = 0" "m_SeqID (cl_session s0) = ?k"
    using p(1,6) z(2-4) by (simp_all add: io_view_def)
  have lock: "cl_SessionLock ?k s0 = Some (False, ?s2)"
    using port AND_r_flag_small [of 1] by (simp add: cl_SessionLock_def Let_def cl_release_if_zero_def cl_ReleaseSession_def client_defs)
  have use: "msg_use m = 1" "n < length (cl_heap ?s2)" "cl_heap ?s2 ! n = m" using p(3,4,5) by (simp_all add: building_def client_defs)
  then obtain s3 where s3: "cl_Release n ?s2 = Some s3" by (auto simp: cl_Release_def Let_def)
  then have v: "io_view s3 = io_view ?s2" and q: "cl_session s3 = cl_session ?s2" "cl_conn s3 = cl_conn ?s2"
    by (rule cl_Release_view) (use s3 in \<open>auto simp: cl_Release_def Let_def split: if_splits\<close>)
  have "cl_run [CliTimer data totals, CliTimer data totals] s = Some s3"
    using items p(2) lock s3 z(5) by (cases "cl_tick s") (simp add: TimerThread_step_def cl_PostReQuest_iocp_def)
  moreover have "cl_iocp s3 = [ClReleasePost]" "cl_hash s3 = cl_hash s" "cl_port s3" using v port by (simp_all add: io_view_def client_defs)
  moreover have "cl_session s3 = (cl_session s)\<lparr>m_ioCount := r_flag\<rparr>" "cl_conn s3 = cl_conn s" using q p(6,7) by (simp_all add: client_defs)
  ultimately show ?thesis by blast
qed

text \<open>The worker thread that takes the release looks the session up in the empty table, and uses the end of it.\<close>

lemma early_release_crashes:
  assumes "cl_hash s = []" "cl_iocp s = [ClReleasePost]" "m_sendBuffer (cl_session s) = []" "m_msgs (cl_session s) = []"
  shows "cl_run [CliWork inp ClReleasePost []] s = None"
  using assms by (simp add: cl_WorkerThread_step_def cl_ReleaseComplete_def cl_Session_Release_def OnLeaveServer_def client_defs)

theorem tick_before_connection_crashes:
  "\<exists>s. cl_run [CliPort, CliTimer data totals, CliTimer data totals] (new_lan_client encode junk) = Some s \<and>
    cl_run [CliWork inp ClReleasePost []] s = None"
proof -
  let ?s0 = "Connect_port (new_lan_client encode junk)"
  have z: "cl_pool_ok ?s0" "cl_port ?s0" "cl_iocp ?s0 = []" "m_ioCount (cl_session ?s0) = 0" "snd (cl_tick ?s0) = []" "cl_hash ?s0 = []"
    "m_sendBuffer (cl_session ?s0) = []" "m_msgs (cl_session ?s0) = []"
    by (simp_all add: cl_pool_ok_def Connect_port_def new_lan_client_def new_clsSession_def)
  obtain s where s: "cl_run [CliTimer data totals, CliTimer data totals] ?s0 = Some s" "cl_iocp s = [ClReleasePost]" "cl_hash s = []"
      "cl_session s = (cl_session ?s0)\<lparr>m_ioCount := r_flag\<rparr>"
    using tick_at_zero [OF z(1-5)] z(6) by metis
  have "cl_run [CliPort, CliTimer data totals, CliTimer data totals] (new_lan_client encode junk) = Some s"
    using cl_run_step [OF cl_do.simps(1) s(1)] .
  then show ?thesis using early_release_crashes [of s] s(2-4) z(7,8) by (intro exI [of _ s]) simp
qed

text \<open>
  The same inside \<^verbatim>\<open>Connect\<close>, which publishes the identifier and a count of zero before its receive counts: the release
  is posted first, and the receive and the entry into the table come after it; if the worker thread takes the release
  before the entry, it uses the end of the table.
\<close>

theorem tick_inside_connection:
  assumes "ci_sock inp = Some sock" "ci_tries inp = Some 0" "\<And>i. ci_wsa inp i = WsaOk" "2 \<le> length junk"
  shows "\<exists>s. cl_run [CliPort, CliOpen inp, CliTimer data totals, CliTimer data totals] (new_lan_client encode junk) = Some s \<and>
    (\<exists>s'. cl_run [CliReceive inp] s = Some s' \<and> cl_iocp s' = [ClReleasePost, ClRecv] \<and> 2 ^ 47 \<le> unat (m_ioCount (cl_session s'))) \<and>
    cl_run [CliWork inp2 ClReleasePost []] s = None"
proof -
  let ?s0 = "Connect_port (new_lan_client encode junk)"
  obtain s1 where s1: "Connect_open inp ?s0 = Some s1" "cl_conn ?s0 = NotConnecting" "cl_conn s1 = Published (m_SeqID (cl_session s1))"
      "cl_session s1 = (new_clsSession junk)\<lparr>m_sock := sock, m_blive := 1, m_SeqID := m_SeqID (cl_session s1)\<rparr>" "cl_hash s1 = []"
    and z: "cl_pool_ok s1" "cl_port s1" "cl_iocp s1 = []" "m_ioCount (cl_session s1) = 0" "snd (cl_tick s1) = []"
    using assms(1,2) by (auto simp: Connect_open_def Connect_port_def new_lan_client_def client_defs new_clsSession_def cl_pool_ok_def)
  obtain s where s: "cl_run [CliTimer data totals, CliTimer data totals] s1 = Some s" "cl_iocp s = [ClReleasePost]" "cl_hash s = []"
      "cl_session s = (cl_session s1)\<lparr>m_ioCount := r_flag\<rparr>" "cl_conn s = cl_conn s1" "cl_port s"
    using tick_at_zero [OF z] s1(5) by metis
  have "cl_do (CliOpen inp) ?s0 = Some s1" using s1(1,2) by simp
  then have "cl_run [CliPort, CliOpen inp, CliTimer data totals, CliTimer data totals] (new_lan_client encode junk) = Some s"
    by (intro cl_run_step [OF cl_do.simps(1)] cl_run_step [OF _ s(1)])
  moreover have b: "m_recvBuffer (cl_session s) = new_CRingBuffer junk" "m_blive (cl_session s) = 1" "m_sendBuffer (cl_session s) = []"
      "m_msgs (cl_session s) = []" "m_ioCount (cl_session s) = r_flag"
    unfolding s(4) by (subst s1(4), simp add: new_clsSession_def)+
  have "cl_iocp (Connect_receive inp s) = [ClReleasePost, ClRecv] \<and> m_ioCount (cl_session (Connect_receive inp s)) = r_flag + 1"
    using b(1,2,5) s(2,5,6) s1(3) assms(3) nothing_received(5) [OF assms(4)]
    by (simp add: Connect_receive_def cl_RecvPacket_def Let_def wsa_now_def submitted_def client_defs new_ring)
  moreover have "unat (r_flag + 1) = 2 ^ 47 + 1" using r_flag_unat by (subst iffD1 [OF unat_add_lem]) simp_all
  moreover have "cl_run [CliWork inp2 ClReleasePost []] s = None" using early_release_crashes [OF s(3,2) b(3,4)] .
  ultimately show ?thesis by (intro exI [of _ s]) simp
qed

end
