(* ===== verification/LockGuard.thy ===== *)
theory LockGuard
  imports Prelude
begin

text \<open>
  \<^verbatim>\<open>DeadLockGuard\<close> (\<^verbatim>\<open>utility/DeadLockGuard/DeadLockGuard_lib\<close>), the lock that the servers use in a debugging
  build: before a thread asks for a \<^verbatim>\<open>std::shared_mutex\<close> it looks the lock up in its own record, and when it holds
  the lock already, or gives back one it does not hold, it wakes the thread that writes a report and sleeps for ever.
  The report is written while the registered threads are suspended wherever they are, so each write a call makes to
  its record and each operation on the mutex is a step of its own; an operation of \<^verbatim>\<open>std::vector\<close> is one step. Locks are
  numbered, threads are indices.
\<close>

section \<open>Mutexes and records\<close>

text \<open>\<^verbatim>\<open>stTlsLockInfo\<close>\<close>

record stTlsLockInfo =
  waitLock :: "nat option"
  holding :: "nat list"
  shared_holding :: "nat list"
  li_size :: int
  li_shared_size :: int

definition new_stTlsLockInfo :: stTlsLockInfo where
  "new_stTlsLockInfo = \<lparr>waitLock = None, holding = [], shared_holding = [], li_size = 0, li_shared_size = 0\<rparr>"

text \<open>
  Where a thread stands in \<^verbatim>\<open>lock\<close>: before \<^verbatim>\<open>m.lock()\<close>, before it clears \<^verbatim>\<open>waitLock\<close>, before \<^verbatim>\<open>push_back\<close> and before
  \<^verbatim>\<open>_size++\<close>; in \<^verbatim>\<open>unlock\<close>: before \<^verbatim>\<open>_size--\<close> and before \<^verbatim>\<open>m.unlock()\<close>; the same for shared locks; or asleep in
  \<^verbatim>\<open>RequestCreateLogFile_And_Debugbreak\<close>.
\<close>

datatype guard_pc = Running | WaitX nat | GotX nat | NoteX nat | CountX nat | UncountX nat | DropX nat
  | WaitS nat | GotS nat | NoteS nat | CountS nat | UncountS nat | DropS nat | Asleep

datatype guard_call = CallLock nat | CallUnlock nat | CallLockShared nat | CallUnlockShared nat | CallRegister

text \<open>
  \<open>owner\<close> and \<open>readers\<close> are who has a mutex, \<open>log_requested\<close> is the event of the manager, \<open>enrolled\<close> are the threads
  whose record its \<^verbatim>\<open>LockInfos\<close> has.
\<close>

record lock_guards =
  owner :: "nat \<Rightarrow> nat option"
  readers :: "nat \<Rightarrow> nat list"
  LockInfos :: "stTlsLockInfo list"
  guard_pcs :: "guard_pc list"
  enrolled :: "nat set"
  log_requested :: bool

definition new_lock_guards :: "nat \<Rightarrow> lock_guards" where
  "new_lock_guards n =
     \<lparr>owner = (\<lambda>m. None), readers = (\<lambda>m. []), LockInfos = replicate n new_stTlsLockInfo, guard_pcs = replicate n Running,
      enrolled = {}, log_requested = False\<rparr>"

text \<open>
  What a step of a thread does: it moves, it has to wait, or it does to a mutex what the standard leaves undefined:
  asking for one the thread has, or giving back one it does not have.
\<close>

datatype guard_outcome = Moves lock_guards | Blocked | Undefined

definition goes :: "nat \<Rightarrow> guard_pc \<Rightarrow> lock_guards \<Rightarrow> lock_guards" where
  "goes i pc s = s\<lparr>guard_pcs := (guard_pcs s)[i := pc]\<rparr>"

definition upd_info :: "nat \<Rightarrow> (stTlsLockInfo \<Rightarrow> stTlsLockInfo) \<Rightarrow> lock_guards \<Rightarrow> lock_guards" where
  "upd_info i f s = s\<lparr>LockInfos := (LockInfos s)[i := f (LockInfos s ! i)]\<rparr>"

definition owns :: "nat \<Rightarrow> nat \<Rightarrow> lock_guards \<Rightarrow> bool" where
  "owns i m s \<longleftrightarrow> owner s m = Some i \<or> i \<in> set (readers s m)"

definition RequestCreateLogFile_And_Debugbreak :: "nat \<Rightarrow> lock_guards \<Rightarrow> lock_guards" where
  "RequestCreateLogFile_And_Debugbreak i s = goes i Asleep (s\<lparr>log_requested := True\<rparr>)"

section \<open>The four operations\<close>

text \<open>The lookup at the beginning of \<^verbatim>\<open>lock\<close> and of \<^verbatim>\<open>lock_shared\<close>.\<close>

definition guard_ask :: "nat \<Rightarrow> nat \<Rightarrow> guard_pc \<Rightarrow> lock_guards \<Rightarrow> lock_guards" where
  "guard_ask i m pc s =
     (let s1 = upd_info i (waitLock_update (\<lambda>_. Some m)) s; info = LockInfos s1 ! i
      in if m \<in> set (shared_holding info) \<or> m \<in> set (holding info) then RequestCreateLogFile_And_Debugbreak i s1
         else goes i pc s1)"

text \<open>The beginning of \<^verbatim>\<open>unlock\<close> and of \<^verbatim>\<open>unlock_shared\<close>: \<^verbatim>\<open>erase\<close> takes out the first entry.\<close>

definition guard_drop :: "nat \<Rightarrow> nat \<Rightarrow> lock_guards \<Rightarrow> lock_guards" where
  "guard_drop i m s =
     (if m \<in> set (holding (LockInfos s ! i))
      then goes i (UncountX m) (upd_info i (\<lambda>x. x\<lparr>holding := remove1 m (holding x)\<rparr>) s)
      else RequestCreateLogFile_And_Debugbreak i s)"

definition guard_drop_shared :: "nat \<Rightarrow> nat \<Rightarrow> lock_guards \<Rightarrow> lock_guards" where
  "guard_drop_shared i m s =
     (if m \<in> set (shared_holding (LockInfos s ! i))
      then goes i (UncountS m) (upd_info i (\<lambda>x. x\<lparr>shared_holding := remove1 m (shared_holding x)\<rparr>) s)
      else RequestCreateLogFile_And_Debugbreak i s)"

definition RegisterTlsInfoAndHandle :: "nat \<Rightarrow> lock_guards \<Rightarrow> lock_guards" where
  "RegisterTlsInfoAndHandle i s = s\<lparr>enrolled := insert i (enrolled s)\<rparr>"

definition guard_begin :: "nat \<Rightarrow> guard_call \<Rightarrow> lock_guards \<Rightarrow> lock_guards" where
  "guard_begin i c s =
     (case c of
        CallLock m \<Rightarrow> guard_ask i m (WaitX m) s
      | CallUnlock m \<Rightarrow> guard_drop i m s
      | CallLockShared m \<Rightarrow> guard_ask i m (WaitS m) s
      | CallUnlockShared m \<Rightarrow> guard_drop_shared i m s
      | CallRegister \<Rightarrow> RegisterTlsInfoAndHandle i s)"

text \<open>One step of thread \<open>i\<close>; \<open>c\<close> is the call it makes next when it is in none.\<close>

definition guard_step :: "nat \<Rightarrow> guard_call \<Rightarrow> lock_guards \<Rightarrow> guard_outcome" where
  "guard_step i c s =
     (case guard_pcs s ! i of
        Running \<Rightarrow> Moves (guard_begin i c s)
      | WaitX m \<Rightarrow>
          (if owns i m s then Undefined
           else if owner s m \<noteq> None \<or> readers s m \<noteq> [] then Blocked
           else Moves (goes i (GotX m) (s\<lparr>owner := (owner s)(m := Some i)\<rparr>)))
      | GotX m \<Rightarrow> Moves (goes i (NoteX m) (upd_info i (waitLock_update (\<lambda>_. None)) s))
      | NoteX m \<Rightarrow> Moves (goes i (CountX m) (upd_info i (\<lambda>x. x\<lparr>holding := holding x @ [m]\<rparr>) s))
      | CountX m \<Rightarrow> Moves (goes i Running (upd_info i (\<lambda>x. x\<lparr>li_size := li_size x + 1\<rparr>) s))
      | UncountX m \<Rightarrow> Moves (goes i (DropX m) (upd_info i (\<lambda>x. x\<lparr>li_size := li_size x - 1\<rparr>) s))
      | DropX m \<Rightarrow>
          (if owner s m \<noteq> Some i then Undefined else Moves (goes i Running (s\<lparr>owner := (owner s)(m := None)\<rparr>)))
      | WaitS m \<Rightarrow>
          (if owns i m s then Undefined
           else if owner s m \<noteq> None then Blocked
           else Moves (goes i (GotS m) (s\<lparr>readers := (readers s)(m := i # readers s m)\<rparr>)))
      | GotS m \<Rightarrow> Moves (goes i (NoteS m) (upd_info i (waitLock_update (\<lambda>_. None)) s))
      | NoteS m \<Rightarrow> Moves (goes i (CountS m) (upd_info i (\<lambda>x. x\<lparr>shared_holding := shared_holding x @ [m]\<rparr>) s))
      | CountS m \<Rightarrow> Moves (goes i Running (upd_info i (\<lambda>x. x\<lparr>li_shared_size := li_shared_size x + 1\<rparr>) s))
      | UncountS m \<Rightarrow> Moves (goes i (DropS m) (upd_info i (\<lambda>x. x\<lparr>li_shared_size := li_shared_size x - 1\<rparr>) s))
      | DropS m \<Rightarrow>
          (if i \<notin> set (readers s m) then Undefined
           else Moves (goes i Running (s\<lparr>readers := (readers s)(m := remove1 i (readers s m))\<rparr>)))
      | Asleep \<Rightarrow> Blocked)"

text \<open>A run of the threads in any order; a thread that has to wait is passed over.\<close>

fun guard_run :: "(nat \<times> guard_call) list \<Rightarrow> lock_guards \<Rightarrow> lock_guards option" where
  "guard_run [] s = Some s"
| "guard_run ((i, c) # sched) s =
     (if length (guard_pcs s) \<le> i then guard_run sched s
      else case guard_step i c s of Moves s1 \<Rightarrow> guard_run sched s1 | Blocked \<Rightarrow> guard_run sched s | Undefined \<Rightarrow> None)"

text \<open>
  What \<^verbatim>\<open>WriteLog\<close> writes of a thread: it reads as many entries as the counts say, and \<open>None\<close> is a read behind the end
  of a vector. The report has the registered threads, in the order of their numbers here.
\<close>

definition info_WriteLog :: "stTlsLockInfo \<Rightarrow> (nat option \<times> nat list \<times> nat list) option" where
  "info_WriteLog x =
     (if int (length (holding x)) < li_size x \<or> int (length (shared_holding x)) < li_shared_size x then None
      else Some (waitLock x, take (nat (li_size x)) (holding x), take (nat (li_shared_size x)) (shared_holding x)))"

definition CreateLogFile_TlsInfo :: "lock_guards \<Rightarrow> (nat \<times> (nat option \<times> nat list \<times> nat list) option) list" where
  "CreateLogFile_TlsInfo s =
     map (\<lambda>i. (i, info_WriteLog (LockInfos s ! i))) (filter (\<lambda>i. i \<in> enrolled s) [0..<length (LockInfos s)])"

section \<open>The invariant\<close>

text \<open>The locks a thread has and its record does not show: between the two steps of taking or giving back.\<close>

fun between :: "guard_pc \<Rightarrow> nat option \<times> nat option" where
  "between (GotX m) = (Some m, None)"
| "between (NoteX m) = (Some m, None)"
| "between (UncountX m) = (Some m, None)"
| "between (DropX m) = (Some m, None)"
| "between (GotS m) = (None, Some m)"
| "between (NoteS m) = (None, Some m)"
| "between (UncountS m) = (None, Some m)"
| "between (DropS m) = (None, Some m)"
| "between pc = (None, None)"

text \<open>By how much the counts are ahead of the vectors.\<close>

fun ahead :: "guard_pc \<Rightarrow> int \<times> int" where
  "ahead (CountX m) = (- 1, 0)"
| "ahead (UncountX m) = (1, 0)"
| "ahead (CountS m) = (0, - 1)"
| "ahead (UncountS m) = (0, 1)"
| "ahead pc = (0, 0)"

definition info_ok :: "nat \<Rightarrow> lock_guards \<Rightarrow> bool" where
  "info_ok i s \<longleftrightarrow>
     (let x = LockInfos s ! i; pc = guard_pcs s ! i in
      distinct (holding x) \<and> distinct (shared_holding x) \<and> li_size x = int (length (holding x)) + fst (ahead pc) \<and>
      li_shared_size x = int (length (shared_holding x)) + snd (ahead pc) \<and>
      (\<forall>m. owner s m = Some i \<longleftrightarrow> m \<in> set (holding x) \<or> fst (between pc) = Some m) \<and>
      (\<forall>m. i \<in> set (readers s m) \<longleftrightarrow> m \<in> set (shared_holding x) \<or> snd (between pc) = Some m) \<and>
      (\<forall>m. fst (between pc) = Some m \<longrightarrow> m \<notin> set (holding x)) \<and> (\<forall>m. snd (between pc) = Some m \<longrightarrow> m \<notin> set (shared_holding x)) \<and>
      (case pc of WaitX m \<Rightarrow> \<not> owns i m s \<and> waitLock x = Some m | WaitS m \<Rightarrow> \<not> owns i m s \<and> waitLock x = Some m
       | GotX m \<Rightarrow> waitLock x = Some m | GotS m \<Rightarrow> waitLock x = Some m
       | CountX m \<Rightarrow> waitLock x = None \<and> holding x \<noteq> [] \<and> last (holding x) = m
       | CountS m \<Rightarrow> waitLock x = None \<and> shared_holding x \<noteq> [] \<and> last (shared_holding x) = m
       | Asleep \<Rightarrow> True | _ \<Rightarrow> waitLock x = None))"

definition guards_ok :: "lock_guards \<Rightarrow> bool" where
  "guards_ok s \<longleftrightarrow> length (LockInfos s) = length (guard_pcs s) \<and>
     (\<forall>m. distinct (readers s m) \<and> (owner s m \<noteq> None \<longrightarrow> readers s m = []) \<and>
        (\<forall>i. owns i m s \<longrightarrow> i < length (guard_pcs s))) \<and>
     (\<forall>i < length (guard_pcs s). info_ok i s)"

lemma info_ok_cong:
  "LockInfos s' ! j = LockInfos s ! j \<Longrightarrow> guard_pcs s' ! j = guard_pcs s ! j \<Longrightarrow>
   (\<And>m. owner s' m = Some j \<longleftrightarrow> owner s m = Some j) \<Longrightarrow> (\<And>m. j \<in> set (readers s' m) \<longleftrightarrow> j \<in> set (readers s m)) \<Longrightarrow>
   info_ok j s' = info_ok j s"
  by (simp add: info_ok_def owns_def Let_def split: guard_pc.split)

text \<open>A step of thread \<open>i\<close> changes its own record and its own ownership only.\<close>

lemma guards_ok_by:
  assumes ok: "guards_ok s" and i: "i < length (guard_pcs s)"
    and at: "LockInfos s' = (LockInfos s)[i := x]" "guard_pcs s' = (guard_pcs s)[i := pc]"
    and others: "\<And>j m. j \<noteq> i \<Longrightarrow> owner s' m = Some j \<longleftrightarrow> owner s m = Some j" "\<And>j m. j \<noteq> i \<Longrightarrow> j \<in> set (readers s' m) \<longleftrightarrow> j \<in> set (readers s m)"
    and mutex: "\<And>m. distinct (readers s' m) \<and> (owner s' m \<noteq> None \<longrightarrow> readers s' m = [])" and own: "info_ok i s'"
  shows "guards_ok s'"
proof -
  have "info_ok j s'" if "j < length (guard_pcs s)" for j
  proof (cases "j = i")
    case False
    then have "info_ok j s' = info_ok j s" using at others by (intro info_ok_cong) simp_all
    then show ?thesis using ok that by (simp add: guards_ok_def)
  qed (use own in simp)
  moreover have "j < length (guard_pcs s)" if "owns j m s'" for j m
  proof (cases "j = i")
    case False
    then have "owns j m s" using that others by (auto simp: owns_def)
    then show ?thesis using ok by (simp add: guards_ok_def)
  qed (use i in simp)
  ultimately show ?thesis using ok at mutex by (simp add: guards_ok_def)
qed

lemma info_ok_owner:
  "info_ok i s \<Longrightarrow> owner s m = Some i \<longleftrightarrow> m \<in> set (holding (LockInfos s ! i)) \<or> fst (between (guard_pcs s ! i)) = Some m"
  "info_ok i s \<Longrightarrow> i \<in> set (readers s m) \<longleftrightarrow> m \<in> set (shared_holding (LockInfos s ! i)) \<or> snd (between (guard_pcs s ! i)) = Some m"
  by (simp_all add: info_ok_def Let_def)

lemma new_lock_guards_ok: "guards_ok (new_lock_guards n)"
  by (simp add: guards_ok_def new_lock_guards_def owns_def info_ok_def new_stTlsLockInfo_def)

lemmas guard_defs = goes_def upd_info_def RequestCreateLogFile_And_Debugbreak_def

lemma infos_length: "guards_ok s \<Longrightarrow> length (LockInfos s) = length (guard_pcs s)"
  by (simp add: guards_ok_def)

lemma guards_ok_info: "guards_ok s \<Longrightarrow> i < length (guard_pcs s) \<Longrightarrow> info_ok i s"
  by (simp add: guards_ok_def)

lemma guards_ok_mutex: "guards_ok s \<Longrightarrow> distinct (readers s m) \<and> (owner s m \<noteq> None \<longrightarrow> readers s m = [])"
  by (simp add: guards_ok_def)

lemma int_length_remove1: "m \<in> set xs \<Longrightarrow> int (length (remove1 m xs)) = int (length xs) - 1"
  using of_nat_diff [of 1 "length xs", where 'a = int] length_pos_if_in_set [of m xs] by (simp add: length_remove1 Suc_le_eq)

lemma guard_begin_ok:
  assumes ok: "guards_ok s" and i: "i < length (guard_pcs s)" and pc: "guard_pcs s ! i = Running"
  shows "guards_ok (guard_begin i c s)"
proof -
  note own = guards_ok_info [OF ok i] and len = infos_length [OF ok]
  have ask: "guards_ok (guard_ask i m pc' s)" if "pc' = WaitX m \<or> pc' = WaitS m" for m pc'
  proof (rule guards_ok_by [OF ok i])
    let ?x = "(LockInfos s ! i)\<lparr>waitLock := Some m\<rparr>"
    let ?pc = "if m \<in> set (shared_holding (LockInfos s ! i)) \<or> m \<in> set (holding (LockInfos s ! i)) then Asleep else pc'"
    show "LockInfos (guard_ask i m pc' s) = (LockInfos s)[i := ?x]" "guard_pcs (guard_ask i m pc' s) = (guard_pcs s)[i := ?pc]"
      using i len by (simp_all add: guard_ask_def guard_defs Let_def)
    show "info_ok i (guard_ask i m pc' s)"
      using own pc i len that by (auto simp: guard_ask_def guard_defs Let_def info_ok_def owns_def)
  qed (use guards_ok_mutex [OF ok] in \<open>auto simp: guard_ask_def guard_defs Let_def\<close>)
  have drop: "guards_ok (guard_drop i m s)" for m
  proof (rule guards_ok_by [OF ok i])
    let ?held = "m \<in> set (holding (LockInfos s ! i))"
    let ?x = "if ?held then (LockInfos s ! i)\<lparr>holding := remove1 m (holding (LockInfos s ! i))\<rparr> else LockInfos s ! i"
    show "LockInfos (guard_drop i m s) = (LockInfos s)[i := ?x]" "guard_pcs (guard_drop i m s) = (guard_pcs s)[i := if ?held then UncountX m else Asleep]"
      by (simp_all add: guard_drop_def guard_defs)
    show "info_ok i (guard_drop i m s)"
      using own pc i len by (auto simp: guard_drop_def guard_defs Let_def info_ok_def owns_def int_length_remove1)
  qed (use guards_ok_mutex [OF ok] in \<open>auto simp: guard_drop_def guard_defs\<close>)
  have drops: "guards_ok (guard_drop_shared i m s)" for m
  proof (rule guards_ok_by [OF ok i])
    let ?held = "m \<in> set (shared_holding (LockInfos s ! i))"
    let ?x = "if ?held then (LockInfos s ! i)\<lparr>shared_holding := remove1 m (shared_holding (LockInfos s ! i))\<rparr> else LockInfos s ! i"
    show "LockInfos (guard_drop_shared i m s) = (LockInfos s)[i := ?x]" "guard_pcs (guard_drop_shared i m s) = (guard_pcs s)[i := if ?held then UncountS m else Asleep]"
      by (simp_all add: guard_drop_shared_def RegisterTlsInfoAndHandle_def guard_defs)
    show "info_ok i (guard_drop_shared i m s)"
      using own pc i len by (auto simp: guard_drop_shared_def RegisterTlsInfoAndHandle_def guard_defs Let_def info_ok_def owns_def int_length_remove1)
  qed (use guards_ok_mutex [OF ok] in \<open>auto simp: guard_drop_shared_def RegisterTlsInfoAndHandle_def guard_defs\<close>)
  have "guards_ok (RegisterTlsInfoAndHandle i s)"
    using ok info_ok_cong [of "RegisterTlsInfoAndHandle i s" _ s] by (simp add: RegisterTlsInfoAndHandle_def guards_ok_def owns_def)
  then show ?thesis using ask drop drops by (simp add: guard_begin_def split: guard_call.split)
qed

lemma guard_step_ok:
  assumes ok: "guards_ok s" and i: "i < length (guard_pcs s)" and step: "guard_step i c s = Moves s'"
  shows "guards_ok s'"
proof -
  note own = guards_ok_info [OF ok i] and len = infos_length [OF ok] and mutex = guards_ok_mutex [OF ok]
  show ?thesis
  proof (cases "guard_pcs s ! i")
    case Running
    then show ?thesis using guard_begin_ok [OF ok i Running] step by (auto simp: guard_step_def)
  next
    case (WaitX m)
    then have s': "s' = goes i (GotX m) (s\<lparr>owner := (owner s)(m := Some i)\<rparr>)" "owner s m = None" "readers s m = []" "\<not> owns i m s"
      using step by (auto simp: guard_step_def split: if_splits)
    show ?thesis
    proof (rule guards_ok_by [OF ok i])
      show "LockInfos s' = (LockInfos s)[i := LockInfos s ! i]" "guard_pcs s' = (guard_pcs s)[i := GotX m]" by (simp_all add: s'(1) guard_defs)
      have "m \<notin> set (holding (LockInfos s ! i))" using info_ok_owner(1) [OF own, of m] s'(2) by simp
      then show "info_ok i s'" using own WaitX i s'(2-4) by (auto simp: s'(1) guard_defs info_ok_def owns_def Let_def)
    qed (use mutex s'(2,3) in \<open>auto simp: s'(1) guard_defs\<close>)
  next
    case (GotX m)
    then have s': "s' = goes i (NoteX m) (upd_info i (waitLock_update (\<lambda>_. None)) s)" using step by (simp add: guard_step_def)
    show ?thesis
    proof (rule guards_ok_by [OF ok i])
      show "LockInfos s' = (LockInfos s)[i := (waitLock_update (\<lambda>_. None)) (LockInfos s ! i)]" "guard_pcs s' = (guard_pcs s)[i := (NoteX m)]"
        by (simp_all add: s' guard_defs)
      show "info_ok i s'" using own GotX i len by (auto simp: s' guard_defs info_ok_def Let_def)
    qed (use mutex in \<open>auto simp: s' guard_defs\<close>)
  next
    case (NoteX m)
    then have s': "s' = goes i (CountX m) (upd_info i (\<lambda>x. x\<lparr>holding := holding x @ [m]\<rparr>) s)" using step by (simp add: guard_step_def)
    show ?thesis
    proof (rule guards_ok_by [OF ok i])
      show "LockInfos s' = (LockInfos s)[i := (\<lambda>x. x\<lparr>holding := holding x @ [m]\<rparr>) (LockInfos s ! i)]" "guard_pcs s' = (guard_pcs s)[i := (CountX m)]"
        by (simp_all add: s' guard_defs)
      show "info_ok i s'" using own NoteX i len by (auto simp: s' guard_defs info_ok_def Let_def)
    qed (use mutex in \<open>auto simp: s' guard_defs\<close>)
  next
    case (CountX m)
    then have s': "s' = goes i Running (upd_info i (\<lambda>x. x\<lparr>li_size := li_size x + 1\<rparr>) s)" using step by (simp add: guard_step_def)
    show ?thesis
    proof (rule guards_ok_by [OF ok i])
      show "LockInfos s' = (LockInfos s)[i := (\<lambda>x. x\<lparr>li_size := li_size x + 1\<rparr>) (LockInfos s ! i)]" "guard_pcs s' = (guard_pcs s)[i := Running]"
        by (simp_all add: s' guard_defs)
      show "info_ok i s'" using own CountX i len by (auto simp: s' guard_defs info_ok_def Let_def)
    qed (use mutex in \<open>auto simp: s' guard_defs\<close>)
  next
    case (UncountX m)
    then have s': "s' = goes i (DropX m) (upd_info i (\<lambda>x. x\<lparr>li_size := li_size x - 1\<rparr>) s)" using step by (simp add: guard_step_def)
    show ?thesis
    proof (rule guards_ok_by [OF ok i])
      show "LockInfos s' = (LockInfos s)[i := (\<lambda>x. x\<lparr>li_size := li_size x - 1\<rparr>) (LockInfos s ! i)]" "guard_pcs s' = (guard_pcs s)[i := (DropX m)]"
        by (simp_all add: s' guard_defs)
      show "info_ok i s'" using own UncountX i len by (auto simp: s' guard_defs info_ok_def Let_def)
    qed (use mutex in \<open>auto simp: s' guard_defs\<close>)
  next
    case (DropX m)
    then have s': "s' = goes i Running (s\<lparr>owner := (owner s)(m := None)\<rparr>)" "owner s m = Some i"
      using step by (auto simp: guard_step_def split: if_splits)
    show ?thesis
    proof (rule guards_ok_by [OF ok i])
      show "LockInfos s' = (LockInfos s)[i := LockInfos s ! i]" "guard_pcs s' = (guard_pcs s)[i := Running]" by (simp_all add: s'(1) guard_defs)
      show "info_ok i s'" using own DropX i s'(2) by (auto simp: s'(1) guard_defs info_ok_def Let_def)
    qed (use mutex s'(2) in \<open>auto simp: s'(1) guard_defs\<close>)
  next
    case (WaitS m)
    then have s': "s' = goes i (GotS m) (s\<lparr>readers := (readers s)(m := i # readers s m)\<rparr>)" "owner s m = None" "\<not> owns i m s"
      using step by (auto simp: guard_step_def split: if_splits)
    show ?thesis
    proof (rule guards_ok_by [OF ok i])
      show "LockInfos s' = (LockInfos s)[i := LockInfos s ! i]" "guard_pcs s' = (guard_pcs s)[i := GotS m]" by (simp_all add: s'(1) guard_defs)
      show "info_ok i s'" using own WaitS i s'(2,3) by (auto simp: s'(1) guard_defs info_ok_def owns_def Let_def)
    qed (use mutex s'(2,3) in \<open>auto simp: s'(1) guard_defs owns_def\<close>)
  next
    case (GotS m)
    then have s': "s' = goes i (NoteS m) (upd_info i (waitLock_update (\<lambda>_. None)) s)" using step by (simp add: guard_step_def)
    show ?thesis
    proof (rule guards_ok_by [OF ok i])
      show "LockInfos s' = (LockInfos s)[i := (waitLock_update (\<lambda>_. None)) (LockInfos s ! i)]" "guard_pcs s' = (guard_pcs s)[i := (NoteS m)]"
        by (simp_all add: s' guard_defs)
      show "info_ok i s'" using own GotS i len by (auto simp: s' guard_defs info_ok_def Let_def)
    qed (use mutex in \<open>auto simp: s' guard_defs\<close>)
  next
    case (NoteS m)
    then have s': "s' = goes i (CountS m) (upd_info i (\<lambda>x. x\<lparr>shared_holding := shared_holding x @ [m]\<rparr>) s)" using step by (simp add: guard_step_def)
    show ?thesis
    proof (rule guards_ok_by [OF ok i])
      show "LockInfos s' = (LockInfos s)[i := (\<lambda>x. x\<lparr>shared_holding := shared_holding x @ [m]\<rparr>) (LockInfos s ! i)]" "guard_pcs s' = (guard_pcs s)[i := (CountS m)]"
        by (simp_all add: s' guard_defs)
      show "info_ok i s'" using own NoteS i len by (auto simp: s' guard_defs info_ok_def Let_def)
    qed (use mutex in \<open>auto simp: s' guard_defs\<close>)
  next
    case (CountS m)
    then have s': "s' = goes i Running (upd_info i (\<lambda>x. x\<lparr>li_shared_size := li_shared_size x + 1\<rparr>) s)" using step by (simp add: guard_step_def)
    show ?thesis
    proof (rule guards_ok_by [OF ok i])
      show "LockInfos s' = (LockInfos s)[i := (\<lambda>x. x\<lparr>li_shared_size := li_shared_size x + 1\<rparr>) (LockInfos s ! i)]" "guard_pcs s' = (guard_pcs s)[i := Running]"
        by (simp_all add: s' guard_defs)
      show "info_ok i s'" using own CountS i len by (auto simp: s' guard_defs info_ok_def Let_def)
    qed (use mutex in \<open>auto simp: s' guard_defs\<close>)
  next
    case (UncountS m)
    then have s': "s' = goes i (DropS m) (upd_info i (\<lambda>x. x\<lparr>li_shared_size := li_shared_size x - 1\<rparr>) s)" using step by (simp add: guard_step_def)
    show ?thesis
    proof (rule guards_ok_by [OF ok i])
      show "LockInfos s' = (LockInfos s)[i := (\<lambda>x. x\<lparr>li_shared_size := li_shared_size x - 1\<rparr>) (LockInfos s ! i)]" "guard_pcs s' = (guard_pcs s)[i := (DropS m)]"
        by (simp_all add: s' guard_defs)
      show "info_ok i s'" using own UncountS i len by (auto simp: s' guard_defs info_ok_def Let_def)
    qed (use mutex in \<open>auto simp: s' guard_defs\<close>)
  next
    case (DropS m)
    then have s': "s' = goes i Running (s\<lparr>readers := (readers s)(m := remove1 i (readers s m))\<rparr>)" "i \<in> set (readers s m)"
      using step by (auto simp: guard_step_def split: if_splits)
    have d: "distinct (readers s m)" using mutex by blast
    show ?thesis
    proof (rule guards_ok_by [OF ok i])
      show "LockInfos s' = (LockInfos s)[i := LockInfos s ! i]" "guard_pcs s' = (guard_pcs s)[i := Running]" by (simp_all add: s'(1) guard_defs)
      show "info_ok i s'" using own DropS i s'(2) d by (auto simp: s'(1) guard_defs info_ok_def Let_def)
    qed (use mutex s'(2) d in \<open>auto simp: s'(1) guard_defs\<close>)
  next
    case Asleep
    then show ?thesis using step by (simp add: guard_step_def)
  qed
qed

text \<open>The mutexes are never misused.\<close>

lemma guard_step_defined:
  assumes ok: "guards_ok s" and i: "i < length (guard_pcs s)"
  shows "guard_step i c s \<noteq> Undefined"
  using guards_ok_info [OF ok i] by (cases "guard_pcs s ! i") (auto simp: guard_step_def info_ok_def Let_def)

lemma guard_run_ok: "guards_ok s \<Longrightarrow> \<exists>s'. guard_run sched s = Some s' \<and> guards_ok s'"
proof (induction sched arbitrary: s)
  case (Cons e sched)
  obtain i c where e: "e = (i, c)" by (cases e)
  show ?case
  proof (cases "i < length (guard_pcs s)")
    case True
    then show ?thesis using Cons.IH guard_step_ok [OF Cons.prems True] guard_step_defined [OF Cons.prems True, of c] Cons.prems
      by (cases "guard_step i c s") (auto simp: e)
  qed (use Cons in \<open>simp add: e\<close>)
qed simp

lemma guard_step_length: "guard_step i c s = Moves s' \<Longrightarrow> length (guard_pcs s') = length (guard_pcs s)"
  by (auto simp: guard_step_def guard_begin_def guard_ask_def guard_drop_def guard_drop_shared_def RegisterTlsInfoAndHandle_def guard_defs Let_def
      split: guard_pc.splits guard_call.splits if_splits)

lemma guard_run_length: "guard_run sched s = Some s' \<Longrightarrow> length (guard_pcs s') = length (guard_pcs s)"
  by (induction sched arbitrary: s) (auto split: if_splits guard_outcome.splits dest: guard_step_length)

lemma guard_step_others:
  assumes "guard_step i c s = Moves s'" "j \<noteq> i"
  shows "guard_pcs s' ! j = guard_pcs s ! j" "owner s' m = Some j \<longleftrightarrow> owner s m = Some j"
    "j \<in> set (readers s' m) \<longleftrightarrow> j \<in> set (readers s m)"
  using assms by (auto simp: guard_step_def guard_begin_def guard_ask_def guard_drop_def guard_drop_shared_def RegisterTlsInfoAndHandle_def guard_defs Let_def owns_def
      split: guard_pc.splits guard_call.splits if_splits)

lemma guard_run_from: "guard_run sched (new_lock_guards n) = Some s \<Longrightarrow> guards_ok s"
  using guard_run_ok [OF new_lock_guards_ok [of n], of sched] by auto

section \<open>What the guard finds\<close>

text \<open>
  C37: The records of the guard fit the mutexes: it holds at the start that every record lists the locks its thread has,
  except the one it is just taking or giving back, each once, that its counts are those of its lists but for the step
  between a list and its count, that a mutex has one owner or readers but not
  both, and that a waiting thread does not have what it waits for. In such a state no thread can misuse a mutex, and
  every step leads to such a state.
\<close>

theorem guard_well_formed:
  assumes "guards_ok s" "i < length (guard_pcs s)"
  shows "guards_ok (new_lock_guards n) \<and> guard_step i c s \<noteq> Undefined \<and> (guard_step i c s = Moves s' \<longrightarrow> guards_ok s')"
  using new_lock_guards_ok guard_step_defined [OF assms] guard_step_ok [OF assms] by blast

text \<open>Thread 0 takes lock 5 while thread 1 waits for it.\<close>

definition held_and_wanted :: lock_guards where
  "held_and_wanted = the (guard_run [(0, CallLock 5), (0, CallLock 5), (0, CallLock 5), (0, CallLock 5), (0, CallLock 5), (1, CallLockShared 5)] (new_lock_guards 2))"

theorem guard_well_formed_witness:
  "guards_ok held_and_wanted \<and> guard_step 0 (CallUnlock 5) held_and_wanted \<noteq> Undefined \<and>
   guard_step 1 (CallUnlock 5) held_and_wanted \<noteq> Undefined"
proof -
  obtain s where s: "guard_run [(0, CallLock 5), (0, CallLock 5), (0, CallLock 5), (0, CallLock 5), (0, CallLock 5), (1, CallLockShared 5)] (new_lock_guards 2) = Some s" "guards_ok s"
    using guard_run_ok [OF new_lock_guards_ok [of 2]] by blast
  then have h: "held_and_wanted = s" by (simp add: held_and_wanted_def)
  have "length (guard_pcs s) = 2" using guard_run_length [OF s(1)] by (simp add: new_lock_guards_def)
  then show ?thesis using guard_well_formed [OF s(2), of 0] guard_well_formed [OF s(2), of 1] s(2) h by simp
qed

text \<open>What the guard is there to find.\<close>

definition misuse :: "nat \<Rightarrow> guard_call \<Rightarrow> lock_guards \<Rightarrow> bool" where
  "misuse i c s =
     (case c of
        CallLock m \<Rightarrow> owns i m s
      | CallLockShared m \<Rightarrow> owns i m s
      | CallUnlock m \<Rightarrow> owner s m \<noteq> Some i
      | CallUnlockShared m \<Rightarrow> i \<notin> set (readers s m)
      | CallRegister \<Rightarrow> False)"

text \<open>The locks a thread has and the log does not show, because its call is just before the count or before the mutex.\<close>

fun unlogged :: "guard_pc \<Rightarrow> nat set \<times> nat set" where
  "unlogged (GotX m) = ({m}, {})"
| "unlogged (NoteX m) = ({m}, {})"
| "unlogged (CountX m) = ({m}, {})"
| "unlogged (DropX m) = ({m}, {})"
| "unlogged (GotS m) = ({}, {m})"
| "unlogged (NoteS m) = ({}, {m})"
| "unlogged (CountS m) = ({}, {m})"
| "unlogged (DropS m) = ({}, {m})"
| "unlogged pc = ({}, {})"

text \<open>A thread in \<^verbatim>\<open>unlock\<close>, between \<^verbatim>\<open>erase\<close> and the count.\<close>

fun miscounted :: "guard_pc \<Rightarrow> bool" where
  "miscounted (UncountX m) = True"
| "miscounted (UncountS m) = True"
| "miscounted pc = False"

definition logged :: "nat \<Rightarrow> (nat option \<times> nat list \<times> nat list) option \<Rightarrow> lock_guards \<Rightarrow> bool" where
  "logged j r s \<longleftrightarrow> (let pc = guard_pcs s ! j in
     case r of None \<Rightarrow> miscounted pc
     | Some (w, hs, ss) \<Rightarrow> \<not> miscounted pc \<and> set hs = {m. owner s m = Some j} - fst (unlogged pc) \<and>
         set ss = {m. j \<in> set (readers s m)} - snd (unlogged pc) \<and> distinct (hs @ ss) \<and>
         (\<forall>m. pc = WaitX m \<or> pc = WaitS m \<longrightarrow> w = Some m) \<and> (pc = Running \<longrightarrow> w = None))"

lemma take_last: "xs \<noteq> [] \<Longrightarrow> distinct xs \<Longrightarrow> set (take (nat (int (length xs) - 1)) xs) = set xs - {last xs}"
  by (cases xs rule: rev_cases) auto

lemma info_logged:
  assumes ok: "guards_ok s" and j: "j < length (guard_pcs s)"
  shows "logged j (info_WriteLog (LockInfos s ! j)) s"
proof -
  have o: "info_ok j s" by (rule guards_ok_info [OF ok j])
  note own = info_ok_owner [OF o]
  have x: "m \<notin> set (shared_holding (LockInfos s ! j))" if "m \<in> set (holding (LockInfos s ! j))" for m
    using that own(1) [of m] own(2) [of m] guards_ok_mutex [OF ok, of m] by (cases "readers s m") auto
  then have "set (holding (LockInfos s ! j)) \<inter> set (shared_holding (LockInfos s ! j)) = {}" by blast
  then show ?thesis
    using o own by (cases "guard_pcs s ! j")
      (auto simp: logged_def info_WriteLog_def info_ok_def Let_def take_last)
qed

lemma guard_step_enrolled: "guard_step i c s = Moves s' \<Longrightarrow> enrolled s' \<subseteq> insert i (enrolled s)"
  by (auto simp: guard_step_def guard_begin_def guard_ask_def guard_drop_def guard_drop_shared_def RegisterTlsInfoAndHandle_def guard_defs Let_def
      split: guard_pc.splits guard_call.splits if_splits)

lemma guard_run_enrolled:
  "guard_run sched s = Some s' \<Longrightarrow> enrolled s \<subseteq> {..<length (guard_pcs s)} \<Longrightarrow> enrolled s' \<subseteq> {..<length (guard_pcs s')}"
proof (induction sched arbitrary: s)
  case (Cons e sched)
  obtain i c where e: "e = (i, c)" by (cases e)
  consider "guard_run sched s = Some s'"
    | s1 where "guard_step i c s = Moves s1" "i < length (guard_pcs s)" "guard_run sched s1 = Some s'"
    using Cons.prems(1) by (auto simp: e split: if_splits guard_outcome.splits)
  then show ?case
  proof cases
    case 2
    then show ?thesis using Cons.IH [OF 2(3)] Cons.prems(2) guard_step_enrolled [OF 2(1)] guard_step_length [OF 2(1)] by auto
  qed (use Cons in blast)
qed simp

text \<open>
  C38: Whatever the threads do, a call is reported, and its thread put to sleep, exactly when the thread asks for a lock
  it has already, in either mode, or gives back one it does not have in that mode; every other call goes on. The log
  has exactly the registered threads. For a thread that is in no call, that waits or that sleeps it shows the locks the
  thread has, each once, and the lock it waits for. For a thread suspended inside a call it can be wrong: the lock being
  taken or given back is missing, and between \<^verbatim>\<open>erase\<close> and the count \<^verbatim>\<open>WriteLog\<close> reads behind the end of the vector.
\<close>

theorem guard_reports_misuse:
  assumes "guard_run sched (new_lock_guards n) = Some s" "i < n" "guard_pcs s ! i = Running"
  shows "(\<exists>s'. guard_step i c s = Moves s' \<and> (guard_pcs s' ! i = Asleep \<longleftrightarrow> misuse i c s) \<and> (log_requested s' \<longleftrightarrow> log_requested s \<or> misuse i c s)) \<and>
    fst ` set (CreateLogFile_TlsInfo s) = enrolled s \<and> distinct (map fst (CreateLogFile_TlsInfo s)) \<and>
    (\<forall>(j, r) \<in> set (CreateLogFile_TlsInfo s). logged j r s)"
proof -
  have ok: "guards_ok s" using guard_run_from assms(1) by blast
  have n: "length (guard_pcs s) = n" using guard_run_length [OF assms(1)] by (simp add: new_lock_guards_def)
  have own: "info_ok i s" using guards_ok_info [OF ok] assms(2) n by simp
  have has: "\<And>m. owner s m = Some i \<longleftrightarrow> m \<in> set (holding (LockInfos s ! i))" "\<And>m. i \<in> set (readers s m) \<longleftrightarrow> m \<in> set (shared_holding (LockInfos s ! i))"
    using info_ok_owner [OF own] assms(3) by simp_all
  have len: "length (LockInfos s) = n" "i < length (guard_pcs s)" using infos_length [OF ok] n assms(2) by simp_all
  have "guard_pcs (guard_begin i c s) ! i = Asleep \<longleftrightarrow> misuse i c s" "log_requested (guard_begin i c s) \<longleftrightarrow> log_requested s \<or> misuse i c s"
    using has len assms(2,3) by (auto simp: guard_begin_def guard_ask_def guard_drop_def guard_drop_shared_def RegisterTlsInfoAndHandle_def guard_defs
        Let_def misuse_def owns_def split: guard_call.splits)
  then have "\<exists>s'. guard_step i c s = Moves s' \<and> (guard_pcs s' ! i = Asleep \<longleftrightarrow> misuse i c s) \<and> (log_requested s' \<longleftrightarrow> log_requested s \<or> misuse i c s)"
    using assms(3) by (simp add: guard_step_def)
  moreover have "enrolled s \<subseteq> {..<n}" using guard_run_enrolled [OF assms(1)] n by (simp add: new_lock_guards_def)
  then have "fst ` set (CreateLogFile_TlsInfo s) = enrolled s" "distinct (map fst (CreateLogFile_TlsInfo s))"
    using len(1) by (auto simp: CreateLogFile_TlsInfo_def comp_def image_image)
  moreover have "\<forall>(j, r) \<in> set (CreateLogFile_TlsInfo s). logged j r s"
    using info_logged [OF ok] n len(1) by (auto simp: CreateLogFile_TlsInfo_def)
  ultimately show ?thesis by blast
qed

text \<open>A registered thread that has lock 5 asks for it again, and another one is suspended while it gives back lock 6.\<close>

definition one_holds_one_drops :: "(nat \<times> guard_call) list" where
  "one_holds_one_drops = (0, CallRegister) # replicate 5 (0, CallLock 5) @ (1, CallRegister) # replicate 5 (1, CallLock 6) @ [(1, CallUnlock 6)]"

theorem guard_reports_misuse_witness:
  "\<exists>s s'. guard_run one_holds_one_drops (new_lock_guards 2) = Some s \<and> CreateLogFile_TlsInfo s = [(0, Some (None, [5], [])), (1, None)] \<and>
    logged 0 (Some (None, [5], [])) s \<and> logged 1 None s \<and> guard_step 0 (CallLockShared 5) s = Moves s' \<and> guard_pcs s' ! 0 = Asleep"
proof -
  have "\<exists>s. guard_run one_holds_one_drops (new_lock_guards 2) = Some s \<and> guard_pcs s = [Running, UncountX 6] \<and> owner s 5 = Some 0 \<and>
      CreateLogFile_TlsInfo s = [(0, Some (None, [5], [])), (1, None)]"
    by (simp add: one_holds_one_drops_def guard_step_def guard_begin_def guard_ask_def guard_drop_def RegisterTlsInfoAndHandle_def new_lock_guards_def
        new_stTlsLockInfo_def guard_defs Let_def owns_def CreateLogFile_TlsInfo_def info_WriteLog_def eval_nat_numeral)
  then obtain s where s: "guard_run one_holds_one_drops (new_lock_guards 2) = Some s" "guard_pcs s = [Running, UncountX 6]" "owner s 5 = Some 0"
      "CreateLogFile_TlsInfo s = [(0, Some (None, [5], [])), (1, None)]" by blast
  have "guard_pcs s ! 0 = Running" "misuse 0 (CallLockShared 5) s" using s(2,3) by (simp_all add: misuse_def owns_def)
  with guard_reports_misuse [OF s(1) _ this(1), of "CallLockShared 5"] s(1,4) show ?thesis by auto
qed

section \<open>What it does not find\<close>

fun waits_for :: "guard_pc \<Rightarrow> nat option" where
  "waits_for (WaitX m) = Some m"
| "waits_for (WaitS m) = Some m"
| "waits_for pc = None"

definition wait_cycle :: "nat set \<Rightarrow> lock_guards \<Rightarrow> bool" where
  "wait_cycle T s \<longleftrightarrow>
     (\<forall>i \<in> T. case waits_for (guard_pcs s ! i) of
        None \<Rightarrow> False
      | Some m \<Rightarrow> \<not> owns i m s \<and> (case owner s m of None \<Rightarrow> False | Some j \<Rightarrow> j \<in> T))"

lemma wait_cycleE:
  assumes "wait_cycle T s" "i \<in> T"
  obtains m j where "waits_for (guard_pcs s ! i) = Some m" "\<not> owns i m s" "owner s m = Some j" "j \<in> T"
proof -
  have c: "case waits_for (guard_pcs s ! i) of None \<Rightarrow> False
      | Some m \<Rightarrow> \<not> owns i m s \<and> (case owner s m of None \<Rightarrow> False | Some j \<Rightarrow> j \<in> T)"
    using assms by (simp add: wait_cycle_def)
  then obtain m where m: "waits_for (guard_pcs s ! i) = Some m" by (cases "waits_for (guard_pcs s ! i)") auto
  then obtain j where "owner s m = Some j" using c by (cases "owner s m") auto
  then show ?thesis using that c m by simp
qed

lemma wait_cycle_blocked: "wait_cycle T s \<Longrightarrow> i \<in> T \<Longrightarrow> guard_step i c s = Blocked"
  by (erule (1) wait_cycleE) (cases "guard_pcs s ! i", auto simp: guard_step_def)

lemma wait_cycle_kept:
  assumes w: "wait_cycle T s" and step: "guard_step i c s = Moves s'"
  shows "wait_cycle T s'" "\<forall>j \<in> T. guard_pcs s' ! j = guard_pcs s ! j"
proof -
  have i: "i \<notin> T" using wait_cycle_blocked [OF w] step by auto
  note o = guard_step_others [OF step]
  show pcs: "\<forall>j \<in> T. guard_pcs s' ! j = guard_pcs s ! j" using o(1) i by metis
  show "wait_cycle T s'" unfolding wait_cycle_def
  proof
    fix t assume t: "t \<in> T"
    obtain m j where m: "waits_for (guard_pcs s ! t) = Some m" "\<not> owns t m s" "owner s m = Some j" "j \<in> T" using wait_cycleE [OF w t] .
    have "j \<noteq> i" "t \<noteq> i" using m(4) t i by auto
    then have "owner s' m = Some j" "\<not> owns t m s'" "guard_pcs s' ! t = guard_pcs s ! t"
      using o(2) [of j m] o(2,3) [of t m] m(2,3) pcs t by (auto simp: owns_def)
    then show "case waits_for (guard_pcs s' ! t) of None \<Rightarrow> False
        | Some m \<Rightarrow> \<not> owns t m s' \<and> (case owner s' m of None \<Rightarrow> False | Some j \<Rightarrow> j \<in> T)"
      using m(1,4) by simp
  qed
qed

text \<open>
  Threads that wait for each other's locks, each one for a lock that another one of them has, stay where they are
  whatever the other threads do, and while only they run nothing at all happens: no report is made of such a cycle.
\<close>

theorem guard_misses_cycles:
  assumes "wait_cycle T s" "guard_run sched s = Some s'"
  shows "(\<forall>i \<in> T. guard_pcs s' ! i = guard_pcs s ! i) \<and> (fst ` set sched \<subseteq> T \<longrightarrow> s' = s)"
  using assms
proof (induction sched arbitrary: s)
  case (Cons e sched)
  obtain i c where e: "e = (i, c)" by (cases e)
  consider (skip) "guard_run sched s = Some s'"
    | (step) s1 where "guard_step i c s = Moves s1" "guard_run sched s1 = Some s'"
    using Cons.prems(2) by (auto simp: e split: if_splits guard_outcome.splits)
  then show ?case
  proof cases
    case skip
    then show ?thesis using Cons.IH [OF Cons.prems(1)] by auto
  next
    case step
    have "i \<notin> T" using wait_cycle_blocked [OF Cons.prems(1)] step(1) by auto
    then show ?thesis using Cons.IH [OF wait_cycle_kept(1) [OF Cons.prems(1) step(1)] step(2)] wait_cycle_kept(2) [OF Cons.prems(1) step(1)]
      by (simp add: e)
  qed
qed simp

text \<open>Two threads that take two locks in opposite order.\<close>

theorem guard_misses_cycles_witness:
  "\<exists>s. guard_run (replicate 5 (0, CallLock 1) @ replicate 5 (1, CallLock 2) @ [(0, CallLock 2), (1, CallLock 1)]) (new_lock_guards 2) = Some s \<and>
    guard_run [(0, CallLock 2), (1, CallLock 1), (0, CallLock 2)] s = Some s \<and> \<not> log_requested s"
proof -
  let ?es = "replicate 5 (0, CallLock 1) @ replicate 5 (1, CallLock 2) @ [(0, CallLock 2), (1, CallLock 1)]"
  have "\<exists>s. guard_run ?es (new_lock_guards 2) = Some s \<and> guard_pcs s = [WaitX 2, WaitX 1] \<and> owner s 1 = Some 0 \<and> owner s 2 = Some 1 \<and>
      readers s = (\<lambda>m. []) \<and> \<not> log_requested s"
    by (simp add: guard_step_def guard_begin_def guard_ask_def new_lock_guards_def new_stTlsLockInfo_def guard_defs Let_def owns_def
        eval_nat_numeral)
  then obtain s where s: "guard_run ?es (new_lock_guards 2) = Some s" "guard_pcs s = [WaitX 2, WaitX 1]" "owner s 1 = Some 0" "owner s 2 = Some 1"
      "readers s = (\<lambda>m. [])" "\<not> log_requested s" by blast
  have c: "wait_cycle {0, 1} s" using s(2-5) by (simp add: wait_cycle_def owns_def)
  have ok: "guards_ok s" using guard_run_from s(1) by blast
  obtain s' where "guard_run [(0, CallLock 2), (1, CallLock 1), (0, CallLock 2)] s = Some s'" using guard_run_ok [OF ok] by blast
  with guard_misses_cycles [OF c this] s(1,6) show ?thesis by auto
qed

end
