(* ===== verification/Idl.thy ===== *)
theory Idl
  imports ConfigText
begin

text \<open>
  The front end of the interface compiler (\<^verbatim>\<open>IDL_Complier/IDL_Complier.cpp\<close>), which reads the interface file and
  collects what the generators write: \<^verbatim>\<open>WordSplit\<close> takes one word at a time and acts on it, \<^verbatim>\<open>main\<close> calls it
  until it is behind the text, and \<^verbatim>\<open>MakeCommon\<close> writes the header of packet numbers. \<open>mem\<close> is the allocation
  \<^verbatim>\<open>LoadFile\<close> made, and pointers into it are indices. Faults are values: a read outside the allocation, the
  use of a word that was never set, a free of a word a vector still holds, a \<^verbatim>\<open>pop_back\<close> of an empty vector,
  \<^verbatim>\<open>__debugbreak\<close>, and the second terminator \<^verbatim>\<open>FuncMaker\<close> stores one place behind what it asked \<^verbatim>\<open>malloc\<close> for. Whether
  that place is still in the block is up to the allocator: \<open>room n\<close> is the number of places of the block it gives
  when \<open>n\<close> are asked for.
\<close>

section \<open>Words\<close>

type_synonym wtext = "u16 list"

datatype idl_fault = OutsideRead | OutsideWrite | NoWord | FreedWord | EmptyVector | Breakpoint | NoFuel

abbreviation (input) hash_ch :: u16 where "hash_ch \<equiv> 35"
abbreviation (input) apostrophe_ch :: u16 where "apostrophe_ch \<equiv> 39"
abbreviation (input) open_ch :: u16 where "open_ch \<equiv> 123"
abbreviation (input) close_ch :: u16 where "close_ch \<equiv> 125"

definition start_ch :: "u16 \<Rightarrow> bool" where
  "start_ch c \<longleftrightarrow> 65 \<le> c \<and> c \<le> 90 \<or> 97 \<le> c \<and> c \<le> 122 \<or> 48 \<le> c \<and> c \<le> 57 \<or> c = equals_ch"

definition blank_after :: "u16 \<Rightarrow> bool" where
  "blank_after c \<longleftrightarrow> c = blank_ch \<or> c = tab_ch \<or> c = newline_ch"

text \<open>The globals and the statics of \<^verbatim>\<open>WordSplit\<close>; \<^verbatim>\<open>bEquleChk\<close> is only written.\<close>

record idl =
  bChk :: bool
  idl_cnt :: int
  packStartnum :: "wtext list"
  gDefineVec :: "wtext list"
  gCommonVec :: "wtext list"
  gRPCvec :: "wtext list"
  gRPCvec_Notrance :: "wtext list"

definition new_idl :: idl where
  "new_idl = \<lparr>bChk = False, idl_cnt = 0, packStartnum = [], gDefineVec = [], gCommonVec = [], gRPCvec = [], gRPCvec_Notrance = []\<rparr>"

text \<open>
  The copy of a piece of the text, up to a terminator inside it, where the code prints and compares it. The word a
  call leaves behind \<^verbatim>\<open>temp\<close> has a mark that tells whether a vector holds it.
\<close>

type_synonym word_ptr = "(wtext \<times> bool) option"

definition idl_text :: "u16 list \<Rightarrow> nat \<Rightarrow> nat \<Rightarrow> wtext" where
  "idl_text mem left right = takeWhile (\<lambda>c. c \<noteq> 0) (take (right - left) (drop left mem))"

text \<open>The first place at or behind \<open>r\<close> with a character of \<open>cs\<close>, looked for without a limit.\<close>

function find_ch :: "u16 list \<Rightarrow> u16 set \<Rightarrow> nat \<Rightarrow> idl_fault + nat" where
  "find_ch mem cs r = (if length mem \<le> r then Inl OutsideRead else if mem ! r \<in> cs then Inr r else find_ch mem cs (Suc r))"
  by pat_completeness auto
termination by (relation "measure (\<lambda>(mem, cs, r). length mem - r)") auto

text \<open>The end of a definition line, which the limit stops.\<close>

function define_end :: "u16 list \<Rightarrow> nat \<Rightarrow> nat \<Rightarrow> idl_fault + nat" where
  "define_end mem limit r =
     (if limit \<le> r then Inr r
      else if length mem \<le> r then Inl OutsideRead
      else if mem ! r = newline_ch then Inr r
      else define_end mem limit (Suc r))"
  by pat_completeness auto
termination by (relation "measure (\<lambda>(mem, limit, r). length mem - r)") auto

text \<open>Where the first loop of \<^verbatim>\<open>WordSplit\<close> ends: behind a remark, with a definition, or at the start of a word.\<close>

datatype idl_scan = ScanRemark nat | ScanDefine wtext nat | ScanWord nat

definition brace :: "u16 \<Rightarrow> idl \<Rightarrow> idl_fault + idl" where
  "brace c s =
     (if c = open_ch then Inr (s\<lparr>bChk := True\<rparr>)
      else if c \<noteq> close_ch then Inr s
      else if packStartnum s = [] then Inl EmptyVector
      else Inr (s\<lparr>bChk := False, packStartnum := butlast (packStartnum s)\<rparr>))"

function scan_word :: "u16 list \<Rightarrow> nat \<Rightarrow> nat \<Rightarrow> idl \<Rightarrow> idl_fault + (idl_scan \<times> idl)" where
  "scan_word mem limit r s =
     (if length mem \<le> r then Inl OutsideRead
      else if mem ! r = slash_ch then err_bind (find_ch mem {newline_ch} r) (\<lambda>e. Inr (ScanRemark e, s))
      else if mem ! r = hash_ch then
        err_bind (define_end mem limit r) (\<lambda>e.
          let t = idl_text mem r e in Inr (ScanDefine t e, s\<lparr>gDefineVec := gDefineVec s @ [t]\<rparr>))
      else err_bind (brace (mem ! r) s) (\<lambda>s1. if start_ch (mem ! r) then Inr (ScanWord r, s1) else scan_word mem limit (Suc r) s1))"
  by pat_completeness auto
termination by (relation "measure (\<lambda>(mem, limit, r, s). length mem - r)") auto

text \<open>The second loop: the end of the word, and whether one was found before the limit.\<close>

function word_end :: "u16 list \<Rightarrow> nat \<Rightarrow> nat \<Rightarrow> idl_fault + (nat \<times> bool)" where
  "word_end mem limit r =
     (if limit \<le> r then Inr (r, False)
      else if length mem \<le> r then Inl OutsideRead
      else if blank_after (mem ! r) then Inr (r, True)
      else word_end mem limit (Suc r))"
  by pat_completeness auto
termination by (relation "measure (\<lambda>(mem, limit, r). length mem - r)") auto

declare find_ch.simps [simp del] define_end.simps [simp del] scan_word.simps [simp del] word_end.simps [simp del]

section \<open>The lines of the generated header\<close>

definition BufferMax :: nat where "BufferMax = 700"

text \<open>\<^verbatim>\<open>StringCchPrintfW\<close> cuts what does not fit.\<close>

definition printed :: "wtext \<Rightarrow> wtext" where
  "printed t = take (BufferMax - 1) t"

definition CMessageDefaultFormat :: "wtext \<Rightarrow> wtext \<Rightarrow> int \<Rightarrow> wtext" where
  "CMessageDefaultFormat name start n =
     tab_ch # wide ''const WORD '' @ name @ wide '' '' @ tab_ch # wide ''= '' @ tab_ch # wide '' ('' @ start @ wide '' + '' @ decimal (nat n) @ wide '') ;''"

definition CMessageCustomFormat :: "wtext \<Rightarrow> wtext \<Rightarrow> wtext" where
  "CMessageCustomFormat name val =
     tab_ch # wide ''const WORD '' @ name @ wide '' '' @ tab_ch # wide ''= '' @ tab_ch # wide ''  '' @ val @ wide ''      ;''"

definition PackStartFormat :: "wtext \<Rightarrow> wtext \<Rightarrow> wtext" where
  "PackStartFormat key val =
     newline_ch # tab_ch # wide '' const static WORD '' @ key @ wide '' '' @ tab_ch # wide ''='' @ tab_ch # wide '' '' @ val @ wide '' ;''"

text \<open>
  A word between the braces of a group is the name of a packet. It has a value of its own when an equals sign comes
  before the end of the line; this value is the base of the numbers behind it. The word itself is freed.
\<close>

definition idl_constant :: "u16 list \<Rightarrow> word_ptr \<Rightarrow> nat \<Rightarrow> idl \<Rightarrow> idl_fault + (nat \<times> word_ptr \<times> idl)" where
  "idl_constant mem temp r s =
     (if packStartnum s = [] then Inl Breakpoint
      else err_bind (find_ch mem {newline_ch, equals_ch} r) (\<lambda>e.
        err_bind (if mem ! e = newline_ch then Inr e else find_ch mem {newline_ch} (Suc e)) (\<lambda>e2.
        case temp of
          None \<Rightarrow> Inl NoWord
        | Some (name, True) \<Rightarrow> Inl FreedWord
        | Some (name, False) \<Rightarrow>
            if mem ! e = newline_ch
            then let b = printed (CMessageDefaultFormat name (packStartnum s ! 0) (idl_cnt s))
                 in Inr (r, Some (b, True), s\<lparr>idl_cnt := idl_cnt s + 1, gCommonVec := gCommonVec s @ [b]\<rparr>)
            else let val = idl_text mem (Suc e) e2; b = printed (CMessageCustomFormat name val)
                 in Inr (e2, Some (b, True),
                      s\<lparr>packStartnum := butlast (packStartnum s) @ [val], idl_cnt := 0, gCommonVec := gCommonVec s @ [b]\<rparr>))))"

section \<open>Functions\<close>

text \<open>\<^verbatim>\<open>find\<close> of a text, and \<^verbatim>\<open>find\<close> of the closing quote.\<close>

fun find_text :: "wtext \<Rightarrow> wtext \<Rightarrow> nat option" where
  "find_text t [] = (if t = [] then Some 0 else None)"
| "find_text t (c # cs) = (if take (length t) (c # cs) = t then Some 0 else map_option Suc (find_text t cs))"

definition find_quote :: "nat \<Rightarrow> wtext \<Rightarrow> nat option" where
  "find_quote i s = map_option (\<lambda>k. i + k) (find_text [apostrophe_ch] (drop i s))"

text \<open>
  One turn of \<^verbatim>\<open>Replace_CustomeType\<close>. Without a closing quote \<^verbatim>\<open>numEnd\<close> is \<^verbatim>\<open>npos\<close> and the count
  \<^verbatim>\<open>npos - pos + 1\<close> wraps: it covers everything behind, or nothing when the text begins with the target.
\<close>

definition replace_at :: "wtext \<Rightarrow> wtext \<Rightarrow> nat \<Rightarrow> wtext \<Rightarrow> wtext" where
  "replace_at target rep pos s =
     (case find_quote (pos + length target) s of
        Some numEnd \<Rightarrow> take pos s @ rep @ drop (Suc numEnd) s
      | None \<Rightarrow> if pos = 0 then rep @ s else take pos s @ rep)"

partial_function (option) Replace_CustomeType :: "wtext \<Rightarrow> wtext \<Rightarrow> wtext \<Rightarrow> wtext option" where
  "Replace_CustomeType target rep s =
     (case find_text target s of
        None \<Rightarrow> Some s
      | Some pos \<Rightarrow> Replace_CustomeType target rep (replace_at target rep pos s))"

definition needle1 :: wtext where "needle1 = wide ''SizedArray'' @ [apostrophe_ch]"
definition needle2 :: wtext where "needle2 = wide ''DynamicArray'' @ [apostrophe_ch]"

text \<open>Both replacements; \<open>None\<close> would be a loop that never ends.\<close>

definition custom_types :: "wtext \<Rightarrow> wtext option" where
  "custom_types t =
     Option.bind (Replace_CustomeType needle1 (wide ''WCHAR*'') t) (Replace_CustomeType needle2 (wide ''WCHAR*''))"

text \<open>The copy and its terminator are \<open>length str + 1\<close> places; \<^verbatim>\<open>ptr[len / 2]\<close> is the place behind them.\<close>

definition FuncMaker :: "(nat \<Rightarrow> nat) \<Rightarrow> u16 list \<Rightarrow> nat \<Rightarrow> idl \<Rightarrow> idl_fault + (nat \<times> word_ptr \<times> idl)" where
  "FuncMaker room mem r s =
     err_bind (find_ch mem {semicolon_ch} r) (\<lambda>e.
       let t = idl_text mem r e in
       case custom_types t of
         None \<Rightarrow> Inl NoFuel
       | Some str \<Rightarrow>
           if room (length str + 1) \<le> length str + 1 then Inl OutsideWrite
           else Inr (e, Some (t, True), s\<lparr>gRPCvec := gRPCvec s @ [str], gRPCvec_Notrance := gRPCvec_Notrance s @ [t]\<rparr>))"

section \<open>One word\<close>

text \<open>A group: its name, the equals sign and its base. The word \<open>global\<close> and the two words behind the name are freed.\<close>

definition GlobalPacketSplit ::
  "(nat \<Rightarrow> word_ptr \<Rightarrow> idl \<Rightarrow> idl_fault + (nat \<times> word_ptr \<times> idl)) \<Rightarrow> bool \<Rightarrow> nat \<Rightarrow> idl \<Rightarrow>
   idl_fault + (nat \<times> word_ptr \<times> idl)" where
  "GlobalPacketSplit split held r s =
     (if held then Inl FreedWord
      else err_bind (split r None s) (\<lambda>(r1, key, s1).
        case key of None \<Rightarrow> Inl NoWord | Some (k, hk) \<Rightarrow>
        err_bind (split r1 None (s1\<lparr>packStartnum := packStartnum s1 @ [k]\<rparr>)) (\<lambda>(r2, equle, s2).
        err_bind (split r2 None s2) (\<lambda>(r3, val, s3).
        case (equle, val) of
          (Some (q, False), Some (v, False)) \<Rightarrow>
            let b = printed (PackStartFormat k v)
            in Inr (r3, Some (b, True), s3\<lparr>gCommonVec := gCommonVec s3 @ [b]\<rparr>)
        | _ \<Rightarrow> Inl FreedWord))))"

text \<open>What is done with a word; \<open>split\<close> is \<^verbatim>\<open>WordSplit\<close> for the words behind \<open>global\<close>.\<close>

definition act_on_word ::
  "(nat \<Rightarrow> nat) \<Rightarrow> (nat \<Rightarrow> word_ptr \<Rightarrow> idl \<Rightarrow> idl_fault + (nat \<times> word_ptr \<times> idl)) \<Rightarrow> u16 list \<Rightarrow> word_ptr \<Rightarrow> nat \<Rightarrow> idl \<Rightarrow>
   idl_fault + (nat \<times> word_ptr \<times> idl)" where
  "act_on_word room split mem temp r s =
     (if bChk s then idl_constant mem temp r s
      else case temp of
             None \<Rightarrow> Inl NoWord
           | Some (w, held) \<Rightarrow>
               if w = wide ''global''
               then err_bind (GlobalPacketSplit split held r s) (\<lambda>(r2, temp2, s2). Inr (r2, temp2, s2\<lparr>idl_cnt := 0\<rparr>))
               else if w = wide ''void'' then FuncMaker room mem r s
               else Inr (r, temp, s))"

text \<open>
  One call. \<open>n\<close> bounds the calls inside calls, which \<^verbatim>\<open>GlobalPacketSplit\<close> makes; \<open>WordSplit_fuel\<close> shows how
  much is enough. A word that reaches the limit is not copied, and \<^verbatim>\<open>temp\<close> is what the call before left.
\<close>

fun WordSplit :: "(nat \<Rightarrow> nat) \<Rightarrow> nat \<Rightarrow> u16 list \<Rightarrow> nat \<Rightarrow> nat \<Rightarrow> word_ptr \<Rightarrow> idl \<Rightarrow> idl_fault + (nat \<times> word_ptr \<times> idl)" where
  "WordSplit room 0 mem limit r temp s = Inl NoFuel"
| "WordSplit room (Suc n) mem limit r temp s =
     err_bind (scan_word mem limit r s) (\<lambda>(found, s1).
       case found of
         ScanRemark e \<Rightarrow> Inr (e, Some ([], False), s1)
       | ScanDefine t e \<Rightarrow> Inr (e, Some (t, True), s1)
       | ScanWord l \<Rightarrow>
           err_bind (word_end mem limit l) (\<lambda>(e, ended).
             act_on_word room (WordSplit room n mem limit) mem (if ended then Some (idl_text mem l e, False) else temp) e s1))"

section \<open>The program\<close>

text \<open>
  The loop of \<^verbatim>\<open>main\<close>, turn by turn: \<^verbatim>\<open>None\<close> of \<open>idl_loop\<close> is a loop that never ends. The text ends at the
  first terminator of the allocation, and the limit is one behind.
\<close>

definition idl_turn :: "(nat \<Rightarrow> nat) \<Rightarrow> u16 list \<Rightarrow> nat \<Rightarrow> nat \<times> word_ptr \<times> idl \<Rightarrow> idl_fault + (nat \<times> word_ptr \<times> idl)" where
  "idl_turn room mem limit = (\<lambda>(r, temp, s). WordSplit room (length mem + 2) mem limit r temp s)"

primrec idl_turns :: "(nat \<Rightarrow> nat) \<Rightarrow> nat \<Rightarrow> u16 list \<Rightarrow> nat \<Rightarrow> nat \<times> word_ptr \<times> idl \<Rightarrow> idl_fault + (nat \<times> word_ptr \<times> idl)" where
  "idl_turns room 0 mem limit x = Inr x"
| "idl_turns room (Suc k) mem limit x = err_bind (idl_turn room mem limit x) (idl_turns room k mem limit)"

partial_function (option) idl_loop ::
  "(nat \<Rightarrow> nat) \<Rightarrow> u16 list \<Rightarrow> nat \<Rightarrow> nat \<times> word_ptr \<times> idl \<Rightarrow> (idl_fault + (nat \<times> word_ptr \<times> idl)) option" where
  "idl_loop room mem limit x =
     (if limit < fst x then Some (Inr x)
      else case idl_turn room mem limit x of Inl f \<Rightarrow> Some (Inl f) | Inr y \<Rightarrow> idl_loop room mem limit y)"

definition InitCommonFORMAT :: wtext where
  "InitCommonFORMAT =
     wide ''#pragma once'' @ newline_ch # wide ''#define WIN32_LEAN_AND_MEAN '' @ newline_ch # wide ''#include <Windows.h>'' @
     newline_ch # wide ''#ifndef CONSTANTS_H '' @ newline_ch # wide '' #define CONSTANTS_H '' @ [newline_ch]"

definition CommonFORMAT :: "wtext \<Rightarrow> wtext" where
  "CommonFORMAT t = tab_ch # wide '' '' @ t @ wide '' '' @ [newline_ch]"

definition CLOSECommonFORMAT :: wtext where
  "CLOSECommonFORMAT = wide ''#endif // CONSTANTS_H '' @ [newline_ch]"

text \<open>What \<^verbatim>\<open>MakeCommon\<close> writes into \<^verbatim>\<open>CommonProtocol.h\<close>.\<close>

definition MakeCommon :: "idl \<Rightarrow> wtext" where
  "MakeCommon s =
     InitCommonFORMAT @ concat (map (\<lambda>d. printed (CommonFORMAT d)) (gDefineVec s)) @
     concat (map (\<lambda>d. printed (CommonFORMAT d)) (gCommonVec s)) @ CLOSECommonFORMAT"

text \<open>The program up to the header: the text of the header, when the loop ends without a fault.\<close>

definition idl_main :: "(nat \<Rightarrow> nat) \<Rightarrow> u16 list \<Rightarrow> (idl_fault + (idl \<times> wtext)) option" where
  "idl_main room mem =
     (case find_ch mem {0} 0 of
        Inl f \<Rightarrow> Some (Inl f)
      | Inr n \<Rightarrow> map_option (\<lambda>x. err_bind x (\<lambda>(r, temp, s). Inr (s, MakeCommon s))) (idl_loop room mem (Suc n) (0, None, new_idl)))"

end
