(* ===== verification/IdlText.thy ===== *)
theory IdlText
  imports Idl "HOL-Library.Sublist"
begin

text \<open>
  The replacement of the array types in a function's declaration (\<^verbatim>\<open>Replace_CustomeType\<close>): it ends for both
  types and leaves no occurrence of them.
\<close>

lemma find_text_SomeD: "find_text t s = Some p \<Longrightarrow> \<exists>b. s = take p s @ t @ b \<and> p + length t \<le> length s"
proof (induction t s arbitrary: p rule: find_text.induct)
  case (1 t)
  then show ?case by (auto split: if_splits)
next
  case (2 t c cs)
  show ?case
  proof (cases "take (length t) (c # cs) = t")
    case True
    then have "c # cs = t @ drop (length t) (c # cs)" by (metis append_take_drop_id)
    with True 2 show ?thesis by (metis add_0 append_Nil find_text.simps(2) length_append le_add1 option.inject take0)
  next
    case False
    with 2 show ?thesis by fastforce
  qed
qed

lemma find_text_None: "find_text t s = None \<longleftrightarrow> \<not> sublist t s"
proof (induction t s rule: find_text.induct)
  case (1 t)
  then show ?case by auto
next
  case (2 t c cs)
  then show ?case by (auto simp: sublist_Cons_right prefix_def take_is_prefix) (metis append_take_drop_id)
qed

lemma sublist_around:
  assumes "r \<noteq> []" "hd r \<notin> set t" "last r \<notin> set t" "\<not> sublist t r"
  shows "sublist t (a @ r @ b) \<longleftrightarrow> sublist t a \<or> sublist t b"
proof -
  have fro: "ys = []" if "t = xs @ ys" "prefix ys (r @ b)" for xs ys
    using assms that by (cases ys; cases r) auto
  have aft: "xs = []" if "t = xs @ ys" "suffix xs r" for xs ys
    using assms that by (cases xs rule: rev_cases; cases r rule: rev_cases) auto
  have "sublist t b" if "t = xs @ ys" "suffix xs r" "prefix ys b" for xs ys
    using that aft [OF that(1,2)] by simp
  moreover have "sublist t a" if "t = xs @ ys" "suffix xs a" "prefix ys (r @ b)" for xs ys
    using that fro [OF that(1,3)] by simp
  ultimately show ?thesis
    using assms(4) sublist_append [of t a "r @ b"] sublist_append [of t r b] by metis
qed

abbreviation (input) quotes :: "wtext \<Rightarrow> nat" where "quotes s \<equiv> count_list s apostrophe_ch"

lemma quotes_take_drop: "quotes s = quotes (take n s) + quotes (drop n s)"
  by (metis append_take_drop_id count_list_append)

lemma quotes_drop_mono: "m \<le> n \<Longrightarrow> quotes (drop n s) \<le> quotes (drop m s)"
  using quotes_take_drop [of "drop m s" "n - m"] by simp

text \<open>What both array types and the type they become have: only the first has a quote, and they begin differently.\<close>

definition replaces :: "wtext \<Rightarrow> wtext \<Rightarrow> bool" where
  "replaces t r \<longleftrightarrow> t \<noteq> [] \<and> r \<noteq> [] \<and> apostrophe_ch \<in> set t \<and> apostrophe_ch \<notin> set r \<and> hd t \<noteq> hd r"

definition quote_measure :: "wtext \<Rightarrow> wtext \<Rightarrow> nat" where
  "quote_measure t s = 2 * quotes s + (if find_text t s = Some 0 then 1 else 0)"

lemma replace_at_measure:
  assumes "replaces t r" "find_text t s = Some p"
  shows "quote_measure t (replace_at t r p s) < quote_measure t s"
proof -
  obtain b where s: "s = take p s @ t @ b" and len: "p + length t \<le> length s" using find_text_SomeD [OF assms(2)] by blast
  have q: "quotes r = 0" "0 < quotes t" using assms(1) by (auto simp: replaces_def count_list_0_iff zero_less_iff_neq_zero)
  have drop: "drop (p + length t) s = b" using s len by (metis append.assoc append_eq_conv_conj length_append length_take min.absorb2 add_leD1)
  have qs: "quotes s = quotes (take p s) + quotes t + quotes b" using s by (metis add.assoc count_list_append)
  show ?thesis
  proof (cases "find_quote (p + length t) s")
    case None
    show ?thesis
    proof (cases "p = 0")
      case True
      have "find_text t (r @ s) \<noteq> Some 0" using assms(1) by (cases r; cases t) (auto simp: replaces_def)
      then show ?thesis using None True assms q by (simp add: replace_at_def quote_measure_def)
    next
      case False
      then show ?thesis using None assms q qs by (auto simp: replace_at_def quote_measure_def)
    qed
  next
    case (Some e)
    then have "p + length t \<le> Suc e" by (auto simp: find_quote_def)
    from quotes_drop_mono [OF this, of s] show ?thesis using Some q qs drop by (auto simp: replace_at_def quote_measure_def)
  qed
qed

lemma Replace_CustomeType_total:
  assumes "replaces t r"
  shows "\<exists>u. Replace_CustomeType t r s = Some u \<and> \<not> sublist t u"
proof (induction "quote_measure t s" arbitrary: s rule: less_induct)
  case less
  show ?case
    using less [OF replace_at_measure [OF assms]] find_text_None [of t s]
    by (cases "find_text t s") (simp_all add: Replace_CustomeType.simps [of t r s])
qed

lemma replace_at_other:
  assumes "r \<noteq> []" "hd r \<notin> set u" "last r \<notin> set u" "\<not> sublist u r" "\<not> sublist u s"
  shows "\<not> sublist u (replace_at t r p s)"
proof -
  have "\<not> sublist u (take n s)" "\<not> sublist u (drop n s)" for n
    using assms(5) by (meson sublist_order.order_trans sublist_take sublist_drop)+
  then show ?thesis
    using assms sublist_around [OF assms(1-4), of "take p s"] sublist_around [OF assms(1-4), of "[]"]
      sublist_around [OF assms(1-4), of "take p s" "[]"] by (auto simp: replace_at_def split: option.split)
qed

lemma Replace_CustomeType_other:
  assumes "replaces t r" "r \<noteq> []" "hd r \<notin> set u" "last r \<notin> set u" "\<not> sublist u r" "\<not> sublist u s"
    and "Replace_CustomeType t r s = Some v"
  shows "\<not> sublist u v"
  using assms(6,7)
proof (induction "quote_measure t s" arbitrary: s rule: less_induct)
  case less
  show ?case
    using less.hyps [OF replace_at_measure [OF assms(1)] replace_at_other [OF assms(2-5) less.prems(1)]] less.prems
    by (cases "find_text t s") (simp_all add: Replace_CustomeType.simps [of t r s])
qed

text \<open>
  The declaration of a function loses every fixed and every counted array: each becomes a pointer, however many
  there are and even when a closing quote is missing, and the loops end.
\<close>

lemma custom_types_ends:
  "\<exists>u. custom_types t = Some u \<and> \<not> sublist needle1 u \<and> \<not> sublist needle2 u"
proof -
  have ok: "replaces needle1 (wide ''WCHAR*'')" "replaces needle2 (wide ''WCHAR*'')"
    by (simp_all add: replaces_def needle1_def needle2_def wide_def)
  obtain v where v: "Replace_CustomeType needle1 (wide ''WCHAR*'') t = Some v" "\<not> sublist needle1 v"
    using Replace_CustomeType_total [OF ok(1)] by blast
  obtain u where u: "Replace_CustomeType needle2 (wide ''WCHAR*'') v = Some u" "\<not> sublist needle2 u"
    using Replace_CustomeType_total [OF ok(2)] by blast
  have "\<not> sublist needle1 u"
  proof (rule Replace_CustomeType_other [OF ok(2) _ _ _ _ v(2) u(1)])
    show "\<not> sublist needle1 (wide ''WCHAR*'')" by (auto simp: needle1_def wide_def dest!: set_mono_sublist)
  qed (simp_all add: needle1_def wide_def)
  with u v show ?thesis by (simp add: custom_types_def)
qed

end
