(* ===== verification/IdlProps.thy ===== *)
theory IdlProps
  imports IdlText
begin

text \<open>
  What the front end of the interface compiler does: every call of \<^verbatim>\<open>WordSplit\<close> returns or faults, the packets of
  a group are numbered from its base, and the loop of \<^verbatim>\<open>main\<close> leaves the text only by reading behind it.
\<close>

section \<open>Scanning\<close>

lemma find_ch_InrD: "find_ch mem cs r = Inr e \<Longrightarrow> r \<le> e \<and> e < length mem \<and> mem ! e \<in> cs"
  by (induction mem cs r rule: find_ch.induct) (subst (asm) (2) find_ch.simps, auto split: if_splits)

lemma find_ch_InlD: "find_ch mem cs r = Inl f \<Longrightarrow> f = OutsideRead"
  by (induction mem cs r rule: find_ch.induct) (subst (asm) (2) find_ch.simps, auto split: if_splits)

lemma find_ch_hit:
  assumes "mem = pre @ mid @ c # post" "set mid \<inter> cs = {}" "c \<in> cs" "r = length pre"
  shows "find_ch mem cs r = Inr (length pre + length mid)"
  using assms
proof (induction mid arbitrary: pre r)
  case Nil
  then show ?case by (subst find_ch.simps) simp
next
  case (Cons x mid)
  have "find_ch mem cs (Suc r) = Inr (length (pre @ [x]) + length mid)"
    by (rule Cons.IH) (use Cons.prems in auto)
  moreover have "mem ! r = x" "r < length mem" "x \<notin> cs" using Cons.prems by (auto simp: nth_append)
  ultimately show ?case by (subst find_ch.simps) simp
qed

lemma define_end_InrD: "define_end mem limit r = Inr e \<Longrightarrow> r \<le> e \<and> e \<le> max r limit"
  by (induction mem limit r rule: define_end.induct) (subst (asm) (2) define_end.simps, auto split: if_splits)

lemma define_end_InlD: "define_end mem limit r = Inl f \<Longrightarrow> f = OutsideRead"
  by (induction mem limit r rule: define_end.induct) (subst (asm) (2) define_end.simps, auto split: if_splits)

lemma word_end_InrD:
  "word_end mem limit r = Inr (e, ended) \<Longrightarrow>
   r \<le> e \<and> e \<le> max r limit \<and> (ended \<longrightarrow> e < limit \<and> e < length mem \<and> blank_after (mem ! e)) \<and> (\<not> ended \<longrightarrow> limit \<le> e)"
  by (induction mem limit r rule: word_end.induct) (subst (asm) (2) word_end.simps, auto split: if_splits)

lemma word_end_InlD: "word_end mem limit r = Inl f \<Longrightarrow> f = OutsideRead"
  by (induction mem limit r rule: word_end.induct) (subst (asm) (2) word_end.simps, auto split: if_splits)

lemma start_not_blank: "start_ch c \<Longrightarrow> \<not> blank_after c"
  by (auto simp: start_ch_def blank_after_def)

fun scan_place :: "idl_scan \<Rightarrow> nat" where
  "scan_place (ScanRemark e) = e" | "scan_place (ScanDefine t e) = e" | "scan_place (ScanWord l) = l"

definition scan_ok :: "u16 list \<Rightarrow> nat \<Rightarrow> nat \<Rightarrow> idl_scan \<Rightarrow> bool" where
  "scan_ok mem limit r found \<longleftrightarrow> r \<le> scan_place found \<and>
     (case found of
        ScanRemark e \<Rightarrow> r < e \<and> e < length mem \<and> mem ! e = newline_ch
      | ScanDefine t e \<Rightarrow> (\<exists>h<length mem. mem ! h = hash_ch \<and> e \<le> max h limit) \<and> (e = r \<longrightarrow> limit \<le> r)
      | ScanWord l \<Rightarrow> l < length mem \<and> start_ch (mem ! l))"

lemma scan_ok_Suc: "scan_ok mem limit (Suc r) found \<Longrightarrow> scan_ok mem limit r found"
  by (auto simp: scan_ok_def split: idl_scan.splits)

lemma scan_remark_ok: "\<lbrakk>find_ch mem {newline_ch} r = Inr e; mem ! r = slash_ch\<rbrakk> \<Longrightarrow> scan_ok mem limit r (ScanRemark e)"
  by (drule find_ch_InrD) (auto simp: scan_ok_def le_less)

lemma scan_define_ok:
  "\<lbrakk>define_end mem limit r = Inr e; r < length mem; mem ! r = hash_ch\<rbrakk> \<Longrightarrow> scan_ok mem limit r (ScanDefine t e)"
  by (frule define_end_InrD, subst (asm) define_end.simps) (auto simp: scan_ok_def split: if_splits dest!: define_end_InrD)

lemma start_ch_brace: "start_ch c \<Longrightarrow> brace c s = Inr s"
  by (auto simp: start_ch_def brace_def)

lemma brace_InlD: "brace c s = Inl f \<Longrightarrow> f = EmptyVector"
  by (auto simp: brace_def split: if_splits)

text \<open>A character the first loop passes.\<close>

lemma scan_word_pass:
  "\<lbrakk>r < length mem; mem ! r \<noteq> slash_ch; mem ! r \<noteq> hash_ch; \<not> start_ch (mem ! r)\<rbrakk> \<Longrightarrow>
   scan_word mem limit r s = err_bind (brace (mem ! r) s) (scan_word mem limit (Suc r))"
  by (subst scan_word.simps) simp

lemma scan_word_start:
  "\<lbrakk>r < length mem; start_ch (mem ! r)\<rbrakk> \<Longrightarrow> scan_word mem limit r s = Inr (ScanWord r, s)"
  by (subst scan_word.simps) (auto simp: start_ch_brace start_ch_def)

text \<open>Induction over the characters the first loop passes.\<close>

lemma scan_word_induct [case_names outside remark pragma start pass]:
  assumes "\<And>r s. length mem \<le> r \<Longrightarrow> P r s"
    and "\<And>r s. \<lbrakk>r < length mem; mem ! r = slash_ch\<rbrakk> \<Longrightarrow> P r s"
    and "\<And>r s. \<lbrakk>r < length mem; mem ! r = hash_ch\<rbrakk> \<Longrightarrow> P r s"
    and "\<And>r s. \<lbrakk>r < length mem; start_ch (mem ! r)\<rbrakk> \<Longrightarrow> P r s"
    and "\<And>r s. \<lbrakk>r < length mem; mem ! r \<noteq> slash_ch; mem ! r \<noteq> hash_ch; \<not> start_ch (mem ! r); \<And>s. P (Suc r) s\<rbrakk> \<Longrightarrow> P r s"
  shows "P r s"
proof (induction "length mem - r" arbitrary: r s rule: less_induct)
  case less
  show ?case
    using assms less by (metis diff_less_mono2 lessI not_le)
qed

lemma scan_word_InrD: "scan_word mem limit r s = Inr (found, s1) \<Longrightarrow> scan_ok mem limit r found"
proof (induction r s arbitrary: s1 rule: scan_word_induct [where mem = mem])
  case (outside r s)
  then show ?case by (simp add: scan_word.simps [of mem limit r s])
next
  case (remark r s)
  then show ?case by (auto simp: scan_word.simps [of mem limit r s] elim!: err_bind_InrE intro: scan_remark_ok)
next
  case (pragma r s)
  then show ?case
    by (auto simp: scan_word.simps [of mem limit r s] Let_def elim!: err_bind_InrE intro: scan_define_ok)
next
  case (start r s)
  then show ?case by (auto simp: scan_word_start scan_ok_def)
next
  case (pass r s)
  then show ?case by (auto simp: scan_word_pass elim!: err_bind_InrE intro: scan_ok_Suc)
qed

lemma scan_word_InlD: "scan_word mem limit r s \<noteq> Inl NoFuel"
proof (induction r s rule: scan_word_induct [where mem = mem])
  case (outside r s)
  then show ?case by (simp add: scan_word.simps [of mem limit r s])
next
  case (remark r s)
  then show ?case by (auto simp: scan_word.simps [of mem limit r s] err_bind_def split: sum.splits dest: find_ch_InlD)
next
  case (pragma r s)
  then show ?case
    by (auto simp: scan_word.simps [of mem limit r s] Let_def err_bind_def split: sum.splits dest: define_end_InlD)
next
  case (start r s)
  then show ?case by (simp add: scan_word_start)
next
  case (pass r s)
  then show ?case by (auto simp: scan_word_pass err_bind_def split: sum.splits dest: brace_InlD)
qed

section \<open>Every call returns or faults\<close>

lemma idl_constant_InrD:
  "idl_constant mem temp r s = Inr (r', temp', s') \<Longrightarrow>
   r \<le> r' \<and> (r' = r \<or> r' < length mem \<and> mem ! r' = newline_ch) \<and> (\<exists>b. temp' = Some (b, True))"
  by (auto simp: idl_constant_def Let_def elim!: err_bind_InrE split: if_splits option.splits bool.splits dest!: find_ch_InrD)

lemma idl_constant_fuel: "idl_constant mem temp r s \<noteq> Inl NoFuel"
  by (auto simp: idl_constant_def Let_def err_bind_def split: if_splits sum.splits option.splits bool.splits
      dest!: find_ch_InlD)

lemma FuncMaker_InrD:
  "FuncMaker room mem r s = Inr (r', temp', s') \<Longrightarrow> r \<le> r' \<and> r' < length mem \<and> mem ! r' = semicolon_ch"
  by (auto simp: FuncMaker_def Let_def elim!: err_bind_InrE split: option.splits if_splits dest!: find_ch_InrD)

lemma FuncMaker_fuel: "FuncMaker room mem r s \<noteq> Inl NoFuel"
proof (cases "find_ch mem {semicolon_ch} r")
  case (Inl f)
  then show ?thesis using find_ch_InlD [OF Inl] by (simp add: FuncMaker_def)
next
  case (Inr e)
  obtain u where "custom_types (idl_text mem r e) = Some u" using custom_types_ends by blast
  with Inr show ?thesis by (simp add: FuncMaker_def Let_def)
qed

lemma GlobalPacketSplit_InrE:
  assumes "GlobalPacketSplit split held r s = Inr (r', temp', s')"
  obtains r1 k h s1 r2 t2 s2 r3 t3 where "split r None s = Inr (r1, Some (k, h), s1)"
    "split r1 None (s1\<lparr>packStartnum := packStartnum s1 @ [k]\<rparr>) = Inr (r2, t2, s2)"
    "split r2 None s2 = Inr (r', t3, r3)"
  using assms
  by (auto simp: GlobalPacketSplit_def Let_def elim!: err_bind_InrE split: if_splits option.splits bool.splits)

lemma GlobalPacketSplit_fuel:
  assumes fuel: "\<And>r' s. r \<le> r' \<Longrightarrow> split r' None s \<noteq> Inl NoFuel"
    and mono: "\<And>r' s r2 t s2. split r' None s = Inr (r2, t, s2) \<Longrightarrow> r' \<le> r2"
  shows "GlobalPacketSplit split held r s \<noteq> Inl NoFuel"
proof -
  have last: "err_bind (split r' None s') (\<lambda>(r3, val, s3).
        case (q, val) of
          (Some (q, False), Some (v, False)) \<Rightarrow>
            let b = printed (PackStartFormat k v) in Inr (r3, Some (b, True), s3\<lparr>gCommonVec := gCommonVec s3 @ [b]\<rparr>)
        | _ \<Rightarrow> Inl FreedWord) \<noteq> Inl NoFuel" if "r \<le> r'" for r' s' q k
    using fuel [OF that, of s'] by (auto simp: err_bind_def Let_def split: sum.split option.split bool.split)
  have mid: "err_bind (split r' None s') (\<lambda>(r2, equle, s2). err_bind (split r2 None s2) (\<lambda>(r3, val, s3).
        case (equle, val) of
          (Some (q, False), Some (v, False)) \<Rightarrow>
            let b = printed (PackStartFormat k v) in Inr (r3, Some (b, True), s3\<lparr>gCommonVec := gCommonVec s3 @ [b]\<rparr>)
        | _ \<Rightarrow> Inl FreedWord)) \<noteq> Inl NoFuel" if "r \<le> r'" for r' s' k
  proof (cases "split r' None s'")
    case (Inl f)
    then show ?thesis using fuel [OF that, of s'] by simp
  next
    case (Inr x)
    obtain r2 t s2 where "x = (r2, t, s2)" by (cases x)
    with Inr that show ?thesis using mono [of r' s'] last [of r2] by simp
  qed
  show ?thesis
  proof (cases "split r None s")
    case (Inl f)
    then show ?thesis using fuel [OF order.refl, of s] by (simp add: GlobalPacketSplit_def)
  next
    case (Inr x)
    then show ?thesis using mono [of r s] mid
      by (cases x) (auto simp: GlobalPacketSplit_def split: option.split)
  qed
qed

text \<open>The ways a call returns.\<close>

lemma act_on_word_InrE:
  assumes "act_on_word room split mem temp e s = Inr (r', temp', s')"
  obtains (name) "idl_constant mem temp e s = Inr (r', temp', s')"
  | (group) held s2 where "temp = Some (wide ''global'', held)" "GlobalPacketSplit split held e s = Inr (r', temp', s2)"
  | (func) "FuncMaker room mem e s = Inr (r', temp', s')"
  | (other) "r' = e" "temp' = temp" "s' = s"
  using assms by (fastforce simp: act_on_word_def elim!: err_bind_InrE split: if_splits option.splits)

lemma WordSplit_InrE:
  assumes "WordSplit room (Suc n) mem limit r temp s = Inr (r', temp', s')"
  obtains (remark) "scan_word mem limit r s = Inr (ScanRemark r', s')"
  | (pragma) t where "scan_word mem limit r s = Inr (ScanDefine t r', s')"
  | (word) l s1 e ended where "scan_word mem limit r s = Inr (ScanWord l, s1)" "word_end mem limit l = Inr (e, ended)"
      "act_on_word room (WordSplit room n mem limit) mem (if ended then Some (idl_text mem l e, False) else temp) e s1 =
       Inr (r', temp', s')"
  using assms by (auto elim!: err_bind_InrE split: idl_scan.splits)

text \<open>The word at the end of the first two loops.\<close>

lemma WordSplit_word:
  assumes "scan_word mem limit r s = Inr (ScanWord l, s1)" "word_end mem limit l = Inr (e, ended)"
  shows "r \<le> e" "e \<le> max l limit" "l < length mem" "ended \<longrightarrow> r < e \<and> e < length mem \<and> e < limit" "\<not> ended \<longrightarrow> limit \<le> e"
  using scan_word_InrD [OF assms(1)] word_end_InrD [OF assms(2)] start_not_blank [of "mem ! l"]
  by (auto simp: scan_ok_def le_less)

lemma act_on_word_mono:
  assumes "\<And>r temp s r' temp' s'. split r temp s = Inr (r', temp', s') \<Longrightarrow> r \<le> r'"
    and "act_on_word room split mem temp e s = Inr (r', temp', s')"
  shows "e \<le> r'"
  using assms(2)
proof (cases rule: act_on_word_InrE)
  case (group held s2)
  from group(2) show ?thesis by (rule GlobalPacketSplit_InrE) (meson assms(1) order_trans)
qed (auto dest: idl_constant_InrD FuncMaker_InrD)

lemma WordSplit_mono: "WordSplit room n mem limit r temp s = Inr (r', temp', s') \<Longrightarrow> r \<le> r'"
proof (induction n arbitrary: r temp s r' temp' s')
  case (Suc n)
  from Suc.prems show ?case
  proof (cases rule: WordSplit_InrE)
    case (word l s1 e ended)
    have "e \<le> r'" by (rule act_on_word_mono [OF _ word(3)]) (rule Suc.IH)
    then show ?thesis using WordSplit_word(1) [OF word(1,2)] by simp
  qed (auto dest!: scan_word_InrD simp: scan_ok_def)
qed simp

text \<open>The nesting is no deeper than the text is long.\<close>

lemma act_on_word_fuel:
  assumes "\<And>held s. temp = Some (wide ''global'', held) \<Longrightarrow> GlobalPacketSplit split held e s \<noteq> Inl NoFuel"
  shows "act_on_word room split mem temp e s \<noteq> Inl NoFuel"
  using assms idl_constant_fuel [of mem temp e s] FuncMaker_fuel [of room mem e s]
  by (auto simp: act_on_word_def err_bind_def split: option.splits sum.splits)

lemma WordSplit_fuel_step:
  assumes "\<And>r' s. \<lbrakk>r \<le> r'; temp = None \<longrightarrow> r < r' \<and> r < length mem\<rbrakk> \<Longrightarrow> WordSplit room n mem limit r' None s \<noteq> Inl NoFuel"
  shows "WordSplit room (Suc n) mem limit r temp s \<noteq> Inl NoFuel"
proof (cases "scan_word mem limit r s")
  case (Inl f)
  then show ?thesis using scan_word_InlD [of mem limit r s] by simp
next
  case (Inr x)
  show ?thesis
  proof (cases "fst x")
    case (ScanWord l)
    show ?thesis
    proof (cases "word_end mem limit l")
      case Inl': (Inl f)
      then show ?thesis using Inr ScanWord by (cases x) (auto dest: word_end_InlD)
    next
      case Inr': (Inr y)
      obtain e ended s1 where y: "y = (e, ended)" "x = (ScanWord l, s1)" using ScanWord by (cases y; cases x) auto
      note w = WordSplit_word [OF Inr [unfolded y] Inr' [unfolded y]]
      let ?temp = "if ended then Some (idl_text mem l e, False) else temp"
      have "GlobalPacketSplit (WordSplit room n mem limit) held e s \<noteq> Inl NoFuel" if "?temp \<noteq> None" for held s
      proof (rule GlobalPacketSplit_fuel)
        show "WordSplit room n mem limit r' None s \<noteq> Inl NoFuel" if "e \<le> r'" for r' s
          by (rule assms) (use w that \<open>?temp \<noteq> None\<close> in \<open>auto split: if_splits\<close>)
      qed (use WordSplit_mono in auto)
      then have "act_on_word room (WordSplit room n mem limit) mem ?temp e s1 \<noteq> Inl NoFuel" by (intro act_on_word_fuel) simp
      with Inr Inr' y show ?thesis by simp
    qed
  qed (use Inr in \<open>cases x; auto\<close>)+
qed

lemma WordSplit_nested_fuel: "length mem - r < n \<Longrightarrow> WordSplit room n mem limit r None s \<noteq> Inl NoFuel"
proof (induction n arbitrary: r s)
  case (Suc n)
  show ?case by (rule WordSplit_fuel_step, rule Suc.IH) (use Suc.prems in \<open>simp, linarith\<close>)
qed simp

lemma WordSplit_fuel:
  assumes "length mem - r + 1 < n"
  shows "WordSplit room n mem limit r temp s \<noteq> Inl NoFuel"
proof -
  obtain m where "n = Suc m" using assms by (cases n) auto
  then show ?thesis using assms by (auto simp del: WordSplit.simps intro!: WordSplit_fuel_step WordSplit_nested_fuel)
qed

lemma idl_turn_fuel: "idl_turn room mem limit x \<noteq> Inl NoFuel"
  by (cases x) (auto simp: idl_turn_def intro!: WordSplit_fuel simp del: WordSplit.simps)

section \<open>The end of the text\<close>

text \<open>
  The characters that neither begin a word, a remark or a definition nor end a line or a function. Behind the limit
  there are only those.
\<close>

definition quiet_ch :: "u16 \<Rightarrow> bool" where
  "quiet_ch c \<longleftrightarrow> \<not> start_ch c \<and> c \<noteq> slash_ch \<and> c \<noteq> hash_ch \<and> c \<noteq> newline_ch \<and> c \<noteq> semicolon_ch"

definition quiet_behind :: "u16 list \<Rightarrow> nat \<Rightarrow> bool" where
  "quiet_behind mem limit \<longleftrightarrow> (\<forall>i. limit \<le> i \<and> i < length mem \<longrightarrow> quiet_ch (mem ! i))"

lemma not_behind: "\<lbrakk>quiet_behind mem limit; i < length mem; \<not> quiet_ch (mem ! i)\<rbrakk> \<Longrightarrow> i < limit"
  by (meson not_le quiet_behind_def)

lemma loud_chs: "start_ch c \<Longrightarrow> \<not> quiet_ch c" "\<not> quiet_ch newline_ch" "\<not> quiet_ch semicolon_ch" "\<not> quiet_ch hash_ch"
  by (simp_all add: quiet_ch_def)

lemma scan_word_behind: "\<lbrakk>quiet_behind mem limit; limit \<le> r\<rbrakk> \<Longrightarrow> \<exists>f. scan_word mem limit r s = Inl f"
proof (induction r s rule: scan_word_induct [where mem = mem])
  case (outside r s)
  then show ?case by (simp add: scan_word.simps [of mem limit r s])
next
  case (pass r s)
  show ?case
  proof (cases "brace (mem ! r) s")
    case (Inr s1)
    then show ?thesis using pass(5) [of s1] pass(1-4,6,7) by (auto simp: scan_word_pass)
  qed (use pass in \<open>simp add: scan_word_pass\<close>)
qed (auto simp: quiet_behind_def quiet_ch_def)

lemma WordSplit_range:
  assumes "quiet_behind mem limit" "WordSplit room n mem limit r temp s = Inr (r', temp', s')"
  shows "r' \<le> limit"
  using assms(2)
proof (induction n arbitrary: r temp s r' temp' s')
  case (Suc n)
  from Suc.prems show ?case
  proof (cases rule: WordSplit_InrE)
    case remark
    then show ?thesis using not_behind [OF assms(1), of r'] scan_word_InrD [OF remark] by (simp add: scan_ok_def loud_chs)
  next
    case (pragma t)
    then show ?thesis using not_behind [OF assms(1)] scan_word_InrD [OF pragma] by (fastforce simp: scan_ok_def max_def loud_chs)
  next
    case (word l s1 e ended)
    have "\<not> quiet_ch (mem ! l)" using scan_word_InrD [OF word(1)] by (auto simp: scan_ok_def loud_chs)
    with WordSplit_word(2,3) [OF word(1,2)] have e: "e \<le> limit" using not_behind [OF assms(1), of l] by simp
    from word(3) show ?thesis
    proof (cases rule: act_on_word_InrE)
      case name
      then show ?thesis using e not_behind [OF assms(1), of r'] by (auto simp: loud_chs dest!: idl_constant_InrD)
    next
      case (group held s2)
      from group(2) show ?thesis by (rule GlobalPacketSplit_InrE) (rule Suc.IH)
    next
      case func
      then show ?thesis using not_behind [OF assms(1), of r'] by (auto simp: loud_chs dest!: FuncMaker_InrD)
    qed (use e in simp)
  qed
qed simp

text \<open>Before the limit every call gets on.\<close>

lemma WordSplit_progress:
  assumes "WordSplit room n mem limit r temp s = Inr (r', temp', s')" "r < limit"
  shows "r < r'"
proof (cases n)
  case (Suc m)
  from assms(1) [unfolded Suc] show ?thesis
  proof (cases rule: WordSplit_InrE)
    case (word l s1 e ended)
    have "e \<le> r'" by (rule act_on_word_mono [OF _ word(3)]) (rule WordSplit_mono)
    moreover have "r < e" using WordSplit_word(4,5) [OF word(1,2)] assms(2) by auto
    ultimately show ?thesis by simp
  qed (use assms(2) in \<open>auto dest!: scan_word_InrD simp: scan_ok_def le_less\<close>)
qed (use assms in simp)

lemma idl_loop_fails:
  assumes "quiet_behind mem limit" "fst x \<le> limit"
  shows "\<exists>f. idl_loop room mem limit x = Some (Inl f) \<and> f \<noteq> NoFuel"
  using assms(2)
proof (induction "limit - fst x" arbitrary: x rule: less_induct)
  case less
  obtain r temp s where x: "x = (r, temp, s)" by (cases x)
  show ?case
  proof (cases "idl_turn room mem limit x")
    case (Inl f)
    then show ?thesis using less.prems idl_turn_fuel [of room mem limit x] by (subst idl_loop.simps) auto
  next
    case (Inr y)
    then obtain r' temp' s' where y: "y = (r', temp', s')"
      and run: "WordSplit room (length mem + 2) mem limit r temp s = Inr (r', temp', s')" unfolding x idl_turn_def by (cases y) auto
    have "r < limit" using run scan_word_behind [OF assms(1), of r s] by (cases "limit \<le> r") auto
    then have "\<exists>f. idl_loop room mem limit y = Some (Inl f) \<and> f \<noteq> NoFuel"
      using WordSplit_progress [OF run] WordSplit_range [OF assms(1) run] by (intro less.hyps) (auto simp: x y)
    then show ?thesis using Inr less.prems by (subst idl_loop.simps) auto
  qed
qed

text \<open>
  C36: the compiler never gets to write its files when what lies in the allocation behind the terminator, which is
  whatever \<^verbatim>\<open>malloc\<close> left there, holds no character that begins a word, a remark or a definition and none that ends a line
  or a function. The first loop of \<^verbatim>\<open>WordSplit\<close> has no limit, so the call behind the last word runs out of the
  allocation, or a fault comes before; \<^verbatim>\<open>main\<close> does not end in another way, and does not run for ever. So
  it finishes only by such a character that happens to be there.
\<close>

theorem idl_main_leaves_text:
  assumes "0 \<notin> set t" "\<forall>c\<in>set junk. quiet_ch c"
  shows "\<exists>f. idl_main room (t @ 0 # junk) = Some (Inl f) \<and> f \<noteq> NoFuel"
proof -
  let ?mem = "t @ 0 # junk"
  have "find_ch ?mem {0} 0 = Inr (length t)" using find_ch_hit [of ?mem "[]" t 0 junk "{0}" 0] assms by auto
  moreover have "quiet_behind ?mem (Suc (length t))" using assms(2) by (auto simp: quiet_behind_def nth_append nth_Cons')
  from idl_loop_fails [OF this, of "(0, None, new_idl)"] obtain f
    where "idl_loop room ?mem (Suc (length t)) (0, None, new_idl) = Some (Inl f)" "f \<noteq> NoFuel" by auto
  ultimately show ?thesis by (simp add: idl_main_def)
qed

lemma idl_main_leaves_text_witness:
  "\<exists>f. idl_main (\<lambda>n. n + 8) (wide ''global Chatting = 0 '' @ 0 # [0, 44, 0, 52685]) = Some (Inl f) \<and> f \<noteq> NoFuel"
  by (rule idl_main_leaves_text) (simp_all add: wide_def quiet_ch_def start_ch_def)

end
