(* ===== verification/IdlGrammar.thy ===== *)
theory IdlGrammar
  imports IdlProps
begin

text \<open>
  Interface files as the servers have them, and what the compiler collects from them: groups of packet names,
  functions, definitions and remarks. Each is one call of \<^verbatim>\<open>WordSplit\<close>, and each name of a group one more.
\<close>

section \<open>The grammar\<close>

datatype item = Plain wtext | Custom wtext wtext | Note wtext

datatype decl = Group wtext wtext "item list" | Func wtext | Pragma wtext | Comment wtext

fun item_text :: "item \<Rightarrow> wtext" where
  "item_text (Plain n) = tab_ch # n @ [blank_ch, comma_ch, newline_ch]"
| "item_text (Custom n v) = tab_ch # n @ [blank_ch, equals_ch] @ v @ [newline_ch]"
| "item_text (Note t) = slash_ch # slash_ch # t @ [newline_ch]"

fun decl_text :: "decl \<Rightarrow> wtext" where
  "decl_text (Group k b is) =
     wide ''global'' @ [blank_ch] @ k @ [blank_ch, equals_ch, blank_ch] @ b @ [newline_ch, open_ch, newline_ch] @
     concat (map item_text is) @ [close_ch, newline_ch]"
| "decl_text (Func t) = wide ''void'' @ [blank_ch] @ t @ [semicolon_ch, newline_ch]"
| "decl_text (Pragma t) = hash_ch # t @ [newline_ch]"
| "decl_text (Comment t) = slash_ch # slash_ch # t @ [newline_ch]"

definition word_ok :: "wtext \<Rightarrow> bool" where
  "word_ok w \<longleftrightarrow> w \<noteq> [] \<and> start_ch (hd w) \<and> (\<forall>c\<in>set w. \<not> blank_after c \<and> c \<noteq> 0)"

definition own_word :: "wtext \<Rightarrow> bool" where
  "own_word w \<longleftrightarrow> word_ok w \<and> w \<noteq> wide ''global'' \<and> w \<noteq> wide ''void''"

definition line_free :: "wtext \<Rightarrow> bool" where
  "line_free t \<longleftrightarrow> newline_ch \<notin> set t \<and> 0 \<notin> set t"

fun item_ok :: "item \<Rightarrow> bool" where
  "item_ok (Plain n) \<longleftrightarrow> word_ok n"
| "item_ok (Custom n v) \<longleftrightarrow> word_ok n \<and> line_free v"
| "item_ok (Note t) \<longleftrightarrow> line_free t"

fun decl_ok :: "decl \<Rightarrow> bool" where
  "decl_ok (Group k b is) \<longleftrightarrow> own_word k \<and> own_word b \<and> (\<forall>i\<in>set is. item_ok i)"
| "decl_ok (Func t) \<longleftrightarrow> semicolon_ch \<notin> set t \<and> 0 \<notin> set t"
| "decl_ok (Pragma t) \<longleftrightarrow> line_free t"
| "decl_ok (Comment t) \<longleftrightarrow> line_free t"

text \<open>
  The lines of the header: the names of a group count from its base, and a value of its own becomes the base of the
  names behind it.
\<close>

fun item_lines :: "wtext \<Rightarrow> int \<Rightarrow> item list \<Rightarrow> wtext list" where
  "item_lines base c [] = []"
| "item_lines base c (Plain n # is) = printed (CMessageDefaultFormat n base c) # item_lines base (c + 1) is"
| "item_lines base c (Custom n v # is) = printed (CMessageCustomFormat n v) # item_lines v 0 is"
| "item_lines base c (Note t # is) = item_lines base c is"

fun decl_lines :: "decl \<Rightarrow> wtext list" where
  "decl_lines (Group k b is) = printed (PackStartFormat k b) # item_lines k 0 is"
| "decl_lines _ = []"

fun decl_defines :: "decl \<Rightarrow> wtext list" where
  "decl_defines (Pragma t) = [hash_ch # t]"
| "decl_defines _ = []"

fun decl_functions :: "decl \<Rightarrow> wtext list" where
  "decl_functions (Func t) = [blank_ch # t]"
| "decl_functions _ = []"

fun decl_turns :: "decl \<Rightarrow> nat" where
  "decl_turns (Group k b is) = Suc (length is)"
| "decl_turns _ = 1"

section \<open>One call over known text\<close>

text \<open>A character the first loop passes without an effect.\<close>

definition gap_ch :: "u16 \<Rightarrow> bool" where
  "gap_ch c \<longleftrightarrow> \<not> start_ch c \<and> c \<noteq> slash_ch \<and> c \<noteq> hash_ch \<and> c \<noteq> open_ch \<and> c \<noteq> close_ch"

lemma gap_chs:
  "gap_ch blank_ch" "gap_ch tab_ch" "gap_ch newline_ch" "gap_ch comma_ch" "gap_ch semicolon_ch" "gap_ch 0"
  by (simp_all add: gap_ch_def start_ch_def)

lemma gap_ch_pass: "gap_ch c \<Longrightarrow> c \<noteq> slash_ch \<and> c \<noteq> hash_ch \<and> \<not> start_ch c \<and> brace c s = Inr s"
  by (simp add: gap_ch_def brace_def)

lemma scan_word_gap:
  assumes "mem = pre @ gap @ post" "\<forall>c\<in>set gap. gap_ch c"
  shows "scan_word mem limit (length pre) s = scan_word mem limit (length pre + length gap) s"
  using assms
proof (induction gap arbitrary: pre)
  case (Cons c gap)
  have "scan_word mem limit (length pre) s = scan_word mem limit (length (pre @ [c])) s"
    using Cons.prems gap_ch_pass [of c s] by (simp add: scan_word_pass)
  also have "\<dots> = scan_word mem limit (length (pre @ [c]) + length gap) s"
    by (rule Cons.IH) (use Cons.prems in auto)
  finally show ?case by simp
qed simp

lemma scan_word_brace:
  assumes "mem = pre @ c # post" "c = open_ch \<or> c = close_ch" "brace c s = Inr s1"
  shows "scan_word mem limit (length pre) s = scan_word mem limit (Suc (length pre)) s1"
proof -
  have "\<not> start_ch c" "c \<noteq> slash_ch" "c \<noteq> hash_ch" using assms(2) by (auto simp: start_ch_def)
  with assms show ?thesis by (simp add: scan_word_pass)
qed

lemma word_end_hit:
  assumes "mem = pre @ mid @ c # post" "\<forall>x\<in>set mid. \<not> blank_after x" "blank_after c" "length pre + length mid < limit"
    and "r = length pre"
  shows "word_end mem limit r = Inr (length pre + length mid, True)"
  using assms
proof (induction mid arbitrary: pre r)
  case Nil
  then show ?case by (subst word_end.simps) simp
next
  case (Cons x mid)
  have "word_end mem limit (Suc r) = Inr (length (pre @ [x]) + length mid, True)"
    by (rule Cons.IH) (use Cons.prems in auto)
  moreover have "mem ! r = x" "r < length mem" "\<not> blank_after x" "r < limit" using Cons.prems by (auto simp: nth_append)
  ultimately show ?case by (subst word_end.simps) simp
qed

lemma define_end_hit:
  assumes "mem = pre @ mid @ newline_ch # post" "newline_ch \<notin> set mid" "length pre + length mid < limit" "r = length pre"
  shows "define_end mem limit r = Inr (length pre + length mid)"
  using assms
proof (induction mid arbitrary: pre r)
  case Nil
  then show ?case by (subst define_end.simps) simp
next
  case (Cons x mid)
  have "define_end mem limit (Suc r) = Inr (length (pre @ [x]) + length mid)"
    by (rule Cons.IH) (use Cons.prems in auto)
  moreover have "mem ! r = x" "r < length mem" "x \<noteq> newline_ch" "r < limit" using Cons.prems by (auto simp: nth_append)
  ultimately show ?case by (subst define_end.simps) simp
qed

lemma idl_text_mid: "\<lbrakk>mem = pre @ w @ post; 0 \<notin> set w\<rbrakk> \<Longrightarrow> idl_text mem (length pre) (length pre + length w) = w"
  by (auto simp: idl_text_def)

declare WordSplit.simps(2) [simp del]

text \<open>The first loop comes to the text behind \<open>pre\<close> with the state \<open>s0\<close>.\<close>

definition comes_to :: "u16 list \<Rightarrow> nat \<Rightarrow> nat \<Rightarrow> idl \<Rightarrow> wtext \<Rightarrow> idl \<Rightarrow> bool" where
  "comes_to mem limit r s pre s0 \<longleftrightarrow> scan_word mem limit r s = scan_word mem limit (length pre) s0"

lemma WordSplit_at_word:
  assumes "comes_to mem limit r s pre s0" "mem = pre @ w @ c # post" "word_ok w" "blank_after c" "length pre + length w < limit"
  shows "WordSplit room (Suc n) mem limit r temp s =
    act_on_word room (WordSplit room n mem limit) mem (Some (w, False)) (length pre + length w) s0"
proof -
  have "start_ch (mem ! length pre)" "length pre < length mem" using assms(2,3) by (auto simp: word_ok_def nth_append hd_conv_nth)
  then have "scan_word mem limit r s = Inr (ScanWord (length pre), s0)"
    using assms(1) by (simp add: comes_to_def scan_word_start)
  moreover have "word_end mem limit (length pre) = Inr (length pre + length w, True)"
    by (rule word_end_hit [OF assms(2) _ assms(4,5) refl]) (use assms(3) in \<open>simp add: word_ok_def\<close>)
  moreover have "idl_text mem (length pre) (length pre + length w) = w"
    by (rule idl_text_mid [OF assms(2)]) (use assms(3) in \<open>auto simp: word_ok_def\<close>)
  ultimately show ?thesis by (simp add: WordSplit.simps)
qed

lemma comes_to_start: "comes_to mem limit (length pre) s pre s"
  by (simp add: comes_to_def)

lemma comes_to_gap:
  assumes "comes_to mem limit r s pre s0" "mem = pre @ gap @ post" "\<forall>c\<in>set gap. gap_ch c" "pre' = pre @ gap"
  shows "comes_to mem limit r s pre' s0"
  using assms(1,4) scan_word_gap [OF assms(2,3)] by (simp add: comes_to_def)

lemma comes_to_brace:
  assumes "comes_to mem limit r s pre s0" "mem = pre @ c # post" "c = open_ch \<or> c = close_ch" "brace c s0 = Inr s1"
    and "pre' = pre @ [c]"
  shows "comes_to mem limit r s pre' s1"
  using assms(1,5) scan_word_brace [OF assms(2-4)] by (simp add: comes_to_def)

lemma WordSplit_at_remark:
  assumes "comes_to mem limit r s pre s0" "mem = pre @ slash_ch # slash_ch # t @ newline_ch # post" "newline_ch \<notin> set t"
  shows "WordSplit room (Suc n) mem limit r temp s = Inr (length pre + length t + 2, Some ([], False), s0)"
proof -
  have "find_ch mem {newline_ch} (length pre) = Inr (length pre + length (slash_ch # slash_ch # t))"
    by (rule find_ch_hit) (use assms(2,3) in auto)
  then have "scan_word mem limit r s = Inr (ScanRemark (length pre + length t + 2), s0)"
    using assms(1) unfolding comes_to_def scan_word.simps [of mem limit "length pre"] by (simp add: assms(2) Let_def)
  then show ?thesis by (simp add: WordSplit.simps)
qed

lemma WordSplit_at_pragma:
  assumes "comes_to mem limit r s pre s0" "mem = pre @ hash_ch # t @ newline_ch # post" "line_free t"
    and "length pre + length t + 1 < limit"
  shows "WordSplit room (Suc n) mem limit r temp s =
    Inr (length pre + length t + 1, Some (hash_ch # t, True), s0\<lparr>gDefineVec := gDefineVec s0 @ [hash_ch # t]\<rparr>)"
proof -
  have "define_end mem limit (length pre) = Inr (length pre + length (hash_ch # t))"
    by (rule define_end_hit) (use assms(2-4) in \<open>auto simp: line_free_def\<close>)
  moreover have "idl_text mem (length pre) (length pre + length (hash_ch # t)) = hash_ch # t"
    by (rule idl_text_mid [where post = "newline_ch # post"]) (use assms(2,3) in \<open>auto simp: line_free_def\<close>)
  ultimately have "scan_word mem limit r s = Inr (ScanDefine (hash_ch # t) (length pre + length t + 1),
      s0\<lparr>gDefineVec := gDefineVec s0 @ [hash_ch # t]\<rparr>)"
    using assms(1) unfolding comes_to_def scan_word.simps [of mem limit "length pre"] by (simp add: assms(2) Let_def)
  then show ?thesis by (simp add: WordSplit.simps)
qed

section \<open>The names of a group\<close>

fun item_step :: "item \<Rightarrow> idl \<Rightarrow> idl" where
  "item_step (Plain n) s =
     s\<lparr>idl_cnt := idl_cnt s + 1,
       gCommonVec := gCommonVec s @ [printed (CMessageDefaultFormat n (packStartnum s ! 0) (idl_cnt s))]\<rparr>"
| "item_step (Custom n v) s =
     s\<lparr>packStartnum := [v], idl_cnt := 0, gCommonVec := gCommonVec s @ [printed (CMessageCustomFormat n v)]\<rparr>"
| "item_step (Note t) s = s"

lemma item_step_keeps [simp]:
  "bChk (item_step i s) = bChk s" "length (packStartnum s) = 1 \<Longrightarrow> length (packStartnum (item_step i s)) = 1"
  by (cases i; simp)+

text \<open>The word a call leaves behind, when it is not a keyword.\<close>

definition idle_word :: "word_ptr \<Rightarrow> bool" where
  "idle_word temp \<longleftrightarrow> (\<exists>w h. temp = Some (w, h) \<and> w \<noteq> wide ''global'' \<and> w \<noteq> wide ''void'')"

lemma idle_words [simp]:
  "idle_word (Some ([], h))" "idle_word (Some (hash_ch # t, h))" "idle_word (Some (blank_ch # t, h))"
  "idle_word (Some (printed (PackStartFormat k v), h))" "idle_word (Some (printed (CMessageDefaultFormat n k c), h))"
  "idle_word (Some (printed (CMessageCustomFormat n v), h))"
  by (auto simp: idle_word_def wide_def printed_def BufferMax_def PackStartFormat_def CMessageDefaultFormat_def
      CMessageCustomFormat_def take_Cons')

lemma item_turn:
  assumes at: "comes_to mem limit r s pre s0" and mem: "mem = pre @ item_text i @ post" and ok: "item_ok i"
    and lim: "length pre + length (item_text i) \<le> limit" and st: "bChk s0" "length (packStartnum s0) = 1"
  shows "\<exists>r' temp'. WordSplit room (Suc n) mem limit r temp s = Inr (r', temp', item_step i s0) \<and>
    comes_to mem limit r' (item_step i s0) (pre @ item_text i) (item_step i s0) \<and>
    r' \<le> length (pre @ item_text i) \<and> idle_word temp'"
proof -
  obtain base where base: "packStartnum s0 = [base]" using st(2) by (auto simp: length_Suc_conv)
  have tab: "comes_to mem limit r s (pre @ [tab_ch]) s0" if "mem = pre @ tab_ch # rest" for rest
    by (rule comes_to_gap [OF at, of "[tab_ch]" rest]) (use that in \<open>auto simp: gap_chs\<close>)
  show ?thesis
  proof (cases i)
    case (Plain w)
    let ?r = "length (pre @ [tab_ch]) + length w"
    have "find_ch mem {newline_ch, equals_ch} ?r = Inr (length (pre @ tab_ch # w) + length [blank_ch, comma_ch])"
      by (rule find_ch_hit [where post = post]) (use mem Plain in auto)
    then have "WordSplit room (Suc n) mem limit r temp s =
        Inr (?r, Some (printed (CMessageDefaultFormat w base (idl_cnt s0)), True), item_step i s0)"
      using mem Plain ok lim st base
      by (subst WordSplit_at_word [OF tab, of _ w blank_ch "comma_ch # newline_ch # post"])
        (auto simp: act_on_word_def idl_constant_def blank_after_def Let_def nth_append)
    moreover have "comes_to mem limit ?r (item_step i s0) (pre @ item_text i) (item_step i s0)"
      using comes_to_gap [OF comes_to_start, of mem "pre @ tab_ch # w" "[blank_ch, comma_ch, newline_ch]" post] mem Plain
      by (simp add: gap_chs)
    moreover have "?r \<le> length (pre @ item_text i)" using Plain by simp
    ultimately show ?thesis using idle_words(5) by blast
  next
    case (Custom w v)
    let ?r = "length (pre @ [tab_ch]) + length w" let ?e = "?r + 1" let ?e2 = "?e + 1 + length v"
    have "find_ch mem {newline_ch, equals_ch} ?r = Inr (length (pre @ tab_ch # w) + length [blank_ch])"
      by (rule find_ch_hit [where post = "v @ newline_ch # post"]) (use mem Custom in auto)
    moreover have "find_ch mem {newline_ch} (Suc ?e) = Inr (length (pre @ tab_ch # w @ [blank_ch, equals_ch]) + length v)"
      by (rule find_ch_hit [where post = post]) (use mem Custom ok in \<open>auto simp: line_free_def\<close>)
    moreover have "idl_text mem (length (pre @ tab_ch # w @ [blank_ch, equals_ch]))
        (length (pre @ tab_ch # w @ [blank_ch, equals_ch]) + length v) = v"
      by (rule idl_text_mid [where post = "newline_ch # post"]) (use mem Custom ok in \<open>auto simp: line_free_def\<close>)
    ultimately have "WordSplit room (Suc n) mem limit r temp s =
        Inr (?e2, Some (printed (CMessageCustomFormat w v), True), item_step i s0)"
      using mem Custom ok lim st base
      by (subst WordSplit_at_word [OF tab, of _ w blank_ch "equals_ch # v @ newline_ch # post"])
        (auto simp: act_on_word_def idl_constant_def blank_after_def Let_def nth_append)
    moreover have "comes_to mem limit ?e2 (item_step i s0) (pre @ item_text i) (item_step i s0)"
      using comes_to_gap [OF comes_to_start, of mem "pre @ tab_ch # w @ [blank_ch, equals_ch] @ v" "[newline_ch]" post] mem Custom
      by (simp add: gap_chs add.assoc)
    moreover have "?e2 \<le> length (pre @ item_text i)" using Custom by simp
    ultimately show ?thesis using idle_words(6) by blast
  next
    case (Note t)
    have "WordSplit room (Suc n) mem limit r temp s = Inr (length pre + length t + 2, Some ([], False), s0)"
      by (rule WordSplit_at_remark [OF at]) (use mem Note ok in \<open>auto simp: line_free_def\<close>)
    moreover have "comes_to mem limit (length pre + length t + 2) s0 (pre @ item_text i) s0"
      using comes_to_gap [OF comes_to_start, of mem "pre @ slash_ch # slash_ch # t" "[newline_ch]" post] mem Note
      by (simp add: gap_chs)
    ultimately show ?thesis using Note by auto
  qed
qed

primrec item_steps :: "item list \<Rightarrow> idl \<Rightarrow> idl" where
  "item_steps [] s = s"
| "item_steps (i # is) s = item_steps is (item_step i s)"

definition vecs :: "idl \<Rightarrow> wtext list \<times> wtext list \<times> wtext list \<times> wtext list" where
  "vecs s = (gDefineVec s, gCommonVec s, gRPCvec s, gRPCvec_Notrance s)"

lemma item_steps_state:
  assumes "packStartnum s = [base]"
  shows "bChk (item_steps is s) = bChk s \<and> length (packStartnum (item_steps is s)) = 1 \<and>
    vecs (item_steps is s) =
      (gDefineVec s, gCommonVec s @ item_lines base (idl_cnt s) is, gRPCvec s, gRPCvec_Notrance s)"
  using assms
proof (induction "is" arbitrary: s base)
  case (Cons i "is")
  then show ?case by (cases i) (auto simp: vecs_def)
qed (simp add: vecs_def)

lemma idl_turns_Suc:
  "WordSplit room (Suc (Suc (length mem))) mem limit r temp s = Inr x \<Longrightarrow> idl_turns room (Suc k) mem limit (r, temp, s) = idl_turns room k mem limit x"
  by (simp add: idl_turn_def)

lemma idl_turns_add: "idl_turns room (j + k) mem limit x = err_bind (idl_turns room j mem limit x) (idl_turns room k mem limit)"
proof (induction j arbitrary: x)
  case (Suc j)
  then show ?case by (cases "idl_turn room mem limit x") auto
qed simp

lemma items_turns:
  assumes "comes_to mem limit r s pre s0" "mem = pre @ concat (map item_text is) @ post" "\<forall>i\<in>set is. item_ok i"
    and "length pre + length (concat (map item_text is)) \<le> limit" "bChk s0" "length (packStartnum s0) = 1"
    and "vecs s = vecs s0" "r \<le> length pre" "idle_word temp"
  shows "\<exists>r' temp' s'. idl_turns room (length is) mem limit (r, temp, s) = Inr (r', temp', s') \<and>
    comes_to mem limit r' s' (pre @ concat (map item_text is)) (item_steps is s0) \<and>
    vecs s' = vecs (item_steps is s0) \<and> r' \<le> length (pre @ concat (map item_text is)) \<and> idle_word temp'"
  using assms
proof (induction "is" arbitrary: r temp s pre s0)
  case (Cons i "is")
  obtain r1 temp1 where t: "WordSplit room (Suc (Suc (length mem))) mem limit r temp s = Inr (r1, temp1, item_step i s0)"
      and c: "comes_to mem limit r1 (item_step i s0) (pre @ item_text i) (item_step i s0)"
      "r1 \<le> length (pre @ item_text i)" "idle_word temp1"
    using item_turn [OF Cons.prems(1), of i "concat (map item_text is) @ post" room "Suc (length mem)" temp] Cons.prems by auto
  show ?case
    using Cons.IH [OF c(1) _ _ _ _ _ _ c(2,3)] Cons.prems idl_turns_Suc [OF t, of "length is"] by auto
qed auto

section \<open>The declarations\<close>

lemma WordSplit_own_word:
  assumes "comes_to mem limit r s pre s0" "mem = pre @ w @ c # post" "own_word w" "blank_after c" "length pre + length w < limit"
    and "\<not> bChk s0"
  shows "WordSplit room (Suc n) mem limit r temp s = Inr (length pre + length w, Some (w, False), s0)"
  using WordSplit_at_word [OF assms(1,2) _ assms(4,5)] assms(3,6) by (simp add: own_word_def act_on_word_def)

lemma equals_own: "own_word [equals_ch]"
  by (simp add: own_word_def word_ok_def start_ch_def blank_after_def wide_def)

lemma keyword_ok: "word_ok (wide ''global'')" "word_ok (wide ''void'')"
  by (auto simp: word_ok_def start_ch_def blank_after_def wide_def)

lemma own_word_behind_blank:
  assumes "mem = pre @ [blank_ch] @ w @ c # post" "own_word w" "blank_after c" "length pre + length w + 1 < limit" "\<not> bChk s"
  shows "WordSplit room (Suc n) mem limit (length pre) temp s = Inr (length (pre @ [blank_ch] @ w), Some (w, False), s)"
proof -
  have "comes_to mem limit (length pre) s (pre @ [blank_ch]) s"
    by (rule comes_to_gap [OF comes_to_start assms(1)]) (auto simp: gap_chs)
  from WordSplit_own_word [OF this, of w c post] show ?thesis using assms by simp
qed

lemma group_head_turn:
  assumes at: "comes_to mem limit r s pre s0" and s0: "\<not> bChk s0" "packStartnum s0 = []"
    and mem: "mem = pre @ wide ''global'' @ [blank_ch] @ k @ [blank_ch, equals_ch, blank_ch] @ b @ newline_ch # post"
    and ok: "own_word k" "own_word b" and lim: "length pre + length k + length b + 10 < limit"
  shows "WordSplit room (Suc (Suc n)) mem limit r temp s =
    Inr (length pre + length k + length b + 10, Some (printed (PackStartFormat k b), True),
      s0\<lparr>packStartnum := [k], idl_cnt := 0, gCommonVec := gCommonVec s0 @ [printed (PackStartFormat k b)]\<rparr>)"
proof -
  let ?g = "pre @ wide ''global''" let ?k = "?g @ [blank_ch] @ k" let ?e = "?k @ [blank_ch] @ [equals_ch]"
  have six: "length (wide ''global'') = 6" by (simp add: wide_def)
  have "WordSplit room (Suc n) mem limit (length ?g) None s0 = Inr (length ?k, Some (k, False), s0)"
    by (rule own_word_behind_blank [where post = "equals_ch # blank_ch # b @ newline_ch # post", where c = blank_ch])
      (use mem ok lim s0 six in \<open>auto simp: blank_after_def\<close>)
  moreover have "WordSplit room (Suc n) mem limit (length ?k) None (s0\<lparr>packStartnum := [k]\<rparr>) =
      Inr (length ?e, Some ([equals_ch], False), s0\<lparr>packStartnum := [k]\<rparr>)"
    by (rule own_word_behind_blank [where post = "b @ newline_ch # post", where c = blank_ch])
      (use mem ok lim s0 six equals_own in \<open>auto simp: blank_after_def\<close>)
  moreover have "WordSplit room (Suc n) mem limit (length ?e) None (s0\<lparr>packStartnum := [k]\<rparr>) =
      Inr (length (?e @ [blank_ch] @ b), Some (b, False), s0\<lparr>packStartnum := [k]\<rparr>)"
    by (rule own_word_behind_blank [where post = post, where c = newline_ch])
      (use mem ok lim s0 six in \<open>auto simp: blank_after_def\<close>)
  ultimately have "GlobalPacketSplit (WordSplit room (Suc n) mem limit) False (length ?g) s0 =
      Inr (length (?e @ [blank_ch] @ b), Some (printed (PackStartFormat k b), True),
        s0\<lparr>packStartnum := [k], gCommonVec := gCommonVec s0 @ [printed (PackStartFormat k b)]\<rparr>)"
    using s0 by (simp add: GlobalPacketSplit_def Let_def)
  moreover have "WordSplit room (Suc (Suc n)) mem limit r temp s =
      act_on_word room (WordSplit room (Suc n) mem limit) mem (Some (wide ''global'', False)) (length ?g) s0"
    using WordSplit_at_word [OF at, of "wide ''global''" blank_ch] mem lim keyword_ok six
    by (simp add: blank_after_def)
  ultimately show ?thesis using s0 six by (simp add: act_on_word_def)
qed

text \<open>The block for the declaration of a function has a place for the second terminator.\<close>

definition roomy :: "(nat \<Rightarrow> nat) \<Rightarrow> wtext \<Rightarrow> bool" where
  "roomy room t \<longleftrightarrow> (let n = length (the (custom_types t)) + 1 in n < room n)"

lemma func_turn:
  assumes at: "comes_to mem limit r s pre s0" and s0: "\<not> bChk s0"
    and mem: "mem = pre @ wide ''void'' @ [blank_ch] @ t @ semicolon_ch # post"
    and ok: "semicolon_ch \<notin> set t" "0 \<notin> set t" and lim: "length pre + 4 < limit"
  shows "WordSplit room (Suc n) mem limit r temp s =
    (if \<not> roomy room (blank_ch # t) then Inl OutsideWrite else Inr (length pre + length t + 5, Some (blank_ch # t, True),
      s0\<lparr>gRPCvec := gRPCvec s0 @ [the (custom_types (blank_ch # t))], gRPCvec_Notrance := gRPCvec_Notrance s0 @ [blank_ch # t]\<rparr>))"
proof -
  let ?v = "pre @ wide ''void''"
  have four: "length (wide ''void'') = 4" "wide ''void'' \<noteq> wide ''global''" by (simp_all add: wide_def)
  have "find_ch mem {semicolon_ch} (length ?v) = Inr (length ?v + length (blank_ch # t))"
    by (rule find_ch_hit) (use mem ok in auto)
  moreover have "idl_text mem (length ?v) (length ?v + length (blank_ch # t)) = blank_ch # t"
    by (rule idl_text_mid [where post = "semicolon_ch # post"]) (use mem ok in auto)
  moreover obtain u where "custom_types (blank_ch # t) = Some u" using custom_types_ends by blast
  moreover have "WordSplit room (Suc n) mem limit r temp s =
      act_on_word room (WordSplit room n mem limit) mem (Some (wide ''void'', False)) (length ?v) s0"
    using WordSplit_at_word [OF at, of "wide ''void''" blank_ch] mem lim keyword_ok four
    by (simp add: blank_after_def)
  ultimately show ?thesis using s0 four by (simp add: act_on_word_def FuncMaker_def roomy_def Let_def not_less)
qed

text \<open>Between two declarations no group is open, and the vectors are what was collected.\<close>

definition settled :: "u16 list \<Rightarrow> nat \<Rightarrow> nat \<Rightarrow> idl \<Rightarrow> wtext \<Rightarrow> wtext list \<times> wtext list \<times> wtext list \<times> wtext list \<Rightarrow> bool" where
  "settled mem limit r s pre v \<longleftrightarrow> r \<le> length pre \<and>
     (\<exists>s0. comes_to mem limit r s pre s0 \<and> \<not> bChk s0 \<and> packStartnum s0 = [] \<and> vecs s = v \<and> vecs s0 = v)"

fun add_decl :: "decl \<Rightarrow> wtext list \<times> wtext list \<times> wtext list \<times> wtext list \<Rightarrow> wtext list \<times> wtext list \<times> wtext list \<times> wtext list" where
  "add_decl d (ds, cs, fs, gs) =
     (ds @ decl_defines d, cs @ decl_lines d, fs @ map (\<lambda>t. the (custom_types t)) (decl_functions d), gs @ decl_functions d)"

lemma group_turn:
  assumes at: "comes_to mem limit r s pre s0" and s0: "\<not> bChk s0" "packStartnum s0 = []" "vecs s0 = v"
    and mem: "mem = pre @ decl_text (Group k b is) @ post" and ok: "decl_ok (Group k b is)"
    and lim: "length pre + length (decl_text (Group k b is)) \<le> limit"
  shows "\<exists>r' temp' s'. idl_turns room (decl_turns (Group k b is)) mem limit (r, temp, s) = Inr (r', temp', s') \<and>
    settled mem limit r' s' (pre @ decl_text (Group k b is)) (add_decl (Group k b is) v) \<and> idle_word temp'"
proof -
  let ?h = "pre @ wide ''global'' @ [blank_ch] @ k @ [blank_ch, equals_ch, blank_ch] @ b"
  let ?body = "?h @ [newline_ch, open_ch, newline_ch]" let ?rest = "concat (map item_text is) @ [close_ch, newline_ch] @ post"
  let ?s1 = "s0\<lparr>packStartnum := [k], idl_cnt := 0, gCommonVec := gCommonVec s0 @ [printed (PackStartFormat k b)]\<rparr>"
  let ?s2 = "?s1\<lparr>bChk := True\<rparr>" let ?s3 = "item_steps is ?s2" let ?s4 = "?s3\<lparr>bChk := False, packStartnum := []\<rparr>"
  have six: "length (wide ''global'') = 6" by (simp add: wide_def)
  have "WordSplit room (Suc (Suc (length mem))) mem limit r temp s =
      Inr (length ?h, Some (printed (PackStartFormat k b), True), ?s1)"
    using group_head_turn [OF at s0(1,2), of k b "open_ch # newline_ch # ?rest" room "length mem" temp] mem ok lim six
    by (simp add: add.assoc)
  note head = idl_turns_Suc [OF this, of "length is"]
  have "comes_to mem limit (length ?h) ?s1 (?h @ [newline_ch]) ?s1"
    by (rule comes_to_gap [OF comes_to_start, where post = "open_ch # newline_ch # ?rest"]) (use mem in \<open>auto simp: gap_chs\<close>)
  then have "comes_to mem limit (length ?h) ?s1 (?h @ [newline_ch, open_ch]) ?s2"
    by (rule comes_to_brace [where post = "newline_ch # ?rest" and c = open_ch]) (use mem in \<open>auto simp: brace_def\<close>)
  then have body: "comes_to mem limit (length ?h) ?s1 ?body ?s2"
    by (rule comes_to_gap [where post = ?rest and gap = "[newline_ch]"]) (use mem in \<open>auto simp: gap_chs\<close>)
  have m: "mem = ?body @ concat (map item_text is) @ [close_ch, newline_ch] @ post" using mem by simp
  have l: "length ?body + length (concat (map item_text is)) \<le> limit" using lim by simp
  have "bChk ?s2" "length (packStartnum ?s2) = 1" "vecs ?s1 = vecs ?s2" by (simp_all add: vecs_def)
  from items_turns [OF body m _ l this] obtain r' temp' s' where run: "idl_turns room (length is) mem limit (length ?h, Some (printed (PackStartFormat k b), True), ?s1) =
      Inr (r', temp', s')" "comes_to mem limit r' s' (?body @ concat (map item_text is)) ?s3" "vecs s' = vecs ?s3"
      "r' \<le> length (?body @ concat (map item_text is))" "idle_word temp'"
    using ok idle_words(4) [of k b True] by (metis decl_ok.simps(1) length_append le_add1)
  note st = item_steps_state [of ?s2 k "is", simplified]
  have "comes_to mem limit r' s' (?body @ concat (map item_text is) @ [close_ch]) ?s4"
    by (rule comes_to_brace [OF run(2), where post = "newline_ch # post" and c = close_ch])
      (use mem st in \<open>auto simp: brace_def length_Suc_conv\<close>)
  then have "comes_to mem limit r' s' (pre @ decl_text (Group k b is)) ?s4"
    by (rule comes_to_gap [where post = post and gap = "[newline_ch]"]) (use mem in \<open>auto simp: gap_chs\<close>)
  moreover have "vecs ?s4 = vecs ?s3" by (simp add: vecs_def)
  moreover have "vecs ?s3 = add_decl (Group k b is) v" using st s0(3) by (auto simp: vecs_def)
  ultimately have "settled mem limit r' s' (pre @ decl_text (Group k b is)) (add_decl (Group k b is) v)"
    unfolding settled_def using run(3,4) by (intro conjI exI [of _ ?s4]) auto
  with run(1,5) head show ?thesis by auto
qed

lemma decl_turn:
  assumes "settled mem limit r s pre v" and mem: "mem = pre @ decl_text d @ post" and ok: "decl_ok d"
    and lim: "length pre + length (decl_text d) \<le> limit"
  shows "if \<forall>t\<in>set (decl_functions d). roomy room t
    then \<exists>r' temp' s'. idl_turns room (decl_turns d) mem limit (r, temp, s) = Inr (r', temp', s') \<and>
      settled mem limit r' s' (pre @ decl_text d) (add_decl d v) \<and> idle_word temp'
    else idl_turns room (decl_turns d) mem limit (r, temp, s) = Inl OutsideWrite"
proof -
  obtain s0 where at: "comes_to mem limit r s pre s0" and s0: "\<not> bChk s0" "packStartnum s0 = []" "vecs s0 = v"
    using assms(1) by (auto simp: settled_def)
  have gone: "settled mem limit (length (pre @ body)) s' (pre @ decl_text d) (add_decl d v)"
    if "decl_text d = body @ gap" "\<forall>c\<in>set gap. gap_ch c" "\<not> bChk s'" "packStartnum s' = []" "vecs s' = add_decl d v" for body gap s'
    using comes_to_gap [OF comes_to_start, of mem "pre @ body" gap post] that mem by (auto simp: settled_def)
  show ?thesis
  proof (cases d)
    case (Group k b "is")
    then show ?thesis using group_turn [OF at s0] mem ok lim by simp
  next
    case (Func t)
    let ?s = "s0\<lparr>gRPCvec := gRPCvec s0 @ [the (custom_types (blank_ch # t))], gRPCvec_Notrance := gRPCvec_Notrance s0 @ [blank_ch # t]\<rparr>"
    have "settled mem limit (length (pre @ wide ''void'' @ blank_ch # t)) ?s (pre @ decl_text d) (add_decl d v)"
      by (rule gone [of _ "[semicolon_ch, newline_ch]"]) (use Func s0 in \<open>auto simp: gap_chs vecs_def\<close>)
    moreover have "WordSplit room (Suc (Suc (length mem))) mem limit r temp s =
        (if \<not> roomy room (blank_ch # t) then Inl OutsideWrite
         else Inr (length (pre @ wide ''void'' @ blank_ch # t), Some (blank_ch # t, True), ?s))"
      using func_turn [OF at s0(1), of t "newline_ch # post" room "Suc (length mem)" temp] Func mem ok lim by (simp add: wide_def)
    ultimately show ?thesis using Func by (auto simp: idl_turn_def)
  next
    case (Pragma t)
    let ?s = "s0\<lparr>gDefineVec := gDefineVec s0 @ [hash_ch # t]\<rparr>"
    have "settled mem limit (length (pre @ hash_ch # t)) ?s (pre @ decl_text d) (add_decl d v)"
      by (rule gone [of _ "[newline_ch]"]) (use Pragma s0 in \<open>auto simp: gap_chs vecs_def\<close>)
    moreover have "WordSplit room (Suc (Suc (length mem))) mem limit r temp s =
        Inr (length (pre @ hash_ch # t), Some (hash_ch # t, True), ?s)"
      using WordSplit_at_pragma [OF at, of t post room "Suc (length mem)" temp] Pragma mem ok lim by simp
    note idl_turns_Suc [OF this, of 0]
    ultimately show ?thesis using Pragma by auto
  next
    case (Comment t)
    have "settled mem limit (length (pre @ slash_ch # slash_ch # t)) s0 (pre @ decl_text d) (add_decl d v)"
      by (rule gone [of _ "[newline_ch]"]) (use Comment s0 in \<open>auto simp: gap_chs vecs_def\<close>)
    moreover have "WordSplit room (Suc (Suc (length mem))) mem limit r temp s =
        Inr (length (pre @ slash_ch # slash_ch # t), Some ([], False), s0)"
      using WordSplit_at_remark [OF at, of t post room "Suc (length mem)" temp] Comment mem ok by (simp add: line_free_def)
    note idl_turns_Suc [OF this, of 0]
    ultimately show ?thesis using Comment by auto
  qed
qed

lemma decls_turns:
  assumes "settled mem limit r s pre v" "mem = pre @ concat (map decl_text ds) @ post" "\<forall>d\<in>set ds. decl_ok d"
    and "length pre + length (concat (map decl_text ds)) \<le> limit" "\<forall>t\<in>set (concat (map decl_functions ds)). roomy room t"
  shows "\<exists>r' temp' s'. idl_turns room (sum_list (map decl_turns ds)) mem limit (r, temp, s) = Inr (r', temp', s') \<and>
    settled mem limit r' s' (pre @ concat (map decl_text ds)) (fold add_decl ds v) \<and> (ds \<noteq> [] \<or> idle_word temp \<longrightarrow> idle_word temp')"
  using assms
proof (induction ds arbitrary: r temp s pre v)
  case (Cons d ds)
  obtain r1 temp1 s1 where *: "idl_turns room (decl_turns d) mem limit (r, temp, s) = Inr (r1, temp1, s1)"
      "settled mem limit r1 s1 (pre @ decl_text d) (add_decl d v)" "idle_word temp1"
    using decl_turn [OF Cons.prems(1), of d "concat (map decl_text ds) @ post" room temp] Cons.prems by (auto split: if_splits)
  show ?case using Cons.IH [OF *(2), of temp1] Cons.prems *(1,3) by (auto simp: idl_turns_add)
qed auto

lemma fold_add_decl:
  "fold add_decl ds (a, b, c, d) =
     (a @ concat (map decl_defines ds), b @ concat (map decl_lines ds),
      c @ map (\<lambda>t. the (custom_types t)) (concat (map decl_functions ds)), d @ concat (map decl_functions ds))"
  by (induction ds arbitrary: a b c d) auto

section \<open>The loop of main\<close>

lemma idl_turns_mono: "idl_turns room k mem limit x = Inr y \<Longrightarrow> fst x \<le> fst y"
proof (induction k arbitrary: x)
  case (Suc k)
  then obtain z where z: "idl_turn room mem limit x = Inr z" "idl_turns room k mem limit z = Inr y" by (auto elim: err_bind_InrE)
  then have "fst x \<le> fst z" by (cases x; cases z) (auto simp: idl_turn_def dest: WordSplit_mono)
  with Suc.IH [OF z(2)] show ?case by simp
qed simp

lemma idl_loop_turns:
  assumes "idl_turns room k mem limit x = Inr y" "fst y \<le> limit"
  shows "idl_loop room mem limit x = idl_loop room mem limit y"
  using assms
proof (induction k arbitrary: x)
  case (Suc k)
  then obtain z where z: "idl_turn room mem limit x = Inr z" "idl_turns room k mem limit z = Inr y" by (auto elim: err_bind_InrE)
  have "fst x \<le> limit" using idl_turns_mono [OF Suc.prems(1)] Suc.prems(2) by simp
  then show ?case using z(1) Suc.IH [OF z(2) Suc.prems(2)] by (subst idl_loop.simps) simp
qed simp

text \<open>The turn behind the last declaration: the first character behind the terminator that begins a word ends the loop.\<close>

lemma last_turn:
  assumes "settled mem limit r s pre v" "mem = pre @ 0 # junk @ c # post" "limit = Suc (length pre)"
    and "junk \<noteq> []" "\<forall>x\<in>set junk. gap_ch x" "start_ch c" "idle_word temp"
  shows "\<exists>s'. idl_loop room mem limit (r, temp, s) = Some (Inr (length pre + length junk + 1, temp, s')) \<and> vecs s' = v"
proof -
  obtain s0 where at: "comes_to mem limit r s pre s0" and s0: "\<not> bChk s0" "vecs s0 = v" and r: "r \<le> length pre"
    using assms(1) by (auto simp: settled_def)
  let ?l = "length pre + length junk + 1"
  have "comes_to mem limit r s (pre @ 0 # junk) s0"
    by (rule comes_to_gap [OF at, where gap = "0 # junk" and post = "c # post"]) (use assms gap_chs in auto)
  then have "scan_word mem limit r s = Inr (ScanWord ?l, s0)"
    using assms(2,6) scan_word_start [of ?l mem limit s0] by (simp add: comes_to_def nth_append)
  moreover have "word_end mem limit ?l = Inr (?l, False)" using assms(3) by (subst word_end.simps) simp
  moreover obtain w h where "temp = Some (w, h)" "w \<noteq> wide ''global''" "w \<noteq> wide ''void''"
    using assms(7) by (auto simp: idle_word_def)
  ultimately have "idl_turn room mem limit (r, temp, s) = Inr (?l, temp, s0)"
    using s0(1) by (simp add: idl_turn_def WordSplit.simps(2) act_on_word_def)
  moreover have "limit < ?l" using assms(3,4) by (cases junk) auto
  then have "idl_loop room mem limit (?l, temp, s0) = Some (Inr (?l, temp, s0))" by (subst idl_loop.simps) simp
  moreover have "r \<le> limit" using r assms(3) by simp
  ultimately show ?thesis using s0(2) by (subst idl_loop.simps) simp
qed

lemma decl_text_ends: "\<forall>d\<in>set ds. decl_ok d \<Longrightarrow> 0 \<notin> set (concat (map decl_text ds))"
proof -
  have "0 \<notin> set (item_text i)" if "item_ok i" for i using that by (cases i) (auto simp: word_ok_def line_free_def)
  then have "0 \<notin> set (decl_text d)" if "decl_ok d" for d
    using that by (cases d) (auto simp: own_word_def word_ok_def line_free_def wide_def)
  then show "\<forall>d\<in>set ds. decl_ok d \<Longrightarrow> 0 \<notin> set (concat (map decl_text ds))" by auto
qed

lemma settled_start: "settled mem limit 0 new_idl [] ([], [], [], [])"
  using comes_to_start [of mem limit "[]" new_idl] by (auto simp: settled_def new_idl_def vecs_def)

lemma idl_loop_reads:
  assumes "\<forall>d\<in>set ds. decl_ok d" "ds \<noteq> []" "mem = concat (map decl_text ds) @ 0 # junk @ c # rest"
    and "junk \<noteq> []" "\<forall>x\<in>set junk. gap_ch x" "start_ch c" "limit = Suc (length (concat (map decl_text ds)))"
    and "\<forall>t\<in>set (concat (map decl_functions ds)). roomy room t"
  shows "\<exists>r temp s. idl_loop room mem limit (0, None, new_idl) = Some (Inr (r, temp, s)) \<and> vecs s = fold add_decl ds ([], [], [], [])"
proof -
  obtain r temp s where run: "idl_turns room (sum_list (map decl_turns ds)) mem limit (0, None, new_idl) = Inr (r, temp, s)"
      and at: "settled mem limit r s (concat (map decl_text ds)) (fold add_decl ds ([], [], [], []))" "idle_word temp"
    using decls_turns [OF settled_start, of mem ds "0 # junk @ c # rest" limit room None] assms by auto
  have "r \<le> limit" using at(1) assms(7) by (simp add: settled_def)
  with idl_loop_turns [OF run] last_turn [OF at(1) assms(3,7,4-6) at(2), of room] show ?thesis by auto
qed

text \<open>The first function without room stops the compiler.\<close>

lemma idl_loop_stops:
  assumes "\<forall>d\<in>set ds. decl_ok d" "mem = concat (map decl_text ds) @ post" "length (concat (map decl_text ds)) \<le> limit"
    and "\<not> (\<forall>t\<in>set (concat (map decl_functions ds)). roomy room t)"
  shows "idl_loop room mem limit (0, None, new_idl) = Some (Inl OutsideWrite)"
proof -
  have "\<exists>d\<in>set ds. \<exists>t\<in>set (decl_functions d). \<not> roomy room t" using assms(4) by auto
  from split_list_first_propE [OF this] obtain as d bs where ds: "ds = as @ d # bs"
    and d: "\<exists>t\<in>set (decl_functions d). \<not> roomy room t" and as: "\<forall>e\<in>set as. \<not> (\<exists>t\<in>set (decl_functions e). \<not> roomy room t)" by metis
  let ?pre = "concat (map decl_text as)"
  obtain r temp s where run: "idl_turns room (sum_list (map decl_turns as)) mem limit (0, None, new_idl) = Inr (r, temp, s)"
      and at: "settled mem limit r s ?pre (fold add_decl as ([], [], [], []))"
    using decls_turns [OF settled_start, of mem as "concat (map decl_text (d # bs)) @ post" limit room None] assms(1-3) ds as by auto
  have "idl_turns room (decl_turns d) mem limit (r, temp, s) = Inl OutsideWrite"
    using decl_turn [OF at, of d "concat (map decl_text bs) @ post" room temp] assms(1-3) ds d by (auto split: if_splits)
  moreover have "decl_turns d = 1" using d by (cases d) auto
  ultimately have "idl_turn room mem limit (r, temp, s) = Inl OutsideWrite"
    by (cases "idl_turn room mem limit (r, temp, s)") auto
  moreover have "r \<le> limit" using at assms(3) ds by (simp add: settled_def)
  ultimately show ?thesis using idl_loop_turns [OF run] by (simp add: idl_loop.simps [of room mem limit "(r, temp, s)"])
qed

text \<open>
  C34: reading an interface file inverts its grammar, in the allocations where the compiler finishes at all: those that
  hold, behind the text and its terminator, something the first loop passes and then a character that begins a word.
  There the whole run of \<^verbatim>\<open>main\<close>, through its loop and exit test, collects the definitions, the functions and the packet
  numbers of the file in their order, and the header \<^verbatim>\<open>MakeCommon\<close> writes lists them: the packets of a group count from
  its base, and a packet with a value of its own starts the count again from that value. This needs that the
  allocator's block for the declaration of each function has a place more than was asked for, since \<^verbatim>\<open>FuncMaker\<close>
  writes there; with a single function for which it has not, the run ends in a write outside its block.
\<close>

theorem interface_file_read:
  assumes "\<forall>d\<in>set ds. decl_ok d" "ds \<noteq> []" "mem = concat (map decl_text ds) @ 0 # junk @ c # rest"
    and "junk \<noteq> []" "\<forall>x\<in>set junk. gap_ch x" "start_ch c"
  shows "if \<forall>t\<in>set (concat (map decl_functions ds)). roomy room t
    then \<exists>s. gRPCvec_Notrance s = concat (map decl_functions ds) \<and>
      gRPCvec s = map (\<lambda>t. the (custom_types t)) (concat (map decl_functions ds)) \<and>
      idl_main room mem = Some (Inr (s, InitCommonFORMAT @
        concat (map (\<lambda>t. printed (CommonFORMAT t)) (concat (map decl_defines ds) @ concat (map decl_lines ds))) @
        CLOSECommonFORMAT))
    else idl_main room mem = Some (Inl OutsideWrite)"
proof -
  let ?n = "length (concat (map decl_text ds))"
  have "find_ch mem {0} 0 = Inr ?n"
    using find_ch_hit [of mem "[]" "concat (map decl_text ds)" 0 "junk @ c # rest" "{0}" 0] assms(3) decl_text_ends [OF assms(1)]
    by auto
  then have main: "idl_main room mem =
      map_option (\<lambda>x. err_bind x (\<lambda>(r, temp, s). Inr (s, MakeCommon s))) (idl_loop room mem (Suc ?n) (0, None, new_idl))"
    by (simp add: idl_main_def)
  show ?thesis
  proof (cases "\<forall>t\<in>set (concat (map decl_functions ds)). roomy room t")
    case True
    from idl_loop_reads [OF assms refl True] obtain r temp s
      where "idl_loop room mem (Suc ?n) (0, None, new_idl) = Some (Inr (r, temp, s))"
        "vecs s = fold add_decl ds ([], [], [], [])" by blast
    with True main show ?thesis by (auto simp: vecs_def fold_add_decl MakeCommon_def intro!: exI [of _ s])
  next
    case False
    from idl_loop_stops [OF assms(1,3) _ False, of "Suc ?n"] main False show ?thesis by simp
  qed
qed

definition sample_interface :: "decl list" where
  "sample_interface =
     [Pragma (wide ''define dfMOVE_DIR 0''), Comment (wide '' messages''),
      Group (wide ''Chatting'') (wide ''0'')
        [Note (wide '' chatting server''), Plain (wide ''en_REQ_LOGIN''), Plain (wide ''en_RES_LOGIN''),
         Custom (wide ''en_REQ_ECHO'') (wide '' 250;''), Plain (wide ''en_Max'')],
      Func (wide ''REQ_LOGIN(ull SessionID , CMessage* msg )'')]"

definition sample_functions :: "wtext list" where
  "sample_functions = [wide '' REQ_LOGIN(ull SessionID , CMessage* msg )'']"

lemma sample_function_types: "custom_types (wide '' REQ_LOGIN(ull SessionID , CMessage* msg )'') = Some (wide '' REQ_LOGIN(ull SessionID , CMessage* msg )'')"
proof -
  have "find_text needle1 (wide '' REQ_LOGIN(ull SessionID , CMessage* msg )'') = None" "find_text needle2 (wide '' REQ_LOGIN(ull SessionID , CMessage* msg )'') = None"
    by code_simp+
  then show ?thesis by (simp add: custom_types_def Replace_CustomeType.simps)
qed

lemma sample_interface_ok:
  "\<forall>d\<in>set sample_interface. decl_ok d" "sample_interface \<noteq> []" "\<forall>x\<in>set [44, 0]. gap_ch x" "start_ch 52"
  "concat (map decl_functions sample_interface) = sample_functions"
  by code_simp+

lemma sample_roomy: "(\<forall>t\<in>set sample_functions. roomy room t) \<longleftrightarrow> (let n = 43 in n < room n)"
proof -
  have "length (wide '' REQ_LOGIN(ull SessionID , CMessage* msg )'') + 1 = 43" by code_simp
  then show ?thesis by (simp add: sample_functions_def roomy_def sample_function_types)
qed

lemma interface_file_read_witness:
  "(\<exists>s header. idl_main (\<lambda>n. n + 7) (concat (map decl_text sample_interface) @ 0 # [44, 0] @ 52 # [7, 7]) = Some (Inr (s, header)) \<and>
     gRPCvec_Notrance s = sample_functions) \<and>
   idl_main (\<lambda>n. n) (concat (map decl_text sample_interface) @ 0 # [44, 0] @ 52 # [7, 7]) = Some (Inl OutsideWrite)"
proof
  note read = interface_file_read [OF sample_interface_ok(1,2) refl _ sample_interface_ok(3,4), where rest = "[7, 7]"]
  show "\<exists>s header. idl_main (\<lambda>n. n + 7) (concat (map decl_text sample_interface) @ 0 # [44, 0] @ 52 # [7, 7]) = Some (Inr (s, header)) \<and>
     gRPCvec_Notrance s = sample_functions"
    using read [where room = "\<lambda>n. n + 7"] sample_roomy [of "\<lambda>n. n + 7"] unfolding sample_interface_ok(5) Let_def by (metis less_add_same_cancel1 list.distinct(1) zero_less_numeral)
  show "idl_main (\<lambda>n. n) (concat (map decl_text sample_interface) @ 0 # [44, 0] @ 52 # [7, 7]) = Some (Inl OutsideWrite)"
    using read [where room = "\<lambda>n. n"] sample_roomy [of "\<lambda>n. n"] unfolding sample_interface_ok(5) Let_def by simp
qed

end
