(* ===== verification/IdlGen.thy ===== *)
theory IdlGen
  imports IdlProps
begin

text \<open>
  The bodies of the generated functions (\<^verbatim>\<open>MakeProxy\<close>, \<^verbatim>\<open>MakeStub\<close> of \<^verbatim>\<open>IDL_Complier.cpp\<close>): from the types and
  the names of a function's parameters, the lines that write the arguments into a message and the lines that read
  them out of it. \<open>off\<close> is \<^verbatim>\<open>TypeOffset\<close>, the number of parameters at the end that stay out of the message.
\<close>

section \<open>The length of an array\<close>

text \<open>\<^verbatim>\<open>getline\<close> up to a quote; a text that ends in a quote has no word behind it.\<close>

fun quote_tokens :: "wtext \<Rightarrow> wtext \<Rightarrow> wtext list" where
  "quote_tokens acc [] = (if acc = [] then [] else [acc])"
| "quote_tokens acc (c # cs) = (if c = apostrophe_ch then acc # quote_tokens [] cs else quote_tokens (acc @ [c]) cs)"

definition digit_ch :: "u16 \<Rightarrow> bool" where
  "digit_ch c \<longleftrightarrow> 48 \<le> c \<and> c \<le> 57"

definition digits_value :: "wtext \<Rightarrow> int" where
  "digits_value ds = foldl (\<lambda>v d. v * 10 + (uint d - 48)) 0 ds"

text \<open>\<^verbatim>\<open>wcstol\<close> to the base ten: white space, a sign, digits, and the ends of a \<^verbatim>\<open>long\<close>.\<close>

definition wcstol :: "wtext \<Rightarrow> int" where
  "wcstol t =
     (let u = dropWhile (\<lambda>c. c = blank_ch \<or> 9 \<le> c \<and> c \<le> 13) t;
          v = digits_value (takeWhile digit_ch (if u \<noteq> [] \<and> (hd u = minus_ch \<or> hd u = plus_ch) then tl u else u))
      in max (- (2 ^ 31)) (min (2 ^ 31 - 1) (if u \<noteq> [] \<and> hd u = minus_ch then - v else v)))"

definition GetSize_ForSizeArray :: "wtext \<Rightarrow> int" where
  "GetSize_ForSizeArray s = (let ts = quote_tokens [] s in wcstol (if ts = [] then [] else last ts))"

text \<open>The number of bytes in a \<^verbatim>\<open>long\<close>.\<close>

definition array_bytes :: "wtext \<Rightarrow> wtext" where
  "array_bytes s = setting_text (Number (sint (word_of_int (GetSize_ForSizeArray s * 2) :: 32 word)))"

section \<open>The lines\<close>

definition ProxyCPPArg_FORMAT :: "wtext \<Rightarrow> wtext" where
  "ProxyCPPArg_FORMAT w = wide '' << '' @ w @ [semicolon_ch, newline_ch]"

definition ProxyCPPArg_FORMAT2 :: "wtext \<Rightarrow> wtext \<Rightarrow> wtext" where
  "ProxyCPPArg_FORMAT2 w n = tab_ch # wide '' msg->PutData('' @ w @ [comma_ch] @ n @ wide '');'' @ [newline_ch]"

definition STUB_CPP_DEF_FORMAT2 :: "wtext \<Rightarrow> wtext" where
  "STUB_CPP_DEF_FORMAT2 w = wide '' >> '' @ w @ [semicolon_ch, newline_ch]"

definition STUB_CPP_DEF_ARRFORMAT2 :: "wtext \<Rightarrow> wtext \<Rightarrow> wtext" where
  "STUB_CPP_DEF_ARRFORMAT2 w n =
     [tab_ch, tab_ch, tab_ch] @ wide '' msg->GetData('' @ w @ [comma_ch] @ n @ wide '');'' @ [newline_ch]"

definition proxy_line :: "wtext list \<Rightarrow> wtext list \<Rightarrow> nat \<Rightarrow> idl_fault + wtext" where
  "proxy_line types words i =
     (if length types \<le> i then Inl OutsideRead
      else if find_text needle1 (types ! i) \<noteq> None
      then Inr (printed (ProxyCPPArg_FORMAT2 (words ! i) (array_bytes (types ! i))))
      else if find_text needle2 (types ! i) \<noteq> None
      then Inr (printed (ProxyCPPArg_FORMAT2 (words ! i) (words ! (i - 1))))
      else Inr (tab_ch # wide '' *msg '' @ printed (ProxyCPPArg_FORMAT (words ! i))))"

definition stub_line :: "wtext list \<Rightarrow> wtext list \<Rightarrow> nat \<Rightarrow> idl_fault + wtext" where
  "stub_line types words i =
     (if length types \<le> i then Inl OutsideRead
      else if find_text needle1 (types ! i) \<noteq> None
      then Inr (printed (STUB_CPP_DEF_ARRFORMAT2 (words ! i) (array_bytes (types ! i))))
      else if find_text needle2 (types ! i) \<noteq> None
      then Inr (printed (STUB_CPP_DEF_ARRFORMAT2 (words ! i) (words ! (i - 1))))
      else Inr ([tab_ch, tab_ch, tab_ch] @ wide '' *msg'' @ printed (STUB_CPP_DEF_FORMAT2 (words ! i))))"

text \<open>
  The loops over the parameters: from the third to the one before the last \<open>off\<close>. With fewer parameters the
  iterator never meets its end. The proxy writes the first of the last \<open>off\<close> parameters, the packet's number, before.
\<close>

primrec arg_lines :: "(nat \<Rightarrow> idl_fault + wtext) \<Rightarrow> nat list \<Rightarrow> idl_fault + wtext" where
  "arg_lines line [] = Inr []"
| "arg_lines line (i # is) = err_bind (line i) (\<lambda>t. err_bind (arg_lines line is) (\<lambda>u. Inr (t @ u)))"

definition proxy_type_line :: "wtext list \<Rightarrow> nat \<Rightarrow> idl_fault + wtext" where
  "proxy_type_line words off =
     (if off = 0 \<or> length words < off then Inl OutsideRead
      else Inr (tab_ch # wide '' *msg '' @ printed (ProxyCPPArg_FORMAT (words ! (length words - off)))))"

definition proxy_args :: "wtext list \<Rightarrow> wtext list \<Rightarrow> nat \<Rightarrow> idl_fault + wtext" where
  "proxy_args types words off =
     (if length words < off + 2 then Inl OutsideRead
      else arg_lines (proxy_line types words) [2..<length words - off])"

definition stub_args :: "wtext list \<Rightarrow> wtext list \<Rightarrow> nat \<Rightarrow> idl_fault + wtext" where
  "stub_args types words off =
     (if length words < off + 2 then Inl OutsideRead
      else arg_lines (stub_line types words) [2..<length words - off])"

section \<open>What is written is what is read\<close>

text \<open>One access of the message: an array with the number of its bytes, which may be the argument before, or a value.\<close>

datatype access = Bytes wtext wtext | Value wtext

definition access_of :: "wtext list \<Rightarrow> wtext list \<Rightarrow> nat \<Rightarrow> access" where
  "access_of types words i =
     (if sublist needle1 (types ! i) then Bytes (words ! i) (array_bytes (types ! i))
      else if sublist needle2 (types ! i) then Bytes (words ! i) (words ! (i - 1))
      else Value (words ! i))"

fun put_text :: "access \<Rightarrow> wtext" where
  "put_text (Bytes w n) = printed (ProxyCPPArg_FORMAT2 w n)"
| "put_text (Value w) = tab_ch # wide '' *msg '' @ printed (ProxyCPPArg_FORMAT w)"

fun get_text :: "access \<Rightarrow> wtext" where
  "get_text (Bytes w n) = printed (STUB_CPP_DEF_ARRFORMAT2 w n)"
| "get_text (Value w) = [tab_ch, tab_ch, tab_ch] @ wide '' *msg'' @ printed (STUB_CPP_DEF_FORMAT2 w)"

lemma arg_lines_all: "\<forall>i\<in>set is. line i = Inr (g i) \<Longrightarrow> arg_lines line is = Inr (concat (map g is))"
  by (induction "is") auto

lemma arg_lines_fault:
  "\<lbrakk>i \<in> set is; line i = Inl OutsideRead; \<forall>j\<in>set is. \<forall>f. line j = Inl f \<longrightarrow> f = OutsideRead\<rbrakk> \<Longrightarrow>
   arg_lines line is = Inl OutsideRead"
  by (induction "is") (auto simp: err_bind_def split: sum.splits)

lemma line_texts:
  "i < length types \<Longrightarrow> proxy_line types words i = Inr (put_text (access_of types words i))"
  "i < length types \<Longrightarrow> stub_line types words i = Inr (get_text (access_of types words i))"
  using find_text_None [of needle1 "types ! i"] find_text_None [of needle2 "types ! i"]
  by (auto simp: proxy_line_def stub_line_def access_of_def)

text \<open>
  C35: the generated proxy and the generated stub of a function agree. When its parameters are complete, both
  go through the same accesses, one for each parameter between the second and the last \<open>off\<close>, in the same order: what
  the one writes as a value the other reads as one, and an array is read with the number of bytes it was written
  with. Otherwise both generators run out of their vectors.
\<close>

theorem generated_args_agree:
  "if off + 2 \<le> length words \<and> (length words - off \<le> length types \<or> length words = off + 2)
   then \<exists>as. length as = length words - off - 2 \<and>
     proxy_args types words off = Inr (concat (map put_text as)) \<and>
     stub_args types words off = Inr (concat (map get_text as))
   else proxy_args types words off = Inl OutsideRead \<and> stub_args types words off = Inl OutsideRead"
proof -
  let ?is = "[2..<length words - off]"
  have bad: "proxy_line types words i = Inl OutsideRead" "stub_line types words i = Inl OutsideRead" if "length types \<le> i" for i
    using that by (simp_all add: proxy_line_def stub_line_def)
  show ?thesis
  proof (cases "off + 2 \<le> length words \<and> (length words - off \<le> length types \<or> length words = off + 2)")
    case True
    then have "\<forall>i\<in>set ?is. i < length types" by auto
    then have "arg_lines (proxy_line types words) ?is = Inr (concat (map (\<lambda>i. put_text (access_of types words i)) ?is))"
      "arg_lines (stub_line types words) ?is = Inr (concat (map (\<lambda>i. get_text (access_of types words i)) ?is))"
      by (auto intro!: arg_lines_all line_texts)
    with True show ?thesis
      by (auto simp: proxy_args_def stub_args_def comp_def intro!: exI [of _ "map (access_of types words) ?is"])
  next
    case False
    have only: "f = OutsideRead" if "proxy_line types words j = Inl f \<or> stub_line types words j = Inl f" for j f
      using that line_texts [of j types words] bad [of j] by (cases "j < length types") auto
    have "proxy_args types words off = Inl OutsideRead \<and> stub_args types words off = Inl OutsideRead"
      if "off + 2 \<le> length words"
    proof -
      have last: "length words - off - 1 \<in> set ?is" "length types \<le> length words - off - 1" using False that by auto
      have "arg_lines (proxy_line types words) ?is = Inl OutsideRead"
        by (rule arg_lines_fault [where line = "proxy_line types words", OF last(1) bad(1) [OF last(2)]]) (use only in blast)
      moreover have "arg_lines (stub_line types words) ?is = Inl OutsideRead"
        by (rule arg_lines_fault [where line = "stub_line types words", OF last(1) bad(2) [OF last(2)]]) (use only in blast)
      ultimately show ?thesis using that by (simp add: proxy_args_def stub_args_def)
    qed
    then show ?thesis using False by (auto simp: proxy_args_def stub_args_def)
  qed
qed

end
