(* ===== verification/Spec2Isabelle.thy ===== *)
theory Spec2Isabelle
  imports RingBuffer Message Packet Framing Network NetworkRecv Sector ChatServer ChatRecv MsgCount ChatInv ChatCount ChatRun ChatProps Pool LockFree LockFreeQueue SessionIo Parser ConfigText EchoMessage Zone ZoneAbs ZoneRef ZoneProps EchoZone ZoneLap Monitor MonitorInv MonitorProps MonitorDB Login LoginInv LoginProps LanClientProps LockGuard Idl IdlText IdlProps IdlGrammar IdlGen
begin

text \<open>
  A verification library of a set of game servers for Windows, written in C++ around I/O completion ports: a chatting
  server, a login server, an echo game server whose clients move between zones, and a monitor server that collects
  what the others report. They share a network library, copied into each project, with its buffers, pools and
  lock-free containers.

  \<^bold>\<open>How the parts interact.\<close> The network library (\<^verbatim>\<open>CLanServer\<close>) accepts connections into session slots and
  receives into the ring buffer of the session. It cuts the bytes into frames, decodes each frame into a message of the
  thread-local pool, and hands the message to the virtual function \<^verbatim>\<open>OnRecv\<close>. Each server overrides \<^verbatim>\<open>OnAccept\<close>,
  \<^verbatim>\<open>OnRecv\<close> and \<^verbatim>\<open>OnRelease\<close>: the chatting server moves the message into a lock-free queue for its own
  threads, the login and the monitor server handle it under a lock, and the zone server passes the session from zone to
  zone. A request is read by the generated \<^verbatim>\<open>Stub\<close>, an answer is written over the same message by the generated
  \<^verbatim>\<open>Proxy\<close> and queued for the session by \<^verbatim>\<open>Unicast\<close> or \<^verbatim>\<open>BroadCast\<close>. The chatting server is also a
  client: through \<^verbatim>\<open>CLanClient\<close> it reports its counters to the monitor server, which keeps them for its tools and
  writes them into a database. Each server reads its settings with the configuration parser.

  \<^bold>\<open>How the code is modelled.\<close> A class is a record with the names of its members, an enum a datatype, an integer a
  word of its width. A member function is a definition on the state. Windows, the databases and the random generators
  are arguments: what a call answers, the bytes the kernel delivers, the uninitialised bytes of a header and the random
  key. What is asked of them is kept in a log. A \<^verbatim>\<open>__debugbreak\<close>, an uncaught exception and an access outside an
  object are \<open>None\<close> or an error of a sum, so no property assumes them away. Where threads share memory without a
  lock (\<open>LockFree\<close>, \<open>LockFreeQueue\<close>, \<open>SessionIo\<close>, \<open>LockGuard\<close>, the zone queues) each access is a step of its own; elsewhere a
  handler is one step, under the lock the code holds.

  \<^bold>\<open>The theories\<close>, in the order they build on each other.

  \<^item> \<open>Prelude\<close>: widths, checked reads and writes of byte arrays, bytes of words. \<open>Threads\<close>: sums over threads that interleave.

  \<^item> \<open>RingBuffer\<close> (\<^verbatim>\<open>MT_CRingBuffer\<close>): every operation refines a bounded FIFO of bytes, the locale \<open>byte_fifo\<close>
    interpreted as \<open>ring\<close>. \<open>Message\<close> (\<^verbatim>\<open>SerializeBuffer_exception\<close>): the buffer with its exceptions; \<^verbatim>\<open>DeCoding\<close>
    inverts \<^verbatim>\<open>EnCoding\<close>. \<open>Packet\<close> (\<^verbatim>\<open>RPC/Stub.cpp\<close>, \<^verbatim>\<open>Proxy.cpp\<close>): dispatch and the frames of the
    answers. \<open>Framing\<close>: what the receive loop does to a byte stream, on lists.

  \<^item> \<open>Network\<close> (\<^verbatim>\<open>CNetworkLib.cpp\<close>, \<^verbatim>\<open>clsSession\<close>): every member function of \<^verbatim>\<open>CLanServer\<close>.
    \<open>NetworkRecv\<close>: the receive path refines \<open>Framing\<close> for every server that meets the locale \<open>recv_client\<close>. \<open>MsgCount\<close>: the use
    counts of the messages cover their holders, in the locales \<open>msg_client\<close> and \<open>msg_server\<close>. \<open>SessionIo\<close>: the count of one session
    access by access; the release happens at most once and is not lost.

  \<^item> \<open>Sector\<close>, \<open>ChatServer\<close> (\<^verbatim>\<open>CMTChattingServer.cpp\<close>, \<^verbatim>\<open>Contents\<close>): the chatting server. \<open>ChatRecv\<close>
    interprets \<open>recv_client\<close> as \<open>chat\<close> and carries the stream of a client to the queue of its thread; \<open>ChatCount\<close> interprets
    \<open>msg_server\<close> as \<open>chat_msgs\<close>; \<open>ChatInv\<close> is the invariant of the tables, \<open>ChatRun\<close> the state machine of all threads, and
    \<open>ChatProps\<close> what holds in every state it reaches, with the two packets by which a client ends the server.

  \<^item> \<open>Pool\<close> (\<^verbatim>\<open>CTlsObjectPool\<close>, \<^verbatim>\<open>CObjectPool_UnSafeMT\<close>): the pools of the threads and their manager at
    pointer level. The locale \<open>node_pool\<close> is interpreted for them (\<open>tls\<close>) and for the set of free nodes the servers are modelled with
    (\<open>msgs\<close>). \<open>LockFree\<close> (\<^verbatim>\<open>CLockFreeStack\<close>, \<^verbatim>\<open>CLockFreeMemoryPool\<close>): the stack with its tagged pointers is
    linearizable. \<open>LockFreeQueue\<close> (\<^verbatim>\<open>CLockFreeQueue\<close>): steps of the queue; calls that do not overlap are a FIFO.

  \<^item> \<open>Parser\<close>, \<open>ConfigText\<close> (\<^verbatim>\<open>Parser.cpp\<close>): searches and conversions; what is read from a printed file.

  \<^item> \<open>EchoMessage\<close>, \<open>Zone\<close>, \<open>ZoneAbs\<close>, \<open>ZoneRef\<close>, \<open>ZoneProps\<close>, \<open>EchoZone\<close>, \<open>ZoneLap\<close> (\<^verbatim>\<open>CZoneNetworkLib.cpp\<close>,
    \<^verbatim>\<open>clsLoginZone.cpp\<close>, \<^verbatim>\<open>clsEchoZone.cpp\<close>): the echo game server. Its threads implement a transition system of
    the places of the slots and the tables, whose invariants give which traps can be reached; a lap of a zone ends.

  \<^item> \<open>Monitor\<close>, \<open>MonitorInv\<close>, \<open>MonitorProps\<close>, \<open>MonitorDB\<close> (\<^verbatim>\<open>MonitorServer/CTestServer.cpp\<close>): clients and tables, and the way of
    a report to the statements for the database.

  \<^item> \<open>Login\<close>, \<open>LoginInv\<close>, \<open>LoginProps\<close> (\<^verbatim>\<open>LoginServer.cpp\<close>): one answer for a session, what it says, and the entry of an account
    that outlives its session.

  \<^item> \<open>LanClient\<close> (\<^verbatim>\<open>CLanClient.cpp\<close>, \<^verbatim>\<open>CTestClient.cpp\<close>): the client library and the monitor client.
    \<open>LanClientInv\<close> and \<open>LanClientCount\<close>: what each member function keeps. \<open>LanClientReport\<close>: a value read by the timer thread arrives at
    the handler of the monitor server. \<open>LanClientProps\<close>: the count of the session, and three ways in which the client fails.

  \<^item> \<open>LockGuard\<close> (\<^verbatim>\<open>DeadLockGuard_lib\<close>): the lock of the debugging build, with what it reports and what it misses.

  \<^item> \<open>Idl\<close>, \<open>IdlText\<close>, \<open>IdlProps\<close>, \<open>IdlGrammar\<close>, \<open>IdlGen\<close> (\<^verbatim>\<open>IDL_Complier.cpp\<close>): the compiler
    of the interface files. Reading inverts a grammar of these files, up to the header with the packet numbers; the arguments a
    generated proxy writes are those the stub reads; and the search for a word has no end of its own behind the text.

  \<^bold>\<open>Bounds.\<close> A pointer of the lock-free containers carries a counter in the 17 bits above its address, so the
  properties of the stack hold for fewer than \<open>2^17\<close> pushes, after which the counter repeats; the queue is followed for
  \<open>2^39\<close> calls, as many as there are addresses of nodes, and a call of it that runs alone takes at most nine steps. A session
  identifier holds the slot in 17 bits and a sequence number in 47, so there are at most \<open>2^17\<close> slots and \<open>2^47\<close> accepts.
  A call of the interface compiler's \<^verbatim>\<open>WordSplit\<close> nests at most as deep as its text is long, which is its fuel.
  The count of a session carries the release flag in bit 47 and is followed for \<open>2^46\<close> steps, the client's for
  \<open>2^40\<close> events: no thread can add up to the flag. A receive handles at most 150 messages, as the code does; the loop of the
  client, which has no such limit, takes as fuel the bytes in the buffer and one more, and each turn removes at least a header. The
  lap of a zone takes at most three steps for a queued session, two for a listed one, one for a message and four.
  Runs are finite sequences of steps in any order and of any length, up to these bounds.

  \<^bold>\<open>Not modelled.\<close> Logging, profiling and the counters of the processor, which only write what nothing reads back.
  The wrappers of threads and interlocked operations, whose effect is part of the definitions that call them, and of MySQL and the dump writer. The
  start-up of the servers, which reads the configuration, makes the threads and answers the console. Of the
  interface compiler the split of a declaration into its parameters and the fixed text around the arguments; what it generated for
  the chatting server is what \<open>Packet\<close> models. The queue \<^verbatim>\<open>CTlsLockFreeQueue\<close> differs
  from \<^verbatim>\<open>CLockFreeQueue\<close> in the pool its nodes come from. The redis client and everything else under
  \<^verbatim>\<open>cpp_redis\<close> is third-party code; what the servers ask of it is an argument. The copies of the network library in
  the login, monitor and echo servers are those of the chatting server up to their packets, except where the echo server's
  serialization buffer differs (\<open>EchoMessage\<close>). Calls of the queue that overlap are followed step by step, but that they are
  linearizable is not proved.
\<close>

end
